(* ===== verification/RT_Prelude.thy ===== *)
theory RT_Prelude
  imports Main "HOL-Library.Word" "HOL-Library.Monad_Syntax"
begin

text \<open>
  Shared vocabulary of the development: the machine types of \<open>include/rtdef.h\<close>, the error codes,
  the alignment macros, the collections of rewrite rules the component theories extend, and the
  generic facts on lists, options and words they use.

  Conventions. A partial operation returns an \<open>option\<close>: \<open>None\<close> means that the kernel stops there
  (a failed \<open>RT_ASSERT\<close>, which loops forever in \<open>include/rtdebug.h\<close>, an access outside an array,
  or a loop that does not end); \<open>Some\<close> carries the values the C function returns and the new state.
\<close>

unbundle bit_operations_syntax

named_theorems link_simps \<open>rewrite rules on the doubly linked lists\<close>
named_theorems kernel_defs \<open>unfolding equations of kernel operations\<close>

type_synonym u8 = "8 word"
type_synonym u16 = "16 word"
type_synonym u32 = "32 word"
type_synonym rt_err_t = int

section \<open>Error codes and constants\<close>

definition RT_EOK :: rt_err_t where "RT_EOK = 0"
definition RT_ERROR :: rt_err_t where "RT_ERROR = 1"
definition RT_ETIMEOUT :: rt_err_t where "RT_ETIMEOUT = 2"
definition RT_EFULL :: rt_err_t where "RT_EFULL = 3"
definition RT_EEMPTY :: rt_err_t where "RT_EEMPTY = 4"
definition RT_ENOMEM :: rt_err_t where "RT_ENOMEM = 5"
definition RT_ENOSYS :: rt_err_t where "RT_ENOSYS = 6"
definition RT_EBUSY :: rt_err_t where "RT_EBUSY = 7"
definition RT_EIO :: rt_err_t where "RT_EIO = 8"

lemmas err_defs = RT_EOK_def RT_ERROR_def RT_ETIMEOUT_def RT_EFULL_def RT_EEMPTY_def
  RT_ENOMEM_def RT_ENOSYS_def RT_EBUSY_def RT_EIO_def

text \<open>\<open>RT_TICK_MAX\<close> is the largest 32-bit value; the timer code compares against its half.\<close>

definition RT_TICK_MAX :: u32 where "RT_TICK_MAX = 0xffffffff"
definition RT_ALIGN_SIZE :: u32 where "RT_ALIGN_SIZE = 8"
definition RT_NAME_MAX :: nat where "RT_NAME_MAX = 8"
definition RT_THREAD_PRIORITY_MAX :: nat where "RT_THREAD_PRIORITY_MAX = 32"
definition RT_TICK_PER_SECOND :: u32 where "RT_TICK_PER_SECOND = 100"

text \<open>The alignment macros \<open>RT_ALIGN\<close> and \<open>RT_ALIGN_DOWN\<close>.\<close>

definition RT_ALIGN :: "u32 \<Rightarrow> u32 \<Rightarrow> u32" where
  "RT_ALIGN sz align = (sz + align - 1) AND NOT (align - 1)"

definition RT_ALIGN_DOWN :: "u32 \<Rightarrow> u32 \<Rightarrow> u32" where
  "RT_ALIGN_DOWN sz align = sz AND NOT (align - 1)"

text \<open>\<open>RT_ASSERT(EX)\<close>: continue when the condition holds, stop otherwise.\<close>

definition RT_ASSERT :: "bool \<Rightarrow> unit option" where
  "RT_ASSERT ex = (if ex then Some () else None)"

lemma RT_ASSERT_simps [simp]:
  "RT_ASSERT True = Some ()"
  "RT_ASSERT False = None"
  "(RT_ASSERT ex = Some u) = ex"
  by (auto simp: RT_ASSERT_def)

lemma RT_ASSERT_bind_Some [simp]:
  "(RT_ASSERT ex \<bind> f = Some r) = (ex \<and> f () = Some r)"
  by (auto simp: RT_ASSERT_def)

section \<open>Generic facts\<close>

lemma bind_Some_iff:
  "(m \<bind> f = Some r) = (\<exists>x. m = Some x \<and> f x = Some r)"
  by (cases m) auto

lemma and_not_mask_mult:
  fixes x :: u32
  shows "unat (x AND NOT (mask n)) = unat x - unat x mod 2 ^ n"
proof -
  have "x AND NOT (mask n) = push_bit n (drop_bit n x)"
    by (rule bit_eqI) (auto simp: bit_simps)
  also have "\<dots> = x - take_bit n x"
    using bits_ident [of n x] by (metis add_diff_cancel_right')
  finally have "x AND NOT (mask n) = x - take_bit n x" .
  moreover have "take_bit n x \<le> x"
    by (simp add: word_le_nat_alt unsigned_take_bit_eq)
  ultimately have "unat (x AND NOT (mask n)) = unat x - unat (take_bit n x)"
    by (simp add: unat_sub)
  also have "unat (take_bit n x) = unat x mod 2 ^ n"
    by (simp add: unsigned_take_bit_eq flip: take_bit_eq_mod)
  finally show ?thesis .
qed

lemma RT_ALIGN_DOWN_8: "unat (RT_ALIGN_DOWN x RT_ALIGN_SIZE) = unat x - unat x mod 8"
proof -
  have "(7 :: u32) = mask 3" by (simp add: mask_eq_exp_minus_1)
  then show ?thesis
    using and_not_mask_mult [of x 3]
    by (simp add: RT_ALIGN_DOWN_def RT_ALIGN_SIZE_def)
qed

lemma RT_ALIGN_8:
  assumes "unat x + 7 < 2 ^ 32"
  shows "unat (RT_ALIGN x RT_ALIGN_SIZE) = (unat x + 7) div 8 * 8"
proof -
  have m: "(7 :: u32) = mask 3" by (simp add: mask_eq_exp_minus_1)
  have s: "unat (x + 7) = unat x + 7"
    using assms by (simp add: unat_word_ariths)
  have "unat (RT_ALIGN x RT_ALIGN_SIZE) = unat ((x + 7) AND NOT (mask 3))"
    using m by (simp add: RT_ALIGN_def RT_ALIGN_SIZE_def add.commute)
  also have "\<dots> = unat x + 7 - (unat x + 7) mod 8"
    using and_not_mask_mult [of "x + 7" 3] s by simp
  also have "\<dots> = (unat x + 7) div 8 * 8"
    by (simp add: minus_mod_eq_div_mult)
  finally show ?thesis .
qed

lemma uint_inject: "(uint a = uint b) = (a = b)"
  by (metis word_of_int_uint)

lemma ucast_u8_u32_inject: "((ucast (a :: u8) :: u32) = ucast b) = (a = b)"
proof
  assume "(ucast a :: u32) = ucast b"
  then have "ucast (ucast a :: u32) = (ucast (ucast b :: u32) :: u8)" by simp
  moreover have "ucast (ucast x :: u32) = x" for x :: u8 by (rule bit_word_eqI) (auto simp: bit_simps)
  ultimately show "a = b" by simp
qed simp

lemma distinct_split_unique:
  assumes "distinct (us @ x # vs)"
  shows "x \<notin> set us" "x \<notin> set vs"
  using assms by auto

lemma remove1_split:
  "x \<notin> set us \<Longrightarrow> remove1 x (us @ x # vs) = us @ vs"
  by (simp add: remove1_append)

text \<open>
  The allocators compute with sizes and offsets of type \<open>rt_size_t\<close> (32 bits, unsigned). There the
  numbers are naturals and the two operations that may wrap are written out.
\<close>

definition add32 :: "nat \<Rightarrow> nat \<Rightarrow> nat" where "add32 a b = (a + b) mod 2 ^ 32"
definition sub32 :: "nat \<Rightarrow> nat \<Rightarrow> nat" where "sub32 a b = (a + (2 ^ 32 - b)) mod 2 ^ 32"
definition align32 :: "nat \<Rightarrow> nat" where "align32 n = unat (RT_ALIGN (of_nat n) RT_ALIGN_SIZE)"
definition align_down32 :: "nat \<Rightarrow> nat" where "align_down32 n = unat (RT_ALIGN_DOWN (of_nat n) RT_ALIGN_SIZE)"

lemma add32_small: "a + b < 2 ^ 32 \<Longrightarrow> add32 a b = a + b"
  by (simp add: add32_def)

lemma sub32_small: "b \<le> a \<Longrightarrow> a < 2 ^ 32 \<Longrightarrow> sub32 a b = a - b"
proof -
  assume "b \<le> a" "a < 2 ^ 32"
  then have e: "a + (2 ^ 32 - b) = (a - b) + 2 ^ 32" by simp
  show ?thesis unfolding sub32_def e using \<open>a < 2 ^ 32\<close> by (simp add: less_imp_diff_less)
qed

lemma align32_small: "n + 7 < 2 ^ 32 \<Longrightarrow> align32 n = (n + 7) div 8 * 8"
  using RT_ALIGN_8 [of "of_nat n"] by (simp add: align32_def unat_of_nat)

lemma align_down32_small: "n < 2 ^ 32 \<Longrightarrow> align_down32 n = n - n mod 8"
  using RT_ALIGN_DOWN_8 [of "of_nat n"] by (simp add: align_down32_def unat_of_nat)

end
