(* ===== verification/RT_List.thy ===== *)
theory RT_List
  imports RT_Prelude
begin

text \<open>
  The intrusive circular doubly linked lists of \<open>include/rtservice.h\<close>, on which every queue of the
  kernel is built. The \<open>next\<close> and \<open>prev\<close> fields of all nodes live in an explicit store
  (record \<open>links\<close>), so that a node can be unlinked without knowing the list it is on, exactly as
  \<open>rt_list_remove\<close> does. The predicate \<open>lists_rep\<close> abstracts a store to a HOL list per list head;
  the lemmas show that each pointer operation implements the corresponding list operation, and the
  locale \<open>list_service\<close> states this contract for the client theories.
\<close>

section \<open>Nodes and stores\<close>

text \<open>A node is either a list head or the node embedded in an element.\<close>

datatype ('h, 'e) lnode = LHead 'h | LElem 'e

record 'n links =
  lnext :: "'n \<Rightarrow> 'n"
  lprev :: "'n \<Rightarrow> 'n"

definition rt_list_init :: "'n \<Rightarrow> 'n links \<Rightarrow> 'n links" where
  "rt_list_init l k = k\<lparr>lnext := (lnext k)(l := l), lprev := (lprev k)(l := l)\<rparr>"

definition rt_list_insert_after :: "'n \<Rightarrow> 'n \<Rightarrow> 'n links \<Rightarrow> 'n links" where
  "rt_list_insert_after l n k0 =
    (let k1 = k0\<lparr>lprev := (lprev k0)(lnext k0 l := n)\<rparr>;
         k2 = k1\<lparr>lnext := (lnext k1)(n := lnext k1 l)\<rparr>;
         k3 = k2\<lparr>lnext := (lnext k2)(l := n)\<rparr>;
         k4 = k3\<lparr>lprev := (lprev k3)(n := l)\<rparr>
     in k4)"

definition rt_list_insert_before :: "'n \<Rightarrow> 'n \<Rightarrow> 'n links \<Rightarrow> 'n links" where
  "rt_list_insert_before l n k0 =
    (let k1 = k0\<lparr>lnext := (lnext k0)(lprev k0 l := n)\<rparr>;
         k2 = k1\<lparr>lprev := (lprev k1)(n := lprev k1 l)\<rparr>;
         k3 = k2\<lparr>lprev := (lprev k2)(l := n)\<rparr>;
         k4 = k3\<lparr>lnext := (lnext k3)(n := l)\<rparr>
     in k4)"

definition rt_list_remove :: "'n \<Rightarrow> 'n links \<Rightarrow> 'n links" where
  "rt_list_remove n k0 =
    (let k1 = k0\<lparr>lprev := (lprev k0)(lnext k0 n := lprev k0 n)\<rparr>;
         k2 = k1\<lparr>lnext := (lnext k1)(lprev k1 n := lnext k1 n)\<rparr>;
         k3 = k2\<lparr>lprev := (lprev k2)(n := n)\<rparr>;
         k4 = k3\<lparr>lnext := (lnext k3)(n := n)\<rparr>
     in k4)"

definition rt_list_isempty :: "'n \<Rightarrow> 'n links \<Rightarrow> bool" where
  "rt_list_isempty l k \<longleftrightarrow> lnext k l = l"

text \<open>
  \<open>rt_list_entry\<close>: the structure that contains a node. A head is contained in no element, so
  reading an element through it is an access to something else: \<open>None\<close>.
\<close>

fun rt_list_entry :: "('h, 'e) lnode \<Rightarrow> 'e option" where
  "rt_list_entry (LHead h) = None"
| "rt_list_entry (LElem e) = Some e"

section \<open>Rings\<close>

text \<open>In a sound store \<open>prev\<close> is the inverse of \<open>next\<close>.\<close>

definition ring_ok :: "'n links \<Rightarrow> bool" where
  "ring_ok k \<longleftrightarrow> (\<forall>n. lprev k (lnext k n) = n) \<and> (\<forall>n. lnext k (lprev k n) = n)"

lemma ring_okD [simp]:
  assumes "ring_ok k"
  shows "lprev k (lnext k n) = n" "lnext k (lprev k n) = n"
  using assms by (auto simp: ring_ok_def)

lemma ring_next_inj:
  assumes "ring_ok k" "lnext k a = lnext k b"
  shows "a = b"
  using assms ring_okD(1) by metis

lemma ring_self:
  assumes "ring_ok k"
  shows "(lprev k n = n) = (lnext k n = n)"
  using assms ring_okD by metis

lemma insert_after_next:
  "n \<noteq> l \<Longrightarrow> lnext (rt_list_insert_after l n k) = (lnext k)(n := lnext k l, l := n)"
  by (auto simp: rt_list_insert_after_def Let_def fun_eq_iff)

lemma insert_after_prev:
  "n \<noteq> l \<Longrightarrow> lprev (rt_list_insert_after l n k) = (lprev k)(lnext k l := n, n := l)"
  by (auto simp: rt_list_insert_after_def Let_def fun_eq_iff)

lemma insert_before_as_after:
  assumes "ring_ok k" "n \<noteq> l" "lnext k n = n"
  shows "rt_list_insert_before l n k = rt_list_insert_after (lprev k l) n k"
proof -
  from assms have "n \<noteq> lprev k l" by (metis ring_okD(2))
  with assms show ?thesis
    by (auto simp: rt_list_insert_before_def rt_list_insert_after_def Let_def fun_eq_iff)
qed

lemma ring_insert_after:
  assumes r: "ring_ok k" and "n \<noteq> l" "lnext k n = n"
  shows "ring_ok (rt_list_insert_after l n k)"
proof -
  have p: "lprev k n = n" using assms ring_self by metis
  have nl: "lnext k l \<noteq> n" using assms ring_next_inj by metis
  have inj: "lnext k m = lnext k l \<Longrightarrow> m = l" for m using ring_next_inj [OF r] .
  have bk: "lprev k m = n \<Longrightarrow> m = n" "lprev k m = l \<Longrightarrow> m = lnext k l" for m
    using assms(3) ring_okD(2) [OF r, of m] by simp_all
  show ?thesis
    unfolding ring_ok_def insert_after_next [OF assms(2)] insert_after_prev [OF assms(2)]
  proof (intro conjI allI)
    fix m
    show "((lprev k)(lnext k l := n, n := l)) (((lnext k)(n := lnext k l, l := n)) m) = m"
      using assms nl p inj [of m] ring_next_inj [OF r, of m n] by auto
    show "((lnext k)(n := lnext k l, l := n)) (((lprev k)(lnext k l := n, n := l)) m) = m"
    proof (cases "m = n \<or> m = lnext k l")
      case True
      then show ?thesis using assms(2) nl by auto
    next
      case False
      then have "lprev k m \<noteq> n" "lprev k m \<noteq> l" using bk [of m] by blast+
      with False show ?thesis using ring_okD(2) [OF r, of m] by simp
    qed
  qed
qed

lemma remove_next:
  assumes "ring_ok k"
  shows "lnext (rt_list_remove n k) = (lnext k)(lprev k n := lnext k n, n := n)"
proof (cases "lnext k n = n")
  case True
  then have "lprev k n = n" using assms ring_self by metis
  with True show ?thesis by (auto simp: rt_list_remove_def Let_def)
next
  case False
  then have "lprev k n \<noteq> n" using assms ring_self by metis
  with False show ?thesis by (auto simp: rt_list_remove_def Let_def)
qed

lemma remove_prev:
  assumes "ring_ok k"
  shows "lprev (rt_list_remove n k) = (lprev k)(lnext k n := lprev k n, n := n)"
  by (auto simp: rt_list_remove_def Let_def)

lemma ring_remove:
  assumes r: "ring_ok k"
  shows "ring_ok (rt_list_remove n k)"
  unfolding ring_ok_def remove_next [OF r] remove_prev [OF r]
proof (intro conjI allI)
  fix m
  show "((lprev k)(lnext k n := lprev k n, n := n)) (((lnext k)(lprev k n := lnext k n, n := n)) m) = m"
    using ring_okD [OF r] by (auto, metis+)
  show "((lnext k)(lprev k n := lnext k n, n := n)) (((lprev k)(lnext k n := lprev k n, n := n)) m) = m"
    using ring_okD [OF r] by (auto, metis+)
qed

section \<open>Paths\<close>

text \<open>\<open>lpath f a xs b\<close>: following \<open>f\<close> from \<open>a\<close> visits exactly \<open>xs\<close> and then \<open>b\<close>.\<close>

fun lpath :: "('n \<Rightarrow> 'n) \<Rightarrow> 'n \<Rightarrow> 'n list \<Rightarrow> 'n \<Rightarrow> bool" where
  "lpath f a [] b = (f a = b)"
| "lpath f a (x # xs) b = (f a = x \<and> lpath f x xs b)"

lemma lpath_append [simp]:
  "lpath f a (xs @ y # ys) b = (lpath f a xs y \<and> lpath f y ys b)"
  by (induction xs arbitrary: a) auto

lemma lpath_upd [simp]:
  "u \<notin> set (a # xs) \<Longrightarrow> lpath (f(u := v)) a xs b = lpath f a xs b"
  by (induction xs arbitrary: a) auto

lemma lpath_upd_nodes [simp]:
  "lpath (f(LHead h := v)) (LElem a) (map LElem xs) b = lpath f (LElem a) (map LElem xs) b"
  "h \<noteq> h' \<Longrightarrow> lpath (f(LHead h := v)) (LHead h') (map LElem xs) b = lpath f (LHead h') (map LElem xs) b"
  "e \<notin> set xs \<Longrightarrow> lpath (f(LElem e := v)) (LHead h') (map LElem xs) b = lpath f (LHead h') (map LElem xs) b"
  "e \<notin> set xs \<Longrightarrow> e \<noteq> a \<Longrightarrow> lpath (f(LElem e := v)) (LElem a) (map LElem xs) b = lpath f (LElem a) (map LElem xs) b"
  by (subst lpath_upd; auto)+

lemma lpath_fixpoint:
  assumes "lpath f a xs b" "f n = n" "\<And>x y. f x = f y \<Longrightarrow> x = y" "n \<noteq> a"
  shows "n \<notin> set xs"
  using assms(1,4)
proof (induction xs arbitrary: a)
  case Nil
  then show ?case by simp
next
  case (Cons x xs)
  have "n \<noteq> x"
  proof
    assume "n = x"
    with Cons.prems assms(2) have "f a = f n" by simp
    then have "a = n" by (rule assms(3))
    with Cons.prems show False by simp
  qed
  with Cons show ?case by auto
qed

text \<open>
  Two paths that start at heads and run through elements meet only if they are the same path:
  walking back from a common node along \<open>prev\<close> must reach both heads after the same number of steps.
\<close>

lemma lpath_meet:
  assumes inj: "\<And>x y. f x = f y \<Longrightarrow> x = y"
    and "lpath f (LHead h) (map LElem (us @ [e])) b"
    and "lpath f (LHead h') (map LElem (us' @ [e])) b'"
  shows "h = h' \<and> us = us'"
  using assms(2,3)
proof (induction us arbitrary: e us' b b' rule: rev_induct)
  case Nil
  note q0 = Nil.prems(2)
  from Nil have 1: "f (LHead h) = LElem e" by simp
  show ?case
  proof (cases us' rule: rev_cases)
    case Nil
    with q0 have "f (LHead h') = f (LHead h)" using 1 by simp
    from inj [OF this] Nil show ?thesis by simp
  next
    case (snoc ys y)
    with q0 have "f (LElem y) = f (LHead h)" using 1 by simp
    from inj [OF this] show ?thesis by simp
  qed
next
  case (snoc x xs)
  note q0 = snoc.prems(2) and IH = snoc.IH
  from snoc have 1: "f (LElem x) = LElem e" and p: "lpath f (LHead h) (map LElem (xs @ [x])) (LElem e)"
    by simp_all
  show ?case
  proof (cases us' rule: rev_cases)
    case Nil
    with q0 have "f (LHead h') = f (LElem x)" using 1 by simp
    from inj [OF this] show ?thesis by simp
  next
    case (snoc ys y)
    with q0 have "f (LElem y) = f (LElem x)"
      and q: "lpath f (LHead h') (map LElem (ys @ [y])) (LElem e)" using 1 by simp_all
    from inj [OF this(1)] have "y = x" by simp
    with q have "h = h' \<and> xs = ys" using IH [OF p] by blast
    with snoc \<open>y = x\<close> show ?thesis by simp
  qed
qed

section \<open>Representation of a family of lists\<close>

definition lists_rep :: "('h, 'e) lnode links \<Rightarrow> ('h \<Rightarrow> 'e list) \<Rightarrow> bool" where
  "lists_rep k L \<longleftrightarrow> ring_ok k
     \<and> (\<forall>h. lpath (lnext k) (LHead h) (map LElem (L h)) (LHead h))
     \<and> (\<forall>e. (\<forall>h. e \<notin> set (L h)) \<longrightarrow> lnext k (LElem e) = LElem e)"

lemma lists_repD:
  assumes "lists_rep k L"
  shows "ring_ok k"
    and "lpath (lnext k) (LHead h) (map LElem (L h)) (LHead h)"
    and "(\<forall>h. e \<notin> set (L h)) \<Longrightarrow> lnext k (LElem e) = LElem e"
  using assms by (auto simp: lists_rep_def)

text \<open>An element is on at most one list, and at most once.\<close>

lemma lists_rep_unique:
  assumes R: "lists_rep k L" and "L h = us @ e # vs" "L h' = us' @ e # vs'"
  shows "h = h' \<and> us = us'"
proof -
  have r: "ring_ok k" by (rule lists_repD(1) [OF R])
  have p: "lpath (lnext k) (LHead h) (map LElem (us @ [e])) (lnext k (LElem e))"
    using lists_repD(2) [OF R, of h] assms(2) by simp
  have q: "lpath (lnext k) (LHead h') (map LElem (us' @ [e])) (lnext k (LElem e))"
    using lists_repD(2) [OF R, of h'] assms(3) by simp
  show ?thesis by (rule lpath_meet [OF ring_next_inj [OF r] p q])
qed

lemma lists_rep_disjoint:
  assumes "lists_rep k L" "e \<in> set (L h)" "e \<in> set (L h')"
  shows "h = h'"
proof -
  obtain us vs where "L h = us @ e # vs" using assms(2) by (meson split_list)
  moreover obtain us' vs' where "L h' = us' @ e # vs'" using assms(3) by (meson split_list)
  ultimately show ?thesis using lists_rep_unique [OF assms(1)] by blast
qed

lemma lists_rep_distinct:
  assumes "lists_rep k L"
  shows "distinct (L h)"
proof (rule ccontr)
  assume "\<not> distinct (L h)"
  then obtain us vs ws e where "L h = us @ e # vs @ e # ws"
    using not_distinct_decomp [of "L h"] by auto
  then have "us = us @ e # vs"
    using lists_rep_unique [OF assms, of h us e "vs @ e # ws" h "us @ e # vs" ws] by simp
  then show False by simp
qed

lemma lists_rep_isempty:
  assumes "lists_rep k L"
  shows "rt_list_isempty (LHead h) k = (L h = [])"
  using lists_repD(2) [OF assms, of h] by (cases "L h") (auto simp: rt_list_isempty_def)

lemma lists_rep_first:
  assumes "lists_rep k L" "L h \<noteq> []"
  shows "lnext k (LHead h) = LElem (hd (L h))"
  using lists_repD(2) [OF assms(1), of h] assms(2) by (cases "L h") auto

lemma lists_rep_last:
  assumes "lists_rep k L" "L h \<noteq> []"
  shows "lprev k (LHead h) = LElem (last (L h))"
proof -
  obtain xs x where "L h = xs @ [x]" using assms(2) by (metis rev_exhaust)
  with lists_repD(2) [OF assms(1), of h] have "lnext k (LElem x) = LHead h" by simp
  then have "lprev k (LHead h) = LElem x"
    by (metis ring_okD(1) [OF lists_repD(1) [OF assms(1)]])
  with \<open>L h = xs @ [x]\<close> show ?thesis by simp
qed

lemma lists_rep_off_list:
  fixes k :: "('h, 'e) lnode links"
  assumes "lists_rep k L" "lnext k (LElem e) = LElem e"
  shows "e \<notin> set (L h)"
proof -
  note inj = ring_next_inj [OF lists_repD(1) [OF assms(1)]]
  have "LElem e \<notin> set (map LElem (L h) :: ('h, 'e) lnode list)"
    using lpath_fixpoint [OF lists_repD(2) [OF assms(1), of h] assms(2) inj] by simp
  then show ?thesis by auto
qed

lemma lists_rep_off_iff:
  assumes "lists_rep k L"
  shows "(lnext k (LElem e) = LElem e) = (\<forall>h. e \<notin> set (L h))"
  using assms lists_rep_off_list lists_repD(3) by metis

text \<open>All heads and detached elements linked to themselves: every list is empty.\<close>

definition links_empty :: "'n links" where
  "links_empty = \<lparr>lnext = (\<lambda>n. n), lprev = (\<lambda>n. n)\<rparr>"

lemma lists_rep_empty: "lists_rep links_empty (\<lambda>_. [])"
  by (simp add: lists_rep_def links_empty_def ring_ok_def)

section \<open>The pointer operations implement the list operations\<close>

lemma lists_rep_insert_after_head:
  assumes R: "lists_rep k L" and off: "\<forall>h'. e \<notin> set (L h')"
  shows "lists_rep (rt_list_insert_after (LHead h) (LElem e) k) (L(h := e # L h))"
proof -
  have r: "ring_ok k" and se: "lnext k (LElem e) = LElem e"
    using lists_repD [OF R] off by auto
  have ne: "LElem e \<noteq> LHead h" by simp
  have p: "lpath (lnext k) (LHead h') (map LElem (L h')) (LHead h')" for h'
    by (rule lists_repD(2) [OF R])
  have "lpath ((lnext k)(LElem e := lnext k (LHead h), LHead h := LElem e)) (LHead h)
          (map LElem (e # L h)) (LHead h)"
    using p [of h] spec [OF off, of h] by (cases "L h") auto
  moreover have "lpath ((lnext k)(LElem e := lnext k (LHead h), LHead h := LElem e)) (LHead h')
          (map LElem (L h')) (LHead h')" if "h' \<noteq> h" for h'
    using p [of h'] off that by simp
  ultimately show ?thesis
    using ring_insert_after [OF r ne se] lists_repD(3) [OF R]
    by (auto simp: lists_rep_def insert_after_next [OF ne])
qed

lemma lists_rep_insert_after_elem:
  assumes R: "lists_rep k L" and off: "\<forall>h'. e \<notin> set (L h')" and L: "L h = us @ u # vs"
  shows "lists_rep (rt_list_insert_after (LElem u) (LElem e) k) (L(h := us @ u # e # vs))"
proof -
  have r: "ring_ok k" and se: "lnext k (LElem e) = LElem e"
    using lists_repD [OF R] off by auto
  have "u \<in> set (L h)" using L by simp
  with off have "e \<noteq> u" by blast
  then have ne: "LElem e \<noteq> LElem u" by simp
  have p: "lpath (lnext k) (LHead h') (map LElem (L h')) (LHead h')" for h'
    by (rule lists_repD(2) [OF R])
  have d: "distinct (us @ u # vs)" using lists_rep_distinct [OF R, of h] L by simp
  have off': "e \<notin> set us" "e \<notin> set vs" using off L by (metis Un_iff set_append list.set_intros(2))+
  let ?f = "(lnext k)(LElem e := lnext k (LElem u), LElem u := LElem e)"
  have "lpath ?f (LHead h) (map LElem us) (LElem u)"
    using p [of h] off' d L by simp
  moreover have "lpath ?f (LElem e) (map LElem vs) (LHead h)"
    using p [of h] off' d L ne by (cases vs) auto
  ultimately have "lpath ?f (LHead h) (map LElem (us @ u # e # vs)) (LHead h)"
    by simp
  moreover have "lpath ?f (LHead h') (map LElem (L h')) (LHead h')" if "h' \<noteq> h" for h'
  proof -
    have "u \<notin> set (L h')" using lists_rep_disjoint [OF R, of u h h'] that L by auto
    then show ?thesis using p [of h'] off by simp
  qed
  moreover have "?f (LElem x) = LElem x" if "\<forall>h'. x \<notin> set ((L(h := us @ u # e # vs)) h')" for x
  proof -
    have "x \<notin> set (L h')" for h' using spec [OF that, of h'] L by (cases "h' = h") auto
    moreover have "x \<noteq> u" "x \<noteq> e" using spec [OF that, of h] by auto
    ultimately show ?thesis using lists_repD(3) [OF R, of x] by simp
  qed
  ultimately show ?thesis
    using ring_insert_after [OF r ne se]
    by (simp add: lists_rep_def insert_after_next [OF ne])
qed

lemma lists_rep_prev_elem:
  assumes R: "lists_rep k L" and L: "L h = us @ u # vs"
  shows "lprev k (LElem u) = (if us = [] then LHead h else LElem (last us))"
proof -
  have r: "ring_ok k" by (rule lists_repD(1) [OF R])
  have "lpath (lnext k) (LHead h) (map LElem us) (LElem u)"
    using lists_repD(2) [OF R, of h] L by simp
  then have "lnext k (if us = [] then LHead h else LElem (last us)) = LElem u"
    by (cases us rule: rev_cases) auto
  then show ?thesis using ring_okD(1) [OF r] by metis
qed

lemma lists_rep_next_elem:
  assumes R: "lists_rep k L" and L: "L h = us @ u # vs"
  shows "lnext k (LElem u) = (if vs = [] then LHead h else LElem (hd vs))"
  using lists_repD(2) [OF R, of h] L by (cases vs) auto

lemma lists_rep_insert_before_head:
  assumes R: "lists_rep k L" and off: "\<forall>h'. e \<notin> set (L h')"
  shows "lists_rep (rt_list_insert_before (LHead h) (LElem e) k) (L(h := L h @ [e]))"
proof -
  have r: "ring_ok k" and se: "lnext k (LElem e) = LElem e"
    using lists_repD [OF R] off by auto
  have eq: "rt_list_insert_before (LHead h) (LElem e) k
      = rt_list_insert_after (lprev k (LHead h)) (LElem e) k"
    by (rule insert_before_as_after [OF r _ se]) simp
  show ?thesis
  proof (cases "L h" rule: rev_cases)
    case Nil
    then have "lnext k (LHead h) = LHead h" using lists_repD(2) [OF R, of h] by simp
    then have "lprev k (LHead h) = LHead h" using r ring_self by metis
    with Nil eq show ?thesis using lists_rep_insert_after_head [OF R off, of h] by simp
  next
    case (snoc ys y)
    then have "lprev k (LHead h) = LElem y" using lists_rep_last [OF R, of h] by simp
    with snoc eq show ?thesis
      using lists_rep_insert_after_elem [OF R off, of h ys y "[]"] by simp
  qed
qed

lemma lists_rep_insert_before_elem:
  assumes R: "lists_rep k L" and off: "\<forall>h'. e \<notin> set (L h')" and L: "L h = us @ u # vs"
  shows "lists_rep (rt_list_insert_before (LElem u) (LElem e) k) (L(h := us @ e # u # vs))"
proof -
  have r: "ring_ok k" and se: "lnext k (LElem e) = LElem e"
    using lists_repD [OF R] off by auto
  have "u \<in> set (L h)" using L by simp
  with off have "e \<noteq> u" by blast
  then have eq: "rt_list_insert_before (LElem u) (LElem e) k
      = rt_list_insert_after (lprev k (LElem u)) (LElem e) k"
    by (intro insert_before_as_after [OF r _ se]) simp
  note pe = lists_rep_prev_elem [OF R L]
  show ?thesis
  proof (cases us rule: rev_cases)
    case Nil
    with eq pe L show ?thesis using lists_rep_insert_after_head [OF R off, of h] by simp
  next
    case (snoc ys y)
    with eq pe L show ?thesis
      using lists_rep_insert_after_elem [OF R off, of h ys y "u # vs"] by simp
  qed
qed

lemma rt_list_remove_self:
  assumes "ring_ok k" "lnext k n = n"
  shows "rt_list_remove n k = k"
proof -
  have "lprev k n = n" using assms ring_self by metis
  with assms show ?thesis by (simp add: rt_list_remove_def Let_def fun_upd_idem)
qed

lemma lists_rep_remove_at:
  assumes R: "lists_rep k L" and L: "L h = us @ e # vs"
  shows "lists_rep (rt_list_remove (LElem e) k) (L(h := us @ vs))"
proof -
  have r: "ring_ok k" by (rule lists_repD(1) [OF R])
  have p: "lpath (lnext k) (LHead h') (map LElem (L h')) (LHead h')" for h'
    by (rule lists_repD(2) [OF R])
  have d: "distinct (us @ e # vs)" using lists_rep_distinct [OF R, of h] L by simp
  note pe = lists_rep_prev_elem [OF R L]
  let ?f = "(lnext k)(lprev k (LElem e) := lnext k (LElem e), LElem e := LElem e)"
  have "lpath ?f (LHead h) (map LElem (us @ vs)) (LHead h)"
  proof (cases us rule: rev_cases)
    case Nil
    then show ?thesis using p [of h] L d pe by (cases vs) auto
  next
    case (snoc ys y)
    then have "lpath (lnext k) (LHead h) (map LElem ys) (LElem y)"
      "lpath (lnext k) (LElem e) (map LElem vs) (LHead h)"
      using p [of h] L by simp_all
    then have "lpath ?f (LHead h) (map LElem ys) (LElem y)"
      "lpath ?f (LElem y) (map LElem vs) (LHead h)"
      using snoc d pe by (simp_all, cases vs) auto
    with snoc show ?thesis by simp
  qed
  moreover have "lpath ?f (LHead h') (map LElem (L h')) (LHead h')" if "h' \<noteq> h" for h'
  proof -
    have "e \<notin> set (L h')" using lists_rep_disjoint [OF R, of e h h'] that L by auto
    moreover have "us \<noteq> [] \<Longrightarrow> last us \<notin> set (L h')"
      using lists_rep_disjoint [OF R, of "last us" h h'] that L by auto
    ultimately show ?thesis using p [of h'] pe that by auto
  qed
  moreover have "?f (LElem x) = LElem x" if "\<forall>h'. x \<notin> set ((L(h := us @ vs)) h')" for x
  proof (cases "x = e")
    case False
    have "x \<notin> set (L h')" for h' using spec [OF that, of h'] L False by (cases "h' = h") auto
    then have off: "\<forall>h'. x \<notin> set (L h')" by blast
    have "us \<noteq> [] \<Longrightarrow> x \<noteq> last us" using spec [OF that, of h] by auto
    then show ?thesis using lists_repD(3) [OF R off] False pe by simp
  qed simp
  ultimately show ?thesis
    using ring_remove [OF r] by (simp add: lists_rep_def remove_next [OF r])
qed

text \<open>Removing an element takes it off the one list it is on, if any.\<close>

lemma lists_rep_remove:
  assumes R: "lists_rep k L"
  shows "lists_rep (rt_list_remove (LElem e) k) (\<lambda>h. remove1 e (L h))"
proof (cases "\<exists>h. e \<in> set (L h)")
  case True
  then obtain h us vs where L: "L h = us @ e # vs" by (meson split_list)
  have "e \<notin> set us" using lists_rep_distinct [OF R, of h] L by simp
  moreover have "e \<notin> set (L h')" if "h' \<noteq> h" for h'
    using lists_rep_disjoint [OF R, of e h h'] that L by auto
  ultimately have "L(h := us @ vs) = (\<lambda>h. remove1 e (L h))"
    using L by (auto simp: fun_eq_iff remove1_split remove1_idem)
  then show ?thesis using lists_rep_remove_at [OF R L] by simp
next
  case False
  then have "(\<lambda>h. remove1 e (L h)) = L" by (auto simp: remove1_idem)
  moreover have "rt_list_remove (LElem e) k = k"
    using rt_list_remove_self lists_repD [OF R] False by metis
  ultimately show ?thesis using R by simp
qed

lemma lists_rep_init_elem:
  assumes R: "lists_rep k L" and off: "\<forall>h. e \<notin> set (L h)"
  shows "rt_list_init (LElem e) k = k"
proof -
  have r: "ring_ok k" and se: "lnext k (LElem e) = LElem e"
    using lists_repD [OF R] off by auto
  then have "lprev k (LElem e) = LElem e" using ring_self by metis
  with se show ?thesis by (simp add: rt_list_init_def fun_upd_idem)
qed

section \<open>The contract the queue clients rely on\<close>

text \<open>
  What the scheduler, the timers, the object container and the IPC queues need from the list
  service: a state that represents a family of lists, insertion at both ends, removal of an element
  wherever it is, emptiness and the first element.
\<close>

locale list_service =
  fixes rep :: "'s \<Rightarrow> ('h \<Rightarrow> 'e list) \<Rightarrow> bool"
    and push_back :: "'h \<Rightarrow> 'e \<Rightarrow> 's \<Rightarrow> 's"
    and push_front :: "'h \<Rightarrow> 'e \<Rightarrow> 's \<Rightarrow> 's"
    and unlink :: "'e \<Rightarrow> 's \<Rightarrow> 's"
    and empty_at :: "'h \<Rightarrow> 's \<Rightarrow> bool"
    and first_at :: "'h \<Rightarrow> 's \<Rightarrow> 'e option"
  assumes rep_push_back: "rep s L \<Longrightarrow> \<forall>h'. e \<notin> set (L h') \<Longrightarrow> rep (push_back h e s) (L(h := L h @ [e]))"
    and rep_push_front: "rep s L \<Longrightarrow> \<forall>h'. e \<notin> set (L h') \<Longrightarrow> rep (push_front h e s) (L(h := e # L h))"
    and rep_unlink: "rep s L \<Longrightarrow> rep (unlink e s) (\<lambda>h. remove1 e (L h))"
    and rep_empty_at: "rep s L \<Longrightarrow> empty_at h s = (L h = [])"
    and rep_first_at: "rep s L \<Longrightarrow> first_at h s = (if L h = [] then None else Some (hd (L h)))"
    and rep_distinct: "rep s L \<Longrightarrow> distinct (L h)"
    and rep_disjoint: "rep s L \<Longrightarrow> e \<in> set (L h) \<Longrightarrow> e \<in> set (L h') \<Longrightarrow> h = h'"
begin

lemma unlinked:
  assumes "rep s L"
  shows "e \<notin> set (remove1 e (L h))"
  using rep_distinct [OF assms, of h] by simp

text \<open>Moving an element to the end of a list, whichever list it was on.\<close>

lemma rep_move_back:
  assumes "rep s L"
  shows "rep (push_back h e (unlink e s)) ((\<lambda>h'. remove1 e (L h'))(h := remove1 e (L h) @ [e]))"
  using rep_push_back [OF rep_unlink [OF assms], of e e h] unlinked [OF assms] by simp

lemma rep_move_front:
  assumes "rep s L"
  shows "rep (push_front h e (unlink e s)) ((\<lambda>h'. remove1 e (L h'))(h := e # remove1 e (L h)))"
  using rep_push_front [OF rep_unlink [OF assms], of e e h] unlinked [OF assms] by simp

text \<open>Taking the first element off, as the wake-up operations do.\<close>

lemma rep_pop:
  assumes "rep s L" "L h = e # xs"
  shows "first_at h s = Some e" "rep (unlink e s) (L(h := xs))"
proof -
  show "first_at h s = Some e" using rep_first_at [OF assms(1), of h] assms(2) by simp
  have "e \<notin> set (L h')" if "h' \<noteq> h" for h'
    using rep_disjoint [OF assms(1), of e h h'] assms(2) that by auto
  then have "(\<lambda>h'. remove1 e (L h')) = L(h := xs)"
    using assms(2) by (auto simp: fun_eq_iff remove1_idem)
  with rep_unlink [OF assms(1), of e] show "rep (unlink e s) (L(h := xs))" by simp
qed

text \<open>First in, first out: the elements pushed at the back leave at the front in the same order.\<close>

lemma rep_fifo:
  assumes "rep s L" "\<forall>h'. e \<notin> set (L h')" "L h = x # xs"
  shows "first_at h (push_back h e s) = Some x"
    and "rep (unlink x (push_back h e s)) (L(h := xs @ [e]))"
proof -
  note b = rep_push_back [OF assms(1,2), of h]
  have "(L(h := L h @ [e])) h = x # (xs @ [e])" using assms(3) by simp
  note r = rep_pop [OF b this]
  show "first_at h (push_back h e s) = Some x" by (rule r(1))
  show "rep (unlink x (push_back h e s)) (L(h := xs @ [e]))" by (rule r(2) [unfolded fun_upd_upd])
qed

end

interpretation tq: list_service lists_rep
  "\<lambda>h e. rt_list_insert_before (LHead h) (LElem e)"
  "\<lambda>h e. rt_list_insert_after (LHead h) (LElem e)"
  "\<lambda>e. rt_list_remove (LElem e)"
  "\<lambda>h. rt_list_isempty (LHead h)"
  "\<lambda>h k. rt_list_entry (lnext k (LHead h))"
proof (unfold_locales, goal_cases)
  case (1 s L e h)
  then show ?case by (rule lists_rep_insert_before_head)
next
  case (2 s L e h)
  then show ?case by (rule lists_rep_insert_after_head)
next
  case (3 s L e)
  then show ?case by (rule lists_rep_remove)
next
  case (4 s L h)
  then show ?case by (rule lists_rep_isempty)
next
  case (5 s L h)
  then show ?case
    using lists_rep_first [of s L h] lists_repD(2) [of s L h] by (cases "L h") auto
next
  case (6 s L h)
  then show ?case by (rule lists_rep_distinct)
next
  case (7 s L e h h')
  then show ?case by (rule lists_rep_disjoint)
qed

end
