(* ===== verification/RT_KService.thy ===== *)
theory RT_KService
  imports RT_Prelude
begin

text \<open>
  The kernel service routines of \<open>src/kservice.c\<close> that do not touch the kernel state: the bit search
  the scheduler uses (\<open>__rt_ffs\<close>), the memory routines with their word-wise fast paths and the string
  routines.

  Memory is a function from byte addresses to bytes; the address arithmetic of these routines stays
  inside one object, so addresses are natural numbers. A word store writes four bytes, least
  significant first. A C string is the list of the bytes from the pointer on; running past its end is
  \<open>None\<close>.
\<close>

section \<open>Find first set bit\<close>

definition lowest_bit_bitmap :: "nat list" where
  "lowest_bit_bitmap = [
    0, 0, 1, 0, 2, 0, 1, 0, 3, 0, 1, 0, 2, 0, 1, 0,
    4, 0, 1, 0, 2, 0, 1, 0, 3, 0, 1, 0, 2, 0, 1, 0,
    5, 0, 1, 0, 2, 0, 1, 0, 3, 0, 1, 0, 2, 0, 1, 0,
    4, 0, 1, 0, 2, 0, 1, 0, 3, 0, 1, 0, 2, 0, 1, 0,
    6, 0, 1, 0, 2, 0, 1, 0, 3, 0, 1, 0, 2, 0, 1, 0,
    4, 0, 1, 0, 2, 0, 1, 0, 3, 0, 1, 0, 2, 0, 1, 0,
    5, 0, 1, 0, 2, 0, 1, 0, 3, 0, 1, 0, 2, 0, 1, 0,
    4, 0, 1, 0, 2, 0, 1, 0, 3, 0, 1, 0, 2, 0, 1, 0,
    7, 0, 1, 0, 2, 0, 1, 0, 3, 0, 1, 0, 2, 0, 1, 0,
    4, 0, 1, 0, 2, 0, 1, 0, 3, 0, 1, 0, 2, 0, 1, 0,
    5, 0, 1, 0, 2, 0, 1, 0, 3, 0, 1, 0, 2, 0, 1, 0,
    4, 0, 1, 0, 2, 0, 1, 0, 3, 0, 1, 0, 2, 0, 1, 0,
    6, 0, 1, 0, 2, 0, 1, 0, 3, 0, 1, 0, 2, 0, 1, 0,
    4, 0, 1, 0, 2, 0, 1, 0, 3, 0, 1, 0, 2, 0, 1, 0,
    5, 0, 1, 0, 2, 0, 1, 0, 3, 0, 1, 0, 2, 0, 1, 0,
    4, 0, 1, 0, 2, 0, 1, 0, 3, 0, 1, 0, 2, 0, 1, 0]"

definition rt_ffs :: "u32 \<Rightarrow> nat" where
  "rt_ffs value =
    (if value = 0 then 0
     else if value AND 0xff \<noteq> 0 then lowest_bit_bitmap ! unat (value AND 0xff) + 1
     else if value AND 0xff00 \<noteq> 0 then lowest_bit_bitmap ! unat (drop_bit 8 (value AND 0xff00)) + 9
     else if value AND 0xff0000 \<noteq> 0 then lowest_bit_bitmap ! unat (drop_bit 16 (value AND 0xff0000)) + 17
     else lowest_bit_bitmap ! unat (drop_bit 24 (value AND 0xff000000)) + 25)"

lemma lowest_bit_bitmap_table:
  "list_all (\<lambda>(i, k). i = 0 \<or> k < 8 \<and> i mod 2 ^ (k + 1) = 2 ^ k)
     (zip [0..<256] lowest_bit_bitmap)"
  by code_simp

lemma lowest_bit_mod:
  assumes "(i :: nat) mod 2 ^ (k + 1) = 2 ^ k"
  shows "bit i k" "j < k \<Longrightarrow> \<not> bit i j"
proof -
  have t: "take_bit (k + 1) i = 2 ^ k" using assms by (simp only: take_bit_eq_mod)
  have "bit (take_bit (k + 1) i) k" unfolding t by (simp add: bit_exp_iff)
  then show "bit i k" by (simp add: bit_take_bit_iff)
  show "\<not> bit i j" if "j < k"
  proof -
    have "bit (take_bit (k + 1) i) j = bit i j" using that by (simp add: bit_take_bit_iff)
    moreover have "\<not> bit (2 ^ k :: nat) j" using that by (simp add: bit_exp_iff)
    ultimately show ?thesis unfolding t by simp
  qed
qed

lemma lowest_bit_bitmap_least:
  assumes "i \<noteq> 0" "i < 256"
  shows "lowest_bit_bitmap ! i < 8" "bit i (lowest_bit_bitmap ! i)"
    and "j < lowest_bit_bitmap ! i \<Longrightarrow> \<not> bit i j"
proof -
  have l: "length lowest_bit_bitmap = 256" by (simp add: lowest_bit_bitmap_def)
  have "([0..<256] ! i, lowest_bit_bitmap ! i) \<in> set (zip [0..<256] lowest_bit_bitmap)"
    unfolding set_zip length_upt using assms(2) l by force
  moreover have "[0..<256] ! i = i" using assms(2) by (subst nth_upt) simp_all
  ultimately have t: "lowest_bit_bitmap ! i < 8"
    "i mod 2 ^ (lowest_bit_bitmap ! i + 1) = 2 ^ (lowest_bit_bitmap ! i)"
    using assms(1) lowest_bit_bitmap_table [unfolded list_all_iff, THEN bspec] by auto
  then show "lowest_bit_bitmap ! i < 8" by simp
  show "bit i (lowest_bit_bitmap ! i)" by (rule lowest_bit_mod(1) [OF t(2)])
  show "j < lowest_bit_bitmap ! i \<Longrightarrow> \<not> bit i j" by (rule lowest_bit_mod(2) [OF t(2)])
qed

text \<open>One byte of the argument, selected by a mask and shifted down, as the code does.\<close>

lemma ffs_byte:
  fixes v :: u32
  assumes b_def: "b = unat (take_bit 8 (drop_bit n v))"
    and "take_bit 8 (drop_bit n v) \<noteq> 0" "n + 8 \<le> 32" "take_bit n v = 0"
  shows "bit v (lowest_bit_bitmap ! b + n) \<and> (\<forall>j < lowest_bit_bitmap ! b + n. \<not> bit v j)"
proof -
  have "b = take_bit 8 (unat (drop_bit n v))" by (simp add: b_def unsigned_take_bit_eq)
  then have "b < 2 ^ 8" using take_bit_nat_less_exp [of 8] by simp
  then have b: "b \<noteq> 0" "b < 256" using assms(2) by (auto simp: b_def unat_eq_0)
  have bb: "bit b j = (j < 8 \<and> bit v (j + n))" for j
    unfolding b_def using assms(3)
    by (auto simp: bit_simps ac_simps)
  note t = lowest_bit_bitmap_least [OF b]
  have "\<not> bit v j" if "j < lowest_bit_bitmap ! b + n" for j
  proof (cases "j < n")
    case True
    then have "bit v j = bit (take_bit n v) j" by (simp add: bit_simps)
    with assms(4) show ?thesis by simp
  next
    case False
    then have "j - n < lowest_bit_bitmap ! b" using that by simp
    then have "\<not> bit b (j - n)" "j - n < 8" using t(1,3) by auto
    with False show ?thesis using bb [of "j - n"] by simp
  qed
  then show ?thesis using t(2) bb by blast
qed

lemma byte_select:
  fixes v :: u32
  shows "v AND 0xff = take_bit 8 (drop_bit 0 v)"
    and "drop_bit 8 (v AND 0xff00) = take_bit 8 (drop_bit 8 v)"
    and "drop_bit 16 (v AND 0xff0000) = take_bit 8 (drop_bit 16 v)"
    and "drop_bit 24 (v AND 0xff000000) = take_bit 8 (drop_bit 24 v)"
    and "(v AND 0xff00 = 0) = (take_bit 8 (drop_bit 8 v) = 0)"
    and "(v AND 0xff0000 = 0) = (take_bit 8 (drop_bit 16 v) = 0)"
proof -
  have m: "(0xff :: u32) = mask 8" "(0xff00 :: u32) = push_bit 8 (mask 8)"
    "(0xff0000 :: u32) = push_bit 16 (mask 8)" "(0xff000000 :: u32) = push_bit 24 (mask 8)"
    by (simp_all add: mask_eq_exp_minus_1)
  show "v AND 0xff = take_bit 8 (drop_bit 0 v)"
    unfolding m by (simp add: take_bit_eq_mask)
  show a: "drop_bit 8 (v AND 0xff00) = take_bit 8 (drop_bit 8 v)"
    and b: "drop_bit 16 (v AND 0xff0000) = take_bit 8 (drop_bit 16 v)"
    and "drop_bit 24 (v AND 0xff000000) = take_bit 8 (drop_bit 24 v)"
    unfolding m by (rule bit_eqI; auto simp: bit_simps)+
  have c: "v AND 0xff00 = push_bit 8 (take_bit 8 (drop_bit 8 v))"
    "v AND 0xff0000 = push_bit 16 (take_bit 8 (drop_bit 16 v))"
    unfolding m by (rule bit_eqI; auto simp: bit_simps)+
  show "(v AND 0xff00 = 0) = (take_bit 8 (drop_bit 8 v) = 0)"
    using a c(1) by (metis drop_bit_of_0 push_bit_of_0)
  show "(v AND 0xff0000 = 0) = (take_bit 8 (drop_bit 16 v) = 0)"
    using b c(2) by (metis drop_bit_of_0 push_bit_of_0)
qed

lemma take_bit_byte_step:
  fixes v :: u32
  assumes "take_bit n v = 0" "take_bit 8 (drop_bit n v) = 0"
  shows "take_bit (n + 8) v = 0"
proof (rule bit_eqI)
  fix i
  show "bit (take_bit (n + 8) v) i = bit (0 :: u32) i"
  proof (cases "i < n")
    case True
    then have "bit v i = bit (take_bit n v) i" by (simp add: bit_simps)
    with assms(1) show ?thesis by (simp add: bit_simps)
  next
    case False
    have "bit (take_bit 8 (drop_bit n v)) (i - n) = (i - n < 8 \<and> bit v i)"
      using False by (simp add: bit_simps)
    with assms(2) False show ?thesis by (auto simp: bit_simps)
  qed
qed

text \<open>\<open>__rt_ffs\<close> finds the lowest set bit, counting from 1, and returns 0 for 0.\<close>

lemma rt_ffs_least:
  assumes "v \<noteq> 0"
  shows "bit v (rt_ffs v - 1) \<and> (\<forall>j < rt_ffs v - 1. \<not> bit v j)"
proof -
  consider "take_bit 8 (drop_bit 0 v) \<noteq> 0"
    | "take_bit 8 v = 0" "take_bit 8 (drop_bit 8 v) \<noteq> 0"
    | "take_bit 8 v = 0" "take_bit 8 (drop_bit 8 v) = 0" "take_bit 8 (drop_bit 16 v) \<noteq> 0"
    | "take_bit 8 v = 0" "take_bit 8 (drop_bit 8 v) = 0" "take_bit 8 (drop_bit 16 v) = 0"
    by fastforce
  then show ?thesis
  proof cases
    case 1
    then have "rt_ffs v - 1 = lowest_bit_bitmap ! unat (take_bit 8 (drop_bit 0 v)) + 0"
      using assms by (simp add: rt_ffs_def byte_select)
    then show ?thesis using ffs_byte [OF refl 1] by simp
  next
    case 2
    then have "rt_ffs v - 1 = lowest_bit_bitmap ! unat (take_bit 8 (drop_bit 8 v)) + 8"
      using assms by (simp add: rt_ffs_def byte_select)
    then show ?thesis using ffs_byte [OF refl 2(2)] 2(1) by simp
  next
    case 3
    then have "rt_ffs v - 1 = lowest_bit_bitmap ! unat (take_bit 8 (drop_bit 16 v)) + 16"
      using assms by (simp add: rt_ffs_def byte_select)
    then show ?thesis using ffs_byte [OF refl 3(3)] take_bit_byte_step [OF 3(1,2)] by simp
  next
    case 4
    have z: "take_bit 24 v = 0"
      using take_bit_byte_step [of 16 v] take_bit_byte_step [OF 4(1,2)] 4(3) by simp
    have nz: "take_bit 8 (drop_bit 24 v) \<noteq> 0"
    proof
      assume "take_bit 8 (drop_bit 24 v) = 0"
      then have "take_bit 32 v = 0" using take_bit_byte_step [OF z] by simp
      moreover have "take_bit 32 v = v" by (rule take_bit_word_eq_self) simp
      ultimately show False using assms by simp
    qed
    from 4 have "rt_ffs v - 1 = lowest_bit_bitmap ! unat (take_bit 8 (drop_bit 24 v)) + 24"
      using assms by (simp add: rt_ffs_def byte_select)
    then show ?thesis using ffs_byte [OF refl nz] z by simp
  qed
qed

lemma rt_ffs_pos: "v \<noteq> 0 \<Longrightarrow> 0 < rt_ffs v"
  by (auto simp: rt_ffs_def)

lemma rt_ffs_bound: "v \<noteq> 0 \<Longrightarrow> rt_ffs v \<le> 32"
  using rt_ffs_least [of v] bit_imp_le_length [of v "rt_ffs v - 1"] by auto

section \<open>Memory routines\<close>

type_synonym memory = "nat \<Rightarrow> u8"

definition store32 :: "memory \<Rightarrow> nat \<Rightarrow> u32 \<Rightarrow> memory" where
  "store32 m p w = m(p := ucast w, p + 1 := ucast (drop_bit 8 w),
     p + 2 := ucast (drop_bit 16 w), p + 3 := ucast (drop_bit 24 w))"

definition load32 :: "memory \<Rightarrow> nat \<Rightarrow> u32" where
  "load32 m p = ucast (m p) OR push_bit 8 (ucast (m (p + 1)))
     OR push_bit 16 (ucast (m (p + 2))) OR push_bit 24 (ucast (m (p + 3)))"

text \<open>\<open>rt_memset\<close>: blocks of four words, then words, then the remaining bytes.\<close>

fun memset_blocks :: "memory \<Rightarrow> nat \<Rightarrow> u32 \<Rightarrow> nat \<Rightarrow> memory \<times> nat \<times> nat" where
  "memset_blocks m p buffer count =
    (if count \<ge> 16
     then memset_blocks (store32 (store32 (store32 (store32 m p buffer)
            (p + 4) buffer) (p + 8) buffer) (p + 12) buffer) (p + 16) buffer (count - 16)
     else (m, p, count))"

fun memset_words :: "memory \<Rightarrow> nat \<Rightarrow> u32 \<Rightarrow> nat \<Rightarrow> memory \<times> nat \<times> nat" where
  "memset_words m p buffer count =
    (if count \<ge> 4 then memset_words (store32 m p buffer) (p + 4) buffer (count - 4)
     else (m, p, count))"

fun memset_bytes :: "memory \<Rightarrow> nat \<Rightarrow> u8 \<Rightarrow> nat \<Rightarrow> memory" where
  "memset_bytes m p d 0 = m"
| "memset_bytes m p d (Suc count) = memset_bytes (m(p := d)) (p + 1) d count"

definition rt_memset :: "memory \<Rightarrow> nat \<Rightarrow> u32 \<Rightarrow> nat \<Rightarrow> memory" where
  "rt_memset m s c count =
    (let d = c AND 0xff in
     if \<not> count < 4 \<and> s mod 4 = 0 then
       let b0 = push_bit 8 d OR d;
           buffer = b0 OR push_bit 16 b0;
           (m1, p1, n1) = memset_blocks m s buffer count;
           (m2, p2, n2) = memset_words m1 p1 buffer n1
       in memset_bytes m2 p2 (ucast d) n2
     else memset_bytes m s (ucast d) count)"

text \<open>\<open>rt_memcpy\<close>: the same structure, with a load and a store per word.\<close>

definition copy32 :: "memory \<Rightarrow> nat \<Rightarrow> nat \<Rightarrow> memory" where
  "copy32 m dst src = store32 m dst (load32 m src)"

fun memcpy_blocks :: "memory \<Rightarrow> nat \<Rightarrow> nat \<Rightarrow> nat \<Rightarrow> memory \<times> nat \<times> nat \<times> nat" where
  "memcpy_blocks m dst src len =
    (if len \<ge> 16
     then memcpy_blocks (copy32 (copy32 (copy32 (copy32 m dst src)
            (dst + 4) (src + 4)) (dst + 8) (src + 8)) (dst + 12) (src + 12))
            (dst + 16) (src + 16) (len - 16)
     else (m, dst, src, len))"

fun memcpy_words :: "memory \<Rightarrow> nat \<Rightarrow> nat \<Rightarrow> nat \<Rightarrow> memory \<times> nat \<times> nat \<times> nat" where
  "memcpy_words m dst src len =
    (if len \<ge> 4 then memcpy_words (copy32 m dst src) (dst + 4) (src + 4) (len - 4)
     else (m, dst, src, len))"

fun memcpy_bytes :: "memory \<Rightarrow> nat \<Rightarrow> nat \<Rightarrow> nat \<Rightarrow> memory" where
  "memcpy_bytes m dst src 0 = m"
| "memcpy_bytes m dst src (Suc len) = memcpy_bytes (m(dst := m src)) (dst + 1) (src + 1) len"

definition rt_memcpy :: "memory \<Rightarrow> nat \<Rightarrow> nat \<Rightarrow> nat \<Rightarrow> memory" where
  "rt_memcpy m dst src count =
    (if \<not> count < 16 \<and> \<not> (src mod 4 \<noteq> 0 \<or> dst mod 4 \<noteq> 0) then
       let (m1, d1, s1, n1) = memcpy_blocks m dst src count;
           (m2, d2, s2, n2) = memcpy_words m1 d1 s1 n1
       in memcpy_bytes m2 d2 s2 n2
     else memcpy_bytes m dst src count)"

text \<open>\<open>rt_memmove\<close>: backwards when the destination starts inside the source, forwards otherwise.\<close>

fun memmove_backward :: "memory \<Rightarrow> nat \<Rightarrow> nat \<Rightarrow> nat \<Rightarrow> memory" where
  "memmove_backward m dst src 0 = m"
| "memmove_backward m dst src (Suc n) =
     memmove_backward (m(dst + n := m (src + n))) dst src n"

definition rt_memmove :: "memory \<Rightarrow> nat \<Rightarrow> nat \<Rightarrow> nat \<Rightarrow> memory" where
  "rt_memmove m dest src n =
    (if src < dest \<and> dest < src + n then memmove_backward m dest src n
     else memcpy_bytes m dest src n)"

declare memset_blocks.simps [simp del] memset_words.simps [simp del]
  memcpy_blocks.simps [simp del] memcpy_words.simps [simp del]

text \<open>Reference behaviour: fill a range, copy a range.\<close>

definition fill :: "memory \<Rightarrow> nat \<Rightarrow> u8 \<Rightarrow> nat \<Rightarrow> memory" where
  "fill m p d n = (\<lambda>a. if p \<le> a \<and> a < p + n then d else m a)"

definition blit :: "memory \<Rightarrow> nat \<Rightarrow> nat \<Rightarrow> nat \<Rightarrow> memory" where
  "blit m dst src n = (\<lambda>a. if dst \<le> a \<and> a < dst + n then m (src + (a - dst)) else m a)"

lemma fill_fill: "fill (fill m p d a) (p + a) d b = fill m p d (a + b)"
  by (auto simp: fill_def fun_eq_iff)

lemma memset_bytes_fill: "memset_bytes m p d n = fill m p d n"
proof (induction n arbitrary: m p)
  case 0
  then show ?case by (auto simp: fill_def fun_eq_iff)
next
  case (Suc n)
  have "m(p := d) = fill m p d 1" by (auto simp: fill_def fun_eq_iff)
  then show ?case using fill_fill [of m p d 1 n] Suc by simp
qed

lemma memset_buffer_bytes:
  fixes d :: u32
  assumes "d = c AND 0xff" "b0 = push_bit 8 d OR d" "buffer = b0 OR push_bit 16 b0"
  shows "ucast buffer = (ucast d :: u8)" "ucast (drop_bit 8 buffer) = (ucast d :: u8)"
    "ucast (drop_bit 16 buffer) = (ucast d :: u8)" "ucast (drop_bit 24 buffer) = (ucast d :: u8)"
proof -
  have m: "(0xff :: u32) = mask 8" by (simp add: mask_eq_exp_minus_1)
  show "ucast buffer = (ucast d :: u8)" "ucast (drop_bit 8 buffer) = (ucast d :: u8)"
    "ucast (drop_bit 16 buffer) = (ucast d :: u8)" "ucast (drop_bit 24 buffer) = (ucast d :: u8)"
    unfolding assms m by (rule bit_word_eqI; auto simp: bit_simps)+
qed

lemma store32_fill:
  assumes "ucast w = d" "ucast (drop_bit 8 w) = d" "ucast (drop_bit 16 w) = d"
    "ucast (drop_bit 24 w) = d"
  shows "store32 m p w = fill m p d 4"
  unfolding store32_def fill_def assms by (auto simp: fun_eq_iff)

text \<open>A loop that fills or copies from the front, described by what it has done when it stops.\<close>

lemma memset_words_fill:
  assumes w: "\<And>m p. store32 m p w = fill m p d 4"
  shows "\<exists>k. k \<le> n \<and> memset_words m p w n = (fill m p d k, p + k, n - k)"
proof (induction n arbitrary: m p rule: less_induct)
  case (less n)
  show ?case
  proof (cases "4 \<le> n")
    case True
    with less.IH [of "n - 4" "fill m p d 4" "p + 4"] obtain k where "k \<le> n - 4"
      "memset_words (fill m p d 4) (p + 4) w (n - 4) = (fill m p d (4 + k), p + 4 + k, n - 4 - k)"
      by (auto simp: fill_fill)
    with True w show ?thesis
      by (intro exI [of _ "4 + k"]) (simp add: memset_words.simps [of m p w n])
  next
    case False
    then show ?thesis
      by (intro exI [of _ 0]) (auto simp: memset_words.simps fill_def fun_eq_iff)
  qed
qed

lemma memset_blocks_fill:
  assumes w: "\<And>m p. store32 m p w = fill m p d 4"
  shows "\<exists>k. k \<le> n \<and> memset_blocks m p w n = (fill m p d k, p + k, n - k)"
proof (induction n arbitrary: m p rule: less_induct)
  case (less n)
  have b: "store32 (store32 (store32 (store32 m p w) (p + 4) w) (p + 8) w) (p + 12) w = fill m p d 16"
    unfolding w using fill_fill [of m p d 4 4] fill_fill [of m p d 8 4] fill_fill [of m p d 12 4]
    by simp
  show ?case
  proof (cases "16 \<le> n")
    case True
    with less.IH [of "n - 16" "fill m p d 16" "p + 16"] obtain k where "k \<le> n - 16"
      "memset_blocks (fill m p d 16) (p + 16) w (n - 16) = (fill m p d (16 + k), p + 16 + k, n - 16 - k)"
      by (auto simp: fill_fill)
    with True b show ?thesis
      by (intro exI [of _ "16 + k"]) (simp add: memset_blocks.simps [of m p w n])
  next
    case False
    then show ?thesis
      by (intro exI [of _ 0]) (auto simp: memset_blocks.simps fill_def fun_eq_iff)
  qed
qed

lemma rt_memset_fill: "rt_memset m s c n = fill m s (ucast (c AND 0xff)) n"
proof (cases "\<not> n < 4 \<and> s mod 4 = 0")
  case True
  define d where "d = c AND 0xff"
  define b0 where "b0 = push_bit 8 d OR d"
  define buf where "buf = b0 OR push_bit 16 b0"
  have w: "store32 m p buf = fill m p (ucast d) 4" for m p
    by (rule store32_fill) (rule memset_buffer_bytes [OF d_def b0_def buf_def])+
  obtain k where k: "k \<le> n" "memset_blocks m s buf n = (fill m s (ucast d) k, s + k, n - k)"
    using memset_blocks_fill [OF w] by blast
  obtain k' where k': "k' \<le> n - k" "memset_words (fill m s (ucast d) k) (s + k) buf (n - k)
      = (fill (fill m s (ucast d) k) (s + k) (ucast d) k', s + k + k', n - k - k')"
    using memset_words_fill [OF w] by blast
  have "rt_memset m s c n = memset_bytes (fill m s (ucast d) (k + k')) (s + k + k') (ucast d) (n - k - k')"
    unfolding rt_memset_def Let_def d_def [symmetric] b0_def [symmetric] buf_def [symmetric]
    using True k k' by (simp add: fill_fill)
  also have "\<dots> = fill m s (ucast d) n"
    using k k' fill_fill [of m s "ucast d" "k + k'" "n - k - k'"]
    by (simp add: memset_bytes_fill add.assoc)
  finally show ?thesis by (simp add: d_def)
next
  case False
  then show ?thesis by (auto simp: rt_memset_def Let_def memset_bytes_fill)
qed

lemma blit_blit:
  assumes "dst + a + b \<le> src \<or> src + a + b \<le> dst \<or> dst \<le> src"
  shows "blit (blit m dst src a) (dst + a) (src + a) b = blit m dst src (a + b)"
  using assms by (auto simp: blit_def fun_eq_iff)

lemma memcpy_bytes_blit:
  assumes "src + n \<le> dst \<or> dst \<le> src"
  shows "memcpy_bytes m dst src n = blit m dst src n"
  using assms
proof (induction n arbitrary: m dst src)
  case 0
  then show ?case by (auto simp: blit_def fun_eq_iff)
next
  case (Suc n)
  have "m(dst := m src) = blit m dst src 1" by (auto simp: blit_def fun_eq_iff)
  then show ?case using blit_blit [of dst 1 n src m] Suc by auto
qed

lemma load_store_bytes:
  "ucast (load32 m p) = m p" "ucast (drop_bit 8 (load32 m p)) = m (p + 1)"
  "ucast (drop_bit 16 (load32 m p)) = m (p + 2)" "ucast (drop_bit 24 (load32 m p)) = m (p + 3)"
  unfolding load32_def by (rule bit_word_eqI; auto simp: bit_simps dest: bit_imp_le_length)+

lemma copy32_blit: "copy32 m dst src = blit m dst src 4"
proof -
  have "a = dst \<or> a = dst + 1 \<or> a = dst + 2 \<or> a = dst + 3 \<or> a < dst \<or> dst + 4 \<le> a" for a
    by linarith
  then show ?thesis
    unfolding copy32_def store32_def blit_def load_store_bytes fun_eq_iff by (auto simp: add.commute)
qed

lemma memcpy_words_blit:
  assumes "src + n \<le> dst \<or> dst \<le> src"
  shows "\<exists>k. k \<le> n \<and> memcpy_words m dst src n = (blit m dst src k, dst + k, src + k, n - k)"
  using assms
proof (induction n arbitrary: m dst src rule: less_induct)
  case (less n)
  show ?case
  proof (cases "4 \<le> n")
    case True
    with less.IH [of "n - 4" "src + 4" "dst + 4" "blit m dst src 4"] less.prems obtain k where
      k: "k \<le> n - 4" "memcpy_words (blit m dst src 4) (dst + 4) (src + 4) (n - 4)
        = (blit (blit m dst src 4) (dst + 4) (src + 4) k, dst + 4 + k, src + 4 + k, n - 4 - k)"
      by auto
    have "blit (blit m dst src 4) (dst + 4) (src + 4) k = blit m dst src (4 + k)"
      using less.prems k(1) True by (intro blit_blit) auto
    with True k show ?thesis
      by (intro exI [of _ "4 + k"]) (simp add: memcpy_words.simps [of m dst src n] copy32_blit)
  next
    case False
    then show ?thesis
      by (intro exI [of _ 0]) (auto simp: memcpy_words.simps blit_def fun_eq_iff)
  qed
qed

lemma memcpy_blocks_blit:
  assumes "src + n \<le> dst \<or> dst \<le> src"
  shows "\<exists>k. k \<le> n \<and> memcpy_blocks m dst src n = (blit m dst src k, dst + k, src + k, n - k)"
  using assms
proof (induction n arbitrary: m dst src rule: less_induct)
  case (less n)
  show ?case
  proof (cases "16 \<le> n")
    case True
    then have "copy32 (copy32 (copy32 (copy32 m dst src) (dst + 4) (src + 4)) (dst + 8) (src + 8))
        (dst + 12) (src + 12) = blit m dst src 16"
      using less.prems blit_blit [of dst 4 4 src m] blit_blit [of dst 8 4 src m]
        blit_blit [of dst 12 4 src m] by (auto simp: copy32_blit)
    moreover from True less.IH [of "n - 16" "src + 16" "dst + 16" "blit m dst src 16"] less.prems
    obtain k where
      k: "k \<le> n - 16" "memcpy_blocks (blit m dst src 16) (dst + 16) (src + 16) (n - 16)
        = (blit (blit m dst src 16) (dst + 16) (src + 16) k, dst + 16 + k, src + 16 + k, n - 16 - k)"
      by auto
    moreover have "blit (blit m dst src 16) (dst + 16) (src + 16) k = blit m dst src (16 + k)"
      using less.prems k(1) True by (intro blit_blit) auto
    ultimately show ?thesis using True
      by (intro exI [of _ "16 + k"]) (simp add: memcpy_blocks.simps [of m dst src n])
  next
    case False
    then show ?thesis
      by (intro exI [of _ 0]) (auto simp: memcpy_blocks.simps blit_def fun_eq_iff)
  qed
qed

lemma rt_memcpy_blit:
  assumes "src + n \<le> dst \<or> dst \<le> src"
  shows "rt_memcpy m dst src n = blit m dst src n"
proof (cases "\<not> n < 16 \<and> \<not> (src mod 4 \<noteq> 0 \<or> dst mod 4 \<noteq> 0)")
  case True
  obtain k where k: "k \<le> n" "memcpy_blocks m dst src n = (blit m dst src k, dst + k, src + k, n - k)"
    using memcpy_blocks_blit [OF assms] by blast
  have c: "src + k + (n - k) \<le> dst + k \<or> dst + k \<le> src + k" using assms k(1) by auto
  obtain k' where k': "k' \<le> n - k" "memcpy_words (blit m dst src k) (dst + k) (src + k) (n - k)
      = (blit (blit m dst src k) (dst + k) (src + k) k', dst + k + k', src + k + k', n - k - k')"
    using memcpy_words_blit [OF c] by blast
  have e: "blit (blit m dst src k) (dst + k) (src + k) k' = blit m dst src (k + k')"
    using assms k(1) k'(1) by (intro blit_blit) auto
  have "rt_memcpy m dst src n = memcpy_bytes (blit m dst src (k + k')) (dst + (k + k')) (src + (k + k')) (n - (k + k'))"
    using True k k' e by (simp add: rt_memcpy_def add.assoc)
  also have "\<dots> = blit (blit m dst src (k + k')) (dst + (k + k')) (src + (k + k')) (n - (k + k'))"
    using assms k(1) k'(1) by (intro memcpy_bytes_blit) auto
  also have "\<dots> = blit m dst src n"
    using assms k(1) k'(1) blit_blit [of dst "k + k'" "n - (k + k')" src m] by auto
  finally show ?thesis .
next
  case False
  then show ?thesis using memcpy_bytes_blit [OF assms] by (auto simp: rt_memcpy_def)
qed

lemma memmove_backward_blit:
  assumes "src \<le> dst"
  shows "memmove_backward m dst src n = blit m dst src n"
  using assms
proof (induction n arbitrary: m)
  case 0
  then show ?case by (auto simp: blit_def fun_eq_iff)
next
  case (Suc n)
  then show ?case by (auto simp: blit_def fun_eq_iff)
qed

lemma rt_memmove_blit: "rt_memmove m dst src n = blit m dst src n"
  by (auto simp: rt_memmove_def memmove_backward_blit memcpy_bytes_blit not_less)

section \<open>String routines\<close>

fun rt_strlen :: "u8 list \<Rightarrow> nat option" where
  "rt_strlen [] = None"
| "rt_strlen (c # cs) = (if c = 0 then Some 0 else map_option Suc (rt_strlen cs))"

text \<open>The \<open>n\<close> bytes \<open>rt_strncpy\<close> writes: the string, padded with zeros up to \<open>n\<close>.\<close>

fun rt_strncpy :: "u8 list \<Rightarrow> nat \<Rightarrow> u8 list option" where
  "rt_strncpy src 0 = Some []"
| "rt_strncpy [] (Suc n) = None"
| "rt_strncpy (c # cs) (Suc n) =
     (if c = 0 then Some (c # replicate n 0) else map_option ((#) c) (rt_strncpy cs n))"

text \<open>\<open>rt_strncmp\<close> keeps the difference in a signed char and returns it sign-extended.\<close>

fun rt_strncmp :: "u8 list \<Rightarrow> u8 list \<Rightarrow> nat \<Rightarrow> u32 option" where
  "rt_strncmp cs ct 0 = Some 0"
| "rt_strncmp (c # cs) (d # ct) (Suc count) =
     (let res = c - d in
      if res \<noteq> 0 then Some (scast res) else if c = 0 then Some 0 else rt_strncmp cs ct count)"
| "rt_strncmp _ _ (Suc count) = None"

fun rt_strcmp :: "u8 list \<Rightarrow> u8 list \<Rightarrow> u32 option" where
  "rt_strcmp (c # cs) (d # ct) =
     (if c \<noteq> 0 \<and> c = d then rt_strcmp cs ct else Some (ucast c - ucast d))"
| "rt_strcmp _ _ = None"

fun rt_memcmp :: "u8 list \<Rightarrow> u8 list \<Rightarrow> nat \<Rightarrow> int option" where
  "rt_memcmp cs ct 0 = Some 0"
| "rt_memcmp (c # cs) (d # ct) (Suc count) =
     (let res = uint c - uint d in if res \<noteq> 0 then Some res else rt_memcmp cs ct count)"
| "rt_memcmp _ _ (Suc count) = None"

text \<open>Upper-case letters are mapped to lower case before the comparison.\<close>

definition casefold :: "u8 \<Rightarrow> int" where
  "casefold c = (let ca = uint c in if ca \<ge> 65 \<and> ca \<le> 90 then ca + (97 - 65) else ca)"

fun rt_strcasecmp :: "u8 list \<Rightarrow> u8 list \<Rightarrow> u32 option" where
  "rt_strcasecmp (a # as) (b # bs) =
     (let ca = casefold a; cb = casefold b in
      if ca = cb \<and> ca \<noteq> 0 then rt_strcasecmp as bs else Some (word_of_int (ca - cb)))"
| "rt_strcasecmp _ _ = None"

text \<open>
  \<open>rt_strstr\<close>: the offset of the first occurrence; \<open>Some None\<close> is \<open>RT_NULL\<close>. The loop runs while
  the rest of the text is at least as long as the pattern.
\<close>

fun strstr_loop :: "u8 list \<Rightarrow> u8 list \<Rightarrow> nat \<Rightarrow> nat \<Rightarrow> nat \<Rightarrow> nat option option" where
  "strstr_loop s1 s2 0 l2 pos = Some None"
| "strstr_loop s1 s2 (Suc l1) l2 pos =
     (if Suc l1 \<ge> l2 then
        case rt_memcmp s1 s2 l2 of
          None \<Rightarrow> None
        | Some r \<Rightarrow> if r = 0 then Some (Some pos)
                    else (case s1 of [] \<Rightarrow> None | _ # s1' \<Rightarrow> strstr_loop s1' s2 l1 l2 (Suc pos))
      else Some None)"

definition rt_strstr :: "u8 list \<Rightarrow> u8 list \<Rightarrow> nat option option" where
  "rt_strstr s1 s2 = do {
     l2 \<leftarrow> rt_strlen s2;
     if l2 = 0 then Some (Some 0)
     else do { l1 \<leftarrow> rt_strlen s1; strstr_loop s1 s2 l1 l2 0 } }"

text \<open>The C string a buffer holds, cut at \<open>n\<close> characters.\<close>

definition cstring :: "u8 list \<Rightarrow> u8 list" where
  "cstring bs = takeWhile (\<lambda>c. c \<noteq> 0) bs"

definition cname :: "nat \<Rightarrow> u8 list \<Rightarrow> u8 list" where
  "cname n bs = take n (cstring bs)"

definition readable :: "nat \<Rightarrow> u8 list \<Rightarrow> bool" where
  "readable n bs \<longleftrightarrow> 0 \<in> set bs \<or> n \<le> length bs"

lemma cstring_simps [simp]:
  "cstring [] = []"
  "cstring (c # cs) = (if c = 0 then [] else c # cstring cs)"
  "cname 0 bs = []"
  "cname (Suc n) (c # cs) = (if c = 0 then [] else c # cname n cs)"
  by (simp_all add: cstring_def cname_def)

lemma readable_simps [simp]:
  "readable 0 bs" "\<not> readable (Suc n) []"
  "readable (Suc n) (c # cs) = (c = 0 \<or> readable n cs)"
  by (auto simp: readable_def)

lemma rt_strlen_cstring: "0 \<in> set s \<Longrightarrow> rt_strlen s = Some (length (cstring s))"
  by (induction s) auto

lemma rt_strncpy_spec:
  "readable n src \<Longrightarrow> \<exists>bs. rt_strncpy src n = Some bs \<and> length bs = n \<and> cname n bs = cname n src"
proof (induction src n rule: rt_strncpy.induct)
  case (3 c cs n)
  then show ?case by (cases "c = 0") auto
qed auto

lemma scast_eq_0_u8 [simp]: "(scast (x :: u8) = (0 :: u32)) = (x = 0)"
proof
  assume "scast x = (0 :: u32)"
  then have "scast (scast x :: u32) = (scast (0 :: u32) :: u8)" by simp
  moreover have "scast (scast x :: u32) = x" by (rule bit_word_eqI) (auto simp: bit_simps)
  ultimately show "x = 0" by simp
qed simp

text \<open>Two names compare equal exactly if they agree up to \<open>n\<close> characters or the terminator.\<close>

lemma rt_strncmp_eq:
  "readable n cs \<Longrightarrow> readable n ct \<Longrightarrow>
   \<exists>r. rt_strncmp cs ct n = Some r \<and> (r = 0) = (cname n cs = cname n ct)"
proof (induction cs ct n rule: rt_strncmp.induct)
  case (2 c cs d ct count)
  show ?case
  proof (cases "c = d")
    case True
    with 2 show ?thesis by (cases "c = 0") auto
  next
    case False
    then show ?thesis by (auto simp: Let_def)
  qed
qed auto

lemma rt_strcmp_eq:
  "0 \<in> set cs \<Longrightarrow> 0 \<in> set ct \<Longrightarrow>
   \<exists>r. rt_strcmp cs ct = Some r \<and> (r = 0) = (cstring cs = cstring ct)"
proof (induction cs ct rule: rt_strcmp.induct)
  case (1 c cs d ct)
  have u: "(ucast c - ucast d = (0 :: u32)) = (c = d)"
    by (simp add: ucast_u8_u32_inject)
  show ?case
  proof (cases "c \<noteq> 0 \<and> c = d")
    case True
    with 1 show ?thesis by auto
  next
    case False
    then show ?thesis using u by auto
  qed
qed auto

lemma rt_memcmp_eq:
  "n \<le> length cs \<Longrightarrow> n \<le> length ct \<Longrightarrow>
   \<exists>r. rt_memcmp cs ct n = Some r \<and> (r = 0) = (take n cs = take n ct)"
proof (induction cs ct n rule: rt_memcmp.induct)
  case (2 c cs d ct count)
  then show ?case by (cases "c = d") (auto simp: Let_def uint_inject)
qed auto

text \<open>The loop of \<open>rt_strstr\<close> returns the first position at which the pattern occurs.\<close>

lemma strstr_loop_spec:
  assumes "l1 \<le> length s1" "l2 = length pat" "l2 \<noteq> 0"
  shows "\<exists>r. strstr_loop s1 (pat @ rest) l1 l2 pos = Some r \<and>
    (case r of
       Some i \<Rightarrow> pos \<le> i \<and> i - pos + l2 \<le> l1 \<and> take l2 (drop (i - pos) s1) = pat
          \<and> (\<forall>j < i - pos. take l2 (drop j s1) \<noteq> pat)
     | None \<Rightarrow> \<forall>j. j + l2 \<le> l1 \<longrightarrow> take l2 (drop j s1) \<noteq> pat)"
  using assms(1)
proof (induction l1 arbitrary: s1 pos)
  case 0
  then show ?case using assms(3) by simp
next
  case (Suc l1)
  obtain x xs where s1: "s1 = x # xs" using Suc.prems by (cases s1) auto
  show ?case
  proof (cases "l2 \<le> Suc l1")
    case False
    then show ?thesis by simp
  next
    case True
    obtain r where r: "rt_memcmp s1 (pat @ rest) l2 = Some r" "(r = 0) = (take l2 s1 = pat)"
      using rt_memcmp_eq [of l2 s1 "pat @ rest"] True Suc.prems assms(2) by auto
    show ?thesis
    proof (cases "r = 0")
      case True
      with r \<open>l2 \<le> Suc l1\<close> show ?thesis by simp
    next
      case False
      have "l1 \<le> length xs" using Suc.prems s1 by simp
      from Suc.IH [OF this, of "Suc pos"] obtain q where
        q: "strstr_loop xs (pat @ rest) l1 l2 (Suc pos) = Some q"
        "case q of
           Some i \<Rightarrow> Suc pos \<le> i \<and> i - Suc pos + l2 \<le> l1 \<and> take l2 (drop (i - Suc pos) xs) = pat
              \<and> (\<forall>j < i - Suc pos. take l2 (drop j xs) \<noteq> pat)
         | None \<Rightarrow> \<forall>j. j + l2 \<le> l1 \<longrightarrow> take l2 (drop j xs) \<noteq> pat" by blast
      have step: "strstr_loop s1 (pat @ rest) (Suc l1) l2 pos = Some q"
        using r False True q(1) s1 by simp
      have no0: "take l2 (x # xs) \<noteq> pat" using r(2) False s1 by simp
      show ?thesis
      proof (cases q)
        case None
        have "take l2 (drop j (x # xs)) \<noteq> pat" if "j + l2 \<le> Suc l1" for j
          using that q(2) None no0 by (cases j) auto
        with step None s1 show ?thesis by simp
      next
        case (Some i)
        then have i: "Suc pos \<le> i" "i - Suc pos + l2 \<le> l1" "take l2 (drop (i - Suc pos) xs) = pat"
          "\<forall>j < i - Suc pos. take l2 (drop j xs) \<noteq> pat" using q(2) by auto
        then have e: "i - pos = Suc (i - Suc pos)" by simp
        have "take l2 (drop j (x # xs)) \<noteq> pat" if "j < i - pos" for j
          using that i(4) no0 e by (cases j) auto
        with step Some i e s1 show ?thesis by simp
      qed
    qed
  qed
qed

end
