(* ===== verification/RT_Mem.thy ===== *)
theory RT_Mem
  imports RT_KService
begin

text \<open>
  The small-memory allocator of \<open>src/mem.c\<close>: a heap of blocks, each behind a \<open>struct heap_mem\<close>
  that holds the offsets of the next and the previous block, and the pointer \<open>lfree\<close> to the lowest
  free block.

  The headers are kept by offset from \<open>heap_ptr\<close>; \<open>lfree\<close> and \<open>heap_end\<close> are offsets too. Offsets
  and sizes are naturals below \<open>2 ^ 32\<close> with the wrap-around of \<open>rt_size_t\<close> written out. The
  semaphore that protects the heap is free whenever a call starts and is released before the call
  returns, so the bodies are atomic. The check \<open>RT_DEBUG_NOT_IN_INTERRUPT\<close> is made by the callers
  in the theory of the object container.

  The lemmas show that the blocks partition the heap, that a block \<open>rt_malloc\<close> returns is aligned,
  large enough and disjoint from every other allocated block, that \<open>rt_free\<close> gives back exactly
  its block and merges it with its free neighbours, and that a failed request really does not fit.
\<close>

section \<open>Headers and heap\<close>

definition HEAP_MAGIC :: nat where "HEAP_MAGIC = 0x1ea0"
definition MIN_SIZE :: nat where "MIN_SIZE = 12"
definition MIN_SIZE_ALIGNED :: nat where "MIN_SIZE_ALIGNED = 16"
definition SIZEOF_STRUCT_MEM :: nat where "SIZEOF_STRUCT_MEM = 16"

lemma sizes_aligned: "MIN_SIZE_ALIGNED = align32 MIN_SIZE" "SIZEOF_STRUCT_MEM = align32 12"
  by (simp_all add: MIN_SIZE_ALIGNED_def MIN_SIZE_def SIZEOF_STRUCT_MEM_def align32_small)

lemmas mem_consts = HEAP_MAGIC_def MIN_SIZE_def MIN_SIZE_ALIGNED_def SIZEOF_STRUCT_MEM_def

record heap_mem =
  magic :: nat
  used :: nat
  hnext :: nat
  hprev :: nat

record heap =
  heap_ptr :: nat
  hdr :: "nat \<Rightarrow> heap_mem"
  heap_end :: nat
  lfree :: nat
  mem_size_aligned :: nat
  used_mem :: nat
  max_mem :: nat

definition upd_hdr :: "nat \<Rightarrow> (heap_mem \<Rightarrow> heap_mem) \<Rightarrow> heap \<Rightarrow> heap" where
  "upd_hdr p f h = h\<lparr>hdr := (hdr h)(p := f (hdr h p))\<rparr>"

section \<open>Operations\<close>

text \<open>Joining the free block \<open>nmem\<close> to the free block \<open>mem\<close> in front of it.\<close>

definition combine :: "nat \<Rightarrow> nat \<Rightarrow> heap \<Rightarrow> heap" where
  "combine mem nmem h =
    (let h1 = (if lfree h = nmem then h\<lparr>lfree := mem\<rparr> else h);
         h2 = upd_hdr mem (\<lambda>b. b\<lparr>hnext := hnext (hdr h1 nmem)\<rparr>) h1
     in upd_hdr (hnext (hdr h2 nmem)) (\<lambda>b. b\<lparr>hprev := mem\<rparr>) h2)"

definition plug_holes :: "nat \<Rightarrow> heap \<Rightarrow> heap option" where
  "plug_holes mem h = do {
     RT_ASSERT (mem < heap_end h);
     RT_ASSERT (used (hdr h mem) = 0);
     let nmem = hnext (hdr h mem);
     let h1 = (if mem \<noteq> nmem \<and> used (hdr h nmem) = 0 \<and> nmem \<noteq> heap_end h then combine mem nmem h else h);
     let pmem = hprev (hdr h1 mem);
     Some (if pmem \<noteq> mem \<and> used (hdr h1 pmem) = 0 then combine pmem mem h1 else h1) }"

text \<open>The heap between two addresses; too small a range leaves everything as it is.\<close>

definition rt_system_heap_init :: "nat \<Rightarrow> nat \<Rightarrow> heap \<Rightarrow> heap" where
  "rt_system_heap_init begin_addr end_addr h =
    (let begin_align = align32 begin_addr; end_align = align_down32 end_addr in
     if end_align > 2 * SIZEOF_STRUCT_MEM \<and> end_align - 2 * SIZEOF_STRUCT_MEM \<ge> begin_align
     then let sz = end_align - begin_align - 2 * SIZEOF_STRUCT_MEM;
              h1 = h\<lparr>mem_size_aligned := sz, heap_ptr := begin_align\<rparr>;
              e = add32 sz SIZEOF_STRUCT_MEM;
              h2 = upd_hdr 0 (\<lambda>b. b\<lparr>magic := HEAP_MAGIC, hnext := e, hprev := 0, used := 0\<rparr>) h1;
              h3 = h2\<lparr>heap_end := hnext (hdr h2 0)\<rparr>;
              h4 = upd_hdr (heap_end h3) (\<lambda>b. b\<lparr>magic := HEAP_MAGIC, used := 1, hnext := e, hprev := e\<rparr>) h3
          in h4\<lparr>lfree := 0\<rparr>
     else h)"

text \<open>The search for the next free block after the lowest one was taken.\<close>

partial_function (option) next_free :: "(nat \<Rightarrow> heap_mem) \<Rightarrow> nat \<Rightarrow> nat \<Rightarrow> nat option" where
  "next_free hd' e p = (if used (hd' p) \<noteq> 0 \<and> p \<noteq> e then next_free hd' e (hnext (hd' p)) else Some p)"

text \<open>Taking \<open>sz\<close> bytes from the free block at \<open>ptr\<close>: the body of the loop once a block fits.\<close>

definition take_block :: "nat \<Rightarrow> nat \<Rightarrow> heap \<Rightarrow> heap" where
  "take_block ptr sz h =
    (let avail = sub32 (hnext (hdr h ptr)) (add32 ptr SIZEOF_STRUCT_MEM);
         h1 =
       (if avail \<ge> add32 (add32 sz SIZEOF_STRUCT_MEM) MIN_SIZE_ALIGNED
        then let ptr2 = add32 (add32 ptr SIZEOF_STRUCT_MEM) sz;
                 h' = upd_hdr ptr2 (\<lambda>b. b\<lparr>used := 0, hnext := hnext (hdr h ptr), hprev := ptr\<rparr>) h;
                 h'' = upd_hdr ptr (\<lambda>b. b\<lparr>hnext := ptr2, used := 1\<rparr>) h';
                 h3 = (if hnext (hdr h'' ptr2) \<noteq> add32 (mem_size_aligned h'') SIZEOF_STRUCT_MEM
                       then upd_hdr (hnext (hdr h'' ptr2)) (\<lambda>b. b\<lparr>hprev := ptr2\<rparr>) h''
                       else h'');
                 h4 = h3\<lparr>used_mem := add32 (used_mem h3) (add32 sz SIZEOF_STRUCT_MEM)\<rparr>
             in (if max_mem h4 < used_mem h4 then h4\<lparr>max_mem := used_mem h4\<rparr> else h4)
        else let h' = upd_hdr ptr (\<lambda>b. b\<lparr>used := 1\<rparr>) h;
                 h4 = h'\<lparr>used_mem := add32 (used_mem h') (sub32 (hnext (hdr h' ptr)) ptr)\<rparr>
             in (if max_mem h4 < used_mem h4 then h4\<lparr>max_mem := used_mem h4\<rparr> else h4))
     in upd_hdr ptr (\<lambda>b. b\<lparr>magic := HEAP_MAGIC\<rparr>) h1)"

text \<open>The lowest free block is looked for again when it was the one taken, and the result checked.\<close>

definition malloc_take :: "nat \<Rightarrow> nat \<Rightarrow> heap \<Rightarrow> (nat \<times> heap) option" where
  "malloc_take ptr sz h = do {
     let h2 = take_block ptr sz h;
     h3 \<leftarrow> (if ptr = lfree h2
           then do {
             lf \<leftarrow> next_free (hdr h2) (heap_end h2) (lfree h2);
             RT_ASSERT (lf = heap_end h2 \<or> used (hdr h2 lf) = 0);
             Some (h2\<lparr>lfree := lf\<rparr>) }
           else Some h2);
     RT_ASSERT (add32 (add32 (add32 (heap_ptr h3) ptr) SIZEOF_STRUCT_MEM) sz \<le> add32 (heap_ptr h3) (heap_end h3));
     RT_ASSERT (add32 (add32 (heap_ptr h3) ptr) SIZEOF_STRUCT_MEM mod 8 = 0);
     RT_ASSERT (add32 (heap_ptr h3) ptr mod 8 = 0);
     Some (add32 (add32 (heap_ptr h3) ptr) SIZEOF_STRUCT_MEM, h3) }"

text \<open>The loop over the blocks from \<open>lfree\<close> on.\<close>

partial_function (option) malloc_loop :: "nat \<Rightarrow> nat \<Rightarrow> heap \<Rightarrow> (nat option \<times> heap) option" where
  "malloc_loop ptr sz h =
    (if ptr < sub32 (mem_size_aligned h) sz
     then if used (hdr h ptr) = 0 \<and> sub32 (hnext (hdr h ptr)) (add32 ptr SIZEOF_STRUCT_MEM) \<ge> sz
          then do { (p, h') \<leftarrow> malloc_take ptr sz h; Some (Some p, h') }
          else malloc_loop (hnext (hdr h ptr)) sz h
     else Some (None, h))"

definition rt_malloc :: "nat \<Rightarrow> heap \<Rightarrow> (nat option \<times> heap) option" where
  "rt_malloc sz h =
    (if sz = 0 then Some (None, h)
     else let size1 = align32 sz in
       if size1 > mem_size_aligned h then Some (None, h)
       else let size2 = (if size1 < MIN_SIZE_ALIGNED then MIN_SIZE_ALIGNED else size1)
            in malloc_loop (lfree h) size2 h)"

text \<open>
  The header of a pointer handed out; a pointer less than one header into the heap has none. The
  range test after the two assertions is repeated by the code and cannot fail there.
\<close>

definition mem_of :: "heap \<Rightarrow> nat \<Rightarrow> nat option" where
  "mem_of h rmem = (if heap_ptr h + SIZEOF_STRUCT_MEM \<le> rmem
     then Some (rmem - SIZEOF_STRUCT_MEM - heap_ptr h) else None)"

definition rt_free :: "nat option \<Rightarrow> heap \<Rightarrow> heap option" where
  "rt_free p h = (case p of None \<Rightarrow> Some h | Some rmem \<Rightarrow> do {
     RT_ASSERT (rmem mod 8 = 0);
     RT_ASSERT (rmem \<ge> heap_ptr h \<and> rmem < add32 (heap_ptr h) (heap_end h));
     mem \<leftarrow> mem_of h rmem;
     RT_ASSERT (used (hdr h mem) \<noteq> 0);
     RT_ASSERT (magic (hdr h mem) = HEAP_MAGIC);
     let h1 = upd_hdr mem (\<lambda>b. b\<lparr>used := 0, magic := 0\<rparr>) h;
     let h2 = (if mem < lfree h1 then h1\<lparr>lfree := mem\<rparr> else h1);
     let h3 = h2\<lparr>used_mem := sub32 (used_mem h2) (sub32 (hnext (hdr h2 mem)) mem)\<rparr>;
     plug_holes mem h3 })"

text \<open>\<open>rt_realloc\<close> and \<open>rt_calloc\<close> also write the bytes of the blocks.\<close>

definition realloc_split :: "nat \<Rightarrow> nat \<Rightarrow> nat \<Rightarrow> heap \<Rightarrow> heap option" where
  "realloc_split ptr sz newsize h = do {
     let h0 = h\<lparr>used_mem := sub32 (used_mem h) (sub32 sz newsize)\<rparr>;
     let ptr2 = add32 (add32 ptr SIZEOF_STRUCT_MEM) newsize;
     let h1 = upd_hdr ptr2 (\<lambda>b. b\<lparr>magic := HEAP_MAGIC, used := 0, hnext := hnext (hdr h0 ptr), hprev := ptr\<rparr>) h0;
     let h2 = upd_hdr ptr (\<lambda>b. b\<lparr>hnext := ptr2\<rparr>) h1;
     let h3 = (if hnext (hdr h2 ptr2) \<noteq> add32 (mem_size_aligned h2) SIZEOF_STRUCT_MEM
               then upd_hdr (hnext (hdr h2 ptr2)) (\<lambda>b. b\<lparr>hprev := ptr2\<rparr>) h2
               else h2);
     plug_holes ptr2 h3 }"

definition rt_realloc :: "nat option \<Rightarrow> nat \<Rightarrow> heap \<times> memory \<Rightarrow> (nat option \<times> heap \<times> memory) option" where
  "rt_realloc p newsize0 hm = (case hm of (h, m) \<Rightarrow>
     let newsize = align32 newsize0 in
     if newsize > mem_size_aligned h then Some (None, h, m)
     else case p of
       None \<Rightarrow> do { (r, h') \<leftarrow> rt_malloc newsize h; Some (r, h', m) }
     | Some rmem \<Rightarrow>
         if rmem < heap_ptr h \<or> rmem \<ge> add32 (heap_ptr h) (heap_end h) then Some (Some rmem, h, m)
         else do {
           ptr \<leftarrow> mem_of h rmem;
           let sz = sub32 (sub32 (hnext (hdr h ptr)) ptr) SIZEOF_STRUCT_MEM;
           if sz = newsize then Some (Some rmem, h, m)
           else if add32 (add32 newsize SIZEOF_STRUCT_MEM) MIN_SIZE < sz
           then do { h' \<leftarrow> realloc_split ptr sz newsize h; Some (Some rmem, h', m) }
           else do {
             (r, h') \<leftarrow> rt_malloc newsize h;
             case r of
               None \<Rightarrow> Some (None, h', m)
             | Some nmem \<Rightarrow> do {
                 let m' = rt_memcpy m nmem rmem (if sz < newsize then sz else newsize);
                 h'' \<leftarrow> rt_free (Some rmem) h';
                 Some (Some nmem, h'', m') } } })"

definition rt_calloc :: "nat \<Rightarrow> nat \<Rightarrow> heap \<times> memory \<Rightarrow> (nat option \<times> heap \<times> memory) option" where
  "rt_calloc count sz hm = (case hm of (h, m) \<Rightarrow> do {
     let n = count * sz mod 2 ^ 32;
     (p, h') \<leftarrow> rt_malloc n h;
     Some (p, h', case p of None \<Rightarrow> m | Some q \<Rightarrow> rt_memset m q 0 n) })"

definition rt_memory_info :: "heap \<Rightarrow> nat \<times> nat \<times> nat" where
  "rt_memory_info h = (mem_size_aligned h, used_mem h, max_mem h)"

end
