(* ===== verification/RT_MemInv.thy ===== *)
theory RT_MemInv
  imports RT_Mem
begin

text \<open>
  The invariant of the heap of \<open>src/mem.c\<close> and what its operations do to the set of allocated
  blocks. A heap is described by the set of the offsets at which a block begins; the links of the
  headers make these blocks adjacent, from offset 0 up to the sentinel at \<open>heap_end\<close>.
\<close>

section \<open>Block structure\<close>

text \<open>
  \<open>N\<close> and \<open>P\<close> are the successor and predecessor links, \<open>e\<close> the offset of the sentinel. The
  sentinel's own back link is not kept up to date by the code and is left open.
\<close>

definition blocks_ok :: "(nat \<Rightarrow> nat) \<Rightarrow> (nat \<Rightarrow> nat) \<Rightarrow> nat \<Rightarrow> nat set \<Rightarrow> bool" where
  "blocks_ok N P e S \<longleftrightarrow> 0 \<in> S \<and> P 0 = 0
     \<and> (\<forall>b\<in>S. b + 16 < e \<and> b mod 8 = 0 \<and> b + 16 \<le> N b \<and> N b \<in> insert e S
           \<and> (\<forall>x\<in>S. x \<le> b \<or> N b \<le> x) \<and> (N b \<in> S \<longrightarrow> P (N b) = b))"

lemma blocks_okD:
  assumes "blocks_ok N P e S"
  shows "0 \<in> S" "P 0 = 0"
    and "b \<in> S \<Longrightarrow> b < e" "b \<in> S \<Longrightarrow> b mod 8 = 0" "b \<in> S \<Longrightarrow> b + 16 \<le> N b"
    and "b \<in> S \<Longrightarrow> N b = e \<or> N b \<in> S"
    and "b \<in> S \<Longrightarrow> x \<in> S \<Longrightarrow> x \<le> b \<or> N b \<le> x"
    and "b \<in> S \<Longrightarrow> N b \<in> S \<Longrightarrow> P (N b) = b"
    and "e \<notin> S" "b \<in> S \<Longrightarrow> N b \<le> e" "b \<in> S \<Longrightarrow> b + 16 < e"
proof -
  show "b \<in> S \<Longrightarrow> N b \<le> e"
    using assms unfolding blocks_ok_def by (metis add_lessD1 insert_iff less_imp_le order_refl)
qed (use assms in \<open>auto simp: blocks_ok_def\<close>)

lemma blocks_finite: "blocks_ok N P e S \<Longrightarrow> finite S"
  using blocks_okD(3) [of N P e S] by (meson finite_lessThan finite_subset lessThan_iff subsetI)

lemma blocks_next_inj:
  assumes B: "blocks_ok N P e S" and "a \<in> S" "b \<in> S" "N a = N b"
  shows "a = b"
  using blocks_okD(5,7) [OF B, of a] blocks_okD(5,7) [OF B, of b] assms(2-4)
  by (metis add_leD1 le_antisym le_trans not_add_less1 not_less zero_less_numeral add_le_same_cancel1 not_le)

text \<open>Every block but the first is the successor of the one its back link names.\<close>

lemma blocks_prev:
  assumes B: "blocks_ok N P e S" and b: "b \<in> S" "b \<noteq> 0"
  shows "P b \<in> S \<and> N (P b) = b"
proof -
  define A where "A = {x \<in> S. x < b}"
  have "finite A" "0 \<in> A"
    using blocks_finite [OF B] blocks_okD(1) [OF B] b by (auto simp: A_def)
  then have m: "Max A \<in> A" "\<And>x. x \<in> A \<Longrightarrow> x \<le> Max A" by (auto intro: Max_in)
  let ?a = "Max A"
  have a: "?a \<in> S" "?a < b" using m(1) by (auto simp: A_def)
  have "N ?a \<le> b" using blocks_okD(7) [OF B a(1) b(1)] a(2) by auto
  moreover have "\<not> N ?a < b"
  proof
    assume lt: "N ?a < b"
    then have "N ?a \<in> S" using blocks_okD(6) [OF B a(1)] blocks_okD(3) [OF B b(1)] by auto
    with lt have "N ?a \<in> A" by (simp add: A_def)
    with m(2) [of "N ?a"] blocks_okD(5) [OF B a(1)] show False by simp
  qed
  ultimately have "N ?a = b" by simp
  with blocks_okD(8) [OF B a(1)] a(1) b(1) show ?thesis by auto
qed

lemma blocks_merge:
  assumes B: "blocks_ok N P e S" and p: "p \<in> S" and n: "N p \<in> S"
  shows "blocks_ok (N(p := N (N p))) (P(N (N p) := p)) e (S - {N p})"
proof -
  note D = blocks_okD [OF B]
  let ?n = "N p"
  have pn: "p + 16 \<le> ?n" "?n + 16 \<le> N ?n" using D(5) p n by auto
  have N0: "N ?n \<noteq> 0" using pn by simp
  have "b + 16 < e \<and> b mod 8 = 0 \<and> b + 16 \<le> (N(p := N ?n)) b \<and> (N(p := N ?n)) b \<in> insert e (S - {?n})
       \<and> (\<forall>x\<in>S - {?n}. x \<le> b \<or> (N(p := N ?n)) b \<le> x)
       \<and> ((N(p := N ?n)) b \<in> S - {?n} \<longrightarrow> (P(N ?n := p)) ((N(p := N ?n)) b) = b)"
    if b: "b \<in> S - {?n}" for b
  proof (cases "b = p")
    case True
    have "x \<le> p \<or> N ?n \<le> x" if "x \<in> S - {?n}" for x
      using D(7) [OF p, of x] D(7) [OF n, of x] that by auto
    then show ?thesis using True D(11,4) [OF p] D(6) [OF n] pn by auto
  next
    case False
    have "N b \<noteq> ?n" using blocks_next_inj [OF B, of b p] b p False by auto
    moreover have "N b \<noteq> N ?n" using blocks_next_inj [OF B, of b ?n] b n by auto
    ultimately show ?thesis
      using False b D(11,4,5,6,7,8) [of b] by auto
  qed
  moreover have "0 \<in> S - {?n}" using D(1) pn by auto
  ultimately show ?thesis using D(2) N0 unfolding blocks_ok_def by simp
qed

lemma blocks_split:
  assumes B: "blocks_ok N P e S" and p: "p \<in> S" and q: "p + 16 \<le> q" "q + 16 < N p" "q mod 8 = 0"
    and P': "P' = (if N p = e then P(q := p) else P(q := p, N p := q))"
  shows "blocks_ok (N(q := N p, p := q)) P' e (insert q S)"
proof -
  note D = blocks_okD [OF B]
  have qS: "q \<notin> S" using D(7) [OF p, of q] q by auto
  have qe: "q + 16 < e" using D(10) [OF p] q by simp
  have pq: "p \<noteq> q" using q by simp
  let ?N = "N(q := N p, p := q)"
  have P0: "P' 0 = 0" using D(2) q P' by auto
  have "b + 16 < e \<and> b mod 8 = 0 \<and> b + 16 \<le> ?N b \<and> ?N b \<in> insert e (insert q S)
       \<and> (\<forall>x\<in>insert q S. x \<le> b \<or> ?N b \<le> x) \<and> (?N b \<in> insert q S \<longrightarrow> P' (?N b) = b)"
    if b: "b \<in> insert q S" for b
  proof -
    consider "b = q" | "b = p" | "b \<in> S" "b \<noteq> p" "b \<noteq> q" using b by auto
    then show ?thesis
    proof cases
      case 1
      have "x \<le> q \<or> N p \<le> x" if "x \<in> S" for x using D(7) [OF p that] q by auto
      moreover have "N p \<in> S \<Longrightarrow> P' (N p) = q" using P' D(9) by auto
      ultimately show ?thesis using 1 pq qe q D(6) [OF p] by auto
    next
      case 2
      have "x \<le> p \<or> q \<le> x" if "x \<in> S" for x using D(7) [OF p that] q by auto
      moreover have "P' q = p" using P' q by auto
      ultimately show ?thesis using 2 D(11,4) [OF p] q by auto
    next
      case 3
      have "N b \<noteq> N p" using blocks_next_inj [OF B 3(1) p] 3(2) by auto
      moreover have "q \<le> b \<or> N b \<le> q"
        using D(7) [OF p 3(1)] D(7) [OF 3(1) p] q 3(2) D(5) [OF 3(1)] by auto
      moreover have "N b \<noteq> q" using D(6) [OF 3(1)] qS qe by auto
      ultimately show ?thesis using 3 D(11,4,5,6,7,8) [of b] P' by auto
    qed
  qed
  then show ?thesis using D(1) P0 unfolding blocks_ok_def by simp
qed

section \<open>The heap invariant\<close>

definition hN :: "heap \<Rightarrow> nat \<Rightarrow> nat" where "hN h b = hnext (hdr h b)"
definition hP :: "heap \<Rightarrow> nat \<Rightarrow> nat" where "hP h b = hprev (hdr h b)"
definition hU :: "heap \<Rightarrow> nat \<Rightarrow> bool" where "hU h b \<longleftrightarrow> used (hdr h b) \<noteq> 0"

text \<open>The allocated blocks, as pairs of offsets: from a header to the next one.\<close>

definition allocated :: "heap \<Rightarrow> nat set \<Rightarrow> (nat \<times> nat) set" where
  "allocated h S = {(b, hN h b) | b. b \<in> S \<and> hU h b}"

lemma allocated_iff: "(x, y) \<in> allocated h S \<longleftrightarrow> x \<in> S \<and> hU h x \<and> y = hN h x"
  by (auto simp: allocated_def)

definition occupied :: "(nat \<times> nat) set \<Rightarrow> nat" where
  "occupied A = (\<Sum>(b, n)\<in>A. n - b)"

definition heap_base :: "heap \<Rightarrow> nat set \<Rightarrow> bool" where
  "heap_base h S \<longleftrightarrow> blocks_ok (hN h) (hP h) (heap_end h) S
     \<and> heap_end h = mem_size_aligned h + 16 \<and> mem_size_aligned h mod 8 = 0
     \<and> heap_ptr h mod 8 = 0 \<and> heap_ptr h + heap_end h + 16 < 2 ^ 32
     \<and> (\<forall>b\<in>S. hU h b \<longrightarrow> magic (hdr h b) = HEAP_MAGIC)
     \<and> hU h (heap_end h)
     \<and> (lfree h = heap_end h \<or> lfree h \<in> S \<and> \<not> hU h (lfree h))
     \<and> used_mem h = occupied (allocated h S)"

definition no_adjacent_free :: "heap \<Rightarrow> nat set \<Rightarrow> bool" where
  "no_adjacent_free h S \<longleftrightarrow> (\<forall>b\<in>S. hN h b \<in> S \<longrightarrow> hU h b \<or> hU h (hN h b))"

definition heap_inv :: "heap \<Rightarrow> nat set \<Rightarrow> bool" where
  "heap_inv h S \<longleftrightarrow> heap_base h S \<and> no_adjacent_free h S"

lemma heap_baseD:
  assumes "heap_base h S"
  shows "blocks_ok (hN h) (hP h) (heap_end h) S"
    and "heap_end h = mem_size_aligned h + 16" "mem_size_aligned h mod 8 = 0" "heap_ptr h mod 8 = 0"
    and "heap_ptr h + heap_end h + 16 < 2 ^ 32"
    and "b \<in> S \<Longrightarrow> hU h b \<Longrightarrow> magic (hdr h b) = HEAP_MAGIC" "hU h (heap_end h)"
    and "lfree h = heap_end h \<or> lfree h \<in> S \<and> \<not> hU h (lfree h)"
    and "used_mem h = occupied (allocated h S)"
  using assms by (auto simp: heap_base_def)

lemma upd_hdr_simps [simp]:
  "hdr (upd_hdr p f h) = (hdr h)(p := f (hdr h p))"
  "heap_ptr (upd_hdr p f h) = heap_ptr h" "heap_end (upd_hdr p f h) = heap_end h"
  "lfree (upd_hdr p f h) = lfree h" "mem_size_aligned (upd_hdr p f h) = mem_size_aligned h"
  "used_mem (upd_hdr p f h) = used_mem h" "max_mem (upd_hdr p f h) = max_mem h"
  by (simp_all add: upd_hdr_def)

lemma upd_hdr_views:
  "hN (upd_hdr p f h) = (hN h)(p := hnext (f (hdr h p)))"
  "hP (upd_hdr p f h) = (hP h)(p := hprev (f (hdr h p)))"
  "hU (upd_hdr p f h) = (hU h)(p := used (f (hdr h p)) \<noteq> 0)"
  "hN (h\<lparr>used_mem := x\<rparr>) = hN h" "hP (h\<lparr>used_mem := x\<rparr>) = hP h" "hU (h\<lparr>used_mem := x\<rparr>) = hU h"
  "hN (h\<lparr>max_mem := x\<rparr>) = hN h" "hP (h\<lparr>max_mem := x\<rparr>) = hP h" "hU (h\<lparr>max_mem := x\<rparr>) = hU h"
  by (auto simp: hN_def hP_def hU_def fun_eq_iff)

lemma used_hU: "(used (hdr h b) = 0) = (\<not> hU h b)" "(used (hdr h b) > 0) = hU h b"
  by (simp_all add: hU_def)

lemmas view_simps = upd_hdr_views used_hU hN_def [symmetric] hP_def [symmetric]

lemma combine_fields:
  assumes "p \<noteq> n"
  shows "hN (combine p n h) = (hN h)(p := hN h n)"
    and "hP (combine p n h) = (hP h)(hN h n := p)"
    and "hU (combine p n h) = hU h"
    and "magic (hdr (combine p n h) b) = magic (hdr h b)"
    and "lfree (combine p n h) = (if lfree h = n then p else lfree h)"
    and "heap_ptr (combine p n h) = heap_ptr h" "heap_end (combine p n h) = heap_end h"
    and "mem_size_aligned (combine p n h) = mem_size_aligned h" "used_mem (combine p n h) = used_mem h"
    and "max_mem (combine p n h) = max_mem h"
  using assms by (auto simp: combine_def Let_def hN_def hP_def hU_def fun_eq_iff)

lemma combine_base:
  assumes H: "heap_base h S" and p: "p \<in> S" "\<not> hU h p" and n: "hN h p \<in> S" "\<not> hU h (hN h p)"
  defines "h' \<equiv> combine p (hN h p) h"
  shows "heap_base h' (S - {hN h p})" "allocated h' (S - {hN h p}) = allocated h S" "lfree h' \<le> lfree h"
proof -
  note D = heap_baseD [OF H]
  have lt: "p < hN h p" using blocks_okD(5) [OF D(1) p(1)] by simp
  note F = combine_fields [OF less_imp_neq [OF lt], of h, folded h'_def]
  show al: "allocated h' (S - {hN h p}) = allocated h S"
    using p(2) n(2) by (auto simp: allocated_def F split: if_splits)
  show "lfree h' \<le> lfree h" using lt by (simp add: F)
  have "lfree h' = heap_end h' \<or> lfree h' \<in> S - {hN h p} \<and> \<not> hU h' (lfree h')"
    using D(8) p lt by (auto simp: F)
  then show "heap_base h' (S - {hN h p})"
    using blocks_merge [OF D(1) p(1) n(1)] D al unfolding heap_base_def by (simp add: F)
qed

text \<open>\<open>plug_holes\<close> restores the invariant around a block that was just freed.\<close>

lemma plug_holes_spec:
  assumes H: "heap_base h S" and m: "mem \<in> S" "\<not> hU h mem"
    and A: "\<And>b. b \<in> S \<Longrightarrow> hN h b \<in> S \<Longrightarrow> b \<noteq> mem \<Longrightarrow> hN h b \<noteq> mem \<Longrightarrow> hU h b \<or> hU h (hN h b)"
  shows "\<exists>h' S'. plug_holes mem h = Some h' \<and> heap_inv h' S' \<and> S' \<subseteq> S
     \<and> allocated h' S' = allocated h S \<and> hU h' = hU h \<and> lfree h' \<le> lfree h
     \<and> h' = h\<lparr>hdr := hdr h', lfree := lfree h'\<rparr>"
proof -
  note D = heap_baseD [OF H]
  let ?n = "hN h mem"
  have mn: "mem < ?n" "mem < heap_end h" using blocks_okD(3,5) [OF D(1) m(1)] by auto
  let ?fwd = "?n \<in> S \<and> \<not> hU h ?n"
  define h1 where "h1 = (if ?fwd then combine mem ?n h else h)"
  define S1 where "S1 = (if ?fwd then S - {?n} else S)"
  have c1: "(mem \<noteq> ?n \<and> used (hdr h ?n) = 0 \<and> ?n \<noteq> heap_end h) = ?fwd"
    using mn blocks_okD(6) [OF D(1) m(1)] blocks_okD(9) [OF D(1)] by (auto simp: hU_def)
  note F1 = combine_fields [OF less_imp_neq [OF mn(1)], of h]
  have U1: "hU h1 = hU h" and E1: "heap_end h1 = heap_end h" by (simp_all add: h1_def F1)
  have m1: "mem \<in> S1" "S1 \<subseteq> S" using m mn by (auto simp: S1_def)
  have H1: "heap_base h1 S1" "allocated h1 S1 = allocated h S" "lfree h1 \<le> lfree h"
    using combine_base [OF H m] H by (auto simp: h1_def S1_def)
  note D1 = heap_baseD [OF H1(1)]
  have N1: "hN h1 b = hN h b" if "b \<noteq> mem" for b using that by (simp add: h1_def F1)
  have A1: "hU h b \<or> hU h (hN h1 b)" if "b \<in> S1" "hN h1 b \<in> S1" "hN h1 b \<noteq> mem" for b
  proof (cases "b = mem")
    case True
    have "hU h (hN h ?n)" if "?fwd" "hN h ?n \<in> S"
      using A [of ?n] that mn blocks_okD(5) [OF D(1), of ?n] by force
    then show ?thesis using True that(2) m1(2) by (auto simp: h1_def S1_def F1 split: if_splits)
  next
    case False
    then show ?thesis using A [of b] that m1(2) N1 [OF False] by auto
  qed
  let ?p = "hP h1 mem"
  let ?bwd = "?p \<noteq> mem \<and> \<not> hU h1 ?p"
  have p: "?p \<in> S1 \<and> hN h1 ?p = mem" if "?p \<noteq> mem"
    using blocks_prev [OF D1(1) m1(1)] that blocks_okD(2) [OF D1(1)] by metis
  have run: "plug_holes mem h = Some (if ?bwd then combine ?p mem h1 else h1)"
    using mn(2) m(2) c1 unfolding plug_holes_def Let_def h1_def hN_def hP_def hU_def by simp
  show ?thesis
  proof (cases ?bwd)
    case False
    have "no_adjacent_free h1 S1"
      unfolding no_adjacent_free_def
    proof (intro ballI impI)
      fix b assume b: "b \<in> S1" "hN h1 b \<in> S1"
      show "hU h1 b \<or> hU h1 (hN h1 b)"
      proof (cases "hN h1 b = mem")
        case True
        then have "?p = b" "b \<noteq> mem"
          using blocks_okD(8) [OF D1(1) b(1)] b(2) blocks_okD(5) [OF D1(1) b(1)] by auto
        then show ?thesis using False by simp
      next
        case False
        then show ?thesis using A1 [OF b] U1 by simp
      qed
    qed
    then have "heap_inv h1 S1" using H1(1) by (simp add: heap_inv_def)
    moreover have "h1 = h\<lparr>hdr := hdr h1, lfree := lfree h1\<rparr>"
      by (simp add: h1_def combine_def upd_hdr_def Let_def)
    moreover have "plug_holes mem h = Some h1" unfolding run using False by auto
    ultimately show ?thesis
      using H1 U1 m1(2) by (intro exI [of _ h1] exI [of _ S1]) simp
  next
    case True
    let ?h' = "combine ?p mem h1" and ?S' = "S1 - {mem}"
    have pm: "?p \<in> S1" "hN h1 ?p = mem" "\<not> hU h1 ?p" using p True by auto
    have lt: "?p < mem" using blocks_okD(5) [OF D1(1) pm(1)] pm(2) by simp
    note F = combine_fields [OF less_imp_neq [OF lt], of h1]
    have H': "heap_base ?h' ?S'" "allocated ?h' ?S' = allocated h1 S1" "lfree ?h' \<le> lfree h1"
      using combine_base [OF H1(1) pm(1,3)] pm m1 m U1 by auto
    have "no_adjacent_free ?h' ?S'"
      unfolding no_adjacent_free_def
    proof (intro ballI impI)
      fix b assume b: "b \<in> ?S'" "hN ?h' b \<in> ?S'"
      show "hU ?h' b \<or> hU ?h' (hN ?h' b)"
      proof (cases "b = ?p")
        case True
        then show ?thesis
          using A1 [OF m1(1)] b m(2) blocks_okD(5) [OF D1(1) m1(1)] U1 by (auto simp: F)
      next
        case False
        then show ?thesis using A1 [of b] b U1 by (auto simp: F)
      qed
    qed
    then have "heap_inv ?h' ?S'" using H'(1) by (simp add: heap_inv_def)
    moreover have "?h' = h\<lparr>hdr := hdr ?h', lfree := lfree ?h'\<rparr>"
      by (simp add: h1_def combine_def upd_hdr_def Let_def)
    moreover have "hU ?h' = hU h" using U1 by (simp add: F)
    ultimately show ?thesis
      using run True H' H1 m1(2) by (intro exI [of _ ?h'] exI [of _ ?S']) auto
  qed
qed

section \<open>Accounting\<close>

lemma occupied_blocks:
  assumes "finite S"
  shows "occupied (allocated h S) = (\<Sum>b\<in>{b \<in> S. hU h b}. hN h b - b)"
proof -
  have "allocated h S = (\<lambda>b. (b, hN h b)) ` {b \<in> S. hU h b}" by (auto simp: allocated_def)
  then show ?thesis by (simp add: occupied_def sum.reindex inj_on_def)
qed

text \<open>The allocated blocks are disjoint, so they occupy at most the whole heap.\<close>

lemma allocated_disjoint:
  assumes "blocks_ok (hN h) P e S" "(a, m) \<in> allocated h S" "(b, n) \<in> allocated h S" "a \<noteq> b"
  shows "m \<le> b \<or> n \<le> a"
  using assms blocks_okD(7) [OF assms(1), of a b] blocks_okD(7) [OF assms(1), of b a]
  by (auto simp: allocated_def)

lemma blocks_bound:
  assumes B: "blocks_ok N P e S" and A: "A \<subseteq> S"
  shows "(\<Sum>b\<in>A. N b - b) \<le> e"
proof -
  have fin: "finite A" by (rule finite_subset [OF A blocks_finite [OF B]])
  have "{a..<N a} \<inter> {b..<N b} = {}" if "a \<in> A" "b \<in> A" "a \<noteq> b" for a b
    using blocks_okD(7) [OF B, of a b] blocks_okD(7) [OF B, of b a] that subsetD [OF A] by auto
  then have "card (\<Union>b\<in>A. {b..<N b}) = (\<Sum>b\<in>A. card {b..<N b})"
    using fin by (intro card_UN_disjoint) auto
  moreover have "(\<Union>b\<in>A. {b..<N b}) \<subseteq> {..<e}" using blocks_okD(10) [OF B] A by fastforce
  then have "card (\<Union>b\<in>A. {b..<N b}) \<le> e" using card_mono [of "{..<e}"] by fastforce
  ultimately show ?thesis by simp
qed

lemma occupied_bound:
  assumes B: "blocks_ok (hN h) P e S"
  shows "occupied (allocated h S) \<le> e"
    and "b \<in> S \<Longrightarrow> \<not> hU h b \<Longrightarrow> occupied (allocated h S) + (hN h b - b) \<le> e"
proof -
  have fin: "finite S" by (rule blocks_finite [OF B])
  show "occupied (allocated h S) \<le> e"
    using blocks_bound [OF B, of "{b \<in> S. hU h b}"] by (simp add: occupied_blocks [OF fin])
  show "occupied (allocated h S) + (hN h b - b) \<le> e" if "b \<in> S" "\<not> hU h b"
    using blocks_bound [OF B, of "insert b {b \<in> S. hU h b}"] that fin by (simp add: occupied_blocks [OF fin])
qed

lemma finite_allocated: "finite S \<Longrightarrow> finite (allocated h S)"
  by (simp add: allocated_def)

lemma occupied_insert:
  "finite A \<Longrightarrow> (b, n) \<notin> A \<Longrightarrow> occupied (insert (b, n) A) = (n - b) + occupied A"
  by (simp add: occupied_def)

lemma occupied_remove:
  assumes "finite A" "(b, n) \<in> A"
  shows "occupied (A - {(b, n)}) = occupied A - (n - b)" "n - b \<le> occupied A"
  using sum.remove [OF assms, of "\<lambda>(b, n). n - b"] by (simp_all add: occupied_def)

section \<open>Freeing\<close>

text \<open>\<open>lfree\<close> lies at or below every free block.\<close>

definition lfree_lowest :: "heap \<Rightarrow> nat set \<Rightarrow> bool" where
  "lfree_lowest h S \<longleftrightarrow> (\<forall>b\<in>S. \<not> hU h b \<longrightarrow> lfree h \<le> b)"

lemma heap_invD:
  assumes "heap_inv h S"
  shows "heap_base h S" "no_adjacent_free h S" "blocks_ok (hN h) (hP h) (heap_end h) S"
  using assms heap_baseD(1) by (auto simp: heap_inv_def)

lemma rt_free_spec:
  assumes H: "heap_inv h S" and b: "b \<in> S" "hU h b"
  shows "\<exists>h' S'. rt_free (Some (heap_ptr h + b + 16)) h = Some h' \<and> heap_inv h' S' \<and> S' \<subseteq> S
     \<and> allocated h' S' = allocated h S - {(b, hN h b)} \<and> (lfree_lowest h S \<longrightarrow> lfree_lowest h' S')
     \<and> heap_ptr h' = heap_ptr h \<and> mem_size_aligned h' = mem_size_aligned h"
proof -
  note I = heap_invD [OF H]
  note D = heap_baseD [OF I(1)]
  note B = blocks_okD [OF D(1)]
  let ?A = "allocated h S"
  have fin: "finite ?A" by (rule finite_allocated [OF blocks_finite [OF D(1)]])
  have inA: "(b, hN h b) \<in> ?A" using b by (auto simp: allocated_def)
  define h1 where "h1 = (let h1 = upd_hdr b (\<lambda>x. x\<lparr>used := 0, magic := 0\<rparr>) h;
     h2 = (if b < lfree h1 then h1\<lparr>lfree := b\<rparr> else h1)
     in h2\<lparr>used_mem := sub32 (used_mem h2) (sub32 (hnext (hdr h2 b)) b)\<rparr>)"
  have u1: "used_mem h1 = occupied (?A - {(b, hN h b)})"
  proof -
    have le: "hN h b < 2 ^ 32" "b \<le> hN h b" using B(5,10) [OF b(1)] D(5) by auto
    have "sub32 (hN h b) b = hN h b - b" by (rule sub32_small [OF le(2,1)])
    moreover have "used_mem h < 2 ^ 32" using occupied_bound(1) [OF D(1)] D(5,9) by simp
    ultimately show ?thesis
      using occupied_remove [OF fin inA] D(9) sub32_small [of "hN h b - b" "used_mem h"]
      by (simp add: h1_def Let_def hN_def)
  qed
  have F: "hN h1 = hN h" "hP h1 = hP h" "hU h1 = (hU h)(b := False)" "heap_end h1 = heap_end h"
    "heap_ptr h1 = heap_ptr h" "mem_size_aligned h1 = mem_size_aligned h"
    "lfree h1 = (if b < lfree h then b else lfree h)"
    "\<And>x. x \<noteq> b \<Longrightarrow> magic (hdr h1 x) = magic (hdr h x)"
    by (auto simp: h1_def Let_def hN_def hP_def hU_def fun_eq_iff)
  have A1: "allocated h1 S = ?A - {(b, hN h b)}" by (auto simp: allocated_def F)
  have base: "heap_base h1 S"
    using D b B(9) A1 u1 unfolding heap_base_def F(1,2,4,5,6) by (auto simp: F)
  have run: "rt_free (Some (heap_ptr h + b + 16)) h = plug_holes b h1"
  proof -
    have "add32 (heap_ptr h) (heap_end h) = heap_ptr h + heap_end h" using D(5) by (simp add: add32_small)
    moreover have "(heap_ptr h + b + 16) mod 8 = 0" using D(4) B(4) [OF b(1)] by (simp add: mod_add_eq [symmetric])
    ultimately show ?thesis
      using D(6) [OF b] b(2) B(11) [OF b(1)]
      by (simp add: rt_free_def mem_of_def SIZEOF_STRUCT_MEM_def h1_def hU_def Let_def)
  qed
  have adj: "hU h1 x \<or> hU h1 (hN h1 x)" if "x \<in> S" "hN h1 x \<in> S" "x \<noteq> b" "hN h1 x \<noteq> b" for x
    using I(2) that by (auto simp: no_adjacent_free_def F)
  obtain h' S' where h': "plug_holes b h1 = Some h'" "heap_inv h' S'" "S' \<subseteq> S"
    "allocated h' S' = allocated h1 S" "hU h' = hU h1" "lfree h' \<le> lfree h1"
    "h' = h1\<lparr>hdr := hdr h', lfree := lfree h'\<rparr>"
    using plug_holes_spec [OF base b(1) _ adj] F(3) by auto
  have "lfree_lowest h' S'" if "lfree_lowest h S"
    using that h'(3,5,6) unfolding lfree_lowest_def F(3,7) by (fastforce split: if_splits)
  moreover have "heap_ptr h' = heap_ptr h" "mem_size_aligned h' = mem_size_aligned h"
    using F(5,6) h'(7) by (metis heap.select_convs(1) heap.surjective heap.update_convs(2,4), metis heap.select_convs(5) heap.surjective heap.update_convs(2,4))
  ultimately show ?thesis using run h' A1 by auto
qed

section \<open>Allocating\<close>

lemma next_free_spec:
  assumes B: "blocks_ok (\<lambda>b. hnext (hd' b)) P e S" and p: "p \<in> insert e S"
  shows "\<exists>f. next_free hd' e p = Some f \<and> p \<le> f \<and> (f = e \<or> f \<in> S \<and> used (hd' f) = 0)
     \<and> (\<forall>b\<in>S. p \<le> b \<and> b < f \<longrightarrow> used (hd' b) \<noteq> 0)"
  using p
proof (induction "e - p" arbitrary: p rule: less_induct)
  case less
  show ?case
  proof (cases "used (hd' p) \<noteq> 0 \<and> p \<noteq> e")
    case False
    then show ?thesis using less.prems by (subst next_free.simps) auto
  next
    case True
    then have pS: "p \<in> S" using less.prems by auto
    note D = blocks_okD(3,5,6,7) [OF B pS]
    have "e - hnext (hd' p) < e - p" "hnext (hd' p) \<in> insert e S" using D by auto
    from less.hyps [OF this] obtain f where f: "next_free hd' e (hnext (hd' p)) = Some f"
      "hnext (hd' p) \<le> f" "f = e \<or> f \<in> S \<and> used (hd' f) = 0"
      "\<forall>b\<in>S. hnext (hd' p) \<le> b \<and> b < f \<longrightarrow> used (hd' b) \<noteq> 0" by auto
    have "\<forall>b\<in>S. p \<le> b \<and> b < f \<longrightarrow> used (hd' b) \<noteq> 0"
      using f(4) D(4) True by (metis le_antisym)
    then show ?thesis using True f D(2) by (subst next_free.simps) auto
  qed
qed

text \<open>
  The state the loop body makes before it looks for a new lowest free block: the block is used, and
  split when the rest can hold another block.
\<close>

definition split_fits :: "heap \<Rightarrow> nat \<Rightarrow> nat \<Rightarrow> bool" where
  "split_fits h b sz \<longleftrightarrow> b + 16 + sz + 32 \<le> hN h b"

definition taken :: "nat \<Rightarrow> nat \<Rightarrow> heap \<Rightarrow> heap \<Rightarrow> bool" where
  "taken b sz h h' \<longleftrightarrow>
     (if split_fits h b sz
      then hN h' = (hN h)(b + 16 + sz := hN h b, b := b + 16 + sz)
         \<and> hP h' = (if hN h b = heap_end h then (hP h)(b + 16 + sz := b)
                    else (hP h)(b + 16 + sz := b, hN h b := b + 16 + sz))
         \<and> hU h' = (hU h)(b + 16 + sz := False, b := True)
         \<and> used_mem h' = used_mem h + (sz + 16)
         \<and> (\<forall>x. x \<noteq> b \<longrightarrow> magic (hdr h' x) = magic (hdr h x))
      else hN h' = hN h \<and> hP h' = hP h \<and> hU h' = (hU h)(b := True)
         \<and> used_mem h' = used_mem h + (hN h b - b)
         \<and> (\<forall>x. x \<noteq> b \<longrightarrow> magic (hdr h' x) = magic (hdr h x)))
     \<and> magic (hdr h' b) = HEAP_MAGIC
     \<and> heap_ptr h' = heap_ptr h \<and> heap_end h' = heap_end h \<and> mem_size_aligned h' = mem_size_aligned h"

lemma taken_inv:
  assumes H: "heap_inv h S" and b: "b \<in> S" "\<not> hU h b" and fit: "b + 16 + sz \<le> hN h b"
    and sz: "sz mod 8 = 0" and T: "taken b sz h h'"
    and S': "S' = (if split_fits h b sz then insert (b + 16 + sz) S else S)"
    and lf: "lfree h' = heap_end h \<or> lfree h' \<in> S' \<and> \<not> hU h' (lfree h')"
  shows "heap_inv h' S'" "allocated h' S' = insert (b, hN h' b) (allocated h S)"
proof -
  note I = heap_invD [OF H]
  note D = heap_baseD [OF I(1)]
  note B = blocks_okD [OF D(1)]
  have m8: "(b + 16 + sz) mod 8 = 0" using B(4) [OF b(1)] sz by (simp add: mod_add_eq [symmetric])
  have q: "b + 16 + sz \<notin> S" if "split_fits h b sz"
    using that B(7) [OF b(1), of "b + 16 + sz"] by (auto simp: split_fits_def)
  show al: "allocated h' S' = insert (b, hN h' b) (allocated h S)"
    using T q b by (cases "split_fits h b sz") (auto simp: allocated_iff taken_def S' split: if_splits)
  have "blocks_ok (hN h') (hP h') (heap_end h) S'"
  proof (cases "split_fits h b sz")
    case True
    then show ?thesis
      using blocks_split [OF D(1) b(1), of "b + 16 + sz"] m8 T
      by (simp add: taken_def S' split_fits_def)
  next
    case False
    then show ?thesis using D(1) T by (simp add: taken_def S')
  qed
  moreover have "used_mem h' = occupied (allocated h' S')"
  proof -
    have "(b, hN h' b) \<notin> allocated h S" using b by (auto simp: allocated_iff)
    then have "occupied (allocated h' S') = (hN h' b - b) + occupied (allocated h S)"
      unfolding al by (rule occupied_insert [OF finite_allocated [OF blocks_finite [OF D(1)]]])
    then show ?thesis using T D(9) by (auto simp: taken_def split: if_splits)
  qed
  moreover have "hU h' (heap_end h)"
    using T D(7) B(3) [OF b(1)] B(10) [OF b(1)] by (auto simp: taken_def split_fits_def split: if_splits)
  moreover have "\<forall>x\<in>S'. hU h' x \<longrightarrow> magic (hdr h' x) = HEAP_MAGIC"
    using T D(6) by (auto simp: taken_def S' split: if_splits)
  ultimately have "heap_base h' S'"
    using T D(2-5) lf by (simp add: heap_base_def taken_def)
  moreover have "no_adjacent_free h' S'"
  proof (cases "split_fits h b sz")
    case False
    then show ?thesis using I(2) T by (auto simp: no_adjacent_free_def taken_def S')
  next
    case True
    have qe: "b + 16 + sz \<noteq> heap_end h" using True B(10) [OF b(1)] by (auto simp: split_fits_def)
    have nq: "hN h x \<noteq> b + 16 + sz" if "x \<in> S" for x using B(6) [OF that] q [OF True] qe by auto
    have nb: "hU h (hN h b)" if "hN h b \<in> S" using I(2) b that by (auto simp: no_adjacent_free_def)
    have "hN h b \<noteq> b + 16 + sz" "b + 16 + sz \<noteq> b" using nq [OF b(1)] by auto
    then show ?thesis
      using I(2) T True nq nb b q [OF True] unfolding no_adjacent_free_def taken_def S'
      by (auto split: if_splits)
  qed
  ultimately show "heap_inv h' S'" by (simp add: heap_inv_def)
qed

lemma lowest_taken:
  assumes "blocks_ok (hN h) (hP h) (heap_end h) S" "lfree_lowest h S" "b \<in> S" "\<not> hU h b"
    and T: "taken b sz h h'"
    and S': "S' = (if split_fits h b sz then insert (b + 16 + sz) S else S)"
    and lf: "lfree h' = lfree h \<or> (\<forall>x\<in>S'. b \<le> x \<and> x < lfree h' \<longrightarrow> hU h' x)" "lfree h \<le> b"
      "lfree h' \<noteq> lfree h \<longrightarrow> b = lfree h"
  shows "lfree_lowest h' S'"
  unfolding lfree_lowest_def
proof (intro ballI impI)
  fix x assume x: "x \<in> S'" "\<not> hU h' x"
  have "b \<le> x" if "b = lfree h"
    using x assms(2) T S' that by (auto simp: lfree_lowest_def taken_def split: if_splits)
  moreover have "lfree h \<le> x"
    using x assms(2) lf(2) T S' by (auto simp: lfree_lowest_def taken_def split: if_splits)
  ultimately show "lfree h' \<le> x" using lf x by (metis not_le)
qed

lemma take_block_taken:
  assumes H: "heap_inv h S" and b: "b \<in> S" "\<not> hU h b" and fit: "b + 16 + sz \<le> hN h b"
  shows "taken b sz h (take_block b sz h)" "lfree (take_block b sz h) = lfree h"
proof -
  note D = heap_baseD [OF heap_invD(1) [OF H]]
  note B = blocks_okD [OF D(1)]
  have N: "hN h b \<le> heap_end h" using B(10) [OF b(1)] by auto
  have ocup: "used_mem h + (hN h b - b) \<le> heap_end h" using occupied_bound(2) [OF D(1) b] D(9) by simp
  have ar: "add32 b 16 = b + 16" "sub32 (hN h b) (b + 16) = hN h b - (b + 16)" "sub32 (hN h b) b = hN h b - b"
    "add32 sz 16 = sz + 16" "add32 (sz + 16) 16 = sz + 32" "add32 (b + 16) sz = b + 16 + sz"
    "add32 (mem_size_aligned h) 16 = heap_end h" "add32 (used_mem h) (hN h b - b) = used_mem h + (hN h b - b)"
    "add32 (used_mem h) (sz + 16) = used_mem h + (sz + 16)"
    using N fit ocup D(2,5) by (simp_all add: add32_small sub32_small)
  have c: "(sz + 32 \<le> hN h b - (b + 16)) = split_fits h b sz" using fit by (auto simp: split_fits_def)
  show "lfree (take_block b sz h) = lfree h"
    by (auto simp: take_block_def Let_def)
  show "taken b sz h (take_block b sz h)"
    using ar c N
    by (cases "split_fits h b sz")
       (simp_all add: taken_def take_block_def Let_def SIZEOF_STRUCT_MEM_def MIN_SIZE_ALIGNED_def view_simps,
        simp_all add: fun_eq_iff)
qed

lemma lfree_irrelevant [simp]:
  "hN (h\<lparr>lfree := x\<rparr>) = hN h" "hP (h\<lparr>lfree := x\<rparr>) = hP h" "hU (h\<lparr>lfree := x\<rparr>) = hU h"
  by (auto simp: hN_def hP_def hU_def)

lemma taken_lfree [simp]: "taken b sz h (h'\<lparr>lfree := x\<rparr>) = taken b sz h h'"
  by (simp add: taken_def)

lemma malloc_take_spec:
  assumes H: "heap_inv h S" and b: "b \<in> S" "\<not> hU h b" "lfree h \<le> b" and fit: "b + 16 + sz \<le> hN h b"
    and sz: "sz mod 8 = 0"
  shows "\<exists>h' S'. malloc_take b sz h = Some (heap_ptr h + b + 16, h') \<and> heap_inv h' S' \<and> S \<subseteq> S'
     \<and> allocated h' S' = insert (b, hN h' b) (allocated h S)
     \<and> b + 16 + sz \<le> hN h' b \<and> hN h' b < b + 16 + sz + 32
     \<and> (lfree_lowest h S \<longrightarrow> lfree_lowest h' S')
     \<and> heap_ptr h' = heap_ptr h \<and> mem_size_aligned h' = mem_size_aligned h"
proof -
  note I = heap_invD [OF H]
  note D = heap_baseD [OF I(1)]
  note B = blocks_okD [OF D(1)]
  define h2 where "h2 = take_block b sz h"
  define S' where "S' = (if split_fits h b sz then insert (b + 16 + sz) S else S)"
  note T = take_block_taken [OF H b(1,2) fit, folded h2_def]
  have E2: "heap_end h2 = heap_end h" "heap_ptr h2 = heap_ptr h" "mem_size_aligned h2 = mem_size_aligned h"
    using T(1) by (auto simp: taken_def)
  have Nb: "b + 16 + sz \<le> hN h2 b" "hN h2 b < b + 16 + sz + 32"
    using T(1) fit by (auto simp: taken_def split_fits_def split: if_splits)
  have U2: "hU h2 b" using T(1) by (auto simp: taken_def split: if_splits)
  define h3 where "h3 = (if b = lfree h then h2\<lparr>lfree := the (next_free (hdr h2) (heap_end h2) (lfree h2))\<rparr> else h2)"
  have T3: "taken b sz h h3" "heap_ptr h3 = heap_ptr h" "heap_end h3 = heap_end h"
      "mem_size_aligned h3 = mem_size_aligned h" "hN h3 b = hN h2 b"
    using T(1) E2 by (auto simp: h3_def)
  have blk: "blocks_ok (\<lambda>b. hnext (hdr h2 b)) (hP h2) (heap_end h2) S'"
  proof -
    have "heap_inv (h2\<lparr>lfree := heap_end h\<rparr>) S'"
      using T(1) by (intro taken_inv(1) [OF H b(1,2) fit sz _ S'_def]) simp_all
    from heap_invD(3) [OF this] show ?thesis by (simp add: hN_def [abs_def] hP_def [abs_def] E2(1))
  qed
  have bS': "b \<in> S'" using b by (simp add: S'_def)
  obtain f where f: "next_free (hdr h2) (heap_end h2) b = Some f" "b \<le> f"
    "f = heap_end h2 \<or> f \<in> S' \<and> used (hdr h2 f) = 0"
    "\<forall>x\<in>S'. b \<le> x \<and> x < f \<longrightarrow> used (hdr h2 x) \<noteq> 0"
    using next_free_spec [OF blk, of b] bS' by auto
  have lf: "lfree h3 = (if b = lfree h then f else lfree h)" using f(1) T(2) by (auto simp: h3_def)
  have U3: "hU h3 = hU h2" by (auto simp: h3_def hU_def)
  have "lfree h3 = heap_end h \<or> lfree h3 \<in> S' \<and> \<not> hU h3 (lfree h3)"
  proof (cases "b = lfree h")
    case True
    then show ?thesis using f(3) lf E2(1) U3 by (auto simp: hU_def)
  next
    case False
    then show ?thesis
      using D(8) lf U3 T(1) by (auto simp: S'_def taken_def split: if_splits)
  qed
  note inv = taken_inv [OF H b(1,2) fit sz T3(1) S'_def this]
  have low: "lfree_lowest h3 S'" if "lfree_lowest h S"
  proof (rule lowest_taken [OF D(1) that b(1,2) T3(1) S'_def _ b(3)])
    show "lfree h3 = lfree h \<or> (\<forall>x\<in>S'. b \<le> x \<and> x < lfree h3 \<longrightarrow> hU h3 x)"
      using lf f(4) unfolding U3 hU_def by presburger
    show "lfree h3 \<noteq> lfree h \<longrightarrow> b = lfree h" using lf by presburger
  qed
  have ar: "add32 (heap_ptr h) b = heap_ptr h + b" "add32 (heap_ptr h + b) 16 = heap_ptr h + b + 16"
    "add32 (heap_ptr h + b + 16) sz = heap_ptr h + b + 16 + sz"
    "add32 (heap_ptr h) (heap_end h) = heap_ptr h + heap_end h"
    using D(5) fit B(10) [OF b(1)] by (simp_all add: add32_small)
  have m8: "(heap_ptr h + b) mod 8 = 0" "(heap_ptr h + b + 16) mod 8 = 0"
    using D(4) B(4) [OF b(1)] by (simp_all add: mod_add_eq [symmetric])
  have "heap_ptr h + b + 16 + sz \<le> heap_ptr h + heap_end h" using fit B(10) [OF b(1)] by simp
  then have "malloc_take b sz h = Some (heap_ptr h + b + 16, h3)"
    using f ar m8 E2 T(2)
    unfolding malloc_take_def Let_def h2_def [symmetric] h3_def SIZEOF_STRUCT_MEM_def by auto
  then show ?thesis using inv low Nb T3 by (intro exI [of _ h3] exI [of _ S']) (auto simp: S'_def)
qed

text \<open>
  A block is large enough when it is free and its room reaches for the request. The loop takes the first
  block, in the order of addresses, that is large enough and lies in front of the loop's end; the loop
  ends one step early, so that the last block is refused when the request would fill it exactly.
\<close>

definition large_enough :: "heap \<Rightarrow> nat \<Rightarrow> nat \<Rightarrow> bool" where
  "large_enough h sz b \<longleftrightarrow> \<not> hU h b \<and> b + 16 + sz \<le> hN h b"

definition loop_fit :: "heap \<Rightarrow> nat \<Rightarrow> nat \<Rightarrow> bool" where
  "loop_fit h sz b \<longleftrightarrow> \<not> hU h b \<and> b < mem_size_aligned h - sz \<and> b + 16 + sz \<le> hN h b"

lemma loop_fit_large:
  assumes "heap_inv h S" "b \<in> S"
  shows "loop_fit h sz b \<longleftrightarrow> large_enough h sz b \<and> b + 16 + sz \<noteq> heap_end h"
  using heap_baseD(2) [OF heap_invD(1) [OF assms(1)]] blocks_okD(10) [OF heap_invD(3) [OF assms(1)] assms(2)]
  by (auto simp: loop_fit_def large_enough_def)

lemma large_last:
  assumes "heap_inv h S" "b \<in> S" "large_enough h sz b" "b + 16 + sz = heap_end h" "c \<in> S"
  shows "c \<le> b"
proof -
  note B = blocks_okD [OF heap_invD(3) [OF assms(1)]]
  have "hN h b = heap_end h" using assms(3,4) B(10) [OF assms(2)] by (simp add: large_enough_def)
  then show ?thesis using B(7) [OF assms(2,5)] B(3) [OF assms(5)] by linarith
qed

lemma malloc_loop_spec:
  assumes H: "heap_inv h S" and p: "p \<in> insert (heap_end h) S" and sz: "sz \<le> mem_size_aligned h"
  shows "malloc_loop p sz h =
    (if \<exists>b\<in>S. p \<le> b \<and> loop_fit h sz b
     then map_option (apfst Some) (malloc_take (LEAST b. b \<in> S \<and> p \<le> b \<and> loop_fit h sz b) sz h)
     else Some (None, h))"
  using p
proof (induction "heap_end h - p" arbitrary: p rule: less_induct)
  case less
  note D = heap_baseD [OF heap_invD(1) [OF H]]
  note B = blocks_okD [OF D(1)]
  have sub: "sub32 (mem_size_aligned h) sz = mem_size_aligned h - sz"
    using sz D(2,5) by (simp add: sub32_small)
  show ?case
  proof (cases "p < mem_size_aligned h - sz")
    case False
    then show ?thesis by (subst malloc_loop.simps) (auto simp: sub loop_fit_def)
  next
    case True
    then have pS: "p \<in> S" using less.prems D(2) by auto
    have av: "sub32 (hnext (hdr h p)) (add32 p SIZEOF_STRUCT_MEM) = hN h p - (p + 16)"
      using B(5,10) [OF pS] D(5) by (simp add: SIZEOF_STRUCT_MEM_def add32_small sub32_small hN_def)
    have c: "(used (hdr h p) = 0 \<and> sz \<le> hN h p - (p + 16)) = loop_fit h sz p"
      using True B(5) [OF pS] by (auto simp: loop_fit_def hU_def)
    show ?thesis
    proof (cases "loop_fit h sz p")
      case fit: True
      then have "(LEAST b. b \<in> S \<and> p \<le> b \<and> loop_fit h sz b) = p"
        using pS by (intro Least_equality) auto
      moreover have "malloc_loop p sz h = map_option (apfst Some) (malloc_take p sz h)"
        using True fit c by (subst malloc_loop.simps) (auto simp: sub av map_option_case split: option.splits)
      ultimately show ?thesis using fit pS by auto
    next
      case nofit: False
      have step: "malloc_loop p sz h = malloc_loop (hN h p) sz h"
        using True nofit c by (subst malloc_loop.simps) (auto simp: sub av hN_def)
      have "heap_end h - hN h p < heap_end h - p" "hN h p \<in> insert (heap_end h) S"
        using B(3,5,6) [OF pS] by auto
      note IH = less.hyps [OF this]
      have "(b \<in> S \<and> hN h p \<le> b \<and> loop_fit h sz b) = (b \<in> S \<and> p \<le> b \<and> loop_fit h sz b)" for b
        using B(7) [OF pS, of b] B(5) [OF pS] nofit by (cases "b = p") auto
      then have "(\<lambda>b. b \<in> S \<and> hN h p \<le> b \<and> loop_fit h sz b) = (\<lambda>b. b \<in> S \<and> p \<le> b \<and> loop_fit h sz b)"
        by blast
      then show ?thesis unfolding step IH by (metis (mono_tags, lifting))
    qed
  qed
qed

definition request :: "nat \<Rightarrow> nat" where
  "request n = (if (n + 7) div 8 * 8 < 16 then 16 else (n + 7) div 8 * 8)"

lemma request_bounds: "n \<le> request n" "request n mod 8 = 0"
  by (auto simp: request_def)

lemma rt_malloc_spec:
  assumes H: "heap_inv h S" and n: "0 < n" "n + 7 < 2 ^ 32" and big: "16 \<le> mem_size_aligned h"
  shows "\<exists>r h' S'. rt_malloc n h = Some (r, h') \<and> heap_inv h' S' \<and> (lfree_lowest h S \<longrightarrow> lfree_lowest h' S')
     \<and> heap_ptr h' = heap_ptr h \<and> mem_size_aligned h' = mem_size_aligned h
     \<and> (case r of
          None \<Rightarrow> h' = h \<and> S' = S
            \<and> (lfree_lowest h S \<longrightarrow> \<not> (\<exists>b\<in>S. loop_fit h (request n) b))
        | Some p \<Rightarrow> \<exists>b. p = heap_ptr h + b + 16 \<and> b \<in> S \<and> \<not> hU h b \<and> b + 16 + n \<le> hN h' b
            \<and> allocated h' S' = insert (b, hN h' b) (allocated h S))"
proof -
  note D = heap_baseD [OF heap_invD(1) [OF H]]
  have al: "align32 n = (n + 7) div 8 * 8" using n(2) by (rule align32_small)
  show ?thesis
  proof (cases "(n + 7) div 8 * 8 > mem_size_aligned h")
    case True
    then have "\<not> loop_fit h (request n) b" for b by (simp add: loop_fit_def request_def)
    then show ?thesis using True n(1) H al by (intro exI [of _ None] exI [of _ h] exI [of _ S]) (simp add: rt_malloc_def)
  next
    case False
    let ?sz = "request n"
    have sz: "?sz \<le> mem_size_aligned h" using False big by (simp add: request_def)
    have run: "rt_malloc n h = malloc_loop (lfree h) ?sz h"
      using False n(1) al by (simp add: rt_malloc_def request_def Let_def MIN_SIZE_ALIGNED_def)
    have lf: "lfree h \<in> insert (heap_end h) S" using D(8) by auto
    let ?P = "\<lambda>b. b \<in> S \<and> lfree h \<le> b \<and> loop_fit h ?sz b"
    note loop = malloc_loop_spec [OF H lf sz]
    show ?thesis
    proof (cases "\<exists>b. ?P b")
      case False
      then have "rt_malloc n h = Some (None, h)" using loop run by auto
      moreover have "\<not> (\<exists>b\<in>S. loop_fit h ?sz b)" if "lfree_lowest h S"
        using False that by (auto simp: lfree_lowest_def loop_fit_def)
      ultimately show ?thesis using H by (intro exI [of _ None] exI [of _ h] exI [of _ S]) simp
    next
      case True
      define b where "b = (LEAST b. ?P b)"
      have P: "?P b" using True unfolding b_def by (rule LeastI_ex)
      then have "b \<in> S" "\<not> hU h b" "lfree h \<le> b" "b + 16 + ?sz \<le> hN h b" by (auto simp: loop_fit_def)
      from malloc_take_spec [OF H this request_bounds(2)]
      obtain h' S' where "malloc_take b ?sz h = Some (heap_ptr h + b + 16, h')" "heap_inv h' S'"
        "allocated h' S' = insert (b, hN h' b) (allocated h S)" "b + 16 + ?sz \<le> hN h' b"
        "lfree_lowest h S \<longrightarrow> lfree_lowest h' S'" "heap_ptr h' = heap_ptr h"
        "mem_size_aligned h' = mem_size_aligned h" by blast
      moreover have "rt_malloc n h = map_option (apfst Some) (malloc_take b ?sz h)"
        using True loop run unfolding b_def by auto
      ultimately show ?thesis
        using P request_bounds(1) [of n]
        by (intro exI [of _ "Some (heap_ptr h + b + 16)"] exI [of _ h'] exI [of _ S']) (auto simp: loop_fit_def)
    qed
  qed
qed

text \<open>
  A request within seven bytes of \<open>2 ^ 32\<close> wraps around in \<open>RT_ALIGN\<close> and is served like a request
  for the smallest block.
\<close>

lemma rt_malloc_wraps:
  assumes "2 ^ 32 \<le> n + 7" "n < 2 ^ 32"
  shows "rt_malloc n h = malloc_loop (lfree h) 16 h"
proof -
  have m: "(7 :: u32) = mask 3" by (simp add: mask_eq_exp_minus_1)
  have "n + 7 < 2 ^ 32 + 8" using assms(2) by simp
  then have "(n + 7) mod 2 ^ 32 < 8" using assms(1) by (simp add: le_mod_geq)
  then have "unat (of_nat n + 7 :: u32) < 8" by (simp add: unat_word_ariths unat_of_nat mod_add_eq mod_simps)
  then have "unat ((of_nat n + 7 :: u32) AND NOT (mask 3)) = 0" by (simp add: and_not_mask_mult)
  then have "RT_ALIGN (of_nat n) RT_ALIGN_SIZE = 0"
    using m by (simp add: RT_ALIGN_def RT_ALIGN_SIZE_def add.commute unat_eq_0)
  then show ?thesis using assms by (simp add: rt_malloc_def align32_def MIN_SIZE_ALIGNED_def Let_def)
qed

section \<open>Initialisation\<close>

lemma rt_system_heap_init_inv:
  assumes "a + 7 < 2 ^ 32" "z + 16 < 2 ^ 32" "align32 a + 48 < align_down32 z" "used_mem h = 0"
  shows "heap_inv (rt_system_heap_init a z h) {0}" "lfree_lowest (rt_system_heap_init a z h) {0}"
    "allocated (rt_system_heap_init a z h) {0} = {}" "heap_ptr (rt_system_heap_init a z h) = align32 a"
proof -
  let ?h = "rt_system_heap_init a z h"
  define M where "M = align_down32 z - align32 a - 32"
  have al: "align32 a mod 8 = 0" "align_down32 z mod 8 = 0" "align_down32 z \<le> z"
    using assms by (simp_all add: align32_small align_down32_small)
  have M: "16 \<le> M" "M + 32 + align32 a \<le> z" "add32 M 16 = M + 16"
    using assms(1-3) al(3) by (simp_all add: M_def add32_small)
  have "M mod 8 = 0" unfolding M_def using al(1,2) by presburger
  have i: "?h = (upd_hdr (M + 16) (\<lambda>b. b\<lparr>magic := HEAP_MAGIC, used := 1, hnext := M + 16, hprev := M + 16\<rparr>)
     (upd_hdr 0 (\<lambda>b. b\<lparr>magic := HEAP_MAGIC, hnext := M + 16, hprev := 0, used := 0\<rparr>) h))
     \<lparr>mem_size_aligned := M, heap_ptr := align32 a, heap_end := M + 16, lfree := 0\<rparr>"
    using assms(3) M by (simp add: rt_system_heap_init_def Let_def SIZEOF_STRUCT_MEM_def M_def upd_hdr_def)
  have F: "hN ?h 0 = M + 16" "hP ?h 0 = 0" "\<not> hU ?h 0" "hU ?h (M + 16)" "heap_end ?h = M + 16"
    "mem_size_aligned ?h = M" "heap_ptr ?h = align32 a" "lfree ?h = 0" "used_mem ?h = 0"
    using assms(4) by (simp_all add: i hN_def hP_def hU_def)
  show al0: "allocated ?h {0} = {}" using F by (auto simp: allocated_def)
  show "lfree_lowest ?h {0}" using F by (simp add: lfree_lowest_def)
  show "heap_ptr ?h = align32 a" by (rule F)
  have "blocks_ok (hN ?h) (hP ?h) (heap_end ?h) {0}" using F M by (simp add: blocks_ok_def)
  then show "heap_inv ?h {0}"
    using F M al \<open>M mod 8 = 0\<close> assms(2) al0
    by (simp add: heap_inv_def heap_base_def no_adjacent_free_def occupied_def)
qed

section \<open>Reallocation\<close>

lemma realloc_split_spec:
  assumes H: "heap_inv h S" and b: "b \<in> S" "hU h b" and room: "n + 28 < hN h b - b - 16" and n: "n mod 8 = 0"
  shows "\<exists>h' S'. realloc_split b (hN h b - b - 16) n h = Some h' \<and> heap_inv h' S'
     \<and> allocated h' S' = insert (b, b + 16 + n) (allocated h S - {(b, hN h b)})
     \<and> heap_ptr h' = heap_ptr h \<and> mem_size_aligned h' = mem_size_aligned h"
proof -
  note I = heap_invD [OF H]
  note D = heap_baseD [OF I(1)]
  note B = blocks_okD [OF D(1)]
  let ?q = "b + 16 + n" and ?A = "allocated h S"
  have N: "hN h b \<le> heap_end h" "b + 16 \<le> hN h b" using B(10,5) [OF b(1)] by auto
  have ar: "add32 b 16 = b + 16" "add32 (b + 16) n = ?q" "add32 (mem_size_aligned h) 16 = heap_end h"
    "sub32 (hN h b - b - 16) n = hN h b - b - 16 - n"
    using N room D(2,5) by (simp_all add: add32_small sub32_small)
  have fin: "finite ?A" by (rule finite_allocated [OF blocks_finite [OF D(1)]])
  have inA: "(b, hN h b) \<in> ?A" using b by (simp add: allocated_iff)
  note rem = occupied_remove [OF fin inA]
  have um: "sub32 (used_mem h) (hN h b - b - 16 - n) = used_mem h - (hN h b - b - 16 - n)"
    using occupied_bound(1) [OF D(1)] D(5,9) rem(2) by (intro sub32_small) simp_all
  define h3 where "h3 = (let h0 = h\<lparr>used_mem := sub32 (used_mem h) (sub32 (hN h b - b - 16) n)\<rparr>;
     ptr2 = add32 (add32 b SIZEOF_STRUCT_MEM) n;
     h1 = upd_hdr ptr2 (\<lambda>x. x\<lparr>magic := HEAP_MAGIC, used := 0, hnext := hnext (hdr h0 b), hprev := b\<rparr>) h0;
     h2 = upd_hdr b (\<lambda>x. x\<lparr>hnext := ptr2\<rparr>) h1
     in if hnext (hdr h2 ptr2) \<noteq> add32 (mem_size_aligned h2) SIZEOF_STRUCT_MEM
        then upd_hdr (hnext (hdr h2 ptr2)) (\<lambda>x. x\<lparr>hprev := ptr2\<rparr>) h2 else h2)"
  have run: "realloc_split b (hN h b - b - 16) n h = plug_holes ?q h3"
    by (simp add: realloc_split_def h3_def Let_def SIZEOF_STRUCT_MEM_def ar)
  have q: "?q + 16 < hN h b" "?q mod 8 = 0" "?q \<notin> S"
    using room B(4) [OF b(1)] n B(7) [OF b(1), of ?q] by (auto simp: mod_add_eq [symmetric])
  have F: "hN h3 = (hN h)(?q := hN h b, b := ?q)"
    "hP h3 = (if hN h b = heap_end h then (hP h)(?q := b) else (hP h)(?q := b, hN h b := ?q))"
    "hU h3 = (hU h)(?q := False)" "heap_end h3 = heap_end h" "heap_ptr h3 = heap_ptr h" "lfree h3 = lfree h"
    "mem_size_aligned h3 = mem_size_aligned h" "used_mem h3 = used_mem h - (hN h b - b - 16 - n)"
    "\<And>x. magic (hdr h3 x) = (if x = ?q then HEAP_MAGIC else magic (hdr h x))"
    using q(1) ar um unfolding h3_def
    by (simp_all add: Let_def SIZEOF_STRUCT_MEM_def view_simps, simp_all add: fun_eq_iff b(2) [unfolded hU_def])
  have al: "allocated h3 (insert ?q S) = insert (b, ?q) (?A - {(b, hN h b)})"
    using q(3) b by (auto simp: allocated_iff F split: if_splits)
  have "(b, ?q) \<notin> ?A - {(b, hN h b)}" using q(1) by (auto simp: allocated_iff)
  then have "used_mem h3 = occupied (allocated h3 (insert ?q S))"
    unfolding al using occupied_insert [of "?A - {(b, hN h b)}" b ?q] fin rem D(9) F(8) room by simp
  moreover have "?q \<noteq> heap_end h" using q(1) N by simp
  ultimately have base: "heap_base h3 (insert ?q S)"
    using blocks_split [OF D(1) b(1) _ q(1,2) refl] D(2-8) q(3) unfolding heap_base_def F(1,2,4,5,6,7)
    by (auto simp: F(3,9))
  have nq: "hN h x \<noteq> ?q" if "x \<in> S" for x using B(6) [OF that] q(3) \<open>?q \<noteq> heap_end h\<close> by auto
  have adj: "hU h3 x \<or> hU h3 (hN h3 x)" if "x \<in> insert ?q S" "hN h3 x \<in> insert ?q S" "x \<noteq> ?q" "hN h3 x \<noteq> ?q" for x
    using I(2) that b q(3) unfolding no_adjacent_free_def F by (auto split: if_splits)
  have "?q \<in> insert ?q S" "\<not> hU h3 ?q" by (simp_all add: F(3))
  from plug_holes_spec [OF base this adj] obtain h' S' where h': "plug_holes ?q h3 = Some h'" "heap_inv h' S'"
    "allocated h' S' = allocated h3 (insert ?q S)" "h' = h3\<lparr>hdr := hdr h', lfree := lfree h'\<rparr>"
    by blast
  have "heap_ptr h' = heap_ptr h3" "mem_size_aligned h' = mem_size_aligned h3"
    by (subst h'(4), simp)+
  with run h' al F(5,7) show ?thesis by auto
qed

text \<open>
  Reallocation of an allocated block: on success the new block is large enough and holds the old
  contents up to the smaller of the two sizes, every other block keeps its place, and no byte
  outside the new block is written; on failure nothing changes.
\<close>

lemma rt_realloc_spec:
  assumes H: "heap_inv h S" and b: "b \<in> S" "hU h b" and n: "n + 7 < 2 ^ 32" and big: "16 \<le> mem_size_aligned h"
  shows "\<exists>r h' m' S'. rt_realloc (Some (heap_ptr h + b + 16)) n (h, m) = Some (r, h', m') \<and> heap_inv h' S'
     \<and> (case r of None \<Rightarrow> h' = h \<and> m' = m
        | Some p \<Rightarrow> \<exists>b' e. p = heap_ptr h + b' + 16 \<and> b' + 16 + n \<le> e
            \<and> allocated h' S' = insert (b', e) (allocated h S - {(b, hN h b)})
            \<and> (\<forall>i < min n (hN h b - b - 16). m' (p + i) = m (heap_ptr h + b + 16 + i))
            \<and> (\<forall>a. a < p \<or> heap_ptr h + e \<le> a \<longrightarrow> m' a = m a))"
    (is "\<exists>r h' m' S'. ?run r h' m' \<and> _")
proof -
  note D = heap_baseD [OF heap_invD(1) [OF H]]
  note B = blocks_okD [OF D(1)]
  let ?sz = "hN h b - b - 16" and ?p = "heap_ptr h + b + 16"
  define n' where "n' = align32 n"
  have al: "align32 n = (n + 7) div 8 * 8" using n by (rule align32_small)
  have nle: "n \<le> n'" "n' mod 8 = 0" "n = 0 \<Longrightarrow> n' = 0" unfolding n'_def al by auto
  have ar: "add32 (heap_ptr h) (heap_end h) = heap_ptr h + heap_end h"
    "sub32 (sub32 (hnext (hdr h b)) b) 16 = ?sz" "mem_of h ?p = Some b"
    using D(5) B(5,10) [OF b(1)] by (simp_all add: add32_small sub32_small hN_def [symmetric] mem_of_def SIZEOF_STRUCT_MEM_def)
  have rng: "\<not> (?p < heap_ptr h \<or> heap_ptr h + heap_end h \<le> ?p)" using B(11) [OF b(1)] by simp
  show ?thesis
  proof (cases "n' > mem_size_aligned h")
    case True
    then show ?thesis using H by (intro exI [of _ None] exI [of _ h] exI [of _ m] exI [of _ S])
      (simp add: rt_realloc_def n'_def [symmetric])
  next
    case False
    have n32: "add32 (add32 n' 16) 12 = n' + 28"
      using False D(2,5) by (simp add: add32_small)
    have run: "rt_realloc (Some ?p) n (h, m) =
      (if ?sz = n' then Some (Some ?p, h, m)
       else if n' + 28 < ?sz then do { h' \<leftarrow> realloc_split b ?sz n' h; Some (Some ?p, h', m) }
       else do { (r, h') \<leftarrow> rt_malloc n' h;
             case r of None \<Rightarrow> Some (None, h', m)
             | Some nmem \<Rightarrow> do { h'' \<leftarrow> rt_free (Some ?p) h';
                 Some (Some nmem, h'', rt_memcpy m nmem ?p (if ?sz < n' then ?sz else n')) } })"
      using False rng n32 ar unfolding rt_realloc_def
      by (simp add: n'_def [symmetric] Let_def SIZEOF_STRUCT_MEM_def MIN_SIZE_def cong: option.case_cong)
    consider "?sz = n'" | "?sz \<noteq> n'" "n' + 28 < ?sz" | "?sz \<noteq> n'" "\<not> n' + 28 < ?sz" by blast
    then show ?thesis
    proof cases
      case 1
      then have "b + 16 + n \<le> hN h b" using nle(1) B(5) [OF b(1)] by simp
      moreover have "insert (b, hN h b) (allocated h S - {(b, hN h b)}) = allocated h S"
        using b by (auto simp: allocated_iff)
      ultimately show ?thesis using 1 H run
        by (intro exI [of _ "Some ?p"] exI [of _ h] exI [of _ m] exI [of _ S]) (auto intro!: exI [of _ b] exI [of _ "hN h b"])
    next
      case 2
      obtain h' S' where "realloc_split b ?sz n' h = Some h'" "heap_inv h' S'"
        "allocated h' S' = insert (b, b + 16 + n') (allocated h S - {(b, hN h b)})"
        using realloc_split_spec [OF H b 2(2) nle(2)] by blast
      then show ?thesis using 2 run nle(1)
        by (intro exI [of _ "Some ?p"] exI [of _ h'] exI [of _ m] exI [of _ S'])
          (auto intro!: exI [of _ b] exI [of _ "b + 16 + n'"])
    next
      case 3
      show ?thesis
      proof (cases "n = 0")
        case True
        then show ?thesis using 3 run H nle(3)
          by (intro exI [of _ None] exI [of _ h] exI [of _ m] exI [of _ S]) (simp add: rt_malloc_def)
      next
        case False
        then have "0 < n'" "n' + 7 < 2 ^ 32" using nle(1) \<open>\<not> n' > mem_size_aligned h\<close> D(2,5) by auto
        from rt_malloc_spec [OF H this big] obtain r h1 S1 where
          m1: "rt_malloc n' h = Some (r, h1)" "heap_inv h1 S1" "heap_ptr h1 = heap_ptr h"
          "case r of None \<Rightarrow> h1 = h \<and> S1 = S \<and> (lfree_lowest h S \<longrightarrow> \<not> (\<exists>b\<in>S. loop_fit h (request n') b))
           | Some p \<Rightarrow> \<exists>b'. p = heap_ptr h + b' + 16 \<and> b' \<in> S \<and> \<not> hU h b' \<and> b' + 16 + n' \<le> hN h1 b'
            \<and> allocated h1 S1 = insert (b', hN h1 b') (allocated h S)" by blast
        show ?thesis
        proof (cases r)
          case None
          then show ?thesis using 3 run m1 H
            by (intro exI [of _ None] exI [of _ h] exI [of _ m] exI [of _ S]) simp
        next
          case (Some q)
          then obtain b' where b': "q = heap_ptr h + b' + 16" "b' \<in> S" "\<not> hU h b'" "b' + 16 + n' \<le> hN h1 b'"
            "allocated h1 S1 = insert (b', hN h1 b') (allocated h S)" using m1(4) by auto
          have bb: "b \<noteq> b'" using b b' by auto
          have b1: "(b, hN h b) \<in> allocated h1 S1" using b b'(5) by (simp add: allocated_iff)
          then have b1': "b \<in> S1" "hU h1 b" "hN h1 b = hN h b" by (auto simp: allocated_iff)
          from rt_free_spec [OF m1(2) b1'(1,2)] obtain h2 S2 where
            h2: "rt_free (Some ?p) h1 = Some h2" "heap_inv h2 S2" "allocated h2 S2 = allocated h1 S1 - {(b, hN h b)}"
            unfolding m1(3) b1'(3) by blast
          have al2: "allocated h2 S2 = insert (b', hN h1 b') (allocated h S - {(b, hN h b)})"
            using h2(3) b'(5) bb by auto
          let ?k = "if ?sz < n' then ?sz else n'"
          have dis: "hN h b \<le> b' \<or> hN h1 b' \<le> b"
            using allocated_disjoint [OF heap_invD(3) [OF m1(2)] b1, of b' "hN h1 b'"] b'(5) bb by simp
          then have "?p + ?k \<le> q \<or> q \<le> ?p" using b' B(5) [OF b(1)] by auto
          then have mc: "rt_memcpy m q ?p ?k = blit m q ?p ?k" by (rule rt_memcpy_blit)
          have "\<forall>i < min n ?sz. blit m q ?p ?k (q + i) = m (?p + i)"
            using nle(1) by (auto simp: blit_def)
          moreover have "\<forall>a. a < q \<or> heap_ptr h + hN h1 b' \<le> a \<longrightarrow> blit m q ?p ?k a = m a"
            using b'(1,4) by (auto simp: blit_def)
          ultimately show ?thesis
            using 3 run m1(1) h2 Some mc al2 b'(1,4) nle(1)
            by (intro exI [of _ r] exI [of _ h2] exI [of _ "blit m q ?p ?k"] exI [of _ S2])
               (auto intro!: exI [of _ b'] exI [of _ "hN h1 b'"])
        qed
      qed
    qed
  qed
qed

end
