(* ===== verification/RT_Fifo.thy ===== *)
theory RT_Fifo
  imports RT_Prelude
begin

text \<open>
  The contract of the bounded first-in-first-out buffers of the system: the ring buffer of the device
  drivers, the mail buffer of a mailbox and the item ring of a data queue. A buffer has a capacity
  and a content (a list); a put appends while there is room, a get takes the first element. What
  follows from the contract alone is proved here once: whatever sequence of puts and gets is run,
  what comes out is what went in, in order.
\<close>

section \<open>Runs of a buffer\<close>

datatype 'a fifo_op = Put 'a | Get

fun inputs :: "'a fifo_op list \<Rightarrow> 'a list" where
  "inputs [] = []"
| "inputs (Put x # ops) = x # inputs ops"
| "inputs (Get # ops) = inputs ops"

text \<open>A run gives the elements the gets returned; a put into a full or a get from an empty buffer stops it.\<close>

fun fifo_run :: "('s \<Rightarrow> nat) \<Rightarrow> ('s \<Rightarrow> nat) \<Rightarrow> ('a \<Rightarrow> 's \<Rightarrow> 's) \<Rightarrow> ('s \<Rightarrow> 'a \<times> 's)
    \<Rightarrow> 'a fifo_op list \<Rightarrow> 's \<Rightarrow> ('a list \<times> 's) option" where
  "fifo_run cap len put get [] s = Some ([], s)"
| "fifo_run cap len put get (Put x # ops) s =
    (if len s < cap s then fifo_run cap len put get ops (put x s) else None)"
| "fifo_run cap len put get (Get # ops) s =
    (if 0 < len s
     then (case fifo_run cap len put get ops (snd (get s)) of
             None \<Rightarrow> None | Some (ys, s') \<Rightarrow> Some (fst (get s) # ys, s'))
     else None)"

text \<open>A run that never puts into a full buffer or gets from an empty one, by the number of elements.\<close>

fun balanced :: "nat \<Rightarrow> nat \<Rightarrow> 'a fifo_op list \<Rightarrow> bool" where
  "balanced c n [] = True"
| "balanced c n (Put x # ops) = (n < c \<and> balanced c (Suc n) ops)"
| "balanced c n (Get # ops) = (0 < n \<and> balanced c (n - 1) ops)"

locale bounded_fifo =
  fixes inv :: "'s \<Rightarrow> bool" and content :: "'s \<Rightarrow> 'a list" and cap :: "'s \<Rightarrow> nat" and len :: "'s \<Rightarrow> nat"
    and put :: "'a \<Rightarrow> 's \<Rightarrow> 's" and get :: "'s \<Rightarrow> 'a \<times> 's"
  assumes len_content: "inv s \<Longrightarrow> len s = length (content s)"
    and put_inv: "inv s \<Longrightarrow> len s < cap s \<Longrightarrow> inv (put x s)"
    and put_content: "inv s \<Longrightarrow> len s < cap s \<Longrightarrow> content (put x s) = content s @ [x]"
    and put_cap: "inv s \<Longrightarrow> len s < cap s \<Longrightarrow> cap (put x s) = cap s"
    and get_inv: "inv s \<Longrightarrow> 0 < len s \<Longrightarrow> inv (snd (get s))"
    and get_first: "inv s \<Longrightarrow> 0 < len s \<Longrightarrow> content s = fst (get s) # content (snd (get s))"
    and get_cap: "inv s \<Longrightarrow> 0 < len s \<Longrightarrow> cap (snd (get s)) = cap s"
begin

lemma run_in_order:
  assumes "inv s" "fifo_run cap len put get ops s = Some (ys, s')"
  shows "inv s' \<and> cap s' = cap s \<and> content s @ inputs ops = ys @ content s'"
  using assms
proof (induction ops arbitrary: s ys)
  case (Cons op ops)
  show ?case
  proof (cases op)
    case (Put x)
    then show ?thesis
      using Cons.IH [of "put x s" ys] Cons.prems put_inv put_content put_cap by (auto split: if_splits)
  next
    case Get
    then obtain zs where z: "0 < len s" "fifo_run cap len put get ops (snd (get s)) = Some (zs, s')" "ys = fst (get s) # zs"
      using Cons.prems(2) by (auto split: if_splits option.splits)
    then show ?thesis
      using Cons.IH [OF get_inv [OF Cons.prems(1) z(1)] z(2)] get_first [OF Cons.prems(1) z(1)]
        get_cap [OF Cons.prems(1) z(1)] Get by simp
  qed
qed simp

lemma run_balanced:
  "inv s \<Longrightarrow> balanced (cap s) (len s) ops \<Longrightarrow> \<exists>ys s'. fifo_run cap len put get ops s = Some (ys, s')"
proof (induction ops arbitrary: s)
  case (Cons op ops)
  show ?case
  proof (cases op)
    case (Put x)
    with Cons.prems have l: "len s < cap s" "balanced (cap s) (Suc (len s)) ops" by simp_all
    note P = put_inv [OF Cons.prems(1) l(1)] put_content [OF Cons.prems(1) l(1)] put_cap [OF Cons.prems(1) l(1)]
    have "len (put x s) = Suc (len s)" using len_content [OF P(1)] len_content [OF Cons.prems(1)] P(2) by simp
    then show ?thesis using Cons.IH [OF P(1)] P(3) l Put by simp
  next
    case Get
    with Cons.prems have l: "0 < len s" "balanced (cap s) (len s - 1) ops" by simp_all
    note G = get_inv [OF Cons.prems(1) l(1)] get_first [OF Cons.prems(1) l(1)] get_cap [OF Cons.prems(1) l(1)]
    have "len (snd (get s)) = len s - 1" using len_content [OF G(1)] len_content [OF Cons.prems(1)] G(2) by simp
    then obtain ys s' where "fifo_run cap len put get ops (snd (get s)) = Some (ys, s')"
      using Cons.IH [OF G(1)] G(3) l(2) by auto
    then show ?thesis using l(1) Get by simp
  qed
qed simp

text \<open>A balanced run returns, and what comes out is what was in and went in, in order.\<close>

lemma run_fifo:
  assumes "inv s" "balanced (cap s) (len s) ops"
  shows "\<exists>ys s'. fifo_run cap len put get ops s = Some (ys, s') \<and> inv s' \<and> content s @ inputs ops = ys @ content s'"
  using run_balanced [OF assms] run_in_order [OF assms(1)] by blast

end

section \<open>Ring offsets\<close>

text \<open>Stepping an offset around a ring, and the list of what a ring holds.\<close>

definition ring_next :: "nat \<Rightarrow> nat \<Rightarrow> nat" where
  "ring_next n i = (if Suc i \<ge> n then 0 else Suc i)"

definition ring_content :: "(nat \<Rightarrow> 'a) \<Rightarrow> nat \<Rightarrow> nat \<Rightarrow> nat \<Rightarrow> 'a list" where
  "ring_content f n out k = map (\<lambda>j. f ((out + j) mod n)) [0 ..< k]"

lemma ring_next_mod: "i < n \<Longrightarrow> ring_next n i = Suc i mod n"
  by (cases "Suc i = n") (auto simp: ring_next_def)

lemma ring_next_bound: "i < n \<Longrightarrow> ring_next n i < n"
  by (simp add: ring_next_def)

lemma length_ring_content [simp]: "length (ring_content f n out k) = k"
  by (simp add: ring_content_def)

lemma ring_content_cong:
  assumes "\<And>j. j < n \<Longrightarrow> f j = g j" "0 < n"
  shows "ring_content f n out k = ring_content g n out k"
  using assms by (simp add: ring_content_def)

lemma ring_mod_inj:
  assumes "(out + i) mod n = (out + j) mod n" "i < n" "j < n"
  shows "i = (j::nat)"
proof -
  have "i = j" if "i \<le> j" "(out + i) mod n = (out + j) mod n" "j < n" for i j
  proof -
    have "n dvd (out + j) - (out + i)" using that mod_eq_dvd_iff_nat [of "out + i" "out + j" n] by simp
    then have "n dvd j - i" by simp
    then show ?thesis using that dvd_imp_le [of n "j - i"] by (cases "i = j") auto
  qed
  then show ?thesis using assms by (metis nat_le_linear)
qed

lemma ring_mod_wrap:
  assumes "out < n" "k \<le> (n::nat)"
  shows "(out + k) mod n = (if out + k < n then out + k else out + k - n)"
  using assms by (auto simp: mod_if)

text \<open>Writing the slot behind the content appends to it; stepping the start drops the first element.\<close>

lemma ring_content_put:
  assumes "out < n" "k < n"
  shows "ring_content (f((out + k) mod n := x)) n out (Suc k) = ring_content f n out k @ [x]"
proof -
  have "(out + j) mod n \<noteq> (out + k) mod n" if "j < k" for j using ring_mod_inj [of out j n k] that assms by auto
  then show ?thesis by (simp add: ring_content_def)
qed

lemma ring_content_get:
  assumes "out < n" "0 < k"
  shows "ring_content f n out k = f out # ring_content f n (ring_next n out) (k - 1)"
proof -
  obtain k' where k: "k = Suc k'" using assms(2) by (cases k) auto
  have "map (\<lambda>j. f ((out + j) mod n)) [0 ..< Suc k'] = f out # map (\<lambda>j. f ((out + Suc j) mod n)) [0 ..< k']"
    using assms(1) by (simp add: upt_rec [of 0 "Suc k'"] map_Suc_upt [symmetric] del: upt_Suc)
  moreover have "(ring_next n out + j) mod n = (out + Suc j) mod n" for j
    using ring_next_mod [OF assms(1)] by (simp add: mod_add_left_eq)
  ultimately show ?thesis by (simp add: ring_content_def k del: upt_Suc)
qed

text \<open>The same for whole blocks.\<close>

lemma ring_content_append:
  assumes n: "out < n" "k + length xs \<le> n"
    and new: "\<And>j. j < length xs \<Longrightarrow> g ((out + k + j) mod n) = xs ! j"
    and old: "\<And>i. i < n \<Longrightarrow> (\<And>j. j < length xs \<Longrightarrow> i \<noteq> (out + k + j) mod n) \<Longrightarrow> g i = f i"
  shows "ring_content g n out (k + length xs) = ring_content f n out k @ xs"
proof (rule nth_equalityI)
  fix i assume i: "i < length (ring_content g n out (k + length xs))"
  show "ring_content g n out (k + length xs) ! i = (ring_content f n out k @ xs) ! i"
  proof (cases "i < k")
    case True
    have "(out + i) mod n \<noteq> (out + k + j) mod n" if "j < length xs" for j
      using ring_mod_inj [of out i n "k + j"] that True n(2) by (auto simp: add.assoc)
    then have "g ((out + i) mod n) = f ((out + i) mod n)" using old [of "(out + i) mod n"] n(1) by simp
    then show ?thesis using True i by (simp add: ring_content_def nth_append)
  next
    case False
    then show ?thesis using new [of "i - k"] i by (simp add: ring_content_def nth_append)
  qed
qed simp

lemma ring_content_drop:
  "ring_content f n ((out + l) mod n) (k - l) = drop l (ring_content f n out k)"
proof (rule nth_equalityI)
  fix i assume i: "i < length (ring_content f n ((out + l) mod n) (k - l))"
  have "((out + l) mod n + i) mod n = (out + (l + i)) mod n" by (simp add: mod_add_left_eq add.assoc)
  moreover have "l + i < k" using i by simp
  ultimately show "ring_content f n ((out + l) mod n) (k - l) ! i = drop l (ring_content f n out k) ! i"
    using i by (simp add: ring_content_def)
qed simp

end
