(* ===== verification/RT_RingBuffer.thy ===== *)
theory RT_RingBuffer
  imports RT_Fifo RT_KService
begin

text \<open>
  The ring buffer of \<open>components/drivers/src/ringbuffer.c\<close>. Each index has a mirror bit, so that a full
  and an empty buffer differ. The bytes are in memory behind \<open>buffer_ptr\<close>; \<open>memcpy\<close> is the C library's.
  The one-bit fields are booleans, the 15-bit fields are words of 15 bits, and \<open>buffer_size\<close>, a signed
  16-bit number, is an integer.
\<close>

record rt_ringbuffer =
  buffer_ptr :: nat
  read_mirror :: bool
  read_index :: "15 word"
  write_mirror :: bool
  write_index :: "15 word"
  buffer_size :: int

datatype rt_ringbuffer_state = RT_RINGBUFFER_EMPTY | RT_RINGBUFFER_FULL | RT_RINGBUFFER_HALFFULL

section \<open>Operations\<close>

definition rt_ringbuffer_init :: "nat \<Rightarrow> int \<Rightarrow> rt_ringbuffer option" where
  "rt_ringbuffer_init pool sz = do {
     RT_ASSERT (sz > 0);
     Some \<lparr>buffer_ptr = pool, read_mirror = False, read_index = 0, write_mirror = False, write_index = 0,
       buffer_size = uint (RT_ALIGN_DOWN (of_int sz) RT_ALIGN_SIZE)\<rparr> }"

definition rt_ringbuffer_get_size :: "rt_ringbuffer \<Rightarrow> u16" where
  "rt_ringbuffer_get_size rb = of_int (buffer_size rb)"

definition rt_ringbuffer_status :: "rt_ringbuffer \<Rightarrow> rt_ringbuffer_state" where
  "rt_ringbuffer_status rb =
    (if read_index rb = write_index rb
     then (if read_mirror rb = write_mirror rb then RT_RINGBUFFER_EMPTY else RT_RINGBUFFER_FULL)
     else RT_RINGBUFFER_HALFFULL)"

definition rt_ringbuffer_data_len :: "rt_ringbuffer \<Rightarrow> u16" where
  "rt_ringbuffer_data_len rb =
    (case rt_ringbuffer_status rb of
       RT_RINGBUFFER_EMPTY \<Rightarrow> 0
     | RT_RINGBUFFER_FULL \<Rightarrow> of_int (buffer_size rb)
     | RT_RINGBUFFER_HALFFULL \<Rightarrow>
         (if write_index rb > read_index rb then of_int (uint (write_index rb) - uint (read_index rb))
          else of_int (buffer_size rb - (uint (read_index rb) - uint (write_index rb)))))"

definition rt_ringbuffer_space_len :: "rt_ringbuffer \<Rightarrow> int" where
  "rt_ringbuffer_space_len rb = buffer_size rb - uint (rt_ringbuffer_data_len rb)"

text \<open>The copying of \<open>length\<close> bytes at the write index, which a put of either kind does.\<close>

definition ring_write :: "rt_ringbuffer \<Rightarrow> memory \<Rightarrow> nat \<Rightarrow> u16 \<Rightarrow> rt_ringbuffer \<times> memory" where
  "ring_write rb m ptr len =
    (if buffer_size rb - uint (write_index rb) > uint len
     then (rb\<lparr>write_index := write_index rb + ucast len\<rparr>,
           blit m (buffer_ptr rb + unat (write_index rb)) ptr (unat len))
     else let k = nat (buffer_size rb - uint (write_index rb));
              m1 = blit m (buffer_ptr rb + unat (write_index rb)) ptr k;
              m2 = blit m1 (buffer_ptr rb) (ptr + k) (unat len - k)
          in (rb\<lparr>write_mirror := \<not> write_mirror rb,
                write_index := of_int (uint len - (buffer_size rb - uint (write_index rb)))\<rparr>, m2))"

definition rt_ringbuffer_put :: "rt_ringbuffer \<Rightarrow> memory \<Rightarrow> nat \<Rightarrow> u16 \<Rightarrow> u16 \<times> rt_ringbuffer \<times> memory" where
  "rt_ringbuffer_put rb m ptr len =
    (let sz = of_int (rt_ringbuffer_space_len rb) :: u16 in
     if sz = 0 then (0, rb, m)
     else let len = (if sz < len then sz else len)
          in (len, ring_write rb m ptr len))"

definition rt_ringbuffer_put_force :: "rt_ringbuffer \<Rightarrow> memory \<Rightarrow> nat \<Rightarrow> u16 \<Rightarrow> u16 \<times> rt_ringbuffer \<times> memory" where
  "rt_ringbuffer_put_force rb m ptr len =
    (let old_state = rt_ringbuffer_status rb;
         len = (if uint len > buffer_size rb then of_int (buffer_size rb) else len);
         (rb1, m1) = ring_write rb m ptr len;
         rb2 = (if old_state = RT_RINGBUFFER_FULL
                then (if buffer_size rb - uint (write_index rb) > uint len
                      then rb1\<lparr>read_index := write_index rb1\<rparr>
                      else rb1\<lparr>read_mirror := \<not> read_mirror rb1, read_index := write_index rb1\<rparr>)
                else rb1)
     in (len, rb2, m1))"

definition rt_ringbuffer_get :: "rt_ringbuffer \<Rightarrow> memory \<Rightarrow> nat \<Rightarrow> u16 \<Rightarrow> u16 \<times> rt_ringbuffer \<times> memory" where
  "rt_ringbuffer_get rb m ptr len =
    (let sz = rt_ringbuffer_data_len rb in
     if sz = 0 then (0, rb, m)
     else let len = (if sz < len then sz else len) in
       if buffer_size rb - uint (read_index rb) > uint len
       then (len, rb\<lparr>read_index := read_index rb + ucast len\<rparr>,
             blit m ptr (buffer_ptr rb + unat (read_index rb)) (unat len))
       else let k = nat (buffer_size rb - uint (read_index rb));
                m1 = blit m ptr (buffer_ptr rb + unat (read_index rb)) k;
                m2 = blit m1 (ptr + k) (buffer_ptr rb) (unat len - k)
            in (len, rb\<lparr>read_mirror := \<not> read_mirror rb,
                           read_index := of_int (uint len - (buffer_size rb - uint (read_index rb)))\<rparr>, m2))"

definition rt_ringbuffer_putchar :: "rt_ringbuffer \<Rightarrow> memory \<Rightarrow> u8 \<Rightarrow> u16 \<times> rt_ringbuffer \<times> memory" where
  "rt_ringbuffer_putchar rb m ch =
    (if rt_ringbuffer_space_len rb = 0 then (0, rb, m)
     else let m1 = m(buffer_ptr rb + unat (write_index rb) := ch);
              rb1 = (if uint (write_index rb) = buffer_size rb - 1
                     then rb\<lparr>write_mirror := \<not> write_mirror rb, write_index := 0\<rparr>
                     else rb\<lparr>write_index := write_index rb + 1\<rparr>)
          in (1, rb1, m1))"

definition rt_ringbuffer_putchar_force :: "rt_ringbuffer \<Rightarrow> memory \<Rightarrow> u8 \<Rightarrow> u16 \<times> rt_ringbuffer \<times> memory" where
  "rt_ringbuffer_putchar_force rb m ch =
    (let old_state = rt_ringbuffer_status rb;
         m1 = m(buffer_ptr rb + unat (write_index rb) := ch)
     in if uint (write_index rb) = buffer_size rb - 1
        then let rb1 = rb\<lparr>write_mirror := \<not> write_mirror rb, write_index := 0\<rparr>
             in (1, (if old_state = RT_RINGBUFFER_FULL
                     then rb1\<lparr>read_mirror := \<not> read_mirror rb1, read_index := write_index rb1\<rparr> else rb1), m1)
        else let rb1 = rb\<lparr>write_index := write_index rb + 1\<rparr>
             in (1, (if old_state = RT_RINGBUFFER_FULL then rb1\<lparr>read_index := write_index rb1\<rparr> else rb1), m1))"

definition rt_ringbuffer_getchar :: "rt_ringbuffer \<Rightarrow> memory \<Rightarrow> u16 \<times> u8 option \<times> rt_ringbuffer" where
  "rt_ringbuffer_getchar rb m =
    (if rt_ringbuffer_data_len rb = 0 then (0, None, rb)
     else (1, Some (m (buffer_ptr rb + unat (read_index rb))),
           (if uint (read_index rb) = buffer_size rb - 1
            then rb\<lparr>read_mirror := \<not> read_mirror rb, read_index := 0\<rparr>
            else rb\<lparr>read_index := read_index rb + 1\<rparr>)))"

section \<open>Invariant and content\<close>

text \<open>
  On the same mirror the read index is not behind the write index; on different mirrors the write
  index has gone around once.
\<close>

definition rb_inv :: "rt_ringbuffer \<Rightarrow> bool" where
  "rb_inv rb \<longleftrightarrow> 0 < buffer_size rb \<and> buffer_size rb < 32768
     \<and> uint (read_index rb) < buffer_size rb \<and> uint (write_index rb) < buffer_size rb
     \<and> (if read_mirror rb = write_mirror rb then read_index rb \<le> write_index rb else write_index rb \<le> read_index rb)"

definition rb_size :: "rt_ringbuffer \<Rightarrow> nat" where
  "rb_size rb = nat (buffer_size rb)"

definition rb_len :: "rt_ringbuffer \<Rightarrow> nat" where
  "rb_len rb = (if read_mirror rb = write_mirror rb then unat (write_index rb) - unat (read_index rb)
                else rb_size rb - unat (read_index rb) + unat (write_index rb))"

definition rb_content :: "rt_ringbuffer \<Rightarrow> memory \<Rightarrow> u8 list" where
  "rb_content rb m = ring_content (\<lambda>i. m (buffer_ptr rb + i)) (rb_size rb) (unat (read_index rb)) (rb_len rb)"

text \<open>The two indices as natural numbers.\<close>

lemma rb_indices:
  obtains r w where "uint (read_index rb) = int r" "unat (read_index rb) = r" "r < 32768"
    "uint (write_index rb) = int w" "unat (write_index rb) = w" "w < 32768"
    "read_index rb \<le> write_index rb \<longleftrightarrow> r \<le> w" "write_index rb \<le> read_index rb \<longleftrightarrow> w \<le> r"
    "read_index rb < write_index rb \<longleftrightarrow> r < w" "read_index rb = write_index rb \<longleftrightarrow> r = w"
  using unsigned_less [of "read_index rb", where ?'a = nat] unsigned_less [of "write_index rb", where ?'a = nat]
  by (intro that [of "unat (read_index rb)" "unat (write_index rb)"])
    (simp_all add: word_le_nat_alt word_less_nat_alt word_unat_eq_iff)

lemma rb_inv_alt:
  "rb_inv rb \<longleftrightarrow> 0 < rb_size rb \<and> rb_size rb < 32768 \<and> buffer_size rb = int (rb_size rb)
     \<and> unat (read_index rb) < rb_size rb \<and> unat (write_index rb) < rb_size rb
     \<and> (if read_mirror rb = write_mirror rb then unat (read_index rb) \<le> unat (write_index rb)
        else unat (write_index rb) \<le> unat (read_index rb))"
proof -
  obtain r w where e: "uint (read_index rb) = int r" "unat (read_index rb) = r"
    "uint (write_index rb) = int w" "unat (write_index rb) = w"
    "read_index rb \<le> write_index rb \<longleftrightarrow> r \<le> w" "write_index rb \<le> read_index rb \<longleftrightarrow> w \<le> r" by (rule rb_indices)
  show ?thesis unfolding rb_inv_def rb_size_def e by auto
qed

lemma rb_invD:
  assumes "rb_inv rb"
  shows "0 < rb_size rb" "rb_size rb < 32768" "buffer_size rb = int (rb_size rb)"
    "unat (read_index rb) < rb_size rb" "unat (write_index rb) < rb_size rb" "rb_len rb \<le> rb_size rb"
    "unat (write_index rb) = (unat (read_index rb) + rb_len rb) mod rb_size rb"
  using assms by (auto simp: rb_inv_alt rb_len_def split: if_splits)

text \<open>The functions that the header defines compute the length, the space and the state.\<close>

lemma rb_data_len:
  assumes "rb_inv rb"
  shows "unat (rt_ringbuffer_data_len rb) = rb_len rb" "rt_ringbuffer_space_len rb = int (rb_size rb - rb_len rb)"
    "rt_ringbuffer_status rb = RT_RINGBUFFER_FULL \<longleftrightarrow> rb_len rb = rb_size rb"
    "rt_ringbuffer_status rb = RT_RINGBUFFER_EMPTY \<longleftrightarrow> rb_len rb = 0"
proof -
  obtain r w where e: "uint (read_index rb) = int r" "unat (read_index rb) = r"
    "uint (write_index rb) = int w" "unat (write_index rb) = w"
    "read_index rb < write_index rb \<longleftrightarrow> r < w" "read_index rb = write_index rb \<longleftrightarrow> r = w" by (rule rb_indices)
  define n where "n = rb_size rb"
  have D: "0 < n" "n < 32768" "buffer_size rb = int n" "r < n" "w < n" "rb_len rb \<le> n"
    "if read_mirror rb = write_mirror rb then r \<le> w else w \<le> r"
    using assms rb_invD [OF assms] by (auto simp: rb_inv_alt e n_def)
  have "rt_ringbuffer_data_len rb = of_int (int (rb_len rb))"
    using D unfolding rt_ringbuffer_data_len_def rt_ringbuffer_status_def rb_len_def e n_def [symmetric]
    by (cases "read_mirror rb = write_mirror rb"; cases "r = w") (auto simp: of_nat_diff algebra_simps)
  then show l: "unat (rt_ringbuffer_data_len rb) = rb_len rb" using D by (simp add: unat_of_nat)
  then have "uint (rt_ringbuffer_data_len rb) = int (rb_len rb)" by (metis uint_nat)
  then show "rt_ringbuffer_space_len rb = int (rb_size rb - rb_len rb)"
    using D by (simp add: rt_ringbuffer_space_len_def of_nat_diff n_def)
  show "rt_ringbuffer_status rb = RT_RINGBUFFER_FULL \<longleftrightarrow> rb_len rb = rb_size rb"
    "rt_ringbuffer_status rb = RT_RINGBUFFER_EMPTY \<longleftrightarrow> rb_len rb = 0"
    using D unfolding rt_ringbuffer_status_def rb_len_def e n_def [symmetric] by auto
qed

section \<open>Moving the indices\<close>

text \<open>Advancing the write or the read index by \<open>l\<close>, with the mirror flipped when it wraps.\<close>

definition advance_w :: "nat \<Rightarrow> rt_ringbuffer \<Rightarrow> rt_ringbuffer" where
  "advance_w l rb =
    (if unat (write_index rb) + l < rb_size rb then rb\<lparr>write_index := of_nat (unat (write_index rb) + l)\<rparr>
     else rb\<lparr>write_mirror := \<not> write_mirror rb, write_index := of_nat (unat (write_index rb) + l - rb_size rb)\<rparr>)"

definition advance_r :: "nat \<Rightarrow> rt_ringbuffer \<Rightarrow> rt_ringbuffer" where
  "advance_r l rb =
    (if unat (read_index rb) + l < rb_size rb then rb\<lparr>read_index := of_nat (unat (read_index rb) + l)\<rparr>
     else rb\<lparr>read_mirror := \<not> read_mirror rb, read_index := of_nat (unat (read_index rb) + l - rb_size rb)\<rparr>)"

lemma small_index: "k < rb_size rb \<Longrightarrow> rb_inv rb \<Longrightarrow> unat (of_nat k :: 15 word) = k"
  by (simp add: rb_inv_alt unat_of_nat)

lemma advance_w:
  assumes I: "rb_inv rb" and l: "rb_len rb + l \<le> rb_size rb"
  shows "rb_inv (advance_w l rb)" "rb_size (advance_w l rb) = rb_size rb" "rb_len (advance_w l rb) = rb_len rb + l"
    "read_index (advance_w l rb) = read_index rb" "buffer_ptr (advance_w l rb) = buffer_ptr rb"
proof -
  obtain r w where e: "unat (read_index rb) = r" "unat (write_index rb) = w" by blast
  define n where "n = rb_size rb"
  have D: "0 < n" "n < 32768" "buffer_size rb = int n" "r < n" "w < n"
    "if read_mirror rb = write_mirror rb then r \<le> w else w \<le> r"
    using I by (auto simp: rb_inv_alt e n_def)
  have len: "rb_len rb = (if read_mirror rb = write_mirror rb then w - r else n - r + w)"
    by (simp add: rb_len_def e n_def)
  have lt: "w + l - n < n" using l D unfolding len n_def [symmetric] by (auto split: if_splits)
  show s: "rb_size (advance_w l rb) = rb_size rb" "read_index (advance_w l rb) = read_index rb"
    "buffer_ptr (advance_w l rb) = buffer_ptr rb" by (simp_all add: advance_w_def rb_size_def)
  have bs: "buffer_size (advance_w l rb) = buffer_size rb" "read_mirror (advance_w l rb) = read_mirror rb"
    "write_mirror (advance_w l rb) = (if w + l < n then write_mirror rb else \<not> write_mirror rb)"
    by (simp_all add: advance_w_def e n_def)
  have wi: "unat (write_index (advance_w l rb)) = (if w + l < n then w + l else w + l - n)"
    using small_index [OF _ I, of "w + l"] small_index [OF _ I, of "w + l - n"] lt
    by (simp add: advance_w_def e n_def del: of_nat_add of_nat_diff)
  show "rb_inv (advance_w l rb)" "rb_len (advance_w l rb) = rb_len rb + l"
    using D l lt unfolding rb_inv_alt rb_len_def s bs wi e n_def [symmetric] by (auto split: if_splits)
qed

lemma advance_r:
  assumes I: "rb_inv rb" and l: "l \<le> rb_len rb"
  shows "rb_inv (advance_r l rb)" "rb_size (advance_r l rb) = rb_size rb" "rb_len (advance_r l rb) = rb_len rb - l"
    "unat (read_index (advance_r l rb)) = (unat (read_index rb) + l) mod rb_size rb"
    "buffer_ptr (advance_r l rb) = buffer_ptr rb"
proof -
  obtain r w where e: "unat (read_index rb) = r" "unat (write_index rb) = w" by blast
  define n where "n = rb_size rb"
  have D: "0 < n" "n < 32768" "buffer_size rb = int n" "r < n" "w < n"
    "if read_mirror rb = write_mirror rb then r \<le> w else w \<le> r"
    using I by (auto simp: rb_inv_alt e n_def)
  have len: "rb_len rb = (if read_mirror rb = write_mirror rb then w - r else n - r + w)"
    by (simp add: rb_len_def e n_def)
  have lt: "r + l - n < n" using l D unfolding len by (auto split: if_splits)
  show s: "rb_size (advance_r l rb) = rb_size rb" "buffer_ptr (advance_r l rb) = buffer_ptr rb"
    by (simp_all add: advance_r_def rb_size_def)
  have bs: "buffer_size (advance_r l rb) = buffer_size rb" "write_index (advance_r l rb) = write_index rb"
    "write_mirror (advance_r l rb) = write_mirror rb"
    "read_mirror (advance_r l rb) = (if r + l < n then read_mirror rb else \<not> read_mirror rb)"
    by (simp_all add: advance_r_def e n_def)
  have ri: "unat (read_index (advance_r l rb)) = (if r + l < n then r + l else r + l - n)"
    using small_index [OF _ I, of "r + l"] small_index [OF _ I, of "r + l - n"] lt
    by (simp add: advance_r_def e n_def del: of_nat_add of_nat_diff)
  then show "unat (read_index (advance_r l rb)) = (unat (read_index rb) + l) mod rb_size rb"
    using lt by (simp add: e n_def [symmetric] mod_if)
  show "rb_inv (advance_r l rb)" "rb_len (advance_r l rb) = rb_len rb - l"
    using D l lt unfolding rb_inv_alt rb_len_def s bs ri e n_def [symmetric] by (auto split: if_splits)
qed

text \<open>What the source computes for a new index is the advanced one.\<close>

lemma index_steps:
  assumes "rb_inv rb" "unat len \<le> rb_size rb"
  shows "fst (ring_write rb m ptr len) = advance_w (unat len) rb"
    and "(if buffer_size rb - uint (read_index rb) > uint len then rb\<lparr>read_index := read_index rb + ucast len\<rparr>
      else rb\<lparr>read_mirror := \<not> read_mirror rb,
              read_index := of_int (uint len - (buffer_size rb - uint (read_index rb)))\<rparr>) = advance_r (unat len) rb"
proof -
  obtain r w where e: "uint (read_index rb) = int r" "unat (read_index rb) = r"
    "uint (write_index rb) = int w" "unat (write_index rb) = w" by (rule rb_indices)
  obtain l where l: "uint len = int l" "unat len = l" by (metis uint_nat)
  have n: "buffer_size rb = int (rb_size rb)" by (rule rb_invD(3) [OF assms(1)])
  have c: "ucast len = (of_nat l :: 15 word)" using l by (metis of_nat_unat)
  have i: "read_index rb = of_nat r" "write_index rb = of_nat w" using e by (metis of_nat_unat ucast_id)+
  have cond: "int l < int k - int x \<longleftrightarrow> x + l < k" for x k by auto
  have add: "read_index rb + of_nat l = of_nat (r + l)" "write_index rb + of_nat l = of_nat (w + l)" by (simp_all add: i)
  have sub: "(of_int (int l - (int k - int x)) :: 15 word) = of_nat (x + l - k)" if "\<not> x + l < k" for x k
  proof -
    have "int l - (int k - int x) = int (x + l - k)" using that by simp
    then show ?thesis by (simp only: of_int_of_nat_eq)
  qed
  show "fst (ring_write rb m ptr len) = advance_w (unat len) rb"
    unfolding ring_write_def advance_w_def Let_def n l c e cond add
    by (cases "w + l < rb_size rb") (simp_all only: if_True if_False fst_conv sub not_False_eq_True)
  show "(if buffer_size rb - uint (read_index rb) > uint len then rb\<lparr>read_index := read_index rb + ucast len\<rparr>
      else rb\<lparr>read_mirror := \<not> read_mirror rb,
              read_index := of_int (uint len - (buffer_size rb - uint (read_index rb)))\<rparr>) = advance_r (unat len) rb"
    unfolding advance_r_def n l c e cond add
    by (cases "r + l < rb_size rb") (simp_all only: if_True if_False sub not_False_eq_True)
qed

section \<open>Putting and getting blocks\<close>

definition bytes_at :: "memory \<Rightarrow> nat \<Rightarrow> nat \<Rightarrow> u8 list" where
  "bytes_at m p l = map (\<lambda>j. m (p + j)) [0 ..< l]"

lemma bytes_at_simps [simp]: "length (bytes_at m p l) = l" "j < l \<Longrightarrow> bytes_at m p l ! j = m (p + j)"
  by (simp_all add: bytes_at_def)

definition apart :: "rt_ringbuffer \<Rightarrow> nat \<Rightarrow> nat \<Rightarrow> bool" where
  "apart rb p l \<longleftrightarrow> p + l \<le> buffer_ptr rb \<or> buffer_ptr rb + rb_size rb \<le> p"

lemma ring_write_mem:
  fixes m :: memory
  assumes I: "rb_inv rb" and l: "unat len \<le> rb_size rb" and ap: "apart rb ptr (unat len)"
  defines "m' \<equiv> snd (ring_write rb m ptr len)" and "w \<equiv> unat (write_index rb)" and "n \<equiv> rb_size rb" and "b \<equiv> buffer_ptr rb"
  shows "j < unat len \<Longrightarrow> m' (b + (w + j) mod n) = m (ptr + j)"
    and "i < n \<Longrightarrow> (\<And>j. j < unat len \<Longrightarrow> i \<noteq> (w + j) mod n) \<Longrightarrow> m' (b + i) = m (b + i)"
    and "x < b \<or> b + n \<le> x \<Longrightarrow> m' x = m x"
proof -
  obtain k where k: "uint len = int k" "unat len = k" by (metis uint_nat)
  have D: "buffer_size rb = int n" "w < n" "uint (write_index rb) = int w"
    using rb_invD [OF I] uint_nat [of "write_index rb"] by (auto simp: n_def w_def)
  have cond: "int k < int n - int w \<longleftrightarrow> w + k < n" by auto
  have nk: "nat (int n - int w) = n - w" by simp
  have mm: "m' = (if w + k < n then blit m (b + w) ptr k
      else blit (blit m (b + w) ptr (n - w)) b (ptr + (n - w)) (k - (n - w)))"
    unfolding m'_def ring_write_def Let_def k D(1,3) cond w_def [symmetric] b_def [symmetric] nk by simp
  have lk: "k \<le> n" "ptr + k \<le> b \<or> b + n \<le> ptr" using l ap by (simp_all add: k n_def b_def apart_def)
  have md: "(w + j) mod n = (if w + j < n then w + j else w + j - n)" if "j \<le> n" for j
    by (rule ring_mod_wrap [OF D(2) that])
  show "m' (b + (w + j) mod n) = m (ptr + j)" if "j < unat len"
    using that lk D(2) md [of j] unfolding mm k by (auto simp: blit_def)
  show "m' x = m x" if "x < b \<or> b + n \<le> x" using that lk(1) D(2) unfolding mm by (auto simp: blit_def)
  show "m' (b + i) = m (b + i)" if i: "i < n" "\<And>j. j < unat len \<Longrightarrow> i \<noteq> (w + j) mod n"
  proof (cases "w + k < n")
    case True
    have "\<not> (w \<le> i \<and> i < w + k)"
    proof
      assume a: "w \<le> i \<and> i < w + k"
      then have "i - w < unat len" using k(2) by linarith
      from i(2) [OF this] show False using a i(1) by simp
    qed
    then show ?thesis using True unfolding mm by (auto simp: blit_def)
  next
    case False
    have "\<not> w \<le> i"
    proof
      assume a: "w \<le> i"
      then have "i - w < unat len" using i(1) False k(2) by linarith
      from i(2) [OF this] show False using a i(1) by simp
    qed
    moreover have "\<not> i < k - (n - w)"
    proof
      assume a: "i < k - (n - w)"
      then have "i + (n - w) < unat len" using k(2) by linarith
      from i(2) [OF this] show False using i(1) D(2) by simp
    qed
    ultimately show ?thesis using False unfolding mm by (auto simp: blit_def)
  qed
qed

lemma ring_write_content:
  assumes I: "rb_inv rb" and l: "rb_len rb + unat len \<le> rb_size rb" and ap: "apart rb ptr (unat len)"
  shows "rb_content (fst (ring_write rb m ptr len)) (snd (ring_write rb m ptr len))
    = rb_content rb m @ bytes_at m ptr (unat len)"
proof -
  let ?m = "snd (ring_write rb m ptr len)" and ?n = "rb_size rb" and ?b = "buffer_ptr rb"
  let ?r = "unat (read_index rb)" and ?xs = "bytes_at m ptr (unat len)"
  have l': "unat len \<le> ?n" using l by simp
  note M = ring_write_mem [OF I l' ap, of _ m]
  have w: "(?r + rb_len rb + j) mod ?n = (unat (write_index rb) + j) mod ?n" for j
    using rb_invD(7) [OF I] by (metis mod_add_left_eq)
  have "ring_content (\<lambda>i. ?m (?b + i)) ?n ?r (rb_len rb + length ?xs) = ring_content (\<lambda>i. m (?b + i)) ?n ?r (rb_len rb) @ ?xs"
    by (rule ring_content_append) (use rb_invD(4) [OF I] l M in \<open>auto simp: w\<close>)
  then show ?thesis
    using advance_w [OF I l] by (simp add: rb_content_def index_steps(1) [OF I l'])
qed

text \<open>
  A put stores as much of the block as there is room for, behind what the buffer holds, and writes
  nothing outside the buffer.
\<close>

lemma rt_ringbuffer_put_spec:
  assumes I: "rb_inv rb" and ap: "apart rb ptr (unat len)"
  defines "k \<equiv> min (unat len) (rb_size rb - rb_len rb)"
  shows "\<exists>rb' m'. rt_ringbuffer_put rb m ptr len = (of_nat k, rb', m') \<and> rb_inv rb' \<and> rb_size rb' = rb_size rb
     \<and> buffer_ptr rb' = buffer_ptr rb \<and> rb_content rb' m' = rb_content rb m @ bytes_at m ptr k
     \<and> (\<forall>x. x < buffer_ptr rb \<or> buffer_ptr rb + rb_size rb \<le> x \<longrightarrow> m' x = m x)"
proof -
  define sp where "sp = (of_int (rt_ringbuffer_space_len rb) :: u16)"
  have n: "rb_size rb < 32768" by (rule rb_invD(2) [OF I])
  have us: "unat sp = rb_size rb - rb_len rb" using n by (simp add: sp_def rb_data_len(2) [OF I] unat_of_nat)
  have z: "sp = 0 \<longleftrightarrow> rb_size rb - rb_len rb = 0" using us unat_eq_zero by metis
  define l where "l = (if sp < len then sp else len)"
  have ul: "unat l = k" using us by (auto simp: l_def k_def word_less_nat_alt)
  then have lk: "l = of_nat k" by (metis of_nat_unat ucast_id)
  show ?thesis
  proof (cases "sp = 0")
    case True
    then have "k = 0" using z by (simp add: k_def)
    then show ?thesis using True I by (simp add: rt_ringbuffer_put_def sp_def [symmetric] bytes_at_def)
  next
    case False
    have k: "rb_len rb + unat l \<le> rb_size rb" "unat l \<le> rb_size rb" "apart rb ptr (unat l)"
      unfolding ul using rb_invD(6) [OF I] ap by (auto simp: k_def apart_def)
    obtain rb' m' where w: "ring_write rb m ptr l = (rb', m')" by fastforce
    note C = ring_write_content [OF I k(1,3), of m] and A = advance_w [OF I k(1)] and S = index_steps(1) [OF I k(2), of m ptr]
    have "rt_ringbuffer_put rb m ptr len = (of_nat k, rb', m')"
      using False w unfolding rt_ringbuffer_put_def sp_def [symmetric] Let_def l_def [symmetric] by (simp add: lk [symmetric])
    moreover have "rb_content rb' m' = rb_content rb m @ bytes_at m ptr k" using C ul by (simp add: w)
    moreover have "rb' = advance_w (unat l) rb" using S w by simp
    moreover have "m' x = m x" if "x < buffer_ptr rb \<or> buffer_ptr rb + rb_size rb \<le> x" for x
      using ring_write_mem(3) [OF I k(2,3) that, of m] w by simp
    ultimately show ?thesis using A(1,2,5) by (intro exI [of _ rb'] exI [of _ m']) simp
  qed
qed

lemma rb_content_advance_r:
  assumes "rb_inv rb" "l \<le> rb_len rb"
  shows "rb_content (advance_r l rb) m = drop l (rb_content rb m)"
  using advance_r [OF assms] by (simp add: rb_content_def ring_content_drop)

lemma rb_content_cong:
  assumes "rb_inv rb" "\<And>i. i < rb_size rb \<Longrightarrow> m' (buffer_ptr rb + i) = m (buffer_ptr rb + i)"
  shows "rb_content rb m' = rb_content rb m"
  unfolding rb_content_def by (rule ring_content_cong) (use assms rb_invD(1) [OF assms(1)] in auto)

text \<open>A get copies the oldest bytes out, in order, and removes them.\<close>

lemma rt_ringbuffer_get_spec:
  assumes I: "rb_inv rb" and ap: "apart rb ptr (unat len)"
  defines "k \<equiv> min (unat len) (rb_len rb)"
  shows "\<exists>rb' m'. rt_ringbuffer_get rb m ptr len = (of_nat k, rb', m') \<and> rb_inv rb' \<and> rb_size rb' = rb_size rb
     \<and> buffer_ptr rb' = buffer_ptr rb \<and> bytes_at m' ptr k = take k (rb_content rb m)
     \<and> rb_content rb' m' = drop k (rb_content rb m) \<and> (\<forall>x. x < ptr \<or> ptr + k \<le> x \<longrightarrow> m' x = m x)"
proof -
  define sp where "sp = rt_ringbuffer_data_len rb"
  have us: "unat sp = rb_len rb" by (simp add: sp_def rb_data_len(1) [OF I])
  have z: "sp = 0 \<longleftrightarrow> rb_len rb = 0" using us unat_eq_zero by metis
  define l where "l = (if sp < len then sp else len)"
  have ul: "unat l = k" using us by (auto simp: l_def k_def word_less_nat_alt)
  then have lk: "l = of_nat k" by (metis of_nat_unat ucast_id)
  have kl: "k \<le> rb_len rb" "k \<le> rb_size rb" using rb_invD(6) [OF I] by (simp_all add: k_def)
  note A = advance_r [OF I kl(1)]
  show ?thesis
  proof (cases "sp = 0")
    case True
    then have "k = 0" using z by (simp add: k_def)
    then show ?thesis using True I by (simp add: rt_ringbuffer_get_def sp_def [symmetric] bytes_at_def)
  next
    case False
    define r n b where "r = unat (read_index rb)" "n = rb_size rb" "b = buffer_ptr rb"
    define m' where "m' = (if r + k < n then blit m ptr (b + r) k
      else blit (blit m ptr (b + r) (n - r)) (ptr + (n - r)) b (k - (n - r)))"
    have D: "buffer_size rb = int n" "r < n" "uint (read_index rb) = int r" "uint l = int k"
      using rb_invD [OF I] uint_nat [of "read_index rb"] uint_nat [of l] ul by (auto simp: r_n_b_def)
    have cond: "int k < int n - int r \<longleftrightarrow> r + k < n" by auto
    have nk: "nat (int n - int r) = n - r" by simp
    have "rt_ringbuffer_get rb m ptr len = (l, if uint l < buffer_size rb - uint (read_index rb)
        then rb\<lparr>read_index := read_index rb + ucast l\<rparr>
        else rb\<lparr>read_mirror := \<not> read_mirror rb,
                read_index := of_int (uint l - (buffer_size rb - uint (read_index rb)))\<rparr>, m')"
      using False unfolding rt_ringbuffer_get_def sp_def [symmetric] Let_def l_def [symmetric] D(1,3,4) cond ul nk m'_def
        r_n_b_def [symmetric] by simp
    then have run: "rt_ringbuffer_get rb m ptr len = (of_nat k, advance_r k rb, m')"
      using index_steps(2) [OF I, of l] kl(2) ul by (simp add: lk)
    have apk: "ptr + k \<le> b \<or> b + n \<le> ptr" using ap by (auto simp: apart_def r_n_b_def k_def)
    have md: "(r + j) mod n = (if r + j < n then r + j else r + j - n)" if "j \<le> n" for j
      by (rule ring_mod_wrap [OF D(2) that])
    have kn: "k \<le> n" using kl(2) by (simp add: r_n_b_def)
    have got: "m' (ptr + j) = m (b + (r + j) mod n)" if "j < k" for j
      using that apk kn D(2) md [of j] unfolding m'_def by (auto simp: blit_def ac_simps)
    have out: "m' x = m x" if "x < ptr \<or> ptr + k \<le> x" for x
      using that kn D(2) unfolding m'_def by (auto simp: blit_def)
    have "bytes_at m' ptr k = take k (rb_content rb m)"
      using got kl(1) by (intro nth_equalityI) (simp_all add: rb_content_def ring_content_def r_n_b_def)
    moreover have "rb_content (advance_r k rb) m' = rb_content (advance_r k rb) m"
      by (rule rb_content_cong [OF A(1)]) (use out apk in \<open>auto simp: A r_n_b_def\<close>)
    ultimately show ?thesis
      using run A out rb_content_advance_r [OF I kl(1)] by (intro exI [of _ "advance_r k rb"] exI [of _ m']) simp
  qed
qed

section \<open>Putting and getting characters\<close>

lemma char_steps:
  assumes I: "rb_inv rb"
  shows "(if uint (write_index rb) = buffer_size rb - 1 then rb\<lparr>write_mirror := \<not> write_mirror rb, write_index := 0\<rparr>
     else rb\<lparr>write_index := write_index rb + 1\<rparr>) = advance_w 1 rb"
    and "(if uint (read_index rb) = buffer_size rb - 1 then rb\<lparr>read_mirror := \<not> read_mirror rb, read_index := 0\<rparr>
     else rb\<lparr>read_index := read_index rb + 1\<rparr>) = advance_r 1 rb"
proof -
  obtain r w where e: "uint (read_index rb) = int r" "unat (read_index rb) = r"
    "uint (write_index rb) = int w" "unat (write_index rb) = w" by (rule rb_indices)
  have n: "buffer_size rb = int (rb_size rb)" "r < rb_size rb" "w < rb_size rb" using rb_invD(3-5) [OF I] by (simp_all add: e)
  have i: "read_index rb + 1 = of_nat (r + 1)" "write_index rb + 1 = of_nat (w + 1)"
    using e by (metis of_nat_unat ucast_id of_nat_add of_nat_1)+
  have cond: "int x = int k - 1 \<longleftrightarrow> \<not> x + 1 < k" if "x < k" for x k using that by auto
  have z: "x + 1 - k = 0" if "x < k" for x k :: nat using that by simp
  show "(if uint (write_index rb) = buffer_size rb - 1 then rb\<lparr>write_mirror := \<not> write_mirror rb, write_index := 0\<rparr>
     else rb\<lparr>write_index := write_index rb + 1\<rparr>) = advance_w 1 rb"
    unfolding advance_w_def e n(1) cond [OF n(3)] i z [OF n(3)] by (simp only: of_nat_0 if_distrib split: if_splits) simp
  show "(if uint (read_index rb) = buffer_size rb - 1 then rb\<lparr>read_mirror := \<not> read_mirror rb, read_index := 0\<rparr>
     else rb\<lparr>read_index := read_index rb + 1\<rparr>) = advance_r 1 rb"
    unfolding advance_r_def e n(1) cond [OF n(2)] i z [OF n(2)] by (simp only: of_nat_0 if_distrib split: if_splits) simp
qed

lemma rb_content_put_char:
  assumes I: "rb_inv rb" and l: "rb_len rb < rb_size rb"
  shows "rb_content (advance_w 1 rb) (m(buffer_ptr rb + unat (write_index rb) := ch)) = rb_content rb m @ [ch]"
proof -
  let ?f = "\<lambda>i. m (buffer_ptr rb + i)"
  have "(\<lambda>i. (m(buffer_ptr rb + unat (write_index rb) := ch)) (buffer_ptr rb + i))
      = ?f ((unat (read_index rb) + rb_len rb) mod rb_size rb := ch)"
    using rb_invD(7) [OF I] by auto
  then show ?thesis
    using advance_w [OF I, of 1] l ring_content_put [OF rb_invD(4) [OF I] l, of ?f ch] by (simp add: rb_content_def)
qed

lemma rt_ringbuffer_putchar_spec:
  assumes I: "rb_inv rb"
  shows "rt_ringbuffer_putchar rb m ch = (if rb_len rb = rb_size rb then (0, rb, m)
    else (1, advance_w 1 rb, m(buffer_ptr rb + unat (write_index rb) := ch)))"
  using rb_invD(6) [OF I]
  by (auto simp: rt_ringbuffer_putchar_def Let_def rb_data_len(2) [OF I] char_steps(1) [OF I])

lemma rt_ringbuffer_getchar_spec:
  assumes I: "rb_inv rb"
  shows "rt_ringbuffer_getchar rb m = (if rb_len rb = 0 then (0, None, rb) else (1, Some (hd (rb_content rb m)), advance_r 1 rb))"
proof -
  have "rt_ringbuffer_data_len rb = 0 \<longleftrightarrow> rb_len rb = 0" using rb_data_len(1) [OF I] unat_eq_zero by metis
  moreover have "hd (rb_content rb m) = m (buffer_ptr rb + unat (read_index rb))" if "rb_len rb \<noteq> 0"
    unfolding rb_content_def using that by (subst ring_content_get [OF rb_invD(4) [OF I]]) simp_all
  ultimately show ?thesis by (simp add: rt_ringbuffer_getchar_def char_steps(2) [OF I])
qed

text \<open>The ring buffer, used a character at a time, is a bounded first-in-first-out buffer.\<close>

definition rbc_put :: "u8 \<Rightarrow> rt_ringbuffer \<times> memory \<Rightarrow> rt_ringbuffer \<times> memory" where
  "rbc_put ch = (\<lambda>(rb, m). snd (rt_ringbuffer_putchar rb m ch))"

definition rbc_get :: "rt_ringbuffer \<times> memory \<Rightarrow> u8 \<times> rt_ringbuffer \<times> memory" where
  "rbc_get = (\<lambda>(rb, m). case rt_ringbuffer_getchar rb m of (_, c, rb') \<Rightarrow> (the c, rb', m))"

definition rbc_len :: "rt_ringbuffer \<times> memory \<Rightarrow> nat" where
  "rbc_len = (\<lambda>(rb, m). unat (rt_ringbuffer_data_len rb))"

definition rbc_cap :: "rt_ringbuffer \<times> memory \<Rightarrow> nat" where
  "rbc_cap = (\<lambda>(rb, m). unat (rt_ringbuffer_get_size rb))"

lemma rbc_views:
  assumes "rb_inv rb"
  shows "rbc_len (rb, m) = rb_len rb" "rbc_cap (rb, m) = rb_size rb"
    "rbc_put ch (rb, m) = (if rb_len rb = rb_size rb then (rb, m)
      else (advance_w 1 rb, m(buffer_ptr rb + unat (write_index rb) := ch)))"
    "0 < rb_len rb \<Longrightarrow> rbc_get (rb, m) = (hd (rb_content rb m), advance_r 1 rb, m)"
  using rb_invD(2,3) [OF assms]
  by (simp_all add: rbc_len_def rbc_cap_def rbc_put_def rbc_get_def rb_data_len(1) [OF assms] rt_ringbuffer_get_size_def
      unat_of_nat rt_ringbuffer_putchar_spec [OF assms] rt_ringbuffer_getchar_spec [OF assms])

interpretation rbc: bounded_fifo "\<lambda>(rb, m). rb_inv rb" "\<lambda>(rb, m). rb_content rb m" rbc_cap rbc_len rbc_put rbc_get
proof (unfold_locales, goal_cases)
  case (1 s)
  then show ?case by (cases s) (simp add: rbc_views rb_content_def)
next
  case (2 s x)
  then show ?case by (cases s) (auto simp: rbc_views advance_w)
next
  case (3 s x)
  then show ?case by (cases s) (auto simp: rbc_views rb_content_put_char [simplified])
next
  case (4 s x)
  then show ?case by (cases s) (auto simp: rbc_views advance_w)
next
  case (5 s)
  then show ?case by (cases s) (auto simp: rbc_views advance_r)
next
  case (6 s)
  obtain rb m where s: "s = (rb, m)" by fastforce
  have I: "rb_inv rb" "0 < rb_len rb" using 6 by (auto simp: s rbc_views)
  have "length (rb_content rb m) = rb_len rb" by (simp add: rb_content_def)
  then have "rb_content rb m \<noteq> []" using I(2) by auto
  moreover have "rb_content (advance_r 1 rb) m = tl (rb_content rb m)"
    using rb_content_advance_r [OF I(1), of 1 m] I(2) by (simp add: drop_Suc)
  ultimately show ?case using I by (simp add: s rbc_views)
next
  case (7 s)
  then show ?case by (cases s) (auto simp: rbc_views advance_r)
qed

section \<open>Forced puts\<close>

text \<open>Into a full buffer a forced put of either kind gives up as many of the oldest bytes as it stores.\<close>

lemma full_indices:
  assumes "rb_inv rb" "rb_len rb = rb_size rb"
  shows "unat (read_index rb) = unat (write_index rb)" "read_mirror rb \<noteq> write_mirror rb"
  using assms by (auto simp: rb_inv_alt rb_len_def split: if_splits)

lemma full_advance:
  assumes I: "rb_inv rb" and f: "rb_len rb = rb_size rb"
  shows "(if rb_size rb - unat (write_index rb) > l then (advance_w l rb)\<lparr>read_index := write_index (advance_w l rb)\<rparr>
     else (advance_w l rb)\<lparr>read_mirror := \<not> read_mirror (advance_w l rb), read_index := write_index (advance_w l rb)\<rparr>)
     = advance_w l (advance_r l rb)"
proof -
  obtain w where w: "unat (read_index rb) = w" "unat (write_index rb) = w" using full_indices(1) [OF I f] by simp
  have c: "l < rb_size rb - w \<longleftrightarrow> w + l < rb_size rb" by auto
  have s: "rb_size (rb\<lparr>read_index := x\<rparr>) = rb_size rb" "rb_size (rb\<lparr>read_mirror := y, read_index := x\<rparr>) = rb_size rb" for x y
    by (simp_all add: rb_size_def)
  show ?thesis unfolding c w advance_w_def advance_r_def by (cases "w + l < rb_size rb") (simp_all add: s w)
qed

lemma rt_ringbuffer_putchar_force_spec:
  assumes I: "rb_inv rb"
  shows "\<exists>rb' m'. rt_ringbuffer_putchar_force rb m ch = (1, rb', m') \<and> rb_inv rb' \<and> rb_size rb' = rb_size rb
     \<and> rb_content rb' m' = (if rb_len rb = rb_size rb then tl (rb_content rb m) else rb_content rb m) @ [ch]"
proof (cases "rb_len rb = rb_size rb")
  case False
  then have l: "rb_len rb < rb_size rb" using rb_invD(6) [OF I] by simp
  have "rt_ringbuffer_status rb \<noteq> RT_RINGBUFFER_FULL" using False rb_data_len(3) [OF I] by simp
  then have "rt_ringbuffer_putchar_force rb m ch = (1, advance_w 1 rb, m(buffer_ptr rb + unat (write_index rb) := ch))"
    unfolding char_steps(1) [OF I, symmetric] by (simp add: rt_ringbuffer_putchar_force_def Let_def)
  then show ?thesis using advance_w [OF I, of 1] l False rb_content_put_char [OF I l] by simp
next
  case True
  have p: "1 \<le> rb_len rb" using True rb_invD(1) [OF I] by simp
  note A = advance_r [OF I p]
  have l: "rb_len (advance_r 1 rb) < rb_size (advance_r 1 rb)" using A True rb_invD(1) [OF I] by simp
  have "rt_ringbuffer_status rb = RT_RINGBUFFER_FULL" using True rb_data_len(3) [OF I] by simp
  moreover have "uint (write_index rb) = buffer_size rb - 1 \<longleftrightarrow> \<not> 1 < rb_size rb - unat (write_index rb)"
  proof -
    obtain x where x: "uint (write_index rb) = int x" "unat (write_index rb) = x" by (metis uint_nat)
    show ?thesis using rb_invD(5) [OF I] unfolding x rb_invD(3) [OF I] by auto
  qed
  ultimately have "rt_ringbuffer_putchar_force rb m ch
      = (1, advance_w 1 (advance_r 1 rb), m(buffer_ptr rb + unat (write_index rb) := ch))"
    unfolding full_advance [OF I True, symmetric] char_steps(1) [OF I, symmetric]
    by (simp add: rt_ringbuffer_putchar_force_def Let_def)
  moreover have "write_index (advance_r 1 rb) = write_index rb" by (simp add: advance_r_def)
  ultimately show ?thesis
    using advance_w [OF A(1), of 1] l A True rb_content_put_char [OF A(1) l, of m ch] rb_content_advance_r [OF I p, of m]
    by (simp add: drop_Suc)
qed

lemma rt_ringbuffer_put_force_spec:
  assumes I: "rb_inv rb" and ap: "apart rb ptr (unat len)"
    and f: "rb_len rb = rb_size rb \<or> rb_len rb + unat len \<le> rb_size rb"
  defines "k \<equiv> min (unat len) (rb_size rb)"
  shows "\<exists>rb' m'. rt_ringbuffer_put_force rb m ptr len = (of_nat k, rb', m') \<and> rb_inv rb' \<and> rb_size rb' = rb_size rb
     \<and> rb_content rb' m' = (if rb_len rb = rb_size rb then drop k (rb_content rb m) else rb_content rb m) @ bytes_at m ptr k"
proof -
  define l where "l = (if uint len > buffer_size rb then of_int (buffer_size rb) else len)"
  have n: "rb_size rb < 32768" "buffer_size rb = int (rb_size rb)" by (rule rb_invD(2,3) [OF I])+
  have "uint len > buffer_size rb \<longleftrightarrow> rb_size rb < unat len"
  proof -
    obtain x where "uint len = int x" "unat len = x" by (metis uint_nat)
    then show ?thesis using n(2) by simp
  qed
  then have ul: "unat l = k" using n by (auto simp: l_def k_def unat_of_nat)
  then have lk: "l = of_nat k" by (metis of_nat_unat ucast_id)
  have kn: "unat l \<le> rb_size rb" "apart rb ptr (unat l)" using ap unfolding ul by (auto simp: k_def apart_def)
  obtain rb1 m1 where w: "ring_write rb m ptr l = (rb1, m1)" by fastforce
  have rb1: "rb1 = advance_w k rb" using index_steps(1) [OF I kn(1), of m ptr] w ul by simp
  have c: "uint l < buffer_size rb - uint (write_index rb) \<longleftrightarrow> k < rb_size rb - unat (write_index rb)"
  proof -
    obtain x where x: "uint (write_index rb) = int x" "unat (write_index rb) = x" by (metis uint_nat)
    have "uint l = int k" using ul by (metis uint_nat)
    then show ?thesis using rb_invD(5) [OF I] unfolding x n(2) by auto
  qed
  have run: "rt_ringbuffer_put_force rb m ptr len = (of_nat k,
      if rt_ringbuffer_status rb = RT_RINGBUFFER_FULL then advance_w k (advance_r k rb) else advance_w k rb, m1)"
    if "rt_ringbuffer_status rb = RT_RINGBUFFER_FULL \<Longrightarrow> rb_len rb = rb_size rb"
    using full_advance [OF I, of k] that
    unfolding rt_ringbuffer_put_force_def Let_def l_def [symmetric] w c by (auto simp: rb1 lk)
  show ?thesis
  proof (cases "rb_len rb = rb_size rb")
    case False
    have k: "rb_len rb + unat l \<le> rb_size rb" using f False ul by (auto simp: k_def)
    show ?thesis
      using run rb_data_len(3) [OF I] False advance_w [OF I k] ring_write_content [OF I k kn(2), of m] ul w rb1 by simp
  next
    case True
    have k: "k \<le> rb_len rb" using True by (simp add: k_def)
    note A = advance_r [OF I k]
    have k': "rb_len (advance_r k rb) + unat l \<le> rb_size (advance_r k rb)" using A True ul k by simp
    have ap': "apart (advance_r k rb) ptr (unat l)" using kn(2) A by (simp add: apart_def)
    have kn': "unat l \<le> rb_size (advance_r k rb)" using kn(1) A by simp
    have "snd (ring_write (advance_r k rb) m ptr l) = m1"
      using w by (auto simp: ring_write_def advance_r_def Let_def split: if_splits)
    then have "rb_content (advance_w k (advance_r k rb)) m1 = drop k (rb_content rb m) @ bytes_at m ptr k"
      using ring_write_content [OF A(1) k' ap', of m] index_steps(1) [OF A(1) kn', of m ptr] ul
        rb_content_advance_r [OF I k, of m] by simp
    then show ?thesis using run rb_data_len(3) [OF I] True advance_w [OF A(1) k'] A ul by simp
  qed
qed

text \<open>
  Into a buffer that is neither full nor has room for the block it does not: the write index passes
  the read index, which stays where it is, and the buffer is left with fewer bytes than it had.
\<close>

lemma rt_ringbuffer_put_force_loses:
  assumes I: "rb_inv rb" and h: "rb_len rb < rb_size rb" "rb_size rb < rb_len rb + unat len" "unat len \<le> rb_size rb"
  shows "rt_ringbuffer_data_len (fst (snd (rt_ringbuffer_put_force rb m ptr len)))
    = of_nat (rb_len rb + unat len - rb_size rb)"
proof -
  obtain r w where e: "unat (read_index rb) = r" "unat (write_index rb) = w" by blast
  obtain l where l: "uint len = int l" "unat len = l" by (metis uint_nat)
  define n where "n = rb_size rb"
  have D: "n < 32768" "buffer_size rb = int n" "r < n" "w < n"
    "if read_mirror rb = write_mirror rb then r \<le> w else w \<le> r"
    using I by (auto simp: rb_inv_alt e n_def)
  have len: "rb_len rb = (if read_mirror rb = write_mirror rb then w - r else n - r + w)"
    by (simp add: rb_len_def e n_def)
  have L: "l \<le> n" "n < rb_len rb + l" "rb_len rb < n" using h by (simp_all add: l n_def)
  define rb1 where "rb1 = advance_w l rb"
  have bs: "buffer_size rb1 = int n" "read_index rb1 = read_index rb" "read_mirror rb1 = read_mirror rb"
    "write_mirror rb1 = (if w + l < n then write_mirror rb else \<not> write_mirror rb)"
    by (simp_all add: rb1_def advance_w_def e n_def D(2) [unfolded n_def])
  have wi: "unat (write_index rb1) = (if w + l < n then w + l else w + l - n)"
    using small_index [OF _ I, of "w + l"] small_index [OF _ I, of "w + l - n"] L(1) D(4)
    by (simp add: rb1_def advance_w_def e n_def del: of_nat_add of_nat_diff)
  have "rt_ringbuffer_status rb \<noteq> RT_RINGBUFFER_FULL" using h(1) rb_data_len(3) [OF I] by simp
  moreover have "(if uint len > buffer_size rb then of_int (buffer_size rb) else len) = len" using L(1) D(2) l(1) by simp
  moreover have "fst (ring_write rb m ptr len) = rb1" using index_steps(1) [OF I h(3)] by (simp add: rb1_def l)
  ultimately have run: "fst (snd (rt_ringbuffer_put_force rb m ptr len)) = rb1"
    by (simp add: rt_ringbuffer_put_force_def Let_def split: prod.splits)
  obtain r' w' where e': "uint (read_index rb1) = int r'" "unat (read_index rb1) = r'" "uint (write_index rb1) = int w'"
    "unat (write_index rb1) = w'" "read_index rb1 < write_index rb1 \<longleftrightarrow> r' < w'" "read_index rb1 = write_index rb1 \<longleftrightarrow> r' = w'"
    by (rule rb_indices)
  have rw: "r' = r" "w' = (if w + l < n then w + l else w + l - n)" using e' bs(2) wi e by simp_all
  have "rt_ringbuffer_data_len rb1 = of_int (int (rb_len rb + l - n))"
    unfolding rt_ringbuffer_data_len_def rt_ringbuffer_status_def e' bs(1,3,4) rw len
    using D L len by (auto simp: of_nat_diff algebra_simps split: if_splits)
  then show ?thesis using run by (simp add: l n_def)
qed

text \<open>The initial buffer: its size is rounded down to a multiple of eight, and it is empty.\<close>

lemma rt_ringbuffer_init_spec:
  assumes "8 \<le> k" "k < 32768"
  shows "\<exists>rb. rt_ringbuffer_init pool (int k) = Some rb \<and> rb_inv rb \<and> rb_size rb = k - k mod 8
     \<and> buffer_ptr rb = pool \<and> rb_content rb m = []"
proof -
  let ?z = "RT_ALIGN_DOWN (of_int (int k)) RT_ALIGN_SIZE"
  have u: "unat ?z = k - k mod 8" using assms(2) RT_ALIGN_DOWN_8 [of "of_nat k"] by (simp add: unat_of_nat)
  then have z: "uint ?z = int (k - k mod 8)" by (metis uint_nat)
  have "0 < k - k mod 8" "k - k mod 8 < 32768"
    using assms mod_less_divisor [of 8 k] by (linarith, linarith)
  then show ?thesis
    using z by (auto simp: rt_ringbuffer_init_def rb_inv_def rb_size_def rb_content_def rb_len_def ring_content_def)
qed

end
