(* ===== verification/RT_Kernel.thy ===== *)
theory RT_Kernel
  imports RT_List RT_MemInv RT_RingBuffer
begin

text \<open>
  The kernel's data: the structures of \<open>include/rtdef.h\<close> and the global variables of
  \<open>src/scheduler.c\<close>, \<open>src/timer.c\<close>, \<open>src/clock.c\<close>, \<open>src/irq.c\<close>, \<open>src/object.c\<close> and
  \<open>src/kservice.c\<close>, gathered in the record \<open>kernel\<close>.

  Structures are named by numbers (their addresses). The intrusive list nodes are in three link
  stores: \<open>tlinks\<close> for the \<open>tlist\<close> nodes of the threads and the heads of the ready, defunct and
  suspend lists, \<open>tmlinks\<close> for the \<open>row[0]\<close> nodes of the timers, and \<open>olinks\<close> for the \<open>list\<close> nodes of
  the objects. A function pointer of a device's
  driver is modelled by whether it is set. \<open>ram\<close> is the byte memory that thread stacks and buffers are in, \<open>kheap\<close> the state of the
  allocator of \<open>src/mem.c\<close>, and \<open>object_size\<close> the column of the container table that the compiler
  fills in with \<open>sizeof\<close>. The \<open>rt_object\<close> part every structure begins with is in \<open>objs\<close>. The configuration
  is that of the board (at most 32 priorities, one timer list level, no hooks, no modules, no soft
  timers), with events, message queues and memory heaps switched on.
\<close>

section \<open>Objects\<close>

datatype rt_object_class_type =
    RT_Object_Class_Thread | RT_Object_Class_Semaphore | RT_Object_Class_Mutex
  | RT_Object_Class_Event | RT_Object_Class_MailBox | RT_Object_Class_MessageQueue
  | RT_Object_Class_MemHeap | RT_Object_Class_MemPool | RT_Object_Class_Device
  | RT_Object_Class_Timer

fun class_code :: "rt_object_class_type \<Rightarrow> u8" where
  "class_code RT_Object_Class_Thread = 0"
| "class_code RT_Object_Class_Semaphore = 1"
| "class_code RT_Object_Class_Mutex = 2"
| "class_code RT_Object_Class_Event = 3"
| "class_code RT_Object_Class_MailBox = 4"
| "class_code RT_Object_Class_MessageQueue = 5"
| "class_code RT_Object_Class_MemHeap = 6"
| "class_code RT_Object_Class_MemPool = 7"
| "class_code RT_Object_Class_Device = 8"
| "class_code RT_Object_Class_Timer = 9"

definition RT_Object_Class_Static :: u8 where "RT_Object_Class_Static = 0x80"

text \<open>A timer is either built into a thread (\<open>thread_timer\<close>) or an object of its own.\<close>

datatype timer_id = Thread_timer nat | User_timer nat

datatype obj =
    OThread nat | OSem nat | OMutex nat | OEvent nat | OMailBox nat | OMq nat
  | OMemHeap nat | OMemPool nat | ODevice nat | OTimer timer_id

record rt_object =
  oname :: "u8 list"
  otype :: u8
  oflag :: u8

section \<open>Timers, threads and IPC objects\<close>

text \<open>The function a timer calls: \<open>rt_thread_timeout\<close> on a thread, or a function of the user.\<close>

datatype timeout_fn = Rt_thread_timeout nat | User_timeout nat

record rt_timer =
  timeout_func :: timeout_fn
  tmr_init_tick :: u32
  timeout_tick :: u32

datatype rt_thread_stat =
  RT_THREAD_INIT | RT_THREAD_READY | RT_THREAD_SUSPEND | RT_THREAD_RUNNING | RT_THREAD_CLOSE

record rt_thread =
  sp :: u32
  entry :: u32
  param :: u32
  stack_addr :: u32
  stack_size :: u16
  error :: rt_err_t
  stat :: rt_thread_stat
  current_priority :: u8
  init_priority :: u8
  number_mask :: u32
  event_set :: u32
  event_info :: u8
  init_tick :: u32
  remaining_tick :: u32
  cleanup :: "nat option"
  user_data :: u32

record rt_semaphore =
  sem_value :: u16

record rt_mutex =
  mutex_value :: u16
  original_priority :: u8
  hold :: u8
  owner :: "nat option"

record rt_event =
  event_bits :: u32

text \<open>The mails of a mailbox are the words in memory from \<open>msg_pool\<close> on.\<close>

record rt_mailbox =
  msg_pool :: nat
  mb_size :: u16
  mb_entry :: u16
  in_offset :: u16
  out_offset :: u16

text \<open>
  The messages of a queue are numbered in the order they have in the pool; \<open>msg_next\<close> is the \<open>next\<close> field
  of each message, and the bytes behind it are in memory.
\<close>

record rt_messagequeue =
  mq_pool :: nat
  msg_size :: u16
  max_msgs :: u16
  mq_entry :: u16
  msg_queue_head :: "nat option"
  msg_queue_tail :: "nat option"
  msg_queue_free :: "nat option"
  msg_next :: "nat \<Rightarrow> nat option"

text \<open>
  The blocks of a memory pool are named by their addresses, 32-bit numbers. The word in front of a block,
  whose address is that of the block less four, points to the word of the next free block, or, while the
  block is in use, to the pool. These words are in \<open>mp_words\<close>, apart from the bytes of \<open>ram\<close>.
\<close>

datatype block_word = BNext "nat option" | BPool nat

record rt_mempool =
  start_address :: nat
  mp_size :: u32
  block_size :: u32
  block_list :: "nat option"
  block_total_count :: u32
  block_free_count :: u32
  suspend_thread_count :: u32

section \<open>Objects of the device drivers\<close>

record rt_completion =
  cflag :: u32

record rt_data_item =
  data_ptr :: u32
  data_size :: u32

record rt_data_queue =
  dq_size :: u16
  lwm :: u16
  waiting_lwm :: bool
  get_index :: u16
  put_index :: u16
  dq_queue :: "nat option"
  dq_items :: "nat \<Rightarrow> rt_data_item"
  evt_notify :: bool

datatype rt_device_class_type =
    RT_Device_Class_Char | RT_Device_Class_Block | RT_Device_Class_NetIf | RT_Device_Class_MTD | RT_Device_Class_CAN
  | RT_Device_Class_RTC | RT_Device_Class_Sound | RT_Device_Class_Graphic | RT_Device_Class_I2CBUS | RT_Device_Class_USBDevice
  | RT_Device_Class_USBHost | RT_Device_Class_SPIBUS | RT_Device_Class_SPIDevice | RT_Device_Class_SDIO | RT_Device_Class_PM
  | RT_Device_Class_Pipe | RT_Device_Class_Portal | RT_Device_Class_Miscellaneous | RT_Device_Class_Unknown

text \<open>A call-back of a device is a function of its user or the one of \<open>portal.c\<close>.\<close>

datatype dev_callback = User_callback nat | Portal_callback

record rt_device =
  dtype :: rt_device_class_type
  dflag :: u16
  open_flag :: u16
  ref_count :: u8
  rx_indicate :: "dev_callback option"
  tx_complete :: "dev_callback option"
  dinit :: bool
  dopen :: bool
  dclose :: bool
  dread :: bool
  dwrite :: bool
  dcontrol :: bool

record rt_pipe_device =
  ringbuffer :: rt_ringbuffer
  pflag :: u8
  write_portal :: "nat option"
  read_portal :: "nat option"

record rt_portal_device =
  write_dev :: nat
  read_dev :: nat

section \<open>The kernel state\<close>

text \<open>The heads of the lists that thread nodes are linked on.\<close>

datatype thead =
    HPrio nat | HDefunct
  | HSem nat | HMutex nat | HEvent nat | HMb nat | HMbSender nat | HMq nat
  | HMp nat | HCompletion nat | HDqPush nat | HDqPop nat | HPipeRead nat | HPipeWrite nat

type_synonym tnode = "(thead, nat) lnode"

record kernel =
  tlinks :: "tnode links"
  tmlinks :: "(unit, timer_id) lnode links"
  olinks :: "(rt_object_class_type, obj) lnode links"
  objs :: "obj \<Rightarrow> rt_object"
  threads :: "nat \<Rightarrow> rt_thread"
  timers :: "timer_id \<Rightarrow> rt_timer"
  sems :: "nat \<Rightarrow> rt_semaphore"
  mutexes :: "nat \<Rightarrow> rt_mutex"
  events :: "nat \<Rightarrow> rt_event"
  mailboxes :: "nat \<Rightarrow> rt_mailbox"
  mqs :: "nat \<Rightarrow> rt_messagequeue"
  mps :: "nat \<Rightarrow> rt_mempool"
  mp_words :: "nat \<Rightarrow> block_word"
  completions :: "nat \<Rightarrow> rt_completion"
  dqueues :: "nat \<Rightarrow> rt_data_queue"
  devices :: "nat \<Rightarrow> rt_device"
  pipes :: "nat \<Rightarrow> rt_pipe_device"
  portals :: "nat \<Rightarrow> rt_portal_device"
  rt_scheduler_lock_nest :: "16 word"
  rt_current_thread :: "nat option"
  rt_current_priority :: u8
  rt_thread_ready_priority_group :: u32
  rt_interrupt_nest :: u8
  rt_tick :: u32
  random_nr :: u32
  errno :: rt_err_t
  object_size :: "rt_object_class_type \<Rightarrow> nat"
  kheap :: heap
  ram :: memory

text \<open>Writing one structure through its pointer.\<close>

definition upd_thread :: "nat \<Rightarrow> (rt_thread \<Rightarrow> rt_thread) \<Rightarrow> kernel \<Rightarrow> kernel" where
  "upd_thread t f s = s\<lparr>threads := (threads s)(t := f (threads s t))\<rparr>"

definition upd_timer :: "timer_id \<Rightarrow> (rt_timer \<Rightarrow> rt_timer) \<Rightarrow> kernel \<Rightarrow> kernel" where
  "upd_timer t f s = s\<lparr>timers := (timers s)(t := f (timers s t))\<rparr>"

definition upd_obj :: "obj \<Rightarrow> (rt_object \<Rightarrow> rt_object) \<Rightarrow> kernel \<Rightarrow> kernel" where
  "upd_obj ob f s = s\<lparr>objs := (objs s)(ob := f (objs s ob))\<rparr>"

definition upd_sem :: "nat \<Rightarrow> (rt_semaphore \<Rightarrow> rt_semaphore) \<Rightarrow> kernel \<Rightarrow> kernel" where
  "upd_sem i f s = s\<lparr>sems := (sems s)(i := f (sems s i))\<rparr>"

definition upd_mutex :: "nat \<Rightarrow> (rt_mutex \<Rightarrow> rt_mutex) \<Rightarrow> kernel \<Rightarrow> kernel" where
  "upd_mutex i f s = s\<lparr>mutexes := (mutexes s)(i := f (mutexes s i))\<rparr>"

definition upd_event :: "nat \<Rightarrow> (rt_event \<Rightarrow> rt_event) \<Rightarrow> kernel \<Rightarrow> kernel" where
  "upd_event i f s = s\<lparr>events := (events s)(i := f (events s i))\<rparr>"

definition upd_mb :: "nat \<Rightarrow> (rt_mailbox \<Rightarrow> rt_mailbox) \<Rightarrow> kernel \<Rightarrow> kernel" where
  "upd_mb i f s = s\<lparr>mailboxes := (mailboxes s)(i := f (mailboxes s i))\<rparr>"

definition upd_mq :: "nat \<Rightarrow> (rt_messagequeue \<Rightarrow> rt_messagequeue) \<Rightarrow> kernel \<Rightarrow> kernel" where
  "upd_mq i f s = s\<lparr>mqs := (mqs s)(i := f (mqs s i))\<rparr>"

definition upd_mp :: "nat \<Rightarrow> (rt_mempool \<Rightarrow> rt_mempool) \<Rightarrow> kernel \<Rightarrow> kernel" where
  "upd_mp i f s = s\<lparr>mps := (mps s)(i := f (mps s i))\<rparr>"

definition upd_mp_word :: "nat \<Rightarrow> block_word \<Rightarrow> kernel \<Rightarrow> kernel" where
  "upd_mp_word a w s = s\<lparr>mp_words := (mp_words s)(a := w)\<rparr>"

definition upd_completion :: "nat \<Rightarrow> (rt_completion \<Rightarrow> rt_completion) \<Rightarrow> kernel \<Rightarrow> kernel" where
  "upd_completion i f s = s\<lparr>completions := (completions s)(i := f (completions s i))\<rparr>"

definition upd_dq :: "nat \<Rightarrow> (rt_data_queue \<Rightarrow> rt_data_queue) \<Rightarrow> kernel \<Rightarrow> kernel" where
  "upd_dq i f s = s\<lparr>dqueues := (dqueues s)(i := f (dqueues s i))\<rparr>"

definition upd_dev :: "nat \<Rightarrow> (rt_device \<Rightarrow> rt_device) \<Rightarrow> kernel \<Rightarrow> kernel" where
  "upd_dev i f s = s\<lparr>devices := (devices s)(i := f (devices s i))\<rparr>"

definition upd_pipe :: "nat \<Rightarrow> (rt_pipe_device \<Rightarrow> rt_pipe_device) \<Rightarrow> kernel \<Rightarrow> kernel" where
  "upd_pipe i f s = s\<lparr>pipes := (pipes s)(i := f (pipes s i))\<rparr>"

definition upd_portal :: "nat \<Rightarrow> (rt_portal_device \<Rightarrow> rt_portal_device) \<Rightarrow> kernel \<Rightarrow> kernel" where
  "upd_portal i f s = s\<lparr>portals := (portals s)(i := f (portals s i))\<rparr>"

definition upd_tl :: "(tnode links \<Rightarrow> tnode links) \<Rightarrow> kernel \<Rightarrow> kernel" where
  "upd_tl f s = s\<lparr>tlinks := f (tlinks s)\<rparr>"

definition upd_tml :: "((unit, timer_id) lnode links \<Rightarrow> (unit, timer_id) lnode links) \<Rightarrow> kernel \<Rightarrow> kernel" where
  "upd_tml f s = s\<lparr>tmlinks := f (tmlinks s)\<rparr>"

definition upd_ol :: "((rt_object_class_type, obj) lnode links \<Rightarrow> (rt_object_class_type, obj) lnode links) \<Rightarrow> kernel \<Rightarrow> kernel" where
  "upd_ol f s = s\<lparr>olinks := f (olinks s)\<rparr>"

lemmas upd_defs = upd_thread_def upd_timer_def upd_obj_def upd_sem_def upd_mutex_def
  upd_event_def upd_mb_def upd_mq_def upd_mp_def upd_mp_word_def upd_completion_def upd_dq_def upd_dev_def upd_pipe_def upd_portal_def upd_tl_def upd_tml_def upd_ol_def

text \<open>Interrupt nesting (\<open>src/irq.c\<close>): a counter of one byte.\<close>

definition rt_interrupt_enter :: "kernel \<Rightarrow> kernel" where
  "rt_interrupt_enter s = s\<lparr>rt_interrupt_nest := rt_interrupt_nest s + 1\<rparr>"

definition rt_interrupt_leave :: "kernel \<Rightarrow> kernel" where
  "rt_interrupt_leave s = s\<lparr>rt_interrupt_nest := rt_interrupt_nest s - 1\<rparr>"

definition rt_interrupt_get_nest :: "kernel \<Rightarrow> u8" where
  "rt_interrupt_get_nest s = rt_interrupt_nest s"

definition rt_thread_self :: "kernel \<Rightarrow> nat option" where
  "rt_thread_self s = rt_current_thread s"

text \<open>The context checks of \<open>include/rtdebug.h\<close>, which stop the kernel when they fail.\<close>

definition RT_DEBUG_NOT_IN_INTERRUPT :: "kernel \<Rightarrow> unit option" where
  "RT_DEBUG_NOT_IN_INTERRUPT s = RT_ASSERT (rt_interrupt_get_nest s = 0)"

definition RT_DEBUG_IN_THREAD_CONTEXT :: "kernel \<Rightarrow> unit option" where
  "RT_DEBUG_IN_THREAD_CONTEXT s = do {
     RT_ASSERT (rt_thread_self s \<noteq> None);
     RT_DEBUG_NOT_IN_INTERRUPT s }"

text \<open>The error number: the current thread's, or the global one in an interrupt or before start.\<close>

definition rt_get_errno :: "kernel \<Rightarrow> rt_err_t" where
  "rt_get_errno s =
    (if rt_interrupt_get_nest s \<noteq> 0 then errno s
     else case rt_thread_self s of None \<Rightarrow> errno s | Some tid \<Rightarrow> error (threads s tid))"

definition rt_set_errno :: "rt_err_t \<Rightarrow> kernel \<Rightarrow> kernel" where
  "rt_set_errno err s =
    (if rt_interrupt_get_nest s \<noteq> 0 then s\<lparr>errno := err\<rparr>
     else case rt_thread_self s of
            None \<Rightarrow> s\<lparr>errno := err\<rparr>
          | Some tid \<Rightarrow> upd_thread tid (\<lambda>th. th\<lparr>error := err\<rparr>) s)"

lemma errno_roundtrip: "rt_get_errno (rt_set_errno e s) = e"
  by (auto simp: rt_get_errno_def rt_set_errno_def upd_thread_def rt_interrupt_get_nest_def
      rt_thread_self_def split: option.splits)

lemma interrupt_enter_leave: "rt_interrupt_leave (rt_interrupt_enter s) = s"
  by (simp add: rt_interrupt_enter_def rt_interrupt_leave_def)

text \<open>
  A call that may suspend its thread either returns a value or stops at the \<open>rt_schedule\<close> call that
  hands the processor over; the datum it carries then describes the rest of the call, which runs
  when the thread is scheduled again.
\<close>

datatype ('k, 'a) outcome = Ret 'a | Block 'k

end
