(* ===== verification/RT_Scheduler.thy ===== *)
theory RT_Scheduler
  imports RT_Kernel
begin

text \<open>
  The scheduler of \<open>src/scheduler.c\<close>: one ready list per priority, a 32-bit word with one bit per
  non-empty ready list, the selection of the highest priority by \<open>__rt_ffs\<close>, and the scheduler lock.

  The context switch itself is assembly; what \<open>rt_schedule\<close> leaves behind is the new value of
  \<open>rt_current_thread\<close>. The invariant \<open>ready_ok\<close> ties the bit word to the ready lists; the lemmas
  show that every operation keeps it and that \<open>rt_schedule\<close> selects the first thread of the highest
  non-empty priority.
\<close>

section \<open>Operations\<close>

definition table_head :: "u8 \<Rightarrow> thead option" where
  "table_head prio = (if unat prio < RT_THREAD_PRIORITY_MAX then Some (HPrio (unat prio)) else None)"

definition rt_scheduler_stack_check :: "nat \<Rightarrow> kernel \<Rightarrow> unit option" where
  "rt_scheduler_stack_check t s =
    (let th = threads s t in
     RT_ASSERT (\<not> (sp th \<le> stack_addr th \<or> sp th > stack_addr th + ucast (stack_size th))))"

definition rt_system_scheduler_init :: "kernel \<Rightarrow> kernel" where
  "rt_system_scheduler_init s =
    (let s1 = s\<lparr>rt_scheduler_lock_nest := 0\<rparr>;
         s2 = fold (\<lambda>offset. upd_tl (rt_list_init (LHead (HPrio offset)))) [0..<RT_THREAD_PRIORITY_MAX] s1;
         s3 = s2\<lparr>rt_current_priority := of_nat (RT_THREAD_PRIORITY_MAX - 1),
                 rt_current_thread := None,
                 rt_thread_ready_priority_group := 0\<rparr>
     in upd_tl (rt_list_init (LHead HDefunct)) s3)"

text \<open>The selection: index of the lowest set bit, then the first thread of that ready list.\<close>

definition highest_ready_thread :: "kernel \<Rightarrow> (nat \<times> nat) option" where
  "highest_ready_thread s =
    (if rt_thread_ready_priority_group s = 0 then None
     else let highest_ready_priority = rt_ffs (rt_thread_ready_priority_group s) - 1 in do {
       to_thread \<leftarrow> rt_list_entry (lnext (tlinks s) (LHead (HPrio highest_ready_priority)));
       Some (highest_ready_priority, to_thread) })"

definition rt_system_scheduler_start :: "kernel \<Rightarrow> kernel option" where
  "rt_system_scheduler_start s = do {
     (highest_ready_priority, to_thread) \<leftarrow> highest_ready_thread s;
     Some (s\<lparr>rt_current_thread := Some to_thread\<rparr>) }"

definition rt_schedule :: "kernel \<Rightarrow> kernel option" where
  "rt_schedule s =
    (if rt_scheduler_lock_nest s = 0 then do {
       (highest_ready_priority, to_thread) \<leftarrow> highest_ready_thread s;
       if Some to_thread \<noteq> rt_current_thread s then do {
         RT_ASSERT (rt_current_thread s \<noteq> None);
         let s1 = s\<lparr>rt_current_priority := of_nat highest_ready_priority,
                    rt_current_thread := Some to_thread\<rparr>;
         rt_scheduler_stack_check to_thread s1;
         Some s1 }
       else Some s }
     else Some s)"

definition rt_schedule_insert_thread :: "nat \<Rightarrow> kernel \<Rightarrow> kernel option" where
  "rt_schedule_insert_thread t s = do {
     let s1 = upd_thread t (\<lambda>th. th\<lparr>stat := RT_THREAD_READY\<rparr>) s;
     h \<leftarrow> table_head (current_priority (threads s1 t));
     let s2 = upd_tl (rt_list_insert_before (LHead h) (LElem t)) s1;
     Some (s2\<lparr>rt_thread_ready_priority_group :=
                rt_thread_ready_priority_group s2 OR number_mask (threads s2 t)\<rparr>) }"

definition rt_schedule_remove_thread :: "nat \<Rightarrow> kernel \<Rightarrow> kernel option" where
  "rt_schedule_remove_thread t s = do {
     let s1 = upd_tl (rt_list_remove (LElem t)) s;
     h \<leftarrow> table_head (current_priority (threads s1 t));
     if rt_list_isempty (LHead h) (tlinks s1)
     then Some (s1\<lparr>rt_thread_ready_priority_group :=
                     rt_thread_ready_priority_group s1 AND NOT (number_mask (threads s1 t))\<rparr>)
     else Some s1 }"

definition rt_enter_critical :: "kernel \<Rightarrow> kernel" where
  "rt_enter_critical s = s\<lparr>rt_scheduler_lock_nest := rt_scheduler_lock_nest s + 1\<rparr>"

definition rt_exit_critical :: "kernel \<Rightarrow> kernel option" where
  "rt_exit_critical s =
    (let s1 = s\<lparr>rt_scheduler_lock_nest := rt_scheduler_lock_nest s - 1\<rparr> in
     if sint (rt_scheduler_lock_nest s1) \<le> 0
     then rt_schedule (s1\<lparr>rt_scheduler_lock_nest := 0\<rparr>)
     else Some s1)"

definition rt_critical_level :: "kernel \<Rightarrow> u16" where
  "rt_critical_level s = rt_scheduler_lock_nest s"

section \<open>The invariant of the ready lists\<close>

definition prio_ok :: "rt_thread \<Rightarrow> bool" where
  "prio_ok th \<longleftrightarrow> unat (current_priority th) < RT_THREAD_PRIORITY_MAX
     \<and> number_mask th = 2 ^ unat (current_priority th)"

definition stack_ok :: "rt_thread \<Rightarrow> bool" where
  "stack_ok th \<longleftrightarrow> stack_addr th < sp th \<and> sp th \<le> stack_addr th + ucast (stack_size th)"

definition ready_ok :: "kernel \<Rightarrow> (thead \<Rightarrow> nat list) \<Rightarrow> bool" where
  "ready_ok s L \<longleftrightarrow> lists_rep (tlinks s) L
     \<and> (\<forall>p < RT_THREAD_PRIORITY_MAX. bit (rt_thread_ready_priority_group s) p = (L (HPrio p) \<noteq> []))
     \<and> (\<forall>p. RT_THREAD_PRIORITY_MAX \<le> p \<longrightarrow> L (HPrio p) = [])
     \<and> (\<forall>p t. t \<in> set (L (HPrio p)) \<longrightarrow> prio_ok (threads s t) \<and> unat (current_priority (threads s t)) = p)"

definition sched_inv :: "kernel \<Rightarrow> (thead \<Rightarrow> nat list) \<Rightarrow> bool" where
  "sched_inv s L \<longleftrightarrow> ready_ok s L
     \<and> (\<forall>t. stat (threads s t) = RT_THREAD_READY \<longleftrightarrow> (\<exists>p. t \<in> set (L (HPrio p))))
     \<and> (\<forall>t. stat (threads s t) = RT_THREAD_SUSPEND \<longrightarrow> prio_ok (threads s t))"

definition highest :: "(thead \<Rightarrow> nat list) \<Rightarrow> nat \<Rightarrow> bool" where
  "highest L p \<longleftrightarrow> p < RT_THREAD_PRIORITY_MAX \<and> L (HPrio p) \<noteq> [] \<and> (\<forall>q < p. L (HPrio q) = [])"

lemma ready_okD:
  assumes "ready_ok s L"
  shows "lists_rep (tlinks s) L"
    and "p < RT_THREAD_PRIORITY_MAX \<Longrightarrow> bit (rt_thread_ready_priority_group s) p = (L (HPrio p) \<noteq> [])"
    and "RT_THREAD_PRIORITY_MAX \<le> p \<Longrightarrow> L (HPrio p) = []"
    and "t \<in> set (L (HPrio p)) \<Longrightarrow> prio_ok (threads s t)"
    and "t \<in> set (L (HPrio p)) \<Longrightarrow> unat (current_priority (threads s t)) = p"
  using assms by (auto simp: ready_ok_def)

lemma sched_invD:
  assumes "sched_inv s L"
  shows "ready_ok s L" "lists_rep (tlinks s) L"
    and "stat (threads s t) = RT_THREAD_READY \<longleftrightarrow> (\<exists>p. t \<in> set (L (HPrio p)))"
    and "stat (threads s t) = RT_THREAD_SUSPEND \<Longrightarrow> prio_ok (threads s t)"
  using assms ready_okD(1) by (auto simp: sched_inv_def)

lemma sched_inv_ready_prio:
  assumes "sched_inv s L" "stat (threads s t) = RT_THREAD_READY"
  shows "prio_ok (threads s t)"
    and "t \<in> set (L (HPrio (unat (current_priority (threads s t)))))"
proof -
  obtain p where p: "t \<in> set (L (HPrio p))" using sched_invD(3) [OF assms(1), of t] assms(2) by auto
  note R = sched_invD(1) [OF assms(1)]
  show "prio_ok (threads s t)" by (rule ready_okD(4) [OF R p])
  show "t \<in> set (L (HPrio (unat (current_priority (threads s t)))))"
    using p ready_okD(5) [OF R p] by simp
qed

text \<open>Only the thread links, the threads and the bit word matter to the invariants.\<close>

lemma ready_ok_cong:
  assumes "tlinks s' = tlinks s" "threads s' = threads s"
    "rt_thread_ready_priority_group s' = rt_thread_ready_priority_group s"
  shows "ready_ok s' L = ready_ok s L" "sched_inv s' L = sched_inv s L"
  by (simp_all add: ready_ok_def sched_inv_def assms)

lemma bit_or_push: "bit (g OR (2 ^ p :: u32)) q = (bit g q \<or> q = p \<and> p < 32)"
  by (auto simp: bit_simps)

lemma bit_and_not_push: "bit (g AND NOT (2 ^ p :: u32)) q = (bit g q \<and> q \<noteq> p)"
  by (auto simp: bit_simps dest: bit_imp_le_length)

lemma table_head_Some:
  "unat prio < RT_THREAD_PRIORITY_MAX \<Longrightarrow> table_head prio = Some (HPrio (unat prio))"
  by (simp add: table_head_def)

section \<open>Selecting the highest priority\<close>

lemma group_nonzero:
  assumes "ready_ok s L"
  shows "(rt_thread_ready_priority_group s \<noteq> 0) = (\<exists>p. L (HPrio p) \<noteq> [])"
proof
  assume "rt_thread_ready_priority_group s \<noteq> 0"
  then obtain p where p: "bit (rt_thread_ready_priority_group s) p"
    using rt_ffs_least by blast
  then have "p < RT_THREAD_PRIORITY_MAX"
    using bit_imp_le_length by (fastforce simp: RT_THREAD_PRIORITY_MAX_def)
  with p show "\<exists>p. L (HPrio p) \<noteq> []" using ready_okD(2) [OF assms] by blast
next
  assume "\<exists>p. L (HPrio p) \<noteq> []"
  then obtain p where "L (HPrio p) \<noteq> []" by blast
  then have "bit (rt_thread_ready_priority_group s) p"
    using ready_okD(2,3) [OF assms, of p] by force
  then show "rt_thread_ready_priority_group s \<noteq> 0" by auto
qed

lemma highest_ready_thread_eq:
  assumes R: "ready_ok s L" and ne: "L (HPrio q) \<noteq> []"
  obtains p where "highest L p" "highest_ready_thread s = Some (p, hd (L (HPrio p)))"
proof -
  let ?g = "rt_thread_ready_priority_group s"
  define p where "p = rt_ffs ?g - 1"
  have g: "?g \<noteq> 0" using group_nonzero [OF R] ne by blast
  note f = rt_ffs_least [OF g, folded p_def]
  have p: "p < RT_THREAD_PRIORITY_MAX"
    using rt_ffs_bound [OF g] rt_ffs_pos [OF g] by (simp add: p_def RT_THREAD_PRIORITY_MAX_def)
  have "L (HPrio p) \<noteq> []" using f ready_okD(2) [OF R p] by blast
  moreover have "L (HPrio q) = []" if "q < p" for q
    using f that ready_okD(2) [OF R, of q] p by auto
  ultimately have h: "highest L p" using p by (simp add: highest_def)
  have "highest_ready_thread s = Some (p, hd (L (HPrio p)))"
    using g tq.rep_first_at [OF ready_okD(1) [OF R], of "HPrio p"] \<open>L (HPrio p) \<noteq> []\<close>
    by (simp add: highest_ready_thread_def p_def Let_def)
  with h show ?thesis by (rule that)
qed

lemma highest_unique: "highest L p \<Longrightarrow> highest L q \<Longrightarrow> p = q"
  unfolding highest_def by (metis linorder_neqE_nat)

lemma highest_exists:
  assumes "ready_ok s L" "L (HPrio q) \<noteq> []"
  shows "\<exists>p. highest L p \<and> p \<le> q"
proof -
  obtain p where p: "highest L p" by (rule highest_ready_thread_eq [OF assms])
  then have "p \<le> q" using assms(2) unfolding highest_def by (metis not_le)
  with p show ?thesis by blast
qed

text \<open>What \<open>rt_schedule\<close> does with an unlocked scheduler and a ready thread.\<close>

lemma rt_schedule_unlocked:
  assumes R: "ready_ok s L" and h: "highest L p" and "rt_scheduler_lock_nest s = 0"
    and "rt_current_thread s = Some c" and "stack_ok (threads s (hd (L (HPrio p))))"
  shows "rt_schedule s = Some (if hd (L (HPrio p)) = c then s
     else s\<lparr>rt_current_priority := of_nat p, rt_current_thread := Some (hd (L (HPrio p)))\<rparr>)"
proof -
  have "L (HPrio p) \<noteq> []" using h by (simp add: highest_def)
  then obtain p' where "highest L p'" "highest_ready_thread s = Some (p', hd (L (HPrio p')))"
    by (rule highest_ready_thread_eq [OF R])
  with highest_unique [OF h] have "highest_ready_thread s = Some (p, hd (L (HPrio p)))" by auto
  with assms(3-5) show ?thesis
    by (auto simp: rt_schedule_def rt_scheduler_stack_check_def stack_ok_def Let_def not_le not_less)
qed

lemma rt_schedule_locked:
  "rt_scheduler_lock_nest s \<noteq> 0 \<Longrightarrow> rt_schedule s = Some s"
  by (simp add: rt_schedule_def)

text \<open>Rescheduling only moves the processor: nothing else of the kernel changes.\<close>

lemma rt_schedule_frame:
  assumes "rt_schedule s = Some s'"
  shows "s' = s\<lparr>rt_current_priority := rt_current_priority s', rt_current_thread := rt_current_thread s'\<rparr>"
proof -
  consider "s' = s" | a b where "s' = s\<lparr>rt_current_priority := a, rt_current_thread := b\<rparr>"
    using assms unfolding rt_schedule_def Let_def by (auto simp: bind_Some_iff split: if_splits prod.splits)
  then show ?thesis by cases simp_all
qed

lemma rt_schedule_frame_fields:
  assumes "rt_schedule s = Some s'"
  shows "tlinks s' = tlinks s" "tmlinks s' = tmlinks s" "threads s' = threads s"
    "rt_thread_ready_priority_group s' = rt_thread_ready_priority_group s"
    "timers s' = timers s" "objs s' = objs s" "rt_tick s' = rt_tick s"
    "sems s' = sems s" "mutexes s' = mutexes s" "events s' = events s"
    "mailboxes s' = mailboxes s" "mqs s' = mqs s"
    "rt_scheduler_lock_nest s' = rt_scheduler_lock_nest s"
    "rt_interrupt_nest s' = rt_interrupt_nest s"
  by (subst rt_schedule_frame [OF assms], simp)+

lemma rt_schedule_inv:
  assumes "rt_schedule s = Some s'"
  shows "ready_ok s' L = ready_ok s L" "sched_inv s' L = sched_inv s L"
  by (rule ready_ok_cong; simp add: rt_schedule_frame_fields [OF assms])+

section \<open>Insertion and removal\<close>

lemma rt_schedule_insert_thread_spec:
  assumes R: "ready_ok s L" and off: "\<forall>h. t \<notin> set (L h)" and pk: "prio_ok (threads s t)"
  defines "p \<equiv> unat (current_priority (threads s t))"
  shows "\<exists>s'. rt_schedule_insert_thread t s = Some s'
     \<and> ready_ok s' (L(HPrio p := L (HPrio p) @ [t]))
     \<and> s' = s\<lparr>tlinks := tlinks s', threads := (threads s)(t := (threads s t)\<lparr>stat := RT_THREAD_READY\<rparr>),
              rt_thread_ready_priority_group := rt_thread_ready_priority_group s'\<rparr>"
proof -
  have p: "p < RT_THREAD_PRIORITY_MAX" and m: "number_mask (threads s t) = 2 ^ p"
    using pk by (simp_all add: prio_ok_def p_def)
  have p32: "p < 32" using p by (simp add: RT_THREAD_PRIORITY_MAX_def)
  let ?s' = "s\<lparr>tlinks := rt_list_insert_before (LHead (HPrio p)) (LElem t) (tlinks s),
       threads := (threads s)(t := (threads s t)\<lparr>stat := RT_THREAD_READY\<rparr>),
       rt_thread_ready_priority_group := rt_thread_ready_priority_group s OR 2 ^ p\<rparr>"
  have ins: "rt_schedule_insert_thread t s = Some ?s'"
    using p m by (simp add: rt_schedule_insert_thread_def upd_defs table_head_def p_def Let_def)
  have "lists_rep (tlinks ?s') (L(HPrio p := L (HPrio p) @ [t]))"
    using tq.rep_push_back [OF ready_okD(1) [OF R] off] by simp
  moreover have "bit (rt_thread_ready_priority_group ?s') q
      = ((L(HPrio p := L (HPrio p) @ [t])) (HPrio q) \<noteq> [])" if "q < RT_THREAD_PRIORITY_MAX" for q
    using ready_okD(2) [OF R that] p32 by (auto simp: bit_or_push)
  moreover have "(L(HPrio p := L (HPrio p) @ [t])) (HPrio q) = []" if "RT_THREAD_PRIORITY_MAX \<le> q" for q
    using that p ready_okD(3) [OF R that] by auto
  moreover have "prio_ok (threads ?s' u) \<and> unat (current_priority (threads ?s' u)) = q"
    if "u \<in> set ((L(HPrio p := L (HPrio p) @ [t])) (HPrio q))" for q u
    using that pk ready_okD(4,5) [OF R, of u q] by (auto simp: prio_ok_def p_def split: if_splits)
  ultimately have "ready_ok ?s' (L(HPrio p := L (HPrio p) @ [t]))"
    unfolding ready_ok_def by blast
  with ins show ?thesis by (intro exI [of _ ?s']) simp
qed

lemma rt_schedule_remove_thread_spec:
  assumes R: "ready_ok s L" and pk: "prio_ok (threads s t)"
  shows "\<exists>s'. rt_schedule_remove_thread t s = Some s'
     \<and> ready_ok s' (\<lambda>h. remove1 t (L h))
     \<and> s' = s\<lparr>tlinks := tlinks s', rt_thread_ready_priority_group := rt_thread_ready_priority_group s'\<rparr>"
proof -
  define p where "p = unat (current_priority (threads s t))"
  define L' where "L' = (\<lambda>h. remove1 t (L h))"
  have p: "p < RT_THREAD_PRIORITY_MAX" and m: "number_mask (threads s t) = 2 ^ p"
    using pk by (simp_all add: prio_ok_def p_def)
  have rep: "lists_rep (rt_list_remove (LElem t) (tlinks s)) L'"
    unfolding L'_def by (rule tq.rep_unlink [OF ready_okD(1) [OF R]])
  let ?s' = "s\<lparr>tlinks := rt_list_remove (LElem t) (tlinks s),
       rt_thread_ready_priority_group := (if L' (HPrio p) = []
         then rt_thread_ready_priority_group s AND NOT (2 ^ p)
         else rt_thread_ready_priority_group s)\<rparr>"
  have rm: "rt_schedule_remove_thread t s = Some ?s'"
    using p m tq.rep_empty_at [OF rep, of "HPrio p"]
    by (simp add: rt_schedule_remove_thread_def upd_defs table_head_def p_def Let_def)
  have only: "L' (HPrio q) = L (HPrio q)" if "q \<noteq> p" for q
  proof -
    have "t \<notin> set (L (HPrio q))" using ready_okD(5) [OF R, of t q] that by (auto simp: p_def)
    then show ?thesis by (simp add: L'_def remove1_idem)
  qed
  have "bit (rt_thread_ready_priority_group ?s') q = (L' (HPrio q) \<noteq> [])"
    if "q < RT_THREAD_PRIORITY_MAX" for q
  proof (cases "q = p")
    case True
    have "L' (HPrio p) \<noteq> [] \<Longrightarrow> L (HPrio p) \<noteq> []" by (auto simp: L'_def)
    then show ?thesis using True ready_okD(2) [OF R p] by (auto simp: bit_and_not_push)
  next
    case False
    then show ?thesis using ready_okD(2) [OF R that] only by (auto simp: bit_and_not_push)
  qed
  moreover have "L' (HPrio q) = []" if "RT_THREAD_PRIORITY_MAX \<le> q" for q
    using ready_okD(3) [OF R that] by (simp add: L'_def)
  moreover have "prio_ok (threads ?s' u) \<and> unat (current_priority (threads ?s' u)) = q"
    if "u \<in> set (L' (HPrio q))" for q u
  proof -
    have "u \<in> set (L (HPrio q))" using that notin_set_remove1 by (fastforce simp: L'_def)
    then show ?thesis using ready_okD(4,5) [OF R, of u q] by simp
  qed
  ultimately have "ready_ok ?s' L'" using rep unfolding ready_ok_def by simp
  with rm show ?thesis by (intro exI [of _ ?s']) (simp add: L'_def)
qed

end
