(* ===== verification/RT_Object.thy ===== *)
theory RT_Object
  imports RT_Scheduler
begin

text \<open>
  The object container of \<open>src/object.c\<close>: one list of objects per class. An object enters its list
  at the front when it is initialised and leaves it when it is detached; \<open>rt_object_find\<close> walks the
  list under the scheduler lock. Objects made at run time are allocated from the heap of \<open>src/mem.c\<close>
  and go back to it when they are deleted.
\<close>

section \<open>Operations\<close>

definition rt_object_init :: "obj \<Rightarrow> rt_object_class_type \<Rightarrow> u8 list \<Rightarrow> kernel \<Rightarrow> kernel option" where
  "rt_object_init ob type name s = do {
     let s1 = upd_obj ob (\<lambda>o'. o'\<lparr>otype := class_code type OR RT_Object_Class_Static\<rparr>) s;
     nm \<leftarrow> rt_strncpy name RT_NAME_MAX;
     let s2 = upd_obj ob (\<lambda>o'. o'\<lparr>oname := nm\<rparr>) s1;
     Some (upd_ol (rt_list_insert_after (LHead type) (LElem ob)) s2) }"

definition rt_object_detach :: "obj \<Rightarrow> kernel \<Rightarrow> kernel" where
  "rt_object_detach ob s = upd_ol (rt_list_remove (LElem ob)) s"

definition rt_object_is_systemobject :: "obj \<Rightarrow> kernel \<Rightarrow> bool" where
  "rt_object_is_systemobject ob s = (otype (objs s ob) AND RT_Object_Class_Static \<noteq> 0)"

text \<open>\<open>RT_KERNEL_MALLOC\<close> and \<open>RT_KERNEL_FREE\<close>: the heap functions, called outside interrupts.\<close>

definition RT_KERNEL_MALLOC :: "nat \<Rightarrow> kernel \<Rightarrow> (nat option \<times> kernel) option" where
  "RT_KERNEL_MALLOC n s = do {
     RT_DEBUG_NOT_IN_INTERRUPT s;
     (p, h) \<leftarrow> rt_malloc n (kheap s);
     Some (p, s\<lparr>kheap := h\<rparr>) }"

definition RT_KERNEL_FREE :: "nat \<Rightarrow> kernel \<Rightarrow> kernel option" where
  "RT_KERNEL_FREE p s = do {
     RT_DEBUG_NOT_IN_INTERRUPT s;
     h \<leftarrow> rt_free (Some p) (kheap s);
     Some (s\<lparr>kheap := h\<rparr>) }"

text \<open>The object of a class at an address of the heap, and back.\<close>

fun obj_at :: "rt_object_class_type \<Rightarrow> nat \<Rightarrow> obj" where
  "obj_at RT_Object_Class_Thread p = OThread p"
| "obj_at RT_Object_Class_Semaphore p = OSem p"
| "obj_at RT_Object_Class_Mutex p = OMutex p"
| "obj_at RT_Object_Class_Event p = OEvent p"
| "obj_at RT_Object_Class_MailBox p = OMailBox p"
| "obj_at RT_Object_Class_MessageQueue p = OMq p"
| "obj_at RT_Object_Class_MemHeap p = OMemHeap p"
| "obj_at RT_Object_Class_MemPool p = OMemPool p"
| "obj_at RT_Object_Class_Device p = ODevice p"
| "obj_at RT_Object_Class_Timer p = OTimer (User_timer p)"

definition rt_object_allocate :: "rt_object_class_type \<Rightarrow> u8 list \<Rightarrow> kernel \<Rightarrow> (nat option \<times> kernel) option" where
  "rt_object_allocate type name s = do {
     RT_DEBUG_NOT_IN_INTERRUPT s;
     (r, s1) \<leftarrow> RT_KERNEL_MALLOC (object_size s type) s;
     case r of None \<Rightarrow> Some (None, s1)
     | Some p \<Rightarrow> do {
         let ob = obj_at type p;
         let s2 = upd_obj ob (\<lambda>o'. o'\<lparr>otype := class_code type, oflag := 0\<rparr>) s1;
         nm \<leftarrow> rt_strncpy name RT_NAME_MAX;
         let s3 = upd_obj ob (\<lambda>o'. o'\<lparr>oname := nm\<rparr>) s2;
         Some (Some p, upd_ol (rt_list_insert_after (LHead type) (LElem ob)) s3) } }"

definition rt_object_delete :: "rt_object_class_type \<Rightarrow> nat \<Rightarrow> kernel \<Rightarrow> kernel option" where
  "rt_object_delete type p s = do {
     RT_ASSERT (\<not> otype (objs s (obj_at type p)) AND RT_Object_Class_Static \<noteq> 0);
     RT_KERNEL_FREE p (upd_ol (rt_list_remove (LElem (obj_at type p))) s) }"

text \<open>The loop over the nodes of one object list, comparing names.\<close>

partial_function (option) find_loop ::
  "(rt_object_class_type, obj) lnode links \<Rightarrow> (obj \<Rightarrow> rt_object) \<Rightarrow> u8 list \<Rightarrow> (rt_object_class_type, obj) lnode
     \<Rightarrow> (rt_object_class_type, obj) lnode \<Rightarrow> obj option option" where
  "find_loop k os name hd' node =
    (if node = hd' then Some None
     else do {
       ob \<leftarrow> rt_list_entry node;
       r \<leftarrow> rt_strncmp (oname (os ob)) name RT_NAME_MAX;
       if r = 0 then Some (Some ob) else find_loop k os name hd' (lnext k node) })"

text \<open>
  \<open>rt_object_find\<close>, for a class and a non-null name: it must not be called in an interrupt, it locks
  the scheduler around the search, and unlocking reschedules.
\<close>

definition rt_object_find :: "u8 list \<Rightarrow> rt_object_class_type \<Rightarrow> kernel \<Rightarrow> (obj option \<times> kernel) option" where
  "rt_object_find name type s = do {
     RT_ASSERT (\<not> rt_interrupt_nest s \<noteq> 0);
     let s1 = rt_enter_critical s;
     r \<leftarrow> find_loop (olinks s1) (objs s1) name (LHead type) (lnext (olinks s1) (LHead type));
     s2 \<leftarrow> rt_exit_critical s1;
     Some (r, s2) }"

text \<open>
  \<open>rt_thread_find\<close> and \<open>rt_device_find\<close> search the same way, but take the scheduler lock only when
  the scheduler runs.
\<close>

definition find_by_name :: "rt_object_class_type \<Rightarrow> u8 list \<Rightarrow> kernel \<Rightarrow> (obj option \<times> kernel) option" where
  "find_by_name type name s = do {
     let s1 = (if rt_thread_self s \<noteq> None then rt_enter_critical s else s);
     r \<leftarrow> find_loop (olinks s1) (objs s1) name (LHead type) (lnext (olinks s1) (LHead type));
     s2 \<leftarrow> (if rt_thread_self s1 \<noteq> None then rt_exit_critical s1 else Some s1);
     Some (r, s2) }"

definition rt_thread_find :: "u8 list \<Rightarrow> kernel \<Rightarrow> (obj option \<times> kernel) option" where
  "rt_thread_find = find_by_name RT_Object_Class_Thread"

definition rt_device_find :: "u8 list \<Rightarrow> kernel \<Rightarrow> (obj option \<times> kernel) option" where
  "rt_device_find = find_by_name RT_Object_Class_Device"

section \<open>The container as lists\<close>

definition obj_inv :: "kernel \<Rightarrow> (rt_object_class_type \<Rightarrow> obj list) \<Rightarrow> bool" where
  "obj_inv s C \<longleftrightarrow> lists_rep (olinks s) C
     \<and> (\<forall>c. \<forall>ob \<in> set (C c). length (oname (objs s ob)) = RT_NAME_MAX)"

definition named :: "(obj \<Rightarrow> rt_object) \<Rightarrow> u8 list \<Rightarrow> obj \<Rightarrow> bool" where
  "named os name ob \<longleftrightarrow> cname RT_NAME_MAX (oname (os ob)) = cname RT_NAME_MAX name"

lemma rt_object_init_spec:
  assumes "obj_inv s C" "\<forall>c. ob \<notin> set (C c)" "readable RT_NAME_MAX name"
  shows "\<exists>s'. rt_object_init ob type name s = Some s' \<and> obj_inv s' (C(type := ob # C type))
     \<and> named (objs s') name ob \<and> rt_object_is_systemobject ob s'"
proof -
  obtain nm where nm: "rt_strncpy name RT_NAME_MAX = Some nm" "length nm = RT_NAME_MAX"
    "cname RT_NAME_MAX nm = cname RT_NAME_MAX name"
    using rt_strncpy_spec [OF assms(3)] by blast
  have R: "lists_rep (olinks s) C" using assms(1) by (simp add: obj_inv_def)
  have st: "(class_code type OR RT_Object_Class_Static) AND RT_Object_Class_Static \<noteq> 0"
    by (cases type) (simp_all add: RT_Object_Class_Static_def)
  show ?thesis
    using tq.rep_push_front [OF R assms(2), of type] assms(1,2) nm st
    by (auto simp: rt_object_init_def upd_defs obj_inv_def named_def Let_def
        rt_object_is_systemobject_def)
qed

lemma rt_object_detach_spec:
  assumes "obj_inv s C"
  shows "obj_inv (rt_object_detach ob s) (\<lambda>c. remove1 ob (C c))"
  using assms tq.rep_unlink [of "olinks s" C ob]
  by (auto simp: obj_inv_def rt_object_detach_def upd_defs dest: subsetD [OF set_remove1_subset])

text \<open>The search loop returns the first object of the list whose name matches.\<close>

lemma find_loop_spec:
  assumes R: "lists_rep k C" and nm: "\<forall>ob \<in> set (C type). length (oname (os ob)) = RT_NAME_MAX"
    and rd: "readable RT_NAME_MAX name" and C: "C type = us @ vs"
    and node: "node = (if vs = [] then LHead type else LElem (hd vs))"
  shows "find_loop k os name (LHead type) node = Some (find (named os name) vs)"
  using C node
proof (induction vs arbitrary: us node)
  case Nil
  then show ?case by (simp add: find_loop.simps)
next
  case (Cons v vs)
  have "readable RT_NAME_MAX (oname (os v))"
    using nm Cons.prems by (simp add: readable_def)
  then obtain r where r: "rt_strncmp (oname (os v)) name RT_NAME_MAX = Some r" "(r = 0) = named os name v"
    using rt_strncmp_eq [OF _ rd] unfolding named_def by blast
  have nx: "lnext k (LElem v) = (if vs = [] then LHead type else LElem (hd vs))"
    by (rule lists_rep_next_elem [OF R Cons.prems(1)])
  have "find_loop k os name (LHead type) (lnext k (LElem v)) = Some (find (named os name) vs)"
    by (rule Cons.IH [of "us @ [v]"]) (use Cons.prems nx in auto)
  then show ?case
    using Cons.prems r by (subst find_loop.simps) simp
qed

lemma find_loop_find:
  assumes "obj_inv s C" "readable RT_NAME_MAX name"
  shows "find_loop (olinks s) (objs s) name (LHead type) (lnext (olinks s) (LHead type))
    = Some (find (named (objs s) name) (C type))"
proof -
  have R: "lists_rep (olinks s) C" using assms(1) by (simp add: obj_inv_def)
  have "lnext (olinks s) (LHead type) = (if C type = [] then LHead type else LElem (hd (C type)))"
    using lists_repD(2) [OF R, of type] by (cases "C type") auto
  then show ?thesis
    using find_loop_spec [OF R _ assms(2), of type "objs s" "[]" "C type"] assms(1)
    by (simp add: obj_inv_def)
qed

text \<open>Before the scheduler runs, a name search changes nothing and finds the first match.\<close>

lemma find_by_name_before_start:
  assumes "obj_inv s C" "readable RT_NAME_MAX name" "rt_current_thread s = None"
  shows "find_by_name type name s = Some (find (named (objs s) name) (C type), s)"
  using find_loop_find [OF assms(1,2), of type] assms(3)
  by (simp add: find_by_name_def rt_thread_self_def Let_def)

end
