(* ===== verification/RT_Timer.thy ===== *)
theory RT_Timer
  imports RT_Object
begin

text \<open>
  The timers of \<open>src/timer.c\<close>: initialisation, start, stop and control, with the timer list kept in
  the order of expiry. Ticks are 32-bit words that wrap around; the code orders two timers by the
  sign of their difference, which is right as long as every timeout lies less than half the range
  ahead of the current tick. The list has one level (\<open>RT_TIMER_SKIP_LIST_LEVEL\<close> is 1). Expiry, which
  calls the timeout functions, is in the theory of the clock.
\<close>

definition RT_TIMER_FLAG_ACTIVATED :: u8 where "RT_TIMER_FLAG_ACTIVATED = 0x1"
definition RT_TIMER_FLAG_PERIODIC :: u8 where "RT_TIMER_FLAG_PERIODIC = 0x2"
definition RT_TIMER_FLAG_ONE_SHOT :: u8 where "RT_TIMER_FLAG_ONE_SHOT = 0x0"

datatype timer_cmd =
  RT_TIMER_CTRL_SET_TIME u32 | RT_TIMER_CTRL_GET_TIME | RT_TIMER_CTRL_SET_ONESHOT | RT_TIMER_CTRL_SET_PERIODIC

lemmas timer_flag_defs = RT_TIMER_FLAG_ACTIVATED_def RT_TIMER_FLAG_PERIODIC_def RT_TIMER_FLAG_ONE_SHOT_def

section \<open>Operations\<close>

definition rt_timer_remove :: "timer_id \<Rightarrow> kernel \<Rightarrow> kernel" where
  "rt_timer_remove t s = upd_tml (rt_list_remove (LElem t)) s"

definition rt_timer_init_fields :: "timer_id \<Rightarrow> timeout_fn \<Rightarrow> u32 \<Rightarrow> u8 \<Rightarrow> kernel \<Rightarrow> kernel" where
  "rt_timer_init_fields t timeout time flag s =
    (let s1 = upd_obj (OTimer t) (\<lambda>o'. o'\<lparr>oflag := flag\<rparr>) s;
         s2 = upd_obj (OTimer t) (\<lambda>o'. o'\<lparr>oflag := oflag o' AND NOT RT_TIMER_FLAG_ACTIVATED\<rparr>) s1;
         s3 = upd_timer t (\<lambda>tm. tm\<lparr>timeout_func := timeout, timeout_tick := 0, tmr_init_tick := time\<rparr>) s2
     in upd_tml (rt_list_init (LElem t)) s3)"

definition rt_timer_init :: "timer_id \<Rightarrow> u8 list \<Rightarrow> timeout_fn \<Rightarrow> u32 \<Rightarrow> u8 \<Rightarrow> kernel \<Rightarrow> kernel option" where
  "rt_timer_init t name timeout time flag s = do {
     s1 \<leftarrow> rt_object_init (OTimer t) RT_Object_Class_Timer name s;
     Some (rt_timer_init_fields t timeout time flag s1) }"

definition rt_timer_detach :: "timer_id \<Rightarrow> kernel \<Rightarrow> kernel" where
  "rt_timer_detach t s = rt_object_detach (OTimer t) (rt_timer_remove t s)"

text \<open>
  The walk that finds the node after which a timer is inserted: it stops before the first timer that
  expires strictly later, so timers with the same timeout keep their order of insertion.
\<close>

partial_function (option) timer_walk ::
  "(unit, timer_id) lnode links \<Rightarrow> (timer_id \<Rightarrow> rt_timer) \<Rightarrow> u32 \<Rightarrow> (unit, timer_id) lnode \<Rightarrow> (unit, timer_id) lnode option"
where
  "timer_walk k ts tick row_head =
    (if row_head = lprev k (LHead ()) then Some row_head
     else do {
       t \<leftarrow> rt_list_entry (lnext k row_head);
       if timeout_tick (ts t) - tick = 0 then timer_walk k ts tick (lnext k row_head)
       else if timeout_tick (ts t) - tick < RT_TICK_MAX div 2 then Some row_head
       else timer_walk k ts tick (lnext k row_head) })"

definition rt_timer_start :: "timer_id \<Rightarrow> kernel \<Rightarrow> kernel option" where
  "rt_timer_start t s = do {
     let s1 = rt_timer_remove t s;
     let s2 = upd_obj (OTimer t) (\<lambda>o'. o'\<lparr>oflag := oflag o' AND NOT RT_TIMER_FLAG_ACTIVATED\<rparr>) s1;
     RT_ASSERT (tmr_init_tick (timers s2 t) < RT_TICK_MAX div 2);
     let s3 = upd_timer t (\<lambda>tm. tm\<lparr>timeout_tick := rt_tick s2 + tmr_init_tick tm\<rparr>) s2;
     row_head \<leftarrow> timer_walk (tmlinks s3) (timers s3) (timeout_tick (timers s3 t)) (LHead ());
     let s4 = s3\<lparr>random_nr := random_nr s3 + 1\<rparr>;
     let s5 = upd_tml (rt_list_insert_after row_head (LElem t)) s4;
     Some (upd_obj (OTimer t) (\<lambda>o'. o'\<lparr>oflag := oflag o' OR RT_TIMER_FLAG_ACTIVATED\<rparr>) s5) }"

definition rt_timer_stop :: "timer_id \<Rightarrow> kernel \<Rightarrow> rt_err_t \<times> kernel" where
  "rt_timer_stop t s =
    (if oflag (objs s (OTimer t)) AND RT_TIMER_FLAG_ACTIVATED = 0 then (- RT_ERROR, s)
     else (RT_EOK, upd_obj (OTimer t) (\<lambda>o'. o'\<lparr>oflag := oflag o' AND NOT RT_TIMER_FLAG_ACTIVATED\<rparr>)
                     (rt_timer_remove t s)))"

text \<open>\<open>rt_timer_control\<close> returns the interval for \<open>RT_TIMER_CTRL_GET_TIME\<close> through its argument.\<close>

fun rt_timer_control :: "timer_id \<Rightarrow> timer_cmd \<Rightarrow> kernel \<Rightarrow> u32 option \<times> kernel" where
  "rt_timer_control t RT_TIMER_CTRL_GET_TIME s = (Some (tmr_init_tick (timers s t)), s)"
| "rt_timer_control t (RT_TIMER_CTRL_SET_TIME tick) s =
     (None, upd_timer t (\<lambda>tm. tm\<lparr>tmr_init_tick := tick\<rparr>) s)"
| "rt_timer_control t RT_TIMER_CTRL_SET_ONESHOT s =
     (None, upd_obj (OTimer t) (\<lambda>o'. o'\<lparr>oflag := oflag o' AND NOT RT_TIMER_FLAG_PERIODIC\<rparr>) s)"
| "rt_timer_control t RT_TIMER_CTRL_SET_PERIODIC s =
     (None, upd_obj (OTimer t) (\<lambda>o'. o'\<lparr>oflag := oflag o' OR RT_TIMER_FLAG_PERIODIC\<rparr>) s)"

definition rt_timer_list_next_timeout :: "kernel \<Rightarrow> u32 option" where
  "rt_timer_list_next_timeout s =
    (if rt_list_isempty (LHead ()) (tmlinks s) then Some RT_TICK_MAX
     else do { t \<leftarrow> rt_list_entry (lnext (tmlinks s) (LHead ())); Some (timeout_tick (timers s t)) })"

definition rt_timer_next_timeout_tick :: "kernel \<Rightarrow> u32 option" where
  "rt_timer_next_timeout_tick s = rt_timer_list_next_timeout s"

definition rt_system_timer_init :: "kernel \<Rightarrow> kernel" where
  "rt_system_timer_init s = upd_tml (rt_list_init (LHead ())) s"

section \<open>The timer list\<close>

text \<open>Ticks left until a timer expires, as the unsigned difference the code computes.\<close>

definition tdist :: "kernel \<Rightarrow> timer_id \<Rightarrow> nat" where
  "tdist s t = unat (timeout_tick (timers s t) - rt_tick s)"

definition activated :: "kernel \<Rightarrow> timer_id \<Rightarrow> bool" where
  "activated s t \<longleftrightarrow> oflag (objs s (OTimer t)) AND RT_TIMER_FLAG_ACTIVATED \<noteq> 0"

definition HALF :: nat where "HALF = 0x7fffffff"

definition tmr_inv :: "kernel \<Rightarrow> timer_id list \<Rightarrow> bool" where
  "tmr_inv s T \<longleftrightarrow> lists_rep (tmlinks s) (\<lambda>_. T)
     \<and> sorted (map (tdist s) T)
     \<and> (\<forall>t \<in> set T. tdist s t < HALF \<and> activated s t)"

lemma half_unat: "unat (RT_TICK_MAX div 2) = HALF"
  by (simp add: RT_TICK_MAX_def HALF_def unat_div)

lemma tmr_invD:
  assumes "tmr_inv s T"
  shows "lists_rep (tmlinks s) (\<lambda>_. T)" "sorted (map (tdist s) T)"
    and "t \<in> set T \<Longrightarrow> tdist s t < HALF" "t \<in> set T \<Longrightarrow> activated s t"
    and "distinct T"
  using assms lists_rep_distinct [of "tmlinks s" "\<lambda>_. T" "()"] by (auto simp: tmr_inv_def)

text \<open>The walk, on the list the links represent.\<close>

definition later :: "(timer_id \<Rightarrow> rt_timer) \<Rightarrow> u32 \<Rightarrow> timer_id \<Rightarrow> bool" where
  "later ts tick x \<longleftrightarrow> timeout_tick (ts x) - tick \<noteq> 0 \<and> timeout_tick (ts x) - tick < RT_TICK_MAX div 2"

definition node_at :: "timer_id list \<Rightarrow> (unit, timer_id) lnode" where
  "node_at us = (if us = [] then LHead () else LElem (last us))"

lemma timer_walk_spec:
  assumes R: "lists_rep k (\<lambda>_. us @ vs)"
  shows "timer_walk k ts tick (node_at us) = Some (node_at (us @ takeWhile (\<lambda>x. \<not> later ts tick x) vs))"
  using R
proof (induction vs arbitrary: us)
  case Nil
  have "lprev k (LHead ()) = node_at us"
  proof (cases "us = []")
    case True
    then show ?thesis
      using lists_repD(1) [OF Nil] lists_repD(2) [OF Nil, where h = "()"] ring_self [of k "LHead ()"]
      by (simp add: node_at_def)
  next
    case False
    then show ?thesis using lists_rep_last [OF Nil, where h = "()"] by (simp add: node_at_def)
  qed
  then show ?case by (simp add: timer_walk.simps)
next
  case (Cons v vs)
  have ne: "node_at us \<noteq> lprev k (LHead ())"
  proof -
    have "lprev k (LHead ()) = LElem (last (us @ v # vs))"
      using lists_rep_last [OF Cons.prems, where h = "()"] by simp
    moreover have "distinct (us @ v # vs)" using lists_rep_distinct [OF Cons.prems] by blast
    moreover from this have "last us \<noteq> last (v # vs)" if "us \<noteq> []"
      using that last_in_set [of us] last_in_set [of "v # vs"] by (metis disjoint_iff distinct_append list.distinct(1))
    ultimately show ?thesis by (cases "us = []") (simp_all add: node_at_def)
  qed
  have nx: "lnext k (node_at us) = LElem v"
  proof (cases us rule: rev_cases)
    case Nil
    then show ?thesis using lists_rep_first [OF Cons.prems, where h = "()"] by (simp add: node_at_def)
  next
    case (snoc ys y)
    then show ?thesis using lists_rep_next_elem [OF Cons.prems, where h = "()" and us = ys and u = y and vs = "v # vs"]
      by (simp add: node_at_def)
  qed
  have IH: "timer_walk k ts tick (LElem v)
      = Some (node_at (us @ v # takeWhile (\<lambda>x. \<not> later ts tick x) vs))"
    using Cons.IH [of "us @ [v]"] Cons.prems by (simp add: node_at_def)
  show ?case
    using ne nx IH by (subst timer_walk.simps) (auto simp: later_def)
qed

lemma lists_rep_insert_after_node_at:
  assumes R: "lists_rep k (\<lambda>_ :: unit. us @ vs)" and "t \<notin> set (us @ vs)"
  shows "lists_rep (rt_list_insert_after (node_at us) (LElem t) k) (\<lambda>_. us @ t # vs)"
proof (cases us rule: rev_cases)
  case Nil
  have "(\<lambda>_ :: unit. us @ vs)(() := t # vs) = (\<lambda>_. us @ t # vs)" using Nil by auto
  then show ?thesis
    using lists_rep_insert_after_head [OF R, where e = t and h = "()"] assms(2) Nil by (simp add: node_at_def)
next
  case (snoc ys y)
  have "(\<lambda>_ :: unit. us @ vs)(() := ys @ y # t # vs) = (\<lambda>_. us @ t # vs)" using snoc by auto
  then show ?thesis
    using lists_rep_insert_after_elem [OF R, where e = t and h = "()" and us = ys and u = y and vs = vs] assms(2) snoc
    by (simp add: node_at_def)
qed

text \<open>
  With both timeouts less than half the range ahead of the tick, the sign test of the code compares
  the distances.
\<close>

lemma unat_sub_wrap: "unat x < unat y \<Longrightarrow> unat (x - y) = unat x + 2 ^ 32 - unat y" for x y :: u32
  by (simp add: unat_sub_if_size word_size word_le_nat_alt)

lemma later_iff:
  assumes "unat (a - now) < HALF" "unat (b - now) < HALF"
  shows "(a - b \<noteq> 0 \<and> a - b < RT_TICK_MAX div 2) = (unat (b - now) < unat (a - now))"
proof -
  let ?x = "a - now" and ?y = "b - now"
  have d: "a - b = ?x - ?y" by simp
  show ?thesis
  proof (cases "?y \<le> ?x")
    case True
    then have u: "unat (a - b) = unat ?x - unat ?y" unfolding d by (rule unat_sub)
    have "(a - b \<noteq> 0) = (unat (a - b) \<noteq> 0)" by (simp only: unat_eq_0)
    then show ?thesis
      unfolding word_less_nat_alt half_unat u using assms True by (auto simp: word_le_nat_alt)
  next
    case False
    then have lt: "unat ?x < unat ?y" by (simp add: word_less_nat_alt not_le)
    have "unat (a - b) = unat ?x + 2 ^ 32 - unat ?y"
      unfolding d by (rule unat_sub_wrap [OF lt])
    then have "HALF \<le> unat (a - b)" using assms lt unsigned_less [of ?y] by (simp add: HALF_def)
    then show ?thesis using lt half_unat by (simp add: word_less_nat_alt)
  qed
qed

section \<open>Starting and stopping a timer\<close>

text \<open>Where a timer with a given distance goes: behind every timer that does not expire later.\<close>

fun insert_timer :: "(timer_id \<Rightarrow> nat) \<Rightarrow> timer_id \<Rightarrow> timer_id list \<Rightarrow> timer_id list" where
  "insert_timer d t [] = [t]"
| "insert_timer d t (x # xs) = (if d x \<le> d t then x # insert_timer d t xs else t # x # xs)"

lemma insert_timer_split:
  "insert_timer d t xs = takeWhile (\<lambda>x. d x \<le> d t) xs @ t # dropWhile (\<lambda>x. d x \<le> d t) xs"
  by (induction xs) auto

lemma set_insert_timer [simp]: "set (insert_timer d t xs) = insert t (set xs)"
  by (induction xs) auto

lemma sorted_insert_timer: "sorted (map d xs) \<Longrightarrow> sorted (map d (insert_timer d t xs))"
  by (induction xs) auto

lemma insert_timer_cong:
  "(\<And>x. x \<in> insert t (set xs) \<Longrightarrow> d x = d' x) \<Longrightarrow> insert_timer d t xs = insert_timer d' t xs"
  by (induction xs) auto

lemma takeWhile_cong_set:
  "(\<And>x. x \<in> set xs \<Longrightarrow> P x = Q x) \<Longrightarrow> takeWhile P xs = takeWhile Q xs \<and> dropWhile P xs = dropWhile Q xs"
  by (induction xs) auto

text \<open>
  The state \<open>rt_timer_start\<close> ends in, but for the links: the new timeout, the counter that would
  choose the height in a skip list, and the flag.
\<close>

definition timer_started :: "timer_id \<Rightarrow> kernel \<Rightarrow> kernel \<Rightarrow> bool" where
  "timer_started t s s' \<longleftrightarrow>
     s' = s\<lparr>tmlinks := tmlinks s', random_nr := random_nr s + 1,
            timers := (timers s)(t := (timers s t)\<lparr>timeout_tick := rt_tick s + tmr_init_tick (timers s t)\<rparr>),
            objs := objs s'\<rparr>
     \<and> (\<forall>ob. ob \<noteq> OTimer t \<longrightarrow> objs s' ob = objs s ob)
     \<and> activated s' t
     \<and> (\<forall>f. f AND RT_TIMER_FLAG_ACTIVATED = 0 \<longrightarrow>
            oflag (objs s' (OTimer t)) AND f = oflag (objs s (OTimer t)) AND f)"

lemma tdist_started:
  assumes "tmr_init_tick (timers s t) < RT_TICK_MAX div 2"
  shows "tdist (s\<lparr>timers := (timers s)(t := (timers s t)\<lparr>timeout_tick := rt_tick s + tmr_init_tick (timers s t)\<rparr>)\<rparr>) t
    = unat (tmr_init_tick (timers s t))"
  by (simp add: tdist_def)

lemma flag_set_clear:
  "(((f :: u8) AND NOT RT_TIMER_FLAG_ACTIVATED) OR RT_TIMER_FLAG_ACTIVATED) AND RT_TIMER_FLAG_ACTIVATED \<noteq> 0"
  "g AND RT_TIMER_FLAG_ACTIVATED = 0 \<Longrightarrow>
     ((f AND NOT RT_TIMER_FLAG_ACTIVATED) OR RT_TIMER_FLAG_ACTIVATED) AND g = f AND g"
proof -
  have "RT_TIMER_FLAG_ACTIVATED = (1 :: u8)" by (simp add: RT_TIMER_FLAG_ACTIVATED_def)
  then show "((f AND NOT RT_TIMER_FLAG_ACTIVATED) OR RT_TIMER_FLAG_ACTIVATED) AND RT_TIMER_FLAG_ACTIVATED \<noteq> 0"
    by (simp add: bit.conj_disj_distrib2)
  assume g: "g AND RT_TIMER_FLAG_ACTIVATED = 0"
  show "((f AND NOT RT_TIMER_FLAG_ACTIVATED) OR RT_TIMER_FLAG_ACTIVATED) AND g = f AND g"
  proof (rule bit_word_eqI)
    fix n
    have "\<not> (bit g n \<and> bit RT_TIMER_FLAG_ACTIVATED n)"
      using g by (metis bit_0_eq bit_and_iff bot_apply bot_bool_def)
    then show "bit (((f AND NOT RT_TIMER_FLAG_ACTIVATED) OR RT_TIMER_FLAG_ACTIVATED) AND g) n = bit (f AND g) n"
      by (auto simp: bit_simps dest: bit_imp_le_length)
  qed
qed

lemma rt_timer_start_spec:
  assumes I: "tmr_inv s T" and h: "tmr_init_tick (timers s t) < RT_TICK_MAX div 2"
  shows "\<exists>s'. rt_timer_start t s = Some s' \<and> timer_started t s s'
     \<and> tmr_inv s' (insert_timer (tdist s') t (remove1 t T))"
proof -
  let ?T = "remove1 t T"
  let ?tm = "(timers s)(t := (timers s t)\<lparr>timeout_tick := rt_tick s + tmr_init_tick (timers s t)\<rparr>)"
  let ?tick = "rt_tick s + tmr_init_tick (timers s t)"
  let ?k = "rt_list_remove (LElem t) (tmlinks s)"
  let ?d = "\<lambda>x. unat (timeout_tick (?tm x) - rt_tick s)"
  note D = tmr_invD [OF I]
  have R: "lists_rep ?k (\<lambda>_. ?T)"
    using tq.rep_unlink [OF D(1), of t] by simp
  have nT: "t \<notin> set ?T" using D(5) by simp
  have sub: "set ?T \<subseteq> set T" by (rule set_remove1_subset)
  have dt: "?d t < HALF" using h half_unat by (simp add: word_less_nat_alt)
  have dx: "?d x < HALF" if "x \<in> set ?T" for x
    using that sub nT D(3) [of x] by (auto simp: tdist_def)
  have lt: "(\<not> later ?tm ?tick x) = (?d x \<le> ?d t)" if "x \<in> set ?T" for x
    using later_iff [of "timeout_tick (?tm x)" "rt_tick s" ?tick] dx [OF that] dt that nT
    by (auto simp: later_def not_less)
  define us where "us = takeWhile (\<lambda>x. ?d x \<le> ?d t) ?T"
  define vs where "vs = dropWhile (\<lambda>x. ?d x \<le> ?d t) ?T"
  have uv: "?T = us @ vs" by (simp add: us_def vs_def)
  have tw: "takeWhile (\<lambda>x. \<not> later ?tm ?tick x) ?T = us"
    using takeWhile_cong_set [of ?T "\<lambda>x. \<not> later ?tm ?tick x"] lt by (simp add: us_def)
  have walk: "timer_walk ?k ?tm ?tick (LHead ()) = Some (node_at us)"
    using timer_walk_spec [of ?k "[]" ?T ?tm ?tick] R tw by (simp add: node_at_def)
  have ins: "lists_rep (rt_list_insert_after (node_at us) (LElem t) ?k) (\<lambda>_. us @ t # vs)"
    using lists_rep_insert_after_node_at [of ?k us vs t] R uv nT by simp
  let ?f = "oflag (objs s (OTimer t))"
  let ?s' = "s\<lparr>tmlinks := rt_list_insert_after (node_at us) (LElem t) ?k, random_nr := random_nr s + 1,
     timers := ?tm, objs := (objs s)(OTimer t := (objs s (OTimer t))
       \<lparr>oflag := (?f AND NOT RT_TIMER_FLAG_ACTIVATED) OR RT_TIMER_FLAG_ACTIVATED\<rparr>)\<rparr>"
  have st: "rt_timer_start t s = Some ?s'"
    using h walk by (simp add: rt_timer_start_def rt_timer_remove_def upd_defs Let_def)
  have act: "activated ?s' t" using flag_set_clear(1) [of ?f] by (simp add: activated_def)
  have started: "timer_started t s ?s'"
    using flag_set_clear(2) [of _ ?f] act by (simp add: timer_started_def)
  have td: "tdist ?s' = ?d" by (auto simp: tdist_def fun_eq_iff)
  have list: "insert_timer (tdist ?s') t ?T = us @ t # vs"
    unfolding td by (simp only: insert_timer_split us_def vs_def)
  have "map ?d ?T = map (tdist s) ?T" using nT by (auto simp: tdist_def)
  moreover have "sorted (map (tdist s) ?T)" using D(2) by (rule sorted_map_remove1)
  ultimately have "sorted (map (tdist ?s') (insert_timer (tdist ?s') t ?T))"
    unfolding td by (metis sorted_insert_timer)
  moreover have "tdist ?s' x < HALF \<and> activated ?s' x" if "x \<in> set (insert_timer (tdist ?s') t ?T)" for x
    using that dt dx [of x] act D(4) [of x] sub unfolding td by (auto simp: activated_def)
  ultimately have "tmr_inv ?s' (insert_timer (tdist ?s') t ?T)"
    using ins list by (simp add: tmr_inv_def)
  with st started show ?thesis by blast
qed

lemma flag_clear: "((f :: u8) AND NOT RT_TIMER_FLAG_ACTIVATED) AND RT_TIMER_FLAG_ACTIVATED = 0"
  by (rule bit_word_eqI) (simp add: bit_simps)

lemma rt_timer_stop_spec:
  assumes I: "tmr_inv s T" and st: "rt_timer_stop t s = (r, s')"
  shows "tmr_inv s' (remove1 t T)" "\<not> activated s' t" "r = (if activated s t then RT_EOK else - RT_ERROR)"
    and "s' = s\<lparr>tmlinks := tmlinks s', objs := objs s'\<rparr>" "x \<noteq> OTimer t \<Longrightarrow> objs s' x = objs s x"
proof -
  note D = tmr_invD [OF I]
  have off: "t \<notin> set T" if "\<not> activated s t" using D(4) that by blast
  show "\<not> activated s' t" "r = (if activated s t then RT_EOK else - RT_ERROR)"
    "s' = s\<lparr>tmlinks := tmlinks s', objs := objs s'\<rparr>" "x \<noteq> OTimer t \<Longrightarrow> objs s' x = objs s x"
    using st flag_clear
    by (auto simp: rt_timer_stop_def activated_def rt_timer_remove_def upd_defs split: if_splits)
  show "tmr_inv s' (remove1 t T)"
  proof (cases "activated s t")
    case False
    with st have "s' = s" by (auto simp: rt_timer_stop_def activated_def)
    with I off [OF False] show ?thesis by (simp add: remove1_idem)
  next
    case True
    then have s': "s' = s\<lparr>tmlinks := rt_list_remove (LElem t) (tmlinks s),
      objs := (objs s)(OTimer t := (objs s (OTimer t))\<lparr>oflag := oflag (objs s (OTimer t)) AND NOT RT_TIMER_FLAG_ACTIVATED\<rparr>)\<rparr>"
      using st by (auto simp: rt_timer_stop_def activated_def rt_timer_remove_def upd_defs)
    have td: "tdist s' = tdist s" by (simp add: s' tdist_def fun_eq_iff)
    have "lists_rep (tmlinks s') (\<lambda>_. remove1 t T)" using tq.rep_unlink [OF D(1), of t] by (simp add: s')
    moreover have "sorted (map (tdist s') (remove1 t T))" unfolding td using D(2) by (rule sorted_map_remove1)
    moreover have "tdist s' x < HALF \<and> activated s' x" if "x \<in> set (remove1 t T)" for x
    proof -
      have "x \<in> set T" "x \<noteq> t" using that D(5) by auto
      then show ?thesis using D(3,4) [of x] by (simp add: td) (simp add: s' activated_def)
    qed
    ultimately show ?thesis by (simp add: tmr_inv_def)
  qed
qed

text \<open>Stopping a timer leaves the other flags as they are.\<close>

lemma rt_timer_stop_flags:
  assumes "rt_timer_stop t s = (r, s')" "f AND RT_TIMER_FLAG_ACTIVATED = 0"
  shows "oflag (objs s' ob) AND f = oflag (objs s ob) AND f"
proof -
  have "(x AND NOT RT_TIMER_FLAG_ACTIVATED) AND f = x AND f" for x :: u8
  proof (rule bit_word_eqI)
    fix n
    have "\<not> (bit f n \<and> bit RT_TIMER_FLAG_ACTIVATED n)"
      using assms(2) by (metis bit_0_eq bit_and_iff bot_apply bot_bool_def)
    then show "bit ((x AND NOT RT_TIMER_FLAG_ACTIVATED) AND f) n = bit (x AND f) n"
      by (auto simp: bit_simps dest: bit_imp_le_length)
  qed
  then show ?thesis using assms(1) by (auto simp: rt_timer_stop_def rt_timer_remove_def upd_defs split: if_splits)
qed

text \<open>The next timeout is that of the timer that expires first.\<close>

lemma rt_timer_next_timeout_spec:
  assumes "tmr_inv s T"
  shows "rt_timer_next_timeout_tick s
    = Some (case T of [] \<Rightarrow> RT_TICK_MAX | t # _ \<Rightarrow> timeout_tick (timers s t))"
  using tq.rep_empty_at [OF tmr_invD(1) [OF assms], of "()"] tq.rep_first_at [OF tmr_invD(1) [OF assms], of "()"]
  by (auto simp: rt_timer_next_timeout_tick_def rt_timer_list_next_timeout_def split: list.splits)

end
