(* ===== verification/RT_CpuPort.thy ===== *)
theory RT_CpuPort
  imports RT_KService
begin

text \<open>
  The first stack frame of a thread, from \<open>libcpu/arm/cortex-m4/cpuport.c\<close> built with the floating
  point unit (\<open>USE_FPU\<close>): a flag word, \<open>r4\<close> to \<open>r11\<close>, and the frame the processor itself restores.
  The context switch pops this frame, so a new thread begins at its entry function with its
  parameter in \<open>r0\<close> and returns into \<open>rt_thread_exit\<close>.
\<close>

definition SIZEOF_STACK_FRAME :: nat where "SIZEOF_STACK_FRAME = 68"

text \<open>Offsets of the words of \<open>struct stack_frame\<close> in bytes.\<close>

datatype frame_word = F_flag | F_r nat | F_r0 | F_r1 | F_r2 | F_r3 | F_r12 | F_lr | F_pc | F_psr

fun frame_offset :: "frame_word \<Rightarrow> nat" where
  "frame_offset F_flag = 0"
| "frame_offset (F_r n) = 4 + 4 * (n - 4)"
| "frame_offset F_r0 = 36"
| "frame_offset F_r1 = 40"
| "frame_offset F_r2 = 44"
| "frame_offset F_r3 = 48"
| "frame_offset F_r12 = 52"
| "frame_offset F_lr = 56"
| "frame_offset F_pc = 60"
| "frame_offset F_psr = 64"

definition rt_hw_stack_init :: "u32 \<Rightarrow> u32 \<Rightarrow> u32 \<Rightarrow> u32 \<Rightarrow> memory \<Rightarrow> u32 \<times> memory" where
  "rt_hw_stack_init tentry parameter stack_addr texit m =
    (let stk = RT_ALIGN_DOWN (stack_addr + 4) 8 - of_nat SIZEOF_STACK_FRAME;
         a = unat stk;
         m0 = fold (\<lambda>i m. store32 m (a + 4 * i) 0xdeadbeef) [0 ..< SIZEOF_STACK_FRAME div 4] m;
         m1 = store32 m0 (a + frame_offset F_r0) parameter;
         m2 = store32 m1 (a + frame_offset F_r1) 0;
         m3 = store32 m2 (a + frame_offset F_r2) 0;
         m4 = store32 m3 (a + frame_offset F_r3) 0;
         m5 = store32 m4 (a + frame_offset F_r12) 0;
         m6 = store32 m5 (a + frame_offset F_lr) texit;
         m7 = store32 m6 (a + frame_offset F_pc) tentry;
         m8 = store32 m7 (a + frame_offset F_psr) 0x01000000
     in (stk, store32 m8 (a + frame_offset F_flag) 0))"

lemma load32_store32: "load32 (store32 m p w) p = w"
proof (rule bit_word_eqI)
  fix n assume n: "n < LENGTH(32)"
  consider "n < 8" | "8 \<le> n" "n < 16" | "16 \<le> n" "n < 24" | "24 \<le> n" "n < 32" using n by fastforce
  then show "bit (load32 (store32 m p w) p) n = bit w n"
    by cases (auto simp: load32_def store32_def bit_simps)
qed

lemma load32_store32_other: "p + 4 \<le> q \<or> q + 4 \<le> p \<Longrightarrow> load32 (store32 m p w) q = load32 m q"
  by (auto simp: load32_def store32_def)

lemma store32_outside: "x < p \<or> p + 4 \<le> x \<Longrightarrow> store32 m p w x = m x"
  by (auto simp: store32_def)

lemma fold_store32_outside:
  "x < a \<or> a + 4 * n \<le> x \<Longrightarrow> fold (\<lambda>i m. store32 m (a + 4 * i) w) [0 ..< n] m x = m x"
  by (induction n) (auto simp: store32_outside)

text \<open>
  The frame lies inside the stack, its words are those the entry needs, and nothing outside it is
  written. The stack pointer ends up between the base and the top of the stack, as the overflow
  check of the scheduler wants it.
\<close>

lemma rt_hw_stack_init_spec:
  assumes run: "rt_hw_stack_init tentry parameter (base + len - 4) texit m = (stk, m')"
    and fits: "unat base + unat len < 2 ^ 32" "76 \<le> unat len"
  shows "unat base < unat stk" "unat stk + 68 \<le> unat base + unat len" "unat base + unat len < unat stk + 76"
    and "load32 m' (unat stk + frame_offset F_r0) = parameter"
    and "load32 m' (unat stk + frame_offset F_lr) = texit"
    and "load32 m' (unat stk + frame_offset F_pc) = tentry"
    and "load32 m' (unat stk + frame_offset F_psr) = 0x01000000"
    and "x < unat stk \<or> unat stk + 68 \<le> x \<Longrightarrow> m' x = m x"
proof -
  let ?top = "unat base + unat len"
  have t: "unat (base + len - 4 + 4) = ?top" using fits(1) by (simp add: unat_word_ariths)
  have al: "unat (RT_ALIGN_DOWN (base + len - 4 + 4) 8) = ?top - ?top mod 8"
    using RT_ALIGN_DOWN_8 [of "base + len - 4 + 4"] unfolding t by (simp add: RT_ALIGN_SIZE_def)
  have s: "stk = RT_ALIGN_DOWN (base + len - 4 + 4) 8 - 68"
    using run by (simp add: rt_hw_stack_init_def Let_def SIZEOF_STACK_FRAME_def)
  have "unat stk = ?top - ?top mod 8 - 68"
    unfolding s using fits al by (subst unat_sub) (simp_all add: word_le_nat_alt)
  moreover have "?top mod 8 < 8" by simp
  ultimately show "unat base < unat stk" "unat stk + 68 \<le> ?top" "?top < unat stk + 76"
    using fits(2) by linarith+
  note M = run [unfolded rt_hw_stack_init_def Let_def SIZEOF_STACK_FRAME_def]
  show "load32 m' (unat stk + frame_offset F_r0) = parameter"
    "load32 m' (unat stk + frame_offset F_lr) = texit"
    "load32 m' (unat stk + frame_offset F_pc) = tentry"
    "load32 m' (unat stk + frame_offset F_psr) = 0x01000000"
    using M by (auto simp: load32_store32 load32_store32_other)
  show "m' x = m x" if "x < unat stk \<or> unat stk + 68 \<le> x"
    using M that fold_store32_outside [of x "unat stk" 17]
    by (auto simp: store32_outside)
qed

end
