(* ===== verification/RT_Thread.thy ===== *)
theory RT_Thread
  imports RT_Timer RT_CpuPort
begin

text \<open>
  The threads of \<open>src/thread.c\<close> and the idle thread's work of \<open>src/idle.c\<close>: initialisation,
  start, suspension and resumption, timeout, yield and sleep, change of priority, exit and deletion.

  The invariant \<open>kernel_inv\<close> ties a thread's state to the list its node is on, its priority mask to
  its priority, and its timer to its being suspended. The lemmas show for every operation that it
  keeps the invariant and how it moves the thread between the lists.

  A function that gives up the processor in the middle (\<open>rt_thread_sleep\<close>) is split at the
  \<open>rt_schedule\<close> call; the second half is the code that runs when the thread is scheduled again.
\<close>

section \<open>Operations\<close>

text \<open>\<open>1L << priority\<close>, which is only defined for shift counts below 32.\<close>

definition prio_mask :: "u8 \<Rightarrow> u32 option" where
  "prio_mask prio = (if unat prio < 32 then Some (push_bit (unat prio) 1) else None)"

text \<open>
  \<open>_rt_thread_init\<close>. The stack is filled with \<open>'#'\<close> and given a first frame; \<open>texit\<close> is the address
  of \<open>rt_thread_exit\<close>. The size of the stack is kept in 16 bits.
\<close>

definition rt_thread_init_fields ::
  "nat \<Rightarrow> u32 \<Rightarrow> u32 \<Rightarrow> u32 \<Rightarrow> u32 \<Rightarrow> u8 \<Rightarrow> u32 \<Rightarrow> u32 \<Rightarrow> kernel \<Rightarrow> kernel option" where
  "rt_thread_init_fields t ent par stack_start size' priority tick texit s = do {
     let s1 = upd_tl (rt_list_init (LElem t)) s;
     let s2 = upd_thread t (\<lambda>th. th\<lparr>entry := ent, param := par, stack_addr := stack_start,
                                    stack_size := ucast size'\<rparr>) s1;
     let th = threads s2 t;
     let m1 = rt_memset (ram s2) (unat (stack_addr th)) 0x23 (unat (stack_size th));
     let (stk, m2) = rt_hw_stack_init (entry th) (param th) (stack_addr th + ucast (stack_size th) - 4) texit m1;
     let s3 = upd_thread t (\<lambda>th. th\<lparr>sp := stk\<rparr>) (s2\<lparr>ram := m2\<rparr>);
     RT_ASSERT (unat priority < RT_THREAD_PRIORITY_MAX);
     let s4 = upd_thread t (\<lambda>th. th\<lparr>init_priority := priority, current_priority := priority,
                 init_tick := tick, remaining_tick := tick, error := RT_EOK, stat := RT_THREAD_INIT,
                 cleanup := None, user_data := 0\<rparr>) s3;
     rt_timer_init (Thread_timer t) (oname (objs s4 (OThread t))) (Rt_thread_timeout t) 0 RT_TIMER_FLAG_ONE_SHOT s4 }"

definition rt_thread_init ::
  "nat \<Rightarrow> u8 list \<Rightarrow> u32 \<Rightarrow> u32 \<Rightarrow> u32 \<Rightarrow> u32 \<Rightarrow> u8 \<Rightarrow> u32 \<Rightarrow> u32 \<Rightarrow> kernel \<Rightarrow> kernel option" where
  "rt_thread_init t name ent par stack_start size' priority tick texit s = do {
     RT_ASSERT (stack_start \<noteq> 0);
     s1 \<leftarrow> rt_object_init (OThread t) RT_Object_Class_Thread name s;
     rt_thread_init_fields t ent par stack_start size' priority tick texit s1 }"

definition rt_thread_create ::
  "u8 list \<Rightarrow> u32 \<Rightarrow> u32 \<Rightarrow> u32 \<Rightarrow> u8 \<Rightarrow> u32 \<Rightarrow> u32 \<Rightarrow> kernel \<Rightarrow> (nat option \<times> kernel) option" where
  "rt_thread_create name ent par size' priority tick texit s = do {
     (r, s1) \<leftarrow> rt_object_allocate RT_Object_Class_Thread name s;
     case r of None \<Rightarrow> Some (None, s1)
     | Some t \<Rightarrow> do {
         (q, s2) \<leftarrow> RT_KERNEL_MALLOC (unat size') s1;
         case q of
           None \<Rightarrow> do { s3 \<leftarrow> rt_object_delete RT_Object_Class_Thread t s2; Some (None, s3) }
         | Some stack_start \<Rightarrow> do {
             s3 \<leftarrow> rt_thread_init_fields t ent par (of_nat stack_start) size' priority tick texit s2;
             Some (Some t, s3) } } }"

definition rt_thread_suspend :: "nat \<Rightarrow> kernel \<Rightarrow> (rt_err_t \<times> kernel) option" where
  "rt_thread_suspend t s =
    (if stat (threads s t) \<noteq> RT_THREAD_READY then Some (- RT_ERROR, s)
     else do {
       let s1 = upd_thread t (\<lambda>th. th\<lparr>stat := RT_THREAD_SUSPEND\<rparr>) s;
       s2 \<leftarrow> rt_schedule_remove_thread t s1;
       let (_, s3) = rt_timer_stop (Thread_timer t) s2;
       Some (RT_EOK, s3) })"

definition rt_thread_resume :: "nat \<Rightarrow> kernel \<Rightarrow> (rt_err_t \<times> kernel) option" where
  "rt_thread_resume t s =
    (if stat (threads s t) \<noteq> RT_THREAD_SUSPEND then Some (- RT_ERROR, s)
     else do {
       let s1 = upd_tl (rt_list_remove (LElem t)) s;
       let (_, s2) = rt_timer_stop (Thread_timer t) s1;
       s3 \<leftarrow> rt_schedule_insert_thread t s2;
       Some (RT_EOK, s3) })"

definition rt_thread_startup :: "nat \<Rightarrow> kernel \<Rightarrow> (rt_err_t \<times> kernel) option" where
  "rt_thread_startup t s = do {
     RT_ASSERT (stat (threads s t) = RT_THREAD_INIT);
     let s1 = upd_thread t (\<lambda>th. th\<lparr>current_priority := init_priority th\<rparr>) s;
     mask' \<leftarrow> prio_mask (current_priority (threads s1 t));
     let s2 = upd_thread t (\<lambda>th. th\<lparr>number_mask := mask'\<rparr>) s1;
     let s3 = upd_thread t (\<lambda>th. th\<lparr>stat := RT_THREAD_SUSPEND\<rparr>) s2;
     (_, s4) \<leftarrow> rt_thread_resume t s3;
     s5 \<leftarrow> (if rt_thread_self s4 \<noteq> None then rt_schedule s4 else Some s4);
     Some (RT_EOK, s5) }"

definition rt_thread_timeout :: "nat \<Rightarrow> kernel \<Rightarrow> kernel option" where
  "rt_thread_timeout t s = do {
     RT_ASSERT (stat (threads s t) = RT_THREAD_SUSPEND);
     let s1 = upd_thread t (\<lambda>th. th\<lparr>error := - RT_ETIMEOUT\<rparr>) s;
     let s2 = upd_tl (rt_list_remove (LElem t)) s1;
     s3 \<leftarrow> rt_schedule_insert_thread t s2;
     rt_schedule s3 }"

text \<open>The current thread goes to the end of its ready list, unless it is the only one there.\<close>

definition rt_thread_yield :: "kernel \<Rightarrow> (rt_err_t \<times> kernel) option" where
  "rt_thread_yield s = do {
     t \<leftarrow> rt_current_thread s;
     if stat (threads s t) = RT_THREAD_READY \<and> lnext (tlinks s) (LElem t) \<noteq> lprev (tlinks s) (LElem t)
     then do {
       let s1 = upd_tl (rt_list_remove (LElem t)) s;
       h \<leftarrow> table_head (current_priority (threads s1 t));
       let s2 = upd_tl (rt_list_insert_before (LHead h) (LElem t)) s1;
       s3 \<leftarrow> rt_schedule s2;
       Some (RT_EOK, s3) }
     else Some (RT_EOK, s) }"

definition rt_thread_sleep :: "u32 \<Rightarrow> kernel \<Rightarrow> kernel option" where
  "rt_thread_sleep tick s = do {
     t \<leftarrow> rt_current_thread s;
     (_, s1) \<leftarrow> rt_thread_suspend t s;
     let (_, s2) = rt_timer_control (Thread_timer t) (RT_TIMER_CTRL_SET_TIME tick) s1;
     s3 \<leftarrow> rt_timer_start (Thread_timer t) s2;
     rt_schedule s3 }"

definition rt_thread_sleep_resumed :: "nat \<Rightarrow> kernel \<Rightarrow> rt_err_t \<times> kernel" where
  "rt_thread_sleep_resumed t s =
    (RT_EOK, if error (threads s t) = - RT_ETIMEOUT then upd_thread t (\<lambda>th. th\<lparr>error := RT_EOK\<rparr>) s else s)"

definition rt_thread_delay :: "u32 \<Rightarrow> kernel \<Rightarrow> kernel option" where
  "rt_thread_delay tick s = rt_thread_sleep tick s"

definition rt_thread_detach :: "nat \<Rightarrow> kernel \<Rightarrow> (rt_err_t \<times> kernel) option" where
  "rt_thread_detach t s = do {
     s1 \<leftarrow> rt_schedule_remove_thread t s;
     let s2 = rt_timer_detach (Thread_timer t) s1;
     let s3 = upd_thread t (\<lambda>th. th\<lparr>stat := RT_THREAD_CLOSE\<rparr>) s2;
     let s4 = rt_object_detach (OThread t) s3;
     Some (RT_EOK, if cleanup (threads s4 t) \<noteq> None
       then upd_tl (rt_list_insert_after (LHead HDefunct) (LElem t)) s4 else s4) }"

definition rt_thread_delete :: "nat \<Rightarrow> kernel \<Rightarrow> (rt_err_t \<times> kernel) option" where
  "rt_thread_delete t s = do {
     s1 \<leftarrow> rt_schedule_remove_thread t s;
     let s2 = rt_timer_detach (Thread_timer t) s1;
     let s3 = upd_thread t (\<lambda>th. th\<lparr>stat := RT_THREAD_CLOSE\<rparr>) s2;
     Some (RT_EOK, upd_tl (rt_list_insert_after (LHead HDefunct) (LElem t)) s3) }"

definition rt_thread_exit :: "kernel \<Rightarrow> kernel option" where
  "rt_thread_exit s = do {
     t \<leftarrow> rt_current_thread s;
     s1 \<leftarrow> rt_schedule_remove_thread t s;
     let s2 = upd_thread t (\<lambda>th. th\<lparr>stat := RT_THREAD_CLOSE\<rparr>) s1;
     let s3 = rt_timer_detach (Thread_timer t) s2;
     let s4 = (if rt_object_is_systemobject (OThread t) s3 \<and> cleanup (threads s3 t) = None
               then rt_object_detach (OThread t) s3
               else upd_tl (rt_list_insert_after (LHead HDefunct) (LElem t)) s3);
     rt_schedule s4 }"

datatype thread_cmd = RT_THREAD_CTRL_STARTUP | RT_THREAD_CTRL_CLOSE | RT_THREAD_CTRL_CHANGE_PRIORITY u8 | RT_THREAD_CTRL_INFO

fun rt_thread_control :: "nat \<Rightarrow> thread_cmd \<Rightarrow> kernel \<Rightarrow> (rt_err_t \<times> kernel) option" where
  "rt_thread_control t (RT_THREAD_CTRL_CHANGE_PRIORITY prio) s =
    (if stat (threads s t) = RT_THREAD_READY
     then do {
       s1 \<leftarrow> rt_schedule_remove_thread t s;
       mask' \<leftarrow> prio_mask prio;
       let s2 = upd_thread t (\<lambda>th. th\<lparr>current_priority := prio, number_mask := mask'\<rparr>) s1;
       s3 \<leftarrow> rt_schedule_insert_thread t s2;
       Some (RT_EOK, s3) }
     else do {
       mask' \<leftarrow> prio_mask prio;
       Some (RT_EOK, upd_thread t (\<lambda>th. th\<lparr>current_priority := prio, number_mask := mask'\<rparr>) s) })"
| "rt_thread_control t RT_THREAD_CTRL_STARTUP s = rt_thread_startup t s"
| "rt_thread_control t RT_THREAD_CTRL_CLOSE s = rt_thread_delete t s"
| "rt_thread_control t RT_THREAD_CTRL_INFO s = Some (RT_EOK, s)"

section \<open>The idle thread\<close>

text \<open>
  \<open>rt_thread_idle_excute\<close> of \<open>src/idle.c\<close>: take threads from the defunct list until it is empty or
  a static thread was met. \<open>cb\<close> is the user's cleanup function.
\<close>

partial_function (option) rt_thread_idle_excute ::
  "(nat \<Rightarrow> nat \<Rightarrow> kernel \<Rightarrow> kernel option) \<Rightarrow> kernel \<Rightarrow> kernel option" where
  "rt_thread_idle_excute cb s =
    (if rt_list_isempty (LHead HDefunct) (tlinks s) then Some s
     else do {
       RT_DEBUG_NOT_IN_INTERRUPT s;
       t \<leftarrow> rt_list_entry (lnext (tlinks s) (LHead HDefunct));
       let s1 = upd_tl (rt_list_remove (LElem t)) s;
       s2 \<leftarrow> (case cleanup (threads s1 t) of None \<Rightarrow> Some s1 | Some f \<Rightarrow> cb f t s1);
       if rt_object_is_systemobject (OThread t) s2 then Some s2
       else do {
         s3 \<leftarrow> RT_KERNEL_FREE (unat (stack_addr (threads s2 t))) s2;
         s4 \<leftarrow> rt_object_delete RT_Object_Class_Thread t s3;
         rt_thread_idle_excute cb s4 } })"

text \<open>The idle thread has number \<open>idle\<close> and the lowest priority.\<close>

definition IDLE_THREAD_STACK_SIZE :: u32 where "IDLE_THREAD_STACK_SIZE = 1024"

definition rt_thread_idle_init :: "nat \<Rightarrow> u32 \<Rightarrow> u32 \<Rightarrow> u32 \<Rightarrow> kernel \<Rightarrow> kernel option" where
  "rt_thread_idle_init idle idle_entry rt_thread_stack texit s = do {
     s1 \<leftarrow> rt_thread_init idle (map (of_nat \<circ> of_char) ''tidle'' @ [0]) idle_entry 0 rt_thread_stack IDLE_THREAD_STACK_SIZE
             (of_nat (RT_THREAD_PRIORITY_MAX - 1)) 32 texit s;
     (_, s2) \<leftarrow> rt_thread_startup idle s1;
     Some s2 }"

section \<open>The invariant\<close>

text \<open>What holds of every thread that was started: its stack pointer and its timer are set up.\<close>

definition oneshot :: "kernel \<Rightarrow> nat \<Rightarrow> bool" where
  "oneshot s t \<longleftrightarrow> oflag (objs s (OTimer (Thread_timer t))) AND RT_TIMER_FLAG_PERIODIC = 0"

definition started_ok :: "kernel \<Rightarrow> nat \<Rightarrow> bool" where
  "started_ok s t \<longleftrightarrow> stack_ok (threads s t) \<and> timeout_func (timers s (Thread_timer t)) = Rt_thread_timeout t
     \<and> oneshot s t"

definition kernel_inv :: "kernel \<Rightarrow> (thead \<Rightarrow> nat list) \<Rightarrow> timer_id list \<Rightarrow> bool" where
  "kernel_inv s L T \<longleftrightarrow> sched_inv s L \<and> tmr_inv s T
     \<and> (\<forall>t. stat (threads s t) \<in> {RT_THREAD_READY, RT_THREAD_SUSPEND} \<longrightarrow> started_ok s t)
     \<and> (\<forall>t. Thread_timer t \<in> set T \<longrightarrow> stat (threads s t) = RT_THREAD_SUSPEND)"

lemma kernel_invD:
  assumes "kernel_inv s L T"
  shows "sched_inv s L" "tmr_inv s T" "ready_ok s L" "lists_rep (tlinks s) L"
    and "stat (threads s t) \<in> {RT_THREAD_READY, RT_THREAD_SUSPEND} \<Longrightarrow> started_ok s t"
    and "Thread_timer t \<in> set T \<Longrightarrow> stat (threads s t) = RT_THREAD_SUSPEND"
    and "Thread_timer t \<in> set T \<Longrightarrow> timeout_func (timers s (Thread_timer t)) = Rt_thread_timeout t"
    and "distinct (L h)" "stat (threads s t) = RT_THREAD_SUSPEND \<Longrightarrow> t \<notin> set (L (HPrio p))"
proof -
  have I: "sched_inv s L" using assms by (simp add: kernel_inv_def)
  show "sched_inv s L" "tmr_inv s T" "ready_ok s L" "lists_rep (tlinks s) L"
    using assms sched_invD(1,2) [OF I] by (auto simp: kernel_inv_def)
  then show "distinct (L h)" using lists_rep_distinct [of "tlinks s" L h] by simp
  show "stat (threads s t) = RT_THREAD_SUSPEND \<Longrightarrow> t \<notin> set (L (HPrio p))"
    using sched_invD(3) [OF I, of t] by auto
qed (use assms in \<open>auto simp: kernel_inv_def started_ok_def\<close>)

text \<open>Lists after a thread's node was unlinked, and after it was put at the end of a ready list.\<close>

definition unlink :: "nat \<Rightarrow> (thead \<Rightarrow> nat list) \<Rightarrow> thead \<Rightarrow> nat list" where
  "unlink t L = (\<lambda>h. remove1 t (L h))"

definition make_ready :: "nat \<Rightarrow> nat \<Rightarrow> (thead \<Rightarrow> nat list) \<Rightarrow> thead \<Rightarrow> nat list" where
  "make_ready t p L = (unlink t L)(HPrio p := unlink t L (HPrio p) @ [t])"

lemma unlink_set: "distinct (L h) \<Longrightarrow> set (unlink t L h) = set (L h) - {t}"
  by (simp add: unlink_def)

lemma unlink_off: "t \<notin> set (L h) \<Longrightarrow> unlink t L h = L h"
  by (simp add: unlink_def remove1_idem)

lemma make_ready_set:
  "distinct (L h) \<Longrightarrow> u \<in> set (make_ready t p L h) \<longleftrightarrow> u \<in> set (L h) \<and> u \<noteq> t \<or> h = HPrio p \<and> u = t"
  by (auto simp: make_ready_def unlink_def)

lemma unlink_other: "lists_rep k L \<Longrightarrow> t \<in> set (L h) \<Longrightarrow> h' \<noteq> h \<Longrightarrow> unlink t L h' = L h'"
  using lists_rep_disjoint [of k L t h h'] by (intro unlink_off) auto

text \<open>What the operations on threads may change; every other component of the kernel is kept.\<close>

definition thread_frame :: "kernel \<Rightarrow> kernel \<Rightarrow> bool" where
  "thread_frame s s' \<longleftrightarrow> sems s' = sems s \<and> mutexes s' = mutexes s \<and> events s' = events s
     \<and> mailboxes s' = mailboxes s \<and> mqs s' = mqs s \<and> mps s' = mps s \<and> completions s' = completions s
     \<and> dqueues s' = dqueues s \<and> devices s' = devices s \<and> pipes s' = pipes s \<and> portals s' = portals s \<and> olinks s' = olinks s
     \<and> rt_scheduler_lock_nest s' = rt_scheduler_lock_nest s \<and> rt_interrupt_nest s' = rt_interrupt_nest s
     \<and> rt_tick s' = rt_tick s \<and> errno s' = errno s \<and> kheap s' = kheap s \<and> ram s' = ram s
     \<and> object_size s' = object_size s \<and> mp_words s' = mp_words s
     \<and> (\<forall>ob. (\<forall>x. ob \<noteq> OTimer x) \<longrightarrow> objs s' ob = objs s ob)"

lemma thread_frameD:
  assumes "thread_frame s s'"
  shows "sems s' = sems s" "mutexes s' = mutexes s" "events s' = events s" "mailboxes s' = mailboxes s"
    "mqs s' = mqs s" "olinks s' = olinks s" "rt_scheduler_lock_nest s' = rt_scheduler_lock_nest s"
    "rt_interrupt_nest s' = rt_interrupt_nest s" "rt_tick s' = rt_tick s"
    "(\<And>x. ob \<noteq> OTimer x) \<Longrightarrow> objs s' ob = objs s ob" "kheap s' = kheap s" "ram s' = ram s"
    "mps s' = mps s" "completions s' = completions s" "dqueues s' = dqueues s" "devices s' = devices s" "pipes s' = pipes s"
    "portals s' = portals s" "mp_words s' = mp_words s"
  using assms by (simp_all add: thread_frame_def)

lemma thread_frame_refl [simp]: "thread_frame s s"
  by (simp add: thread_frame_def)

lemma thread_frame_trans: "thread_frame s s' \<Longrightarrow> thread_frame s' s'' \<Longrightarrow> thread_frame s s''"
  by (simp add: thread_frame_def)

lemma thread_frame_intros:
  "s' = s\<lparr>tmlinks := a, objs := b\<rparr> \<Longrightarrow> (\<And>x. x \<noteq> OTimer i \<Longrightarrow> objs s' x = objs s x) \<Longrightarrow> thread_frame s s'"
  "s' = s\<lparr>tlinks := c, rt_thread_ready_priority_group := d\<rparr> \<Longrightarrow> thread_frame s s'"
  "s' = s\<lparr>tlinks := c, threads := e, rt_thread_ready_priority_group := d\<rparr> \<Longrightarrow> thread_frame s s'"
  "s' = s\<lparr>rt_current_priority := g, rt_current_thread := k\<rparr> \<Longrightarrow> thread_frame s s'"
  "thread_frame s (upd_thread t f s)" "thread_frame s (upd_tl l s)" "thread_frame s (upd_timer i j s)"
  by (simp_all add: thread_frame_def upd_defs)

section \<open>Suspending and resuming\<close>

lemma oneshot_objs: "objs s' = objs s \<Longrightarrow> oneshot s' = oneshot s"
  by (simp add: oneshot_def [abs_def])

lemma oneshot_stop: "rt_timer_stop t s = (r, s') \<Longrightarrow> oneshot s' = oneshot s"
  using rt_timer_stop_flags [of t s r s' RT_TIMER_FLAG_PERIODIC]
  by (auto simp: oneshot_def [abs_def] timer_flag_defs)

lemma tmr_inv_cong:
  assumes "tmlinks s' = tmlinks s" "timers s' = timers s" "rt_tick s' = rt_tick s"
    "\<And>t. oflag (objs s' (OTimer t)) = oflag (objs s (OTimer t))"
  shows "tmr_inv s' T = tmr_inv s T"
  by (simp add: tmr_inv_def tdist_def [abs_def] activated_def assms)

lemma ready_ok_upd_thread:
  assumes "current_priority (f (threads s t)) = current_priority (threads s t)"
    "number_mask (f (threads s t)) = number_mask (threads s t)"
  shows "ready_ok (upd_thread t f s) L = ready_ok s L"
proof -
  have "prio_ok (threads (upd_thread t f s) u) = prio_ok (threads s u)"
    "current_priority (threads (upd_thread t f s) u) = current_priority (threads s u)" for u
    using assms by (auto simp: upd_thread_def prio_ok_def)
  then show ?thesis by (simp add: ready_ok_def upd_thread_def)
qed

lemma ready_ok_unlink:
  assumes R: "ready_ok s L" and off: "\<And>p. t \<notin> set (L (HPrio p))"
  shows "ready_ok (upd_tl (rt_list_remove (LElem t)) s) (unlink t L)"
proof -
  have "unlink t L (HPrio p) = L (HPrio p)" for p using off by (rule unlink_off)
  moreover have "lists_rep (rt_list_remove (LElem t) (tlinks s)) (unlink t L)"
    unfolding unlink_def by (rule tq.rep_unlink [OF ready_okD(1) [OF R]])
  ultimately show ?thesis using R by (simp add: ready_ok_def upd_tl_def)
qed

lemma rt_thread_suspend_spec:
  assumes K: "kernel_inv s L T" and st: "stat (threads s t) = RT_THREAD_READY"
  shows "\<exists>s'. rt_thread_suspend t s = Some (RT_EOK, s') \<and> kernel_inv s' (unlink t L) T
     \<and> thread_frame s s' \<and> threads s' = (threads s)(t := (threads s t)\<lparr>stat := RT_THREAD_SUSPEND\<rparr>)
     \<and> timers s' = timers s \<and> rt_current_thread s' = rt_current_thread s"
proof -
  note I = kernel_invD [OF K]
  let ?s1 = "upd_thread t (\<lambda>th. th\<lparr>stat := RT_THREAD_SUSPEND\<rparr>) s"
  have pk: "prio_ok (threads s t)" by (rule sched_inv_ready_prio(1) [OF I(1) st])
  have R1: "ready_ok ?s1 L" using I(3) ready_ok_upd_thread by simp
  have "prio_ok (threads ?s1 t)" using pk by (simp add: upd_thread_def prio_ok_def)
  from rt_schedule_remove_thread_spec [OF R1 this] obtain s2 where
    s2: "rt_schedule_remove_thread t ?s1 = Some s2" "ready_ok s2 (unlink t L)"
    "s2 = ?s1\<lparr>tlinks := tlinks s2, rt_thread_ready_priority_group := rt_thread_ready_priority_group s2\<rparr>"
    unfolding unlink_def by blast
  have F2: "tmlinks s2 = tmlinks s" "timers s2 = timers s" "rt_tick s2 = rt_tick s" "objs s2 = objs s"
    "threads s2 = (threads s)(t := (threads s t)\<lparr>stat := RT_THREAD_SUSPEND\<rparr>)"
    by (subst s2(3), simp add: upd_thread_def)+
  have "tmr_inv s2 T" using I(2) tmr_inv_cong [of s2 s T] F2 by simp
  obtain r s3 where s3: "rt_timer_stop (Thread_timer t) s2 = (r, s3)" by (cases "rt_timer_stop (Thread_timer t) s2")
  have nT: "Thread_timer t \<notin> set T" using I(6) [of t] st by auto
  note st3 = rt_timer_stop_spec(1,4,5) [OF \<open>tmr_inv s2 T\<close> s3]
  have F3: "tlinks s3 = tlinks s2" "threads s3 = threads s2" "timers s3 = timers s2"
    "rt_thread_ready_priority_group s3 = rt_thread_ready_priority_group s2"
    by (subst st3(2), simp)+
  have "ready_ok s3 (unlink t L)" using s2(2) ready_ok_cong(1) [of s3 s2] F3 by simp
  moreover have "(stat (threads s3 u) = RT_THREAD_READY) = (\<exists>p. u \<in> set (unlink t L (HPrio p)))" for u
    using sched_invD(3) [OF I(1), of u] unlink_set [of L, OF I(8)] by (auto simp: F3 F2)
  moreover have "stat (threads s3 u) = RT_THREAD_SUSPEND \<Longrightarrow> prio_ok (threads s3 u)" for u
    using sched_invD(4) [OF I(1), of u] pk by (auto simp: F3 F2 prio_ok_def split: if_splits)
  ultimately have "sched_inv s3 (unlink t L)" by (simp add: sched_inv_def)
  moreover have "tmr_inv s3 T" using st3(1) nT by (simp add: remove1_idem)
  moreover have "started_ok s3 u" if "stat (threads s3 u) \<in> {RT_THREAD_READY, RT_THREAD_SUSPEND}" for u
    using that I(5) [of u] st oneshot_stop [OF s3] oneshot_objs [OF F2(4)] by (auto simp: F3 F2 started_ok_def stack_ok_def split: if_splits)
  ultimately have "kernel_inv s3 (unlink t L) T"
    using I(6,7) unfolding kernel_inv_def by (auto simp: F3 F2)
  moreover have "thread_frame s s3"
    by (rule thread_frame_trans [OF thread_frame_trans [OF thread_frame_intros(5)
          thread_frame_intros(2) [OF s2(3)]] thread_frame_intros(1) [OF st3(2) st3(3)]])
  moreover have "rt_current_thread s3 = rt_current_thread s"
    by (subst st3(2), subst s2(3)) (simp add: upd_thread_def)
  moreover have "rt_thread_suspend t s = Some (RT_EOK, s3)"
    using st s2(1) s3 by (simp add: rt_thread_suspend_def Let_def)
  ultimately show ?thesis by (auto simp: F3 F2)
qed

lemma rt_thread_suspend_error:
  "stat (threads s t) \<noteq> RT_THREAD_READY \<Longrightarrow> rt_thread_suspend t s = Some (- RT_ERROR, s)"
  by (simp add: rt_thread_suspend_def)

text \<open>
  The common end of resuming and of a timeout: the node was taken off its list, the timer stopped,
  and the thread goes to the end of the ready list of its priority.
\<close>

lemma insert_ready:
  assumes S: "sched_inv s0 L" and R: "ready_ok s1 (unlink t L)" and T: "tmr_inv s1 T'"
    and st: "stat (threads s0 t) = RT_THREAD_SUSPEND"
    and th: "\<And>u. u \<noteq> t \<Longrightarrow> threads s1 u = threads s0 u" "prio_ok (threads s1 t)" "started_ok s1 t"
      "current_priority (threads s1 t) = current_priority (threads s0 t)"
    and stk: "\<And>u. stat (threads s0 u) \<in> {RT_THREAD_READY, RT_THREAD_SUSPEND} \<Longrightarrow> started_ok s0 u"
    and tms: "timers s1 = timers s0" "oneshot s1 = oneshot s0"
    and tm: "\<And>u. Thread_timer u \<in> set T' \<Longrightarrow> u \<noteq> t \<and> stat (threads s0 u) = RT_THREAD_SUSPEND"
  shows "\<exists>s'. rt_schedule_insert_thread t s1 = Some s'
     \<and> kernel_inv s' (make_ready t (unat (current_priority (threads s0 t))) L) T'
     \<and> threads s' = (threads s1)(t := (threads s1 t)\<lparr>stat := RT_THREAD_READY\<rparr>) \<and> timers s' = timers s1
     \<and> thread_frame s1 s' \<and> rt_current_thread s' = rt_current_thread s1 \<and> objs s' = objs s1"
proof -
  let ?p = "unat (current_priority (threads s0 t))"
  have d: "distinct (L h)" for h by (rule lists_rep_distinct [OF sched_invD(2) [OF S]])
  have off: "\<forall>h. t \<notin> set (unlink t L h)" using unlink_set [OF d] by simp
  from rt_schedule_insert_thread_spec [OF R off th(2)] obtain s' where
    s': "rt_schedule_insert_thread t s1 = Some s'" "ready_ok s' (make_ready t ?p L)"
    "s' = s1\<lparr>tlinks := tlinks s', threads := (threads s1)(t := (threads s1 t)\<lparr>stat := RT_THREAD_READY\<rparr>),
              rt_thread_ready_priority_group := rt_thread_ready_priority_group s'\<rparr>"
    unfolding make_ready_def th(4) by blast
  have F: "threads s' = (threads s1)(t := (threads s1 t)\<lparr>stat := RT_THREAD_READY\<rparr>)" "timers s' = timers s1"
    "tmlinks s' = tmlinks s1" "rt_tick s' = rt_tick s1" "objs s' = objs s1" "rt_current_thread s' = rt_current_thread s1"
    by (subst s'(3), simp)+
  have os: "oneshot s' = oneshot s0" using oneshot_objs [OF F(5)] tms(2) by simp
  have "(stat (threads s' u) = RT_THREAD_READY) = (\<exists>p. u \<in> set (make_ready t ?p L (HPrio p)))" for u
    using sched_invD(3) [OF S, of u] st th(1) [of u]
    by (cases "u = t") (auto simp: F make_ready_set [of L, OF d])
  moreover have "stat (threads s' u) = RT_THREAD_SUSPEND \<Longrightarrow> prio_ok (threads s' u)" for u
    using sched_invD(4) [OF S, of u] th(1) [of u] by (auto simp: F split: if_splits)
  ultimately have "sched_inv s' (make_ready t ?p L)" using s'(2) by (simp add: sched_inv_def)
  moreover have "tmr_inv s' T'" using T tmr_inv_cong [of s' s1 T'] F by simp
  moreover have "started_ok s' u" if "stat (threads s' u) \<in> {RT_THREAD_READY, RT_THREAD_SUSPEND}" for u
    using that stk [of u] th(1) [of u] th(3) tms os by (cases "u = t") (auto simp: F started_ok_def stack_ok_def)
  ultimately have "kernel_inv s' (make_ready t ?p L) T'"
    using tm th(1) unfolding kernel_inv_def by (auto simp: F)
  moreover have "thread_frame s1 s'" by (rule thread_frame_intros(3) [OF s'(3)])
  ultimately show ?thesis using s'(1) F by auto
qed

lemma rt_thread_resume_spec:
  assumes K: "kernel_inv s L T" and st: "stat (threads s t) = RT_THREAD_SUSPEND"
  shows "\<exists>s'. rt_thread_resume t s = Some (RT_EOK, s')
     \<and> kernel_inv s' (make_ready t (unat (current_priority (threads s t))) L) (remove1 (Thread_timer t) T)
     \<and> thread_frame s s' \<and> threads s' = (threads s)(t := (threads s t)\<lparr>stat := RT_THREAD_READY\<rparr>)
     \<and> timers s' = timers s \<and> rt_current_thread s' = rt_current_thread s \<and> oneshot s' = oneshot s"
proof -
  note I = kernel_invD [OF K]
  let ?s1 = "upd_tl (rt_list_remove (LElem t)) s"
  have R1: "ready_ok ?s1 (unlink t L)" by (rule ready_ok_unlink [OF I(3) I(9) [OF st]])
  have T1: "tmr_inv ?s1 T" using I(2) tmr_inv_cong [of ?s1 s T] by (simp add: upd_tl_def)
  obtain r s2 where s2: "rt_timer_stop (Thread_timer t) ?s1 = (r, s2)" by (cases "rt_timer_stop (Thread_timer t) ?s1")
  note st2 = rt_timer_stop_spec(1,4,5) [OF T1 s2]
  have F2: "tlinks s2 = tlinks ?s1" "threads s2 = threads s" "timers s2 = timers s"
    "rt_thread_ready_priority_group s2 = rt_thread_ready_priority_group ?s1"
    "rt_current_thread s2 = rt_current_thread s"
    by (subst st2(2), simp add: upd_tl_def)+
  have os: "oneshot s2 = oneshot s" using oneshot_stop [OF s2] oneshot_objs [of ?s1 s] by (simp add: upd_tl_def)
  have R2: "ready_ok s2 (unlink t L)" using R1 ready_ok_cong(1) [of s2 ?s1] F2 by (simp add: upd_tl_def)
  have "\<exists>s'. rt_schedule_insert_thread t s2 = Some s'
     \<and> kernel_inv s' (make_ready t (unat (current_priority (threads s t))) L) (remove1 (Thread_timer t) T)
     \<and> threads s' = (threads s2)(t := (threads s2 t)\<lparr>stat := RT_THREAD_READY\<rparr>) \<and> timers s' = timers s2
     \<and> thread_frame s2 s' \<and> rt_current_thread s' = rt_current_thread s2 \<and> objs s' = objs s2"
    using tmr_invD(5) [OF I(2)] I(5-7) sched_invD(4) [OF I(1) st] st os
    by (intro insert_ready [OF I(1) R2 st2(1) st]) (auto simp: F2 started_ok_def)
  moreover have "thread_frame s s2" 
    by (rule thread_frame_trans [OF thread_frame_intros(6) thread_frame_intros(1) [OF st2(2) st2(3)]])
  ultimately show ?thesis
    using st s2 thread_frame_trans oneshot_objs [of _ s2] os by (fastforce simp: rt_thread_resume_def Let_def F2)
qed

section \<open>Rescheduling\<close>

lemma kernel_inv_cong:
  assumes "tlinks s' = tlinks s" "threads s' = threads s"
    "rt_thread_ready_priority_group s' = rt_thread_ready_priority_group s"
    "tmlinks s' = tmlinks s" "timers s' = timers s" "rt_tick s' = rt_tick s" "objs s' = objs s"
  shows "kernel_inv s' L T = kernel_inv s L T"
  using ready_ok_cong(2) [OF assms(1-3)] tmr_inv_cong [OF assms(4-6)] assms
  by (simp add: kernel_inv_def started_ok_def oneshot_def)

lemma highest_stack_ok:
  assumes K: "kernel_inv s L T" and h: "highest L p"
  shows "stack_ok (threads s (hd (L (HPrio p))))"
proof -
  have "hd (L (HPrio p)) \<in> set (L (HPrio p))" using h by (simp add: highest_def)
  then show ?thesis using sched_invD(3) [OF kernel_invD(1) [OF K]] kernel_invD(5) [OF K]
    by (auto simp: started_ok_def)
qed

text \<open>
  With a thread running and some thread ready, \<open>rt_schedule\<close> always returns; with the scheduler
  unlocked it leaves the first thread of the highest ready priority current.
\<close>

lemma rt_schedule_total:
  assumes K: "kernel_inv s L T" and ne: "L (HPrio q) \<noteq> []" and c: "rt_current_thread s \<noteq> None"
  shows "\<exists>s'. rt_schedule s = Some s' \<and> kernel_inv s' L T \<and> thread_frame s s'
     \<and> threads s' = threads s \<and> timers s' = timers s \<and> rt_current_thread s' \<noteq> None
     \<and> (rt_scheduler_lock_nest s = 0 \<longrightarrow> (\<exists>p. highest L p \<and> rt_current_thread s' = Some (hd (L (HPrio p)))))
     \<and> (rt_scheduler_lock_nest s \<noteq> 0 \<longrightarrow> s' = s)"
proof (cases "rt_scheduler_lock_nest s = 0")
  case False
  then show ?thesis using K c by (simp add: rt_schedule_locked)
next
  case True
  obtain p where p: "highest L p" using highest_exists [OF kernel_invD(3) [OF K] ne] by blast
  obtain c' where c': "rt_current_thread s = Some c'" using c by auto
  define s' where "s' = (if hd (L (HPrio p)) = c' then s
     else s\<lparr>rt_current_priority := of_nat p, rt_current_thread := Some (hd (L (HPrio p)))\<rparr>)"
  have r: "rt_schedule s = Some s'"
    unfolding s'_def by (rule rt_schedule_unlocked [OF kernel_invD(3) [OF K] p True c' highest_stack_ok [OF K p]])
  note F = rt_schedule_frame_fields [OF r]
  have "kernel_inv s' L T" using K kernel_inv_cong [of s' s L T] F by simp
  moreover have "thread_frame s s'" by (rule thread_frame_intros(4) [OF rt_schedule_frame [OF r]])
  moreover have "rt_current_thread s' = Some (hd (L (HPrio p)))" using c' by (simp add: s'_def)
  ultimately show ?thesis using r F p True by auto
qed

section \<open>Yielding\<close>

lemma sole_node:
  assumes R: "lists_rep k L" and t: "t \<in> set (L h)"
  shows "(lnext k (LElem t) = lprev k (LElem t)) = (L h = [t])"
proof -
  obtain us vs where L: "L h = us @ t # vs" using t by (meson split_list)
  have n: "lnext k (LElem t) = (if vs = [] then LHead h else LElem (hd vs))"
    by (rule lists_rep_next_elem [OF R L])
  have p: "lprev k (LElem t) = (if us = [] then LHead h else LElem (last us))"
    by (rule lists_rep_prev_elem [OF R L])
  have "distinct (L h)" by (rule lists_rep_distinct [OF R])
  then have "us \<noteq> [] \<Longrightarrow> vs \<noteq> [] \<Longrightarrow> hd vs \<noteq> last us"
    using L by (metis disjoint_iff distinct_append hd_in_set last_in_set list.set_intros(2))
  then show ?thesis using n p L by (auto simp: Cons_eq_append_conv append_eq_Cons_conv)
qed

definition rotated :: "nat \<Rightarrow> thead \<Rightarrow> (thead \<Rightarrow> nat list) \<Rightarrow> thead \<Rightarrow> nat list" where
  "rotated t h L = L(h := remove1 t (L h) @ [t])"

text \<open>Round robin: the current thread goes behind the others of its priority, and the next one runs.\<close>

lemma rt_thread_yield_spec:
  assumes K: "kernel_inv s L T" and c: "rt_current_thread s = Some t" and st: "stat (threads s t) = RT_THREAD_READY"
  defines "h \<equiv> HPrio (unat (current_priority (threads s t)))"
  shows "\<exists>s'. rt_thread_yield s = Some (RT_EOK, s') \<and> kernel_inv s' (rotated t h L) T \<and> thread_frame s s'
     \<and> threads s' = threads s \<and> timers s' = timers s \<and> rt_current_thread s' \<noteq> None
     \<and> (L h = [t] \<longrightarrow> s' = s)
     \<and> (L h \<noteq> [t] \<and> rt_scheduler_lock_nest s = 0 \<longrightarrow>
          (\<exists>p. highest (rotated t h L) p \<and> rt_current_thread s' = Some (hd (rotated t h L (HPrio p)))))"
proof -
  note I = kernel_invD [OF K]
  have pk: "prio_ok (threads s t)" and tin: "t \<in> set (L h)"
    using sched_inv_ready_prio [OF I(1) st] by (auto simp: h_def)
  note sole = sole_node [OF I(4) tin]
  show ?thesis
  proof (cases "L h = [t]")
    case True
    then have "rotated t h L = L" by (auto simp: rotated_def)
    then show ?thesis using True K c sole by (simp add: rt_thread_yield_def)
  next
    case False
    let ?s2 = "upd_tl (rt_list_insert_before (LHead h) (LElem t)) (upd_tl (rt_list_remove (LElem t)) s)"
    have "(\<lambda>g. remove1 t (L g))(h := remove1 t (L h) @ [t]) = rotated t h L"
      using unlink_other [OF I(4) tin] by (auto simp: rotated_def unlink_def fun_eq_iff)
    then have rep: "lists_rep (tlinks ?s2) (rotated t h L)"
      using tq.rep_move_back [OF I(4), where e = t and h = h] by (simp add: upd_tl_def)
    have sets: "set (rotated t h L g) = set (L g)" "(rotated t h L g = []) = (L g = [])" for g
      using tin I(8) by (auto simp: rotated_def)
    have "ready_ok ?s2 (rotated t h L)"
      using I(3) rep unfolding ready_ok_def sets by (simp add: upd_tl_def)
    moreover have "sched_inv ?s2 (rotated t h L) = (ready_ok ?s2 (rotated t h L) \<and> sched_inv s L)"
      using I(3) by (auto simp: sched_inv_def sets upd_tl_def)
    ultimately have "sched_inv ?s2 (rotated t h L)" using I(1) by simp
    moreover have "tmr_inv ?s2 T" using I(2) tmr_inv_cong [of ?s2 s T] by (simp add: upd_tl_def)
    ultimately have K2: "kernel_inv ?s2 (rotated t h L) T"
      using K unfolding kernel_inv_def started_ok_def oneshot_def by (simp add: upd_tl_def)
    have ne: "rotated t h L (HPrio (unat (current_priority (threads s t)))) \<noteq> []"
      by (simp add: rotated_def h_def)
    have "rt_current_thread ?s2 \<noteq> None" using c by (simp add: upd_tl_def)
    from rt_schedule_total [OF K2 ne this]
    obtain s' where s': "rt_schedule ?s2 = Some s'" "kernel_inv s' (rotated t h L) T" "thread_frame ?s2 s'"
      "threads s' = threads s" "timers s' = timers s" "rt_current_thread s' \<noteq> None"
      "rt_scheduler_lock_nest s = 0 \<longrightarrow> (\<exists>p. highest (rotated t h L) p
         \<and> rt_current_thread s' = Some (hd (rotated t h L (HPrio p))))"
      by (auto simp: upd_tl_def)
    have "table_head (current_priority (threads s t)) = Some h"
      using pk by (simp add: table_head_Some prio_ok_def h_def)
    then have "rt_thread_yield s = Some (RT_EOK, s')"
      using c st sole False s'(1) by (simp add: rt_thread_yield_def Let_def upd_tl_def)
    moreover have "thread_frame s s'"
      by (rule thread_frame_trans [OF thread_frame_trans [OF thread_frame_intros(6) thread_frame_intros(6)] s'(3)])
    ultimately show ?thesis using s' False by auto
  qed
qed

section \<open>Timeout\<close>

lemma rt_thread_timeout_spec:
  assumes K: "kernel_inv s L T" and st: "stat (threads s t) = RT_THREAD_SUSPEND"
    and nT: "Thread_timer t \<notin> set T" and c: "rt_current_thread s \<noteq> None"
  defines "L' \<equiv> make_ready t (unat (current_priority (threads s t))) L"
  shows "\<exists>s'. rt_thread_timeout t s = Some s' \<and> kernel_inv s' L' T \<and> thread_frame s s'
     \<and> threads s' = (threads s)(t := (threads s t)\<lparr>error := - RT_ETIMEOUT, stat := RT_THREAD_READY\<rparr>)
     \<and> timers s' = timers s \<and> rt_current_thread s' \<noteq> None
     \<and> (rt_scheduler_lock_nest s = 0 \<longrightarrow> (\<exists>p. highest L' p \<and> rt_current_thread s' = Some (hd (L' (HPrio p)))))"
proof -
  note I = kernel_invD [OF K]
  let ?s1 = "upd_thread t (\<lambda>th. th\<lparr>error := - RT_ETIMEOUT\<rparr>) s"
  let ?s2 = "upd_tl (rt_list_remove (LElem t)) ?s1"
  have "ready_ok ?s1 L" using I(3) ready_ok_upd_thread by simp
  then have R2: "ready_ok ?s2 (unlink t L)" by (rule ready_ok_unlink) (rule I(9) [OF st])
  have T2: "tmr_inv ?s2 T" using I(2) tmr_inv_cong [of ?s2 s T] by (simp add: upd_defs)
  have pk: "prio_ok (threads s t)" "started_ok s t" using sched_invD(4) [OF I(1) st] I(5) st by auto
  have "\<exists>s3. rt_schedule_insert_thread t ?s2 = Some s3 \<and> kernel_inv s3 L' T
     \<and> threads s3 = (threads ?s2)(t := (threads ?s2 t)\<lparr>stat := RT_THREAD_READY\<rparr>) \<and> timers s3 = timers ?s2
     \<and> thread_frame ?s2 s3 \<and> rt_current_thread s3 = rt_current_thread ?s2 \<and> objs s3 = objs ?s2"
    unfolding L'_def using pk nT I(5-7) st
    by (intro insert_ready [OF I(1) R2 T2 st]) (auto simp: upd_defs prio_ok_def stack_ok_def started_ok_def oneshot_def)
  then obtain s3 where s3: "rt_schedule_insert_thread t ?s2 = Some s3" "kernel_inv s3 L' T"
    "threads s3 = (threads s)(t := (threads s t)\<lparr>error := - RT_ETIMEOUT, stat := RT_THREAD_READY\<rparr>)"
    "timers s3 = timers s" "thread_frame ?s2 s3" "rt_current_thread s3 = rt_current_thread s"
    by (auto simp: upd_defs)
  have fr: "thread_frame s s3"
    by (rule thread_frame_trans [OF thread_frame_trans [OF thread_frame_intros(5) thread_frame_intros(6)] s3(5)])
  have ne: "L' (HPrio (unat (current_priority (threads s t)))) \<noteq> []" by (simp add: L'_def make_ready_def)
  have c3: "rt_current_thread s3 \<noteq> None" using c s3(6) by simp
  from rt_schedule_total [OF s3(2) ne c3] show ?thesis
    using s3 st fr thread_frame_trans [OF fr] thread_frameD(7) [OF fr]
    by (auto simp: rt_thread_timeout_def Let_def upd_thread_def)
qed

section \<open>Starting, sleeping and changing priority\<close>

lemma ready_ok_upd_off:
  assumes "\<And>p. t \<notin> set (L (HPrio p))"
  shows "ready_ok (upd_thread t f s) L = ready_ok s L"
proof -
  have "threads (upd_thread t f s) u = threads s u" if "u \<in> set (L (HPrio p))" for u p
    using assms that by (auto simp: upd_thread_def)
  then show ?thesis by (auto simp: ready_ok_def upd_thread_def)
qed

lemma prio_mask_Some: "unat prio < RT_THREAD_PRIORITY_MAX \<Longrightarrow> prio_mask prio = Some (2 ^ unat prio)"
  by (simp add: prio_mask_def RT_THREAD_PRIORITY_MAX_def push_bit_eq_mult)

lemma rt_thread_startup_spec:
  assumes K: "kernel_inv s L T" and st: "stat (threads s t) = RT_THREAD_INIT"
    and pr: "unat (init_priority (threads s t)) < RT_THREAD_PRIORITY_MAX" and ok: "started_ok s t"
  defines "L' \<equiv> make_ready t (unat (init_priority (threads s t))) L"
  shows "\<exists>s'. rt_thread_startup t s = Some (RT_EOK, s') \<and> kernel_inv s' L' T \<and> thread_frame s s'
     \<and> stat (threads s' t) = RT_THREAD_READY \<and> (\<forall>u. u \<noteq> t \<longrightarrow> threads s' u = threads s u)
     \<and> timers s' = timers s \<and> oneshot s' = oneshot s
     \<and> (rt_current_thread s = None \<longrightarrow> rt_current_thread s' = None)
     \<and> (rt_current_thread s \<noteq> None \<and> rt_scheduler_lock_nest s = 0 \<longrightarrow>
          (\<exists>p. highest L' p \<and> rt_current_thread s' = Some (hd (L' (HPrio p)))))"
proof -
  note I = kernel_invD [OF K]
  let ?p = "init_priority (threads s t)"
  define s3 where "s3 = upd_thread t (\<lambda>th. th\<lparr>current_priority := ?p, number_mask := 2 ^ unat ?p,
     stat := RT_THREAD_SUSPEND\<rparr>) s"
  have off: "t \<notin> set (L (HPrio p))" for p using sched_invD(3) [OF I(1), of t] st by auto
  have nT: "Thread_timer t \<notin> set T" using I(6) [of t] st by auto
  have "ready_ok s3 L" using I(3) ready_ok_upd_off [of t L, OF off] by (simp add: s3_def)
  moreover have "(stat (threads s3 u) = RT_THREAD_READY) = (\<exists>p. u \<in> set (L (HPrio p)))" for u
    using sched_invD(3) [OF I(1), of u] off by (auto simp: s3_def upd_thread_def)
  moreover have "stat (threads s3 u) = RT_THREAD_SUSPEND \<Longrightarrow> prio_ok (threads s3 u)" for u
    using sched_invD(4) [OF I(1), of u] pr by (auto simp: s3_def upd_thread_def prio_ok_def)
  ultimately have "sched_inv s3 L" by (simp add: sched_inv_def)
  moreover have "tmr_inv s3 T" using I(2) tmr_inv_cong [of s3 s T] by (simp add: s3_def upd_thread_def)
  ultimately have K3: "kernel_inv s3 L T"
    using I(5,6) nT ok unfolding kernel_inv_def
    by (auto simp: s3_def upd_thread_def started_ok_def stack_ok_def oneshot_def)
  have st3: "stat (threads s3 t) = RT_THREAD_SUSPEND" "current_priority (threads s3 t) = ?p"
    by (simp_all add: s3_def upd_thread_def)
  from rt_thread_resume_spec [OF K3 st3(1)] obtain s4 where
    s4: "rt_thread_resume t s3 = Some (RT_EOK, s4)" "kernel_inv s4 L' T" "thread_frame s3 s4"
    "threads s4 = (threads s3)(t := (threads s3 t)\<lparr>stat := RT_THREAD_READY\<rparr>)"
    "rt_current_thread s4 = rt_current_thread s" "timers s4 = timers s" "oneshot s4 = oneshot s"
    unfolding L'_def st3(2) remove1_idem [OF nT] by (auto simp: s3_def upd_thread_def oneshot_def [abs_def])
  have fr: "thread_frame s s4" using thread_frame_trans [OF thread_frame_intros(5) s4(3) [unfolded s3_def]] .
  have ne: "L' (HPrio (unat ?p)) \<noteq> []" by (simp add: L'_def make_ready_def)
  have th4: "stat (threads s4 t) = RT_THREAD_READY" "\<And>u. u \<noteq> t \<Longrightarrow> threads s4 u = threads s u"
    by (auto simp: s4(4) s3_def upd_thread_def)
  have run: "rt_thread_startup t s = do { s5 \<leftarrow> (if rt_thread_self s4 \<noteq> None then rt_schedule s4 else Some s4);
     Some (RT_EOK, s5) }"
    using s4(1) st pr by (simp add: rt_thread_startup_def Let_def upd_thread_def prio_mask_Some s3_def)
  show ?thesis
  proof (cases "rt_current_thread s4 = None")
    case True
    then show ?thesis using run s4 th4 fr by (simp add: rt_thread_self_def)
  next
    case False
    from rt_schedule_total [OF s4(2) ne False] show ?thesis
      using run s4(5-7) oneshot_objs [OF rt_schedule_frame_fields(6) [of s4]] th4 False thread_frame_trans [OF fr] thread_frameD(7) [OF fr]
      by (auto simp: rt_thread_self_def)
  qed
qed

text \<open>Arming the timer of a suspended thread.\<close>

lemma start_thread_timer:
  assumes K: "kernel_inv s L T" and st: "stat (threads s t) = RT_THREAD_SUSPEND"
    and tick: "tick < RT_TICK_MAX div 2"
  defines "s1 \<equiv> snd (rt_timer_control (Thread_timer t) (RT_TIMER_CTRL_SET_TIME tick) s)"
  shows "\<exists>s'. rt_timer_start (Thread_timer t) s1 = Some s'
     \<and> kernel_inv s' L (insert_timer (tdist s') (Thread_timer t) (remove1 (Thread_timer t) T))
     \<and> tdist s' (Thread_timer t) = unat tick
     \<and> thread_frame s s' \<and> threads s' = threads s \<and> rt_current_thread s' = rt_current_thread s
     \<and> (\<forall>x. x \<noteq> Thread_timer t \<longrightarrow> tdist s' x = tdist s x)"
proof -
  note I = kernel_invD [OF K]
  have s1: "s1 = upd_timer (Thread_timer t) (\<lambda>tm. tm\<lparr>tmr_init_tick := tick\<rparr>) s" by (simp add: s1_def)
  have td: "tdist s1 = tdist s" by (auto simp: s1 tdist_def upd_timer_def fun_eq_iff)
  have "activated s1 x = activated s x" for x by (simp add: s1 activated_def upd_timer_def)
  then have T1: "tmr_inv s1 T" using I(2) unfolding tmr_inv_def td by (simp add: s1 upd_timer_def)
  have h: "tmr_init_tick (timers s1 (Thread_timer t)) < RT_TICK_MAX div 2"
    using tick by (simp add: s1 upd_timer_def)
  from rt_timer_start_spec [OF T1 h] obtain s' where
    s': "rt_timer_start (Thread_timer t) s1 = Some s'" "timer_started (Thread_timer t) s1 s'"
    "tmr_inv s' (insert_timer (tdist s') (Thread_timer t) (remove1 (Thread_timer t) T))" by blast
  have eq: "s' = s1\<lparr>tmlinks := tmlinks s', random_nr := random_nr s1 + 1,
      timers := (timers s1)(Thread_timer t := (timers s1 (Thread_timer t))\<lparr>timeout_tick := rt_tick s1 + tmr_init_tick (timers s1 (Thread_timer t))\<rparr>),
      objs := objs s'\<rparr>" using s'(2) by (simp add: timer_started_def)
  have F: "tlinks s' = tlinks s" "threads s' = threads s" "rt_current_thread s' = rt_current_thread s"
    "rt_thread_ready_priority_group s' = rt_thread_ready_priority_group s" "rt_tick s' = rt_tick s"
    "timers s' = (timers s)(Thread_timer t := (timers s (Thread_timer t))\<lparr>tmr_init_tick := tick, timeout_tick := rt_tick s + tick\<rparr>)"
    by (subst eq, simp add: s1 upd_timer_def)+
  have ob: "\<forall>ob. (\<forall>x. ob \<noteq> OTimer x) \<longrightarrow> objs s' ob = objs s ob"
    using s'(2) by (simp add: timer_started_def s1 upd_timer_def)
  have fr: "thread_frame s s'" unfolding thread_frame_def
    by (intro conjI; (rule ob | (subst eq, simp add: s1 upd_timer_def)))
  have "sched_inv s' L" using I(1) ready_ok_cong(2) [of s' s L] F by simp
  moreover have "oneshot s' u = oneshot s u" for u
  proof -
    have "RT_TIMER_FLAG_PERIODIC AND RT_TIMER_FLAG_ACTIVATED = 0" by (simp add: timer_flag_defs)
    moreover have "objs s1 = objs s" by (simp add: s1 upd_timer_def)
    ultimately show ?thesis
      using s'(2) unfolding timer_started_def oneshot_def by (cases "u = t") auto
  qed
  then have "started_ok s' u = started_ok s u" for u by (auto simp: started_ok_def F)
  moreover have "stat (threads s u) = RT_THREAD_SUSPEND"
    if "Thread_timer u \<in> set (insert_timer (tdist s') (Thread_timer t) (remove1 (Thread_timer t) T))" for u
    using that st I(6) [of u] set_remove1_subset [of "Thread_timer t" T] by auto
  ultimately have "kernel_inv s' L (insert_timer (tdist s') (Thread_timer t) (remove1 (Thread_timer t) T))"
    using I(5) s'(3) unfolding kernel_inv_def by (simp add: F)
  moreover have "tdist s' (Thread_timer t) = unat tick" "\<forall>x. x \<noteq> Thread_timer t \<longrightarrow> tdist s' x = tdist s x" by (simp_all add: tdist_def F)
  ultimately show ?thesis using s'(1) fr F by blast
qed

text \<open>Sleeping: the current thread leaves the ready list and its timer is armed for the given time.\<close>

lemma rt_thread_sleep_spec:
  assumes K: "kernel_inv s L T" and c: "rt_current_thread s = Some t" and st: "stat (threads s t) = RT_THREAD_READY"
    and tick: "tick < RT_TICK_MAX div 2" and other: "unlink t L (HPrio q) \<noteq> []"
  shows "\<exists>s'. rt_thread_sleep tick s = Some s'
     \<and> kernel_inv s' (unlink t L) (insert_timer (tdist s') (Thread_timer t) T)
     \<and> tdist s' (Thread_timer t) = unat tick \<and> thread_frame s s'
     \<and> threads s' = (threads s)(t := (threads s t)\<lparr>stat := RT_THREAD_SUSPEND\<rparr>)
     \<and> (rt_scheduler_lock_nest s = 0 \<longrightarrow> (\<exists>p. highest (unlink t L) p
          \<and> rt_current_thread s' = Some (hd (unlink t L (HPrio p)))))
     \<and> (\<forall>x. x \<noteq> Thread_timer t \<longrightarrow> tdist s' x = tdist s x)"
proof -
  have nT: "Thread_timer t \<notin> set T" using kernel_invD(6) [OF K, of t] st by auto
  obtain s1 where s1: "rt_thread_suspend t s = Some (RT_EOK, s1)" "kernel_inv s1 (unlink t L) T" "thread_frame s s1"
    "threads s1 = (threads s)(t := (threads s t)\<lparr>stat := RT_THREAD_SUSPEND\<rparr>)" "rt_current_thread s1 = Some t" "timers s1 = timers s"
    using rt_thread_suspend_spec [OF K st] c by auto
  have td: "tdist s1 = tdist s" using s1(6) thread_frameD(9) [OF s1(3)] by (auto simp: tdist_def fun_eq_iff)
  have st1: "stat (threads s1 t) = RT_THREAD_SUSPEND" by (simp add: s1)
  from start_thread_timer [OF s1(2) st1 tick] obtain s3 where
    s3: "rt_timer_start (Thread_timer t) (snd (rt_timer_control (Thread_timer t) (RT_TIMER_CTRL_SET_TIME tick) s1)) = Some s3"
    "kernel_inv s3 (unlink t L) (insert_timer (tdist s3) (Thread_timer t) T)" "tdist s3 (Thread_timer t) = unat tick"
    "thread_frame s1 s3" "threads s3 = threads s1" "rt_current_thread s3 = Some t" "\<forall>x. x \<noteq> Thread_timer t \<longrightarrow> tdist s3 x = tdist s1 x"
    using s1(5) by (auto simp: remove1_idem [OF nT])
  have fr: "thread_frame s s3" by (rule thread_frame_trans [OF s1(3) s3(4)])
  have "rt_current_thread s3 \<noteq> None" using s3(6) by simp
  from rt_schedule_total [OF s3(2) other this] obtain s' where
    s': "rt_schedule s3 = Some s'" "kernel_inv s' (unlink t L) (insert_timer (tdist s3) (Thread_timer t) T)"
    "thread_frame s3 s'" "threads s' = threads s3" "timers s' = timers s3"
    "rt_scheduler_lock_nest s3 = 0 \<longrightarrow> (\<exists>p. highest (unlink t L) p \<and> rt_current_thread s' = Some (hd (unlink t L (HPrio p))))"
    by blast
  have "tdist s' = tdist s3" using s'(5) thread_frameD(9) [OF s'(3)] by (auto simp: tdist_def fun_eq_iff)
  moreover have "rt_thread_sleep tick s = Some s'"
    using c s1(1) s3(1) s'(1) by (simp add: rt_thread_sleep_def)
  ultimately show ?thesis
    using s' s3 s1(4) td thread_frame_trans [OF fr s'(3)] thread_frameD(7) [OF fr] by auto
qed

text \<open>A change of priority moves a ready thread to the end of the list of its new priority.\<close>

lemma rt_thread_control_priority_ready:
  assumes K: "kernel_inv s L T" and st: "stat (threads s t) = RT_THREAD_READY"
    and pr: "unat prio < RT_THREAD_PRIORITY_MAX"
  shows "\<exists>s'. rt_thread_control t (RT_THREAD_CTRL_CHANGE_PRIORITY prio) s = Some (RT_EOK, s')
     \<and> kernel_inv s' (make_ready t (unat prio) L) T \<and> thread_frame s s'
     \<and> threads s' = (threads s)(t := (threads s t)\<lparr>current_priority := prio, number_mask := 2 ^ unat prio, stat := RT_THREAD_READY\<rparr>)
     \<and> timers s' = timers s \<and> rt_current_thread s' = rt_current_thread s"
proof -
  note I = kernel_invD [OF K]
  obtain s1 where s1: "rt_schedule_remove_thread t s = Some s1" "ready_ok s1 (unlink t L)"
    "s1 = s\<lparr>tlinks := tlinks s1, rt_thread_ready_priority_group := rt_thread_ready_priority_group s1\<rparr>"
    using rt_schedule_remove_thread_spec [OF I(3) sched_inv_ready_prio(1) [OF I(1) st]]
    unfolding unlink_def by blast
  let ?s2 = "upd_thread t (\<lambda>th. th\<lparr>current_priority := prio, number_mask := 2 ^ unat prio\<rparr>) s1"
  have F1: "threads s1 = threads s" "timers s1 = timers s" "rt_current_thread s1 = rt_current_thread s"
    "tmlinks s1 = tmlinks s" "rt_tick s1 = rt_tick s" "objs s1 = objs s" by (subst s1(3), simp)+
  have off: "\<And>h. t \<notin> set (unlink t L h)" using unlink_set [of L, OF I(8)] by simp
  have R2: "ready_ok ?s2 (unlink t L)" using ready_ok_upd_off [of t "unlink t L"] off s1(2) by simp
  have "prio_ok (threads ?s2 t)" using pr by (simp add: upd_thread_def prio_ok_def)
  from rt_schedule_insert_thread_spec [OF R2 _ this] obtain s3 where
    s3: "rt_schedule_insert_thread t ?s2 = Some s3" "ready_ok s3 (make_ready t (unat prio) L)"
    "s3 = ?s2\<lparr>tlinks := tlinks s3, threads := (threads ?s2)(t := (threads ?s2 t)\<lparr>stat := RT_THREAD_READY\<rparr>),
       rt_thread_ready_priority_group := rt_thread_ready_priority_group s3\<rparr>"
    using off by (auto simp: make_ready_def upd_thread_def)
  have F3: "threads s3 = (threads s)(t := (threads s t)\<lparr>current_priority := prio, number_mask := 2 ^ unat prio, stat := RT_THREAD_READY\<rparr>)"
    "timers s3 = timers s" "tmlinks s3 = tmlinks s" "rt_tick s3 = rt_tick s" "objs s3 = objs s"
    "rt_current_thread s3 = rt_current_thread s"
    by (subst s3(3), simp add: upd_thread_def F1)+
  have "(stat (threads s3 u) = RT_THREAD_READY) = (\<exists>p. u \<in> set (make_ready t (unat prio) L (HPrio p)))" for u
    using sched_invD(3) [OF I(1), of u] by (cases "u = t") (auto simp: F3 make_ready_set [of L, OF I(8)])
  moreover have "stat (threads s3 u) = RT_THREAD_SUSPEND \<Longrightarrow> prio_ok (threads s3 u)" for u
    using sched_invD(4) [OF I(1), of u] by (auto simp: F3 split: if_splits)
  ultimately have "sched_inv s3 (make_ready t (unat prio) L)" using s3(2) by (simp add: sched_inv_def)
  moreover have "tmr_inv s3 T" using I(2) tmr_inv_cong [of s3 s T] F3 by simp
  moreover have "started_ok s3 u = started_ok s u" for u
    using oneshot_objs [OF F3(5)] by (auto simp: started_ok_def F3 stack_ok_def)
  ultimately have "kernel_inv s3 (make_ready t (unat prio) L) T"
    using I(5,6) st unfolding kernel_inv_def by (auto simp: F3)
  moreover have "thread_frame s s3"
    by (rule thread_frame_trans [OF thread_frame_trans [OF thread_frame_intros(2) [OF s1(3)] thread_frame_intros(5)]
          thread_frame_intros(3) [OF s3(3)]])
  ultimately show ?thesis
    using st s1(1) s3(1) pr F3 by (simp add: prio_mask_Some Let_def)
qed

lemma rt_thread_control_priority_suspended:
  assumes K: "kernel_inv s L T" and st: "stat (threads s t) \<noteq> RT_THREAD_READY"
    and pr: "unat prio < RT_THREAD_PRIORITY_MAX"
  defines "s' \<equiv> upd_thread t (\<lambda>th. th\<lparr>current_priority := prio, number_mask := 2 ^ unat prio\<rparr>) s"
  shows "rt_thread_control t (RT_THREAD_CTRL_CHANGE_PRIORITY prio) s = Some (RT_EOK, s')"
    and "kernel_inv s' L T"
proof -
  note I = kernel_invD [OF K]
  show "rt_thread_control t (RT_THREAD_CTRL_CHANGE_PRIORITY prio) s = Some (RT_EOK, s')"
    using st pr by (simp add: prio_mask_Some s'_def)
  have off: "t \<notin> set (L (HPrio p))" for p using sched_invD(3) [OF I(1), of t] st by auto
  have "ready_ok s' L" using I(3) ready_ok_upd_off [of t L, OF off] by (simp add: s'_def)
  moreover have "(stat (threads s' u) = RT_THREAD_READY) = (\<exists>p. u \<in> set (L (HPrio p)))" for u
    using sched_invD(3) [OF I(1), of u] by (auto simp: s'_def upd_thread_def)
  moreover have "stat (threads s' u) = RT_THREAD_SUSPEND \<Longrightarrow> prio_ok (threads s' u)" for u
    using sched_invD(4) [OF I(1), of u] pr by (auto simp: s'_def upd_thread_def prio_ok_def)
  ultimately have "sched_inv s' L" by (simp add: sched_inv_def)
  moreover have "tmr_inv s' T" using I(2) tmr_inv_cong [of s' s T] by (simp add: s'_def upd_thread_def)
  moreover have "started_ok s' u = started_ok s u" for u by (auto simp: started_ok_def s'_def upd_thread_def stack_ok_def oneshot_def)
  ultimately show "kernel_inv s' L T"
    using I(1,5,6) unfolding kernel_inv_def by (auto simp: s'_def upd_thread_def)
qed

section \<open>Ending a thread\<close>

text \<open>Relinking nodes outside the ready lists keeps the invariant.\<close>

lemma kernel_inv_relist:
  assumes K: "kernel_inv s L T" and R: "lists_rep (f (tlinks s)) L'" and e: "\<And>p. L' (HPrio p) = L (HPrio p)"
  shows "kernel_inv (upd_tl f s) L' T"
proof -
  note I = kernel_invD [OF K]
  have "sched_inv (upd_tl f s) L'"
    using I(1,3) R e by (simp add: sched_inv_def ready_ok_def upd_tl_def)
  moreover have "tmr_inv (upd_tl f s) T" using I(2) tmr_inv_cong [of "upd_tl f s" s T] by (simp add: upd_tl_def)
  ultimately show ?thesis using K unfolding kernel_inv_def by (simp add: upd_tl_def started_ok_def oneshot_def)
qed

lemma kernel_inv_defunct:
  assumes K: "kernel_inv s L T" and off: "\<forall>h. t \<notin> set (L h)"
  shows "kernel_inv (upd_tl (rt_list_insert_after (LHead HDefunct) (LElem t)) s) (L(HDefunct := t # L HDefunct)) T"
  by (rule kernel_inv_relist [OF K]) (use tq.rep_push_front [OF kernel_invD(4) [OF K] off] in simp_all)

definition closed :: "nat \<Rightarrow> kernel \<Rightarrow> kernel" where
  "closed t s = upd_thread t (\<lambda>th. th\<lparr>stat := RT_THREAD_CLOSE\<rparr>) (rt_timer_detach (Thread_timer t) s)"

lemma closed_inv:
  assumes K: "kernel_inv s L T" and pk: "prio_ok (threads s t)"
  shows "\<exists>s1. rt_schedule_remove_thread t s = Some s1 \<and> kernel_inv (closed t s1) (unlink t L) (remove1 (Thread_timer t) T)
     \<and> threads (closed t s1) = (threads s)(t := (threads s t)\<lparr>stat := RT_THREAD_CLOSE\<rparr>)
     \<and> objs (closed t s1) = objs s \<and> rt_current_thread (closed t s1) = rt_current_thread s
     \<and> rt_scheduler_lock_nest (closed t s1) = rt_scheduler_lock_nest s"
proof -
  note I = kernel_invD [OF K]
  obtain s1 where s1: "rt_schedule_remove_thread t s = Some s1" "ready_ok s1 (unlink t L)"
    "s1 = s\<lparr>tlinks := tlinks s1, rt_thread_ready_priority_group := rt_thread_ready_priority_group s1\<rparr>"
    using rt_schedule_remove_thread_spec [OF I(3) pk] unfolding unlink_def by blast
  let ?s = "closed t s1"
  have F1: "threads s1 = threads s" "timers s1 = timers s" "rt_current_thread s1 = rt_current_thread s"
    "tmlinks s1 = tmlinks s" "rt_tick s1 = rt_tick s" "objs s1 = objs s"
    "rt_scheduler_lock_nest s1 = rt_scheduler_lock_nest s" by (subst s1(3), simp)+
  have F: "threads ?s = (threads s)(t := (threads s t)\<lparr>stat := RT_THREAD_CLOSE\<rparr>)" "timers ?s = timers s"
    "tmlinks ?s = rt_list_remove (LElem (Thread_timer t)) (tmlinks s)" "rt_tick ?s = rt_tick s" "objs ?s = objs s"
    "rt_current_thread ?s = rt_current_thread s" "rt_scheduler_lock_nest ?s = rt_scheduler_lock_nest s"
    by (simp_all add: closed_def rt_timer_detach_def rt_timer_remove_def rt_object_detach_def upd_defs F1)
  have "ready_ok ?s (unlink t L) = ready_ok s1 (unlink t L)"
    using ready_ok_upd_thread [of "\<lambda>th. th\<lparr>stat := RT_THREAD_CLOSE\<rparr>" "rt_timer_detach (Thread_timer t) s1" t]
      ready_ok_cong(1) [of "rt_timer_detach (Thread_timer t) s1" s1]
    by (simp add: closed_def rt_timer_detach_def rt_timer_remove_def rt_object_detach_def upd_tml_def upd_ol_def)
  moreover have "(stat (threads ?s u) = RT_THREAD_READY) = (\<exists>p. u \<in> set (unlink t L (HPrio p)))" for u
    using sched_invD(3) [OF I(1), of u] unlink_set [of L, OF I(8)] by (auto simp: F)
  moreover have "stat (threads ?s u) = RT_THREAD_SUSPEND \<Longrightarrow> prio_ok (threads ?s u)" for u
    using sched_invD(4) [OF I(1), of u] by (auto simp: F split: if_splits)
  ultimately have "sched_inv ?s (unlink t L)" using s1(2) by (simp add: sched_inv_def)
  moreover have "tmr_inv ?s (remove1 (Thread_timer t) T)"
  proof -
    note D = tmr_invD [OF I(2)]
    have td: "tdist ?s = tdist s" by (auto simp: tdist_def F fun_eq_iff)
    have "lists_rep (tmlinks ?s) (\<lambda>_. remove1 (Thread_timer t) T)" unfolding F by (rule tq.rep_unlink [OF D(1)])
    moreover have "sorted (map (tdist ?s) (remove1 (Thread_timer t) T))" unfolding td using D(2) by (rule sorted_map_remove1)
    moreover have "tdist ?s x < HALF \<and> activated ?s x" if "x \<in> set (remove1 (Thread_timer t) T)" for x
      using that D(3,4) [of x] set_remove1_subset by (fastforce simp: td activated_def F)
    ultimately show ?thesis by (simp add: tmr_inv_def)
  qed
  moreover have "started_ok ?s u" if "stat (threads ?s u) \<in> {RT_THREAD_READY, RT_THREAD_SUSPEND}" for u
    using that I(5) [of u] oneshot_objs [OF F(5)] by (auto simp: F started_ok_def split: if_splits)
  ultimately have "kernel_inv ?s (unlink t L) (remove1 (Thread_timer t) T)"
    using I(6) tmr_invD(5) [OF I(2)] unfolding kernel_inv_def by (auto simp: F)
  with s1(1) F show ?thesis by blast
qed

lemma unlink_unlinked: "kernel_inv s L T \<Longrightarrow> \<forall>h. t \<notin> set (unlink t L h)"
  using kernel_invD(8) [of s L T] by (simp add: unlink_set)

text \<open>A deleted thread waits on the defunct list for the idle thread to release it.\<close>

lemma rt_thread_delete_spec:
  assumes K: "kernel_inv s L T" and pk: "prio_ok (threads s t)"
  shows "\<exists>s'. rt_thread_delete t s = Some (RT_EOK, s')
     \<and> kernel_inv s' ((unlink t L)(HDefunct := t # unlink t L HDefunct)) (remove1 (Thread_timer t) T)
     \<and> threads s' = (threads s)(t := (threads s t)\<lparr>stat := RT_THREAD_CLOSE\<rparr>)"
proof -
  obtain s1 where s1: "rt_schedule_remove_thread t s = Some s1"
    "kernel_inv (closed t s1) (unlink t L) (remove1 (Thread_timer t) T)"
    "threads (closed t s1) = (threads s)(t := (threads s t)\<lparr>stat := RT_THREAD_CLOSE\<rparr>)"
    using closed_inv [OF K pk] by blast
  from kernel_inv_defunct [OF s1(2) unlink_unlinked [OF K]] s1 show ?thesis
    by (auto simp: rt_thread_delete_def Let_def closed_def [symmetric] upd_tl_def)
qed

lemma rt_thread_detach_spec:
  assumes K: "kernel_inv s L T" and pk: "prio_ok (threads s t)"
  shows "\<exists>s'. rt_thread_detach t s = Some (RT_EOK, s')
     \<and> kernel_inv s' (if cleanup (threads s t) = None then unlink t L
          else (unlink t L)(HDefunct := t # unlink t L HDefunct)) (remove1 (Thread_timer t) T)
     \<and> threads s' = (threads s)(t := (threads s t)\<lparr>stat := RT_THREAD_CLOSE\<rparr>)"
proof -
  obtain s1 where s1: "rt_schedule_remove_thread t s = Some s1"
    "kernel_inv (closed t s1) (unlink t L) (remove1 (Thread_timer t) T)"
    "threads (closed t s1) = (threads s)(t := (threads s t)\<lparr>stat := RT_THREAD_CLOSE\<rparr>)"
    using closed_inv [OF K pk] by blast
  let ?s4 = "rt_object_detach (OThread t) (closed t s1)"
  have th: "threads ?s4 = (threads s)(t := (threads s t)\<lparr>stat := RT_THREAD_CLOSE\<rparr>)"
    by (simp add: rt_object_detach_def upd_ol_def s1(3))
  have K4: "kernel_inv ?s4 (unlink t L) (remove1 (Thread_timer t) T)"
    using s1(2) kernel_inv_cong [of ?s4 "closed t s1"] by (simp add: rt_object_detach_def upd_ol_def)
  from kernel_inv_defunct [OF K4 unlink_unlinked [OF K]] K4 s1(1) th show ?thesis
    by (auto simp: rt_thread_detach_def Let_def closed_def [symmetric] upd_tl_def)
qed

lemma rt_thread_exit_spec:
  assumes K: "kernel_inv s L T" and c: "rt_current_thread s = Some t" and st: "stat (threads s t) = RT_THREAD_READY"
    and other: "unlink t L (HPrio q) \<noteq> []"
  shows "\<exists>s' L'. rt_thread_exit s = Some s' \<and> kernel_inv s' L' (remove1 (Thread_timer t) T)
     \<and> L' = (if rt_object_is_systemobject (OThread t) s \<and> cleanup (threads s t) = None then unlink t L
             else (unlink t L)(HDefunct := t # unlink t L HDefunct))
     \<and> stat (threads s' t) = RT_THREAD_CLOSE
     \<and> (rt_scheduler_lock_nest s = 0 \<longrightarrow> (\<exists>p. highest L' p \<and> rt_current_thread s' = Some (hd (L' (HPrio p)))
          \<and> hd (L' (HPrio p)) \<noteq> t))"
proof -
  have pk: "prio_ok (threads s t)" by (rule sched_inv_ready_prio(1) [OF kernel_invD(1) [OF K] st])
  obtain s1 where s1: "rt_schedule_remove_thread t s = Some s1"
    "kernel_inv (closed t s1) (unlink t L) (remove1 (Thread_timer t) T)"
    "threads (closed t s1) = (threads s)(t := (threads s t)\<lparr>stat := RT_THREAD_CLOSE\<rparr>)"
    "objs (closed t s1) = objs s" "rt_current_thread (closed t s1) = rt_current_thread s"
    "rt_scheduler_lock_nest (closed t s1) = rt_scheduler_lock_nest s"
    using closed_inv [OF K pk] by blast
  let ?sys = "rt_object_is_systemobject (OThread t) s \<and> cleanup (threads s t) = None"
  define L' where "L' = (if ?sys then unlink t L else (unlink t L)(HDefunct := t # unlink t L HDefunct))"
  define s4 where "s4 = (if ?sys then rt_object_detach (OThread t) (closed t s1)
     else upd_tl (rt_list_insert_after (LHead HDefunct) (LElem t)) (closed t s1))"
  have c2: "rt_timer_detach (Thread_timer t) (upd_thread t (\<lambda>th. th\<lparr>stat := RT_THREAD_CLOSE\<rparr>) s1) = closed t s1"
    by (simp add: closed_def rt_timer_detach_def rt_timer_remove_def rt_object_detach_def upd_defs)
  have run: "rt_thread_exit s = rt_schedule s4"
    using c s1(1) by (simp add: rt_thread_exit_def Let_def c2 s4_def rt_object_is_systemobject_def s1(3,4))
  have K4: "kernel_inv s4 L' (remove1 (Thread_timer t) T)"
    using kernel_inv_defunct [OF s1(2) unlink_unlinked [OF K]]
      kernel_inv_cong [of "rt_object_detach (OThread t) (closed t s1)" "closed t s1"] s1(2)
    by (simp add: s4_def L'_def rt_object_detach_def upd_ol_def)
  have F4: "threads s4 = threads (closed t s1)" "rt_current_thread s4 = rt_current_thread s"
    "rt_scheduler_lock_nest s4 = rt_scheduler_lock_nest s"
    by (simp_all add: s4_def rt_object_detach_def upd_defs s1(5,6))
  have HP: "L' (HPrio p) = unlink t L (HPrio p)" for p by (simp add: L'_def)
  have "L' (HPrio q) \<noteq> []" "rt_current_thread s4 \<noteq> None" using other c F4 HP by auto
  from rt_schedule_total [OF K4 this] obtain s' where
    s': "rt_schedule s4 = Some s'" "kernel_inv s' L' (remove1 (Thread_timer t) T)" "threads s' = threads s4"
    "rt_scheduler_lock_nest s4 = 0 \<longrightarrow> (\<exists>p. highest L' p \<and> rt_current_thread s' = Some (hd (L' (HPrio p))))"
    by blast
  have "hd (L' (HPrio p)) \<noteq> t" if "highest L' p" for p
  proof -
    have "hd (L' (HPrio p)) \<in> set (unlink t L (HPrio p))" using that HP [of p] by (simp add: highest_def)
    then show ?thesis using unlink_unlinked [OF K, of t] by metis
  qed
  then show ?thesis using run s' F4 s1(3) L'_def by auto
qed

section \<open>Initialising a thread\<close>

lemma rt_object_init_frame:
  assumes "rt_object_init ob type name s = Some s'"
  shows "tlinks s' = tlinks s" "threads s' = threads s" "tmlinks s' = tmlinks s" "timers s' = timers s"
    "rt_thread_ready_priority_group s' = rt_thread_ready_priority_group s" "rt_tick s' = rt_tick s"
    "oflag (objs s' x) = oflag (objs s x)" "ram s' = ram s" "rt_current_thread s' = rt_current_thread s"
    "rt_scheduler_lock_nest s' = rt_scheduler_lock_nest s"
  using assms by (auto simp: rt_object_init_def bind_Some_iff Let_def upd_defs)

lemma kernel_inv_flags:
  assumes "tlinks s' = tlinks s" "threads s' = threads s"
    "rt_thread_ready_priority_group s' = rt_thread_ready_priority_group s"
    "tmlinks s' = tmlinks s" "timers s' = timers s" "rt_tick s' = rt_tick s"
    "\<And>t. oflag (objs s' (OTimer t)) = oflag (objs s (OTimer t))"
  shows "kernel_inv s' L T = kernel_inv s L T"
  using ready_ok_cong(2) [OF assms(1-3)] tmr_inv_cong [OF assms(4-7)] assms
  by (simp add: kernel_inv_def started_ok_def oneshot_def)

lemma rt_object_init_some:
  "readable RT_NAME_MAX name \<Longrightarrow> \<exists>s'. rt_object_init ob type name s = Some s' \<and> length (oname (objs s' ob)) = RT_NAME_MAX"
  using rt_strncpy_spec [of RT_NAME_MAX name] by (auto simp: rt_object_init_def Let_def upd_defs)

text \<open>
  Initialising a thread that is on no list: it is in the initial state, its stack holds the first
  frame, and nothing else of the scheduling state changes.
\<close>

lemma rt_thread_init_spec:
  assumes K: "kernel_inv s L T" and off: "\<forall>h. t \<notin> set (L h)" "Thread_timer t \<notin> set T"
    and name: "readable RT_NAME_MAX name" and pr: "unat priority < RT_THREAD_PRIORITY_MAX"
    and stk: "stack_start \<noteq> 0" "unat stack_start + unat (ucast size' :: u16) < 2 ^ 32" "76 \<le> unat (ucast size' :: u16)"
  shows "\<exists>s'. rt_thread_init t name ent par stack_start size' priority tick texit s = Some s' \<and> kernel_inv s' L T
     \<and> started_ok s' t \<and> stat (threads s' t) = RT_THREAD_INIT \<and> init_priority (threads s' t) = priority
     \<and> (\<forall>u. u \<noteq> t \<longrightarrow> threads s' u = threads s u)
     \<and> rt_current_thread s' = rt_current_thread s \<and> rt_scheduler_lock_nest s' = rt_scheduler_lock_nest s
     \<and> load32 (ram s') (unat (sp (threads s' t)) + frame_offset F_pc) = ent
     \<and> load32 (ram s') (unat (sp (threads s' t)) + frame_offset F_r0) = par
     \<and> load32 (ram s') (unat (sp (threads s' t)) + frame_offset F_lr) = texit"
proof -
  note I = kernel_invD [OF K]
  let ?sz = "ucast size' :: u16"
  obtain s1 where s1: "rt_object_init (OThread t) RT_Object_Class_Thread name s = Some s1"
    "length (oname (objs s1 (OThread t))) = RT_NAME_MAX" using rt_object_init_some [OF name] by blast
  note F1 = rt_object_init_frame [OF s1(1)]
  have K1: "kernel_inv s1 L T" using K kernel_inv_flags [of s1 s L T] F1 by simp
  note I1 = kernel_invD [OF K1]
  obtain sp' m2 where sp: "rt_hw_stack_init ent par (stack_start + ucast ?sz - 4) texit
      (rt_memset (ram s1) (unat stack_start) 0x23 (unat ?sz)) = (sp', m2)" by fastforce
  have len: "unat (ucast ?sz :: u32) = unat ?sz" by (simp add: unsigned_ucast_eq unsigned_take_bit_eq flip: take_bit_eq_mod)
  note W = rt_hw_stack_init_spec [OF sp, unfolded len, OF stk(2,3)]
  define th where "th = (threads s1 t)\<lparr>entry := ent, param := par, stack_addr := stack_start, stack_size := ?sz,
     sp := sp', init_priority := priority, current_priority := priority, init_tick := tick, remaining_tick := tick,
     error := RT_EOK, stat := RT_THREAD_INIT, cleanup := None, user_data := 0\<rparr>"
  define s4 where "s4 = s1\<lparr>tlinks := rt_list_init (LElem t) (tlinks s1), ram := m2, threads := (threads s1)(t := th)\<rparr>"
  have li: "rt_list_init (LElem t) (tlinks s1) = tlinks s1" by (rule lists_rep_init_elem [OF I1(4) off(1)])
  have o4: "oname (objs s4 (OThread t)) = oname (objs s1 (OThread t))" by (simp add: s4_def)
  have "readable RT_NAME_MAX (oname (objs s4 (OThread t)))" using s1(2) by (simp add: readable_def o4)
  then obtain s5 where s5: "rt_object_init (OTimer (Thread_timer t)) RT_Object_Class_Timer (oname (objs s4 (OThread t))) s4 = Some s5"
    using rt_object_init_some by blast
  note F5 = rt_object_init_frame [OF s5]
  let ?s' = "rt_timer_init_fields (Thread_timer t) (Rt_thread_timeout t) 0 RT_TIMER_FLAG_ONE_SHOT s5"
  have run: "rt_thread_init t name ent par stack_start size' priority tick texit s = Some ?s'"
    using s1(1) stk(1) pr s5
    by (simp add: rt_thread_init_def rt_thread_init_fields_def Let_def upd_thread_def upd_tl_def sp
        rt_timer_init_def s4_def th_def)
  have lt: "rt_list_init (LElem (Thread_timer t)) (tmlinks s1) = tmlinks s1"
    by (rule lists_rep_init_elem [OF tmr_invD(1) [OF I1(2)]]) (use off(2) in simp)
  have F: "tlinks ?s' = tlinks s1" "threads ?s' = (threads s1)(t := th)" "tmlinks ?s' = tmlinks s1" "rt_tick ?s' = rt_tick s1"
    "rt_thread_ready_priority_group ?s' = rt_thread_ready_priority_group s1" "ram ?s' = m2"
    "rt_current_thread ?s' = rt_current_thread s1" "rt_scheduler_lock_nest ?s' = rt_scheduler_lock_nest s1"
    "\<And>x. x \<noteq> Thread_timer t \<Longrightarrow> timers ?s' x = timers s1 x"
    "\<And>x. x \<noteq> Thread_timer t \<Longrightarrow> oflag (objs ?s' (OTimer x)) = oflag (objs s1 (OTimer x))"
    "timeout_func (timers ?s' (Thread_timer t)) = Rt_thread_timeout t"
    "oflag (objs ?s' (OTimer (Thread_timer t))) = 0"
    using F5 lt li by (simp_all add: rt_timer_init_fields_def upd_defs Let_def s4_def timer_flag_defs)
  have nr: "stat (threads s1 t) \<noteq> RT_THREAD_READY" using sched_invD(3) [OF I1(1), of t] off(1) by auto
  have "ready_ok ?s' L = ready_ok (upd_thread t (\<lambda>_. th) s1) L"
    by (rule ready_ok_cong(1)) (simp_all add: F upd_thread_def)
  then have "ready_ok ?s' L" using I1(3) ready_ok_upd_off [of t L] off(1) by simp
  moreover have "(stat (threads ?s' u) = RT_THREAD_READY) = (\<exists>p. u \<in> set (L (HPrio p)))" for u
    using sched_invD(3) [OF I1(1), of u] off(1) by (auto simp: F th_def)
  moreover have "stat (threads ?s' u) = RT_THREAD_SUSPEND \<Longrightarrow> prio_ok (threads ?s' u)" for u
    using sched_invD(4) [OF I1(1), of u] by (auto simp: F th_def split: if_splits)
  ultimately have S: "sched_inv ?s' L" by (simp add: sched_inv_def)
  have td: "tdist ?s' x = tdist s1 x" "activated ?s' x = activated s1 x" if "x \<in> set T" for x
  proof -
    have "x \<noteq> Thread_timer t" using that off(2) by auto
    then show "tdist ?s' x = tdist s1 x" "activated ?s' x = activated s1 x"
      by (simp_all add: tdist_def activated_def F(4) F(9,10))
  qed
  have Tm: "tmr_inv ?s' T"
  proof -
    have m: "map (tdist ?s') T = map (tdist s1) T" using td(1) by simp
    show ?thesis using tmr_invD [OF I1(2)] td unfolding tmr_inv_def F(3) m by simp
  qed
  have so: "started_ok ?s' t"
    using W(1,2) stk(2) F(11,12) by (simp add: started_ok_def stack_ok_def oneshot_def F(2) th_def word_less_nat_alt word_le_nat_alt
        unat_word_ariths len)
  have "started_ok ?s' u" if "stat (threads ?s' u) \<in> {RT_THREAD_READY, RT_THREAD_SUSPEND}" for u
    using that so I1(5) [of u] F(9,10) [of "Thread_timer u"]
    by (cases "u = t") (auto simp: started_ok_def oneshot_def F(2))
  then have "kernel_inv ?s' L T"
    using S Tm I1(6) off(2) unfolding kernel_inv_def F(2) by (auto simp: th_def)
  then show ?thesis using run so W(4-6) F F1 by (auto simp: th_def)
qed

end
