(* ===== verification/RT_Clock.thy ===== *)
theory RT_Clock
  imports RT_Thread
begin

text \<open>
  The system tick of \<open>src/clock.c\<close> and the expiry of timers, \<open>rt_timer_check\<close> of \<open>src/timer.c\<close>. Each
  tick charges the running thread's time slice and then runs the timeout functions of every timer
  that is due; the timeout function of a thread's own timer makes the thread ready again. The
  functions of user timers are a parameter \<open>cb\<close> of the model.
\<close>

section \<open>Operations\<close>

definition rt_tick_get :: "kernel \<Rightarrow> u32" where
  "rt_tick_get s = rt_tick s"

definition rt_tick_set :: "u32 \<Rightarrow> kernel \<Rightarrow> kernel" where
  "rt_tick_set tick s = s\<lparr>rt_tick := tick\<rparr>"

fun call_timeout :: "(nat \<Rightarrow> kernel \<Rightarrow> kernel option) \<Rightarrow> timeout_fn \<Rightarrow> kernel \<Rightarrow> kernel option" where
  "call_timeout cb (Rt_thread_timeout t) s = rt_thread_timeout t s"
| "call_timeout cb (User_timeout f) s = cb f s"

text \<open>The end of one turn of the loop: a periodic timer that is still active starts again.\<close>

definition timer_rearm :: "timer_id \<Rightarrow> kernel \<Rightarrow> kernel option" where
  "timer_rearm t s =
    (let flag = oflag (objs s (OTimer t));
         s1 = upd_obj (OTimer t) (\<lambda>o'. o'\<lparr>oflag := oflag o' AND NOT RT_TIMER_FLAG_ACTIVATED\<rparr>) s
     in if flag AND RT_TIMER_FLAG_PERIODIC \<noteq> 0 \<and> flag AND RT_TIMER_FLAG_ACTIVATED \<noteq> 0
        then rt_timer_start t s1 else Some s1)"

partial_function (option) timer_check_loop ::
  "(nat \<Rightarrow> kernel \<Rightarrow> kernel option) \<Rightarrow> u32 \<Rightarrow> kernel \<Rightarrow> kernel option" where
  "timer_check_loop cb current_tick s =
    (if rt_list_isempty (LHead ()) (tmlinks s) then Some s
     else do {
       t \<leftarrow> rt_list_entry (lnext (tmlinks s) (LHead ()));
       if current_tick - timeout_tick (timers s t) < RT_TICK_MAX div 2
       then do {
         let s1 = rt_timer_remove t s;
         s2 \<leftarrow> call_timeout cb (timeout_func (timers s1 t)) s1;
         s3 \<leftarrow> timer_rearm t s2;
         timer_check_loop cb (rt_tick_get s2) s3 }
       else Some s })"

definition rt_timer_check :: "(nat \<Rightarrow> kernel \<Rightarrow> kernel option) \<Rightarrow> kernel \<Rightarrow> kernel option" where
  "rt_timer_check cb s = timer_check_loop cb (rt_tick_get s) s"

definition rt_tick_increase :: "(nat \<Rightarrow> kernel \<Rightarrow> kernel option) \<Rightarrow> kernel \<Rightarrow> kernel option" where
  "rt_tick_increase cb s = do {
     let s1 = s\<lparr>rt_tick := rt_tick s + 1\<rparr>;
     t \<leftarrow> rt_thread_self s1;
     let s2 = upd_thread t (\<lambda>th. th\<lparr>remaining_tick := remaining_tick th - 1\<rparr>) s1;
     s3 \<leftarrow> (if remaining_tick (threads s2 t) = 0
           then do {
             (_, s') \<leftarrow> rt_thread_yield (upd_thread t (\<lambda>th. th\<lparr>remaining_tick := init_tick th\<rparr>) s2);
             Some s' }
           else Some s2);
     rt_timer_check cb s3 }"

definition rt_tick_from_millisecond :: "u32 \<Rightarrow> u32" where
  "rt_tick_from_millisecond ms = (RT_TICK_PER_SECOND * ms + 999) div 1000"

section \<open>Conversion of milliseconds\<close>

text \<open>The conversion rounds up; it is exact as long as the multiplication does not wrap around.\<close>

lemma rt_tick_from_millisecond_spec:
  assumes "unat ms \<le> 42949662"
  shows "unat (rt_tick_from_millisecond ms) = (unat ms * 100 + 999) div 1000"
proof -
  have "unat (100 * ms :: u32) = 100 * unat ms" using assms by (subst unat_mult_lem [THEN iffD1]) auto
  moreover have "unat (100 * ms + 999 :: u32) = unat (100 * ms) + 999"
    using assms calculation by (subst unat_add_lem [THEN iffD1]) auto
  ultimately have "unat (100 * ms + 999 :: u32) = unat ms * 100 + 999" by simp
  then show ?thesis by (simp add: rt_tick_from_millisecond_def RT_TICK_PER_SECOND_def unat_div)
qed

section \<open>Expiry\<close>

lemma due_iff:
  assumes "unat (timeout - now) < HALF"
  shows "(now - timeout < RT_TICK_MAX div 2) = (timeout = now)"
proof (cases "timeout = now")
  case True
  then show ?thesis by (simp add: RT_TICK_MAX_def)
next
  case False
  have "now - timeout = 0 - (timeout - now)" by simp
  moreover have "0 < unat (timeout - now)"
    using False by (metis eq_iff_diff_eq_0 gr_zeroI unat_eq_0)
  ultimately have "unat (now - timeout) = 2 ^ 32 - unat (timeout - now)"
    using unat_sub_wrap [of 0 "timeout - now"] by simp
  then have "HALF \<le> unat (now - timeout)" using assms by (simp add: HALF_def)
  then show ?thesis using False half_unat by (simp add: word_less_nat_alt)
qed

text \<open>Taking the first timer off the list, and clearing the flag of a timer that is off it.\<close>

lemma kernel_inv_drop_timer:
  assumes K: "kernel_inv s L (x # T)"
  shows "kernel_inv (rt_timer_remove x s) L T"
proof -
  note I = kernel_invD [OF K]
  let ?s = "rt_timer_remove x s"
  have F: "tlinks ?s = tlinks s" "threads ?s = threads s" "timers ?s = timers s" "rt_tick ?s = rt_tick s"
    "objs ?s = objs s" "rt_thread_ready_priority_group ?s = rt_thread_ready_priority_group s"
    "tmlinks ?s = rt_list_remove (LElem x) (tmlinks s)"
    by (simp_all add: rt_timer_remove_def upd_tml_def)
  note D = tmr_invD [OF I(2)]
  have "tdist ?s = tdist s" by (auto simp: tdist_def F fun_eq_iff)
  moreover have "lists_rep (tmlinks ?s) (\<lambda>_. T)" using tq.rep_unlink [OF D(1), of x] by (simp add: F)
  ultimately have "tmr_inv ?s T" using D(2-4) by (simp add: tmr_inv_def activated_def F)
  moreover have "sched_inv ?s L" using I(1) ready_ok_cong(2) [of ?s s L] F by simp
  ultimately show ?thesis using I(5,6) by (simp add: kernel_inv_def started_ok_def oneshot_def F)
qed

lemma kernel_inv_clear_flag:
  assumes K: "kernel_inv s L T" and x: "x \<notin> set T"
  shows "kernel_inv (upd_obj (OTimer x) (\<lambda>o'. o'\<lparr>oflag := oflag o' AND NOT RT_TIMER_FLAG_ACTIVATED\<rparr>) s) L T"
proof -
  note I = kernel_invD [OF K]
  let ?s = "upd_obj (OTimer x) (\<lambda>o'. o'\<lparr>oflag := oflag o' AND NOT RT_TIMER_FLAG_ACTIVATED\<rparr>) s"
  have F: "tlinks ?s = tlinks s" "threads ?s = threads s" "timers ?s = timers s" "rt_tick ?s = rt_tick s"
    "tmlinks ?s = tmlinks s" "rt_thread_ready_priority_group ?s = rt_thread_ready_priority_group s"
    by (simp_all add: upd_obj_def)
  have "activated ?s t = activated s t" if "t \<in> set T" for t
    using that x by (auto simp: activated_def upd_obj_def)
  moreover have "tdist ?s = tdist s" by (auto simp: tdist_def F fun_eq_iff)
  ultimately have "tmr_inv ?s T" using I(2) by (simp add: tmr_inv_def F)
  moreover have "sched_inv ?s L" using I(1) ready_ok_cong(2) [of ?s s L] F by simp
  moreover have "oneshot s t \<Longrightarrow> oneshot ?s t" for t
    by (auto simp: oneshot_def upd_obj_def and.assoc) (metis and.left_commute and_zero_eq)
  ultimately show ?thesis using I(5,6) by (auto simp: kernel_inv_def started_ok_def F)
qed

text \<open>
  When the timers that are due belong to threads, the loop wakes exactly these threads, in the order
  of the list, with the error code for a timeout, and stops at the first timer that is not due.
\<close>

definition wake :: "kernel \<Rightarrow> nat \<Rightarrow> (thead \<Rightarrow> nat list) \<Rightarrow> thead \<Rightarrow> nat list" where
  "wake s t L = make_ready t (unat (current_priority (threads s t))) L"

definition timed_out :: "nat set \<Rightarrow> kernel \<Rightarrow> nat \<Rightarrow> rt_thread" where
  "timed_out A s u = (if u \<in> A then (threads s u)\<lparr>error := - RT_ETIMEOUT, stat := RT_THREAD_READY\<rparr> else threads s u)"

lemma timer_check_thread:
  assumes K: "kernel_inv s L (Thread_timer t # T)" and c: "rt_current_thread s \<noteq> None"
    and due: "tdist s (Thread_timer t) = 0" and tick: "rt_tick s = now"
  shows "\<exists>s3. timer_check_loop cb now s = timer_check_loop cb now s3 \<and> kernel_inv s3 (wake s t L) T
     \<and> rt_current_thread s3 \<noteq> None \<and> rt_tick s3 = now \<and> timers s3 = timers s
     \<and> threads s3 = (threads s)(t := (threads s t)\<lparr>error := - RT_ETIMEOUT, stat := RT_THREAD_READY\<rparr>)
     \<and> rt_scheduler_lock_nest s3 = rt_scheduler_lock_nest s
     \<and> (rt_scheduler_lock_nest s = 0 \<longrightarrow>
          (\<exists>p. highest (wake s t L) p \<and> rt_current_thread s3 = Some (hd (wake s t L (HPrio p)))))
     \<and> thread_frame s s3"
proof -
  note I = kernel_invD [OF K]
  note R = tmr_invD(1) [OF I(2)]
  let ?x = "Thread_timer t"
  have fst: "\<not> rt_list_isempty (LHead ()) (tmlinks s)" "rt_list_entry (lnext (tmlinks s) (LHead ())) = Some ?x"
    using tq.rep_empty_at [OF R, of "()"] tq.rep_first_at [OF R, of "()"] by auto
  have st: "stat (threads s t) = RT_THREAD_SUSPEND" and fn: "timeout_func (timers s ?x) = Rt_thread_timeout t"
    using I(6,7) by auto
  have "timeout_tick (timers s ?x) = now"
    using due tick by (simp add: tdist_def unat_eq_0)
  then have d: "now - timeout_tick (timers s ?x) < RT_TICK_MAX div 2" by (simp add: RT_TICK_MAX_def)
  let ?s1 = "rt_timer_remove ?x s"
  have F1: "threads ?s1 = threads s" "timers ?s1 = timers s" "rt_current_thread ?s1 = rt_current_thread s"
    "rt_tick ?s1 = now" "rt_scheduler_lock_nest ?s1 = rt_scheduler_lock_nest s"
    using tick by (simp_all add: rt_timer_remove_def upd_tml_def)
  have K1: "kernel_inv ?s1 L T" by (rule kernel_inv_drop_timer [OF K])
  have nT: "?x \<notin> set T" using tmr_invD(5) [OF I(2)] by simp
  have "\<exists>s2. rt_thread_timeout t ?s1 = Some s2 \<and> kernel_inv s2 (wake s t L) T \<and> thread_frame ?s1 s2
     \<and> threads s2 = (threads s)(t := (threads s t)\<lparr>error := - RT_ETIMEOUT, stat := RT_THREAD_READY\<rparr>)
     \<and> timers s2 = timers s \<and> rt_current_thread s2 \<noteq> None
     \<and> (rt_scheduler_lock_nest s = 0 \<longrightarrow>
          (\<exists>p. highest (wake s t L) p \<and> rt_current_thread s2 = Some (hd (wake s t L (HPrio p)))))"
    using rt_thread_timeout_spec [OF K1 _ nT] st c unfolding F1 wake_def by blast
  then obtain s2 where s2: "rt_thread_timeout t ?s1 = Some s2" "kernel_inv s2 (wake s t L) T" "thread_frame ?s1 s2"
     "threads s2 = (threads s)(t := (threads s t)\<lparr>error := - RT_ETIMEOUT, stat := RT_THREAD_READY\<rparr>)"
     "timers s2 = timers s" "rt_current_thread s2 \<noteq> None"
     "rt_scheduler_lock_nest s = 0 \<longrightarrow>
          (\<exists>p. highest (wake s t L) p \<and> rt_current_thread s2 = Some (hd (wake s t L (HPrio p))))" by blast
  note F2 = thread_frameD [OF s2(3)]
  let ?s3 = "upd_obj (OTimer ?x) (\<lambda>o'. o'\<lparr>oflag := oflag o' AND NOT RT_TIMER_FLAG_ACTIVATED\<rparr>) s2"
  have "oneshot s2 t"
    using kernel_invD(5) [OF s2(2), of t] by (simp add: s2(4) started_ok_def)
  then have "timer_rearm ?x s2 = Some ?s3" by (simp add: timer_rearm_def Let_def oneshot_def)
  then have "timer_check_loop cb now s = timer_check_loop cb now ?s3"
    using fst d fn s2(1) F1(2,4) F2(9)
    by (subst timer_check_loop.simps) (simp add: Let_def rt_tick_get_def)
  moreover have "kernel_inv ?s3 (wake s t L) T" by (rule kernel_inv_clear_flag [OF s2(2) nT])
  moreover have "thread_frame s ?s3"
  proof -
    have "thread_frame s ?s1" "thread_frame s2 ?s3" by (simp_all add: thread_frame_def rt_timer_remove_def upd_tml_def upd_obj_def)
    then show ?thesis using s2(3) thread_frame_trans by blast
  qed
  ultimately show ?thesis
    using s2 F1 F2 by (intro exI [of _ ?s3]) (simp add: upd_obj_def)
qed

lemma fold_wake_cong:
  assumes "\<And>u. u \<in> set us \<Longrightarrow> current_priority (threads s' u) = current_priority (threads s u)"
  shows "fold (wake s') us L = fold (wake s) us L"
  using assms by (intro fold_cong) (auto simp: wake_def)

lemma timer_check_loop_spec:
  assumes "kernel_inv s L (map Thread_timer us @ T)" "rt_current_thread s \<noteq> None" "rt_tick s = now"
    and "\<And>u. u \<in> set us \<Longrightarrow> tdist s (Thread_timer u) = 0"
    and "T = [] \<or> tdist s (hd T) \<noteq> 0"
  shows "\<exists>s'. timer_check_loop cb now s = Some s' \<and> kernel_inv s' (fold (wake s) us L) T
     \<and> threads s' = timed_out (set us) s \<and> rt_current_thread s' \<noteq> None \<and> rt_tick s' = now
     \<and> timers s' = timers s \<and> rt_scheduler_lock_nest s' = rt_scheduler_lock_nest s
     \<and> (rt_scheduler_lock_nest s = 0 \<and> us \<noteq> [] \<longrightarrow> (\<exists>p. highest (fold (wake s) us L) p
          \<and> rt_current_thread s' = Some (hd (fold (wake s) us L (HPrio p)))))
     \<and> (us = [] \<longrightarrow> s' = s) \<and> thread_frame s s'"
  using assms
proof (induction us arbitrary: s L)
  case Nil
  note I = kernel_invD [OF Nil.prems(1)]
  have "timer_check_loop cb now s = Some s"
  proof (cases T)
    case Nil
    have "rt_list_isempty (LHead ()) (tmlinks s)"
      using tq.rep_empty_at [OF tmr_invD(1) [OF I(2)], of "()"] Nil by simp
    then show ?thesis by (simp add: timer_check_loop.simps)
  next
    case (Cons x xs)
    have R: "tmr_inv s (x # xs)" using I(2) Cons by simp
    have e: "\<not> rt_list_isempty (LHead ()) (tmlinks s)" "rt_list_entry (lnext (tmlinks s) (LHead ())) = Some x"
      using tq.rep_empty_at [OF tmr_invD(1) [OF R], of "()"] tq.rep_first_at [OF tmr_invD(1) [OF R], of "()"] by auto
    have "timeout_tick (timers s x) \<noteq> now" using Nil.prems(3,5) Cons by (auto simp: tdist_def)
    moreover have "unat (timeout_tick (timers s x) - now) < HALF"
      using tmr_invD(3) [OF R, of x] Nil.prems(3) by (simp add: tdist_def)
    ultimately have "\<not> now - timeout_tick (timers s x) < RT_TICK_MAX div 2" using due_iff by blast
    then show ?thesis using e by (simp add: timer_check_loop.simps)
  qed
  then show ?case using Nil.prems by (auto simp: timed_out_def)
next
  case (Cons u us)
  have K: "kernel_inv s L (Thread_timer u # (map Thread_timer us @ T))" using Cons.prems(1) by simp
  have du: "tdist s (Thread_timer u) = 0" using Cons.prems(4) by simp
  obtain s3 where s3: "timer_check_loop cb now s = timer_check_loop cb now s3"
    "kernel_inv s3 (wake s u L) (map Thread_timer us @ T)" "rt_current_thread s3 \<noteq> None" "rt_tick s3 = now"
    "timers s3 = timers s"
    "threads s3 = (threads s)(u := (threads s u)\<lparr>error := - RT_ETIMEOUT, stat := RT_THREAD_READY\<rparr>)"
    "rt_scheduler_lock_nest s3 = rt_scheduler_lock_nest s"
    "rt_scheduler_lock_nest s = 0 \<longrightarrow>
       (\<exists>p. highest (wake s u L) p \<and> rt_current_thread s3 = Some (hd (wake s u L (HPrio p))))" "thread_frame s s3"
    using timer_check_thread [OF K Cons.prems(2) du Cons.prems(3)] by blast
  have td: "tdist s3 = tdist s" using s3(4,5) Cons.prems(3) by (auto simp: tdist_def fun_eq_iff)
  have "\<And>v. v \<in> set us \<Longrightarrow> tdist s3 (Thread_timer v) = 0" "T = [] \<or> tdist s3 (hd T) \<noteq> 0"
    using Cons.prems(4,5) td by auto
  from Cons.IH [OF s3(2,3,4) this]
  obtain s' where s': "timer_check_loop cb now s3 = Some s'" "kernel_inv s' (fold (wake s3) us (wake s u L)) T"
    "threads s' = timed_out (set us) s3" "rt_current_thread s' \<noteq> None" "rt_tick s' = now" "timers s' = timers s3"
    "rt_scheduler_lock_nest s' = rt_scheduler_lock_nest s3"
    "rt_scheduler_lock_nest s3 = 0 \<and> us \<noteq> [] \<longrightarrow> (\<exists>p. highest (fold (wake s3) us (wake s u L)) p
       \<and> rt_current_thread s' = Some (hd (fold (wake s3) us (wake s u L) (HPrio p))))" "us = [] \<longrightarrow> s' = s3" "thread_frame s3 s'"
    by blast
  have w: "fold (wake s3) us M = fold (wake s) us M" for M
    by (rule fold_wake_cong) (simp add: s3(6))
  have th: "timed_out (set us) s3 = timed_out (set (u # us)) s"
    by (auto simp: timed_out_def s3(6) fun_eq_iff)
  show ?case
    using s3 s' thread_frame_trans [OF s3(9) s'(10)] unfolding w th by (cases "us = []") auto
qed

section \<open>One tick\<close>

text \<open>
  When time moves on by one, every pending timer comes one tick nearer, as long as none was already
  at its timeout.
\<close>

lemma kernel_inv_tick:
  assumes K: "kernel_inv s L T" and pos: "\<And>x. x \<in> set T \<Longrightarrow> 0 < tdist s x"
  shows "kernel_inv (s\<lparr>rt_tick := rt_tick s + 1\<rparr>) L T"
    and "x \<in> set T \<Longrightarrow> tdist (s\<lparr>rt_tick := rt_tick s + 1\<rparr>) x = tdist s x - 1"
proof -
  note I = kernel_invD [OF K]
  let ?s = "s\<lparr>rt_tick := rt_tick s + 1\<rparr>"
  have td: "tdist ?s x = tdist s x - 1" if "x \<in> set T" for x
  proof -
    let ?d = "timeout_tick (timers s x) - rt_tick s"
    have e: "timeout_tick (timers s x) - (rt_tick s + 1) = ?d - 1" by simp
    have "1 \<le> ?d" using pos [OF that] by (simp add: tdist_def word_le_nat_alt)
    then show ?thesis using unat_sub [of 1 ?d] by (simp add: tdist_def e)
  qed
  show "x \<in> set T \<Longrightarrow> tdist ?s x = tdist s x - 1" by (rule td)
  have "sorted (map (tdist s) T)" by (rule tmr_invD(2) [OF I(2)])
  then have "sorted (map (\<lambda>x. tdist s x - 1) T)" by (induction T) auto
  moreover have "map (tdist ?s) T = map (\<lambda>x. tdist s x - 1) T" using td by simp
  ultimately have "sorted (map (tdist ?s) T)" by metis
  moreover have "activated ?s = activated s" by (simp add: activated_def fun_eq_iff)
  ultimately have "tmr_inv ?s T"
    using tmr_invD [OF I(2)] td by (auto simp: tmr_inv_def intro: le_less_trans [OF diff_le_self])
  moreover have "sched_inv ?s L" using I(1) ready_ok_cong(2) [of ?s s L] by simp
  ultimately show "kernel_inv ?s L T"
    using I(5,6) by (simp add: kernel_inv_def started_ok_def oneshot_def)
qed

lemma kernel_inv_slice:
  assumes "kernel_inv s L T"
  shows "kernel_inv (upd_thread t (\<lambda>th. th\<lparr>remaining_tick := f th\<rparr>) s) L T"
proof -
  note I = kernel_invD [OF assms]
  let ?s = "upd_thread t (\<lambda>th. th\<lparr>remaining_tick := f th\<rparr>) s"
  have "ready_ok ?s L" using I(3) ready_ok_upd_thread by simp
  then have "sched_inv ?s L" using I(1) by (auto simp: sched_inv_def upd_thread_def prio_ok_def)
  moreover have "tmr_inv ?s T" using I(2) tmr_inv_cong [of ?s s T] by (simp add: upd_thread_def)
  ultimately show ?thesis
    using I(5,6) by (auto simp: kernel_inv_def started_ok_def oneshot_def stack_ok_def upd_thread_def)
qed

text \<open>The ready lists after the time slice was charged.\<close>

definition sliced :: "kernel \<Rightarrow> nat \<Rightarrow> (thead \<Rightarrow> nat list) \<Rightarrow> thead \<Rightarrow> nat list" where
  "sliced s c L = (if remaining_tick (threads s c) = 1
     then rotated c (HPrio (unat (current_priority (threads s c)))) L else L)"

definition slice_left :: "rt_thread \<Rightarrow> u32" where
  "slice_left th = (if remaining_tick th = 1 then init_tick th else remaining_tick th - 1)"

text \<open>Charging the slice: the state in which the timers are checked.\<close>

lemma charge_slice:
  assumes K: "kernel_inv s L T" and pos: "\<And>x. x \<in> set T \<Longrightarrow> 0 < tdist s x"
    and c: "rt_current_thread s = Some c" and st: "stat (threads s c) = RT_THREAD_READY"
  shows "\<exists>s3. rt_tick_increase cb s = rt_timer_check cb s3 \<and> kernel_inv s3 (sliced s c L) T
     \<and> rt_current_thread s3 \<noteq> None \<and> rt_tick s3 = rt_tick s + 1 \<and> timers s3 = timers s
     \<and> rt_scheduler_lock_nest s3 = rt_scheduler_lock_nest s
     \<and> threads s3 = (threads s)(c := (threads s c)\<lparr>remaining_tick := slice_left (threads s c)\<rparr>)
     \<and> thread_frame (s\<lparr>rt_tick := rt_tick s + 1\<rparr>) s3
     \<and> (rt_scheduler_lock_nest s = 0 \<and> (\<exists>p. highest L p \<and> Some c = Some (hd (L (HPrio p)))) \<longrightarrow>
          (\<exists>p. highest (sliced s c L) p \<and> rt_current_thread s3 = Some (hd (sliced s c L (HPrio p)))))"
proof -
  let ?s1 = "s\<lparr>rt_tick := rt_tick s + 1\<rparr>"
  let ?s2 = "upd_thread c (\<lambda>th. th\<lparr>remaining_tick := remaining_tick th - 1\<rparr>) ?s1"
  let ?sy = "upd_thread c (\<lambda>th. th\<lparr>remaining_tick := init_tick th\<rparr>) ?s2"
  have K1: "kernel_inv ?s1 L T" by (rule kernel_inv_tick(1) [OF K pos])
  have K2: "kernel_inv ?s2 L T" by (rule kernel_inv_slice [OF K1])
  have z: "(remaining_tick (threads ?s2 c) = 0) = (remaining_tick (threads s c) = 1)"
    by (simp add: upd_thread_def)
  show ?thesis
  proof (cases "remaining_tick (threads s c) = 1")
    case False
    then show ?thesis using K2 z c thread_frame_intros(5) [of ?s1 c "\<lambda>th. th\<lparr>remaining_tick := remaining_tick th - 1\<rparr>"]
      by (intro exI [of _ ?s2]) (simp add: rt_tick_increase_def rt_thread_self_def Let_def sliced_def slice_left_def upd_thread_def)
  next
    case True
    have Ky: "kernel_inv ?sy L T" by (rule kernel_inv_slice [OF K2])
    have cy: "rt_current_thread ?sy = Some c" "stat (threads ?sy c) = RT_THREAD_READY"
      "current_priority (threads ?sy c) = current_priority (threads s c)"
      using c st by (simp_all add: upd_thread_def)
    from rt_thread_yield_spec [OF Ky cy(1,2)] obtain s3 where
      s3: "rt_thread_yield ?sy = Some (RT_EOK, s3)" "kernel_inv s3 (sliced s c L) T" "thread_frame ?sy s3"
      "threads s3 = threads ?sy" "timers s3 = timers ?sy" "rt_current_thread s3 \<noteq> None"
      "L (HPrio (unat (current_priority (threads s c)))) = [c] \<longrightarrow> s3 = ?sy"
      "L (HPrio (unat (current_priority (threads s c)))) \<noteq> [c] \<and> rt_scheduler_lock_nest ?sy = 0 \<longrightarrow>
         (\<exists>p. highest (sliced s c L) p \<and> rt_current_thread s3 = Some (hd (sliced s c L (HPrio p))))"
      using True unfolding cy(3) sliced_def by auto
    have fr: "thread_frame ?s1 s3" by (rule thread_frame_trans [OF thread_frame_trans [OF thread_frame_intros(5) thread_frame_intros(5)] s3(3)])
    have ch: "\<exists>p. highest (sliced s c L) p \<and> rt_current_thread s3 = Some (hd (sliced s c L (HPrio p)))"
      if "rt_scheduler_lock_nest s = 0" "\<exists>p. highest L p \<and> Some c = Some (hd (L (HPrio p)))"
    proof (cases "L (HPrio (unat (current_priority (threads s c)))) = [c]")
      case True
      then have "sliced s c L = L" by (auto simp: sliced_def rotated_def)
      then show ?thesis using that(2) s3(7) True c by (simp add: upd_thread_def)
    next
      case False
      then show ?thesis using s3(8) that(1) by (simp add: upd_thread_def)
    qed
    note F = thread_frameD(7,9) [OF s3(3)]
    have "rt_tick_increase cb s = rt_timer_check cb s3"
      using z True c s3(1) by (simp add: rt_tick_increase_def rt_thread_self_def Let_def upd_thread_def)
    then show ?thesis using s3(2,4-6) F True fr ch
      by (intro exI [of _ s3]) (simp add: upd_thread_def slice_left_def)
  qed
qed

text \<open>
  A whole tick. \<open>us\<close> are the threads whose timers are due at the new tick, in the order of the timer
  list; the remaining timers \<open>T\<close> lie further ahead.
\<close>

lemma rt_tick_increase_switch:
  assumes K: "kernel_inv s L (map Thread_timer us @ T)"
    and c: "rt_current_thread s = Some c" and st: "stat (threads s c) = RT_THREAD_READY"
    and due: "\<And>u. u \<in> set us \<Longrightarrow> tdist s (Thread_timer u) = 1"
    and later: "\<And>x. x \<in> set T \<Longrightarrow> 1 < tdist s x"
  defines "L' \<equiv> fold (wake s) us (sliced s c L)"
  shows "\<exists>s'. rt_tick_increase cb s = Some s' \<and> kernel_inv s' L' T
     \<and> thread_frame (s\<lparr>rt_tick := rt_tick s + 1\<rparr>) s'
     \<and> threads s' = timed_out (set us) (upd_thread c (\<lambda>th. th\<lparr>remaining_tick := slice_left th\<rparr>) s)
     \<and> (\<forall>x \<in> set T. tdist s' x = tdist s x - 1)
     \<and> (rt_scheduler_lock_nest s = 0 \<and> (\<exists>p. highest L p \<and> Some c = Some (hd (L (HPrio p)))) \<longrightarrow>
          (\<exists>p. highest L' p \<and> rt_current_thread s' = Some (hd (L' (HPrio p)))))"
proof -
  let ?T = "map Thread_timer us @ T"
  have pos: "0 < tdist s x" if "x \<in> set ?T" for x using that due later by fastforce
  obtain s3 where s3: "rt_tick_increase cb s = rt_timer_check cb s3" "kernel_inv s3 (sliced s c L) ?T"
    "rt_current_thread s3 \<noteq> None" "rt_tick s3 = rt_tick s + 1" "timers s3 = timers s"
    "rt_scheduler_lock_nest s3 = rt_scheduler_lock_nest s"
    "threads s3 = (threads s)(c := (threads s c)\<lparr>remaining_tick := slice_left (threads s c)\<rparr>)"
    "thread_frame (s\<lparr>rt_tick := rt_tick s + 1\<rparr>) s3"
    "rt_scheduler_lock_nest s = 0 \<and> (\<exists>p. highest L p \<and> Some c = Some (hd (L (HPrio p)))) \<longrightarrow>
       (\<exists>p. highest (sliced s c L) p \<and> rt_current_thread s3 = Some (hd (sliced s c L (HPrio p))))"
    using charge_slice [OF K pos c st] by blast
  have td: "tdist s3 x = tdist s x - 1" if "x \<in> set ?T" for x
    using kernel_inv_tick(2) [OF K pos that] s3(4,5) by (simp add: tdist_def)
  have "tdist s3 (Thread_timer u) = 0" if "u \<in> set us" for u using td [of "Thread_timer u"] due [OF that] that by simp
  moreover have "T = [] \<or> tdist s3 (hd T) \<noteq> 0"
    using td [of "hd T"] later [of "hd T"] by (cases T) auto
  ultimately obtain s' where s': "timer_check_loop cb (rt_tick s + 1) s3 = Some s'"
    "kernel_inv s' (fold (wake s3) us (sliced s c L)) T" "threads s' = timed_out (set us) s3"
    "rt_tick s' = rt_tick s + 1" "timers s' = timers s3"
    "rt_scheduler_lock_nest s3 = 0 \<and> us \<noteq> [] \<longrightarrow> (\<exists>p. highest (fold (wake s3) us (sliced s c L)) p
       \<and> rt_current_thread s' = Some (hd (fold (wake s3) us (sliced s c L) (HPrio p))))"
    "us = [] \<longrightarrow> s' = s3" "thread_frame s3 s'"
    using timer_check_loop_spec [OF s3(2,3,4)] by blast
  have w: "fold (wake s3) us (sliced s c L) = L'" unfolding L'_def by (rule fold_wake_cong) (simp add: s3(7))
  have th: "threads s' = timed_out (set us) (upd_thread c (\<lambda>th. th\<lparr>remaining_tick := slice_left th\<rparr>) s)"
    using s'(3) s3(7) by (simp add: timed_out_def upd_thread_def fun_eq_iff)
  have ch: "\<exists>p. highest L' p \<and> rt_current_thread s' = Some (hd (L' (HPrio p)))"
    if "rt_scheduler_lock_nest s = 0" "\<exists>p. highest L p \<and> Some c = Some (hd (L (HPrio p)))"
    using s'(6,7) s3(6,9) that w by (cases "us = []") auto
  have "tdist s' x = tdist s x - 1" if "x \<in> set T" for x
    using td [of x] that s' s3(4) by (simp add: tdist_def)
  moreover have "rt_tick_increase cb s = Some s'" using s3(1,4) s'(1) by (simp add: rt_timer_check_def rt_tick_get_def)
  ultimately show ?thesis using s'(2) thread_frame_trans [OF s3(8) s'(8)] th ch w by auto
qed

lemma rt_tick_increase_spec:
  assumes K: "kernel_inv s L (map Thread_timer us @ T)"
    and c: "rt_current_thread s = Some c" and st: "stat (threads s c) = RT_THREAD_READY"
    and due: "\<And>u. u \<in> set us \<Longrightarrow> tdist s (Thread_timer u) = 1"
    and later: "\<And>x. x \<in> set T \<Longrightarrow> 1 < tdist s x"
  shows "\<exists>s'. rt_tick_increase cb s = Some s' \<and> kernel_inv s' (fold (wake s) us (sliced s c L)) T
     \<and> rt_tick s' = rt_tick s + 1
     \<and> (\<forall>u \<in> set us. stat (threads s' u) = RT_THREAD_READY \<and> error (threads s' u) = - RT_ETIMEOUT)
     \<and> (\<forall>u. u \<notin> set us \<and> u \<noteq> c \<longrightarrow> threads s' u = threads s u)
     \<and> remaining_tick (threads s' c) = slice_left (threads s c)
     \<and> (\<forall>x \<in> set T. tdist s' x = tdist s x - 1)"
proof -
  obtain s' where s': "rt_tick_increase cb s = Some s'" "kernel_inv s' (fold (wake s) us (sliced s c L)) T"
    "thread_frame (s\<lparr>rt_tick := rt_tick s + 1\<rparr>) s'"
    "threads s' = timed_out (set us) (upd_thread c (\<lambda>th. th\<lparr>remaining_tick := slice_left th\<rparr>) s)" "\<forall>x \<in> set T. tdist s' x = tdist s x - 1"
    using rt_tick_increase_switch [OF K c st due later] by blast
  then show ?thesis using thread_frameD(9) [OF s'(3)] by (auto simp: timed_out_def upd_thread_def)
qed

end
