(* ===== verification/RT_Ipc.thy ===== *)
theory RT_Ipc
  imports RT_Clock
begin

text \<open>
  The part of \<open>src/ipc.c\<close> all IPC objects share: a list of suspended threads per object, ordered by
  arrival or by priority, and the functions that put a thread on it and wake threads from it.

  A call that waits stops at \<open>rt_schedule\<close>; what remains of it runs when its thread is scheduled
  again, and looks at the thread's error code to learn why it was woken.
\<close>

definition RT_IPC_FLAG_FIFO :: u8 where "RT_IPC_FLAG_FIFO = 0"
definition RT_IPC_FLAG_PRIO :: u8 where "RT_IPC_FLAG_PRIO = 1"
definition RT_WAITING_FOREVER :: int where "RT_WAITING_FOREVER = -1"

section \<open>Operations\<close>

definition rt_ipc_object_init :: "thead \<Rightarrow> kernel \<Rightarrow> kernel" where
  "rt_ipc_object_init h s = upd_tl (rt_list_init (LHead h)) s"

text \<open>The node before which a thread of priority \<open>prio\<close> is inserted: the first one of lower urgency.\<close>

partial_function (option) prio_walk ::
  "tnode links \<Rightarrow> (nat \<Rightarrow> rt_thread) \<Rightarrow> u8 \<Rightarrow> tnode \<Rightarrow> tnode \<Rightarrow> tnode option" where
  "prio_walk k th prio list n =
    (if n = list then Some n
     else do {
       sthread \<leftarrow> rt_list_entry n;
       if prio < current_priority (th sthread) then Some n
       else prio_walk k th prio list (lnext k n) })"

text \<open>A flag that is neither of the two leaves the suspended thread on no list.\<close>

definition rt_ipc_list_suspend :: "thead \<Rightarrow> nat \<Rightarrow> u8 \<Rightarrow> kernel \<Rightarrow> kernel option" where
  "rt_ipc_list_suspend h t flag s = do {
     (_, s1) \<leftarrow> rt_thread_suspend t s;
     if flag = RT_IPC_FLAG_FIFO
     then Some (upd_tl (rt_list_insert_before (LHead h) (LElem t)) s1)
     else if flag = RT_IPC_FLAG_PRIO
     then do {
       n \<leftarrow> prio_walk (tlinks s1) (threads s1) (current_priority (threads s1 t)) (LHead h) (lnext (tlinks s1) (LHead h));
       Some (upd_tl (rt_list_insert_before n (LElem t)) s1) }
     else Some s1 }"

definition rt_ipc_list_resume :: "thead \<Rightarrow> kernel \<Rightarrow> kernel option" where
  "rt_ipc_list_resume h s = do {
     t \<leftarrow> rt_list_entry (lnext (tlinks s) (LHead h));
     (_, s1) \<leftarrow> rt_thread_resume t s;
     Some s1 }"

partial_function (option) rt_ipc_list_resume_all :: "thead \<Rightarrow> kernel \<Rightarrow> kernel option" where
  "rt_ipc_list_resume_all h s =
    (if rt_list_isempty (LHead h) (tlinks s) then Some s
     else do {
       t \<leftarrow> rt_list_entry (lnext (tlinks s) (LHead h));
       let s1 = upd_thread t (\<lambda>th. th\<lparr>error := - RT_ERROR\<rparr>) s;
       (_, s2) \<leftarrow> rt_thread_resume t s1;
       rt_ipc_list_resume_all h s2 })"

text \<open>
  The code every waiting call runs to wait for at most \<open>time\<close> ticks (without end when \<open>time\<close> is
  negative): suspend the thread on the list and arm its timer.
\<close>

definition ipc_wait :: "thead \<Rightarrow> nat \<Rightarrow> u8 \<Rightarrow> int \<Rightarrow> kernel \<Rightarrow> kernel option" where
  "ipc_wait h t flag time s = do {
     s1 \<leftarrow> rt_ipc_list_suspend h t flag s;
     if time > 0
     then do {
       let (_, s2) = rt_timer_control (Thread_timer t) (RT_TIMER_CTRL_SET_TIME (of_int time)) s1;
       rt_timer_start (Thread_timer t) s2 }
     else Some s1 }"

section \<open>Waiting threads\<close>

fun wait_head :: "thead \<Rightarrow> bool" where
  "wait_head (HPrio p) = False"
| "wait_head HDefunct = False"
| "wait_head h = True"

lemma wait_head_not_prio [simp]: "wait_head h \<Longrightarrow> h \<noteq> HPrio p" "wait_head h \<Longrightarrow> HPrio p \<noteq> h"
  by auto

definition ipc_inv :: "kernel \<Rightarrow> (thead \<Rightarrow> nat list) \<Rightarrow> timer_id list \<Rightarrow> bool" where
  "ipc_inv s L T \<longleftrightarrow> kernel_inv s L T
     \<and> (\<forall>h t. wait_head h \<and> t \<in> set (L h) \<longrightarrow> stat (threads s t) = RT_THREAD_SUSPEND)"

lemma ipc_invD:
  assumes "ipc_inv s L T"
  shows "kernel_inv s L T" "wait_head h \<Longrightarrow> t \<in> set (L h) \<Longrightarrow> stat (threads s t) = RT_THREAD_SUSPEND"
  using assms by (auto simp: ipc_inv_def)

text \<open>Where a thread goes on a waiting list.\<close>

definition enqueue :: "u8 \<Rightarrow> (nat \<Rightarrow> rt_thread) \<Rightarrow> nat \<Rightarrow> nat list \<Rightarrow> nat list" where
  "enqueue flag th t xs =
    (if flag = RT_IPC_FLAG_PRIO
     then takeWhile (\<lambda>x. \<not> current_priority (th t) < current_priority (th x)) xs @ t
          # dropWhile (\<lambda>x. \<not> current_priority (th t) < current_priority (th x)) xs
     else xs @ [t])"

lemma set_enqueue: "set (enqueue flag th t xs) = insert t (set xs)"
proof -
  let ?P = "\<lambda>x. \<not> current_priority (th t) < current_priority (th x)"
  have "set (takeWhile ?P xs) \<union> set (dropWhile ?P xs) = set xs"
    by (metis set_append takeWhile_dropWhile_id)
  then show ?thesis by (auto simp: enqueue_def)
qed

lemma enqueue_cong:
  "(\<And>x. current_priority (th' x) = current_priority (th x)) \<Longrightarrow> enqueue flag th' t xs = enqueue flag th t xs"
  by (simp add: enqueue_def)

text \<open>A list in the order of urgency stays so, and equals keep their order of arrival.\<close>

lemma sorted_takeWhile_insert:
  assumes "sorted (map f xs)"
  shows "sorted (map f (takeWhile (\<lambda>x. \<not> f t < f x) xs @ t # dropWhile (\<lambda>x. \<not> f t < f x) xs))"
  using assms by (induction xs) (auto simp: not_less dest: set_takeWhileD set_dropWhileD)

lemma enqueue_sorted:
  assumes "sorted (map (\<lambda>x. current_priority (th x)) xs)"
  shows "sorted (map (\<lambda>x. current_priority (th x)) (enqueue RT_IPC_FLAG_PRIO th t xs))"
  using sorted_takeWhile_insert [of "\<lambda>x. current_priority (th x)" xs t] assms
  by (simp add: enqueue_def)

lemma prio_walk_spec:
  assumes R: "lists_rep k L" and L: "L h = us @ vs"
    and n: "n = (if vs = [] then LHead h else LElem (hd vs))"
  shows "prio_walk k th prio (LHead h) n
    = Some (let ws = dropWhile (\<lambda>x. \<not> prio < current_priority (th x)) vs
            in if ws = [] then LHead h else LElem (hd ws))"
  using L n
proof (induction vs arbitrary: us n)
  case Nil
  then show ?case by (simp add: prio_walk.simps)
next
  case (Cons v vs)
  have nx: "lnext k (LElem v) = (if vs = [] then LHead h else LElem (hd vs))"
    by (rule lists_rep_next_elem [OF R Cons.prems(1)])
  have "prio_walk k th prio (LHead h) (lnext k (LElem v))
    = Some (let ws = dropWhile (\<lambda>x. \<not> prio < current_priority (th x)) vs
            in if ws = [] then LHead h else LElem (hd ws))"
    by (rule Cons.IH [of "us @ [v]"]) (use Cons.prems nx in auto)
  then show ?case using Cons.prems(2) by (subst prio_walk.simps) (simp add: Let_def)
qed

lemma lists_rep_insert_before_node:
  assumes R: "lists_rep k L" and L: "L h = us @ vs" and off: "\<forall>h'. t \<notin> set (L h')"
  shows "lists_rep (rt_list_insert_before (if vs = [] then LHead h else LElem (hd vs)) (LElem t) k)
    (L(h := us @ t # vs))"
proof (cases vs)
  case Nil
  then show ?thesis using tq.rep_push_back [OF R off, of h] L by simp
next
  case (Cons v ws)
  then show ?thesis
    using lists_rep_insert_before_elem [OF R off, where h = h and us = us and u = v and vs = ws] L by simp
qed

section \<open>Suspending on a list\<close>

definition parked :: "thead \<Rightarrow> u8 \<Rightarrow> (nat \<Rightarrow> rt_thread) \<Rightarrow> nat \<Rightarrow> (thead \<Rightarrow> nat list) \<Rightarrow> thead \<Rightarrow> nat list" where
  "parked h flag th t L = (unlink t L)(h := enqueue flag th t (L h))"

lemma rt_ipc_list_suspend_spec:
  assumes K: "ipc_inv s L T" and st: "stat (threads s t) = RT_THREAD_READY" and h: "wait_head h"
    and flag: "flag = RT_IPC_FLAG_FIFO \<or> flag = RT_IPC_FLAG_PRIO"
  shows "\<exists>s'. rt_ipc_list_suspend h t flag s = Some s' \<and> ipc_inv s' (parked h flag (threads s) t L) T
     \<and> thread_frame s s' \<and> threads s' = (threads s)(t := (threads s t)\<lparr>stat := RT_THREAD_SUSPEND\<rparr>)
     \<and> timers s' = timers s \<and> rt_current_thread s' = rt_current_thread s"
proof -
  note J = ipc_invD [OF K]
  obtain s1 where s1: "rt_thread_suspend t s = Some (RT_EOK, s1)" "kernel_inv s1 (unlink t L) T" "thread_frame s s1"
    "threads s1 = (threads s)(t := (threads s t)\<lparr>stat := RT_THREAD_SUSPEND\<rparr>)" "timers s1 = timers s"
    "rt_current_thread s1 = rt_current_thread s"
    using rt_thread_suspend_spec [OF J(1) st] by blast
  note R1 = kernel_invD(4) [OF s1(2)]
  have th: "t \<notin> set (L h)" using J(2) [OF h, of t] st by auto
  then have uh: "unlink t L h = L h" by (rule unlink_off)
  have off: "\<forall>h'. t \<notin> set (unlink t L h')" by (rule unlink_unlinked [OF J(1)])
  let ?f = "\<lambda>x. \<not> current_priority (threads s t) < current_priority (threads s x)"
  have cp: "current_priority (threads s1 x) = current_priority (threads s x)" for x by (simp add: s1(4))
  define n :: tnode where "n = (if flag = RT_IPC_FLAG_FIFO then LHead h
     else let ws = dropWhile ?f (L h) in if ws = [] then LHead h else LElem (hd ws))"
  have nx: "lnext (tlinks s1) (LHead h) = (if L h = [] then LHead h else LElem (hd (L h)))"
    using lists_repD(2) [OF R1, of h] uh by (cases "L h") auto
  have "prio_walk (tlinks s1) (threads s1) (current_priority (threads s1 t)) (LHead h) (lnext (tlinks s1) (LHead h))
     = Some (let ws = dropWhile ?f (L h) in if ws = [] then LHead h else LElem (hd ws))"
    using prio_walk_spec [OF R1, where h = h and us = "[]" and vs = "L h"] uh nx by (simp add: cp)
  then have run: "rt_ipc_list_suspend h t flag s = Some (upd_tl (rt_list_insert_before n (LElem t)) s1)"
    using flag s1(1) by (auto simp: rt_ipc_list_suspend_def n_def RT_IPC_FLAG_FIFO_def RT_IPC_FLAG_PRIO_def)
  let ?s' = "upd_tl (rt_list_insert_before n (LElem t)) s1"
  have "lists_rep (rt_list_insert_before n (LElem t) (tlinks s1)) (parked h flag (threads s) t L)"
  proof (cases "flag = RT_IPC_FLAG_FIFO")
    case True
    then show ?thesis
      using tq.rep_push_back [OF R1 off, of h] uh
      by (simp add: n_def parked_def enqueue_def RT_IPC_FLAG_FIFO_def RT_IPC_FLAG_PRIO_def)
  next
    case False
    then show ?thesis
      using lists_rep_insert_before_node [OF R1 _ off, where h = h and us = "takeWhile ?f (L h)" and vs = "dropWhile ?f (L h)"]
        uh flag by (simp add: n_def parked_def enqueue_def Let_def)
  qed
  then have "kernel_inv ?s' (parked h flag (threads s) t L) T"
    using kernel_inv_relist [OF s1(2)] h by (simp add: parked_def)
  moreover have "stat (threads ?s' u) = RT_THREAD_SUSPEND"
    if "wait_head g" "u \<in> set (parked h flag (threads s) t L g)" for g u
    using that J(2) [of g u] unlink_set [OF kernel_invD(8) [OF J(1)]] h
    by (auto simp: parked_def set_enqueue upd_tl_def s1(4) split: if_splits)
  ultimately have "ipc_inv ?s' (parked h flag (threads s) t L) T" by (auto simp: ipc_inv_def)
  moreover have "thread_frame s ?s'" by (rule thread_frame_trans [OF s1(3) thread_frame_intros(6)])
  ultimately show ?thesis using run s1 by (auto simp: upd_tl_def)
qed

text \<open>Waiting with a time limit.\<close>

lemma of_int_half:
  "0 < time \<Longrightarrow> time < 0x7fffffff \<Longrightarrow> (of_int time :: u32) < RT_TICK_MAX div 2 \<and> unat (of_int time :: u32) = nat time"
proof -
  assume "0 < time" "time < 0x7fffffff"
  then have "unat (of_int time :: u32) = nat time"
    by (simp add: unsigned_of_int take_bit_eq_mod nat_mod_distrib)
  then show ?thesis using half_unat \<open>time < 0x7fffffff\<close> by (simp add: word_less_nat_alt HALF_def)
qed

lemma ipc_wait_spec:
  assumes K: "ipc_inv s L T" and st: "stat (threads s t) = RT_THREAD_READY" and h: "wait_head h"
    and flag: "flag = RT_IPC_FLAG_FIFO \<or> flag = RT_IPC_FLAG_PRIO" and time: "time < 0x7fffffff"
  shows "\<exists>s' T'. ipc_wait h t flag time s = Some s' \<and> ipc_inv s' (parked h flag (threads s) t L) T'
     \<and> thread_frame s s' \<and> threads s' = (threads s)(t := (threads s t)\<lparr>stat := RT_THREAD_SUSPEND\<rparr>)
     \<and> rt_current_thread s' = rt_current_thread s
     \<and> (if time > 0 then T' = insert_timer (tdist s') (Thread_timer t) T \<and> tdist s' (Thread_timer t) = nat time
        else T' = T)
     \<and> (\<forall>x. x \<noteq> Thread_timer t \<longrightarrow> tdist s' x = tdist s x)"
proof -
  note J = ipc_invD [OF K]
  have nT: "Thread_timer t \<notin> set T" using kernel_invD(6) [OF J(1), of t] st by auto
  obtain s1 where s1: "rt_ipc_list_suspend h t flag s = Some s1" "ipc_inv s1 (parked h flag (threads s) t L) T"
    "thread_frame s s1" "threads s1 = (threads s)(t := (threads s t)\<lparr>stat := RT_THREAD_SUSPEND\<rparr>)"
    "rt_current_thread s1 = rt_current_thread s" "timers s1 = timers s"
    using rt_ipc_list_suspend_spec [OF K st h flag] by blast
  have td: "tdist s1 = tdist s" using s1(6) thread_frameD(9) [OF s1(3)] by (auto simp: tdist_def fun_eq_iff)
  show ?thesis
  proof (cases "time > 0")
    case False
    then show ?thesis using s1 td by (simp add: ipc_wait_def)
  next
    case True
    note tm = of_int_half [OF True time]
    have st1: "stat (threads s1 t) = RT_THREAD_SUSPEND" by (simp add: s1(4))
    from start_thread_timer [OF ipc_invD(1) [OF s1(2)] st1 conjunct1 [OF tm]] obtain s' where
      s': "rt_timer_start (Thread_timer t) (snd (rt_timer_control (Thread_timer t) (RT_TIMER_CTRL_SET_TIME (of_int time)) s1)) = Some s'"
      "kernel_inv s' (parked h flag (threads s) t L) (insert_timer (tdist s') (Thread_timer t) T)"
      "tdist s' (Thread_timer t) = nat time" "thread_frame s1 s'" "threads s' = threads s1"
      "rt_current_thread s' = rt_current_thread s1" "\<forall>x. x \<noteq> Thread_timer t \<longrightarrow> tdist s' x = tdist s1 x"
      unfolding remove1_idem [OF nT] conjunct2 [OF tm] by blast
    have "ipc_inv s' (parked h flag (threads s) t L) (insert_timer (tdist s') (Thread_timer t) T)"
      using s'(2,5) s1(2) by (auto simp: ipc_inv_def)
    then show ?thesis using True s' s1 td thread_frame_trans [OF s1(3) s'(4)] by (auto simp: ipc_wait_def)
  qed
qed

section \<open>Waking\<close>

lemma ipc_inv_make_ready:
  assumes K: "ipc_inv s L T" and K': "kernel_inv s' (make_ready t p L) T'"
    and th: "\<And>u. u \<noteq> t \<Longrightarrow> stat (threads s' u) = stat (threads s u)"
  shows "ipc_inv s' (make_ready t p L) T'"
  using K' th ipc_invD(2) [OF K] make_ready_set [of L, OF kernel_invD(8) [OF ipc_invD(1) [OF K]]]
  by (auto simp: ipc_inv_def)

lemma rt_ipc_list_resume_spec:
  assumes K: "ipc_inv s L T" and h: "wait_head h" and L: "L h = t # ts"
  shows "\<exists>s'. rt_ipc_list_resume h s = Some s'
     \<and> ipc_inv s' (make_ready t (unat (current_priority (threads s t))) L) (remove1 (Thread_timer t) T)
     \<and> thread_frame s s' \<and> threads s' = (threads s)(t := (threads s t)\<lparr>stat := RT_THREAD_READY\<rparr>)
     \<and> timers s' = timers s \<and> rt_current_thread s' = rt_current_thread s"
proof -
  note J = ipc_invD [OF K]
  have st: "stat (threads s t) = RT_THREAD_SUSPEND" using J(2) [OF h, of t] L by simp
  have e: "rt_list_entry (lnext (tlinks s) (LHead h)) = Some t"
    using tq.rep_first_at [OF kernel_invD(4) [OF J(1)], of h] L by simp
  from rt_thread_resume_spec [OF J(1) st] obtain s' where
    s': "rt_thread_resume t s = Some (RT_EOK, s')"
    "kernel_inv s' (make_ready t (unat (current_priority (threads s t))) L) (remove1 (Thread_timer t) T)"
    "thread_frame s s'" "threads s' = (threads s)(t := (threads s t)\<lparr>stat := RT_THREAD_READY\<rparr>)"
    "timers s' = timers s" "rt_current_thread s' = rt_current_thread s" by blast
  have "ipc_inv s' (make_ready t (unat (current_priority (threads s t))) L) (remove1 (Thread_timer t) T)"
    by (rule ipc_inv_make_ready [OF K s'(2)]) (simp add: s'(4))
  then show ?thesis using s' e by (simp add: rt_ipc_list_resume_def)
qed

text \<open>After the first thread of a waiting list was made ready, the rest of the list is left.\<close>

lemma make_ready_wait:
  assumes K: "ipc_inv s L T" and h: "wait_head h" and L: "L h = t # ts"
  shows "make_ready t p L h = ts" "g \<noteq> h \<Longrightarrow> g \<noteq> HPrio p \<Longrightarrow> make_ready t p L g = L g"
proof -
  note R = kernel_invD(4) [OF ipc_invD(1) [OF K]]
  show "make_ready t p L h = ts" using h L by (simp add: make_ready_def unlink_def)
  show "make_ready t p L g = L g" if "g \<noteq> h" "g \<noteq> HPrio p"
    using unlink_other [OF R, of t h g] that L by (simp add: make_ready_def)
qed

lemma make_ready_prio:
  assumes K: "ipc_inv s L T" and h: "wait_head h" and L: "L h = t # ts"
  shows "make_ready t p L (HPrio p) = L (HPrio p) @ [t]" "q \<noteq> p \<Longrightarrow> make_ready t p L (HPrio q) = L (HPrio q)"
proof -
  note R = kernel_invD(4) [OF ipc_invD(1) [OF K]]
  have "unlink t L (HPrio q) = L (HPrio q)" for q using unlink_other [OF R, of t h "HPrio q"] h L by simp
  then show "make_ready t p L (HPrio p) = L (HPrio p) @ [t]" "q \<noteq> p \<Longrightarrow> make_ready t p L (HPrio q) = L (HPrio q)"
    by (simp_all add: make_ready_def)
qed

text \<open>Updates of a thread that leave its state, priority and stack alone.\<close>

definition soft :: "(rt_thread \<Rightarrow> rt_thread) \<Rightarrow> bool" where
  "soft f \<longleftrightarrow> (\<forall>th. stat (f th) = stat th \<and> current_priority (f th) = current_priority th
     \<and> number_mask (f th) = number_mask th \<and> sp (f th) = sp th \<and> stack_addr (f th) = stack_addr th
     \<and> stack_size (f th) = stack_size th)"

lemma soft_updates [simp]:
  "soft (\<lambda>th. th\<lparr>error := e\<rparr>)" "soft (\<lambda>th. th\<lparr>event_set := x, event_info := y\<rparr>)" "soft (\<lambda>th. th\<lparr>event_set := x\<rparr>)"
  by (simp_all add: soft_def)

lemma ipc_inv_soft:
  assumes K: "ipc_inv s L T" and f: "soft f"
  shows "ipc_inv (upd_thread t f s) L T"
proof -
  note I = kernel_invD [OF ipc_invD(1) [OF K]]
  let ?s = "upd_thread t f s"
  have ft: "stat (f th) = stat th" "current_priority (f th) = current_priority th" "number_mask (f th) = number_mask th"
    "prio_ok (f th) = prio_ok th" "stack_ok (f th) = stack_ok th" for th
    using f by (auto simp: soft_def prio_ok_def stack_ok_def)
  have "ready_ok ?s L" using I(3) ready_ok_upd_thread [of f s t] ft by simp
  then have "sched_inv ?s L" using I(1) ft by (auto simp: sched_inv_def upd_thread_def)
  moreover have "tmr_inv ?s T" using I(2) tmr_inv_cong [of ?s s T] by (simp add: upd_thread_def)
  ultimately have "kernel_inv ?s L T"
    using I(5,6) ft by (auto simp: kernel_inv_def started_ok_def oneshot_def upd_thread_def)
  then show ?thesis using K ft by (auto simp: ipc_inv_def upd_thread_def)
qed

text \<open>Waking a whole list: every thread on it becomes ready and learns that its call failed.\<close>

definition failed :: "nat set \<Rightarrow> (nat \<Rightarrow> rt_thread) \<Rightarrow> nat \<Rightarrow> rt_thread" where
  "failed A th u = (if u \<in> A then (th u)\<lparr>error := - RT_ERROR, stat := RT_THREAD_READY\<rparr> else th u)"

lemma rt_ipc_list_resume_all_spec:
  assumes "ipc_inv s L T" "wait_head h" "L h = ts"
  shows "\<exists>s'. rt_ipc_list_resume_all h s = Some s'
     \<and> ipc_inv s' (fold (wake s) ts L) (filter (\<lambda>x. x \<notin> Thread_timer ` set ts) T)
     \<and> thread_frame s s' \<and> threads s' = failed (set ts) (threads s) \<and> timers s' = timers s
     \<and> rt_current_thread s' = rt_current_thread s \<and> fold (wake s) ts L h = []
     \<and> (\<forall>g. wait_head g \<and> g \<noteq> h \<longrightarrow> fold (wake s) ts L g = L g)"
  using assms
proof (induction ts arbitrary: s L T)
  case Nil
  have "rt_list_isempty (LHead h) (tlinks s)"
    using tq.rep_empty_at [OF kernel_invD(4) [OF ipc_invD(1) [OF Nil.prems(1)]], of h] Nil.prems(3) by simp
  then show ?case using Nil.prems by (simp add: rt_ipc_list_resume_all.simps failed_def [abs_def])
next
  case (Cons t ts)
  note J = ipc_invD [OF Cons.prems(1)]
  have e: "\<not> rt_list_isempty (LHead h) (tlinks s)" "rt_list_entry (lnext (tlinks s) (LHead h)) = Some t"
    using tq.rep_empty_at [OF kernel_invD(4) [OF J(1)], of h] tq.rep_first_at [OF kernel_invD(4) [OF J(1)], of h]
      Cons.prems(3) by auto
  let ?s1 = "upd_thread t (\<lambda>th. th\<lparr>error := - RT_ERROR\<rparr>) s"
  have K1: "ipc_inv ?s1 L T" by (rule ipc_inv_soft [OF Cons.prems(1)]) simp
  have st: "stat (threads ?s1 t) = RT_THREAD_SUSPEND"
    using J(2) [OF Cons.prems(2), of t] Cons.prems(3) by (simp add: upd_thread_def)
  have cp: "current_priority (threads ?s1 t) = current_priority (threads s t)" by (simp add: upd_thread_def)
  obtain s2 where s2: "rt_thread_resume t ?s1 = Some (RT_EOK, s2)"
    "kernel_inv s2 (wake s t L) (remove1 (Thread_timer t) T)"
    "thread_frame ?s1 s2" "threads s2 = (threads ?s1)(t := (threads ?s1 t)\<lparr>stat := RT_THREAD_READY\<rparr>)"
    "timers s2 = timers ?s1" "rt_current_thread s2 = rt_current_thread ?s1"
    using rt_thread_resume_spec [OF ipc_invD(1) [OF K1] st] unfolding cp wake_def by blast
  have K2: "ipc_inv s2 (wake s t L) (remove1 (Thread_timer t) T)"
    unfolding wake_def
    by (rule ipc_inv_make_ready [OF K1 s2(2) [unfolded wake_def]]) (simp add: s2(4))
  have Lh: "wake s t L h = ts" unfolding wake_def by (rule make_ready_wait(1) [OF Cons.prems])
  have Lg: "wake s t L g = L g" if "wait_head g" "g \<noteq> h" for g
    unfolding wake_def by (rule make_ready_wait(2) [OF Cons.prems]) (use that in auto)
  have run: "rt_ipc_list_resume_all h s = rt_ipc_list_resume_all h s2"
    using e s2(1) by (subst rt_ipc_list_resume_all.simps) (simp add: Let_def)
  from Cons.IH [OF K2 Cons.prems(2) Lh] obtain s' where
    s': "rt_ipc_list_resume_all h s2 = Some s'"
    "ipc_inv s' (fold (wake s2) ts (wake s t L)) (filter (\<lambda>x. x \<notin> Thread_timer ` set ts) (remove1 (Thread_timer t) T))"
    "thread_frame s2 s'" "threads s' = failed (set ts) (threads s2)" "timers s' = timers s2"
    "rt_current_thread s' = rt_current_thread s2" "fold (wake s2) ts (wake s t L) h = []"
    "\<forall>g. wait_head g \<and> g \<noteq> h \<longrightarrow> fold (wake s2) ts (wake s t L) g = wake s t L g" by blast
  have w: "fold (wake s2) ts M = fold (wake s) ts M" for M
    by (rule fold_wake_cong) (simp add: s2(4) upd_thread_def)
  have f: "filter (\<lambda>x. x \<notin> Thread_timer ` set ts) (remove1 (Thread_timer t) T)
      = filter (\<lambda>x. x \<notin> Thread_timer ` set (t # ts)) T"
    using tmr_invD(5) [OF kernel_invD(2) [OF J(1)]] by (auto simp: distinct_remove1_removeAll removeAll_filter_not_eq intro!: filter_cong)
  have th: "failed (set ts) (threads s2) = failed (set (t # ts)) (threads s)"
    by (auto simp: failed_def s2(4) upd_thread_def fun_eq_iff)
  have fr: "thread_frame s s'"
    by (rule thread_frame_trans [OF thread_frame_trans [OF thread_frame_intros(5) s2(3)] s'(3)])
  show ?case
    using run s' fr s2(5,6) Lg unfolding w f th by (auto simp: upd_thread_def)
qed

lemma fold_wake_ready: "\<exists>p. M (HPrio p) \<noteq> [] \<Longrightarrow> \<exists>p. fold (wake s) us M (HPrio p) \<noteq> []"
proof (induction us arbitrary: M)
  case (Cons u us)
  have "wake s u M (HPrio (unat (current_priority (threads s u)))) \<noteq> []" by (simp add: wake_def make_ready_def)
  then have "\<exists>p. wake s u M (HPrio p) \<noteq> []" by blast
  from Cons.IH [OF this] show ?case by simp
qed simp

section \<open>Switching\<close>

text \<open>
  How the calls of the IPC objects end: a call that waits parks its thread and hands the processor
  to the most urgent ready thread, a call that wakes a thread lets the scheduler choose again.
\<close>

lemma ipc_inv_upd [simp]:
  "ipc_inv (upd_sem i fs s) L T = ipc_inv s L T" "ipc_inv (upd_mutex i fm s) L T = ipc_inv s L T"
  "ipc_inv (upd_event i fe s) L T = ipc_inv s L T" "ipc_inv (upd_mb i fb s) L T = ipc_inv s L T"
  "ipc_inv (upd_mq i fq s) L T = ipc_inv s L T" "ipc_inv (s\<lparr>ram := r\<rparr>) L T = ipc_inv s L T"
  "ipc_inv (upd_mp i fp s) L T = ipc_inv s L T" "ipc_inv (upd_completion i fc s) L T = ipc_inv s L T"
  "ipc_inv (upd_dq i fd s) L T = ipc_inv s L T" "ipc_inv (upd_dev i fv s) L T = ipc_inv s L T"
  "ipc_inv (upd_pipe i fi s) L T = ipc_inv s L T" "ipc_inv (upd_mp_word a w s) L T = ipc_inv s L T"
  using kernel_inv_cong [of "upd_sem i fs s" s L T] kernel_inv_cong [of "upd_mutex i fm s" s L T]
    kernel_inv_cong [of "upd_event i fe s" s L T] kernel_inv_cong [of "upd_mb i fb s" s L T]
    kernel_inv_cong [of "upd_mq i fq s" s L T] kernel_inv_cong [of "s\<lparr>ram := r\<rparr>" s L T]
    kernel_inv_cong [of "upd_mp i fp s" s L T] kernel_inv_cong [of "upd_completion i fc s" s L T]
    kernel_inv_cong [of "upd_dq i fd s" s L T] kernel_inv_cong [of "upd_dev i fv s" s L T]
    kernel_inv_cong [of "upd_pipe i fi s" s L T] kernel_inv_cong [of "upd_mp_word a w s" s L T]
  by (simp_all add: ipc_inv_def upd_defs)

lemma in_context:
  "rt_current_thread s = Some t \<Longrightarrow> rt_interrupt_nest s = 0 \<Longrightarrow> RT_DEBUG_IN_THREAD_CONTEXT s = Some ()"
  by (simp add: RT_DEBUG_IN_THREAD_CONTEXT_def RT_DEBUG_NOT_IN_INTERRUPT_def rt_thread_self_def rt_interrupt_get_nest_def)

lemma ready_not_waiting:
  assumes "ipc_inv s L T" "stat (threads s t) = RT_THREAD_READY" "wait_head h"
  shows "t \<notin> set (L h)"
  using ipc_invD(2) [OF assms(1,3), of t] assms(2) by auto

lemma list_empty_at:
  assumes "ipc_inv s L T"
  shows "rt_list_isempty (LHead h) (tlinks s) = (L h = [])"
  using tq.rep_empty_at [OF kernel_invD(4) [OF ipc_invD(1) [OF assms]]] by simp

definition chosen :: "(thead \<Rightarrow> nat list) \<Rightarrow> kernel \<Rightarrow> bool" where
  "chosen L s \<longleftrightarrow> (\<exists>p. highest L p \<and> rt_current_thread s = Some (hd (L (HPrio p))))"

lemma switch:
  assumes K: "ipc_inv s L T" and ne: "L (HPrio q) \<noteq> []" and c: "rt_current_thread s \<noteq> None"
  obtains s' where "rt_schedule s = Some s'" "ipc_inv s' L T" "thread_frame s s'" "threads s' = threads s"
    "timers s' = timers s" "tdist s' = tdist s" "rt_scheduler_lock_nest s = 0 \<Longrightarrow> chosen L s'"
proof -
  from rt_schedule_total [OF ipc_invD(1) [OF K] ne c] obtain s' where
    s': "rt_schedule s = Some s'" "kernel_inv s' L T" "thread_frame s s'" "threads s' = threads s" "timers s' = timers s"
    "rt_scheduler_lock_nest s = 0 \<longrightarrow> (\<exists>p. highest L p \<and> rt_current_thread s' = Some (hd (L (HPrio p))))" by blast
  have "ipc_inv s' L T" using s'(2,4) K by (auto simp: ipc_inv_def)
  moreover have "tdist s' = tdist s" using s'(5) thread_frameD(9) [OF s'(3)] by (auto simp: tdist_def fun_eq_iff)
  ultimately show ?thesis using that [of s'] s' by (auto simp: chosen_def)
qed

lemma parked_chosen:
  assumes K: "ipc_inv s L T" and h: "wait_head h" and c: "chosen (parked h flag th t L) s'"
  shows "rt_current_thread s' \<noteq> Some t"
proof -
  from c obtain p where p: "highest (parked h flag th t L) p"
    "rt_current_thread s' = Some (hd (parked h flag th t L (HPrio p)))" by (auto simp: chosen_def)
  have "parked h flag th t L (HPrio p) = unlink t L (HPrio p)" using h by (simp add: parked_def)
  then have "hd (parked h flag th t L (HPrio p)) \<in> set (unlink t L (HPrio p))"
    using p(1) by (simp add: highest_def)
  then show ?thesis using p(2) unlink_unlinked [OF ipc_invD(1) [OF K], of t] by auto
qed

text \<open>The waiting branch: \<open>f\<close> is what the call writes into its thread before it parks it.\<close>

lemma ipc_wait_switch_timers:
  assumes K: "ipc_inv s L T" and st: "stat (threads s t) = RT_THREAD_READY" and c: "rt_current_thread s = Some t"
    and h: "wait_head h" and flag: "flag = RT_IPC_FLAG_FIFO \<or> flag = RT_IPC_FLAG_PRIO" and time: "time < 0x7fffffff"
    and f: "soft f" and other: "unlink t L (HPrio q) \<noteq> []"
  defines "L' \<equiv> parked h flag (threads s) t L"
  obtains s1 s' T' where "ipc_wait h t flag time (upd_thread t f s) = Some s1" "rt_schedule s1 = Some s'" "ipc_inv s' L' T'"
    "thread_frame s s'" "threads s' = (threads s)(t := (f (threads s t))\<lparr>stat := RT_THREAD_SUSPEND\<rparr>)"
    "time > 0 \<longrightarrow> Thread_timer t \<in> set T' \<and> tdist s' (Thread_timer t) = nat time" "time \<le> 0 \<longrightarrow> T' = T"
    "rt_scheduler_lock_nest s = 0 \<longrightarrow> chosen L' s' \<and> rt_current_thread s' \<noteq> Some t"
    "set T' \<subseteq> insert (Thread_timer t) (set T)" "\<forall>x. x \<noteq> Thread_timer t \<longrightarrow> tdist s' x = tdist s x" "set T \<subseteq> set T'"
proof -
  let ?s1 = "upd_thread t f s"
  have ft: "stat (f th) = stat th" "current_priority (f th) = current_priority th" for th using f by (simp_all add: soft_def)
  have K1: "ipc_inv ?s1 L T" by (rule ipc_inv_soft [OF K f])
  have st1: "stat (threads ?s1 t) = RT_THREAD_READY" using st by (simp add: upd_thread_def ft)
  have "enqueue flag (threads ?s1) t xs = enqueue flag (threads s) t xs" for xs
    by (rule enqueue_cong) (simp add: upd_thread_def ft)
  then have pk: "parked h flag (threads ?s1) t L = L'" by (simp add: parked_def L'_def)
  obtain s2 T' where s2: "ipc_wait h t flag time ?s1 = Some s2" "ipc_inv s2 L' T'" "thread_frame ?s1 s2"
    "threads s2 = (threads ?s1)(t := (threads ?s1 t)\<lparr>stat := RT_THREAD_SUSPEND\<rparr>)" "rt_current_thread s2 = Some t"
    "if time > 0 then T' = insert_timer (tdist s2) (Thread_timer t) T \<and> tdist s2 (Thread_timer t) = nat time else T' = T"
    "\<forall>x. x \<noteq> Thread_timer t \<longrightarrow> tdist s2 x = tdist ?s1 x"
    using ipc_wait_spec [OF K1 st1 h flag time] c unfolding pk by (auto simp: upd_thread_def)
  have "L' (HPrio q) \<noteq> []" "rt_current_thread s2 \<noteq> None" using other s2(5) h by (auto simp: L'_def parked_def)
  from switch [OF s2(2) this] obtain s3 where
    s3: "rt_schedule s2 = Some s3" "ipc_inv s3 L' T'" "thread_frame s2 s3" "threads s3 = threads s2" "tdist s3 = tdist s2"
    "rt_scheduler_lock_nest s2 = 0 \<Longrightarrow> chosen L' s3" by blast
  have fr: "thread_frame s s3" by (rule thread_frame_trans [OF thread_frame_trans [OF thread_frame_intros(5) s2(3)] s3(3)])
  have lk: "rt_scheduler_lock_nest s2 = rt_scheduler_lock_nest s" using thread_frameD(7) [OF s2(3)] by (simp add: upd_thread_def)
  have nc: "rt_current_thread s3 \<noteq> Some t" if "chosen L' s3"
    by (rule parked_chosen [OF K h that [unfolded L'_def]])
  show ?thesis
    by (rule that [OF s2(1) s3(1) s3(2) fr])
      (use s2(4,6,7) s3(4,5,6) lk nc in \<open>auto simp: upd_thread_def tdist_def split: if_splits\<close>)
qed

lemma ipc_wait_switch:
  assumes K: "ipc_inv s L T" and st: "stat (threads s t) = RT_THREAD_READY" and c: "rt_current_thread s = Some t"
    and h: "wait_head h" and flag: "flag = RT_IPC_FLAG_FIFO \<or> flag = RT_IPC_FLAG_PRIO" and time: "time < 0x7fffffff"
    and f: "soft f" and other: "unlink t L (HPrio q) \<noteq> []"
  defines "L' \<equiv> parked h flag (threads s) t L"
  obtains s1 s' T' where "ipc_wait h t flag time (upd_thread t f s) = Some s1" "rt_schedule s1 = Some s'" "ipc_inv s' L' T'"
    "thread_frame s s'" "threads s' = (threads s)(t := (f (threads s t))\<lparr>stat := RT_THREAD_SUSPEND\<rparr>)"
    "time > 0 \<Longrightarrow> Thread_timer t \<in> set T' \<and> tdist s' (Thread_timer t) = nat time" "time \<le> 0 \<Longrightarrow> T' = T"
    "rt_scheduler_lock_nest s = 0 \<Longrightarrow> chosen L' s' \<and> rt_current_thread s' \<noteq> Some t"
  by (rule ipc_wait_switch_timers [OF K st c h flag time f other], rule that) (simp_all add: L'_def)

text \<open>Waking the first thread of a list.\<close>

lemma ipc_resume_switch:
  assumes K: "ipc_inv s L T" and h: "wait_head h" and w: "L h = t # ts" and c: "rt_current_thread s \<noteq> None"
  defines "L' \<equiv> make_ready t (unat (current_priority (threads s t))) L"
  obtains s1 s' where "rt_ipc_list_resume h s = Some s1" "rt_schedule s1 = Some s'"
    "ipc_inv s' L' (remove1 (Thread_timer t) T)" "thread_frame s s'"
    "threads s' = (threads s)(t := (threads s t)\<lparr>stat := RT_THREAD_READY\<rparr>)"
    "L' h = ts" "rt_scheduler_lock_nest s = 0 \<Longrightarrow> chosen L' s'"
proof -
  obtain s1 where s1: "rt_ipc_list_resume h s = Some s1" "ipc_inv s1 L' (remove1 (Thread_timer t) T)"
    "thread_frame s s1" "threads s1 = (threads s)(t := (threads s t)\<lparr>stat := RT_THREAD_READY\<rparr>)"
    "rt_current_thread s1 = rt_current_thread s"
    using rt_ipc_list_resume_spec [OF K h w] unfolding L'_def by blast
  have "L' (HPrio (unat (current_priority (threads s t)))) \<noteq> []" "rt_current_thread s1 \<noteq> None"
    using c s1(5) by (simp_all add: L'_def make_ready_def)
  from switch [OF s1(2) this] obtain s2 where
    s2: "rt_schedule s1 = Some s2" "ipc_inv s2 L' (remove1 (Thread_timer t) T)" "thread_frame s1 s2"
    "threads s2 = threads s1" "rt_scheduler_lock_nest s1 = 0 \<Longrightarrow> chosen L' s2" by blast
  have "L' h = ts" unfolding L'_def by (rule make_ready_wait(1) [OF K h w])
  then show ?thesis
    using that [OF s1(1) s2(1,2) thread_frame_trans [OF s1(3) s2(3)]] s1(4) s2(4,5) thread_frameD(7) [OF s1(3)] by simp
qed

text \<open>Waking everyone on a list.\<close>

lemma ipc_resume_all_inv:
  assumes K: "ipc_inv s L T" and h: "wait_head h" and ne: "L (HPrio q) \<noteq> []"
  defines "L' \<equiv> fold (wake s) (L h) L" and "T' \<equiv> filter (\<lambda>x. x \<notin> Thread_timer ` set (L h)) T"
  obtains s1 p where "rt_ipc_list_resume_all h s = Some s1" "ipc_inv s1 L' T'" "thread_frame s s1"
    "threads s1 = failed (set (L h)) (threads s)" "rt_current_thread s1 = rt_current_thread s" "L' h = []"
    "L' (HPrio p) \<noteq> []" "\<forall>g. wait_head g \<and> g \<noteq> h \<longrightarrow> L' g = L g"
proof -
  obtain p where "L' (HPrio p) \<noteq> []" using fold_wake_ready [of L s "L h"] ne unfolding L'_def by blast
  then show ?thesis using rt_ipc_list_resume_all_spec [OF K h refl] that unfolding L'_def T'_def by blast
qed

end
