(* ===== verification/RT_Sem.thy ===== *)
theory RT_Sem
  imports RT_Ipc
begin

text \<open>
  The counting semaphores of \<open>src/ipc.c\<close>. \<open>rt_sem_take\<close> stops at its \<open>rt_schedule\<close> call when it has
  to wait; \<open>rt_sem_take_resumed\<close> is the rest of the call. The invariant says that threads only wait
  while the value is zero; a release with waiting threads hands the unit over to the first of them
  and leaves the value alone.
\<close>

section \<open>Operations\<close>

definition rt_sem_init :: "nat \<Rightarrow> u8 list \<Rightarrow> u32 \<Rightarrow> u8 \<Rightarrow> kernel \<Rightarrow> (rt_err_t \<times> kernel) option" where
  "rt_sem_init i name val flag s = do {
     s1 \<leftarrow> rt_object_init (OSem i) RT_Object_Class_Semaphore name s;
     let s2 = rt_ipc_object_init (HSem i) s1;
     let s3 = upd_sem i (\<lambda>se. se\<lparr>sem_value := ucast val\<rparr>) s2;
     Some (RT_EOK, upd_obj (OSem i) (\<lambda>o'. o'\<lparr>oflag := flag\<rparr>) s3) }"

definition rt_sem_detach :: "nat \<Rightarrow> kernel \<Rightarrow> (rt_err_t \<times> kernel) option" where
  "rt_sem_detach i s = do {
     s1 \<leftarrow> rt_ipc_list_resume_all (HSem i) s;
     Some (RT_EOK, rt_object_detach (OSem i) s1) }"

definition rt_sem_create :: "u8 list \<Rightarrow> u32 \<Rightarrow> u8 \<Rightarrow> kernel \<Rightarrow> (nat option \<times> kernel) option" where
  "rt_sem_create name val flag s = do {
     RT_DEBUG_NOT_IN_INTERRUPT s;
     (r, s1) \<leftarrow> rt_object_allocate RT_Object_Class_Semaphore name s;
     case r of None \<Rightarrow> Some (None, s1)
     | Some i \<Rightarrow> do {
         let s2 = rt_ipc_object_init (HSem i) s1;
         let s3 = upd_sem i (\<lambda>se. se\<lparr>sem_value := ucast val\<rparr>) s2;
         Some (Some i, upd_obj (OSem i) (\<lambda>o'. o'\<lparr>oflag := flag\<rparr>) s3) } }"

definition rt_sem_delete :: "nat \<Rightarrow> kernel \<Rightarrow> (rt_err_t \<times> kernel) option" where
  "rt_sem_delete i s = do {
     RT_DEBUG_NOT_IN_INTERRUPT s;
     s1 \<leftarrow> rt_ipc_list_resume_all (HSem i) s;
     s2 \<leftarrow> rt_object_delete RT_Object_Class_Semaphore i s1;
     Some (RT_EOK, s2) }"

definition rt_sem_take :: "nat \<Rightarrow> int \<Rightarrow> kernel \<Rightarrow> ((nat, rt_err_t) outcome \<times> kernel) option" where
  "rt_sem_take i time s =
    (if sem_value (sems s i) > 0
     then Some (Ret RT_EOK, upd_sem i (\<lambda>se. se\<lparr>sem_value := sem_value se - 1\<rparr>) s)
     else if time = 0 then Some (Ret (- RT_ETIMEOUT), s)
     else do {
       RT_DEBUG_IN_THREAD_CONTEXT s;
       t \<leftarrow> rt_thread_self s;
       let s1 = upd_thread t (\<lambda>th. th\<lparr>error := RT_EOK\<rparr>) s;
       s2 \<leftarrow> ipc_wait (HSem i) t (oflag (objs s1 (OSem i))) time s1;
       s3 \<leftarrow> rt_schedule s2;
       Some (Block t, s3) })"

definition rt_sem_take_resumed :: "nat \<Rightarrow> kernel \<Rightarrow> rt_err_t" where
  "rt_sem_take_resumed t s = (if error (threads s t) \<noteq> RT_EOK then error (threads s t) else RT_EOK)"

definition rt_sem_trytake :: "nat \<Rightarrow> kernel \<Rightarrow> ((nat, rt_err_t) outcome \<times> kernel) option" where
  "rt_sem_trytake i s = rt_sem_take i 0 s"

definition rt_sem_release :: "nat \<Rightarrow> kernel \<Rightarrow> (rt_err_t \<times> kernel) option" where
  "rt_sem_release i s =
    (if \<not> rt_list_isempty (LHead (HSem i)) (tlinks s)
     then do {
       s1 \<leftarrow> rt_ipc_list_resume (HSem i) s;
       s2 \<leftarrow> rt_schedule s1;
       Some (RT_EOK, s2) }
     else Some (RT_EOK, upd_sem i (\<lambda>se. se\<lparr>sem_value := sem_value se + 1\<rparr>) s))"

datatype ipc_cmd = RT_IPC_CMD_UNKNOWN | RT_IPC_CMD_RESET

definition rt_sem_control :: "nat \<Rightarrow> ipc_cmd \<Rightarrow> u32 \<Rightarrow> kernel \<Rightarrow> (rt_err_t \<times> kernel) option" where
  "rt_sem_control i cmd arg s =
    (if cmd = RT_IPC_CMD_RESET
     then do {
       s1 \<leftarrow> rt_ipc_list_resume_all (HSem i) s;
       let s2 = upd_sem i (\<lambda>se. se\<lparr>sem_value := ucast arg\<rparr>) s1;
       s3 \<leftarrow> rt_schedule s2;
       Some (RT_EOK, s3) }
     else Some (- RT_ERROR, s))"

section \<open>Invariant and behaviour\<close>

definition sem_inv :: "kernel \<Rightarrow> (thead \<Rightarrow> nat list) \<Rightarrow> nat \<Rightarrow> bool" where
  "sem_inv s L i \<longleftrightarrow> (sem_value (sems s i) > 0 \<longrightarrow> L (HSem i) = [])
     \<and> (oflag (objs s (OSem i)) = RT_IPC_FLAG_FIFO \<or> oflag (objs s (OSem i)) = RT_IPC_FLAG_PRIO)"

text \<open>Taking an available unit.\<close>

lemma rt_sem_take_available:
  assumes "sem_value (sems s i) > 0"
  shows "rt_sem_take i time s = Some (Ret RT_EOK, upd_sem i (\<lambda>se. se\<lparr>sem_value := sem_value se - 1\<rparr>) s)"
    and "unat (sem_value (sems (upd_sem i (\<lambda>se. se\<lparr>sem_value := sem_value se - 1\<rparr>) s) i)) = unat (sem_value (sems s i)) - 1"
proof -
  have "1 \<le> sem_value (sems s i)" using assms by (simp add: word_le_nat_alt Suc_le_eq unat_gt_0 word_gt_0)
  then show "unat (sem_value (sems (upd_sem i (\<lambda>se. se\<lparr>sem_value := sem_value se - 1\<rparr>) s) i)) = unat (sem_value (sems s i)) - 1"
    using unat_sub [of 1 "sem_value (sems s i)"] by (simp add: upd_sem_def)
qed (use assms in \<open>simp add: rt_sem_take_def\<close>)

lemma rt_sem_take_nowait:
  "sem_value (sems s i) = 0 \<Longrightarrow> rt_sem_take i 0 s = Some (Ret (- RT_ETIMEOUT), s)"
  by (simp add: rt_sem_take_def)

text \<open>Waiting: the thread is parked on the semaphore's list and another thread runs.\<close>

lemma rt_sem_take_waits:
  assumes K: "ipc_inv s L T" and S: "sem_inv s L i" and z: "sem_value (sems s i) = 0"
    and time: "time \<noteq> 0" "time < 0x7fffffff" and irq: "rt_interrupt_nest s = 0"
    and c: "rt_current_thread s = Some t" and st: "stat (threads s t) = RT_THREAD_READY"
    and other: "unlink t L (HPrio q) \<noteq> []"
  defines "L' \<equiv> parked (HSem i) (oflag (objs s (OSem i))) (threads s) t L"
  shows "\<exists>s' T'. rt_sem_take i time s = Some (Block t, s') \<and> ipc_inv s' L' T' \<and> sem_inv s' L' i
     \<and> sems s' = sems s \<and> stat (threads s' t) = RT_THREAD_SUSPEND \<and> error (threads s' t) = RT_EOK
     \<and> (time > 0 \<longrightarrow> Thread_timer t \<in> set T' \<and> tdist s' (Thread_timer t) = nat time)
     \<and> (time < 0 \<longrightarrow> T' = T)
     \<and> (rt_scheduler_lock_nest s = 0 \<longrightarrow> chosen L' s' \<and> rt_current_thread s' \<noteq> Some t)"
proof -
  let ?f = "oflag (objs s (OSem i))" and ?e = "\<lambda>th. th\<lparr>error := RT_EOK\<rparr>"
  have fl: "?f = RT_IPC_FLAG_FIFO \<or> ?f = RT_IPC_FLAG_PRIO" using S by (simp add: sem_inv_def)
  from ipc_wait_switch [OF K st c _ fl time(2) _ other, of "HSem i" ?e] obtain s2 s3 T' where
    s: "ipc_wait (HSem i) t ?f time (upd_thread t ?e s) = Some s2" "rt_schedule s2 = Some s3" "ipc_inv s3 L' T'"
    "thread_frame s s3" "threads s3 = (threads s)(t := (?e (threads s t))\<lparr>stat := RT_THREAD_SUSPEND\<rparr>)"
    "time > 0 \<Longrightarrow> Thread_timer t \<in> set T' \<and> tdist s3 (Thread_timer t) = nat time" "time \<le> 0 \<Longrightarrow> T' = T"
    "rt_scheduler_lock_nest s = 0 \<Longrightarrow> chosen L' s3 \<and> rt_current_thread s3 \<noteq> Some t"
    unfolding L'_def by auto
  have "rt_sem_take i time s = Some (Block t, s3)"
    using z time(1) in_context [OF c irq] c s(1,2) by (simp add: rt_sem_take_def rt_thread_self_def Let_def upd_thread_def)
  moreover have "sem_inv s3 L' i"
    using z fl thread_frameD(1) [OF s(4)] thread_frameD(10) [OF s(4), of "OSem i"] by (simp add: sem_inv_def)
  ultimately show ?thesis
    using s(3,5-8) thread_frameD(1) [OF s(4)] by (intro exI [of _ s3] exI [of _ T']) auto
qed

text \<open>Releasing with a waiting thread: the first one becomes ready, the value stays.\<close>

lemma rt_sem_release_wakes:
  assumes K: "ipc_inv s L T" and S: "sem_inv s L i" and w: "L (HSem i) = t # ts" and c: "rt_current_thread s \<noteq> None"
  defines "L' \<equiv> make_ready t (unat (current_priority (threads s t))) L"
  shows "\<exists>s'. rt_sem_release i s = Some (RT_EOK, s') \<and> ipc_inv s' L' (remove1 (Thread_timer t) T) \<and> sem_inv s' L' i
     \<and> L' (HSem i) = ts \<and> sems s' = sems s
     \<and> threads s' = (threads s)(t := (threads s t)\<lparr>stat := RT_THREAD_READY\<rparr>)
     \<and> (rt_scheduler_lock_nest s = 0 \<longrightarrow> chosen L' s')"
proof -
  from ipc_resume_switch [OF K _ w c] obtain s1 s' where
    s: "rt_ipc_list_resume (HSem i) s = Some s1" "rt_schedule s1 = Some s'"
    "ipc_inv s' L' (remove1 (Thread_timer t) T)" "thread_frame s s'"
    "threads s' = (threads s)(t := (threads s t)\<lparr>stat := RT_THREAD_READY\<rparr>)" "L' (HSem i) = ts"
    "rt_scheduler_lock_nest s = 0 \<Longrightarrow> chosen L' s'"
    unfolding L'_def by auto
  have "sem_inv s' L' i"
    using S w thread_frameD(1) [OF s(4)] thread_frameD(10) [OF s(4), of "OSem i"] by (auto simp: sem_inv_def)
  moreover have "rt_sem_release i s = Some (RT_EOK, s')"
    using s(1,2) w by (simp add: rt_sem_release_def list_empty_at [OF K])
  ultimately show ?thesis using s(3,5-7) thread_frameD(1) [OF s(4)] by auto
qed

text \<open>Releasing with nobody waiting: the value goes up, until its 16 bits wrap around.\<close>

lemma rt_sem_release_counts:
  assumes K: "ipc_inv s L T" and S: "sem_inv s L i" and w: "L (HSem i) = []"
  defines "s' \<equiv> upd_sem i (\<lambda>se. se\<lparr>sem_value := sem_value se + 1\<rparr>) s"
  shows "rt_sem_release i s = Some (RT_EOK, s')" "ipc_inv s' L T" "sem_inv s' L i"
    "unat (sem_value (sems s' i)) = (unat (sem_value (sems s i)) + 1) mod 65536"
proof -
  show "rt_sem_release i s = Some (RT_EOK, s')" using w by (simp add: rt_sem_release_def s'_def list_empty_at [OF K])
  show "ipc_inv s' L T" using K by (simp add: s'_def )
  show "sem_inv s' L i" using S w by (simp add: sem_inv_def s'_def upd_sem_def)
  show "unat (sem_value (sems s' i)) = (unat (sem_value (sems s i)) + 1) mod 65536"
    by (simp add: s'_def upd_sem_def unat_word_ariths)
qed

text \<open>Resetting or removing a semaphore wakes everyone with an error.\<close>

lemma rt_sem_control_reset:
  assumes K: "ipc_inv s L T" and S: "sem_inv s L i" and c: "rt_current_thread s \<noteq> None" and ne: "L (HPrio q) \<noteq> []"
  defines "L' \<equiv> fold (wake s) (L (HSem i)) L"
  shows "\<exists>s' T'. rt_sem_control i RT_IPC_CMD_RESET v s = Some (RT_EOK, s') \<and> ipc_inv s' L' T' \<and> sem_inv s' L' i
     \<and> L' (HSem i) = [] \<and> sem_value (sems s' i) = ucast v
     \<and> threads s' = failed (set (L (HSem i))) (threads s)"
proof -
  let ?T = "filter (\<lambda>x. x \<notin> Thread_timer ` set (L (HSem i))) T"
  have wh: "wait_head (HSem i)" by simp
  from ipc_resume_all_inv [OF K wh ne] obtain s1 p where s1: "rt_ipc_list_resume_all (HSem i) s = Some s1"
    "ipc_inv s1 L' ?T" "thread_frame s s1" "threads s1 = failed (set (L (HSem i))) (threads s)"
    "rt_current_thread s1 = rt_current_thread s" "L' (HSem i) = []" "L' (HPrio p) \<noteq> []"
    unfolding L'_def by blast
  let ?s2 = "upd_sem i (\<lambda>se. se\<lparr>sem_value := ucast v\<rparr>) s1"
  have "ipc_inv ?s2 L' ?T" "rt_current_thread ?s2 \<noteq> None" using s1(2,5) c by (simp, simp add: upd_sem_def)
  from switch [OF this(1) s1(7) this(2)] obtain s3 where
    s3: "rt_schedule ?s2 = Some s3" "ipc_inv s3 L' ?T" "thread_frame ?s2 s3" "threads s3 = threads ?s2" by blast
  have "sem_inv s3 L' i"
    using S s1(6) thread_frameD(10) [OF s3(3), of "OSem i"] thread_frameD(10) [OF s1(3), of "OSem i"]
    by (simp add: sem_inv_def upd_sem_def)
  moreover have "rt_sem_control i RT_IPC_CMD_RESET v s = Some (RT_EOK, s3)"
    using s1(1) s3(1) by (simp add: rt_sem_control_def Let_def)
  ultimately show ?thesis
    using s1(4,6) s3(2,4) thread_frameD(1) [OF s3(3)] by (intro exI [of _ s3] exI [of _ ?T]) (simp add: upd_sem_def)
qed

text \<open>
  The rest of a waiting call reports how it ended: success when a release woke the thread, a timeout
  when the clock did, an error when the semaphore was reset or removed.
\<close>

lemma rt_sem_take_resumed_cases:
  "error (threads s t) = RT_EOK \<Longrightarrow> rt_sem_take_resumed t s = RT_EOK"
  "error (threads s t) = - RT_ETIMEOUT \<Longrightarrow> rt_sem_take_resumed t s = - RT_ETIMEOUT"
  "error (threads s t) = - RT_ERROR \<Longrightarrow> rt_sem_take_resumed t s = - RT_ERROR"
  by (simp_all add: rt_sem_take_resumed_def err_defs)

end
