(* ===== verification/RT_Mutex.thy ===== *)
theory RT_Mutex
  imports RT_Sem
begin

text \<open>
  The mutexes of \<open>src/ipc.c\<close>: recursive locks with an owner and priority inheritance. While a thread
  waits, the owner runs at least at the waiting thread's priority; the last release gives the owner
  its original priority back and hands the mutex over to the first waiting thread.
\<close>

section \<open>Operations\<close>

definition mutex_reset :: "nat \<Rightarrow> u8 \<Rightarrow> kernel \<Rightarrow> kernel" where
  "mutex_reset i flag s =
    (let s1 = rt_ipc_object_init (HMutex i) s;
         s2 = upd_mutex i (\<lambda>m. m\<lparr>mutex_value := 1, owner := None, original_priority := 0xff, hold := 0\<rparr>) s1
     in upd_obj (OMutex i) (\<lambda>o'. o'\<lparr>oflag := flag\<rparr>) s2)"

definition rt_mutex_init :: "nat \<Rightarrow> u8 list \<Rightarrow> u8 \<Rightarrow> kernel \<Rightarrow> (rt_err_t \<times> kernel) option" where
  "rt_mutex_init i name flag s = do {
     s1 \<leftarrow> rt_object_init (OMutex i) RT_Object_Class_Mutex name s;
     Some (RT_EOK, mutex_reset i flag s1) }"

definition rt_mutex_detach :: "nat \<Rightarrow> kernel \<Rightarrow> (rt_err_t \<times> kernel) option" where
  "rt_mutex_detach i s = do {
     s1 \<leftarrow> rt_ipc_list_resume_all (HMutex i) s;
     Some (RT_EOK, rt_object_detach (OMutex i) s1) }"

definition rt_mutex_create :: "u8 list \<Rightarrow> u8 \<Rightarrow> kernel \<Rightarrow> (nat option \<times> kernel) option" where
  "rt_mutex_create name flag s = do {
     RT_DEBUG_NOT_IN_INTERRUPT s;
     (r, s1) \<leftarrow> rt_object_allocate RT_Object_Class_Mutex name s;
     Some (case r of None \<Rightarrow> (None, s1) | Some i \<Rightarrow> (Some i, mutex_reset i flag s1)) }"

definition rt_mutex_delete :: "nat \<Rightarrow> kernel \<Rightarrow> (rt_err_t \<times> kernel) option" where
  "rt_mutex_delete i s = do {
     RT_DEBUG_NOT_IN_INTERRUPT s;
     s1 \<leftarrow> rt_ipc_list_resume_all (HMutex i) s;
     s2 \<leftarrow> rt_object_delete RT_Object_Class_Mutex i s1;
     Some (RT_EOK, s2) }"

definition rt_mutex_take :: "nat \<Rightarrow> int \<Rightarrow> kernel \<Rightarrow> ((nat, rt_err_t) outcome \<times> kernel) option" where
  "rt_mutex_take i time s = do {
     RT_DEBUG_IN_THREAD_CONTEXT s;
     t \<leftarrow> rt_thread_self s;
     let s1 = upd_thread t (\<lambda>th. th\<lparr>error := RT_EOK\<rparr>) s;
     if owner (mutexes s1 i) = Some t
     then Some (Ret RT_EOK, upd_mutex i (\<lambda>m. m\<lparr>hold := hold m + 1\<rparr>) s1)
     else if mutex_value (mutexes s1 i) > 0
     then Some (Ret RT_EOK, upd_mutex i (\<lambda>m. m\<lparr>mutex_value := mutex_value m - 1, owner := Some t,
                 original_priority := current_priority (threads s1 t), hold := hold m + 1\<rparr>) s1)
     else if time = 0
     then Some (Ret (- RT_ETIMEOUT), upd_thread t (\<lambda>th. th\<lparr>error := - RT_ETIMEOUT\<rparr>) s1)
     else do {
       ow \<leftarrow> owner (mutexes s1 i);
       s2 \<leftarrow> (if current_priority (threads s1 t) < current_priority (threads s1 ow)
             then map_option snd (rt_thread_control ow (RT_THREAD_CTRL_CHANGE_PRIORITY (current_priority (threads s1 t))) s1)
             else Some s1);
       s3 \<leftarrow> ipc_wait (HMutex i) t (oflag (objs s2 (OMutex i))) time s2;
       s4 \<leftarrow> rt_schedule s3;
       Some (Block t, s4) } }"

definition rt_mutex_take_resumed :: "nat \<Rightarrow> kernel \<Rightarrow> rt_err_t" where
  "rt_mutex_take_resumed t s = (if error (threads s t) \<noteq> RT_EOK then error (threads s t) else RT_EOK)"

definition rt_mutex_release :: "nat \<Rightarrow> kernel \<Rightarrow> (rt_err_t \<times> kernel) option" where
  "rt_mutex_release i s = do {
     RT_DEBUG_IN_THREAD_CONTEXT s;
     t \<leftarrow> rt_thread_self s;
     if owner (mutexes s i) \<noteq> Some t
     then Some (- RT_ERROR, upd_thread t (\<lambda>th. th\<lparr>error := - RT_ERROR\<rparr>) s)
     else do {
       let s1 = upd_mutex i (\<lambda>m. m\<lparr>hold := hold m - 1\<rparr>) s;
       if hold (mutexes s1 i) = 0
       then do {
         s2 \<leftarrow> (if original_priority (mutexes s1 i) \<noteq> current_priority (threads s1 t)
               then map_option snd (rt_thread_control t (RT_THREAD_CTRL_CHANGE_PRIORITY (original_priority (mutexes s1 i))) s1)
               else Some s1);
         if \<not> rt_list_isempty (LHead (HMutex i)) (tlinks s2)
         then do {
           w \<leftarrow> rt_list_entry (lnext (tlinks s2) (LHead (HMutex i)));
           let s3 = upd_mutex i (\<lambda>m. m\<lparr>owner := Some w, original_priority := current_priority (threads s2 w),
                                       hold := hold m + 1\<rparr>) s2;
           s4 \<leftarrow> rt_ipc_list_resume (HMutex i) s3;
           s5 \<leftarrow> rt_schedule s4;
           Some (RT_EOK, s5) }
         else Some (RT_EOK, upd_mutex i (\<lambda>m. m\<lparr>mutex_value := mutex_value m + 1, owner := None,
                                                original_priority := 0xff\<rparr>) s2) }
       else Some (RT_EOK, s1) } }"

definition rt_mutex_control :: "nat \<Rightarrow> ipc_cmd \<Rightarrow> u32 \<Rightarrow> kernel \<Rightarrow> rt_err_t \<times> kernel" where
  "rt_mutex_control i cmd arg s = (- RT_ERROR, s)"

section \<open>Invariant\<close>

definition mutex_inv :: "kernel \<Rightarrow> (thead \<Rightarrow> nat list) \<Rightarrow> nat \<Rightarrow> bool" where
  "mutex_inv s L i \<longleftrightarrow>
     (case owner (mutexes s i) of
        None \<Rightarrow> mutex_value (mutexes s i) = 1 \<and> hold (mutexes s i) = 0 \<and> L (HMutex i) = []
      | Some t \<Rightarrow> mutex_value (mutexes s i) = 0 \<and> hold (mutexes s i) \<noteq> 0
          \<and> unat (original_priority (mutexes s i)) < RT_THREAD_PRIORITY_MAX \<and> t \<notin> set (L (HMutex i)))
     \<and> (oflag (objs s (OMutex i)) = RT_IPC_FLAG_FIFO \<or> oflag (objs s (OMutex i)) = RT_IPC_FLAG_PRIO)"

lemma mutex_inv_cong:
  assumes "mutexes s' i = mutexes s i" "oflag (objs s' (OMutex i)) = oflag (objs s (OMutex i))" "L' (HMutex i) = L (HMutex i)"
  shows "mutex_inv s' L' i = mutex_inv s L i"
  using assms by (simp add: mutex_inv_def cong: option.case_cong)

lemma mutex_inv_upd_thread [simp]: "mutex_inv (upd_thread t f s) L i = mutex_inv s L i"
  by (rule mutex_inv_cong) (simp_all add: upd_thread_def)

section \<open>Taking\<close>

text \<open>A free mutex is taken at once; its owner takes it again by counting.\<close>

lemma rt_mutex_take_free:
  assumes K: "ipc_inv s L T" and M: "mutex_inv s L i" and c: "rt_current_thread s = Some t" and irq: "rt_interrupt_nest s = 0"
    and st: "stat (threads s t) = RT_THREAD_READY" and free: "owner (mutexes s i) = None"
  shows "\<exists>s'. rt_mutex_take i time s = Some (Ret RT_EOK, s') \<and> ipc_inv s' L T \<and> mutex_inv s' L i
     \<and> owner (mutexes s' i) = Some t \<and> hold (mutexes s' i) = 1
     \<and> original_priority (mutexes s' i) = current_priority (threads s t)"
proof -
  let ?s1 = "upd_thread t (\<lambda>th. th\<lparr>error := RT_EOK\<rparr>) s"
  let ?s' = "upd_mutex i (\<lambda>m. m\<lparr>mutex_value := mutex_value m - 1, owner := Some t,
                 original_priority := current_priority (threads ?s1 t), hold := hold m + 1\<rparr>) ?s1"
  have m: "mutex_value (mutexes s i) = 1" "hold (mutexes s i) = 0" "L (HMutex i) = []"
    using M free by (simp_all add: mutex_inv_def)
  have "prio_ok (threads s t)" by (rule sched_inv_ready_prio(1) [OF kernel_invD(1) [OF ipc_invD(1) [OF K]] st])
  moreover have "ipc_inv ?s1 L T" by (rule ipc_inv_soft [OF K]) simp
  moreover have "rt_mutex_take i time s = Some (Ret RT_EOK, ?s')"
    using in_context [OF c irq] c free m by (simp add: rt_mutex_take_def rt_thread_self_def Let_def upd_thread_def)
  moreover have "mutex_inv ?s' L i \<and> owner (mutexes ?s' i) = Some t \<and> hold (mutexes ?s' i) = 1
     \<and> original_priority (mutexes ?s' i) = current_priority (threads s t)"
    using M m calculation(1) by (simp add: mutex_inv_def upd_defs prio_ok_def)
  ultimately show ?thesis by (intro exI [of _ ?s']) simp
qed

lemma rt_mutex_take_again:
  assumes K: "ipc_inv s L T" and M: "mutex_inv s L i" and c: "rt_current_thread s = Some t" and irq: "rt_interrupt_nest s = 0"
    and own: "owner (mutexes s i) = Some t" and lim: "hold (mutexes s i) \<noteq> 255"
  shows "\<exists>s'. rt_mutex_take i time s = Some (Ret RT_EOK, s') \<and> ipc_inv s' L T \<and> mutex_inv s' L i
     \<and> owner (mutexes s' i) = Some t \<and> hold (mutexes s' i) = hold (mutexes s i) + 1"
proof -
  let ?s1 = "upd_thread t (\<lambda>th. th\<lparr>error := RT_EOK\<rparr>) s"
  let ?s' = "upd_mutex i (\<lambda>m. m\<lparr>hold := hold m + 1\<rparr>) ?s1"
  have "(255 :: u8) = - 1" by simp
  then have nz: "hold (mutexes s i) + 1 \<noteq> 0" using lim eq_neg_iff_add_eq_0 by metis
  have "ipc_inv ?s1 L T" by (rule ipc_inv_soft [OF K]) simp
  moreover have "rt_mutex_take i time s = Some (Ret RT_EOK, ?s')"
    using in_context [OF c irq] c own by (simp add: rt_mutex_take_def rt_thread_self_def Let_def upd_thread_def)
  moreover have "mutex_inv ?s' L i \<and> owner (mutexes ?s' i) = Some t \<and> hold (mutexes ?s' i) = hold (mutexes s i) + 1"
    using M own nz by (simp add: mutex_inv_def upd_defs)
  ultimately show ?thesis by (intro exI [of _ ?s']) simp
qed

text \<open>
  Raising the owner: a ready owner moves to the list of its new priority, any other keeps its place.
\<close>

definition inherit :: "nat \<Rightarrow> nat \<Rightarrow> kernel \<Rightarrow> (thead \<Rightarrow> nat list) \<Rightarrow> thead \<Rightarrow> nat list" where
  "inherit t ow s L =
    (if current_priority (threads s t) < current_priority (threads s ow) \<and> stat (threads s ow) = RT_THREAD_READY
     then make_ready ow (unat (current_priority (threads s t))) L else L)"

lemma change_priority_ipc:
  assumes K: "ipc_inv s L T" and pr: "unat prio < RT_THREAD_PRIORITY_MAX"
  shows "\<exists>s'. rt_thread_control u (RT_THREAD_CTRL_CHANGE_PRIORITY prio) s = Some (RT_EOK, s')
     \<and> ipc_inv s' (if stat (threads s u) = RT_THREAD_READY then make_ready u (unat prio) L else L) T \<and> thread_frame s s'
     \<and> threads s' = (threads s)(u := (threads s u)\<lparr>current_priority := prio, number_mask := 2 ^ unat prio\<rparr>)
     \<and> rt_current_thread s' = rt_current_thread s"
proof (cases "stat (threads s u) = RT_THREAD_READY")
  case True
  have e: "(threads s u)\<lparr>current_priority := prio, number_mask := 2 ^ unat prio, stat := RT_THREAD_READY\<rparr>
      = (threads s u)\<lparr>current_priority := prio, number_mask := 2 ^ unat prio\<rparr>"
    using True by (cases "threads s u") simp
  from rt_thread_control_priority_ready [OF ipc_invD(1) [OF K] True pr] obtain s' where
    s': "rt_thread_control u (RT_THREAD_CTRL_CHANGE_PRIORITY prio) s = Some (RT_EOK, s')"
    "kernel_inv s' (make_ready u (unat prio) L) T" "thread_frame s s'"
    "threads s' = (threads s)(u := (threads s u)\<lparr>current_priority := prio, number_mask := 2 ^ unat prio\<rparr>)"
    "rt_current_thread s' = rt_current_thread s" unfolding e by blast
  have "ipc_inv s' (make_ready u (unat prio) L) T"
    by (rule ipc_inv_make_ready [OF K s'(2)]) (simp add: s'(4))
  with s' True show ?thesis by simp
next
  case False
  let ?s' = "upd_thread u (\<lambda>th. th\<lparr>current_priority := prio, number_mask := 2 ^ unat prio\<rparr>) s"
  note P = rt_thread_control_priority_suspended [OF ipc_invD(1) [OF K] False pr]
  have "ipc_inv ?s' L T" using P(2) ipc_invD(2) [OF K] by (auto simp: ipc_inv_def upd_thread_def)
  then show ?thesis using P(1) False thread_frame_intros(5) by (auto simp: upd_thread_def)
qed

text \<open>
  Waiting for a mutex: the thread is parked on its list, and from then on the owner's priority is at
  least the waiting thread's.
\<close>

text \<open>The owner inherits the priority of a more urgent thread that is about to wait.\<close>

lemma inherit_step:
  assumes K: "ipc_inv s L T" and c: "rt_current_thread s = Some t" and st: "stat (threads s t) = RT_THREAD_READY" and ne: "ow \<noteq> t"
  defines "p \<equiv> current_priority (threads s t)"
  obtains s2 where "(if p < current_priority (threads s ow)
     then map_option snd (rt_thread_control ow (RT_THREAD_CTRL_CHANGE_PRIORITY p) s) else Some s) = Some s2"
    "ipc_inv s2 (inherit t ow s L) T" "thread_frame s s2" "rt_current_thread s2 = Some t"
    "stat (threads s2 t) = RT_THREAD_READY" "\<And>u. u \<noteq> ow \<Longrightarrow> current_priority (threads s2 u) = current_priority (threads s u)"
    "current_priority (threads s2 ow) = min (current_priority (threads s ow)) p"
proof (cases "p < current_priority (threads s ow)")
  case True
  have pr: "unat p < RT_THREAD_PRIORITY_MAX"
    using sched_inv_ready_prio(1) [OF kernel_invD(1) [OF ipc_invD(1) [OF K]] st] by (simp add: prio_ok_def p_def)
  from change_priority_ipc [OF K pr, of ow] obtain s2 where
    "rt_thread_control ow (RT_THREAD_CTRL_CHANGE_PRIORITY p) s = Some (RT_EOK, s2)" "ipc_inv s2 (inherit t ow s L) T"
    "thread_frame s s2" "rt_current_thread s2 = rt_current_thread s"
    "threads s2 = (threads s)(ow := (threads s ow)\<lparr>current_priority := p, number_mask := 2 ^ unat p\<rparr>)"
    using True unfolding p_def by (auto simp: inherit_def)
  then show thesis using True ne st c
    by (intro that [of s2]) (simp_all add: min.absorb2 less_imp_le del: rt_thread_control.simps)
next
  case False
  then show thesis using K st c
    by (intro that [of s]) (auto simp: inherit_def p_def min_def not_less)
qed

lemma enqueue_cong_off:
  assumes "\<And>x. x \<noteq> ow \<Longrightarrow> current_priority (th' x) = current_priority (th x)" "ow \<noteq> t" "ow \<notin> set xs"
  shows "enqueue flag th' t xs = enqueue flag th t xs"
proof -
  have "takeWhile (\<lambda>x. \<not> current_priority (th' t) < current_priority (th' x)) xs
      = takeWhile (\<lambda>x. \<not> current_priority (th t) < current_priority (th x)) xs
    \<and> dropWhile (\<lambda>x. \<not> current_priority (th' t) < current_priority (th' x)) xs
      = dropWhile (\<lambda>x. \<not> current_priority (th t) < current_priority (th x)) xs"
    by (rule takeWhile_cong_set) (use assms in \<open>metis (no_types)\<close>)
  then show ?thesis by (simp add: enqueue_def)
qed

lemma rt_mutex_take_waits:
  assumes K: "ipc_inv s L T" and M: "mutex_inv s L i" and c: "rt_current_thread s = Some t" and irq: "rt_interrupt_nest s = 0"
    and st: "stat (threads s t) = RT_THREAD_READY" and own: "owner (mutexes s i) = Some ow" and ne: "ow \<noteq> t"
    and time: "time \<noteq> 0" "time < 0x7fffffff"
    and other: "unlink t (inherit t ow s L) (HPrio q) \<noteq> []"
  defines "L' \<equiv> parked (HMutex i) (oflag (objs s (OMutex i))) (threads s) t (inherit t ow s L)"
  shows "\<exists>s' T'. rt_mutex_take i time s = Some (Block t, s') \<and> ipc_inv s' L' T' \<and> mutex_inv s' L' i
     \<and> mutexes s' = mutexes s \<and> stat (threads s' t) = RT_THREAD_SUSPEND
     \<and> current_priority (threads s' t) = current_priority (threads s t)
     \<and> current_priority (threads s' ow) = min (current_priority (threads s ow)) (current_priority (threads s t))
     \<and> (time > 0 \<longrightarrow> tdist s' (Thread_timer t) = nat time) \<and> thread_frame s s'
     \<and> (rt_scheduler_lock_nest s = 0 \<longrightarrow> chosen L' s')"
proof -
  let ?s1 = "upd_thread t (\<lambda>th. th\<lparr>error := RT_EOK\<rparr>) s"
  let ?f = "oflag (objs s (OMutex i))" and ?L1 = "inherit t ow s L" and ?p = "current_priority (threads s t)"
  have fl: "?f = RT_IPC_FLAG_FIFO \<or> ?f = RT_IPC_FLAG_PRIO" and mv: "mutex_value (mutexes s i) = 0"
    and on: "ow \<notin> set (L (HMutex i))" using M own by (simp_all add: mutex_inv_def)
  have K1: "ipc_inv ?s1 L T" by (rule ipc_inv_soft [OF K]) simp
  have s1: "rt_current_thread ?s1 = Some t" "stat (threads ?s1 t) = RT_THREAD_READY" "inherit t ow ?s1 L = ?L1"
    "\<And>u. current_priority (threads ?s1 u) = current_priority (threads s u)"
    using c st ne by (simp_all add: upd_thread_def inherit_def)
  from inherit_step [OF K1 s1(1,2) ne] obtain s2 where s2: "(if ?p < current_priority (threads s ow)
     then map_option snd (rt_thread_control ow (RT_THREAD_CTRL_CHANGE_PRIORITY ?p) ?s1) else Some ?s1) = Some s2"
    "ipc_inv s2 ?L1 T" "thread_frame ?s1 s2" "rt_current_thread s2 = Some t" "stat (threads s2 t) = RT_THREAD_READY"
    "\<And>u. u \<noteq> ow \<Longrightarrow> current_priority (threads s2 u) = current_priority (threads s u)"
    "current_priority (threads s2 ow) = min (current_priority (threads s ow)) ?p"
    unfolding s1(3,4) by blast
  have o2: "oflag (objs s2 (OMutex i)) = ?f" using thread_frameD(10) [OF s2(3), of "OMutex i"] by (simp add: upd_thread_def)
  have LM: "?L1 (HMutex i) = L (HMutex i)" using on by (simp add: inherit_def make_ready_def unlink_def remove1_idem)
  have pk: "parked (HMutex i) ?f (threads s2) t ?L1 = L'"
    using enqueue_cong_off [OF s2(6) ne on] by (simp add: parked_def L'_def LM)
  obtain s3 T' where s3: "ipc_wait (HMutex i) t ?f time s2 = Some s3" "ipc_inv s3 L' T'" "thread_frame s2 s3"
    "threads s3 = (threads s2)(t := (threads s2 t)\<lparr>stat := RT_THREAD_SUSPEND\<rparr>)" "rt_current_thread s3 = Some t"
    "if time > 0 then T' = insert_timer (tdist s3) (Thread_timer t) T \<and> tdist s3 (Thread_timer t) = nat time else T' = T"
    using ipc_wait_spec [OF s2(2,5) _ fl time(2), of "HMutex i"] s2(4) unfolding pk by auto
  have "L' (HPrio q) \<noteq> []" "rt_current_thread s3 \<noteq> None" using other s3(5) by (auto simp: L'_def parked_def)
  from switch [OF s3(2) this] obtain s4 where
    s4: "rt_schedule s3 = Some s4" "ipc_inv s4 L' T'" "thread_frame s3 s4" "threads s4 = threads s3" "tdist s4 = tdist s3"
    "rt_scheduler_lock_nest s3 = 0 \<Longrightarrow> chosen L' s4" by blast
  have fr3: "thread_frame s s3" by (rule thread_frame_trans [OF thread_frame_trans [OF thread_frame_intros(5) s2(3)] s3(3)])
  have fr: "thread_frame s s4" by (rule thread_frame_trans [OF fr3 s4(3)])
  have F: "mutexes s4 = mutexes s" "oflag (objs s4 (OMutex i)) = ?f" "rt_scheduler_lock_nest s3 = rt_scheduler_lock_nest s"
    using thread_frameD(2) [OF fr] thread_frameD(10) [OF fr, of "OMutex i"] thread_frameD(7) [OF fr3] by simp_all
  have "mutex_inv s4 L' i"
    using M own F(1,2) fl on ne LM by (simp add: mutex_inv_def L'_def parked_def set_enqueue)
  moreover have "rt_mutex_take i time s = Some (Block t, s4)"
    using in_context [OF c irq] c own ne mv time(1) s2(1) o2 s3(1) s4(1)
    by (cases "?p < current_priority (threads s ow)")
      (auto simp: rt_mutex_take_def rt_thread_self_def Let_def upd_thread_def simp del: rt_thread_control.simps)
  ultimately show ?thesis
    using F fr s3(4,6) s4(2,4,5,6) s2(6) [of t] s2(7) ne by (intro exI [of _ s4] exI [of _ T']) auto
qed

section \<open>Releasing\<close>

text \<open>
  Only the owner releases, and only its last release has an effect on others. Then the owner's
  priority is the one it had when it took the mutex: it goes to the end of that ready list if it had
  been raised.
\<close>

definition restore :: "nat \<Rightarrow> u8 \<Rightarrow> kernel \<Rightarrow> (thead \<Rightarrow> nat list) \<Rightarrow> thead \<Rightarrow> nat list" where
  "restore t p s L = (if p \<noteq> current_priority (threads s t) then make_ready t (unat p) L else L)"

lemma rt_mutex_release_foreign:
  assumes "ipc_inv s L T" "mutex_inv s L i" "rt_current_thread s = Some t" "rt_interrupt_nest s = 0"
    "owner (mutexes s i) \<noteq> Some t"
  shows "\<exists>s'. rt_mutex_release i s = Some (- RT_ERROR, s') \<and> ipc_inv s' L T \<and> mutex_inv s' L i
     \<and> mutexes s' = mutexes s \<and> error (threads s' t) = - RT_ERROR"
proof -
  let ?s' = "upd_thread t (\<lambda>th. th\<lparr>error := - RT_ERROR\<rparr>) s"
  have "ipc_inv ?s' L T" by (rule ipc_inv_soft [OF assms(1)]) simp
  moreover have "rt_mutex_release i s = Some (- RT_ERROR, ?s')"
    using in_context [OF assms(3,4)] assms(3,5) by (simp add: rt_mutex_release_def rt_thread_self_def)
  moreover have "mutexes ?s' = mutexes s \<and> error (threads ?s' t) = - RT_ERROR" by (simp add: upd_thread_def)
  ultimately show ?thesis using assms(2) by (intro exI [of _ ?s']) simp
qed

lemma rt_mutex_release_nested:
  assumes "ipc_inv s L T" "mutex_inv s L i" "rt_current_thread s = Some t" "rt_interrupt_nest s = 0"
    "owner (mutexes s i) = Some t" "hold (mutexes s i) \<noteq> 1"
  shows "\<exists>s'. rt_mutex_release i s = Some (RT_EOK, s') \<and> ipc_inv s' L T \<and> mutex_inv s' L i
     \<and> owner (mutexes s' i) = Some t \<and> hold (mutexes s' i) = hold (mutexes s i) - 1 \<and> threads s' = threads s"
proof -
  let ?s' = "upd_mutex i (\<lambda>m. m\<lparr>hold := hold m - 1\<rparr>) s"
  have "rt_mutex_release i s = Some (RT_EOK, ?s')"
    using in_context [OF assms(3,4)] assms(3,5,6) by (simp add: rt_mutex_release_def rt_thread_self_def Let_def upd_mutex_def)
  moreover have "mutex_inv ?s' L i" using assms(2,5,6) by (simp add: mutex_inv_def upd_mutex_def)
  moreover have "ipc_inv ?s' L T" using assms(1) by simp
  ultimately show ?thesis using assms(5) by (intro exI [of _ ?s']) (simp add: upd_mutex_def)
qed

text \<open>The priority step of the last release.\<close>

lemma restore_step:
  assumes K: "ipc_inv s L T" and c: "rt_current_thread s = Some t" and st: "stat (threads s t) = RT_THREAD_READY"
    and pr: "unat p < RT_THREAD_PRIORITY_MAX"
  obtains s2 where "(if p \<noteq> current_priority (threads s t)
      then map_option snd (rt_thread_control t (RT_THREAD_CTRL_CHANGE_PRIORITY p) s) else Some s) = Some s2"
    "ipc_inv s2 (restore t p s L) T" "thread_frame s s2" "rt_current_thread s2 = Some t"
    "stat (threads s2 t) = RT_THREAD_READY" "current_priority (threads s2 t) = p"
    "\<And>u. u \<noteq> t \<Longrightarrow> threads s2 u = threads s u"
proof (cases "p = current_priority (threads s t)")
  case True
  then show ?thesis using K c st by (intro that [of s]) (simp_all add: restore_def)
next
  case False
  from change_priority_ipc [OF K pr, of t] obtain s2 where
    "rt_thread_control t (RT_THREAD_CTRL_CHANGE_PRIORITY p) s = Some (RT_EOK, s2)" "ipc_inv s2 (make_ready t (unat p) L) T"
    "thread_frame s s2" "threads s2 = (threads s)(t := (threads s t)\<lparr>current_priority := p, number_mask := 2 ^ unat p\<rparr>)"
    "rt_current_thread s2 = rt_current_thread s" using st by auto
  then show ?thesis using False c st
    by (intro that [of s2]) (simp_all add: restore_def del: rt_thread_control.simps)
qed

lemma restore_wait:
  assumes "ipc_inv s L T" "stat (threads s t) = RT_THREAD_READY" "wait_head h"
  shows "restore t p s L h = L h"
  using ready_not_waiting [OF assms] assms(3) by (cases h) (simp_all add: restore_def make_ready_def unlink_def remove1_idem)

lemma rt_mutex_release_frees:
  assumes K: "ipc_inv s L T" and M: "mutex_inv s L i" and c: "rt_current_thread s = Some t" and irq: "rt_interrupt_nest s = 0"
    and st: "stat (threads s t) = RT_THREAD_READY"
    and own: "owner (mutexes s i) = Some t" and h: "hold (mutexes s i) = 1" and w: "L (HMutex i) = []"
  defines "L' \<equiv> restore t (original_priority (mutexes s i)) s L"
  shows "\<exists>s'. rt_mutex_release i s = Some (RT_EOK, s') \<and> ipc_inv s' L' T \<and> mutex_inv s' L' i
     \<and> owner (mutexes s' i) = None \<and> current_priority (threads s' t) = original_priority (mutexes s i)
     \<and> (\<forall>u. u \<noteq> t \<longrightarrow> threads s' u = threads s u)"
proof -
  let ?s1 = "upd_mutex i (\<lambda>m. m\<lparr>hold := hold m - 1\<rparr>) s" and ?p = "original_priority (mutexes s i)"
  have m: "mutex_value (mutexes s i) = 0" "unat ?p < RT_THREAD_PRIORITY_MAX" using M own by (simp_all add: mutex_inv_def)
  have 1: "ipc_inv ?s1 L T" "rt_current_thread ?s1 = Some t" "stat (threads ?s1 t) = RT_THREAD_READY"
    using K c st by (simp_all) (simp_all add: upd_mutex_def)
  obtain s2 where s2: "(if ?p \<noteq> current_priority (threads ?s1 t)
      then map_option snd (rt_thread_control t (RT_THREAD_CTRL_CHANGE_PRIORITY ?p) ?s1) else Some ?s1) = Some s2"
    "ipc_inv s2 L' T" "thread_frame ?s1 s2" "rt_current_thread s2 = Some t"
    "current_priority (threads s2 t) = ?p" "\<And>u. u \<noteq> t \<Longrightarrow> threads s2 u = threads s u"
    by (rule restore_step [OF 1 m(2)]) (simp add: L'_def restore_def upd_mutex_def)
  let ?s' = "upd_mutex i (\<lambda>m. m\<lparr>mutex_value := mutex_value m + 1, owner := None, original_priority := 0xff\<rparr>) s2"
  have Li: "L' (HMutex i) = []" using restore_wait [OF K st, of "HMutex i"] w by (simp add: L'_def)
  have e: "rt_list_isempty (LHead (HMutex i)) (tlinks s2)" using Li by (simp add: list_empty_at [OF s2(2)])
  have "rt_mutex_release i s = Some (RT_EOK, ?s')"
    using in_context [OF c irq] c own h s2(1) e
    by (cases "?p = current_priority (threads s t)")
      (auto simp: rt_mutex_release_def rt_thread_self_def Let_def upd_mutex_def simp del: rt_thread_control.simps)
  moreover have "mutexes s2 = mutexes ?s1" "oflag (objs s2 (OMutex i)) = oflag (objs s (OMutex i))"
    using thread_frameD(2,10) [OF s2(3)] by (simp_all add: upd_mutex_def)
  moreover from this have "mutex_inv ?s' L' i" using M own m h Li by (simp add: mutex_inv_def upd_mutex_def)
  ultimately show ?thesis using s2(2,5,6) by (intro exI [of _ ?s']) (simp, simp add: upd_mutex_def)
qed

lemma rt_mutex_release_hands_over:
  assumes K: "ipc_inv s L T" and M: "mutex_inv s L i" and c: "rt_current_thread s = Some t" and irq: "rt_interrupt_nest s = 0"
    and st: "stat (threads s t) = RT_THREAD_READY"
    and own: "owner (mutexes s i) = Some t" and h: "hold (mutexes s i) = 1" and w: "L (HMutex i) = u # us"
  defines "L' \<equiv> make_ready u (unat (current_priority (threads s u))) (restore t (original_priority (mutexes s i)) s L)"
  shows "\<exists>s'. rt_mutex_release i s = Some (RT_EOK, s') \<and> ipc_inv s' L' (remove1 (Thread_timer u) T) \<and> mutex_inv s' L' i
     \<and> owner (mutexes s' i) = Some u \<and> hold (mutexes s' i) = 1
     \<and> original_priority (mutexes s' i) = current_priority (threads s u) \<and> L' (HMutex i) = us
     \<and> stat (threads s' u) = RT_THREAD_READY \<and> current_priority (threads s' t) = original_priority (mutexes s i)
     \<and> (rt_scheduler_lock_nest s = 0 \<longrightarrow> chosen L' s')"
proof -
  let ?s1 = "upd_mutex i (\<lambda>m. m\<lparr>hold := hold m - 1\<rparr>) s" and ?p = "original_priority (mutexes s i)"
  let ?L2 = "restore t ?p s L" and ?q = "current_priority (threads s u)"
  have wh: "wait_head (HMutex i)" by simp
  have m: "mutex_value (mutexes s i) = 0" "unat ?p < RT_THREAD_PRIORITY_MAX" using M own by (simp_all add: mutex_inv_def)
  have ut: "u \<noteq> t" using M own w by (auto simp: mutex_inv_def)
  have 1: "ipc_inv ?s1 L T" "rt_current_thread ?s1 = Some t" "stat (threads ?s1 t) = RT_THREAD_READY"
    using K c st by (simp_all) (simp_all add: upd_mutex_def)
  obtain s2 where s2: "(if ?p \<noteq> current_priority (threads ?s1 t)
      then map_option snd (rt_thread_control t (RT_THREAD_CTRL_CHANGE_PRIORITY ?p) ?s1) else Some ?s1) = Some s2"
    "ipc_inv s2 ?L2 T" "thread_frame ?s1 s2" "rt_current_thread s2 = Some t"
    "current_priority (threads s2 t) = ?p" "\<And>u. u \<noteq> t \<Longrightarrow> threads s2 u = threads s u"
    by (rule restore_step [OF 1 m(2)]) (simp add: restore_def upd_mutex_def)
  have Li: "?L2 (HMutex i) = u # us" using restore_wait [OF K st wh] w by simp
  note rep = kernel_invD(4) [OF ipc_invD(1) [OF s2(2)]]
  have e: "\<not> rt_list_isempty (LHead (HMutex i)) (tlinks s2)" "rt_list_entry (lnext (tlinks s2) (LHead (HMutex i))) = Some u"
    using tq.rep_empty_at [OF rep, of "HMutex i"] tq.rep_first_at [OF rep, of "HMutex i"] Li by simp_all
  define s3 where "s3 = upd_mutex i (\<lambda>m. m\<lparr>owner := Some u, original_priority := ?q, hold := hold m + 1\<rparr>) s2"
  have q: "current_priority (threads s3 u) = ?q" using s2(6) [OF ut] by (simp add: s3_def upd_mutex_def)
  have K3: "ipc_inv s3 ?L2 T" using s2(2) by (simp add: s3_def)
  have "rt_current_thread s3 \<noteq> None" using s2(4) by (simp add: s3_def upd_mutex_def)
  from ipc_resume_switch [OF K3 wh Li this] obtain s4 s5 where
    s5: "rt_ipc_list_resume (HMutex i) s3 = Some s4" "rt_schedule s4 = Some s5"
    "ipc_inv s5 L' (remove1 (Thread_timer u) T)" "thread_frame s3 s5"
    "threads s5 = (threads s3)(u := (threads s3 u)\<lparr>stat := RT_THREAD_READY\<rparr>)" "L' (HMutex i) = us"
    "rt_scheduler_lock_nest s3 = 0 \<Longrightarrow> chosen L' s5"
    unfolding q L'_def by auto
  have F: "mutexes s5 = mutexes s3" "oflag (objs s5 (OMutex i)) = oflag (objs s (OMutex i))"
    using thread_frameD(2,10) [OF s5(4)] thread_frameD(10) [OF s2(3), of "OMutex i"] by (simp_all add: s3_def upd_mutex_def)
  have m2: "mutexes s2 = mutexes ?s1" by (rule thread_frameD(2) [OF s2(3)])
  have pu: "unat ?q < RT_THREAD_PRIORITY_MAX"
    using sched_inv_ready_prio(1) [OF kernel_invD(1) [OF ipc_invD(1) [OF s5(3)]], of u] s5(5) q by (simp add: prio_ok_def)
  have d: "u \<notin> set us" using kernel_invD(8) [OF ipc_invD(1) [OF K], of "HMutex i"] w by simp
  have "mutex_inv s5 L' i"
    using M own m h F m2 s5(6) pu d by (simp add: mutex_inv_def s3_def upd_mutex_def)
  moreover have "rt_mutex_release i s = Some (RT_EOK, s5)"
    using in_context [OF c irq] c own h s2(1) e s5(1,2) s2(6) [OF ut] unfolding s3_def
    by (cases "?p = current_priority (threads s t)")
      (auto simp: rt_mutex_release_def rt_thread_self_def Let_def upd_mutex_def simp del: rt_thread_control.simps)
  moreover have "owner (mutexes s5 i) = Some u \<and> hold (mutexes s5 i) = 1 \<and> original_priority (mutexes s5 i) = ?q"
    using F m2 h by (simp add: s3_def upd_mutex_def)
  moreover have "rt_scheduler_lock_nest s3 = rt_scheduler_lock_nest s"
    using thread_frameD(7) [OF s2(3)] by (simp add: s3_def upd_mutex_def)
  ultimately show ?thesis
    using s5(3,5-7) s2(5) ut by (intro exI [of _ s5]) (auto simp: s3_def upd_mutex_def)
qed

end
