(* ===== verification/RT_Event.thy ===== *)
theory RT_Event
  imports RT_Mutex
begin

text \<open>
  The events of \<open>src/ipc.c\<close>: a word of flags that threads wait for, all of them (\<open>AND\<close>) or any of them
  (\<open>OR\<close>), with or without clearing the flags they receive. A send goes along the list of waiting
  threads and wakes every one whose condition holds, in list order; a thread that clears takes its
  flags away from those behind it. The invariant says that no wake-up is lost: the condition of a
  waiting thread never holds.
\<close>

definition RT_EVENT_FLAG_AND :: u8 where "RT_EVENT_FLAG_AND = 0x01"
definition RT_EVENT_FLAG_OR :: u8 where "RT_EVENT_FLAG_OR = 0x02"
definition RT_EVENT_FLAG_CLEAR :: u8 where "RT_EVENT_FLAG_CLEAR = 0x04"

section \<open>Operations\<close>

definition rt_event_init :: "nat \<Rightarrow> u8 list \<Rightarrow> u8 \<Rightarrow> kernel \<Rightarrow> (rt_err_t \<times> kernel) option" where
  "rt_event_init i name flag s = do {
     s1 \<leftarrow> rt_object_init (OEvent i) RT_Object_Class_Event name s;
     let s2 = upd_obj (OEvent i) (\<lambda>o'. o'\<lparr>oflag := flag\<rparr>) s1;
     let s3 = rt_ipc_object_init (HEvent i) s2;
     Some (RT_EOK, upd_event i (\<lambda>e. e\<lparr>event_bits := 0\<rparr>) s3) }"

definition rt_event_detach :: "nat \<Rightarrow> kernel \<Rightarrow> (rt_err_t \<times> kernel) option" where
  "rt_event_detach i s = do {
     s1 \<leftarrow> rt_ipc_list_resume_all (HEvent i) s;
     Some (RT_EOK, rt_object_detach (OEvent i) s1) }"

definition rt_event_create :: "u8 list \<Rightarrow> u8 \<Rightarrow> kernel \<Rightarrow> (nat option \<times> kernel) option" where
  "rt_event_create name flag s = do {
     RT_DEBUG_NOT_IN_INTERRUPT s;
     (r, s1) \<leftarrow> rt_object_allocate RT_Object_Class_Event name s;
     case r of None \<Rightarrow> Some (None, s1)
     | Some i \<Rightarrow> do {
         let s2 = upd_obj (OEvent i) (\<lambda>o'. o'\<lparr>oflag := flag\<rparr>) s1;
         let s3 = rt_ipc_object_init (HEvent i) s2;
         Some (Some i, upd_event i (\<lambda>e. e\<lparr>event_bits := 0\<rparr>) s3) } }"

definition rt_event_delete :: "nat \<Rightarrow> kernel \<Rightarrow> (rt_err_t \<times> kernel) option" where
  "rt_event_delete i s = do {
     RT_DEBUG_NOT_IN_INTERRUPT s;
     s1 \<leftarrow> rt_ipc_list_resume_all (HEvent i) s;
     s2 \<leftarrow> rt_object_delete RT_Object_Class_Event i s1;
     Some (RT_EOK, s2) }"

text \<open>The loop of \<open>rt_event_send\<close> over the waiting threads, from node \<open>n\<close> on.\<close>

partial_function (option) event_send_loop :: "nat \<Rightarrow> tnode \<Rightarrow> bool \<Rightarrow> kernel \<Rightarrow> (bool \<times> kernel) option" where
  "event_send_loop i n need_schedule s =
    (if n = LHead (HEvent i) then Some (need_schedule, s)
     else do {
       t \<leftarrow> rt_list_entry n;
       let th = threads s t;
       let bits = event_bits (events s i);
       let (ok, s1) =
         (if event_info th AND RT_EVENT_FLAG_AND \<noteq> 0 then (event_set th AND bits = event_set th, s)
          else if event_info th AND RT_EVENT_FLAG_OR \<noteq> 0
          then (if event_set th AND bits \<noteq> 0
                then (True, upd_thread t (\<lambda>th. th\<lparr>event_set := event_set th AND bits\<rparr>) s)
                else (False, s))
          else (False, s));
       let n' = lnext (tlinks s1) n;
       if ok
       then do {
         let s2 = (if event_info (threads s1 t) AND RT_EVENT_FLAG_CLEAR \<noteq> 0
                   then upd_event i (\<lambda>e. e\<lparr>event_bits := event_bits e AND NOT (event_set (threads s1 t))\<rparr>) s1
                   else s1);
         (_, s3) \<leftarrow> rt_thread_resume t s2;
         event_send_loop i n' True s3 }
       else event_send_loop i n' need_schedule s1 })"

definition rt_event_send :: "nat \<Rightarrow> u32 \<Rightarrow> kernel \<Rightarrow> (rt_err_t \<times> kernel) option" where
  "rt_event_send i want s =
    (if want = 0 then Some (- RT_ERROR, s)
     else do {
       let s1 = upd_event i (\<lambda>e. e\<lparr>event_bits := event_bits e OR want\<rparr>) s;
       (need_schedule, s2) \<leftarrow>
         (if \<not> rt_list_isempty (LHead (HEvent i)) (tlinks s1)
          then event_send_loop i (lnext (tlinks s1) (LHead (HEvent i))) False s1
          else Some (False, s1));
       s3 \<leftarrow> (if need_schedule then rt_schedule s2 else Some s2);
       Some (RT_EOK, s3) })"

text \<open>A receive that returns gives its error code and what it stored in \<open>recved\<close>, if anything.\<close>

definition rt_event_recv ::
  "nat \<Rightarrow> u32 \<Rightarrow> u8 \<Rightarrow> int \<Rightarrow> kernel \<Rightarrow> ((nat, rt_err_t \<times> u32 option) outcome \<times> kernel) option" where
  "rt_event_recv i want option timeout s = do {
     RT_DEBUG_IN_THREAD_CONTEXT s;
     if want = 0 then Some (Ret (- RT_ERROR, None), s)
     else do {
       t \<leftarrow> rt_thread_self s;
       let s1 = upd_thread t (\<lambda>th. th\<lparr>error := RT_EOK\<rparr>) s;
       let bits = event_bits (events s1 i);
       ok \<leftarrow> (if option AND RT_EVENT_FLAG_AND \<noteq> 0 then Some (bits AND want = want)
             else if option AND RT_EVENT_FLAG_OR \<noteq> 0 then Some (bits AND want \<noteq> 0)
             else do { RT_ASSERT False; Some False });
       if ok
       then do {
         let s2 = (if option AND RT_EVENT_FLAG_CLEAR \<noteq> 0
                   then upd_event i (\<lambda>e. e\<lparr>event_bits := event_bits e AND NOT want\<rparr>) s1 else s1);
         Some (Ret (error (threads s2 t), Some (bits AND want)), s2) }
       else if timeout = 0
       then Some (Ret (- RT_ETIMEOUT, None), upd_thread t (\<lambda>th. th\<lparr>error := - RT_ETIMEOUT\<rparr>) s1)
       else do {
         let s2 = upd_thread t (\<lambda>th. th\<lparr>event_set := want, event_info := option\<rparr>) s1;
         s3 \<leftarrow> ipc_wait (HEvent i) t (oflag (objs s2 (OEvent i))) timeout s2;
         s4 \<leftarrow> rt_schedule s3;
         Some (Block t, s4) } } }"

definition rt_event_recv_resumed :: "nat \<Rightarrow> kernel \<Rightarrow> rt_err_t \<times> u32 option" where
  "rt_event_recv_resumed t s =
    (if error (threads s t) \<noteq> RT_EOK then (error (threads s t), None)
     else (error (threads s t), Some (event_set (threads s t))))"

definition rt_event_control :: "nat \<Rightarrow> ipc_cmd \<Rightarrow> u32 \<Rightarrow> kernel \<Rightarrow> (rt_err_t \<times> kernel) option" where
  "rt_event_control i cmd arg s =
    (if cmd = RT_IPC_CMD_RESET
     then do {
       s1 \<leftarrow> rt_ipc_list_resume_all (HEvent i) s;
       let s2 = upd_event i (\<lambda>e. e\<lparr>event_bits := 0\<rparr>) s1;
       s3 \<leftarrow> rt_schedule s2;
       Some (RT_EOK, s3) }
     else Some (- RT_ERROR, s))"

section \<open>Waiting conditions\<close>

text \<open>What a waiting thread waits for, what it receives, and the flags that remain.\<close>

definition satisfied :: "u8 \<Rightarrow> u32 \<Rightarrow> u32 \<Rightarrow> bool" where
  "satisfied info want bits =
    (if info AND RT_EVENT_FLAG_AND \<noteq> 0 then want AND bits = want
     else if info AND RT_EVENT_FLAG_OR \<noteq> 0 then want AND bits \<noteq> 0 else False)"

definition received :: "u32 \<Rightarrow> u32 \<Rightarrow> u32" where
  "received want bits = want AND bits"

definition remaining :: "u8 \<Rightarrow> u32 \<Rightarrow> u32 \<Rightarrow> u32" where
  "remaining info want bits = (if info AND RT_EVENT_FLAG_CLEAR \<noteq> 0 then bits AND NOT (received want bits) else bits)"

definition within :: "u32 \<Rightarrow> u32 \<Rightarrow> bool" where
  "within a b \<longleftrightarrow> a AND b = a"

lemma within_bits: "within a b \<longleftrightarrow> (\<forall>n. bit a n \<longrightarrow> bit b n)"
proof
  assume "within a b"
  then show "\<forall>n. bit a n \<longrightarrow> bit b n" by (metis within_def bit_and_iff)
next
  assume "\<forall>n. bit a n \<longrightarrow> bit b n"
  then show "within a b" unfolding within_def by (intro bit_eqI) (auto simp: bit_and_iff)
qed

lemma within_simps [simp]: "within a a" "within (remaining info want a) a"
  by (simp add: within_def) (auto simp: within_bits remaining_def bit_simps)

lemma within_trans [trans]: "within a b \<Longrightarrow> within b c \<Longrightarrow> within a c"
  by (auto simp: within_bits)

lemma satisfied_mono: "satisfied info want a \<Longrightarrow> within a b \<Longrightarrow> satisfied info want b"
  unfolding satisfied_def within_bits by (auto simp: bit_eq_iff bit_simps split: if_splits)

text \<open>Going along the waiting list: who is woken with which flags, who stays, what flags are left.\<close>

fun deliver :: "(nat \<Rightarrow> rt_thread) \<Rightarrow> u32 \<Rightarrow> nat list \<Rightarrow> (nat \<times> u32) list \<times> nat list \<times> u32" where
  "deliver th bits [] = ([], [], bits)"
| "deliver th bits (t # ts) =
    (let info = event_info (th t); want = event_set (th t) in
     if satisfied info want bits
     then (let (w, k, b) = deliver th (remaining info want bits) ts in ((t, received want bits) # w, k, b))
     else (let (w, k, b) = deliver th bits ts in (w, t # k, b)))"

lemma deliver_cong:
  assumes "\<And>u. u \<in> set ts \<Longrightarrow> event_set (th' u) = event_set (th u) \<and> event_info (th' u) = event_info (th u)"
  shows "deliver th' bits ts = deliver th bits ts"
  using assms by (induction ts arbitrary: bits) (auto simp: Let_def)

lemma deliver_parts:
  assumes "deliver th bits ts = (w, k, b)"
  shows "set (map fst w) \<union> set k = set ts \<and> within b bits
    \<and> (\<forall>u \<in> set k. \<not> satisfied (event_info (th u)) (event_set (th u)) b)
    \<and> (distinct ts \<longrightarrow> distinct (map fst w) \<and> set (map fst w) \<inter> set k = {})"
  using assms
proof (induction ts arbitrary: bits w k b)
  case (Cons t ts)
  let ?i = "event_info (th t)" and ?v = "event_set (th t)"
  show ?case
  proof (cases "satisfied ?i ?v bits")
    case True
    obtain w' k' b' where d: "deliver th (remaining ?i ?v bits) ts = (w', k', b')" by (metis prod_cases3)
    have "w = (t, received ?v bits) # w'" "k = k'" "b = b'" using Cons.prems True d by (simp_all add: Let_def)
    then show ?thesis using Cons.IH [OF d] within_trans [of b' "remaining ?i ?v bits" bits] by auto
  next
    case False
    obtain w' k' b' where d: "deliver th bits ts = (w', k', b')" by (metis prod_cases3)
    have e: "w = w'" "k = t # k'" "b = b'" using Cons.prems False d by (simp_all add: Let_def)
    then have "\<not> satisfied ?i ?v b'" using Cons.IH [OF d] False satisfied_mono by blast
    then show ?thesis using Cons.IH [OF d] e by auto
  qed
qed simp

section \<open>Sending\<close>

text \<open>Every woken thread was satisfied by flags that were there, and received what it wanted of them.\<close>

lemma deliver_woken:
  "deliver th bits ts = (w, k, b) \<Longrightarrow> (u, got) \<in> set w \<Longrightarrow>
   \<exists>x. within x bits \<and> satisfied (event_info (th u)) (event_set (th u)) x \<and> got = received (event_set (th u)) x"
proof (induction ts arbitrary: bits w k b)
  case (Cons t ts)
  show ?case
  proof (cases "satisfied (event_info (th t)) (event_set (th t)) bits")
    case True
    obtain w' k' b' where d: "deliver th (remaining (event_info (th t)) (event_set (th t)) bits) ts = (w', k', b')"
      by (cases "deliver th (remaining (event_info (th t)) (event_set (th t)) bits) ts")
    then have "w = (t, received (event_set (th t)) bits) # w'" using Cons.prems(1) True by (simp add: Let_def)
    then show ?thesis using Cons.IH [OF d] Cons.prems(2) True within_trans [OF _ within_simps(2)] within_simps(1)
      by (metis Pair_inject set_ConsD)
  next
    case False
    then show ?thesis using Cons by (auto simp: Let_def split: prod.splits)
  qed
qed simp

text \<open>A flag is lost only to a woken thread that received it and asked for it to be cleared.\<close>

lemma deliver_flags:
  "deliver th bits ts = (w, k, b) \<Longrightarrow>
   bit b n \<longleftrightarrow> bit bits n \<and> \<not> (\<exists>(u, got) \<in> set w. event_info (th u) AND RT_EVENT_FLAG_CLEAR \<noteq> 0 \<and> bit got n)"
proof (induction ts arbitrary: bits w k b)
  case (Cons t ts)
  show ?case
  proof (cases "satisfied (event_info (th t)) (event_set (th t)) bits")
    case True
    obtain w' k' b' where d: "deliver th (remaining (event_info (th t)) (event_set (th t)) bits) ts = (w', k', b')"
      by (cases "deliver th (remaining (event_info (th t)) (event_set (th t)) bits) ts")
    then have "w = (t, received (event_set (th t)) bits) # w'" "b = b'" using Cons.prems True by (simp_all add: Let_def)
    then show ?thesis using Cons.IH [OF d] by (auto simp: remaining_def received_def bit_simps dest: bit_imp_le_length)
  next
    case False
    then show ?thesis using Cons by (auto simp: Let_def split: prod.splits)
  qed
qed simp

lemma deliver_none: "deliver th bits ts = ([], k, b) \<Longrightarrow> k = ts"
  by (induction ts arbitrary: bits k b) (auto simp: Let_def split: prod.splits if_splits)

definition notified :: "(nat \<times> u32) list \<Rightarrow> (nat \<Rightarrow> rt_thread) \<Rightarrow> nat \<Rightarrow> rt_thread" where
  "notified w th u = (case map_of w u of None \<Rightarrow> th u | Some got \<Rightarrow> (th u)\<lparr>event_set := got, stat := RT_THREAD_READY\<rparr>)"

definition event_frame :: "nat \<Rightarrow> kernel \<Rightarrow> kernel \<Rightarrow> bool" where
  "event_frame i s s' \<longleftrightarrow> thread_frame (s\<lparr>events := events s'\<rparr>) s' \<and> (\<forall>j. j \<noteq> i \<longrightarrow> events s' j = events s j)"

lemma event_frame_trans: "event_frame i s s' \<Longrightarrow> event_frame i s' s'' \<Longrightarrow> event_frame i s s''"
  by (auto simp: event_frame_def thread_frame_def)

lemma event_frame_intros:
  "thread_frame s s' \<Longrightarrow> event_frame i s s'" "event_frame i s (upd_event i f s)" "event_frame i s s"
  by (auto simp: event_frame_def thread_frame_def upd_event_def)

lemma event_frameD:
  assumes "event_frame i s s'"
  shows "rt_scheduler_lock_nest s' = rt_scheduler_lock_nest s" "objs s' (OEvent j) = objs s (OEvent j)"
    "j \<noteq> i \<Longrightarrow> events s' j = events s j"
  using assms by (auto simp: event_frame_def thread_frame_def)

text \<open>One thread of the waiting list whose condition holds.\<close>

lemma event_wake_one:
  assumes K: "ipc_inv s L T" and t: "t \<in> set (L (HEvent i))" and b: "bits = event_bits (events s i)"
    and ok: "satisfied (event_info (threads s t)) (event_set (threads s t)) bits"
  defines "got \<equiv> received (event_set (threads s t)) bits"
    and "left \<equiv> remaining (event_info (threads s t)) (event_set (threads s t)) bits"
  shows "\<exists>s3. event_send_loop i (LElem t) need s = event_send_loop i (lnext (tlinks s) (LElem t)) True s3
     \<and> ipc_inv s3 (wake s t L) (remove1 (Thread_timer t) T) \<and> event_frame i s s3
     \<and> event_bits (events s3 i) = left \<and> rt_current_thread s3 = rt_current_thread s
     \<and> threads s3 = (threads s)(t := (threads s t)\<lparr>event_set := got, stat := RT_THREAD_READY\<rparr>)"
proof -
  define s1 where "s1 = (if event_info (threads s t) AND RT_EVENT_FLAG_AND \<noteq> 0 then s
    else upd_thread t (\<lambda>th. th\<lparr>event_set := event_set th AND bits\<rparr>) s)"
  define s2 where "s2 = (if event_info (threads s t) AND RT_EVENT_FLAG_CLEAR \<noteq> 0
    then upd_event i (\<lambda>e. e\<lparr>event_bits := event_bits e AND NOT (event_set (threads s1 t))\<rparr>) s1 else s1)"
  have g: "got = event_set (threads s t) AND bits" by (simp add: got_def received_def)
  have id: "threads s = (threads s)(t := (threads s t)\<lparr>event_set := got\<rparr>)"
    if "event_info (threads s t) AND RT_EVENT_FLAG_AND \<noteq> 0"
    using that ok by (simp add: g satisfied_def)
  have th1: "threads s1 = (threads s)(t := (threads s t)\<lparr>event_set := got\<rparr>)"
    using id by (simp add: s1_def upd_thread_def g)
  have th2: "threads s2 = threads s1" by (simp add: s2_def upd_event_def)
  have "ipc_inv s1 L T" using K ipc_inv_soft [OF K, of "\<lambda>th. th\<lparr>event_set := event_set th AND bits\<rparr>" t]
    by (simp add: s1_def soft_def)
  then have K2: "ipc_inv s2 L T" by (simp add: s2_def)
  have f2: "event_frame i s s2" "rt_current_thread s2 = rt_current_thread s" "tlinks s1 = tlinks s"
    using event_frame_intros(2) by (auto simp: event_frame_def thread_frame_def s2_def s1_def upd_defs)
  have e2: "event_bits (events s2 i) = left"
    using th1 by (simp add: s2_def s1_def left_def remaining_def g got_def received_def upd_defs b)
  have st: "stat (threads s2 t) = RT_THREAD_SUSPEND"
    using ipc_invD(2) [OF K _ t] th1 th2 by simp
  have cp: "current_priority (threads s2 t) = current_priority (threads s t)" by (simp add: th1 th2)
  from rt_thread_resume_spec [OF ipc_invD(1) [OF K2] st] obtain s3 where
    s3: "rt_thread_resume t s2 = Some (RT_EOK, s3)" "kernel_inv s3 (wake s t L) (remove1 (Thread_timer t) T)"
    "thread_frame s2 s3" "threads s3 = (threads s2)(t := (threads s2 t)\<lparr>stat := RT_THREAD_READY\<rparr>)"
    "rt_current_thread s3 = rt_current_thread s2" unfolding cp wake_def by blast
  have K3: "ipc_inv s3 (wake s t L) (remove1 (Thread_timer t) T)"
    unfolding wake_def by (rule ipc_inv_make_ready [OF K2 s3(2) [unfolded wake_def]]) (simp add: s3(4))
  have info: "event_info (threads s1 t) = event_info (threads s t)" by (simp add: th1)
  have pick: "(if event_info (threads s t) AND RT_EVENT_FLAG_AND \<noteq> 0
      then (event_set (threads s t) AND event_bits (events s i) = event_set (threads s t), s)
      else if event_info (threads s t) AND RT_EVENT_FLAG_OR \<noteq> 0
      then (if event_set (threads s t) AND event_bits (events s i) \<noteq> 0
            then (True, upd_thread t (\<lambda>th. th\<lparr>event_set := event_set th AND event_bits (events s i)\<rparr>) s)
            else (False, s))
      else (False, s)) = (True, s1)"
    using ok by (auto simp: satisfied_def s1_def b split: if_splits)
  have "event_send_loop i (LElem t) need s = event_send_loop i (lnext (tlinks s) (LElem t)) True s3"
    unfolding event_send_loop.simps [of i "LElem t"] rt_list_entry.simps Option.bind.simps Let_def pick
    using s3(1) f2(3) info by (simp add: s2_def)
  moreover have "event_frame i s s3" by (rule event_frame_trans [OF f2(1) event_frame_intros(1) [OF s3(3)]])
  moreover have "event_bits (events s3 i) = left" using thread_frameD(3) [OF s3(3)] e2 by simp
  moreover have "threads s3 = (threads s)(t := (threads s t)\<lparr>event_set := got, stat := RT_THREAD_READY\<rparr>)"
    using s3(4) th1 th2 by simp
  ultimately show ?thesis using K3 s3(5) f2(2) by (intro exI [of _ s3]) simp
qed

text \<open>A thread whose condition does not hold is passed over.\<close>

lemma event_pass_one:
  assumes "\<not> satisfied (event_info (threads s t)) (event_set (threads s t)) (event_bits (events s i))"
  shows "event_send_loop i (LElem t) need s = event_send_loop i (lnext (tlinks s) (LElem t)) need s"
  unfolding event_send_loop.simps [of i "LElem t"]
  using assms by (auto simp: satisfied_def Let_def split: if_splits)

lemma wake_middle:
  assumes K: "ipc_inv s L T" and h: "wait_head h" and L: "L h = us @ t # ts"
  shows "wake s t L h = us @ ts"
proof -
  have "t \<notin> set us" using kernel_invD(8) [OF ipc_invD(1) [OF K], of h] L by simp
  then show ?thesis using h L by (simp add: wake_def make_ready_def unlink_def remove1_append)
qed

lemma event_send_loop_spec:
  assumes "ipc_inv s L T" "L (HEvent i) = us @ ts" "deliver (threads s) (event_bits (events s i)) ts = (w, k, b)"
    and "n = (if ts = [] then LHead (HEvent i) else LElem (hd ts))"
  shows "\<exists>s'. event_send_loop i n need s = Some (need \<or> w \<noteq> [], s')
     \<and> ipc_inv s' (fold (wake s) (map fst w) L) (filter (\<lambda>x. x \<notin> Thread_timer ` set (map fst w)) T)
     \<and> fold (wake s) (map fst w) L (HEvent i) = us @ k \<and> event_frame i s s'
     \<and> event_bits (events s' i) = b \<and> threads s' = notified w (threads s) \<and> rt_current_thread s' = rt_current_thread s"
  using assms
proof (induction ts arbitrary: s L T us w k b n need)
  case Nil
  then show ?case by (auto simp: event_send_loop.simps event_frame_intros notified_def fun_eq_iff)
next
  case (Cons t ts)
  note K = Cons.prems(1)
  let ?i = "event_info (threads s t)" and ?v = "event_set (threads s t)" and ?b = "event_bits (events s i)"
  have nx: "lnext (tlinks s) (LElem t) = (if ts = [] then LHead (HEvent i) else LElem (hd ts))"
    by (rule lists_rep_next_elem [OF kernel_invD(4) [OF ipc_invD(1) [OF K]] Cons.prems(2)])
  have dt: "t \<notin> set ts" using kernel_invD(8) [OF ipc_invD(1) [OF K], of "HEvent i"] Cons.prems(2) by simp
  have n: "n = LElem t" using Cons.prems(4) by simp
  show ?case
  proof (cases "satisfied ?i ?v ?b")
    case False
    obtain w' k' b' where d: "deliver (threads s) ?b ts = (w', k', b')" by (metis prod_cases3)
    have e: "w = w'" "k = t # k'" "b = b'" using Cons.prems(3) False d by (simp_all add: Let_def)
    have "L (HEvent i) = (us @ [t]) @ ts" using Cons.prems(2) by simp
    from Cons.IH [OF K this d nx, of need] show ?thesis
      using event_pass_one [OF False, of need] by (simp add: n e)
  next
    case True
    let ?g = "received ?v ?b" and ?r = "remaining ?i ?v ?b"
    have "t \<in> set (L (HEvent i))" using Cons.prems(2) by simp
    from event_wake_one [OF K this refl True, of need] obtain s3 where
      s3: "event_send_loop i (LElem t) need s = event_send_loop i (lnext (tlinks s) (LElem t)) True s3"
      "ipc_inv s3 (wake s t L) (remove1 (Thread_timer t) T)" "event_frame i s s3" "event_bits (events s3 i) = ?r"
      "rt_current_thread s3 = rt_current_thread s"
      "threads s3 = (threads s)(t := (threads s t)\<lparr>event_set := ?g, stat := RT_THREAD_READY\<rparr>)" by blast
    obtain w' k' b' where d: "deliver (threads s) ?r ts = (w', k', b')" by (metis prod_cases3)
    have e: "w = (t, ?g) # w'" "k = k'" "b = b'" using Cons.prems(3) True d by (simp_all add: Let_def)
    have d3: "deliver (threads s3) (event_bits (events s3 i)) ts = (w', k', b')"
      unfolding s3(4) d [symmetric] by (rule deliver_cong) (use dt in \<open>auto simp: s3(6)\<close>)
    have Lh: "wake s t L (HEvent i) = us @ ts" by (rule wake_middle [OF K _ Cons.prems(2)]) simp
    from Cons.IH [OF s3(2) Lh d3 nx, of True] obtain s' where
      s': "event_send_loop i (lnext (tlinks s) (LElem t)) True s3 = Some (True, s')"
      "ipc_inv s' (fold (wake s3) (map fst w') (wake s t L))
        (filter (\<lambda>x. x \<notin> Thread_timer ` set (map fst w')) (remove1 (Thread_timer t) T))"
      "fold (wake s3) (map fst w') (wake s t L) (HEvent i) = us @ k'" "event_frame i s3 s'"
      "event_bits (events s' i) = b'" "threads s' = notified w' (threads s3)" "rt_current_thread s' = rt_current_thread s3"
      by auto
    have ws: "fold (wake s3) (map fst w') M = fold (wake s) (map fst w') M" for M
      by (rule fold_wake_cong) (simp add: s3(6))
    have f: "filter (\<lambda>x. x \<notin> Thread_timer ` set (map fst w')) (remove1 (Thread_timer t) T)
        = filter (\<lambda>x. x \<notin> Thread_timer ` set (map fst w)) T"
      using tmr_invD(5) [OF kernel_invD(2) [OF ipc_invD(1) [OF K]]] e(1)
      by (auto simp: distinct_remove1_removeAll removeAll_filter_not_eq intro!: filter_cong)
    have "t \<notin> set (map fst w')" using deliver_parts [OF d] dt by blast
    then have "map_of w' t = None" by (metis map_of_eq_None_iff set_map)
    then have th: "notified w' (threads s3) = notified w (threads s)"
      by (auto simp: notified_def s3(6) e(1) fun_eq_iff split: option.splits)
    have "event_frame i s s'" by (rule event_frame_trans [OF s3(3) s'(4)])
    then show ?thesis using s' s3(1,5) unfolding ws f th by (simp add: n e)
  qed
qed

definition event_inv :: "kernel \<Rightarrow> (thead \<Rightarrow> nat list) \<Rightarrow> nat \<Rightarrow> bool" where
  "event_inv s L i \<longleftrightarrow>
     (\<forall>t \<in> set (L (HEvent i)). \<not> satisfied (event_info (threads s t)) (event_set (threads s t)) (event_bits (events s i)))
     \<and> (oflag (objs s (OEvent i)) = RT_IPC_FLAG_FIFO \<or> oflag (objs s (OEvent i)) = RT_IPC_FLAG_PRIO)"

lemma rt_event_send_spec:
  assumes K: "ipc_inv s L T" and E: "event_inv s L i" and c: "rt_current_thread s \<noteq> None" and z: "want \<noteq> 0"
    and d: "deliver (threads s) (event_bits (events s i) OR want) (L (HEvent i)) = (w, k, b)"
  defines "L' \<equiv> fold (wake s) (map fst w) L"
  shows "\<exists>s' T'. rt_event_send i want s = Some (RT_EOK, s') \<and> ipc_inv s' L' T' \<and> event_inv s' L' i
     \<and> L' (HEvent i) = k \<and> event_bits (events s' i) = b \<and> threads s' = notified w (threads s)
     \<and> (w \<noteq> [] \<and> rt_scheduler_lock_nest s = 0 \<longrightarrow> chosen L' s')"
proof -
  let ?s1 = "upd_event i (\<lambda>e. e\<lparr>event_bits := event_bits e OR want\<rparr>) s"
  let ?T = "filter (\<lambda>x. x \<notin> Thread_timer ` set (map fst w)) T"
  have K1: "ipc_inv ?s1 L T" using K by simp
  have d1: "deliver (threads ?s1) (event_bits (events ?s1 i)) (L (HEvent i)) = (w, k, b)" using d by (simp add: upd_event_def)
  have ws: "fold (wake ?s1) us M = fold (wake s) us M" for us M by (rule fold_wake_cong) (simp add: upd_event_def)
  obtain s2 where s2: "(if \<not> rt_list_isempty (LHead (HEvent i)) (tlinks ?s1)
      then event_send_loop i (lnext (tlinks ?s1) (LHead (HEvent i))) False ?s1 else Some (False, ?s1)) = Some (w \<noteq> [], s2)"
    "ipc_inv s2 L' ?T" "L' (HEvent i) = k" "event_frame i s s2" "event_bits (events s2 i) = b"
    "threads s2 = notified w (threads s)" "rt_current_thread s2 = rt_current_thread s"
  proof -
    have nx: "lnext (tlinks ?s1) (LHead (HEvent i)) = (if L (HEvent i) = [] then LHead (HEvent i) else LElem (hd (L (HEvent i))))"
      using lists_repD(2) [OF kernel_invD(4) [OF ipc_invD(1) [OF K1]], of "HEvent i"] by (cases "L (HEvent i)") auto
    have "L (HEvent i) = [] @ L (HEvent i)" by simp
    from event_send_loop_spec [OF K1 this d1 nx, of False] obtain s2 where
      s2: "event_send_loop i (lnext (tlinks ?s1) (LHead (HEvent i))) False ?s1 = Some (w \<noteq> [], s2)"
      "ipc_inv s2 L' ?T" "L' (HEvent i) = k" "event_frame i ?s1 s2" "event_bits (events s2 i) = b"
      "threads s2 = notified w (threads ?s1)" "rt_current_thread s2 = rt_current_thread ?s1"
      unfolding ws L'_def [symmetric] by auto
    have "event_send_loop i (lnext (tlinks ?s1) (LHead (HEvent i))) False ?s1 = Some (False, ?s1)" if "L (HEvent i) = []"
      using that nx by (simp add: event_send_loop.simps)
    then show ?thesis
      using s2 event_frame_trans [OF event_frame_intros(2) s2(4)]
      by (intro that [of s2]) (auto simp: list_empty_at [OF K] upd_event_def)
  qed
  obtain s3 where s3: "(if w \<noteq> [] then rt_schedule s2 else Some s2) = Some s3" "ipc_inv s3 L' ?T" "event_frame i s s3"
    "threads s3 = threads s2" "events s3 = events s2" "w \<noteq> [] \<Longrightarrow> rt_scheduler_lock_nest s = 0 \<Longrightarrow> chosen L' s3"
  proof (cases "w = []")
    case True
    then show ?thesis using that [of s2] s2 by simp
  next
    case False
    then obtain u g w' where w: "w = (u, g) # w'" by (cases w) auto
    have "\<exists>p. wake s u L (HPrio p) \<noteq> []" by (auto simp: wake_def make_ready_def)
    then obtain p where "L' (HPrio p) \<noteq> []" using fold_wake_ready [of "wake s u L" s "map fst w'"] by (auto simp: L'_def w)
    moreover have "rt_current_thread s2 \<noteq> None" using c s2(7) by simp
    ultimately obtain s3 where s3: "rt_schedule s2 = Some s3" "ipc_inv s3 L' ?T" "thread_frame s2 s3"
      "threads s3 = threads s2" "rt_scheduler_lock_nest s2 = 0 \<Longrightarrow> chosen L' s3" using switch [OF s2(2)] by metis
    then show ?thesis
      using False event_frame_trans [OF s2(4) event_frame_intros(1) [OF s3(3)]] thread_frameD(3) [OF s3(3)] event_frameD(1) [OF s2(4)]
      by (intro that [of s3]) auto
  qed
  have "event_inv s3 L' i"
  proof -
    note P = deliver_parts [OF d]
    have "\<not> satisfied (event_info (threads s3 t)) (event_set (threads s3 t)) (event_bits (events s3 i))" if t: "t \<in> set k" for t
    proof -
      have "t \<notin> set (map fst w)" using P t kernel_invD(8) [OF ipc_invD(1) [OF K], of "HEvent i"] by blast
      then have "map_of w t = None" by (metis map_of_eq_None_iff set_map)
      then show ?thesis using P t s2(5,6) s3(4,5) by (simp add: notified_def)
    qed
    then show ?thesis using E s2(3) event_frameD(2) [OF s3(3), of i] by (simp add: event_inv_def)
  qed
  moreover have "rt_event_send i want s = Some (RT_EOK, s3)"
    using z s2(1) s3(1) by (simp add: rt_event_send_def Let_def del: if_splits)
  ultimately show ?thesis using s2(3,5,6) s3 by (intro exI [of _ s3] exI [of _ ?T]) auto
qed

section \<open>Receiving\<close>

lemma remaining_clear: "remaining option want bits = (if option AND RT_EVENT_FLAG_CLEAR \<noteq> 0 then bits AND NOT want else bits)"
  by (auto simp: remaining_def received_def bit_eq_iff bit_simps)

definition has_mode :: "u8 \<Rightarrow> bool" where
  "has_mode option \<longleftrightarrow> option AND RT_EVENT_FLAG_AND \<noteq> 0 \<or> option AND RT_EVENT_FLAG_OR \<noteq> 0"

lemma recv_check:
  assumes "has_mode option"
  shows "(if option AND RT_EVENT_FLAG_AND \<noteq> 0 then Some (bits AND want = want)
     else if option AND RT_EVENT_FLAG_OR \<noteq> 0 then Some (bits AND want \<noteq> 0)
     else do { RT_ASSERT False; Some False }) = Some (satisfied option want bits)"
  using assms by (auto simp: has_mode_def satisfied_def and.commute)

text \<open>The flags are there: they are returned, and cleared on request.\<close>

lemma rt_event_recv_ready:
  assumes K: "ipc_inv s L T" and E: "event_inv s L i" and c: "rt_current_thread s = Some t" and irq: "rt_interrupt_nest s = 0"
    and z: "want \<noteq> 0" and m: "has_mode option" and ok: "satisfied option want (event_bits (events s i))"
  shows "\<exists>s'. rt_event_recv i want option time s = Some (Ret (RT_EOK, Some (received want (event_bits (events s i)))), s')
     \<and> ipc_inv s' L T \<and> event_inv s' L i \<and> event_bits (events s' i) = remaining option want (event_bits (events s i))"
proof -
  let ?s1 = "upd_thread t (\<lambda>th. th\<lparr>error := RT_EOK\<rparr>) s" and ?b = "event_bits (events s i)"
  define s2 where "s2 = (if option AND RT_EVENT_FLAG_CLEAR \<noteq> 0
     then upd_event i (\<lambda>e. e\<lparr>event_bits := event_bits e AND NOT want\<rparr>) ?s1 else ?s1)"
  have "ipc_inv ?s1 L T" by (rule ipc_inv_soft [OF K]) simp
  then have K2: "ipc_inv s2 L T" by (simp add: s2_def)
  have e2: "event_bits (events s2 i) = remaining option want ?b"
    by (simp add: s2_def remaining_clear upd_defs)
  have th2: "event_info (threads s2 u) = event_info (threads s u)" "event_set (threads s2 u) = event_set (threads s u)"
    "error (threads s2 t) = RT_EOK" "objs s2 = objs s" for u
    by (simp_all add: s2_def upd_defs)
  have "event_inv s2 L i"
    using E satisfied_mono [OF _ within_simps(2)] unfolding event_inv_def th2 e2 by blast
  moreover have "rt_event_recv i want option time s = Some (Ret (RT_EOK, Some (received want ?b)), s2)"
    unfolding rt_event_recv_def Let_def recv_check [OF m]
    using in_context [OF c irq] c z ok th2(3)
    by (simp add: rt_thread_self_def s2_def upd_thread_def received_def and.commute)
  ultimately show ?thesis using K2 e2 by blast
qed

lemma rt_event_recv_nowait:
  assumes "rt_current_thread s = Some t" "rt_interrupt_nest s = 0" "want \<noteq> 0" "has_mode option"
    and "\<not> satisfied option want (event_bits (events s i))"
  shows "\<exists>s'. rt_event_recv i want option 0 s = Some (Ret (- RT_ETIMEOUT, None), s') \<and> events s' = events s"
  unfolding rt_event_recv_def Let_def recv_check [OF assms(4)]
  using in_context [OF assms(1,2)] assms by (simp add: rt_thread_self_def upd_thread_def)

text \<open>They are not: the thread waits, and its condition is recorded.\<close>

lemma rt_event_recv_waits:
  assumes K: "ipc_inv s L T" and E: "event_inv s L i" and c: "rt_current_thread s = Some t" and irq: "rt_interrupt_nest s = 0"
    and st: "stat (threads s t) = RT_THREAD_READY" and z: "want \<noteq> 0" and m: "has_mode option"
    and no: "\<not> satisfied option want (event_bits (events s i))"
    and time: "time \<noteq> 0" "time < 0x7fffffff" and other: "unlink t L (HPrio q) \<noteq> []"
  defines "L' \<equiv> parked (HEvent i) (oflag (objs s (OEvent i))) (threads s) t L"
  shows "\<exists>s' T'. rt_event_recv i want option time s = Some (Block t, s') \<and> ipc_inv s' L' T' \<and> event_inv s' L' i
     \<and> events s' = events s \<and> stat (threads s' t) = RT_THREAD_SUSPEND
     \<and> event_set (threads s' t) = want \<and> event_info (threads s' t) = option \<and> error (threads s' t) = RT_EOK
     \<and> (time > 0 \<longrightarrow> Thread_timer t \<in> set T' \<and> tdist s' (Thread_timer t) = nat time)
     \<and> (rt_scheduler_lock_nest s = 0 \<longrightarrow> chosen L' s' \<and> rt_current_thread s' \<noteq> Some t)"
proof -
  let ?f = "oflag (objs s (OEvent i))"
  let ?e = "\<lambda>th. th\<lparr>error := RT_EOK, event_set := want, event_info := option\<rparr>"
  have fl: "?f = RT_IPC_FLAG_FIFO \<or> ?f = RT_IPC_FLAG_PRIO" using E by (simp add: event_inv_def)
  have "soft ?e" by (simp add: soft_def)
  from ipc_wait_switch [OF K st c _ fl time(2) this other, of "HEvent i"] obtain s2 s3 T' where
    s: "ipc_wait (HEvent i) t ?f time (upd_thread t ?e s) = Some s2" "rt_schedule s2 = Some s3" "ipc_inv s3 L' T'"
    "thread_frame s s3" "threads s3 = (threads s)(t := (?e (threads s t))\<lparr>stat := RT_THREAD_SUSPEND\<rparr>)"
    "time > 0 \<Longrightarrow> Thread_timer t \<in> set T' \<and> tdist s3 (Thread_timer t) = nat time" "time \<le> 0 \<Longrightarrow> T' = T"
    "rt_scheduler_lock_nest s = 0 \<Longrightarrow> chosen L' s3 \<and> rt_current_thread s3 \<noteq> Some t"
    unfolding L'_def by auto
  have "rt_event_recv i want option time s = Some (Block t, s3)"
    unfolding rt_event_recv_def Let_def recv_check [OF m]
    using in_context [OF c irq] c z no time(1) s(1,2) by (simp add: rt_thread_self_def upd_thread_def)
  moreover have "event_inv s3 L' i"
    using E fl no thread_frameD(3) [OF s(4)] thread_frameD(10) [OF s(4), of "OEvent i"]
    by (auto simp: event_inv_def s(5) L'_def parked_def set_enqueue)
  ultimately show ?thesis
    using s(3,5-8) thread_frameD(3) [OF s(4)] by (intro exI [of _ s3] exI [of _ T']) auto
qed

text \<open>A thread that a send woke without error reads the flags it received.\<close>

lemma rt_event_recv_resumed_notified:
  assumes "map_of w t = Some got" "threads s' = notified w th" "error (th t) = RT_EOK"
  shows "rt_event_recv_resumed t s' = (RT_EOK, Some got)"
  using assms by (simp add: rt_event_recv_resumed_def notified_def)

end
