(* ===== verification/RT_Mailbox.thy ===== *)
theory RT_Mailbox
  imports RT_Event
begin

text \<open>
  The mailboxes of \<open>src/ipc.c\<close>: a ring of words with one list of waiting receivers and one of waiting
  senders. The ring implements a bounded first-in-first-out buffer.

  A call that waits stops at its \<open>rt_schedule\<close> call with the ticks it may still wait and the tick it
  began to wait at; \<open>rt_mb_send_resumed\<close> and \<open>rt_mb_recv_resumed\<close> are what the call does when its
  thread runs again: report an error, or look at the ring once more with the time that is left.
\<close>

section \<open>Operations\<close>

definition mb_reset :: "nat \<Rightarrow> kernel \<Rightarrow> kernel" where
  "mb_reset i s = upd_mb i (\<lambda>m. m\<lparr>mb_entry := 0, in_offset := 0, out_offset := 0\<rparr>) s"

definition rt_mb_init :: "nat \<Rightarrow> u8 list \<Rightarrow> nat \<Rightarrow> u32 \<Rightarrow> u8 \<Rightarrow> kernel \<Rightarrow> (rt_err_t \<times> kernel) option" where
  "rt_mb_init i name pool sz flag s = do {
     s1 \<leftarrow> rt_object_init (OMailBox i) RT_Object_Class_MailBox name s;
     let s2 = upd_obj (OMailBox i) (\<lambda>o'. o'\<lparr>oflag := flag\<rparr>) s1;
     let s3 = rt_ipc_object_init (HMb i) s2;
     let s4 = mb_reset i (upd_mb i (\<lambda>m. m\<lparr>msg_pool := pool, mb_size := ucast sz\<rparr>) s3);
     Some (RT_EOK, upd_tl (rt_list_init (LHead (HMbSender i))) s4) }"

definition rt_mb_detach :: "nat \<Rightarrow> kernel \<Rightarrow> (rt_err_t \<times> kernel) option" where
  "rt_mb_detach i s = do {
     s1 \<leftarrow> rt_ipc_list_resume_all (HMb i) s;
     s2 \<leftarrow> rt_ipc_list_resume_all (HMbSender i) s1;
     Some (RT_EOK, rt_object_detach (OMailBox i) s2) }"

definition rt_mb_create :: "u8 list \<Rightarrow> u32 \<Rightarrow> u8 \<Rightarrow> kernel \<Rightarrow> (nat option \<times> kernel) option" where
  "rt_mb_create name sz flag s = do {
     RT_DEBUG_NOT_IN_INTERRUPT s;
     (r, s1) \<leftarrow> rt_object_allocate RT_Object_Class_MailBox name s;
     case r of None \<Rightarrow> Some (None, s1)
     | Some i \<Rightarrow> do {
         let s2 = upd_obj (OMailBox i) (\<lambda>o'. o'\<lparr>oflag := flag\<rparr>) s1;
         let s3 = rt_ipc_object_init (HMb i) s2;
         let s4 = upd_mb i (\<lambda>m. m\<lparr>mb_size := ucast sz\<rparr>) s3;
         (p, s5) \<leftarrow> RT_KERNEL_MALLOC (unat (mb_size (mailboxes s4 i)) * 4) s4;
         case p of
           None \<Rightarrow> do { s6 \<leftarrow> rt_object_delete RT_Object_Class_MailBox i s5; Some (None, s6) }
         | Some a \<Rightarrow> do {
             let s6 = mb_reset i (upd_mb i (\<lambda>m. m\<lparr>msg_pool := a\<rparr>) s5);
             Some (Some i, upd_tl (rt_list_init (LHead (HMbSender i))) s6) } } }"

definition rt_mb_delete :: "nat \<Rightarrow> kernel \<Rightarrow> (rt_err_t \<times> kernel) option" where
  "rt_mb_delete i s = do {
     RT_DEBUG_NOT_IN_INTERRUPT s;
     s1 \<leftarrow> rt_ipc_list_resume_all (HMb i) s;
     s2 \<leftarrow> rt_ipc_list_resume_all (HMbSender i) s1;
     s3 \<leftarrow> RT_KERNEL_FREE (msg_pool (mailboxes s2 i)) s2;
     s4 \<leftarrow> rt_object_delete RT_Object_Class_MailBox i s3;
     Some (RT_EOK, s4) }"

text \<open>The ticks left of \<open>timeout\<close> for a call that began to wait at tick \<open>start\<close>, as the code computes them.\<close>

definition time_left :: "int \<Rightarrow> u32 \<Rightarrow> kernel \<Rightarrow> int" where
  "time_left timeout start s =
    (if timeout > 0
     then let t = sint (of_int timeout - (rt_tick_get s - start) :: u32) in if t < 0 then 0 else t
     else timeout)"

text \<open>The ring: writing the word at \<open>in_offset\<close>, reading the word at \<open>out_offset\<close>.\<close>

definition mb_store :: "nat \<Rightarrow> u32 \<Rightarrow> kernel \<Rightarrow> kernel" where
  "mb_store i val s =
    (let m = mailboxes s i; off = in_offset m + 1 in
     upd_mb i (\<lambda>m. m\<lparr>in_offset := (if off \<ge> mb_size m then 0 else off), mb_entry := mb_entry m + 1\<rparr>)
       (s\<lparr>ram := store32 (ram s) (msg_pool m + 4 * unat (in_offset m)) val\<rparr>))"

definition mb_fetch :: "nat \<Rightarrow> kernel \<Rightarrow> u32 \<times> kernel" where
  "mb_fetch i s =
    (let m = mailboxes s i; off = out_offset m + 1 in
     (load32 (ram s) (msg_pool m + 4 * unat (out_offset m)),
      upd_mb i (\<lambda>m. m\<lparr>out_offset := (if off \<ge> mb_size m then 0 else off), mb_entry := mb_entry m - 1\<rparr>) s))"

text \<open>From the test of the waiting loop on.\<close>

definition mb_send_step :: "nat \<Rightarrow> u32 \<Rightarrow> int \<Rightarrow> kernel \<Rightarrow> ((nat \<times> int \<times> u32, rt_err_t) outcome \<times> kernel) option" where
  "mb_send_step i val timeout s =
    (if mb_entry (mailboxes s i) = mb_size (mailboxes s i)
     then do {
       t \<leftarrow> rt_thread_self s;
       let s1 = upd_thread t (\<lambda>th. th\<lparr>error := RT_EOK\<rparr>) s;
       if timeout = 0 then Some (Ret (- RT_EFULL), s1)
       else do {
         RT_DEBUG_IN_THREAD_CONTEXT s1;
         s2 \<leftarrow> ipc_wait (HMbSender i) t (oflag (objs s1 (OMailBox i))) timeout s1;
         s3 \<leftarrow> rt_schedule s2;
         Some (Block (t, timeout, rt_tick_get s1), s3) } }
     else do {
       let s1 = mb_store i val s;
       if \<not> rt_list_isempty (LHead (HMb i)) (tlinks s1)
       then do {
         s2 \<leftarrow> rt_ipc_list_resume (HMb i) s1;
         s3 \<leftarrow> rt_schedule s2;
         Some (Ret RT_EOK, s3) }
       else Some (Ret RT_EOK, s1) })"

definition rt_mb_send_wait :: "nat \<Rightarrow> u32 \<Rightarrow> int \<Rightarrow> kernel \<Rightarrow> ((nat \<times> int \<times> u32, rt_err_t) outcome \<times> kernel) option" where
  "rt_mb_send_wait i val timeout s =
    (if mb_entry (mailboxes s i) = mb_size (mailboxes s i) \<and> timeout = 0 then Some (Ret (- RT_EFULL), s)
     else mb_send_step i val timeout s)"

definition rt_mb_send_resumed ::
  "nat \<Rightarrow> u32 \<Rightarrow> nat \<times> int \<times> u32 \<Rightarrow> kernel \<Rightarrow> ((nat \<times> int \<times> u32, rt_err_t) outcome \<times> kernel) option" where
  "rt_mb_send_resumed i val k s =
    (case k of (t, timeout, start) \<Rightarrow>
       if error (threads s t) \<noteq> RT_EOK then Some (Ret (error (threads s t)), s)
       else mb_send_step i val (time_left timeout start s) s)"

definition rt_mb_send :: "nat \<Rightarrow> u32 \<Rightarrow> kernel \<Rightarrow> ((nat \<times> int \<times> u32, rt_err_t) outcome \<times> kernel) option" where
  "rt_mb_send i val s = rt_mb_send_wait i val 0 s"

definition mb_recv_step :: "nat \<Rightarrow> int \<Rightarrow> kernel \<Rightarrow> ((nat \<times> int \<times> u32, rt_err_t \<times> u32 option) outcome \<times> kernel) option" where
  "mb_recv_step i timeout s =
    (if mb_entry (mailboxes s i) = 0
     then do {
       t \<leftarrow> rt_thread_self s;
       let s1 = upd_thread t (\<lambda>th. th\<lparr>error := RT_EOK\<rparr>) s;
       if timeout = 0
       then Some (Ret (- RT_ETIMEOUT, None), upd_thread t (\<lambda>th. th\<lparr>error := - RT_ETIMEOUT\<rparr>) s1)
       else do {
         RT_DEBUG_IN_THREAD_CONTEXT s1;
         s2 \<leftarrow> ipc_wait (HMb i) t (oflag (objs s1 (OMailBox i))) timeout s1;
         s3 \<leftarrow> rt_schedule s2;
         Some (Block (t, timeout, rt_tick_get s1), s3) } }
     else do {
       let (v, s1) = mb_fetch i s;
       if \<not> rt_list_isempty (LHead (HMbSender i)) (tlinks s1)
       then do {
         s2 \<leftarrow> rt_ipc_list_resume (HMbSender i) s1;
         s3 \<leftarrow> rt_schedule s2;
         Some (Ret (RT_EOK, Some v), s3) }
       else Some (Ret (RT_EOK, Some v), s1) })"

definition rt_mb_recv :: "nat \<Rightarrow> int \<Rightarrow> kernel \<Rightarrow> ((nat \<times> int \<times> u32, rt_err_t \<times> u32 option) outcome \<times> kernel) option" where
  "rt_mb_recv i timeout s =
    (if mb_entry (mailboxes s i) = 0 \<and> timeout = 0 then Some (Ret (- RT_ETIMEOUT, None), s)
     else mb_recv_step i timeout s)"

definition rt_mb_recv_resumed ::
  "nat \<Rightarrow> nat \<times> int \<times> u32 \<Rightarrow> kernel \<Rightarrow> ((nat \<times> int \<times> u32, rt_err_t \<times> u32 option) outcome \<times> kernel) option" where
  "rt_mb_recv_resumed i k s =
    (case k of (t, timeout, start) \<Rightarrow>
       if error (threads s t) \<noteq> RT_EOK then Some (Ret (error (threads s t), None), s)
       else mb_recv_step i (time_left timeout start s) s)"

definition rt_mb_control :: "nat \<Rightarrow> ipc_cmd \<Rightarrow> u32 \<Rightarrow> kernel \<Rightarrow> (rt_err_t \<times> kernel) option" where
  "rt_mb_control i cmd arg s =
    (if cmd = RT_IPC_CMD_RESET
     then do {
       s1 \<leftarrow> rt_ipc_list_resume_all (HMb i) s;
       s2 \<leftarrow> rt_ipc_list_resume_all (HMbSender i) s1;
       s3 \<leftarrow> rt_schedule (mb_reset i s2);
       Some (RT_EOK, s3) }
     else Some (- RT_ERROR, s))"

section \<open>The ring as a bounded buffer\<close>

definition mails :: "nat \<Rightarrow> kernel \<Rightarrow> u32 list" where
  "mails i s = (let m = mailboxes s i in
     ring_content (\<lambda>k. load32 (ram s) (msg_pool m + 4 * k)) (unat (mb_size m)) (unat (out_offset m)) (unat (mb_entry m)))"

definition mb_inv :: "nat \<Rightarrow> kernel \<Rightarrow> bool" where
  "mb_inv i s \<longleftrightarrow> (let m = mailboxes s i; n = unat (mb_size m) in
     unat (in_offset m) < n \<and> unat (out_offset m) < n \<and> unat (mb_entry m) \<le> n
     \<and> unat (in_offset m) = (unat (out_offset m) + unat (mb_entry m)) mod n)"

definition mb_cap :: "nat \<Rightarrow> kernel \<Rightarrow> nat" where
  "mb_cap i s = unat (mb_size (mailboxes s i))"

definition mb_len :: "nat \<Rightarrow> kernel \<Rightarrow> nat" where
  "mb_len i s = unat (mb_entry (mailboxes s i))"

lemma offset_step:
  assumes "unat off < unat (n :: u16)"
  shows "unat (if off + 1 \<ge> n then 0 else off + 1) = ring_next (unat n) (unat off)"
proof -
  have "unat n < 65536" using unsigned_less [of n] by simp
  then have "unat (off + 1) = unat off + 1" using assms by (simp add: unat_word_ariths)
  then show ?thesis by (simp add: ring_next_def word_le_nat_alt)
qed

lemma entry_steps:
  "unat (e :: u16) < unat (n :: u16) \<Longrightarrow> unat (e + 1) = unat e + 1" "0 < unat e \<Longrightarrow> unat (e - 1) = unat e - 1"
proof -
  show "unat (e + 1) = unat e + 1" if "unat e < unat n"
    using that unsigned_less [of n, where ?'a = nat] by (simp add: unat_word_ariths)
  show "unat (e - 1) = unat e - 1" if "0 < unat e"
    using that unat_sub [of 1 e] by (simp add: word_le_nat_alt)
qed

lemma mb_store_ring:
  assumes I: "mb_inv i s" and l: "mb_len i s < mb_cap i s"
  shows "mb_inv i (mb_store i v s)" "mails i (mb_store i v s) = mails i s @ [v]" "mb_cap i (mb_store i v s) = mb_cap i s"
proof -
  let ?m = "mailboxes s i" and ?m' = "mailboxes (mb_store i v s) i"
  let ?n = "unat (mb_size ?m)" and ?o = "unat (out_offset ?m)" and ?e = "unat (mb_entry ?m)"
  let ?f = "\<lambda>k. load32 (ram s) (msg_pool ?m + 4 * k)"
  have J: "unat (in_offset ?m) < ?n" "?o < ?n" "?e < ?n" "unat (in_offset ?m) = (?o + ?e) mod ?n"
    using I l by (auto simp: mb_inv_def Let_def mb_len_def mb_cap_def)
  have m': "mb_size ?m' = mb_size ?m" "out_offset ?m' = out_offset ?m" "msg_pool ?m' = msg_pool ?m"
    "unat (mb_entry ?m') = Suc ?e" "unat (in_offset ?m') = ring_next ?n (unat (in_offset ?m))"
    using entry_steps(1) [OF J(3)] offset_step [OF J(1)] by (simp_all add: mb_store_def Let_def upd_mb_def)
  have nx: "ring_next ?n (unat (in_offset ?m)) = (?o + Suc ?e) mod ?n"
    using ring_next_mod [OF J(1)] J(4) by (simp add: mod_Suc_eq)
  show "mb_inv i (mb_store i v s)"
    using J m' nx ring_next_bound [OF J(1)] by (simp add: mb_inv_def Let_def)
  have r: "ram (mb_store i v s) = store32 (ram s) (msg_pool ?m + 4 * unat (in_offset ?m)) v"
    by (simp add: mb_store_def Let_def upd_mb_def)
  have "(\<lambda>k. load32 (ram (mb_store i v s)) (msg_pool ?m + 4 * k)) = ?f ((?o + ?e) mod ?n := v)"
    using J(4) by (auto simp: r fun_eq_iff load32_store32 intro!: load32_store32_other)
  then show "mails i (mb_store i v s) = mails i s @ [v]"
    using ring_content_put [OF J(2,3), of ?f v] m' by (simp add: mails_def Let_def)
  show "mb_cap i (mb_store i v s) = mb_cap i s" using m' by (simp add: mb_cap_def)
qed

lemma mb_fetch_ring:
  assumes I: "mb_inv i s" and l: "0 < mb_len i s"
  shows "mb_inv i (snd (mb_fetch i s))" "mails i s = fst (mb_fetch i s) # mails i (snd (mb_fetch i s))"
    "mb_cap i (snd (mb_fetch i s)) = mb_cap i s"
proof -
  let ?m = "mailboxes s i" and ?m' = "mailboxes (snd (mb_fetch i s)) i"
  let ?n = "unat (mb_size ?m)" and ?o = "unat (out_offset ?m)" and ?e = "unat (mb_entry ?m)"
  have J: "unat (in_offset ?m) < ?n" "?o < ?n" "?e \<le> ?n" "0 < ?e" "unat (in_offset ?m) = (?o + ?e) mod ?n"
    using I l by (auto simp: mb_inv_def Let_def mb_len_def)
  have m': "mb_size ?m' = mb_size ?m" "in_offset ?m' = in_offset ?m" "msg_pool ?m' = msg_pool ?m"
    "unat (mb_entry ?m') = ?e - 1" "unat (out_offset ?m') = ring_next ?n ?o" "ram (snd (mb_fetch i s)) = ram s"
    using entry_steps(2) [OF J(4)] offset_step [OF J(2)] by (simp_all add: mb_fetch_def Let_def upd_mb_def)
  have "(ring_next ?n ?o + (?e - 1)) mod ?n = (Suc ?o + (?e - 1)) mod ?n"
    unfolding ring_next_mod [OF J(2)] by (rule mod_add_left_eq)
  then have "(?o + ?e) mod ?n = (ring_next ?n ?o + (?e - 1)) mod ?n" using J(4) by simp
  then show "mb_inv i (snd (mb_fetch i s))"
    using J m' ring_next_bound [OF J(2)] by (simp add: mb_inv_def Let_def)
  show "mails i s = fst (mb_fetch i s) # mails i (snd (mb_fetch i s))"
    unfolding mails_def Let_def m' ring_content_get [OF J(2,4)] by (simp add: mb_fetch_def Let_def)
  show "mb_cap i (snd (mb_fetch i s)) = mb_cap i s" using m' by (simp add: mb_cap_def)
qed

interpretation mbq: bounded_fifo "mb_inv i" "mails i" "mb_cap i" "mb_len i" "mb_store i" "mb_fetch i" for i
  by unfold_locales (simp_all add: mb_store_ring mb_fetch_ring, simp add: mb_len_def mails_def Let_def)

lemma mb_frame:
  assumes "thread_frame s s'"
  shows "mails i s' = mails i s" "mb_inv i s' = mb_inv i s"
  using thread_frameD(4,12) [OF assms] by (simp_all add: mails_def mb_inv_def)

lemma mb_store_kernel [simp]:
  "ipc_inv (mb_store i v s) L T = ipc_inv s L T" "threads (mb_store i v s) = threads s"
  "rt_current_thread (mb_store i v s) = rt_current_thread s" "rt_scheduler_lock_nest (mb_store i v s) = rt_scheduler_lock_nest s"
  "tlinks (mb_store i v s) = tlinks s" "objs (mb_store i v s) = objs s"
  by (simp_all add: mb_store_def Let_def) (simp_all add: upd_mb_def)

lemma mb_fetch_kernel [simp]:
  "ipc_inv (snd (mb_fetch i s)) L T = ipc_inv s L T" "threads (snd (mb_fetch i s)) = threads s"
  "rt_current_thread (snd (mb_fetch i s)) = rt_current_thread s"
  "rt_scheduler_lock_nest (snd (mb_fetch i s)) = rt_scheduler_lock_nest s"
  "tlinks (snd (mb_fetch i s)) = tlinks s" "objs (snd (mb_fetch i s)) = objs s"
  by (simp_all add: mb_fetch_def Let_def) (simp_all add: upd_mb_def)

section \<open>Sending and receiving\<close>

text \<open>What the wake-up at the end of a call does to the waiting list \<open>h\<close>.\<close>

definition handed :: "thead \<Rightarrow> kernel \<Rightarrow> (thead \<Rightarrow> nat list) \<Rightarrow> thead \<Rightarrow> nat list" where
  "handed h s L = (case L h of [] \<Rightarrow> L | t # ts \<Rightarrow> make_ready t (unat (current_priority (threads s t))) L)"

lemma handed_cong: "threads s' = threads s \<Longrightarrow> handed h s' L = handed h s L"
  by (simp add: handed_def split: list.split)

lemma wake_one:
  assumes K: "ipc_inv s L T" and h: "wait_head h" and c: "rt_current_thread s \<noteq> None"
  shows "\<exists>s' T'. (if \<not> rt_list_isempty (LHead h) (tlinks s)
      then do { s2 \<leftarrow> rt_ipc_list_resume h s; s3 \<leftarrow> rt_schedule s2; Some (r, s3) }
      else Some (r, s)) = Some (r, s')
    \<and> ipc_inv s' (handed h s L) T' \<and> thread_frame s s' \<and> handed h s L h = tl (L h)
    \<and> (\<forall>t ts. L h = t # ts \<longrightarrow> stat (threads s' t) = RT_THREAD_READY)
    \<and> (\<forall>u. error (threads s' u) = error (threads s u))
    \<and> (L h \<noteq> [] \<and> rt_scheduler_lock_nest s = 0 \<longrightarrow> chosen (handed h s L) s')"
proof (cases "L h")
  case Nil
  then show ?thesis using K by (intro exI [of _ s] exI [of _ T]) (simp add: list_empty_at [OF K] handed_def)
next
  case (Cons t ts)
  from ipc_resume_switch [OF K h Cons c] obtain s1 s' where
    s: "rt_ipc_list_resume h s = Some s1" "rt_schedule s1 = Some s'" "ipc_inv s' (handed h s L) (remove1 (Thread_timer t) T)"
    "thread_frame s s'" "threads s' = (threads s)(t := (threads s t)\<lparr>stat := RT_THREAD_READY\<rparr>)"
    "handed h s L h = ts" "rt_scheduler_lock_nest s = 0 \<Longrightarrow> chosen (handed h s L) s'"
    unfolding handed_def Cons list.case by blast
  then show ?thesis
    using Cons by (intro exI [of _ s'] exI [of _ "remove1 (Thread_timer t) T"]) (simp add: list_empty_at [OF K])
qed

lemma rt_mb_send_room:
  assumes K: "ipc_inv s L T" and M: "mb_inv i s" and c: "rt_current_thread s \<noteq> None" and l: "mb_len i s < mb_cap i s"
  shows "\<exists>s' T'. rt_mb_send_wait i v time s = Some (Ret RT_EOK, s') \<and> ipc_inv s' (handed (HMb i) s L) T' \<and> mb_inv i s'
     \<and> mails i s' = mails i s @ [v] \<and> handed (HMb i) s L (HMb i) = tl (L (HMb i))
     \<and> (\<forall>t ts. L (HMb i) = t # ts \<longrightarrow> stat (threads s' t) = RT_THREAD_READY) \<and> (\<forall>u. error (threads s' u) = error (threads s u))
     \<and> (L (HMb i) \<noteq> [] \<and> rt_scheduler_lock_nest s = 0 \<longrightarrow> chosen (handed (HMb i) s L) s')"
proof -
  let ?s1 = "mb_store i v s"
  have K1: "ipc_inv ?s1 L T" "rt_current_thread ?s1 \<noteq> None" using K c by simp_all
  have h: "handed (HMb i) ?s1 L = handed (HMb i) s L" by (rule handed_cong) simp
  have ne: "mb_entry (mailboxes s i) \<noteq> mb_size (mailboxes s i)" using l by (auto simp: mb_len_def mb_cap_def)
  have wh: "wait_head (HMb i)" by simp
  from wake_one [OF K1(1) wh K1(2), of "Ret RT_EOK :: (nat \<times> int \<times> u32, rt_err_t) outcome"] obtain s' T' where
    s': "(if \<not> rt_list_isempty (LHead (HMb i)) (tlinks ?s1)
      then do { s2 \<leftarrow> rt_ipc_list_resume (HMb i) ?s1; s3 \<leftarrow> rt_schedule s2; Some (Ret RT_EOK, s3) }
      else Some (Ret RT_EOK, ?s1)) = Some (Ret RT_EOK :: (nat \<times> int \<times> u32, rt_err_t) outcome, s')"
    "ipc_inv s' (handed (HMb i) s L) T'" "thread_frame ?s1 s'" "handed (HMb i) s L (HMb i) = tl (L (HMb i))"
    "\<And>t ts. L (HMb i) = t # ts \<Longrightarrow> stat (threads s' t) = RT_THREAD_READY" "\<And>u. error (threads s' u) = error (threads s u)"
    "L (HMb i) \<noteq> [] \<and> rt_scheduler_lock_nest s = 0 \<Longrightarrow> chosen (handed (HMb i) s L) s'"
    unfolding h mb_store_kernel by blast
  have "rt_mb_send_wait i v time s = Some (Ret RT_EOK, s')"
    using s'(1) ne by (auto simp: rt_mb_send_wait_def mb_send_step_def Let_def split: if_splits)
  then show ?thesis using s' mb_frame [OF s'(3), of i] mb_store_ring [OF M l, of v] by auto
qed

lemma rt_mb_recv_mail:
  assumes K: "ipc_inv s L T" and M: "mb_inv i s" and c: "rt_current_thread s \<noteq> None" and l: "mails i s = v # vs"
  shows "\<exists>s' T'. rt_mb_recv i time s = Some (Ret (RT_EOK, Some v), s') \<and> ipc_inv s' (handed (HMbSender i) s L) T' \<and> mb_inv i s'
     \<and> mails i s' = vs \<and> handed (HMbSender i) s L (HMbSender i) = tl (L (HMbSender i))
     \<and> (\<forall>t ts. L (HMbSender i) = t # ts \<longrightarrow> stat (threads s' t) = RT_THREAD_READY)"
proof -
  let ?s1 = "snd (mb_fetch i s)"
  have K1: "ipc_inv ?s1 L T" "rt_current_thread ?s1 \<noteq> None" using K c by simp_all
  have p: "0 < mb_len i s" using l mbq.len_content [OF M] by simp
  then have ne: "mb_entry (mailboxes s i) \<noteq> 0" by (auto simp: mb_len_def)
  have v: "fst (mb_fetch i s) = v" "mails i ?s1 = vs" using mb_fetch_ring(2) [OF M p] l by simp_all
  have h: "handed (HMbSender i) ?s1 L = handed (HMbSender i) s L" by (rule handed_cong) simp
  have wh: "wait_head (HMbSender i)" by simp
  from wake_one [OF K1(1) wh K1(2), of "Ret (RT_EOK, Some v) :: (nat \<times> int \<times> u32, rt_err_t \<times> u32 option) outcome"] obtain s' T' where
    s': "(if \<not> rt_list_isempty (LHead (HMbSender i)) (tlinks ?s1)
      then do { s2 \<leftarrow> rt_ipc_list_resume (HMbSender i) ?s1; s3 \<leftarrow> rt_schedule s2; Some (Ret (RT_EOK, Some v), s3) }
      else Some (Ret (RT_EOK, Some v), ?s1)) 
        = Some (Ret (RT_EOK, Some v) :: (nat \<times> int \<times> u32, rt_err_t \<times> u32 option) outcome, s')"
    "ipc_inv s' (handed (HMbSender i) s L) T'" "thread_frame ?s1 s'"
    "handed (HMbSender i) s L (HMbSender i) = tl (L (HMbSender i))"
    "\<And>t ts. L (HMbSender i) = t # ts \<Longrightarrow> stat (threads s' t) = RT_THREAD_READY"
    unfolding h by blast
  have "rt_mb_recv i time s = Some (Ret (RT_EOK, Some v), s')"
    using s'(1) ne v(1) by (cases "mb_fetch i s") (auto simp: rt_mb_recv_def mb_recv_step_def split: if_splits)
  then show ?thesis using s' v mb_frame [OF s'(3), of i] mb_fetch_ring(1) [OF M p] by auto
qed

text \<open>Without room or mail: the errors of the calls that do not wait, and the waiting.\<close>

lemma mb_full_empty:
  "mb_entry (mailboxes s i) = mb_size (mailboxes s i) \<longleftrightarrow> mb_len i s = mb_cap i s"
  "mb_entry (mailboxes s i) = 0 \<longleftrightarrow> mb_len i s = 0"
  by (simp_all add: mb_len_def mb_cap_def word_unat_eq_iff)

lemma rt_mb_nowait:
  "mb_len i s = mb_cap i s \<Longrightarrow> rt_mb_send i v s = Some (Ret (- RT_EFULL), s)"
  "mb_len i s = 0 \<Longrightarrow> rt_mb_recv i 0 s = Some (Ret (- RT_ETIMEOUT, None), s)"
  by (simp_all add: rt_mb_send_def rt_mb_send_wait_def rt_mb_recv_def mb_full_empty)

lemma rt_mb_waits:
  assumes K: "ipc_inv s L T" and M: "mb_inv i s" and c: "rt_current_thread s = Some t" and irq: "rt_interrupt_nest s = 0"
    and st: "stat (threads s t) = RT_THREAD_READY" and time: "time \<noteq> 0" "time < 0x7fffffff"
    and fl: "oflag (objs s (OMailBox i)) = RT_IPC_FLAG_FIFO \<or> oflag (objs s (OMailBox i)) = RT_IPC_FLAG_PRIO"
    and other: "unlink t L (HPrio q) \<noteq> []"
  defines "P h \<equiv> parked h (oflag (objs s (OMailBox i))) (threads s) t L"
  shows "mb_len i s = mb_cap i s \<Longrightarrow> \<exists>s' T'. rt_mb_send_wait i v time s = Some (Block (t, time, rt_tick s), s')
       \<and> ipc_inv s' (P (HMbSender i)) T' \<and> mb_inv i s' \<and> mails i s' = mails i s \<and> stat (threads s' t) = RT_THREAD_SUSPEND
       \<and> error (threads s' t) = RT_EOK \<and> thread_frame s s' \<and> (rt_scheduler_lock_nest s = 0 \<longrightarrow> chosen (P (HMbSender i)) s')"
    and "mb_len i s = 0 \<Longrightarrow> \<exists>s' T'. rt_mb_recv i time s = Some (Block (t, time, rt_tick s), s')
       \<and> ipc_inv s' (P (HMb i)) T' \<and> mb_inv i s' \<and> mails i s' = mails i s \<and> stat (threads s' t) = RT_THREAD_SUSPEND
       \<and> error (threads s' t) = RT_EOK \<and> thread_frame s s' \<and> (rt_scheduler_lock_nest s = 0 \<longrightarrow> chosen (P (HMb i)) s')"
proof -
  let ?f = "oflag (objs s (OMailBox i))" and ?e = "\<lambda>th. th\<lparr>error := RT_EOK\<rparr>"
  let ?s1 = "upd_thread t ?e s"
  have ctx: "RT_DEBUG_IN_THREAD_CONTEXT ?s1 = Some ()"
    by (rule in_context [of _ t]) (simp_all add: upd_thread_def c irq)
  have s1: "objs ?s1 = objs s" "rt_tick_get ?s1 = rt_tick s" by (simp_all add: upd_thread_def rt_tick_get_def)
  have w: "\<exists>s2 s3 T'. ipc_wait h t ?f time ?s1 = Some s2 \<and> rt_schedule s2 = Some s3 \<and> ipc_inv s3 (P h) T' \<and> thread_frame s s3
     \<and> stat (threads s3 t) = RT_THREAD_SUSPEND \<and> error (threads s3 t) = RT_EOK \<and> (rt_scheduler_lock_nest s = 0 \<longrightarrow> chosen (P h) s3)" if "wait_head h" for h
  proof -
    from ipc_wait_switch [OF K st c that fl time(2) soft_updates(1) [of RT_EOK] other] obtain s2 s3 T' where
      "ipc_wait h t ?f time ?s1 = Some s2" "rt_schedule s2 = Some s3" "ipc_inv s3 (P h) T'" "thread_frame s s3"
      "threads s3 = (threads s)(t := (?e (threads s t))\<lparr>stat := RT_THREAD_SUSPEND\<rparr>)"
      "rt_scheduler_lock_nest s = 0 \<Longrightarrow> chosen (P h) s3 \<and> rt_current_thread s3 \<noteq> Some t"
      unfolding P_def by blast
    then show ?thesis by (intro exI [of _ s2] exI [of _ s3] exI [of _ T']) simp
  qed
  show "\<exists>s' T'. rt_mb_send_wait i v time s = Some (Block (t, time, rt_tick s), s')
       \<and> ipc_inv s' (P (HMbSender i)) T' \<and> mb_inv i s' \<and> mails i s' = mails i s \<and> stat (threads s' t) = RT_THREAD_SUSPEND
       \<and> error (threads s' t) = RT_EOK \<and> thread_frame s s' \<and> (rt_scheduler_lock_nest s = 0 \<longrightarrow> chosen (P (HMbSender i)) s')"
    if "mb_len i s = mb_cap i s"
  proof -
    from w [of "HMbSender i"] obtain s2 s3 T' where x: "ipc_wait (HMbSender i) t ?f time ?s1 = Some s2"
      "rt_schedule s2 = Some s3" "ipc_inv s3 (P (HMbSender i)) T'" "thread_frame s s3" "stat (threads s3 t) = RT_THREAD_SUSPEND"
      "error (threads s3 t) = RT_EOK" "rt_scheduler_lock_nest s = 0 \<longrightarrow> chosen (P (HMbSender i)) s3" by auto
    have "rt_mb_send_wait i v time s = Some (Block (t, time, rt_tick s), s3)"
      using that c time(1) ctx x(1,2) s1
      by (simp add: rt_mb_send_wait_def mb_send_step_def rt_thread_self_def Let_def mb_full_empty)
    then show ?thesis using x mb_frame [OF x(4), of i] M by auto
  qed
  show "\<exists>s' T'. rt_mb_recv i time s = Some (Block (t, time, rt_tick s), s')
       \<and> ipc_inv s' (P (HMb i)) T' \<and> mb_inv i s' \<and> mails i s' = mails i s \<and> stat (threads s' t) = RT_THREAD_SUSPEND
       \<and> error (threads s' t) = RT_EOK \<and> thread_frame s s' \<and> (rt_scheduler_lock_nest s = 0 \<longrightarrow> chosen (P (HMb i)) s')"
    if "mb_len i s = 0"
  proof -
    from w [of "HMb i"] obtain s2 s3 T' where x: "ipc_wait (HMb i) t ?f time ?s1 = Some s2"
      "rt_schedule s2 = Some s3" "ipc_inv s3 (P (HMb i)) T'" "thread_frame s s3" "stat (threads s3 t) = RT_THREAD_SUSPEND"
      "error (threads s3 t) = RT_EOK" "rt_scheduler_lock_nest s = 0 \<longrightarrow> chosen (P (HMb i)) s3" by auto
    have "rt_mb_recv i time s = Some (Block (t, time, rt_tick s), s3)"
      using that c time(1) ctx x(1,2) s1
      by (simp add: rt_mb_recv_def mb_recv_step_def rt_thread_self_def Let_def mb_full_empty)
    then show ?thesis using x mb_frame [OF x(4), of i] M by auto
  qed
qed

text \<open>The time that is left to a call that waits again.\<close>

lemma time_left_spec:
  assumes "0 < time" "time < 2 ^ 31" "unat (rt_tick s - start) < 2 ^ 31"
  shows "time_left time start s = max 0 (time - int (unat (rt_tick s - start)))"
proof -
  obtain d where d: "unat (rt_tick s - start) = d" "rt_tick s - start = of_int (int d)"
    by (metis of_int_of_nat_eq of_nat_unat ucast_id)
  have e: "of_int time - (rt_tick_get s - start) = (of_int (time - int d) :: u32)" by (simp add: rt_tick_get_def d(2))
  have "sint (of_int (time - int d) :: u32) = time - int d"
    unfolding signed_of_int using assms unfolding d(1) by (simp add: signed_take_bit_int_eq_self)
  then show ?thesis unfolding time_left_def Let_def e d(1) using assms(1) by simp
qed

end
