(* ===== verification/RT_Mq.thy ===== *)
theory RT_Mq
  imports RT_Mailbox
begin

text \<open>
  The message queues of \<open>src/ipc.c\<close>: a pool of messages of equal size, each either free, queued or in
  the hands of a call that copies its bytes with interrupts on. A send takes a free message, fills it
  and links it behind the queue (or in front of it, when it is urgent); a receive unlinks the first
  message, copies it out and returns it to the free list. The sections between two interrupt locks
  are definitions of their own, and the invariant holds between them, whatever other calls do
  meanwhile.
\<close>

section \<open>Operations\<close>

definition mq_addr :: "rt_messagequeue \<Rightarrow> nat \<Rightarrow> nat" where
  "mq_addr q m = mq_pool q + m * (unat (msg_size q) + 4) + 4"

text \<open>Linking all messages into the free list, first to last.\<close>

definition mq_link_free :: "rt_messagequeue \<Rightarrow> rt_messagequeue" where
  "mq_link_free q =
    (let q1 = q\<lparr>msg_queue_head := None, msg_queue_tail := None, msg_queue_free := None\<rparr>;
         q2 = fold (\<lambda>temp q. q\<lparr>msg_next := (msg_next q)(temp := msg_queue_free q), msg_queue_free := Some temp\<rparr>)
                [0 ..< unat (max_msgs q)] q1
     in q2\<lparr>mq_entry := 0\<rparr>)"

definition rt_mq_init :: "nat \<Rightarrow> u8 list \<Rightarrow> nat \<Rightarrow> u32 \<Rightarrow> u32 \<Rightarrow> u8 \<Rightarrow> kernel \<Rightarrow> (rt_err_t \<times> kernel) option" where
  "rt_mq_init i name pool msgsz poolsz flag s = do {
     s1 \<leftarrow> rt_object_init (OMq i) RT_Object_Class_MessageQueue name s;
     let s2 = upd_obj (OMq i) (\<lambda>o'. o'\<lparr>oflag := flag\<rparr>) s1;
     let s3 = rt_ipc_object_init (HMq i) s2;
     let s4 = upd_mq i (\<lambda>q. q\<lparr>mq_pool := pool, msg_size := ucast (RT_ALIGN msgsz RT_ALIGN_SIZE)\<rparr>) s3;
     let s5 = upd_mq i (\<lambda>q. q\<lparr>max_msgs := ucast (poolsz div (ucast (msg_size q) + 4))\<rparr>) s4;
     Some (RT_EOK, upd_mq i mq_link_free s5) }"

definition rt_mq_detach :: "nat \<Rightarrow> kernel \<Rightarrow> (rt_err_t \<times> kernel) option" where
  "rt_mq_detach i s = do {
     s1 \<leftarrow> rt_ipc_list_resume_all (HMq i) s;
     Some (RT_EOK, rt_object_detach (OMq i) s1) }"

definition rt_mq_delete :: "nat \<Rightarrow> kernel \<Rightarrow> (rt_err_t \<times> kernel) option" where
  "rt_mq_delete i s = do {
     RT_DEBUG_NOT_IN_INTERRUPT s;
     s1 \<leftarrow> rt_ipc_list_resume_all (HMq i) s;
     s2 \<leftarrow> RT_KERNEL_FREE (mq_pool (mqs s1 i)) s1;
     s3 \<leftarrow> rt_object_delete RT_Object_Class_MessageQueue i s2;
     Some (RT_EOK, s3) }"

text \<open>
  When there is no memory for the pool, \<open>rt_mq_create\<close> calls \<open>rt_mq_delete\<close>, which frees the null pointer
  (without effect) and the queue object.
\<close>

definition rt_mq_create :: "u8 list \<Rightarrow> u32 \<Rightarrow> u32 \<Rightarrow> u8 \<Rightarrow> kernel \<Rightarrow> (nat option \<times> kernel) option" where
  "rt_mq_create name msgsz maxmsgs flag s = do {
     RT_DEBUG_NOT_IN_INTERRUPT s;
     (r, s1) \<leftarrow> rt_object_allocate RT_Object_Class_MessageQueue name s;
     case r of None \<Rightarrow> Some (None, s1)
     | Some i \<Rightarrow> do {
         let s2 = upd_obj (OMq i) (\<lambda>o'. o'\<lparr>oflag := flag\<rparr>) s1;
         let s3 = rt_ipc_object_init (HMq i) s2;
         let s4 = upd_mq i (\<lambda>q. q\<lparr>msg_size := ucast (RT_ALIGN msgsz RT_ALIGN_SIZE), max_msgs := ucast maxmsgs\<rparr>) s3;
         let q = mqs s4 i;
         (p, s5) \<leftarrow> RT_KERNEL_MALLOC (unat ((ucast (msg_size q) + 4) * ucast (max_msgs q) :: u32)) s4;
         case p of
           None \<Rightarrow> do {
             s6 \<leftarrow> rt_ipc_list_resume_all (HMq i) s5;
             s7 \<leftarrow> rt_object_delete RT_Object_Class_MessageQueue i s6;
             Some (None, s7) }
         | Some a \<Rightarrow> Some (Some i, upd_mq i mq_link_free (upd_mq i (\<lambda>q. q\<lparr>mq_pool := a\<rparr>) s5)) } }"

text \<open>The sections of the calls that run with interrupts off.\<close>

definition mq_take :: "nat \<Rightarrow> rt_messagequeue \<Rightarrow> rt_messagequeue" where
  "mq_take m q = q\<lparr>msg_queue_free := msg_next q m\<rparr>"

definition mq_append :: "nat \<Rightarrow> rt_messagequeue \<Rightarrow> rt_messagequeue" where
  "mq_append m q =
    (let q1 = (case msg_queue_tail q of None \<Rightarrow> q | Some t \<Rightarrow> q\<lparr>msg_next := (msg_next q)(t := Some m)\<rparr>);
         q2 = q1\<lparr>msg_queue_tail := Some m\<rparr>;
         q3 = (if msg_queue_head q2 = None then q2\<lparr>msg_queue_head := Some m\<rparr> else q2)
     in q3\<lparr>mq_entry := mq_entry q3 + 1\<rparr>)"

definition mq_prepend :: "nat \<Rightarrow> rt_messagequeue \<Rightarrow> rt_messagequeue" where
  "mq_prepend m q =
    (let q1 = q\<lparr>msg_next := (msg_next q)(m := msg_queue_head q), msg_queue_head := Some m\<rparr>;
         q2 = (if msg_queue_tail q1 = None then q1\<lparr>msg_queue_tail := Some m\<rparr> else q1)
     in q2\<lparr>mq_entry := mq_entry q2 + 1\<rparr>)"

definition mq_unlink :: "nat \<Rightarrow> rt_messagequeue \<Rightarrow> rt_messagequeue" where
  "mq_unlink m q =
    (let q1 = q\<lparr>msg_queue_head := msg_next q m\<rparr>;
         q2 = (if msg_queue_tail q1 = Some m then q1\<lparr>msg_queue_tail := None\<rparr> else q1)
     in q2\<lparr>mq_entry := mq_entry q2 - 1\<rparr>)"

definition mq_release :: "nat \<Rightarrow> rt_messagequeue \<Rightarrow> rt_messagequeue" where
  "mq_release m q = q\<lparr>msg_next := (msg_next q)(m := msg_queue_free q), msg_queue_free := Some m\<rparr>"

definition mq_wake :: "nat \<Rightarrow> kernel \<Rightarrow> (rt_err_t \<times> kernel) option" where
  "mq_wake i s =
    (if \<not> rt_list_isempty (LHead (HMq i)) (tlinks s)
     then do { s1 \<leftarrow> rt_ipc_list_resume (HMq i) s; s2 \<leftarrow> rt_schedule s1; Some (RT_EOK, s2) }
     else Some (RT_EOK, s))"

definition rt_mq_send :: "nat \<Rightarrow> nat \<Rightarrow> nat \<Rightarrow> kernel \<Rightarrow> (rt_err_t \<times> kernel) option" where
  "rt_mq_send i buffer sz s = do {
     RT_ASSERT (buffer \<noteq> 0);
     RT_ASSERT (sz \<noteq> 0);
     if sz > unat (msg_size (mqs s i)) then Some (- RT_ERROR, s)
     else case msg_queue_free (mqs s i) of
       None \<Rightarrow> Some (- RT_EFULL, s)
     | Some m \<Rightarrow> do {
         let s1 = upd_mq i (mq_take m) s;
         let s2 = upd_mq i (\<lambda>q. q\<lparr>msg_next := (msg_next q)(m := None)\<rparr>) s1;
         let s3 = s2\<lparr>ram := rt_memcpy (ram s2) (mq_addr (mqs s2 i) m) buffer sz\<rparr>;
         mq_wake i (upd_mq i (mq_append m) s3) } }"

definition rt_mq_urgent :: "nat \<Rightarrow> nat \<Rightarrow> nat \<Rightarrow> kernel \<Rightarrow> (rt_err_t \<times> kernel) option" where
  "rt_mq_urgent i buffer sz s = do {
     RT_ASSERT (buffer \<noteq> 0);
     RT_ASSERT (sz \<noteq> 0);
     if sz > unat (msg_size (mqs s i)) then Some (- RT_ERROR, s)
     else case msg_queue_free (mqs s i) of
       None \<Rightarrow> Some (- RT_EFULL, s)
     | Some m \<Rightarrow> do {
         let s1 = upd_mq i (mq_take m) s;
         let s2 = s1\<lparr>ram := rt_memcpy (ram s1) (mq_addr (mqs s1 i) m) buffer sz\<rparr>;
         mq_wake i (upd_mq i (mq_prepend m) s2) } }"

definition mq_recv_step :: "nat \<Rightarrow> nat \<Rightarrow> nat \<Rightarrow> int \<Rightarrow> kernel \<Rightarrow> ((nat \<times> int \<times> u32, rt_err_t) outcome \<times> kernel) option" where
  "mq_recv_step i buffer sz timeout s =
    (if mq_entry (mqs s i) = 0
     then do {
       RT_DEBUG_IN_THREAD_CONTEXT s;
       t \<leftarrow> rt_thread_self s;
       let s1 = upd_thread t (\<lambda>th. th\<lparr>error := RT_EOK\<rparr>) s;
       if timeout = 0
       then Some (Ret (- RT_ETIMEOUT), upd_thread t (\<lambda>th. th\<lparr>error := - RT_ETIMEOUT\<rparr>) s1)
       else do {
         s2 \<leftarrow> ipc_wait (HMq i) t (oflag (objs s1 (OMq i))) timeout s1;
         s3 \<leftarrow> rt_schedule s2;
         Some (Block (t, timeout, rt_tick_get s1), s3) } }
     else do {
       m \<leftarrow> msg_queue_head (mqs s i);
       let s1 = upd_mq i (mq_unlink m) s;
       let s2 = s1\<lparr>ram := rt_memcpy (ram s1) buffer (mq_addr (mqs s1 i) m)
                  (if sz > unat (msg_size (mqs s1 i)) then unat (msg_size (mqs s1 i)) else sz)\<rparr>;
       Some (Ret RT_EOK, upd_mq i (mq_release m) s2) })"

definition rt_mq_recv :: "nat \<Rightarrow> nat \<Rightarrow> nat \<Rightarrow> int \<Rightarrow> kernel \<Rightarrow> ((nat \<times> int \<times> u32, rt_err_t) outcome \<times> kernel) option" where
  "rt_mq_recv i buffer sz timeout s = do {
     RT_ASSERT (buffer \<noteq> 0);
     RT_ASSERT (sz \<noteq> 0);
     if mq_entry (mqs s i) = 0 \<and> timeout = 0 then Some (Ret (- RT_ETIMEOUT), s)
     else mq_recv_step i buffer sz timeout s }"

definition rt_mq_recv_resumed ::
  "nat \<Rightarrow> nat \<Rightarrow> nat \<Rightarrow> nat \<times> int \<times> u32 \<Rightarrow> kernel \<Rightarrow> ((nat \<times> int \<times> u32, rt_err_t) outcome \<times> kernel) option" where
  "rt_mq_recv_resumed i buffer sz k s =
    (case k of (t, timeout, start) \<Rightarrow>
       if error (threads s t) \<noteq> RT_EOK then Some (Ret (error (threads s t)), s)
       else mq_recv_step i buffer sz (time_left timeout start s) s)"

text \<open>The loop of a reset, which moves the queued messages to the free list.\<close>

partial_function (option) mq_flush :: "rt_messagequeue \<Rightarrow> rt_messagequeue option" where
  "mq_flush q =
    (case msg_queue_head q of
       None \<Rightarrow> Some q
     | Some m \<Rightarrow>
         let q1 = q\<lparr>msg_queue_head := msg_next q m\<rparr>;
             q2 = (if msg_queue_tail q1 = Some m then q1\<lparr>msg_queue_tail := None\<rparr> else q1)
         in mq_flush (mq_release m q2))"

definition rt_mq_control :: "nat \<Rightarrow> ipc_cmd \<Rightarrow> u32 \<Rightarrow> kernel \<Rightarrow> (rt_err_t \<times> kernel) option" where
  "rt_mq_control i cmd arg s =
    (if cmd = RT_IPC_CMD_RESET
     then do {
       s1 \<leftarrow> rt_ipc_list_resume_all (HMq i) s;
       q \<leftarrow> mq_flush (mqs s1 i);
       let s2 = upd_mq i (\<lambda>_. q\<lparr>mq_entry := 0\<rparr>) s1;
       s3 \<leftarrow> rt_schedule s2;
       Some (RT_EOK, s3) }
     else Some (- RT_ERROR, s))"

section \<open>Invariant\<close>

fun chain :: "(nat \<Rightarrow> nat option) \<Rightarrow> nat option \<Rightarrow> nat list \<Rightarrow> bool" where
  "chain nx p [] = (p = None)"
| "chain nx p (x # xs) = (p = Some x \<and> chain nx (nx x) xs)"

lemma chain_upd [simp]: "x \<notin> set xs \<Longrightarrow> chain (nx(x := y)) p xs = chain nx p xs"
  by (induction xs arbitrary: p) auto

lemma chain_append:
  "xs \<noteq> [] \<Longrightarrow> distinct xs \<Longrightarrow> x \<notin> set xs \<Longrightarrow> chain nx p xs \<Longrightarrow> nx x = None \<Longrightarrow> chain (nx(last xs := Some x)) p (xs @ [x])"
  by (induction xs arbitrary: p) (auto split: if_splits)

text \<open>\<open>Q\<close> are the queued messages, \<open>F\<close> the free ones, \<open>A\<close> those a call is working on.\<close>

definition mq_ok :: "rt_messagequeue \<Rightarrow> nat list \<Rightarrow> nat list \<Rightarrow> nat set \<Rightarrow> bool" where
  "mq_ok q Q F A \<longleftrightarrow> chain (msg_next q) (msg_queue_head q) Q \<and> chain (msg_next q) (msg_queue_free q) F
     \<and> msg_queue_tail q = (if Q = [] then None else Some (last Q))
     \<and> distinct (Q @ F) \<and> A \<inter> set (Q @ F) = {} \<and> set (Q @ F) \<union> A = {..< unat (max_msgs q)}
     \<and> unat (mq_entry q) = length Q"

lemma mq_entry_bound:
  assumes "mq_ok q Q F A"
  shows "length Q + card A \<le> unat (max_msgs q)"
proof -
  have fin: "finite A" using assms finite_subset [of A "{..< unat (max_msgs q)}"] by (auto simp: mq_ok_def)
  have "card (set Q \<union> A) = length Q + card A"
    using assms fin by (subst card_Un_disjoint) (auto simp: mq_ok_def distinct_card)
  moreover have "card (set Q \<union> A) \<le> card {..< unat (max_msgs q)}"
    using assms by (intro card_mono) (auto simp: mq_ok_def)
  ultimately show ?thesis by simp
qed

lemma mq_ok_take:
  assumes "mq_ok q Q (m # F) A"
  shows "mq_ok (mq_take m q) Q F (insert m A)"
  using assms by (auto simp: mq_ok_def mq_take_def)

lemma mq_ok_write_next:
  assumes "mq_ok q Q F A" "m \<in> A"
  shows "mq_ok (q\<lparr>msg_next := (msg_next q)(m := y)\<rparr>) Q F A"
proof -
  have "m \<notin> set Q" "m \<notin> set F" using assms by (auto simp: mq_ok_def)
  then show ?thesis using assms(1) by (simp add: mq_ok_def)
qed

lemma entry_up: "unat (e :: u16) < unat (n :: u16) \<Longrightarrow> unat (e + 1) = Suc (unat e)"
  using entry_steps(1) [of e n] by simp

lemma mq_ok_append:
  assumes K: "mq_ok q Q F A" and m: "m \<in> A" and nx: "msg_next q m = None"
  shows "mq_ok (mq_append m q) (Q @ [m]) F (A - {m})"
proof -
  have d: "m \<notin> set Q" "m \<notin> set F" "distinct (Q @ F)" using K m by (auto simp: mq_ok_def)
  have "finite A" using K finite_subset [of A "{..< unat (max_msgs q)}"] by (auto simp: mq_ok_def)
  then have "0 < card A" using m by (auto simp: card_gt_0_iff)
  then have "unat (mq_entry q) < unat (max_msgs q)" using mq_entry_bound [OF K] K by (simp add: mq_ok_def)
  note up = entry_up [OF this]
  show ?thesis
  proof (cases "Q = []")
    case True
    then show ?thesis using K m d nx up by (auto simp: mq_ok_def mq_append_def Let_def)
  next
    case False
    then obtain x Q' where Q: "Q = x # Q'" by (cases Q) auto
    have h: "msg_queue_head q \<noteq> None" using K by (simp add: mq_ok_def Q)
    have "last Q \<in> set Q" "set Q \<inter> set F = {}" using K False by (auto simp: mq_ok_def)
    then have h2: "last Q \<notin> set F" by blast
    have "chain ((msg_next q)(last Q := Some m)) (msg_queue_head q) (Q @ [m])"
      using K d nx False by (intro chain_append) (auto simp: mq_ok_def)
    then show ?thesis using K m d h h2 up False by (auto simp: mq_ok_def mq_append_def Let_def)
  qed
qed

lemma mq_ok_prepend:
  assumes K: "mq_ok q Q F A" and m: "m \<in> A"
  shows "mq_ok (mq_prepend m q) (m # Q) F (A - {m})"
proof -
  have d: "m \<notin> set Q" "m \<notin> set F" using K m by (auto simp: mq_ok_def)
  have "finite A" using K finite_subset [of A "{..< unat (max_msgs q)}"] by (auto simp: mq_ok_def)
  then have "0 < card A" using m by (auto simp: card_gt_0_iff)
  then have "unat (mq_entry q) < unat (max_msgs q)" using mq_entry_bound [OF K] K by (simp add: mq_ok_def)
  note up = entry_up [OF this]
  show ?thesis using K m d up by (auto simp: mq_ok_def mq_prepend_def Let_def)
qed

lemma mq_ok_unlink:
  assumes K: "mq_ok q (m # Q) F A"
  shows "mq_ok (mq_unlink m q) Q F (insert m A)"
proof -
  have "unat (mq_entry q - 1) = length Q" using K entry_steps(2) [of "mq_entry q"] by (simp add: mq_ok_def)
  moreover have "last Q \<noteq> m" if "Q \<noteq> []" using K that by (auto simp: mq_ok_def)
  ultimately show ?thesis using K by (auto simp: mq_ok_def mq_unlink_def Let_def)
qed

lemma mq_ok_release:
  assumes K: "mq_ok q Q F A" and m: "m \<in> A"
  shows "mq_ok (mq_release m q) Q (m # F) (A - {m})"
proof -
  have "m \<notin> set Q" "m \<notin> set F" using K m by (auto simp: mq_ok_def)
  then show ?thesis using K m by (auto simp: mq_ok_def mq_release_def)
qed

text \<open>A queue that was just initialised is empty and all its messages are free.\<close>

lemma link_free_fold:
  assumes "msg_queue_free q = None"
  defines "f \<equiv> (\<lambda>temp (q :: rt_messagequeue). q\<lparr>msg_next := (msg_next q)(temp := msg_queue_free q), msg_queue_free := Some temp\<rparr>)"
  shows "chain (msg_next (fold f [0 ..< n] q)) (msg_queue_free (fold f [0 ..< n] q)) (rev [0 ..< n])
    \<and> msg_queue_head (fold f [0 ..< n] q) = msg_queue_head q \<and> msg_queue_tail (fold f [0 ..< n] q) = msg_queue_tail q
    \<and> max_msgs (fold f [0 ..< n] q) = max_msgs q \<and> msg_size (fold f [0 ..< n] q) = msg_size q
    \<and> mq_pool (fold f [0 ..< n] q) = mq_pool q"
  using assms(1) by (induction n) (auto simp: f_def)

lemma mq_link_free_ok: "mq_ok (mq_link_free q) [] (rev [0 ..< unat (max_msgs q)]) {}"
  using link_free_fold [of "q\<lparr>msg_queue_head := None, msg_queue_tail := None, msg_queue_free := None\<rparr>" "unat (max_msgs q)"]
  by (simp add: mq_link_free_def Let_def mq_ok_def lessThan_atLeast0)

text \<open>The loop of a reset ends, and puts the queued messages in front of the free ones, last first.\<close>

definition mq_lists :: "rt_messagequeue \<Rightarrow> nat list \<Rightarrow> nat list \<Rightarrow> nat set \<Rightarrow> bool" where
  "mq_lists q Q F A \<longleftrightarrow> chain (msg_next q) (msg_queue_head q) Q \<and> chain (msg_next q) (msg_queue_free q) F
     \<and> msg_queue_tail q = (if Q = [] then None else Some (last Q))
     \<and> distinct (Q @ F) \<and> A \<inter> set (Q @ F) = {} \<and> set (Q @ F) \<union> A = {..< unat (max_msgs q)}"

lemma mq_flush_lists:
  "mq_lists q Q F A \<Longrightarrow> \<exists>q'. mq_flush q = Some q' \<and> mq_lists q' [] (rev Q @ F) A"
proof (induction Q arbitrary: q F)
  case Nil
  then show ?case by (subst mq_flush.simps) (simp add: mq_lists_def)
next
  case (Cons m Q)
  define q2 where "q2 = (let q1 = q\<lparr>msg_queue_head := msg_next q m\<rparr>
     in if msg_queue_tail q1 = Some m then q1\<lparr>msg_queue_tail := None\<rparr> else q1)"
  have d: "m \<notin> set Q" "m \<notin> set F" "m \<notin> A" using Cons.prems by (auto simp: mq_lists_def)
  have l: "last Q \<noteq> m" if "Q \<noteq> []" using d(1) that last_in_set [OF that] by metis
  have "mq_lists (mq_release m q2) Q (m # F) A"
    using Cons.prems d l by (auto simp: mq_lists_def q2_def mq_release_def Let_def)
  from Cons.IH [OF this] have "\<exists>q'. mq_flush (mq_release m q2) = Some q' \<and> mq_lists q' [] (rev (m # Q) @ F) A" by simp
  moreover have "mq_flush q = mq_flush (mq_release m q2)"
    using Cons.prems by (subst mq_flush.simps) (simp add: mq_lists_def q2_def Let_def)
  ultimately show ?case by simp
qed

lemma mq_flush_spec:
  assumes "mq_ok q Q F A"
  shows "\<exists>q'. mq_flush q = Some q' \<and> mq_ok (q'\<lparr>mq_entry := 0\<rparr>) [] (rev Q @ F) A"
proof -
  have "mq_lists q Q F A" using assms by (simp add: mq_ok_def mq_lists_def)
  from mq_flush_lists [OF this] show ?thesis by (auto simp: mq_ok_def mq_lists_def)
qed

section \<open>Interleaved calls\<close>

text \<open>
  Calls of several threads and interrupt handlers, cut at the points where interrupts are on. \<open>A\<close> are
  the messages that calls under way hold.
\<close>

inductive mq_section :: "rt_messagequeue \<times> nat set \<Rightarrow> rt_messagequeue \<times> nat set \<Rightarrow> bool" where
  take: "msg_queue_free q = Some m \<Longrightarrow> mq_section (q, A) (mq_take m q, insert m A)"
| clear: "m \<in> A \<Longrightarrow> mq_section (q, A) (q\<lparr>msg_next := (msg_next q)(m := None)\<rparr>, A)"
| append: "m \<in> A \<Longrightarrow> msg_next q m = None \<Longrightarrow> mq_section (q, A) (mq_append m q, A - {m})"
| prepend: "m \<in> A \<Longrightarrow> mq_section (q, A) (mq_prepend m q, A - {m})"
| unlink: "mq_entry q \<noteq> 0 \<Longrightarrow> msg_queue_head q = Some m \<Longrightarrow> mq_section (q, A) (mq_unlink m q, insert m A)"
| release: "m \<in> A \<Longrightarrow> mq_section (q, A) (mq_release m q, A - {m})"

inductive_cases mq_sectionE: "mq_section (q, A) c"

lemma mq_section_ok:
  assumes "mq_section (q, A) (q', A')" "mq_ok q Q F A"
  shows "\<exists>Q' F'. mq_ok q' Q' F' A'"
  using assms(1)
proof cases
  case (take m)
  then obtain F' where "F = m # F'" using assms(2) by (cases F) (auto simp: mq_ok_def)
  then show ?thesis using mq_ok_take assms(2) take by blast
next
  case (unlink m)
  then obtain Q' where "Q = m # Q'" using assms(2) by (cases Q) (auto simp: mq_ok_def)
  then show ?thesis using mq_ok_unlink assms(2) unlink by blast
next
  case (clear m)
  then show ?thesis using mq_ok_write_next [OF assms(2)] by metis
next
  case (append m)
  then show ?thesis using mq_ok_append [OF assms(2)] by metis
next
  case (prepend m)
  then show ?thesis using mq_ok_prepend [OF assms(2)] by metis
next
  case (release m)
  then show ?thesis using mq_ok_release [OF assms(2)] by metis
qed

lemma mq_interleaved_ok:
  assumes "mq_section\<^sup>*\<^sup>* (q, A) (q', A')" "mq_ok q Q F A"
  shows "\<exists>Q' F'. mq_ok q' Q' F' A'"
  using assms(1)
proof (induction rule: rtranclp_induct2)
  case refl
  then show ?case using assms(2) by blast
next
  case (step q1 A1 q2 A2)
  then show ?case using mq_section_ok by blast
qed

section \<open>Sending and receiving\<close>

definition mq_data :: "nat \<Rightarrow> kernel \<Rightarrow> nat \<Rightarrow> u8 list" where
  "mq_data i s m = bytes_at (ram s) (mq_addr (mqs s i) m) (unat (msg_size (mqs s i)))"

definition outside_pool :: "rt_messagequeue \<Rightarrow> nat \<Rightarrow> nat \<Rightarrow> bool" where
  "outside_pool q b n \<longleftrightarrow> b + n \<le> mq_pool q \<or> mq_pool q + unat (max_msgs q) * (unat (msg_size q) + 4) \<le> b"

lemma bytes_at_blit_other: "a + k \<le> d \<or> d + n \<le> a \<Longrightarrow> bytes_at (blit r d b n) a k = bytes_at r a k"
  by (auto simp: bytes_at_def blit_def)

lemma bytes_at_blit: "n \<le> k \<Longrightarrow> take n (bytes_at (blit r d b n) d k) = bytes_at r b n"
  by (rule nth_equalityI) (auto simp: bytes_at_def blit_def)

lemma take_bytes_at: "n \<le> k \<Longrightarrow> take n (bytes_at r a k) = bytes_at r a n"
  by (rule nth_equalityI) (auto simp: bytes_at_def)

lemma slot_inside:
  assumes "m < unat (max_msgs q)"
  shows "mq_pool q \<le> mq_addr q m" "mq_addr q m + unat (msg_size q) \<le> mq_pool q + unat (max_msgs q) * (unat (msg_size q) + 4)"
proof -
  have "Suc m * (unat (msg_size q) + 4) \<le> unat (max_msgs q) * (unat (msg_size q) + 4)"
    using assms by (intro mult_le_mono1) simp
  then show "mq_addr q m + unat (msg_size q) \<le> mq_pool q + unat (max_msgs q) * (unat (msg_size q) + 4)"
    by (simp add: mq_addr_def)
qed (simp add: mq_addr_def)

lemma slots_apart:
  assumes "m \<noteq> m'"
  shows "mq_addr q m' + unat (msg_size q) \<le> mq_addr q m \<or> mq_addr q m + unat (msg_size q) \<le> mq_addr q m'"
proof -
  have *: "mq_addr q a + unat (msg_size q) \<le> mq_addr q b" if "a < b" for a b
  proof -
    have "Suc a * (unat (msg_size q) + 4) \<le> b * (unat (msg_size q) + 4)" using that by (intro mult_le_mono1) simp
    then show ?thesis by (simp add: mq_addr_def)
  qed
  then show ?thesis using assms by (metis linorder_neq_iff)
qed

text \<open>Copying into or out of a message.\<close>

lemma mq_copy_in:
  assumes "m < unat (max_msgs q)" "outside_pool q b n" "n \<le> unat (msg_size q)"
  shows "take n (bytes_at (rt_memcpy r (mq_addr q m) b n) (mq_addr q m) (unat (msg_size q))) = bytes_at r b n"
    "m' \<noteq> m \<Longrightarrow> bytes_at (rt_memcpy r (mq_addr q m) b n) (mq_addr q m') (unat (msg_size q))
       = bytes_at r (mq_addr q m') (unat (msg_size q))"
proof -
  have "b + n \<le> mq_addr q m \<or> mq_addr q m \<le> b" using slot_inside [OF assms(1)] assms(2,3) by (auto simp: outside_pool_def)
  then have c: "rt_memcpy r (mq_addr q m) b n = blit r (mq_addr q m) b n" by (rule rt_memcpy_blit)
  show "take n (bytes_at (rt_memcpy r (mq_addr q m) b n) (mq_addr q m) (unat (msg_size q))) = bytes_at r b n"
    unfolding c by (rule bytes_at_blit [OF assms(3)])
  show "bytes_at (rt_memcpy r (mq_addr q m) b n) (mq_addr q m') (unat (msg_size q))
       = bytes_at r (mq_addr q m') (unat (msg_size q))" if "m' \<noteq> m"
    unfolding c by (rule bytes_at_blit_other) (use slots_apart [OF that, of q] assms(3) in auto)
qed

lemma mq_copy_out:
  assumes "m < unat (max_msgs q)" "outside_pool q b n" "n \<le> unat (msg_size q)"
  shows "bytes_at (rt_memcpy r b (mq_addr q m) n) b n = take n (bytes_at r (mq_addr q m) (unat (msg_size q)))"
    "m' < unat (max_msgs q) \<Longrightarrow> bytes_at (rt_memcpy r b (mq_addr q m) n) (mq_addr q m') (unat (msg_size q))
       = bytes_at r (mq_addr q m') (unat (msg_size q))"
proof -
  have "mq_addr q m + n \<le> b \<or> b \<le> mq_addr q m" using slot_inside [OF assms(1)] assms(2,3) by (auto simp: outside_pool_def)
  then have c: "rt_memcpy r b (mq_addr q m) n = blit r b (mq_addr q m) n" by (rule rt_memcpy_blit)
  show "bytes_at (rt_memcpy r b (mq_addr q m) n) b n = take n (bytes_at r (mq_addr q m) (unat (msg_size q)))"
    unfolding c take_bytes_at [OF assms(3)] using bytes_at_blit [of n n r b] by simp
  show "bytes_at (rt_memcpy r b (mq_addr q m) n) (mq_addr q m') (unat (msg_size q))
       = bytes_at r (mq_addr q m') (unat (msg_size q))" if "m' < unat (max_msgs q)"
    unfolding c by (rule bytes_at_blit_other) (use slot_inside [OF that] assms(2) in \<open>auto simp: outside_pool_def\<close>)
qed

lemma mq_geometry [simp]:
  "mq_addr (mq_take m q) = mq_addr q" "mq_addr (mq_append m q) = mq_addr q" "mq_addr (mq_prepend m q) = mq_addr q"
  "mq_addr (mq_unlink m q) = mq_addr q" "mq_addr (mq_release m q) = mq_addr q"
  "mq_addr (q\<lparr>msg_next := nx\<rparr>) = mq_addr q"
  "msg_size (mq_take m q) = msg_size q" "msg_size (mq_append m q) = msg_size q" "msg_size (mq_prepend m q) = msg_size q"
  "msg_size (mq_unlink m q) = msg_size q" "msg_size (mq_release m q) = msg_size q"
  "max_msgs (mq_take m q) = max_msgs q" "max_msgs (mq_append m q) = max_msgs q" "max_msgs (mq_prepend m q) = max_msgs q"
  "max_msgs (mq_unlink m q) = max_msgs q" "max_msgs (mq_release m q) = max_msgs q"
  "mq_pool (mq_take m q) = mq_pool q" "mq_pool (mq_append m q) = mq_pool q" "mq_pool (mq_prepend m q) = mq_pool q"
  "mq_pool (mq_unlink m q) = mq_pool q" "mq_pool (mq_release m q) = mq_pool q"
  by (auto simp: fun_eq_iff mq_addr_def mq_take_def mq_append_def mq_prepend_def mq_unlink_def mq_release_def Let_def
      split: option.splits)

lemma mq_wake_spec:
  assumes K: "ipc_inv s L T" and c: "rt_current_thread s \<noteq> None"
  shows "\<exists>s' T'. mq_wake i s = Some (RT_EOK, s') \<and> ipc_inv s' (handed (HMq i) s L) T' \<and> mqs s' = mqs s \<and> ram s' = ram s
     \<and> handed (HMq i) s L (HMq i) = tl (L (HMq i))
     \<and> (\<forall>t ts. L (HMq i) = t # ts \<longrightarrow> stat (threads s' t) = RT_THREAD_READY)"
proof -
  have "wait_head (HMq i)" by simp
  from wake_one [OF K this c, of RT_EOK] show ?thesis
    unfolding mq_wake_def using thread_frameD(5,12) by blast
qed

lemma mq_ok_member: "mq_ok q Q (m # F) A \<Longrightarrow> m < unat (max_msgs q) \<and> m \<notin> A \<and> insert m A - {m} = A"
  by (auto simp: mq_ok_def)

lemma mq_wrapped_kernel:
  "ipc_inv (upd_mq i f (s\<lparr>ram := r\<rparr>)) L T = ipc_inv s L T" "rt_current_thread (upd_mq i f (s\<lparr>ram := r\<rparr>)) = rt_current_thread s"
  "mqs (upd_mq i f (s\<lparr>ram := r\<rparr>)) i = f (mqs s i)" "ram (upd_mq i f (s\<lparr>ram := r\<rparr>)) = r"
  "threads (upd_mq i f (s\<lparr>ram := r\<rparr>)) = threads s"
  by simp (simp_all add: upd_mq_def)

lemma rt_mq_send_spec:
  assumes K: "ipc_inv s L T" and c: "rt_current_thread s \<noteq> None" and ok: "mq_ok (mqs s i) Q (m # F) A"
    and b: "buf \<noteq> 0" "outside_pool (mqs s i) buf n" "0 < n" "n \<le> unat (msg_size (mqs s i))"
  shows "\<exists>s' T'. rt_mq_send i buf n s = Some (RT_EOK, s') \<and> ipc_inv s' (handed (HMq i) s L) T'
     \<and> mq_ok (mqs s' i) (Q @ [m]) F A \<and> (\<forall>m'. m' \<noteq> m \<longrightarrow> mq_data i s' m' = mq_data i s m')
     \<and> take n (mq_data i s' m) = bytes_at (ram s) buf n
     \<and> (\<forall>t ts. L (HMq i) = t # ts \<longrightarrow> stat (threads s' t) = RT_THREAD_READY)
     \<and> msg_size (mqs s' i) = msg_size (mqs s i) \<and> outside_pool (mqs s' i) = outside_pool (mqs s i)"
proof -
  let ?q = "mqs s i"
  let ?q2 = "(mq_take m ?q)\<lparr>msg_next := (msg_next (mq_take m ?q))(m := None)\<rparr>" and ?r = "rt_memcpy (ram s) (mq_addr ?q m) buf n"
  define s4 where "s4 = upd_mq i (\<lambda>_. mq_append m ?q2) (s\<lparr>ram := ?r\<rparr>)"
  note M = mq_ok_member [OF ok]
  have "mq_ok ?q2 Q F (insert m A)" by (rule mq_ok_write_next [OF mq_ok_take [OF ok]]) simp
  then have ok4: "mq_ok (mqs s4 i) (Q @ [m]) F A"
    using mq_ok_append [of ?q2 Q F "insert m A" m] M by (simp add: s4_def mq_wrapped_kernel)
  have K4: "ipc_inv s4 L T" "rt_current_thread s4 \<noteq> None" using K c by (simp_all add: s4_def mq_wrapped_kernel)
  have hd: "handed (HMq i) s4 L = handed (HMq i) s L" by (rule handed_cong) (simp add: s4_def mq_wrapped_kernel)
  from mq_wake_spec [OF K4, of i] obtain s' T' where s': "mq_wake i s4 = Some (RT_EOK, s')"
    "ipc_inv s' (handed (HMq i) s L) T'" "mqs s' = mqs s4" "ram s' = ram s4"
    "\<forall>t ts. L (HMq i) = t # ts \<longrightarrow> stat (threads s' t) = RT_THREAD_READY" unfolding hd by blast
  have "upd_mq i (mq_append m) ((upd_mq i (\<lambda>q. q\<lparr>msg_next := (msg_next q)(m := None)\<rparr>) (upd_mq i (mq_take m) s))\<lparr>ram := ?r\<rparr>) = s4"
    by (simp add: s4_def upd_mq_def)
  moreover have "msg_queue_free ?q = Some m" using ok by (simp add: mq_ok_def)
  ultimately have "rt_mq_send i buf n s = Some (RT_EOK, s')"
    using b s'(1) by (simp add: rt_mq_send_def Let_def upd_mq_def)
  moreover have "mq_data i s' m' = bytes_at ?r (mq_addr ?q m') (unat (msg_size ?q))" for m'
    using s'(3,4) by (simp add: mq_data_def s4_def mq_wrapped_kernel)
  moreover have "msg_size (mqs s' i) = msg_size ?q" "outside_pool (mqs s' i) = outside_pool ?q"
    by (simp_all add: s'(3) s4_def mq_wrapped_kernel outside_pool_def fun_eq_iff)
  ultimately show ?thesis
    using s' ok4 mq_copy_in [of m ?q buf n, OF _ b(2,4)] M by (intro exI [of _ s'] exI [of _ T']) (simp add: mq_data_def)
qed

lemma rt_mq_urgent_spec:
  assumes K: "ipc_inv s L T" and c: "rt_current_thread s \<noteq> None" and ok: "mq_ok (mqs s i) Q (m # F) A"
    and b: "buf \<noteq> 0" "outside_pool (mqs s i) buf n" "0 < n" "n \<le> unat (msg_size (mqs s i))"
  shows "\<exists>s' T'. rt_mq_urgent i buf n s = Some (RT_EOK, s') \<and> ipc_inv s' (handed (HMq i) s L) T'
     \<and> mq_ok (mqs s' i) (m # Q) F A \<and> (\<forall>m'. m' \<noteq> m \<longrightarrow> mq_data i s' m' = mq_data i s m')
     \<and> take n (mq_data i s' m) = bytes_at (ram s) buf n"
proof -
  let ?q = "mqs s i" and ?r = "rt_memcpy (ram s) (mq_addr (mqs s i) m) buf n"
  define s4 where "s4 = upd_mq i (\<lambda>_. mq_prepend m (mq_take m ?q)) (s\<lparr>ram := ?r\<rparr>)"
  note M = mq_ok_member [OF ok]
  have ok4: "mq_ok (mqs s4 i) (m # Q) F A"
    using mq_ok_prepend [OF mq_ok_take [OF ok], of m] M by (simp add: s4_def mq_wrapped_kernel)
  have K4: "ipc_inv s4 L T" "rt_current_thread s4 \<noteq> None" using K c by (simp_all add: s4_def mq_wrapped_kernel)
  have hd: "handed (HMq i) s4 L = handed (HMq i) s L" by (rule handed_cong) (simp add: s4_def mq_wrapped_kernel)
  from mq_wake_spec [OF K4, of i] obtain s' T' where s': "mq_wake i s4 = Some (RT_EOK, s')"
    "ipc_inv s' (handed (HMq i) s L) T'" "mqs s' = mqs s4" "ram s' = ram s4" unfolding hd by blast
  have "upd_mq i (mq_prepend m) ((upd_mq i (mq_take m) s)\<lparr>ram := ?r\<rparr>) = s4"
    by (simp add: s4_def upd_mq_def)
  moreover have "msg_queue_free ?q = Some m" using ok by (simp add: mq_ok_def)
  ultimately have "rt_mq_urgent i buf n s = Some (RT_EOK, s')"
    using b s'(1) by (simp add: rt_mq_urgent_def Let_def upd_mq_def)
  moreover have "mq_data i s' m' = bytes_at ?r (mq_addr ?q m') (unat (msg_size ?q))" for m'
    using s'(3,4) by (simp add: mq_data_def s4_def mq_wrapped_kernel)
  ultimately show ?thesis
    using s' ok4 mq_copy_in [of m ?q buf n, OF _ b(2,4)] M by (intro exI [of _ s'] exI [of _ T']) (simp add: mq_data_def)
qed

lemma rt_mq_send_errors:
  assumes "buf \<noteq> 0" "0 < n"
  shows "unat (msg_size (mqs s i)) < n \<Longrightarrow> rt_mq_send i buf n s = Some (- RT_ERROR, s) \<and> rt_mq_urgent i buf n s = Some (- RT_ERROR, s)"
    "n \<le> unat (msg_size (mqs s i)) \<Longrightarrow> mq_ok (mqs s i) Q [] A \<Longrightarrow>
       rt_mq_send i buf n s = Some (- RT_EFULL, s) \<and> rt_mq_urgent i buf n s = Some (- RT_EFULL, s)"
    "mq_ok (mqs s i) [] F A \<Longrightarrow> rt_mq_recv i buf n 0 s = Some (Ret (- RT_ETIMEOUT), s)"
  using assms by (simp_all add: rt_mq_send_def rt_mq_urgent_def rt_mq_recv_def mq_ok_def unat_eq_zero)

lemma rt_mq_recv_spec:
  assumes K: "ipc_inv s L T" and ok: "mq_ok (mqs s i) (m # Q) F A" and b: "buf \<noteq> 0" "0 < n"
  defines "k \<equiv> min n (unat (msg_size (mqs s i)))"
  assumes out: "outside_pool (mqs s i) buf k"
  shows "\<exists>s'. rt_mq_recv i buf n time s = Some (Ret RT_EOK, s') \<and> ipc_inv s' L T \<and> mq_ok (mqs s' i) Q (m # F) A
     \<and> bytes_at (ram s') buf k = take k (mq_data i s m) \<and> (\<forall>m' \<in> set Q. mq_data i s' m' = mq_data i s m')"
proof -
  let ?q = "mqs s i" and ?r = "rt_memcpy (ram s) buf (mq_addr (mqs s i) m) k"
  let ?s' = "upd_mq i (\<lambda>_. mq_release m (mq_unlink m ?q)) (s\<lparr>ram := ?r\<rparr>)"
  have m: "m < unat (max_msgs ?q)" "m \<notin> A" "\<forall>m' \<in> set Q. m' < unat (max_msgs ?q)" using ok by (auto simp: mq_ok_def)
  have "mq_ok (mq_release m (mq_unlink m ?q)) Q (m # F) (insert m A - {m})"
    by (rule mq_ok_release [OF mq_ok_unlink [OF ok]]) simp
  then have ok': "mq_ok (mqs ?s' i) Q (m # F) A" using m(2) by (simp add: mq_wrapped_kernel)
  have e: "mq_entry ?q \<noteq> 0" "msg_queue_head ?q = Some m" using ok by (auto simp: mq_ok_def)
  have "upd_mq i (mq_release m) ((upd_mq i (mq_unlink m) s)\<lparr>ram := ?r\<rparr>) = ?s'" by (simp add: upd_mq_def)
  then have "rt_mq_recv i buf n time s = Some (Ret RT_EOK, ?s')"
    using b e by (simp add: rt_mq_recv_def mq_recv_step_def Let_def upd_mq_def k_def min_def not_less)
  moreover have "mq_data i ?s' m' = bytes_at ?r (mq_addr ?q m') (unat (msg_size ?q))" for m'
    by (simp add: mq_data_def mq_wrapped_kernel)
  ultimately show ?thesis
    using K ok' m mq_copy_out [OF m(1) out, where r = "ram s"] by (intro exI [of _ ?s']) (simp add: mq_wrapped_kernel mq_data_def k_def)
qed

end
