(* ===== verification/RT_MemPool.thy ===== *)
theory RT_MemPool
  imports RT_Mailbox
begin

text \<open>
  The memory pools of \<open>src/mempool.c\<close>: blocks of equal size on a free list. The word in front of each
  block links it to the next free block, or points to its pool while the block is in use. A thread
  that finds no block waits in front of the pool's list and takes a block itself when a free woke it.

  Blocks are named by their addresses. Following the list beyond its end, taking the pointer to a pool
  for a block or the pointer to a block for a pool leaves the memory the pool owns; the model stops
  there. The invariant is for pools that end below the top of the address space.
\<close>

section \<open>Suspending by hand\<close>

text \<open>
  The code of the pools and of the device drivers suspends a thread and puts it on a list itself,
  at the front or at the back, and then arms its timer.
\<close>

definition suspend_front :: "thead \<Rightarrow> nat \<Rightarrow> kernel \<Rightarrow> kernel option" where
  "suspend_front h t s = do {
     (_, s1) \<leftarrow> rt_thread_suspend t s;
     Some (upd_tl (rt_list_insert_after (LHead h) (LElem t)) s1) }"

definition suspend_back :: "thead \<Rightarrow> nat \<Rightarrow> kernel \<Rightarrow> kernel option" where
  "suspend_back h t s = do {
     (_, s1) \<leftarrow> rt_thread_suspend t s;
     Some (upd_tl (rt_list_insert_before (LHead h) (LElem t)) s1) }"

definition arm_timer :: "nat \<Rightarrow> int \<Rightarrow> kernel \<Rightarrow> kernel option" where
  "arm_timer t time s =
    (if time > 0
     then let (_, s1) = rt_timer_control (Thread_timer t) (RT_TIMER_CTRL_SET_TIME (of_int time)) s
          in rt_timer_start (Thread_timer t) s1
     else Some s)"

section \<open>Operations\<close>

text \<open>The address of the word of block \<open>k\<close>: the sum and the product wrap around at 32 bits.\<close>

definition block_at :: "rt_mempool \<Rightarrow> nat \<Rightarrow> nat" where
  "block_at mp k = (start_address mp + k * (unat (block_size mp) + 4)) mod 2 ^ 32"

text \<open>Linking the blocks; with no block at all the last write is in front of the pool.\<close>

definition mp_link :: "nat \<Rightarrow> kernel \<Rightarrow> kernel option" where
  "mp_link i s =
    (let mp = mps s i; n = unat (block_total_count mp);
         s1 = fold (\<lambda>k. upd_mp_word (block_at mp k) (BNext (Some (block_at mp (k + 1))))) [0 ..< n] s
     in if n = 0 then None
        else let s2 = upd_mp_word (block_at mp (n - 1)) (BNext None) s1
             in Some (upd_mp i (\<lambda>mp. mp\<lparr>block_list := Some (start_address mp)\<rparr>) s2))"

definition rt_mp_init :: "nat \<Rightarrow> u8 list \<Rightarrow> nat \<Rightarrow> u32 \<Rightarrow> u32 \<Rightarrow> kernel \<Rightarrow> (rt_err_t \<times> kernel) option" where
  "rt_mp_init i name start sz blksz s = do {
     s1 \<leftarrow> rt_object_init (OMemPool i) RT_Object_Class_MemPool name s;
     let mp1 = (mps s1 i)\<lparr>start_address := start, mp_size := RT_ALIGN_DOWN sz RT_ALIGN_SIZE,
                  block_size := RT_ALIGN blksz RT_ALIGN_SIZE\<rparr>;
     let mp2 = mp1\<lparr>block_total_count := mp_size mp1 div (block_size mp1 + 4)\<rparr>;
     let mp3 = mp2\<lparr>block_free_count := block_total_count mp2, suspend_thread_count := 0\<rparr>;
     let s2 = upd_tl (rt_list_init (LHead (HMp i))) (upd_mp i (\<lambda>_. mp3) s1);
     s3 \<leftarrow> mp_link i s2;
     Some (RT_EOK, s3) }"

text \<open>Waking everyone on the pool's list, counting the waiting threads down.\<close>

partial_function (option) mp_wake_all :: "nat \<Rightarrow> kernel \<Rightarrow> kernel option" where
  "mp_wake_all i s =
    (if rt_list_isempty (LHead (HMp i)) (tlinks s) then Some s
     else do {
       t \<leftarrow> rt_list_entry (lnext (tlinks s) (LHead (HMp i)));
       let s1 = upd_thread t (\<lambda>th. th\<lparr>error := - RT_ERROR\<rparr>) s;
       (_, s2) \<leftarrow> rt_thread_resume t s1;
       mp_wake_all i (upd_mp i (\<lambda>mp. mp\<lparr>suspend_thread_count := suspend_thread_count mp - 1\<rparr>) s2) })"

definition rt_mp_detach :: "nat \<Rightarrow> kernel \<Rightarrow> (rt_err_t \<times> kernel) option" where
  "rt_mp_detach i s = do {
     s1 \<leftarrow> mp_wake_all i s;
     Some (RT_EOK, rt_object_detach (OMemPool i) s1) }"

definition rt_mp_create :: "u8 list \<Rightarrow> u32 \<Rightarrow> u32 \<Rightarrow> kernel \<Rightarrow> (nat option \<times> kernel) option" where
  "rt_mp_create name count blksz s = do {
     RT_DEBUG_NOT_IN_INTERRUPT s;
     (r, s1) \<leftarrow> rt_object_allocate RT_Object_Class_MemPool name s;
     case r of None \<Rightarrow> Some (None, s1)
     | Some i \<Rightarrow> do {
         let bs = RT_ALIGN blksz RT_ALIGN_SIZE;
         let mp1 = (mps s1 i)\<lparr>block_size := bs, mp_size := (bs + 4) * count\<rparr>;
         (p, s2) \<leftarrow> RT_KERNEL_MALLOC (unat ((bs + 4) * count)) s1;
         case p of
           None \<Rightarrow> do {
             s3 \<leftarrow> rt_object_delete RT_Object_Class_MemPool i (upd_mp i (\<lambda>_. mp1) s2);
             Some (None, s3) }
         | Some a \<Rightarrow> do {
             let mp2 = mp1\<lparr>start_address := a, block_total_count := count, block_free_count := count, suspend_thread_count := 0\<rparr>;
             let s3 = upd_tl (rt_list_init (LHead (HMp i))) (upd_mp i (\<lambda>_. mp2) s2);
             s4 \<leftarrow> mp_link i s3;
             Some (Some i, s4) } } }"

definition rt_mp_delete :: "nat \<Rightarrow> kernel \<Rightarrow> (rt_err_t \<times> kernel) option" where
  "rt_mp_delete i s = do {
     RT_DEBUG_NOT_IN_INTERRUPT s;
     s1 \<leftarrow> mp_wake_all i s;
     s2 \<leftarrow> RT_KERNEL_FREE (start_address (mps s1 i)) s1;
     s3 \<leftarrow> rt_object_delete RT_Object_Class_MemPool i s2;
     Some (RT_EOK, s3) }"

text \<open>Taking the first free block: the address of its word.\<close>

definition mp_take :: "nat \<Rightarrow> kernel \<Rightarrow> (nat \<times> kernel) option" where
  "mp_take i s = do {
     let s1 = upd_mp i (\<lambda>mp. mp\<lparr>block_free_count := block_free_count mp - 1\<rparr>) s;
     b \<leftarrow> block_list (mps s1 i);
     case mp_words s1 b of
       BNext n \<Rightarrow> Some (b, upd_mp_word b (BPool i) (upd_mp i (\<lambda>mp. mp\<lparr>block_list := n\<rparr>) s1))
     | BPool _ \<Rightarrow> None }"

definition rt_mp_alloc :: "nat \<Rightarrow> int \<Rightarrow> kernel \<Rightarrow> ((nat, nat option) outcome \<times> kernel) option" where
  "rt_mp_alloc i time s =
    (if block_free_count (mps s i) \<noteq> 0
     then do {
       (b, s1) \<leftarrow> mp_take i s;
       Some (Ret (Some (add32 b 4)), s1) }
     else if time = 0 then Some (Ret None, s)
     else do {
       RT_DEBUG_NOT_IN_INTERRUPT s;
       t \<leftarrow> rt_thread_self s;
       let s1 = upd_thread t (\<lambda>th. th\<lparr>error := RT_EOK\<rparr>) s;
       s2 \<leftarrow> suspend_front (HMp i) t s1;
       let s3 = upd_mp i (\<lambda>mp. mp\<lparr>suspend_thread_count := suspend_thread_count mp + 1\<rparr>) s2;
       s4 \<leftarrow> arm_timer t time s3;
       s5 \<leftarrow> rt_schedule s4;
       Some (Block t, s5) })"

definition rt_mp_alloc_resumed :: "nat \<Rightarrow> nat \<Rightarrow> kernel \<Rightarrow> (nat option \<times> kernel) option" where
  "rt_mp_alloc_resumed i t s =
    (if error (threads s t) \<noteq> RT_EOK then Some (None, s)
     else do {
       (b, s1) \<leftarrow> mp_take i s;
       Some (Some (add32 b 4), s1) })"

text \<open>Freeing the block at an address: the pool is the one that the word in front of the block points to.\<close>

definition rt_mp_free :: "nat \<Rightarrow> kernel \<Rightarrow> kernel option" where
  "rt_mp_free block s = do {
     let p = sub32 block 4;
     i \<leftarrow> (case mp_words s p of BPool i \<Rightarrow> Some i | BNext _ \<Rightarrow> None);
     let s1 = upd_mp i (\<lambda>mp. mp\<lparr>block_free_count := block_free_count mp + 1\<rparr>) s;
     let s2 = upd_mp_word p (BNext (block_list (mps s1 i))) s1;
     let s3 = upd_mp i (\<lambda>mp. mp\<lparr>block_list := Some p\<rparr>) s2;
     if suspend_thread_count (mps s3 i) > 0
     then do {
       t \<leftarrow> rt_list_entry (lnext (tlinks s3) (LHead (HMp i)));
       let s4 = upd_thread t (\<lambda>th. th\<lparr>error := RT_EOK\<rparr>) s3;
       (_, s5) \<leftarrow> rt_thread_resume t s4;
       let s6 = upd_mp i (\<lambda>mp. mp\<lparr>suspend_thread_count := suspend_thread_count mp - 1\<rparr>) s5;
       rt_schedule s6 }
     else Some s3 }"

section \<open>Suspended threads\<close>

lemma suspend_back_fifo: "suspend_back h t s = rt_ipc_list_suspend h t RT_IPC_FLAG_FIFO s"
  by (simp add: suspend_back_def rt_ipc_list_suspend_def)

lemma ipc_wait_arm: "ipc_wait h t flag time s = do { s1 \<leftarrow> rt_ipc_list_suspend h t flag s; arm_timer t time s1 }"
  by (simp add: ipc_wait_def arm_timer_def Let_def split_def cong: if_cong)

definition pushed :: "thead \<Rightarrow> nat \<Rightarrow> (thead \<Rightarrow> nat list) \<Rightarrow> thead \<Rightarrow> nat list" where
  "pushed h t L = (unlink t L)(h := t # L h)"

lemma suspend_front_spec:
  assumes K: "ipc_inv s L T" and st: "stat (threads s t) = RT_THREAD_READY" and h: "wait_head h"
  shows "\<exists>s'. suspend_front h t s = Some s' \<and> ipc_inv s' (pushed h t L) T \<and> thread_frame s s'
     \<and> threads s' = (threads s)(t := (threads s t)\<lparr>stat := RT_THREAD_SUSPEND\<rparr>) \<and> rt_current_thread s' = rt_current_thread s"
proof -
  note J = ipc_invD [OF K]
  from rt_thread_suspend_spec [OF J(1) st] obtain s1 where s1: "rt_thread_suspend t s = Some (RT_EOK, s1)"
    "kernel_inv s1 (unlink t L) T" "thread_frame s s1"
    "threads s1 = (threads s)(t := (threads s t)\<lparr>stat := RT_THREAD_SUSPEND\<rparr>)" "rt_current_thread s1 = rt_current_thread s" by blast
  let ?s' = "upd_tl (rt_list_insert_after (LHead h) (LElem t)) s1"
  have uh: "unlink t L h = L h" by (rule unlink_off) (rule ready_not_waiting [OF K st h])
  have off: "\<forall>h'. t \<notin> set (unlink t L h')" by (rule unlink_unlinked [OF J(1)])
  have "lists_rep (rt_list_insert_after (LHead h) (LElem t) (tlinks s1)) (pushed h t L)"
    using tq.rep_push_front [OF kernel_invD(4) [OF s1(2)] off, of h] uh by (simp add: pushed_def)
  then have "kernel_inv ?s' (pushed h t L) T" using kernel_inv_relist [OF s1(2)] h by (simp add: pushed_def)
  moreover have "stat (threads ?s' u) = RT_THREAD_SUSPEND" if "wait_head g" "u \<in> set (pushed h t L g)" for g u
    using that J(2) [of g u] unlink_set [OF kernel_invD(8) [OF J(1)]] h by (auto simp: pushed_def upd_tl_def s1(4) split: if_splits)
  ultimately have "ipc_inv ?s' (pushed h t L) T" by (auto simp: ipc_inv_def)
  then show ?thesis
    using s1 thread_frame_trans [OF s1(3) thread_frame_intros(6)] by (intro exI [of _ ?s']) (simp add: suspend_front_def upd_tl_def)
qed

text \<open>After the thread was parked: its timer is armed and another thread runs.\<close>

lemma arm_switch:
  assumes K: "ipc_inv s L T" and st: "stat (threads s t) = RT_THREAD_SUSPEND" and nT: "Thread_timer t \<notin> set T"
    and time: "time < 0x7fffffff" and ne: "L (HPrio q) \<noteq> []" and c: "rt_current_thread s \<noteq> None"
  shows "\<exists>s1 s' T'. arm_timer t time s = Some s1 \<and> rt_schedule s1 = Some s' \<and> ipc_inv s' L T' \<and> thread_frame s s'
     \<and> threads s' = threads s \<and> (rt_scheduler_lock_nest s = 0 \<longrightarrow> chosen L s')
     \<and> (time > 0 \<longrightarrow> Thread_timer t \<in> set T' \<and> tdist s' (Thread_timer t) = nat time)"
proof -
  obtain s1 T' where s1: "arm_timer t time s = Some s1" "ipc_inv s1 L T'" "thread_frame s s1" "threads s1 = threads s"
    "rt_current_thread s1 = rt_current_thread s"
    "time > 0 \<Longrightarrow> Thread_timer t \<in> set T' \<and> tdist s1 (Thread_timer t) = nat time"
  proof (cases "time > 0")
    case False
    then show ?thesis using that [of s T] K by (simp add: arm_timer_def)
  next
    case True
    note tm = of_int_half [OF True time]
    from start_thread_timer [OF ipc_invD(1) [OF K] st conjunct1 [OF tm]] obtain s' where
      s': "rt_timer_start (Thread_timer t) (snd (rt_timer_control (Thread_timer t) (RT_TIMER_CTRL_SET_TIME (of_int time)) s)) = Some s'"
      "kernel_inv s' L (insert_timer (tdist s') (Thread_timer t) T)" "tdist s' (Thread_timer t) = nat time"
      "thread_frame s s'" "threads s' = threads s" "rt_current_thread s' = rt_current_thread s"
      unfolding remove1_idem [OF nT] conjunct2 [OF tm] by blast
    have "ipc_inv s' L (insert_timer (tdist s') (Thread_timer t) T)" using s'(2,5) K by (auto simp: ipc_inv_def)
    then show ?thesis using that [of s' "insert_timer (tdist s') (Thread_timer t) T"] True s' by (simp add: arm_timer_def split_def)
  qed
  have c1: "rt_current_thread s1 \<noteq> None" using c s1(5) by simp
  from switch [OF s1(2) ne c1] obtain s2 where s2: "rt_schedule s1 = Some s2" "ipc_inv s2 L T'" "thread_frame s1 s2"
    "threads s2 = threads s1" "tdist s2 = tdist s1" "rt_scheduler_lock_nest s1 = 0 \<Longrightarrow> chosen L s2" by blast
  show ?thesis
    using s1 s2 thread_frame_trans [OF s1(3) s2(3)] thread_frameD(7) [OF s1(3)]
    by (intro exI [of _ s1] exI [of _ s2] exI [of _ T']) simp
qed

section \<open>Invariant\<close>

fun bchain :: "(nat \<Rightarrow> block_word) \<Rightarrow> nat option \<Rightarrow> nat list \<Rightarrow> bool" where
  "bchain w p [] = (p = None)"
| "bchain w p (x # xs) = (p = Some x \<and> (case w x of BNext n \<Rightarrow> bchain w n xs | BPool _ \<Rightarrow> False))"

lemma bchain_upd [simp]: "x \<notin> set xs \<Longrightarrow> bchain (w(x := y)) p xs = bchain w p xs"
  by (induction xs arbitrary: p) (auto split: block_word.splits)

text \<open>
  The words of the blocks, in a pool that does not reach beyond the address space; \<open>F\<close> are the words of
  the free blocks in the order of the list, \<open>U\<close> those of the blocks in use.
\<close>

definition pool_blocks :: "rt_mempool \<Rightarrow> nat set" where
  "pool_blocks mp = (\<lambda>k. start_address mp + k * (unat (block_size mp) + 4)) ` {..< unat (block_total_count mp)}"

definition pool_fits :: "rt_mempool \<Rightarrow> bool" where
  "pool_fits mp \<longleftrightarrow> start_address mp + unat (block_total_count mp) * (unat (block_size mp) + 4) < 2 ^ 32"

definition mp_ok :: "nat \<Rightarrow> kernel \<Rightarrow> nat list \<Rightarrow> nat set \<Rightarrow> bool" where
  "mp_ok i s F U \<longleftrightarrow> pool_fits (mps s i) \<and> bchain (mp_words s) (block_list (mps s i)) F \<and> (\<forall>b \<in> U. mp_words s b = BPool i)
     \<and> distinct F \<and> set F \<inter> U = {} \<and> set F \<union> U = pool_blocks (mps s i)
     \<and> unat (block_free_count (mps s i)) = length F"

lemma mp_ok_cong:
  assumes "mps s' i = (mps s i)\<lparr>suspend_thread_count := c\<rparr>" "mp_words s' = mp_words s"
  shows "mp_ok i s' F U = mp_ok i s F U"
  by (simp add: mp_ok_def pool_fits_def pool_blocks_def assms)

lemma card_pool_blocks: "card (pool_blocks mp) = unat (block_total_count mp)"
  unfolding pool_blocks_def by (subst card_image) (auto simp: inj_on_def)

text \<open>Blocks, with their words, are inside the pool and apart from each other.\<close>

lemma pool_block_inside:
  assumes "b \<in> pool_blocks mp"
  shows "start_address mp \<le> b"
    "b + 4 + unat (block_size mp) \<le> start_address mp + unat (block_total_count mp) * (unat (block_size mp) + 4)"
proof -
  obtain k where k: "k < unat (block_total_count mp)" "b = start_address mp + k * (unat (block_size mp) + 4)"
    using assms by (auto simp: pool_blocks_def)
  then show "start_address mp \<le> b" by simp
  have "Suc k * (unat (block_size mp) + 4) \<le> unat (block_total_count mp) * (unat (block_size mp) + 4)"
    using k(1) by (intro mult_le_mono1) simp
  then show "b + 4 + unat (block_size mp) \<le> start_address mp + unat (block_total_count mp) * (unat (block_size mp) + 4)"
    by (simp add: k(2))
qed

lemma pool_blocks_apart:
  assumes "b \<in> pool_blocks mp" "c \<in> pool_blocks mp" "b \<noteq> c"
  shows "b + 4 + unat (block_size mp) \<le> c \<or> c + 4 + unat (block_size mp) \<le> b"
proof -
  let ?z = "unat (block_size mp) + 4"
  obtain k l where kl: "b = start_address mp + k * ?z" "c = start_address mp + l * ?z" using assms(1,2) by (auto simp: pool_blocks_def)
  have *: "x * ?z + ?z \<le> y * ?z" if "x < y" for x y
    using mult_le_mono1 [OF Suc_leI [OF that], of ?z] by simp
  have "k < l \<or> l < k" using assms(3) kl by (metis linorder_neq_iff)
  then show ?thesis using * [of k l] * [of l k] by (auto simp: kl)
qed

lemma pool_address:
  assumes "pool_fits mp" "b \<in> pool_blocks mp"
  shows "add32 b 4 = b + 4" "sub32 (b + 4) 4 = b"
  using pool_block_inside(2) [OF assms(2)] assms(1) by (simp_all add: pool_fits_def add32_small sub32_small)

section \<open>Initialisation\<close>

lemma link_fold:
  "fold (\<lambda>k. upd_mp_word (f k) (g k)) ks s = s\<lparr>mp_words := fold (\<lambda>k w. w(f k := g k)) ks (mp_words s)\<rparr>"
  by (induction ks arbitrary: s) (simp_all add: upd_mp_word_def)

lemma words_fold:
  "inj_on f {..< n} \<Longrightarrow> k < n \<Longrightarrow> fold (\<lambda>k w. w(f k := g k)) [0 ..< n] w (f k) = g k"
proof (induction n)
  case (Suc n)
  then show ?case by (cases "k = n") (auto simp: inj_on_def)
qed simp

lemma bchain_up:
  "(\<And>x. x < n \<Longrightarrow> w (f x) = BNext (if Suc x = n then None else Some (f (Suc x)))) \<Longrightarrow> k < n
   \<Longrightarrow> bchain w (Some (f k)) (map f [k ..< n])"
proof (induction "n - k" arbitrary: k)
  case (Suc d)
  then show ?case
  proof (cases "Suc k = n")
    case False
    then have "bchain w (Some (f (Suc k))) (map f [Suc k ..< n])" using Suc by (intro Suc.hyps(1)) auto
    then show ?thesis using Suc.prems False by (simp add: upt_rec [of k])
  qed (simp add: upt_rec [of k])
qed simp

lemma block_at_fits:
  "pool_fits mp \<Longrightarrow> k \<le> unat (block_total_count mp) \<Longrightarrow> block_at mp k = start_address mp + k * (unat (block_size mp) + 4)"
proof -
  assume a: "pool_fits mp" "k \<le> unat (block_total_count mp)"
  have "k * (unat (block_size mp) + 4) \<le> unat (block_total_count mp) * (unat (block_size mp) + 4)"
    using a(2) by (rule mult_le_mono1)
  then have "start_address mp + k * (unat (block_size mp) + 4) < 2 ^ 32" using a(1) unfolding pool_fits_def by linarith
  then show ?thesis unfolding block_at_def by (rule mod_less)
qed

text \<open>The blocks of a new pool are all free, in the order of their addresses.\<close>

lemma mp_link_ok:
  assumes n: "0 < unat (block_total_count (mps s i))" and f: "block_free_count (mps s i) = block_total_count (mps s i)"
    and fit: "pool_fits (mps s i)"
  shows "\<exists>s'. mp_link i s = Some s' \<and> mp_ok i s' (map (block_at (mps s i)) [0 ..< unat (block_total_count (mps s i))]) {}
     \<and> mps s' i = (mps s i)\<lparr>block_list := Some (start_address (mps s i))\<rparr>"
proof -
  let ?mp = "mps s i"
  let ?n = "unat (block_total_count ?mp)" and ?f = "block_at ?mp"
  define w where "w = (fold (\<lambda>k w. w(?f k := BNext (Some (?f (k + 1))))) [0 ..< ?n] (mp_words s))(?f (?n - 1) := BNext None)"
  define s' where "s' = upd_mp i (\<lambda>mp. mp\<lparr>block_list := Some (start_address mp)\<rparr>) (s\<lparr>mp_words := w\<rparr>)"
  have inj: "inj_on ?f {..< ?n}" using block_at_fits [OF fit] by (auto simp: inj_on_def)
  have run: "mp_link i s = Some s'"
    using n unfolding mp_link_def Let_def link_fold by (simp add: s'_def w_def upd_mp_word_def)
  have at: "w (?f x) = BNext (if Suc x = ?n then None else Some (?f (Suc x)))" if "x < ?n" for x
  proof (cases "x = ?n - 1")
    case False
    then have "?f x \<noteq> ?f (?n - 1)" using inj that by (auto simp: inj_on_def)
    then show ?thesis using words_fold [OF inj that] False by (auto simp: w_def)
  qed (use that in \<open>simp add: w_def\<close>)
  have s: "?f 0 = start_address ?mp" using block_at_fits [OF fit, of 0] by simp
  have "bchain w (Some (start_address ?mp)) (map ?f [0 ..< ?n])" using bchain_up [OF at n] by (simp add: s)
  moreover have "set (map ?f [0 ..< ?n]) = pool_blocks ?mp"
    using block_at_fits [OF fit] by (force simp: pool_blocks_def)
  moreover have "distinct (map ?f [0 ..< ?n])" using inj by (simp add: distinct_map lessThan_atLeast0)
  ultimately have "mp_ok i s' (map ?f [0 ..< ?n]) {}"
    using fit f by (simp add: mp_ok_def s'_def upd_mp_def pool_fits_def pool_blocks_def)
  then show ?thesis using run by (simp add: s'_def upd_mp_def)
qed

text \<open>A static pool with room for a block, below the top of the address space.\<close>

lemma rt_mp_init_ok:
  fixes sz blksz :: u32
  defines "bs \<equiv> RT_ALIGN blksz RT_ALIGN_SIZE" and "n \<equiv> RT_ALIGN_DOWN sz RT_ALIGN_SIZE"
  assumes ob: "rt_object_init (OMemPool i) RT_Object_Class_MemPool name s = Some s1"
    and room: "unat bs + 4 \<le> unat n" "start + unat n < 2 ^ 32"
  shows "\<exists>s' F. rt_mp_init i name start sz blksz s = Some (RT_EOK, s') \<and> mp_ok i s' F {}
     \<and> length F = unat n div (unat bs + 4) \<and> start_address (mps s' i) = start \<and> block_size (mps s' i) = bs
     \<and> suspend_thread_count (mps s' i) = 0"
proof -
  define mp where "mp = (mps s1 i)\<lparr>start_address := start, mp_size := n, block_size := bs,
     block_total_count := n div (bs + 4), block_free_count := n div (bs + 4), suspend_thread_count := 0\<rparr>"
  define s2 where "s2 = upd_tl (rt_list_init (LHead (HMp i))) (upd_mp i (\<lambda>_. mp) s1)"
  have m: "mps s2 i = mp" by (simp add: s2_def upd_tl_def upd_mp_def)
  have "unat (bs + 4) = unat bs + 4" using room unsigned_less [of n, where ?'a = nat] by (simp add: unat_word_ariths)
  then have c: "unat (block_total_count mp) = unat n div (unat bs + 4)" by (simp add: mp_def unat_div)
  have p: "0 < unat (block_total_count (mps s2 i))" unfolding m c using room(1) by (simp add: div_greater_zero_iff)
  have f: "block_free_count (mps s2 i) = block_total_count (mps s2 i)" unfolding m by (simp add: mp_def)
  have "unat (block_total_count mp) * (unat bs + 4) \<le> unat n" unfolding c by (simp add: div_times_less_eq_dividend)
  then have "pool_fits (mps s2 i)" using room(2) unfolding m pool_fits_def by (simp add: mp_def)
  from mp_link_ok [OF p f this] obtain s' where s': "mp_link i s2 = Some s'"
    "mp_ok i s' (map (block_at mp) [0 ..< unat (block_total_count mp)]) {}" "mps s' i = mp\<lparr>block_list := Some (start_address mp)\<rparr>"
    unfolding m by blast
  have "rt_mp_init i name start sz blksz s = Some (RT_EOK, s')"
    using ob s'(1) unfolding rt_mp_init_def Let_def by (simp add: s2_def mp_def n_def bs_def)
  then show ?thesis
    using s'(2,3) c by (intro exI [of _ s'] exI [of _ "map (block_at mp) [0 ..< unat (block_total_count mp)]"]) (simp add: mp_def)
qed

section \<open>Allocating and freeing\<close>

lemma count_steps:
  "unat (c :: u32) < unat (n :: u32) \<Longrightarrow> unat (c + 1) = unat c + 1" "0 < unat c \<Longrightarrow> unat (c - 1) = unat c - 1"
proof -
  show "unat (c + 1) = unat c + 1" if "unat c < unat n"
    using that unsigned_less [of n, where ?'a = nat] by (simp add: unat_word_ariths)
  show "unat (c - 1) = unat c - 1" if "0 < unat c"
    using that unat_sub [of 1 c] by (simp add: word_le_nat_alt)
qed

lemma mp_take_ok:
  assumes K: "ipc_inv s L T" and ok: "mp_ok i s (b # F) U"
  shows "\<exists>s'. mp_take i s = Some (b, s') \<and> ipc_inv s' L T \<and> mp_ok i s' F (insert b U)
     \<and> suspend_thread_count (mps s' i) = suspend_thread_count (mps s i) \<and> threads s' = threads s
     \<and> (\<forall>x. x \<noteq> b \<longrightarrow> mp_words s' x = mp_words s x)"
proof -
  obtain n where n: "block_list (mps s i) = Some b" "mp_words s b = BNext n" "bchain (mp_words s) n F"
    using ok by (auto simp: mp_ok_def split: block_word.splits)
  let ?s1 = "upd_mp i (\<lambda>mp. mp\<lparr>block_free_count := block_free_count mp - 1\<rparr>) s"
  let ?s' = "upd_mp_word b (BPool i) (upd_mp i (\<lambda>mp. mp\<lparr>block_list := n\<rparr>) ?s1)"
  have m: "mps ?s' i = (mps s i)\<lparr>block_free_count := block_free_count (mps s i) - 1, block_list := n\<rparr>"
    "mp_words ?s' = (mp_words s)(b := BPool i)" "threads ?s' = threads s" by (simp_all add: upd_defs)
  have "unat (block_free_count (mps s i) - 1) = length F" using ok count_steps(2) [of "block_free_count (mps s i)"] by (simp add: mp_ok_def)
  then have "mp_ok i ?s' F (insert b U)"
    using ok n(3) unfolding mp_ok_def m by (auto simp: pool_fits_def pool_blocks_def)
  moreover have "mp_take i s = Some (b, ?s')" using n(1,2) by (simp add: mp_take_def upd_mp_def)
  ultimately show ?thesis using K m by (intro exI [of _ ?s']) simp
qed

lemma rt_mp_alloc_block:
  assumes K: "ipc_inv s L T" and ok: "mp_ok i s (b # F) U"
  shows "\<exists>s'. rt_mp_alloc i time s = Some (Ret (Some (b + 4)), s') \<and> ipc_inv s' L T \<and> mp_ok i s' F (insert b U)
     \<and> suspend_thread_count (mps s' i) = suspend_thread_count (mps s i) \<and> (\<forall>x. x \<noteq> b \<longrightarrow> mp_words s' x = mp_words s x)"
proof -
  from mp_take_ok [OF K ok] obtain s' where s': "mp_take i s = Some (b, s')" "ipc_inv s' L T" "mp_ok i s' F (insert b U)"
    "suspend_thread_count (mps s' i) = suspend_thread_count (mps s i)" "\<forall>x. x \<noteq> b \<longrightarrow> mp_words s' x = mp_words s x" by blast
  have "block_free_count (mps s i) \<noteq> 0" using ok by (auto simp: mp_ok_def)
  moreover have "add32 b 4 = b + 4" using ok by (intro pool_address(1)) (auto simp: mp_ok_def)
  ultimately have "rt_mp_alloc i time s = Some (Ret (Some (b + 4)), s')" using s'(1) by (simp add: rt_mp_alloc_def)
  then show ?thesis using s' by blast
qed

lemma mp_ok_empty: "mp_ok i s [] U \<Longrightarrow> block_free_count (mps s i) = 0"
  by (simp add: mp_ok_def unat_eq_zero)

lemma rt_mp_alloc_nowait: "mp_ok i s [] U \<Longrightarrow> rt_mp_alloc i 0 s = Some (Ret None, s)"
  by (simp add: rt_mp_alloc_def mp_ok_empty)

text \<open>The waiting thread goes in front of the threads that wait already.\<close>

lemma rt_mp_alloc_waits:
  assumes K: "ipc_inv s L T" and ok: "mp_ok i s [] U" and c: "rt_current_thread s = Some t"
    and irq: "rt_interrupt_nest s = 0" and st: "stat (threads s t) = RT_THREAD_READY"
    and time: "time \<noteq> 0" "time < 0x7fffffff" and other: "unlink t L (HPrio q) \<noteq> []"
  shows "\<exists>s' T'. rt_mp_alloc i time s = Some (Block t, s') \<and> ipc_inv s' (pushed (HMp i) t L) T' \<and> mp_ok i s' [] U
     \<and> suspend_thread_count (mps s' i) = suspend_thread_count (mps s i) + 1
     \<and> stat (threads s' t) = RT_THREAD_SUSPEND \<and> error (threads s' t) = RT_EOK
     \<and> (time > 0 \<longrightarrow> Thread_timer t \<in> set T' \<and> tdist s' (Thread_timer t) = nat time)
     \<and> (rt_scheduler_lock_nest s = 0 \<longrightarrow> chosen (pushed (HMp i) t L) s')"
proof -
  let ?s1 = "upd_thread t (\<lambda>th. th\<lparr>error := RT_EOK\<rparr>) s" and ?L = "pushed (HMp i) t L"
  have K1: "ipc_inv ?s1 L T" by (rule ipc_inv_soft [OF K]) simp
  have st1: "stat (threads ?s1 t) = RT_THREAD_READY" using st by (simp add: upd_thread_def)
  have wh: "wait_head (HMp i)" by simp
  from suspend_front_spec [OF K1 st1 wh] obtain s2 where s2: "suspend_front (HMp i) t ?s1 = Some s2" "ipc_inv s2 ?L T"
    "thread_frame ?s1 s2" "threads s2 = (threads ?s1)(t := (threads ?s1 t)\<lparr>stat := RT_THREAD_SUSPEND\<rparr>)"
    "rt_current_thread s2 = Some t" using c by (auto simp: upd_thread_def)
  define s3 where "s3 = upd_mp i (\<lambda>mp. mp\<lparr>suspend_thread_count := suspend_thread_count mp + 1\<rparr>) s2"
  have K3: "ipc_inv s3 ?L T" using s2(2) by (simp add: s3_def)
  have s3: "threads s3 = threads s2" "rt_current_thread s3 \<noteq> None" using s2(5) by (simp_all add: s3_def upd_mp_def)
  have nT: "Thread_timer t \<notin> set T" using kernel_invD(6) [OF ipc_invD(1) [OF K], of t] st by auto
  have st3: "stat (threads s3 t) = RT_THREAD_SUSPEND" by (simp add: s3(1) s2(4))
  have ne: "?L (HPrio q) \<noteq> []" using other by (simp add: pushed_def)
  from arm_switch [OF K3 st3 nT time(2) ne s3(2)] obtain s4 s5 T' where
    s5: "arm_timer t time s3 = Some s4" "rt_schedule s4 = Some s5" "ipc_inv s5 ?L T'" "thread_frame s3 s5" "threads s5 = threads s3"
    "time > 0 \<longrightarrow> Thread_timer t \<in> set T' \<and> tdist s5 (Thread_timer t) = nat time"
    "rt_scheduler_lock_nest s3 = 0 \<longrightarrow> chosen ?L s5" by blast
  have "rt_mp_alloc i time s = Some (Block t, s5)"
    using mp_ok_empty [OF ok] time(1) c irq s2(1) s5(1,2)
    by (simp add: rt_mp_alloc_def RT_DEBUG_NOT_IN_INTERRUPT_def rt_interrupt_get_nest_def rt_thread_self_def Let_def s3_def)
  moreover have m: "mps s5 i = (mps s i)\<lparr>suspend_thread_count := suspend_thread_count (mps s i) + 1\<rparr>"
    using thread_frameD(13) [OF s5(4)] thread_frameD(13) [OF s2(3)] by (simp add: s3_def upd_mp_def upd_thread_def)
  moreover have "mp_words s5 = mp_words s"
    using thread_frameD(19) [OF s5(4)] thread_frameD(19) [OF s2(3)] by (simp add: s3_def upd_mp_def upd_thread_def)
  moreover have "stat (threads s5 t) = RT_THREAD_SUSPEND" "error (threads s5 t) = RT_EOK"
    by (simp_all add: s5(5) s3(1) s2(4) upd_thread_def)
  moreover have "rt_scheduler_lock_nest s3 = rt_scheduler_lock_nest s"
    using thread_frameD(7) [OF s2(3)] by (simp add: s3_def upd_mp_def upd_thread_def)
  ultimately show ?thesis
    using ok s5(3,6,7) mp_ok_cong [where s' = s5 and s = s and i = i] by (intro exI [of _ s5] exI [of _ T']) simp
qed

text \<open>Freeing: the block is first on the free list, and the thread that waits in front is woken.\<close>

definition mp_put :: "nat \<Rightarrow> nat \<Rightarrow> kernel \<Rightarrow> kernel" where
  "mp_put i b s = upd_mp i (\<lambda>mp. mp\<lparr>block_list := Some b\<rparr>)
     (upd_mp_word b (BNext (block_list (mps s i))) (upd_mp i (\<lambda>mp. mp\<lparr>block_free_count := block_free_count mp + 1\<rparr>) s))"

lemma mp_put_fields:
  "mps (mp_put i b s) i = (mps s i)\<lparr>block_free_count := block_free_count (mps s i) + 1, block_list := Some b\<rparr>"
  "mp_words (mp_put i b s) = (mp_words s)(b := BNext (block_list (mps s i)))"
  "threads (mp_put i b s) = threads s" "tlinks (mp_put i b s) = tlinks s" "rt_current_thread (mp_put i b s) = rt_current_thread s"
  "rt_scheduler_lock_nest (mp_put i b s) = rt_scheduler_lock_nest s" "ipc_inv (mp_put i b s) L T = ipc_inv s L T"
  unfolding mp_put_def by (simp_all, simp_all add: upd_defs)

lemma mp_put_ok:
  assumes "mp_ok i s F U" "b \<in> U"
  shows "mp_ok i (mp_put i b s) (b # F) (U - {b})"
proof -
  have b: "b \<notin> set F" "insert b (set F) \<subseteq> pool_blocks (mps s i)" using assms by (auto simp: mp_ok_def)
  have "finite (pool_blocks (mps s i))" by (simp add: pool_blocks_def)
  from card_mono [OF this b(2)] have "length F < unat (block_total_count (mps s i))"
    using b(1) assms(1) by (simp add: mp_ok_def distinct_card card_pool_blocks)
  then have "unat (block_free_count (mps s i) + 1) = Suc (length F)"
    using assms(1) count_steps(1) [of "block_free_count (mps s i)" "block_total_count (mps s i)"] by (simp add: mp_ok_def)
  then show ?thesis using assms b(1) unfolding mp_ok_def mp_put_fields by (auto simp: pool_fits_def pool_blocks_def)
qed

lemma rt_mp_free_start:
  assumes "mp_ok i s F U" "b \<in> U"
  shows "rt_mp_free (b + 4) s =
    (let s3 = mp_put i b s in
     if suspend_thread_count (mps s i) > 0
     then do {
       t \<leftarrow> rt_list_entry (lnext (tlinks s3) (LHead (HMp i)));
       let s4 = upd_thread t (\<lambda>th. th\<lparr>error := RT_EOK\<rparr>) s3;
       (_, s5) \<leftarrow> rt_thread_resume t s4;
       let s6 = upd_mp i (\<lambda>mp. mp\<lparr>suspend_thread_count := suspend_thread_count mp - 1\<rparr>) s5;
       rt_schedule s6 }
     else Some s3)"
proof -
  have "sub32 (b + 4) 4 = b" using assms by (intro pool_address(2)) (auto simp: mp_ok_def)
  moreover have "mp_words s b = BPool i" using assms by (simp add: mp_ok_def)
  moreover have "block_list (mps (upd_mp i (\<lambda>mp. mp\<lparr>block_free_count := block_free_count mp + 1\<rparr>) s) i) = block_list (mps s i)"
    by (simp add: upd_mp_def)
  ultimately show ?thesis
    unfolding rt_mp_free_def Let_def by (simp only: block_word.case Option.bind.simps mp_put_def [symmetric]) (simp add: mp_put_fields)
qed

lemma rt_mp_free_idle:
  assumes K: "ipc_inv s L T" and ok: "mp_ok i s F U" and b: "b \<in> U" and z: "suspend_thread_count (mps s i) = 0"
  shows "\<exists>s'. rt_mp_free (b + 4) s = Some s' \<and> ipc_inv s' L T \<and> mp_ok i s' (b # F) (U - {b}) \<and> threads s' = threads s
     \<and> (\<forall>x. x \<noteq> b \<longrightarrow> mp_words s' x = mp_words s x)"
  using rt_mp_free_start [OF ok b] z K mp_put_ok [OF ok b] by (simp add: mp_put_fields)

lemma rt_mp_free_wakes:
  assumes K: "ipc_inv s L T" and ok: "mp_ok i s F U" and b: "b \<in> U"
    and n: "suspend_thread_count (mps s i) \<noteq> 0" and w: "L (HMp i) = t # ts" and c: "rt_current_thread s \<noteq> None"
  defines "L' \<equiv> make_ready t (unat (current_priority (threads s t))) L"
  shows "\<exists>s'. rt_mp_free (b + 4) s = Some s' \<and> ipc_inv s' L' (remove1 (Thread_timer t) T) \<and> mp_ok i s' (b # F) (U - {b})
     \<and> suspend_thread_count (mps s' i) = suspend_thread_count (mps s i) - 1 \<and> L' (HMp i) = ts
     \<and> stat (threads s' t) = RT_THREAD_READY \<and> error (threads s' t) = RT_EOK
     \<and> (rt_scheduler_lock_nest s = 0 \<longrightarrow> chosen L' s')"
proof -
  let ?s1 = "mp_put i b s"
  let ?s2 = "upd_thread t (\<lambda>th. th\<lparr>error := RT_EOK\<rparr>) ?s1"
  have wh: "wait_head (HMp i)" by simp
  have K2: "ipc_inv ?s2 L T" by (rule ipc_inv_soft) (simp_all add: K mp_put_fields)
  have cp: "current_priority (threads ?s2 t) = current_priority (threads s t)" by (simp add: upd_thread_def mp_put_fields)
  have st: "stat (threads ?s2 t) = RT_THREAD_SUSPEND"
    using ipc_invD(2) [OF K wh, of t] w by (simp add: upd_thread_def mp_put_fields)
  from rt_thread_resume_spec [OF ipc_invD(1) [OF K2] st] obtain s3 where s3: "rt_thread_resume t ?s2 = Some (RT_EOK, s3)"
    "kernel_inv s3 L' (remove1 (Thread_timer t) T)" "thread_frame ?s2 s3"
    "threads s3 = (threads ?s2)(t := (threads ?s2 t)\<lparr>stat := RT_THREAD_READY\<rparr>)"
    "rt_current_thread s3 = rt_current_thread ?s2" unfolding cp L'_def by blast
  have K3: "ipc_inv s3 L' (remove1 (Thread_timer t) T)"
    unfolding L'_def by (rule ipc_inv_make_ready [OF K2 s3(2) [unfolded L'_def]]) (simp add: s3(4))
  define s4 where "s4 = upd_mp i (\<lambda>mp. mp\<lparr>suspend_thread_count := suspend_thread_count mp - 1\<rparr>) s3"
  have "ipc_inv s4 L' (remove1 (Thread_timer t) T)" "L' (HPrio (unat (current_priority (threads s t)))) \<noteq> []"
    "rt_current_thread s4 \<noteq> None"
    using K3 c s3(5) by (simp add: s4_def, simp add: L'_def make_ready_def, simp add: s4_def upd_mp_def upd_thread_def mp_put_fields)
  from switch [OF this] obtain s5 where s5: "rt_schedule s4 = Some s5" "ipc_inv s5 L' (remove1 (Thread_timer t) T)"
    "thread_frame s4 s5" "threads s5 = threads s4" "rt_scheduler_lock_nest s4 = 0 \<Longrightarrow> chosen L' s5" by blast
  have e: "rt_list_entry (lnext (tlinks ?s1) (LHead (HMp i))) = Some t"
    using tq.rep_first_at [OF kernel_invD(4) [OF ipc_invD(1) [OF K]], of "HMp i"] w by (simp add: mp_put_fields)
  have g: "suspend_thread_count (mps s i) > 0" using n by (simp add: word_gt_0)
  have "rt_mp_free (b + 4) s = Some s5"
    using e s3(1) s5(1) g unfolding rt_mp_free_start [OF ok b] Let_def by (simp add: s4_def)
  moreover have m: "mps s5 i = (mps ?s1 i)\<lparr>suspend_thread_count := suspend_thread_count (mps s i) - 1\<rparr>"
    using thread_frameD(13) [OF s5(3)] thread_frameD(13) [OF s3(3)] by (simp add: s4_def upd_mp_def upd_thread_def mp_put_fields)
  moreover have mw: "mp_words s5 = mp_words ?s1"
    using thread_frameD(19) [OF s5(3)] thread_frameD(19) [OF s3(3)] by (simp add: s4_def upd_mp_def upd_thread_def)
  moreover have "mp_ok i s5 (b # F) (U - {b})" using mp_put_ok [OF ok b] mp_ok_cong [OF m mw] by simp
  moreover have "L' (HMp i) = ts" unfolding L'_def by (rule make_ready_wait(1) [OF K wh w])
  moreover have "threads s5 = threads s3" "rt_scheduler_lock_nest s4 = rt_scheduler_lock_nest s"
    using s5(4) thread_frameD(7) [OF s3(3)] by (simp_all add: s4_def upd_mp_def upd_thread_def mp_put_fields)
  ultimately show ?thesis using s5(2,5) s3(4) by (intro exI [of _ s5]) (simp add: upd_thread_def)
qed

text \<open>
  A waiting thread that times out is taken off the list but stays in the count: the next free takes
  the head of the empty list for a thread. And a thread that was woken finds no block when another
  thread took it first: the end of the free list is followed.
\<close>

lemma rt_mp_free_stale_count:
  assumes "ipc_inv s L T" "mp_ok i s F U" "b \<in> U" "L (HMp i) = []" "suspend_thread_count (mps s i) \<noteq> 0"
  shows "rt_mp_free (b + 4) s = None"
proof -
  have "lnext (tlinks s) (LHead (HMp i)) = LHead (HMp i)"
    using lists_repD(2) [OF kernel_invD(4) [OF ipc_invD(1) [OF assms(1)]], of "HMp i"] assms(4) by simp
  then show ?thesis
    using assms(5) unfolding rt_mp_free_start [OF assms(2,3)] by (simp add: Let_def word_gt_0 mp_put_fields)
qed

lemma rt_mp_alloc_resumed_late:
  "mp_ok i s [] U \<Longrightarrow> error (threads s t) = RT_EOK \<Longrightarrow> rt_mp_alloc_resumed i t s = None"
  by (simp add: rt_mp_alloc_resumed_def mp_take_def mp_ok_def Let_def upd_mp_def)

end
