(* ===== verification/RT_DataQueue.thy ===== *)
theory RT_DataQueue
  imports RT_MemPool
begin

text \<open>
  Two synchronisation objects of the device drivers, from \<open>components/drivers/src/completion.c\<close> and
  \<open>dataqueue.c\<close>. A completion lets one thread wait until another one, or an interrupt, is done. A data
  queue is a ring of pointers with waiting on both sides and a low water mark; its indices run
  through all 16 bits and are masked when the ring is accessed, so its size has to be a power of two.

  The notification function of a data queue is a parameter \<open>notify\<close> of the operations.
\<close>

section \<open>Completions\<close>

definition RT_COMPLETED :: u32 where "RT_COMPLETED = 1"
definition RT_UNCOMPLETED :: u32 where "RT_UNCOMPLETED = 0"

definition rt_completion_init :: "nat \<Rightarrow> kernel \<Rightarrow> kernel" where
  "rt_completion_init i s =
    upd_tl (rt_list_init (LHead (HCompletion i))) (upd_completion i (\<lambda>c. c\<lparr>cflag := RT_UNCOMPLETED\<rparr>) s)"

definition rt_completion_wait :: "nat \<Rightarrow> int \<Rightarrow> kernel \<Rightarrow> ((nat, rt_err_t) outcome \<times> kernel) option" where
  "rt_completion_wait i timeout s =
    (if cflag (completions s i) \<noteq> RT_COMPLETED
     then do {
       RT_ASSERT (rt_list_isempty (LHead (HCompletion i)) (tlinks s));
       if timeout = 0 then Some (Ret (- RT_ETIMEOUT), s)
       else do {
         t \<leftarrow> rt_thread_self s;
         let s1 = upd_thread t (\<lambda>th. th\<lparr>error := RT_EOK\<rparr>) s;
         s2 \<leftarrow> suspend_back (HCompletion i) t s1;
         RT_DEBUG_NOT_IN_INTERRUPT s2;
         s3 \<leftarrow> arm_timer t timeout s2;
         s4 \<leftarrow> rt_schedule s3;
         Some (Block t, s4) } }
     else Some (Ret RT_EOK, s))"

definition rt_completion_wait_resumed :: "nat \<Rightarrow> nat \<Rightarrow> kernel \<Rightarrow> rt_err_t \<times> kernel" where
  "rt_completion_wait_resumed i t s =
    (error (threads s t), upd_completion i (\<lambda>c. c\<lparr>cflag := RT_UNCOMPLETED\<rparr>) s)"

definition rt_completion_done :: "nat \<Rightarrow> kernel \<Rightarrow> kernel option" where
  "rt_completion_done i s =
    (if cflag (completions s i) = RT_COMPLETED then Some s
     else do {
       let s1 = upd_completion i (\<lambda>c. c\<lparr>cflag := RT_COMPLETED\<rparr>) s;
       if \<not> rt_list_isempty (LHead (HCompletion i)) (tlinks s1)
       then do {
         t \<leftarrow> rt_list_entry (lnext (tlinks s1) (LHead (HCompletion i)));
         (_, s2) \<leftarrow> rt_thread_resume t s1;
         rt_schedule s2 }
       else Some s1 })"

section \<open>Data queues\<close>

datatype dq_event = RT_DATAQUEUE_EVENT_UNKNOWN | RT_DATAQUEUE_EVENT_POP | RT_DATAQUEUE_EVENT_PUSH | RT_DATAQUEUE_EVENT_LWM

type_synonym dq_notify = "nat \<Rightarrow> dq_event \<Rightarrow> kernel \<Rightarrow> kernel option"

definition rt_data_queue_init :: "nat \<Rightarrow> u16 \<Rightarrow> u16 \<Rightarrow> bool \<Rightarrow> kernel \<Rightarrow> (rt_err_t \<times> kernel) option" where
  "rt_data_queue_init i sz mark evt s = do {
     let s1 = upd_dq i (\<lambda>q. q\<lparr>evt_notify := evt, dq_size := sz, lwm := mark, waiting_lwm := False,
                get_index := 0, put_index := 0\<rparr>) s;
     let s2 = upd_tl (rt_list_init (LHead (HDqPush i))) s1;
     let s3 = upd_tl (rt_list_init (LHead (HDqPop i))) s2;
     (p, s4) \<leftarrow> RT_KERNEL_MALLOC (8 * unat sz) s3;
     let s5 = upd_dq i (\<lambda>q. q\<lparr>dq_queue := p\<rparr>) s4;
     Some (case p of None \<Rightarrow> (- RT_ENOMEM, s5) | Some _ \<Rightarrow> (RT_EOK, s5)) }"

text \<open>The 16-bit fields are converted to \<open>int\<close> before the subtraction.\<close>

definition dq_fill :: "rt_data_queue \<Rightarrow> int" where
  "dq_fill q = uint (put_index q) - uint (get_index q)"

definition dq_slot :: "rt_data_queue \<Rightarrow> u16 \<Rightarrow> nat" where
  "dq_slot q k = unat (k AND (dq_size q - 1))"

definition dq_store :: "rt_data_item \<Rightarrow> rt_data_queue \<Rightarrow> rt_data_queue" where
  "dq_store x q = q\<lparr>dq_items := (dq_items q)(dq_slot q (put_index q) := x), put_index := put_index q + 1\<rparr>"

definition dq_fetch :: "rt_data_queue \<Rightarrow> rt_data_item \<times> rt_data_queue" where
  "dq_fetch q = (dq_items q (dq_slot q (get_index q)), q\<lparr>get_index := get_index q + 1\<rparr>)"

definition dq_tell :: "dq_notify \<Rightarrow> nat \<Rightarrow> dq_event \<Rightarrow> kernel \<Rightarrow> kernel option" where
  "dq_tell notify i ev s = (if evt_notify (dqueues s i) then notify i ev s else Some s)"

text \<open>Waking the first thread of a list.\<close>

definition dq_resume :: "thead \<Rightarrow> kernel \<Rightarrow> kernel option" where
  "dq_resume h s = do {
     t \<leftarrow> rt_list_entry (lnext (tlinks s) (LHead h));
     (_, s1) \<leftarrow> rt_thread_resume t s;
     rt_schedule s1 }"

definition dq_wait :: "thead \<Rightarrow> int \<Rightarrow> kernel \<Rightarrow> (nat \<times> kernel) option" where
  "dq_wait h timeout s = do {
     RT_DEBUG_NOT_IN_INTERRUPT s;
     t \<leftarrow> rt_thread_self s;
     let s1 = upd_thread t (\<lambda>th. th\<lparr>error := RT_EOK\<rparr>) s;
     s2 \<leftarrow> suspend_back h t s1;
     s3 \<leftarrow> arm_timer t timeout s2;
     s4 \<leftarrow> rt_schedule s3;
     Some (t, s4) }"

definition rt_data_queue_push ::
  "dq_notify \<Rightarrow> nat \<Rightarrow> rt_data_item \<Rightarrow> int \<Rightarrow> kernel \<Rightarrow> ((nat, rt_err_t) outcome \<times> kernel) option" where
  "rt_data_queue_push notify i x timeout s =
    (if dq_fill (dqueues s i) = uint (dq_size (dqueues s i))
     then do {
       let s1 = upd_dq i (\<lambda>q. q\<lparr>waiting_lwm := True\<rparr>) s;
       if timeout = 0 then Some (Ret (- RT_ETIMEOUT), s1)
       else do { (t, s2) \<leftarrow> dq_wait (HDqPush i) timeout s1; Some (Block t, s2) } }
     else do {
       let s1 = upd_dq i (dq_store x) s;
       s2 \<leftarrow> (if \<not> rt_list_isempty (LHead (HDqPop i)) (tlinks s1) then dq_resume (HDqPop i) s1
             else dq_tell notify i RT_DATAQUEUE_EVENT_PUSH s1);
       Some (Ret RT_EOK, s2) })"

definition rt_data_queue_push_resumed ::
  "dq_notify \<Rightarrow> nat \<Rightarrow> rt_data_item \<Rightarrow> int \<Rightarrow> nat \<Rightarrow> kernel \<Rightarrow> ((nat, rt_err_t) outcome \<times> kernel) option" where
  "rt_data_queue_push_resumed notify i x timeout t s =
    (if error (threads s t) \<noteq> RT_EOK then Some (Ret (error (threads s t)), s)
     else rt_data_queue_push notify i x timeout s)"

definition rt_data_queue_pop ::
  "dq_notify \<Rightarrow> nat \<Rightarrow> int \<Rightarrow> kernel \<Rightarrow> ((nat, rt_err_t \<times> rt_data_item option) outcome \<times> kernel) option" where
  "rt_data_queue_pop notify i timeout s =
    (if get_index (dqueues s i) = put_index (dqueues s i)
     then if timeout = 0 then Some (Ret (- RT_ETIMEOUT, None), s)
          else do { (t, s1) \<leftarrow> dq_wait (HDqPop i) timeout s; Some (Block t, s1) }
     else do {
       let (x, q1) = dq_fetch (dqueues s i);
       let s1 = upd_dq i (\<lambda>_. q1) s;
       if waiting_lwm q1 \<and> dq_fill q1 \<le> uint (lwm q1)
       then do {
         let s2 = upd_dq i (\<lambda>q. q\<lparr>waiting_lwm := False\<rparr>) s1;
         s3 \<leftarrow> (if \<not> rt_list_isempty (LHead (HDqPush i)) (tlinks s2) then dq_resume (HDqPush i) s2 else Some s2);
         s4 \<leftarrow> dq_tell notify i RT_DATAQUEUE_EVENT_LWM s3;
         Some (Ret (RT_EOK, Some x), s4) }
       else do {
         s2 \<leftarrow> dq_tell notify i RT_DATAQUEUE_EVENT_POP s1;
         Some (Ret (RT_EOK, Some x), s2) } })"

definition rt_data_queue_pop_resumed ::
  "dq_notify \<Rightarrow> nat \<Rightarrow> int \<Rightarrow> nat \<Rightarrow> kernel \<Rightarrow> ((nat, rt_err_t \<times> rt_data_item option) outcome \<times> kernel) option" where
  "rt_data_queue_pop_resumed notify i timeout t s =
    (if error (threads s t) \<noteq> RT_EOK then Some (Ret (error (threads s t), None), s)
     else rt_data_queue_pop notify i timeout s)"

definition rt_data_queue_peak :: "nat \<Rightarrow> kernel \<Rightarrow> rt_err_t \<times> rt_data_item option" where
  "rt_data_queue_peak i s =
    (let q = dqueues s i in
     if get_index q = put_index q then (- RT_EEMPTY, None)
     else (RT_EOK, Some (dq_items q (dq_slot q (get_index q)))))"

text \<open>The reset only wakes the waiting threads; its two loops are those of \<open>rt_ipc_list_resume_all\<close>.\<close>

definition rt_data_queue_reset :: "nat \<Rightarrow> kernel \<Rightarrow> kernel option" where
  "rt_data_queue_reset i s = do {
     let s1 = rt_enter_critical s;
     s2 \<leftarrow> rt_ipc_list_resume_all (HDqPop i) s1;
     s3 \<leftarrow> rt_ipc_list_resume_all (HDqPush i) s2;
     s4 \<leftarrow> rt_exit_critical s3;
     rt_schedule s4 }"

section \<open>The ring as a bounded buffer\<close>

definition dq_ok :: "rt_data_queue \<Rightarrow> bool" where
  "dq_ok q \<longleftrightarrow> (\<exists>k \<le> 15. unat (dq_size q) = 2 ^ k) \<and> unat (put_index q - get_index q) \<le> unat (dq_size q)"

definition dq_len :: "rt_data_queue \<Rightarrow> nat" where
  "dq_len q = unat (put_index q - get_index q)"

definition dq_cap :: "rt_data_queue \<Rightarrow> nat" where
  "dq_cap q = unat (dq_size q)"

definition dq_content :: "rt_data_queue \<Rightarrow> rt_data_item list" where
  "dq_content q = ring_content (dq_items q) (dq_cap q) (dq_slot q (get_index q)) (dq_len q)"

lemma dq_slot_mod:
  assumes "unat (dq_size q) = 2 ^ k" "k \<le> 15"
  shows "dq_slot q x = unat x mod dq_cap q"
proof -
  have "dq_size q = 2 ^ k" using assms by (metis of_nat_unat ucast_id of_nat_numeral of_nat_power)
  then have "x AND (dq_size q - 1) = take_bit k x" by (simp add: take_bit_eq_mask mask_eq_exp_minus_1)
  then have "dq_slot q x = take_bit k (unat x)" unfolding dq_slot_def by (simp only: unsigned_take_bit_eq)
  then show ?thesis by (simp add: dq_cap_def assms(1) take_bit_eq_mod)
qed

lemma dq_slot_step:
  assumes "unat (dq_size q) = 2 ^ k" "k \<le> 15"
  shows "dq_slot q (x + of_nat j) = (dq_slot q x + j) mod dq_cap q" "dq_slot q x < dq_cap q"
proof -
  have d: "dq_cap q dvd 65536"
    using le_imp_power_dvd [of k 16 "2::nat"] assms by (simp add: dq_cap_def)
  have "unat (x + of_nat j) mod dq_cap q = (unat x + j) mod dq_cap q"
    using d by (simp add: unat_word_ariths unat_of_nat mod_mod_cancel mod_add_right_eq)
  then show "dq_slot q (x + of_nat j) = (dq_slot q x + j) mod dq_cap q"
    unfolding dq_slot_mod [OF assms] by (simp add: mod_add_left_eq)
  have "0 < dq_cap q" using assms by (simp add: dq_cap_def)
  then show "dq_slot q x < dq_cap q" unfolding dq_slot_mod [OF assms] by simp
qed

lemma dq_store_ring:
  assumes ok: "dq_ok q" and l: "dq_len q < dq_cap q"
  shows "dq_ok (dq_store x q)" "dq_content (dq_store x q) = dq_content q @ [x]" "dq_cap (dq_store x q) = dq_cap q"
proof -
  obtain k where k: "unat (dq_size q) = 2 ^ k" "k \<le> 15" using ok by (auto simp: dq_ok_def)
  have c: "dq_cap q \<le> 32768" using power_increasing [OF k(2), of "2::nat"] k(1) by (simp add: dq_cap_def)
  have p: "put_index q = get_index q + of_nat (dq_len q)" by (simp add: dq_len_def)
  have "unat (put_index q + 1 - get_index q) = Suc (dq_len q)"
  proof -
    have e: "put_index q + 1 - get_index q = (put_index q - get_index q) + 1" by simp
    have "unat (y + 1) = Suc (unat y)" if "unat y + 1 < 65536" for y :: u16 using that by (simp add: unat_word_ariths)
    moreover have "unat (put_index q - get_index q) + 1 < 65536" using l c by (simp add: dq_len_def)
    ultimately show ?thesis unfolding e dq_len_def by blast
  qed
  then have n: "dq_len (dq_store x q) = Suc (dq_len q)" by (simp add: dq_len_def dq_store_def)
  show cap: "dq_cap (dq_store x q) = dq_cap q" by (simp add: dq_store_def dq_cap_def)
  show "dq_ok (dq_store x q)" using ok l n by (auto simp: dq_ok_def dq_len_def dq_cap_def dq_store_def)
  have s: "dq_slot q (put_index q) = (dq_slot q (get_index q) + dq_len q) mod dq_cap q"
    using dq_slot_step(1) [OF k, of "get_index q" "dq_len q"] p by simp
  have g: "dq_slot (dq_store x q) (get_index (dq_store x q)) = dq_slot q (get_index q)" by (simp add: dq_store_def dq_slot_def)
  have "dq_items (dq_store x q) = (dq_items q)((dq_slot q (get_index q) + dq_len q) mod dq_cap q := x)"
    using s by (simp add: dq_store_def)
  then show "dq_content (dq_store x q) = dq_content q @ [x]"
    unfolding dq_content_def n cap g using ring_content_put [OF dq_slot_step(2) [OF k] l] by simp
qed

lemma dq_fetch_ring:
  assumes ok: "dq_ok q" and l: "0 < dq_len q"
  shows "dq_ok (snd (dq_fetch q))" "dq_content q = fst (dq_fetch q) # dq_content (snd (dq_fetch q))"
    "dq_cap (snd (dq_fetch q)) = dq_cap q" "dq_len (snd (dq_fetch q)) = dq_len q - 1"
proof -
  obtain k where k: "unat (dq_size q) = 2 ^ k" "k \<le> 15" using ok by (auto simp: dq_ok_def)
  let ?q = "snd (dq_fetch q)"
  have e: "put_index q - (get_index q + 1) = (put_index q - get_index q) - 1" by simp
  have "unat (put_index q - (get_index q + 1)) = dq_len q - 1"
    unfolding e dq_len_def by (rule entry_steps(2)) (use l in \<open>simp add: dq_len_def\<close>)
  then show n: "dq_len ?q = dq_len q - 1" by (simp add: dq_len_def dq_fetch_def)
  show cap: "dq_cap ?q = dq_cap q" by (simp add: dq_fetch_def dq_cap_def)
  have "dq_len q \<le> dq_cap q" using ok by (simp add: dq_ok_def dq_len_def dq_cap_def)
  then have "dq_len ?q \<le> dq_cap ?q" using n cap by simp
  then show "dq_ok ?q" using k by (auto simp: dq_ok_def dq_len_def dq_cap_def dq_fetch_def)
  have g: "dq_slot ?q (get_index ?q) = ring_next (dq_cap q) (dq_slot q (get_index q))"
    using dq_slot_step(1) [OF k, of "get_index q" 1] ring_next_mod [OF dq_slot_step(2) [OF k]]
    by (simp add: dq_fetch_def dq_slot_def)
  show "dq_content q = fst (dq_fetch q) # dq_content ?q"
    unfolding dq_content_def n cap g ring_content_get [OF dq_slot_step(2) [OF k] l] by (simp add: dq_fetch_def)
qed

interpretation dqr: bounded_fifo dq_ok dq_content dq_cap dq_len dq_store dq_fetch
  by unfold_locales (simp_all add: dq_store_ring dq_fetch_ring, simp add: dq_content_def)

section \<open>Pushing and popping\<close>

lemma dq_resume_eq: "dq_resume h s = do { s1 \<leftarrow> rt_ipc_list_resume h s; rt_schedule s1 }"
  by (simp add: dq_resume_def rt_ipc_list_resume_def split_def)

lemma back_switch:
  assumes K: "ipc_inv s L T" and st: "stat (threads s t) = RT_THREAD_READY" and c: "rt_current_thread s = Some t"
    and h: "wait_head h" and time: "time < 0x7fffffff" and other: "unlink t L (HPrio q) \<noteq> []"
  defines "L' \<equiv> (unlink t L)(h := L h @ [t])"
  shows "\<exists>s2 s3 s' T'. suspend_back h t (upd_thread t (\<lambda>th. th\<lparr>error := RT_EOK\<rparr>) s) = Some s2 \<and> arm_timer t time s2 = Some s3
     \<and> rt_schedule s3 = Some s' \<and> ipc_inv s' L' T' \<and> thread_frame s s'
     \<and> rt_interrupt_nest s2 = rt_interrupt_nest s
     \<and> threads s' = (threads s)(t := (threads s t)\<lparr>error := RT_EOK, stat := RT_THREAD_SUSPEND\<rparr>)
     \<and> (rt_scheduler_lock_nest s = 0 \<longrightarrow> chosen L' s')"
proof -
  let ?e = "\<lambda>th. th\<lparr>error := RT_EOK\<rparr>"
  have L': "parked h RT_IPC_FLAG_FIFO (threads s) t L = L'"
    by (simp add: parked_def enqueue_def L'_def RT_IPC_FLAG_FIFO_def RT_IPC_FLAG_PRIO_def)
  have fl: "RT_IPC_FLAG_FIFO = RT_IPC_FLAG_FIFO \<or> RT_IPC_FLAG_FIFO = RT_IPC_FLAG_PRIO" by simp
  from ipc_wait_switch [OF K st c h fl time soft_updates(1) [of RT_EOK] other] obtain s1 s' T' where
    s: "ipc_wait h t RT_IPC_FLAG_FIFO time (upd_thread t ?e s) = Some s1" "rt_schedule s1 = Some s'" "ipc_inv s' L' T'"
    "thread_frame s s'" "threads s' = (threads s)(t := (?e (threads s t))\<lparr>stat := RT_THREAD_SUSPEND\<rparr>)"
    "rt_scheduler_lock_nest s = 0 \<longrightarrow> chosen L' s'"
    unfolding L' by blast
  obtain s2 where s2: "suspend_back h t (upd_thread t ?e s) = Some s2" "arm_timer t time s2 = Some s1"
    using s(1) unfolding ipc_wait_arm suspend_back_fifo bind_Some_iff by blast
  have K1: "ipc_inv (upd_thread t ?e s) L T" by (rule ipc_inv_soft [OF K]) simp
  have st1: "stat (threads (upd_thread t ?e s) t) = RT_THREAD_READY" using st by (simp add: upd_thread_def)
  from rt_ipc_list_suspend_spec [OF K1 st1 h fl] have "thread_frame (upd_thread t ?e s) s2"
    using s2(1) by (auto simp: suspend_back_fifo)
  then have "rt_interrupt_nest s2 = rt_interrupt_nest s" using thread_frameD(8) by (auto simp: upd_thread_def)
  then show ?thesis using s s2 by auto
qed

lemma dq_wait_spec:
  assumes "ipc_inv s L T" "stat (threads s t) = RT_THREAD_READY" "rt_current_thread s = Some t" "rt_interrupt_nest s = 0"
    "wait_head h" "time < 0x7fffffff" "unlink t L (HPrio q) \<noteq> []"
  shows "\<exists>s' T'. dq_wait h time s = Some (t, s') \<and> ipc_inv s' ((unlink t L)(h := L h @ [t])) T' \<and> thread_frame s s'
     \<and> stat (threads s' t) = RT_THREAD_SUSPEND \<and> error (threads s' t) = RT_EOK"
  using back_switch [OF assms(1-3,5-7)] assms(3,4)
  by (auto simp: dq_wait_def RT_DEBUG_NOT_IN_INTERRUPT_def rt_interrupt_get_nest_def rt_thread_self_def Let_def)

text \<open>The fullness test agrees with the ring as long as the put index has not wrapped before the get index.\<close>

lemma dq_fill_len:
  assumes "dq_ok q" "get_index q \<le> put_index q"
  shows "dq_fill q = int (dq_len q)" "dq_fill q = uint (dq_size q) \<longleftrightarrow> dq_len q = dq_cap q"
proof -
  have "unat (put_index q - get_index q) = unat (put_index q) - unat (get_index q)" using unat_sub assms(2) by blast
  then have "int (dq_len q) = uint (put_index q) - uint (get_index q)"
    using assms(2) by (simp add: dq_len_def word_le_nat_alt of_nat_diff)
  then show f: "dq_fill q = int (dq_len q)" by (simp add: dq_fill_def)
  have "uint (dq_size q) = int (dq_cap q)" by (simp add: dq_cap_def)
  then show "dq_fill q = uint (dq_size q) \<longleftrightarrow> dq_len q = dq_cap q" unfolding f by simp
qed

lemma dq_not_full:
  assumes "dq_ok q" "dq_len q < dq_cap q"
  shows "dq_fill q \<noteq> uint (dq_size q)"
proof (cases "get_index q \<le> put_index q")
  case True
  then show ?thesis using dq_fill_len(2) [OF assms(1)] assms(2) by simp
next
  case False
  then have "uint (put_index q) < uint (get_index q)" by (simp add: word_less_def not_le)
  moreover have "0 \<le> uint (dq_size q)" by simp
  ultimately show ?thesis unfolding dq_fill_def by linarith
qed

lemma rt_data_queue_push_room:
  assumes K: "ipc_inv s L T" and ok: "dq_ok (dqueues s i)" and l: "dq_len (dqueues s i) < dq_cap (dqueues s i)"
    and c: "rt_current_thread s \<noteq> None" and quiet: "L (HDqPop i) = [] \<longrightarrow> \<not> evt_notify (dqueues s i)"
  shows "\<exists>s' T'. rt_data_queue_push notify i x time s = Some (Ret RT_EOK, s') \<and> ipc_inv s' (handed (HDqPop i) s L) T'
     \<and> dq_ok (dqueues s' i) \<and> dq_content (dqueues s' i) = dq_content (dqueues s i) @ [x]
     \<and> (\<forall>t ts. L (HDqPop i) = t # ts \<longrightarrow> stat (threads s' t) = RT_THREAD_READY)
     \<and> evt_notify (dqueues s' i) = evt_notify (dqueues s i)
     \<and> (L (HDqPop i) = [] \<longrightarrow> rt_current_thread s' = rt_current_thread s)"
proof -
  let ?s1 = "upd_dq i (dq_store x) s"
  have wh: "wait_head (HDqPop i)" by simp
  have K1: "ipc_inv ?s1 L T" "rt_current_thread ?s1 \<noteq> None" using K c by (simp, simp add: upd_dq_def)
  have h: "handed (HDqPop i) ?s1 L = handed (HDqPop i) s L" by (rule handed_cong) (simp add: upd_dq_def)
  from wake_one [OF K1(1) wh K1(2), of RT_EOK] obtain s' T' where
    s': "(if \<not> rt_list_isempty (LHead (HDqPop i)) (tlinks ?s1)
      then do { s2 \<leftarrow> rt_ipc_list_resume (HDqPop i) ?s1; s3 \<leftarrow> rt_schedule s2; Some (RT_EOK, s3) }
      else Some (RT_EOK, ?s1)) = Some (RT_EOK, s')"
    "ipc_inv s' (handed (HDqPop i) s L) T'" "thread_frame ?s1 s'"
    "\<forall>t ts. L (HDqPop i) = t # ts \<longrightarrow> stat (threads s' t) = RT_THREAD_READY" unfolding h by blast
  have e: "rt_list_isempty (LHead (HDqPop i)) (tlinks s) \<longleftrightarrow> L (HDqPop i) = []" by (rule list_empty_at [OF K])
  have ev: "evt_notify (dqueues ?s1 i) = evt_notify (dqueues s i)" "tlinks ?s1 = tlinks s" by (simp_all add: upd_dq_def dq_store_def)
  have "(if \<not> rt_list_isempty (LHead (HDqPop i)) (tlinks ?s1) then dq_resume (HDqPop i) ?s1
      else dq_tell notify i RT_DATAQUEUE_EVENT_PUSH ?s1) = Some s'"
    using s'(1) quiet unfolding ev e dq_resume_eq by (auto simp: dq_tell_def ev bind_Some_iff)
  then have "rt_data_queue_push notify i x time s = Some (Ret RT_EOK, s')"
    using dq_not_full [OF ok l] by (simp add: rt_data_queue_push_def Let_def)
  moreover have "dqueues s' i = dq_store x (dqueues s i)" using thread_frameD(15) [OF s'(3)] by (simp add: upd_dq_def)
  moreover have "rt_current_thread s' = rt_current_thread s" if "L (HDqPop i) = []"
    using s'(1) that unfolding ev e by (auto simp: upd_dq_def)
  ultimately show ?thesis
    using s'(2,4) dq_store_ring [OF ok l] by (intro exI [of _ s'] exI [of _ T']) (simp add: dq_store_def)
qed

text \<open>
  Once the put index has wrapped and the get index has not, a full queue is not recognised: the push
  succeeds and overwrites the oldest item.
\<close>

lemma rt_data_queue_push_overruns:
  assumes ok: "dq_ok (dqueues s i)" and full: "dq_len (dqueues s i) = dq_cap (dqueues s i)"
    and wrap: "put_index (dqueues s i) < get_index (dqueues s i)"
    and idle: "rt_list_isempty (LHead (HDqPop i)) (tlinks s)" "\<not> evt_notify (dqueues s i)"
  shows "\<exists>s'. rt_data_queue_push notify i x time s = Some (Ret RT_EOK, s')
     \<and> dq_len (dqueues s' i) = dq_cap (dqueues s' i) + 1 \<and> fst (dq_fetch (dqueues s' i)) = x"
proof -
  let ?q = "dqueues s i" and ?s' = "upd_dq i (dq_store x) s"
  obtain k where k: "unat (dq_size ?q) = 2 ^ k" "k \<le> 15" using ok by (auto simp: dq_ok_def)
  have c: "dq_cap ?q \<le> 32768" using power_increasing [OF k(2), of "2::nat"] k(1) by (simp add: dq_cap_def)
  have "uint (put_index ?q) < uint (get_index ?q)" using wrap by (simp add: word_less_def)
  moreover have "0 \<le> uint (dq_size ?q)" by simp
  ultimately have "dq_fill ?q \<noteq> uint (dq_size ?q)" unfolding dq_fill_def by linarith
  then have run: "rt_data_queue_push notify i x time s = Some (Ret RT_EOK, ?s')"
    using idle by (simp add: rt_data_queue_push_def Let_def dq_tell_def upd_dq_def dq_store_def)
  have p: "put_index ?q = get_index ?q + of_nat (dq_len ?q)" by (simp add: dq_len_def)
  have "dq_slot ?q (put_index ?q) = (dq_slot ?q (get_index ?q) + dq_len ?q) mod dq_cap ?q"
    using dq_slot_step(1) [OF k, of "get_index ?q" "dq_len ?q"] p by simp
  also have "\<dots> = dq_slot ?q (get_index ?q)" using full dq_slot_step(2) [OF k, of "get_index ?q"] by simp
  finally have slot: "dq_slot ?q (put_index ?q) = dq_slot ?q (get_index ?q)" .
  have e: "put_index ?q + 1 - get_index ?q = (put_index ?q - get_index ?q) + 1" by simp
  have "unat (y + 1) = Suc (unat y)" if "unat y + 1 < 65536" for y :: u16 using that by (simp add: unat_word_ariths)
  moreover have "unat (put_index ?q - get_index ?q) + 1 < 65536" using full c by (simp add: dq_len_def)
  ultimately have "unat (put_index ?q + 1 - get_index ?q) = Suc (dq_len ?q)" unfolding e dq_len_def by blast
  then have "dq_len (dq_store x ?q) = dq_cap (dq_store x ?q) + 1" using full by (simp add: dq_len_def dq_store_def dq_cap_def)
  moreover have "fst (dq_fetch (dq_store x ?q)) = x" using slot by (simp add: dq_fetch_def dq_store_def dq_slot_def)
  ultimately show ?thesis using run by (intro exI [of _ ?s']) (simp add: upd_dq_def)
qed

lemma rt_data_queue_pop_item:
  assumes K: "ipc_inv s L T" and ok: "dq_ok (dqueues s i)" and x: "dq_content (dqueues s i) = x # xs"
    and c: "rt_current_thread s \<noteq> None" and quiet: "\<not> evt_notify (dqueues s i)"
  shows "\<exists>s' L' T'. rt_data_queue_pop notify i time s = Some (Ret (RT_EOK, Some x), s') \<and> ipc_inv s' L' T'
     \<and> dq_ok (dqueues s' i) \<and> dq_content (dqueues s' i) = xs
     \<and> (if waiting_lwm (dqueues s i) \<and> dq_fill (snd (dq_fetch (dqueues s i))) \<le> uint (lwm (dqueues s i))
        then \<not> waiting_lwm (dqueues s' i) \<and> L' = handed (HDqPush i) s L
          \<and> (\<forall>t ts. L (HDqPush i) = t # ts \<longrightarrow> stat (threads s' t) = RT_THREAD_READY)
        else L' = L \<and> threads s' = threads s)"
proof -
  let ?q = "dqueues s i"
  have p: "0 < dq_len ?q" using x dqr.len_content [OF ok] by simp
  note R = dq_fetch_ring [OF ok p]
  obtain q1 where f: "dq_fetch ?q = (x, q1)" "dq_content q1 = xs" "dq_ok q1" using R(1,2) x by (cases "dq_fetch ?q") simp
  have q1: "waiting_lwm q1 = waiting_lwm ?q" "lwm q1 = lwm ?q" "evt_notify q1 = evt_notify ?q" using f(1) by (auto simp: dq_fetch_def)
  have ne: "get_index ?q \<noteq> put_index ?q" using p by (auto simp: dq_len_def)
  let ?s1 = "upd_dq i (\<lambda>_. q1) s"
  show ?thesis
  proof (cases "waiting_lwm ?q \<and> dq_fill q1 \<le> uint (lwm ?q)")
    case False
    then have "rt_data_queue_pop notify i time s = Some (Ret (RT_EOK, Some x), ?s1)"
      using ne f(1) quiet q1 by (auto simp: rt_data_queue_pop_def Let_def dq_tell_def upd_dq_def)
    then show ?thesis
      using K f False by (intro exI [of _ ?s1] exI [of _ L] exI [of _ T]) (simp, simp add: upd_dq_def, blast)
  next
    case True
    let ?s2 = "upd_dq i (\<lambda>q. q\<lparr>waiting_lwm := False\<rparr>) ?s1"
    have wh: "wait_head (HDqPush i)" by simp
    have K2: "ipc_inv ?s2 L T" "rt_current_thread ?s2 \<noteq> None" using K c by (simp, simp add: upd_dq_def)
    have h: "handed (HDqPush i) ?s2 L = handed (HDqPush i) s L" by (rule handed_cong) (simp add: upd_dq_def)
    from wake_one [OF K2(1) wh K2(2), of RT_EOK] obtain s' T' where
      s': "(if \<not> rt_list_isempty (LHead (HDqPush i)) (tlinks ?s2)
        then do { s2 \<leftarrow> rt_ipc_list_resume (HDqPush i) ?s2; s3 \<leftarrow> rt_schedule s2; Some (RT_EOK, s3) }
        else Some (RT_EOK, ?s2)) = Some (RT_EOK, s')"
      "ipc_inv s' (handed (HDqPush i) s L) T'" "thread_frame ?s2 s'"
      "\<forall>t ts. L (HDqPush i) = t # ts \<longrightarrow> stat (threads s' t) = RT_THREAD_READY" unfolding h by blast
    have d: "dqueues s' i = q1\<lparr>waiting_lwm := False\<rparr>" using thread_frameD(15) [OF s'(3)] by (simp add: upd_dq_def)
    have "(if \<not> rt_list_isempty (LHead (HDqPush i)) (tlinks ?s2) then dq_resume (HDqPush i) ?s2 else Some ?s2) = Some s'"
      using s'(1) unfolding dq_resume_eq by (auto simp: bind_Some_iff split: if_splits)
    moreover have "dq_tell notify i RT_DATAQUEUE_EVENT_LWM s' = Some s'" using quiet q1 by (simp add: dq_tell_def d)
    ultimately have "rt_data_queue_pop notify i time s = Some (Ret (RT_EOK, Some x), s')"
      using ne f(1) True q1 by (simp add: rt_data_queue_pop_def Let_def)
    moreover have "dq_ok (dqueues s' i)" "dq_content (dqueues s' i) = xs"
      using f(2,3) by (simp_all add: d dq_ok_def dq_content_def dq_cap_def dq_len_def dq_slot_def)
    ultimately show ?thesis using s'(2,4) True d f(1) by (intro exI [of _ s'] exI) auto
  qed
qed

section \<open>Waiting for a completion\<close>

lemma rt_completion_wait_blocks:
  assumes K: "ipc_inv s L T" and st: "stat (threads s t) = RT_THREAD_READY" and c: "rt_current_thread s = Some t"
    and irq: "rt_interrupt_nest s = 0" and e: "L (HCompletion i) = []" and u: "cflag (completions s i) \<noteq> RT_COMPLETED"
    and time: "time \<noteq> 0" "time < 0x7fffffff" and other: "unlink t L (HPrio q) \<noteq> []"
  shows "\<exists>s' T'. rt_completion_wait i time s = Some (Block t, s') \<and> ipc_inv s' ((unlink t L)(HCompletion i := [t])) T'
     \<and> completions s' = completions s \<and> stat (threads s' t) = RT_THREAD_SUSPEND \<and> error (threads s' t) = RT_EOK
     \<and> (rt_scheduler_lock_nest s = 0 \<longrightarrow> chosen ((unlink t L)(HCompletion i := [t])) s')"
proof -
  let ?e = "\<lambda>th. th\<lparr>error := RT_EOK\<rparr>" and ?L = "(unlink t L)(HCompletion i := [t])"
  have wh: "wait_head (HCompletion i)" by simp
  from back_switch [OF K st c wh time(2) other] obtain s2 s3 s' T' where
    s: "suspend_back (HCompletion i) t (upd_thread t ?e s) = Some s2" "arm_timer t time s2 = Some s3" "rt_schedule s3 = Some s'"
    "ipc_inv s' ?L T'" "thread_frame s s'" "rt_interrupt_nest s2 = rt_interrupt_nest s"
    "threads s' = (threads s)(t := (threads s t)\<lparr>error := RT_EOK, stat := RT_THREAD_SUSPEND\<rparr>)"
    "rt_scheduler_lock_nest s = 0 \<longrightarrow> chosen ?L s'"
    unfolding e append.simps by blast
  have "rt_completion_wait i time s = Some (Block t, s')"
    using u time(1) c irq s e
    by (simp add: rt_completion_wait_def RT_DEBUG_NOT_IN_INTERRUPT_def rt_interrupt_get_nest_def rt_thread_self_def Let_def list_empty_at [OF K])
  then show ?thesis using s(4,7,8) thread_frameD(14) [OF s(5)] by (intro exI [of _ s'] exI [of _ T']) simp
qed

lemma rt_completion_done_wakes:
  assumes K: "ipc_inv s L T" and w: "L (HCompletion i) = [t]" and c: "rt_current_thread s \<noteq> None"
    and u: "cflag (completions s i) \<noteq> RT_COMPLETED" and ok: "error (threads s t) = RT_EOK"
  shows "\<exists>s'. rt_completion_done i s = Some s' \<and> ipc_inv s' (make_ready t (unat (current_priority (threads s t))) L) (remove1 (Thread_timer t) T)
     \<and> cflag (completions s' i) = RT_COMPLETED \<and> stat (threads s' t) = RT_THREAD_READY
     \<and> (\<exists>s''. rt_completion_wait_resumed i t s' = (RT_EOK, s'') \<and> cflag (completions s'' i) = RT_UNCOMPLETED)"
proof -
  let ?s1 = "upd_completion i (\<lambda>c. c\<lparr>cflag := RT_COMPLETED\<rparr>) s"
  have wh: "wait_head (HCompletion i)" by simp
  have K1: "ipc_inv ?s1 L T" "rt_current_thread ?s1 \<noteq> None" using K c by (simp, simp add: upd_completion_def)
  have cp: "threads ?s1 = threads s" by (simp add: upd_completion_def)
  from ipc_resume_switch [OF K1(1) wh w K1(2)] obtain s1 s' where
    s: "rt_ipc_list_resume (HCompletion i) ?s1 = Some s1" "rt_schedule s1 = Some s'"
    "ipc_inv s' (make_ready t (unat (current_priority (threads s t))) L) (remove1 (Thread_timer t) T)" "thread_frame ?s1 s'"
    "threads s' = (threads s)(t := (threads s t)\<lparr>stat := RT_THREAD_READY\<rparr>)"
    unfolding cp by blast
  have e: "\<not> rt_list_isempty (LHead (HCompletion i)) (tlinks ?s1)" using w by (simp add: list_empty_at [OF K1(1)])
  have "rt_completion_done i s = dq_resume (HCompletion i) ?s1"
    using u e by (simp add: rt_completion_done_def dq_resume_def Let_def)
  then have "rt_completion_done i s = Some s'" using s(1,2) by (simp add: dq_resume_eq)
  moreover have "completions s' = completions ?s1" by (rule thread_frameD(14) [OF s(4)])
  ultimately show ?thesis
    using s(3,5) ok by (intro exI [of _ s']) (simp add: rt_completion_wait_resumed_def upd_completion_def)
qed

text \<open>A completion that is done already does not block, and stays done.\<close>

lemma rt_completion_wait_done:
  "cflag (completions s i) = RT_COMPLETED \<Longrightarrow> rt_completion_wait i time s = Some (Ret RT_EOK, s)"
  by (simp add: rt_completion_wait_def)

end
