(* ===== verification/RT_Demo.thy ===== *)
theory RT_Demo
  imports RT_Mutex RT_Mq RT_DataQueue
begin

text \<open>
  A small concrete system: the idle thread 0, two threads 1 and 2 of priority 10 and a thread 3 of
  priority 20, started one after the other from an empty kernel, with thread 1 running. The
  witnesses of the properties apply them to this system and to states reached from it.
\<close>

definition new_thread :: "u8 \<Rightarrow> rt_thread" where
  "new_thread prio = \<lparr>sp = 0x20000100, entry = 0x08000001, param = 0, stack_addr = 0x20000000, stack_size = 0x200,
     error = RT_EOK, stat = RT_THREAD_INIT, current_priority = prio, init_priority = prio, number_mask = 0,
     event_set = 0, event_info = 0, init_tick = 5, remaining_tick = 5, cleanup = None, user_data = 0\<rparr>"

definition demo_prio :: "nat \<Rightarrow> u8" where
  "demo_prio t = (if t = 0 then 31 else if t = 3 then 20 else 10)"

definition timer_of :: "timer_id \<Rightarrow> rt_timer" where
  "timer_of x = \<lparr>timeout_func = (case x of Thread_timer t \<Rightarrow> Rt_thread_timeout t | User_timer n \<Rightarrow> User_timeout n),
     tmr_init_tick = 0, timeout_tick = 0\<rparr>"

definition demo_heap :: heap where
  "demo_heap = rt_system_heap_init 0x20001000 0x20002000
     \<lparr>heap_ptr = 0, hdr = (\<lambda>_. \<lparr>magic = 0, used = 0, hnext = 0, hprev = 0\<rparr>), heap_end = 0, lfree = 0,
      mem_size_aligned = 0, used_mem = 0, max_mem = 0\<rparr>"

definition demo0 :: kernel where
  "demo0 = \<lparr>tlinks = links_empty, tmlinks = links_empty, olinks = links_empty,
     objs = (\<lambda>_. \<lparr>oname = replicate 8 0, otype = 0, oflag = 0\<rparr>),
     threads = (\<lambda>t. new_thread (demo_prio t)), timers = timer_of,
     sems = (\<lambda>i. \<lparr>sem_value = of_nat i\<rparr>),
     mutexes = (\<lambda>_. \<lparr>mutex_value = 1, original_priority = 0xff, hold = 0, owner = None\<rparr>),
     events = (\<lambda>_. \<lparr>event_bits = 0\<rparr>),
     mailboxes = (\<lambda>_. \<lparr>msg_pool = 0x20003000, mb_size = 4, mb_entry = 0, in_offset = 0, out_offset = 0\<rparr>),
     mqs = (\<lambda>_. \<lparr>mq_pool = 0x20004000, msg_size = 8, max_msgs = 2, mq_entry = 0, msg_queue_head = None, msg_queue_tail = None,
        msg_queue_free = Some 1, msg_next = (\<lambda>m. if m = 1 then Some 0 else None)\<rparr>),
     mps = (\<lambda>i. \<lparr>start_address = 0x20005000, mp_size = 24, block_size = 8, block_list = Some 0x20005000, block_total_count = 2,
        block_free_count = 2, suspend_thread_count = 0\<rparr>),
     mp_words = (\<lambda>_. BNext None)(0x20005000 := BNext (Some 0x2000500c)),
     completions = (\<lambda>_. \<lparr>cflag = 0\<rparr>),
     dqueues = (\<lambda>_. \<lparr>dq_size = 4, lwm = 2, waiting_lwm = False, get_index = 0, put_index = 0, dq_queue = Some 0x20006000,
        dq_items = (\<lambda>_. \<lparr>data_ptr = 0, data_size = 0\<rparr>), evt_notify = False\<rparr>),
     devices = (\<lambda>_. \<lparr>dtype = RT_Device_Class_Pipe, dflag = 3, open_flag = 0, ref_count = 0, rx_indicate = None, tx_complete = None,
        dinit = False, dopen = False, dclose = False, dread = True, dwrite = True, dcontrol = True\<rparr>),
     pipes = (\<lambda>_. \<lparr>ringbuffer = \<lparr>buffer_ptr = 0x20007000, read_mirror = False, read_index = 0, write_mirror = False,
        write_index = 0, buffer_size = 8\<rparr>, pflag = 3,
        write_portal = None, read_portal = None\<rparr>),
     portals = (\<lambda>_. \<lparr>write_dev = 0, read_dev = 1\<rparr>),
     rt_scheduler_lock_nest = 0, rt_current_thread = None, rt_current_priority = 31,
     rt_thread_ready_priority_group = 0, rt_interrupt_nest = 0, rt_tick = 0, random_nr = 0, errno = 0,
     object_size = (\<lambda>_. 128), kheap = demo_heap, ram = (\<lambda>_. 0)\<rparr>"

definition boot :: "nat \<Rightarrow> kernel \<Rightarrow> kernel" where
  "boot t s = snd (the (rt_thread_startup t s))"

definition demo :: kernel where
  "demo = the (rt_system_scheduler_start (boot 3 (boot 2 (boot 1 (boot 0 demo0)))))"

definition demoL :: "thead \<Rightarrow> nat list" where
  "demoL = (\<lambda>_. [])(HPrio 31 := [0], HPrio 10 := [1, 2], HPrio 20 := [3])"

lemma demo0_inv: "ipc_inv demo0 (\<lambda>_. []) []"
proof -
  have "sched_inv demo0 (\<lambda>_. [])"
    using lists_rep_empty by (simp add: sched_inv_def ready_ok_def demo0_def new_thread_def)
  moreover have "tmr_inv demo0 []" using lists_rep_empty by (simp add: tmr_inv_def demo0_def)
  ultimately show ?thesis by (simp add: ipc_inv_def kernel_inv_def demo0_def new_thread_def)
qed

text \<open>What a started thread adds; the fields that starting a thread does not touch are those of \<open>demo0\<close>.\<close>

definition booted :: "nat set \<Rightarrow> kernel \<Rightarrow> bool" where
  "booted A s \<longleftrightarrow> rt_current_thread s = None \<and> thread_frame demo0 s \<and> timers s = timer_of
     \<and> oneshot s = oneshot demo0 \<and> (\<forall>u. u \<notin> A \<longrightarrow> threads s u = new_thread (demo_prio u))"

lemma boot_step:
  assumes K: "kernel_inv s L []" and B: "booted A s" and t: "t \<notin> A"
  shows "kernel_inv (boot t s) (make_ready t (unat (demo_prio t)) L) []" "booted (insert t A) (boot t s)"
proof -
  have st: "stat (threads s t) = RT_THREAD_INIT" "init_priority (threads s t) = demo_prio t" "started_ok s t"
    using B t by (auto simp: booted_def new_thread_def started_ok_def stack_ok_def timer_of_def oneshot_def demo0_def)
  have p: "unat (init_priority (threads s t)) < RT_THREAD_PRIORITY_MAX"
    by (simp add: st(2) demo_prio_def RT_THREAD_PRIORITY_MAX_def)
  from rt_thread_startup_spec [OF K st(1) p st(3)] obtain s' where
    s': "rt_thread_startup t s = Some (RT_EOK, s')" "kernel_inv s' (make_ready t (unat (demo_prio t)) L) []"
    "thread_frame s s'" "\<forall>u. u \<noteq> t \<longrightarrow> threads s' u = threads s u" "timers s' = timers s" "oneshot s' = oneshot s"
    "rt_current_thread s' = None"
    using B unfolding st(2) booted_def by auto
  have b: "boot t s = s'" by (simp add: boot_def s'(1))
  show "kernel_inv (boot t s) (make_ready t (unat (demo_prio t)) L) []" using s'(2) b by simp
  show "booted (insert t A) (boot t s)" unfolding b booted_def
    using s' B thread_frame_trans [of demo0 s s'] by (simp add: booted_def)
qed

lemma demo_boot: "kernel_inv (boot 3 (boot 2 (boot 1 (boot 0 demo0)))) demoL []"
  "booted {0, 1, 2, 3} (boot 3 (boot 2 (boot 1 (boot 0 demo0))))"
proof -
  have B: "booted {} demo0" by (simp add: booted_def demo0_def)
  note 0 = boot_step [OF ipc_invD(1) [OF demo0_inv] B, of 0, simplified]
  note 1 = boot_step [OF 0, of 1, simplified]
  note 2 = boot_step [OF 1, of 2, simplified]
  note 3 = boot_step [OF 2, of 3, simplified]
  show "booted {0, 1, 2, 3} (boot 3 (boot 2 (boot 1 (boot 0 demo0))))"
    using 3(2) by (simp add: insert_commute)
  have "make_ready 3 (unat (demo_prio 3)) (make_ready 2 (unat (demo_prio 2)) (make_ready 1 (unat (demo_prio 1))
     (make_ready 0 (unat (demo_prio 0)) (\<lambda>_. [])))) = demoL"
    by (auto simp: make_ready_def unlink_def demo_prio_def demoL_def fun_eq_iff)
  with 3(1) show "kernel_inv (boot 3 (boot 2 (boot 1 (boot 0 demo0)))) demoL []" by (simp add: demo_prio_def)
qed

lemma demo_highest: "highest demoL p = (p = 10)"
proof -
  have "highest demoL 10" by (auto simp: highest_def demoL_def RT_THREAD_PRIORITY_MAX_def)
  then show ?thesis using highest_unique by blast
qed

lemma demo_eq: "demo = (boot 3 (boot 2 (boot 1 (boot 0 demo0))))\<lparr>rt_current_thread := Some 1\<rparr>"
proof -
  let ?s = "boot 3 (boot 2 (boot 1 (boot 0 demo0)))"
  have ne: "demoL (HPrio 10) \<noteq> []" by (simp add: demoL_def)
  obtain p where p: "highest demoL p" "highest_ready_thread ?s = Some (p, hd (demoL (HPrio p)))"
    by (rule highest_ready_thread_eq [OF kernel_invD(3) [OF demo_boot(1)] ne])
  have "p = 10" using p(1) demo_highest by blast
  then have "hd (demoL (HPrio p)) = 1" by (simp add: demoL_def)
  with p(2) show ?thesis by (simp only: demo_def rt_system_scheduler_start_def) simp
qed

lemma demo_state:
  "kernel_inv demo demoL []" "rt_current_thread demo = Some 1" "thread_frame demo0 demo" "timers demo = timer_of"
proof -
  let ?s = "boot 3 (boot 2 (boot 1 (boot 0 demo0)))"
  show "rt_current_thread demo = Some 1" by (simp add: demo_eq)
  show "kernel_inv demo demoL []" using demo_boot(1) kernel_inv_cong [of demo ?s demoL "[]"] by (simp add: demo_eq)
  show "thread_frame demo0 demo" "timers demo = timer_of"
    using demo_boot(2) by (simp_all add: booted_def demo_eq thread_frame_def)
qed

lemma demo_unsuspended: "stat (threads demo t) \<noteq> RT_THREAD_SUSPEND"
proof (cases "t \<in> {0, 1, 2, 3}")
  case True
  then have "t \<in> set (demoL (HPrio 31)) \<or> t \<in> set (demoL (HPrio 10)) \<or> t \<in> set (demoL (HPrio 20))" by (auto simp: demoL_def)
  then have "stat (threads demo t) = RT_THREAD_READY" using sched_invD(3) [OF kernel_invD(1) [OF demo_state(1)]] by blast
  then show ?thesis by simp
next
  case False
  then have "threads demo t = new_thread (demo_prio t)" using demo_boot(2) by (simp add: booted_def demo_eq)
  then show ?thesis by (simp add: new_thread_def)
qed

lemma demo_fields:
  "rt_scheduler_lock_nest demo = 0" "rt_interrupt_nest demo = 0" "sems demo i = \<lparr>sem_value = of_nat i\<rparr>"
  "oflag (objs demo (OSem i)) = 0" "rt_tick demo = 0" "mutexes demo = mutexes demo0" "events demo = events demo0"
  "mailboxes demo = mailboxes demo0" "mqs demo = mqs demo0" "kheap demo = demo_heap"
  "oflag (objs demo (OMutex i)) = 0" "oflag (objs demo (OEvent i)) = 0" "oflag (objs demo (OMailBox i)) = 0" "oflag (objs demo (OMq i)) = 0"
  "mps demo = mps demo0" "dqueues demo = dqueues demo0" "completions demo = completions demo0" "ram demo = ram demo0"
  "mp_words demo = mp_words demo0"
  using thread_frameD [OF demo_state(3)] by (simp_all add: demo0_def)

lemma demo_ipc: "ipc_inv demo demoL []"
  using demo_state(1) by (auto simp: ipc_inv_def demoL_def)

text \<open>Thread 1 waiting on some list: thread 2 is then the most urgent one.\<close>

lemma demo_parked:
  assumes "wait_head h"
  shows "parked h f th 1 demoL h = [1]" "parked h f th 1 demoL (HPrio 10) = [2]" "chosen (parked h f th 1 demoL) s \<Longrightarrow> rt_current_thread s = Some 2"
    "unlink 1 demoL (HPrio 31) \<noteq> []" "parked h f th 1 demoL (HPrio 31) = [0]"
proof -
  have e: "demoL h = []" using assms by (cases h) (simp_all add: demoL_def)
  show "parked h f th 1 demoL h = [1]" by (simp add: parked_def enqueue_def e)
  show t: "parked h f th 1 demoL (HPrio 10) = [2]" "parked h f th 1 demoL (HPrio 31) = [0]" "unlink 1 demoL (HPrio 31) \<noteq> []"
    using assms by (simp_all add: parked_def unlink_def demoL_def)
  have "parked h f th 1 demoL (HPrio q) = []" if "q < 10" for q using that assms by (simp add: parked_def unlink_def demoL_def)
  then have "highest (parked h f th 1 demoL) 10" using t by (simp add: highest_def RT_THREAD_PRIORITY_MAX_def)
  then have "highest (parked h f th 1 demoL) p \<Longrightarrow> p = 10" for p using highest_unique by blast
  then show "chosen (parked h f th 1 demoL) s \<Longrightarrow> rt_current_thread s = Some 2" using t(1) by (auto simp: chosen_def)
qed

lemma demo_members:
  "0 \<in> set (demoL (HPrio 31))" "1 \<in> set (demoL (HPrio 10))" "2 \<in> set (demoL (HPrio 10))" "3 \<in> set (demoL (HPrio 20))"
  by (simp_all add: demoL_def)

lemma demo_ready:
  "stat (threads demo 0) = RT_THREAD_READY" "stat (threads demo 1) = RT_THREAD_READY"
  "stat (threads demo 2) = RT_THREAD_READY" "stat (threads demo 3) = RT_THREAD_READY"
  "unat (current_priority (threads demo 1)) = 10" "unat (current_priority (threads demo 2)) = 10"
  "unat (current_priority (threads demo 3)) = 20" "unat (current_priority (threads demo 0)) = 31"
proof -
  have "stat (threads demo t) = RT_THREAD_READY" if "t \<in> set (demoL (HPrio p))" for t p
    using sched_invD(3) [OF kernel_invD(1) [OF demo_state(1)], of t] that by blast
  then show "stat (threads demo 0) = RT_THREAD_READY" "stat (threads demo 1) = RT_THREAD_READY"
    "stat (threads demo 2) = RT_THREAD_READY" "stat (threads demo 3) = RT_THREAD_READY"
    using demo_members by blast+
  note R = ready_okD(5) [OF kernel_invD(3) [OF demo_state(1)]]
  show "unat (current_priority (threads demo 1)) = 10" "unat (current_priority (threads demo 2)) = 10"
    "unat (current_priority (threads demo 3)) = 20" "unat (current_priority (threads demo 0)) = 31"
    by (rule R, rule demo_members)+
qed

end
