(* ===== verification/RT_KernelProps.thy ===== *)
theory RT_KernelProps
  imports RT_Demo
begin

text \<open>
  The properties of the scheduling core: which thread runs, what a tick does, and how the thread
  operations move threads between the lists. Each property is followed by a witness that applies
  it to the example system.
\<close>

section \<open>Scheduling\<close>

text \<open>C1 Whenever a thread is running, the scheduler is unlocked and some thread is ready,
  \<open>rt_schedule\<close> returns, keeps the kernel invariant, and leaves the first thread of the most urgent
  non-empty ready list running.\<close>

theorem schedule_runs_most_urgent:
  assumes "kernel_inv s L T" "L (HPrio q) \<noteq> []" "rt_current_thread s \<noteq> None" "rt_scheduler_lock_nest s = 0"
  shows "\<exists>s' p. rt_schedule s = Some s' \<and> kernel_inv s' L T
     \<and> p \<le> q \<and> L (HPrio p) \<noteq> [] \<and> (\<forall>r < p. L (HPrio r) = [])
     \<and> rt_current_thread s' = Some (hd (L (HPrio p))) \<and> threads s' = threads s"
proof -
  obtain s' p where s': "rt_schedule s = Some s'" "kernel_inv s' L T" "threads s' = threads s" "highest L p"
    "rt_current_thread s' = Some (hd (L (HPrio p)))"
    using rt_schedule_total [OF assms(1-3)] assms(4) by blast
  have "p \<le> q" using s'(4) assms(2) by (metis highest_def not_le)
  then show ?thesis using s' by (auto simp: highest_def)
qed

theorem schedule_runs_most_urgent_witness:
  "\<exists>s' p. rt_schedule demo = Some s' \<and> kernel_inv s' demoL [] \<and> p \<le> 31 \<and> demoL (HPrio p) \<noteq> []
     \<and> (\<forall>r < p. demoL (HPrio r) = []) \<and> rt_current_thread s' = Some (hd (demoL (HPrio p)))
     \<and> threads s' = threads demo"
  by (rule schedule_runs_most_urgent [OF demo_state(1)]) (simp_all add: demo_state(2) demo_fields demoL_def)

text \<open>C3 One call of \<open>rt_tick_increase\<close> in a running system: it returns, the tick advances, the running
  thread's time slice is charged and renewed with a yield when it is used up, exactly the threads
  whose timers are due become ready with the timeout error, in timer order, every other pending
  timer comes one tick nearer, and the kernel invariant holds again.\<close>

theorem tick_wakes_due_threads:
  assumes "kernel_inv s L (map Thread_timer us @ T)"
    and "rt_current_thread s = Some c" "stat (threads s c) = RT_THREAD_READY"
    and "\<And>u. u \<in> set us \<Longrightarrow> tdist s (Thread_timer u) = 1"
    and "\<And>x. x \<in> set T \<Longrightarrow> 1 < tdist s x"
  shows "\<exists>s'. rt_tick_increase cb s = Some s' \<and> kernel_inv s' (fold (wake s) us (sliced s c L)) T
     \<and> rt_tick s' = rt_tick s + 1
     \<and> (\<forall>u \<in> set us. stat (threads s' u) = RT_THREAD_READY \<and> error (threads s' u) = - RT_ETIMEOUT)
     \<and> (\<forall>u. u \<notin> set us \<and> u \<noteq> c \<longrightarrow> threads s' u = threads s u)
     \<and> remaining_tick (threads s' c) = slice_left (threads s c)
     \<and> (\<forall>x \<in> set T. tdist s' x = tdist s x - 1)"
  by (rule rt_tick_increase_spec [OF assms])

text \<open>Thread 1 of the example sleeps for one tick.\<close>

definition demo_sleep :: kernel where
  "demo_sleep = the (rt_thread_sleep 1 demo)"

lemma demo_sleep_state:
  "rt_thread_sleep 1 demo = Some demo_sleep"
  "kernel_inv demo_sleep (unlink 1 demoL) [Thread_timer 1]" "tdist demo_sleep (Thread_timer 1) = 1"
  "rt_current_thread demo_sleep = Some 2" "stat (threads demo_sleep 2) = RT_THREAD_READY"
  "rt_scheduler_lock_nest demo_sleep = 0" "stat (threads demo_sleep 1) = RT_THREAD_SUSPEND"
proof -
  have o: "unlink 1 demoL (HPrio 31) \<noteq> []" and h: "(1 :: u32) < RT_TICK_MAX div 2"
    by (simp_all add: unlink_def demoL_def RT_TICK_MAX_def)
  obtain s' where s': "rt_thread_sleep 1 demo = Some s'"
    "kernel_inv s' (unlink 1 demoL) (insert_timer (tdist s') (Thread_timer 1) [])"
    "tdist s' (Thread_timer 1) = unat (1 :: u32)" "thread_frame demo s'"
    "threads s' = (threads demo)(1 := (threads demo 1)\<lparr>stat := RT_THREAD_SUSPEND\<rparr>)"
    "rt_scheduler_lock_nest demo = 0 \<longrightarrow> (\<exists>p. highest (unlink 1 demoL) p
          \<and> rt_current_thread s' = Some (hd (unlink 1 demoL (HPrio p))))"
    using rt_thread_sleep_spec [OF demo_state(1,2) demo_ready(2) h o] by blast
  have e: "demo_sleep = s'" by (simp add: demo_sleep_def s'(1))
  have "highest (unlink 1 demoL) 10" by (simp add: highest_def unlink_def demoL_def RT_THREAD_PRIORITY_MAX_def)
  then have "highest (unlink 1 demoL) p \<Longrightarrow> p = 10" for p using highest_unique by blast
  then have "rt_current_thread s' = Some (hd (unlink 1 demoL (HPrio 10)))" using s'(6) demo_fields(1) by auto
  then show "rt_current_thread demo_sleep = Some 2" by (simp add: e unlink_def demoL_def)
  show "rt_thread_sleep 1 demo = Some demo_sleep" "kernel_inv demo_sleep (unlink 1 demoL) [Thread_timer 1]"
    "tdist demo_sleep (Thread_timer 1) = 1" "stat (threads demo_sleep 2) = RT_THREAD_READY"
    "rt_scheduler_lock_nest demo_sleep = 0" "stat (threads demo_sleep 1) = RT_THREAD_SUSPEND"
    using s' demo_ready(3) thread_frameD(7) [OF s'(4)] demo_fields(1) by (simp_all add: e)
qed

theorem tick_wakes_due_threads_witness:
  "\<exists>s'. rt_tick_increase (\<lambda>_ _. None) demo_sleep = Some s' \<and> rt_tick s' = rt_tick demo_sleep + 1
     \<and> stat (threads s' 1) = RT_THREAD_READY \<and> error (threads s' 1) = - RT_ETIMEOUT"
  using tick_wakes_due_threads [of demo_sleep "unlink 1 demoL" "[1]" "[]" 2 "\<lambda>_ _. None"] demo_sleep_state
  by auto

text \<open>C21 \<open>rt_thread_yield\<close> by a running ready thread: alone in its ready list it keeps running and nothing
  changes; otherwise it goes to the end of the list, its peers keep their order, and with the
  scheduler unlocked the first thread of the most urgent list runs.\<close>

theorem yield_is_round_robin:
  assumes "kernel_inv s L T" "rt_current_thread s = Some t" "stat (threads s t) = RT_THREAD_READY"
    and "rt_scheduler_lock_nest s = 0"
  defines "h \<equiv> HPrio (unat (current_priority (threads s t)))"
  shows "\<exists>s'. rt_thread_yield s = Some (RT_EOK, s')
     \<and> kernel_inv s' (L(h := remove1 t (L h) @ [t])) T \<and> threads s' = threads s
     \<and> (L h = [t] \<longrightarrow> s' = s)
     \<and> (L h = t # ts \<and> ts \<noteq> [] \<and> (\<forall>r < unat (current_priority (threads s t)). L (HPrio r) = [])
          \<longrightarrow> rt_current_thread s' = Some (hd ts))"
proof -
  obtain s' where s': "rt_thread_yield s = Some (RT_EOK, s')" "kernel_inv s' (rotated t h L) T" "threads s' = threads s"
    "L h = [t] \<longrightarrow> s' = s"
    "L h \<noteq> [t] \<and> rt_scheduler_lock_nest s = 0 \<longrightarrow>
       (\<exists>p. highest (rotated t h L) p \<and> rt_current_thread s' = Some (hd (rotated t h L (HPrio p))))"
    using rt_thread_yield_spec [OF assms(1-3)] unfolding h_def by blast
  have "rt_current_thread s' = Some (hd ts)"
    if ts: "L h = t # ts" "ts \<noteq> []" "\<forall>r < unat (current_priority (threads s t)). L (HPrio r) = []"
  proof -
    let ?p = "unat (current_priority (threads s t))"
    have "prio_ok (threads s t)" by (rule sched_inv_ready_prio(1) [OF kernel_invD(1) [OF assms(1)] assms(3)])
    then have "highest (rotated t h L) ?p"
      using ts(3) by (auto simp: highest_def rotated_def h_def prio_ok_def)
    moreover obtain p where "highest (rotated t h L) p" "rt_current_thread s' = Some (hd (rotated t h L (HPrio p)))"
      using s'(5) ts(1,2) assms(4) by auto
    ultimately have "rt_current_thread s' = Some (hd (rotated t h L h))"
      using highest_unique by (metis h_def)
    then show ?thesis using ts(1,2) by (simp add: rotated_def)
  qed
  then show ?thesis using s'(1-4) unfolding rotated_def by blast
qed

theorem yield_is_round_robin_witness:
  "\<exists>s'. rt_thread_yield demo = Some (RT_EOK, s') \<and> rt_current_thread s' = Some 2 \<and> threads s' = threads demo"
proof -
  have h: "demoL (HPrio (unat (current_priority (threads demo 1)))) = 1 # [2]"
    "\<forall>r < unat (current_priority (threads demo 1)). demoL (HPrio r) = []"
    unfolding demo_ready by (auto simp: demoL_def)
  show ?thesis
    using yield_is_round_robin [OF demo_state(1,2) demo_ready(2) demo_fields(1), of "[2]"] h by auto
qed

section \<open>Life of a thread\<close>

text \<open>C18 A thread that is initialised and started while less urgent threads run: both calls return, the
  kernel invariant holds, the new thread runs at once, and the stack frame its first switch restores
  holds its entry, its parameter and the exit function as return address.\<close>

theorem new_thread_preempts:
  assumes "kernel_inv s L T" "\<forall>h. t \<notin> set (L h)" "Thread_timer t \<notin> set T"
    and "readable RT_NAME_MAX name" "unat prio < RT_THREAD_PRIORITY_MAX"
    and "stack_start \<noteq> 0" "unat stack_start + unat (ucast size' :: u16) < 2 ^ 32" "76 \<le> unat (ucast size' :: u16)"
    and "rt_current_thread s \<noteq> None" "rt_scheduler_lock_nest s = 0" "\<forall>r \<le> unat prio. L (HPrio r) = []"
  shows "\<exists>s1 s2. rt_thread_init t name ent par stack_start size' prio tick texit s = Some s1
     \<and> load32 (ram s1) (unat (sp (threads s1 t)) + frame_offset F_pc) = ent
     \<and> load32 (ram s1) (unat (sp (threads s1 t)) + frame_offset F_r0) = par
     \<and> load32 (ram s1) (unat (sp (threads s1 t)) + frame_offset F_lr) = texit
     \<and> rt_thread_startup t s1 = Some (RT_EOK, s2) \<and> kernel_inv s2 (make_ready t (unat prio) L) T
     \<and> rt_current_thread s2 = Some t \<and> (\<forall>u. u \<noteq> t \<longrightarrow> threads s2 u = threads s u)"
proof -
  from rt_thread_init_spec [OF assms(1-8), of ent par tick texit] obtain s1 where
    s1: "rt_thread_init t name ent par stack_start size' prio tick texit s = Some s1" "kernel_inv s1 L T" "started_ok s1 t"
    "stat (threads s1 t) = RT_THREAD_INIT" "init_priority (threads s1 t) = prio" "\<forall>u. u \<noteq> t \<longrightarrow> threads s1 u = threads s u"
    "rt_current_thread s1 = rt_current_thread s" "rt_scheduler_lock_nest s1 = rt_scheduler_lock_nest s"
    "load32 (ram s1) (unat (sp (threads s1 t)) + frame_offset F_pc) = ent"
    "load32 (ram s1) (unat (sp (threads s1 t)) + frame_offset F_r0) = par"
    "load32 (ram s1) (unat (sp (threads s1 t)) + frame_offset F_lr) = texit" by blast
  let ?L = "make_ready t (unat prio) L"
  have "unat (init_priority (threads s1 t)) < RT_THREAD_PRIORITY_MAX" using s1(5) assms(5) by simp
  from rt_thread_startup_spec [OF s1(2,4) this s1(3)] obtain s2 p where
    s2: "rt_thread_startup t s1 = Some (RT_EOK, s2)" "kernel_inv s2 ?L T" "\<forall>u. u \<noteq> t \<longrightarrow> threads s2 u = threads s1 u"
    "highest ?L p" "rt_current_thread s2 = Some (hd (?L (HPrio p)))"
    using s1(5,7,8) assms(9,10) by auto
  have off: "unlink t L h = L h" for h using assms(2) by (simp add: unlink_def remove1_idem)
  have "highest ?L (unat prio)" using assms(5,11) by (auto simp: highest_def make_ready_def off)
  then have "p = unat prio" using highest_unique s2(4) by blast
  then have "hd (?L (HPrio p)) = t" using assms(11) by (simp add: make_ready_def off)
  then show ?thesis using s1 s2 by (intro exI [of _ s1] exI [of _ s2]) simp
qed

theorem new_thread_preempts_witness:
  "\<exists>s1 s2. rt_thread_init 7 [108, 101, 100, 0] 0x08001001 42 0x20006000 0x200 5 10 0x08000101 demo = Some s1
     \<and> load32 (ram s1) (unat (sp (threads s1 7)) + frame_offset F_r0) = 42
     \<and> rt_thread_startup 7 s1 = Some (RT_EOK, s2) \<and> rt_current_thread s2 = Some 7"
proof -
  have "readable RT_NAME_MAX [108, 101, 100, 0]" by (simp add: readable_def)
  moreover have "unat (5 :: u8) < RT_THREAD_PRIORITY_MAX" by (simp add: RT_THREAD_PRIORITY_MAX_def)
  moreover have "\<forall>h. 7 \<notin> set (demoL h)" "\<forall>r \<le> unat (5 :: u8). demoL (HPrio r) = []" by (auto simp: demoL_def)
  ultimately show ?thesis
    using new_thread_preempts [OF demo_state(1), where t = 7 and name = "[108, 101, 100, 0]" and prio = 5
        and stack_start = "0x20006000" and size' = "0x200" and ent = "0x08001001" and par = 42 and tick = 10 and texit = "0x08000101"]
    by (auto simp: demo_state(2) demo_fields(1))
qed

text \<open>C26 A running thread that sleeps is taken off its ready list, its timer enters the timer list at the
  right place with exactly the ticks asked for, and the most urgent remaining thread runs.\<close>

theorem sleep_suspends_for_ticks:
  assumes "kernel_inv s L T" "rt_current_thread s = Some t" "stat (threads s t) = RT_THREAD_READY"
    and "tick < RT_TICK_MAX div 2" "unlink t L (HPrio q) \<noteq> []" "rt_scheduler_lock_nest s = 0"
  shows "\<exists>s' p. rt_thread_sleep tick s = Some s'
     \<and> kernel_inv s' (unlink t L) (insert_timer (tdist s') (Thread_timer t) T)
     \<and> tdist s' (Thread_timer t) = unat tick
     \<and> threads s' = (threads s)(t := (threads s t)\<lparr>stat := RT_THREAD_SUSPEND\<rparr>)
     \<and> highest (unlink t L) p \<and> rt_current_thread s' = Some (hd (unlink t L (HPrio p)))"
  using rt_thread_sleep_spec [OF assms(1-5)] assms(6) by blast

theorem sleep_suspends_for_ticks_witness:
  "\<exists>s'. rt_thread_sleep 100 demo = Some s' \<and> tdist s' (Thread_timer 1) = 100 \<and> stat (threads s' 1) = RT_THREAD_SUSPEND"
proof -
  have o: "unlink 1 demoL (HPrio 31) \<noteq> []" and h: "(100 :: u32) < RT_TICK_MAX div 2"
    by (simp_all add: unlink_def demoL_def RT_TICK_MAX_def)
  show ?thesis using sleep_suspends_for_ticks [OF demo_state(1,2) demo_ready(2) h o demo_fields(1)] by auto
qed

text \<open>C27 A thread that returns from its entry is closed, has no timer pending and is on no list but that of the
  threads to be reclaimed, where it is unless it is static and has no clean-up function. Another thread
  runs after the call, and the closed thread can be neither resumed nor started.\<close>

theorem exit_leaves_no_trace:
  assumes "kernel_inv s L T" "rt_current_thread s = Some t" "stat (threads s t) = RT_THREAD_READY"
    and "unlink t L (HPrio q) \<noteq> []" "rt_scheduler_lock_nest s = 0"
  shows "\<exists>s' L'. rt_thread_exit s = Some s' \<and> kernel_inv s' L' (remove1 (Thread_timer t) T)
     \<and> (\<forall>h. h \<noteq> HDefunct \<longrightarrow> t \<notin> set (L' h)) \<and> stat (threads s' t) = RT_THREAD_CLOSE
     \<and> Thread_timer t \<notin> set (remove1 (Thread_timer t) T)
     \<and> (t \<in> set (L' HDefunct) \<longleftrightarrow> \<not> (rt_object_is_systemobject (OThread t) s \<and> cleanup (threads s t) = None))
     \<and> (\<exists>u. rt_current_thread s' = Some u \<and> u \<noteq> t)
     \<and> rt_thread_resume t s' = Some (- RT_ERROR, s') \<and> rt_thread_startup t s' = None"
proof -
  obtain s' L' where s': "rt_thread_exit s = Some s'" "kernel_inv s' L' (remove1 (Thread_timer t) T)"
     "L' = (if rt_object_is_systemobject (OThread t) s \<and> cleanup (threads s t) = None then unlink t L
             else (unlink t L)(HDefunct := t # unlink t L HDefunct))"
     "stat (threads s' t) = RT_THREAD_CLOSE"
     "\<exists>p. rt_current_thread s' = Some (hd (L' (HPrio p))) \<and> hd (L' (HPrio p)) \<noteq> t"
    using rt_thread_exit_spec [OF assms(1-4)] assms(5) by blast
  have "\<forall>h. h \<noteq> HDefunct \<longrightarrow> t \<notin> set (L' h)"
    using unlink_unlinked [OF assms(1), of t] by (auto simp: s'(3))
  moreover have "t \<in> set (L' HDefunct) \<longleftrightarrow> \<not> (rt_object_is_systemobject (OThread t) s \<and> cleanup (threads s t) = None)"
    using unlink_unlinked [OF assms(1), of t] by (simp add: s'(3))
  moreover have "rt_thread_resume t s' = Some (- RT_ERROR, s')" "rt_thread_startup t s' = None"
    by (simp_all add: rt_thread_resume_def rt_thread_startup_def s'(4))
  ultimately show ?thesis using s'(1,2,4,5) tmr_invD(5) [OF kernel_invD(2) [OF assms(1)]] by auto
qed

theorem exit_leaves_no_trace_witness:
  "\<exists>s'. rt_thread_exit demo = Some s' \<and> stat (threads s' 1) = RT_THREAD_CLOSE \<and> rt_current_thread s' \<noteq> Some 1"
proof -
  have o: "unlink 1 demoL (HPrio 31) \<noteq> []" by (simp add: unlink_def demoL_def)
  show ?thesis using exit_leaves_no_trace [OF demo_state(1,2) demo_ready(2) o demo_fields(1)] by auto
qed

text \<open>Changing the priority of a ready thread moves it to the end of the list of its new priority, with
  the bit mask that belongs to it, and keeps the kernel invariant; a suspended thread only gets the
  new priority.\<close>

theorem change_priority_requeues:
  assumes "kernel_inv s L T" "unat prio < RT_THREAD_PRIORITY_MAX"
  shows "\<exists>s'. rt_thread_control t (RT_THREAD_CTRL_CHANGE_PRIORITY prio) s = Some (RT_EOK, s')
     \<and> kernel_inv s' (if stat (threads s t) = RT_THREAD_READY then make_ready t (unat prio) L else L) T
     \<and> threads s' = (threads s)(t := (threads s t)\<lparr>current_priority := prio, number_mask := 2 ^ unat prio\<rparr>)"
proof (cases "stat (threads s t) = RT_THREAD_READY")
  case True
  have e: "threads s t\<lparr>current_priority := prio, number_mask := 2 ^ unat prio, stat := RT_THREAD_READY\<rparr>
    = threads s t\<lparr>current_priority := prio, number_mask := 2 ^ unat prio\<rparr>"
    by (rule rt_thread.equality) (simp_all add: True)
  show ?thesis
    using rt_thread_control_priority_ready [OF assms(1) True assms(2)] unfolding e if_P [OF True] by blast
next
  case False
  then show ?thesis
    using rt_thread_control_priority_suspended [OF assms(1) False assms(2)]
    by (simp add: upd_thread_def del: rt_thread_control.simps)
qed

theorem change_priority_requeues_witness:
  "\<exists>s'. rt_thread_control 3 (RT_THREAD_CTRL_CHANGE_PRIORITY 10) demo = Some (RT_EOK, s')
     \<and> kernel_inv s' ((\<lambda>_. [])(HPrio 31 := [0], HPrio 10 := [1, 2, 3])) []"
proof -
  have e: "make_ready 3 10 demoL = (\<lambda>_. [])(HPrio 31 := [0], HPrio 10 := [1, 2, 3])"
    by (auto simp: make_ready_def unlink_def demoL_def fun_eq_iff)
  show ?thesis
    using change_priority_requeues [OF demo_state(1), of 10 3] by (auto simp: RT_THREAD_PRIORITY_MAX_def demo_ready e simp del: rt_thread_control.simps)
qed

section \<open>Timers, objects and time\<close>

text \<open>C25 Starting a timer returns and puts it into the timer list behind the timers that expire no later, so
  that the list stays sorted by the time left across the wrap-around of the tick counter; it expires
  after exactly its initial ticks, and the other timers are not changed.\<close>

theorem timer_start_keeps_order:
  assumes "tmr_inv s T" "tmr_init_tick (timers s t) < RT_TICK_MAX div 2"
  shows "\<exists>s'. rt_timer_start t s = Some s' \<and> tmr_inv s' (insert_timer (tdist s') t (remove1 t T))
     \<and> sorted (map (tdist s') (insert_timer (tdist s') t (remove1 t T)))
     \<and> tdist s' t = unat (tmr_init_tick (timers s t)) \<and> activated s' t
     \<and> (\<forall>x. x \<noteq> t \<longrightarrow> tdist s' x = tdist s x)"
proof -
  obtain s' where s': "rt_timer_start t s = Some s'" "timer_started t s s'"
    "tmr_inv s' (insert_timer (tdist s') t (remove1 t T))"
    using rt_timer_start_spec [OF assms] by blast
  have eq: "s' = s\<lparr>tmlinks := tmlinks s', random_nr := random_nr s + 1,
      timers := (timers s)(t := (timers s t)\<lparr>timeout_tick := rt_tick s + tmr_init_tick (timers s t)\<rparr>), objs := objs s'\<rparr>"
    using s'(2) by (simp add: timer_started_def)
  have "timers s' = (timers s)(t := (timers s t)\<lparr>timeout_tick := rt_tick s + tmr_init_tick (timers s t)\<rparr>)" "rt_tick s' = rt_tick s"
    using arg_cong [OF eq, of timers] arg_cong [OF eq, of rt_tick] by simp_all
  then have "tdist s' t = unat (tmr_init_tick (timers s t))" "\<forall>x. x \<noteq> t \<longrightarrow> tdist s' x = tdist s x" by (simp_all add: tdist_def)
  then show ?thesis using s' tmr_invD(2) [OF s'(3)] by (auto simp: timer_started_def)
qed

text \<open>A timer of ten ticks beside the pending timer of the sleeping thread.\<close>

definition ten_ticks :: kernel where
  "ten_ticks = demo_sleep\<lparr>timers := (timers demo_sleep)(User_timer 2 := (timer_of (User_timer 2))\<lparr>tmr_init_tick := 10\<rparr>)\<rparr>"

lemma ten_ticks_inv: "tmr_inv ten_ticks [Thread_timer 1]" "tdist ten_ticks (Thread_timer 1) = 1"
proof -
  have d: "tdist ten_ticks (Thread_timer 1) = tdist demo_sleep (Thread_timer 1)" by (simp add: tdist_def ten_ticks_def)
  then show "tdist ten_ticks (Thread_timer 1) = 1" using demo_sleep_state(3) by simp
  show "tmr_inv ten_ticks [Thread_timer 1]"
    using kernel_invD(2) [OF demo_sleep_state(2)] d by (simp add: tmr_inv_def activated_def) (simp add: ten_ticks_def)
qed

theorem timer_start_keeps_order_witness:
  "\<exists>s'. rt_timer_start (User_timer 2) ten_ticks = Some s' \<and> tmr_inv s' [Thread_timer 1, User_timer 2]
     \<and> tdist s' (User_timer 2) = 10"
proof -
  have i: "tmr_init_tick (timers ten_ticks (User_timer 2)) = 10" by (simp add: ten_ticks_def)
  show ?thesis
    using timer_start_keeps_order [OF ten_ticks_inv(1), of "User_timer 2"] ten_ticks_inv(2)
    by (auto simp: i RT_TICK_MAX_def)
qed

text \<open>Initialising an object and then searching for its name, before the scheduler runs, finds it: both
  calls return, and the search returns the object that was initialised last under that name.\<close>

theorem object_init_find_roundtrip:
  assumes "obj_inv s C" "\<forall>c. ob \<notin> set (C c)" "readable RT_NAME_MAX name" "rt_current_thread s = None"
  shows "\<exists>s'. rt_object_init ob RT_Object_Class_Thread name s = Some s'
     \<and> obj_inv s' (C(RT_Object_Class_Thread := ob # C RT_Object_Class_Thread))
     \<and> rt_thread_find name s' = Some (Some ob, s')"
proof -
  obtain s' where s': "rt_object_init ob RT_Object_Class_Thread name s = Some s'"
    "obj_inv s' (C(RT_Object_Class_Thread := ob # C RT_Object_Class_Thread))" "named (objs s') name ob"
    using rt_object_init_spec [OF assms(1-3)] by blast
  have "rt_current_thread s' = None" using rt_object_init_frame(9) [OF s'(1)] assms(4) by simp
  then show ?thesis
    using s' find_by_name_before_start [OF s'(2) assms(3)] by (simp add: rt_thread_find_def)
qed

theorem object_init_find_roundtrip_witness:
  "\<exists>s'. rt_object_init (OThread 7) RT_Object_Class_Thread [108, 101, 100, 0] demo0 = Some s'
     \<and> rt_thread_find [108, 101, 100, 0] s' = Some (Some (OThread 7), s')"
proof -
  have "obj_inv demo0 (\<lambda>_. [])" using lists_rep_empty by (simp add: obj_inv_def demo0_def)
  moreover have "readable RT_NAME_MAX [108, 101, 100, 0]" by (simp add: readable_def)
  moreover have "rt_current_thread demo0 = None" by (simp add: demo0_def)
  ultimately show ?thesis using object_init_find_roundtrip [of demo0 "\<lambda>_. []" "OThread 7" "[108, 101, 100, 0]"] by auto
qed

text \<open>The conversion of milliseconds to ticks of ten milliseconds gives the smallest number of ticks that
  last long enough, up to the largest argument for which the 32-bit multiplication does not wrap.\<close>

theorem milliseconds_round_up:
  assumes "unat ms \<le> 42949662"
  shows "unat ms \<le> 10 * unat (rt_tick_from_millisecond ms) \<and> 10 * unat (rt_tick_from_millisecond ms) < unat ms + 10"
  unfolding rt_tick_from_millisecond_spec [OF assms] by linarith

theorem milliseconds_round_up_witness: "rt_tick_from_millisecond 15 = 2"
proof -
  have "15 \<le> 10 * unat (rt_tick_from_millisecond 15)" "10 * unat (rt_tick_from_millisecond 15) < 15 + 10"
    using milliseconds_round_up [of 15] by simp_all
  then have "unat (rt_tick_from_millisecond 15) = unat (2 :: u32)" by simp
  then show ?thesis by (metis word_unat_eq_iff)
qed

end
