(* ===== verification/RT_System.thy ===== *)
theory RT_System
  imports RT_Sem
begin

text \<open>
  A running system: threads that wait for semaphores, sleep and yield, and the clock. Every sequence of their
  calls, each made by the thread that runs at that moment, and of clock ticks in between, returns from every
  call and keeps what the kernel promises: the most urgent ready thread runs, a semaphore with
  units has nobody waiting, and no thread is lost.
\<close>

section \<open>Calls\<close>

datatype sys_op = Sem_take nat int | Sem_release nat | Sem_reset nat u32 | Sleep u32 | Sleep_return | Yield | Clock_tick

text \<open>
  What a call does to the kernel, up to the point where its thread gives up the processor. The part of
  \<open>rt_thread_sleep\<close> behind that point is a call of its own, that of \<open>rt_sem_take\<close> changes nothing.
\<close>

primrec sys_call :: "(nat \<Rightarrow> kernel \<Rightarrow> kernel option) \<Rightarrow> sys_op \<Rightarrow> kernel \<Rightarrow> kernel option" where
  "sys_call cb (Sem_take i time) s = map_option snd (rt_sem_take i time s)"
| "sys_call cb (Sem_release i) s = map_option snd (rt_sem_release i s)"
| "sys_call cb (Sem_reset i v) s = map_option snd (rt_sem_control i RT_IPC_CMD_RESET v s)"
| "sys_call cb (Sleep n) s = rt_thread_sleep n s"
| "sys_call cb Sleep_return s = do { t \<leftarrow> rt_thread_self s; Some (snd (rt_thread_sleep_resumed t s)) }"
| "sys_call cb Yield s = map_option snd (rt_thread_yield s)"
| "sys_call cb Clock_tick s = rt_tick_increase cb s"

text \<open>
  The semaphores \<open>I\<close> are used, times are below half the range of the tick, a thread sleeps for one tick at
  least (a sleep of no ticks starts a timer that is due already, which the invariant excludes), and the
  idle thread does not wait.
\<close>

fun may_call :: "nat set \<Rightarrow> nat \<Rightarrow> sys_op \<Rightarrow> kernel \<Rightarrow> bool" where
  "may_call I idle (Sem_take i time) s = (i \<in> I \<and> time < 0x7fffffff
     \<and> (rt_current_thread s \<noteq> Some idle \<or> sem_value (sems s i) > 0 \<or> time = 0))"
| "may_call I idle (Sem_release i) s = (i \<in> I)"
| "may_call I idle (Sem_reset i v) s = (i \<in> I)"
| "may_call I idle (Sleep n) s = (0 < n \<and> n < RT_TICK_MAX div 2 \<and> rt_current_thread s \<noteq> Some idle)"
| "may_call I idle _ s = True"

text \<open>A call that may not be made is left out.\<close>

fun sys_run :: "(nat \<Rightarrow> kernel \<Rightarrow> kernel option) \<Rightarrow> nat set \<Rightarrow> nat \<Rightarrow> sys_op list \<Rightarrow> kernel \<Rightarrow> kernel option" where
  "sys_run cb I idle [] s = Some s"
| "sys_run cb I idle (p # ps) s =
    (if may_call I idle p s then do { s1 \<leftarrow> sys_call cb p s; sys_run cb I idle ps s1 } else sys_run cb I idle ps s)"

section \<open>The invariant\<close>

definition waits_for :: "nat set \<Rightarrow> kernel \<Rightarrow> (thead \<Rightarrow> nat list) \<Rightarrow> nat list \<Rightarrow> bool" where
  "waits_for I s L ts \<longleftrightarrow> (\<forall>t. stat (threads s t) = RT_THREAD_SUSPEND \<longrightarrow> t \<in> set ts \<or> (\<exists>i \<in> I. t \<in> set (L (HSem i))))"

definition sys_inv :: "nat set \<Rightarrow> nat \<Rightarrow> kernel \<Rightarrow> (thead \<Rightarrow> nat list) \<Rightarrow> nat list \<Rightarrow> bool" where
  "sys_inv I idle s L ts \<longleftrightarrow> ipc_inv s L (map Thread_timer ts) \<and> (\<forall>i \<in> I. sem_inv s L i) \<and> chosen L s
     \<and> rt_scheduler_lock_nest s = 0 \<and> rt_interrupt_nest s = 0 \<and> stat (threads s idle) = RT_THREAD_READY
     \<and> (\<forall>t \<in> set ts. 0 < tdist s (Thread_timer t)) \<and> waits_for I s L ts"

definition sys_ok :: "nat set \<Rightarrow> nat \<Rightarrow> kernel \<Rightarrow> bool" where
  "sys_ok I idle s \<longleftrightarrow> (\<exists>L ts. sys_inv I idle s L ts)"

lemma sys_invD:
  assumes "sys_inv I idle s L ts"
  shows "ipc_inv s L (map Thread_timer ts)" "i \<in> I \<Longrightarrow> sem_inv s L i" "chosen L s" "rt_scheduler_lock_nest s = 0" "rt_interrupt_nest s = 0"
    "stat (threads s idle) = RT_THREAD_READY" "t \<in> set ts \<Longrightarrow> 0 < tdist s (Thread_timer t)" "waits_for I s L ts"
  using assms by (simp_all add: sys_inv_def)

text \<open>The running thread is ready, and there is another ready one unless it is the idle thread.\<close>

lemma current_ready:
  assumes "sys_inv I idle s L ts"
  obtains c where "rt_current_thread s = Some c" "stat (threads s c) = RT_THREAD_READY" "\<exists>p. highest L p \<and> Some c = Some (hd (L (HPrio p)))"
proof -
  obtain p where p: "highest L p" "rt_current_thread s = Some (hd (L (HPrio p)))" using sys_invD(3) [OF assms] by (auto simp: chosen_def)
  then have "hd (L (HPrio p)) \<in> set (L (HPrio p))" by (simp add: highest_def)
  then have "stat (threads s (hd (L (HPrio p)))) = RT_THREAD_READY"
    using sched_invD(3) [OF kernel_invD(1) [OF ipc_invD(1) [OF sys_invD(1) [OF assms]]]] by blast
  then show ?thesis using that p by blast
qed

lemma other_ready:
  assumes "sys_inv I idle s L ts" "t \<noteq> idle"
  shows "\<exists>q. unlink t L (HPrio q) \<noteq> []"
proof -
  note K = ipc_invD(1) [OF sys_invD(1) [OF assms(1)]]
  obtain q where "idle \<in> set (L (HPrio q))" using sched_invD(3) [OF kernel_invD(1) [OF K]] sys_invD(6) [OF assms(1)] by blast
  then have "idle \<in> set (unlink t L (HPrio q))" using assms(2) by (simp add: unlink_def in_set_remove1)
  then have "unlink t L (HPrio q) \<noteq> []" by auto
  then show ?thesis by blast
qed

lemma sems_keep:
  assumes "\<forall>i \<in> I. sem_inv s L i" "\<And>i. sems s' i = sems s i" "\<And>i. objs s' (OSem i) = objs s (OSem i)"
    and "\<And>i. i \<in> I \<Longrightarrow> sem_value (sems s i) > 0 \<Longrightarrow> L (HSem i) = [] \<Longrightarrow> L' (HSem i) = []"
  shows "\<forall>i \<in> I. sem_inv s' L' i"
  using assms by (auto simp: sem_inv_def)

lemma thread_timers: "set T \<subseteq> range Thread_timer \<Longrightarrow> \<exists>ts. T = map Thread_timer ts"
  by (induction T) (auto, metis list.simps(9))

section \<open>Each call\<close>

lemma take_ok:
  assumes S: "sys_inv I idle s L ts" and m: "may_call I idle (Sem_take i time) s"
  shows "\<exists>s' L' ts'. sys_call cb (Sem_take i time) s = Some s' \<and> sys_inv I idle s' L' ts'"
proof -
  note K = sys_invD(1) [OF S] and Q = sys_invD(2-) [OF S]
  have i: "i \<in> I" "time < 0x7fffffff" "rt_current_thread s \<noteq> Some idle \<or> sem_value (sems s i) > 0 \<or> time = 0" using m by simp_all
  consider "sem_value (sems s i) > 0" | "sem_value (sems s i) = 0" "time = 0" | "sem_value (sems s i) = 0" "time \<noteq> 0" "rt_current_thread s \<noteq> Some idle"
    using i(3) by (auto simp: word_gt_0)
  then show ?thesis
  proof cases
    case 1
    let ?s = "upd_sem i (\<lambda>se. se\<lparr>sem_value := sem_value se - 1\<rparr>) s"
    have e: "L (HSem i) = []" using Q(1) [OF i(1)] 1 by (simp add: sem_inv_def)
    have "ipc_inv ?s L (map Thread_timer ts)" using K by simp
    moreover have "sem_inv ?s L j" if "j \<in> I" for j using Q(1) [OF that] e by (auto simp: sem_inv_def upd_sem_def)
    ultimately have "sys_inv I idle ?s L ts" using S by (simp add: sys_inv_def chosen_def waits_for_def tdist_def upd_sem_def)
    then show ?thesis using rt_sem_take_available(1) [OF 1] by auto
  next
    case 2
    then show ?thesis using rt_sem_take_nowait S by auto
  next
    case 3
    obtain t where t: "rt_current_thread s = Some t" "stat (threads s t) = RT_THREAD_READY" using current_ready [OF S] by blast
    obtain q where q: "unlink t L (HPrio q) \<noteq> []" using other_ready [OF S, of t] 3(3) t(1) by auto
    let ?f = "oflag (objs s (OSem i))" and ?e = "\<lambda>th. th\<lparr>error := RT_EOK\<rparr>"
    let ?L = "parked (HSem i) ?f (threads s) t L"
    have fl: "?f = RT_IPC_FLAG_FIFO \<or> ?f = RT_IPC_FLAG_PRIO" using Q(1) [OF i(1)] by (simp add: sem_inv_def)
    have wh: "wait_head (HSem i)" by simp
    from ipc_wait_switch_timers [OF K t(2,1) wh fl i(2) soft_updates(1) [of RT_EOK] q]
    obtain s2 s3 T' where s: "ipc_wait (HSem i) t ?f time (upd_thread t ?e s) = Some s2" "rt_schedule s2 = Some s3" "ipc_inv s3 ?L T'"
      "thread_frame s s3" "threads s3 = (threads s)(t := (?e (threads s t))\<lparr>stat := RT_THREAD_SUSPEND\<rparr>)"
      "time > 0 \<longrightarrow> Thread_timer t \<in> set T' \<and> tdist s3 (Thread_timer t) = nat time" "time \<le> 0 \<longrightarrow> T' = map Thread_timer ts"
      "rt_scheduler_lock_nest s = 0 \<longrightarrow> chosen ?L s3 \<and> rt_current_thread s3 \<noteq> Some t"
      "set T' \<subseteq> insert (Thread_timer t) (set (map Thread_timer ts))" "\<forall>x. x \<noteq> Thread_timer t \<longrightarrow> tdist s3 x = tdist s x"
      "set (map Thread_timer ts) \<subseteq> set T'" by blast
    note F = thread_frameD [OF s(4)]
    have run: "sys_call cb (Sem_take i time) s = Some s3"
      using 3(1,2) in_context [OF t(1) Q(4)] t(1) s(1,2) by (simp add: rt_sem_take_def rt_thread_self_def Let_def upd_thread_def)
    have "set T' \<subseteq> range Thread_timer" using s(9) by auto
    then obtain ts' where ts': "T' = map Thread_timer ts'" using thread_timers by blast
    have mem: "u \<in> set ts' \<longrightarrow> u = t \<or> u \<in> set ts" "u \<in> set ts \<longrightarrow> u \<in> set ts'" for u using s(9,11) ts' by auto
    have nt: "t \<notin> set ts" using kernel_invD(6) [OF ipc_invD(1) [OF K], of t] t(2) by auto
    have pos: "0 < tdist s3 (Thread_timer u)" if "u \<in> set ts'" for u
    proof (cases "u = t")
      case True
      then have "time > 0" using that s(7) ts' nt by (cases "time > 0") (auto simp: inj_map_eq_map inj_def)
      then show ?thesis using True s(6) by simp
    next
      case False
      then show ?thesis using s(10) mem(1) [of u] that Q(6) [of u] by simp
    qed
    have sems: "\<forall>i \<in> I. sem_inv s3 ?L i"
    proof (rule sems_keep [where s = s and L = L])
      show "?L (HSem j) = []" if "j \<in> I" "sem_value (sems s j) > 0" "L (HSem j) = []" for j
        using that 3(1) by (auto simp: parked_def unlink_def)
    qed (use Q(1) F(1,10) in auto)
    have "waits_for I s3 ?L ts'"
    proof -
      have "u \<in> set ts' \<or> (\<exists>j \<in> I. u \<in> set (?L (HSem j)))" if u: "stat (threads s3 u) = RT_THREAD_SUSPEND" for u
      proof (cases "u = t")
        case True
        then show ?thesis using i(1) by (auto simp: parked_def set_enqueue)
      next
        case False
        then have "u \<in> set ts \<or> (\<exists>j \<in> I. u \<in> set (L (HSem j)))" using Q(7) u s(5) by (simp add: waits_for_def)
        then show ?thesis
        proof
          assume "u \<in> set ts"
          then show ?thesis using mem(2) by blast
        next
          assume "\<exists>j \<in> I. u \<in> set (L (HSem j))"
          then obtain j where "j \<in> I" "u \<in> set (L (HSem j))" by blast
          then show ?thesis using False by (auto simp: parked_def set_enqueue unlink_def in_set_remove1 intro!: bexI [of _ j])
        qed
      qed
      then show ?thesis by (simp add: waits_for_def)
    qed
    moreover have "idle \<noteq> t" using 3(3) t(1) by auto
    ultimately have "sys_inv I idle s3 ?L ts'"
      using s(3,5,8) ts' sems pos Q(3-5) F(7,8) by (simp add: sys_inv_def)
    then show ?thesis using run by blast
  qed
qed

text \<open>A semaphore that is released wakes the first thread that waits for it, or counts.\<close>

lemma make_ready_waiting:
  assumes "ipc_inv s L T" "wait_head g"
  shows "set (make_ready t p L g) = set (L g) - {t}"
  using assms(2) by (auto simp: make_ready_set [OF kernel_invD(8) [OF ipc_invD(1) [OF assms(1)]]])

lemma release_ok:
  assumes S: "sys_inv I idle s L ts" and i: "i \<in> I"
  shows "\<exists>s' L' ts'. sys_call cb (Sem_release i) s = Some s' \<and> sys_inv I idle s' L' ts'"
proof -
  note K = sys_invD(1) [OF S] and Q = sys_invD(2-) [OF S]
  show ?thesis
  proof (cases "L (HSem i)")
    case Nil
    let ?s = "upd_sem i (\<lambda>se. se\<lparr>sem_value := sem_value se + 1\<rparr>) s"
    note r = rt_sem_release_counts [OF K Q(1) [OF i] Nil]
    have "sem_inv ?s L j" if "j \<in> I" for j using r(3) Q(1) [OF that] by (auto simp: sem_inv_def upd_sem_def)
    then have "sys_inv I idle ?s L ts" using S r(2) by (simp add: sys_inv_def chosen_def waits_for_def tdist_def upd_sem_def)
    then show ?thesis using r(1) by auto
  next
    case (Cons t us)
    let ?L = "make_ready t (unat (current_priority (threads s t))) L"
    have wh: "wait_head (HSem j)" for j by simp
    obtain s1 where s1: "rt_ipc_list_resume (HSem i) s = Some s1" "ipc_inv s1 ?L (remove1 (Thread_timer t) (map Thread_timer ts))"
      "thread_frame s s1" "threads s1 = (threads s)(t := (threads s t)\<lparr>stat := RT_THREAD_READY\<rparr>)" "timers s1 = timers s"
      "rt_current_thread s1 = rt_current_thread s" using rt_ipc_list_resume_spec [OF K wh Cons] by blast
    have "?L (HPrio (unat (current_priority (threads s t)))) \<noteq> []" "rt_current_thread s1 \<noteq> None"
      using current_ready [OF S] s1(6) by (auto simp: make_ready_def)
    from switch [OF s1(2) this] obtain s2 where s2: "rt_schedule s1 = Some s2" "ipc_inv s2 ?L (remove1 (Thread_timer t) (map Thread_timer ts))"
      "thread_frame s1 s2" "threads s2 = threads s1" "tdist s2 = tdist s1" "rt_scheduler_lock_nest s1 = 0 \<Longrightarrow> chosen ?L s2" by blast
    note F = thread_frameD [OF thread_frame_trans [OF s1(3) s2(3)]]
    have td: "tdist s2 = tdist s" using s2(5) s1(5) thread_frameD(9) [OF s1(3)] by (auto simp: tdist_def fun_eq_iff)
    have run: "sys_call cb (Sem_release i) s = Some s2" using s1(1) s2(1) Cons by (simp add: rt_sem_release_def list_empty_at [OF K])
    have T: "remove1 (Thread_timer t) (map Thread_timer ts) = map Thread_timer (remove1 t ts)" by (induction ts) auto
    have d: "distinct ts" using tmr_invD(5) [OF kernel_invD(2) [OF ipc_invD(1) [OF K]]] by (simp add: distinct_map)
    have sems: "\<forall>i \<in> I. sem_inv s2 ?L i"
    proof (rule sems_keep [where s = s and L = L])
      show "?L (HSem j) = []" if "L (HSem j) = []" for j using that make_ready_waiting [OF K wh, of t _ j] by simp
    qed (use Q(1) F(1,10) in auto)
    have "waits_for I s2 ?L (remove1 t ts)"
      unfolding waits_for_def
    proof (intro allI impI)
      fix u assume u: "stat (threads s2 u) = RT_THREAD_SUSPEND"
      then have "u \<noteq> t" "stat (threads s u) = RT_THREAD_SUSPEND" using s1(4) s2(4) by (auto split: if_splits)
      then show "u \<in> set (remove1 t ts) \<or> (\<exists>j \<in> I. u \<in> set (?L (HSem j)))"
        using Q(7) make_ready_waiting [OF K wh, of t] by (auto simp: waits_for_def in_set_remove1)
    qed
    moreover have "0 < tdist s2 (Thread_timer u)" if "u \<in> set (remove1 t ts)" for u using that Q(6) d td by simp
    ultimately have "sys_inv I idle s2 ?L (remove1 t ts)"
      using s1(4) s2(2,4,6) sems Q(3-5) F(7,8) thread_frameD(7) [OF s1(3)] T by (simp add: sys_inv_def)
    then show ?thesis using run by blast
  qed
qed

lemma sleep_ok:
  assumes S: "sys_inv I idle s L ts" and m: "may_call I idle (Sleep n) s"
  shows "\<exists>s' L' ts'. sys_call cb (Sleep n) s = Some s' \<and> sys_inv I idle s' L' ts'"
proof -
  note K = sys_invD(1) [OF S] and Q = sys_invD(2-) [OF S]
  have n: "0 < n" "n < RT_TICK_MAX div 2" "rt_current_thread s \<noteq> Some idle" using m by simp_all
  obtain t where t: "rt_current_thread s = Some t" "stat (threads s t) = RT_THREAD_READY" using current_ready [OF S] by blast
  obtain q where q: "unlink t L (HPrio q) \<noteq> []" using other_ready [OF S, of t] n(3) t(1) by auto
  let ?T = "map Thread_timer ts"
  obtain s' where s': "rt_thread_sleep n s = Some s'" "kernel_inv s' (unlink t L) (insert_timer (tdist s') (Thread_timer t) ?T)"
    "tdist s' (Thread_timer t) = unat n" "thread_frame s s'" "threads s' = (threads s)(t := (threads s t)\<lparr>stat := RT_THREAD_SUSPEND\<rparr>)"
    "rt_scheduler_lock_nest s = 0 \<longrightarrow> (\<exists>p. highest (unlink t L) p \<and> rt_current_thread s' = Some (hd (unlink t L (HPrio p))))"
    "\<forall>x. x \<noteq> Thread_timer t \<longrightarrow> tdist s' x = tdist s x"
    using rt_thread_sleep_spec [OF ipc_invD(1) [OF K] t n(2) q] by blast
  note F = thread_frameD [OF s'(4)]
  have "set (insert_timer (tdist s') (Thread_timer t) ?T) \<subseteq> range Thread_timer" by auto
  then obtain ts' where ts': "insert_timer (tdist s') (Thread_timer t) ?T = map Thread_timer ts'" using thread_timers by blast
  have mem: "u \<in> set ts' \<longleftrightarrow> u = t \<or> u \<in> set ts" for u
    using arg_cong [OF ts', of set] by (auto simp: image_iff set_eq_iff)
  have off: "t \<notin> set (L h)" if "wait_head h" for h using ipc_invD(2) [OF K that, of t] t(2) by auto
  have same: "unlink t L h = L h" if "wait_head h" for h by (rule unlink_off) (rule off [OF that])
  have "ipc_inv s' (unlink t L) (map Thread_timer ts')"
  proof -
    have "stat (threads s' u) = RT_THREAD_SUSPEND" if "wait_head h" "u \<in> set (unlink t L h)" for h u
      using that ipc_invD(2) [OF K that(1), of u] same [OF that(1)] s'(5) by simp
    then show ?thesis using s'(2) ts' by (auto simp: ipc_inv_def)
  qed
  moreover have "\<forall>i \<in> I. sem_inv s' (unlink t L) i"
    by (rule sems_keep [where s = s and L = L]) (use Q(1) F(1,10) in \<open>auto simp: unlink_def\<close>)
  moreover have "0 < tdist s' (Thread_timer u)" if "u \<in> set ts'" for u
    using that mem [of u] s'(3,7) n(1) Q(6) [of u] by (cases "u = t") (auto simp: unat_gt_0 word_gt_0)
  moreover have "waits_for I s' (unlink t L) ts'"
    unfolding waits_for_def
  proof (intro allI impI)
    fix u assume u: "stat (threads s' u) = RT_THREAD_SUSPEND"
    then have "u = t \<or> stat (threads s u) = RT_THREAD_SUSPEND" using s'(5) by (auto split: if_splits)
    then show "u \<in> set ts' \<or> (\<exists>j \<in> I. u \<in> set (unlink t L (HSem j)))" using Q(7) mem same by (auto simp: waits_for_def)
  qed
  moreover have "idle \<noteq> t" using n(3) t(1) by auto
  ultimately have "sys_inv I idle s' (unlink t L) ts'" using s'(5,6) Q(3-5) F(7,8) by (simp add: sys_inv_def chosen_def)
  then show ?thesis using s'(1) by auto
qed

lemma sleep_return_ok:
  assumes S: "sys_inv I idle s L ts"
  shows "\<exists>s' L' ts'. sys_call cb Sleep_return s = Some s' \<and> sys_inv I idle s' L' ts'"
proof -
  note K = sys_invD(1) [OF S]
  obtain t where t: "rt_current_thread s = Some t" using current_ready [OF S] by blast
  let ?s = "upd_thread t (\<lambda>th. th\<lparr>error := RT_EOK\<rparr>) s"
  have "ipc_inv ?s L (map Thread_timer ts)" by (rule ipc_inv_soft [OF K soft_updates(1)])
  then have "sys_inv I idle ?s L ts" using S by (auto simp: sys_inv_def sem_inv_def chosen_def waits_for_def tdist_def upd_thread_def)
  then show ?thesis using S t by (auto simp: rt_thread_self_def rt_thread_sleep_resumed_def)
qed

lemma yield_ok:
  assumes S: "sys_inv I idle s L ts"
  shows "\<exists>s' L' ts'. sys_call cb Yield s = Some s' \<and> sys_inv I idle s' L' ts'"
proof -
  note K = sys_invD(1) [OF S] and Q = sys_invD(2-) [OF S]
  obtain t where t: "rt_current_thread s = Some t" "stat (threads s t) = RT_THREAD_READY" using current_ready [OF S] by blast
  let ?h = "HPrio (unat (current_priority (threads s t)))"
  let ?L = "rotated t ?h L"
  obtain s' where s': "rt_thread_yield s = Some (RT_EOK, s')" "kernel_inv s' ?L (map Thread_timer ts)" "thread_frame s s'" "threads s' = threads s"
    "timers s' = timers s" "L ?h = [t] \<longrightarrow> s' = s"
    "L ?h \<noteq> [t] \<and> rt_scheduler_lock_nest s = 0 \<longrightarrow> (\<exists>p. highest ?L p \<and> rt_current_thread s' = Some (hd (?L (HPrio p))))"
    using rt_thread_yield_spec [OF ipc_invD(1) [OF K] t] by blast
  note F = thread_frameD [OF s'(3)]
  have w: "?L g = L g" if "wait_head g" for g using that by (simp add: rotated_def)
  have td: "tdist s' = tdist s" using s'(5) F(9) by (auto simp: tdist_def fun_eq_iff)
  have "chosen ?L s'"
  proof (cases "L ?h = [t]")
    case True
    then have "?L = L" by (auto simp: rotated_def)
    then show ?thesis using True s'(6) Q(2) by simp
  qed (use s'(7) Q(3) in \<open>simp add: chosen_def\<close>)
  moreover have "ipc_inv s' ?L (map Thread_timer ts)" using s'(2,4) ipc_invD(2) [OF K] w by (auto simp: ipc_inv_def)
  moreover have "\<forall>i \<in> I. sem_inv s' ?L i" by (rule sems_keep [where s = s and L = L]) (use Q(1) F(1,10) w in auto)
  moreover have "waits_for I s' ?L ts" using Q(7) s'(4) w by (simp add: waits_for_def)
  ultimately have "sys_inv I idle s' ?L ts" using s'(4) Q(3-6) F(7,8) td by (simp add: sys_inv_def)
  then show ?thesis using s'(1) by auto
qed

text \<open>A tick wakes the threads whose timers are due, wherever they wait.\<close>

lemma fold_wake_waiting:
  "distinct (M g) \<Longrightarrow> wait_head g \<Longrightarrow> set (fold (wake s) us M g) = set (M g) - set us"
proof (induction us arbitrary: M)
  case (Cons u us)
  have g: "wake s u M g = remove1 u (M g)" using Cons.prems(2) by (simp add: wake_def make_ready_def unlink_def)
  then have "set (fold (wake s) us (wake s u M) g) = set (wake s u M g) - set us" using Cons.prems by (intro Cons.IH) simp_all
  then show ?case using g Cons.prems(1) by auto
qed simp

lemma due_split:
  fixes f :: "'a \<Rightarrow> nat"
  assumes "sorted (map f xs)" "\<forall>x \<in> set xs. 0 < f x" "x \<in> set (dropWhile (\<lambda>x. f x = 1) xs)"
  shows "1 < f x"
  using assms
proof (induction xs)
  case (Cons y ys)
  show ?case
  proof (cases "f y = 1")
    case False
    then have "1 < f y" using Cons.prems(2) by fastforce
    then show ?thesis using Cons.prems(1,3) False by fastforce
  qed (use Cons in simp)
qed simp

lemma tick_ok:
  assumes S: "sys_inv I idle s L ts"
  shows "\<exists>s' L' ts'. sys_call cb Clock_tick s = Some s' \<and> sys_inv I idle s' L' ts'"
proof -
  note K = sys_invD(1) [OF S] and Q = sys_invD(2-) [OF S]
  note KI = kernel_invD [OF ipc_invD(1) [OF K]]
  obtain c where c: "rt_current_thread s = Some c" "stat (threads s c) = RT_THREAD_READY" "\<exists>p. highest L p \<and> Some c = Some (hd (L (HPrio p)))"
    using current_ready [OF S] by blast
  let ?f = "\<lambda>u. tdist s (Thread_timer u)"
  define us where "us = takeWhile (\<lambda>u. ?f u = 1) ts"
  define vs where "vs = dropWhile (\<lambda>u. ?f u = 1) ts"
  have ts: "ts = us @ vs" by (simp add: us_def vs_def)
  have due: "tdist s (Thread_timer u) = 1" if "u \<in> set us" for u using that by (auto simp: us_def dest: set_takeWhileD)
  have "sorted (map ?f ts)" using tmr_invD(2) [OF KI(2)] by (simp add: comp_def)
  then have later: "1 < tdist s x" if "x \<in> set (map Thread_timer vs)" for x
    using due_split [of ?f ts] Q(6) that by (auto simp: vs_def)
  have K2: "kernel_inv s L (map Thread_timer us @ map Thread_timer vs)" using ipc_invD(1) [OF K] ts by simp
  let ?L = "fold (wake s) us (sliced s c L)"
  obtain s' where s': "rt_tick_increase cb s = Some s'" "kernel_inv s' ?L (map Thread_timer vs)" "thread_frame (s\<lparr>rt_tick := rt_tick s + 1\<rparr>) s'"
    "threads s' = timed_out (set us) (upd_thread c (\<lambda>th. th\<lparr>remaining_tick := slice_left th\<rparr>) s)"
    "\<forall>x \<in> set (map Thread_timer vs). tdist s' x = tdist s x - 1"
    "rt_scheduler_lock_nest s = 0 \<and> (\<exists>p. highest L p \<and> Some c = Some (hd (L (HPrio p)))) \<longrightarrow>
       (\<exists>p. highest ?L p \<and> rt_current_thread s' = Some (hd (?L (HPrio p))))"
    using rt_tick_increase_switch [OF K2 c(1,2) due later] by blast
  note F = thread_frameD [OF s'(3)]
  have st: "stat (threads s' u) = (if u \<in> set us then RT_THREAD_READY else stat (threads s u))" for u
    using s'(4) by (simp add: timed_out_def upd_thread_def)
  have w: "set (?L g) = set (L g) - set us" if "wait_head g" for g
    using fold_wake_waiting [of "sliced s c L" g s us] KI(8) that by (simp add: sliced_def rotated_def)
  have "ipc_inv s' ?L (map Thread_timer vs)" using s'(2) ipc_invD(2) [OF K] w st by (auto simp: ipc_inv_def)
  moreover have "chosen ?L s'" using s'(6) c(3) Q(3) by (auto simp: chosen_def)
  moreover have "\<forall>i \<in> I. sem_inv s' ?L i"
  proof (rule sems_keep [where s = s and L = L])
    show "?L (HSem j) = []" if "L (HSem j) = []" for j using w [of "HSem j"] that by simp
  qed (use Q(1) F(1,10) in auto)
  moreover have "0 < tdist s' (Thread_timer u)" if "u \<in> set vs" for u using s'(5) later [of "Thread_timer u"] that by auto
  moreover have "waits_for I s' ?L vs"
    unfolding waits_for_def
  proof (intro allI impI)
    fix u assume "stat (threads s' u) = RT_THREAD_SUSPEND"
    then have "u \<notin> set us" "stat (threads s u) = RT_THREAD_SUSPEND" using st by (auto split: if_splits)
    then show "u \<in> set vs \<or> (\<exists>j \<in> I. u \<in> set (?L (HSem j)))" using Q(7) ts w by (auto simp: waits_for_def)
  qed
  ultimately have "sys_inv I idle s' ?L vs" using st Q(3-5) F(7,8) by (simp add: sys_inv_def)
  then show ?thesis using s'(1) by auto
qed

lemma reset_ok:
  assumes S: "sys_inv I idle s L ts" and i: "i \<in> I"
  shows "\<exists>s' L' ts'. sys_call cb (Sem_reset i v) s = Some s' \<and> sys_inv I idle s' L' ts'"
proof -
  note K = sys_invD(1) [OF S] and Q = sys_invD(2-) [OF S]
  let ?T = "map Thread_timer ts" and ?us = "L (HSem i)"
  let ?L = "fold (wake s) ?us L" and ?ts = "filter (\<lambda>u. u \<notin> set ?us) ts"
  have wh: "wait_head (HSem i)" by simp
  have T: "filter (\<lambda>x. x \<notin> Thread_timer ` set ?us) ?T = map Thread_timer ?ts" by (auto simp: filter_map comp_def intro!: arg_cong [of _ _ "map Thread_timer"] filter_cong)
  obtain s1 where s1: "rt_ipc_list_resume_all (HSem i) s = Some s1" "ipc_inv s1 ?L (map Thread_timer ?ts)" "thread_frame s s1"
    "threads s1 = failed (set ?us) (threads s)" "timers s1 = timers s" "rt_current_thread s1 = rt_current_thread s" "?L (HSem i) = []"
    using rt_ipc_list_resume_all_spec [OF K wh refl] unfolding T by blast
  have st1: "stat (threads s1 u) = (if u \<in> set ?us then RT_THREAD_READY else stat (threads s u))" for u by (simp add: s1(4) failed_def)
  let ?s2 = "upd_sem i (\<lambda>se. se\<lparr>sem_value := ucast v\<rparr>) s1"
  have K2: "ipc_inv ?s2 ?L (map Thread_timer ?ts)" using s1(2) by simp
  have "stat (threads s1 idle) = RT_THREAD_READY" using st1 Q(5) by simp
  then obtain p where "idle \<in> set (?L (HPrio p))" using sched_invD(3) [OF kernel_invD(1) [OF ipc_invD(1) [OF s1(2)]]] by blast
  then have p: "?L (HPrio p) \<noteq> []" by auto
  have "rt_current_thread ?s2 \<noteq> None" using current_ready [OF S] s1(6) by (auto simp: upd_sem_def)
  from switch [OF K2 p this] obtain s3 where s3: "rt_schedule ?s2 = Some s3" "ipc_inv s3 ?L (map Thread_timer ?ts)" "thread_frame ?s2 s3"
    "threads s3 = threads ?s2" "tdist s3 = tdist ?s2" "rt_scheduler_lock_nest ?s2 = 0 \<Longrightarrow> chosen ?L s3" by blast
  note F1 = thread_frameD [OF s1(3)] and F3 = thread_frameD [OF s3(3)]
  have td: "tdist s3 = tdist s" using s3(5) s1(5) F1(9) by (auto simp: tdist_def upd_sem_def fun_eq_iff)
  have st: "stat (threads s3 u) = (if u \<in> set ?us then RT_THREAD_READY else stat (threads s u))" for u using st1 s3(4) by (simp add: upd_sem_def)
  have lk: "rt_scheduler_lock_nest s3 = 0" "rt_interrupt_nest s3 = 0" "chosen ?L s3"
    using F1(7,8) F3(7,8) Q(3,4) s3(6) by (simp_all add: upd_sem_def)
  have w: "set (?L g) = set (L g) - set ?us" if "wait_head g" for g
    using fold_wake_waiting kernel_invD(8) [OF ipc_invD(1) [OF K]] that by blast
  have "sem_inv s3 ?L j" if "j \<in> I" for j
    using Q(1) [OF that] w [of "HSem j"] s1(7) F1(1,10) F3(1,10) by (auto simp: sem_inv_def upd_sem_def)
  moreover have "waits_for I s3 ?L ?ts"
    unfolding waits_for_def
  proof (intro allI impI)
    fix u assume "stat (threads s3 u) = RT_THREAD_SUSPEND"
    then have "u \<notin> set ?us" "stat (threads s u) = RT_THREAD_SUSPEND" using st by (auto split: if_splits)
    then show "u \<in> set ?ts \<or> (\<exists>j \<in> I. u \<in> set (?L (HSem j)))" using Q(7) w by (auto simp: waits_for_def)
  qed
  ultimately have "sys_inv I idle s3 ?L ?ts" using s3(2) lk st td Q(5,6) by (simp add: sys_inv_def)
  moreover have "sys_call cb (Sem_reset i v) s = Some s3" using s1(1) s3(1) by (simp add: rt_sem_control_def Let_def)
  ultimately show ?thesis by blast
qed

section \<open>Sequences of calls\<close>

lemma sys_call_ok:
  assumes "sys_ok I idle s" "may_call I idle p s"
  shows "\<exists>s'. sys_call cb p s = Some s' \<and> sys_ok I idle s'"
proof -
  obtain L ts where S: "sys_inv I idle s L ts" using assms(1) by (auto simp: sys_ok_def)
  have "\<exists>s' L' ts'. sys_call cb p s = Some s' \<and> sys_inv I idle s' L' ts'"
  proof (cases p)
    case (Sem_take i time)
    then show ?thesis using take_ok [OF S] assms(2) by blast
  next
    case (Sem_release i)
    then show ?thesis using release_ok [OF S] assms(2) by simp
  next
    case (Sem_reset i v)
    then show ?thesis using reset_ok [OF S] assms(2) by simp
  next
    case (Sleep n)
    then show ?thesis using sleep_ok [OF S] assms(2) by blast
  next
    case Sleep_return
    then show ?thesis using sleep_return_ok [OF S] by blast
  next
    case Yield
    then show ?thesis using yield_ok [OF S] by blast
  next
    case Clock_tick
    then show ?thesis using tick_ok [OF S] by blast
  qed
  then show ?thesis by (auto simp: sys_ok_def)
qed

lemma sys_run_ok: "sys_ok I idle s \<Longrightarrow> \<exists>s'. sys_run cb I idle ps s = Some s' \<and> sys_ok I idle s'"
proof (induction ps arbitrary: s)
  case (Cons p ps)
  show ?case
  proof (cases "may_call I idle p s")
    case True
    then obtain s1 where "sys_call cb p s = Some s1" "sys_ok I idle s1" using sys_call_ok [OF Cons.prems] by blast
    then show ?thesis using Cons.IH True by simp
  qed (use Cons in simp)
qed simp

end
