(* ===== verification/RT_SystemProps.thy ===== *)
theory RT_SystemProps
  imports RT_System RT_Demo
begin

text \<open>
  The property of the running system: the promises of scheduler, clock, thread operations and semaphores
  hold together, along every run.
\<close>

text \<open>C2 Any number of threads take, release and reset semaphores, sleep and yield while the clock ticks, in any
  order that the processor may see: each call is made by the thread that runs at that moment. Every call returns.
  After the last one, and hence at every moment, the kernel invariant holds, the first thread of
  the most urgent ready list runs, a semaphore with units has nobody waiting, and no thread is lost: a ready one
  is in the list of its priority, and a suspended one waits for a semaphore or has a timer that is still to come.
  The calls left out are those of the idle thread that would suspend it, sleeps of no ticks at all and
  times beyond half the range of the tick.\<close>

theorem system_runs_on:
  assumes "ipc_inv s L (map Thread_timer ts)" "chosen L s" "\<forall>i \<in> I. sem_inv s L i"
    and "rt_scheduler_lock_nest s = 0" "rt_interrupt_nest s = 0" "stat (threads s idle) = RT_THREAD_READY"
    and "\<forall>t \<in> set ts. 0 < tdist s (Thread_timer t)" "waits_for I s L ts"
  shows "\<exists>s' L' ts'. sys_run cb I idle ps s = Some s' \<and> ipc_inv s' L' (map Thread_timer ts') \<and> chosen L' s'
     \<and> (\<forall>i \<in> I. sem_value (sems s' i) > 0 \<longrightarrow> L' (HSem i) = [])
     \<and> (\<forall>t. stat (threads s' t) = RT_THREAD_READY \<longrightarrow> t \<in> set (L' (HPrio (unat (current_priority (threads s' t))))))
     \<and> (\<forall>t. stat (threads s' t) = RT_THREAD_SUSPEND \<longrightarrow>
          (\<exists>i \<in> I. t \<in> set (L' (HSem i))) \<or> (t \<in> set ts' \<and> 0 < tdist s' (Thread_timer t)))"
proof -
  have "sys_ok I idle s" using assms by (auto simp: sys_ok_def sys_inv_def)
  then obtain s' L' ts' where S: "sys_run cb I idle ps s = Some s'" "sys_inv I idle s' L' ts'"
    using sys_run_ok by (metis sys_ok_def)
  note D = sys_invD [OF S(2)]
  have "t \<in> set (L' (HPrio (unat (current_priority (threads s' t)))))" if "stat (threads s' t) = RT_THREAD_READY" for t
    by (rule sched_inv_ready_prio [OF kernel_invD(1) [OF ipc_invD(1) [OF D(1)]] that])
  moreover have "\<forall>i \<in> I. sem_value (sems s' i) > 0 \<longrightarrow> L' (HSem i) = []" using D(2) by (auto simp: sem_inv_def)
  moreover have "\<forall>t. stat (threads s' t) = RT_THREAD_SUSPEND \<longrightarrow>
      (\<exists>i \<in> I. t \<in> set (L' (HSem i))) \<or> (t \<in> set ts' \<and> 0 < tdist s' (Thread_timer t))"
    using D(7,8) by (auto simp: waits_for_def)
  ultimately show ?thesis using S(1) D(1,3) by blast
qed

lemma demo_running: "chosen demoL demo" "\<forall>i \<in> I. sem_inv demo demoL i" "stat (threads demo 0) = RT_THREAD_READY" "waits_for I demo demoL []"
proof -
  show "chosen demoL demo" by (simp add: chosen_def demo_highest demo_state(2)) (simp add: demoL_def)
  show "\<forall>i \<in> I. sem_inv demo demoL i" by (simp add: sem_inv_def demo_fields demoL_def RT_IPC_FLAG_FIFO_def)
  show "waits_for I demo demoL []" by (simp add: waits_for_def demo_unsuspended)
  have "0 \<in> set (demoL (HPrio 31))" by (simp add: demoL_def)
  then show "stat (threads demo 0) = RT_THREAD_READY" using sched_invD(3) [OF kernel_invD(1) [OF demo_state(1)]] by blast
qed

theorem system_runs_on_witness:
  "\<exists>s' L' ts'. sys_run (\<lambda>_. Some) {0, 1} 0 [Sem_take 0 2, Yield, Sleep 7, Sem_take 1 (-1), Clock_tick, Clock_tick, Sem_release 0, Sleep_return] demo = Some s'
     \<and> ipc_inv s' L' (map Thread_timer ts') \<and> chosen L' s'
     \<and> (\<forall>i \<in> {0, 1}. sem_value (sems s' i) > 0 \<longrightarrow> L' (HSem i) = [])
     \<and> (\<forall>t. stat (threads s' t) = RT_THREAD_READY \<longrightarrow> t \<in> set (L' (HPrio (unat (current_priority (threads s' t))))))
     \<and> (\<forall>t. stat (threads s' t) = RT_THREAD_SUSPEND \<longrightarrow>
          (\<exists>i \<in> {0, 1}. t \<in> set (L' (HSem i))) \<or> (t \<in> set ts' \<and> 0 < tdist s' (Thread_timer t)))"
  by (rule system_runs_on [OF _ demo_running(1,2) demo_fields(1,2) demo_running(3) _ demo_running(4)]) (simp_all add: demo_ipc)

end
