(* ===== verification/RT_HeapClient.thy ===== *)
theory RT_HeapClient
  imports RT_MemInv
begin

text \<open>
  What the rest of the kernel relies on when it calls the heap of \<open>src/mem.c\<close>. The locale \<open>allocator\<close>
  states the contract of an allocator of byte ranges, and shows that a client that only frees what
  it holds is never stopped and never holds two ranges that overlap. The heap is an instance.
\<close>

section \<open>Contract of an allocator\<close>

text \<open>
  A client asks for a number of bytes, or gives back the \<open>k\<close>-th of the ranges it holds. It holds the
  pointers it was given together with the size it asked for; a refused request leaves it as it is.
\<close>

datatype alloc_op = Request nat | Release nat

definition drop_nth :: "nat \<Rightarrow> 'a list \<Rightarrow> 'a list" where
  "drop_nth k xs = take k xs @ drop (Suc k) xs"

fun alloc_run :: "(nat \<Rightarrow> 's \<Rightarrow> (nat option \<times> 's) option) \<Rightarrow> (nat \<Rightarrow> 's \<Rightarrow> 's option)
  \<Rightarrow> alloc_op list \<Rightarrow> (nat \<times> nat) list \<Rightarrow> 's \<Rightarrow> ((nat \<times> nat) list \<times> 's) option" where
  "alloc_run alloc free [] held s = Some (held, s)"
| "alloc_run alloc free (Request n # ops) held s =
     (case alloc n s of
        None \<Rightarrow> None
      | Some (None, s') \<Rightarrow> alloc_run alloc free ops held s'
      | Some (Some p, s') \<Rightarrow> alloc_run alloc free ops (held @ [(p, n)]) s')"
| "alloc_run alloc free (Release k # ops) held s =
     (if k < length held
      then (case free (fst (held ! k)) s of
              None \<Rightarrow> None
            | Some s' \<Rightarrow> alloc_run alloc free ops (drop_nth k held) s')
      else alloc_run alloc free ops held s)"

fun sizes_ok :: "alloc_op list \<Rightarrow> bool" where
  "sizes_ok [] = True"
| "sizes_ok (Request n # ops) = (n + 7 < 2 ^ 32 \<and> sizes_ok ops)"
| "sizes_ok (Release k # ops) = sizes_ok ops"

definition separate :: "nat \<times> nat \<Rightarrow> nat \<times> nat \<Rightarrow> bool" where
  "separate x y \<longleftrightarrow> fst x + snd x \<le> fst y \<or> fst y + snd y \<le> fst x"

text \<open>What the client holds is the start of live ranges, one each, and every size is within its range.\<close>

definition holds :: "(nat \<times> nat) set \<Rightarrow> (nat \<times> nat) list \<Rightarrow> bool" where
  "holds R held \<longleftrightarrow> distinct (map fst held) \<and> (\<forall>x \<in> set held. \<exists>e. (fst x, e) \<in> R \<and> fst x + snd x \<le> e)"

lemma nth_split: "k < length xs \<Longrightarrow> \<exists>us vs. xs = us @ xs ! k # vs \<and> drop_nth k xs = us @ vs"
  using id_take_nth_drop [of k xs] by (auto simp: drop_nth_def)

locale allocator =
  fixes inv :: "'s \<Rightarrow> bool" and live :: "'s \<Rightarrow> (nat \<times> nat) set"
    and alloc :: "nat \<Rightarrow> 's \<Rightarrow> (nat option \<times> 's) option" and free :: "nat \<Rightarrow> 's \<Rightarrow> 's option"
  assumes live_apart: "inv s \<Longrightarrow> (a, z) \<in> live s \<Longrightarrow> (b, y) \<in> live s \<Longrightarrow> a \<noteq> b \<Longrightarrow> z \<le> b \<or> y \<le> a"
    and live_start: "inv s \<Longrightarrow> (a, z) \<in> live s \<Longrightarrow> (a, y) \<in> live s \<Longrightarrow> z = y"
    and alloc_ok: "inv s \<Longrightarrow> n + 7 < 2 ^ 32 \<Longrightarrow> \<exists>r s'. alloc n s = Some (r, s') \<and> inv s'
      \<and> (case r of None \<Rightarrow> live s' = live s
         | Some p \<Rightarrow> \<exists>e. p + n \<le> e \<and> live s' = insert (p, e) (live s) \<and> (\<forall>z. (p, z) \<notin> live s))"
    and free_ok: "inv s \<Longrightarrow> (p, e) \<in> live s \<Longrightarrow> \<exists>s'. free p s = Some s' \<and> inv s' \<and> live s' = live s - {(p, e)}"
begin

lemma held_separate:
  assumes "inv s" "holds (live s) held"
  shows "sorted_wrt separate held"
  unfolding sorted_wrt_iff_nth_less
proof (intro allI impI)
  fix i j
  assume ij: "i < j" "j < length held"
  have ne: "fst (held ! i) \<noteq> fst (held ! j)"
    using assms(2) ij by (auto simp: holds_def distinct_conv_nth)
  have "held ! i \<in> set held" "held ! j \<in> set held" using ij by auto
  then obtain e f where "(fst (held ! i), e) \<in> live s" "fst (held ! i) + snd (held ! i) \<le> e"
    "(fst (held ! j), f) \<in> live s" "fst (held ! j) + snd (held ! j) \<le> f"
    using assms(2) unfolding holds_def by blast
  then show "separate (held ! i) (held ! j)" using live_apart [OF assms(1) _ _ ne] by (fastforce simp: separate_def)
qed

lemma holds_alloc:
  assumes "holds (live s) held" "p + n \<le> e" "live s' = insert (p, e) (live s)" "\<forall>z. (p, z) \<notin> live s"
  shows "holds (live s') (held @ [(p, n)])"
  using assms by (auto simp: holds_def)

lemma holds_free:
  assumes h: "holds (live s) (us @ x # vs)" and e: "live s' = live s - {(fst x, e)}"
  shows "holds (live s') (us @ vs)"
proof -
  have d: "distinct (map fst (us @ vs))" "fst x \<notin> fst ` set (us @ vs)" using h by (auto simp: holds_def)
  have "\<exists>e'. (fst y, e') \<in> live s' \<and> fst y + snd y \<le> e'" if y: "y \<in> set (us @ vs)" for y
  proof -
    have "fst y \<noteq> fst x" using d(2) y by (metis image_eqI)
    moreover obtain e' where "(fst y, e') \<in> live s" "fst y + snd y \<le> e'" using h y by (force simp: holds_def)
    ultimately show ?thesis using e by auto
  qed
  then show ?thesis using d(1) by (auto simp: holds_def)
qed

lemma run_total:
  "inv s \<Longrightarrow> holds (live s) held \<Longrightarrow> sizes_ok ops
   \<Longrightarrow> \<exists>held' s'. alloc_run alloc free ops held s = Some (held', s') \<and> inv s' \<and> holds (live s') held'"
proof (induction ops arbitrary: held s)
  case Nil
  then show ?case by simp
next
  case (Cons op ops)
  show ?case
  proof (cases op)
    case (Request n)
    then have "n + 7 < 2 ^ 32" "sizes_ok ops" using Cons.prems by simp_all
    from alloc_ok [OF Cons.prems(1) this(1)] obtain r s1 where
      s1: "alloc n s = Some (r, s1)" "inv s1" and r: "case r of None \<Rightarrow> live s1 = live s
         | Some p \<Rightarrow> \<exists>e. p + n \<le> e \<and> live s1 = insert (p, e) (live s) \<and> (\<forall>z. (p, z) \<notin> live s)" by blast
    then show ?thesis
      using Request \<open>sizes_ok ops\<close> Cons.IH [OF s1(2)] Cons.prems(2) holds_alloc [OF Cons.prems(2)]
      by (cases r) auto
  next
    case (Release k)
    show ?thesis
    proof (cases "k < length held")
      case True
      then obtain us vs where split: "held = us @ held ! k # vs" "drop_nth k held = us @ vs" using nth_split by blast
      have "held ! k \<in> set held" using True by simp
      then obtain e where e: "(fst (held ! k), e) \<in> live s" using Cons.prems(2) unfolding holds_def by blast
      from free_ok [OF Cons.prems(1) e] obtain s1 where
        s1: "free (fst (held ! k)) s = Some s1" "inv s1" "live s1 = live s - {(fst (held ! k), e)}" by blast
      have "holds (live s1) (us @ vs)" using holds_free [OF _ s1(3)] Cons.prems(2) split(1) by simp
      then show ?thesis using Cons.IH [OF s1(2)] Cons.prems(3) Release True s1(1) split(2) by simp
    qed (use Cons Release in simp)
  qed
qed

end

section \<open>The heap is an allocator\<close>

text \<open>The blocks of a heap, from the first one along the next offsets.\<close>

inductive_set heap_blocks :: "heap \<Rightarrow> nat set" for h where
  first: "0 \<in> heap_blocks h"
| onward: "b \<in> heap_blocks h \<Longrightarrow> hN h b \<noteq> heap_end h \<Longrightarrow> hN h b \<in> heap_blocks h"

lemma heap_blocks_eq:
  assumes "heap_inv h S"
  shows "heap_blocks h = S"
proof
  note B = heap_invD(3) [OF assms]
  show "heap_blocks h \<subseteq> S"
  proof
    fix b assume "b \<in> heap_blocks h"
    then show "b \<in> S" by induction (use blocks_okD(1,6) [OF B] in auto)
  qed
  have "b \<in> S \<Longrightarrow> b \<in> heap_blocks h" for b
  proof (induction b rule: less_induct)
    case (less b)
    show ?case
    proof (cases "b = 0")
      case False
      with blocks_prev [OF B less.prems] have p: "hP h b \<in> S" "hN h (hP h b) = b" by simp_all
      then have "hP h b < b" using blocks_okD(5) [OF B p(1)] by simp
      then show ?thesis using less p onward [of "hP h b" h] blocks_okD(9) [OF B] by auto
    qed (simp add: first)
  qed
  then show "S \<subseteq> heap_blocks h" by blast
qed

definition heap_ok :: "heap \<Rightarrow> bool" where
  "heap_ok h \<longleftrightarrow> heap_inv h (heap_blocks h) \<and> lfree_lowest h (heap_blocks h) \<and> 16 \<le> mem_size_aligned h"

text \<open>The byte ranges in use, without their headers.\<close>

definition in_use :: "heap \<Rightarrow> (nat \<times> nat) set" where
  "in_use h = (\<lambda>(b, e). (heap_ptr h + b + 16, heap_ptr h + e)) ` allocated h (heap_blocks h)"

lemma heap_okI: "heap_inv h S \<Longrightarrow> lfree_lowest h S \<Longrightarrow> 16 \<le> mem_size_aligned h \<Longrightarrow> heap_ok h"
  using heap_blocks_eq [of h S] by (simp add: heap_ok_def)

lemma in_use_eq: "heap_inv h S \<Longrightarrow> in_use h = (\<lambda>(b, e). (heap_ptr h + b + 16, heap_ptr h + e)) ` allocated h S"
  using heap_blocks_eq [of h S] by (simp add: in_use_def)

lemma in_use_mem:
  "(p, z) \<in> in_use h \<longleftrightarrow> (\<exists>b. b \<in> heap_blocks h \<and> hU h b \<and> p = heap_ptr h + b + 16 \<and> z = heap_ptr h + hN h b)"
  by (auto simp: in_use_def allocated_def image_iff)

lemma malloc_ok:
  assumes "heap_ok h" "n + 7 < 2 ^ 32"
  shows "\<exists>r h'. rt_malloc n h = Some (r, h') \<and> heap_ok h'
    \<and> (case r of None \<Rightarrow> in_use h' = in_use h
       | Some p \<Rightarrow> \<exists>e. p + n \<le> e \<and> in_use h' = insert (p, e) (in_use h) \<and> (\<forall>z. (p, z) \<notin> in_use h))"
proof (cases "n = 0")
  case True
  then show ?thesis using assms(1) by (simp add: rt_malloc_def)
next
  case False
  let ?S = "heap_blocks h"
  have H: "heap_inv h ?S" "lfree_lowest h ?S" "16 \<le> mem_size_aligned h" using assms(1) by (auto simp: heap_ok_def)
  from rt_malloc_spec [OF H(1) _ assms(2) H(3)] False H(2) obtain r h' S' where
    h': "rt_malloc n h = Some (r, h')" "heap_inv h' S'" "lfree_lowest h' S'" "heap_ptr h' = heap_ptr h"
      "mem_size_aligned h' = mem_size_aligned h" and
    r: "case r of None \<Rightarrow> h' = h \<and> S' = ?S \<and> (lfree_lowest h ?S \<longrightarrow> \<not> (\<exists>b\<in>?S. loop_fit h (request n) b))
        | Some p \<Rightarrow> \<exists>b. p = heap_ptr h + b + 16 \<and> b \<in> ?S \<and> \<not> hU h b \<and> b + 16 + n \<le> hN h' b
            \<and> allocated h' S' = insert (b, hN h' b) (allocated h ?S)" by blast
  have ok: "heap_ok h'" using heap_okI [OF h'(2,3)] h'(5) H(3) by simp
  show ?thesis
  proof (cases r)
    case None
    then show ?thesis using h'(1) ok r by simp
  next
    case (Some p)
    with r obtain b where b: "p = heap_ptr h + b + 16" "b \<in> ?S" "\<not> hU h b" "b + 16 + n \<le> hN h' b"
      "allocated h' S' = insert (b, hN h' b) (allocated h ?S)" by auto
    have "in_use h' = insert (p, heap_ptr h + hN h' b) (in_use h)"
      using in_use_eq [OF h'(2)] b(1,5) h'(4) by (simp add: in_use_def)
    moreover have "\<forall>z. (p, z) \<notin> in_use h" using b(1,3) by (simp add: in_use_mem)
    ultimately show ?thesis using h'(1) ok Some b(1,4) by (auto intro!: exI [of _ "heap_ptr h + hN h' b"])
  qed
qed

lemma free_ok:
  assumes "heap_ok h" "(p, e) \<in> in_use h"
  shows "\<exists>h'. rt_free (Some p) h = Some h' \<and> heap_ok h' \<and> in_use h' = in_use h - {(p, e)}"
proof -
  let ?S = "heap_blocks h" and ?f = "\<lambda>(b, e). (heap_ptr h + b + 16, heap_ptr h + e)"
  have H: "heap_inv h ?S" "lfree_lowest h ?S" "16 \<le> mem_size_aligned h" using assms(1) by (auto simp: heap_ok_def)
  obtain b where b: "b \<in> ?S" "hU h b" "p = heap_ptr h + b + 16" "e = heap_ptr h + hN h b"
    using assms(2) by (auto simp: in_use_mem)
  from rt_free_spec [OF H(1) b(1,2)] H(2) obtain h' S' where
    h': "rt_free (Some p) h = Some h'" "heap_inv h' S'" "allocated h' S' = allocated h ?S - {(b, hN h b)}"
    "lfree_lowest h' S'" "heap_ptr h' = heap_ptr h" "mem_size_aligned h' = mem_size_aligned h" unfolding b(3) by blast
  have "inj ?f" by (auto simp: inj_def)
  then have "in_use h' = in_use h - {(p, e)}"
    unfolding in_use_eq [OF h'(2)] in_use_eq [OF H(1)] h'(3,5) by (simp add: image_set_diff b(3,4))
  then show ?thesis using h'(1) heap_okI [OF h'(2,4)] h'(6) H(3) by auto
qed

lemma rt_malloc_first_fit:
  assumes "heap_ok h" "0 < n" "n + 7 < 2 ^ 32"
  shows "\<exists>h'. rt_malloc n h = Some
    (if \<exists>b \<in> heap_blocks h. loop_fit h (request n) b
     then Some (heap_ptr h + (LEAST b. b \<in> heap_blocks h \<and> loop_fit h (request n) b) + 16) else None, h')"
proof (cases "(n + 7) div 8 * 8 > mem_size_aligned h")
  case True
  then have "\<not> loop_fit h (request n) b" for b by (simp add: loop_fit_def request_def)
  then show ?thesis using True assms(2) align32_small [OF assms(3)] by (simp add: rt_malloc_def)
next
  case False
  let ?S = "heap_blocks h" and ?sz = "request n"
  have H: "heap_inv h ?S" "lfree_lowest h ?S" "16 \<le> mem_size_aligned h" using assms(1) by (auto simp: heap_ok_def)
  note D = heap_baseD [OF heap_invD(1) [OF H(1)]]
  have lf: "lfree h \<in> insert (heap_end h) ?S" using D(8) by auto
  have low: "(b \<in> ?S \<and> lfree h \<le> b \<and> loop_fit h ?sz b) = (b \<in> ?S \<and> loop_fit h ?sz b)" for b
    using H(2) by (auto simp: lfree_lowest_def loop_fit_def)
  have ex: "(\<exists>b \<in> ?S. lfree h \<le> b \<and> loop_fit h ?sz b) = (\<exists>b \<in> ?S. loop_fit h ?sz b)" using low by blast
  have sz: "?sz \<le> mem_size_aligned h" using False H(3) by (simp add: request_def)
  have run: "rt_malloc n h = malloc_loop (lfree h) ?sz h"
    using False assms(2) align32_small [OF assms(3)] by (simp add: rt_malloc_def request_def Let_def MIN_SIZE_ALIGNED_def)
  note loop = malloc_loop_spec [OF H(1) lf sz, unfolded ex low]
  show ?thesis
  proof (cases "\<exists>b \<in> ?S. loop_fit h ?sz b")
    case True
    define b where "b = (LEAST b. b \<in> ?S \<and> loop_fit h ?sz b)"
    have "b \<in> ?S \<and> loop_fit h ?sz b" unfolding b_def by (rule LeastI_ex) (use True in blast)
    then have "b \<in> ?S" "\<not> hU h b" "lfree h \<le> b" "b + 16 + ?sz \<le> hN h b" using H(2) by (auto simp: loop_fit_def lfree_lowest_def)
    from malloc_take_spec [OF H(1) this request_bounds(2)] obtain h' where
      "malloc_take b ?sz h = Some (heap_ptr h + b + 16, h')" by blast
    then show ?thesis using True loop run by (simp add: b_def)
  qed (use loop run in simp)
qed

text \<open>The same in terms of large enough blocks, and the exact fit of the last block that is refused.\<close>

lemma rt_malloc_first_large:
  assumes "heap_ok h" "0 < n" "n + 7 < 2 ^ 32"
  shows "\<exists>h'. rt_malloc n h = Some
    (if \<exists>b \<in> heap_blocks h. large_enough h (request n) b \<and> b + 16 + request n \<noteq> heap_end h
     then Some (heap_ptr h + (LEAST b. b \<in> heap_blocks h \<and> large_enough h (request n) b) + 16) else None, h')"
proof -
  let ?S = "heap_blocks h" and ?sz = "request n"
  let ?P = "\<lambda>b. b \<in> ?S \<and> loop_fit h ?sz b" and ?Q = "\<lambda>b. b \<in> ?S \<and> large_enough h ?sz b"
  have H: "heap_inv h ?S" using assms(1) by (simp add: heap_ok_def)
  have ex: "(\<exists>b \<in> ?S. loop_fit h ?sz b) = (\<exists>b \<in> ?S. large_enough h ?sz b \<and> b + 16 + ?sz \<noteq> heap_end h)"
    using loop_fit_large [OF H] by blast
  have "Least ?P = Least ?Q" if b: "?P b" for b
  proof (rule Least_equality [symmetric])
    have l: "?P (Least ?P)" using b by (rule LeastI)
    then show "?Q (Least ?P)" using loop_fit_large [OF H] by blast
    show "Least ?P \<le> c" if c: "?Q c" for c
    proof (cases "?P c")
      case True
      then show ?thesis by (rule Least_le)
    next
      case False
      then have "c + 16 + ?sz = heap_end h" using c loop_fit_large [OF H, of c] by blast
      then show ?thesis using large_last [OF H _ _ _ conjunct1 [OF l]] c by blast
    qed
  qed
  then have "(\<exists>b \<in> ?S. loop_fit h ?sz b) \<Longrightarrow> Least ?P = Least ?Q" by blast
  then show ?thesis using rt_malloc_first_fit [OF assms] unfolding ex by (simp cong: if_cong)
qed

lemma malloc_exact_last_refused:
  assumes "heap_ok h" "0 < n" "n + 7 < 2 ^ 32" "b \<in> heap_blocks h" "large_enough h (request n) b"
    and "b + 16 + request n = heap_end h" "\<forall>c \<in> heap_blocks h. c \<noteq> b \<longrightarrow> \<not> large_enough h (request n) c"
  shows "\<exists>h'. rt_malloc n h = Some (None, h')"
proof -
  have no: "\<not> (\<exists>b \<in> heap_blocks h. large_enough h (request n) b \<and> b + 16 + request n \<noteq> heap_end h)" using assms(6,7) by metis
  from rt_malloc_first_large [OF assms(1-3)] show ?thesis unfolding if_not_P [OF no] .
qed

interpretation heapc: allocator heap_ok in_use rt_malloc "\<lambda>p. rt_free (Some p)"
proof (unfold_locales, goal_cases)
  case (1 s a z b y)
  then obtain c d where cd: "(c, hN s c) \<in> allocated s (heap_blocks s)" "(d, hN s d) \<in> allocated s (heap_blocks s)"
    "a = heap_ptr s + c + 16" "z = heap_ptr s + hN s c" "b = heap_ptr s + d + 16" "y = heap_ptr s + hN s d"
    by (auto simp: in_use_mem allocated_iff)
  have "heap_inv s (heap_blocks s)" using 1(1) by (simp add: heap_ok_def)
  then have "hN s c \<le> d \<or> hN s d \<le> c" using allocated_disjoint [OF heap_invD(3) cd(1,2)] 1(4) cd(3,5) by simp
  then show ?case using cd by auto
next
  case (2 s a z y)
  then show ?case by (auto simp: in_use_mem)
next
  case (3 s n)
  then show ?case by (rule malloc_ok)
next
  case (4 s p e)
  then show ?case by (rule free_ok)
qed

text \<open>A request within seven bytes of the top of the 32-bit range wraps when it is rounded up: if any
  block has room for 16 bytes, \<open>rt_malloc\<close> answers with a range that is far shorter than the
  request.\<close>

lemma malloc_of_huge_size_wraps:
  assumes "heap_ok h" "2 ^ 32 \<le> n + 7" "n < 2 ^ 32" "b \<in> heap_blocks h" "loop_fit h 16 b"
  shows "\<exists>p h' e. rt_malloc n h = Some (Some p, h') \<and> (p, e) \<in> in_use h' \<and> e < p + n"
proof -
  let ?S = "heap_blocks h" and ?P = "\<lambda>b. b \<in> heap_blocks h \<and> lfree h \<le> b \<and> loop_fit h 16 b"
  have H: "heap_inv h ?S" "lfree_lowest h ?S" "16 \<le> mem_size_aligned h" using assms(1) by (auto simp: heap_ok_def)
  have lf: "lfree h \<in> insert (heap_end h) ?S" using heap_baseD(8) [OF heap_invD(1) [OF H(1)]] by auto
  have "?P b" using assms(4,5) H(2) by (auto simp: loop_fit_def lfree_lowest_def)
  define c where "c = (LEAST b. ?P b)"
  have c: "?P c" using \<open>?P b\<close> unfolding c_def by (rule LeastI)
  then have "c \<in> ?S" "\<not> hU h c" "lfree h \<le> c" "c + 16 + 16 \<le> hN h c" by (auto simp: loop_fit_def)
  from malloc_take_spec [OF H(1) this] obtain h' S' where
    h': "malloc_take c 16 h = Some (heap_ptr h + c + 16, h')" "heap_inv h' S'"
    "allocated h' S' = insert (c, hN h' c) (allocated h ?S)" "hN h' c < c + 16 + 16 + 32" "heap_ptr h' = heap_ptr h"
    by auto
  have "rt_malloc n h = Some (Some (heap_ptr h + c + 16), h')"
    using malloc_loop_spec [OF H(1) lf, of 16] H(3) \<open>?P b\<close> h'(1) rt_malloc_wraps [OF assms(2,3), of h] unfolding c_def by auto
  moreover have "(heap_ptr h + c + 16, heap_ptr h + hN h' c) \<in> in_use h'"
    using in_use_eq [OF h'(2)] h'(3,5) by force
  moreover have "heap_ptr h + hN h' c < heap_ptr h + c + 16 + n" using h'(4) assms(2) by simp
  ultimately show ?thesis by blast
qed

end
