(* ===== verification/RT_DataProps.thy ===== *)
theory RT_DataProps
  imports RT_HeapClient RT_RingBuffer
begin

text \<open>
  The properties of the heap, of the kernel service routines and of the ring buffer. Each property
  with a hypothesis is followed by a witness that applies it to a concrete input.
\<close>

section \<open>Heap\<close>

definition no_heap :: heap where
  "no_heap = \<lparr>heap_ptr = 0, hdr = (\<lambda>_. \<lparr>magic = 0, used = 0, hnext = 0, hprev = 0\<rparr>), heap_end = 0, lfree = 0,
     mem_size_aligned = 0, used_mem = 0, max_mem = 0\<rparr>"

text \<open>A heap of four kilobytes.\<close>

definition small_heap :: heap where
  "small_heap = rt_system_heap_init 0x20001000 0x20002000 no_heap"

lemma heap_init_ok:
  assumes "a + 7 < 2 ^ 32" "z + 16 < 2 ^ 32" "align32 a + 48 < align_down32 z" "used_mem h = 0"
  defines "h' \<equiv> rt_system_heap_init a z h"
  shows "heap_ok h'" "in_use h' = {}" "heap_ptr h' = align32 a" "heap_blocks h' = {0}"
    "mem_size_aligned h' = align_down32 z - align32 a - 32" "hN h' 0 = mem_size_aligned h' + 16"
proof -
  note I = rt_system_heap_init_inv [OF assms(1-4), folded h'_def]
  have t: "align_down32 z > 2 * SIZEOF_STRUCT_MEM \<and> align_down32 z - 2 * SIZEOF_STRUCT_MEM \<ge> align32 a"
    using assms(3) by (simp add: SIZEOF_STRUCT_MEM_def)
  show m: "mem_size_aligned h' = align_down32 z - align32 a - 32"
    unfolding h'_def rt_system_heap_init_def Let_def if_P [OF t] by (simp add: SIZEOF_STRUCT_MEM_def)
  have e: "mem_size_aligned h' mod 8 = 0" "heap_end h' = mem_size_aligned h' + 16"
    using heap_baseD(2,3) [OF heap_invD(1) [OF I(1)]] by auto
  then have "16 \<le> mem_size_aligned h'" using m assms(3) by linarith
  then show "heap_ok h'" by (rule heap_okI [OF I(1,2)])
  show "in_use h' = {}" using in_use_eq [OF I(1)] I(3) by simp
  show "heap_ptr h' = align32 a" by (rule I(4))
  show "heap_blocks h' = {0}" by (rule heap_blocks_eq [OF I(1)])
  have B: "blocks_ok (hN h') (hP h') (heap_end h') {0}" by (rule heap_invD(3) [OF I(1)])
  show "hN h' 0 = mem_size_aligned h' + 16" using blocks_okD(5,6) [OF B, of 0] e(2) by auto
qed

lemma small_heap_ok:
  "heap_ok small_heap" "in_use small_heap = {}" "heap_ptr small_heap = 0x20001000" "heap_blocks small_heap = {0}"
  "mem_size_aligned small_heap = 4064" "hN small_heap 0 = 4080"
proof -
  have a: "align32 0x20001000 = 0x20001000" by (simp add: align32_small)
  have z: "align_down32 0x20002000 = 0x20002000" by (simp add: align_down32_small)
  have c: "align32 0x20001000 + 48 < align_down32 0x20002000" "used_mem no_heap = 0" by (simp_all add: a z no_heap_def)
  note I = heap_init_ok [OF _ _ c, folded small_heap_def, simplified a z]
  show "heap_ok small_heap" "in_use small_heap = {}" "heap_ptr small_heap = 0x20001000" "heap_blocks small_heap = {0}"
    "mem_size_aligned small_heap = 4064" "hN small_heap 0 = 4080" using I by simp_all
qed

lemma small_heap_free: "\<not> hU small_heap 0"
  using small_heap_ok(1,2,4) by (auto simp: in_use_def allocated_def)

lemma small_heap_end: "heap_end small_heap = 4080"
  using heap_baseD(2) [OF heap_invD(1), of small_heap "heap_blocks small_heap"] small_heap_ok(1,5) by (simp add: heap_ok_def)

lemma small_heap_large:
  assumes "n \<le> 4056"
  shows "\<exists>b \<in> heap_blocks small_heap. large_enough small_heap (request n) b \<and> b + 16 + request n \<noteq> heap_end small_heap"
    "(LEAST b. b \<in> heap_blocks small_heap \<and> large_enough small_heap (request n) b) = 0"
proof -
  have "(n + 7) div 8 * 8 \<le> 4056" using assms by presburger
  then have r: "request n \<le> 4056" by (simp add: request_def)
  then have f: "large_enough small_heap (request n) 0"
    using small_heap_free by (simp add: large_enough_def small_heap_ok)
  then show "\<exists>b \<in> heap_blocks small_heap. large_enough small_heap (request n) b \<and> b + 16 + request n \<noteq> heap_end small_heap"
    using r by (simp add: small_heap_ok small_heap_end)
  show "(LEAST b. b \<in> heap_blocks small_heap \<and> large_enough small_heap (request n) b) = 0"
    using f by (intro Least_equality) (simp_all add: small_heap_ok)
qed

lemma small_heap_gives: "0 < n \<Longrightarrow> n \<le> 4056 \<Longrightarrow> \<exists>h'. rt_malloc n small_heap = Some (Some 0x20001010, h')"
  using rt_malloc_first_large [OF small_heap_ok(1), of n] small_heap_large [of n] by (simp add: small_heap_ok(3))

lemma small_heap_malloc: "\<exists>h'. rt_malloc 100 small_heap = Some (Some 0x20001010, h')"
  by (rule small_heap_gives) simp_all

text \<open>C4 Safety of the heap. Whatever sequence of requests and releases a client makes, as long as it
  releases only what it holds, no call stops at an assertion or runs forever, the heap invariant is
  kept, every range the client holds is at least as long as it asked for, and no two of them
  overlap.\<close>

theorem heap_clients_are_safe:
  assumes "heap_ok h" "sizes_ok ops"
  shows "\<exists>held h'. alloc_run rt_malloc (\<lambda>p. rt_free (Some p)) ops [] h = Some (held, h') \<and> heap_ok h'
     \<and> sorted_wrt separate held \<and> (\<forall>x \<in> set held. \<exists>e. (fst x, e) \<in> in_use h' \<and> fst x + snd x \<le> e)"
proof -
  have "holds (in_use h) []" by (simp add: holds_def)
  from heapc.run_total [OF assms(1) this assms(2)] obtain held h' where
    "alloc_run rt_malloc (\<lambda>p. rt_free (Some p)) ops [] h = Some (held, h')" "heap_ok h'" "holds (in_use h') held" by blast
  then show ?thesis using heapc.held_separate [of h' held] by (auto simp: holds_def)
qed

theorem heap_clients_are_safe_witness:
  "\<exists>held h'. alloc_run rt_malloc (\<lambda>p. rt_free (Some p)) [Request 100, Request 50, Release 0, Request 20] [] small_heap
     = Some (held, h') \<and> heap_ok h' \<and> sorted_wrt separate held
     \<and> (\<forall>x \<in> set held. \<exists>e. (fst x, e) \<in> in_use h' \<and> fst x + snd x \<le> e)"
  by (rule heap_clients_are_safe) (simp_all add: small_heap_ok)

text \<open>C17 \<open>rt_malloc\<close> is first fit, but for one case: it returns, the answer is the lowest free block that is
  large enough for the rounded request, and the answer is null when no block is large enough or when
  the only one is the last block of the heap and the request would fill it exactly to the end of the
  heap, which the strict bound of the search loop refuses.\<close>

theorem malloc_is_first_fit:
  assumes "heap_ok h" "0 < n" "n + 7 < 2 ^ 32"
  shows "\<exists>h'. rt_malloc n h = Some
    (if \<exists>b \<in> heap_blocks h. large_enough h (request n) b \<and> b + 16 + request n \<noteq> heap_end h
     then Some (heap_ptr h + (LEAST b. b \<in> heap_blocks h \<and> large_enough h (request n) b) + 16) else None, h')"
  by (rule rt_malloc_first_large [OF assms])

theorem malloc_is_first_fit_witness:
  "\<exists>h'. rt_malloc 100 small_heap = Some (Some 0x20001010, h')"
  using malloc_is_first_fit [OF small_heap_ok(1), of 100] small_heap_large [of 100] by (simp add: small_heap_ok(3))

text \<open>On the example heap, the one request that needs exactly all of it is refused.\<close>

lemma small_heap_exact_refused: "\<exists>h'. rt_malloc 4064 small_heap = Some (None, h')"
  by (rule malloc_exact_last_refused [OF small_heap_ok(1), of _ 0])
    (use small_heap_free in \<open>simp_all add: large_enough_def small_heap_ok request_def small_heap_end\<close>)

text \<open>\<open>rt_malloc\<close> followed by \<open>rt_free\<close> of the pointer it gave: the free returns, and the same ranges
  are in use as before.\<close>

theorem malloc_free_roundtrip:
  assumes "heap_ok h" "n + 7 < 2 ^ 32" "rt_malloc n h = Some (Some p, h1)"
  shows "\<exists>h2. rt_free (Some p) h1 = Some h2 \<and> heap_ok h2 \<and> in_use h2 = in_use h"
proof -
  from malloc_ok [OF assms(1,2)] assms(3) obtain e where
    e: "heap_ok h1" "in_use h1 = insert (p, e) (in_use h)" "\<forall>z. (p, z) \<notin> in_use h" by auto
  then obtain h2 where "rt_free (Some p) h1 = Some h2" "heap_ok h2" "in_use h2 = in_use h1 - {(p, e)}"
    using free_ok [of h1 p e] by auto
  then show ?thesis using e(2,3) by auto
qed

theorem malloc_free_roundtrip_witness:
  "\<exists>h1 h2. rt_malloc 100 small_heap = Some (Some 0x20001010, h1) \<and> rt_free (Some 0x20001010) h1 = Some h2
     \<and> in_use h2 = {}"
proof -
  obtain h1 where h1: "rt_malloc 100 small_heap = Some (Some 0x20001010, h1)" using small_heap_malloc by blast
  have "\<exists>h2. rt_free (Some 0x20001010) h1 = Some h2 \<and> heap_ok h2 \<and> in_use h2 = in_use small_heap"
    by (rule malloc_free_roundtrip [OF small_heap_ok(1) _ h1]) simp
  then show ?thesis using h1 small_heap_ok(2) by auto
qed



section \<open>Kernel service\<close>

text \<open>The table-driven bit search \<open>__rt_ffs\<close> computes the number of the lowest set bit, counted from one,
  and zero for a word without one.\<close>

theorem ffs_is_lowest_bit: "rt_ffs v = (if v = 0 then 0 else Suc (LEAST j. bit v j))"
proof (cases "v = 0")
  case True
  then show ?thesis by (simp add: rt_ffs_def)
next
  case False
  have "(LEAST j. bit v j) = rt_ffs v - 1"
    using rt_ffs_least [OF False] by (intro Least_equality) (auto simp: not_less [symmetric])
  then show ?thesis using rt_ffs_pos [OF False] False by simp
qed

text \<open>The unrolled word copy of \<open>rt_memset\<close> writes the low byte of its argument to every byte of the range
  and nothing else.\<close>

theorem memset_fills_range:
  "rt_memset m s c n a = (if s \<le> a \<and> a < s + n then ucast (c AND 0xff) else m a)"
  by (simp add: rt_memset_fill fill_def)

text \<open>C35 \<open>rt_memmove\<close> copies correctly for every overlap of the ranges, and the unrolled \<open>rt_memcpy\<close> agrees
  with it unless the destination starts inside the source.\<close>

theorem memmove_and_memcpy_copy:
  "rt_memmove m dst src n a = (if dst \<le> a \<and> a < dst + n then m (src + (a - dst)) else m a)
   \<and> (src + n \<le> dst \<or> dst \<le> src \<longrightarrow> rt_memcpy m dst src n = rt_memmove m dst src n)"
  by (simp add: rt_memmove_blit rt_memcpy_blit) (simp add: blit_def)

theorem memmove_and_memcpy_copy_witness:
  "rt_memmove (\<lambda>a. of_nat a) 101 100 20 120 = 119 \<and> rt_memcpy (\<lambda>a. of_nat a) 200 100 40 = rt_memmove (\<lambda>a. of_nat a) 200 100 40"
  using memmove_and_memcpy_copy [of "\<lambda>a. of_nat a" 101 100 20 120]
    memmove_and_memcpy_copy [of "\<lambda>a. of_nat a" 200 100 40] by simp

text \<open>C34 \<open>rt_strstr\<close> on two terminated strings returns the first position at which the second occurs in the
  first, and null exactly when it does not occur.\<close>

theorem strstr_finds_first:
  assumes "0 \<in> set s1" "0 \<in> set s2"
  shows "\<exists>r. rt_strstr s1 s2 = Some r \<and> (case r of
       Some i \<Rightarrow> (\<exists>us vs. cstring s1 = us @ cstring s2 @ vs \<and> length us = i)
          \<and> (\<forall>us vs. cstring s1 = us @ cstring s2 @ vs \<longrightarrow> i \<le> length us)
     | None \<Rightarrow> \<not> (\<exists>us vs. cstring s1 = us @ cstring s2 @ vs))"
proof (cases "cstring s2 = []")
  case True
  then show ?thesis using rt_strlen_cstring [OF assms(2)] by (auto simp: rt_strstr_def)
next
  case False
  let ?p = "cstring s2" and ?l = "length (cstring s1)"
  have pre: "s2 = ?p @ dropWhile (\<lambda>c. c \<noteq> 0) s2" "s1 = cstring s1 @ dropWhile (\<lambda>c. c \<noteq> 0) s1"
    by (simp_all add: cstring_def)
  then have "?l \<le> length s1" by (metis length_append le_add1)
  from strstr_loop_spec [OF this refl, of ?p "dropWhile (\<lambda>c. c \<noteq> 0) s2" 0] False pre(1) obtain r where
    r: "strstr_loop s1 s2 ?l (length ?p) 0 = Some r"
    "case r of Some i \<Rightarrow> i + length ?p \<le> ?l \<and> take (length ?p) (drop i s1) = ?p \<and> (\<forall>j < i. take (length ?p) (drop j s1) \<noteq> ?p)
     | None \<Rightarrow> \<forall>j. j + length ?p \<le> ?l \<longrightarrow> take (length ?p) (drop j s1) \<noteq> ?p" by (auto split: option.splits)
  have view: "take (length ?p) (drop j s1) = take (length ?p) (drop j (cstring s1))" if "j + length ?p \<le> ?l" for j
  proof -
    have "drop j s1 = drop j (cstring s1) @ dropWhile (\<lambda>c. c \<noteq> 0) s1"
      using pre(2) that by (metis add_leD1 append_Nil2 diff_is_0_eq drop_0 drop_append)
    then show ?thesis using that by simp
  qed
  have occurs: "(\<exists>us vs. cstring s1 = us @ ?p @ vs \<and> length us = j)
    = (j + length ?p \<le> ?l \<and> take (length ?p) (drop j (cstring s1)) = ?p)" for j
  proof
    assume "\<exists>us vs. cstring s1 = us @ ?p @ vs \<and> length us = j"
    then show "j + length ?p \<le> ?l \<and> take (length ?p) (drop j (cstring s1)) = ?p" by auto
  next
    assume j: "j + length ?p \<le> ?l \<and> take (length ?p) (drop j (cstring s1)) = ?p"
    then have "cstring s1 = take j (cstring s1) @ ?p @ drop (length ?p) (drop j (cstring s1))" by (metis append_take_drop_id)
    then show "\<exists>us vs. cstring s1 = us @ ?p @ vs \<and> length us = j"
      using j by (intro exI [of _ "take j (cstring s1)"] exI conjI) auto
  qed
  have "rt_strstr s1 s2 = Some r"
    using r(1) False rt_strlen_cstring [OF assms(1)] rt_strlen_cstring [OF assms(2)] by (simp add: rt_strstr_def)
  moreover have "case r of
       Some i \<Rightarrow> (\<exists>us vs. cstring s1 = us @ ?p @ vs \<and> length us = i) \<and> (\<forall>us vs. cstring s1 = us @ ?p @ vs \<longrightarrow> i \<le> length us)
     | None \<Rightarrow> \<not> (\<exists>us vs. cstring s1 = us @ ?p @ vs)"
  proof (cases r)
    case None
    then show ?thesis using r(2) view occurs by auto metis
  next
    case (Some i)
    then have i: "i + length ?p \<le> ?l" "take (length ?p) (drop i s1) = ?p" "\<forall>j < i. take (length ?p) (drop j s1) \<noteq> ?p"
      using r(2) by simp_all
    have "i \<le> length us" if "cstring s1 = us @ ?p @ vs" for us vs
      using occurs [of "length us"] view [of "length us"] i(3) that by (metis not_less)
    then show ?thesis using Some occurs [of i] view [of i] i(1,2) by auto
  qed
  ultimately show ?thesis by blast
qed

theorem strstr_finds_first_witness:
  "rt_strstr [97, 98, 97, 98, 99, 0] [97, 98, 99, 0] = Some (Some 2)"
proof -
  have "\<exists>r. rt_strstr [97, 98, 97, 98, 99, 0] [97, 98, 99, 0] = Some r" 
    using strstr_finds_first [of "[97, 98, 97, 98, 99, 0]" "[97, 98, 99, 0]"] by auto
  then show ?thesis by (simp add: rt_strstr_def rt_memcmp.simps)
qed

section \<open>Ring buffer\<close>

text \<open>A ring buffer of 16 bytes at address 1000.\<close>

definition small_ring :: rt_ringbuffer where
  "small_ring = the (rt_ringbuffer_init 1000 20)"

lemma small_ring_ok: "rb_inv small_ring" "rb_size small_ring = 16" "buffer_ptr small_ring = 1000" "rb_len small_ring = 0"
proof -
  obtain rb where rb: "rt_ringbuffer_init 1000 20 = Some rb" "rb_inv rb" "rb_size rb = 16" "buffer_ptr rb = 1000"
    "rb_content rb (\<lambda>_. 0) = []"
    using rt_ringbuffer_init_spec [of 20 1000 "\<lambda>_. 0"] by auto
  have e: "small_ring = rb" by (simp add: small_ring_def rb(1))
  have "length (rb_content rb (\<lambda>_. 0)) = rb_len rb" by (simp add: rb_content_def)
  then show "rb_inv small_ring" "rb_size small_ring = 16" "buffer_ptr small_ring = 1000" "rb_len small_ring = 0"
    using rb(2-5) by (simp_all add: e)
qed

text \<open>C24 A block put into a ring buffer and read back: the put stores as many bytes as there is room
  for, behind what the buffer holds; a get of everything delivers the old bytes and then the new
  ones, in order, and leaves the buffer empty.\<close>

theorem ringbuffer_put_get_roundtrip:
  assumes "rb_inv rb" "apart rb src (unat len)" "apart rb dst (rb_size rb)"
  defines "k \<equiv> min (unat len) (rb_size rb - rb_len rb)"
  shows "\<exists>rb1 m1 rb2 m2. rt_ringbuffer_put rb m src len = (of_nat k, rb1, m1)
     \<and> rt_ringbuffer_get rb1 m1 dst (of_nat (rb_size rb)) = (of_nat (rb_len rb + k), rb2, m2)
     \<and> bytes_at m2 dst (rb_len rb + k) = rb_content rb m @ bytes_at m src k \<and> rb_inv rb2 \<and> rb_len rb2 = 0"
proof -
  from rt_ringbuffer_put_spec [OF assms(1,2), of m] obtain rb1 m1 where
    1: "rt_ringbuffer_put rb m src len = (of_nat k, rb1, m1)" "rb_inv rb1" "rb_size rb1 = rb_size rb"
    "buffer_ptr rb1 = buffer_ptr rb" "rb_content rb1 m1 = rb_content rb m @ bytes_at m src k" unfolding k_def by blast
  have len: "length (rb_content r x) = rb_len r" for r x by (simp add: rb_content_def)
  have l1: "rb_len rb1 = rb_len rb + k" using arg_cong [OF 1(5), of length] by (simp add: len)
  have n: "unat (of_nat (rb_size rb) :: u16) = rb_size rb" using rb_invD(2) [OF assms(1)] by (simp add: unat_of_nat)
  have ap: "apart rb1 dst (unat (of_nat (rb_size rb) :: u16))" using assms(3) 1(3,4) unfolding n by (simp add: apart_def)
  have m: "min (unat (of_nat (rb_size rb) :: u16)) (rb_len rb1) = rb_len rb + k"
    unfolding n using rb_invD(6) [OF 1(2)] l1 1(3) by simp
  from rt_ringbuffer_get_spec [OF 1(2) ap, of m1, unfolded m] obtain rb2 m2 where
    2: "rt_ringbuffer_get rb1 m1 dst (of_nat (rb_size rb)) = (of_nat (rb_len rb + k), rb2, m2)" "rb_inv rb2"
    "bytes_at m2 dst (rb_len rb + k) = take (rb_len rb + k) (rb_content rb1 m1)"
    "rb_content rb2 m2 = drop (rb_len rb + k) (rb_content rb1 m1)" by blast
  have "rb_len rb2 = 0" using arg_cong [OF 2(4), of length] l1 by (simp add: len)
  then show ?thesis using 1(1,5) 2 len [of rb m] by (auto simp: k_def)
qed

theorem ringbuffer_put_get_roundtrip_witness:
  "\<exists>rb1 m1 rb2 m2. rt_ringbuffer_put small_ring (\<lambda>a. of_nat a) 2000 5 = (5, rb1, m1)
     \<and> rt_ringbuffer_get rb1 m1 3000 16 = (5, rb2, m2) \<and> bytes_at m2 3000 5 = bytes_at (\<lambda>a. of_nat a) 2000 5"
proof -
  have c: "rb_content small_ring m = []" for m using small_ring_ok(4) by (simp add: rb_content_def ring_content_def)
  show ?thesis
    using ringbuffer_put_get_roundtrip [OF small_ring_ok(1), of 2000 5 3000 "\<lambda>a. of_nat a"] small_ring_ok
    by (auto simp: apart_def c)
qed

text \<open>C15 Used a character at a time, the ring buffer refines a bounded first-in-first-out queue: any
  sequence of \<open>rt_ringbuffer_putchar\<close> and \<open>rt_ringbuffer_getchar\<close> that never overfills it or reads it
  empty delivers the characters in the order they were put.\<close>

theorem ringbuffer_chars_in_order:
  assumes "rb_inv rb" "balanced (rbc_cap (rb, m)) (rbc_len (rb, m)) ops"
  shows "\<exists>ys rb' m'. fifo_run rbc_cap rbc_len rbc_put rbc_get ops (rb, m) = Some (ys, (rb', m')) \<and> rb_inv rb'
     \<and> rb_content rb m @ inputs ops = ys @ rb_content rb' m'"
  using rbc.run_fifo [of "(rb, m)" ops] assms by auto

theorem ringbuffer_chars_in_order_witness:
  "\<exists>ys rb' m'. fifo_run rbc_cap rbc_len rbc_put rbc_get [Put 1, Put 2, Get, Put 3, Get] (small_ring, \<lambda>_. 0) = Some (ys, (rb', m'))
     \<and> [1, 2, 3] = ys @ rb_content rb' m'"
proof -
  have c: "rb_content small_ring m = []" for m using small_ring_ok(4) by (simp add: rb_content_def ring_content_def)
  have b: "balanced (rbc_cap (small_ring, \<lambda>_. 0)) (rbc_len (small_ring, \<lambda>_. 0)) [Put 1, Put 2, Get, Put 3, Get]"
    by (simp add: rbc_views(1,2) [OF small_ring_ok(1)] small_ring_ok)
  show ?thesis using ringbuffer_chars_in_order [OF small_ring_ok(1) b] by (auto simp: c simp del: fifo_run.simps)
qed

text \<open>Putting a block by force into a full buffer, or into one with room for it: as many bytes as the
  buffer can hold are stored behind the old content, and a full buffer loses exactly as many of its
  oldest bytes.\<close>

theorem put_force_discards_oldest:
  assumes "rb_inv rb" "apart rb ptr (unat len)" "rb_len rb = rb_size rb \<or> rb_len rb + unat len \<le> rb_size rb"
  defines "k \<equiv> min (unat len) (rb_size rb)"
  shows "\<exists>rb' m'. rt_ringbuffer_put_force rb m ptr len = (of_nat k, rb', m') \<and> rb_inv rb' \<and> rb_size rb' = rb_size rb
     \<and> rb_content rb' m' = (if rb_len rb = rb_size rb then drop k (rb_content rb m) else rb_content rb m) @ bytes_at m ptr k"
  unfolding k_def by (rule rt_ringbuffer_put_force_spec [OF assms(1-3)])

theorem put_force_discards_oldest_witness:
  "\<exists>rb' m'. rt_ringbuffer_put_force (advance_w 16 small_ring) (\<lambda>a. of_nat a) 2000 3 = (3, rb', m') \<and> rb_inv rb'
     \<and> rb_content rb' m' = drop 3 (rb_content (advance_w 16 small_ring) (\<lambda>a. of_nat a)) @ bytes_at (\<lambda>a. of_nat a) 2000 3"
proof -
  have l: "rb_len small_ring + 16 \<le> rb_size small_ring" by (simp add: small_ring_ok)
  have a: "rb_inv (advance_w 16 small_ring)" "rb_size (advance_w 16 small_ring) = 16" "rb_len (advance_w 16 small_ring) = 16"
    "buffer_ptr (advance_w 16 small_ring) = 1000"
    using advance_w [OF small_ring_ok(1) l] by (simp_all add: small_ring_ok)
  show ?thesis using put_force_discards_oldest [OF a(1), of 2000 3 "\<lambda>a. of_nat a"] a by (auto simp: apart_def)
qed

end
