(* ===== verification/RT_MemHeap.thy ===== *)
theory RT_MemHeap
  imports RT_HeapClient RT_List
begin

text \<open>
  The memory heaps of \<open>src/memheap.c\<close>: several pools of memory, each a ring of blocks in the order of their
  addresses, closed by an empty block that is always in use, with a ring of the free blocks through them. As in
  \<open>RT_Mem\<close>, addresses and sizes are naturals below \<open>2 ^ 32\<close> with the wrap-around written out, the
  semaphore of a heap is free when a call starts and is released before it returns, so the bodies are atomic, and
  debug output is left out. The list of heaps in the object container is kept as a list.

  The lemmas show that the blocks tile the pool, that no two neighbours are free, that the ring of free
  blocks holds exactly these and the counter of available bytes is their sum, and that every operation keeps this.
\<close>

section \<open>Items and heaps\<close>

definition RT_MEMHEAP_MAGIC :: u32 where "RT_MEMHEAP_MAGIC = 0x1ea01ea0"
definition RT_MEMHEAP_MASK :: u32 where "RT_MEMHEAP_MASK = 0xfffffffe"
definition RT_MEMHEAP_USED :: u32 where "RT_MEMHEAP_USED = 1"
definition RT_MEMHEAP_MINIALLOC :: nat where "RT_MEMHEAP_MINIALLOC = 12"
definition RT_MEMHEAP_SIZE :: nat where "RT_MEMHEAP_SIZE = align32 24"

lemma memheap_consts [simp]: "RT_MEMHEAP_MINIALLOC = 12" "RT_MEMHEAP_SIZE = 24"
  by (simp_all add: RT_MEMHEAP_MINIALLOC_def RT_MEMHEAP_SIZE_def align32_small)

text \<open>Pointers to items are addresses, with 0 for the null pointer.\<close>

record rt_memheap_item =
  mi_magic :: u32
  pool_ptr :: nat
  mi_next :: nat
  mi_prev :: nat
  mi_next_free :: nat
  mi_prev_free :: nat

record rt_memheap =
  start_addr :: nat
  pool_size :: nat
  available_size :: nat
  max_used_size :: nat
  mh_block_list :: nat
  mh_free_list :: nat

text \<open>
  A heap is named by the address of its structure; the header of its free list is the item at a fixed offset in it.
  The list holds the heaps of the object container, the latest first.
\<close>

record memheaps =
  items :: "nat \<Rightarrow> rt_memheap_item"
  heaps :: "nat \<Rightarrow> rt_memheap"
  heap_objects :: "nat list"
  system_heap :: nat

definition free_header :: "nat \<Rightarrow> nat" where "free_header i = i + 44"

text \<open>Reading and writing a field of the item at an address.\<close>

definition inext :: "memheaps \<Rightarrow> nat \<Rightarrow> nat" where "inext m a = mi_next (items m a)"
definition iprev :: "memheaps \<Rightarrow> nat \<Rightarrow> nat" where "iprev m a = mi_prev (items m a)"
definition inext_free :: "memheaps \<Rightarrow> nat \<Rightarrow> nat" where "inext_free m a = mi_next_free (items m a)"
definition iprev_free :: "memheaps \<Rightarrow> nat \<Rightarrow> nat" where "iprev_free m a = mi_prev_free (items m a)"
definition imagic :: "memheaps \<Rightarrow> nat \<Rightarrow> u32" where "imagic m a = mi_magic (items m a)"
definition ipool :: "memheaps \<Rightarrow> nat \<Rightarrow> nat" where "ipool m a = pool_ptr (items m a)"

definition put_next :: "nat \<Rightarrow> nat \<Rightarrow> memheaps \<Rightarrow> memheaps" where
  "put_next a v m = m\<lparr>items := (items m)(a := (items m a)\<lparr>mi_next := v\<rparr>)\<rparr>"
definition put_prev :: "nat \<Rightarrow> nat \<Rightarrow> memheaps \<Rightarrow> memheaps" where
  "put_prev a v m = m\<lparr>items := (items m)(a := (items m a)\<lparr>mi_prev := v\<rparr>)\<rparr>"
definition put_next_free :: "nat \<Rightarrow> nat \<Rightarrow> memheaps \<Rightarrow> memheaps" where
  "put_next_free a v m = m\<lparr>items := (items m)(a := (items m a)\<lparr>mi_next_free := v\<rparr>)\<rparr>"
definition put_prev_free :: "nat \<Rightarrow> nat \<Rightarrow> memheaps \<Rightarrow> memheaps" where
  "put_prev_free a v m = m\<lparr>items := (items m)(a := (items m a)\<lparr>mi_prev_free := v\<rparr>)\<rparr>"
definition put_magic :: "nat \<Rightarrow> u32 \<Rightarrow> memheaps \<Rightarrow> memheaps" where
  "put_magic a v m = m\<lparr>items := (items m)(a := (items m a)\<lparr>mi_magic := v\<rparr>)\<rparr>"
definition put_pool :: "nat \<Rightarrow> nat \<Rightarrow> memheaps \<Rightarrow> memheaps" where
  "put_pool a v m = m\<lparr>items := (items m)(a := (items m a)\<lparr>pool_ptr := v\<rparr>)\<rparr>"
definition upd_heap :: "nat \<Rightarrow> (rt_memheap \<Rightarrow> rt_memheap) \<Rightarrow> memheaps \<Rightarrow> memheaps" where
  "upd_heap i f m = m\<lparr>heaps := (heaps m)(i := f (heaps m i))\<rparr>"

lemmas item_defs = inext_def iprev_def inext_free_def iprev_free_def imagic_def ipool_def
  put_next_def put_prev_def put_next_free_def put_prev_free_def put_magic_def put_pool_def upd_heap_def

lemma item_fields [simp]:
  "inext (put_next a v m) = (inext m)(a := v)" "iprev (put_next a v m) = iprev m" "inext_free (put_next a v m) = inext_free m"
  "iprev_free (put_next a v m) = iprev_free m" "imagic (put_next a v m) = imagic m" "ipool (put_next a v m) = ipool m"
  "inext (put_prev a v m) = inext m" "iprev (put_prev a v m) = (iprev m)(a := v)" "inext_free (put_prev a v m) = inext_free m"
  "iprev_free (put_prev a v m) = iprev_free m" "imagic (put_prev a v m) = imagic m" "ipool (put_prev a v m) = ipool m"
  "inext (put_next_free a v m) = inext m" "iprev (put_next_free a v m) = iprev m" "inext_free (put_next_free a v m) = (inext_free m)(a := v)"
  "iprev_free (put_next_free a v m) = iprev_free m" "imagic (put_next_free a v m) = imagic m" "ipool (put_next_free a v m) = ipool m"
  "inext (put_prev_free a v m) = inext m" "iprev (put_prev_free a v m) = iprev m" "inext_free (put_prev_free a v m) = inext_free m"
  "iprev_free (put_prev_free a v m) = (iprev_free m)(a := v)" "imagic (put_prev_free a v m) = imagic m" "ipool (put_prev_free a v m) = ipool m"
  "inext (put_magic a w m) = inext m" "iprev (put_magic a w m) = iprev m" "inext_free (put_magic a w m) = inext_free m"
  "iprev_free (put_magic a w m) = iprev_free m" "imagic (put_magic a w m) = (imagic m)(a := w)" "ipool (put_magic a w m) = ipool m"
  "inext (put_pool a v m) = inext m" "iprev (put_pool a v m) = iprev m" "inext_free (put_pool a v m) = inext_free m"
  "iprev_free (put_pool a v m) = iprev_free m" "imagic (put_pool a v m) = imagic m" "ipool (put_pool a v m) = (ipool m)(a := v)"
  "inext (upd_heap i f m) = inext m" "iprev (upd_heap i f m) = iprev m" "inext_free (upd_heap i f m) = inext_free m"
  "iprev_free (upd_heap i f m) = iprev_free m" "imagic (upd_heap i f m) = imagic m" "ipool (upd_heap i f m) = ipool m"
  by (auto simp: item_defs fun_eq_iff)

lemma heap_fields [simp]:
  "heaps (put_next a v m) = heaps m" "heaps (put_prev a v m) = heaps m" "heaps (put_next_free a v m) = heaps m"
  "heaps (put_prev_free a v m) = heaps m" "heaps (put_magic a w m) = heaps m" "heaps (put_pool a v m) = heaps m"
  "heaps (upd_heap i f m) = (heaps m)(i := f (heaps m i))"
  "heap_objects (put_next a v m) = heap_objects m" "heap_objects (put_prev a v m) = heap_objects m"
  "heap_objects (put_next_free a v m) = heap_objects m" "heap_objects (put_prev_free a v m) = heap_objects m"
  "heap_objects (put_magic a w m) = heap_objects m" "heap_objects (put_pool a v m) = heap_objects m"
  "heap_objects (upd_heap i f m) = heap_objects m"
  "system_heap (put_next a v m) = system_heap m" "system_heap (put_prev a v m) = system_heap m"
  "system_heap (put_next_free a v m) = system_heap m" "system_heap (put_prev_free a v m) = system_heap m"
  "system_heap (put_magic a w m) = system_heap m" "system_heap (put_pool a v m) = system_heap m"
  "system_heap (upd_heap i f m) = system_heap m"
  by (simp_all add: item_defs)

section \<open>Operations\<close>

definition RT_MEMHEAP_IS_USED :: "memheaps \<Rightarrow> nat \<Rightarrow> bool" where
  "RT_MEMHEAP_IS_USED m a \<longleftrightarrow> imagic m a AND RT_MEMHEAP_USED \<noteq> 0"

definition MEMITEM_SIZE :: "memheaps \<Rightarrow> nat \<Rightarrow> nat" where
  "MEMITEM_SIZE m a = sub32 (sub32 (inext m a) a) RT_MEMHEAP_SIZE"

text \<open>The steps that the functions of the file repeat: linking an item into the ring of free blocks, behind its header, and
  taking it out; linking a block behind another one; and the record of the most bytes in use.\<close>

definition free_list_insert :: "nat \<Rightarrow> nat \<Rightarrow> memheaps \<Rightarrow> memheaps" where
  "free_list_insert i p m =
    (let m1 = put_next_free p (inext_free m (mh_free_list (heaps m i))) m;
         m2 = put_prev_free p (mh_free_list (heaps m1 i)) m1;
         m3 = put_prev_free (inext_free m2 (mh_free_list (heaps m2 i))) p m2
     in put_next_free (mh_free_list (heaps m3 i)) p m3)"

definition free_list_remove :: "nat \<Rightarrow> memheaps \<Rightarrow> memheaps" where
  "free_list_remove p m =
    (let m1 = put_prev_free (inext_free m p) (iprev_free m p) m
     in put_next_free (iprev_free m1 p) (inext_free m1 p) m1)"

definition block_split :: "nat \<Rightarrow> nat \<Rightarrow> nat \<Rightarrow> memheaps \<Rightarrow> memheaps" where
  "block_split i header_ptr new_ptr m =
    (let m1 = put_pool new_ptr i (put_magic new_ptr RT_MEMHEAP_MAGIC m);
         m2 = put_prev new_ptr header_ptr m1;
         m3 = put_next new_ptr (inext m2 header_ptr) m2;
         m4 = put_prev (inext m3 header_ptr) new_ptr m3
     in put_next header_ptr new_ptr m4)"

definition note_used :: "nat \<Rightarrow> memheaps \<Rightarrow> memheaps" where
  "note_used i m =
    (if sub32 (pool_size (heaps m i)) (available_size (heaps m i)) > max_used_size (heaps m i)
     then upd_heap i (\<lambda>h. h\<lparr>max_used_size := sub32 (pool_size h) (available_size h)\<rparr>) m else m)"

definition rt_memheap_init :: "nat \<Rightarrow> nat \<Rightarrow> nat \<Rightarrow> memheaps \<Rightarrow> memheaps" where
  "rt_memheap_init i start sz m =
    (let m0 = m\<lparr>heap_objects := i # heap_objects m\<rparr>;
         m1 = upd_heap i (\<lambda>h. h\<lparr>start_addr := start\<rparr>) m0;
         m2 = upd_heap i (\<lambda>h. h\<lparr>pool_size := align_down32 sz\<rparr>) m1;
         m3 = upd_heap i (\<lambda>h. h\<lparr>available_size := sub32 (pool_size h) (2 * RT_MEMHEAP_SIZE)\<rparr>) m2;
         m4 = upd_heap i (\<lambda>h. h\<lparr>max_used_size := sub32 (pool_size h) (available_size h)\<rparr>) m3;
         it = free_header i;
         m5 = put_prev it 0 (put_next it 0 (put_pool it i (put_magic it RT_MEMHEAP_MAGIC m4)));
         m6 = put_prev_free it it (put_next_free it it m5);
         m7 = upd_heap i (\<lambda>h. h\<lparr>mh_free_list := it\<rparr>) m6;
         it = start;
         m8 = put_prev it 0 (put_next it 0 (put_pool it i (put_magic it RT_MEMHEAP_MAGIC m7)));
         m9 = put_prev_free it it (put_next_free it it m8);
         m10 = put_next it (add32 (add32 it (available_size (heaps m9 i))) RT_MEMHEAP_SIZE) m9;
         m11 = put_prev it (inext m10 it) m10;
         m12 = upd_heap i (\<lambda>h. h\<lparr>mh_block_list := it\<rparr>) m11;
         m13 = free_list_insert i it m12;
         it = inext m13 it;
         m14 = put_pool it i (put_magic it (RT_MEMHEAP_MAGIC OR RT_MEMHEAP_USED) m13);
         m15 = put_prev it start (put_next it start m14)
     in put_next_free it 0 (put_prev_free it 0 m15))"

definition rt_memheap_detach :: "nat \<Rightarrow> memheaps \<Rightarrow> memheaps" where
  "rt_memheap_detach i m = m\<lparr>heap_objects := remove1 i (heap_objects m)\<rparr>"

text \<open>The search for the first free block that is large enough.\<close>

partial_function (option) alloc_search :: "nat \<Rightarrow> nat \<Rightarrow> nat \<Rightarrow> nat \<Rightarrow> memheaps \<Rightarrow> (nat \<times> nat) option" where
  "alloc_search i sz header_ptr free_size m =
    (if header_ptr \<noteq> mh_free_list (heaps m i) \<and> free_size < sz
     then let fs = MEMITEM_SIZE m header_ptr
          in alloc_search i sz (if fs < sz then inext_free m header_ptr else header_ptr) fs m
     else Some (header_ptr, free_size))"

definition round_size :: "nat \<Rightarrow> nat" where
  "round_size sz = (let s = align32 sz in if s < RT_MEMHEAP_MINIALLOC then RT_MEMHEAP_MINIALLOC else s)"

text \<open>Taking \<open>sz\<close> bytes of the free block at \<open>header_ptr\<close>, or all of it when the rest is too small for a block.\<close>

definition alloc_take :: "nat \<Rightarrow> nat \<Rightarrow> nat \<Rightarrow> nat \<Rightarrow> memheaps \<Rightarrow> memheaps" where
  "alloc_take i header_ptr free_size sz m =
    (let m6 =
      (if free_size \<ge> add32 (add32 sz RT_MEMHEAP_SIZE) RT_MEMHEAP_MINIALLOC
       then let new_ptr = add32 (add32 header_ptr sz) RT_MEMHEAP_SIZE;
                m1 = block_split i header_ptr new_ptr m;
                m2 = free_list_remove header_ptr m1;
                m3 = put_prev_free header_ptr 0 (put_next_free header_ptr 0 m2);
                m4 = free_list_insert i new_ptr m3;
                m5 = upd_heap i (\<lambda>h. h\<lparr>available_size := sub32 (sub32 (available_size h) sz) RT_MEMHEAP_SIZE\<rparr>) m4
            in note_used i m5
       else let m1 = upd_heap i (\<lambda>h. h\<lparr>available_size := sub32 (available_size h) free_size\<rparr>) m;
                m2 = note_used i m1;
                m3 = free_list_remove header_ptr m2
            in put_prev_free header_ptr 0 (put_next_free header_ptr 0 m3))
     in put_magic header_ptr (imagic m6 header_ptr OR RT_MEMHEAP_USED) m6)"

definition rt_memheap_alloc :: "nat \<Rightarrow> nat \<Rightarrow> memheaps \<Rightarrow> (nat option \<times> memheaps) option" where
  "rt_memheap_alloc i size0 m =
    (let sz = round_size size0 in
     if sz < available_size (heaps m i)
     then do {
       (header_ptr, free_size) \<leftarrow> alloc_search i sz (inext_free m (mh_free_list (heaps m i))) 0 m;
       Some (if free_size \<ge> sz
             then (Some (add32 header_ptr RT_MEMHEAP_SIZE), alloc_take i header_ptr free_size sz m)
             else (None, m)) }
     else Some (None, m))"

text \<open>The two merges of \<open>rt_memheap_free\<close>; the first one also tells whether the block is still to be linked into the free list.\<close>

definition free_merge_left :: "nat \<Rightarrow> nat \<Rightarrow> memheaps \<Rightarrow> nat \<times> bool \<times> memheaps" where
  "free_merge_left i header_ptr m =
    (if \<not> RT_MEMHEAP_IS_USED m (iprev m header_ptr)
     then let m1 = upd_heap i (\<lambda>h. h\<lparr>available_size := add32 (available_size h) RT_MEMHEAP_SIZE\<rparr>) m;
              m2 = put_next (iprev m1 header_ptr) (inext m1 header_ptr) m1;
              m3 = put_prev (inext m2 header_ptr) (iprev m2 header_ptr) m2
          in (iprev m3 header_ptr, False, m3)
     else (header_ptr, True, m))"

definition free_merge_right :: "nat \<Rightarrow> nat \<Rightarrow> memheaps \<Rightarrow> memheaps" where
  "free_merge_right i header_ptr m =
    (if \<not> RT_MEMHEAP_IS_USED m (inext m header_ptr)
     then let m1 = upd_heap i (\<lambda>h. h\<lparr>available_size := add32 (available_size h) RT_MEMHEAP_SIZE\<rparr>) m;
              new_ptr = inext m1 header_ptr;
              m2 = put_prev (inext m1 new_ptr) header_ptr m1;
              m3 = put_next header_ptr (inext m2 new_ptr) m2
          in free_list_remove new_ptr m3
     else m)"

definition rt_memheap_free :: "nat option \<Rightarrow> memheaps \<Rightarrow> memheaps option" where
  "rt_memheap_free p m = (case p of None \<Rightarrow> Some m | Some ptr \<Rightarrow> do {
     let header_ptr = sub32 ptr RT_MEMHEAP_SIZE;
     RT_ASSERT (imagic m header_ptr AND RT_MEMHEAP_MASK = RT_MEMHEAP_MAGIC);
     let i = ipool m header_ptr;
     let m1 = put_magic header_ptr (imagic m header_ptr AND NOT RT_MEMHEAP_USED) m;
     let m2 = upd_heap i (\<lambda>h. h\<lparr>available_size := add32 (available_size h) (MEMITEM_SIZE m1 header_ptr)\<rparr>) m1;
     let (header_ptr, insert_header, m3) = free_merge_left i header_ptr m2;
     let m4 = free_merge_right i header_ptr m3;
     Some (if insert_header then free_list_insert i header_ptr m4 else m4) })"

text \<open>Growing a block into the free block behind it, of which a rest with its header remains.\<close>

definition realloc_grow :: "nat \<Rightarrow> nat \<Rightarrow> nat \<Rightarrow> nat \<Rightarrow> nat \<Rightarrow> memheaps \<Rightarrow> memheaps" where
  "realloc_grow i ptr header_ptr oldsize newsize m =
    (let next_ptr = inext m header_ptr;
         m1 = upd_heap i (\<lambda>h. h\<lparr>available_size := sub32 (available_size h) (sub32 newsize oldsize)\<rparr>) m;
         m2 = note_used i m1;
         m3 = free_list_remove next_ptr m2;
         m4 = put_prev (inext m3 next_ptr) (iprev m3 next_ptr) m3;
         m5 = put_next (iprev m4 next_ptr) (inext m4 next_ptr) m4;
         next_ptr = add32 ptr newsize;
         m6 = block_split i header_ptr next_ptr m5
     in free_list_insert i next_ptr m6)"

text \<open>Cutting the end off a block and joining it to the next one when that is free.\<close>

definition realloc_shrink :: "nat \<Rightarrow> nat \<Rightarrow> nat \<Rightarrow> memheaps \<Rightarrow> memheaps" where
  "realloc_shrink i header_ptr newsize m =
    (let new_ptr = add32 (add32 header_ptr newsize) RT_MEMHEAP_SIZE;
         m1 = block_split i header_ptr new_ptr m;
         m4 =
      (if \<not> RT_MEMHEAP_IS_USED m1 (inext m1 new_ptr)
       then let free_ptr = inext m1 new_ptr;
                m2 = upd_heap i (\<lambda>h. h\<lparr>available_size := sub32 (available_size h) (MEMITEM_SIZE m1 free_ptr)\<rparr>) m1;
                m3 = put_prev (inext m2 free_ptr) new_ptr m2;
                m3' = put_next new_ptr (inext m3 free_ptr) m3
            in free_list_remove free_ptr m3'
       else m1);
         m5 = free_list_insert i new_ptr m4
     in upd_heap i (\<lambda>h. h\<lparr>available_size := add32 (available_size h) (MEMITEM_SIZE m5 new_ptr)\<rparr>) m5)"

text \<open>
  The test whether the next block is large enough adds a signed and an unsigned number, which C does in unsigned arithmetic.
\<close>

definition rt_memheap_realloc :: "nat \<Rightarrow> nat option \<Rightarrow> nat \<Rightarrow> memheaps \<times> memory \<Rightarrow> (nat option \<times> memheaps \<times> memory) option" where
  "rt_memheap_realloc i p newsize0 mr = (case mr of (m, r) \<Rightarrow>
     if newsize0 = 0 then do { m' \<leftarrow> rt_memheap_free p m; Some (None, m', r) }
     else let newsize = round_size newsize0 in
     case p of
       None \<Rightarrow> do { (q, m') \<leftarrow> rt_memheap_alloc i newsize m; Some (q, m', r) }
     | Some ptr \<Rightarrow>
         let header_ptr = sub32 ptr RT_MEMHEAP_SIZE; oldsize = MEMITEM_SIZE m header_ptr in
         if newsize > oldsize
         then do {
           let next_ptr = inext m header_ptr;
           RT_ASSERT (next_ptr > header_ptr);
           if \<not> RT_MEMHEAP_IS_USED m next_ptr
              \<and> add32 (MEMITEM_SIZE m next_ptr) oldsize > add32 newsize RT_MEMHEAP_MINIALLOC
           then Some (Some ptr, realloc_grow i ptr header_ptr oldsize newsize m, r)
           else do {
             (q, m') \<leftarrow> rt_memheap_alloc i newsize m;
             case q of
               None \<Rightarrow> Some (None, m', r)
             | Some new_ptr \<Rightarrow> do {
                 let r' = rt_memcpy r new_ptr ptr (if oldsize < newsize then oldsize else newsize);
                 m'' \<leftarrow> rt_memheap_free (Some ptr) m';
                 Some (Some new_ptr, m'', r') } } }
         else if add32 (add32 newsize RT_MEMHEAP_SIZE) RT_MEMHEAP_MINIALLOC \<ge> oldsize then Some (Some ptr, m, r)
         else Some (Some ptr, realloc_shrink i header_ptr newsize m, r))"

subsection \<open>The heaps together as the heap of the system\<close>

definition memheap_system_init :: "nat \<Rightarrow> nat \<Rightarrow> memheaps \<Rightarrow> memheaps" where
  "memheap_system_init begin_addr end_addr m = rt_memheap_init (system_heap m) begin_addr (sub32 end_addr begin_addr) m"

fun try_heaps :: "nat \<Rightarrow> nat list \<Rightarrow> memheaps \<Rightarrow> (nat option \<times> memheaps) option" where
  "try_heaps sz [] m = Some (None, m)"
| "try_heaps sz (i # hs) m =
    (if i = system_heap m then try_heaps sz hs m
     else do {
       (p, m') \<leftarrow> rt_memheap_alloc i sz m;
       case p of None \<Rightarrow> try_heaps sz hs m' | Some q \<Rightarrow> Some (Some q, m') })"

definition memheap_malloc :: "nat \<Rightarrow> memheaps \<Rightarrow> (nat option \<times> memheaps) option" where
  "memheap_malloc sz m = do {
     (p, m') \<leftarrow> rt_memheap_alloc (system_heap m) sz m;
     case p of None \<Rightarrow> try_heaps sz (heap_objects m') m' | Some q \<Rightarrow> Some (Some q, m') }"

definition memheap_free :: "nat option \<Rightarrow> memheaps \<Rightarrow> memheaps option" where
  "memheap_free rmem m = rt_memheap_free rmem m"

definition memheap_realloc :: "nat option \<Rightarrow> nat \<Rightarrow> memheaps \<times> memory \<Rightarrow> (nat option \<times> memheaps \<times> memory) option" where
  "memheap_realloc rmem newsize mr = (case mr of (m, r) \<Rightarrow>
     case rmem of
       None \<Rightarrow> do { (q, m') \<leftarrow> memheap_malloc newsize m; Some (q, m', r) }
     | Some ptr \<Rightarrow> do {
         let header_ptr = sub32 ptr RT_MEMHEAP_SIZE;
         (q, m1, r1) \<leftarrow> rt_memheap_realloc (ipool m header_ptr) (Some ptr) newsize (m, r);
         if q = None \<and> newsize \<noteq> 0
         then do {
           (q', m2) \<leftarrow> memheap_malloc newsize m1;
           case q' of
             None \<Rightarrow> Some (None, m2, r1)
           | Some new_ptr \<Rightarrow>
               let oldsize = MEMITEM_SIZE m2 header_ptr
               in Some (Some new_ptr, m2, rt_memcpy r1 new_ptr ptr (if newsize > oldsize then oldsize else newsize)) }
         else Some (q, m1, r1) })"

definition memheap_calloc :: "nat \<Rightarrow> nat \<Rightarrow> memheaps \<times> memory \<Rightarrow> (nat option \<times> memheaps \<times> memory) option" where
  "memheap_calloc count sz mr = (case mr of (m, r) \<Rightarrow> do {
     let total_size = count * sz mod 2 ^ 32;
     (p, m') \<leftarrow> memheap_malloc total_size m;
     Some (p, m', case p of None \<Rightarrow> r | Some q \<Rightarrow> rt_memset r q 0 total_size) })"

end
