(* ===== verification/RT_MemHeapInv.thy ===== *)
theory RT_MemHeapInv
  imports RT_MemHeap
begin

text \<open>
  The invariant of a memory heap and what each operation of \<open>src/memheap.c\<close> does to it. The two rings of a pool are
  described by predicates on the link functions alone, so that each step of the code is one lemma on
  these functions.
\<close>

section \<open>The ring of free blocks\<close>

definition flist :: "(nat \<Rightarrow> nat) \<Rightarrow> (nat \<Rightarrow> nat) \<Rightarrow> nat \<Rightarrow> nat list \<Rightarrow> bool" where
  "flist nf pf H fs \<longleftrightarrow> distinct (H # fs) \<and> lpath nf H fs H \<and> (\<forall>x \<in> set (H # fs). pf (nf x) = x)"

lemma lpath_range: "lpath f a xs b \<Longrightarrow> x \<in> set (a # xs) \<Longrightarrow> f x \<in> insert b (set xs)"
  by (induction xs arbitrary: a) auto

lemma lpath_cong: "(\<And>x. x \<in> set (a # xs) \<Longrightarrow> f x = g x) \<Longrightarrow> lpath f a xs b = lpath g a xs b"
  by (induction xs arbitrary: a) auto

lemma flistD:
  assumes "flist nf pf H fs"
  shows "distinct (H # fs)" "lpath nf H fs H" "x \<in> set (H # fs) \<Longrightarrow> pf (nf x) = x" "x \<in> set (H # fs) \<Longrightarrow> nf x \<in> set (H # fs)"
  using assms lpath_range [of nf H fs H x] by (auto simp: flist_def)

lemma flist_cong:
  assumes "\<And>x. x \<in> set (H # fs) \<Longrightarrow> nf' x = nf x" "\<And>x. x \<in> set (H # fs) \<Longrightarrow> pf' x = pf x" "flist nf pf H fs"
  shows "flist nf' pf' H fs"
proof -
  have "lpath nf' H fs H" using lpath_cong [of H fs nf' nf H] assms(1) flistD(2) [OF assms(3)] by simp
  moreover have "pf' (nf' x) = x" if "x \<in> set (H # fs)" for x
    using assms(1,2) flistD(3,4) [OF assms(3) that] that by simp
  ultimately show ?thesis using flistD(1) [OF assms(3)] by (simp add: flist_def)
qed

lemma flist_insert:
  assumes F: "flist nf pf H fs" and e: "e \<notin> set (H # fs)"
  shows "flist (nf(e := nf H, H := e)) (pf(e := H, nf H := e)) H (e # fs)"
proof -
  note D = flistD [OF F]
  let ?nf = "nf(e := nf H, H := e)" and ?pf = "pf(e := H, nf H := e)"
  have ne: "nf H \<noteq> e" using D(4) [of H] e by auto
  have "lpath ?nf e fs H"
  proof (cases fs)
    case (Cons x xs)
    have "lpath ?nf x xs H = lpath nf x xs H" by (rule lpath_cong) (use Cons e D(1) in auto)
    then show ?thesis using Cons D(2) e by simp
  qed (use D(2) e in simp)
  moreover have "?pf (?nf x) = x" if "x \<in> set (H # e # fs)" for x
  proof -
    note x = that
    consider "x = H" | "x = e" | "x \<in> set fs" using x by auto
    then show ?thesis
    proof cases
      case 3
      then have "nf x \<noteq> e" "x \<noteq> H" "x \<noteq> e" using D(1) D(4) [of x] e by auto
      moreover have "nf x \<noteq> nf H" using D(3) [of x] D(3) [of H] 3 \<open>x \<noteq> H\<close> by (metis list.set_intros)
      ultimately show ?thesis using D(3) [of x] 3 by simp
    qed (use e ne in auto)
  qed
  ultimately show ?thesis using D(1) e by (auto simp: flist_def)
qed

lemma flist_remove:
  assumes F: "flist nf pf H (us @ e # vs)"
  shows "flist (nf(pf e := nf e)) (pf(nf e := pf e)) H (us @ vs)" "pf e \<in> set (H # us)" "nf e \<in> set (H # vs)"
proof -
  note D = flistD [OF F]
  define p where "p = last (H # us)"
  have l: "lpath nf H us e" "lpath nf e vs H" using D(2) by simp_all
  have p: "nf p = e" "p \<in> set (H # us)" using l(1) unfolding p_def by (induction us arbitrary: H) auto
  have pe: "pf e = p" using D(3) [of p] p by auto
  show "pf e \<in> set (H # us)" using pe p by simp
  show n: "nf e \<in> set (H # vs)" using lpath_range [OF l(2), of e] by auto
  have inj: "nf x \<noteq> nf y" if "x \<in> set (H # us @ e # vs)" "y \<in> set (H # us @ e # vs)" "x \<noteq> y" for x y
    using D(3) [of x] D(3) [of y] that by auto
  have d: "distinct (H # us)" "distinct (H # vs)" "set us \<inter> set vs = {}" "e \<notin> set (H # us)" "e \<notin> set (H # vs)" using D(1) by auto
  have "lpath (nf(p := nf e)) H (us @ vs) H"
  proof (cases us rule: rev_cases)
    case Nil
    have "lpath (nf(H := nf e)) H vs H"
    proof (cases vs)
      case (Cons v ws)
      have "lpath (nf(H := nf e)) v ws H = lpath nf v ws H" by (rule lpath_cong) (use Cons d in auto)
      then show ?thesis using Cons l(2) by simp
    qed (use l(2) in simp)
    then show ?thesis using Nil by (simp add: p_def)
  next
    case (snoc ws w)
    then have w: "p = w" "lpath nf H ws w" using l(1) by (simp_all add: p_def)
    have "lpath (nf(w := nf e)) H ws w = lpath nf H ws w" by (rule lpath_cong) (use snoc d(1) in auto)
    moreover have "lpath (nf(w := nf e)) w vs H"
    proof (cases vs)
      case (Cons v xs)
      have "lpath (nf(w := nf e)) v xs H = lpath nf v xs H" by (rule lpath_cong) (use Cons snoc d(3) in auto)
      then show ?thesis using Cons l(2) by simp
    qed (use l(2) in simp)
    ultimately show ?thesis using w snoc by simp
  qed
  moreover have "(pf(nf e := p)) ((nf(p := nf e)) x) = x" if "x \<in> set (H # us @ vs)" for x
  proof (cases "x = p")
    case False
    have "x \<noteq> e" using that d by auto
    then have "nf x \<noteq> nf e" using inj [of x e] that by auto
    then show ?thesis using False D(3) [of x] that by auto
  qed simp
  ultimately show "flist (nf(pf e := nf e)) (pf(nf e := pf e)) H (us @ vs)" using D(1) pe by (auto simp: flist_def)
qed

section \<open>The ring of blocks\<close>

text \<open>The blocks lie between the first address and the last block, each at least twelve bytes long behind its header.\<close>

definition tiles :: "(nat \<Rightarrow> nat) \<Rightarrow> (nat \<Rightarrow> nat) \<Rightarrow> nat set \<Rightarrow> nat \<Rightarrow> nat \<Rightarrow> bool" where
  "tiles nx pv S s T \<longleftrightarrow> finite S \<and> s \<in> S \<and> T \<in> S \<and> s < T \<and> S \<subseteq> {s..T} \<and> nx T = s \<and> pv s = T
     \<and> (\<forall>b \<in> S - {T}. nx b \<in> S \<and> b + 36 \<le> nx b \<and> (\<forall>c \<in> S. c \<le> b \<or> nx b \<le> c) \<and> pv (nx b) = b)"

lemma tilesD:
  assumes "tiles nx pv S s T"
  shows "finite S" "s \<in> S" "T \<in> S" "s < T" "b \<in> S \<Longrightarrow> s \<le> b \<and> b \<le> T" "nx T = s" "pv s = T"
    "b \<in> S \<Longrightarrow> b \<noteq> T \<Longrightarrow> nx b \<in> S" "b \<in> S \<Longrightarrow> b \<noteq> T \<Longrightarrow> b + 36 \<le> nx b"
    "b \<in> S \<Longrightarrow> b \<noteq> T \<Longrightarrow> c \<in> S \<Longrightarrow> c \<le> b \<or> nx b \<le> c" "b \<in> S \<Longrightarrow> b \<noteq> T \<Longrightarrow> pv (nx b) = b"
  using assms by (auto simp: tiles_def)

lemma tiles_cong:
  assumes "\<And>b. b \<in> S \<Longrightarrow> nx' b = nx b" "\<And>b. b \<in> S \<Longrightarrow> pv' b = pv b" "tiles nx pv S s T"
  shows "tiles nx' pv' S s T"
proof -
  note D = tilesD [OF assms(3)]
  have "\<forall>b \<in> S - {T}. nx' b \<in> S \<and> b + 36 \<le> nx' b \<and> (\<forall>c \<in> S. c \<le> b \<or> nx' b \<le> c) \<and> pv' (nx' b) = b"
  proof
    fix b assume "b \<in> S - {T}"
    then have b: "b \<in> S" "b \<noteq> T" by auto
    show "nx' b \<in> S \<and> b + 36 \<le> nx' b \<and> (\<forall>c \<in> S. c \<le> b \<or> nx' b \<le> c) \<and> pv' (nx' b) = b"
      using D(8-11) [OF b] assms(1) [OF b(1)] assms(2) [OF D(8) [OF b]] by auto
  qed
  moreover have "S \<subseteq> {s..T}" using D(5) by auto
  ultimately show ?thesis using D(1-4,6,7) assms(1) [OF D(3)] assms(2) [OF D(2)] by (simp add: tiles_def)
qed

text \<open>Every block but the first has one in front of it, which its back link names.\<close>

lemma tiles_prev:
  assumes R: "tiles nx pv S s T" and b: "b \<in> S" "b \<noteq> s"
  shows "pv b \<in> S" "pv b \<noteq> T" "nx (pv b) = b"
proof -
  note D = tilesD [OF R]
  let ?A = "{c \<in> S. c < b}"
  have A: "finite ?A" "s \<in> ?A" using D(1,2) D(5) [OF b(1)] b(2) by auto
  define c where "c = Max ?A"
  have c: "c \<in> S" "c < b" using Max_in [OF A(1)] A(2) unfolding c_def by blast+
  have cT: "c \<noteq> T" using D(5) [OF b(1)] c(2) by auto
  have "nx c \<le> b" using D(10) [OF c(1) cT b(1)] c(2) by auto
  moreover have "\<not> nx c < b"
  proof
    assume "nx c < b"
    then have "nx c \<in> ?A" using D(8) [OF c(1) cT] by simp
    then have "nx c \<le> c" unfolding c_def by (rule Max_ge [OF A(1)])
    then show False using D(9) [OF c(1) cT] by simp
  qed
  ultimately have "nx c = b" by simp
  then have "pv b = c" using D(11) [OF c(1) cT] by simp
  then show "pv b \<in> S" "pv b \<noteq> T" "nx (pv b) = b" using c cT \<open>nx c = b\<close> by simp_all
qed

lemma tiles_split:
  assumes R: "tiles nx pv S s T" and b: "b \<in> S" "b \<noteq> T" and q: "b + 36 \<le> q" "q + 36 \<le> nx b"
  shows "tiles (nx(q := nx b, b := q)) (pv(q := b, nx b := q)) (insert q S) s T" "q \<notin> S"
proof -
  note D = tilesD [OF R]
  let ?nx = "nx(q := nx b, b := q)" and ?pv = "pv(q := b, nx b := q)"
  show qS: "q \<notin> S" using D(10) [OF b, of q] q by auto
  have nb: "nx b \<noteq> q" "nx b \<noteq> s" using q D(5) [OF b(1)] by auto
  have "?nx c \<in> insert q S \<and> c + 36 \<le> ?nx c \<and> (\<forall>d \<in> insert q S. d \<le> c \<or> ?nx c \<le> d) \<and> ?pv (?nx c) = c" if "c \<in> insert q S - {T}" for c
  proof -
    note c = that
    consider "c = q" | "c = b" | "c \<in> S" "c \<noteq> T" "c \<noteq> q" "c \<noteq> b" using c by blast
    then show ?thesis
    proof cases
      case 1
      then show ?thesis using D(8,10) [OF b] q nb by fastforce
    next
      case 2
      then show ?thesis using D(10) [OF b] q by fastforce
    next
      case 3
      have "nx c \<noteq> nx b" using D(11) [OF 3(1,2)] D(11) [OF b] 3(4) by auto
      moreover have "nx c \<noteq> q" using D(8) [OF 3(1,2)] qS by auto
      moreover have "q \<le> c \<or> nx c \<le> q" using D(10) [OF 3(1,2) b(1)] D(10) [OF b 3(1)] 3(4) q by auto
      ultimately show ?thesis using 3 D(8-11) [OF 3(1,2)] by auto
    qed
  qed
  moreover have "q \<noteq> T" "q \<noteq> s" "b \<noteq> T" using qS D(2,3) b(2) by auto
  moreover have "s \<le> q" "q \<le> T" using D(5) [OF b(1)] D(5) [OF D(8) [OF b]] q by auto
  ultimately show "tiles ?nx ?pv (insert q S) s T" using D(1-7) nb by (auto simp: tiles_def)
qed

lemma tiles_join:
  assumes R: "tiles nx pv S s T" and b: "b \<in> S" "b \<noteq> T" and c: "nx b \<noteq> T"
  shows "tiles (nx(b := nx (nx b))) (pv(nx (nx b) := b)) (S - {nx b}) s T"
proof -
  note D = tilesD [OF R]
  let ?c = "nx b"
  let ?nx = "nx(b := nx ?c)" and ?pv = "pv(nx ?c := b)"
  have cS: "?c \<in> S" "b + 36 \<le> ?c" using D(8,9) [OF b] by simp_all
  note C = D(8-11) [OF cS(1) c]
  have "?nx d \<in> S - {?c} \<and> d + 36 \<le> ?nx d \<and> (\<forall>e \<in> S - {?c}. e \<le> d \<or> ?nx d \<le> e) \<and> ?pv (?nx d) = d" if "d \<in> S - {?c} - {T}" for d
  proof (cases "d = b")
    case True
    then show ?thesis using C(1-3) D(10) [OF b] cS by fastforce
  next
    case False
    have d: "d \<in> S" "d \<noteq> T" "d \<noteq> ?c" using that by auto
    have "nx d \<noteq> ?c" "nx d \<noteq> nx ?c" using D(11) [OF d(1,2)] D(11) [OF b] C(4) False d(3) by auto
    then show ?thesis using D(8-11) [OF d(1,2)] False by auto
  qed
  moreover have "nx ?c \<noteq> s" "?c \<noteq> s" using C(2) cS D(5) [OF b(1)] by auto
  ultimately show ?thesis using D(1-7) b c by (auto simp: tiles_def)
qed

section \<open>The invariant\<close>

definition ptail :: "memheaps \<Rightarrow> nat \<Rightarrow> nat" where
  "ptail m i = start_addr (heaps m i) + pool_size (heaps m i) - 24"

definition fsz :: "(nat \<Rightarrow> nat) \<Rightarrow> nat set \<Rightarrow> nat" where
  "fsz nx A = (\<Sum>b \<in> A. nx b - b - 24)"

definition pool_base :: "rt_memheap \<Rightarrow> nat \<Rightarrow> bool" where
  "pool_base h i \<longleftrightarrow> mh_free_list h = free_header i \<and> mh_block_list h = start_addr h \<and> 60 \<le> pool_size h
     \<and> start_addr h + pool_size h < 2 ^ 32 \<and> (free_header i < start_addr h \<or> start_addr h + pool_size h \<le> free_header i)"

definition marks :: "(nat \<Rightarrow> u32) \<Rightarrow> (nat \<Rightarrow> nat) \<Rightarrow> nat \<Rightarrow> nat set \<Rightarrow> nat set \<Rightarrow> bool" where
  "marks mg pl i S U \<longleftrightarrow> (\<forall>b \<in> S. mg b = (if b \<in> U then RT_MEMHEAP_MAGIC OR RT_MEMHEAP_USED else RT_MEMHEAP_MAGIC) \<and> pl b = i)"

text \<open>
  The blocks \<open>S\<close> tile the pool; \<open>U\<close> are those in use, the last one among them; the others are the ring of free
  blocks \<open>fs\<close>, no two of them neighbours, and their sizes add up to the counter of available bytes.
\<close>

definition pool_inv :: "memheaps \<Rightarrow> nat \<Rightarrow> nat set \<Rightarrow> nat set \<Rightarrow> nat list \<Rightarrow> bool" where
  "pool_inv m i S U fs \<longleftrightarrow> pool_base (heaps m i) i
     \<and> tiles (inext m) (iprev m) S (start_addr (heaps m i)) (ptail m i)
     \<and> flist (inext_free m) (iprev_free m) (free_header i) fs
     \<and> marks (imagic m) (ipool m) i S U \<and> U \<subseteq> S \<and> ptail m i \<in> U \<and> set fs = S - U
     \<and> (\<forall>b \<in> S - U. inext m b \<in> U)
     \<and> available_size (heaps m i) = fsz (inext m) (S - U)"

lemma pool_baseD:
  assumes "pool_base h i"
  shows "mh_free_list h = free_header i" "mh_block_list h = start_addr h" "60 \<le> pool_size h" "start_addr h + pool_size h < 2 ^ 32"
    "free_header i < start_addr h \<or> start_addr h + pool_size h \<le> free_header i"
  using assms by (auto simp: pool_base_def)

lemma pool_invD:
  assumes "pool_inv m i S U fs"
  shows "pool_base (heaps m i) i" "tiles (inext m) (iprev m) S (start_addr (heaps m i)) (ptail m i)"
    "flist (inext_free m) (iprev_free m) (free_header i) fs" "marks (imagic m) (ipool m) i S U" "U \<subseteq> S" "ptail m i \<in> U"
    "set fs = S - U" "b \<in> S \<Longrightarrow> b \<notin> U \<Longrightarrow> inext m b \<in> U" "available_size (heaps m i) = fsz (inext m) (S - U)"
  using assms by (auto simp: pool_inv_def)

text \<open>Facts that every operation needs about a block: its bounds, its mark and its size.\<close>

lemma used_mark:
  assumes "marks mg pl i S U" "b \<in> S"
  shows "(mg b AND RT_MEMHEAP_USED \<noteq> 0) = (b \<in> U)" "mg b AND RT_MEMHEAP_MASK = RT_MEMHEAP_MAGIC"
  using assms by (auto simp: marks_def RT_MEMHEAP_MAGIC_def RT_MEMHEAP_USED_def RT_MEMHEAP_MASK_def)

lemma pool_block:
  assumes I: "pool_inv m i S U fs" and b: "b \<in> S"
  shows "RT_MEMHEAP_IS_USED m b = (b \<in> U)" "imagic m b AND RT_MEMHEAP_MASK = RT_MEMHEAP_MAGIC" "ipool m b = i"
    "start_addr (heaps m i) \<le> b" "b \<le> ptail m i" "ptail m i + 24 < 2 ^ 32" "b \<noteq> free_header i"
    "b \<noteq> ptail m i \<Longrightarrow> MEMITEM_SIZE m b = inext m b - b - 24"
    "b \<noteq> ptail m i \<Longrightarrow> inext m b \<in> S \<and> b + 36 \<le> inext m b \<and> inext m b \<le> ptail m i"
proof -
  note D = pool_invD [OF I]
  note B = pool_baseD [OF D(1)] and R = tilesD [OF D(2)]
  show "RT_MEMHEAP_IS_USED m b = (b \<in> U)" "imagic m b AND RT_MEMHEAP_MASK = RT_MEMHEAP_MAGIC"
    using used_mark [OF D(4) b] by (simp_all add: RT_MEMHEAP_IS_USED_def)
  show "ipool m b = i" using D(4) b by (simp add: marks_def)
  show sb: "start_addr (heaps m i) \<le> b" "b \<le> ptail m i" using R(5) [OF b] by auto
  show t: "ptail m i + 24 < 2 ^ 32" using B(3,4) by (simp add: ptail_def)
  show "b \<noteq> free_header i" using sb B(3,5) by (auto simp: ptail_def)
  assume bt: "b \<noteq> ptail m i"
  show n: "inext m b \<in> S \<and> b + 36 \<le> inext m b \<and> inext m b \<le> ptail m i" using R(5) [OF R(8) [OF b bt]] R(8,9) [OF b bt] by simp
  have "sub32 (inext m b) b = inext m b - b" "sub32 (inext m b - b) 24 = inext m b - b - 24"
    by (rule sub32_small; use n t in linarith)+
  then show "MEMITEM_SIZE m b = inext m b - b - 24" by (simp add: MEMITEM_SIZE_def)
qed

lemma pool_header:
  assumes "pool_base (heaps m i) i" "start_addr (heaps m i) \<le> a" "a \<le> ptail m i"
  shows "a \<noteq> free_header i"
  using pool_baseD(3,5) [OF assms(1)] assms(2,3) by (auto simp: ptail_def)

section \<open>What the repeated steps do to the links\<close>

lemma block_split_links:
  assumes "b \<noteq> q"
  shows "inext (block_split i b q m) = (inext m)(q := inext m b, b := q)"
    "iprev (block_split i b q m) = (iprev m)(q := b, inext m b := q)"
    "imagic (block_split i b q m) = (imagic m)(q := RT_MEMHEAP_MAGIC)" "ipool (block_split i b q m) = (ipool m)(q := i)"
    "inext_free (block_split i b q m) = inext_free m" "iprev_free (block_split i b q m) = iprev_free m"
    "heaps (block_split i b q m) = heaps m"
  using assms by (simp_all add: block_split_def Let_def)

lemma free_list_insert_links:
  assumes "mh_free_list (heaps m i) = H" "p \<noteq> H"
  shows "inext_free (free_list_insert i p m) = (inext_free m)(p := inext_free m H, H := p)"
    "iprev_free (free_list_insert i p m) = (iprev_free m)(p := H, inext_free m H := p)"
    "inext (free_list_insert i p m) = inext m" "iprev (free_list_insert i p m) = iprev m"
    "imagic (free_list_insert i p m) = imagic m" "ipool (free_list_insert i p m) = ipool m" "heaps (free_list_insert i p m) = heaps m"
  using assms by (simp_all add: free_list_insert_def Let_def)

lemma free_list_remove_links:
  assumes "inext_free m p \<noteq> p"
  shows "inext_free (free_list_remove p m) = (inext_free m)(iprev_free m p := inext_free m p)"
    "iprev_free (free_list_remove p m) = (iprev_free m)(inext_free m p := iprev_free m p)"
    "inext (free_list_remove p m) = inext m" "iprev (free_list_remove p m) = iprev m"
    "imagic (free_list_remove p m) = imagic m" "ipool (free_list_remove p m) = ipool m" "heaps (free_list_remove p m) = heaps m"
  using assms by (auto simp: free_list_remove_def Let_def)

lemma note_used_links [simp]:
  "inext (note_used i m) = inext m" "iprev (note_used i m) = iprev m" "inext_free (note_used i m) = inext_free m"
  "iprev_free (note_used i m) = iprev_free m" "imagic (note_used i m) = imagic m" "ipool (note_used i m) = ipool m"
  "available_size (heaps (note_used i m) j) = available_size (heaps m j)" "start_addr (heaps (note_used i m) j) = start_addr (heaps m j)"
  "pool_size (heaps (note_used i m) j) = pool_size (heaps m j)" "mh_free_list (heaps (note_used i m) j) = mh_free_list (heaps m j)"
  "mh_block_list (heaps (note_used i m) j) = mh_block_list (heaps m j)"
  by (simp_all add: note_used_def)

section \<open>Frames\<close>

text \<open>What an operation on the heap \<open>i\<close> leaves alone: other heaps, and items that are not in its pool.\<close>

definition pool_frame :: "nat \<Rightarrow> memheaps \<Rightarrow> memheaps \<Rightarrow> bool" where
  "pool_frame i m m' \<longleftrightarrow> heap_objects m' = heap_objects m \<and> system_heap m' = system_heap m \<and> (\<forall>j. j \<noteq> i \<longrightarrow> heaps m' j = heaps m j)
     \<and> start_addr (heaps m' i) = start_addr (heaps m i) \<and> pool_size (heaps m' i) = pool_size (heaps m i)
     \<and> (\<forall>a. a \<noteq> free_header i \<and> (a < start_addr (heaps m i) \<or> ptail m i < a) \<longrightarrow> items m' a = items m a)"

lemma pool_frame_refl [simp]: "pool_frame i m m" by (simp add: pool_frame_def)

lemma pool_frame_trans: "pool_frame i m m' \<Longrightarrow> pool_frame i m' m'' \<Longrightarrow> pool_frame i m m''"
  by (auto simp: pool_frame_def ptail_def)

definition in_pool :: "memheaps \<Rightarrow> nat \<Rightarrow> nat \<Rightarrow> bool" where
  "in_pool m i a \<longleftrightarrow> a = free_header i \<or> (start_addr (heaps m i) \<le> a \<and> a \<le> ptail m i)"

lemma pool_frame_item:
  assumes "pool_frame i m m'" "in_pool m i a"
  shows "pool_frame i m (m'\<lparr>items := (items m')(a := x)\<rparr>)"
  using assms by (auto simp: pool_frame_def in_pool_def)

lemma pool_frame_step:
  assumes "pool_frame i m m'" "in_pool m i a"
  shows "pool_frame i m (put_next a v m')" "pool_frame i m (put_prev a v m')" "pool_frame i m (put_next_free a v m')"
    "pool_frame i m (put_prev_free a v m')" "pool_frame i m (put_magic a w m')" "pool_frame i m (put_pool a v m')"
  unfolding item_defs by (rule pool_frame_item [OF assms])+

lemma pool_frame_heap:
  assumes "pool_frame i m m'" "\<And>h. start_addr (f h) = start_addr h" "\<And>h. pool_size (f h) = pool_size h"
  shows "pool_frame i m (upd_heap i f m')"
  using assms by (auto simp: pool_frame_def upd_heap_def)

lemma pool_frame_note: "pool_frame i m m' \<Longrightarrow> pool_frame i m (note_used i m')"
  by (simp add: note_used_def pool_frame_heap)

lemma pool_frame_split:
  assumes "pool_frame i m m'" "in_pool m i b" "in_pool m i q" "in_pool m i (inext m' b)" "b \<noteq> q"
  shows "pool_frame i m (block_split i b q m')"
  using assms by (auto simp: block_split_def Let_def intro!: pool_frame_step)

lemma pool_frame_insert:
  assumes "pool_frame i m m'" "in_pool m i p" "in_pool m i (mh_free_list (heaps m' i))" "in_pool m i (inext_free m' (mh_free_list (heaps m' i)))"
    "mh_free_list (heaps m' i) \<noteq> p"
  shows "pool_frame i m (free_list_insert i p m')"
  using assms by (auto simp: free_list_insert_def Let_def intro!: pool_frame_step)

lemma pool_frame_remove:
  assumes "pool_frame i m m'" "in_pool m i (inext_free m' p)" "in_pool m i (iprev_free m' p)"
  shows "pool_frame i m (free_list_remove p m')"
  using assms by (auto simp: free_list_remove_def Let_def intro!: pool_frame_step)

section \<open>Allocation\<close>

text \<open>Taking a block out of the ring of free blocks and linking one into it, on the states of the code.\<close>

lemma ring_take:
  assumes F: "flist (inext_free m) (iprev_free m) H fs" and b: "b \<in> set fs"
  shows "flist (inext_free (free_list_remove b m)) (iprev_free (free_list_remove b m)) H (remove1 b fs)"
    "inext_free m b \<noteq> b" "inext_free m b \<in> set (H # fs)" "iprev_free m b \<in> set (H # fs)"
proof -
  obtain us vs where fs: "fs = us @ b # vs" using b by (meson split_list)
  have d: "distinct (H # us @ b # vs)" using flistD(1) [OF F] fs by simp
  note R = flist_remove [OF F [unfolded fs]]
  show ne: "inext_free m b \<noteq> b" using R(3) d by auto
  show "inext_free m b \<in> set (H # fs)" "iprev_free m b \<in> set (H # fs)" using R(2,3) fs by auto
  have "remove1 b fs = us @ vs" using d fs by (simp add: remove1_append)
  then show "flist (inext_free (free_list_remove b m)) (iprev_free (free_list_remove b m)) H (remove1 b fs)"
    using R(1) free_list_remove_links(1,2) [OF ne] by simp
qed

lemma ring_clear:
  assumes "flist (inext_free m) (iprev_free m) H fs" "b \<notin> set (H # fs)"
  shows "flist (inext_free (put_prev_free b u (put_next_free b v m))) (iprev_free (put_prev_free b u (put_next_free b v m))) H fs"
  by (rule flist_cong [OF _ _ assms(1)]) (use assms(2) in auto)

lemma ring_put:
  assumes "flist (inext_free m) (iprev_free m) H fs" "b \<notin> set (H # fs)" "mh_free_list (heaps m i) = H"
  shows "flist (inext_free (free_list_insert i b m)) (iprev_free (free_list_insert i b m)) H (b # fs)"
  using flist_insert [OF assms(1,2)] free_list_insert_links(1,2) [OF assms(3)] assms(2) by auto

lemma ring_put_frame:
  assumes "pool_frame i m m'" "flist (inext_free m') (iprev_free m') H fs" "mh_free_list (heaps m' i) = H" "p \<noteq> H"
    and "\<And>c. c \<in> set (p # H # fs) \<Longrightarrow> in_pool m i c"
  shows "pool_frame i m (free_list_insert i p m')"
  by (rule pool_frame_insert [OF assms(1)]) (unfold assms(3), use assms(4,5) flistD(4) [OF assms(2), of H] in auto)

lemma ring_take_frame:
  assumes "pool_frame i m m'" "flist (inext_free m') (iprev_free m') H fs" "b \<in> set fs" "\<And>c. c \<in> set (H # fs) \<Longrightarrow> in_pool m i c"
  shows "pool_frame i m (free_list_remove b m')"
  by (rule pool_frame_remove [OF assms(1)]) (use ring_take(3,4) [OF assms(2,3)] assms(4) in auto)

lemma fsz_split:
  assumes "finite A" "b \<in> A" "q \<notin> A" "b + 24 + sz = q" "q + 24 \<le> nx b"
  shows "fsz (nx(q := nx b, b := q)) (insert q (A - {b})) = fsz nx A - sz - 24" "sz + 24 \<le> fsz nx A"
proof -
  have e: "fsz nx A = (nx b - b - 24) + fsz nx (A - {b})" using assms(1,2) by (simp add: fsz_def sum.remove)
  have "fsz (nx(q := nx b, b := q)) (insert q (A - {b})) = (nx b - q - 24) + fsz (nx(q := nx b, b := q)) (A - {b})"
    using assms by (auto simp: fsz_def)
  moreover have "fsz (nx(q := nx b, b := q)) (A - {b}) = fsz nx (A - {b})"
    unfolding fsz_def by (rule sum.cong) (use assms(3) in auto)
  ultimately show "fsz (nx(q := nx b, b := q)) (insert q (A - {b})) = fsz nx A - sz - 24" "sz + 24 \<le> fsz nx A"
    using e assms(4,5) by linarith+
qed

lemma fsz_remove: "finite A \<Longrightarrow> b \<in> A \<Longrightarrow> fsz nx (A - {b}) = fsz nx A - (nx b - b - 24)" "finite A \<Longrightarrow> b \<in> A \<Longrightarrow> nx b - b - 24 \<le> fsz nx A"
  by (simp_all add: fsz_def sum.remove)

text \<open>The blocks are disjoint parts of the pool, so that the counter does not wrap.\<close>

lemma fsz_tiles:
  assumes T: "tiles nx pv S s T" "T \<in> U"
  shows "fsz nx (S - U) \<le> T"
proof -
  note R = tilesD [OF T(1)]
  let ?A = "S - U" and ?J = "\<lambda>b. {b ..< nx b}"
  have A: "b \<in> S" "b \<noteq> T" if "b \<in> ?A" for b using that T(2) by auto
  have fin: "finite ?A" using R(1) by simp
  have dis: "?J b \<inter> ?J c = {}" if "b \<in> ?A" "c \<in> ?A" "b \<noteq> c" for b c
    using R(10) [OF A [OF that(1)] A(1) [OF that(2)]] R(10) [OF A [OF that(2)] A(1) [OF that(1)]] that(3) by auto
  have "fsz nx ?A \<le> (\<Sum>b \<in> ?A. card (?J b))" unfolding fsz_def by (rule sum_mono) simp
  also have "\<dots> = card (\<Union>b \<in> ?A. ?J b)" by (rule card_UN_disjoint [symmetric]) (use fin dis in auto)
  also have "\<dots> \<le> card {..< T}"
  proof (rule card_mono)
    show "(\<Union>b \<in> ?A. ?J b) \<subseteq> {..< T}" using R(5) [OF R(8) [OF A]] by fastforce
  qed simp
  finally show ?thesis by simp
qed

lemma fsz_less:
  assumes "pool_base (heaps m i) i" "tiles (inext m) (iprev m) S s (ptail m i)" "ptail m i \<in> U"
  shows "fsz (inext m) (S - U) < 2 ^ 32"
  using fsz_tiles [OF assms(2,3)] pool_baseD(3,4) [OF assms(1)] by (simp add: ptail_def)

lemma fsz_bound: "pool_inv m i S U fs \<Longrightarrow> fsz (inext m) (S - U) < 2 ^ 32"
  by (rule fsz_less) (erule pool_invD)+

lemma add32_36: "sz + 36 < 2 ^ 32 \<Longrightarrow> add32 (add32 sz 24) 12 = sz + 36"
  by (simp add: add32_small)

lemma alloc_take_split:
  assumes I: "pool_inv m i S U fs" and b: "b \<in> S" "b \<notin> U" and sz: "12 \<le> sz" "sz + 60 \<le> inext m b - b" and f: "f = inext m b - b - 24"
  shows "pool_inv (alloc_take i b f sz m) i (insert (b + 24 + sz) S) (insert b U) ((b + 24 + sz) # remove1 b fs)"
    "inext (alloc_take i b f sz m) = (inext m)(b + 24 + sz := inext m b, b := b + 24 + sz)"
    "pool_frame i m (alloc_take i b f sz m)"
proof -
  note D = pool_invD [OF I]
  note B = pool_baseD [OF D(1)] and R = tilesD [OF D(2)] and P = pool_block [OF I b(1)]
  let ?q = "b + 24 + sz" and ?H = "free_header i" and ?T = "ptail m i" and ?s = "start_addr (heaps m i)"
  have bT: "b \<noteq> ?T" using b D(6) by auto
  note N = P(9) [OF bT]
  have nb: "b + 36 \<le> inext m b" "inext m b \<le> ?T" "inext m b \<in> S" using N by auto
  have q: "b + 36 \<le> ?q" "?q + 36 \<le> inext m b" "b \<noteq> ?q" using sz nb by auto
  note TS = tiles_split [OF D(2) b(1) bT q(1,2)]
  have bf: "b \<in> set fs" using D(7) b by simp
  have qr: "?s \<le> ?q" "?q \<le> ?T" using q nb P(4) by linarith+
  have qH: "?q \<noteq> ?H" "?q \<notin> set fs" using pool_header [OF D(1) qr] TS(2) D(7) by auto
  have ar: "add32 (add32 sz 24) 12 = sz + 36" "add32 (add32 b sz) 24 = ?q"
    by (intro add32_36; use sz nb P(6) in linarith) (use q nb P(6) in \<open>simp add: add32_small\<close>)
  let ?m1 = "block_split i b ?q m"
  let ?m2 = "free_list_remove b ?m1"
  let ?m3 = "put_prev_free b 0 (put_next_free b 0 ?m2)"
  let ?m4 = "free_list_insert i ?q ?m3"
  let ?m5 = "upd_heap i (\<lambda>h. h\<lparr>available_size := sub32 (sub32 (available_size h) sz) 24\<rparr>) ?m4"
  let ?m6 = "note_used i ?m5"
  let ?m' = "alloc_take i b f sz m"
  have m': "?m' = put_magic b (imagic ?m6 b OR RT_MEMHEAP_USED) ?m6"
    using sz nb f by (simp add: alloc_take_def Let_def ar)
  note L1 = block_split_links [OF q(3), of i m]
  have F1: "flist (inext_free ?m1) (iprev_free ?m1) ?H fs" using D(3) L1 by simp
  note T1 = ring_take [OF F1 bf]
  note L2 = free_list_remove_links [OF T1(2)]
  have rem: "b \<notin> set (?H # remove1 b fs)" "?q \<notin> set (?H # remove1 b fs)" "set (remove1 b fs) = S - U - {b}"
    using flistD(1) [OF D(3)] P(7) qH D(7) by (auto dest: in_set_takeD simp: set_remove1_eq)
  have F3: "flist (inext_free ?m3) (iprev_free ?m3) ?H (remove1 b fs)" by (rule ring_clear [OF T1(1) rem(1)])
  have H3: "mh_free_list (heaps ?m3 i) = ?H" using L1 L2 B(1) by simp
  have F4: "flist (inext_free ?m4) (iprev_free ?m4) ?H (?q # remove1 b fs)" by (rule ring_put [OF F3 rem(2) H3])
  note L4 = free_list_insert_links [OF H3 qH(1)]
  have qU: "?q \<notin> U" using TS(2) D(5) by auto
  have fin: "finite (S - U)" using R(1) by simp
  have Sq: "insert ?q S - insert b U = insert ?q (S - U - {b})" using qU TS(2) b q(3) by auto
  note Z = fsz_split [OF fin, of b ?q sz "inext m"]
  have av: "fsz ((inext m)(?q := inext m b, b := ?q)) (insert ?q S - insert b U) = fsz (inext m) (S - U) - sz - 24"
    "sz + 24 \<le> fsz (inext m) (S - U)"
    unfolding Sq using Z b TS(2) q by auto
  have nx: "inext ?m' = (inext m)(?q := inext m b, b := ?q)" using L1 L2 L4 m' by simp
  show "inext ?m' = (inext m)(?q := inext m b, b := ?q)" by (rule nx)
  have pv: "iprev ?m' = (iprev m)(?q := b, inext m b := ?q)" using L1 L2 L4 m' by simp
  have mg: "imagic ?m' = (imagic m)(?q := RT_MEMHEAP_MAGIC, b := imagic m b OR RT_MEMHEAP_USED)" "ipool ?m' = (ipool m)(?q := i)"
    using L1 L2 L4 m' q(3) by simp_all
  have hp: "pool_base (heaps ?m' i) i" "start_addr (heaps ?m' i) = ?s" "ptail ?m' i = ?T"
    using D(1) L1 L2 L4 m' by (simp_all add: pool_base_def ptail_def)
  have avs: "available_size (heaps ?m' i) = fsz (inext m) (S - U) - sz - 24"
    using L1 L2 L4 m' D(9) av(2) fsz_bound [OF I] by (simp add: sub32_small)
  have "flist (inext_free ?m') (iprev_free ?m') ?H (?q # remove1 b fs)" using F4 m' by simp
  moreover have "marks (imagic ?m') (ipool ?m') i (insert ?q S) (insert b U)"
    using D(4) b qU q(3) by (auto simp: marks_def mg)
  moreover have "\<forall>c \<in> insert ?q S - insert b U. inext ?m' c \<in> insert b U" unfolding nx using D(8) b TS(2) by auto
  ultimately show "pool_inv ?m' i (insert ?q S) (insert b U) (?q # remove1 b fs)"
    unfolding pool_inv_def hp(2,3) using hp(1) TS(1) D(5,6) b rem(3) avs av(1) Sq nx pv by auto
  have ip: "in_pool m i c" if "c \<in> insert ?H (insert ?q S)" for c
    using that R(5) [of c] qr by (auto simp: in_pool_def)
  have fsS: "set fs \<subseteq> S" using D(7) by auto
  have "pool_frame i m ?m1" by (rule pool_frame_split) (use ip b nb q in auto)
  then have "pool_frame i m ?m2" by (rule ring_take_frame [OF _ F1 bf]) (use ip fsS in auto)
  then have "pool_frame i m ?m3" by (intro pool_frame_step ip) (use b in auto)
  then have "pool_frame i m ?m4" by (rule ring_put_frame [OF _ F3 H3 qH(1)]) (use ip rem(3) in auto)
  then have "pool_frame i m ?m6" by (intro pool_frame_note pool_frame_heap) auto
  then show "pool_frame i m ?m'" unfolding m' by (intro pool_frame_step ip) (use b in auto)
qed

lemma alloc_take_whole:
  assumes I: "pool_inv m i S U fs" and b: "b \<in> S" "b \<notin> U" and sz: "inext m b - b < sz + 60" "sz + 24 \<le> inext m b - b" and f: "f = inext m b - b - 24"
  shows "pool_inv (alloc_take i b f sz m) i S (insert b U) (remove1 b fs)"
    "inext (alloc_take i b f sz m) = inext m" "pool_frame i m (alloc_take i b f sz m)"
proof -
  note D = pool_invD [OF I]
  note B = pool_baseD [OF D(1)] and R = tilesD [OF D(2)] and P = pool_block [OF I b(1)]
  let ?H = "free_header i" and ?T = "ptail m i" 
  have bT: "b \<noteq> ?T" using b D(6) by auto
  note N = P(9) [OF bT]
  have bf: "b \<in> set fs" using D(7) b by simp
  have ar: "add32 (add32 sz 24) 12 = sz + 36" by (rule add32_36) (use sz N P(6) in linarith)
  let ?m1 = "upd_heap i (\<lambda>h. h\<lparr>available_size := sub32 (available_size h) f\<rparr>) m"
  let ?m2 = "note_used i ?m1"
  let ?m3 = "free_list_remove b ?m2"
  let ?m4 = "put_prev_free b 0 (put_next_free b 0 ?m3)"
  let ?m' = "alloc_take i b f sz m"
  have m': "?m' = put_magic b (imagic ?m4 b OR RT_MEMHEAP_USED) ?m4" using sz N f by (auto simp: alloc_take_def Let_def ar)
  have F2: "flist (inext_free ?m2) (iprev_free ?m2) ?H fs" using D(3) by simp
  note T2 = ring_take [OF F2 bf]
  note L3 = free_list_remove_links [OF T2(2)]
  have rem: "b \<notin> set (?H # remove1 b fs)" "set (remove1 b fs) = S - U - {b}"
    using flistD(1) [OF D(3)] P(7) D(7) by (auto simp: set_remove1_eq)
  have F4: "flist (inext_free ?m4) (iprev_free ?m4) ?H (remove1 b fs)" by (rule ring_clear [OF T2(1) rem(1)])
  have nx: "inext ?m' = inext m" "iprev ?m' = iprev m" "imagic ?m' = (imagic m)(b := imagic m b OR RT_MEMHEAP_USED)" "ipool ?m' = ipool m"
    using L3 m' by simp_all
  show "inext ?m' = inext m" by (rule nx)
  have hp: "pool_base (heaps ?m' i) i" "start_addr (heaps ?m' i) = start_addr (heaps m i)" "ptail ?m' i = ?T"
    using D(1) L3 m' by (simp_all add: pool_base_def ptail_def)
  have SU: "S - insert b U = S - U - {b}" by auto
  have "available_size (heaps ?m' i) = fsz (inext m) (S - U) - f"
    using L3 m' D(9) fsz_bound [OF I] fsz_remove(2) [of "S - U" b "inext m"] R(1) b f by (simp add: sub32_small)
  then have "available_size (heaps ?m' i) = fsz (inext m) (S - insert b U)"
    unfolding SU using fsz_remove(1) [of "S - U" b "inext m"] R(1) b f by simp
  moreover have "marks (imagic ?m') (ipool ?m') i S (insert b U)" using D(4) b by (auto simp: marks_def nx)
  moreover have "flist (inext_free ?m') (iprev_free ?m') ?H (remove1 b fs)" using F4 m' by simp
  ultimately show "pool_inv ?m' i S (insert b U) (remove1 b fs)"
    unfolding pool_inv_def hp(2,3) nx using hp(1) D(2,5,6,8) b rem(2) nx by auto
  have ip: "in_pool m i c" if "c \<in> insert ?H S" for c using that R(5) by (auto simp: in_pool_def)
  have fsS: "set fs \<subseteq> S" using D(7) by auto
  have "pool_frame i m ?m2" by (intro pool_frame_note pool_frame_heap) auto
  then have "pool_frame i m ?m3" by (rule ring_take_frame [OF _ F2 bf]) (use ip fsS in auto)
  then have "pool_frame i m ?m4" by (intro pool_frame_step ip) (use b in auto)
  then show "pool_frame i m ?m'" unfolding m' by (rule pool_frame_step(5)) (use ip b in auto)
qed

text \<open>The search returns the first block of the ring that is large enough.\<close>

lemma alloc_search_spec:
  assumes "f < sz" "mh_free_list (heaps m i) = H" "H \<notin> set xs" "\<forall>x ys zs. xs = ys @ x # zs \<longrightarrow> inext_free m x = hd (zs @ [H])"
  shows "(\<exists>us b vs. xs = us @ b # vs \<and> (\<forall>u \<in> set us. MEMITEM_SIZE m u < sz) \<and> sz \<le> MEMITEM_SIZE m b
           \<and> alloc_search i sz (hd (xs @ [H])) f m = Some (b, MEMITEM_SIZE m b))
       \<or> ((\<forall>u \<in> set xs. MEMITEM_SIZE m u < sz) \<and> (\<exists>f'. f' < sz \<and> alloc_search i sz (hd (xs @ [H])) f m = Some (H, f')))"
  using assms
proof (induction xs arbitrary: f)
  case Nil
  then show ?case by (subst (1 2) alloc_search.simps) auto
next
  case (Cons x xs)
  have nf: "inext_free m x = hd (xs @ [H])" using Cons.prems(4) by (metis append_Nil)
  have run: "alloc_search i sz x f m = alloc_search i sz (if MEMITEM_SIZE m x < sz then inext_free m x else x) (MEMITEM_SIZE m x) m"
    using Cons.prems(1-3) by (subst alloc_search.simps) auto
  show ?case
  proof (cases "MEMITEM_SIZE m x < sz")
    case True
    have nxt: "\<forall>y ys zs. xs = ys @ y # zs \<longrightarrow> inext_free m y = hd (zs @ [H])" using Cons.prems(4) by (metis append_Cons)
    have "H \<notin> set xs" using Cons.prems(3) by simp
    from Cons.IH [OF True Cons.prems(2) this nxt] show ?thesis
    proof (elim disjE exE conjE, goal_cases)
      case (1 us b vs)
      then show ?case using True run nf by (intro disjI1 exI [of _ "x # us"] exI [of _ b] exI [of _ vs]) simp
    next
      case (2 f')
      then show ?case using True run nf by (intro disjI2 conjI exI [of _ f']) simp_all
    qed
  next
    case False
    then have "alloc_search i sz x f m = Some (x, MEMITEM_SIZE m x)" using run alloc_search.simps [of i sz x "MEMITEM_SIZE m x" m] by simp
    then show ?thesis using False by (intro disjI1 exI [of _ "[]"]) auto
  qed
qed

end
