(* ===== verification/RT_MemHeapOps.thy ===== *)
theory RT_MemHeapOps
  imports RT_MemHeapInv
begin

text \<open>
  The functions of \<open>src/memheap.c\<close> keep the invariant: allocation, release with its merges, and
  reallocation in place, smaller or elsewhere.
\<close>

section \<open>Allocation\<close>

lemma round_size_bounds:
  assumes "n + 7 < 2 ^ 32"
  shows "12 \<le> round_size n" "n \<le> round_size n" "round_size n + 7 < 2 ^ 32"
proof -
  have "n \<le> (n + 7) div 8 * 8" "(n + 7) div 8 * 8 \<le> n + 7" by simp_all
  moreover have "(n + 7) div 8 * 8 + 7 < 2 ^ 32" using assms by simp presburger
  ultimately show "12 \<le> round_size n" "n \<le> round_size n" "round_size n + 7 < 2 ^ 32"
    using assms by (simp_all add: round_size_def align32_small Let_def)
qed

lemma lpath_next: "lpath f a (ys @ x # zs) b \<Longrightarrow> f x = hd (zs @ [b])"
  by (cases zs) auto

lemma lpath_first: "lpath f a xs b \<Longrightarrow> f a = hd (xs @ [b])"
  by (cases xs) auto

text \<open>A refused request does not fit, or would leave nothing available at all.\<close>

lemma rt_memheap_alloc_spec:
  assumes I: "pool_inv m i S U fs" and n: "n + 7 < 2 ^ 32"
  shows "\<exists>r m'. rt_memheap_alloc i n m = Some (r, m') \<and> pool_frame i m m'
    \<and> (case r of None \<Rightarrow> m' = m \<and> (fsz (inext m) (S - U) \<le> round_size n \<or> (\<forall>b \<in> S - U. inext m b - b - 24 < round_size n))
       | Some p \<Rightarrow> \<exists>b S' fs'. p = b + 24 \<and> b \<in> S - U \<and> b + 24 + round_size n \<le> inext m' b
           \<and> pool_inv m' i S' (insert b U) fs' \<and> (\<forall>c \<in> U. inext m' c = inext m c))"
proof (cases "round_size n < available_size (heaps m i)")
  case False
  then show ?thesis using pool_invD(9) [OF I] by (simp add: rt_memheap_alloc_def Let_def)
next
  case True
  note D = pool_invD [OF I]
  let ?H = "free_header i" and ?sz = "round_size n"
  have H: "mh_free_list (heaps m i) = ?H" using pool_baseD(1) [OF D(1)] .
  have fsT: "b \<in> S" "b \<notin> U" "b \<noteq> ptail m i" if "b \<in> set fs" for b using that D(6,7) by auto
  have size: "MEMITEM_SIZE m b = inext m b - b - 24" if "b \<in> set fs" for b using pool_block(8) [OF I] fsT [OF that] by simp
  have "\<forall>x ys zs. fs = ys @ x # zs \<longrightarrow> inext_free m x = hd (zs @ [?H])" using lpath_next flistD(2) [OF D(3)] by fastforce
  moreover have "?H \<notin> set fs" using flistD(1) [OF D(3)] by simp
  moreover have "0 < ?sz" using round_size_bounds(1) [OF n] by simp
  ultimately have search: "(\<exists>us b vs. fs = us @ b # vs \<and> (\<forall>u \<in> set us. MEMITEM_SIZE m u < ?sz) \<and> ?sz \<le> MEMITEM_SIZE m b
        \<and> alloc_search i ?sz (inext_free m ?H) 0 m = Some (b, MEMITEM_SIZE m b))
     \<or> ((\<forall>u \<in> set fs. MEMITEM_SIZE m u < ?sz) \<and> (\<exists>f'. f' < ?sz \<and> alloc_search i ?sz (inext_free m ?H) 0 m = Some (?H, f')))"
    using alloc_search_spec [of 0 ?sz m i ?H fs] H lpath_first [OF flistD(2) [OF D(3)]] by simp
  then show ?thesis
  proof (elim disjE exE conjE, goal_cases)
    case (1 us b vs)
    then have b: "b \<in> S" "b \<notin> U" "b \<in> set fs" using fsT by auto
    note N = pool_block(9) [OF I b(1) fsT(3) [OF b(3)]]
    define f where "f = inext m b - b - 24"
    have f: "?sz \<le> f" "MEMITEM_SIZE m b = f" using 1(3) size [OF b(3)] by (simp_all add: f_def)
    let ?m' = "alloc_take i b f ?sz m"
    have run: "rt_memheap_alloc i n m = Some (Some (b + 24), ?m')"
      using True 1(4) f H N pool_block(6) [OF I b(1)] by (simp add: rt_memheap_alloc_def Let_def add32_small)
    have "\<exists>S' fs'. pool_inv ?m' i S' (insert b U) fs' \<and> b + 24 + ?sz \<le> inext ?m' b \<and> (\<forall>c \<in> U. inext ?m' c = inext m c) \<and> pool_frame i m ?m'"
    proof (cases "?sz + 60 \<le> inext m b - b")
      case s: True
      note A = alloc_take_split [OF I b(1,2) round_size_bounds(1) [OF n] s f_def]
      have "b + 36 \<le> b + 24 + ?sz" "b + 24 + ?sz + 36 \<le> inext m b" using round_size_bounds(1) [OF n] s N by linarith+
      then have "b + 24 + ?sz \<notin> U" using tiles_split(2) [OF D(2) b(1) fsT(3) [OF b(3)]] D(5) by blast
      then have "\<forall>c \<in> U. inext ?m' c = inext m c" using A(2) b(2) by auto
      moreover have "b + 24 + ?sz \<le> inext ?m' b" using A(2) by simp
      ultimately show ?thesis using A(1,3) by blast
    next
      case s: False
      have s': "inext m b - b < ?sz + 60" "?sz + 24 \<le> inext m b - b" using s f(1) N unfolding f_def by linarith+
      note A = alloc_take_whole [OF I b(1,2) s' f_def]
      have "b + 24 + ?sz \<le> inext ?m' b" unfolding A(2) using s'(2) N by linarith
      moreover have "\<forall>c \<in> U. inext ?m' c = inext m c" unfolding A(2) by simp
      ultimately show ?thesis using A(1,3) by blast
    qed
    then show ?case using run b(1,2) by auto
  next
    case (2 f')
    then have "rt_memheap_alloc i n m = Some (None, m)" using True H by (simp add: rt_memheap_alloc_def Let_def)
    then show ?case using 2(1) size D(7) by auto
  qed
qed

section \<open>Release\<close>

text \<open>
  A pool while a block \<open>h\<close> is given back: it is free, it may not be in the ring of free blocks yet, and the block behind it
  may be free. The counter of available bytes is left open.
\<close>

definition pool_mid :: "memheaps \<Rightarrow> nat \<Rightarrow> nat set \<Rightarrow> nat set \<Rightarrow> nat list \<Rightarrow> nat \<Rightarrow> bool" where
  "pool_mid m i S U fs h \<longleftrightarrow> pool_base (heaps m i) i
     \<and> tiles (inext m) (iprev m) S (start_addr (heaps m i)) (ptail m i)
     \<and> flist (inext_free m) (iprev_free m) (free_header i) fs
     \<and> marks (imagic m) (ipool m) i S U \<and> U \<subseteq> S \<and> ptail m i \<in> U \<and> h \<in> S - U \<and> insert h (set fs) = S - U
     \<and> (\<forall>b \<in> S - U. b \<noteq> h \<longrightarrow> inext m b \<in> U)"

lemma pool_midD:
  assumes "pool_mid m i S U fs h"
  shows "pool_base (heaps m i) i" "tiles (inext m) (iprev m) S (start_addr (heaps m i)) (ptail m i)"
    "flist (inext_free m) (iprev_free m) (free_header i) fs" "marks (imagic m) (ipool m) i S U" "U \<subseteq> S" "ptail m i \<in> U"
    "h \<in> S" "h \<notin> U" "insert h (set fs) = S - U" "b \<in> S \<Longrightarrow> b \<notin> U \<Longrightarrow> b \<noteq> h \<Longrightarrow> inext m b \<in> U"
  using assms by (auto simp: pool_mid_def)

lemma pool_mid_avail [simp]: "pool_mid (upd_heap i (\<lambda>h. h\<lparr>available_size := f h\<rparr>) m) i S U fs h = pool_mid m i S U fs h"
  by (simp add: pool_mid_def pool_base_def ptail_def)

lemma fsz_join:
  assumes "finite A" "h \<in> A" "nx h \<in> A" "h + 24 \<le> nx h" "nx h + 24 \<le> nx (nx h)"
  shows "fsz (nx(h := nx (nx h))) (A - {nx h}) = fsz nx A + 24"
proof -
  let ?c = "nx h"
  have "fsz nx A = (nx ?c - ?c - 24) + ((?c - h - 24) + fsz nx (A - {?c} - {h}))"
    using assms by (simp add: fsz_def sum.remove [of A ?c] sum.remove [of "A - {?c}" h])
  moreover have "fsz (nx(h := nx ?c)) (A - {?c}) = (nx ?c - h - 24) + fsz (nx(h := nx ?c)) (A - {?c} - {h})"
    using assms by (simp add: fsz_def sum.remove [of "A - {?c}" h])
  moreover have "fsz (nx(h := nx ?c)) (A - {?c} - {h}) = fsz nx (A - {?c} - {h})"
    unfolding fsz_def by (rule sum.cong) auto
  ultimately show ?thesis using assms(4,5) by linarith
qed

lemma fsz_insert: "finite A \<Longrightarrow> b \<notin> A \<Longrightarrow> fsz nx (insert b A) = (nx b - b - 24) + fsz nx A"
  by (simp add: fsz_def)

text \<open>Joining the free block behind \<open>h\<close> to it.\<close>

lemma merge_right:
  assumes M: "pool_mid m i S U fs h" and c: "inext m h \<notin> U"
    and m': "m' = free_list_remove (inext m h) (put_next h (inext m (inext m h)) (put_prev (inext m (inext m h)) h m))"
  shows "pool_mid m' i (S - {inext m h}) U (remove1 (inext m h) fs) h" "inext m' = (inext m)(h := inext m (inext m h))"
    "heaps m' = heaps m" "pool_frame i m m'" "inext m (inext m h) \<in> U"
    "fsz (inext m') (S - {inext m h} - U) = fsz (inext m) (S - U) + 24" "h \<in> set (remove1 (inext m h) fs) \<longleftrightarrow> h \<in> set fs"
proof -
  note D = pool_midD [OF M]
  note R = tilesD [OF D(2)]
  let ?c = "inext m h" and ?H = "free_header i"
  have hT: "h \<noteq> ptail m i" using D(6,8) by auto
  have cS: "?c \<in> S" "h + 36 \<le> ?c" using R(8,9) [OF D(7) hT] by auto
  have cT: "?c \<noteq> ptail m i" using c D(6) by auto
  have cc: "inext m ?c \<in> S" "?c + 36 \<le> inext m ?c" using R(8,9) [OF cS(1) cT] by auto
  have "?c \<in> insert h (set fs)" unfolding D(9) using cS c by simp
  then have cf: "?c \<in> set fs" using cS(2) by simp
  show cU: "inext m ?c \<in> U" using D(10) [OF cS(1) c] cS(2) by simp
  let ?m2 = "put_next h (inext m ?c) (put_prev (inext m ?c) h m)"
  have F2: "flist (inext_free ?m2) (iprev_free ?m2) ?H fs" using D(3) by simp
  note T = ring_take [OF F2 cf]
  note L = free_list_remove_links [OF T(2)]
  show nx: "inext m' = (inext m)(h := inext m ?c)" "heaps m' = heaps m" using L m' by simp_all
  have pv: "iprev m' = (iprev m)(inext m ?c := h)" "imagic m' = imagic m" "ipool m' = ipool m" using L m' by simp_all
  have t: "ptail m' i = ptail m i" by (simp add: ptail_def nx)
  have d: "distinct fs" using flistD(1) [OF D(3)] by simp
  show hf: "h \<in> set (remove1 ?c fs) \<longleftrightarrow> h \<in> set fs" using cS(2) by (simp add: set_remove1_eq [OF d])
  have fs: "insert h (set (remove1 ?c fs)) = S - {?c} - U" using D(9) cS(2) by (auto simp: set_remove1_eq [OF d])
  have "marks (imagic m') (ipool m') i (S - {?c}) U" using D(4) pv by (simp add: marks_def)
  moreover have "\<forall>b \<in> S - {?c} - U. b \<noteq> h \<longrightarrow> inext m' b \<in> U" using D(10) nx by simp
  moreover have "flist (inext_free m') (iprev_free m') ?H (remove1 ?c fs)" using T(1) m' by simp
  ultimately show "pool_mid m' i (S - {?c}) U (remove1 ?c fs) h"
    unfolding pool_mid_def t nx(2) nx(1) pv(1) using D(1,5-8) fs tiles_join [OF D(2) D(7) hT cT] c cS nx(1) by auto
  have A: "S - {?c} - U = (S - U) - {?c}" by auto
  show "fsz (inext m') (S - {?c} - U) = fsz (inext m) (S - U) + 24"
    unfolding A nx(1) by (rule fsz_join) (use R(1) D(7,8) cS cc c in auto)
  have ip: "in_pool m i b" if "b \<in> insert ?H S" for b using that R(5) by (auto simp: in_pool_def)
  have fsS: "set fs \<subseteq> S" using D(9) by auto
  have "pool_frame i m ?m2" by (intro pool_frame_step ip) (use cc D(7) in auto)
  then show "pool_frame i m m'" unfolding m' by (rule ring_take_frame [OF _ F2 cf]) (use ip fsS in auto)
qed

text \<open>Clearing the mark of a block and counting its bytes; then the merge with a free block in front of it.\<close>

lemma merge_left:
  assumes I: "pool_inv m i S U fs" and b: "b \<in> U" "b \<noteq> ptail m i"
    and m2: "m2 = upd_heap i (\<lambda>h. h\<lparr>available_size := add32 (available_size h) (inext m b - b - 24)\<rparr>)
      (put_magic b (imagic m b AND NOT RT_MEMHEAP_USED) m)"
  shows "\<exists>h ins m3 S3. free_merge_left i b m2 = (h, ins, m3) \<and> pool_mid m3 i S3 (U - {b}) fs h \<and> (h \<in> set fs \<longleftrightarrow> \<not> ins)
    \<and> available_size (heaps m3 i) = fsz (inext m3) (S3 - (U - {b})) mod 2 ^ 32 \<and> (\<forall>c \<in> U - {b}. inext m3 c = inext m c) \<and> pool_frame i m m3"
proof -
  note D = pool_invD [OF I]
  note R = tilesD [OF D(2)]
  let ?T = "ptail m i" and ?V = "U - {b}"
  have bS: "b \<in> S" using D(5) b by auto
  note N = pool_block(9) [OF I bS b(2)]
  have mb: "imagic m b AND NOT RT_MEMHEAP_USED = RT_MEMHEAP_MAGIC"
    using D(4) bS b by (simp add: marks_def RT_MEMHEAP_MAGIC_def RT_MEMHEAP_USED_def)
  have L: "inext m2 = inext m" "iprev m2 = iprev m" "inext_free m2 = inext_free m" "iprev_free m2 = iprev_free m"
    "imagic m2 = (imagic m)(b := RT_MEMHEAP_MAGIC)" "ipool m2 = ipool m" "ptail m2 i = ?T" "start_addr (heaps m2 i) = start_addr (heaps m i)"
    using m2 mb by (simp_all add: ptail_def)
  have base: "pool_base (heaps m2 i) i" using D(1) m2 by (simp add: pool_base_def)
  have SV: "S - ?V = insert b (S - U)" using bS b by auto
  have av: "available_size (heaps m2 i) = fsz (inext m) (S - ?V) mod 2 ^ 32"
    unfolding SV using fsz_insert [of "S - U" b "inext m"] R(1) b(1) D(9) m2 by (simp add: add32_def add.commute)
  have marks: "marks (imagic m2) (ipool m2) i S ?V" using D(4) b by (auto simp: marks_def L)
  have ip: "in_pool m i c" if "c \<in> S" for c using that R(5) by (auto simp: in_pool_def)
  have fr: "pool_frame i m m2" unfolding m2 by (intro pool_frame_heap pool_frame_step ip) (use bS in auto)
  have pS: "iprev m b \<in> S" using tiles_prev(1) [OF D(2) bS] R(3,7) by (cases "b = start_addr (heaps m i)") auto
  have bfs: "b \<notin> set fs" using D(7) b by simp
  have us: "RT_MEMHEAP_IS_USED m2 (iprev m2 b) = (iprev m b \<in> ?V)"
    using used_mark(1) [OF marks pS] by (simp add: RT_MEMHEAP_IS_USED_def L)
  have pb: "iprev m b \<noteq> b"
  proof (cases "b = start_addr (heaps m i)")
    case False
    then show ?thesis using tiles_prev [OF D(2) bS] R(9) [of "iprev m b"] by fastforce
  qed (use R(7) b(2) in simp)
  show ?thesis
  proof (cases "iprev m b \<in> U")
    case True
    then have run: "free_merge_left i b m2 = (b, True, m2)" using us pb by (simp add: free_merge_left_def)
    have "inext m c \<in> ?V" if "c \<in> S - ?V" "c \<noteq> b" for c
    proof -
      have c: "c \<in> S" "c \<notin> U" using that by auto
      have "c \<noteq> ?T" using c(2) D(6) by auto
      then have "inext m c \<noteq> b" using R(11) [OF c(1)] c(2) True by auto
      then show ?thesis using D(8) [OF c] by simp
    qed
    then have "pool_mid m2 i S ?V fs b"
      unfolding pool_mid_def using base D(2,3,5,6,7) L marks b bS SV by auto
    then show ?thesis using run bfs av L(1) fr by (intro exI [of _ b] exI [of _ True] exI [of _ m2] exI [of _ S]) simp
  next
    case False
    let ?p = "iprev m b"
    have pT: "?p \<noteq> ?T" using False D(6) by auto
    then have bs: "b \<noteq> start_addr (heaps m i)" using R(7) by auto
    note TP = tiles_prev [OF D(2) bS bs]
    let ?m3 = "put_prev (inext m b) ?p (put_next ?p (inext m b) (upd_heap i (\<lambda>h. h\<lparr>available_size := add32 (available_size h) 24\<rparr>) m2))"
    have run: "free_merge_left i b m2 = (?p, False, ?m3)"
      using us False pb N by (simp add: free_merge_left_def Let_def L)
    have nx: "inext ?m3 = (inext m)(?p := inext m (inext m ?p))" "iprev ?m3 = (iprev m)(inext m (inext m ?p) := ?p)" using L TP(3) by simp_all
    have T3: "tiles (inext ?m3) (iprev ?m3) (S - {b}) (start_addr (heaps m i)) ?T"
      using tiles_join [OF D(2) TP(1,2)] TP(3) b(2) unfolding nx by simp
    have SV3: "S - {b} - ?V = S - ?V - {b}" by auto
    have "\<forall>c \<in> S - {b} - ?V. c \<noteq> ?p \<longrightarrow> inext ?m3 c \<in> ?V"
    proof (intro ballI impI)
      fix c assume c: "c \<in> S - {b} - ?V" "c \<noteq> ?p"
      then have cS: "c \<in> S" "c \<notin> U" by auto
      have "c \<noteq> ?T" using cS(2) D(6) by auto
      then have "inext m c \<noteq> b" using R(11) [OF cS(1)] c(2) by auto
      then show "inext ?m3 c \<in> ?V" using D(8) [OF cS] c(2) unfolding nx by simp
    qed
    moreover have "marks (imagic ?m3) (ipool ?m3) i (S - {b}) ?V" using marks by (simp add: marks_def)
    moreover have "pool_base (heaps ?m3 i) i" using base by (simp add: pool_base_def)
    moreover have "?p \<in> set fs" using D(7) TP(1) False by simp
    moreover have "ptail ?m3 i = ?T" "start_addr (heaps ?m3 i) = start_addr (heaps m i)" using L by (simp_all add: ptail_def)
    moreover have "flist (inext_free ?m3) (iprev_free ?m3) (free_header i) fs" using D(3) L by simp
    ultimately have "pool_mid ?m3 i (S - {b}) ?V fs ?p"
      unfolding pool_mid_def using T3 D(5,6,7) b TP False by auto
    moreover have "fsz (inext ?m3) (S - {b} - ?V) = fsz (inext m) (S - ?V) + 24"
      unfolding SV3 nx using fsz_join [of "S - ?V" ?p "inext m"] R(1) TP False bS pb R(9) [OF TP(1,2)] N by auto
    then have "available_size (heaps ?m3 i) = fsz (inext ?m3) (S - {b} - ?V) mod 2 ^ 32"
      using av by (simp add: add32_def mod_add_left_eq)
    moreover have "\<forall>c \<in> ?V. inext ?m3 c = inext m c" unfolding nx using False by auto
    moreover have "pool_frame i m ?m3" using fr by (intro pool_frame_step pool_frame_heap ip) (use N TP in auto)
    ultimately show ?thesis using run \<open>?p \<in> set fs\<close> by (intro exI [of _ ?p] exI [of _ False] exI [of _ ?m3] exI [of _ "S - {b}"]) simp
  qed
qed

lemma pool_mid_done:
  assumes M: "pool_mid m i S U fs h" and n: "inext m h \<in> U" and av: "available_size (heaps m i) = fsz (inext m) (S - U) mod 2 ^ 32"
  shows "h \<in> set fs \<Longrightarrow> pool_inv m i S U fs"
    "h \<notin> set fs \<Longrightarrow> pool_inv (free_list_insert i h m) i S U (h # fs)" "h \<notin> set fs \<Longrightarrow> pool_frame i m (free_list_insert i h m)"
    "h \<notin> set fs \<Longrightarrow> inext (free_list_insert i h m) = inext m"
proof -
  note D = pool_midD [OF M]
  note R = tilesD [OF D(2)]
  let ?m' = "upd_heap i (\<lambda>h. h\<lparr>available_size := fsz (inext m) (S - U)\<rparr>) m" and ?H = "free_header i"
  have n': "\<forall>b \<in> S - U. inext m b \<in> U" using D(10) n by auto
  have hH: "h \<noteq> ?H" using pool_header [OF D(1)] R(5) [OF D(7)] by auto
  have H: "mh_free_list (heaps m i) = ?H" using pool_baseD(1) [OF D(1)] .
  have lt: "fsz (inext m) (S - U) < 2 ^ 32" by (rule fsz_less [OF D(1,2,6)])
  show "pool_inv m i S U fs" if "h \<in> set fs"
    unfolding pool_inv_def using D(1-6,9) n' av lt that by (auto simp: insert_absorb)
  assume h: "h \<notin> set fs"
  then have hF: "h \<notin> set (?H # fs)" using hH by simp
  note L = free_list_insert_links [OF H hH] and F = ring_put [OF D(3) hF H]
  show "inext (free_list_insert i h m) = inext m" by (rule L)
  show "pool_inv (free_list_insert i h m) i S U (h # fs)"
    unfolding pool_inv_def ptail_def L(3-7) using D(1-6,9) n' av lt F by (auto simp: ptail_def)
  show "pool_frame i m (free_list_insert i h m)"
    by (rule ring_put_frame [OF pool_frame_refl D(3) H hH]) (use R(5) D(7,9) in \<open>auto simp: in_pool_def\<close>)
qed

text \<open>Giving back a block: exactly it is free afterwards, and blocks that stay in use keep their places.\<close>

lemma rt_memheap_free_spec:
  assumes I: "pool_inv m i S U fs" and b: "b \<in> U" "b \<noteq> ptail m i"
  shows "\<exists>m' S' fs'. rt_memheap_free (Some (b + 24)) m = Some m' \<and> pool_inv m' i S' (U - {b}) fs'
    \<and> (\<forall>c \<in> U - {b}. inext m' c = inext m c) \<and> pool_frame i m m'"
proof -
  note D = pool_invD [OF I]
  have bS: "b \<in> S" using D(5) b by auto
  note P = pool_block [OF I bS]
  let ?V = "U - {b}"
  define m2 where "m2 = upd_heap i (\<lambda>h. h\<lparr>available_size := add32 (available_size h) (inext m b - b - 24)\<rparr>)
      (put_magic b (imagic m b AND NOT RT_MEMHEAP_USED) m)"
  from merge_left [OF I b m2_def] obtain h ins m3 S3 where
    l: "free_merge_left i b m2 = (h, ins, m3)" "pool_mid m3 i S3 ?V fs h" "h \<in> set fs \<longleftrightarrow> \<not> ins"
    "available_size (heaps m3 i) = fsz (inext m3) (S3 - ?V) mod 2 ^ 32" "\<forall>c \<in> ?V. inext m3 c = inext m c" "pool_frame i m m3" by blast
  note D3 = pool_midD [OF l(2)]
  have hT: "h \<noteq> ptail m3 i" using D3(6,8) by auto
  have us: "RT_MEMHEAP_IS_USED m3 (inext m3 h) = (inext m3 h \<in> ?V)"
    using used_mark(1) [OF D3(4) tilesD(8) [OF D3(2) D3(7) hT]] by (simp add: RT_MEMHEAP_IS_USED_def)
  have run: "rt_memheap_free (Some (b + 24)) m = Some (if ins then free_list_insert i h (free_merge_right i h m3) else free_merge_right i h m3)"
  proof -
    have "sub32 (b + 24) 24 = b" using P(5,6) by (simp add: sub32_small)
    moreover have "MEMITEM_SIZE (put_magic b w m) b = inext m b - b - 24" for w
      using P(8) [OF b(2)] by (simp add: MEMITEM_SIZE_def)
    ultimately show ?thesis using P(2,3) l(1) by (simp add: rt_memheap_free_def Let_def m2_def)
  qed
  obtain m4 S4 fs4 where r: "free_merge_right i h m3 = m4" "pool_mid m4 i S4 ?V fs4 h" "inext m4 h \<in> ?V" "h \<in> set fs4 \<longleftrightarrow> h \<in> set fs"
    "available_size (heaps m4 i) = fsz (inext m4) (S4 - ?V) mod 2 ^ 32" "\<forall>c \<in> ?V. inext m4 c = inext m3 c" "pool_frame i m3 m4"
  proof (cases "inext m3 h \<in> ?V")
    case True
    then have "free_merge_right i h m3 = m3" using us by (simp add: free_merge_right_def)
    then show ?thesis using that l(2,4) True by simp
  next
    case False
    let ?u = "upd_heap i (\<lambda>h. h\<lparr>available_size := add32 (available_size h) 24\<rparr>) m3"
    let ?m4 = "free_list_remove (inext ?u h) (put_next h (inext ?u (inext ?u h)) (put_prev (inext ?u (inext ?u h)) h ?u))"
    have M: "pool_mid ?u i S3 ?V fs h" "inext ?u h \<notin> ?V" using l(2) False by simp_all
    note MR = merge_right [OF M refl]
    have "free_merge_right i h m3 = ?m4" using us False by (simp add: free_merge_right_def Let_def)
    moreover have "available_size (heaps ?m4 i) = fsz (inext ?m4) (S3 - {inext ?u h} - ?V) mod 2 ^ 32"
      unfolding MR(6,3) using l(4) by (simp add: add32_def mod_add_left_eq)
    moreover have "inext ?m4 h \<in> ?V" unfolding MR(2) using MR(5) by simp
    moreover have "\<forall>c \<in> ?V. inext ?m4 c = inext m3 c" unfolding MR(2) using D3(8) by auto
    moreover have "pool_frame i m3 ?m4" by (rule pool_frame_trans [OF pool_frame_heap [OF pool_frame_refl] MR(4)]) auto
    ultimately show ?thesis using that MR(1,7) by blast
  qed
  note Z = pool_mid_done [OF r(2,3,5)]
  have fr: "pool_frame i m m4" by (rule pool_frame_trans [OF l(6) r(7)])
  have keep: "\<forall>c \<in> ?V. inext m4 c = inext m c" using l(5) r(6) by simp
  show ?thesis
  proof (cases ins)
    case True
    then have "h \<notin> set fs4" using l(3) r(4) by simp
    note Z' = Z(2-4) [OF this]
    have "pool_frame i m (free_list_insert i h m4)" by (rule pool_frame_trans [OF fr Z'(2)])
    then show ?thesis using run r(1) True Z'(1,3) keep by auto
  next
    case False
    then have "h \<in> set fs4" using l(3) r(4) by simp
    then show ?thesis using run r(1) False Z(1) fr keep by auto
  qed
qed

section \<open>Reallocation in place\<close>

lemma put_upd_heap:
  "put_next a v (upd_heap i f m) = upd_heap i f (put_next a v m)" "put_prev a v (upd_heap i f m) = upd_heap i f (put_prev a v m)"
  "put_next_free a v (upd_heap i f m) = upd_heap i f (put_next_free a v m)" "put_prev_free a v (upd_heap i f m) = upd_heap i f (put_prev_free a v m)"
  "put_magic a w (upd_heap i f m) = upd_heap i f (put_magic a w m)" "put_pool a v (upd_heap i f m) = upd_heap i f (put_pool a v m)"
  by (simp_all add: item_defs)

lemma insert_avail: "free_list_insert i p (upd_heap i (\<lambda>h. h\<lparr>available_size := f h\<rparr>) m)
   = upd_heap i (\<lambda>h. h\<lparr>available_size := f h\<rparr>) (free_list_insert i p m)"
  by (simp add: free_list_insert_def Let_def put_upd_heap)

text \<open>The new block that a split makes is given back like any other one.\<close>

lemma split_mid:
  assumes I: "pool_inv m i S U fs" and b: "b \<in> U" "b \<noteq> ptail m i" and q: "b + 36 \<le> q" "q + 36 \<le> inext m b"
  shows "pool_mid (block_split i b q m) i (insert q S) U fs q" "q \<notin> S" "pool_frame i m (block_split i b q m)"
    "inext (block_split i b q m) = (inext m)(q := inext m b, b := q)" "heaps (block_split i b q m) = heaps m"
    "fsz (inext (block_split i b q m)) (insert q S - U) = (inext m b - q - 24) + fsz (inext m) (S - U)"
proof -
  note D = pool_invD [OF I]
  note R = tilesD [OF D(2)]
  let ?m' = "block_split i b q m"
  have bS: "b \<in> S" using b D(5) by auto
  have bq: "b \<noteq> q" using q by auto
  note L = block_split_links [OF bq, of i m]
  note TS = tiles_split [OF D(2) bS b(2) q]
  show "inext ?m' = (inext m)(q := inext m b, b := q)" "heaps ?m' = heaps m" by (rule L)+
  show qS: "q \<notin> S" by (rule TS(2))
  have qU: "q \<notin> U" using qS D(5) by auto
  have SU: "insert q S - U = insert q (S - U)" using qU by auto
  have t: "ptail ?m' i = ptail m i" by (simp add: ptail_def L)
  have "marks (imagic ?m') (ipool ?m') i (insert q S) U" unfolding L using D(4) qU by (auto simp: marks_def)
  moreover have "\<forall>c \<in> insert q S - U. c \<noteq> q \<longrightarrow> inext ?m' c \<in> U" unfolding L using D(8) b(1) by auto
  ultimately show "pool_mid ?m' i (insert q S) U fs q"
    unfolding pool_mid_def t unfolding L(7) unfolding L(1,2,5,6) using D(1,3,5,6,7) TS(1) qU SU L(1) by auto
  have "fsz (inext ?m') (S - U) = fsz (inext m) (S - U)"
    unfolding fsz_def L by (rule sum.cong) (use b(1) qS in auto)
  then show "fsz (inext ?m') (insert q S - U) = (inext m b - q - 24) + fsz (inext m) (S - U)"
    unfolding SU using fsz_insert [of "S - U" q "inext ?m'"] R(1) qS bq by (simp add: L)
  have r: "start_addr (heaps m i) \<le> c \<and> c \<le> ptail m i" if "c \<in> insert q S" for c
  proof -
    have "start_addr (heaps m i) \<le> q" "q \<le> ptail m i" using R(5) [OF bS] R(5) [OF R(8) [OF bS b(2)]] q by linarith+
    then show ?thesis using that R(5) [of c] by auto
  qed
  show "pool_frame i m ?m'" by (rule pool_frame_split) (use r bS R(8) [OF bS b(2)] bq in \<open>auto simp: in_pool_def\<close>)
qed

lemma realloc_shrink_spec:
  assumes I: "pool_inv m i S U fs" and b: "b \<in> U" "b \<noteq> ptail m i" and n: "12 \<le> n" "n + 60 < inext m b - b"
  shows "\<exists>S' fs'. pool_inv (realloc_shrink i b n m) i S' U fs' \<and> inext (realloc_shrink i b n m) b = b + 24 + n
    \<and> (\<forall>c \<in> U - {b}. inext (realloc_shrink i b n m) c = inext m c) \<and> pool_frame i m (realloc_shrink i b n m)"
proof -
  note D = pool_invD [OF I]
  have bS: "b \<in> S" using b D(5) by auto
  note P = pool_block [OF I bS]
  note N = P(9) [OF b(2)]
  let ?q = "b + 24 + n"
  have q: "b + 36 \<le> ?q" "?q + 36 \<le> inext m b" using n N by linarith+
  let ?m1 = "block_split i b ?q m"
  note S1 = split_mid [OF I b q]
  note M1 = pool_midD [OF S1(1)]
  note R1 = tilesD [OF M1(2)]
  have nq: "inext ?m1 ?q = inext m b" using S1(4) q by simp
  have qT: "?q \<noteq> ptail ?m1 i" using M1(6,8) by auto
  have us: "RT_MEMHEAP_IS_USED ?m1 (inext ?m1 ?q) = (inext m b \<in> U)"
    using used_mark(1) [OF M1(4) R1(8) [OF M1(7) qT]] nq by (simp add: RT_MEMHEAP_IS_USED_def)
  have ar: "add32 (add32 b n) 24 = ?q" using q N P(6) by (simp add: add32_small)
  have fin: "fsz (inext m) (S - U) < 2 ^ 32" by (rule fsz_bound [OF I])
  obtain m4 S4 fs4 where r: "realloc_shrink i b n m = upd_heap i (\<lambda>h. h\<lparr>available_size := add32 (available_size h) (MEMITEM_SIZE (free_list_insert i ?q m4) ?q)\<rparr>) (free_list_insert i ?q m4)"
    "pool_mid m4 i S4 U fs4 ?q" "inext m4 ?q \<in> U" "?q \<notin> set fs4" "?q + 36 \<le> inext m4 ?q"
    "(available_size (heaps m4 i) + (inext m4 ?q - ?q - 24)) mod 2 ^ 32 = fsz (inext m4) (S4 - U) mod 2 ^ 32"
    "\<forall>c \<in> U. inext m4 c = inext ?m1 c" "pool_frame i ?m1 m4"
  proof (cases "inext m b \<in> U")
    case True
    have "realloc_shrink i b n m = upd_heap i (\<lambda>h. h\<lparr>available_size := add32 (available_size h) (MEMITEM_SIZE (free_list_insert i ?q ?m1) ?q)\<rparr>) (free_list_insert i ?q ?m1)"
      using us True by (simp add: realloc_shrink_def Let_def ar)
    moreover have "?q \<notin> set fs" using S1(2) D(7) by auto
    moreover have "available_size (heaps ?m1 i) + (inext ?m1 ?q - ?q - 24) = fsz (inext ?m1) (insert ?q S - U)"
      unfolding S1(6) nq S1(5) D(9) by (rule add.commute)
    ultimately show ?thesis using that [of ?m1 "insert ?q S" fs] S1(1) True nq q by simp
  next
    case False
    let ?c = "inext m b"
    have cS: "?c \<in> S" "?c \<noteq> ptail m i" using N False D(6) by auto
    note NC = pool_block(9) [OF I cS]
    have cq: "?c \<noteq> ?q" "?c \<noteq> b" using q by auto
    have c1: "inext ?m1 ?c = inext m ?c" using S1(4) cq by simp
    have sz: "MEMITEM_SIZE ?m1 ?c = inext m ?c - ?c - 24" using pool_block(8) [OF I cS] c1 by (simp add: MEMITEM_SIZE_def)
    let ?u = "upd_heap i (\<lambda>h. h\<lparr>available_size := sub32 (available_size h) (inext m ?c - ?c - 24)\<rparr>) ?m1"
    let ?m4 = "free_list_remove (inext ?u ?q) (put_next ?q (inext ?u (inext ?u ?q)) (put_prev (inext ?u (inext ?u ?q)) ?q ?u))"
    have M: "pool_mid ?u i (insert ?q S) U fs ?q" "inext ?u ?q \<notin> U" using S1(1) False nq by simp_all
    note MR = merge_right [OF M refl]
    have nx4: "inext ?m4 ?q = inext m ?c" unfolding MR(2) using nq c1 by simp
    have "realloc_shrink i b n m = upd_heap i (\<lambda>h. h\<lparr>available_size := add32 (available_size h) (MEMITEM_SIZE (free_list_insert i ?q ?m4) ?q)\<rparr>) (free_list_insert i ?q ?m4)"
      using us False cq by (simp add: realloc_shrink_def Let_def ar nq sz c1)
    moreover have "(available_size (heaps ?m4 i) + (inext ?m4 ?q - ?q - 24)) mod 2 ^ 32 = fsz (inext ?m4) (insert ?q S - {inext ?u ?q} - U) mod 2 ^ 32"
    proof -
      have le: "inext m ?c - ?c - 24 \<le> fsz (inext m) (S - U)" using fsz_remove(2) [of "S - U" ?c "inext m"] tilesD(1) [OF D(2)] cS False by simp
      have "available_size (heaps ?m4 i) = fsz (inext m) (S - U) - (inext m ?c - ?c - 24)"
        unfolding MR(3) using S1(5) D(9) le fin by (simp add: sub32_small)
      then have "available_size (heaps ?m4 i) + (inext ?m4 ?q - ?q - 24) = fsz (inext ?m4) (insert ?q S - {inext ?u ?q} - U)"
        unfolding MR(6) nx4 using S1(6) le q NC by simp
      then show ?thesis by simp
    qed
    moreover have "\<forall>c \<in> U. inext ?m4 c = inext ?m1 c" unfolding MR(2) using M1(8) by auto
    moreover have "pool_frame i ?m1 ?m4" by (rule pool_frame_trans [OF pool_frame_heap [OF pool_frame_refl] MR(4)]) auto
    moreover have "?q \<notin> set (remove1 (inext ?u ?q) fs)" using MR(7) S1(2) D(7) by auto
    moreover have "inext ?m4 ?q \<in> U" unfolding nx4 using D(8) cS(1) False by simp
    moreover have "?q + 36 \<le> inext ?m4 ?q" unfolding nx4 using NC q by linarith
    ultimately show ?thesis using that MR(1) by blast
  qed
  note M4 = pool_midD [OF r(2)]
  have H: "mh_free_list (heaps m4 i) = free_header i" using pool_baseD(1) [OF M4(1)] .
  have "inext m4 ?q \<in> S4" using r(3) M4(5) by auto
  then have "inext m4 ?q \<le> ptail m4 i" using tilesD(5) [OF M4(2)] by blast
  then have t4: "inext m4 ?q < 2 ^ 32" using pool_baseD(4) [OF M4(1)] unfolding ptail_def by linarith
  have qH: "?q \<noteq> free_header i" using pool_header [OF M4(1)] tilesD(5) [OF M4(2) M4(7)] by auto
  have ms: "MEMITEM_SIZE (free_list_insert i ?q m4) ?q = inext m4 ?q - ?q - 24"
    using free_list_insert_links(3) [OF H qH] r(5) t4 by (simp add: MEMITEM_SIZE_def sub32_small)
  let ?m5 = "upd_heap i (\<lambda>h. h\<lparr>available_size := add32 (available_size h) (inext m4 ?q - ?q - 24)\<rparr>) m4"
  have run: "realloc_shrink i b n m = free_list_insert i ?q ?m5" unfolding r(1) ms by (rule insert_avail [symmetric])
  have "available_size (heaps ?m5 i) = fsz (inext ?m5) (S4 - U) mod 2 ^ 32" using r(6) by (simp add: add32_def)
  then have Z: "pool_inv (free_list_insert i ?q ?m5) i S4 U (?q # fs4)" "pool_frame i ?m5 (free_list_insert i ?q ?m5)"
    "inext (free_list_insert i ?q ?m5) = inext m4"
    using pool_mid_done(2-4) [of ?m5 i S4 U fs4 ?q] r(2-4) by simp_all
  have "pool_frame i ?m1 ?m5" using r(8) by (intro pool_frame_heap) auto
  then have "pool_frame i m (free_list_insert i ?q ?m5)" using pool_frame_trans S1(3) Z(2) by blast
  moreover have "?q \<notin> U" using S1(2) D(5) by auto
  then have "\<forall>c \<in> U - {b}. inext m4 c = inext m c" "inext m4 b = ?q" using r(7) b(1) by (auto simp: S1(4))
  ultimately show ?thesis unfolding run Z(3) using Z(1) by blast
qed

lemma split_avail: "block_split i b q (upd_heap i f m) = upd_heap i f (block_split i b q m)"
  by (simp add: block_split_def Let_def put_upd_heap)

lemma grow_count:
  assumes "b + 24 + old = (c :: nat)" "c + 36 \<le> nc" "old < n" "n + 12 < (nc - c - 24) + old" "a = F - (nc - c - 24)" "nc - c - 24 \<le> F"
  shows "(nc - (b + 24 + n) - 24) + a = F - (n - old)"
proof -
  define k where "k = nc - c - 24"
  have k: "nc = c + 24 + k" using assms(2) by (simp add: k_def)
  obtain e where e: "n = old + e" using assms(3) by (metis less_imp_add_positive)
  have "k \<le> F" "a = F - k" "e \<le> k" using assms(4-6) by (simp_all add: k e)
  then show ?thesis using assms(1) by (simp add: k e)
qed

lemma realloc_grow_spec:
  assumes I: "pool_inv m i S U fs" and b: "b \<in> U" "b \<noteq> ptail m i" and c: "c = inext m b" "c \<notin> U"
    and old: "old = c - b - 24" and n: "old < n" "n + 12 < (inext m c - c - 24) + old"
  shows "\<exists>S' fs'. pool_inv (realloc_grow i (b + 24) b old n m) i S' U fs'
    \<and> inext (realloc_grow i (b + 24) b old n m) b = b + 24 + n
    \<and> (\<forall>d \<in> U - {b}. inext (realloc_grow i (b + 24) b old n m) d = inext m d)
    \<and> pool_frame i m (realloc_grow i (b + 24) b old n m)"
proof -
  note D = pool_invD [OF I]
  note R = tilesD [OF D(2)]
  have bS: "b \<in> S" using b D(5) by auto
  note N = pool_block(9) [OF I bS b(2), folded c(1)]
  have cS: "c \<in> S" "c \<noteq> ptail m i" "c \<in> set fs" using N c(2) D(6,7) by auto
  note NC = pool_block(9) [OF I cS(1,2)] and PC = pool_block [OF I cS(1)]
  let ?q = "b + 24 + n" and ?H = "free_header i" and ?T = "ptail m i" and ?s = "start_addr (heaps m i)"
  have q: "b + 36 \<le> ?q" "?q + 36 \<le> inext m c" using n old N by linarith+
  define m2 where "m2 = note_used i (upd_heap i (\<lambda>h. h\<lparr>available_size := sub32 (available_size h) (sub32 n old)\<rparr>) m)"
  have L2: "inext m2 = inext m" "iprev m2 = iprev m" "inext_free m2 = inext_free m" "iprev_free m2 = iprev_free m"
    "imagic m2 = imagic m" "ipool m2 = ipool m" "start_addr (heaps m2 i) = ?s" "ptail m2 i = ?T" "pool_base (heaps m2 i) i"
    "available_size (heaps m2 i) = sub32 (fsz (inext m) (S - U)) (sub32 n old)"
    using D(1,9) by (simp_all add: m2_def ptail_def pool_base_def)
  have F2: "flist (inext_free m2) (iprev_free m2) ?H fs" using D(3) L2 by simp
  note T2 = ring_take [OF F2 cS(3)]
  define m3 where "m3 = free_list_remove c m2"
  note L3 = free_list_remove_links [OF T2(2), folded m3_def]
  have pc: "iprev m c = b" using R(11) [OF bS b(2)] c(1) by simp
  define m5 where "m5 = put_next b (inext m c) (put_prev (inext m c) b m3)"
  have nc: "inext m c \<noteq> c" using NC by auto
  have L5: "inext m5 = (inext m)(b := inext m c)" "iprev m5 = (iprev m)(inext m c := b)" "imagic m5 = imagic m" "ipool m5 = ipool m"
    "inext_free m5 = inext_free m3" "iprev_free m5 = iprev_free m3" "heaps m5 = heaps m2" using L3 L2 by (simp_all add: m5_def)
  have ar: "add32 (b + 24) n = ?q" using q NC PC(6) by (simp add: add32_small)
  have run: "realloc_grow i (b + 24) b old n m = free_list_insert i ?q (block_split i b ?q m5)"
    unfolding realloc_grow_def Let_def c(1) [symmetric] m2_def [symmetric] m3_def [symmetric] memheap_consts m5_def
    using L2 L3 pc nc ar by simp
  define a where "a = fsz (inext m5) (S - {c} - U)"
  let ?u = "upd_heap i (\<lambda>h. h\<lparr>available_size := a\<rparr>) m5"
  have d: "distinct fs" using flistD(1) [OF D(3)] by simp
  have T5: "tiles (inext m5) (iprev m5) (S - {c}) ?s ?T" unfolding L5 using tiles_join [OF D(2) bS b(2)] c(1) cS(2) by simp
  have I5: "pool_inv ?u i (S - {c}) U (remove1 c fs)"
    unfolding pool_inv_def
  proof (intro conjI)
    show "set (remove1 c fs) = S - {c} - U" using D(7) by (auto simp: set_remove1_eq [OF d])
    show "\<forall>b \<in> S - {c} - U. inext ?u b \<in> U" using D(8) b(1) by (auto simp: L5)
    show "marks (imagic ?u) (ipool ?u) i (S - {c}) U" using D(4) by (simp add: marks_def L5)
    show "flist (inext_free ?u) (iprev_free ?u) ?H (remove1 c fs)" using T2(1) L5 by (simp add: m3_def)
  qed (use T5 D(5,6) c(2) cS L2 L5 a_def in \<open>auto simp: pool_base_def ptail_def\<close>)
  have t5: "ptail ?u i = ?T" using L2 L5 by (simp add: ptail_def)
  have n5: "inext ?u b = inext m c" using L5 by simp
  note S6 = split_mid [OF I5 b(1) _ q(1), unfolded t5 n5 split_avail, OF b(2) q(2)]
  let ?m6 = "block_split i b ?q m5"
  have a: "a = fsz (inext m) (S - U) - (inext m c - c - 24)" "inext m c - c - 24 \<le> fsz (inext m) (S - U)"
  proof -
    have "S - {c} - U = S - U - {c}" by auto
    moreover have "fsz (inext m5) (S - U - {c}) = fsz (inext m) (S - U - {c})"
      unfolding fsz_def L5 by (rule sum.cong) (use b(1) in auto)
    ultimately show "a = fsz (inext m) (S - U) - (inext m c - c - 24)" "inext m c - c - 24 \<le> fsz (inext m) (S - U)"
      using fsz_remove [of "S - U" c "inext m"] R(1) cS(1) c(2) by (simp_all add: a_def)
  qed
  have n32: "sub32 n old = n - old" by (rule sub32_small) (use n old NC N PC(6) in linarith)+
  have "available_size (heaps ?m6 i) = fsz (inext m) (S - U) - (n - old)"
    using L2(10) L5(7) block_split_links(7) [of b ?q i m5] q n32 fsz_bound [OF I] a(2) n old N by (simp add: sub32_small)
  moreover have "fsz (inext ?m6) (insert ?q (S - {c}) - U) = fsz (inext m) (S - U) - (n - old)"
  proof -
    have "inext ?u b = inext m c" "fsz (inext ?u) (S - {c} - U) = a" using L5(1) by (simp_all add: a_def)
    then have "fsz (inext ?m6) (insert ?q (S - {c}) - U) = (inext m c - ?q - 24) + a" using S6(6) by simp
    then show ?thesis using grow_count [OF _ _ n a] old N NC by simp
  qed
  ultimately have av: "available_size (heaps ?m6 i) = fsz (inext ?m6) (insert ?q (S - {c}) - U) mod 2 ^ 32" using fsz_bound [OF I] by simp
  have x6: "inext ?m6 = (inext m)(b := inext m c, ?q := inext m c, b := ?q)" using block_split_links(1) [of b ?q i m5] q L5(1) by simp
  have cU: "inext m c \<in> U" using D(8) cS(1) c(2) by simp
  have qfs: "?q \<notin> set (remove1 c fs)" using S6(2) D(7) by (auto simp: set_remove1_eq [OF d])
  note Z = pool_mid_done(2-4) [OF _ _ av qfs]
  have mid: "pool_mid ?m6 i (insert ?q (S - {c})) U (remove1 c fs) ?q" using S6(1) by simp
  have nq: "inext ?m6 ?q \<in> U" using x6 cU by simp
  have ip: "in_pool m i d" if "d \<in> insert ?H S" for d using that R(5) by (auto simp: in_pool_def)
  have "pool_frame i m m2" unfolding m2_def by (intro pool_frame_note pool_frame_heap) auto
  then have "pool_frame i m m3" unfolding m3_def by (rule ring_take_frame [OF _ F2 cS(3)]) (use ip D(7) in auto)
  then have f5: "pool_frame i m m5" unfolding m5_def by (intro pool_frame_step ip) (use bS NC in auto)
  have f6: "pool_frame i m5 ?m6"
    by (rule pool_frame_split) (use q L2 L5 R(5) [OF bS] NC in \<open>auto simp: in_pool_def ptail_def\<close>)
  have "pool_frame i m (free_list_insert i ?q ?m6)" using f5 f6 Z(2) [OF mid nq] pool_frame_trans by blast
  moreover have "?q \<notin> U" using S6(2) D(5) c(2) by auto
  then have "\<forall>d \<in> U - {b}. inext ?m6 d = inext m d" "inext ?m6 b = ?q" using x6 by auto
  ultimately show ?thesis unfolding run Z(3) [OF mid nq] using Z(1) [OF mid nq] by blast
qed

end
