(* ===== verification/RT_MemHeapClient.thy ===== *)
theory RT_MemHeapClient
  imports RT_MemHeapOps
begin

text \<open>
  What a client of the memory heaps may rely on: each heap alone, and all of them together as the heap of the
  system, keep the contract \<open>allocator\<close>, and reallocation keeps the contents of a block.
\<close>

section \<open>Blocks and ranges in use\<close>

text \<open>The blocks of a pool, from the first one along the links.\<close>

inductive_set mh_blocks :: "memheaps \<Rightarrow> nat \<Rightarrow> nat set" for m i where
  first: "start_addr (heaps m i) \<in> mh_blocks m i"
| onward: "b \<in> mh_blocks m i \<Longrightarrow> b \<noteq> ptail m i \<Longrightarrow> inext m b \<in> mh_blocks m i"

lemma mh_blocks_eq:
  assumes "pool_inv m i S U fs"
  shows "mh_blocks m i = S"
proof
  note T = pool_invD(2) [OF assms]
  note R = tilesD [OF T]
  show "mh_blocks m i \<subseteq> S"
  proof
    fix b assume "b \<in> mh_blocks m i"
    then show "b \<in> S" by induction (use R(2,8) in auto)
  qed
  have "b \<in> S \<Longrightarrow> b \<in> mh_blocks m i" for b
  proof (induction b rule: less_induct)
    case (less b)
    show ?case
    proof (cases "b = start_addr (heaps m i)")
      case False
      note P = tiles_prev [OF T less.prems False]
      have "iprev m b < b" using R(9) [OF P(1,2)] P(3) by simp
      then show ?thesis using less.IH P mh_blocks.onward [of "iprev m b" m i] by simp
    qed (simp add: mh_blocks.first)
  qed
  then show "S \<subseteq> mh_blocks m i" by blast
qed

definition pool_ok :: "memheaps \<Rightarrow> nat \<Rightarrow> bool" where
  "pool_ok m i \<longleftrightarrow> (\<exists>S U fs. pool_inv m i S U fs)"

definition in_use_of :: "memheaps \<Rightarrow> nat \<Rightarrow> (nat \<times> nat) set" where
  "in_use_of m i = (\<lambda>b. (b + 24, inext m b)) ` {b \<in> mh_blocks m i. b \<noteq> ptail m i \<and> RT_MEMHEAP_IS_USED m b}"

lemma in_use_of_eq:
  assumes "pool_inv m i S U fs"
  shows "in_use_of m i = (\<lambda>b. (b + 24, inext m b)) ` (U - {ptail m i})"
proof -
  have "{b \<in> S. b \<noteq> ptail m i \<and> RT_MEMHEAP_IS_USED m b} = U - {ptail m i}"
    using pool_block(1) [OF assms] pool_invD(5) [OF assms] by auto
  then show ?thesis by (simp add: in_use_of_def mh_blocks_eq [OF assms])
qed

lemma in_use_block:
  assumes "pool_inv m i S U fs" "(p, e) \<in> in_use_of m i"
  shows "\<exists>b \<in> U. b \<noteq> ptail m i \<and> p = b + 24 \<and> e = inext m b \<and> p < e \<and> start_addr (heaps m i) \<le> b \<and> e \<le> ptail m i"
proof -
  obtain b where b: "b \<in> U" "b \<noteq> ptail m i" "p = b + 24" "e = inext m b" using assms(2) in_use_of_eq [OF assms(1)] by auto
  then have "b \<in> S" using pool_invD(5) [OF assms(1)] by auto
  then show ?thesis using b pool_block(4) [OF assms(1)] pool_block(9) [OF assms(1) _ b(2)] by auto
qed

lemma in_use_apart:
  assumes I: "pool_inv m i S U fs" and "(a, z) \<in> in_use_of m i" "(b, y) \<in> in_use_of m i" "a \<noteq> b"
  shows "z \<le> b \<or> y \<le> a"
proof -
  obtain c d where c: "c \<in> U" "c \<noteq> ptail m i" "a = c + 24" "z = inext m c" and d: "d \<in> U" "d \<noteq> ptail m i" "b = d + 24" "y = inext m d"
    using in_use_block [OF I assms(2)] in_use_block [OF I assms(3)] by blast
  have "c \<in> S" "d \<in> S" using c d pool_invD(5) [OF I] by auto
  then show ?thesis using tilesD(10) [OF pool_invD(2) [OF I] _ c(2), of d] tilesD(10) [OF pool_invD(2) [OF I] _ d(2), of c] c d assms(4) by auto
qed

lemma in_use_start: "pool_inv m i S U fs \<Longrightarrow> (a, z) \<in> in_use_of m i \<Longrightarrow> (a, y) \<in> in_use_of m i \<Longrightarrow> z = y"
  by (auto simp: in_use_of_eq)

section \<open>One heap\<close>

lemma pool_frame_ptail: "pool_frame i m m' \<Longrightarrow> ptail m' i = ptail m i"
  by (simp add: pool_frame_def ptail_def)

text \<open>A block that is taken, given back or moved changes the ranges in use accordingly.\<close>

lemma in_use_change:
  assumes I: "pool_inv m i S U fs" and I': "pool_inv m' i S' U' fs'" and f: "pool_frame i m m'"
    and V: "V \<subseteq> U" "V \<subseteq> U'" "\<forall>c \<in> V. inext m' c = inext m c"
  shows "in_use_of m i = (\<lambda>b. (b + 24, inext m b)) ` (V - {ptail m i}) \<union> (\<lambda>b. (b + 24, inext m b)) ` (U - V - {ptail m i})"
    "in_use_of m' i = (\<lambda>b. (b + 24, inext m b)) ` (V - {ptail m i}) \<union> (\<lambda>b. (b + 24, inext m' b)) ` (U' - V - {ptail m i})"
proof -
  let ?f = "\<lambda>b. (b + 24, inext m b)" and ?g = "\<lambda>b. (b + 24, inext m' b)" and ?T = "ptail m i"
  have e: "?g ` (V - {?T}) = ?f ` (V - {?T})" by (rule image_cong) (use V(3) in auto)
  have u: "U - {?T} = (V - {?T}) \<union> (U - V - {?T})" "U' - {?T} = (V - {?T}) \<union> (U' - V - {?T})" using V(1,2) by auto
  show "in_use_of m i = ?f ` (V - {?T}) \<union> ?f ` (U - V - {?T})" unfolding in_use_of_eq [OF I] by (subst u(1)) (rule image_Un)
  show "in_use_of m' i = ?f ` (V - {?T}) \<union> ?g ` (U' - V - {?T})"
    unfolding in_use_of_eq [OF I'] pool_frame_ptail [OF f] e [symmetric] by (subst u(2)) (rule image_Un)
qed

lemma memheap_alloc_use:
  assumes I: "pool_inv m i S U fs" and n: "n + 7 < 2 ^ 32"
  shows "\<exists>r m'. rt_memheap_alloc i n m = Some (r, m') \<and> pool_frame i m m' \<and> pool_ok m' i
    \<and> (case r of None \<Rightarrow> m' = m
       | Some p \<Rightarrow> \<exists>e. p + n \<le> e \<and> in_use_of m' i = insert (p, e) (in_use_of m i) \<and> (\<forall>z. (p, z) \<notin> in_use_of m i))"
proof -
  from rt_memheap_alloc_spec [OF assms] obtain r m' where
    s: "rt_memheap_alloc i n m = Some (r, m')" "pool_frame i m m'" and r: "case r of None \<Rightarrow> m' = m \<and> (fsz (inext m) (S - U) \<le> round_size n \<or> (\<forall>b \<in> S - U. inext m b - b - 24 < round_size n))
       | Some p \<Rightarrow> \<exists>b S' fs'. p = b + 24 \<and> b \<in> S - U \<and> b + 24 + round_size n \<le> inext m' b
           \<and> pool_inv m' i S' (insert b U) fs' \<and> (\<forall>c \<in> U. inext m' c = inext m c)" by blast
  show ?thesis
  proof (cases r)
    case None
    then show ?thesis using s r I by (auto simp: pool_ok_def)
  next
    case (Some p)
    then obtain b S' fs' where b: "p = b + 24" "b \<in> S - U" "b + 24 + round_size n \<le> inext m' b" "pool_inv m' i S' (insert b U) fs'"
      "\<forall>c \<in> U. inext m' c = inext m c" using r by auto
    have bT: "b \<noteq> ptail m i" using b(2) pool_invD(6) [OF I] by auto
    have sub: "U \<subseteq> insert b U" by auto
    have "insert b U - U - {ptail m i} = {b}" using b(2) bT by auto
    then have "in_use_of m' i = insert (p, inext m' b) (in_use_of m i)"
      using in_use_change [OF I b(4) s(2) order_refl sub b(5)] b(1) by simp
    moreover have "\<forall>z. (p, z) \<notin> in_use_of m i" using b(1,2) in_use_of_eq [OF I] by auto
    moreover have "p + n \<le> inext m' b" using b(1,3) round_size_bounds(2) [OF n] by simp
    ultimately show ?thesis using s Some b(4) by (auto simp: pool_ok_def)
  qed
qed

lemma memheap_free_use:
  assumes I: "pool_inv m i S U fs" and p: "(p, e) \<in> in_use_of m i"
  shows "\<exists>m'. rt_memheap_free (Some p) m = Some m' \<and> pool_frame i m m' \<and> pool_ok m' i \<and> in_use_of m' i = in_use_of m i - {(p, e)}"
proof -
  obtain b where b: "b \<in> U" "b \<noteq> ptail m i" "p = b + 24" "e = inext m b" using in_use_block [OF I p] by blast
  from rt_memheap_free_spec [OF I b(1,2)] obtain m' S' fs' where
    m': "rt_memheap_free (Some p) m = Some m'" "pool_inv m' i S' (U - {b}) fs'" "\<forall>c \<in> U - {b}. inext m' c = inext m c" "pool_frame i m m'"
    unfolding b(3) by blast
  have sub: "U - {b} \<subseteq> U" by auto
  note C = in_use_change [OF I m'(2,4) sub order_refl m'(3)]
  have "U - (U - {b}) - {ptail m i} = {b}" "U - {b} - (U - {b}) - {ptail m i} = {}" using b by auto
  then have "in_use_of m i = insert (p, e) (in_use_of m' i)" unfolding C using b(3,4) by simp
  moreover have "(p, e) \<notin> in_use_of m' i" using in_use_of_eq [OF m'(2)] b(3) by auto
  ultimately have "in_use_of m' i = in_use_of m i - {(p, e)}" by simp
  then show ?thesis using m' by (auto simp: pool_ok_def)
qed

interpretation pool: allocator "\<lambda>m. pool_ok m i" "\<lambda>m. in_use_of m i" "rt_memheap_alloc i" "\<lambda>p. rt_memheap_free (Some p)" for i
proof (unfold_locales, goal_cases)
  case (1 s a z b y)
  then show ?case using in_use_apart unfolding pool_ok_def by meson
next
  case (2 s a z y)
  then show ?case using in_use_start unfolding pool_ok_def by meson
next
  case (3 s n)
  then obtain S U fs where I: "pool_inv s i S U fs" by (auto simp: pool_ok_def)
  from memheap_alloc_use [OF this 3(2)] obtain r m' where r: "rt_memheap_alloc i n s = Some (r, m')" "pool_ok m' i"
    "case r of None \<Rightarrow> m' = s
       | Some p \<Rightarrow> \<exists>e. p + n \<le> e \<and> in_use_of m' i = insert (p, e) (in_use_of s i) \<and> (\<forall>z. (p, z) \<notin> in_use_of s i)" by blast
  then show ?case by (cases r) auto
next
  case (4 s p e)
  then obtain S U fs where "pool_inv s i S U fs" by (auto simp: pool_ok_def)
  then show ?case using memheap_free_use [OF _ 4(2)] by blast
qed

section \<open>A fresh heap\<close>

lemma items_other:
  assumes "a \<noteq> b"
  shows "items (put_next b v m) a = items m a" "items (put_prev b v m) a = items m a" "items (put_next_free b v m) a = items m a"
    "items (put_prev_free b v m) a = items m a" "items (put_magic b w m) a = items m a" "items (put_pool b v m) a = items m a"
    "items (upd_heap i f m) = items m"
  using assms by (simp_all add: item_defs)

lemma memheap_init_spec:
  assumes P: "P = align_down32 sz" "60 \<le> P" "start + P < 2 ^ 32" and H: "free_header i < start \<or> start + P \<le> free_header i"
  shows "pool_inv (rt_memheap_init i start sz m) i {start, start + P - 24} {start + P - 24} [start]"
    "heap_objects (rt_memheap_init i start sz m) = i # heap_objects m" "system_heap (rt_memheap_init i start sz m) = system_heap m"
    "j \<noteq> i \<Longrightarrow> heaps (rt_memheap_init i start sz m) j = heaps m j"
    "\<not> in_pool (rt_memheap_init i start sz m) i a \<Longrightarrow> items (rt_memheap_init i start sz m) a = items m a"
    "start_addr (heaps (rt_memheap_init i start sz m) i) = start" "ptail (rt_memheap_init i start sz m) i = start + P - 24"
proof -
  let ?m = "rt_memheap_init i start sz m" and ?T = "start + P - 24" and ?H = "free_header i"
  have ar: "sub32 P 48 = P - 48" "add32 (add32 start (P - 48)) 24 = ?T" using P by (simp_all add: sub32_small add32_small)
  have ne: "start \<noteq> ?H" "?T \<noteq> ?H" "start \<noteq> ?T" using P H by auto
  note defs = rt_memheap_init_def free_list_insert_def Let_def P(1) [symmetric] ar
  show hp: "heap_objects ?m = i # heap_objects m" "system_heap ?m = system_heap m" "j \<noteq> i \<Longrightarrow> heaps ?m j = heaps m j"
    by (simp_all add: defs ne ne [symmetric] upd_heap_def)
  have h: "start_addr (heaps ?m i) = start" "pool_size (heaps ?m i) = P" "mh_free_list (heaps ?m i) = ?H" "mh_block_list (heaps ?m i) = start"
    "available_size (heaps ?m i) = P - 48"
    by (simp_all add: defs ne ne [symmetric])
  show "start_addr (heaps ?m i) = start" "ptail ?m i = ?T" using h by (simp_all add: ptail_def)
  have f: "inext ?m start = ?T" "inext ?m ?T = start" "iprev ?m start = ?T" "iprev ?m ?T = start"
    "inext_free ?m ?H = start" "inext_free ?m start = ?H" "iprev_free ?m ?H = start" "iprev_free ?m start = ?H"
    "imagic ?m start = RT_MEMHEAP_MAGIC" "imagic ?m ?T = RT_MEMHEAP_MAGIC OR RT_MEMHEAP_USED" "ipool ?m start = i" "ipool ?m ?T = i"
    by (simp_all add: defs ne ne [symmetric])
  have t: "ptail ?m i = ?T" using h by (simp add: ptail_def)
  show "pool_inv ?m i {start, ?T} {?T} [start]"
    unfolding pool_inv_def t h
  proof (intro conjI)
    show "pool_base (heaps ?m i) i" using h P(2,3) H by (simp add: pool_base_def)
    show "tiles (inext ?m) (iprev ?m) {start, ?T} start ?T" using f(1-4) P(2) ne(3) by (auto simp: tiles_def)
    show "flist (inext_free ?m) (iprev_free ?m) ?H [start]" using f(5-8) ne(1) by (simp add: flist_def)
    show "marks (imagic ?m) (ipool ?m) i {start, ?T} {?T}" using f(9-12) ne(3) by (simp add: marks_def)
    show "P - 48 = fsz (inext ?m) ({start, ?T} - {?T})" using f(1) ne(3) P(2) by (simp add: fsz_def insert_Diff_if)
  qed (use f ne in auto)
  assume "\<not> in_pool ?m i a"
  then have "a \<noteq> ?H" "a \<noteq> start" "a \<noteq> ?T" using h t P(2) by (auto simp: in_pool_def)
  then show "items ?m a = items m a" by (simp add: defs ne ne [symmetric] items_other)
qed

section \<open>All heaps together\<close>

definition pools_ok :: "memheaps \<Rightarrow> bool" where
  "pools_ok m \<longleftrightarrow> distinct (heap_objects m) \<and> (\<forall>i \<in> set (heap_objects m). pool_ok m i)
     \<and> (\<forall>i \<in> set (heap_objects m). \<forall>j \<in> set (heap_objects m). i \<noteq> j \<longrightarrow> (\<forall>a. in_pool m i a \<longrightarrow> \<not> in_pool m j a))"

definition heaps_ok :: "memheaps \<Rightarrow> bool" where
  "heaps_ok m \<longleftrightarrow> pools_ok m \<and> system_heap m \<in> set (heap_objects m)"

definition in_uses :: "memheaps \<Rightarrow> (nat \<times> nat) set" where
  "in_uses m = (\<Union>i \<in> set (heap_objects m). in_use_of m i)"

lemma heaps_okD: "heaps_ok m \<Longrightarrow> i \<in> set (heap_objects m) \<Longrightarrow> \<exists>S U fs. pool_inv m i S U fs"
  by (simp add: heaps_ok_def pools_ok_def pool_ok_def)

text \<open>An operation on one heap leaves the others as they are.\<close>

lemma pool_agree:
  assumes I: "pool_inv m j S U fs" and h: "heaps m' j = heaps m j" and it: "\<And>a. in_pool m j a \<Longrightarrow> items m' a = items m a"
  shows "pool_inv m' j S U fs" "in_use_of m' j = in_use_of m j"
proof -
  note D = pool_invD [OF I]
  note R = tilesD [OF D(2)]
  have t: "ptail m' j = ptail m j" by (simp add: ptail_def h)
  have eq: "inext m' a = inext m a" "iprev m' a = iprev m a" "inext_free m' a = inext_free m a" "iprev_free m' a = iprev_free m a"
    "imagic m' a = imagic m a" "ipool m' a = ipool m a" if "a \<in> insert (free_header j) S" for a
  proof -
    have "items m' a = items m a" by (rule it) (use that R(5) [of a] in \<open>auto simp: in_pool_def\<close>)
    then show "inext m' a = inext m a" "iprev m' a = iprev m a" "inext_free m' a = inext_free m a" "iprev_free m' a = iprev_free m a"
      "imagic m' a = imagic m a" "ipool m' a = ipool m a" by (simp_all add: item_defs)
  qed
  have "tiles (inext m') (iprev m') S (start_addr (heaps m j)) (ptail m j)" by (rule tiles_cong [OF _ _ D(2)]) (use eq in auto)
  moreover have "flist (inext_free m') (iprev_free m') (free_header j) fs" by (rule flist_cong [OF _ _ D(3)]) (use eq D(7) in auto)
  moreover have "marks (imagic m') (ipool m') j S U" using D(4) eq by (simp add: marks_def)
  moreover have "fsz (inext m') (S - U) = fsz (inext m) (S - U)" unfolding fsz_def by (rule sum.cong) (use eq in auto)
  ultimately show I': "pool_inv m' j S U fs" unfolding pool_inv_def t h using D eq by auto
  show "in_use_of m' j = in_use_of m j"
    unfolding in_use_of_eq [OF I] in_use_of_eq [OF I'] t by (rule image_cong) (use D(5) eq in auto)
qed

lemma heaps_change:
  assumes M: "heaps_ok m" and i: "i \<in> set (heap_objects m)" and f: "pool_frame i m m'" "pool_ok m' i"
  shows "heaps_ok m'" "heap_objects m' = heap_objects m" "j \<in> set (heap_objects m) \<Longrightarrow> j \<noteq> i \<Longrightarrow> in_use_of m' j = in_use_of m j"
proof -
  show ob: "heap_objects m' = heap_objects m" using f(1) by (simp add: pool_frame_def)
  have ip: "in_pool m' j = in_pool m j" for j
    using f(1) by (cases "j = i") (auto simp: in_pool_def ptail_def pool_frame_def fun_eq_iff)
  have other: "pool_ok m' j \<and> in_use_of m' j = in_use_of m j" if "j \<in> set (heap_objects m)" "j \<noteq> i" for j
  proof -
    obtain S U fs where I: "pool_inv m j S U fs" using heaps_okD [OF M \<open>j \<in> set (heap_objects m)\<close>] by blast
    have it: "items m' a = items m a" if "in_pool m j a" for a
    proof -
      have "\<not> in_pool m i a" using M \<open>j \<in> set (heap_objects m)\<close> \<open>j \<noteq> i\<close> i that unfolding heaps_ok_def pools_ok_def by blast
      then show ?thesis using f(1) by (auto simp: in_pool_def pool_frame_def)
    qed
    have hj: "heaps m' j = heaps m j" using f(1) that(2) by (simp add: pool_frame_def)
    show ?thesis using pool_agree [OF I hj it] unfolding pool_ok_def by blast
  qed
  then show "j \<in> set (heap_objects m) \<Longrightarrow> j \<noteq> i \<Longrightarrow> in_use_of m' j = in_use_of m j" by blast
  have "\<forall>j \<in> set (heap_objects m). pool_ok m' j" using other f(2) by blast
  moreover have "system_heap m' = system_heap m" using f(1) by (simp add: pool_frame_def)
  ultimately show "heaps_ok m'" using M by (simp add: heaps_ok_def pools_ok_def ob ip)
qed

lemma in_uses_change:
  assumes M: "heaps_ok m" and i: "i \<in> set (heap_objects m)" and f: "pool_frame i m m'" "pool_ok m' i"
  shows "in_uses m' = in_use_of m' i \<union> (\<Union>j \<in> set (heap_objects m) - {i}. in_use_of m j)"
    "in_uses m = in_use_of m i \<union> (\<Union>j \<in> set (heap_objects m) - {i}. in_use_of m j)"
  using heaps_change(3) [OF assms] i by (auto simp: in_uses_def heaps_change(2) [OF assms])

text \<open>Ranges of different heaps are disjoint.\<close>

lemma heaps_apart:
  assumes M: "heaps_ok m" and p: "(p, e) \<in> in_use_of m i" "(q, f) \<in> in_use_of m j" and ij: "i \<in> set (heap_objects m)" "j \<in> set (heap_objects m)" "i \<noteq> j"
  shows "e \<le> q \<or> f \<le> p" "p \<noteq> q"
proof -
  obtain S U fs S' U' fs' where I: "pool_inv m i S U fs" "pool_inv m j S' U' fs'"
    using heaps_okD [OF M ij(1)] heaps_okD [OF M ij(2)] by blast
  obtain b c where b: "p = b + 24" "p < e" "start_addr (heaps m i) \<le> b" "e \<le> ptail m i"
    and c: "q = c + 24" "q < f" "start_addr (heaps m j) \<le> c" "f \<le> ptail m j"
    using in_use_block [OF I(1) p(1)] in_use_block [OF I(2) p(2)] by blast
  have no: "\<not> (in_pool m i a \<and> in_pool m j a)" for a using M ij unfolding heaps_ok_def pools_ok_def by blast
  have "\<not> (start_addr (heaps m i) \<le> a \<and> a \<le> ptail m i \<and> start_addr (heaps m j) \<le> a \<and> a \<le> ptail m j)" for a
    using no [of a] by (auto simp: in_pool_def)
  from this [of "max p q"] show "e \<le> q \<or> f \<le> p" "p \<noteq> q" using b c by (auto simp: max_def split: if_splits)
qed

text \<open>What a request that was answered by \<open>r\<close> has done.\<close>

definition given :: "nat \<Rightarrow> memheaps \<Rightarrow> nat option \<Rightarrow> memheaps \<Rightarrow> bool" where
  "given n m r m' \<longleftrightarrow> (case r of None \<Rightarrow> m' = m
     | Some p \<Rightarrow> \<exists>e. p + n \<le> e \<and> in_uses m' = insert (p, e) (in_uses m) \<and> (\<forall>z. (p, z) \<notin> in_uses m))"

lemma given_simps [simp]: "given n m None m' = (m' = m)"
  "given n m (Some p) m' = (\<exists>e. p + n \<le> e \<and> in_uses m' = insert (p, e) (in_uses m) \<and> (\<forall>z. (p, z) \<notin> in_uses m))"
  by (simp_all add: given_def)

lemma heaps_alloc:
  assumes M: "heaps_ok m" and i: "i \<in> set (heap_objects m)" and n: "n + 7 < 2 ^ 32"
  shows "\<exists>r m'. rt_memheap_alloc i n m = Some (r, m') \<and> heaps_ok m' \<and> heap_objects m' = heap_objects m \<and> system_heap m' = system_heap m
    \<and> given n m r m'"
proof -
  obtain S U fs where I: "pool_inv m i S U fs" using heaps_okD [OF M] i by blast
  from memheap_alloc_use [OF I n] obtain r m' where r: "rt_memheap_alloc i n m = Some (r, m')" "pool_frame i m m'" "pool_ok m' i"
    "case r of None \<Rightarrow> m' = m
       | Some p \<Rightarrow> \<exists>e. p + n \<le> e \<and> in_use_of m' i = insert (p, e) (in_use_of m i) \<and> (\<forall>z. (p, z) \<notin> in_use_of m i)" by blast
  note C = heaps_change [OF M i r(2,3)] and U = in_uses_change [OF M i r(2,3)]
  have sys: "system_heap m' = system_heap m" using r(2) by (simp add: pool_frame_def)
  show ?thesis
  proof (cases r)
    case None
    then show ?thesis using r(1,4) C(1,2) sys by simp
  next
    case (Some p)
    then obtain e where e: "p + n \<le> e" "in_use_of m' i = insert (p, e) (in_use_of m i)" "\<forall>z. (p, z) \<notin> in_use_of m i" using r(4) by auto
    have "(p, z) \<notin> in_use_of m j" if "j \<in> set (heap_objects m)" "j \<noteq> i" for j z
      using heaps_apart(2) [OF C(1), of p e i p z j] C(2,3) e(2) i that by auto
    then have "\<forall>z. (p, z) \<notin> in_uses m" using e(3) unfolding in_uses_def by fastforce
    moreover have "in_uses m' = insert (p, e) (in_uses m)" unfolding U e(2) by simp
    ultimately show ?thesis using Some r(1) C(1,2) sys e(1) by auto
  qed
qed

lemma heaps_free:
  assumes M: "heaps_ok m" and p: "(p, e) \<in> in_uses m"
  shows "\<exists>m'. rt_memheap_free (Some p) m = Some m' \<and> heaps_ok m' \<and> in_uses m' = in_uses m - {(p, e)}"
proof -
  obtain i where i: "i \<in> set (heap_objects m)" "(p, e) \<in> in_use_of m i" using p by (auto simp: in_uses_def)
  obtain S U fs where I: "pool_inv m i S U fs" using heaps_okD [OF M] i by blast
  from memheap_free_use [OF I i(2)] obtain m' where r: "rt_memheap_free (Some p) m = Some m'" "pool_frame i m m'" "pool_ok m' i"
    "in_use_of m' i = in_use_of m i - {(p, e)}" by blast
  note U = in_uses_change [OF M i(1) r(2,3)]
  have "(p, e) \<notin> in_use_of m j" if "j \<in> set (heap_objects m) - {i}" for j
    using heaps_apart(2) [OF M i(2), of p e j] i(1) that by auto
  then have "in_uses m' = in_uses m - {(p, e)}" unfolding U r(4) by auto
  then show ?thesis using r(1) heaps_change(1) [OF M i(1) r(2,3)] by blast
qed

text \<open>The heaps are tried one after the other.\<close>

lemma try_heaps_spec:
  assumes "n + 7 < 2 ^ 32" "heaps_ok m" "set hs \<subseteq> set (heap_objects m)"
  shows "\<exists>r m'. try_heaps n hs m = Some (r, m') \<and> heaps_ok m' \<and> given n m r m'
    \<and> (r = None \<longrightarrow> (\<forall>i \<in> set hs. i \<noteq> system_heap m \<longrightarrow> rt_memheap_alloc i n m = Some (None, m)))"
  using assms(3)
proof (induction hs)
  case Nil
  then show ?case using assms(2) by simp
next
  case (Cons i hs)
  obtain r m' where IH: "try_heaps n hs m = Some (r, m')" "heaps_ok m'" "given n m r m'"
    "r = None \<longrightarrow> (\<forall>i \<in> set hs. i \<noteq> system_heap m \<longrightarrow> rt_memheap_alloc i n m = Some (None, m))" using Cons by auto
  show ?case
  proof (cases "i = system_heap m")
    case True
    then show ?thesis using IH by simp
  next
    case False
    have "i \<in> set (heap_objects m)" using Cons.prems by simp
    from heaps_alloc [OF assms(2) this assms(1)] obtain q m1 where
      q: "rt_memheap_alloc i n m = Some (q, m1)" "heaps_ok m1" "given n m q m1" by blast
    show ?thesis
    proof (cases q)
      case None
      then show ?thesis using q IH False by simp
    next
      case (Some p)
      then show ?thesis using False q by simp
    qed
  qed
qed

lemma memheap_malloc_spec:
  assumes M: "heaps_ok m" and n: "n + 7 < 2 ^ 32"
  shows "\<exists>r m'. memheap_malloc n m = Some (r, m') \<and> heaps_ok m' \<and> given n m r m'
    \<and> (r = None \<longrightarrow> (\<forall>i \<in> set (heap_objects m). rt_memheap_alloc i n m = Some (None, m)))"
proof -
  have s: "system_heap m \<in> set (heap_objects m)" using M by (simp add: heaps_ok_def)
  from heaps_alloc [OF M this n] obtain q m1 where
    q: "rt_memheap_alloc (system_heap m) n m = Some (q, m1)" "heaps_ok m1" "given n m q m1" by blast
  show ?thesis
  proof (cases q)
    case None
    then have a: "rt_memheap_alloc (system_heap m) n m = Some (None, m)" using q by simp
    then have "memheap_malloc n m = try_heaps n (heap_objects m) m" by (simp add: memheap_malloc_def)
    then show ?thesis using try_heaps_spec [OF n M order_refl] a by metis
  next
    case (Some p)
    then show ?thesis using q by (simp add: memheap_malloc_def)
  qed
qed

interpretation memheaps: allocator heaps_ok in_uses memheap_malloc "\<lambda>p. memheap_free (Some p)"
proof (unfold_locales, goal_cases)
  case (1 s a z b y)
  then obtain i j where ij: "i \<in> set (heap_objects s)" "j \<in> set (heap_objects s)" "(a, z) \<in> in_use_of s i" "(b, y) \<in> in_use_of s j"
    by (auto simp: in_uses_def)
  show ?case
  proof (cases "i = j")
    case True
    then show ?thesis using in_use_apart ij(3,4) 1(4) heaps_okD [OF 1(1) ij(1)] by metis
  next
    case False
    then show ?thesis using heaps_apart(1) [OF 1(1) ij(3,4,1,2)] by blast
  qed
next
  case (2 s a z y)
  then obtain i j where ij: "i \<in> set (heap_objects s)" "j \<in> set (heap_objects s)" "(a, z) \<in> in_use_of s i" "(a, y) \<in> in_use_of s j"
    by (auto simp: in_uses_def)
  then have "i = j" using heaps_apart(2) [OF 2(1) ij(3,4,1,2)] by blast
  then show ?case using in_use_start ij(3,4) heaps_okD [OF 2(1) ij(1)] by metis
next
  case (3 s n)
  from memheap_malloc_spec [OF this] obtain r m' where r: "memheap_malloc n s = Some (r, m')" "heaps_ok m'" "given n s r m'" by blast
  then show ?case by (cases r) auto
next
  case (4 s p e)
  then show ?case using heaps_free by (simp add: memheap_free_def)
qed

section \<open>Reallocation\<close>

text \<open>A block that changes its length in place.\<close>

lemma resize_use:
  assumes I: "pool_inv m i S U fs" and I': "pool_inv m' i S' U fs'" and f: "pool_frame i m m'"
    and b: "b \<in> U" "b \<noteq> ptail m i" "\<forall>c \<in> U - {b}. inext m' c = inext m c"
  shows "in_use_of m' i = insert (b + 24, inext m' b) (in_use_of m i - {(b + 24, inext m b)})"
proof -
  have sub: "U - {b} \<subseteq> U" by auto
  note C = in_use_change [OF I I' f sub sub b(3)]
  have e: "U - (U - {b}) - {ptail m i} = {b}" using b by auto
  let ?A = "(\<lambda>b. (b + 24, inext m b)) ` (U - {b} - {ptail m i})"
  have "(b + 24, inext m b) \<notin> ?A" by auto
  moreover have "in_use_of m i = insert (b + 24, inext m b) ?A" "in_use_of m' i = insert (b + 24, inext m' b) ?A" unfolding C e by simp_all
  ultimately show ?thesis by simp
qed

text \<open>What a reallocation to \<open>n\<close> bytes that was answered by \<open>q\<close> has done to the bytes of the block from \<open>p\<close> to \<open>e0\<close>.\<close>

definition moved :: "nat \<Rightarrow> nat \<Rightarrow> nat \<Rightarrow> nat \<Rightarrow> nat \<Rightarrow> memory \<Rightarrow> memory \<Rightarrow> bool" where
  "moved n p e0 q e r r' \<longleftrightarrow> q + n \<le> e \<and> (\<forall>k < min n (e0 - p). r' (q + k) = r (p + k)) \<and> (\<forall>a. a < q \<or> e \<le> a \<longrightarrow> r' a = r a)"

lemma moved_self: "q + n \<le> e \<Longrightarrow> moved n q e0 q e r r"
  by (simp add: moved_def)

lemma moved_copy:
  assumes "e \<le> p \<or> e0 \<le> q" "p + k \<le> e0" "q + k \<le> e" "q + n \<le> e" "min n (e0 - p) \<le> k"
  shows "moved n p e0 q e r (rt_memcpy r q p k)"
proof -
  have "p + k \<le> q \<or> q \<le> p" using assms(1-3) by linarith
  then have "rt_memcpy r q p k = blit r q p k" by (rule rt_memcpy_blit)
  then show ?thesis using assms(3-5) by (auto simp: moved_def blit_def)
qed

lemma rt_memheap_realloc_spec:
  assumes I: "pool_inv m i S U fs" and p: "(p, e0) \<in> in_use_of m i" and n: "0 < n" "n + 19 < 2 ^ 32"
  shows "\<exists>q m' r'. rt_memheap_realloc i (Some p) n (m, r) = Some (q, m', r') \<and> pool_frame i m m' \<and> pool_ok m' i
    \<and> (case q of None \<Rightarrow> m' = m \<and> r' = r
       | Some q \<Rightarrow> \<exists>e. moved n p e0 q e r r' \<and> in_use_of m' i = insert (q, e) (in_use_of m i - {(p, e0)}))"
proof -
  note D = pool_invD [OF I]
  obtain b where b: "b \<in> U" "b \<noteq> ptail m i" "p = b + 24" "e0 = inext m b" using in_use_block [OF I p] by blast
  have bS: "b \<in> S" using b D(5) by auto
  note N = pool_block(9) [OF I bS b(2)] and P = pool_block [OF I bS]
  define n' where "n' = round_size n"
  have n7: "n + 7 < 2 ^ 32" using n by simp
  note Z = round_size_bounds [OF n7, folded n'_def]
  have n12: "n' + 12 < 2 ^ 32" using align32_small [OF n7] n(2) by (auto simp: n'_def round_size_def Let_def)
  let ?c = "inext m b"
  define old where "old = ?c - b - 24"
  have hp: "sub32 p 24 = b" "MEMITEM_SIZE m b = old" using P(5,6) P(8) [OF b(2)] b(3) by (simp_all add: sub32_small old_def)
  have us: "RT_MEMHEAP_IS_USED m ?c = (?c \<in> U)" using pool_block(1) [OF I] N by simp
  have cb: "b < ?c" using N by simp
  let ?grow = "?c \<notin> U \<and> add32 (MEMITEM_SIZE m ?c) old > add32 n' 12"
  have run: "rt_memheap_realloc i (Some p) n (m, r) =
    (if n' > old
     then if ?grow then Some (Some p, realloc_grow i p b old n' m, r)
          else do { (q, m') \<leftarrow> rt_memheap_alloc i n' m;
             case q of None \<Rightarrow> Some (None, m', r)
             | Some new_ptr \<Rightarrow> do { m'' \<leftarrow> rt_memheap_free (Some p) m'; Some (Some new_ptr, m'', rt_memcpy r new_ptr p (if old < n' then old else n')) } }
     else if add32 (add32 n' 24) 12 \<ge> old then Some (Some p, m, r) else Some (Some p, realloc_shrink i b n' m, r))"
    using n(1) hp us cb by (simp add: rt_memheap_realloc_def Let_def n'_def [symmetric] cong: option.case_cong)
  consider (grow) "n' > old" ?grow | (move) "n' > old" "\<not> ?grow" | (keep) "n' \<le> old" "add32 (add32 n' 24) 12 \<ge> old"
    | (shrink) "n' \<le> old" "\<not> add32 (add32 n' 24) 12 \<ge> old" by linarith
  then show ?thesis
  proof cases
    case grow
    then have c: "?c \<in> S" "?c \<noteq> ptail m i" "?c \<notin> U" using N D(6) by auto
    note NC = pool_block(9) [OF I c(1,2)]
    have "MEMITEM_SIZE m ?c = inext m ?c - ?c - 24" by (rule pool_block(8) [OF I c(1,2)])
    moreover have "add32 n' 12 = n' + 12" by (rule add32_small [OF n12])
    moreover have "add32 (inext m ?c - ?c - 24) old = (inext m ?c - ?c - 24) + old"
      by (rule add32_small) (use N NC P(6) in \<open>unfold old_def, linarith\<close>)
    ultimately have g: "n' + 12 < (inext m ?c - ?c - 24) + old" using grow by simp
    from realloc_grow_spec [OF I b(1,2) refl c(3) old_def grow(1) g] obtain S' fs' where
      s: "pool_inv (realloc_grow i p b old n' m) i S' U fs'" "inext (realloc_grow i p b old n' m) b = p + n'"
      "\<forall>d \<in> U - {b}. inext (realloc_grow i p b old n' m) d = inext m d" "pool_frame i m (realloc_grow i p b old n' m)"
      unfolding b(3) by blast
    have "in_use_of (realloc_grow i p b old n' m) i = insert (p, p + n') (in_use_of m i - {(p, e0)})"
      using resize_use [OF I s(1,4) b(1,2) s(3)] s(2) b(3,4) by simp
    moreover have "moved n p e0 p (p + n') r r" by (rule moved_self) (use Z(2) in simp)
    ultimately show ?thesis using run grow s(1,4) by (auto simp: pool_ok_def)
  next
    case move
    from memheap_alloc_use [OF I Z(3)] obtain q m1 where q: "rt_memheap_alloc i n' m = Some (q, m1)" "pool_frame i m m1" "pool_ok m1 i"
      "case q of None \<Rightarrow> m1 = m | Some p \<Rightarrow> \<exists>e. p + n' \<le> e \<and> in_use_of m1 i = insert (p, e) (in_use_of m i) \<and> (\<forall>z. (p, z) \<notin> in_use_of m i)" by blast
    show ?thesis
    proof (cases q)
      case None
      then show ?thesis using run move q by simp
    next
      case (Some x)
      then obtain e where e: "x + n' \<le> e" "in_use_of m1 i = insert (x, e) (in_use_of m i)" "\<forall>z. (x, z) \<notin> in_use_of m i" using q(4) by auto
      have xp: "x \<noteq> p" using e(3) p by auto
      obtain S1 U1 fs1 where I1: "pool_inv m1 i S1 U1 fs1" using q(3) by (auto simp: pool_ok_def)
      have p1: "(p, e0) \<in> in_use_of m1 i" "(x, e) \<in> in_use_of m1 i" using e(2) p by auto
      from memheap_free_use [OF I1 p1(1)] obtain m2 where m2: "rt_memheap_free (Some p) m1 = Some m2" "pool_frame i m1 m2" "pool_ok m2 i"
        "in_use_of m2 i = in_use_of m1 i - {(p, e0)}" by blast
      have "e \<le> p \<or> e0 \<le> x" using in_use_apart [OF I1 p1(2,1) xp] .
      moreover have "p + old \<le> e0" using N b(3,4) by (simp add: old_def)
      ultimately have "moved n p e0 x e r (rt_memcpy r x p old)"
        by (rule moved_copy) (use e(1) move(1) Z(2) b(3,4) in \<open>auto simp: old_def\<close>)
      moreover have "in_use_of m2 i = insert (x, e) (in_use_of m i - {(p, e0)})" unfolding m2(4) e(2) using xp by auto
      ultimately show ?thesis using run move q(1) Some m2(1,3) pool_frame_trans [OF q(2) m2(2)] by auto
    qed
  next
    case keep
    then have "p + n \<le> e0" using Z(2) N b(3,4) unfolding old_def by linarith
    then have "moved n p e0 p e0 r r" by (rule moved_self)
    moreover have "in_use_of m i = insert (p, e0) (in_use_of m i - {(p, e0)})" using p by auto
    ultimately show ?thesis using run keep I by (auto simp: pool_ok_def)
  next
    case shrink
    have "add32 (add32 n' 24) 12 = n' + 36" by (rule add32_36) (use shrink(1) N P(6) in \<open>unfold old_def, linarith\<close>)
    then have s': "n' + 60 < ?c - b" using shrink N unfolding old_def by linarith
    from realloc_shrink_spec [OF I b(1,2) Z(1) s'] obtain S' fs' where
      s: "pool_inv (realloc_shrink i b n' m) i S' U fs'" "inext (realloc_shrink i b n' m) b = p + n'"
      "\<forall>d \<in> U - {b}. inext (realloc_shrink i b n' m) d = inext m d" "pool_frame i m (realloc_shrink i b n' m)" unfolding b(3) by blast
    have "in_use_of (realloc_shrink i b n' m) i = insert (p, p + n') (in_use_of m i - {(p, e0)})"
      using resize_use [OF I s(1,4) b(1,2) s(3)] s(2) b(3,4) by simp
    moreover have "moved n p e0 p (p + n') r r" by (rule moved_self) (use Z(2) in simp)
    ultimately show ?thesis using run shrink s(1,4) by (auto simp: pool_ok_def)
  qed
qed

text \<open>The header of a range in use.\<close>

lemma in_uses_header:
  assumes M: "heaps_ok m" and p: "(p, e) \<in> in_uses m"
  shows "\<exists>i S U fs. i \<in> set (heap_objects m) \<and> pool_inv m i S U fs \<and> (p, e) \<in> in_use_of m i \<and> ipool m (sub32 p 24) = i
    \<and> MEMITEM_SIZE m (sub32 p 24) = e - p \<and> p < e"
proof -
  obtain i where i: "i \<in> set (heap_objects m)" "(p, e) \<in> in_use_of m i" using p by (auto simp: in_uses_def)
  obtain S U fs where I: "pool_inv m i S U fs" using heaps_okD [OF M i(1)] by blast
  obtain b where b: "b \<in> U" "b \<noteq> ptail m i" "p = b + 24" "e = inext m b" "p < e" using in_use_block [OF I i(2)] by blast
  have bS: "b \<in> S" using b pool_invD(5) [OF I] by auto
  note P = pool_block [OF I bS]
  have "sub32 p 24 = b" using P(5,6) b(3) by (simp add: sub32_small)
  then show ?thesis using i I P(3) P(8) [OF b(2)] b by auto
qed

text \<open>
  The reallocation of the system. When the heap of the block refuses and another one has room, the bytes are copied there, and the
  old block stays in use.
\<close>

lemma memheap_realloc_spec:
  assumes M: "heaps_ok m" and p: "(p, e0) \<in> in_uses m" and n: "0 < n" "n + 19 < 2 ^ 32"
  shows "\<exists>q m' r'. memheap_realloc (Some p) n (m, r) = Some (q, m', r') \<and> heaps_ok m'
    \<and> (case q of None \<Rightarrow> m' = m \<and> r' = r
       | Some q \<Rightarrow> \<exists>e. moved n p e0 q e r r' \<and> in_uses m' = insert (q, e)
           (if rt_memheap_realloc (ipool m (sub32 p 24)) (Some p) n (m, r) = Some (None, m, r) then in_uses m else in_uses m - {(p, e0)}))"
proof -
  obtain i S U fs where i: "i \<in> set (heap_objects m)" "pool_inv m i S U fs" "(p, e0) \<in> in_use_of m i" "ipool m (sub32 p 24) = i"
    using in_uses_header [OF M p] by blast
  from rt_memheap_realloc_spec [OF i(2,3) n, of r] obtain q m1 r1 where
    q: "rt_memheap_realloc i (Some p) n (m, r) = Some (q, m1, r1)" "pool_frame i m m1" "pool_ok m1 i"
    "case q of None \<Rightarrow> m1 = m \<and> r1 = r | Some q \<Rightarrow> \<exists>e. moved n p e0 q e r r1 \<and> in_use_of m1 i = insert (q, e) (in_use_of m i - {(p, e0)})" by blast
  show ?thesis
  proof (cases q)
    case (Some x)
    then obtain e where e: "moved n p e0 x e r r1" "in_use_of m1 i = insert (x, e) (in_use_of m i - {(p, e0)})" using q(4) by auto
    note C = in_uses_change [OF M i(1) q(2,3)]
    have "(p, e0) \<notin> in_use_of m j" if "j \<in> set (heap_objects m) - {i}" for j using heaps_apart(2) [OF M i(3), of p e0 j] i(1) that by auto
    then have "in_uses m1 = insert (x, e) (in_uses m - {(p, e0)})" unfolding C e(2) by auto
    moreover have "memheap_realloc (Some p) n (m, r) = Some (Some x, m1, r1)" using q(1) Some i(4) by (simp add: memheap_realloc_def Let_def)
    ultimately show ?thesis using heaps_change(1) [OF M i(1) q(2,3)] e(1) q(1) Some i(4) by auto
  next
    case None
    then have q': "rt_memheap_realloc i (Some p) n (m, r) = Some (None, m, r)" using q by simp
    have n7: "n + 7 < 2 ^ 32" using n(2) by simp
    from memheap_malloc_spec [OF M n7] obtain x m2 where x: "memheap_malloc n m = Some (x, m2)" "heaps_ok m2" "given n m x m2" by blast
    show ?thesis
    proof (cases x)
      case None
      then show ?thesis using q' x n(1) i(4) by (simp add: memheap_realloc_def Let_def)
    next
      case (Some y)
      then obtain e where e: "y + n \<le> e" "in_uses m2 = insert (y, e) (in_uses m)" "\<forall>z. (y, z) \<notin> in_uses m" using x(3) by auto
      have p2: "(p, e0) \<in> in_uses m2" "(y, e) \<in> in_uses m2" "y \<noteq> p" using e p by auto
      have sz: "MEMITEM_SIZE m2 (sub32 p 24) = e0 - p" "p < e0" using in_uses_header [OF x(2) p2(1)] by blast+
      let ?k = "if e0 - p < n then e0 - p else n"
      have run: "memheap_realloc (Some p) n (m, r) = Some (Some y, m2, rt_memcpy r y p ?k)"
        using q' x(1) Some n(1) i(4) sz(1) by (simp add: memheap_realloc_def Let_def)
      have "e \<le> p \<or> e0 \<le> y" using memheaps.live_apart [OF x(2) p2(2,1,3)] .
      then have "moved n p e0 y e r (rt_memcpy r y p ?k)" by (rule moved_copy) (use e(1) sz(2) in auto)
      then show ?thesis using run x(2) q' i(4) e(2) by auto
    qed
  qed
qed

text \<open>Making a new heap keeps the others.\<close>

lemma memheap_init_ok:
  assumes M: "pools_ok m" and i: "i \<notin> set (heap_objects m)"
    and P: "P = align_down32 sz" "60 \<le> P" "start + P < 2 ^ 32" "free_header i < start \<or> start + P \<le> free_header i"
    and apart: "\<forall>j \<in> set (heap_objects m). \<forall>a. in_pool m j a \<longrightarrow> a \<noteq> free_header i \<and> (a < start \<or> start + P - 24 < a)"
  shows "pools_ok (rt_memheap_init i start sz m)" "in_uses (rt_memheap_init i start sz m) = in_uses m"
proof -
  let ?m = "rt_memheap_init i start sz m"
  note N = memheap_init_spec [OF P]
  have ipi: "in_pool ?m i a = (a = free_header i \<or> (start \<le> a \<and> a \<le> start + P - 24))" for a unfolding in_pool_def N(6,7) ..
  have hj: "heaps ?m j = heaps m j" if "j \<in> set (heap_objects m)" for j by (rule N(4)) (use i that in auto)
  have ipj: "in_pool ?m j a = in_pool m j a" if "j \<in> set (heap_objects m)" for j a using hj [OF that] by (simp add: in_pool_def ptail_def)
  have others: "pool_ok ?m j \<and> in_use_of ?m j = in_use_of m j" if j: "j \<in> set (heap_objects m)" for j
  proof -
    obtain S U fs where I: "pool_inv m j S U fs" using M j unfolding pools_ok_def pool_ok_def by blast
    have it: "items ?m a = items m a" if "in_pool m j a" for a
      by (rule N(5)) (unfold ipi, use apart j that in fastforce)
    show ?thesis using pool_agree [OF I hj [OF j] it] unfolding pool_ok_def by blast
  qed
  have new: "pool_ok ?m i" using N(1) unfolding pool_ok_def by blast
  have noi: "in_use_of ?m i = {}" using in_use_of_eq [OF N(1)] N(7) by simp
  show "in_uses ?m = in_uses m" unfolding in_uses_def N(2) using others noi by simp
  show "pools_ok ?m" unfolding pools_ok_def N(2)
  proof (intro conjI ballI impI allI)
    show "distinct (i # heap_objects m)" using M i by (simp add: pools_ok_def)
    show "pool_ok ?m j" if "j \<in> set (i # heap_objects m)" for j using that new others by auto
    fix j k a assume jk: "j \<in> set (i # heap_objects m)" "k \<in> set (i # heap_objects m)" "j \<noteq> k" and a: "in_pool ?m j a"
    consider "j = i" "k \<in> set (heap_objects m)" | "k = i" "j \<in> set (heap_objects m)" | "j \<in> set (heap_objects m)" "k \<in> set (heap_objects m)"
      using jk by auto
    then show "\<not> in_pool ?m k a"
    proof cases
      case 1
      then show ?thesis using apart [rule_format, OF 1(2), of a] a ipj [OF 1(2)] by (auto simp: ipi)
    next
      case 2
      then show ?thesis using apart [rule_format, OF 2(2), of a] a ipj [OF 2(2)] by (auto simp: ipi)
    next
      case 3
      then show ?thesis using M a jk(3) ipj unfolding pools_ok_def by blast
    qed
  qed
qed

section \<open>Where the code departs from an ideal allocator\<close>

text \<open>The old block of a reallocation that ends in another heap is never given back.\<close>

lemma realloc_to_other_heap_leaks:
  assumes "heaps_ok m" "(p, e0) \<in> in_uses m" "0 < n" "n + 19 < 2 ^ 32"
    and "rt_memheap_realloc (ipool m (sub32 p 24)) (Some p) n (m, r) = Some (None, m, r)"
    and "memheap_realloc (Some p) n (m, r) = Some (Some q, m', r')"
  shows "(p, e0) \<in> in_uses m' \<and> (\<exists>e. (q, e) \<in> in_uses m')"
proof -
  have "\<exists>e. in_uses m' = insert (q, e) (in_uses m)"
    using memheap_realloc_spec [OF assms(1-4), of r] unfolding assms(5,6) by force
  then show ?thesis using assms(2) by blast
qed

text \<open>The last free block of a pool is refused to a request of exactly its size.\<close>

lemma exact_fit_refused:
  assumes "pool_inv m i S U [b]" "round_size n = inext m b - b - 24"
  shows "rt_memheap_alloc i n m = Some (None, m)"
proof -
  have "S - U = {b}" using pool_invD(7) [OF assms(1)] by simp
  then have "available_size (heaps m i) = round_size n" using pool_invD(9) [OF assms(1)] assms(2) by (simp add: fsz_def)
  then show ?thesis by (simp add: rt_memheap_alloc_def Let_def)
qed

text \<open>A small request is rounded to a size that is not a multiple of the alignment, so that the block behind it is not aligned.\<close>

lemma small_request_unaligned:
  assumes "n \<le> 8" "b mod 8 = 0"
  shows "(b + 24 + round_size n) mod 8 = 4"
proof -
  have "(n + 7) div 8 * 8 < 12" using assms(1) by presburger
  then have r: "round_size n = 12" using assms(1) by (simp add: round_size_def align32_small Let_def)
  obtain k where "b = 8 * k" using assms(2) by (metis mod_0_imp_dvd dvdE)
  then have "b + 24 + round_size n = 4 + 8 * (k + 4)" by (simp add: r)
  then show ?thesis by (metis mod_mult_self2 mod_less numeral_less_iff semiring_norm(76,78,81))
qed

end
