(* ===== verification/RT_MemHeapProps.thy ===== *)
theory RT_MemHeapProps
  imports RT_MemHeapClient
begin

text \<open>
  The properties of the memory heaps, and two heaps made by their initialisation to which the witnesses apply them.
\<close>

section \<open>Two heaps\<close>

definition no_heaps :: memheaps where
  "no_heaps = \<lparr>items = (\<lambda>_. \<lparr>mi_magic = 0, pool_ptr = 0, mi_next = 0, mi_prev = 0, mi_next_free = 0, mi_prev_free = 0\<rparr>),
     heaps = (\<lambda>_. \<lparr>start_addr = 0, pool_size = 0, available_size = 0, max_used_size = 0, mh_block_list = 0, mh_free_list = 0\<rparr>),
     heap_objects = [], system_heap = 0x20000100\<rparr>"

definition one_heap :: memheaps where
  "one_heap = memheap_system_init 0x20001000 0x20002000 no_heaps"

definition two_heaps :: memheaps where
  "two_heaps = rt_memheap_init 0x20000200 0x10000000 0x1000 one_heap"

lemma one_heap_eq: "one_heap = rt_memheap_init 0x20000100 0x20001000 0x1000 no_heaps"
  by (simp add: one_heap_def memheap_system_init_def no_heaps_def sub32_small)

lemma page: "align_down32 0x1000 = 0x1000"
  by (simp add: align_down32_small)

lemma one_heap_inv:
  "pool_inv one_heap 0x20000100 {0x20001000, 0x20001fe8} {0x20001fe8} [0x20001000]" "heap_objects one_heap = [0x20000100]"
  "system_heap one_heap = 0x20000100" "start_addr (heaps one_heap 0x20000100) = 0x20001000" "ptail one_heap 0x20000100 = 0x20001fe8"
  using memheap_init_spec [where P = "0x1000" and sz = "0x1000" and start = "0x20001000" and i = "0x20000100" and m = no_heaps, folded one_heap_eq]
  by (simp_all add: page free_header_def) (simp_all add: no_heaps_def)

lemma one_heap_ok: "heaps_ok one_heap" "in_uses one_heap = {}"
proof -
  have "pools_ok no_heaps" "in_uses no_heaps = {}" by (simp_all add: pools_ok_def no_heaps_def in_uses_def)
  then have "pools_ok one_heap" "in_uses one_heap = {}"
    using memheap_init_ok [where P = "0x1000" and sz = "0x1000" and start = "0x20001000" and i = "0x20000100" and m = no_heaps, folded one_heap_eq]
    by (simp_all add: page free_header_def) (simp_all add: no_heaps_def)
  then show "heaps_ok one_heap" "in_uses one_heap = {}" using one_heap_inv(2,3) by (simp_all add: heaps_ok_def)
qed

lemma two_heaps_ok: "heaps_ok two_heaps"
proof -
  have "pools_ok two_heaps" unfolding two_heaps_def
    by (rule memheap_init_ok) (use one_heap_ok(1) one_heap_inv in \<open>auto simp: page free_header_def heaps_ok_def in_pool_def\<close>)
  moreover have "heap_objects two_heaps = [0x20000200, 0x20000100]" "system_heap two_heaps = 0x20000100"
    using memheap_init_spec(2,3) [where P = "0x1000" and sz = "0x1000" and start = "0x10000000" and i = "0x20000200" and m = one_heap] one_heap_inv(2,3)
    by (simp_all add: two_heaps_def page free_header_def)
  ultimately show ?thesis by (simp add: heaps_ok_def)
qed

lemma one_heap_gives: "\<exists>p e m1. memheap_malloc 100 one_heap = Some (Some p, m1) \<and> heaps_ok m1 \<and> (p, e) \<in> in_uses m1"
proof -
  from memheap_malloc_spec [OF one_heap_ok(1), of 100] obtain r m1 where
    r: "memheap_malloc 100 one_heap = Some (r, m1)" "heaps_ok m1" "given 100 one_heap r m1"
    "r = None \<longrightarrow> (\<forall>i \<in> set (heap_objects one_heap). rt_memheap_alloc i 100 one_heap = Some (None, one_heap))" by auto
  have rs: "round_size 100 = 104" by (simp add: round_size_def align32_small Let_def)
  have nx: "inext one_heap 0x20001000 = 0x20001fe8"
    using tilesD(8) [OF pool_invD(2) [OF one_heap_inv(1)], of "0x20001000"] tilesD(9) [OF pool_invD(2) [OF one_heap_inv(1)], of "0x20001000"]
    by (simp add: one_heap_inv)
  have "rt_memheap_alloc 0x20000100 100 one_heap \<noteq> Some (None, one_heap)"
  proof
    assume a: "rt_memheap_alloc 0x20000100 100 one_heap = Some (None, one_heap)"
    show False using rt_memheap_alloc_spec [OF one_heap_inv(1), of 100] a by (simp add: rs nx fsz_def insert_Diff_if)
  qed
  then obtain p where "r = Some p" using r(4) one_heap_inv(2) by (cases r) auto
  then show ?thesis using r(1-3) by auto
qed

section \<open>Properties\<close>

text \<open>C16 Safety of the memory heaps. Whatever sequence of requests and releases a client makes of the heaps together, as long as it
  releases only what it holds, no call stops at an assertion or runs forever, every pool keeps its invariant (the blocks tile
  it, no two neighbours are free, the free list holds exactly the free blocks and the counter of available bytes is their
  sum), every range the client holds is at least as long as it asked for, and no two of them overlap.\<close>

theorem memheap_clients_are_safe:
  assumes "heaps_ok m" "sizes_ok ops"
  shows "\<exists>held m'. alloc_run memheap_malloc (\<lambda>p. memheap_free (Some p)) ops [] m = Some (held, m')
     \<and> (\<forall>i \<in> set (heap_objects m'). \<exists>S U fs. pool_inv m' i S U fs)
     \<and> sorted_wrt separate held \<and> (\<forall>x \<in> set held. \<exists>e. (fst x, e) \<in> in_uses m' \<and> fst x + snd x \<le> e)"
proof -
  have "holds (in_uses m) []" by (simp add: holds_def)
  from memheaps.run_total [OF assms(1) this assms(2)] obtain held m' where
    r: "alloc_run memheap_malloc (\<lambda>p. memheap_free (Some p)) ops [] m = Some (held, m')" "heaps_ok m'" "holds (in_uses m') held" by blast
  have "\<forall>i \<in> set (heap_objects m'). \<exists>S U fs. pool_inv m' i S U fs" using heaps_okD [OF r(2)] by blast
  then show ?thesis using r memheaps.held_separate [OF r(2,3)] by (auto simp: holds_def)
qed

theorem memheap_clients_are_safe_witness:
  "\<exists>held m'. alloc_run memheap_malloc (\<lambda>p. memheap_free (Some p)) [Request 100, Request 5000, Request 3, Release 0, Request 20] [] two_heaps = Some (held, m')
     \<and> (\<forall>i \<in> set (heap_objects m'). \<exists>S U fs. pool_inv m' i S U fs)
     \<and> sorted_wrt separate held \<and> (\<forall>x \<in> set held. \<exists>e. (fst x, e) \<in> in_uses m' \<and> fst x + snd x \<le> e)"
  by (rule memheap_clients_are_safe [OF two_heaps_ok]) simp

text \<open>C23 Reallocation of a block of the memory heaps: it returns and keeps every pool sound; a refused request changes nothing;
  otherwise the new range is long enough, holds the old content up to the smaller of both sizes, no byte outside of it is
  written and every other range stays in use as it was. The old range is no longer in use, with one exception that the code has: when the
  heap of the block has no room and the new one comes from another heap, the old range stays in use.\<close>

theorem memheap_realloc_keeps_content:
  assumes "heaps_ok m" "(p, e0) \<in> in_uses m" "0 < n" "n + 19 < 2 ^ 32"
  shows "\<exists>q m' r'. memheap_realloc (Some p) n (m, r) = Some (q, m', r') \<and> heaps_ok m'
    \<and> (case q of None \<Rightarrow> m' = m \<and> r' = r
       | Some q \<Rightarrow> \<exists>e. q + n \<le> e \<and> (\<forall>k < min n (e0 - p). r' (q + k) = r (p + k)) \<and> (\<forall>a. a < q \<or> e \<le> a \<longrightarrow> r' a = r a)
           \<and> in_uses m' = insert (q, e)
              (if rt_memheap_realloc (ipool m (sub32 p 24)) (Some p) n (m, r) = Some (None, m, r) then in_uses m else in_uses m - {(p, e0)}))"
  using memheap_realloc_spec [OF assms] unfolding moved_def conj_assoc by blast

theorem memheap_realloc_keeps_content_witness:
  "\<exists>p e0 m1. memheap_malloc 100 one_heap = Some (Some p, m1) \<and> (p, e0) \<in> in_uses m1
    \<and> (\<exists>q m' r'. memheap_realloc (Some p) 200 (m1, \<lambda>_. 7) = Some (q, m', r') \<and> heaps_ok m'
      \<and> (case q of None \<Rightarrow> m' = m1 \<and> r' = (\<lambda>_. 7)
         | Some q \<Rightarrow> \<exists>e. q + 200 \<le> e \<and> (\<forall>k < min 200 (e0 - p). r' (q + k) = 7) \<and> (\<forall>a. a < q \<or> e \<le> a \<longrightarrow> r' a = 7)
             \<and> in_uses m' = insert (q, e)
                (if rt_memheap_realloc (ipool m1 (sub32 p 24)) (Some p) 200 (m1, \<lambda>_. 7) = Some (None, m1, \<lambda>_. 7) then in_uses m1 else in_uses m1 - {(p, e0)})))"
proof -
  obtain p e0 m1 where p: "memheap_malloc 100 one_heap = Some (Some p, m1)" "heaps_ok m1" "(p, e0) \<in> in_uses m1" using one_heap_gives by blast
  have n: "0 < (200 :: nat)" "(200 :: nat) + 19 < 2 ^ 32" by simp_all
  show ?thesis using p(1,3) memheap_realloc_keeps_content [OF p(2,3) n, of "\<lambda>_. 7"] by blast
qed

end
