(* ===== verification/RT_IpcProps.thy ===== *)
theory RT_IpcProps
  imports RT_Demo
begin

text \<open>
  The properties of the objects threads synchronise and communicate with. Each property with a
  hypothesis is followed by a witness on the example system.
\<close>

section \<open>Semaphores\<close>

lemma demo_sem: "sem_inv demo demoL i"
  by (simp add: sem_inv_def demo_fields demoL_def RT_IPC_FLAG_FIFO_def)

text \<open>C13 A thread that takes a semaphore without units waits: the call suspends it on the semaphore's list, in
  the place its flag demands, with a timer exactly when it gave a time, and a different thread
  runs. Another thread's release wakes the first thread of the list and gives it the unit, so that
  the value stays zero and the rest of the waiting call reports success.\<close>

theorem semaphore_handover:
  assumes "ipc_inv s L T" "sem_inv s L i" "sem_value (sems s i) = 0" "L (HSem i) = []"
    and "time \<noteq> 0" "time < 0x7fffffff" "rt_interrupt_nest s = 0" "rt_scheduler_lock_nest s = 0"
    and "rt_current_thread s = Some t" "stat (threads s t) = RT_THREAD_READY" "unlink t L (HPrio q) \<noteq> []"
  shows "\<exists>s1 s2 L1 T1 L2 T2. rt_sem_take i time s = Some (Block t, s1) \<and> ipc_inv s1 L1 T1 \<and> L1 (HSem i) = [t]
     \<and> stat (threads s1 t) = RT_THREAD_SUSPEND \<and> rt_current_thread s1 \<noteq> Some t
     \<and> (time > 0 \<longrightarrow> Thread_timer t \<in> set T1 \<and> tdist s1 (Thread_timer t) = nat time)
     \<and> rt_sem_release i s1 = Some (RT_EOK, s2) \<and> ipc_inv s2 L2 T2 \<and> sem_inv s2 L2 i \<and> L2 (HSem i) = []
     \<and> sem_value (sems s2 i) = 0 \<and> stat (threads s2 t) = RT_THREAD_READY \<and> Thread_timer t \<notin> set T2
     \<and> rt_sem_take_resumed t s2 = RT_EOK"
proof -
  let ?L1 = "parked (HSem i) (oflag (objs s (OSem i))) (threads s) t L"
  from rt_sem_take_waits [OF assms(1-3,5-7,9-11)] assms(8) obtain s1 T1 where
    s1: "rt_sem_take i time s = Some (Block t, s1)" "ipc_inv s1 ?L1 T1" "sem_inv s1 ?L1 i" "sems s1 = sems s"
    "stat (threads s1 t) = RT_THREAD_SUSPEND" "error (threads s1 t) = RT_EOK"
    "time > 0 \<longrightarrow> Thread_timer t \<in> set T1 \<and> tdist s1 (Thread_timer t) = nat time"
    "chosen ?L1 s1" "rt_current_thread s1 \<noteq> Some t" by blast
  have L1: "?L1 (HSem i) = [t]" using assms(4) by (simp add: parked_def enqueue_def)
  have "rt_current_thread s1 \<noteq> None" using s1(8) by (auto simp: chosen_def)
  from rt_sem_release_wakes [OF s1(2,3) L1 this] obtain s2 L2 where
    s2: "rt_sem_release i s1 = Some (RT_EOK, s2)" "ipc_inv s2 L2 (remove1 (Thread_timer t) T1)" "sem_inv s2 L2 i"
    "L2 (HSem i) = []" "sems s2 = sems s1" "threads s2 = (threads s1)(t := (threads s1 t)\<lparr>stat := RT_THREAD_READY\<rparr>)" by blast
  have "Thread_timer t \<notin> set (remove1 (Thread_timer t) T1)"
    using tmr_invD(5) [OF kernel_invD(2) [OF ipc_invD(1) [OF s1(2)]]] by simp
  moreover have "rt_sem_take_resumed t s2 = RT_EOK" by (rule rt_sem_take_resumed_cases) (simp add: s2(6) s1(6))
  ultimately show ?thesis
    using s1 s2 L1 assms(3)
    by (intro exI [of _ s1] exI [of _ s2] exI [of _ ?L1] exI [of _ T1] exI [of _ L2] exI [of _ "remove1 (Thread_timer t) T1"]) simp
qed

theorem semaphore_handover_witness:
  "\<exists>s1 s2. rt_sem_take 0 10 demo = Some (Block 1, s1) \<and> rt_sem_release 0 s1 = Some (RT_EOK, s2)
     \<and> stat (threads s2 1) = RT_THREAD_READY \<and> rt_sem_take_resumed 1 s2 = RT_EOK"
proof -
  have u: "unlink 1 demoL (HPrio 31) \<noteq> []" by (simp add: unlink_def demoL_def)
  have l: "demoL (HSem 0) = []" by (simp add: demoL_def)
  show ?thesis
    using semaphore_handover [OF demo_ipc demo_sem _ l _ _ _ _ demo_state(2) demo_ready(2) u, of 10] by (auto simp: demo_fields)
qed

text \<open>C32 Resetting a semaphore wakes every waiting thread with the error code, empties the list and sets the
  new value.\<close>

theorem semaphore_reset_wakes_all:
  assumes "ipc_inv s L T" "sem_inv s L i" "rt_current_thread s \<noteq> None" "L (HPrio q) \<noteq> []"
  shows "\<exists>s' L' T'. rt_sem_control i RT_IPC_CMD_RESET v s = Some (RT_EOK, s') \<and> ipc_inv s' L' T' \<and> sem_inv s' L' i
     \<and> L' (HSem i) = [] \<and> sem_value (sems s' i) = ucast v
     \<and> (\<forall>u \<in> set (L (HSem i)). stat (threads s' u) = RT_THREAD_READY \<and> rt_sem_take_resumed u s' = - RT_ERROR)
     \<and> (\<forall>u. u \<notin> set (L (HSem i)) \<longrightarrow> threads s' u = threads s u)"
proof -
  from rt_sem_control_reset [OF assms, of v] obtain s' L' T' where
    s': "rt_sem_control i RT_IPC_CMD_RESET v s = Some (RT_EOK, s')" "ipc_inv s' L' T'" "sem_inv s' L' i"
    "L' (HSem i) = []" "sem_value (sems s' i) = ucast v" "threads s' = failed (set (L (HSem i))) (threads s)" by blast
  then show ?thesis
    using rt_sem_take_resumed_cases(3) [of s'] by (intro exI [of _ s'] exI [of _ L'] exI [of _ T']) (simp add: failed_def)
qed

theorem semaphore_reset_wakes_all_witness:
  "\<exists>s1 s2. rt_sem_take 0 (- 1) demo = Some (Block 1, s1) \<and> rt_sem_control 0 RT_IPC_CMD_RESET 5 s1 = Some (RT_EOK, s2)
     \<and> sem_value (sems s2 0) = 5 \<and> rt_sem_take_resumed 1 s2 = - RT_ERROR"
proof -
  let ?L = "parked (HSem 0) (oflag (objs demo (OSem 0))) (threads demo) 1 demoL"
  have wh: "wait_head (HSem 0)" by simp
  note p = demo_parked [OF wh]
  from rt_sem_take_waits [OF demo_ipc demo_sem _ _ _ _ demo_state(2) demo_ready(2) p(4), of 0 "- 1"] obtain s1 T1 where
    s1: "rt_sem_take 0 (- 1) demo = Some (Block 1, s1)" "ipc_inv s1 ?L T1" "sem_inv s1 ?L 0" "chosen ?L s1"
    by (auto simp: demo_fields)
  have ne: "rt_current_thread s1 \<noteq> None" "?L (HPrio 31) \<noteq> []" using s1(4) p(5) by (auto simp: chosen_def)
  show ?thesis
    using semaphore_reset_wakes_all [OF s1(2,3) ne, of 5] s1(1) p(1) [of "oflag (objs demo (OSem 0))" "threads demo"] by auto
qed

section \<open>Mutexes\<close>

text \<open>Thread 1 of priority 10 runs; mutex 0 is held by thread 3 of priority 20, mutex 1 by thread 2 of priority 10.\<close>

definition held_by :: "nat \<Rightarrow> u8 \<Rightarrow> rt_mutex \<Rightarrow> rt_mutex" where
  "held_by t p m = m\<lparr>mutex_value := 0, owner := Some t, hold := 1, original_priority := p\<rparr>"

definition demo_mutex :: kernel where
  "demo_mutex = upd_mutex 1 (held_by 2 10) (upd_mutex 0 (held_by 3 20) demo)"

lemma demo_mutex_state:
  "ipc_inv demo_mutex demoL []" "mutex_inv demo_mutex demoL 0" "mutex_inv demo_mutex demoL 1"
  "owner (mutexes demo_mutex 0) = Some 3" "owner (mutexes demo_mutex 1) = Some 2" "hold (mutexes demo_mutex 1) = 1"
  "original_priority (mutexes demo_mutex 1) = 10"
  "rt_current_thread demo_mutex = Some 1" "rt_interrupt_nest demo_mutex = 0" "rt_scheduler_lock_nest demo_mutex = 0"
  "threads demo_mutex = threads demo" "objs demo_mutex = objs demo"
  by (simp_all add: demo_mutex_def demo_ipc)
    (simp_all add: upd_mutex_def held_by_def mutex_inv_def demo_fields demoL_def demo_state RT_IPC_FLAG_FIFO_def RT_THREAD_PRIORITY_MAX_def)

text \<open>C11 A thread that takes a mutex another thread holds waits on the mutex's list, and if it is more urgent
  than the owner, the owner runs with the waiting thread's priority from then on; the owner keeps
  the mutex, and the most urgent ready thread runs.\<close>

theorem mutex_wait_inherits_priority:
  assumes "ipc_inv s L T" "mutex_inv s L i" "rt_current_thread s = Some t" "rt_interrupt_nest s = 0"
    and "stat (threads s t) = RT_THREAD_READY" "owner (mutexes s i) = Some ow" "ow \<noteq> t"
    and "time \<noteq> 0" "time < 0x7fffffff" "rt_scheduler_lock_nest s = 0"
    and "unlink t (inherit t ow s L) (HPrio q) \<noteq> []"
  defines "L' \<equiv> parked (HMutex i) (oflag (objs s (OMutex i))) (threads s) t (inherit t ow s L)"
  shows "\<exists>s' T'. rt_mutex_take i time s = Some (Block t, s') \<and> ipc_inv s' L' T' \<and> mutex_inv s' L' i
     \<and> owner (mutexes s' i) = Some ow \<and> stat (threads s' t) = RT_THREAD_SUSPEND
     \<and> current_priority (threads s' ow) = min (current_priority (threads s ow)) (current_priority (threads s t))
     \<and> (time > 0 \<longrightarrow> tdist s' (Thread_timer t) = nat time) \<and> chosen L' s'"
  using rt_mutex_take_waits [OF assms(1-9,11)] assms(6,10) unfolding L'_def by auto

theorem mutex_wait_inherits_priority_witness:
  "\<exists>s'. rt_mutex_take 0 50 demo_mutex = Some (Block 1, s') \<and> owner (mutexes s' 0) = Some 3
     \<and> unat (current_priority (threads s' 3)) = 10"
proof -
  note M = demo_mutex_state
  have st: "stat (threads demo_mutex 1) = RT_THREAD_READY" using demo_ready(2) by (simp add: M)
  have p: "current_priority (threads demo_mutex 1) = 10" "current_priority (threads demo_mutex 3) = 20"
    using demo_ready(5,7) by (simp_all add: M word_unat_eq_iff)
  have u: "unlink 1 (inherit 1 3 demo_mutex demoL) (HPrio 31) \<noteq> []"
    by (simp add: inherit_def make_ready_def unlink_def demoL_def p)
  show ?thesis using mutex_wait_inherits_priority [OF M(1,2,8,9) st M(4) _ _ _ M(10) u, of 50] by (auto simp: p simp del: One_nat_def)
qed

text \<open>C12 When the owner releases a mutex it took once, it gets its own priority back, and the first waiting
  thread becomes the owner and ready, with its own priority noted as the one to restore; the most
  urgent ready thread runs.\<close>

theorem mutex_release_hands_over:
  assumes "ipc_inv s L T" "mutex_inv s L i" "rt_current_thread s = Some t" "rt_interrupt_nest s = 0"
    and "stat (threads s t) = RT_THREAD_READY" "owner (mutexes s i) = Some t" "hold (mutexes s i) = 1" "L (HMutex i) = u # us"
    and "rt_scheduler_lock_nest s = 0"
  shows "\<exists>s' L' T'. rt_mutex_release i s = Some (RT_EOK, s') \<and> ipc_inv s' L' T' \<and> mutex_inv s' L' i
     \<and> owner (mutexes s' i) = Some u \<and> hold (mutexes s' i) = 1 \<and> L' (HMutex i) = us
     \<and> original_priority (mutexes s' i) = current_priority (threads s u)
     \<and> stat (threads s' u) = RT_THREAD_READY \<and> current_priority (threads s' t) = original_priority (mutexes s i)
     \<and> chosen L' s'"
  using rt_mutex_release_hands_over [OF assms(1-8)] assms(9) by blast

theorem mutex_release_hands_over_witness:
  "\<exists>s1 s2. rt_mutex_take 1 (- 1) demo_mutex = Some (Block 1, s1) \<and> rt_mutex_release 1 s1 = Some (RT_EOK, s2)
     \<and> owner (mutexes s2 1) = Some 1 \<and> stat (threads s2 1) = RT_THREAD_READY"
proof -
  note M = demo_mutex_state
  let ?L = "parked (HMutex 1) (oflag (objs demo_mutex (OMutex 1))) (threads demo_mutex) 1 demoL"
  have wh: "wait_head (HMutex 1)" by simp
  note p = demo_parked [OF wh]
  have st: "stat (threads demo_mutex 1) = RT_THREAD_READY" using demo_ready(2) by (simp add: M)
  have i: "inherit 1 2 demo_mutex demoL = demoL"
    using demo_ready(5,6) by (simp add: inherit_def M word_less_nat_alt)
  have "unlink 1 (inherit 1 2 demo_mutex demoL) (HPrio 31) \<noteq> []" unfolding i by (rule p(4))
  from rt_mutex_take_waits [OF M(1,3,8,9) st M(5) _ _ _ this, of "- 1"] obtain s1 T1 where
    s1: "rt_mutex_take 1 (- 1) demo_mutex = Some (Block 1, s1)" "ipc_inv s1 ?L T1" "mutex_inv s1 ?L 1"
    "mutexes s1 = mutexes demo_mutex" "thread_frame demo_mutex s1" "chosen ?L s1" unfolding i using M(10) by auto
  have c: "rt_current_thread s1 = Some 2" by (rule p(3) [OF s1(6)])
  have "2 \<in> set (?L (HPrio 10))" using p(2) by simp
  then have st: "stat (threads s1 2) = RT_THREAD_READY" using sched_invD(3) [OF kernel_invD(1) [OF ipc_invD(1) [OF s1(2)]]] by blast
  have F: "owner (mutexes s1 1) = Some 2" "hold (mutexes s1 1) = 1" "rt_interrupt_nest s1 = 0" "rt_scheduler_lock_nest s1 = 0"
    using thread_frameD(7,8) [OF s1(5)] by (simp_all add: s1(4) M del: One_nat_def)
  show ?thesis using mutex_release_hands_over [OF s1(2,3) c F(3) st F(1,2) p(1) F(4)] s1(1) by auto
qed

text \<open>Releasing a mutex the thread does not own is refused with an error and changes neither the mutex nor
  any list.\<close>

theorem mutex_foreign_release_refused:
  assumes "ipc_inv s L T" "mutex_inv s L i" "rt_current_thread s = Some t" "rt_interrupt_nest s = 0"
    and "owner (mutexes s i) \<noteq> Some t"
  shows "\<exists>s'. rt_mutex_release i s = Some (- RT_ERROR, s') \<and> ipc_inv s' L T \<and> mutex_inv s' L i
     \<and> mutexes s' = mutexes s \<and> error (threads s' t) = - RT_ERROR"
  by (rule rt_mutex_release_foreign [OF assms])

theorem mutex_foreign_release_refused_witness:
  "\<exists>s'. rt_mutex_release 0 demo_mutex = Some (- RT_ERROR, s') \<and> mutexes s' = mutexes demo_mutex"
  using mutex_foreign_release_refused [OF demo_mutex_state(1,2,8,9)] demo_mutex_state(4) by auto

section \<open>Events\<close>

lemma demo_event: "event_inv demo demoL i"
  by (simp add: event_inv_def demo_fields demoL_def RT_IPC_FLAG_FIFO_def)

text \<open>C10 No lost wake-up and no lost flag. Sending flags goes along the waiting list as \<open>deliver\<close> says and keeps
  the invariant that no waiting thread is satisfied by the flags that are set. A flag that was set or
  is sent is set afterwards, unless a woken thread received it and asked for it to be cleared. Every
  thread that waited either still waits, unchanged and in its old order, or is ready and received the
  wanted flags of a set that satisfied it; threads that did not wait are not touched. When a thread was
  woken, the most urgent ready thread runs.\<close>

theorem event_send_wakes_the_satisfied:
  assumes "ipc_inv s L T" "event_inv s L i" "rt_current_thread s \<noteq> None" "want \<noteq> 0"
  shows "\<exists>s' L' T' w. rt_event_send i want s = Some (RT_EOK, s') \<and> ipc_inv s' L' T' \<and> event_inv s' L' i
     \<and> deliver (threads s) (event_bits (events s i) OR want) (L (HEvent i)) = (w, L' (HEvent i), event_bits (events s' i))
     \<and> threads s' = notified w (threads s)
     \<and> (\<forall>n. bit (event_bits (events s' i)) n \<longleftrightarrow> bit (event_bits (events s i) OR want) n
          \<and> \<not> (\<exists>u \<in> set (L (HEvent i)) - set (L' (HEvent i)).
                event_info (threads s u) AND RT_EVENT_FLAG_CLEAR \<noteq> 0 \<and> bit (event_set (threads s' u)) n))
     \<and> (\<forall>u. u \<notin> set (L (HEvent i)) \<or> u \<in> set (L' (HEvent i)) \<longrightarrow> threads s' u = threads s u)
     \<and> (\<forall>u \<in> set (L (HEvent i)) - set (L' (HEvent i)). stat (threads s' u) = RT_THREAD_READY
          \<and> (\<exists>x. within x (event_bits (events s i) OR want) \<and> satisfied (event_info (threads s u)) (event_set (threads s u)) x
              \<and> event_set (threads s' u) = received (event_set (threads s u)) x))
     \<and> (L' (HEvent i) \<noteq> L (HEvent i) \<and> rt_scheduler_lock_nest s = 0 \<longrightarrow> chosen L' s')"
proof -
  let ?b = "event_bits (events s i) OR want"
  obtain w k b where d: "deliver (threads s) ?b (L (HEvent i)) = (w, k, b)" by (cases "deliver (threads s) ?b (L (HEvent i))")
  from rt_event_send_spec [OF assms d] obtain s' T' where
    s': "rt_event_send i want s = Some (RT_EOK, s')" "ipc_inv s' (fold (wake s) (map fst w) L) T'"
    "event_inv s' (fold (wake s) (map fst w) L) i" "fold (wake s) (map fst w) L (HEvent i) = k"
    "event_bits (events s' i) = b" "threads s' = notified w (threads s)"
    "w \<noteq> [] \<and> rt_scheduler_lock_nest s = 0 \<longrightarrow> chosen (fold (wake s) (map fst w) L) s'" by blast
  have P: "set (map fst w) \<union> set k = set (L (HEvent i))" "distinct (map fst w)" "set (map fst w) \<inter> set k = {}"
    using deliver_parts [OF d] kernel_invD(8) [OF ipc_invD(1) [OF assms(1)], of "HEvent i"] by auto
  have W: "(u, got) \<in> set w \<longleftrightarrow> u \<in> set (L (HEvent i)) - set k \<and> event_set (threads s' u) = got" for u got
  proof
    assume u: "(u, got) \<in> set w"
    then have "map_of w u = Some got" using P(2) by (rule map_of_is_SomeI [rotated])
    then show "u \<in> set (L (HEvent i)) - set k \<and> event_set (threads s' u) = got"
      using u P(1,3) by (force simp: s'(6) notified_def)
  next
    assume u: "u \<in> set (L (HEvent i)) - set k \<and> event_set (threads s' u) = got"
    then have "u \<in> fst ` set w" using P(1) by auto
    then obtain g where g: "map_of w u = Some g" by (metis domD dom_map_of_conv_image_fst)
    then show "(u, got) \<in> set w" using u map_of_SomeD [OF g] by (simp add: s'(6) notified_def)
  qed
  have flags: "bit b n \<longleftrightarrow> bit ?b n \<and> \<not> (\<exists>u \<in> set (L (HEvent i)) - set k.
      event_info (threads s u) AND RT_EVENT_FLAG_CLEAR \<noteq> 0 \<and> bit (event_set (threads s' u)) n)" for n
  proof -
    have "set w = (\<lambda>u. (u, event_set (threads s' u))) ` (set (L (HEvent i)) - set k)" using W by auto
    then show ?thesis unfolding deliver_flags [OF d, of n] by simp
  qed
  have off: "threads s' u = threads s u" if "u \<notin> set (L (HEvent i)) \<or> u \<in> set k" for u
  proof -
    have "u \<notin> set (map fst w)" using that P(1,3) by blast
    then have "map_of w u = None" by (metis map_of_eq_None_iff set_map)
    then show ?thesis by (simp add: s'(6) notified_def)
  qed
  have on: "stat (threads s' u) = RT_THREAD_READY
      \<and> (\<exists>x. within x ?b \<and> satisfied (event_info (threads s u)) (event_set (threads s u)) x
          \<and> event_set (threads s' u) = received (event_set (threads s u)) x)" if u: "u \<in> set (L (HEvent i)) - set k" for u
  proof -
    have uw: "(u, event_set (threads s' u)) \<in> set w" using u W by blast
    then obtain g where "map_of w u = Some g" using map_of_is_SomeI [OF P(2)] by blast
    then have "stat (threads s' u) = RT_THREAD_READY" by (simp add: s'(6) notified_def)
    then show ?thesis using deliver_woken [OF d uw] by blast
  qed
  have "w \<noteq> []" if "k \<noteq> L (HEvent i)" using that d deliver_none by metis
  then show ?thesis
    using s'(1-3,6,7) d flags off on unfolding s'(5) [symmetric] s'(4) [symmetric]
    by (intro exI [of _ s'] exI [of _ "fold (wake s) (map fst w) L"] exI [of _ T'] exI [of _ w]) blast
qed

theorem event_send_wakes_the_satisfied_witness:
  "\<exists>s1 s2. rt_event_recv 0 3 (RT_EVENT_FLAG_OR OR RT_EVENT_FLAG_CLEAR) (- 1) demo = Some (Block 1, s1)
     \<and> rt_event_send 0 5 s1 = Some (RT_EOK, s2) \<and> event_bits (events s2 0) = 4
     \<and> stat (threads s2 1) = RT_THREAD_READY \<and> event_set (threads s2 1) = 1"
proof -
  let ?L = "parked (HEvent 0) (oflag (objs demo (OEvent 0))) (threads demo) 1 demoL"
  let ?o = "RT_EVENT_FLAG_OR OR RT_EVENT_FLAG_CLEAR"
  have wh: "wait_head (HEvent 0)" by simp
  note p = demo_parked [OF wh]
  have m: "has_mode ?o" "\<not> satisfied ?o 3 (event_bits (events demo 0))"
    by (simp_all add: has_mode_def satisfied_def RT_EVENT_FLAG_OR_def RT_EVENT_FLAG_CLEAR_def RT_EVENT_FLAG_AND_def demo_fields demo0_def)
  from rt_event_recv_waits [OF demo_ipc demo_event demo_state(2) demo_fields(2) demo_ready(2) _ m _ _ p(4), of "- 1"] obtain s1 T1 where
    s1: "rt_event_recv 0 3 ?o (- 1) demo = Some (Block 1, s1)" "ipc_inv s1 ?L T1" "event_inv s1 ?L 0" "chosen ?L s1"
    "events s1 = events demo" "event_set (threads s1 1) = 3" "event_info (threads s1 1) = ?o"
    by (auto simp: demo_fields)
  have c: "rt_current_thread s1 \<noteq> None" using s1(4) by (auto simp: chosen_def)
  have q: "?L (HEvent 0) = [1]" by (rule p(1))
  have b: "event_bits (events s1 0) = 0" by (simp add: s1(5) demo_fields demo0_def)
  have d: "deliver (threads s1) (event_bits (events s1 0) OR 5) (?L (HEvent 0)) = ([(1, 1)], [], 4)"
    unfolding q b by (simp del: One_nat_def add: s1(6,7) Let_def satisfied_def received_def remaining_def
        RT_EVENT_FLAG_OR_def RT_EVENT_FLAG_CLEAR_def RT_EVENT_FLAG_AND_def)
  show ?thesis using event_send_wakes_the_satisfied [OF s1(2,3) c, of 5] s1(1) unfolding d by (auto simp: notified_def)
qed

text \<open>C20 Waiting and sending together: a thread that waits alone for flags that are not set is woken by a send
  that completes them, and its receive returns success and the flags it wanted of those that are
  set.\<close>

theorem event_receive_completes:
  assumes "ipc_inv s L T" "event_inv s L i" "rt_current_thread s = Some t" "rt_interrupt_nest s = 0"
    and "stat (threads s t) = RT_THREAD_READY" "want \<noteq> 0" "has_mode option"
    and "\<not> satisfied option want (event_bits (events s i))"
    and "time \<noteq> 0" "time < 0x7fffffff" "unlink t L (HPrio q) \<noteq> []" "rt_scheduler_lock_nest s = 0" "L (HEvent i) = []"
    and "flags \<noteq> 0" "satisfied option want (event_bits (events s i) OR flags)"
  shows "\<exists>s1 s2. rt_event_recv i want option time s = Some (Block t, s1) \<and> stat (threads s1 t) = RT_THREAD_SUSPEND
     \<and> rt_event_send i flags s1 = Some (RT_EOK, s2) \<and> stat (threads s2 t) = RT_THREAD_READY
     \<and> rt_event_recv_resumed t s2 = (RT_EOK, Some (received want (event_bits (events s i) OR flags)))"
proof -
  let ?L = "parked (HEvent i) (oflag (objs s (OEvent i))) (threads s) t L" and ?b = "event_bits (events s i) OR flags"
  from rt_event_recv_waits [OF assms(1-11)] assms(12) obtain s1 T1 where
    s1: "rt_event_recv i want option time s = Some (Block t, s1)" "ipc_inv s1 ?L T1" "event_inv s1 ?L i" "events s1 = events s"
    "stat (threads s1 t) = RT_THREAD_SUSPEND" "event_set (threads s1 t) = want" "event_info (threads s1 t) = option"
    "error (threads s1 t) = RT_EOK" "chosen ?L s1" by blast
  have L: "?L (HEvent i) = [t]" using assms(13) by (simp add: parked_def enqueue_def)
  have c: "rt_current_thread s1 \<noteq> None" using s1(9) by (auto simp: chosen_def)
  have d: "deliver (threads s1) (event_bits (events s1 i) OR flags) (?L (HEvent i)) = ([(t, received want ?b)], [], remaining option want ?b)"
    using assms(15) by (simp add: L s1(4,6,7))
  from rt_event_send_spec [OF s1(2,3) c assms(14) d] obtain s2 where
    s2: "rt_event_send i flags s1 = Some (RT_EOK, s2)" "threads s2 = notified [(t, received want ?b)] (threads s1)" by blast
  have "rt_event_recv_resumed t s2 = (RT_EOK, Some (received want ?b))"
    by (rule rt_event_recv_resumed_notified [OF _ s2(2) s1(8)]) simp
  moreover have "stat (threads s2 t) = RT_THREAD_READY" by (simp add: s2(2) notified_def)
  ultimately show ?thesis using s1(1,5) s2(1) by blast
qed

theorem event_receive_completes_witness:
  "\<exists>s1 s2. rt_event_recv 0 3 RT_EVENT_FLAG_AND 20 demo = Some (Block 1, s1) \<and> rt_event_send 0 7 s1 = Some (RT_EOK, s2)
     \<and> rt_event_recv_resumed 1 s2 = (RT_EOK, Some 3)"
proof -
  have m: "has_mode RT_EVENT_FLAG_AND" "\<not> satisfied RT_EVENT_FLAG_AND 3 (event_bits (events demo 0))"
    "satisfied RT_EVENT_FLAG_AND 3 (event_bits (events demo 0) OR 7)" "received 3 (event_bits (events demo 0) OR 7) = 3"
    by (simp_all add: has_mode_def satisfied_def received_def RT_EVENT_FLAG_AND_def demo_fields demo0_def)
  have wh: "wait_head (HEvent 0)" by simp
  have l: "demoL (HEvent 0) = []" by (simp add: demoL_def)
  show ?thesis
    using event_receive_completes [OF demo_ipc demo_event demo_state(2) demo_fields(2) demo_ready(2) _ m(1,2) _ _
        demo_parked(4) [OF wh] demo_fields(1) l _ m(3), of 20] m(4) by auto
qed

section \<open>Mailboxes\<close>

lemma demo_mb: "mb_inv i demo" "mb_cap i demo = 4" "mb_len i demo = 0" "mails i demo = []"
  by (simp_all add: mb_inv_def mb_cap_def mb_len_def mails_def ring_content_def demo_fields demo0_def Let_def)

text \<open>C14 The buffer of a mailbox refines a bounded first-in-first-out queue: storing and fetching that never
  overfills it or reads it empty delivers the mails in the order they were stored, across the
  wrap-around of both offsets.\<close>

theorem mailbox_buffer_in_order:
  assumes "mb_inv i s" "balanced (mb_cap i s) (mb_len i s) ops"
  shows "\<exists>ys s'. fifo_run (mb_cap i) (mb_len i) (mb_store i) (mb_fetch i) ops s = Some (ys, s') \<and> mb_inv i s'
     \<and> mails i s @ inputs ops = ys @ mails i s'"
  by (rule mbq.run_fifo [OF assms])

theorem mailbox_buffer_in_order_witness:
  "\<exists>ys s'. fifo_run (mb_cap 0) (mb_len 0) (mb_store 0) (mb_fetch 0) [Put 7, Put 8, Get, Put 9, Put 10, Put 11, Get] demo = Some (ys, s')
     \<and> [7, 8, 9, 10, 11] = ys @ mails 0 s'"
proof -
  have b: "balanced (mb_cap 0 demo) (mb_len 0 demo) [Put 7, Put 8, Get, Put 9, Put 10, Put 11, Get]" by (simp add: demo_mb)
  show ?thesis using mailbox_buffer_in_order [OF demo_mb(1) b] by (auto simp: demo_mb simp del: fifo_run.simps)
qed

text \<open>A thread that receives from an empty mailbox waits; the next send stores its mail and wakes it, and
  its receive, when it runs again, returns success and this mail, with time left or not.\<close>

theorem mailbox_receive_completes:
  assumes "ipc_inv s L T" "mb_inv i s" "rt_current_thread s = Some t" "rt_interrupt_nest s = 0"
    and "stat (threads s t) = RT_THREAD_READY" "time \<noteq> 0" "time < 0x7fffffff"
    and "oflag (objs s (OMailBox i)) = RT_IPC_FLAG_FIFO \<or> oflag (objs s (OMailBox i)) = RT_IPC_FLAG_PRIO"
    and "unlink t L (HPrio q) \<noteq> []" "rt_scheduler_lock_nest s = 0" "L (HMb i) = []" "mb_len i s = 0"
  shows "\<exists>s1 s2 s3. rt_mb_recv i time s = Some (Block (t, time, rt_tick s), s1) \<and> stat (threads s1 t) = RT_THREAD_SUSPEND
     \<and> rt_mb_send i v s1 = Some (Ret RT_EOK, s2) \<and> stat (threads s2 t) = RT_THREAD_READY
     \<and> rt_mb_recv_resumed i (t, time, rt_tick s) s2 = Some (Ret (RT_EOK, Some v), s3) \<and> mails i s3 = []"
proof -
  let ?L = "parked (HMb i) (oflag (objs s (OMailBox i))) (threads s) t L"
  from rt_mb_waits(2) [OF assms(1-9,12)] assms(10) obtain s1 T1 where
    s1: "rt_mb_recv i time s = Some (Block (t, time, rt_tick s), s1)" "ipc_inv s1 ?L T1" "mb_inv i s1" "mails i s1 = mails i s"
    "stat (threads s1 t) = RT_THREAD_SUSPEND" "error (threads s1 t) = RT_EOK" "thread_frame s s1" "chosen ?L s1" by blast
  have L: "?L (HMb i) = [t]" using assms(11) by (simp add: parked_def enqueue_def)
  have e: "mails i s1 = []" using s1(4) assms(12) mbq.len_content [OF assms(2)] by simp
  have l: "mb_len i s1 < mb_cap i s1"
    using mbq.len_content [OF s1(3)] e s1(3) by (auto simp: mb_inv_def mb_cap_def Let_def)
  have c: "rt_current_thread s1 \<noteq> None" using s1(8) by (auto simp: chosen_def)
  have lk: "rt_scheduler_lock_nest s1 = 0" using thread_frameD(7) [OF s1(7)] assms(10) by simp
  from rt_mb_send_room [OF s1(2,3) c l, of v 0] L obtain s2 T2 where
    s2: "rt_mb_send_wait i v 0 s1 = Some (Ret RT_EOK, s2)" "ipc_inv s2 (handed (HMb i) s1 ?L) T2" "mb_inv i s2" "mails i s2 = [v]"
    "stat (threads s2 t) = RT_THREAD_READY" "error (threads s2 t) = RT_EOK"
    "chosen (handed (HMb i) s1 ?L) s2"
    using e s1(6) lk by auto
  have "rt_current_thread s2 \<noteq> None" using s2(7) by (auto simp: chosen_def)
  from rt_mb_recv_mail [OF s2(2,3) this s2(4), of 1] obtain s3 where
    s3: "rt_mb_recv i 1 s2 = Some (Ret (RT_EOK, Some v), s3)" "mails i s3 = []" by blast
  have n: "mb_entry (mailboxes s2 i) \<noteq> 0" using mbq.len_content [OF s2(3)] s2(4) by (auto simp: mb_len_def)
  then have "mb_recv_step i time' s2 = mb_recv_step i 1 s2" for time' by (simp add: mb_recv_step_def)
  then have "rt_mb_recv_resumed i (t, time, rt_tick s) s2 = Some (Ret (RT_EOK, Some v), s3)"
    using s3(1) s2(6) n by (simp add: rt_mb_recv_resumed_def rt_mb_recv_def)
  then show ?thesis using s1(1,5) s2(1,5) s3(2) by (auto simp: rt_mb_send_def)
qed

theorem mailbox_receive_completes_witness:
  "\<exists>s1 s2 s3. rt_mb_recv 0 25 demo = Some (Block (1, 25, 0), s1) \<and> rt_mb_send 0 99 s1 = Some (Ret RT_EOK, s2)
     \<and> rt_mb_recv_resumed 0 (1, 25, 0) s2 = Some (Ret (RT_EOK, Some 99), s3)"
proof -
  have wh: "wait_head (HMb 0)" by simp
  have l: "demoL (HMb 0) = []" "oflag (objs demo (OMailBox 0)) = RT_IPC_FLAG_FIFO \<or> oflag (objs demo (OMailBox 0)) = RT_IPC_FLAG_PRIO"
    by (simp_all add: demoL_def demo_fields RT_IPC_FLAG_FIFO_def)
  show ?thesis
    using mailbox_receive_completes [OF demo_ipc demo_mb(1) demo_state(2) demo_fields(2) demo_ready(2) _ _ l(2)
        demo_parked(4) [OF wh] demo_fields(1) l(1) demo_mb(3), of 25 99] by (auto simp: demo_fields)
qed

text \<open>C33 Without room or mail, a call that does not wait returns the error code at once and changes nothing,
  and a call that waits suspends its thread on the list of the senders or of the receivers.\<close>

theorem mailbox_full_and_empty:
  assumes "ipc_inv s L T" "mb_inv i s" "rt_current_thread s = Some t" "rt_interrupt_nest s = 0"
    and "stat (threads s t) = RT_THREAD_READY" "time \<noteq> 0" "time < 0x7fffffff"
    and "oflag (objs s (OMailBox i)) = RT_IPC_FLAG_FIFO \<or> oflag (objs s (OMailBox i)) = RT_IPC_FLAG_PRIO"
    and "unlink t L (HPrio q) \<noteq> []"
  shows "(mb_len i s = mb_cap i s \<longrightarrow> rt_mb_send i v s = Some (Ret (- RT_EFULL), s)
       \<and> (\<exists>s' L' T'. rt_mb_send_wait i v time s = Some (Block (t, time, rt_tick s), s') \<and> ipc_inv s' L' T'
            \<and> t \<in> set (L' (HMbSender i)) \<and> stat (threads s' t) = RT_THREAD_SUSPEND \<and> mails i s' = mails i s))
     \<and> (mb_len i s = 0 \<longrightarrow> rt_mb_recv i 0 s = Some (Ret (- RT_ETIMEOUT, None), s)
       \<and> (\<exists>s' L' T'. rt_mb_recv i time s = Some (Block (t, time, rt_tick s), s') \<and> ipc_inv s' L' T'
            \<and> t \<in> set (L' (HMb i)) \<and> stat (threads s' t) = RT_THREAD_SUSPEND \<and> mails i s' = mails i s))"
proof -
  have p: "t \<in> set (parked h f th t L h)" for h f th by (simp add: parked_def set_enqueue)
  show ?thesis
    using rt_mb_nowait [where i = i and s = s] rt_mb_waits(1) [OF assms, of v] rt_mb_waits(2) [OF assms] p by blast
qed

theorem mailbox_full_and_empty_witness:
  "rt_mb_recv 0 0 demo = Some (Ret (- RT_ETIMEOUT, None), demo)
     \<and> (\<exists>s'. rt_mb_recv 0 5 demo = Some (Block (1, 5, rt_tick demo), s') \<and> stat (threads s' 1) = RT_THREAD_SUSPEND)"
proof -
  have wh: "wait_head (HMb 0)" by simp
  have l: "oflag (objs demo (OMailBox 0)) = RT_IPC_FLAG_FIFO \<or> oflag (objs demo (OMailBox 0)) = RT_IPC_FLAG_PRIO"
    by (simp add: demo_fields RT_IPC_FLAG_FIFO_def)
  show ?thesis
    using mailbox_full_and_empty [OF demo_ipc demo_mb(1) demo_state(2) demo_fields(2) demo_ready(2) _ _ l
        demo_parked(4) [OF wh], of 5] demo_mb(3) by auto
qed

section \<open>Message queues\<close>

lemma demo_mq: "mq_ok (mqs demo i) [] [1, 0] {}" "msg_size (mqs demo i) = 8" "max_msgs (mqs demo i) = 2" "mq_pool (mqs demo i) = 0x20004000"
  by (auto simp: mq_ok_def demo_fields demo0_def)

text \<open>C9 The sends and receives of several threads and interrupt handlers, cut at every point where
  interrupts are enabled and interleaved in any order, keep the queue consistent: the messages in
  the queue, the free messages and those held by calls under way are disjoint and make up the pool,
  both lists are properly linked, and the count is the number of queued messages.\<close>

theorem message_queue_survives_interleaving:
  assumes "mq_section\<^sup>*\<^sup>* (q, A) (q', A')" "mq_ok q Q F A"
  shows "\<exists>Q' F'. mq_ok q' Q' F' A'"
  by (rule mq_interleaved_ok [OF assms])

theorem message_queue_survives_interleaving_witness:
  "\<exists>q Q' F'. mq_section\<^sup>*\<^sup>* (mqs demo 0, {}) (q, {1, 0}) \<and> mq_ok q Q' F' {1, 0}"
proof -
  let ?q1 = "mq_take 1 (mqs demo 0)" and ?q2 = "mq_take 0 (mq_take 1 (mqs demo 0))"
  have "mq_section (mqs demo 0, {}) (?q1, insert 1 {})" by (rule mq_section.take) (simp add: demo_fields demo0_def)
  moreover have "mq_section (?q1, insert 1 {}) (?q2, insert 0 (insert 1 {}))"
    by (rule mq_section.take) (simp add: mq_take_def demo_fields demo0_def)
  ultimately have r: "mq_section\<^sup>*\<^sup>* (mqs demo 0, {}) (?q2, {1, 0})" by (simp add: insert_commute)
  from message_queue_survives_interleaving [OF r demo_mq(1)] show ?thesis using r by blast
qed

text \<open>C19 A message that is sent to an empty queue and received comes back unchanged: both calls return
  success, the bytes in the receiver's buffer are those of the sender's, and the queue is empty
  again with all its messages free.\<close>

theorem message_roundtrip:
  assumes "ipc_inv s L T" "rt_current_thread s \<noteq> None" "mq_ok (mqs s i) [] (m # F) A"
    and "src \<noteq> 0" "outside_pool (mqs s i) src n" "0 < n" "n \<le> unat (msg_size (mqs s i))"
    and "dst \<noteq> 0" "outside_pool (mqs s i) dst n"
  shows "\<exists>s1 s2 L2 T2. rt_mq_send i src n s = Some (RT_EOK, s1) \<and> rt_mq_recv i dst n time s1 = Some (Ret RT_EOK, s2)
     \<and> bytes_at (ram s2) dst n = bytes_at (ram s) src n \<and> mq_ok (mqs s2 i) [] (m # F) A \<and> ipc_inv s2 L2 T2"
proof -
  from rt_mq_send_spec [OF assms(1-7)] obtain s1 T1 where
    s1: "rt_mq_send i src n s = Some (RT_EOK, s1)" "ipc_inv s1 (handed (HMq i) s L) T1" "mq_ok (mqs s1 i) [m] F A"
    "take n (mq_data i s1 m) = bytes_at (ram s) src n"
    "msg_size (mqs s1 i) = msg_size (mqs s i)" "outside_pool (mqs s1 i) = outside_pool (mqs s i)" by auto
  have k: "min n (unat (msg_size (mqs s1 i))) = n" using assms(7) s1(5) by simp
  have "outside_pool (mqs s1 i) dst (min n (unat (msg_size (mqs s1 i))))" using assms(9) s1(6) by (simp add: k)
  from rt_mq_recv_spec [OF s1(2,3) assms(8,6) this, of time] obtain s2 where
    s2: "rt_mq_recv i dst n time s1 = Some (Ret RT_EOK, s2)" "ipc_inv s2 (handed (HMq i) s L) T1" "mq_ok (mqs s2 i) [] (m # F) A"
    "bytes_at (ram s2) dst n = take n (mq_data i s1 m)" unfolding k by blast
  then show ?thesis using s1(1,4) by auto
qed

theorem message_roundtrip_witness:
  "\<exists>s1 s2. rt_mq_send 0 0x20010000 6 demo = Some (RT_EOK, s1) \<and> rt_mq_recv 0 0x20010100 6 0 s1 = Some (Ret RT_EOK, s2)
     \<and> bytes_at (ram s2) 0x20010100 6 = bytes_at (ram demo) 0x20010000 6"
proof -
  have o: "outside_pool (mqs demo 0) 0x20010000 6" "outside_pool (mqs demo 0) 0x20010100 6"
    by (simp_all add: outside_pool_def demo_mq)
  have c: "rt_current_thread demo \<noteq> None" by (simp add: demo_state)
  show ?thesis
    using message_roundtrip [OF demo_ipc c demo_mq(1) _ o(1) _ _ _ o(2), of 0] by (auto simp: demo_mq)
qed

end
