(* ===== verification/RT_PoolProps.thy ===== *)
theory RT_PoolProps
  imports RT_Demo
begin

text \<open>
  The properties of the waiting lists, the memory pools, the data queues and the completions. Each
  property with a hypothesis is followed by a witness on the example system.
\<close>

section \<open>Waiting lists\<close>

lemma sorted_rest_less:
  "sorted (map f xs) \<Longrightarrow> \<forall>v \<in> set (dropWhile (\<lambda>x. \<not> f t < f x) xs). f t < f v"
  for f :: "'a \<Rightarrow> 'b :: linorder"
proof (induction xs)
  case (Cons a xs)
  show ?case
  proof (cases "f t < f a")
    case True
    then have "\<forall>v \<in> set xs. f t < f v" using Cons.prems order.strict_trans2 [OF True] by simp
    then show ?thesis using True by simp
  next
    case False
    then have "dropWhile (\<lambda>x. \<not> f t < f x) (a # xs) = dropWhile (\<lambda>x. \<not> f t < f x) xs" by simp
    moreover have "sorted (map f xs)" using Cons.prems by simp
    ultimately show ?thesis using Cons.IH by metis
  qed
qed simp

text \<open>C30 A thread that is suspended on a list in priority order takes its place behind all threads that are
  at least as urgent and before all that are less urgent: the list stays sorted by priority, and
  threads of the same priority keep their order of arrival.\<close>

theorem waiting_list_in_priority_order:
  assumes "ipc_inv s L T" "stat (threads s t) = RT_THREAD_READY" "wait_head h"
    and "sorted (map (\<lambda>x. current_priority (threads s x)) (L h))"
  shows "\<exists>s' L' us vs. rt_ipc_list_suspend h t RT_IPC_FLAG_PRIO s = Some s' \<and> ipc_inv s' L' T
     \<and> L h = us @ vs \<and> L' h = us @ t # vs \<and> stat (threads s' t) = RT_THREAD_SUSPEND
     \<and> (\<forall>u \<in> set us. current_priority (threads s u) \<le> current_priority (threads s t))
     \<and> (\<forall>v \<in> set vs. current_priority (threads s t) < current_priority (threads s v))
     \<and> sorted (map (\<lambda>x. current_priority (threads s' x)) (L' h))"
proof -
  let ?p = "\<lambda>x. current_priority (threads s x)"
  let ?us = "takeWhile (\<lambda>x. \<not> ?p t < ?p x) (L h)" and ?vs = "dropWhile (\<lambda>x. \<not> ?p t < ?p x) (L h)"
  let ?L = "parked h RT_IPC_FLAG_PRIO (threads s) t L"
  from rt_ipc_list_suspend_spec [OF assms(1-3), of RT_IPC_FLAG_PRIO] obtain s' where
    s': "rt_ipc_list_suspend h t RT_IPC_FLAG_PRIO s = Some s'" "ipc_inv s' ?L T"
    "threads s' = (threads s)(t := (threads s t)\<lparr>stat := RT_THREAD_SUSPEND\<rparr>)" by blast
  have e: "?L h = enqueue RT_IPC_FLAG_PRIO (threads s) t (L h)" "?L h = ?us @ t # ?vs" "L h = ?us @ ?vs"
    by (simp_all add: parked_def enqueue_def)
  have p: "current_priority (threads s' x) = ?p x" for x by (simp add: s'(3))
  have "sorted (map (\<lambda>x. current_priority (threads s' x)) (?L h))"
    unfolding p e(1) by (rule enqueue_sorted [OF assms(4)])
  moreover have "\<forall>v \<in> set ?vs. ?p t < ?p v" using assms(4) by (rule sorted_rest_less)
  moreover have "\<forall>u \<in> set ?us. ?p u \<le> ?p t" by (blast dest: set_takeWhileD leI)
  moreover have "stat (threads s' t) = RT_THREAD_SUSPEND" by (simp add: s'(3))
  ultimately show ?thesis
    using s'(1,2) e(2,3) by (intro exI [of _ s'] exI [of _ ?L] exI [of _ ?us] exI [of _ ?vs] conjI)
qed

theorem waiting_list_in_priority_order_witness:
  "\<exists>s'. rt_ipc_list_suspend (HSem 0) 1 RT_IPC_FLAG_PRIO demo = Some s' \<and> stat (threads s' 1) = RT_THREAD_SUSPEND"
proof -
  have wh: "wait_head (HSem 0)" by simp
  have "sorted (map (\<lambda>x. current_priority (threads demo x)) (demoL (HSem 0)))" by (simp add: demoL_def)
  from waiting_list_in_priority_order [OF demo_ipc demo_ready(2) wh this] show ?thesis by blast
qed

section \<open>Memory pools\<close>

lemma demo_mp: "mp_ok 0 demo [0x20005000, 0x2000500c] {}" "suspend_thread_count (mps demo 0) = 0"
proof -
  have "{..< 2 :: nat} = {0, 1}" by auto
  then show "mp_ok 0 demo [0x20005000, 0x2000500c] {}"
    by (simp add: mp_ok_def pool_fits_def pool_blocks_def demo_fields demo0_def)
qed (simp add: demo_fields demo0_def)

text \<open>C29 A pool with a free block gives it out at once: the address is that of the first block of the free
  list, right behind the block's word. The block lies inside the pool, and with its word it is apart
  from every other block, free or in use, and its word. Freeing this address makes the block the first
  free block again: the pool's free list, its blocks in use and its counter are as before, and no
  other word was written. The pool ends below the top of the address space.\<close>

theorem mempool_alloc_free_roundtrip:
  assumes "ipc_inv s L T" "mp_ok i s (b # F) U" "suspend_thread_count (mps s i) = 0"
  shows "\<exists>a s1 s2. rt_mp_alloc i time s = Some (Ret (Some a), s1) \<and> a = b + 4 \<and> ipc_inv s1 L T \<and> mp_ok i s1 F (insert b U)
     \<and> start_address (mps s i) + 4 \<le> a
     \<and> a + unat (block_size (mps s i)) \<le> start_address (mps s i) + unat (block_total_count (mps s i)) * (unat (block_size (mps s i)) + 4)
     \<and> (\<forall>c \<in> set F \<union> U. a + unat (block_size (mps s i)) \<le> c \<or> c + 4 + unat (block_size (mps s i)) \<le> b)
     \<and> rt_mp_free a s1 = Some s2 \<and> ipc_inv s2 L T \<and> mp_ok i s2 (b # F) U \<and> (\<forall>x. x \<noteq> b \<longrightarrow> mp_words s2 x = mp_words s x)"
proof -
  from rt_mp_alloc_block [OF assms(1,2), of time] obtain s1 where
    s1: "rt_mp_alloc i time s = Some (Ret (Some (b + 4)), s1)" "ipc_inv s1 L T" "mp_ok i s1 F (insert b U)"
    "suspend_thread_count (mps s1 i) = 0" "\<forall>x. x \<noteq> b \<longrightarrow> mp_words s1 x = mp_words s x" using assms(3) by auto
  have B: "b \<notin> set F \<union> U" "b \<in> pool_blocks (mps s i)" "set F \<union> U \<subseteq> pool_blocks (mps s i)"
    using assms(2) by (auto simp: mp_ok_def)
  from rt_mp_free_idle [OF s1(2,3) insertI1 s1(4)] obtain s2 where
    s2: "rt_mp_free (b + 4) s1 = Some s2" "ipc_inv s2 L T" "mp_ok i s2 (b # F) U" "\<forall>x. x \<noteq> b \<longrightarrow> mp_words s2 x = mp_words s1 x"
    using B(1) by auto
  have "\<forall>c \<in> set F \<union> U. b + 4 + unat (block_size (mps s i)) \<le> c \<or> c + 4 + unat (block_size (mps s i)) \<le> b"
    using pool_blocks_apart [OF B(2)] B(1,3) by blast
  then show ?thesis
    using s1 s2 pool_block_inside [OF B(2)] by (intro exI [of _ "b + 4"] exI [of _ s1] exI [of _ s2]) simp
qed

theorem mempool_alloc_free_roundtrip_witness:
  "\<exists>s1 s2. rt_mp_alloc 0 0 demo = Some (Ret (Some 0x20005004), s1) \<and> rt_mp_free 0x20005004 s1 = Some s2
     \<and> mp_ok 0 s2 [0x20005000, 0x2000500c] {}"
  using mempool_alloc_free_roundtrip [OF demo_ipc demo_mp(1,2), of 0] by auto

text \<open>C28 A thread that asks an exhausted pool for a block waits; the next thread that frees a block wakes it,
  and when nobody took the block in between, the call of the woken thread returns the address of
  this block. The pool ends below the top of the address space.\<close>

theorem mempool_wait_gets_freed_block:
  assumes "ipc_inv s L T" "mp_ok i s [] U" "rt_current_thread s = Some t" "rt_interrupt_nest s = 0"
    and "stat (threads s t) = RT_THREAD_READY" "time \<noteq> 0" "time < 0x7fffffff" "unlink t L (HPrio q) \<noteq> []"
    and "suspend_thread_count (mps s i) = 0" "b \<in> U" "rt_scheduler_lock_nest s = 0"
  shows "\<exists>s1 s2 s3. rt_mp_alloc i time s = Some (Block t, s1) \<and> stat (threads s1 t) = RT_THREAD_SUSPEND
     \<and> rt_mp_free (b + 4) s1 = Some s2 \<and> stat (threads s2 t) = RT_THREAD_READY \<and> suspend_thread_count (mps s2 i) = 0
     \<and> rt_mp_alloc_resumed i t s2 = Some (Some (b + 4), s3) \<and> mp_ok i s3 [] U"
proof -
  from rt_mp_alloc_waits [OF assms(1-8)] assms(11) obtain s1 T1 where
    s1: "rt_mp_alloc i time s = Some (Block t, s1)" "ipc_inv s1 (pushed (HMp i) t L) T1" "mp_ok i s1 [] U"
    "suspend_thread_count (mps s1 i) = 1" "stat (threads s1 t) = RT_THREAD_SUSPEND" "rt_current_thread s1 \<noteq> None"
    using assms(9) by (auto simp: chosen_def)
  have n: "suspend_thread_count (mps s1 i) \<noteq> 0" "pushed (HMp i) t L (HMp i) = t # L (HMp i)"
    by (simp_all add: s1(4) pushed_def)
  from rt_mp_free_wakes [OF s1(2,3) assms(10) n s1(6)] obtain s2 L2 T2 where
    s2: "rt_mp_free (b + 4) s1 = Some s2" "ipc_inv s2 L2 T2" "mp_ok i s2 [b] (U - {b})" "suspend_thread_count (mps s2 i) = 0"
    "stat (threads s2 t) = RT_THREAD_READY" "error (threads s2 t) = RT_EOK" using s1(4) by auto
  from mp_take_ok [OF s2(2,3)] obtain s3 where
    s3: "mp_take i s2 = Some (b, s3)" "mp_ok i s3 [] (insert b (U - {b}))" by blast
  have "insert b (U - {b}) = U" using assms(10) by blast
  moreover have "add32 b 4 = b + 4" using s2(3) by (intro pool_address(1)) (auto simp: mp_ok_def)
  ultimately have "rt_mp_alloc_resumed i t s2 = Some (Some (b + 4), s3)" "mp_ok i s3 [] U"
    using s3 s2(6) by (simp_all add: rt_mp_alloc_resumed_def)
  then show ?thesis using s1(1,5) s2 by blast
qed

definition demo_pool :: kernel where
  "demo_pool = upd_mp_word 0x20005000 (BPool 0) (upd_mp_word 0x2000500c (BPool 0)
     (upd_mp 0 (\<lambda>mp. mp\<lparr>block_list := None, block_free_count := 0\<rparr>) demo))"

lemma demo_pool_state:
  "ipc_inv demo_pool demoL []" "mp_ok 0 demo_pool [] {0x20005000, 0x2000500c}" "rt_current_thread demo_pool = Some 1"
  "rt_interrupt_nest demo_pool = 0" "stat (threads demo_pool 1) = RT_THREAD_READY" "suspend_thread_count (mps demo_pool 0) = 0"
  "rt_scheduler_lock_nest demo_pool = 0"
proof -
  show "ipc_inv demo_pool demoL []" by (simp add: demo_pool_def demo_ipc)
  have "{..< 2 :: nat} = {0, 1}" by auto
  then show "mp_ok 0 demo_pool [] {0x20005000, 0x2000500c}"
    by (simp add: demo_pool_def upd_mp_def upd_mp_word_def mp_ok_def pool_fits_def pool_blocks_def demo_fields demo0_def)
qed (auto simp: demo_pool_def upd_mp_def upd_mp_word_def demo_fields demo_state demo_ready(2) [simplified] demo0_def)

theorem mempool_wait_gets_freed_block_witness:
  "\<exists>s1 s2 s3. rt_mp_alloc 0 (- 1) demo_pool = Some (Block 1, s1) \<and> rt_mp_free 0x20005010 s1 = Some s2
     \<and> rt_mp_alloc_resumed 0 1 s2 = Some (Some 0x20005010, s3)"
proof -
  have wh: "wait_head (HMp 0)" by simp
  note P = demo_pool_state
  show ?thesis
    using mempool_wait_gets_freed_block [OF P(1-5) _ _ demo_parked(4) [OF wh] P(6) _ P(7), of "- 1" "0x2000500c"] by auto
qed

section \<open>Data queues\<close>

text \<open>C31 A data queue with room takes an item at its end and one with items gives its first item away, so
  that what is popped is what was pushed, in the order of the pushes; the head of the queue is found
  at the same place across every wrap-around of the 16-bit indices.\<close>

theorem data_queue_push_pop:
  assumes "ipc_inv s L T" "dq_ok (dqueues s i)" "dq_len (dqueues s i) < dq_cap (dqueues s i)"
    and "rt_current_thread s = Some t" "\<not> evt_notify (dqueues s i)" "L (HDqPop i) = []"
  shows "\<exists>s1 s2 L2 T2 x' xs. rt_data_queue_push notify i x time s = Some (Ret RT_EOK, s1)
     \<and> dq_content (dqueues s1 i) = dq_content (dqueues s i) @ [x] \<and> dq_content (dqueues s i) @ [x] = x' # xs
     \<and> rt_data_queue_pop notify i time' s1 = Some (Ret (RT_EOK, Some x'), s2)
     \<and> dq_ok (dqueues s2 i) \<and> dq_content (dqueues s2 i) = xs \<and> ipc_inv s2 L2 T2"
proof -
  have c: "rt_current_thread s \<noteq> None" using assms(4) by simp
  obtain x' xs where x: "dq_content (dqueues s i) @ [x] = x' # xs" by (cases "dq_content (dqueues s i)") auto
  from rt_data_queue_push_room [OF assms(1-3) c, of notify x time] assms(5,6) c obtain s1 T1 where
    s1: "rt_data_queue_push notify i x time s = Some (Ret RT_EOK, s1)" "ipc_inv s1 (handed (HDqPop i) s L) T1"
    "dq_ok (dqueues s1 i)" "dq_content (dqueues s1 i) = dq_content (dqueues s i) @ [x]"
    "rt_current_thread s1 \<noteq> None" "\<not> evt_notify (dqueues s1 i)" by auto
  from rt_data_queue_pop_item [OF s1(2,3) s1(4) [unfolded x] s1(5,6), of notify time'] obtain s2 L2 T2 where
    s2: "rt_data_queue_pop notify i time' s1 = Some (Ret (RT_EOK, Some x'), s2)" "ipc_inv s2 L2 T2"
    "dq_ok (dqueues s2 i)" "dq_content (dqueues s2 i) = xs" by blast
  show ?thesis using s1(1,4) s2 x by blast
qed

lemma demo_dq: "dq_ok (dqueues demo i)" "dq_len (dqueues demo i) = 0" "dq_cap (dqueues demo i) = 4" "dq_content (dqueues demo i) = []"
  "\<not> evt_notify (dqueues demo i)" "demoL (HDqPop i) = []"
proof -
  have "(4::nat) = 2 ^ 2" "(2::nat) \<le> 15" by simp_all
  then show "dq_ok (dqueues demo i)" unfolding dq_ok_def by (auto simp: demo_fields demo0_def intro!: exI [of _ "2::nat"])
qed (simp_all add: dq_len_def dq_cap_def dq_content_def ring_content_def demo_fields demo0_def demoL_def)

theorem data_queue_push_pop_witness:
  "\<exists>s1 s2. rt_data_queue_push (\<lambda>i e s. Some s) 0 \<lparr>data_ptr = 0x20008000, data_size = 12\<rparr> 0 demo = Some (Ret RT_EOK, s1)
     \<and> rt_data_queue_pop (\<lambda>i e s. Some s) 0 0 s1 = Some (Ret (RT_EOK, Some \<lparr>data_ptr = 0x20008000, data_size = 12\<rparr>), s2)
     \<and> dq_content (dqueues s2 0) = []"
proof -
  have l: "dq_len (dqueues demo 0) < dq_cap (dqueues demo 0)" by (simp add: demo_dq)
  show ?thesis
    using data_queue_push_pop [OF demo_ipc demo_dq(1) l demo_state(2) demo_dq(5,6), where notify = "\<lambda>i e s. Some s"
        and x = "\<lparr>data_ptr = 0x20008000, data_size = 12\<rparr>" and time = 0 and time' = 0] by (auto simp: demo_dq)
qed

section \<open>Completions\<close>

text \<open>A thread that waits for a completion is suspended until another thread or an interrupt handler says
  it is done; then it is ready, its call returns success, and the completion can be used again.\<close>

theorem completion_wait_done:
  assumes "ipc_inv s L T" "stat (threads s t) = RT_THREAD_READY" "rt_current_thread s = Some t" "rt_interrupt_nest s = 0"
    and "L (HCompletion i) = []" "cflag (completions s i) \<noteq> RT_COMPLETED"
    and "time \<noteq> 0" "time < 0x7fffffff" "unlink t L (HPrio q) \<noteq> []" "rt_scheduler_lock_nest s = 0"
  shows "\<exists>s1 s2 s3. rt_completion_wait i time s = Some (Block t, s1) \<and> stat (threads s1 t) = RT_THREAD_SUSPEND
     \<and> rt_completion_done i s1 = Some s2 \<and> stat (threads s2 t) = RT_THREAD_READY
     \<and> rt_completion_wait_resumed i t s2 = (RT_EOK, s3) \<and> cflag (completions s3 i) = RT_UNCOMPLETED"
proof -
  let ?L = "(unlink t L)(HCompletion i := [t])"
  from rt_completion_wait_blocks [OF assms(1-9)] assms(10) obtain s1 T1 where
    s1: "rt_completion_wait i time s = Some (Block t, s1)" "ipc_inv s1 ?L T1" "completions s1 = completions s"
    "stat (threads s1 t) = RT_THREAD_SUSPEND" "error (threads s1 t) = RT_EOK" "chosen ?L s1" by blast
  have n: "?L (HCompletion i) = [t]" "rt_current_thread s1 \<noteq> None" "cflag (completions s1 i) \<noteq> RT_COMPLETED"
    using s1(3,6) assms(6) by (auto simp: chosen_def)
  from rt_completion_done_wakes [OF s1(2) n s1(5)] s1(1,4) show ?thesis by blast
qed

theorem completion_wait_done_witness:
  "\<exists>s1 s2 s3. rt_completion_wait 0 100 demo = Some (Block 1, s1) \<and> rt_completion_done 0 s1 = Some s2
     \<and> rt_completion_wait_resumed 0 1 s2 = (RT_EOK, s3)"
proof -
  have wh: "wait_head (HCompletion 0)" by simp
  have c: "demoL (HCompletion 0) = []" "cflag (completions demo 0) \<noteq> RT_COMPLETED"
    by (simp_all add: demoL_def demo_fields demo0_def RT_COMPLETED_def)
  show ?thesis
    using completion_wait_done [OF demo_ipc demo_ready(2) demo_state(2) demo_fields(2) c _ _ demo_parked(4) [OF wh] demo_fields(1), of 100]
    by auto
qed

end
