(* ===== verification/RT_Device.thy ===== *)
theory RT_Device
  imports RT_Ipc
begin

text \<open>
  The device framework of \<open>src/device.c\<close>: registration under a name, initialisation, reference-counted
  opening and closing, and the calls that are passed on to the driver.

  A device pointer is \<open>None\<close> when it is null; a null pointer stops most calls at an assertion. The
  functions behind the pointers of a device are those of its driver: they are the record \<open>dev_ops\<close>,
  which every call takes as an argument, and the device says which of the pointers are set. A read or
  a write may suspend its thread. Messages on the console are left out.
\<close>

section \<open>Flags\<close>

definition RT_DEVICE_FLAG_RDWR :: u16 where "RT_DEVICE_FLAG_RDWR = 0x003"
definition RT_DEVICE_FLAG_STANDALONE :: u16 where "RT_DEVICE_FLAG_STANDALONE = 0x008"
definition RT_DEVICE_FLAG_ACTIVATED :: u16 where "RT_DEVICE_FLAG_ACTIVATED = 0x010"
definition RT_DEVICE_OFLAG_CLOSE :: u16 where "RT_DEVICE_OFLAG_CLOSE = 0x000"
definition RT_DEVICE_OFLAG_RDONLY :: u16 where "RT_DEVICE_OFLAG_RDONLY = 0x001"
definition RT_DEVICE_OFLAG_WRONLY :: u16 where "RT_DEVICE_OFLAG_WRONLY = 0x002"
definition RT_DEVICE_OFLAG_OPEN :: u16 where "RT_DEVICE_OFLAG_OPEN = 0x008"

lemmas device_flags = RT_DEVICE_FLAG_STANDALONE_def RT_DEVICE_FLAG_ACTIVATED_def RT_DEVICE_OFLAG_CLOSE_def
  RT_DEVICE_OFLAG_RDONLY_def RT_DEVICE_OFLAG_WRONLY_def RT_DEVICE_OFLAG_OPEN_def RT_DEVICE_FLAG_RDWR_def

section \<open>Drivers\<close>

record dev_ops =
  init_op :: "nat \<Rightarrow> kernel \<Rightarrow> (rt_err_t \<times> kernel) option"
  open_op :: "nat \<Rightarrow> u16 \<Rightarrow> kernel \<Rightarrow> (rt_err_t \<times> kernel) option"
  close_op :: "nat \<Rightarrow> kernel \<Rightarrow> (rt_err_t \<times> kernel) option"
  read_op :: "nat \<Rightarrow> int \<Rightarrow> nat \<Rightarrow> u32 \<Rightarrow> kernel \<Rightarrow> ((nat, u32) outcome \<times> kernel) option"
  write_op :: "nat \<Rightarrow> int \<Rightarrow> nat \<Rightarrow> u32 \<Rightarrow> kernel \<Rightarrow> ((nat, u32) outcome \<times> kernel) option"
  control_op :: "nat \<Rightarrow> u8 \<Rightarrow> nat option \<Rightarrow> kernel \<Rightarrow> (rt_err_t \<times> kernel) option"

section \<open>Registration\<close>

definition rt_device_register :: "nat option \<Rightarrow> u8 list \<Rightarrow> u16 \<Rightarrow> kernel \<Rightarrow> (rt_err_t \<times> kernel) option" where
  "rt_device_register dev name flags s = (case dev of
     None \<Rightarrow> Some (- RT_ERROR, s)
   | Some i \<Rightarrow> do {
       (r, s1) \<leftarrow> rt_device_find name s;
       if r \<noteq> None then Some (- RT_ERROR, s1)
       else do {
         s2 \<leftarrow> rt_object_init (ODevice i) RT_Object_Class_Device name s1;
         Some (RT_EOK, upd_dev i (\<lambda>d. d\<lparr>dflag := flags, ref_count := 0\<rparr>) s2) } })"

definition rt_device_unregister :: "nat option \<Rightarrow> kernel \<Rightarrow> (rt_err_t \<times> kernel) option" where
  "rt_device_unregister dev s = do {
     i \<leftarrow> dev;
     Some (RT_EOK, rt_object_detach (ODevice i) s) }"

section \<open>Initialisation\<close>

definition activate :: "nat \<Rightarrow> kernel \<Rightarrow> kernel" where
  "activate i s = upd_dev i (\<lambda>d. d\<lparr>dflag := dflag d OR RT_DEVICE_FLAG_ACTIVATED\<rparr>) s"

partial_function (option) init_all_loop ::
  "dev_ops \<Rightarrow> (rt_object_class_type, obj) lnode \<Rightarrow> kernel \<Rightarrow> kernel option" where
  "init_all_loop ops node s =
    (if node = LHead RT_Object_Class_Device then Some s
     else do {
       ob \<leftarrow> rt_list_entry node;
       i \<leftarrow> (case ob of ODevice i \<Rightarrow> Some i | _ \<Rightarrow> None);
       s1 \<leftarrow> (if dinit (devices s i) \<and> dflag (devices s i) AND RT_DEVICE_FLAG_ACTIVATED = 0
             then do {
               (r, s') \<leftarrow> init_op ops i s;
               Some (if r \<noteq> RT_EOK then s' else activate i s') }
             else Some s);
       init_all_loop ops (lnext (olinks s1) node) s1 })"

definition rt_device_init_all :: "dev_ops \<Rightarrow> kernel \<Rightarrow> (rt_err_t \<times> kernel) option" where
  "rt_device_init_all ops s = do {
     s1 \<leftarrow> init_all_loop ops (lnext (olinks s) (LHead RT_Object_Class_Device)) s;
     Some (RT_EOK, s1) }"

definition rt_device_init :: "dev_ops \<Rightarrow> nat option \<Rightarrow> kernel \<Rightarrow> (rt_err_t \<times> kernel) option" where
  "rt_device_init ops dev s = do {
     i \<leftarrow> dev;
     if dinit (devices s i) \<and> dflag (devices s i) AND RT_DEVICE_FLAG_ACTIVATED = 0
     then do {
       (result, s1) \<leftarrow> init_op ops i s;
       Some (result, if result \<noteq> RT_EOK then s1 else activate i s1) }
     else Some (RT_EOK, s) }"

section \<open>Opening and closing\<close>

text \<open>Opening initialises a device that is not activated; one without an init function is activated as well.\<close>

definition open_init :: "dev_ops \<Rightarrow> nat \<Rightarrow> kernel \<Rightarrow> (rt_err_t \<times> kernel) option" where
  "open_init ops i s =
    (if dflag (devices s i) AND RT_DEVICE_FLAG_ACTIVATED = 0
     then if dinit (devices s i)
          then do {
            (r, s1) \<leftarrow> init_op ops i s;
            Some (r, if r \<noteq> RT_EOK then s1 else activate i s1) }
          else Some (RT_EOK, activate i s)
     else Some (RT_EOK, s))"

definition open_count :: "nat \<Rightarrow> u16 \<Rightarrow> rt_err_t \<Rightarrow> kernel \<Rightarrow> (rt_err_t \<times> kernel) option" where
  "open_count i ofl result s =
    (if result = RT_EOK \<or> result = - RT_ENOSYS
     then do {
       let s1 = upd_dev i (\<lambda>d. d\<lparr>open_flag := ofl OR RT_DEVICE_OFLAG_OPEN, ref_count := ref_count d + 1\<rparr>) s;
       RT_ASSERT (ref_count (devices s1 i) \<noteq> 0);
       Some (result, s1) }
     else Some (result, s))"

definition rt_device_open :: "dev_ops \<Rightarrow> nat option \<Rightarrow> u16 \<Rightarrow> kernel \<Rightarrow> (rt_err_t \<times> kernel) option" where
  "rt_device_open ops dev ofl s = do {
     i \<leftarrow> dev;
     (result, s1) \<leftarrow> open_init ops i s;
     if result \<noteq> RT_EOK then Some (result, s1)
     else if dflag (devices s1 i) AND RT_DEVICE_FLAG_STANDALONE \<noteq> 0 \<and> open_flag (devices s1 i) AND RT_DEVICE_OFLAG_OPEN \<noteq> 0
     then Some (- RT_EBUSY, s1)
     else do {
       (result, s2) \<leftarrow> (if dopen (devices s1 i) then open_op ops i ofl s1 else Some (result, s1));
       open_count i ofl result s2 } }"

definition rt_device_close :: "dev_ops \<Rightarrow> nat option \<Rightarrow> kernel \<Rightarrow> (rt_err_t \<times> kernel) option" where
  "rt_device_close ops dev s = do {
     i \<leftarrow> dev;
     if ref_count (devices s i) = 0 then Some (- RT_ERROR, s)
     else do {
       let s1 = upd_dev i (\<lambda>d. d\<lparr>ref_count := ref_count d - 1\<rparr>) s;
       if ref_count (devices s1 i) \<noteq> 0 then Some (RT_EOK, s1)
       else do {
         (result, s2) \<leftarrow> (if dclose (devices s1 i) then close_op ops i s1 else Some (RT_EOK, s1));
         Some (result, if result = RT_EOK \<or> result = - RT_ENOSYS
                       then upd_dev i (\<lambda>d. d\<lparr>open_flag := RT_DEVICE_OFLAG_CLOSE\<rparr>) s2 else s2) } } }"

section \<open>Calls passed on to the driver\<close>

definition rt_device_read ::
  "dev_ops \<Rightarrow> nat option \<Rightarrow> int \<Rightarrow> nat \<Rightarrow> u32 \<Rightarrow> kernel \<Rightarrow> ((nat, u32) outcome \<times> kernel) option" where
  "rt_device_read ops dev pos buffer sz s = do {
     i \<leftarrow> dev;
     if ref_count (devices s i) = 0 then Some (Ret 0, rt_set_errno (- RT_ERROR) s)
     else if dread (devices s i) then read_op ops i pos buffer sz s
     else Some (Ret 0, rt_set_errno (- RT_ENOSYS) s) }"

definition rt_device_write ::
  "dev_ops \<Rightarrow> nat option \<Rightarrow> int \<Rightarrow> nat \<Rightarrow> u32 \<Rightarrow> kernel \<Rightarrow> ((nat, u32) outcome \<times> kernel) option" where
  "rt_device_write ops dev pos buffer sz s = do {
     i \<leftarrow> dev;
     if ref_count (devices s i) = 0 then Some (Ret 0, rt_set_errno (- RT_ERROR) s)
     else if dwrite (devices s i) then write_op ops i pos buffer sz s
     else Some (Ret 0, rt_set_errno (- RT_ENOSYS) s) }"

definition rt_device_control :: "dev_ops \<Rightarrow> nat option \<Rightarrow> u8 \<Rightarrow> nat option \<Rightarrow> kernel \<Rightarrow> (rt_err_t \<times> kernel) option" where
  "rt_device_control ops dev cmd arg s = do {
     i \<leftarrow> dev;
     if dcontrol (devices s i) then control_op ops i cmd arg s else Some (RT_EOK, s) }"

definition rt_device_set_rx_indicate :: "nat option \<Rightarrow> dev_callback option \<Rightarrow> kernel \<Rightarrow> (rt_err_t \<times> kernel) option" where
  "rt_device_set_rx_indicate dev rx_ind s = do {
     i \<leftarrow> dev;
     Some (RT_EOK, upd_dev i (\<lambda>d. d\<lparr>rx_indicate := rx_ind\<rparr>) s) }"

definition rt_device_set_tx_complete :: "nat option \<Rightarrow> dev_callback option \<Rightarrow> kernel \<Rightarrow> (rt_err_t \<times> kernel) option" where
  "rt_device_set_tx_complete dev tx_done s = do {
     i \<leftarrow> dev;
     Some (RT_EOK, upd_dev i (\<lambda>d. d\<lparr>tx_complete := tx_done\<rparr>) s) }"

section \<open>The contract of a driver\<close>

text \<open>
  What the framework relies on: a driver does not write the structure of its device, whose flags and
  reference count belong to the framework, and keeps what it relies on itself (\<open>P\<close>), which does not
  depend on that structure. Its init function does not answer \<open>-RT_ENOSYS\<close>: an open whose
  initialisation fails with this code cannot be told from one that succeeds without an open function.
\<close>

locale device_driver =
  fixes ops :: dev_ops and i :: nat and P :: "kernel \<Rightarrow> bool"
  assumes flags_free: "P s \<Longrightarrow> P (upd_dev i f s)"
    and errno_free: "P s \<Longrightarrow> P (rt_set_errno e s)"
    and init_keeps: "P s \<Longrightarrow> init_op ops i s = Some (r, s') \<Longrightarrow> P s' \<and> devices s' i = devices s i"
    and init_answer: "P s \<Longrightarrow> init_op ops i s = Some (r, s') \<Longrightarrow> r \<noteq> - RT_ENOSYS"
    and open_keeps: "P s \<Longrightarrow> open_op ops i ofl s = Some (r, s') \<Longrightarrow> P s' \<and> devices s' i = devices s i"
    and close_keeps: "P s \<Longrightarrow> close_op ops i s = Some (r, s') \<Longrightarrow> P s' \<and> devices s' i = devices s i"
    and read_keeps: "P s \<Longrightarrow> read_op ops i pos buffer sz s = Some (x, s') \<Longrightarrow> P s' \<and> devices s' i = devices s i"
    and write_keeps: "P s \<Longrightarrow> write_op ops i pos buffer sz s = Some (x, s') \<Longrightarrow> P s' \<and> devices s' i = devices s i"
    and control_keeps: "P s \<Longrightarrow> control_op ops i cmd arg s = Some (r, s') \<Longrightarrow> P s' \<and> devices s' i = devices s i"

text \<open>
  The calls of the framework on one device as steps, each with the change of the number of users it
  reports: one more for an open that succeeds, one less for a close of an open device. A step is a whole
  call (a read or write that suspends its thread, up to there): the framework does not lock its devices,
  and nothing is said of calls that preempt each other on the way (see \<open>open_race\<close> below).
\<close>

inductive dev_step :: "dev_ops \<Rightarrow> nat \<Rightarrow> kernel \<Rightarrow> int \<Rightarrow> kernel \<Rightarrow> bool" for ops i where
  inits: "rt_device_init ops (Some i) s = Some (r, s') \<Longrightarrow> dev_step ops i s 0 s'"
| opens: "rt_device_open ops (Some i) ofl s = Some (r, s') \<Longrightarrow>
    dev_step ops i s (if r = RT_EOK \<or> r = - RT_ENOSYS then 1 else 0) s'"
| closes: "rt_device_close ops (Some i) s = Some (r, s') \<Longrightarrow>
    dev_step ops i s (if ref_count (devices s i) = 0 then 0 else - 1) s'"
| reads: "rt_device_read ops (Some i) pos buffer sz s = Some (x, s') \<Longrightarrow> dev_step ops i s 0 s'"
| writes: "rt_device_write ops (Some i) pos buffer sz s = Some (x, s') \<Longrightarrow> dev_step ops i s 0 s'"
| controls: "rt_device_control ops (Some i) cmd arg s = Some (r, s') \<Longrightarrow> dev_step ops i s 0 s'"
| sets_rx: "rt_device_set_rx_indicate (Some i) f s = Some (r, s') \<Longrightarrow> dev_step ops i s 0 s'"
| sets_tx: "rt_device_set_tx_complete (Some i) f s = Some (r, s') \<Longrightarrow> dev_step ops i s 0 s'"

inductive dev_run :: "dev_ops \<Rightarrow> nat \<Rightarrow> kernel \<Rightarrow> int \<Rightarrow> kernel \<Rightarrow> bool" for ops i where
  start: "dev_run ops i s 0 s"
| step: "dev_run ops i s n s1 \<Longrightarrow> dev_step ops i s1 d s2 \<Longrightarrow> dev_run ops i s (n + d) s2"

text \<open>A device in use is activated and marked open, and a stand-alone device has one user at most.\<close>

definition dev_ok :: "rt_device \<Rightarrow> bool" where
  "dev_ok d \<longleftrightarrow> (ref_count d \<noteq> 0 \<longrightarrow> open_flag d AND RT_DEVICE_OFLAG_OPEN \<noteq> 0 \<and> dflag d AND RT_DEVICE_FLAG_ACTIVATED \<noteq> 0)
     \<and> (dflag d AND RT_DEVICE_FLAG_STANDALONE \<noteq> 0 \<longrightarrow> ref_count d \<le> 1)"


lemma flag_or: "(x OR y) AND y = y" for x y :: u16
  by (rule bit_eqI) (auto simp: bit_simps)

lemma flag_bits:
  "(x OR RT_DEVICE_FLAG_ACTIVATED) AND RT_DEVICE_FLAG_ACTIVATED \<noteq> 0"
  "(x OR RT_DEVICE_OFLAG_OPEN) AND RT_DEVICE_OFLAG_OPEN \<noteq> 0"
  "(x OR RT_DEVICE_FLAG_ACTIVATED) AND RT_DEVICE_FLAG_STANDALONE = x AND RT_DEVICE_FLAG_STANDALONE"
proof -
  show "(x OR RT_DEVICE_FLAG_ACTIVATED) AND RT_DEVICE_FLAG_ACTIVATED \<noteq> 0"
    "(x OR RT_DEVICE_OFLAG_OPEN) AND RT_DEVICE_OFLAG_OPEN \<noteq> 0"
    unfolding flag_or by (simp_all add: device_flags)
  have "RT_DEVICE_FLAG_ACTIVATED AND RT_DEVICE_FLAG_STANDALONE = 0" by (simp add: device_flags)
  then show "(x OR RT_DEVICE_FLAG_ACTIVATED) AND RT_DEVICE_FLAG_STANDALONE = x AND RT_DEVICE_FLAG_STANDALONE"
    by (simp add: bit.conj_disj_distrib2)
qed

lemma flag_nonzero [simp]: "RT_DEVICE_FLAG_ACTIVATED \<noteq> 0" "RT_DEVICE_OFLAG_OPEN \<noteq> 0"
  by (simp_all add: device_flags)

lemma eok_codes: "RT_EOK \<noteq> - RT_ENOSYS" "- RT_EBUSY \<noteq> RT_EOK" "- RT_EBUSY \<noteq> - RT_ENOSYS"
  by (simp_all add: RT_EOK_def RT_ENOSYS_def RT_EBUSY_def)

lemma dev_ok_activated: "dev_ok d \<Longrightarrow> dev_ok (d\<lparr>dflag := dflag d OR RT_DEVICE_FLAG_ACTIVATED\<rparr>)"
  by (simp add: dev_ok_def flag_bits)

text \<open>One more user, and one user less: the assertion of the framework keeps the count from wrapping.\<close>

lemma count_up:
  assumes "x + 1 \<noteq> (0 :: u8)"
  shows "uint (x + 1) = uint x + 1"
proof -
  have "unat (1 + x) = Suc (unat x)" using assms by (intro unatSuc) (simp add: add.commute)
  then have "int (unat (x + 1)) = int (unat x) + 1" by (simp add: add.commute)
  then show ?thesis by simp
qed

lemma count_down: "x \<noteq> 0 \<Longrightarrow> uint (x - 1) = uint x - 1" for x :: u8
  using count_up [of "x - 1"] by simp

context device_driver
begin

lemma activate_keeps: "P s \<Longrightarrow> P (activate i s)"
  by (simp add: activate_def flags_free)

lemma init_ok:
  assumes "P s" "dev_ok (devices s i)" "rt_device_init ops (Some i) s = Some (r, s')"
  shows "P s' \<and> dev_ok (devices s' i) \<and> ref_count (devices s' i) = ref_count (devices s i)"
proof (cases "dinit (devices s i) \<and> dflag (devices s i) AND RT_DEVICE_FLAG_ACTIVATED = 0")
  case True
  then obtain s1 where s1: "init_op ops i s = Some (r, s1)" "s' = (if r \<noteq> RT_EOK then s1 else activate i s1)"
    using assms(3) by (auto simp: rt_device_init_def bind_Some_iff)
  then show ?thesis
    using init_keeps [OF assms(1) s1(1)] assms(2) activate_keeps [of s1] dev_ok_activated [of "devices s i"]
    by (auto simp: activate_def upd_dev_def)
next
  case False
  then have "s' = s" using assms(3) by (simp only: rt_device_init_def) (auto split: if_splits)
  then show ?thesis using assms by simp
qed

lemma open_init_ok:
  assumes "P s" "dev_ok (devices s i)" "open_init ops i s = Some (r, s')"
  shows "P s' \<and> dev_ok (devices s' i) \<and> ref_count (devices s' i) = ref_count (devices s i)
     \<and> (r = RT_EOK \<longrightarrow> dflag (devices s' i) AND RT_DEVICE_FLAG_ACTIVATED \<noteq> 0) \<and> r \<noteq> - RT_ENOSYS"
proof (cases "dflag (devices s i) AND RT_DEVICE_FLAG_ACTIVATED = 0")
  case False
  then show ?thesis using assms eok_codes by (simp add: open_init_def)
next
  case a: True
  show ?thesis
  proof (cases "dinit (devices s i)")
    case False
    then have "s' = activate i s" using a assms(3) by (simp add: open_init_def)
    then show ?thesis
      using a assms(3) False activate_keeps [OF assms(1)] dev_ok_activated [OF assms(2)] eok_codes
      by (auto simp: open_init_def activate_def upd_dev_def)
  next
    case True
    then obtain s1 where s1: "init_op ops i s = Some (r, s1)" "s' = (if r \<noteq> RT_EOK then s1 else activate i s1)"
      using a assms(3) by (auto simp: open_init_def bind_Some_iff)
    note k = init_keeps [OF assms(1) s1(1)] init_answer [OF assms(1) s1(1)]
    show ?thesis
      using k activate_keeps [of s1] dev_ok_activated [OF assms(2)] assms(2)
      by (cases "r = RT_EOK") (simp_all add: s1(2) activate_def upd_dev_def)
  qed
qed

lemma open_count_ok:
  assumes "P s" "open_count i ofl r1 s = Some (r, s')" "dev_ok (devices s i)"
    and "dflag (devices s i) AND RT_DEVICE_FLAG_ACTIVATED \<noteq> 0"
    and "dflag (devices s i) AND RT_DEVICE_FLAG_STANDALONE \<noteq> 0 \<longrightarrow> ref_count (devices s i) = 0"
  shows "P s' \<and> dev_ok (devices s' i)
     \<and> uint (ref_count (devices s' i)) = uint (ref_count (devices s i)) + (if r = RT_EOK \<or> r = - RT_ENOSYS then 1 else 0)"
proof (cases "r1 = RT_EOK \<or> r1 = - RT_ENOSYS")
  case True
  then have r: "r = r1" "ref_count (devices s i) + 1 \<noteq> 0"
    "s' = upd_dev i (\<lambda>d. d\<lparr>open_flag := ofl OR RT_DEVICE_OFLAG_OPEN, ref_count := ref_count d + 1\<rparr>) s"
    using assms(2) by (auto simp: open_count_def Let_def upd_dev_def RT_ASSERT_def split: if_splits)
  have "P s'" unfolding r(3) by (rule flags_free [OF assms(1)])
  then show ?thesis using True r assms(3-5) count_up [OF r(2)] by (auto simp: dev_ok_def upd_dev_def)
next
  case False
  then have "r = r1" "s' = s" using assms(2) by (auto simp: open_count_def)
  then show ?thesis using False assms by simp
qed

lemma open_ok:
  assumes "P s" "dev_ok (devices s i)" "rt_device_open ops (Some i) ofl s = Some (r, s')"
  shows "P s' \<and> dev_ok (devices s' i)
     \<and> uint (ref_count (devices s' i)) = uint (ref_count (devices s i)) + (if r = RT_EOK \<or> r = - RT_ENOSYS then 1 else 0)"
proof -
  obtain r1 s1 where 1: "open_init ops i s = Some (r1, s1)" using assms(3) by (auto simp: rt_device_open_def bind_Some_iff)
  note a = open_init_ok [OF assms(1,2) 1]
  let ?busy = "dflag (devices s1 i) AND RT_DEVICE_FLAG_STANDALONE \<noteq> 0 \<and> open_flag (devices s1 i) AND RT_DEVICE_OFLAG_OPEN \<noteq> 0"
  define X where "X = (if dopen (devices s1 i) then open_op ops i ofl s1 else Some (r1, s1))"
  have run: "(if r1 \<noteq> RT_EOK then Some (r1, s1) else if ?busy then Some (- RT_EBUSY, s1)
     else do { (r2, s2) \<leftarrow> X; open_count i ofl r2 s2 }) = Some (r, s')"
    using assms(3) unfolding rt_device_open_def X_def by (simp only: 1 bind.bind_lunit split)
  show ?thesis
  proof (cases "r1 \<noteq> RT_EOK \<or> ?busy")
    case True
    then have "s' = s1 \<and> \<not> (r = RT_EOK \<or> r = - RT_ENOSYS)" using run a eok_codes by (auto split: if_splits)
    then show ?thesis using a by simp
  next
    case False
    then obtain r2 s2 where X: "X = Some (r2, s2)" "open_count i ofl r2 s2 = Some (r, s')" using run by (auto simp: bind_Some_iff)
    have k: "P s2" "devices s2 i = devices s1 i" using X(1) a open_keeps [of s1 ofl r2 s2] by (auto simp: X_def split: if_splits)
    have "dev_ok (devices s2 i)" "dflag (devices s2 i) AND RT_DEVICE_FLAG_ACTIVATED \<noteq> 0"
      "dflag (devices s2 i) AND RT_DEVICE_FLAG_STANDALONE \<noteq> 0 \<longrightarrow> ref_count (devices s2 i) = 0"
      using a False by (auto simp: k(2) dev_ok_def)
    from open_count_ok [OF k(1) X(2) this] show ?thesis using a by (simp add: k(2))
  qed
qed

lemma close_ok:
  assumes "P s" "dev_ok (devices s i)" "rt_device_close ops (Some i) s = Some (r, s')"
  shows "P s' \<and> dev_ok (devices s' i)
     \<and> uint (ref_count (devices s' i)) = uint (ref_count (devices s i)) + (if ref_count (devices s i) = 0 then 0 else - 1)"
proof (cases "ref_count (devices s i) = 0")
  case True
  then show ?thesis using assms by (simp add: rt_device_close_def)
next
  case n: False
  let ?s1 = "upd_dev i (\<lambda>d. d\<lparr>ref_count := ref_count d - 1\<rparr>) s"
  have 1: "P ?s1" "devices ?s1 i = (devices s i)\<lparr>ref_count := ref_count (devices s i) - 1\<rparr>"
    using flags_free [OF assms(1)] by (simp_all add: upd_dev_def)
  note c = count_down [OF n]
  show ?thesis
  proof (cases "ref_count (devices s i) = 1")
    case False
    then have "ref_count (devices s i) - 1 \<noteq> 0" by simp
    then have "s' = ?s1" using assms(3) n by (simp add: rt_device_close_def Let_def 1(2) split: if_splits)
    moreover have "ref_count (devices s i) - 1 \<le> 1" if "ref_count (devices s i) \<le> 1"
      using that n False by (auto simp: word_le_nat_alt word_unat_eq_iff le_Suc_eq)
    ultimately show ?thesis using 1 n c assms(2) by (simp add: dev_ok_def)
  next
    case True
    then obtain s2 where s2: "(if dclose (devices s i) then close_op ops i ?s1 else Some (RT_EOK, ?s1)) = Some (r, s2)"
      "s' = (if r = RT_EOK \<or> r = - RT_ENOSYS then upd_dev i (\<lambda>d. d\<lparr>open_flag := RT_DEVICE_OFLAG_CLOSE\<rparr>) s2 else s2)"
      using assms(3) n by (auto simp: rt_device_close_def Let_def 1(2) bind_Some_iff)
    have k: "P s2 \<and> devices s2 i = devices ?s1 i" using s2(1) 1 close_keeps [of ?s1 r s2] by (auto split: if_splits)
    then have "P s'" using flags_free [of s2] by (simp add: s2(2))
    then show ?thesis using k s2(2) 1(2) c True by (auto simp: dev_ok_def upd_dev_def)
  qed
qed

lemma errno_devices: "devices (rt_set_errno e s) = devices s"
  by (simp add: rt_set_errno_def upd_thread_def split: option.split)

lemma step_ok:
  assumes "dev_step ops i s d s'" "P s" "dev_ok (devices s i)"
  shows "P s' \<and> dev_ok (devices s' i) \<and> uint (ref_count (devices s' i)) = uint (ref_count (devices s i)) + d"
  using assms(1)
proof (cases rule: dev_step.cases)
  case (inits r)
  then show ?thesis using init_ok [OF assms(2,3)] by simp
next
  case (opens ofl r)
  show ?thesis unfolding opens(1) by (rule open_ok [OF assms(2,3) opens(2)])
next
  case (closes r)
  show ?thesis unfolding closes(1) by (rule close_ok [OF assms(2,3) closes(2)])
next
  case (reads pos buffer sz x)
  then show ?thesis
    using assms(2,3) read_keeps [OF assms(2)] errno_free [OF assms(2)] errno_devices
    by (auto simp: rt_device_read_def split: if_splits)
next
  case (writes pos buffer sz x)
  then show ?thesis
    using assms(2,3) write_keeps [OF assms(2)] errno_free [OF assms(2)] errno_devices
    by (auto simp: rt_device_write_def split: if_splits)
next
  case (controls cmd arg r)
  then show ?thesis using assms(2,3) control_keeps [OF assms(2)] by (auto simp: rt_device_control_def split: if_splits)
next
  case (sets_rx f r)
  then show ?thesis using assms(2,3) flags_free [OF assms(2)] by (auto simp: rt_device_set_rx_indicate_def upd_dev_def dev_ok_def)
next
  case (sets_tx f r)
  then show ?thesis using assms(2,3) flags_free [OF assms(2)] by (auto simp: rt_device_set_tx_complete_def upd_dev_def dev_ok_def)
qed

lemma run_ok:
  assumes "dev_run ops i s n s'" "P s" "dev_ok (devices s i)"
  shows "P s' \<and> dev_ok (devices s' i) \<and> uint (ref_count (devices s' i)) = uint (ref_count (devices s i)) + n"
  using assms
proof induction
  case (start s)
  then show ?case by simp
next
  case (step s n s1 d s2)
  then show ?case using step_ok [OF step.hyps(2)] by simp
qed

end

text \<open>
  The test for a stand-alone device that is open, and the rest of \<open>rt_device_open\<close>. No lock is held from
  the one to the other: a thread that was preempted behind the test goes on although the device was
  opened in between, and the stand-alone device has two users.
\<close>

definition open_test :: "dev_ops \<Rightarrow> nat \<Rightarrow> kernel \<Rightarrow> (rt_err_t \<times> kernel) option" where
  "open_test ops i s = do {
     (result, s1) \<leftarrow> open_init ops i s;
     if result \<noteq> RT_EOK then Some (result, s1)
     else if dflag (devices s1 i) AND RT_DEVICE_FLAG_STANDALONE \<noteq> 0 \<and> open_flag (devices s1 i) AND RT_DEVICE_OFLAG_OPEN \<noteq> 0
     then Some (- RT_EBUSY, s1)
     else Some (RT_EOK, s1) }"

definition open_rest :: "dev_ops \<Rightarrow> nat \<Rightarrow> u16 \<Rightarrow> kernel \<Rightarrow> (rt_err_t \<times> kernel) option" where
  "open_rest ops i ofl s = do {
     (result, s1) \<leftarrow> (if dopen (devices s i) then open_op ops i ofl s else Some (RT_EOK, s));
     open_count i ofl result s1 }"

lemma open_sections:
  "rt_device_open ops (Some i) ofl s = do {
     (result, s1) \<leftarrow> open_test ops i s;
     if result \<noteq> RT_EOK then Some (result, s1) else open_rest ops i ofl s1 }"
  using eok_codes(2) by (cases "open_init ops i s") (auto simp: rt_device_open_def open_test_def open_rest_def cong: if_cong)

lemma open_race:
  assumes "dflag (devices s i) AND RT_DEVICE_FLAG_STANDALONE \<noteq> 0" "dflag (devices s i) AND RT_DEVICE_FLAG_ACTIVATED \<noteq> 0"
    and "open_flag (devices s i) AND RT_DEVICE_OFLAG_OPEN = 0" "ref_count (devices s i) = 0" "\<not> dopen (devices s i)"
  shows "\<exists>s1 s2. open_test ops i s = Some (RT_EOK, s) \<and> rt_device_open ops (Some i) ofl s = Some (RT_EOK, s1)
     \<and> open_rest ops i ofl' s1 = Some (RT_EOK, s2) \<and> ref_count (devices s2 i) = 2 \<and> \<not> dev_ok (devices s2 i)"
proof -
  have t: "open_test ops i s = Some (RT_EOK, s)" using assms by (simp add: open_test_def open_init_def)
  let ?s1 = "upd_dev i (\<lambda>d. d\<lparr>open_flag := ofl OR RT_DEVICE_OFLAG_OPEN, ref_count := 1\<rparr>) s"
  let ?s2 = "upd_dev i (\<lambda>d. d\<lparr>open_flag := ofl' OR RT_DEVICE_OFLAG_OPEN, ref_count := 2\<rparr>) ?s1"
  have "rt_device_open ops (Some i) ofl s = Some (RT_EOK, ?s1)"
    using assms(4,5) unfolding open_sections t by (simp add: open_rest_def open_count_def upd_dev_def)
  moreover have "open_rest ops i ofl' ?s1 = Some (RT_EOK, ?s2)"
    using assms(5) by (simp add: open_rest_def open_count_def upd_dev_def)
  moreover have "ref_count (devices ?s2 i) = 2" "dflag (devices ?s2 i) = dflag (devices s i)" by (simp_all add: upd_dev_def)
  moreover have "\<not> (2 :: u8) \<le> 1" by (simp add: word_le_nat_alt)
  ultimately show ?thesis using t assms(1) by (intro exI [of _ ?s1] exI [of _ ?s2]) (simp add: dev_ok_def)
qed

section \<open>Registering and initialising\<close>

lemma rt_device_register_new:
  assumes K: "obj_inv s C" and rd: "readable RT_NAME_MAX name" and c: "rt_current_thread s = None"
    and n: "\<forall>c. ODevice i \<notin> set (C c)" and f: "find (named (objs s) name) (C RT_Object_Class_Device) = None"
  shows "\<exists>s'. rt_device_register (Some i) name flags s = Some (RT_EOK, s')
     \<and> obj_inv s' (C(RT_Object_Class_Device := ODevice i # C RT_Object_Class_Device))
     \<and> rt_device_find name s' = Some (Some (ODevice i), s')
     \<and> dflag (devices s' i) = flags \<and> ref_count (devices s' i) = 0"
proof -
  have d: "rt_device_find name s = Some (None, s)"
    using find_by_name_before_start [OF K rd c] f by (simp add: rt_device_find_def)
  from rt_object_init_spec [OF K n rd, of RT_Object_Class_Device] obtain s1 where
    s1: "rt_object_init (ODevice i) RT_Object_Class_Device name s = Some s1"
    "obj_inv s1 (C(RT_Object_Class_Device := ODevice i # C RT_Object_Class_Device))" "named (objs s1) name (ODevice i)" by blast
  let ?s' = "upd_dev i (\<lambda>d. d\<lparr>dflag := flags, ref_count := 0\<rparr>) s1"
  have "rt_device_register (Some i) name flags s = Some (RT_EOK, ?s')"
    using d s1(1) by (simp add: rt_device_register_def)
  moreover have O: "obj_inv ?s' (C(RT_Object_Class_Device := ODevice i # C RT_Object_Class_Device))" "rt_current_thread ?s' = None"
    using s1(1,2) c by (auto simp: obj_inv_def upd_defs rt_object_init_def bind_Some_iff Let_def)
  moreover have "rt_device_find name ?s' = Some (Some (ODevice i), ?s')"
    using find_by_name_before_start [OF O(1) rd O(2), of RT_Object_Class_Device] s1(3)
    by (simp add: rt_device_find_def upd_dev_def)
  ultimately show ?thesis by (intro exI [of _ ?s']) (simp add: upd_dev_def)
qed

lemma rt_device_register_taken:
  assumes "obj_inv s C" "readable RT_NAME_MAX name" "rt_current_thread s = None"
    and "find (named (objs s) name) (C RT_Object_Class_Device) \<noteq> None"
  shows "rt_device_register (Some i) name flags s = Some (- RT_ERROR, s)" "rt_device_register None name flags s = Some (- RT_ERROR, s)"
  using find_by_name_before_start [OF assms(1-3), of RT_Object_Class_Device] assms(4)
  by (simp_all add: rt_device_register_def rt_device_find_def)

text \<open>Drivers whose init function succeeds and leaves the devices and the object lists alone are all started.\<close>

definition starts :: "dev_ops \<Rightarrow> bool" where
  "starts ops \<longleftrightarrow> (\<forall>i s. \<exists>s'. init_op ops i s = Some (RT_EOK, s') \<and> devices s' = devices s \<and> olinks s' = olinks s)"

definition started :: "nat set \<Rightarrow> (nat \<Rightarrow> rt_device) \<Rightarrow> nat \<Rightarrow> rt_device" where
  "started I d i = (if i \<in> I \<and> dinit (d i) \<and> dflag (d i) AND RT_DEVICE_FLAG_ACTIVATED = 0
     then (d i)\<lparr>dflag := dflag (d i) OR RT_DEVICE_FLAG_ACTIVATED\<rparr> else d i)"

lemma init_all_loop_spec:
  assumes "lists_rep (olinks s) C" "starts ops" "C RT_Object_Class_Device = us @ map ODevice is" "distinct is"
    and "node = (if is = [] then LHead RT_Object_Class_Device else LElem (ODevice (hd is)))"
  shows "\<exists>s'. init_all_loop ops node s = Some s' \<and> devices s' = started (set is) (devices s) \<and> olinks s' = olinks s"
  using assms
proof (induction "is" arbitrary: us node s)
  case Nil
  then show ?case by (simp add: init_all_loop.simps started_def fun_eq_iff)
next
  case (Cons i js)
  let ?go = "dinit (devices s i) \<and> dflag (devices s i) AND RT_DEVICE_FLAG_ACTIVATED = 0"
  obtain s1 where s1: "init_op ops i s = Some (RT_EOK, s1)" "devices s1 = devices s" "olinks s1 = olinks s"
    using Cons.prems(2) by (auto simp: starts_def)
  define s2 where "s2 = (if ?go then activate i s1 else s)"
  have s2: "olinks s2 = olinks s" "devices s2 = started {i} (devices s)"
    using s1(2,3) by (auto simp: s2_def activate_def upd_dev_def started_def fun_eq_iff)
  have nx: "lnext (olinks s2) node = (if js = [] then LHead RT_Object_Class_Device else LElem (ODevice (hd js)))"
    using lists_rep_next_elem [OF Cons.prems(1), of RT_Object_Class_Device us "ODevice i" "map ODevice js"] Cons.prems(3,5) s2(1)
    by (simp add: hd_map)
  have "lists_rep (olinks s2) C" using Cons.prems(1) s2(1) by simp
  from Cons.IH [OF this Cons.prems(2), of "us @ [ODevice i]"] nx Cons.prems(3,4) obtain s' where
    s': "init_all_loop ops (lnext (olinks s2) node) s2 = Some s'" "devices s' = started (set js) (devices s2)" "olinks s' = olinks s2" by auto
  have "init_all_loop ops node s = init_all_loop ops (lnext (olinks s2) node) s2"
    using Cons.prems(5) s1(1) by (subst init_all_loop.simps) (simp add: s2_def)
  moreover have "started (set js) (devices s2) = started (set (i # js)) (devices s)"
    using Cons.prems(4) by (auto simp: s2(2) started_def fun_eq_iff)
  ultimately show ?case using s' s2(1) by simp
qed

lemma rt_device_init_all_spec:
  assumes "lists_rep (olinks s) C" "starts ops" "C RT_Object_Class_Device = map ODevice is" "distinct is"
  shows "\<exists>s'. rt_device_init_all ops s = Some (RT_EOK, s') \<and> devices s' = started (set is) (devices s)"
proof -
  have "lnext (olinks s) (LHead RT_Object_Class_Device) = (if is = [] then LHead RT_Object_Class_Device else LElem (ODevice (hd is)))"
    using lists_repD(2) [OF assms(1), of RT_Object_Class_Device] assms(3) by (cases "is") auto
  from init_all_loop_spec [OF assms(1,2) _ assms(4) this, of "[]"] show ?thesis
    using assms(3) by (auto simp: rt_device_init_all_def)
qed

end
