(* ===== verification/RT_Pipe.thy ===== *)
theory RT_Pipe
  imports RT_Device RT_Sem RT_DataQueue
begin

text \<open>
  The two devices without hardware: the pipe of \<open>components/drivers/src/pipe.c\<close>, a ring buffer with
  waiting readers and writers, and the portal of \<open>components/drivers/src/portal.c\<close>, which joins two pipes
  to a device that is read from one and written to the other. Their functions are drivers in the
  sense of \<open>dev_ops\<close>.

  A device, its pipe and its portal have the same number, since the structures begin with the device.
  A read or write that waits stops at its call of \<open>rt_schedule\<close>; what it does when its thread runs again is
  the next round of its loop. The call-backs of users are parameters.
\<close>

section \<open>Call-backs\<close>

definition RT_PIPE_FLAG_BLOCK_RD :: u8 where "RT_PIPE_FLAG_BLOCK_RD = 0x01"
definition RT_PIPE_FLAG_BLOCK_WR :: u8 where "RT_PIPE_FLAG_BLOCK_WR = 0x02"
definition RT_PIPE_FLAG_FORCE_WR :: u8 where "RT_PIPE_FLAG_FORCE_WR = 0x04"
definition PIPE_CTRL_GET_SPACE :: u8 where "PIPE_CTRL_GET_SPACE = 0x14"

type_synonym rx_user = "nat \<Rightarrow> nat \<Rightarrow> u32 \<Rightarrow> kernel \<Rightarrow> (rt_err_t \<times> kernel) option"
type_synonym tx_user = "nat \<Rightarrow> nat \<Rightarrow> nat \<Rightarrow> kernel \<Rightarrow> (rt_err_t \<times> kernel) option"

text \<open>The call-back of a portal calls the call-back of the portal at the other end, if it has one.\<close>

partial_function (option) portal_rx_indicate :: "rx_user \<Rightarrow> dev_callback \<Rightarrow> nat \<Rightarrow> u32 \<Rightarrow> kernel \<Rightarrow> (rt_err_t \<times> kernel) option" where
  "portal_rx_indicate cb c i sz s = (case c of
     User_callback n \<Rightarrow> cb n i sz s
   | Portal_callback \<Rightarrow> do {
       RT_ASSERT (dtype (devices s i) = RT_Device_Class_Pipe);
       p \<leftarrow> read_portal (pipes s i);
       case rx_indicate (devices s p) of
         Some c' \<Rightarrow> portal_rx_indicate cb c' p sz s
       | None \<Rightarrow> Some (- RT_ENOSYS, s) })"

partial_function (option) portal_tx_complete :: "tx_user \<Rightarrow> dev_callback \<Rightarrow> nat \<Rightarrow> nat \<Rightarrow> kernel \<Rightarrow> (rt_err_t \<times> kernel) option" where
  "portal_tx_complete cb c i buf s = (case c of
     User_callback n \<Rightarrow> cb n i buf s
   | Portal_callback \<Rightarrow> do {
       RT_ASSERT (dtype (devices s i) = RT_Device_Class_Pipe);
       p \<leftarrow> write_portal (pipes s i);
       case tx_complete (devices s p) of
         Some c' \<Rightarrow> portal_tx_complete cb c' p buf s
       | None \<Rightarrow> Some (- RT_ENOSYS, s) })"

section \<open>Pipes\<close>

definition rt_pipe_resume_writer :: "nat \<Rightarrow> kernel \<Rightarrow> kernel option" where
  "rt_pipe_resume_writer i s =
    (if \<not> rt_list_isempty (LHead (HPipeWrite i)) (tlinks s)
     then do {
       RT_ASSERT (pflag (pipes s i) AND RT_PIPE_FLAG_BLOCK_WR \<noteq> 0);
       t \<leftarrow> rt_list_entry (lnext (tlinks s) (LHead (HPipeWrite i)));
       (_, s1) \<leftarrow> rt_thread_resume t s;
       rt_schedule s1 }
     else Some s)"

text \<open>The ring buffer functions take a 16-bit length.\<close>

definition pipe_get :: "nat \<Rightarrow> nat \<Rightarrow> u32 \<Rightarrow> kernel \<Rightarrow> u16 \<times> kernel" where
  "pipe_get i buffer sz s =
    (let (n, rb, m) = rt_ringbuffer_get (ringbuffer (pipes s i)) (ram s) buffer (ucast sz)
     in (n, upd_pipe i (\<lambda>p. p\<lparr>ringbuffer := rb\<rparr>) (s\<lparr>ram := m\<rparr>)))"

definition pipe_put :: "nat \<Rightarrow> nat \<Rightarrow> u32 \<Rightarrow> kernel \<Rightarrow> u16 \<times> kernel" where
  "pipe_put i buffer sz s =
    (let (n, rb, m) = rt_ringbuffer_put (ringbuffer (pipes s i)) (ram s) buffer (ucast sz)
     in (n, upd_pipe i (\<lambda>p. p\<lparr>ringbuffer := rb\<rparr>) (s\<lparr>ram := m\<rparr>)))"

definition pipe_put_force :: "nat \<Rightarrow> nat \<Rightarrow> u32 \<Rightarrow> kernel \<Rightarrow> u16 \<times> kernel" where
  "pipe_put_force i buffer sz s =
    (let (n, rb, m) = rt_ringbuffer_put_force (ringbuffer (pipes s i)) (ram s) buffer (ucast sz)
     in (n, upd_pipe i (\<lambda>p. p\<lparr>ringbuffer := rb\<rparr>) (s\<lparr>ram := m\<rparr>)))"

text \<open>One round of the loop of a waiting read.\<close>

definition pipe_read_step :: "nat \<Rightarrow> nat option \<Rightarrow> nat \<Rightarrow> u32 \<Rightarrow> kernel \<Rightarrow> ((nat, u32) outcome \<times> kernel) option" where
  "pipe_read_step i thread buffer sz s = do {
     let (n, s1) = pipe_get i buffer sz s;
     if n = 0
     then do {
       t \<leftarrow> thread;
       s2 \<leftarrow> suspend_back (HPipeRead i) t s1;
       s3 \<leftarrow> rt_schedule s2;
       Some (Block t, s3) }
     else do {
       s2 \<leftarrow> rt_pipe_resume_writer i s1;
       Some (Ret (ucast n), s2) } }"

definition rt_pipe_read :: "nat \<Rightarrow> int \<Rightarrow> nat \<Rightarrow> u32 \<Rightarrow> kernel \<Rightarrow> ((nat, u32) outcome \<times> kernel) option" where
  "rt_pipe_read i pos buffer sz s =
    (if pflag (pipes s i) AND RT_PIPE_FLAG_BLOCK_RD = 0
     then do {
       let (n, s1) = pipe_get i buffer sz s;
       s2 \<leftarrow> (if n \<noteq> 0 then rt_pipe_resume_writer i s1 else Some s1);
       Some (Ret (ucast n), s2) }
     else do {
       RT_DEBUG_NOT_IN_INTERRUPT s;
       pipe_read_step i (rt_thread_self s) buffer sz s })"

definition rt_pipe_read_resumed :: "nat \<Rightarrow> nat \<Rightarrow> nat \<Rightarrow> u32 \<Rightarrow> kernel \<Rightarrow> ((nat, u32) outcome \<times> kernel) option" where
  "rt_pipe_read_resumed i t buffer sz s = pipe_read_step i (Some t) buffer sz s"

definition pipe_rx_tell :: "rx_user \<Rightarrow> nat \<Rightarrow> kernel \<Rightarrow> kernel option" where
  "pipe_rx_tell cb i s = (case rx_indicate (devices s i) of
     None \<Rightarrow> Some s
   | Some c \<Rightarrow> map_option snd (portal_rx_indicate cb c i (ucast (rt_ringbuffer_data_len (ringbuffer (pipes s i)))) s))"

definition pipe_wake_reader :: "nat \<Rightarrow> kernel \<Rightarrow> kernel option" where
  "pipe_wake_reader i s =
    (if \<not> rt_list_isempty (LHead (HPipeRead i)) (tlinks s)
     then do {
       RT_ASSERT (pflag (pipes s i) AND RT_PIPE_FLAG_BLOCK_RD \<noteq> 0);
       t \<leftarrow> rt_list_entry (lnext (tlinks s) (LHead (HPipeRead i)));
       (_, s1) \<leftarrow> rt_thread_resume t s;
       rt_schedule s1 }
     else Some s)"

definition rt_pipe_resume_reader :: "rx_user \<Rightarrow> nat \<Rightarrow> kernel \<Rightarrow> kernel option" where
  "rt_pipe_resume_reader cb i s = do {
     s1 \<leftarrow> pipe_rx_tell cb i s;
     pipe_wake_reader i s1 }"

definition pipe_write_step :: "rx_user \<Rightarrow> nat \<Rightarrow> nat option \<Rightarrow> nat \<Rightarrow> u32 \<Rightarrow> kernel \<Rightarrow> ((nat, u32) outcome \<times> kernel) option" where
  "pipe_write_step cb i thread buffer sz s = do {
     let (n, s1) = pipe_put i buffer sz s;
     if n = 0
     then do {
       t \<leftarrow> thread;
       s2 \<leftarrow> suspend_back (HPipeWrite i) t s1;
       s3 \<leftarrow> rt_schedule s2;
       Some (Block t, s3) }
     else do {
       s2 \<leftarrow> rt_pipe_resume_reader cb i s1;
       Some (Ret (ucast n), s2) } }"

definition rt_pipe_write :: "rx_user \<Rightarrow> nat \<Rightarrow> int \<Rightarrow> nat \<Rightarrow> u32 \<Rightarrow> kernel \<Rightarrow> ((nat, u32) outcome \<times> kernel) option" where
  "rt_pipe_write cb i pos buffer sz s =
    (if pflag (pipes s i) AND RT_PIPE_FLAG_FORCE_WR \<noteq> 0 \<or> pflag (pipes s i) AND RT_PIPE_FLAG_BLOCK_WR = 0
     then do {
       let (n, s1) = (if pflag (pipes s i) AND RT_PIPE_FLAG_FORCE_WR \<noteq> 0 then pipe_put_force i buffer sz s
                      else pipe_put i buffer sz s);
       s2 \<leftarrow> rt_pipe_resume_reader cb i s1;
       Some (Ret (ucast n), s2) }
     else do {
       RT_DEBUG_NOT_IN_INTERRUPT s;
       pipe_write_step cb i (rt_thread_self s) buffer sz s })"

definition rt_pipe_write_resumed :: "rx_user \<Rightarrow> nat \<Rightarrow> nat \<Rightarrow> nat \<Rightarrow> u32 \<Rightarrow> kernel \<Rightarrow> ((nat, u32) outcome \<times> kernel) option" where
  "rt_pipe_write_resumed cb i t buffer sz s = pipe_write_step cb i (Some t) buffer sz s"

definition rt_pipe_control :: "nat \<Rightarrow> u8 \<Rightarrow> nat option \<Rightarrow> kernel \<Rightarrow> (rt_err_t \<times> kernel) option" where
  "rt_pipe_control i cmd args s =
    (case args of
       Some a \<Rightarrow> (if cmd = PIPE_CTRL_GET_SPACE
                  then Some (RT_EOK, s\<lparr>ram := store32 (ram s) a (of_int (rt_ringbuffer_space_len (ringbuffer (pipes s i))))\<rparr>)
                  else Some (RT_EOK, s))
     | None \<Rightarrow> Some (RT_EOK, s))"

text \<open>The functions of a pipe as a driver; the pointers to init, open and close are null.\<close>

definition pipe_ops :: "rx_user \<Rightarrow> dev_ops" where
  "pipe_ops cb = \<lparr>init_op = \<lambda>_ _. None, open_op = \<lambda>_ _ _. None, close_op = \<lambda>_ _. None, read_op = rt_pipe_read,
     write_op = rt_pipe_write cb, control_op = rt_pipe_control\<rparr>"

definition rt_pipe_init :: "nat \<Rightarrow> u8 list \<Rightarrow> u8 \<Rightarrow> nat \<Rightarrow> u32 \<Rightarrow> kernel \<Rightarrow> (rt_err_t \<times> kernel) option" where
  "rt_pipe_init i name flag buf sz s = do {
     RT_ASSERT (buf \<noteq> 0);
     let s1 = upd_tl (rt_list_init (LHead (HPipeRead i))) s;
     let s2 = upd_tl (rt_list_init (LHead (HPipeWrite i))) s1;
     rb \<leftarrow> rt_ringbuffer_init buf (sint (ucast sz :: u16));
     let s3 = upd_pipe i (\<lambda>p. p\<lparr>ringbuffer := rb, pflag := flag\<rparr>) s2;
     let s4 = upd_dev i (\<lambda>d. d\<lparr>dtype := RT_Device_Class_Pipe, dinit := False, dopen := False, dclose := False,
                dread := True, dwrite := True, dcontrol := True\<rparr>) s3;
     rt_device_register (Some i) name RT_DEVICE_FLAG_RDWR s4 }"

definition rt_pipe_detach :: "nat \<Rightarrow> kernel \<Rightarrow> (rt_err_t \<times> kernel) option" where
  "rt_pipe_detach i s = rt_device_unregister (Some i) s"

text \<open>What \<open>rt_calloc\<close> leaves in a structure. The size of the structure is the compiler's.\<close>

definition zero_device :: rt_device where
  "zero_device = \<lparr>dtype = RT_Device_Class_Char, dflag = 0, open_flag = 0, ref_count = 0, rx_indicate = None, tx_complete = None,
     dinit = False, dopen = False, dclose = False, dread = False, dwrite = False, dcontrol = False\<rparr>"

definition zero_pipe :: rt_pipe_device where
  "zero_pipe = \<lparr>ringbuffer = \<lparr>buffer_ptr = 0, read_mirror = False, read_index = 0, write_mirror = False, write_index = 0,
     buffer_size = 0\<rparr>, pflag = 0, write_portal = None, read_portal = None\<rparr>"

definition kernel_calloc :: "nat \<Rightarrow> kernel \<Rightarrow> (nat option \<times> kernel) option" where
  "kernel_calloc n s = do {
     RT_DEBUG_NOT_IN_INTERRUPT s;
     (p, h, m) \<leftarrow> rt_calloc 1 n (kheap s, ram s);
     Some (p, s\<lparr>kheap := h, ram := m\<rparr>) }"

definition rt_pipe_create :: "nat \<Rightarrow> u8 list \<Rightarrow> u8 \<Rightarrow> u32 \<Rightarrow> kernel \<Rightarrow> (rt_err_t \<times> kernel) option" where
  "rt_pipe_create sizeof name flag sz s = do {
     let sz1 = RT_ALIGN sz RT_ALIGN_SIZE;
     (p, s1) \<leftarrow> kernel_calloc sizeof s;
     case p of None \<Rightarrow> Some (- RT_ENOMEM, s1)
     | Some i \<Rightarrow> do {
         let s2 = upd_pipe i (\<lambda>_. zero_pipe) (upd_dev i (\<lambda>_. zero_device) s1);
         (q, s3) \<leftarrow> RT_KERNEL_MALLOC (unat sz1) s2;
         case q of None \<Rightarrow> do { s4 \<leftarrow> RT_KERNEL_FREE i s3; Some (- RT_ENOMEM, s4) }
         | Some buf \<Rightarrow> rt_pipe_init i name flag buf sz1 s3 } }"

definition rt_pipe_destroy :: "nat option \<Rightarrow> kernel \<Rightarrow> kernel option" where
  "rt_pipe_destroy pipe s = (case pipe of None \<Rightarrow> Some s
   | Some i \<Rightarrow> do {
       (_, s1) \<leftarrow> rt_pipe_detach i s;
       s2 \<leftarrow> RT_KERNEL_FREE (buffer_ptr (ringbuffer (pipes s1 i))) s1;
       RT_KERNEL_FREE i s2 })"

text \<open>The shell's call-back (\<open>components/finsh/shell.c\<close>): it releases the semaphore the shell waits for.\<close>

definition finsh_rx_ind :: rx_user where
  "finsh_rx_ind rx_sem i sz s = do {
     (_, s1) \<leftarrow> rt_sem_release rx_sem s;
     Some (RT_EOK, s1) }"

section \<open>Portals\<close>

definition portal_init :: "dev_ops \<Rightarrow> nat \<Rightarrow> kernel \<Rightarrow> (rt_err_t \<times> kernel) option" where
  "portal_init inner i s = do {
     (err, s1) \<leftarrow> rt_device_init inner (Some (write_dev (portals s i))) s;
     if err \<noteq> RT_EOK then Some (err, s1)
     else rt_device_init inner (Some (read_dev (portals s1 i))) s1 }"

definition portal_open :: "dev_ops \<Rightarrow> nat \<Rightarrow> u16 \<Rightarrow> kernel \<Rightarrow> (rt_err_t \<times> kernel) option" where
  "portal_open inner i ofl s =
    (if ofl = 0 then Some (- RT_ERROR, s)
     else do {
       (err, s1) \<leftarrow> (if ofl AND RT_DEVICE_OFLAG_RDONLY \<noteq> 0
                    then rt_device_open inner (Some (read_dev (portals s i))) RT_DEVICE_OFLAG_RDONLY s else Some (RT_EOK, s));
       if err \<noteq> RT_EOK then Some (err, s1)
       else do {
         (err, s2) \<leftarrow> (if ofl AND RT_DEVICE_OFLAG_WRONLY \<noteq> 0
                      then rt_device_open inner (Some (write_dev (portals s1 i))) RT_DEVICE_OFLAG_WRONLY s1 else Some (RT_EOK, s1));
         if err \<noteq> RT_EOK then Some (err, s2) else Some (RT_EOK, s2) } })"

definition portal_close :: "dev_ops \<Rightarrow> nat \<Rightarrow> kernel \<Rightarrow> (rt_err_t \<times> kernel) option" where
  "portal_close inner i s = do {
     (_, s1) \<leftarrow> rt_device_close inner (Some (write_dev (portals s i))) s;
     (_, s2) \<leftarrow> rt_device_close inner (Some (read_dev (portals s1 i))) s1;
     Some (RT_EOK, s2) }"

definition portal_read :: "dev_ops \<Rightarrow> nat \<Rightarrow> int \<Rightarrow> nat \<Rightarrow> u32 \<Rightarrow> kernel \<Rightarrow> ((nat, u32) outcome \<times> kernel) option" where
  "portal_read inner i pos buffer sz s = rt_device_read inner (Some (read_dev (portals s i))) pos buffer sz s"

definition portal_write :: "dev_ops \<Rightarrow> nat \<Rightarrow> int \<Rightarrow> nat \<Rightarrow> u32 \<Rightarrow> kernel \<Rightarrow> ((nat, u32) outcome \<times> kernel) option" where
  "portal_write inner i pos buffer sz s = rt_device_write inner (Some (write_dev (portals s i))) pos buffer sz s"

text \<open>The functions of a portal as a driver, over the drivers of the devices it joins.\<close>

definition portal_ops :: "dev_ops \<Rightarrow> dev_ops" where
  "portal_ops inner = \<lparr>init_op = portal_init inner, open_op = portal_open inner, close_op = portal_close inner,
     read_op = portal_read inner, write_op = portal_write inner, control_op = \<lambda>_ _ _ _. None\<rparr>"

definition device_at :: "obj \<Rightarrow> nat option" where
  "device_at ob = (case ob of ODevice i \<Rightarrow> Some i | _ \<Rightarrow> None)"

definition rt_portal_init :: "nat \<Rightarrow> u8 list \<Rightarrow> u8 list \<Rightarrow> u8 list \<Rightarrow> kernel \<Rightarrow> (rt_err_t \<times> kernel) option" where
  "rt_portal_init i portal_name write_name read_name s = do {
     let s1 = upd_dev i (\<lambda>d. d\<lparr>dtype := RT_Device_Class_Portal, dinit := True, dopen := True, dclose := True,
                dread := True, dwrite := True, dcontrol := False\<rparr>) s;
     (dev, s2) \<leftarrow> rt_device_find write_name s1;
     case dev of None \<Rightarrow> Some (- RT_ENOSYS, s2)
     | Some ob \<Rightarrow> do {
         w \<leftarrow> device_at ob;
         RT_ASSERT (dtype (devices s2 w) = RT_Device_Class_Pipe);
         let s3 = upd_portal i (\<lambda>p. p\<lparr>write_dev := w\<rparr>) s2;
         (_, s4) \<leftarrow> rt_device_set_tx_complete (Some i) (tx_complete (devices s3 w)) s3;
         (_, s5) \<leftarrow> rt_device_set_tx_complete (Some w) (Some Portal_callback) s4;
         let s6 = upd_pipe w (\<lambda>p. p\<lparr>write_portal := Some i\<rparr>) s5;
         (dev, s7) \<leftarrow> rt_device_find read_name s6;
         case dev of
           None \<Rightarrow> do {
             (_, s8) \<leftarrow> rt_device_set_tx_complete None (tx_complete (devices s7 i)) s7;
             Some (- RT_ENOSYS, s8) }
         | Some ob \<Rightarrow> do {
             r \<leftarrow> device_at ob;
             RT_ASSERT (dtype (devices s7 r) = RT_Device_Class_Pipe);
             let s8 = upd_portal i (\<lambda>p. p\<lparr>read_dev := r\<rparr>) s7;
             (_, s9) \<leftarrow> rt_device_set_rx_indicate (Some i) (rx_indicate (devices s8 r)) s8;
             (_, s10) \<leftarrow> rt_device_set_rx_indicate (Some r) (Some Portal_callback) s9;
             let s11 = upd_pipe r (\<lambda>p. p\<lparr>read_portal := Some i\<rparr>) s10;
             rt_device_register (Some i) portal_name RT_DEVICE_FLAG_RDWR s11 } } }"

definition rt_portal_detach :: "nat \<Rightarrow> kernel \<Rightarrow> (rt_err_t \<times> kernel) option" where
  "rt_portal_detach i s = rt_device_unregister (Some i) s"

definition rt_portal_create :: "nat \<Rightarrow> u8 list \<Rightarrow> u8 list \<Rightarrow> u8 list \<Rightarrow> kernel \<Rightarrow> (rt_err_t \<times> kernel) option" where
  "rt_portal_create sizeof name write_name read_name s = do {
     (p, s1) \<leftarrow> kernel_calloc sizeof s;
     case p of None \<Rightarrow> Some (- RT_ENOMEM, s1)
     | Some i \<Rightarrow> rt_portal_init i name write_name read_name
         (upd_portal i (\<lambda>_. \<lparr>write_dev = 0, read_dev = 0\<rparr>) (upd_dev i (\<lambda>_. zero_device) s1)) }"

definition rt_portal_destroy :: "nat option \<Rightarrow> kernel \<Rightarrow> kernel option" where
  "rt_portal_destroy portal s = (case portal of None \<Rightarrow> Some s
   | Some i \<Rightarrow> do {
       (_, s1) \<leftarrow> rt_portal_detach i s;
       RT_KERNEL_FREE i s1 })"

section \<open>Pipes and portals are drivers\<close>

text \<open>What the functions of a pipe leave alone, whatever the state.\<close>

definition dev_frame :: "kernel \<Rightarrow> kernel \<Rightarrow> bool" where
  "dev_frame s s' \<longleftrightarrow> devices s' = devices s \<and> portals s' = portals s"

lemma dev_frame_refl [simp]: "dev_frame s s"
  by (simp add: dev_frame_def)

lemma dev_frame_trans: "dev_frame s s' \<Longrightarrow> dev_frame s' s'' \<Longrightarrow> dev_frame s s''"
  by (simp add: dev_frame_def)

lemma dev_frame_upd [simp]:
  "dev_frame s (upd_pipe i f s') = dev_frame s s'" "dev_frame s (s'\<lparr>ram := m\<rparr>) = dev_frame s s'"
  "dev_frame s (upd_tl g s') = dev_frame s s'" "dev_frame s (upd_thread t h s') = dev_frame s s'"
  "dev_frame s (s'\<lparr>rt_thread_ready_priority_group := g'\<rparr>) = dev_frame s s'"
  "dev_frame s (upd_obj ob k s') = dev_frame s s'" "dev_frame s (upd_sem j l s') = dev_frame s s'"
  by (simp_all add: dev_frame_def upd_defs)

lemma rt_schedule_dev: "rt_schedule s = Some s' \<Longrightarrow> dev_frame s s'"
  by (subst rt_schedule_frame) (simp_all add: dev_frame_def)

lemma rt_timer_stop_dev: "dev_frame s (snd (rt_timer_stop t s))"
  by (simp add: rt_timer_stop_def rt_timer_remove_def upd_tml_def) (simp add: dev_frame_def)

lemma rt_thread_resume_dev:
  assumes "rt_thread_resume t s = Some (r, s')"
  shows "dev_frame s s'"
  using assms rt_timer_stop_dev [of "upd_tl (rt_list_remove (LElem t)) s" "Thread_timer t"]
  by (auto simp: rt_thread_resume_def rt_schedule_insert_thread_def bind_Some_iff Let_def dev_frame_def upd_defs split_def split: if_splits)

lemma rt_schedule_remove_thread_dev:
  assumes "rt_schedule_remove_thread t s = Some s'"
  shows "dev_frame s s'"
proof -
  let ?s1 = "upd_tl (rt_list_remove (LElem t)) s"
  obtain h where "(if rt_list_isempty (LHead h) (tlinks ?s1)
     then Some (?s1\<lparr>rt_thread_ready_priority_group := rt_thread_ready_priority_group ?s1 AND NOT (number_mask (threads ?s1 t))\<rparr>)
     else Some ?s1) = Some s'"
    using assms unfolding rt_schedule_remove_thread_def Let_def bind_Some_iff by blast
  then have "s' = ?s1\<lparr>rt_thread_ready_priority_group := rt_thread_ready_priority_group ?s1 AND NOT (number_mask (threads ?s1 t))\<rparr> \<or> s' = ?s1"
    by (metis option.inject)
  then show ?thesis by (auto simp: dev_frame_def upd_tl_def)
qed

lemma suspend_back_dev:
  assumes "suspend_back h t s = Some s'"
  shows "dev_frame s s'"
proof -
  have "dev_frame s s1" if s1: "rt_thread_suspend t s = Some (r, s1)" for r s1
  proof (cases "stat (threads s t) = RT_THREAD_READY")
    case True
    then obtain s2 where s2: "rt_schedule_remove_thread t (upd_thread t (\<lambda>th. th\<lparr>stat := RT_THREAD_SUSPEND\<rparr>) s) = Some s2"
      "s1 = snd (rt_timer_stop (Thread_timer t) s2)"
      using s1 by (auto simp: rt_thread_suspend_def bind_Some_iff Let_def split_def)
    have "dev_frame s s2" using rt_schedule_remove_thread_dev [OF s2(1)] by (simp add: dev_frame_def upd_thread_def)
    then show ?thesis unfolding s2(2) by (rule dev_frame_trans [OF _ rt_timer_stop_dev])
  next
    case False
    then show ?thesis using s1 by (simp add: rt_thread_suspend_def)
  qed
  then show ?thesis using assms by (auto simp: suspend_back_def bind_Some_iff)
qed

lemma dq_resume_dev: "dq_resume h s = Some s' \<Longrightarrow> dev_frame s s'"
  by (auto simp: dq_resume_def bind_Some_iff dest!: rt_thread_resume_dev rt_schedule_dev intro: dev_frame_trans)

lemma finsh_rx_ind_dev: "finsh_rx_ind n i sz s = Some (r, s') \<Longrightarrow> dev_frame s s'"
  by (auto simp: finsh_rx_ind_def rt_sem_release_def rt_ipc_list_resume_def bind_Some_iff
      dest!: rt_thread_resume_dev rt_schedule_dev intro: dev_frame_trans split: if_splits)

lemma portal_rx_indicate_dev:
  assumes "portal_rx_indicate finsh_rx_ind c i sz s = Some (r, s')"
  shows "dev_frame s s'"
proof -
  have "cb = finsh_rx_ind \<longrightarrow> dev_frame s (snd y)" if "portal_rx_indicate cb c i sz s = Some y" for cb c i sz s y
    using that
  proof (rule portal_rx_indicate.raw_induct [rotated])
    fix f cb c i sz s and y :: "rt_err_t \<times> kernel"
    assume IH: "\<And>cb c i sz s y. f cb c i sz s = Some y \<Longrightarrow> cb = finsh_rx_ind \<longrightarrow> dev_frame s (snd y)"
      and eq: "(case c of User_callback n \<Rightarrow> cb n i sz s
        | Portal_callback \<Rightarrow> do {
            RT_ASSERT (dtype (devices s i) = RT_Device_Class_Pipe);
            p \<leftarrow> read_portal (pipes s i);
            case rx_indicate (devices s p) of None \<Rightarrow> Some (- RT_ENOSYS, s) | Some c' \<Rightarrow> f cb c' p sz s }) = Some y"
    show "cb = finsh_rx_ind \<longrightarrow> dev_frame s (snd y)"
    proof (cases c)
      case (User_callback n)
      then show ?thesis using eq finsh_rx_ind_dev by (cases y) auto
    next
      case Portal_callback
      then show ?thesis using eq IH [of cb _ _ sz s y] by (auto simp: bind_Some_iff split: option.splits)
    qed
  qed
  from this [OF assms] show ?thesis by simp
qed

lemma pipe_wake_eq:
  "rt_pipe_resume_writer i s =
    (if \<not> rt_list_isempty (LHead (HPipeWrite i)) (tlinks s)
     then do { RT_ASSERT (pflag (pipes s i) AND RT_PIPE_FLAG_BLOCK_WR \<noteq> 0); dq_resume (HPipeWrite i) s } else Some s)"
  "pipe_wake_reader i s =
    (if \<not> rt_list_isempty (LHead (HPipeRead i)) (tlinks s)
     then do { RT_ASSERT (pflag (pipes s i) AND RT_PIPE_FLAG_BLOCK_RD \<noteq> 0); dq_resume (HPipeRead i) s } else Some s)"
  by (simp_all add: rt_pipe_resume_writer_def pipe_wake_reader_def dq_resume_def)

lemma pipe_wake_dev:
  "rt_pipe_resume_writer i s = Some s' \<Longrightarrow> dev_frame s s'" "pipe_wake_reader i s = Some s' \<Longrightarrow> dev_frame s s'"
  by (auto simp: pipe_wake_eq bind_Some_iff dest: dq_resume_dev split: if_splits)

lemma rt_pipe_resume_reader_dev:
  assumes "rt_pipe_resume_reader finsh_rx_ind i s = Some s'"
  shows "dev_frame s s'"
proof -
  obtain s1 where s1: "pipe_rx_tell finsh_rx_ind i s = Some s1" "pipe_wake_reader i s1 = Some s'"
    using assms by (auto simp: rt_pipe_resume_reader_def bind_Some_iff)
  have "dev_frame s s1" using s1(1) portal_rx_indicate_dev by (auto simp: pipe_rx_tell_def split: option.splits)
  then show ?thesis using pipe_wake_dev(2) [OF s1(2)] by (rule dev_frame_trans)
qed

lemma pipe_io_dev [simp]:
  "dev_frame s' (snd (pipe_get i buffer sz s)) = dev_frame s' s" "dev_frame s' (snd (pipe_put i buffer sz s)) = dev_frame s' s"
  "dev_frame s' (snd (pipe_put_force i buffer sz s)) = dev_frame s' s"
  by (simp_all add: pipe_get_def pipe_put_def pipe_put_force_def split_def Let_def)

lemma park_dev:
  assumes "suspend_back h t s = Some s1" "rt_schedule s1 = Some s'" "dev_frame s0 s"
  shows "dev_frame s0 s'"
  using assms(3) dev_frame_trans [OF suspend_back_dev [OF assms(1)] rt_schedule_dev [OF assms(2)]] by (rule dev_frame_trans)

lemma pipe_read_step_dev:
  assumes "pipe_read_step i thread buffer sz s = Some (x, s')"
  shows "dev_frame s s'"
proof -
  obtain n s1 where g: "pipe_get i buffer sz s = (n, s1)" by (cases "pipe_get i buffer sz s")
  have f: "dev_frame s s1" using pipe_io_dev(1) [of s i buffer sz s] by (simp add: g)
  show ?thesis
  proof (cases "n = 0")
    case True
    then show ?thesis using assms g park_dev [OF _ _ f] by (auto simp: pipe_read_step_def bind_Some_iff)
  next
    case False
    then show ?thesis
      using assms g dev_frame_trans [OF f] pipe_wake_dev(1) by (auto simp: pipe_read_step_def bind_Some_iff)
  qed
qed

lemma pipe_read_dev:
  assumes "rt_pipe_read i pos buffer sz s = Some (x, s')"
  shows "dev_frame s s'"
proof (cases "pflag (pipes s i) AND RT_PIPE_FLAG_BLOCK_RD = 0")
  case False
  then show ?thesis using assms pipe_read_step_dev by (auto simp: rt_pipe_read_def bind_Some_iff)
next
  case True
  obtain n s1 where g: "pipe_get i buffer sz s = (n, s1)" by (cases "pipe_get i buffer sz s")
  have f: "dev_frame s s1" using pipe_io_dev(1) [of s i buffer sz s] by (simp add: g)
  show ?thesis
    using True assms g f dev_frame_trans [OF f] pipe_wake_dev(1) by (cases "n = 0") (auto simp: rt_pipe_read_def bind_Some_iff)
qed

lemma pipe_write_dev:
  assumes "rt_pipe_write finsh_rx_ind i pos buffer sz s = Some (x, s')"
  shows "dev_frame s s'"
proof (cases "pflag (pipes s i) AND RT_PIPE_FLAG_FORCE_WR \<noteq> 0 \<or> pflag (pipes s i) AND RT_PIPE_FLAG_BLOCK_WR = 0")
  case True
  let ?p = "if pflag (pipes s i) AND RT_PIPE_FLAG_FORCE_WR \<noteq> 0 then pipe_put_force i buffer sz s else pipe_put i buffer sz s"
  obtain n s1 where g: "?p = (n, s1)" by (cases ?p)
  have f: "dev_frame s s1" using arg_cong [OF g, of snd] pipe_io_dev(2,3) [of s i buffer sz s] by (auto split: if_splits)
  from True g assms have "rt_pipe_resume_reader finsh_rx_ind i s1 = Some s'"
    unfolding rt_pipe_write_def by (simp only: if_True g) (auto simp: bind_Some_iff)
  from dev_frame_trans [OF f rt_pipe_resume_reader_dev [OF this]] show ?thesis .
next
  case False
  obtain n s1 where g: "pipe_put i buffer sz s = (n, s1)" by (cases "pipe_put i buffer sz s")
  have f: "dev_frame s s1" using pipe_io_dev(2) [of s i buffer sz s] by (simp add: g)
  from False assms have w: "pipe_write_step finsh_rx_ind i (rt_thread_self s) buffer sz s = Some (x, s')"
    by (auto simp: rt_pipe_write_def bind_Some_iff)
  show ?thesis
  proof (cases "n = 0")
    case True
    then show ?thesis using w g park_dev [OF _ _ f] by (auto simp: pipe_write_step_def bind_Some_iff)
  next
    case False
    then show ?thesis
      using w g dev_frame_trans [OF f] rt_pipe_resume_reader_dev by (auto simp: pipe_write_step_def bind_Some_iff)
  qed
qed

interpretation pipe_drv: device_driver "pipe_ops finsh_rx_ind" i "\<lambda>_. True" for i
proof (unfold_locales, simp_all add: pipe_ops_def)
  show "rt_pipe_read i pos buffer sz s = Some (x, s') \<Longrightarrow> devices s' i = devices s i" for pos buffer sz s x s'
    using pipe_read_dev by (simp add: dev_frame_def)
  show "rt_pipe_write finsh_rx_ind i pos buffer sz s = Some (x, s') \<Longrightarrow> devices s' i = devices s i" for pos buffer sz s x s'
    using pipe_write_dev by (simp add: dev_frame_def)
  show "rt_pipe_control i cmd arg s = Some (r, s') \<Longrightarrow> devices s' i = devices s i" for cmd arg s r s'
    by (auto simp: rt_pipe_control_def split: option.splits if_splits)
qed

text \<open>A call on one device through the framework leaves the others alone, when their driver is that of pipes.\<close>

definition dev_other :: "nat \<Rightarrow> kernel \<Rightarrow> kernel \<Rightarrow> bool" where
  "dev_other i s s' \<longleftrightarrow> devices s' i = devices s i \<and> portals s' = portals s"

lemma dev_other_refl [simp]: "dev_other i s s"
  by (simp add: dev_other_def)

lemma dev_other_trans: "dev_other i s s' \<Longrightarrow> dev_other i s' s'' \<Longrightarrow> dev_other i s s''"
  by (simp add: dev_other_def)

lemma dev_other_upd: "w \<noteq> i \<Longrightarrow> dev_other i s (upd_dev w f s') = dev_other i s s'"
  by (simp add: dev_other_def upd_dev_def)

lemma dev_other_frame: "dev_frame s s' \<Longrightarrow> dev_other i s s'"
  by (simp add: dev_other_def dev_frame_def)

lemma pipe_ops_null [simp]:
  "init_op (pipe_ops cb) i s = None" "open_op (pipe_ops cb) i ofl s = None" "close_op (pipe_ops cb) i s = None"
  "read_op (pipe_ops cb) = rt_pipe_read" "write_op (pipe_ops cb) = rt_pipe_write cb" "control_op (pipe_ops cb) = rt_pipe_control"
  by (simp_all add: pipe_ops_def)

lemma inner_init:
  assumes "rt_device_init (pipe_ops cb) (Some w) s = Some (r, s')"
  shows "r = RT_EOK \<and> s' = s"
  using assms by (auto simp: rt_device_init_def split: if_splits)

lemma inner_open_init:
  "open_init (pipe_ops cb) w s = Some (r, s') \<Longrightarrow> s' = s \<or> s' = activate w s"
  by (auto simp: open_init_def split: if_splits)

lemma inner_open_count:
  assumes "open_count w ofl r0 s = Some (r, s')" "w \<noteq> i"
  shows "dev_other i s s'"
  using assms by (auto simp: open_count_def Let_def bind_Some_iff RT_ASSERT_def dev_other_upd split: if_splits)

lemma inner_open:
  assumes "rt_device_open (pipe_ops cb) (Some w) ofl s = Some (r, s')" "w \<noteq> i"
  shows "dev_other i s s'"
proof -
  obtain r1 s1 where 1: "open_init (pipe_ops cb) w s = Some (r1, s1)"
    using assms(1) by (auto simp: rt_device_open_def bind_Some_iff)
  have o1: "dev_other i s s1" using inner_open_init [OF 1] assms(2) by (auto simp: activate_def dev_other_upd)
  consider "s' = s1" | r2 where "open_count w ofl r2 s1 = Some (r, s')"
    using assms(1) 1 by (auto simp: rt_device_open_def bind_Some_iff split: if_splits)
  then show ?thesis
  proof cases
    case 1
    then show ?thesis using o1 by simp
  next
    case 2
    from dev_other_trans [OF o1 inner_open_count [OF 2 assms(2)]] show ?thesis .
  qed
qed

lemma inner_close:
  assumes "rt_device_close (pipe_ops cb) (Some w) s = Some (r, s')" "w \<noteq> i"
  shows "dev_other i s s'"
proof (cases "ref_count (devices s w) = 0")
  case True
  then show ?thesis using assms(1) by (simp add: rt_device_close_def)
next
  case False
  then show ?thesis
    using assms by (auto simp: rt_device_close_def Let_def bind_Some_iff dev_other_upd split: if_splits)
qed

lemma errno_other: "dev_other i s (rt_set_errno e s)"
  by (simp add: rt_set_errno_def upd_thread_def dev_other_def split: option.split)

lemma inner_read:
  "rt_device_read (pipe_ops cb) (Some w) pos buffer sz s = Some (x, s') \<Longrightarrow> dev_other i s s'"
  by (auto simp: rt_device_read_def errno_other dest!: pipe_read_dev intro: dev_other_frame split: if_splits)

lemma inner_write:
  "rt_device_write (pipe_ops finsh_rx_ind) (Some w) pos buffer sz s = Some (x, s') \<Longrightarrow> dev_other i s s'"
  by (auto simp: rt_device_write_def errno_other dest!: pipe_write_dev intro: dev_other_frame split: if_splits)

definition joins_others :: "nat \<Rightarrow> kernel \<Rightarrow> bool" where
  "joins_others i s \<longleftrightarrow> write_dev (portals s i) \<noteq> i \<and> read_dev (portals s i) \<noteq> i"

lemma joins_others_other: "joins_others i s \<Longrightarrow> dev_other i s s' \<Longrightarrow> joins_others i s' \<and> devices s' i = devices s i"
  by (simp add: joins_others_def dev_other_def)

lemma portal_open_other:
  assumes "joins_others i s" "portal_open (pipe_ops cb) i ofl s = Some (r, s')"
  shows "dev_other i s s'"
proof (cases "ofl = 0")
  case True
  then show ?thesis using assms(2) by (simp add: portal_open_def)
next
  case False
  let ?r = "if ofl AND RT_DEVICE_OFLAG_RDONLY \<noteq> 0
     then rt_device_open (pipe_ops cb) (Some (read_dev (portals s i))) RT_DEVICE_OFLAG_RDONLY s else Some (RT_EOK, s)"
  let ?w = "\<lambda>s1. if ofl AND RT_DEVICE_OFLAG_WRONLY \<noteq> 0
     then rt_device_open (pipe_ops cb) (Some (write_dev (portals s1 i))) RT_DEVICE_OFLAG_WRONLY s1 else Some (RT_EOK, s1)"
  obtain e s1 where 1: "?r = Some (e, s1)" "(if e \<noteq> RT_EOK then Some (e, s1)
      else do { (e', s2) \<leftarrow> ?w s1; if e' \<noteq> RT_EOK then Some (e', s2) else Some (RT_EOK, s2) }) = Some (r, s')"
    using assms(2) False unfolding portal_open_def by (simp only: if_False) (auto simp: bind_Some_iff)
  have o1: "dev_other i s s1" using 1(1) inner_open assms(1) by (auto simp: joins_others_def split: if_splits)
  have j1: "joins_others i s1" using joins_others_other [OF assms(1) o1] by simp
  show ?thesis
  proof (cases "e = RT_EOK")
    case True
    then obtain e' where "?w s1 = Some (e', s')" using 1(2) by (auto simp: bind_Some_iff split: if_splits)
    then have "dev_other i s1 s'" using inner_open j1 by (auto simp: joins_others_def split: if_splits)
    then show ?thesis using o1 by (rule dev_other_trans [rotated])
  next
    case False
    then show ?thesis using 1(2) o1 by simp
  qed
qed

lemma portal_close_other:
  assumes "joins_others i s" "portal_close (pipe_ops cb) i s = Some (r, s')"
  shows "dev_other i s s'"
proof -
  obtain e s1 e' where s1: "rt_device_close (pipe_ops cb) (Some (write_dev (portals s i))) s = Some (e, s1)"
    "rt_device_close (pipe_ops cb) (Some (read_dev (portals s1 i))) s1 = Some (e', s')"
    using assms(2) by (auto simp: portal_close_def bind_Some_iff)
  have o1: "dev_other i s s1" using inner_close [OF s1(1)] assms(1) by (simp add: joins_others_def)
  then have "joins_others i s1" using joins_others_other [OF assms(1)] by simp
  then have "dev_other i s1 s'" using inner_close [OF s1(2)] by (simp add: joins_others_def)
  with o1 show ?thesis by (rule dev_other_trans)
qed

interpretation portal_drv: device_driver "portal_ops (pipe_ops finsh_rx_ind)" i "joins_others i" for i
proof (unfold_locales, goal_cases)
  case (1 s f)
  then show ?case by (simp add: joins_others_def upd_dev_def)
next
  case (2 s e)
  then show ?case using errno_other [of i s e] joins_others_other by blast
next
  case (3 s r s')
  then have "s' = s" by (auto simp: portal_ops_def portal_init_def bind_Some_iff dest!: inner_init split: if_splits)
  then show ?case using 3 by simp
next
  case (4 s r s')
  then have "r = RT_EOK" by (auto simp: portal_ops_def portal_init_def bind_Some_iff dest!: inner_init split: if_splits)
  then show ?case using eok_codes by simp
next
  case (5 s ofl r s')
  show ?case by (rule joins_others_other [OF 5(1)], rule portal_open_other [OF 5(1)]) (use 5(2) in \<open>simp add: portal_ops_def \<close>)
next
  case (6 s r s')
  show ?case by (rule joins_others_other [OF 6(1)], rule portal_close_other [OF 6(1)]) (use 6(2) in \<open>simp add: portal_ops_def \<close>)
next
  case (7 s pos buffer sz x s')
  show ?case by (rule joins_others_other [OF 7(1)], rule inner_read) (use 7(2) in \<open>simp add: portal_ops_def portal_read_def\<close>)
next
  case (8 s pos buffer sz x s')
  show ?case by (rule joins_others_other [OF 8(1)], rule inner_write) (use 8(2) in \<open>simp add: portal_ops_def portal_write_def\<close>)
next
  case (9 s cmd arg r s')
  then show ?case by (simp add: portal_ops_def)
qed

section \<open>Passing bytes through a pipe\<close>

definition pipe_ok :: "nat \<Rightarrow> kernel \<Rightarrow> bool" where
  "pipe_ok i s \<longleftrightarrow> rb_inv (ringbuffer (pipes s i))"

definition pipe_bytes :: "nat \<Rightarrow> kernel \<Rightarrow> u8 list" where
  "pipe_bytes i s = rb_content (ringbuffer (pipes s i)) (ram s)"

definition pipe_size :: "nat \<Rightarrow> kernel \<Rightarrow> nat" where
  "pipe_size i s = rb_size (ringbuffer (pipes s i))"

definition off_pipe :: "nat \<Rightarrow> kernel \<Rightarrow> nat \<Rightarrow> nat \<Rightarrow> bool" where
  "off_pipe i s buffer n \<longleftrightarrow> apart (ringbuffer (pipes s i)) buffer n"

text \<open>The length a call really asks for.\<close>

abbreviation len16 :: "u32 \<Rightarrow> nat" where "len16 sz \<equiv> unat (ucast sz :: u16)"

abbreviation pipe_to :: "nat \<Rightarrow> rt_ringbuffer \<Rightarrow> memory \<Rightarrow> kernel \<Rightarrow> kernel" where
  "pipe_to i rb m s \<equiv> upd_pipe i (\<lambda>p. p\<lparr>ringbuffer := rb\<rparr>) (s\<lparr>ram := m\<rparr>)"

lemma pipe_to_fields:
  "ipc_inv (pipe_to i rb m s) L T = ipc_inv s L T" "rt_current_thread (pipe_to i rb m s) = rt_current_thread s"
  "pflag (pipes (pipe_to i rb m s) i) = pflag (pipes s i)" "threads (pipe_to i rb m s) = threads s"
  "devices (pipe_to i rb m s) = devices s" "rt_scheduler_lock_nest (pipe_to i rb m s) = rt_scheduler_lock_nest s"
  "rt_interrupt_nest (pipe_to i rb m s) = rt_interrupt_nest s" "ram (pipe_to i rb m s) = m"
  "ringbuffer (pipes (pipe_to i rb m s) i) = rb"
  by simp (simp_all add: upd_pipe_def)

lemma pipe_len: "pipe_ok i s \<Longrightarrow> length (pipe_bytes i s) \<le> pipe_size i s \<and> pipe_size i s < 32768"
  using rb_invD [of "ringbuffer (pipes s i)"] by (simp add: pipe_ok_def pipe_bytes_def pipe_size_def rb_content_def)

lemma pipe_same:
  assumes "pipes s' = pipes s" "ram s' = ram s"
  shows "pipe_ok i s' = pipe_ok i s" "pipe_bytes i s' = pipe_bytes i s" "pipe_size i s' = pipe_size i s" "off_pipe i s' = off_pipe i s"
  using assms by (simp_all add: pipe_ok_def pipe_bytes_def pipe_size_def off_pipe_def [abs_def])

lemma pipe_get_spec:
  assumes "pipe_ok i s" "off_pipe i s buffer (len16 sz)"
  defines "k \<equiv> min (len16 sz) (length (pipe_bytes i s))"
  shows "\<exists>rb m. pipe_get i buffer sz s = (of_nat k, pipe_to i rb m s) \<and> pipe_ok i (pipe_to i rb m s)
     \<and> bytes_at m buffer k = take k (pipe_bytes i s) \<and> pipe_bytes i (pipe_to i rb m s) = drop k (pipe_bytes i s)
     \<and> pipe_size i (pipe_to i rb m s) = pipe_size i s \<and> off_pipe i (pipe_to i rb m s) = off_pipe i s
     \<and> (\<forall>x. x < buffer \<or> buffer + k \<le> x \<longrightarrow> m x = ram s x)"
proof -
  let ?rb = "ringbuffer (pipes s i)"
  have k: "min (len16 sz) (rb_len ?rb) = k" by (simp add: k_def pipe_bytes_def rb_content_def)
  from rt_ringbuffer_get_spec [of ?rb buffer "ucast sz" "ram s"] assms(1,2) obtain rb m where
    g: "rt_ringbuffer_get ?rb (ram s) buffer (ucast sz) = (of_nat k, rb, m)" "rb_inv rb" "rb_size rb = rb_size ?rb"
    "buffer_ptr rb = buffer_ptr ?rb" "bytes_at m buffer k = take k (rb_content ?rb (ram s))"
    "rb_content rb m = drop k (rb_content ?rb (ram s))" "\<forall>x. x < buffer \<or> buffer + k \<le> x \<longrightarrow> m x = ram s x"
    unfolding k pipe_ok_def off_pipe_def by blast
  then show ?thesis
    by (intro exI [of _ rb] exI [of _ m])
      (simp add: pipe_get_def pipe_ok_def off_pipe_def pipe_bytes_def pipe_size_def pipe_to_fields apart_def fun_eq_iff)
qed

lemma pipe_put_spec:
  assumes "pipe_ok i s" "off_pipe i s buffer (len16 sz)"
  defines "k \<equiv> min (len16 sz) (pipe_size i s - length (pipe_bytes i s))"
  shows "\<exists>rb m. pipe_put i buffer sz s = (of_nat k, pipe_to i rb m s) \<and> pipe_ok i (pipe_to i rb m s)
     \<and> pipe_bytes i (pipe_to i rb m s) = pipe_bytes i s @ bytes_at (ram s) buffer k
     \<and> pipe_size i (pipe_to i rb m s) = pipe_size i s \<and> off_pipe i (pipe_to i rb m s) = off_pipe i s"
proof -
  let ?rb = "ringbuffer (pipes s i)"
  have k: "min (len16 sz) (rb_size ?rb - rb_len ?rb) = k" by (simp add: k_def pipe_bytes_def pipe_size_def rb_content_def)
  from rt_ringbuffer_put_spec [of ?rb buffer "ucast sz" "ram s"] assms(1,2) obtain rb m where
    g: "rt_ringbuffer_put ?rb (ram s) buffer (ucast sz) = (of_nat k, rb, m)" "rb_inv rb" "rb_size rb = rb_size ?rb"
    "buffer_ptr rb = buffer_ptr ?rb" "rb_content rb m = rb_content ?rb (ram s) @ bytes_at (ram s) buffer k"
    unfolding k pipe_ok_def off_pipe_def by blast
  then show ?thesis
    by (intro exI [of _ rb] exI [of _ m])
      (simp add: pipe_put_def pipe_ok_def off_pipe_def pipe_bytes_def pipe_size_def pipe_to_fields apart_def fun_eq_iff)
qed

lemma wake_first:
  assumes "ipc_inv s L T" "wait_head h" "rt_current_thread s \<noteq> None"
  shows "\<exists>s' T'. (if \<not> rt_list_isempty (LHead h) (tlinks s) then dq_resume h s else Some s) = Some s'
     \<and> ipc_inv s' (handed h s L) T' \<and> thread_frame s s' \<and> handed h s L h = tl (L h)
     \<and> (\<forall>t ts. L h = t # ts \<longrightarrow> stat (threads s' t) = RT_THREAD_READY)
     \<and> (L h = [] \<longrightarrow> s' = s) \<and> (L h \<noteq> [] \<and> rt_scheduler_lock_nest s = 0 \<longrightarrow> chosen (handed h s L) s')"
proof -
  from wake_one [OF assms, of "()"] obtain s' T' where
    s': "(if \<not> rt_list_isempty (LHead h) (tlinks s) then do { s2 \<leftarrow> rt_ipc_list_resume h s; s3 \<leftarrow> rt_schedule s2; Some ((), s3) }
      else Some ((), s)) = Some ((), s')" "ipc_inv s' (handed h s L) T'" "thread_frame s s'" "handed h s L h = tl (L h)"
    "\<forall>t ts. L h = t # ts \<longrightarrow> stat (threads s' t) = RT_THREAD_READY"
    "L h \<noteq> [] \<and> rt_scheduler_lock_nest s = 0 \<longrightarrow> chosen (handed h s L) s'" by blast
  have "(if \<not> rt_list_isempty (LHead h) (tlinks s) then dq_resume h s else Some s) = Some s'"
    using s'(1) unfolding dq_resume_eq by (auto simp: bind_Some_iff split: if_splits)
  moreover have "L h = [] \<longrightarrow> s' = s" using s'(1) by (auto simp: list_empty_at [OF assms(1)])
  ultimately show ?thesis using s'(2-6) by blast
qed

text \<open>A thread that finds nothing parks at the end of the list and another thread runs.\<close>

lemma park_switch:
  assumes K: "ipc_inv s L T" and st: "stat (threads s t) = RT_THREAD_READY" and c: "rt_current_thread s = Some t"
    and h: "wait_head h" and other: "unlink t L (HPrio q) \<noteq> []"
  defines "L' \<equiv> (unlink t L)(h := L h @ [t])"
  shows "\<exists>s1 s'. suspend_back h t s = Some s1 \<and> rt_schedule s1 = Some s' \<and> ipc_inv s' L' T \<and> thread_frame s s'
     \<and> stat (threads s' t) = RT_THREAD_SUSPEND \<and> (rt_scheduler_lock_nest s = 0 \<longrightarrow> chosen L' s')"
proof -
  have L': "parked h RT_IPC_FLAG_FIFO (threads s) t L = L'"
    by (simp add: parked_def enqueue_def L'_def RT_IPC_FLAG_FIFO_def RT_IPC_FLAG_PRIO_def)
  from rt_ipc_list_suspend_spec [OF K st h, of RT_IPC_FLAG_FIFO] obtain s1 where
    s1: "suspend_back h t s = Some s1" "ipc_inv s1 L' T" "thread_frame s s1"
    "threads s1 = (threads s)(t := (threads s t)\<lparr>stat := RT_THREAD_SUSPEND\<rparr>)" "rt_current_thread s1 = rt_current_thread s"
    unfolding L' suspend_back_fifo by blast
  have "L' (HPrio q) \<noteq> []" "rt_current_thread s1 \<noteq> None" using other h c s1(5) by (simp_all add: L'_def)
  from switch [OF s1(2) this] obtain s' where s': "rt_schedule s1 = Some s'" "ipc_inv s' L' T" "thread_frame s1 s'"
    "threads s' = threads s1" "rt_scheduler_lock_nest s1 = 0 \<Longrightarrow> chosen L' s'" by blast
  then show ?thesis
    using s1 thread_frame_trans [OF s1(3) s'(3)] thread_frameD(7) [OF s1(3)] by (intro exI [of _ s1] exI [of _ s']) simp
qed

text \<open>A write that fits passes its bytes and wakes the first waiting reader, in every mode but the forced one.\<close>

lemma small_count: "0 < n \<Longrightarrow> n < 32768 \<Longrightarrow> (of_nat n :: u16) \<noteq> 0 \<and> ucast (of_nat n :: u16) = (of_nat n :: u32)"
proof
  assume n: "0 < n" "n < 32768"
  then have "unat (of_nat n :: u16) = n" by (simp add: unat_of_nat)
  note u = this
  then show "(of_nat n :: u16) \<noteq> 0" using n by auto
  have "ucast (of_nat n :: u16) = (of_nat (unat (of_nat n :: u16)) :: u32)" by simp
  then show "ucast (of_nat n :: u16) = (of_nat n :: u32)" unfolding u .
qed

lemma rt_pipe_write_fits:
  assumes K: "ipc_inv s L T" and ok: "pipe_ok i s" and off: "off_pipe i s buffer (len16 sz)"
    and n: "0 < len16 sz" "length (pipe_bytes i s) + len16 sz \<le> pipe_size i s"
    and m: "pflag (pipes s i) AND RT_PIPE_FLAG_FORCE_WR = 0" "L (HPipeRead i) \<noteq> [] \<longrightarrow> pflag (pipes s i) AND RT_PIPE_FLAG_BLOCK_RD \<noteq> 0"
    and c: "rt_current_thread s \<noteq> None" and irq: "rt_interrupt_nest s = 0" and rx: "rx_indicate (devices s i) = None"
  shows "\<exists>s' T'. rt_pipe_write cb i pos buffer sz s = Some (Ret (of_nat (len16 sz)), s') \<and> ipc_inv s' (handed (HPipeRead i) s L) T'
     \<and> pipe_ok i s' \<and> pipe_bytes i s' = pipe_bytes i s @ bytes_at (ram s) buffer (len16 sz)
     \<and> pipe_size i s' = pipe_size i s \<and> off_pipe i s' = off_pipe i s \<and> pflag (pipes s' i) = pflag (pipes s i)
     \<and> handed (HPipeRead i) s L (HPipeRead i) = tl (L (HPipeRead i))
     \<and> (\<forall>t ts. L (HPipeRead i) = t # ts \<longrightarrow> stat (threads s' t) = RT_THREAD_READY)
     \<and> rt_interrupt_nest s' = 0 \<and> (L (HPipeRead i) \<noteq> [] \<and> rt_scheduler_lock_nest s = 0 \<longrightarrow> rt_current_thread s' \<noteq> None)"
proof -
  have k: "min (len16 sz) (pipe_size i s - length (pipe_bytes i s)) = len16 sz" using n(2) by simp
  from pipe_put_spec [OF ok off] obtain rb m where
    p: "pipe_put i buffer sz s = (of_nat (len16 sz), pipe_to i rb m s)" "pipe_ok i (pipe_to i rb m s)"
    "pipe_bytes i (pipe_to i rb m s) = pipe_bytes i s @ bytes_at (ram s) buffer (len16 sz)"
    "pipe_size i (pipe_to i rb m s) = pipe_size i s" "off_pipe i (pipe_to i rb m s) = off_pipe i s" unfolding k by blast
  let ?s1 = "pipe_to i rb m s"
  have K1: "ipc_inv ?s1 L T" "rt_current_thread ?s1 \<noteq> None" "wait_head (HPipeRead i)" using K c by (simp_all add: pipe_to_fields)
  have h: "handed (HPipeRead i) ?s1 L = handed (HPipeRead i) s L" by (rule handed_cong) (simp add: pipe_to_fields)
  from wake_first [OF K1(1,3,2)] obtain s' T' where
    s': "(if \<not> rt_list_isempty (LHead (HPipeRead i)) (tlinks ?s1) then dq_resume (HPipeRead i) ?s1 else Some ?s1) = Some s'"
    "ipc_inv s' (handed (HPipeRead i) s L) T'" "thread_frame ?s1 s'" "handed (HPipeRead i) s L (HPipeRead i) = tl (L (HPipeRead i))"
    "\<forall>t ts. L (HPipeRead i) = t # ts \<longrightarrow> stat (threads s' t) = RT_THREAD_READY"
    "L (HPipeRead i) \<noteq> [] \<and> rt_scheduler_lock_nest s = 0 \<longrightarrow> chosen (handed (HPipeRead i) s L) s'"
    unfolding h pipe_to_fields(6) by blast
  have "rt_pipe_resume_reader cb i ?s1 = Some s'"
    using s'(1) m(2) rx by (simp add: rt_pipe_resume_reader_def pipe_rx_tell_def pipe_wake_eq pipe_to_fields list_empty_at [OF K1(1)] split: if_splits)
  moreover have "len16 sz < 32768" using n pipe_len [OF ok] by simp
  note z = small_count [OF n(1) this]
  ultimately have "rt_pipe_write cb i pos buffer sz s = Some (Ret (of_nat (len16 sz)), s')"
    using m(1) p(1) z irq by (simp add: rt_pipe_write_def pipe_write_step_def RT_DEBUG_NOT_IN_INTERRUPT_def rt_interrupt_get_nest_def)
  moreover have f: "pipes s' = pipes ?s1" "ram s' = ram ?s1" "rt_interrupt_nest s' = rt_interrupt_nest ?s1"
    using thread_frameD(17,12,8) [OF s'(3)] by simp_all
  moreover have "pipe_ok i s' = pipe_ok i ?s1" "pipe_bytes i s' = pipe_bytes i ?s1" "pipe_size i s' = pipe_size i ?s1"
    "off_pipe i s' = off_pipe i ?s1"
    using pipe_same [OF f(1,2)] by simp_all
  ultimately show ?thesis
    using s'(2,4,5,6) p irq by (intro exI [of _ s'] exI [of _ T']) (auto simp: pipe_to_fields chosen_def)
qed

text \<open>One round of a waiting read: with bytes in the pipe it takes what it asked for, without it parks.\<close>

lemma pipe_read_step_bytes:
  assumes K: "ipc_inv s L T" and ok: "pipe_ok i s" and off: "off_pipe i s buffer (len16 sz)"
    and n: "0 < len16 sz" "pipe_bytes i s \<noteq> []" and w: "L (HPipeWrite i) = []"
  defines "k \<equiv> min (len16 sz) (length (pipe_bytes i s))"
  shows "\<exists>s'. pipe_read_step i thread buffer sz s = Some (Ret (of_nat k), s') \<and> ipc_inv s' L T \<and> pipe_ok i s'
     \<and> bytes_at (ram s') buffer k = take k (pipe_bytes i s) \<and> pipe_bytes i s' = drop k (pipe_bytes i s)"
proof -
  from pipe_get_spec [OF ok off] obtain rb m where
    p: "pipe_get i buffer sz s = (of_nat k, pipe_to i rb m s)" "pipe_ok i (pipe_to i rb m s)"
    "bytes_at m buffer k = take k (pipe_bytes i s)" "pipe_bytes i (pipe_to i rb m s) = drop k (pipe_bytes i s)"
    unfolding k_def by blast
  have K1: "ipc_inv (pipe_to i rb m s) L T" using K by (simp add: pipe_to_fields)
  have "0 < k" "k < 32768" using n pipe_len [OF ok] by (auto simp: k_def)
  note z = small_count [OF this]
  have "rt_pipe_resume_writer i (pipe_to i rb m s) = Some (pipe_to i rb m s)"
    using w by (simp add: pipe_wake_eq list_empty_at [OF K1])
  then show ?thesis
    using p z K1 by (intro exI [of _ "pipe_to i rb m s"]) (simp add: pipe_read_step_def pipe_to_fields)
qed

lemma pipe_read_step_parks:
  assumes K: "ipc_inv s L T" and ok: "pipe_ok i s" and off: "off_pipe i s buffer (len16 sz)"
    and e: "len16 sz = 0 \<or> pipe_bytes i s = []"
    and st: "stat (threads s t) = RT_THREAD_READY" and c: "rt_current_thread s = Some t" and other: "unlink t L (HPrio q) \<noteq> []"
  defines "L' \<equiv> (unlink t L)(HPipeRead i := L (HPipeRead i) @ [t])"
  shows "\<exists>s'. pipe_read_step i (Some t) buffer sz s = Some (Block t, s') \<and> ipc_inv s' L' T \<and> pipe_ok i s'
     \<and> pipe_bytes i s' = pipe_bytes i s \<and> pipe_size i s' = pipe_size i s \<and> off_pipe i s' = off_pipe i s
     \<and> pflag (pipes s' i) = pflag (pipes s i) \<and> ram s' = ram s \<and> devices s' = devices s
     \<and> stat (threads s' t) = RT_THREAD_SUSPEND \<and> rt_interrupt_nest s' = rt_interrupt_nest s
     \<and> rt_scheduler_lock_nest s' = rt_scheduler_lock_nest s \<and> (rt_scheduler_lock_nest s = 0 \<longrightarrow> chosen L' s')"
proof -
  have k: "min (len16 sz) (length (pipe_bytes i s)) = 0" using e by auto
  obtain rb m where
    p: "pipe_get i buffer sz s = (0, pipe_to i rb m s)" "pipe_ok i (pipe_to i rb m s)" "pipe_bytes i (pipe_to i rb m s) = pipe_bytes i s"
    "pipe_size i (pipe_to i rb m s) = pipe_size i s" "off_pipe i (pipe_to i rb m s) = off_pipe i s" "m = ram s"
  proof -
    from pipe_get_spec [OF ok off] obtain rb m where
      p: "pipe_get i buffer sz s = (of_nat 0, pipe_to i rb m s)" "pipe_ok i (pipe_to i rb m s)"
      "pipe_bytes i (pipe_to i rb m s) = drop 0 (pipe_bytes i s)" "pipe_size i (pipe_to i rb m s) = pipe_size i s"
      "off_pipe i (pipe_to i rb m s) = off_pipe i s" "\<forall>x. x < buffer \<or> buffer + 0 \<le> x \<longrightarrow> m x = ram s x" unfolding k by blast
    have "m = ram s" using p(6) by (intro ext) (metis add_0_right not_less)
    then show ?thesis using that p by simp
  qed
  let ?s1 = "pipe_to i rb m s"
  have K1: "ipc_inv ?s1 L T" "stat (threads ?s1 t) = RT_THREAD_READY" "rt_current_thread ?s1 = Some t" "wait_head (HPipeRead i)"
    using K st c by (simp_all add: pipe_to_fields)
  from park_switch [OF K1 other] obtain s2 s' where
    s': "suspend_back (HPipeRead i) t ?s1 = Some s2" "rt_schedule s2 = Some s'" "ipc_inv s' L' T" "thread_frame ?s1 s'"
    "stat (threads s' t) = RT_THREAD_SUSPEND" "rt_scheduler_lock_nest s = 0 \<longrightarrow> chosen L' s'"
    unfolding L'_def pipe_to_fields(6) by blast
  have f: "pipes s' = pipes ?s1" "ram s' = ram ?s1" "rt_interrupt_nest s' = rt_interrupt_nest ?s1"
    "rt_scheduler_lock_nest s' = rt_scheduler_lock_nest ?s1" "devices s' = devices ?s1"
    using thread_frameD(17,12,8,7,16) [OF s'(4)] by simp_all
  have "pipe_ok i s' = pipe_ok i ?s1" "pipe_bytes i s' = pipe_bytes i ?s1" "pipe_size i s' = pipe_size i ?s1"
    "off_pipe i s' = off_pipe i ?s1"
    using pipe_same [OF f(1,2)] by simp_all
  moreover have "pflag (pipes s' i) = pflag (pipes s i)" "ram s' = ram s" "devices s' = devices s"
    "rt_interrupt_nest s' = rt_interrupt_nest s" "rt_scheduler_lock_nest s' = rt_scheduler_lock_nest s"
    unfolding f pipe_to_fields by (simp_all add: p(6))
  moreover have "pipe_read_step i (Some t) buffer sz s = Some (Block t, s')"
    using p(1) s'(1,2) by (simp add: pipe_read_step_def)
  ultimately show ?thesis using p(2-5) s'(3,5,6) by (intro exI [of _ s'] conjI) simp_all
qed

text \<open>
  A blocking read whose size is a multiple of 65536 asks the ring buffer for nothing and waits although
  there are bytes. And a portal whose second pipe does not exist stops the kernel instead of returning
  an error, because the call-back of the missing device is set.
\<close>

lemma rt_pipe_read_truncated:
  assumes "ipc_inv s L T" "pipe_ok i s" "off_pipe i s buffer 0" "sz = 0x10000"
    and "stat (threads s t) = RT_THREAD_READY" "rt_current_thread s = Some t" "unlink t L (HPrio q) \<noteq> []"
    and "pflag (pipes s i) AND RT_PIPE_FLAG_BLOCK_RD \<noteq> 0" "rt_interrupt_nest s = 0"
  shows "\<exists>s'. rt_pipe_read i pos buffer sz s = Some (Block t, s') \<and> stat (threads s' t) = RT_THREAD_SUSPEND"
proof -
  have z: "len16 sz = 0" by (simp add: assms(4))
  then have o: "off_pipe i s buffer (len16 sz)" using assms(3) by simp
  from pipe_read_step_parks [OF assms(1,2) o disjI1 [OF z] assms(5-7)] show ?thesis
    using assms(6,8,9) by (auto simp: rt_pipe_read_def RT_DEBUG_NOT_IN_INTERRUPT_def rt_interrupt_get_nest_def rt_thread_self_def)
qed

lemma find_same:
  assumes "obj_inv s C" "rt_current_thread s = None" "readable RT_NAME_MAX name"
    and "olinks s' = olinks s" "objs s' = objs s" "rt_current_thread s' = rt_current_thread s"
  shows "rt_device_find name s' = Some (find (named (objs s) name) (C RT_Object_Class_Device), s')"
proof -
  have "obj_inv s' C" "rt_current_thread s' = None" using assms by (simp_all add: obj_inv_def)
  from find_by_name_before_start [OF this(1) assms(3) this(2)] show ?thesis using assms(5) by (simp add: rt_device_find_def)
qed

lemma rt_portal_init_stops:
  assumes K: "obj_inv s C" and c: "rt_current_thread s = None" and rd: "readable RT_NAME_MAX wn" "readable RT_NAME_MAX rn"
    and w: "find (named (objs s) wn) (C RT_Object_Class_Device) = Some (ODevice w)" "w \<noteq> i" "dtype (devices s w) = RT_Device_Class_Pipe"
    and r: "find (named (objs s) rn) (C RT_Object_Class_Device) = None"
  shows "rt_portal_init i name wn rn s = None"
proof -
  note F = find_same [OF K c]
  show ?thesis
    using F [OF rd(1)] F [OF rd(2)] w r
    by (simp add: rt_portal_init_def Let_def device_at_def rt_device_set_tx_complete_def upd_defs)
qed

end
