(* ===== verification/RT_DevProps.thy ===== *)
theory RT_DevProps
  imports RT_Demo RT_Pipe
begin

text \<open>
  The properties of the device framework and of the pipe. Each property with a hypothesis is
  followed by a witness on the example system.
\<close>

section \<open>Devices\<close>

text \<open>C39 Any sequence of whole calls on a device whose driver keeps to its contract, one call after the other,
  of one user or of several in any order: a device in use is activated and marked open, a stand-alone
  device never has a second user, and the reference count is the number of opens that succeeded less
  the number of closes of the open device. Calls that preempt each other are not covered: between the
  stand-alone test and the count of \<open>rt_device_open\<close> a second open can slip in.\<close>

theorem device_users_are_counted:
  assumes "device_driver ops i P" "P s" "dev_ok (devices s i)" "dev_run ops i s n s'"
  shows "P s' \<and> dev_ok (devices s' i) \<and> uint (ref_count (devices s' i)) = uint (ref_count (devices s i)) + n"
  by (rule device_driver.run_ok [OF assms(1,4,2,3)])

lemma demo_dev: "dev_ok (devices demo i)" "ref_count (devices demo i) = 0" "dinit (devices demo i) = False" "dopen (devices demo i) = False"
  "dclose (devices demo i) = False" "dflag (devices demo i) = 3" "open_flag (devices demo i) = 0" "rx_indicate (devices demo i) = None"
  using thread_frameD(16) [OF demo_state(3)] by (simp_all add: dev_ok_def demo0_def device_flags)

theorem device_users_are_counted_witness:
  "\<exists>s'. dev_run (pipe_ops finsh_rx_ind) 0 demo 1 s' \<and> dev_ok (devices s' 0) \<and> ref_count (devices s' 0) = 1"
proof -
  let ?ops = "pipe_ops finsh_rx_ind"
  obtain s1 where s1: "rt_device_open ?ops (Some 0) 3 demo = Some (RT_EOK, s1)"
    by (auto simp: rt_device_open_def open_init_def open_count_def activate_def demo_dev upd_dev_def device_flags Let_def)
  have r: "dev_run ?ops 0 demo 1 s1" using dev_run.step [OF dev_run.start dev_step.opens [OF s1]] by simp
  from device_users_are_counted [OF pipe_drv.device_driver_axioms TrueI demo_dev(1) r]
  have o: "dev_ok (devices s1 0)" "uint (ref_count (devices s1 0)) = 1" by (simp_all add: demo_dev)
  then have "ref_count (devices s1 0) = 1" by (metis uint_1_eq word_uint_eqI)
  with r o(1) show ?thesis by blast
qed

section \<open>Pipes\<close>

text \<open>C40 A blocking read of an empty pipe suspends its thread; a write by another thread passes its bytes and
  wakes the reader, whose call then returns exactly the bytes that were written, in order.\<close>

theorem pipe_read_waits_for_write:
  assumes "ipc_inv s L T" "pipe_ok i s" "pipe_bytes i s = []" "off_pipe i s dst (len16 rsz)" "off_pipe i s src (len16 wsz)"
    and "stat (threads s t) = RT_THREAD_READY" "rt_current_thread s = Some t" "unlink t L (HPrio q) \<noteq> []"
    and "rt_interrupt_nest s = 0" "rt_scheduler_lock_nest s = 0" "rx_indicate (devices s i) = None"
    and "pflag (pipes s i) AND RT_PIPE_FLAG_BLOCK_RD \<noteq> 0" "pflag (pipes s i) AND RT_PIPE_FLAG_FORCE_WR = 0"
    and "0 < len16 wsz" "len16 wsz \<le> pipe_size i s" "len16 wsz \<le> len16 rsz"
    and "L (HPipeRead i) = []" "L (HPipeWrite i) = []"
  shows "\<exists>s1 s2 s3. rt_pipe_read i pos dst rsz s = Some (Block t, s1) \<and> stat (threads s1 t) = RT_THREAD_SUSPEND
     \<and> rt_pipe_write cb i pos' src wsz s1 = Some (Ret (of_nat (len16 wsz)), s2) \<and> stat (threads s2 t) = RT_THREAD_READY
     \<and> rt_pipe_read_resumed i t dst rsz s2 = Some (Ret (of_nat (len16 wsz)), s3)
     \<and> bytes_at (ram s3) dst (len16 wsz) = bytes_at (ram s) src (len16 wsz) \<and> pipe_bytes i s3 = []"
proof -
  define M where "M = (unlink t L)(HPipeRead i := L (HPipeRead i) @ [t])"
  let ?n = "len16 wsz"
  from pipe_read_step_parks [OF assms(1,2,4) disjI2 [OF assms(3)] assms(6-8), folded M_def] obtain s1 where
    s1: "pipe_read_step i (Some t) dst rsz s = Some (Block t, s1)" "ipc_inv s1 M T" "pipe_ok i s1" "pipe_bytes i s1 = []"
    "pipe_size i s1 = pipe_size i s" "off_pipe i s1 = off_pipe i s" "pflag (pipes s1 i) = pflag (pipes s i)" "ram s1 = ram s"
    "devices s1 = devices s" "stat (threads s1 t) = RT_THREAD_SUSPEND" "rt_interrupt_nest s1 = 0" "rt_scheduler_lock_nest s1 = 0"
    "rt_current_thread s1 \<noteq> None"
    using assms(3,9,10) by (auto simp: chosen_def)
  have L: "M (HPipeRead i) = [t]" using assms(17) by (simp add: M_def)
  have "off_pipe i s1 src ?n" "length (pipe_bytes i s1) + ?n \<le> pipe_size i s1" "pflag (pipes s1 i) AND RT_PIPE_FLAG_FORCE_WR = 0"
    "M (HPipeRead i) \<noteq> [] \<longrightarrow> pflag (pipes s1 i) AND RT_PIPE_FLAG_BLOCK_RD \<noteq> 0" "rx_indicate (devices s1 i) = None"
    using s1 assms(5,11-13,15) by simp_all
  note w = rt_pipe_write_fits [OF s1(2,3) this(1) assms(14) this(2,3,4) s1(13,11) this(5), of cb pos']
  have h: "handed (HPipeRead i) s1 M (HPipeWrite i) = []"
    using assms(18) by (simp add: handed_def L make_ready_def unlink_def) (simp add: M_def unlink_def)
  from w L obtain s2 T2 where
    s2: "rt_pipe_write cb i pos' src wsz s1 = Some (Ret (of_nat ?n), s2)" "ipc_inv s2 (handed (HPipeRead i) s1 M) T2" "pipe_ok i s2"
    "pipe_bytes i s2 = bytes_at (ram s) src ?n" "off_pipe i s2 = off_pipe i s" "stat (threads s2 t) = RT_THREAD_READY"
    unfolding s1(4,6,8) by auto
  have "pipe_bytes i s2 \<noteq> []" "0 < len16 rsz" "off_pipe i s2 dst (len16 rsz)" using s2(4,5) assms(4,14,16) by (auto simp: bytes_at_def)
  moreover have k: "min (len16 rsz) (length (pipe_bytes i s2)) = ?n" using s2(4) assms(16) by simp
  ultimately obtain s3 where
    s3: "pipe_read_step i (Some t) dst rsz s2 = Some (Ret (of_nat ?n), s3)" "bytes_at (ram s3) dst ?n = bytes_at (ram s) src ?n"
    "pipe_bytes i s3 = []"
    using pipe_read_step_bytes [OF s2(2,3) _ _ _ h, of dst rsz "Some t"] s2(4) unfolding k by auto
  have "rt_pipe_read i pos dst rsz s = Some (Block t, s1)"
    using s1(1) assms(7,9,12) by (simp add: rt_pipe_read_def RT_DEBUG_NOT_IN_INTERRUPT_def rt_interrupt_get_nest_def rt_thread_self_def)
  then show ?thesis using s1(10) s2(1,6) s3 by (auto simp: rt_pipe_read_resumed_def)
qed

lemma demo_pipe: "pipe_ok i demo" "pipe_bytes i demo = []" "pipe_size i demo = 8" "off_pipe i demo a n = (a + n \<le> 0x20007000 \<or> 0x20007008 \<le> a)"
  "pflag (pipes demo i) = 3"
  using thread_frameD(17) [OF demo_state(3)]
  by (simp_all add: pipe_ok_def pipe_bytes_def pipe_size_def off_pipe_def demo0_def rb_inv_def rb_content_def rb_len_def rb_size_def apart_def
      ring_content_def)

theorem pipe_read_waits_for_write_witness:
  "\<exists>s1 s2 s3. rt_pipe_read 0 0 0x20010000 100 demo = Some (Block 1, s1) \<and> rt_pipe_write finsh_rx_ind 0 0 0x20010100 5 s1 = Some (Ret 5, s2)
     \<and> rt_pipe_read_resumed 0 1 0x20010000 100 s2 = Some (Ret 5, s3)
     \<and> bytes_at (ram s3) 0x20010000 5 = bytes_at (ram demo) 0x20010100 5"
proof -
  have wh: "wait_head (HPipeRead 0)" by simp
  have o: "off_pipe 0 demo 0x20010000 (len16 100)" "off_pipe 0 demo 0x20010100 (len16 5)" by (simp_all add: demo_pipe)
  have f: "pflag (pipes demo 0) AND RT_PIPE_FLAG_BLOCK_RD \<noteq> 0" "pflag (pipes demo 0) AND RT_PIPE_FLAG_FORCE_WR = 0"
    by (simp_all add: demo_pipe RT_PIPE_FLAG_BLOCK_RD_def RT_PIPE_FLAG_FORCE_WR_def)
  have l: "demoL (HPipeRead 0) = []" "demoL (HPipeWrite 0) = []" by (simp_all add: demoL_def)
  show ?thesis
    using pipe_read_waits_for_write [OF demo_ipc demo_pipe(1,2) o demo_ready(2) demo_state(2) demo_parked(4) [OF wh] demo_fields(2,1)
        demo_dev(8) f _ _ _ l, where cb = finsh_rx_ind and pos = 0 and pos' = 0] by (auto simp: demo_pipe)
qed

end
