(* ===== verification/RT_Printf.thy ===== *)
theory RT_Printf
  imports RT_KService
begin

text \<open>
  The formatted printing of \<open>src/kservice.c\<close>, as it is configured there: with precisions, without
  \<open>RT_PRINTF_SPECIAL\<close> and without \<open>long long\<close>.

  The functions write through a pointer that they advance for every character, whether it fits or not,
  and store only up to \<open>end\<close>; the pair of the pointer and the memory is passed along. The pointer has 32
  bits and wraps around: a text that is long enough comes back below \<open>end\<close> and is written there. The arguments are a
  list: reading one that is missing or of the other kind is \<open>None\<close>, as is reading a format or string
  behind its last byte. Field widths and precisions are mathematical integers, since the overflow of
  an \<open>int\<close> is undefined in C.
\<close>

section \<open>Characters\<close>

type_synonym out = "nat \<times> memory"

definition emit :: "nat \<Rightarrow> u8 \<Rightarrow> out \<Rightarrow> out" where
  "emit e c w = (case w of (p, m) \<Rightarrow> (add32 p 1, if p \<le> e then m(p := c) else m))"

definition emits :: "nat \<Rightarrow> u8 list \<Rightarrow> out \<Rightarrow> out" where
  "emits e cs w = fold (emit e) cs w"

text \<open>The loop \<open>while (size-- > 0)\<close> around a character, and what it leaves in \<open>size\<close>.\<close>

definition pad :: "nat \<Rightarrow> int \<Rightarrow> u8 \<Rightarrow> out \<Rightarrow> out" where
  "pad e sz c w = emits e (replicate (nat sz) c) w"

definition padded :: "int \<Rightarrow> int" where
  "padded sz = (if sz > 0 then 0 else sz) - 1"

definition isdigit :: "u8 \<Rightarrow> bool" where
  "isdigit c \<longleftrightarrow> c - 48 < 10"

fun skip_atoi :: "int \<Rightarrow> u8 list \<Rightarrow> int \<times> u8 list" where
  "skip_atoi i [] = (i, [])"
| "skip_atoi i (c # cs) = (if isdigit c then skip_atoi (i * 10 + (uint c - 48)) cs else (i, c # cs))"

section \<open>Numbers\<close>

definition ZEROPAD :: u8 where "ZEROPAD = 1"
definition SIGN :: u8 where "SIGN = 2"
definition PLUS :: u8 where "PLUS = 4"
definition SPACE :: u8 where "SPACE = 8"
definition LEFT :: u8 where "LEFT = 16"
definition SPECIAL :: u8 where "SPECIAL = 32"
definition LARGE :: u8 where "LARGE = 64"

definition small_digits :: "u8 list" where
  "small_digits = [48, 49, 50, 51, 52, 53, 54, 55, 56, 57, 97, 98, 99, 100, 101, 102]"

definition large_digits :: "u8 list" where
  "large_digits = [48, 49, 50, 51, 52, 53, 54, 55, 56, 57, 65, 66, 67, 68, 69, 70]"

definition divide :: "u32 \<Rightarrow> nat \<Rightarrow> u32 \<times> u32" where
  "divide n base = (if base = 10 then (n mod 10, n div 10) else (n mod 16, n div 16))"

text \<open>The digits in the temporary buffer, the last one of the number first.\<close>

function tmp_digits :: "u8 list \<Rightarrow> nat \<Rightarrow> u32 \<Rightarrow> u8 list" where
  "tmp_digits digits base num =
    (if num = 0 then []
     else let (r, q) = divide num base in digits ! unat r # tmp_digits digits base q)"
  by auto
termination
  by (relation "measure (\<lambda>(_, _, n). unat n)") (auto simp: divide_def unat_div unat_gt_0 split: if_splits)

definition number_sign :: "u8 \<Rightarrow> u32 \<Rightarrow> u8 \<times> u32" where
  "number_sign type num =
    (if type AND SIGN \<noteq> 0
     then if sint num < 0 then (45, - num)
          else if type AND PLUS \<noteq> 0 then (43, num)
          else if type AND SPACE \<noteq> 0 then (32, num)
          else (0, num)
     else (0, num))"

text \<open>The parts of a number in the order they are printed; each passes on what is left of the field.\<close>

definition pad_front :: "nat \<Rightarrow> u8 \<Rightarrow> u8 \<Rightarrow> int \<Rightarrow> out \<Rightarrow> int \<times> out" where
  "pad_front e type sign sz w =
    (if type AND (ZEROPAD OR LEFT) = 0
     then let sz1 = (if sign \<noteq> 0 \<and> sz > 0 then sz - 1 else sz) in (padded sz1, pad e sz1 32 w)
     else (sz, w))"

definition put_sign :: "nat \<Rightarrow> u8 \<Rightarrow> int \<Rightarrow> out \<Rightarrow> int \<times> out" where
  "put_sign e sign sz w =
    (if sign \<noteq> 0 then (if fst w \<le> e then sz - 1 else sz, emit e sign w) else (sz, w))"

definition pad_number :: "nat \<Rightarrow> u8 \<Rightarrow> int \<Rightarrow> out \<Rightarrow> int \<times> out" where
  "pad_number e type sz w =
    (if type AND LEFT = 0 then (padded sz, pad e sz (if type AND ZEROPAD \<noteq> 0 then 48 else 32) w) else (sz, w))"

definition print_number :: "nat \<Rightarrow> u32 \<Rightarrow> nat \<Rightarrow> int \<Rightarrow> int \<Rightarrow> u8 \<Rightarrow> out \<Rightarrow> out" where
  "print_number e num base s precision type w =
    (let digits = (if type AND LARGE \<noteq> 0 then large_digits else small_digits);
         type = (if type AND LEFT \<noteq> 0 then type AND NOT ZEROPAD else type);
         (sign, num) = number_sign type num;
         tmp = (if num = 0 then [48] else tmp_digits digits base num);
         i = int (length tmp);
         precision = (if i > precision then i else precision);
         (size1, w1) = pad_front e type sign (s - precision) w;
         (size2, w2) = put_sign e sign size1 w1;
         (size3, w3) = pad_number e type size2 w2;
         w4 = pad e (precision - i) 48 w3;
         w5 = emits e (rev tmp) w4
     in pad e size3 32 w5)"

section \<open>Formats\<close>

datatype va_arg = VInt u32 | VStr "u8 list option"

definition va_int :: "va_arg list \<Rightarrow> (u32 \<times> va_arg list) option" where
  "va_int args = (case args of VInt x # as \<Rightarrow> Some (x, as) | _ \<Rightarrow> None)"

definition va_str :: "va_arg list \<Rightarrow> (u8 list option \<times> va_arg list) option" where
  "va_str args = (case args of VStr x # as \<Rightarrow> Some (x, as) | _ \<Rightarrow> None)"

fun fmt_flags :: "u8 \<Rightarrow> u8 list \<Rightarrow> u8 \<times> u8 list" where
  "fmt_flags fl [] = (fl, [])"
| "fmt_flags fl (c # cs) =
    (if c = 45 then fmt_flags (fl OR LEFT) cs
     else if c = 43 then fmt_flags (fl OR PLUS) cs
     else if c = 32 then fmt_flags (fl OR SPACE) cs
     else if c = 35 then fmt_flags (fl OR SPECIAL) cs
     else if c = 48 then fmt_flags (fl OR ZEROPAD) cs
     else (fl, c # cs))"

definition fmt_width :: "u8 \<Rightarrow> u8 list \<Rightarrow> va_arg list \<Rightarrow> (u8 \<times> int \<times> u8 list \<times> va_arg list) option" where
  "fmt_width fl cs args = (case cs of
     [] \<Rightarrow> Some (fl, - 1, [], args)
   | c # cs' \<Rightarrow>
       if isdigit c then let (i, cs'') = skip_atoi 0 cs in Some (fl, i, cs'', args)
       else if c = 42
       then do {
         (x, args') \<leftarrow> va_int args;
         if sint x < 0 then Some (fl OR LEFT, - sint x, cs', args') else Some (fl, sint x, cs', args') }
       else Some (fl, - 1, cs, args))"

definition fmt_precision :: "u8 list \<Rightarrow> va_arg list \<Rightarrow> (int \<times> u8 list \<times> va_arg list) option" where
  "fmt_precision cs args = (case cs of
     c # cs' \<Rightarrow>
       if c = 46
       then do {
         (p, cs'', args') \<leftarrow> (case cs' of
            d # ds \<Rightarrow>
              if isdigit d then let (i, r) = skip_atoi 0 cs' in Some (i, r, args)
              else if d = 42 then do { (x, args') \<leftarrow> va_int args; Some (sint x, ds, args') }
              else Some (- 1, cs', args)
          | [] \<Rightarrow> Some (- 1, [], args));
         Some (if p < 0 then 0 else p, cs'', args') }
       else Some (- 1, cs, args)
   | [] \<Rightarrow> Some (- 1, [], args))"

definition fmt_qualifier :: "u8 list \<Rightarrow> u8 \<times> u8 list" where
  "fmt_qualifier cs = (case cs of c # cs' \<Rightarrow> if c = 104 \<or> c = 108 then (c, cs') else (0, cs) | [] \<Rightarrow> (0, []))"

text \<open>The character and the string conversion, with the field on the side the flags say.\<close>

definition print_char :: "nat \<Rightarrow> u8 \<Rightarrow> int \<Rightarrow> u8 \<Rightarrow> out \<Rightarrow> out" where
  "print_char e fl width c w =
    (let w1 = (if fl AND LEFT = 0 then pad e (width - 1) 32 w else w);
         width1 = (if fl AND LEFT = 0 then (if width - 1 > 0 then 0 else width - 1) else width)
     in pad e (width1 - 1) 32 (emit e c w1))"

definition print_string :: "nat \<Rightarrow> u8 \<Rightarrow> int \<Rightarrow> int \<Rightarrow> u8 list \<Rightarrow> out \<Rightarrow> out option" where
  "print_string e fl width precision s w = do {
     n \<leftarrow> rt_strlen s;
     let len = (if precision > 0 \<and> int n > precision then precision else int n);
     let (width1, w1) = (if fl AND LEFT = 0 then (if width > len then len - 1 else width - 1, pad e (width - len) 32 w)
                         else (width, w));
     Some (pad e (width1 - len) 32 (emits e (take (nat len) s) w1)) }"

definition null_string :: "u8 list" where
  "null_string = [40, 78, 85, 76, 76, 41, 0]"

definition int_arg :: "u8 \<Rightarrow> u8 \<Rightarrow> va_arg list \<Rightarrow> (u32 \<times> va_arg list) option" where
  "int_arg qualifier fl args = do {
     (x, args') \<leftarrow> va_int args;
     Some (if qualifier = 104 then (if fl AND SIGN \<noteq> 0 then scast (ucast x :: u16) else ucast (ucast x :: u16)) else x, args') }"

text \<open>The conversion character \<open>c\<close> decides what is printed; \<open>cs\<close> is the format behind it.\<close>

definition print_field ::
  "nat \<Rightarrow> u8 \<Rightarrow> int \<Rightarrow> int \<Rightarrow> u8 \<Rightarrow> u8 \<Rightarrow> u8 list \<Rightarrow> va_arg list \<Rightarrow> out \<Rightarrow> (u8 list \<times> va_arg list \<times> out) option" where
  "print_field e fl width precision qualifier c cs args w =
    (if c = 99 then do {
       (x, args') \<leftarrow> va_int args;
       Some (cs, args', print_char e fl width (ucast x) w) }
     else if c = 115 then do {
       (x, args') \<leftarrow> va_str args;
       w1 \<leftarrow> print_string e fl width precision (case x of None \<Rightarrow> null_string | Some s \<Rightarrow> s) w;
       Some (cs, args', w1) }
     else if c = 112 then do {
       (x, args') \<leftarrow> va_int args;
       Some (cs, args', if width = - 1 then print_number e x 16 8 precision (fl OR ZEROPAD) w
                        else print_number e x 16 width precision fl w) }
     else if c = 37 then Some (cs, args, emit e 37 w)
     else if c = 111 \<or> c = 88 \<or> c = 120 \<or> c = 100 \<or> c = 105 \<or> c = 117
     then do {
       let base = (if c = 111 then 8 else if c = 88 \<or> c = 120 then 16 else 10);
       let fl1 = (if c = 88 then fl OR LARGE else if c = 100 \<or> c = 105 then fl OR SIGN else fl);
       (num, args') \<leftarrow> int_arg qualifier fl1 args;
       Some (cs, args', print_number e num base width precision fl1 w) }
     else if c \<noteq> 0 then Some (cs, args, emit e c (emit e 37 w))
     else Some (c # cs, args, emit e 37 w))"

text \<open>One conversion, from behind its percent sign on: the flags, the width, the precision, the qualifier and
  the conversion character, with what is left of the format and the arguments.\<close>

definition parse_conv :: "u8 list \<Rightarrow> va_arg list \<Rightarrow> (u8 \<times> int \<times> int \<times> u8 \<times> u8 \<times> u8 list \<times> va_arg list) option" where
  "parse_conv cs args = do {
     let (fl0, cs1) = fmt_flags 0 cs;
     (fl, width, cs2, args1) \<leftarrow> fmt_width fl0 cs1 args;
     (precision, cs3, args2) \<leftarrow> fmt_precision cs2 args1;
     let (qualifier, cs4) = fmt_qualifier cs3;
     case cs4 of
       [] \<Rightarrow> None
     | c # cs5 \<Rightarrow> Some (fl, width, precision, qualifier, c, cs5, args2) }"

definition print_conv :: "nat \<Rightarrow> u8 list \<Rightarrow> va_arg list \<Rightarrow> out \<Rightarrow> (u8 list \<times> va_arg list \<times> out) option" where
  "print_conv e cs args w = do {
     (fl, width, precision, qualifier, c, cs', args') \<leftarrow> parse_conv cs args;
     print_field e fl width precision qualifier c cs' args' w }"

text \<open>What is left of the format after a conversion is no longer than what was there.\<close>

lemma skip_atoi_length: "skip_atoi i cs = (j, ds) \<Longrightarrow> length ds \<le> length cs"
  by (induction i cs rule: skip_atoi.induct) (auto split: if_splits)

lemma fmt_flags_length: "fmt_flags fl cs = (fl', ds) \<Longrightarrow> length ds \<le> length cs"
  by (induction fl cs rule: fmt_flags.induct) (auto split: if_splits)

lemma fmt_width_length: "fmt_width fl cs args = Some (fl', n, ds, args') \<Longrightarrow> length ds \<le> length cs"
  using skip_atoi_length
  by (fastforce simp: fmt_width_def bind_Some_iff split: list.splits if_splits prod.splits)

lemma fmt_precision_length: "fmt_precision cs args = Some (n, ds, args') \<Longrightarrow> length ds \<le> length cs"
  using skip_atoi_length
  by (fastforce simp: fmt_precision_def bind_Some_iff split: list.splits if_splits prod.splits)

lemma fmt_qualifier_length: "fmt_qualifier cs = (q, ds) \<Longrightarrow> length ds \<le> length cs"
  by (auto simp: fmt_qualifier_def split: list.splits if_splits)

lemma parse_conv_length:
  assumes "parse_conv cs args = Some (fl, width, precision, qualifier, c, cs', args')"
  shows "length cs' < length cs"
proof -
  obtain fl0 cs1 where 1: "fmt_flags 0 cs = (fl0, cs1)" by (cases "fmt_flags 0 cs")
  obtain fl width cs2 args1 where 2: "fmt_width fl0 cs1 args = Some (fl, width, cs2, args1)"
    using assms by (auto simp: parse_conv_def 1 bind_Some_iff)
  obtain precision cs3 args2 where 3: "fmt_precision cs2 args1 = Some (precision, cs3, args2)"
    using assms by (auto simp: parse_conv_def 1 2 bind_Some_iff)
  obtain qualifier cs4 where 4: "fmt_qualifier cs3 = (qualifier, cs4)" by (cases "fmt_qualifier cs3")
  have 5: "cs4 = c # cs'" using assms by (auto simp: parse_conv_def 1 2 3 4 split: list.splits)
  show ?thesis
    using fmt_flags_length [OF 1] fmt_width_length [OF 2] fmt_precision_length [OF 3] fmt_qualifier_length [OF 4] 5 by simp
qed

lemma print_conv_field:
  assumes "print_conv e cs args w = Some r"
  obtains fl width precision qualifier c cs' args' where "parse_conv cs args = Some (fl, width, precision, qualifier, c, cs', args')"
    "print_field e fl width precision qualifier c cs' args' w = Some r"
  using assms by (auto simp: print_conv_def bind_Some_iff)

text \<open>What a conversion leaves: it takes its argument, and does not pass the end of the format.\<close>

definition takes_arg :: "u8 \<Rightarrow> bool" where
  "takes_arg c \<longleftrightarrow> c \<in> {99, 115, 112, 111, 88, 120, 100, 105, 117}"

lemma print_field_rest:
  "print_field e fl width precision qualifier c cs args w = Some (ds, args', w') \<Longrightarrow>
   ds = (if c = 0 then c # cs else cs) \<and> args' = (if takes_arg c then tl args else args)"
  by (auto simp: print_field_def takes_arg_def va_int_def va_str_def int_arg_def Let_def bind_Some_iff split: if_splits list.splits va_arg.splits)

lemma print_conv_length: "print_conv e cs args w = Some (ds, args', w') \<Longrightarrow> length ds \<le> length cs"
  by (erule print_conv_field) (auto dest!: print_field_rest parse_conv_length)

text \<open>The loop over the format; it ends because every round consumes a character.\<close>

function print_loop :: "nat \<Rightarrow> u8 list \<Rightarrow> va_arg list \<Rightarrow> out \<Rightarrow> out option" where
  "print_loop e fmt args w = (case fmt of
     [] \<Rightarrow> None
   | c # cs \<Rightarrow>
       if c = 0 then Some w
       else if c \<noteq> 37 then print_loop e cs args (emit e c w)
       else (case print_conv e cs args w of None \<Rightarrow> None
             | Some r \<Rightarrow> print_loop e (fst r) (fst (snd r)) (snd (snd r))))"
  by auto
termination
  by (relation "measure (\<lambda>(_, fmt, _, _). length fmt)") (auto simp: less_Suc_eq_le dest: print_conv_length)

declare tmp_digits.simps [simp del] print_loop.simps [simp del]

definition rt_vsnprintf :: "nat \<Rightarrow> nat \<Rightarrow> u8 list \<Rightarrow> va_arg list \<Rightarrow> memory \<Rightarrow> (nat \<times> memory) option" where
  "rt_vsnprintf buf sz fmt args m = do {
     let e = (let e = sub32 (add32 buf sz) 1 in if e < buf then 0xffffffff else e);
     (str, m1) \<leftarrow> print_loop e fmt args (buf, m);
     Some (sub32 str buf, if str \<le> e then m1(str := 0) else m1(e := 0)) }"

definition rt_snprintf :: "nat \<Rightarrow> nat \<Rightarrow> u8 list \<Rightarrow> va_arg list \<Rightarrow> memory \<Rightarrow> (nat \<times> memory) option" where
  "rt_snprintf buf sz fmt args m = rt_vsnprintf buf sz fmt args m"

definition rt_vsprintf :: "nat \<Rightarrow> u8 list \<Rightarrow> va_arg list \<Rightarrow> memory \<Rightarrow> (nat \<times> memory) option" where
  "rt_vsprintf buf fmt args m = rt_vsnprintf buf 0xffffffff fmt args m"

definition rt_sprintf :: "nat \<Rightarrow> u8 list \<Rightarrow> va_arg list \<Rightarrow> memory \<Rightarrow> (nat \<times> memory) option" where
  "rt_sprintf buf fmt args m = rt_vsprintf buf fmt args m"

section \<open>How far a conversion moves the pointer\<close>

text \<open>
  The pointer wraps around at the top of the address space. From \<open>w\<close> to \<open>w'\<close> it moves on by at most \<open>k\<close>, and
  only bytes between the two and up to \<open>e\<close> are written, as long as \<open>k\<close> bytes do not reach the top.
\<close>

definition advances :: "nat \<Rightarrow> nat \<Rightarrow> out \<Rightarrow> out \<Rightarrow> bool" where
  "advances e k w w' \<longleftrightarrow> (fst w + k < 2 ^ 32 \<longrightarrow> fst w \<le> fst w' \<and> fst w' \<le> fst w + k
     \<and> (\<forall>a. a < fst w \<or> fst w' \<le> a \<or> e < a \<longrightarrow> snd w' a = snd w a))"

lemma advances_refl [simp]: "advances e 0 w w"
  by (simp add: advances_def)

lemma advances_trans: "advances e k w w' \<Longrightarrow> advances e l w' w'' \<Longrightarrow> advances e (k + l) w w''"
  by (auto simp: advances_def)

lemma advances_mono: "advances e k w w' \<Longrightarrow> k \<le> l \<Longrightarrow> advances e l w w'"
  by (auto simp: advances_def)

lemma advances_emit: "advances e 1 w (emit e c w)"
  by (cases w) (auto simp: advances_def emit_def add32_small)

lemma advances_emits: "advances e (length cs) w (emits e cs w)"
proof (induction cs arbitrary: w)
  case (Cons c cs)
  show ?case using advances_trans [OF advances_emit Cons.IH] by (simp add: emits_def)
qed (simp add: emits_def)

lemma advances_pad: "nat n \<le> k \<Longrightarrow> advances e k w (pad e n c w)"
  using advances_mono [OF advances_emits [of e "replicate (nat n) c" w]] by (simp add: pad_def)

lemma number_parts:
  assumes "sz \<le> int k"
  shows "advances e k w (snd (pad_front e type sign sz w))" "fst (pad_front e type sign sz w) \<le> int k"
    "advances e 1 w (snd (put_sign e sign sz w))" "fst (put_sign e sign sz w) \<le> int k"
    "advances e k w (snd (pad_number e type sz w))" "fst (pad_number e type sz w) \<le> int k"
  using assms advances_mono [OF advances_refl [of e w], of k] advances_mono [OF advances_refl [of e w], of 1]
  by (auto simp: pad_front_def put_sign_def pad_number_def padded_def Let_def advances_emit [simplified] intro!: advances_pad)

lemma tmp_digits_length: "unat n < 10 ^ k \<Longrightarrow> length (tmp_digits digits base n) \<le> k"
proof (induction k arbitrary: n)
  case 0
  then show ?case by (simp add: tmp_digits.simps unat_eq_0)
next
  case (Suc k)
  have "unat (n div 10) < 10 ^ k" using Suc.prems by (simp add: unat_div)
  moreover have "unat (n div 16) < 10 ^ k" using Suc.prems by (simp add: unat_div div_less_iff_less_mult)
  ultimately show ?case using Suc.IH by (subst tmp_digits.simps) (auto simp: divide_def)
qed

lemma tmp_digits_ten: "length (tmp_digits digits base n) \<le> 10"
  using unsigned_less [of n, where ?'a = nat] by (intro tmp_digits_length) simp

lemma advances_number:
  assumes "s \<le> int k" "precision \<le> int k"
  shows "advances e (4 * k + 21) w (print_number e num base s precision type w)"
proof -
  define ty where "ty = (if type AND LEFT \<noteq> 0 then type AND NOT ZEROPAD else type)"
  obtain sign n where sn: "number_sign ty num = (sign, n)" by (cases "number_sign ty num")
  define tmp where "tmp = (if n = 0 then [48] else tmp_digits (if type AND LARGE \<noteq> 0 then large_digits else small_digits) base n)"
  define p where "p = (if int (length tmp) > precision then int (length tmp) else precision)"
  obtain s1 w1 where 1: "pad_front e ty sign (s - p) w = (s1, w1)" by (cases "pad_front e ty sign (s - p) w")
  obtain s2 w2 where 2: "put_sign e sign s1 w1 = (s2, w2)" by (cases "put_sign e sign s1 w1")
  obtain s3 w3 where 3: "pad_number e ty s2 w2 = (s3, w3)" by (cases "pad_number e ty s2 w2")
  let ?w4 = "pad e (p - int (length tmp)) 48 w3"
  have t: "length tmp \<le> 10" using tmp_digits_ten by (simp add: tmp_def)
  have z: "s - p \<le> int k" using assms(1) by (simp add: p_def)
  have a1: "advances e k w w1" "s1 \<le> int k" using number_parts(1,2) [OF z, where e = e and w = w and type = ty and sign = sign] by (simp_all add: 1)
  have a2: "advances e 1 w1 w2" "s2 \<le> int k" using number_parts(3,4) [OF a1(2), where e = e and w = w1 and sign = sign] by (simp_all add: 2)
  have a3: "advances e k w2 w3" "s3 \<le> int k" using number_parts(5,6) [OF a2(2), where e = e and w = w2 and type = ty] by (simp_all add: 3)
  have a4: "advances e k w3 ?w4" by (rule advances_pad) (use assms(2) in \<open>auto simp: p_def\<close>)
  have a5: "advances e 10 ?w4 (emits e (rev tmp) ?w4)" using advances_mono [OF advances_emits] t by simp
  have a6: "advances e k (emits e (rev tmp) ?w4) (pad e s3 32 (emits e (rev tmp) ?w4))" by (rule advances_pad) (use a3(2) in simp)
  note all = advances_trans [OF a1(1) advances_trans [OF a2(1) advances_trans [OF a3(1) advances_trans [OF a4 advances_trans [OF a5 a6]]]]]
  have "print_number e num base s precision type w = pad e s3 32 (emits e (rev tmp) ?w4)"
    by (simp only: print_number_def Let_def ty_def [symmetric] sn split tmp_def [symmetric] p_def [symmetric] 1 2 3)
  then show ?thesis using advances_mono [OF all, of "4 * k + 21"] by simp
qed

lemma advances_char: "width \<le> int k \<Longrightarrow> advances e (2 * k + 1) w (print_char e fl width c w)"
proof -
  assume k: "width \<le> int k"
  let ?w1 = "if fl AND LEFT = 0 then pad e (width - 1) 32 w else w"
  let ?x = "(if fl AND LEFT = 0 then (if width - 1 > 0 then 0 else width - 1) else width) - 1"
  have 1: "advances e k w ?w1" using advances_mono [OF advances_refl [of e w], of k] k by (simp add: advances_pad)
  have 2: "nat ?x \<le> k" using k by auto
  have "advances e (k + 1 + k) w (print_char e fl width c w)"
    unfolding print_char_def Let_def by (rule advances_trans [OF advances_trans [OF 1 advances_emit] advances_pad [OF 2]])
  then show ?thesis by (simp add: mult_2)
qed

lemma advances_string:
  assumes "print_string e fl width precision s w = Some w'" "width \<le> int k" "\<forall>n. rt_strlen s = Some n \<longrightarrow> n \<le> k"
  shows "advances e (3 * k) w w'"
proof -
  obtain n where n: "rt_strlen s = Some n" using assms by (auto simp: print_string_def bind_Some_iff)
  define len where "len = (if precision > 0 \<and> int n > precision then precision else int n)"
  have l: "0 \<le> len" "len \<le> int k" using n assms(3) by (auto simp: len_def)
  have w': "(case if fl AND LEFT = 0 then (if width > len then len - 1 else width - 1, pad e (width - len) 32 w) else (width, w)
      of (width1, w1) \<Rightarrow> Some (pad e (width1 - len) 32 (emits e (take (nat len) s) w1))) = Some w'"
    using assms(1) by (simp only: print_string_def n bind.bind_lunit Let_def len_def [symmetric])
  obtain x w1 where x: "w' = pad e x 32 (emits e (take (nat len) s) w1)" "nat x \<le> k" "advances e k w w1"
  proof (cases "fl AND LEFT = 0")
    case True
    have "advances e k w (pad e (width - len) 32 w)" by (rule advances_pad) (use l assms(2) in simp)
    then show ?thesis
      using that [of "(if width > len then len - 1 else width - 1) - len" "pad e (width - len) 32 w"] w' True l assms(2) by auto
  next
    case False
    show ?thesis
      using that [of "width - len" w] w' False l assms(2) advances_mono [OF advances_refl [of e w], of k] by simp
  qed
  have "advances e k w1 (emits e (take (nat len) s) w1)" using advances_mono [OF advances_emits] l(2) by simp
  then have "advances e (k + (k + k)) w w'" unfolding x(1) by (intro advances_trans [OF x(3)] advances_trans [OF _ advances_pad [OF x(2)]])
  then show ?thesis by (rule advances_mono) simp
qed

text \<open>The widths and precisions of a conversion, and its string, are at most \<open>k\<close>.\<close>

definition field_within :: "nat \<Rightarrow> int \<Rightarrow> int \<Rightarrow> u8 \<Rightarrow> va_arg list \<Rightarrow> bool" where
  "field_within k width precision c args \<longleftrightarrow> width \<le> int k \<and> precision \<le> int k
     \<and> (c = 115 \<longrightarrow> (case args of VStr (Some s) # as \<Rightarrow> (case rt_strlen s of None \<Rightarrow> True | Some n \<Rightarrow> n \<le> k) | _ \<Rightarrow> True))"

lemma advances_field:
  assumes "print_field e fl width precision qualifier c cs args w = Some (ds, args', w')" "field_within k width precision c args"
  shows "advances e (4 * k + 53) w w'"
proof -
  have F: "width \<le> int k" "precision \<le> int k" using assms(2) by (simp_all add: field_within_def)
  then have F8: "width \<le> int (k + 6)" "8 \<le> int (k + 8)" "precision \<le> int (k + 8)" by simp_all
  have lift: "advances e j w x \<Longrightarrow> j \<le> 4 * k + 53 \<Longrightarrow> advances e (4 * k + 53) w x" for j x by (rule advances_mono)
  consider (str) "c = 115" | (other) "c \<noteq> 115" by blast
  then show ?thesis
  proof cases
    case str
    then obtain x as where x: "args = VStr x # as"
      "print_string e fl width precision (case x of None \<Rightarrow> null_string | Some s \<Rightarrow> s) w = Some w'"
      using assms(1) by (auto simp: print_field_def va_str_def bind_Some_iff split: list.splits va_arg.splits)
    have "\<forall>n. rt_strlen (case x of None \<Rightarrow> null_string | Some s \<Rightarrow> s) = Some n \<longrightarrow> n \<le> k + 6"
      using assms(2) x(1) str
      by (cases x) (auto simp: field_within_def null_string_def split: option.splits)
    from lift [OF advances_string [OF x(2) F8(1) this]] show ?thesis by simp
  next
    case other
    have two: "advances e 2 w (emit e d (emit e d' w))" for d d'
      using advances_trans [OF advances_emit [of e w] advances_emit] by (simp add: numeral_2_eq_2)
    have "w' \<in> {print_char e fl width d w | d. True} \<union> {print_number e x b width precision f w | x b f. True}
       \<union> {print_number e x b 8 precision f w | x b f. True} \<union> {emit e d w | d. True} \<union> {emit e d (emit e d' w) | d d'. True}"
      using assms(1) other unfolding print_field_def Let_def by (auto simp: bind_Some_iff split: if_splits) blast+
    then show ?thesis
      using lift [OF advances_char [OF F(1)]] lift [OF advances_number [OF F]] lift [OF advances_number [OF F8(2,3)]]
        lift [OF advances_emit] lift [OF two] by auto
  qed
qed

text \<open>The conversions of a format, one after the other.\<close>

function fields_within :: "nat \<Rightarrow> u8 list \<Rightarrow> va_arg list \<Rightarrow> bool" where
  "fields_within k fmt args = (case fmt of
     [] \<Rightarrow> True
   | c # cs \<Rightarrow>
       if c = 0 then True
       else if c \<noteq> 37 then fields_within k cs args
       else (case parse_conv cs args of None \<Rightarrow> True
             | Some (fl, width, precision, qualifier, d, cs', args') \<Rightarrow> field_within k width precision d args'
                 \<and> fields_within k (if d = 0 then d # cs' else cs') (if takes_arg d then tl args' else args')))"
  by auto
termination
  by (relation "measure (\<lambda>(_, fmt, _). length fmt)") (auto dest!: parse_conv_length)

declare fields_within.simps [simp del]

section \<open>Printing stays in the buffer\<close>

lemma print_loop_cases:
  "print_loop e [] args w = None" "print_loop e (0 # cs) args w = Some w"
  "c \<noteq> 0 \<Longrightarrow> c \<noteq> 37 \<Longrightarrow> print_loop e (c # cs) args w = print_loop e cs args (emit e c w)"
  "print_conv e cs args w = None \<Longrightarrow> print_loop e (37 # cs) args w = None"
  "print_conv e cs args w = Some (ds, args', w') \<Longrightarrow> print_loop e (37 # cs) args w = print_loop e ds args' w'"
  by (subst print_loop.simps, simp)+

lemma advances_conv:
  assumes "print_conv e cs args w = Some (ds, args', w')" "fields_within k (37 # cs) args"
  shows "advances e (4 * k + 53) w w'" "fields_within k ds args'"
proof -
  from assms(1) obtain fl width precision qualifier c cs' as where
    p: "parse_conv cs args = Some (fl, width, precision, qualifier, c, cs', as)"
    "print_field e fl width precision qualifier c cs' as w = Some (ds, args', w')" by (rule print_conv_field)
  have "field_within k width precision c as"
    "fields_within k (if c = 0 then c # cs' else cs') (if takes_arg c then tl as else as)"
    using assms(2) by (subst (asm) fields_within.simps, simp add: p(1))+
  then show "advances e (4 * k + 53) w w'" "fields_within k ds args'"
    using advances_field [OF p(2)] print_field_rest [OF p(2)] by simp_all
qed

lemma advances_loop:
  "print_loop e fmt args w = Some w' \<Longrightarrow> fields_within k fmt args \<Longrightarrow> advances e (length fmt * (4 * k + 53)) w w'"
proof (induction e fmt args w rule: print_loop.induct)
  case (1 e fmt args w)
  let ?b = "4 * k + 53"
  show ?case
  proof (cases fmt)
    case Nil
    then show ?thesis using "1.prems" by (simp add: print_loop_cases)
  next
    case (Cons c cs)
    consider "c = 0" | "c \<noteq> 0" "c \<noteq> 37" | "c = 37" by blast
    then show ?thesis
    proof cases
      case 1
      then show ?thesis using "1.prems" Cons advances_mono [OF advances_refl le0] by (simp add: print_loop_cases)
    next
      case 2
      have "fields_within k cs args" using "1.prems"(2) 2 unfolding Cons by (subst (asm) fields_within.simps) simp
      then have "advances e (length cs * ?b) (emit e c w) w'"
        using "1.IH"(1) [OF Cons 2(1) 2(2)] "1.prems"(1) Cons 2 by (simp add: print_loop_cases)
      from advances_mono [OF advances_trans [OF advances_emit this], of "length fmt * ?b"] show ?thesis by (simp add: Cons)
    next
      case 3
      show ?thesis
      proof (cases "print_conv e cs args w")
        case None
        then show ?thesis using "1.prems"(1) Cons 3 by (simp add: print_loop_cases)
      next
        case (Some r)
        obtain ds args' w1 where r: "r = (ds, args', w1)" by (cases r)
        note C = advances_conv [OF Some [unfolded r] "1.prems"(2) [unfolded Cons 3]]
        have "advances e (length ds * ?b) w1 w'" using "1.IH"(2) [OF Cons _ _ Some] "1.prems"(1) Cons 3 Some C(2) by (simp add: r print_loop_cases)
        moreover have "length ds * ?b \<le> length cs * ?b" using print_conv_length [OF Some [unfolded r]] by (rule mult_le_mono1)
        ultimately have "advances e (length cs * ?b) w1 w'" by (rule advances_mono)
        from advances_trans [OF C(1) this] show ?thesis by (simp add: Cons)
      qed
    qed
  qed
qed

lemma vsn_end:
  assumes "0 < sz" "buf + sz \<le> 2 ^ 32"
  shows "(let e = sub32 (add32 buf sz) 1 in if e < buf then 0xffffffff else e) = buf + sz - 1"
proof -
  have "sub32 (add32 buf sz) 1 = buf + sz - 1"
  proof (cases "buf + sz = 2 ^ 32")
    case False
    then have l: "buf + sz < 2 ^ 32" using assms(2) by simp
    obtain k where k: "buf + sz = Suc k" using assms(1) by (cases "buf + sz") auto
    have "(k + 2 ^ 32) mod 2 ^ 32 = k" using l k by simp
    then show ?thesis using l k by (simp add: sub32_def add32_def)
  qed (simp add: sub32_def add32_def)
  then show ?thesis using assms(1) by (simp add: Let_def)
qed

lemma rt_vsnprintf_within:
  assumes "rt_vsnprintf buf sz fmt args m = Some (n, m')" "0 < sz" "buf + sz \<le> 2 ^ 32"
    and "fields_within k fmt args" "buf + length fmt * (4 * k + 53) < 2 ^ 32"
  shows "\<forall>a. a < buf \<or> buf + sz \<le> a \<longrightarrow> m' a = m a" "m' (buf + min n (sz - 1)) = 0" "n \<le> length fmt * (4 * k + 53)"
proof -
  obtain str m1 where l: "print_loop (buf + sz - 1) fmt args (buf, m) = Some (str, m1)" "n = sub32 str buf"
    "m' = (if str \<le> buf + sz - 1 then m1(str := 0) else m1(buf + sz - 1 := 0))"
    using assms(1) unfolding rt_vsnprintf_def vsn_end [OF assms(2,3)] Let_def [of "buf + sz - 1"] by (auto simp: bind_Some_iff)
  have w: "buf \<le> str" "str \<le> buf + length fmt * (4 * k + 53)" "\<forall>a. a < buf \<or> str \<le> a \<or> buf + sz - 1 < a \<longrightarrow> m1 a = m a"
    using advances_loop [OF l(1) assms(4)] assms(5) by (simp_all add: advances_def)
  have n: "n = str - buf" using l(2) w(1,2) assms(5) by (simp add: sub32_small)
  then show "n \<le> length fmt * (4 * k + 53)" using w(2) by simp
  show "\<forall>a. a < buf \<or> buf + sz \<le> a \<longrightarrow> m' a = m a" using w assms(2) by (auto simp: l(3))
  have "buf + min n (sz - 1) = (if str \<le> buf + sz - 1 then str else buf + sz - 1)" using w(1) n assms(2) by (auto simp: min_def)
  then show "m' (buf + min n (sz - 1)) = 0" by (simp add: l(3))
qed

section \<open>Decimal numbers\<close>

text \<open>What \<open>emits\<close> leaves in memory when there is room.\<close>

definition put_text :: "nat \<Rightarrow> u8 list \<Rightarrow> memory \<Rightarrow> memory" where
  "put_text p cs m = (\<lambda>a. if p \<le> a \<and> a < p + length cs then cs ! (a - p) else m a)"

lemma put_text_Nil [simp]: "put_text p [] m = m"
  by (rule ext) (auto simp: put_text_def)

lemma put_text_Cons: "put_text p (c # cs) m = put_text (p + 1) cs (m(p := c))"
proof
  fix a
  consider "a < p" | "a = p" | j where "a = Suc (p + j)" by (metis less_imp_Suc_add linorder_neqE_nat)
  then show "put_text p (c # cs) m a = put_text (p + 1) cs (m(p := c)) a" by cases (auto simp: put_text_def)
qed

lemma put_text_read: "map (put_text p cs m) [p ..< p + length cs] = cs"
  by (rule nth_equalityI) (auto simp: put_text_def)

lemma emits_put_text: "p + length cs \<le> e + 1 \<Longrightarrow> p + length cs < 2 ^ 32 \<Longrightarrow> emits e cs (p, m) = (p + length cs, put_text p cs m)"
proof (induction cs arbitrary: p m)
  case (Cons c cs)
  then show ?case using Cons.IH [of "p + 1" "m(p := c)"] by (simp add: emits_def emit_def put_text_Cons fun_upd_def add32_small)
qed (simp add: emits_def)

lemma pad_none [simp]: "n \<le> 0 \<Longrightarrow> pad e n c w = w"
  by (simp add: pad_def emits_def)

definition digits_value :: "int \<Rightarrow> u8 list \<Rightarrow> int" where
  "digits_value i cs = foldl (\<lambda>i c. i * 10 + (uint c - 48)) i cs"

lemma skip_atoi_digits:
  "\<forall>c \<in> set cs. isdigit c \<Longrightarrow> \<not> isdigit d \<Longrightarrow> skip_atoi i (cs @ [d]) = (digits_value i cs, [d])"
  by (induction cs arbitrary: i) (auto simp: digits_value_def)

lemma decimal_digit:
  assumes "r < (10 :: u32)"
  shows "small_digits ! unat r = 48 + ucast r" "isdigit (small_digits ! unat r)" "uint (small_digits ! unat r) - 48 = uint r"
proof -
  have u: "unat r < 10" using assms by (simp add: word_less_nat_alt)
  have r: "r = of_nat (unat r)" by simp
  consider "r = 0" | "r = 1" | "r = 2" | "r = 3" | "r = 4" | "r = 5" | "r = 6" | "r = 7" | "r = 8" | "r = 9"
  proof -
    have "unat r \<in> {0, 1, 2, 3, 4, 5, 6, 7, 8, 9}" using u by auto
    then have "of_nat (unat r) \<in> {0, 1, 2, 3, 4, 5, 6, 7, 8, 9 :: u32}" by (elim insertE emptyE) simp_all
    then show ?thesis using that r by force
  qed
  then show "small_digits ! unat r = 48 + ucast r" "isdigit (small_digits ! unat r)" "uint (small_digits ! unat r) - 48 = uint r"
    by (cases; simp add: small_digits_def isdigit_def)+
qed

lemma tmp_digits_decimal:
  "(\<forall>c \<in> set (tmp_digits small_digits 10 n). isdigit c) \<and> digits_value 0 (rev (tmp_digits small_digits 10 n)) = uint n"
proof (induction "unat n" arbitrary: n rule: less_induct)
  case less
  show ?case
  proof (cases "n = 0")
    case True
    then show ?thesis by (simp add: tmp_digits.simps digits_value_def)
  next
    case False
    have r: "n mod 10 < 10" by (simp add: word_mod_less_divisor)
    have q: "unat (n div 10) < unat n" using False by (simp add: unat_div unat_gt_0)
    have t: "tmp_digits small_digits 10 n = small_digits ! unat (n mod 10) # tmp_digits small_digits 10 (n div 10)"
      using False by (subst tmp_digits.simps) (simp add: divide_def)
    have v: "uint n = uint (n div 10) * 10 + uint (n mod 10)" by (simp add: uint_div uint_mod)
    show ?thesis using less [OF q] decimal_digit [OF r] v by (simp add: t digits_value_def)
  qed
qed

text \<open>The text of a number in base 10, without a field or precision.\<close>

definition decimal :: "u32 \<Rightarrow> u8 list" where
  "decimal n = (if n = 0 then [48] else rev (tmp_digits small_digits 10 n))"

lemma decimal_value: "\<not> isdigit d \<Longrightarrow> skip_atoi 0 (decimal n @ [d]) = (uint n, [d])"
  using tmp_digits_decimal [of n] by (auto simp: decimal_def skip_atoi_digits) (simp add: isdigit_def)

lemma decimal_length: "length (decimal n) \<le> 10"
  using tmp_digits_ten by (simp add: decimal_def)

lemma print_number_decimal:
  fixes sign :: "u8 list"
  assumes "sign = (if sint n < 0 then [45] else [])" "p + length sign + length (decimal (if sint n < 0 then - n else n)) \<le> e + 1"
    "p + length sign + length (decimal (if sint n < 0 then - n else n)) < 2 ^ 32"
  shows "print_number e n 10 (- 1) (- 1) SIGN (p, m) =
    (p + length (sign @ decimal (if sint n < 0 then - n else n)), put_text p (sign @ decimal (if sint n < 0 then - n else n)) m)"
proof -
  define k where "k = (if sint n < 0 then - n else n)"
  have f: "SIGN AND LEFT = 0" "SIGN AND LARGE = 0" "SIGN AND SIGN \<noteq> 0" "SIGN AND PLUS = 0" "SIGN AND SPACE = 0"
    "SIGN AND (ZEROPAD OR LEFT) = 0" "SIGN AND ZEROPAD = 0"
    by (simp_all add: SIGN_def LEFT_def LARGE_def PLUS_def SPACE_def ZEROPAD_def)
  have ty: "(if SIGN AND LEFT \<noteq> 0 then SIGN AND NOT ZEROPAD else SIGN) = SIGN" by (simp add: f)
  have s: "number_sign SIGN n = (if sint n < 0 then 45 else 0, k)" using f(3) by (simp add: number_sign_def f k_def)
  define tmp where "tmp = (if k = 0 then [48] else tmp_digits small_digits 10 k)"
  have d: "rev tmp = decimal k" "length tmp = length (decimal k)" by (simp_all add: decimal_def tmp_def)
  have "print_number e n 10 (- 1) (- 1) SIGN (p, m) = emits e (rev tmp) (emits e sign (p, m))"
    by (simp add: print_number_def ty f s Let_def pad_front_def put_sign_def pad_number_def padded_def assms(1) emits_def flip: tmp_def)
  also have "\<dots> = emits e (sign @ decimal k) (p, m)" by (simp add: d emits_def)
  finally show ?thesis using assms(2,3) by (simp add: emits_put_text add.assoc flip: k_def)
qed

text \<open>\<open>divide\<close> knows the base 10 and takes every other for 16: octal numbers come out in hexadecimal.\<close>

lemma octal_is_hexadecimal: "print_number e num 8 s precision type w = print_number e num 16 s precision type w"
proof -
  have "tmp_digits digits 8 n = tmp_digits digits 16 n" for digits n
    by (induction digits "16 :: nat" n rule: tmp_digits.induct) (subst (1 2) tmp_digits.simps, simp add: divide_def)
  then show ?thesis by (simp only: print_number_def)
qed

text \<open>The conversion of one signed number as the whole format.\<close>

definition signed_text :: "u32 \<Rightarrow> u8 list" where
  "signed_text n = (if sint n < 0 then 45 # decimal (- n) else decimal n)"

lemma signed_text_length: "0 < length (signed_text n)" "length (signed_text n) \<le> 11"
proof -
  have "0 < length (decimal n)" by (cases "n = 0") (simp_all add: decimal_def, subst tmp_digits.simps, simp add: divide_def)
  then show "0 < length (signed_text n)" by (simp add: signed_text_def)
  show "length (signed_text n) \<le> 11" using decimal_length [of n] decimal_length [of "- n"] by (simp add: signed_text_def)
qed

lemma print_loop_signed:
  assumes "p + length (signed_text x) \<le> e + 1" "p + length (signed_text x) < 2 ^ 32"
  shows "print_loop e [37, 100, 0] [VInt x] (p, m) = Some (p + length (signed_text x), put_text p (signed_text x) m)"
proof -
  have c: "print_conv e [100, 0] [VInt x] (p, m) = Some ([0], [], print_number e x 10 (- 1) (- 1) SIGN (p, m))"
    by (simp add: print_conv_def parse_conv_def fmt_width_def isdigit_def fmt_precision_def fmt_qualifier_def print_field_def int_arg_def va_int_def)
  have "print_number e x 10 (- 1) (- 1) SIGN (p, m) = (p + length (signed_text x), put_text p (signed_text x) m)"
    using print_number_decimal [OF refl, of p x e m] assms by (auto simp: signed_text_def split: if_splits)
  with c show ?thesis by (subst print_loop_cases(5) [OF c]) (simp add: print_loop_cases)
qed

lemma sint_word: "sint n = (if uint n < 2 ^ 31 then uint n else uint n - 2 ^ 32)" for n :: u32
proof (cases "uint n < 2 ^ 31")
  case False
  have "(uint n + 2 ^ 31) mod 2 ^ 32 = (uint n - 2 ^ 31 + 2 ^ 32) mod 2 ^ 32" by (simp add: add.commute)
  also have "\<dots> = uint n - 2 ^ 31" unfolding mod_add_self2 by (rule mod_pos_pos_trivial) (use False uint_lt2p [of n] in simp_all)
  finally show ?thesis using False by (simp add: sint_uint signed_take_bit_eq_take_bit_shift take_bit_eq_mod)
qed (use uint_lt2p [of n] in \<open>simp add: sint_uint signed_take_bit_eq_take_bit_shift take_bit_eq_mod\<close>)

lemma signed_text_value:
  "skip_atoi 0 ((if sint n < 0 then tl (signed_text n) else signed_text n) @ [0]) = (\<bar>sint n\<bar>, [0])" "sint n < 0 \<Longrightarrow> hd (signed_text n) = 45"
proof -
  have "\<not> isdigit 0" by (simp add: isdigit_def)
  moreover have "uint (- n) = - sint n" if "sint n < 0"
    using that uint_lt2p [of n] by (simp add: sint_word uint_word_ariths(4) zmod_zminus1_eq_if split: if_splits)
  moreover have "uint n = sint n" if "\<not> sint n < 0" using that uint_lt2p [of n] by (simp add: sint_word split: if_splits)
  ultimately show "skip_atoi 0 ((if sint n < 0 then tl (signed_text n) else signed_text n) @ [0]) = (\<bar>sint n\<bar>, [0])"
    by (simp add: signed_text_def decimal_value)
qed (simp add: signed_text_def)

lemma rt_vsnprintf_signed:
  assumes "length (signed_text x) < sz" "buf + sz \<le> 2 ^ 32"
  shows "rt_vsnprintf buf sz [37, 100, 0] [VInt x] m = Some (length (signed_text x), put_text buf (signed_text x @ [0]) m)"
proof -
  let ?t = "signed_text x"
  have l: "print_loop (buf + sz - 1) [37, 100, 0] [VInt x] (buf, m) = Some (buf + length ?t, put_text buf ?t m)"
    by (rule print_loop_signed) (use assms in simp_all)
  have "(put_text buf ?t m)(buf + length ?t := 0) = put_text buf (?t @ [0]) m"
    by (rule ext) (auto simp: put_text_def nth_append)
  then show ?thesis
    using assms sub32_small [of buf "buf + length ?t"] unfolding rt_vsnprintf_def vsn_end [OF le_less_trans [OF le0 assms(1)] assms(2)] Let_def [of "buf + sz - 1"] l by auto
qed

section \<open>Fields that wrap the pointer\<close>

lemma emits_pointer: "p < 2 ^ 32 \<Longrightarrow> fst (emits e cs (p, m)) = (p + length cs) mod 2 ^ 32"
proof (induction cs arbitrary: p m)
  case (Cons c cs)
  have "add32 p 1 < 2 ^ 32" by (simp add: add32_def)
  from Cons.IH [OF this] have "fst (emits e (c # cs) (p, m)) = (add32 p 1 + length cs) mod 2 ^ 32" by (simp add: emits_def emit_def)
  then show ?case unfolding add32_def mod_add_left_eq by simp
qed (simp add: emits_def)

lemma emits_to_top: "e < p \<Longrightarrow> p < 2 ^ 32 \<Longrightarrow> p + length cs = 2 ^ 32 \<Longrightarrow> emits e cs (p, m) = (0, m)"
proof (induction cs arbitrary: p)
  case (Cons c cs)
  show ?case
  proof (cases "cs = []")
    case True
    then show ?thesis using Cons.prems by (simp add: emits_def emit_def add32_def)
  next
    case False
    then have "p + 1 < 2 ^ 32" using Cons.prems(3) by (cases cs) auto
    then show ?thesis using Cons.IH [of "p + 1"] Cons.prems by (simp add: emits_def emit_def add32_small)
  qed
qed (simp add: emits_def)

text \<open>A field from behind the buffer to beyond the top of the address space overwrites the lowest byte.\<close>

lemma pad_wraps:
  assumes "e < p" "p < 2 ^ 32" "2 ^ 32 < p + nat n" "nat n < 2 ^ 32"
  shows "snd (pad e n c (p, m)) 0 = c"
proof -
  define a b where "a = 2 ^ 32 - p" and "b = nat n - a - 1"
  have ab: "nat n = a + Suc b" "p + a = 2 ^ 32" "1 + b < 2 ^ 32" using assms unfolding a_def b_def by linarith+
  let ?w = "emits e (replicate b c) (1, m(0 := c))"
  have "emits e (replicate a c) (p, m) = (0, m)" using emits_to_top [OF assms(1,2), of "replicate a c" m] ab(2) by simp
  moreover have "pad e n c (p, m) = emits e (replicate b c) (emit e c (emits e (replicate a c) (p, m)))"
    unfolding pad_def ab(1) replicate_add replicate_Suc by (simp add: emits_def del: fold_replicate)
  ultimately have "pad e n c (p, m) = ?w" by (simp add: emit_def add32_small)
  moreover have "snd ?w 0 = c" using advances_emits [of e "replicate b c" "(1, m(0 := c))"] ab(3) by (simp add: advances_def)
  ultimately show ?thesis by simp
qed

lemma vsnprintf_wide_fields_escape:
  "\<exists>n m'. rt_vsnprintf 0x20000000 4 [37, 42, 99, 37, 42, 99, 0] [VInt 0x7fffffff, VInt 65, VInt 0x7fffffff, VInt 65] m = Some (n, m') \<and> m' 0 = 32"
proof -
  let ?e = "0x20000003 :: nat" and ?N = "0x7ffffffe :: int"
  have conv: "print_conv ?e (42 # 99 # cs) (VInt 0x7fffffff # VInt 65 # as) w = Some (cs, as, emit ?e 65 (pad ?e ?N 32 w))" for cs as w
    by (simp add: print_conv_def parse_conv_def fmt_width_def isdigit_def va_int_def fmt_precision_def fmt_qualifier_def print_field_def
        print_char_def LEFT_def)
  define w1 where "w1 = emit ?e 65 (pad ?e ?N 32 (0x20000000, m))"
  define w2 where "w2 = pad ?e ?N 32 w1"
  have p: "fst (pad ?e ?N 32 (q, m')) = (q + 0x7ffffffe) mod 2 ^ 32" if "q < 2 ^ 32" for q m'
    using emits_pointer [OF that, of ?e "replicate (nat ?N) 32" m'] by (simp only: pad_def length_replicate) simp
  obtain m1 where w1: "w1 = (0x9fffffff, m1)"
    using p [of "0x20000000" m] by (cases "pad ?e ?N 32 (0x20000000, m)") (simp add: w1_def emit_def add32_def)
  have "snd w2 0 = 32" unfolding w2_def w1 by (rule pad_wraps) simp_all
  moreover have "fst w2 = 0x1ffffffd" unfolding w2_def w1 using p [of "0x9fffffff" m1] by simp
  ultimately obtain m2 where w2: "w2 = (0x1ffffffd, m2)" "m2 0 = 32" by (cases w2) auto
  have "print_loop ?e [37, 42, 99, 37, 42, 99, 0] [VInt 0x7fffffff, VInt 65, VInt 0x7fffffff, VInt 65] (0x20000000, m) = Some (emit ?e 65 w2)"
    by (simp only: print_loop_cases(2,5) conv w1_def [symmetric] w2_def [symmetric])
  then show ?thesis using w2(2) by (simp add: rt_vsnprintf_def Let_def sub32_def add32_def w2(1) emit_def)
qed

end
