(* ===== verification/RT_Console.thy ===== *)
theory RT_Console
  imports RT_Pipe RT_Printf
begin

text \<open>
  The console of \<open>src/kservice.c\<close>: the device that the output of the kernel goes to, and \<open>rt_kprintf\<close>.
  The variable \<open>_console_device\<close> is passed along; \<open>log_buf\<close> is the address of the static buffer. Without
  a device the output goes to \<open>rt_hw_console_output\<close>, which is empty.
\<close>

definition RT_CONSOLEBUF_SIZE :: nat where "RT_CONSOLEBUF_SIZE = 512"
definition RT_DEVICE_FLAG_STREAM :: u16 where "RT_DEVICE_FLAG_STREAM = 0x040"

type_synonym console = "nat option"

definition rt_console_get_device :: "console \<Rightarrow> nat option" where
  "rt_console_get_device con = con"

definition rt_console_set_device :: "dev_ops \<Rightarrow> u8 list \<Rightarrow> console \<times> kernel \<Rightarrow> (nat option \<times> console \<times> kernel) option" where
  "rt_console_set_device ops name cs = (case cs of (con, s) \<Rightarrow> do {
     (r, s1) \<leftarrow> rt_device_find name s;
     case r of
       None \<Rightarrow> Some (con, con, s1)
     | Some ob \<Rightarrow> do {
         s2 \<leftarrow> (case con of None \<Rightarrow> Some s1 | Some i \<Rightarrow> map_option snd (rt_device_close ops (Some i) s1));
         let new = device_at ob;
         (_, s3) \<leftarrow> rt_device_open ops new (RT_DEVICE_OFLAG_RDONLY OR RT_DEVICE_OFLAG_WRONLY) s2;
         Some (con, new, s3) } })"

text \<open>
  When the driver suspends the thread, the call goes on with \<open>rt_kprintf_resumed\<close> after the driver has
  finished: it restores the flags.
\<close>

definition rt_kprintf_resumed :: "nat \<Rightarrow> u16 \<Rightarrow> kernel \<Rightarrow> kernel" where
  "rt_kprintf_resumed i old_flag s = upd_dev i (\<lambda>d. d\<lparr>dflag := old_flag\<rparr>) s"

definition rt_kprintf :: "dev_ops \<Rightarrow> nat \<Rightarrow> u8 list \<Rightarrow> va_arg list \<Rightarrow> console \<times> kernel \<Rightarrow> ((nat \<times> u16, unit) outcome \<times> kernel) option" where
  "rt_kprintf ops log_buf fmt args cs = (case cs of (con, s) \<Rightarrow> do {
     (n, m) \<leftarrow> rt_vsnprintf log_buf (RT_CONSOLEBUF_SIZE - 1) fmt args (ram s);
     let length = (if n > RT_CONSOLEBUF_SIZE - 1 then RT_CONSOLEBUF_SIZE - 1 else n);
     let s1 = s\<lparr>ram := m\<rparr>;
     case con of
       None \<Rightarrow> Some (Ret (), s1)
     | Some i \<Rightarrow> do {
         let old_flag = dflag (devices s1 i);
         let s2 = upd_dev i (\<lambda>d. d\<lparr>dflag := dflag d OR RT_DEVICE_FLAG_STREAM\<rparr>) s1;
         (r, s3) \<leftarrow> rt_device_write ops (Some i) 0 log_buf (of_nat length) s2;
         (case r of
            Ret _ \<Rightarrow> Some (Ret (), rt_kprintf_resumed i old_flag s3)
          | Block k \<Rightarrow> Some (Block (k, old_flag), s3)) } })"

section \<open>Output through a pipe\<close>

lemma pipe_bytes_cong:
  assumes "pipe_ok i s" "off_pipe i s p n" "pipes s' = pipes s" "\<forall>a. a < p \<or> p + n \<le> a \<longrightarrow> ram s' a = ram s a"
  shows "pipe_bytes i s' = pipe_bytes i s"
proof -
  have "rb_content (ringbuffer (pipes s i)) (ram s') = rb_content (ringbuffer (pipes s i)) (ram s)"
    by (rule rb_content_cong) (use assms in \<open>auto simp: pipe_ok_def off_pipe_def apart_def\<close>)
  then show ?thesis using assms(3) by (simp add: pipe_bytes_def)
qed

text \<open>A text that fits the buffer and the pipe arrives at the end of what is in the pipe.\<close>

lemma rt_kprintf_pipe:
  assumes K: "ipc_inv s L T" and ok: "pipe_ok i s" "off_pipe i s log_buf 511" "log_buf + 511 \<le> 2 ^ 32"
    and dev: "ref_count (devices s i) \<noteq> 0" "dwrite (devices s i)" "rx_indicate (devices s i) = None"
    and n: "rt_vsnprintf log_buf 511 fmt args (ram s) = Some (n, m)" "0 < n" "n < 511" "length (pipe_bytes i s) + n \<le> pipe_size i s"
      "\<forall>a. a < log_buf \<or> log_buf + 511 \<le> a \<longrightarrow> m a = ram s a"
    and f: "pflag (pipes s i) AND RT_PIPE_FLAG_FORCE_WR = 0" "L (HPipeRead i) \<noteq> [] \<longrightarrow> pflag (pipes s i) AND RT_PIPE_FLAG_BLOCK_RD \<noteq> 0"
    and c: "rt_current_thread s \<noteq> None" "rt_interrupt_nest s = 0"
  shows "\<exists>s'. rt_kprintf (pipe_ops cb) log_buf fmt args (Some i, s) = Some (Ret (), s')
     \<and> pipe_bytes i s' = pipe_bytes i s @ bytes_at m log_buf n \<and> pipe_ok i s' \<and> dflag (devices s' i) = dflag (devices s i)
     \<and> (\<forall>t ts. L (HPipeRead i) = t # ts \<longrightarrow> stat (threads s' t) = RT_THREAD_READY)"
proof -
  define s2 where "s2 = upd_dev i (\<lambda>d. d\<lparr>dflag := dflag d OR RT_DEVICE_FLAG_STREAM\<rparr>) (s\<lparr>ram := m\<rparr>)"
  have s2: "pipes s2 = pipes s" "ram s2 = m" "rt_current_thread s2 = rt_current_thread s" "rt_interrupt_nest s2 = rt_interrupt_nest s"
    "ref_count (devices s2 i) = ref_count (devices s i)" "dwrite (devices s2 i) = dwrite (devices s i)"
    "rx_indicate (devices s2 i) = rx_indicate (devices s i)"
    by (simp_all add: s2_def upd_dev_def)
  have b: "pipe_bytes i s2 = pipe_bytes i s" using n(5) by (intro pipe_bytes_cong [OF ok(1,2)]) (simp_all add: s2)
  have u: "len16 (of_nat n) = n" using n(3) by (simp add: unsigned_ucast_eq take_bit_eq_mod unat_of_nat)
  have off: "off_pipe i s2 log_buf n" using ok(2) n(3) by (auto simp: off_pipe_def apart_def s2)
  have K2: "ipc_inv s2 L T" using K by (simp add: s2_def)
  have o2: "pipe_ok i s2" "pipe_size i s2 = pipe_size i s" using ok(1) by (simp_all add: pipe_ok_def pipe_size_def s2)
  from rt_pipe_write_fits [OF K2 o2(1), of log_buf "of_nat n" cb 0] obtain s3 where
    s3: "rt_pipe_write cb i 0 log_buf (of_nat n) s2 = Some (Ret (of_nat n), s3)" "pipe_ok i s3"
    "pipe_bytes i s3 = pipe_bytes i s @ bytes_at m log_buf n" "\<forall>t ts. L (HPipeRead i) = t # ts \<longrightarrow> stat (threads s3 t) = RT_THREAD_READY"
    unfolding u b o2(2) s2 using off n(2,4) f c dev(3) by blast
  have w: "rt_device_write (pipe_ops cb) (Some i) 0 log_buf (of_nat n) s2 = Some (Ret (of_nat n), s3)"
    using s3(1) dev(1,2) by (simp add: rt_device_write_def s2 pipe_ops_def)
  let ?s' = "rt_kprintf_resumed i (dflag (devices s i)) s3"
  have "rt_kprintf (pipe_ops cb) log_buf fmt args (Some i, s) = Some (Ret (), ?s')"
    using w n(1,3) by (simp add: rt_kprintf_def RT_CONSOLEBUF_SIZE_def Let_def flip: s2_def)
  moreover have "pipe_bytes i ?s' = pipe_bytes i s3" "pipe_ok i ?s' = pipe_ok i s3" "threads ?s' = threads s3"
    "dflag (devices ?s' i) = dflag (devices s i)"
    by (simp_all add: rt_kprintf_resumed_def upd_dev_def pipe_bytes_def pipe_ok_def)
  ultimately show ?thesis using s3(2-4) by auto
qed

text \<open>
  A text that does not fit the buffer: the length is cut to the size of the buffer less one, but the text ends one
  byte before that, and the last byte handed to the device is the terminating zero.
\<close>

lemma rt_kprintf_cut:
  assumes "rt_vsnprintf log_buf 511 fmt args (ram s) = Some (n, m)" "511 \<le> n" "log_buf + 511 \<le> 2 ^ 32"
    and "fields_within k fmt args" "log_buf + length fmt * (4 * k + 53) < 2 ^ 32"
  shows "rt_kprintf ops log_buf fmt args (Some i, s) = do {
      (r, s3) \<leftarrow> rt_device_write ops (Some i) 0 log_buf 511
        (upd_dev i (\<lambda>d. d\<lparr>dflag := dflag d OR RT_DEVICE_FLAG_STREAM\<rparr>) (s\<lparr>ram := m\<rparr>));
      (case r of
         Ret _ \<Rightarrow> Some (Ret (), rt_kprintf_resumed i (dflag (devices s i)) s3)
       | Block k \<Rightarrow> Some (Block (k, dflag (devices s i)), s3)) }"
    and "last (bytes_at m log_buf 511) = 0"
proof -
  show "last (bytes_at m log_buf 511) = 0"
    using rt_vsnprintf_within(2) [OF assms(1) _ assms(3-5)] assms(2) by (simp add: last_conv_nth flip: length_0_conv)
qed (use assms in \<open>auto simp: rt_kprintf_def RT_CONSOLEBUF_SIZE_def Let_def\<close>)

end
