(* ===== verification/RT_HeapUtil.thy ===== *)
theory RT_HeapUtil
  imports RT_HeapClient RT_CpuPort
begin

text \<open>
  The routines of \<open>src/kservice.c\<close> that use the heap: aligned blocks and copies of strings.
\<close>

section \<open>Definitions\<close>

definition rt_malloc_align :: "u32 \<Rightarrow> u32 \<Rightarrow> heap \<times> memory \<Rightarrow> (nat option \<times> heap \<times> memory) option" where
  "rt_malloc_align sz align0 hm = (case hm of (h, m) \<Rightarrow> do {
     let align = (align0 + 3) AND NOT 3;
     let align_size = ((sz + 3) AND NOT 3) + align;
     (r, h1) \<leftarrow> rt_malloc (unat align_size) h;
     case r of
       None \<Rightarrow> Some (None, h1, m)
     | Some q \<Rightarrow> do {
         let ptr = (of_nat q :: u32);
         let align_ptr = (if ptr AND (align - 1) = 0 then ptr + align else (ptr + (align - 1)) AND NOT (align - 1));
         Some (Some (unat align_ptr), h1, store32 m (unat (align_ptr - 4)) ptr) } })"

definition rt_free_align :: "u32 \<Rightarrow> heap \<times> memory \<Rightarrow> (heap \<times> memory) option" where
  "rt_free_align ptr hm = (case hm of (h, m) \<Rightarrow> do {
     let real_ptr = load32 m (unat (ptr - 4));
     h1 \<leftarrow> rt_free (if real_ptr = 0 then None else Some (unat real_ptr)) h;
     Some (h1, m) })"

text \<open>The length of the string at an address; a string without an end is \<open>None\<close>.\<close>

partial_function (option) strlen_at :: "memory \<Rightarrow> nat \<Rightarrow> nat \<Rightarrow> nat option" where
  "strlen_at m sc s = (if m sc = 0 then Some (sc - s) else strlen_at m (sc + 1) s)"

definition rt_strdup :: "nat \<Rightarrow> heap \<times> memory \<Rightarrow> (nat option \<times> heap \<times> memory) option" where
  "rt_strdup s hm = (case hm of (h, m) \<Rightarrow> do {
     n \<leftarrow> strlen_at m s s;
     let len = n + 1;
     (r, h1) \<leftarrow> rt_malloc len h;
     case r of
       None \<Rightarrow> Some (None, h1, m)
     | Some tmp \<Rightarrow> Some (Some tmp, h1, rt_memcpy m tmp s len) })"

section \<open>Aligned blocks\<close>

lemma in_use_range:
  assumes "heap_ok h" "(q, e) \<in> in_use h"
  shows "q mod 8 = 0" "0 < q" "e < 2 ^ 32" "q \<le> e"
proof -
  obtain b where b: "b \<in> heap_blocks h" "q = heap_ptr h + b + 16" "e = heap_ptr h + hN h b"
    using assms(2) by (auto simp: in_use_mem)
  have base: "heap_base h (heap_blocks h)" using assms(1) by (simp add: heap_ok_def heap_inv_def)
  note D = heap_baseD [OF base] and B = blocks_okD [OF heap_baseD(1) [OF base]]
  show "q mod 8 = 0" using D(4) B(4) [OF b(1)] by (simp add: b(2) mod_add_eq [symmetric, of "heap_ptr h + b"] mod_add_eq [symmetric, of "heap_ptr h"])
  show "0 < q" by (simp add: b(2))
  show "q \<le> e" using B(5) [OF b(1)] by (simp add: b(2,3))
  show "e < 2 ^ 32" using D(5) B(10) [OF b(1)] by (simp add: b(3))
qed

lemma mask_word: "(2 :: u32) ^ k - 1 = mask k"
  by (simp add: mask_eq_exp_minus_1)

lemma align_4:
  assumes "unat (x :: u32) + 3 < 2 ^ 32"
  shows "unat ((x + 3) AND NOT 3) = (unat x + 3) div 4 * 4"
proof -
  have m: "(3 :: u32) = mask 2" by (simp add: mask_eq_exp_minus_1)
  have s: "unat (x + 3) = unat x + 3" using assms by (simp add: unat_word_ariths)
  have "unat ((x + 3) AND NOT (mask 2)) = unat x + 3 - (unat x + 3) mod 4" using and_not_mask_mult [of "x + 3" 2] s by simp
  then show ?thesis using m by (simp add: minus_mod_eq_div_mult)
qed

lemma unat_two_power: "k < 32 \<Longrightarrow> unat ((2 :: u32) ^ k) = 2 ^ k"
  using unat_of_nat [of "2 ^ k", where 'a = 32] power_strict_increasing [of k 32 "2 :: nat"] by simp

lemma power_of_two_aligned:
  assumes "2 \<le> k" "k < 31"
  shows "((2 :: u32) ^ k + 3) AND NOT 3 = 2 ^ k"
proof -
  obtain j where j: "k = j + 2" using assms(1) by (metis add.commute le_Suc_ex)
  have u: "unat ((2 :: u32) ^ k) = 2 ^ k" using assms(2) by (simp add: unat_two_power)
  have "(2 :: nat) ^ k < 2 ^ 31" by (rule power_strict_increasing [OF assms(2)]) simp
  then have "unat (((2 :: u32) ^ k + 3) AND NOT 3) = (2 ^ k + 3) div 4 * 4" using align_4 [of "2 ^ k"] by (simp add: u)
  also have "\<dots> = unat ((2 :: u32) ^ k)" unfolding u by (simp add: j)
  finally show ?thesis by (rule word_unat_eq_iff [THEN iffD2])
qed

text \<open>The first aligned address behind \<open>q\<close> is at most the alignment and at least a word away.\<close>

definition next_aligned :: "nat \<Rightarrow> nat \<Rightarrow> nat" where
  "next_aligned a q = (q div a + 1) * a"

lemma next_aligned:
  assumes "0 < a" "4 dvd a" "4 dvd q"
  shows "next_aligned a q mod a = 0" "q + 4 \<le> next_aligned a q" "next_aligned a q \<le> q + a"
proof -
  have q: "q = q div a * a + q mod a" and l: "q mod a < a" using assms(1) by simp_all
  have n: "next_aligned a q = q div a * a + a" by (simp add: next_aligned_def)
  show "next_aligned a q mod a = 0" by (simp add: next_aligned_def)
  show "next_aligned a q \<le> q + a" using n q by linarith
  have "4 dvd a - q mod a" using assms(2,3) l by (simp add: dvd_diff_nat dvd_mod)
  then have "4 \<le> a - q mod a" using l by (auto intro: dvd_imp_le)
  then show "q + 4 \<le> next_aligned a q" using n q by linarith
qed

lemma align_pointer:
  fixes ptr :: u32
  assumes "k < 31" "unat ptr + 2 ^ k < 2 ^ 32"
  shows "unat (if ptr AND (2 ^ k - 1) = 0 then ptr + 2 ^ k else (ptr + (2 ^ k - 1)) AND NOT (2 ^ k - 1)) = next_aligned (2 ^ k) (unat ptr)"
proof -
  define a :: nat where "a = 2 ^ k"
  have a: "0 < a" "unat ((2 :: u32) ^ k) = a" using assms(1) by (simp_all add: a_def unat_two_power)
  have r: "unat (ptr AND mask k) = unat ptr mod a" using assms(1) by (simp add: a_def unat_mod unat_two_power take_bit_eq_mod flip: take_bit_eq_mask)
  show ?thesis
  proof (cases "unat ptr mod a = 0")
    case True
    then have "ptr AND mask k = 0" using r by (simp add: unat_eq_0)
    moreover have "unat (ptr + 2 ^ k) = unat ptr + a" using assms(2) a(2) by (simp add: unat_word_ariths flip: a_def)
    ultimately show ?thesis using True by (auto simp: mask_word next_aligned_def simp flip: a_def)
  next
    case False
    then have m: "ptr AND mask k \<noteq> 0" using r by (metis unat_0)
    have "unat (mask k :: u32) = a - 1" using a(1) unat_minus_one [of "(2 :: u32) ^ k"] unfolding mask_word [symmetric] a(2) [symmetric] by (metis unat_0 less_numeral_extra(3))
    then have "unat (ptr + mask k) = unat ptr + (a - 1)" using assms(2) a(1) by (simp add: unat_word_ariths flip: a_def)
    then have "unat ((ptr + mask k) AND NOT (mask k)) = (unat ptr + (a - 1)) div a * a"
      by (simp add: and_not_mask_mult minus_mod_eq_div_mult flip: a_def)
    moreover have "(unat ptr + (a - 1)) div a = unat ptr div a + 1"
    proof -
      define d r where "d = unat ptr div a" and "r = unat ptr mod a - 1"
      have "unat ptr = d * a + Suc r" using False div_mult_mod_eq [of "unat ptr" a] by (simp add: d_def r_def)
      then have e: "unat ptr + (a - 1) = r + (d + 1) * a" using a(1) by simp
      have "r < a" using a(1) by (simp add: r_def less_imp_diff_less)
      then show ?thesis unfolding e d_def [symmetric] using a(1) by (simp del: add_mult_distrib mult_Suc)
    qed
    ultimately show ?thesis using m by (simp add: mask_word next_aligned_def flip: a_def)
  qed
qed

lemma rt_malloc_align_spec:
  assumes "heap_ok h" "2 \<le> k" "k < 31" "unat sz + 2 ^ k + 14 < 2 ^ 32"
  shows "\<exists>r h1 m1. rt_malloc_align sz (2 ^ k) (h, m) = Some (r, h1, m1) \<and> heap_ok h1
    \<and> (case r of None \<Rightarrow> in_use h1 = in_use h \<and> m1 = m
       | Some p \<Rightarrow> p mod 2 ^ k = 0 \<and> (\<exists>q e. q + 4 \<le> p \<and> p + unat sz \<le> e \<and> e < 2 ^ 32
           \<and> in_use h1 = insert (q, e) (in_use h) \<and> (\<forall>z. (q, z) \<notin> in_use h)
           \<and> load32 m1 (p - 4) = of_nat q \<and> (\<forall>a. a < p - 4 \<or> p \<le> a \<longrightarrow> m1 a = m a)))"
proof -
  define a :: nat where "a = 2 ^ k"
  have k: "unat ((2 :: u32) ^ k) = a" "0 < a" using assms(3) by (simp_all add: a_def unat_two_power)
  have d: "4 dvd a" using le_imp_power_dvd [OF assms(2), of "2 :: nat"] by (simp add: a_def)
  define n where "n = ((sz + 3) AND NOT 3) + (2 :: u32) ^ k"
  have n: "unat n = (unat sz + 3) div 4 * 4 + a"
    using align_4 [of sz] assms(4) k by (simp add: n_def unat_word_ariths flip: a_def)
  have nb: "unat sz + a \<le> unat n" "unat n + 7 < 2 ^ 32" using n assms(4) by (simp_all flip: a_def)
  from malloc_ok [OF assms(1) nb(2)] obtain r h1 where h1: "rt_malloc (unat n) h = Some (r, h1)" "heap_ok h1"
    and r: "case r of None \<Rightarrow> in_use h1 = in_use h
       | Some p \<Rightarrow> \<exists>e. p + unat n \<le> e \<and> in_use h1 = insert (p, e) (in_use h) \<and> (\<forall>z. (p, z) \<notin> in_use h)" by blast
  note run = rt_malloc_align_def power_of_two_aligned [OF assms(2,3)] n_def [symmetric] h1(1) Let_def
  show ?thesis
  proof (cases r)
    case None
    then have "rt_malloc_align sz (2 ^ k) (h, m) = Some (None, h1, m)" by (simp only: run split bind.bind_lunit option.case)
    then show ?thesis using r h1(2) None by simp
  next
    case (Some q)
    with r obtain e where e: "q + unat n \<le> e" "in_use h1 = insert (q, e) (in_use h)" "\<forall>z. (q, z) \<notin> in_use h" by auto
    have q: "q mod 8 = 0" "e < 2 ^ 32" using in_use_range [OF h1(2), of q e] e(2) by auto
    then have q4: "4 dvd q" by presburger
    have uq: "unat (of_nat q :: u32) = q" using q(2) e(1) by (simp add: unat_of_nat)
    define p where "p = next_aligned a q"
    note p = next_aligned [OF k(2) d q4, folded p_def]
    have ap: "unat (if (of_nat q :: u32) AND (2 ^ k - 1) = 0 then (of_nat q :: u32) + 2 ^ k
        else (of_nat q + (2 ^ k - 1)) AND NOT (2 ^ k - 1)) = p" (is "unat ?ap = p")
    proof -
      have "unat (of_nat q :: u32) + 2 ^ k < 2 ^ 32" using uq e(1) nb(1) q(2) by (simp flip: a_def)
      from align_pointer [OF assms(3) this] show ?thesis by (simp only: uq p_def a_def)
    qed
    have s4: "unat (?ap - 4) = p - 4" using unat_sub_if' [of ?ap 4] ap p(2) by simp
    have "rt_malloc_align sz (2 ^ k) (h, m) = Some (Some p, h1, store32 m (p - 4) (of_nat q))"
      using Some by (simp only: run split bind.bind_lunit option.case ap s4)
    moreover have "\<forall>x. x < p - 4 \<or> p \<le> x \<longrightarrow> store32 m (p - 4) (of_nat q) x = m x"
      using store32_outside [of _ "p - 4" m "of_nat q"] p(2) by fastforce
    moreover have "p + unat sz \<le> e" using p(3) nb(1) e(1) by linarith
    ultimately show ?thesis using h1(2) e(2,3) p(1,2) q(2) load32_store32 by (auto simp flip: a_def)
  qed
qed

lemma rt_free_align_spec:
  assumes "heap_ok h" "(q, e) \<in> in_use h" "4 \<le> p" "p < 2 ^ 32" "load32 m (p - 4) = of_nat q"
  shows "\<exists>h'. rt_free_align (of_nat p) (h, m) = Some (h', m) \<and> heap_ok h' \<and> in_use h' = in_use h - {(q, e)}"
proof -
  note R = in_use_range [OF assms(1,2)]
  have uq: "unat (of_nat q :: u32) = q" using R(3,4) by (simp add: unat_of_nat)
  have "unat (of_nat p - 4 :: u32) = p - 4" using assms(3,4) unat_sub_if' [of "of_nat p :: u32" 4] by (simp add: unat_of_nat)
  moreover have "(of_nat q :: u32) \<noteq> 0" using uq R(2) by auto
  ultimately show ?thesis using free_ok [OF assms(1,2)] uq assms(5) by (auto simp: rt_free_align_def)
qed

section \<open>Copies of strings\<close>

lemma strlen_at_eq: "(\<forall>i < n. m (s + i) \<noteq> 0) \<Longrightarrow> m (s + n) = 0 \<Longrightarrow> j \<le> n \<Longrightarrow> strlen_at m (s + j) s = Some n"
proof (induction "n - j" arbitrary: j)
  case 0
  then have "m (s + j) = 0" "j = n" by simp_all
  then show ?case by (subst strlen_at.simps) simp
next
  case (Suc d)
  then have "m (s + j) \<noteq> 0" by simp
  moreover have "strlen_at m (s + (j + 1)) s = Some n" by (rule Suc.hyps(1)) (use Suc in simp_all)
  ultimately show ?case by (subst strlen_at.simps) simp
qed

lemma rt_strdup_spec:
  assumes "heap_ok h" "n + 8 < 2 ^ 32" "\<forall>i < n. m (s + i) \<noteq> 0" "m (s + n) = 0"
    and fresh: "\<And>p h'. rt_malloc (n + 1) h = Some (Some p, h') \<Longrightarrow> s + n < p \<or> p \<le> s"
  shows "\<exists>r h' m'. rt_strdup s (h, m) = Some (r, h', m') \<and> heap_ok h'
    \<and> (case r of None \<Rightarrow> in_use h' = in_use h \<and> m' = m
       | Some p \<Rightarrow> \<exists>e. p + n + 1 \<le> e \<and> in_use h' = insert (p, e) (in_use h) \<and> m' = blit m p s (n + 1))"
proof -
  have l: "strlen_at m s s = Some n" using strlen_at_eq [OF assms(3,4), of 0] by simp
  have n: "n + 1 + 7 < 2 ^ 32" using assms(2) by simp
  from malloc_ok [OF assms(1) n] obtain r h1 where h1: "rt_malloc (n + 1) h = Some (r, h1)" "heap_ok h1"
    and r: "case r of None \<Rightarrow> in_use h1 = in_use h
       | Some p \<Rightarrow> \<exists>e. p + (n + 1) \<le> e \<and> in_use h1 = insert (p, e) (in_use h) \<and> (\<forall>z. (p, z) \<notin> in_use h)" by blast
  show ?thesis
  proof (cases r)
    case None
    then show ?thesis using r h1 l by (simp add: rt_strdup_def)
  next
    case (Some p)
    have "rt_memcpy m p s (n + 1) = blit m p s (n + 1)" using fresh [of p h1] h1(1) Some by (intro rt_memcpy_blit) auto
    then show ?thesis using r h1 l Some by (auto simp: rt_strdup_def)
  qed
qed

end
