(* ===== verification/RT_ServiceProps.thy ===== *)
theory RT_ServiceProps
  imports RT_DataProps RT_DevProps RT_Console RT_HeapUtil
begin

text \<open>
  The properties of the kernel service: formatted printing, the console and aligned blocks. Each
  property with a hypothesis is followed by a witness.
\<close>

section \<open>Formatted printing\<close>

text \<open>C36 When no field width or precision of the format and no string argument is longer than \<open>k\<close>, and the
  text, at most \<open>4 k + 53\<close> characters for each character of the format, cannot reach the top of the
  address space, \<open>rt_vsnprintf\<close> writes only bytes of the buffer it was given, however long the text is;
  the text there ends with a zero: behind the last character, or in the last byte of the buffer when the
  text was too long. Without the condition the pointer wraps around and bytes below the buffer are
  written.\<close>

theorem vsnprintf_stays_in_buffer:
  assumes "rt_vsnprintf buf sz fmt args m = Some (n, m')" "0 < sz" "buf + sz \<le> 2 ^ 32"
    and "fields_within k fmt args" "buf + length fmt * (4 * k + 53) < 2 ^ 32"
  shows "(\<forall>a. a < buf \<or> buf + sz \<le> a \<longrightarrow> m' a = m a) \<and> m' (buf + min n (sz - 1)) = 0 \<and> n \<le> length fmt * (4 * k + 53)"
  using rt_vsnprintf_within [OF assms] by blast

text \<open>A field of six characters, with a number in it, for a buffer of four bytes.\<close>

theorem vsnprintf_stays_in_buffer_witness:
  "\<exists>m'. rt_vsnprintf 0x20000000 4 [97, 37, 54, 99, 0] [VInt 98] (\<lambda>_. 1) = Some (7, m') \<and> m' 0x20000003 = 0
     \<and> m' 0x20000004 = 1 \<and> m' 0x1fffffff = 1"
proof -
  have c: "parse_conv [54, 99, 0] [VInt 98] = Some (0, 6, - 1, 0, 99, [0], [VInt 98])"
    by (simp add: parse_conv_def fmt_width_def isdigit_def fmt_precision_def fmt_qualifier_def)
  have p: "print_conv e [54, 99, 0] [VInt 98] w = Some ([0], [], print_char e 0 6 98 w)" for e w
    by (simp add: print_conv_def c print_field_def va_int_def)
  have five: "replicate 5 (32 :: u8) = [32, 32, 32, 32, 32]" by (simp add: numeral_eq_Suc)
  obtain m' where r: "rt_vsnprintf 0x20000000 4 [97, 37, 54, 99, 0] [VInt 98] (\<lambda>_. 1) = Some (7, m')"
    by (simp add: rt_vsnprintf_def print_loop_cases(1-3) print_loop_cases(5) [OF p] print_char_def pad_def five emits_def emit_def LEFT_def
        sub32_def add32_def Let_def)
  have f: "fields_within 6 [97, 37, 54, 99, 0] [VInt 98]"
    by (simp add: fields_within.simps [of 6] c field_within_def takes_arg_def)
  from vsnprintf_stays_in_buffer [OF r _ _ f] have "m' 0x20000003 = 0" "m' 0x20000004 = 1" "m' 0x1fffffff = 1" by simp_all
  with r show ?thesis by blast
qed

section \<open>The console\<close>

text \<open>C37 \<open>rt_kprintf\<close> of a signed number on a console that is a pipe with room: the call returns, the flags of
  the device are as before, a thread that waits to read the pipe is ready, and behind what was in
  the pipe before stand the sign of the number and digits that read back, with the routine that
  reads the widths of formats, as its absolute value.\<close>

theorem kprintf_number_roundtrip:
  assumes "ipc_inv s L T" "pipe_ok i s" "off_pipe i s log_buf 511" "log_buf + 511 \<le> 2 ^ 32"
    and "ref_count (devices s i) \<noteq> 0" "dwrite (devices s i)" "rx_indicate (devices s i) = None"
    and "length (pipe_bytes i s) + 11 \<le> pipe_size i s"
    and "pflag (pipes s i) AND RT_PIPE_FLAG_FORCE_WR = 0" "pflag (pipes s i) AND RT_PIPE_FLAG_BLOCK_RD \<noteq> 0"
    and "rt_current_thread s \<noteq> None" "rt_interrupt_nest s = 0"
  shows "\<exists>s' ds. rt_kprintf (pipe_ops cb) log_buf [37, 100, 0] [VInt x] (Some i, s) = Some (Ret (), s')
     \<and> dflag (devices s' i) = dflag (devices s i)
     \<and> (\<forall>t ts. L (HPipeRead i) = t # ts \<longrightarrow> stat (threads s' t) = RT_THREAD_READY)
     \<and> pipe_bytes i s' = pipe_bytes i s @ (if sint x < 0 then [45] else []) @ ds \<and> skip_atoi 0 (ds @ [0]) = (\<bar>sint x\<bar>, [0])"
proof -
  let ?t = "signed_text x"
  define m where "m = put_text log_buf (?t @ [0]) (ram s)"
  have l: "0 < length ?t" "length ?t < 511" "length (pipe_bytes i s) + length ?t \<le> pipe_size i s"
    using signed_text_length [of x] assms(8) by simp_all
  have v: "rt_vsnprintf log_buf 511 [37, 100, 0] [VInt x] (ram s) = Some (length ?t, m)"
    unfolding m_def by (rule rt_vsnprintf_signed [OF l(2) assms(4)])
  have b: "bytes_at m log_buf (length ?t) = ?t" by (rule nth_equalityI) (simp_all add: m_def put_text_def nth_append)
  have t: "?t = (if sint x < 0 then [45] else []) @ (if sint x < 0 then tl ?t else ?t)"
    using signed_text_value(2) [of x] l(1) by (cases ?t) auto
  have fr: "\<forall>a. a < log_buf \<or> log_buf + 511 \<le> a \<longrightarrow> m a = ram s a" using l(2) by (simp add: m_def put_text_def)
  from rt_kprintf_pipe [OF assms(1-7) v l(1,2,3) fr assms(9) impI [OF assms(10)] assms(11,12), of cb] obtain s' where
    s': "rt_kprintf (pipe_ops cb) log_buf [37, 100, 0] [VInt x] (Some i, s) = Some (Ret (), s')"
    "pipe_bytes i s' = pipe_bytes i s @ ?t" "dflag (devices s' i) = dflag (devices s i)"
    "\<forall>t ts. L (HPipeRead i) = t # ts \<longrightarrow> stat (threads s' t) = RT_THREAD_READY" unfolding b by blast
  then show ?thesis using t signed_text_value(1) [of x] by metis
qed

text \<open>The example system with a pipe of 64 bytes that is open and the console.\<close>

definition console_demo :: kernel where
  "console_demo = upd_dev 0 (\<lambda>d. d\<lparr>ref_count := 1\<rparr>) (pipe_to 0 (ringbuffer (pipes demo 0) \<lparr>buffer_size := 64\<rparr>) (ram demo) demo)"

lemma console_demo:
  "ipc_inv console_demo demoL []" "pipe_ok 0 console_demo" "pipe_bytes 0 console_demo = []" "pipe_size 0 console_demo = 64"
  "off_pipe 0 console_demo 0x20010000 511" "ref_count (devices console_demo 0) = 1" "dwrite (devices console_demo 0)"
  "rx_indicate (devices console_demo 0) = None" "pflag (pipes console_demo 0) = 3" "rt_current_thread console_demo = Some 1"
  "rt_interrupt_nest console_demo = 0"
proof -
  show "ipc_inv console_demo demoL []" using demo_ipc by (simp add: console_demo_def)
  have "\<lparr>buffer_ptr = 0x20007000, read_mirror = False, read_index = 0, write_mirror = False, write_index = 0, buffer_size = 64\<rparr>
      = ringbuffer (pipes console_demo 0)" "pflag (pipes console_demo 0) = 3"
    using thread_frameD(17) [OF demo_state(3)] by (simp_all add: console_demo_def upd_dev_def upd_pipe_def demo0_def)
  then show "pflag (pipes console_demo 0) = 3" "pipe_ok 0 console_demo" "pipe_bytes 0 console_demo = []" "pipe_size 0 console_demo = 64"
    "off_pipe 0 console_demo 0x20010000 511"
    by (simp_all add: pipe_ok_def pipe_bytes_def pipe_size_def off_pipe_def rb_inv_def rb_content_def rb_len_def rb_size_def apart_def
        ring_content_def flip: \<open>_ = ringbuffer _\<close>)
qed (use thread_frameD(16) [OF demo_state(3)] demo_fields(2) demo_state(2) in \<open>simp_all add: console_demo_def upd_dev_def upd_pipe_def demo0_def\<close>)

theorem kprintf_number_roundtrip_witness:
  "\<exists>s' ds. rt_kprintf (pipe_ops finsh_rx_ind) 0x20010000 [37, 100, 0] [VInt (- 42)] (Some 0, console_demo) = Some (Ret (), s')
     \<and> pipe_bytes 0 s' = 45 # ds \<and> skip_atoi 0 (ds @ [0]) = (42, [0])"
proof -
  have f: "pflag (pipes console_demo 0) AND RT_PIPE_FLAG_FORCE_WR = 0" "pflag (pipes console_demo 0) AND RT_PIPE_FLAG_BLOCK_RD \<noteq> 0"
    by (simp_all add: console_demo RT_PIPE_FLAG_BLOCK_RD_def RT_PIPE_FLAG_FORCE_WR_def)
  show ?thesis
    using kprintf_number_roundtrip [OF console_demo(1,2,5) _ _ console_demo(7,8) _ f, of finsh_rx_ind "- 42"]
    by (auto simp: console_demo)
qed

section \<open>Aligned blocks\<close>

text \<open>C38 \<open>rt_malloc_align\<close> with a power of two returns and keeps the heap in order. A block it gives starts at a
  multiple of the alignment and has room for the requested bytes inside one newly allocated range;
  only the word before the block is written. As long as that word is kept, \<open>rt_free_align\<close> gives
  exactly this range back, whatever was allocated, freed or written in between.\<close>

theorem aligned_block_lifetime:
  assumes "heap_ok h" "2 \<le> k" "k < 31" "unat sz + 2 ^ k + 14 < 2 ^ 32"
  shows "\<exists>r h1 m1. rt_malloc_align sz (2 ^ k) (h, m) = Some (r, h1, m1) \<and> heap_ok h1
    \<and> (case r of None \<Rightarrow> in_use h1 = in_use h \<and> m1 = m
       | Some p \<Rightarrow> p mod 2 ^ k = 0 \<and> (\<exists>q e. q + 4 \<le> p \<and> p + unat sz \<le> e \<and> in_use h1 = insert (q, e) (in_use h)
           \<and> (\<forall>a. a < p - 4 \<or> p \<le> a \<longrightarrow> m1 a = m a)
           \<and> (\<forall>h2 m2. heap_ok h2 \<and> (q, e) \<in> in_use h2 \<and> (\<forall>a. p - 4 \<le> a \<and> a < p \<longrightarrow> m2 a = m1 a) \<longrightarrow>
                (\<exists>h3. rt_free_align (of_nat p) (h2, m2) = Some (h3, m2) \<and> heap_ok h3 \<and> in_use h3 = in_use h2 - {(q, e)}))))"
proof -
  from rt_malloc_align_spec [OF assms, of m] obtain r h1 m1 where
    h1: "rt_malloc_align sz (2 ^ k) (h, m) = Some (r, h1, m1)" "heap_ok h1" and
    r: "case r of None \<Rightarrow> in_use h1 = in_use h \<and> m1 = m
       | Some p \<Rightarrow> p mod 2 ^ k = 0 \<and> (\<exists>q e. q + 4 \<le> p \<and> p + unat sz \<le> e \<and> e < 2 ^ 32
           \<and> in_use h1 = insert (q, e) (in_use h) \<and> (\<forall>z. (q, z) \<notin> in_use h)
           \<and> load32 m1 (p - 4) = of_nat q \<and> (\<forall>a. a < p - 4 \<or> p \<le> a \<longrightarrow> m1 a = m a))" by blast
  show ?thesis
  proof (cases r)
    case None
    then show ?thesis using h1 r by auto
  next
    case (Some p)
    with r obtain q e where p: "p mod 2 ^ k = 0" "q + 4 \<le> p" "p + unat sz \<le> e" "e < 2 ^ 32"
      "in_use h1 = insert (q, e) (in_use h)" "load32 m1 (p - 4) = of_nat q" "\<forall>a. a < p - 4 \<or> p \<le> a \<longrightarrow> m1 a = m a" by auto
    have "\<exists>h3. rt_free_align (of_nat p) (h2, m2) = Some (h3, m2) \<and> heap_ok h3 \<and> in_use h3 = in_use h2 - {(q, e)}"
      if h2: "heap_ok h2 \<and> (q, e) \<in> in_use h2 \<and> (\<forall>a. p - 4 \<le> a \<and> a < p \<longrightarrow> m2 a = m1 a)" for h2 m2
    proof -
      have "load32 m2 (p - 4) = load32 m1 (p - 4)" using h2 p(2) by (simp add: load32_def)
      then show ?thesis using rt_free_align_spec [of h2 q e p m2] h2 p by simp
    qed
    then show ?thesis using h1 p Some by (intro exI [of _ r] exI [of _ h1] exI [of _ m1]) auto
  qed
qed

theorem aligned_block_lifetime_witness:
  "\<exists>h1 m1 h3. rt_malloc_align 100 64 (small_heap, \<lambda>_. 0) = Some (Some 0x20001040, h1, m1) \<and> heap_ok h1
     \<and> rt_free_align 0x20001040 (h1, m1) = Some (h3, m1) \<and> in_use h3 = {}"
proof -
  obtain h' where h': "rt_malloc 164 small_heap = Some (Some 0x20001010, h')" using small_heap_gives [of 164] by auto
  then obtain m' where a: "rt_malloc_align 100 (2 ^ 6) (small_heap, \<lambda>_. 0) = Some (Some 0x20001040, h', m')"
    by (simp add: rt_malloc_align_def)
  from aligned_block_lifetime [OF small_heap_ok(1), of 6 100 "\<lambda>_. 0"] obtain q e where
    q: "heap_ok h'" "in_use h' = insert (q, e) {}"
    "\<forall>h2 m2. heap_ok h2 \<and> (q, e) \<in> in_use h2 \<and> (\<forall>x. 0x20001040 - 4 \<le> x \<and> x < 0x20001040 \<longrightarrow> m2 x = m' x) \<longrightarrow>
       (\<exists>h3. rt_free_align (of_nat 0x20001040) (h2, m2) = Some (h3, m2) \<and> heap_ok h3 \<and> in_use h3 = in_use h2 - {(q, e)})"
    unfolding a small_heap_ok(2) by auto
  have "(q, e) \<in> in_use h'" by (simp add: q(2))
  then obtain h3 where "rt_free_align (of_nat 0x20001040) (h', m') = Some (h3, m')" "in_use h3 = in_use h' - {(q, e)}"
    using q(1,3) by blast
  then have "rt_free_align 0x20001040 (h', m') = Some (h3, m')" "in_use h3 = {}" using q(2) by simp_all
  moreover have "rt_malloc_align 100 64 (small_heap, \<lambda>_. 0) = Some (Some 0x20001040, h', m')" using a by simp
  ultimately show ?thesis using q(1) by blast
qed

end
