(* ===== verification/RT_FinshVm.thy ===== *)
theory RT_FinshVm
  imports RT_CpuPort "HOL-Library.Signed_Division"
begin

text \<open>
  The virtual machine of the shell (\<open>components/finsh/finsh_vm.c\<close> and \<open>finsh_ops.c\<close>), which runs the byte
  code of \<open>finsh_compiler.c\<close>.

  The program counter only moves forward; it is the list of the bytes of the text segment that are left.
  A slot of the stack is the union \<open>finsh_value\<close>: a word of which \<open>char_value\<close> and \<open>short_value\<close> are the
  lower parts, so that writing those keeps the other bits. As on the target, \<open>char\<close> is unsigned and
  \<open>short\<close> and \<open>long\<close> are signed. \<open>None\<close> stands for what the code does not guard against: a slot outside
  the stack, text behind the end of the segment, an operation code without function, a call with more
  than sixteen arguments, a division by zero and a shift by an amount that is not in \<open>0..31\<close>. A system
  call is an argument of the model: what it returns and what it does to memory.
\<close>

section \<open>Values\<close>

definition FINSH_STACK_MAX :: nat where "FINSH_STACK_MAX = 64"
definition FINSH_TEXT_MAX :: nat where "FINSH_TEXT_MAX = 128"

datatype width = BYTE | WORD | DWORD

text \<open>Reading and writing one member of the union.\<close>

definition union_get :: "width \<Rightarrow> u32 \<Rightarrow> int" where
  "union_get w u = (case w of BYTE \<Rightarrow> uint (ucast u :: u8) | WORD \<Rightarrow> sint (ucast u :: u16) | DWORD \<Rightarrow> sint u)"

definition union_set :: "width \<Rightarrow> u32 \<Rightarrow> u32 \<Rightarrow> u32" where
  "union_set w old u = (case w of
     BYTE \<Rightarrow> (old AND NOT 0xff) OR (u AND 0xff)
   | WORD \<Rightarrow> (old AND NOT 0xffff) OR (u AND 0xffff)
   | DWORD \<Rightarrow> u)"

definition load16 :: "memory \<Rightarrow> nat \<Rightarrow> u32" where
  "load16 m p = ucast (m p) OR push_bit 8 (ucast (m (p + 1)))"

definition mem_get :: "width \<Rightarrow> memory \<Rightarrow> u32 \<Rightarrow> u32" where
  "mem_get w m a = (case w of BYTE \<Rightarrow> ucast (m (unat a)) | WORD \<Rightarrow> load16 m (unat a) | DWORD \<Rightarrow> load32 m (unat a))"

definition mem_set :: "width \<Rightarrow> memory \<Rightarrow> u32 \<Rightarrow> u32 \<Rightarrow> memory" where
  "mem_set w m a u = (case w of
     BYTE \<Rightarrow> m(unat a := ucast u)
   | WORD \<Rightarrow> m(unat a := ucast u, unat a + 1 := ucast (drop_bit 8 u))
   | DWORD \<Rightarrow> store32 m (unat a) u)"

datatype binop = Add | Sub | Div | Mod | Mul | And | Or | Xor | Shl | Shr

definition bin_op :: "binop \<Rightarrow> int \<Rightarrow> int \<Rightarrow> int option" where
  "bin_op f x y = (case f of
     Add \<Rightarrow> Some (x + y) | Sub \<Rightarrow> Some (x - y) | Mul \<Rightarrow> Some (x * y)
   | Div \<Rightarrow> if y = 0 then None else Some (x sdiv y)
   | Mod \<Rightarrow> if y = 0 then None else Some (x smod y)
   | And \<Rightarrow> Some (x AND y) | Or \<Rightarrow> Some (x OR y) | Xor \<Rightarrow> Some (x XOR y)
   | Shl \<Rightarrow> if 0 \<le> y \<and> y < 32 then Some (push_bit (nat y) x) else None
   | Shr \<Rightarrow> if 0 \<le> y \<and> y < 32 then Some (drop_bit (nat y) x) else None)"

section \<open>Operations\<close>

record finsh_vm =
  vm_stack :: "u32 list"
  sp :: nat
  vm_ram :: memory

text \<open>The slot \<open>k\<close> below the stack pointer; \<open>k = 0\<close> is the one that it points to.\<close>

definition slot :: "nat \<Rightarrow> finsh_vm \<Rightarrow> u32 option" where
  "slot k s = (if k \<le> sp s \<and> sp s - k < length (vm_stack s) then Some (vm_stack s ! (sp s - k)) else None)"

definition set_slot :: "nat \<Rightarrow> u32 \<Rightarrow> finsh_vm \<Rightarrow> finsh_vm" where
  "set_slot k u s = s\<lparr>vm_stack := (vm_stack s)[sp s - k := u]\<rparr>"

definition OP_bin :: "binop \<Rightarrow> width \<Rightarrow> finsh_vm \<Rightarrow> finsh_vm option" where
  "OP_bin f w s = do {
     a \<leftarrow> slot 2 s;
     b \<leftarrow> slot 1 s;
     z \<leftarrow> bin_op f (union_get w a) (union_get w b);
     let s1 = set_slot 2 (union_set w a (of_int z)) s;
     Some (s1\<lparr>sp := sp s1 - 1\<rparr>) }"

definition OP_bw :: "width \<Rightarrow> finsh_vm \<Rightarrow> finsh_vm option" where
  "OP_bw w s = do {
     a \<leftarrow> slot 1 s;
     Some (set_slot 1 (union_set w a (of_int (NOT (union_get w a)))) s) }"

definition push_value :: "width \<Rightarrow> u32 \<Rightarrow> finsh_vm \<Rightarrow> finsh_vm option" where
  "push_value w u s = do {
     old \<leftarrow> slot 0 s;
     let s1 = set_slot 0 (union_set w old u) s;
     Some (s1\<lparr>sp := sp s1 + 1\<rparr>) }"

definition FINSH_GET16 :: "u8 list \<Rightarrow> (u32 \<times> u8 list) option" where
  "FINSH_GET16 pc = (case pc of a # b # r \<Rightarrow> Some (ucast a OR push_bit 8 (ucast b), r) | _ \<Rightarrow> None)"

definition FINSH_GET32 :: "u8 list \<Rightarrow> (u32 \<times> u8 list) option" where
  "FINSH_GET32 pc = (case pc of
     a # b # c # d # r \<Rightarrow> Some (ucast a OR push_bit 8 (ucast b) OR push_bit 16 (ucast c) OR push_bit 24 (ucast d), r)
   | _ \<Rightarrow> None)"

definition get_operand :: "width \<Rightarrow> u8 list \<Rightarrow> (u32 \<times> u8 list) option" where
  "get_operand w pc = (case w of
     BYTE \<Rightarrow> (case pc of a # r \<Rightarrow> Some (ucast a, r) | [] \<Rightarrow> None)
   | WORD \<Rightarrow> FINSH_GET16 pc
   | DWORD \<Rightarrow> FINSH_GET32 pc)"

definition OP_ld :: "width \<Rightarrow> u8 list \<Rightarrow> finsh_vm \<Rightarrow> (u8 list \<times> finsh_vm) option" where
  "OP_ld w pc s = do {
     (u, pc1) \<leftarrow> get_operand w pc;
     s1 \<leftarrow> push_value w u s;
     Some (pc1, s1) }"

definition OP_ld_value :: "width \<Rightarrow> u8 list \<Rightarrow> finsh_vm \<Rightarrow> (u8 list \<times> finsh_vm) option" where
  "OP_ld_value w pc s = do {
     (a, pc1) \<leftarrow> FINSH_GET32 pc;
     s1 \<leftarrow> push_value w (mem_get w (vm_ram s) a) s;
     Some (pc1, s1) }"

definition OP_ld_value_stack :: "width \<Rightarrow> finsh_vm \<Rightarrow> finsh_vm option" where
  "OP_ld_value_stack w s = do {
     a \<leftarrow> slot 1 s;
     Some (set_slot 1 (union_set w a (mem_get w (vm_ram s) a)) s) }"

definition OP_st :: "width \<Rightarrow> finsh_vm \<Rightarrow> finsh_vm option" where
  "OP_st w s = do {
     a \<leftarrow> slot 2 s;
     b \<leftarrow> slot 1 s;
     Some (s\<lparr>vm_ram := mem_set w (vm_ram s) a b, sp := sp s - 1\<rparr>) }"

definition OP_pop :: "finsh_vm \<Rightarrow> finsh_vm option" where
  "OP_pop s = (if sp s = 0 then None else Some (s\<lparr>sp := sp s - 1\<rparr>))"

type_synonym syscalls = "u32 \<Rightarrow> u32 list \<Rightarrow> memory \<Rightarrow> (u32 \<times> memory) option"

text \<open>The arguments are the slots below the pointer, the function is below them; a function without arguments gets 0.\<close>

definition OP_call :: "syscalls \<Rightarrow> u8 list \<Rightarrow> finsh_vm \<Rightarrow> (u8 list \<times> finsh_vm) option" where
  "OP_call sys pc s = (case pc of
     [] \<Rightarrow> None
   | n # pc1 \<Rightarrow> do {
       let parameters = unat n;
       if parameters > 16 \<or> sp s < parameters + 1 \<or> sp s > length (vm_stack s) then None
       else do {
         let base = sp s - parameters - 1;
         let parameterv = take parameters (drop (base + 1) (vm_stack s));
         (r, m) \<leftarrow> sys (vm_stack s ! base) (if parameters = 0 then [0] else parameterv) (vm_ram s);
         Some (pc1, s\<lparr>vm_ram := m, vm_stack := (vm_stack s)[base := r], sp := base + 1\<rparr>) } })"

section \<open>The machine\<close>

datatype operation = No_op | Bin binop width | Bw width | Ld width | Ld_value width | St width | Pop | Call | Ld_value_stack width

definition op_table :: "operation list" where
  "op_table = No_op # concat (map (\<lambda>f. [Bin f BYTE, Bin f WORD, Bin f DWORD]) [Add, Sub, Div, Mod, Mul, And, Or, Xor])
     @ [Bw BYTE, Bw WORD, Bw DWORD] @ concat (map (\<lambda>f. [Bin f BYTE, Bin f WORD, Bin f DWORD]) [Shl, Shr])
     @ [Ld BYTE, Ld WORD, Ld DWORD, Ld_value BYTE, Ld_value WORD, Ld_value DWORD, St BYTE, St WORD, St DWORD,
        Pop, Call, Ld_value_stack BYTE, Ld_value_stack WORD, Ld_value_stack DWORD]"

definition run_op :: "syscalls \<Rightarrow> operation \<Rightarrow> u8 list \<Rightarrow> finsh_vm \<Rightarrow> (u8 list \<times> finsh_vm) option" where
  "run_op sys op pc s = (case op of
     No_op \<Rightarrow> Some (pc, s)
   | Bin f w \<Rightarrow> map_option (Pair pc) (OP_bin f w s)
   | Bw w \<Rightarrow> map_option (Pair pc) (OP_bw w s)
   | Ld w \<Rightarrow> OP_ld w pc s
   | Ld_value w \<Rightarrow> OP_ld_value w pc s
   | St w \<Rightarrow> map_option (Pair pc) (OP_st w s)
   | Pop \<Rightarrow> map_option (Pair pc) (OP_pop s)
   | Call \<Rightarrow> OP_call sys pc s
   | Ld_value_stack w \<Rightarrow> map_option (Pair pc) (OP_ld_value_stack w s))"

lemma get_operand_length: "get_operand w pc = Some (u, pc') \<Longrightarrow> length pc' \<le> length pc"
  by (auto simp: get_operand_def FINSH_GET16_def FINSH_GET32_def split: width.splits list.splits)

lemma run_op_length: "run_op sys op pc s = Some (pc', s') \<Longrightarrow> length pc' \<le> length pc"
  using get_operand_length [of _ pc] get_operand_length [of DWORD pc]
  by (fastforce simp: run_op_def OP_ld_def OP_ld_value_def OP_call_def get_operand_def bind_Some_iff Let_def
      split: operation.splits list.splits if_splits)

text \<open>Every round takes at least the operation code off the text: the machine always stops.\<close>

function vm_loop :: "syscalls \<Rightarrow> u8 list \<Rightarrow> finsh_vm \<Rightarrow> finsh_vm option" where
  "vm_loop sys pc s = (case pc of
     [] \<Rightarrow> Some s
   | op # pc1 \<Rightarrow>
       if unat op < length op_table
       then (case run_op sys (op_table ! unat op) pc1 s of
               None \<Rightarrow> None
             | Some r \<Rightarrow> vm_loop sys (fst r) (snd r))
       else None)"
  by auto
termination
  by (relation "measure (\<lambda>(_, pc, _). length pc)") (auto simp: less_Suc_eq_le dest: run_op_length)

declare vm_loop.simps [simp del]

definition finsh_vm_run :: "syscalls \<Rightarrow> u8 list \<Rightarrow> finsh_vm \<Rightarrow> finsh_vm option" where
  "finsh_vm_run sys text_segment s = vm_loop sys text_segment (s\<lparr>sp := 0\<rparr>)"

definition finsh_stack_bottom :: "finsh_vm \<Rightarrow> u32" where
  "finsh_stack_bottom s = vm_stack s ! 0"

end
