(* ===== verification/RT_FinshCompiler.thy ===== *)
theory RT_FinshCompiler
  imports RT_FinshVm
begin

text \<open>
  The compiler of the shell (\<open>components/finsh/finsh_compiler.c\<close>): it decides for every node of a syntax
  tree whether an address or a value is wanted and how wide it is, and then writes byte code.

  A pointer to a node is the node with everything below and beside it, or \<open>NULL\<close>: the parser makes
  every node new, so that none is reached twice. What a node says about an identifier is the address of
  the structure in the symbol tables; the record \<open>symtab\<close> holds the fields of these structures that
  the compiler reads. Writing behind the end of the text segment, which nothing guards against, and a
  null pointer are \<open>None\<close>.
\<close>

section \<open>Nodes\<close>

datatype finsh_node_type = FINSH_NODE_UNKNOWN | FINSH_NODE_ID
  | FINSH_NODE_VALUE_CHAR | FINSH_NODE_VALUE_INT | FINSH_NODE_VALUE_LONG | FINSH_NODE_VALUE_STRING | FINSH_NODE_VALUE_NULL
  | FINSH_NODE_SYS_BIN binop | FINSH_NODE_SYS_BITWISE | FINSH_NODE_SYS_FUNC | FINSH_NODE_SYS_ASSIGN | FINSH_NODE_SYS_CAST
  | FINSH_NODE_SYS_PREINC | FINSH_NODE_SYS_PREDEC | FINSH_NODE_SYS_INC | FINSH_NODE_SYS_DEC
  | FINSH_NODE_SYS_GETVALUE | FINSH_NODE_SYS_GETADDR | FINSH_NODE_SYS_NULL

definition FINSH_DATA_TYPE_VOID :: u8 where "FINSH_DATA_TYPE_VOID = 0"
definition FINSH_DATA_TYPE_BYTE :: u8 where "FINSH_DATA_TYPE_BYTE = 1"
definition FINSH_DATA_TYPE_WORD :: u8 where "FINSH_DATA_TYPE_WORD = 2"
definition FINSH_DATA_TYPE_DWORD :: u8 where "FINSH_DATA_TYPE_DWORD = 3"

definition FINSH_IDTYPE_VAR :: u8 where "FINSH_IDTYPE_VAR = 1"
definition FINSH_IDTYPE_SYSVAR :: u8 where "FINSH_IDTYPE_SYSVAR = 2"
definition FINSH_IDTYPE_SYSCALL :: u8 where "FINSH_IDTYPE_SYSCALL = 4"
definition FINSH_IDTYPE_ADDRESS :: u8 where "FINSH_IDTYPE_ADDRESS = 8"

record node_info =
  node_type :: finsh_node_type
  data_type :: u8
  idtype :: u8
  node_value :: u32
  node_id :: u32

datatype finsh_node = NULL | Node node_info finsh_node finsh_node

datatype finsh_type = finsh_type_unknown | finsh_type_void | finsh_type_voidp | finsh_type_char | finsh_type_uchar
  | finsh_type_charp | finsh_type_short | finsh_type_ushort | finsh_type_shortp | finsh_type_int | finsh_type_uint
  | finsh_type_intp | finsh_type_long | finsh_type_ulong | finsh_type_longp

record symtab =
  var_type :: "u32 \<Rightarrow> finsh_type"
  sysvar_type :: "u32 \<Rightarrow> finsh_type"
  sysvar_var :: "u32 \<Rightarrow> u32"
  syscall_func :: "u32 \<Rightarrow> u32"

text \<open>The value of a variable lies behind its name of 17 bytes and its type, aligned to four.\<close>

definition var_value :: "u32 \<Rightarrow> u32" where
  "var_value var = var + 20"

section \<open>Errors\<close>

definition FINSH_ERROR_UNKNOWN_TYPE :: u8 where "FINSH_ERROR_UNKNOWN_TYPE = 3"
definition FINSH_ERROR_UNKNOWN_NODE :: u8 where "FINSH_ERROR_UNKNOWN_NODE = 8"

section \<open>Types\<close>

fun node_data_type :: "finsh_node \<Rightarrow> u8" where
  "node_data_type NULL = 0"
| "node_data_type (Node i c s) = data_type i"

text \<open>The data type for the type of a variable; an unknown type is an error and leaves the node as it is.\<close>

definition type_data_type :: "finsh_type \<Rightarrow> u8 option" where
  "type_data_type t = (case t of
     finsh_type_void \<Rightarrow> Some FINSH_DATA_TYPE_VOID
   | finsh_type_char \<Rightarrow> Some FINSH_DATA_TYPE_BYTE | finsh_type_uchar \<Rightarrow> Some FINSH_DATA_TYPE_BYTE
   | finsh_type_short \<Rightarrow> Some FINSH_DATA_TYPE_WORD | finsh_type_ushort \<Rightarrow> Some FINSH_DATA_TYPE_WORD
   | finsh_type_unknown \<Rightarrow> None
   | _ \<Rightarrow> Some FINSH_DATA_TYPE_DWORD)"

definition set_data_type :: "finsh_type \<Rightarrow> node_info \<Rightarrow> u8 \<Rightarrow> node_info \<times> u8" where
  "set_data_type t i err = (case type_data_type t of
     Some d \<Rightarrow> (i\<lparr>data_type := d\<rparr>, err)
   | None \<Rightarrow> (i, FINSH_ERROR_UNKNOWN_TYPE))"

definition leaf_check :: "symtab \<Rightarrow> node_info \<Rightarrow> u8 \<Rightarrow> node_info \<times> u8" where
  "leaf_check tab i err = (case node_type i of
     FINSH_NODE_ID \<Rightarrow>
       if idtype i AND FINSH_IDTYPE_VAR \<noteq> 0
       then if node_id i \<noteq> 0 then set_data_type (var_type tab (node_id i)) i err else (i, err)
       else if idtype i AND FINSH_IDTYPE_SYSVAR \<noteq> 0
       then if node_id i \<noteq> 0 then set_data_type (sysvar_type tab (node_id i)) i err else (i, err)
       else (i, err)
   | FINSH_NODE_VALUE_CHAR \<Rightarrow> (i\<lparr>data_type := FINSH_DATA_TYPE_BYTE\<rparr>, err)
   | FINSH_NODE_VALUE_INT \<Rightarrow> (i\<lparr>data_type := FINSH_DATA_TYPE_DWORD\<rparr>, err)
   | FINSH_NODE_VALUE_LONG \<Rightarrow> (i\<lparr>data_type := FINSH_DATA_TYPE_DWORD\<rparr>, err)
   | FINSH_NODE_VALUE_STRING \<Rightarrow> (i\<lparr>data_type := FINSH_DATA_TYPE_DWORD\<rparr>, err)
   | FINSH_NODE_VALUE_NULL \<Rightarrow> (i\<lparr>data_type := FINSH_DATA_TYPE_DWORD\<rparr>, err)
   | _ \<Rightarrow> (i, err))"

definition child_addr :: "finsh_node_type \<Rightarrow> u8 \<Rightarrow> u8" where
  "child_addr t is_addr =
    (if t = FINSH_NODE_SYS_ASSIGN \<or> t = FINSH_NODE_SYS_PREINC \<or> t = FINSH_NODE_SYS_PREDEC \<or> t = FINSH_NODE_SYS_GETADDR
     then FINSH_IDTYPE_ADDRESS
     else if t = FINSH_NODE_SYS_GETVALUE \<and> is_addr \<noteq> 0 then 0
     else is_addr)"

fun finsh_type_check :: "symtab \<Rightarrow> u8 \<Rightarrow> finsh_node \<Rightarrow> u8 \<Rightarrow> finsh_node \<times> u8" where
  "finsh_type_check tab is_addr NULL err = (NULL, err)"
| "finsh_type_check tab is_addr (Node i c s) err =
    (let (c1, err1) = finsh_type_check tab (child_addr (node_type i) is_addr) c err;
         (s1, err2) = finsh_type_check tab 0 s err1;
         i1 = (if idtype i \<noteq> FINSH_IDTYPE_SYSCALL then i\<lparr>idtype := idtype i OR is_addr\<rparr> else i)
     in if c1 \<noteq> NULL then (Node (i1\<lparr>data_type := node_data_type c1\<rparr>) c1 s1, err2)
        else let (i2, err3) = leaf_check tab i1 err2 in (Node i2 c1 s1, err3))"

section \<open>Code\<close>

text \<open>The operation codes of \<open>finsh_ops.h\<close>; those that come in three widths follow each other.\<close>

definition FINSH_OP :: "operation \<Rightarrow> u8" where
  "FINSH_OP op = (case op of
     No_op \<Rightarrow> 0x00
   | Bin f w \<Rightarrow> (case f of Add \<Rightarrow> 0x01 | Sub \<Rightarrow> 0x04 | Div \<Rightarrow> 0x07 | Mod \<Rightarrow> 0x0A | Mul \<Rightarrow> 0x0D
       | And \<Rightarrow> 0x10 | Or \<Rightarrow> 0x13 | Xor \<Rightarrow> 0x16 | Shl \<Rightarrow> 0x1C | Shr \<Rightarrow> 0x1F) + (case w of BYTE \<Rightarrow> 0 | WORD \<Rightarrow> 1 | DWORD \<Rightarrow> 2)
   | Bw w \<Rightarrow> (case w of BYTE \<Rightarrow> 0x19 | WORD \<Rightarrow> 0x1A | DWORD \<Rightarrow> 0x1B)
   | Ld w \<Rightarrow> (case w of BYTE \<Rightarrow> 0x22 | WORD \<Rightarrow> 0x23 | DWORD \<Rightarrow> 0x24)
   | Ld_value w \<Rightarrow> (case w of BYTE \<Rightarrow> 0x25 | WORD \<Rightarrow> 0x26 | DWORD \<Rightarrow> 0x27)
   | St w \<Rightarrow> (case w of BYTE \<Rightarrow> 0x28 | WORD \<Rightarrow> 0x29 | DWORD \<Rightarrow> 0x2A)
   | Pop \<Rightarrow> 0x2B
   | Call \<Rightarrow> 0x2C
   | Ld_value_stack w \<Rightarrow> (case w of BYTE \<Rightarrow> 0x2D | WORD \<Rightarrow> 0x2E | DWORD \<Rightarrow> 0x2F))"

definition FINSH_SET16 :: "u32 \<Rightarrow> u8 list" where
  "FINSH_SET16 v = [ucast v, ucast (drop_bit 8 v)]"

definition FINSH_SET32 :: "u32 \<Rightarrow> u8 list" where
  "FINSH_SET32 v = [ucast v, ucast (drop_bit 8 v), ucast (drop_bit 16 v), ucast (drop_bit 24 v)]"

definition width_of :: "u8 \<Rightarrow> width option" where
  "width_of d = (if d = FINSH_DATA_TYPE_BYTE then Some BYTE
     else if d = FINSH_DATA_TYPE_WORD then Some WORD
     else if d = FINSH_DATA_TYPE_DWORD then Some DWORD else None)"

text \<open>The width by which an identifier is loaded; the types that are not listed load nothing.\<close>

definition load_width :: "finsh_type \<Rightarrow> width option" where
  "load_width t = (case t of
     finsh_type_char \<Rightarrow> Some BYTE | finsh_type_uchar \<Rightarrow> Some BYTE
   | finsh_type_short \<Rightarrow> Some WORD | finsh_type_ushort \<Rightarrow> Some WORD
   | finsh_type_unknown \<Rightarrow> None | finsh_type_void \<Rightarrow> None | finsh_type_voidp \<Rightarrow> None
   | _ \<Rightarrow> Some DWORD)"

definition load_code :: "finsh_type \<Rightarrow> u8 \<Rightarrow> u32 \<Rightarrow> u8 list" where
  "load_code t idt a = (case load_width t of
     None \<Rightarrow> []
   | Some w \<Rightarrow> (if idt AND FINSH_IDTYPE_ADDRESS \<noteq> 0 then FINSH_OP (Ld DWORD) else FINSH_OP (Ld_value w)) # FINSH_SET32 a)"

definition id_code :: "symtab \<Rightarrow> node_info \<Rightarrow> u8 list" where
  "id_code tab i =
    (if idtype i AND FINSH_IDTYPE_SYSCALL \<noteq> 0 then FINSH_OP (Ld DWORD) # FINSH_SET32 (syscall_func tab (node_id i))
     else if node_id i = 0 then []
     else if idtype i AND FINSH_IDTYPE_SYSVAR \<noteq> 0
     then load_code (sysvar_type tab (node_id i)) (idtype i) (sysvar_var tab (node_id i))
     else load_code (var_type tab (node_id i)) (idtype i) (var_value (node_id i)))"

definition one_code :: "width \<Rightarrow> u8 list" where
  "one_code w = FINSH_OP (Ld w) # (case w of BYTE \<Rightarrow> [1] | WORD \<Rightarrow> FINSH_SET16 1 | DWORD \<Rightarrow> FINSH_SET32 1)"

text \<open>Increment and decrement of the variable at \<open>var\<close>, before and after its value is used.\<close>

definition pre_code :: "binop \<Rightarrow> u8 \<Rightarrow> u32 \<Rightarrow> u8 list" where
  "pre_code f d var = (case width_of d of
     None \<Rightarrow> []
   | Some w \<Rightarrow> FINSH_OP (Ld_value w) # FINSH_SET32 (var_value var) @ one_code w
       @ [FINSH_OP (Bin f w), FINSH_OP (St w), FINSH_OP (Ld_value_stack DWORD)])"

definition post_code :: "binop \<Rightarrow> u8 \<Rightarrow> u32 \<Rightarrow> u8 list" where
  "post_code f d var = (case width_of d of
     None \<Rightarrow> []
   | Some w \<Rightarrow> FINSH_OP (Ld DWORD) # FINSH_SET32 (var_value var) @ FINSH_OP (Ld_value w) # FINSH_SET32 (var_value var) @ one_code w
       @ [FINSH_OP (Bin f w), FINSH_OP (St w), FINSH_OP Pop])"

definition assign_code :: "u8 \<Rightarrow> u8 list \<times> u8 option" where
  "assign_code d = (case width_of d of
     Some w \<Rightarrow> ([FINSH_OP (St w), FINSH_OP (Ld_value_stack w)], None)
   | None \<Rightarrow> ([], Some FINSH_ERROR_UNKNOWN_TYPE))"

fun siblings :: "finsh_node \<Rightarrow> nat" where
  "siblings NULL = 0"
| "siblings (Node i c s) = (case s of NULL \<Rightarrow> 0 | Node _ _ _ \<Rightarrow> Suc (siblings s))"

definition sized_code :: "(width \<Rightarrow> operation) \<Rightarrow> u8 \<Rightarrow> u8 list" where
  "sized_code op d = (case width_of d of Some w \<Rightarrow> [FINSH_OP (op w)] | None \<Rightarrow> [])"

text \<open>The code of one node, without its children and siblings, and the error it sets.\<close>

definition node_code :: "symtab \<Rightarrow> node_info \<Rightarrow> finsh_node \<Rightarrow> (u8 list \<times> u8 option) option" where
  "node_code tab i child = (case node_type i of
     FINSH_NODE_ID \<Rightarrow> Some (id_code tab i, None)
   | FINSH_NODE_VALUE_CHAR \<Rightarrow> Some ([FINSH_OP (Ld BYTE), ucast (node_value i)], None)
   | FINSH_NODE_VALUE_INT \<Rightarrow> Some (FINSH_OP (Ld DWORD) # FINSH_SET32 (node_value i), None)
   | FINSH_NODE_VALUE_LONG \<Rightarrow> Some (FINSH_OP (Ld DWORD) # FINSH_SET32 (node_value i), None)
   | FINSH_NODE_VALUE_NULL \<Rightarrow> Some (FINSH_OP (Ld DWORD) # FINSH_SET32 (node_value i), None)
   | FINSH_NODE_VALUE_STRING \<Rightarrow> Some (FINSH_OP (Ld DWORD) # FINSH_SET32 (node_value i), None)
   | FINSH_NODE_SYS_BIN f \<Rightarrow> Some (sized_code (Bin f) (data_type i), None)
   | FINSH_NODE_SYS_BITWISE \<Rightarrow> Some (sized_code Bw (data_type i), None)
   | FINSH_NODE_SYS_FUNC \<Rightarrow>
       Some (if child = NULL then [] else [FINSH_OP Call, of_nat (siblings child)], None)
   | FINSH_NODE_SYS_ASSIGN \<Rightarrow> (case child of
       NULL \<Rightarrow> None
     | Node ci _ _ \<Rightarrow>
         if node_type ci = FINSH_NODE_ID then Some (assign_code (data_type ci))
         else if node_type ci = FINSH_NODE_SYS_GETVALUE then Some (assign_code (data_type ci AND 0x0F))
         else Some ([], None))
   | FINSH_NODE_SYS_PREINC \<Rightarrow> (case child of
       Node ci _ _ \<Rightarrow> Some (if node_type ci = FINSH_NODE_ID then pre_code Add (data_type i) (node_id ci) else [], None)
     | NULL \<Rightarrow> Some ([], None))
   | FINSH_NODE_SYS_PREDEC \<Rightarrow> (case child of
       Node ci _ _ \<Rightarrow> Some (if node_type ci = FINSH_NODE_ID then pre_code Sub (data_type i) (node_id ci) else [], None)
     | NULL \<Rightarrow> Some ([], None))
   | FINSH_NODE_SYS_INC \<Rightarrow> (case child of
       Node ci _ _ \<Rightarrow> Some (if node_type ci = FINSH_NODE_ID then post_code Add (data_type i) (node_id ci) else [], None)
     | NULL \<Rightarrow> Some ([], None))
   | FINSH_NODE_SYS_DEC \<Rightarrow> (case child of
       Node ci _ _ \<Rightarrow> Some (if node_type ci = FINSH_NODE_ID then post_code Sub (data_type i) (node_id ci) else [], None)
     | NULL \<Rightarrow> Some ([], None))
   | FINSH_NODE_SYS_NULL \<Rightarrow> Some (FINSH_SET32 0, None)
   | FINSH_NODE_SYS_GETVALUE \<Rightarrow>
       Some (if idtype i AND FINSH_IDTYPE_ADDRESS \<noteq> 0 then [] else sized_code Ld_value_stack (data_type i), None)
   | FINSH_NODE_SYS_GETADDR \<Rightarrow> Some ([], None)
   | _ \<Rightarrow> Some ([], Some FINSH_ERROR_UNKNOWN_NODE))"

section \<open>The compiler\<close>

text \<open>The text written so far and the error number.\<close>

type_synonym compile_state = "u8 list \<times> u8"

definition finsh_code :: "u8 list \<Rightarrow> compile_state \<Rightarrow> compile_state option" where
  "finsh_code bytes st = (case st of (text, err) \<Rightarrow>
     if length text + length bytes \<le> FINSH_TEXT_MAX then Some (text @ bytes, err) else None)"

fun finsh_compile :: "symtab \<Rightarrow> finsh_node \<Rightarrow> compile_state \<Rightarrow> compile_state option" where
  "finsh_compile tab NULL st = Some st"
| "finsh_compile tab (Node i c s) st = do {
     st1 \<leftarrow> finsh_compile tab c st;
     (bytes, e) \<leftarrow> node_code tab i c;
     (text, err) \<leftarrow> finsh_code bytes st1;
     finsh_compile tab s (text, case e of None \<Rightarrow> err | Some x \<Rightarrow> x) }"

fun compile_statements :: "symtab \<Rightarrow> finsh_node \<Rightarrow> compile_state \<Rightarrow> compile_state option" where
  "compile_statements tab NULL st = Some st"
| "compile_statements tab (Node i c s) st = do {
     st1 \<leftarrow> finsh_compile tab (Node i c NULL) st;
     st2 \<leftarrow> (if s \<noteq> NULL then finsh_code [FINSH_OP Pop] st1 else Some st1);
     compile_statements tab s st2 }"

definition finsh_compiler_run :: "symtab \<Rightarrow> finsh_node \<Rightarrow> u8 \<Rightarrow> finsh_vm \<Rightarrow> (u8 list \<times> u8 \<times> finsh_vm) option" where
  "finsh_compiler_run tab node err s = do {
     let (node1, err1) = finsh_type_check tab 0 node err;
     (text, err2) \<leftarrow> compile_statements tab node1 ([], err1);
     Some (text @ replicate (FINSH_TEXT_MAX - length text) 0, err2, s\<lparr>vm_stack := (vm_stack s)[0 := 0]\<rparr>) }"

end
