(* ===== verification/RT_FinshToken.thy ===== *)
theory RT_FinshToken
  imports RT_FinshCompiler RT_KService
begin

text \<open>
  The scanner of the shell (\<open>components/finsh/finsh_token.c\<close>).

  The line is the list of its bytes before the terminating zero. The record is \<open>struct finsh_token\<close> and,
  beside it, the variable \<open>global_errno\<close> of \<open>finsh_error.c\<close>. A write behind the end of the string buffer,
  or of one of the small buffers on the stack, is \<open>None\<close>.
\<close>

section \<open>State\<close>

datatype finsh_token_type = finsh_token_type_left_paren | finsh_token_type_right_paren | finsh_token_type_comma
  | finsh_token_type_semicolon | finsh_token_type_mul | finsh_token_type_add | finsh_token_type_inc | finsh_token_type_sub
  | finsh_token_type_dec | finsh_token_type_div | finsh_token_type_mod | finsh_token_type_assign | finsh_token_type_and
  | finsh_token_type_or | finsh_token_type_xor | finsh_token_type_bitwise | finsh_token_type_shl | finsh_token_type_shr
  | finsh_token_type_void | finsh_token_type_char | finsh_token_type_short | finsh_token_type_int | finsh_token_type_long
  | finsh_token_type_unsigned | finsh_token_type_value_char | finsh_token_type_value_int | finsh_token_type_value_long
  | finsh_token_type_value_string | finsh_token_type_value_null | finsh_token_type_identifier | finsh_token_type_bad
  | finsh_token_type_eof

record finsh_token =
  eof :: bool
  replay :: bool
  position :: nat
  current_token :: finsh_token_type
  token_value :: u32
  token_string :: "u8 list"
  line :: "u8 list"
  global_errno :: u8

definition FINSH_STRING_MAX :: nat where "FINSH_STRING_MAX = 128"
definition FINSH_ERROR_EXPECT_CHAR :: u8 where "FINSH_ERROR_EXPECT_CHAR = 9"
definition FINSH_ERROR_UNEXPECT_END :: u8 where "FINSH_ERROR_UNEXPECT_END = 10"
definition FINSH_ERROR_UNKNOWN_TOKEN :: u8 where "FINSH_ERROR_UNKNOWN_TOKEN = 11"

definition finsh_error_set :: "u8 \<Rightarrow> finsh_token \<Rightarrow> finsh_token" where
  "finsh_error_set type s = s\<lparr>global_errno := type\<rparr>"

text \<open>The current token after the initialisation is the number 0, which is no token; it is never read.\<close>

definition finsh_token_init :: "u8 list \<Rightarrow> u8 \<Rightarrow> finsh_token" where
  "finsh_token_init l err = \<lparr>eof = False, replay = False, position = 0, current_token = finsh_token_type_eof, token_value = 0,
     token_string = replicate 128 0, line = l, global_errno = err\<rparr>"

section \<open>Characters\<close>

definition is_alpha :: "u8 \<Rightarrow> bool" where
  "is_alpha ch \<longleftrightarrow> (ucast (ch OR 0x20) :: u32) - 97 < 26"

definition is_digit :: "u8 \<Rightarrow> bool" where
  "is_digit ch \<longleftrightarrow> 48 \<le> ch \<and> ch \<le> 57"

definition is_separator :: "u8 \<Rightarrow> bool" where
  "is_separator ch \<longleftrightarrow> \<not> (97 \<le> ch \<and> ch \<le> 122 \<or> 65 \<le> ch \<and> ch \<le> 90 \<or> 48 \<le> ch \<and> ch \<le> 57 \<or> ch = 95)"

definition token_next_char :: "finsh_token \<Rightarrow> (u8 \<times> finsh_token) option" where
  "token_next_char s =
    (if eof s then Some (0, s)
     else if position s > length (line s) then None
     else if position s = length (line s) \<or> line s ! position s = 10 then Some (0, s\<lparr>eof := True, position := 0\<rparr>)
     else Some (line s ! position s, s\<lparr>position := position s + 1\<rparr>))"

definition token_prev_char :: "finsh_token \<Rightarrow> finsh_token" where
  "token_prev_char s = (if eof s \<or> position s = 0 then s else s\<lparr>position := position s - 1\<rparr>)"

text \<open>What is left to read, with one more round for noticing the end.\<close>

definition chars_left :: "finsh_token \<Rightarrow> nat" where
  "chars_left s = (if eof s then 0 else Suc (length (line s) - position s))"

lemma next_char_left: "token_next_char s = Some (ch, s') \<Longrightarrow> \<not> eof s \<Longrightarrow> chars_left s' < chars_left s"
  by (auto simp: token_next_char_def chars_left_def split: if_splits)

text \<open>
  The loops that collect characters: \<open>while (P (ch)) { *p++ = ch; ch = token_next_char (self); }\<close>. No
  condition \<open>P\<close> holds of the character 0 that stands for the end.
\<close>

function read_while :: "(u8 \<Rightarrow> bool) \<Rightarrow> u8 list \<Rightarrow> u8 \<Rightarrow> finsh_token \<Rightarrow> (u8 list \<times> u8 \<times> finsh_token) option" where
  "read_while P buf ch s =
    (if P ch \<and> \<not> eof s
     then (case token_next_char s of None \<Rightarrow> None | Some (ch1, s1) \<Rightarrow> read_while P (buf @ [ch]) ch1 s1)
     else Some (buf, ch, s))"
  by auto
termination by (relation "measure (\<lambda>(_, _, _, s). chars_left s)") (auto dest: next_char_left)

function token_trim_space :: "finsh_token \<Rightarrow> finsh_token option" where
  "token_trim_space s =
    (case token_next_char s of None \<Rightarrow> None
     | Some (ch, s1) \<Rightarrow> if \<not> eof s \<and> (ch = 32 \<or> ch = 9 \<or> ch = 13) then token_trim_space s1 else Some (token_prev_char s1))"
  by auto
termination by (relation "measure chars_left") (auto dest: next_char_left)

declare read_while.simps [simp del] token_trim_space.simps [simp del]

text \<open>A zero-terminated string at the start of the buffer.\<close>

definition put_string :: "u8 list \<Rightarrow> finsh_token \<Rightarrow> finsh_token option" where
  "put_string cs s =
    (if length cs < length (token_string s)
     then Some (s\<lparr>token_string := cs @ [0] @ drop (length cs + 1) (token_string s)\<rparr>) else None)"

definition token_get_string :: "finsh_token \<Rightarrow> finsh_token option" where
  "token_get_string s = do {
     (ch, s1) \<leftarrow> token_next_char s;
     if eof s1 then Some s1
     else do {
       let s2 = s1\<lparr>token_string := (token_string s1)[0 := 0]\<rparr>;
       if is_digit ch then Some (token_prev_char s2)
       else do {
         (cs, _, s3) \<leftarrow> read_while (\<lambda>c. \<not> is_separator c) [] ch s2;
         put_string cs (token_prev_char (s3\<lparr>eof := False\<rparr>)) } } }"

section \<open>Names\<close>

definition finsh_name_table :: "(u8 list \<times> finsh_token_type) list" where
  "finsh_name_table =
    [([118, 111, 105, 100], finsh_token_type_void), ([99, 104, 97, 114], finsh_token_type_char),
     ([115, 104, 111, 114, 116], finsh_token_type_short), ([105, 110, 116], finsh_token_type_int),
     ([108, 111, 110, 103], finsh_token_type_long), ([117, 110, 115, 105, 103, 110, 101, 100], finsh_token_type_unsigned),
     ([78, 85, 76, 76], finsh_token_type_value_null), ([110, 117, 108, 108], finsh_token_type_value_null)]"

definition token_match_name :: "u8 list \<Rightarrow> finsh_token \<Rightarrow> finsh_token" where
  "token_match_name name s = (case map_of finsh_name_table name of
     Some t \<Rightarrow> s\<lparr>current_token := t\<rparr>
   | None \<Rightarrow> s\<lparr>current_token := finsh_token_type_identifier\<rparr>)"

section \<open>Literals\<close>

text \<open>The number is built in two words, of which the lower one is used.\<close>

definition spec_digit :: "u8 \<Rightarrow> u32" where
  "spec_digit c = (if 97 \<le> c \<and> c \<le> 102 then ucast c - 97 + 10
     else if 65 \<le> c \<and> c \<le> 70 then ucast c - 65 + 10 else ucast c - 48)"

definition token_spec_number :: "u8 list \<Rightarrow> nat \<Rightarrow> u32" where
  "token_spec_number cs shift = fst (fold (\<lambda>c (bn0, bn1).
     let t = spec_digit c in (push_bit shift bn0 OR t, push_bit shift bn1 OR drop_bit (32 - shift) bn0)) cs (0, 0))"

definition number_suffix :: "u8 \<Rightarrow> finsh_token \<Rightarrow> finsh_token" where
  "number_suffix ch s = (if ch = 108 \<or> ch = 76 then s\<lparr>current_token := finsh_token_type_value_long\<rparr> else token_prev_char s)"

definition token_proc_number :: "finsh_token \<Rightarrow> finsh_token option" where
  "token_proc_number s = do {
     (ch, s1) \<leftarrow> token_next_char s;
     if ch = 48
     then do {
       (ch, s2) \<leftarrow> token_next_char s1;
       (shift, cs, ch, s3) \<leftarrow>
         (if ch = 120 \<or> ch = 88
          then do { (ch, s3) \<leftarrow> token_next_char s2; map_option (Pair 4) (read_while (\<lambda>c. is_digit c \<or> is_alpha c) [] ch s3) }
          else if ch = 98 \<or> ch = 66
          then do { (ch, s3) \<leftarrow> token_next_char s2; map_option (Pair 1) (read_while (\<lambda>c. c = 48 \<or> c = 49) [] ch s3) }
          else map_option (Pair 3) (read_while is_digit [] ch s2));
       if length cs < 128
       then Some (number_suffix ch (s3\<lparr>token_value := token_spec_number cs shift, current_token := finsh_token_type_value_int\<rparr>))
       else None }
     else do {
       (cs, ch, s2) \<leftarrow> read_while is_digit [] ch s1;
       let value = fold (\<lambda>c v. v * 10 + (ucast c - 48)) cs 0;
       Some (number_suffix ch (s2\<lparr>token_value := value, current_token := finsh_token_type_value_int\<rparr>)) } }"

definition char_escape :: "u8 \<Rightarrow> u8 option" where
  "char_escape ch = map_of [(110, 10), (116, 9), (118, 11), (98, 8), (114, 13), (92, 92), (39, 39)] ch"

text \<open>
  A numeric escape is read into a buffer of four characters, each one place late, and the number is then
  taken from the end of the buffer, which is empty: the value is 0.
\<close>

definition token_proc_char :: "finsh_token \<Rightarrow> (u8 \<times> finsh_token) option" where
  "token_proc_char s = do {
     (ch, s1) \<leftarrow> token_next_char s;
     (ch, s2) \<leftarrow>
       (if ch = 92
        then do {
          (ch, s2) \<leftarrow> token_next_char s1;
          case char_escape ch of
            Some c \<Rightarrow> Some (c, s2)
          | None \<Rightarrow> do {
              (cs, _, s3) \<leftarrow> read_while is_digit [] ch s2;
              if length cs < 4 then Some (0, token_prev_char s3) else None } }
        else Some (ch, s1));
     (q, s3) \<leftarrow> token_next_char s2;
     if q \<noteq> 39 then Some (ch, finsh_error_set FINSH_ERROR_EXPECT_CHAR (token_prev_char s3)) else Some (ch, s3) }"

definition string_escape :: "u8 \<Rightarrow> u8 option" where
  "string_escape ch = map_of [(110, 10), (116, 9), (118, 11), (98, 8), (114, 13), (102, 12), (97, 7)] ch"

text \<open>The digits of a numeric escape are the characters from 0 on, also for base 16.\<close>

definition escape_number :: "u8 \<Rightarrow> u8 list \<Rightarrow> u8" where
  "escape_number base cs = fold (\<lambda>c v. v * base + (c - 48)) cs 0"

definition token_proc_escape :: "finsh_token \<Rightarrow> (u8 \<times> finsh_token) option" where
  "token_proc_escape s = do {
     (ch, s1) \<leftarrow> token_next_char s;
     case string_escape ch of
       Some c \<Rightarrow> Some (c, s1)
     | None \<Rightarrow>
         if ch = 120
         then do {
           (ch, s2) \<leftarrow> token_next_char s1;
           (cs, _, s3) \<leftarrow> read_while (\<lambda>c. c - 48 < 16) [] ch s2;
           Some (escape_number 16 cs, token_prev_char s3) }
         else if ch - 48 < 8
         then do {
           (cs, _, s3) \<leftarrow> read_while (\<lambda>c. c - 48 < 8) [] ch s1;
           Some (escape_number 8 cs, token_prev_char s3) }
         else Some (0, s1) }"

lemma read_while_left: "read_while P buf ch s = Some (cs, ch', s') \<Longrightarrow> chars_left s' \<le> chars_left s"
proof (induction P buf ch s rule: read_while.induct)
  case (1 P buf ch s)
  show ?case
  proof (cases "P ch \<and> \<not> eof s")
    case True
    with "1.prems" obtain ch1 s1 where s1: "token_next_char s = Some (ch1, s1)" "read_while P (buf @ [ch]) ch1 s1 = Some (cs, ch', s')"
      by (subst (asm) read_while.simps) (auto split: option.splits)
    from "1.IH" [OF True s1(1) refl s1(2)] next_char_left [OF s1(1)] True show ?thesis by simp
  next
    case False
    with "1.prems" have "s' = s" by (subst (asm) read_while.simps) auto
    then show ?thesis by simp
  qed
qed

text \<open>
  The loop of \<open>token_proc_string\<close>, with the characters stored so far. When the buffer is full the
  string in it is not ended.
\<close>

function string_loop :: "u8 list \<Rightarrow> finsh_token \<Rightarrow> finsh_token option" where
  "string_loop cs s =
    (if length cs < FINSH_STRING_MAX
     then do {
       (ch, s1) \<leftarrow> token_next_char s;
       if eof s1
       then Some (finsh_error_set FINSH_ERROR_UNEXPECT_END (s1\<lparr>token_string := cs @ drop (length cs) (token_string s1)\<rparr>))
       else if ch = 92
       then do { (ch, s2) \<leftarrow> token_proc_escape s1; string_loop (cs @ [ch]) s2 }
       else if ch = 34 then put_string cs s1
       else string_loop (cs @ [ch]) s1 }
     else Some (s\<lparr>token_string := cs\<rparr>))"
  by auto
termination by (relation "measure (\<lambda>(cs, _). FINSH_STRING_MAX - length cs)") auto

declare string_loop.simps [simp del]

definition token_proc_string :: "finsh_token \<Rightarrow> finsh_token option" where
  "token_proc_string s = string_loop [] s"

section \<open>Tokens\<close>

text \<open>The operators of one character, and those of which a second character makes another token.\<close>

definition single_token :: "u8 \<Rightarrow> finsh_token_type option" where
  "single_token ch = map_of
    [(40, finsh_token_type_left_paren), (41, finsh_token_type_right_paren), (44, finsh_token_type_comma),
     (59, finsh_token_type_semicolon), (38, finsh_token_type_and), (42, finsh_token_type_mul), (124, finsh_token_type_or),
     (37, finsh_token_type_mod), (126, finsh_token_type_bitwise), (94, finsh_token_type_xor), (61, finsh_token_type_assign)] ch"

definition double_token :: "u8 \<Rightarrow> (finsh_token_type \<times> finsh_token_type) option" where
  "double_token ch = map_of
    [(43, finsh_token_type_inc, finsh_token_type_add), (45, finsh_token_type_dec, finsh_token_type_sub),
     (47, finsh_token_type_eof, finsh_token_type_div), (60, finsh_token_type_shl, finsh_token_type_bad),
     (62, finsh_token_type_shr, finsh_token_type_bad)] ch"

definition token_operator :: "finsh_token \<Rightarrow> finsh_token option" where
  "token_operator s = do {
     (ch, s1) \<leftarrow> token_next_char s;
     case single_token ch of
       Some t \<Rightarrow> Some (s1\<lparr>current_token := t\<rparr>)
     | None \<Rightarrow> (case double_token ch of
         Some (t2, t1) \<Rightarrow> do {
           (ch2, s2) \<leftarrow> token_next_char s1;
           Some (if ch2 = ch then s2\<lparr>current_token := t2\<rparr> else (token_prev_char s2)\<lparr>current_token := t1\<rparr>) }
       | None \<Rightarrow>
           if ch = 39
           then do {
             (c, s2) \<leftarrow> token_proc_char s1;
             Some (s2\<lparr>token_value := (token_value s2 AND 0xFFFFFF00) OR ucast c, current_token := finsh_token_type_value_char\<rparr>) }
           else if ch = 34
           then map_option (\<lambda>s2. s2\<lparr>current_token := finsh_token_type_value_string\<rparr>) (token_proc_string s1)
           else if is_digit ch then token_proc_number (token_prev_char s1)
           else Some ((finsh_error_set FINSH_ERROR_UNKNOWN_TOKEN s1)\<lparr>current_token := finsh_token_type_bad\<rparr>)) }"

text \<open>The string at the start of the buffer.\<close>

definition token_text :: "finsh_token \<Rightarrow> u8 list" where
  "token_text s = takeWhile (\<lambda>c. c \<noteq> 0) (token_string s)"

definition token_run :: "finsh_token \<Rightarrow> finsh_token option" where
  "token_run s = do {
     s1 \<leftarrow> token_trim_space s;
     s2 \<leftarrow> token_get_string s1;
     if eof s2 then Some (s2\<lparr>current_token := finsh_token_type_eof\<rparr>)
     else if token_text s2 \<noteq> [] then Some (token_match_name (token_text s2) s2)
     else token_operator s2 }"

definition finsh_token_token :: "finsh_token \<Rightarrow> finsh_token option" where
  "finsh_token_token s = (if replay s then Some (s\<lparr>replay := False\<rparr>) else token_run s)"

definition finsh_token_replay :: "finsh_token \<Rightarrow> finsh_token" where
  "finsh_token_replay s = s\<lparr>replay := True\<rparr>"

end
