(* ===== verification/RT_FinshSyms.thy ===== *)
theory RT_FinshSyms
  imports RT_FinshToken
begin

text \<open>
  The symbols of the shell (\<open>components/finsh/finsh_var.c\<close> and the search of system calls in
  \<open>finsh_vm.c\<close>) and its heap for strings (\<open>finsh_heap.c\<close>).

  A name is the list of its bytes before the terminating zero. The tables of system variables and calls
  that the linker collects, and the lists of those added later, are lists of names and addresses of the
  structures; the address 0 is the null pointer.
\<close>

section \<open>Symbols\<close>

definition FINSH_NAME_MAX :: nat where "FINSH_NAME_MAX = 16"
definition FINSH_VARIABLE_MAX :: nat where "FINSH_VARIABLE_MAX = 8"

record finsh_var =
  var_name :: "u8 list"
  var_data :: finsh_type

record finsh_symbols =
  global_variable :: "finsh_var list"
  variable_base :: u32
  sysvar_table :: "(u8 list \<times> u32) list"
  global_sysvar_list :: "(u8 list \<times> u32) list"
  syscall_table :: "(u8 list \<times> u32) list"
  global_syscall_list :: "(u8 list \<times> u32) list"

definition no_var :: finsh_var where
  "no_var = \<lparr>var_name = [], var_data = finsh_type_unknown\<rparr>"

definition finsh_var_init :: "finsh_symbols \<Rightarrow> finsh_symbols" where
  "finsh_var_init y = y\<lparr>global_variable := replicate FINSH_VARIABLE_MAX no_var\<rparr>"

text \<open>The address of a variable: the structure has 24 bytes.\<close>

definition variable_addr :: "finsh_symbols \<Rightarrow> nat \<Rightarrow> u32" where
  "variable_addr y i = variable_base y + of_nat (24 * i)"

definition same_name :: "u8 list \<Rightarrow> u8 list \<Rightarrow> bool" where
  "same_name a b \<longleftrightarrow> take FINSH_NAME_MAX a = take FINSH_NAME_MAX b"

fun first_index :: "('a \<Rightarrow> bool) \<Rightarrow> 'a list \<Rightarrow> nat option" where
  "first_index P [] = None"
| "first_index P (x # xs) = (if P x then Some 0 else map_option Suc (first_index P xs))"

definition finsh_var_insert :: "u8 list \<Rightarrow> finsh_type \<Rightarrow> finsh_symbols \<Rightarrow> int \<times> finsh_symbols" where
  "finsh_var_insert name type y =
    (if \<exists>v \<in> set (global_variable y). same_name (var_name v) name then (-1, y)
     else case first_index (\<lambda>v. var_data v = finsh_type_unknown) (global_variable y) of
       None \<Rightarrow> (-1, y)
     | Some i \<Rightarrow> (int i, y\<lparr>global_variable :=
         (global_variable y)[i := \<lparr>var_name = take FINSH_NAME_MAX name, var_data = type\<rparr>]\<rparr>))"

definition finsh_var_lookup :: "u8 list \<Rightarrow> finsh_symbols \<Rightarrow> u32" where
  "finsh_var_lookup name y = (case first_index (\<lambda>v. same_name (var_name v) name) (global_variable y) of
     None \<Rightarrow> 0
   | Some i \<Rightarrow> variable_addr y i)"

definition finsh_var_delete :: "u8 list \<Rightarrow> finsh_symbols \<Rightarrow> memory \<Rightarrow> int \<times> finsh_symbols \<times> memory" where
  "finsh_var_delete name y m = (case first_index (\<lambda>v. same_name (var_name v) name) (global_variable y) of
     None \<Rightarrow> (-1, y, m)
   | Some i \<Rightarrow> (0, y\<lparr>global_variable := (global_variable y)[i := no_var]\<rparr>,
       store32 m (unat (var_value (variable_addr y i))) 0))"

text \<open>
  The parser keeps an identifier in 17 bytes, of which it fills at most 16: one of 16 bytes is not ended
  by a zero. Reading the byte behind it is \<open>None\<close>.
\<close>

fun table_lookup :: "(u8 list \<times> u32) list \<Rightarrow> u8 list \<Rightarrow> u32 option" where
  "table_lookup [] name = Some 0"
| "table_lookup ((nm, a) # ts) name =
    (if length name < FINSH_NAME_MAX then if nm = name then Some a else table_lookup ts name
     else if take FINSH_NAME_MAX nm = name then None else table_lookup ts name)"

fun list_lookup :: "(u8 list \<times> u32) list \<Rightarrow> u8 list \<Rightarrow> u32 option" where
  "list_lookup [] name = Some 0"
| "list_lookup ((nm, a) # ts) name =
    (if length name < FINSH_NAME_MAX then if take (length name) nm = name then Some a else list_lookup ts name else None)"

definition finsh_sysvar_lookup :: "u8 list \<Rightarrow> finsh_symbols \<Rightarrow> u32 option" where
  "finsh_sysvar_lookup name y = do {
     a \<leftarrow> table_lookup (sysvar_table y) name;
     if a \<noteq> 0 then Some a else list_lookup (global_sysvar_list y) name }"

definition finsh_syscall_lookup :: "u8 list \<Rightarrow> finsh_symbols \<Rightarrow> u32 option" where
  "finsh_syscall_lookup name y = do {
     a \<leftarrow> table_lookup (syscall_table y) name;
     if a \<noteq> 0 then Some a else list_lookup (global_syscall_list y) name }"

text \<open>What the compiler reads of the variables.\<close>

definition symbols_tab :: "finsh_symbols \<Rightarrow> symtab \<Rightarrow> symtab" where
  "symbols_tab y tab = tab\<lparr>var_type := \<lambda>p.
     case first_index (\<lambda>i. variable_addr y i = p) [0..<length (global_variable y)] of
       Some i \<Rightarrow> var_data (global_variable y ! i)
     | None \<Rightarrow> var_type tab p\<rparr>"

section \<open>The heap for strings\<close>

text \<open>
  A block has a header of its length and the address of the next block of its list. The two lists are
  sorted by address.
\<close>

definition FINSH_HEAP_MAX :: u32 where "FINSH_HEAP_MAX = 128"
definition header_size :: u32 where "header_size = 8"

record finsh_heap =
  heap_base :: u32
  free_list :: u32
  allocate_list :: u32

definition block_length :: "memory \<Rightarrow> u32 \<Rightarrow> u32" where
  "block_length m h = load32 m (unat h)"

definition block_next :: "memory \<Rightarrow> u32 \<Rightarrow> u32" where
  "block_next m h = load32 m (unat h + 4)"

definition set_length :: "memory \<Rightarrow> u32 \<Rightarrow> u32 \<Rightarrow> memory" where
  "set_length m h v = store32 m (unat h) v"

definition set_next :: "memory \<Rightarrow> u32 \<Rightarrow> u32 \<Rightarrow> memory" where
  "set_next m h v = store32 m (unat h + 4) v"

definition HEAP_ALIGN_SIZE :: "u32 \<Rightarrow> u32" where
  "HEAP_ALIGN_SIZE sz = (sz + 3) AND NOT 3"

definition clear_bytes :: "memory \<Rightarrow> nat \<Rightarrow> nat \<Rightarrow> memory" where
  "clear_bytes m p n = (\<lambda>a. if p \<le> a \<and> a < p + n then 0 else m a)"

definition finsh_heap_init :: "finsh_heap \<Rightarrow> memory \<Rightarrow> finsh_heap \<times> memory" where
  "finsh_heap_init h m =
    (let base = heap_base h; m1 = clear_bytes m (unat base) (unat FINSH_HEAP_MAX)
     in (h\<lparr>free_list := base, allocate_list := 0\<rparr>, set_next (set_length m1 base (FINSH_HEAP_MAX - header_size)) base 0))"

text \<open>The first block from \<open>b\<close> on that passes the test of its length, or the null pointer.\<close>

partial_function (option) first_fit :: "(u32 \<Rightarrow> bool) \<Rightarrow> memory \<Rightarrow> u32 \<Rightarrow> u32 option" where
  [code]: "first_fit P m b = (if b = 0 \<or> P (block_length m b) then Some b else first_fit P m (block_next m b))"

text \<open>The block behind which \<open>header\<close> belongs, and the block in front of it.\<close>

partial_function (option) insert_point :: "memory \<Rightarrow> u32 \<Rightarrow> u32 \<Rightarrow> u32 option" where
  [code]: "insert_point m header node =
    (if block_next m node > header \<or> block_next m node = 0 then Some node else insert_point m header (block_next m node))"

partial_function (option) prev_block :: "memory \<Rightarrow> u32 \<Rightarrow> u32 \<Rightarrow> u32 option" where
  [code]: "prev_block m header node =
    (if node = 0 \<or> block_next m node = header then Some node else prev_block m header (block_next m node))"

definition finsh_block_insert :: "u32 \<Rightarrow> u32 \<Rightarrow> memory \<Rightarrow> (u32 \<times> memory) option" where
  "finsh_block_insert list header m =
    (if list = 0 then Some (header, m)
     else if list > header then Some (header, set_next m header list)
     else do {
       node \<leftarrow> insert_point m header list;
       let m1 = (if block_next m node \<noteq> 0 then set_next m header (block_next m node) else m);
       Some (list, set_next m1 node header) })"

definition finsh_block_remove :: "u32 \<Rightarrow> u32 \<Rightarrow> memory \<Rightarrow> (u32 \<times> memory) option" where
  "finsh_block_remove list header m =
    (if list = header then Some (block_next m header, set_next m header 0)
     else do {
       node \<leftarrow> prev_block m header list;
       Some (list, if node \<noteq> 0 then set_next m node (block_next m header) else m) })"

definition finsh_block_split :: "u32 \<Rightarrow> u32 \<Rightarrow> memory \<Rightarrow> memory" where
  "finsh_block_split header sz m =
    (let next = header + header_size + sz;
         m1 = set_length m next (block_length m header - header_size - sz);
         m2 = set_length m1 header sz;
         m3 = set_next m2 next (block_next m2 header)
     in set_next m3 header next)"

text \<open>The block \<open>b\<close> ends where \<open>c\<close> starts.\<close>

definition adjacent :: "memory \<Rightarrow> u32 \<Rightarrow> u32 \<Rightarrow> bool" where
  "adjacent m b c \<longleftrightarrow> b + block_length m b + header_size = c"

definition finsh_block_merge :: "u32 \<Rightarrow> u32 \<Rightarrow> memory \<Rightarrow> memory option" where
  "finsh_block_merge list header m = do {
     let next_node = block_next m header;
     prev_node \<leftarrow> (if list = header then Some 0 else prev_block m header list);
     Some (
       if prev_node \<noteq> 0 \<and> adjacent m prev_node header
       then if next_node \<noteq> 0 \<and> adjacent m header next_node
         then set_next (set_length m prev_node
             (block_length m prev_node + (block_length m header + block_length m next_node + 2 * header_size)))
             prev_node (block_next m next_node)
         else set_next (set_length m prev_node (block_length m prev_node + (block_length m header + header_size)))
             prev_node (block_next m header)
       else if next_node \<noteq> 0 \<and> adjacent m header next_node
       then set_next (set_length m header (block_length m header + (block_length m next_node + header_size)))
             header (block_next m next_node)
       else m) }"

definition finsh_heap_free :: "u32 \<Rightarrow> finsh_heap \<Rightarrow> memory \<Rightarrow> (finsh_heap \<times> memory) option" where
  "finsh_heap_free ptr h m = do {
     let header = ptr - header_size;
     (al, m1) \<leftarrow> finsh_block_remove (allocate_list h) header m;
     (fl, m2) \<leftarrow> finsh_block_insert (free_list h) header m1;
     m3 \<leftarrow> finsh_block_merge fl header m2;
     Some (h\<lparr>allocate_list := al, free_list := fl\<rparr>, m3) }"

text \<open>A block is in use when a variable holds its address.\<close>

definition block_used :: "finsh_symbols \<Rightarrow> memory \<Rightarrow> u32 \<Rightarrow> bool" where
  "block_used y m b \<longleftrightarrow> (\<exists>i < length (global_variable y). var_data (global_variable y ! i) \<noteq> finsh_type_unknown
     \<and> load32 m (unat (var_value (variable_addr y i))) = b + header_size)"

partial_function (option) heap_gc_loop :: "finsh_symbols \<Rightarrow> u32 \<Rightarrow> finsh_heap \<Rightarrow> memory \<Rightarrow> (finsh_heap \<times> memory) option" where
  [code]: "heap_gc_loop y header h m =
    (if header = 0 then Some (h, m)
     else if block_used y m header then heap_gc_loop y (block_next m header) h m
     else do {
       (h1, m1) \<leftarrow> finsh_heap_free (header + header_size) h m;
       heap_gc_loop y (block_next m header) h1 m1 })"

definition finsh_heap_gc :: "finsh_symbols \<Rightarrow> finsh_heap \<Rightarrow> memory \<Rightarrow> (finsh_heap \<times> memory) option" where
  "finsh_heap_gc y h m = heap_gc_loop y (allocate_list h) h m"

definition heap_take :: "u32 \<Rightarrow> u32 \<Rightarrow> finsh_heap \<Rightarrow> memory \<Rightarrow> (u32 \<times> finsh_heap \<times> memory) option" where
  "heap_take sz header h m = do {
     (fl, m1) \<leftarrow> finsh_block_remove (free_list h) header (finsh_block_split header sz m);
     (al, m2) \<leftarrow> finsh_block_insert (allocate_list h) header (set_next m1 header 0);
     Some (header + header_size, h\<lparr>free_list := fl, allocate_list := al\<rparr>,
       clear_bytes m2 (unat (header + header_size)) (unat sz)) }"

definition finsh_heap_allocate :: "u32 \<Rightarrow> finsh_symbols \<Rightarrow> finsh_heap \<Rightarrow> memory \<Rightarrow> (u32 \<times> finsh_heap \<times> memory) option" where
  "finsh_heap_allocate sz0 y h m = do {
     let sz = HEAP_ALIGN_SIZE sz0;
     header \<leftarrow> first_fit (\<lambda>n. n > sz + header_size) m (free_list h);
     if header \<noteq> 0 then heap_take sz header h m
     else do {
       (h1, m1) \<leftarrow> finsh_heap_gc y h m;
       header \<leftarrow> first_fit (\<lambda>n. n \<ge> sz + header_size) m1 (free_list h1);
       if header = 0 then Some (0, h1, m1) else heap_take sz header h1 m1 } }"

end
