(* ===== verification/RT_FinshParser.thy ===== *)
theory RT_FinshParser
  imports RT_FinshSyms
begin

text \<open>
  The parser of the shell (\<open>components/finsh/finsh_parser.c\<close>) and the making of nodes (\<open>finsh_node.c\<close>).

  The functions for expressions call each other and themselves; the function \<open>parse\<close> that ties them together
  counts the calls that are open, one inside the other, and a call that goes too deep is \<open>None\<close>, and so is what the
  scanner and the heap leave open. Nodes are taken from the table in their order and never given back
  singly, so that their number is all the state of the table. The nodes that are linked by their siblings
  while a line or an argument list is read are kept as a list and linked at the end.
\<close>

section \<open>State\<close>

definition FINSH_NODE_MAX :: nat where "FINSH_NODE_MAX = 16"

definition FINSH_ERROR_OK :: u8 where "FINSH_ERROR_OK = 0"
definition FINSH_ERROR_INVALID_TOKEN :: u8 where "FINSH_ERROR_INVALID_TOKEN = 1"
definition FINSH_ERROR_EXPECT_TYPE :: u8 where "FINSH_ERROR_EXPECT_TYPE = 2"
definition FINSH_ERROR_VARIABLE_EXIST :: u8 where "FINSH_ERROR_VARIABLE_EXIST = 4"
definition FINSH_ERROR_EXPECT_OPERATOR :: u8 where "FINSH_ERROR_EXPECT_OPERATOR = 5"
definition FINSH_ERROR_MEMORY_FULL :: u8 where "FINSH_ERROR_MEMORY_FULL = 6"
definition FINSH_ERROR_UNKNOWN_SYMBOL :: u8 where "FINSH_ERROR_UNKNOWN_SYMBOL = 13"
definition FINSH_ERROR_NULL_NODE :: u8 where "FINSH_ERROR_NULL_NODE = 14"

record finsh_parser =
  token :: finsh_token
  nodes_used :: nat
  symbols :: finsh_symbols
  string_heap :: finsh_heap
  parser_ram :: memory

definition parse_error :: "u8 \<Rightarrow> finsh_parser \<Rightarrow> finsh_parser" where
  "parse_error e p = p\<lparr>token := finsh_error_set e (token p)\<rparr>"

definition next_token :: "finsh_parser \<Rightarrow> (finsh_token_type \<times> finsh_parser) option" where
  "next_token p = map_option (\<lambda>t. (current_token t, p\<lparr>token := t\<rparr>)) (finsh_token_token (token p))"

definition replay_token :: "finsh_parser \<Rightarrow> finsh_parser" where
  "replay_token p = p\<lparr>token := finsh_token_replay (token p)\<rparr>"

definition check_token :: "finsh_token_type \<Rightarrow> finsh_token_type \<Rightarrow> finsh_parser \<Rightarrow> finsh_parser" where
  "check_token t want p = (if t \<noteq> want then replay_token (parse_error FINSH_ERROR_INVALID_TOKEN p) else p)"

definition match_token :: "finsh_token_type \<Rightarrow> finsh_parser \<Rightarrow> finsh_parser option" where
  "match_token want p = map_option (\<lambda>(t, p1). check_token t want p1) (next_token p)"

definition is_base_type :: "finsh_token_type \<Rightarrow> bool" where
  "is_base_type t \<longleftrightarrow> t \<in> {finsh_token_type_void, finsh_token_type_char, finsh_token_type_short, finsh_token_type_int, finsh_token_type_long}"

section \<open>Nodes\<close>

text \<open>A node of the table is zero until it is taken.\<close>

definition new_info :: "finsh_node_type \<Rightarrow> node_info" where
  "new_info t = \<lparr>node_type = t, data_type = 0, idtype = 0, node_value = 0, node_id = 0\<rparr>"

definition finsh_node_init :: "finsh_parser \<Rightarrow> finsh_parser" where
  "finsh_node_init p = p\<lparr>nodes_used := 0\<rparr>"

definition finsh_node_allocate :: "node_info \<Rightarrow> finsh_parser \<Rightarrow> finsh_node \<times> finsh_parser" where
  "finsh_node_allocate i p =
    (if nodes_used p < FINSH_NODE_MAX then (Node i NULL NULL, p\<lparr>nodes_used := nodes_used p + 1\<rparr>) else (NULL, p))"

definition new_node :: "node_info \<Rightarrow> finsh_parser \<Rightarrow> finsh_node \<times> finsh_parser" where
  "new_node i p = (let (n, p1) = finsh_node_allocate i p in
     (n, if n = NULL then parse_error FINSH_ERROR_MEMORY_FULL p1 else p1))"

definition finsh_node_new_char :: "u8 \<Rightarrow> finsh_parser \<Rightarrow> finsh_node \<times> finsh_parser" where
  "finsh_node_new_char c = new_node ((new_info FINSH_NODE_VALUE_CHAR)\<lparr>node_value := ucast c\<rparr>)"

definition finsh_node_new_int :: "u32 \<Rightarrow> finsh_parser \<Rightarrow> finsh_node \<times> finsh_parser" where
  "finsh_node_new_int i = new_node ((new_info FINSH_NODE_VALUE_INT)\<lparr>node_value := i\<rparr>)"

definition finsh_node_new_long :: "u32 \<Rightarrow> finsh_parser \<Rightarrow> finsh_node \<times> finsh_parser" where
  "finsh_node_new_long l = new_node ((new_info FINSH_NODE_VALUE_LONG)\<lparr>node_value := l\<rparr>)"

definition finsh_node_new_ptr :: "u32 \<Rightarrow> finsh_parser \<Rightarrow> finsh_node \<times> finsh_parser" where
  "finsh_node_new_ptr ptr = new_node ((new_info FINSH_NODE_VALUE_NULL)\<lparr>node_value := ptr\<rparr>)"

text \<open>Without memory for the string the code writes through a null pointer.\<close>

definition finsh_node_new_string :: "u8 list \<Rightarrow> finsh_parser \<Rightarrow> (finsh_node \<times> finsh_parser) option" where
  "finsh_node_new_string cs p =
    (case finsh_node_allocate (new_info FINSH_NODE_VALUE_STRING) p of
       (NULL, p1) \<Rightarrow> Some (NULL, parse_error FINSH_ERROR_MEMORY_FULL p1)
     | (Node i c s, p1) \<Rightarrow> do {
         (a, h, m) \<leftarrow> finsh_heap_allocate (of_nat (length cs) + 1) (symbols p1) (string_heap p1) (parser_ram p1);
         if a = 0 then None
         else Some (Node (i\<lparr>node_value := a\<rparr>) c s,
           p1\<lparr>string_heap := h, parser_ram := (\<lambda>x. if unat a \<le> x \<and> x \<le> unat a + length cs
               then (cs @ [0]) ! (x - unat a) else m x)\<rparr>) })"

definition find_symbol :: "u8 list \<Rightarrow> finsh_symbols \<Rightarrow> (u8 \<times> u32) option" where
  "find_symbol name y =
    (let v = finsh_var_lookup name y in
     if v \<noteq> 0 then Some (FINSH_IDTYPE_VAR, v)
     else do {
       sv \<leftarrow> finsh_sysvar_lookup name y;
       if sv \<noteq> 0 then Some (FINSH_IDTYPE_SYSVAR, sv)
       else do { sc \<leftarrow> finsh_syscall_lookup name y; Some (if sc \<noteq> 0 then FINSH_IDTYPE_SYSCALL else 0, sc) } })"

definition finsh_node_new_id :: "u8 list \<Rightarrow> finsh_parser \<Rightarrow> (finsh_node \<times> finsh_parser) option" where
  "finsh_node_new_id name p = do {
     (type, symbol) \<leftarrow> find_symbol name (symbols p);
     if symbol = 0 then Some (NULL, parse_error FINSH_ERROR_UNKNOWN_SYMBOL p)
     else Some (new_node ((new_info FINSH_NODE_ID)\<lparr>node_id := symbol, idtype := type\<rparr>) p) }"

fun set_sibling :: "finsh_node \<Rightarrow> finsh_node \<Rightarrow> finsh_node" where
  "set_sibling NULL s = NULL"
| "set_sibling (Node i c _) s = Node i c s"

text \<open>The nodes of a list, each with the next one as its sibling; the last one keeps its own.\<close>

fun link_nodes :: "finsh_node list \<Rightarrow> finsh_node" where
  "link_nodes [] = NULL"
| "link_nodes (n # ns) = (if ns = [] then n else set_sibling n (link_nodes ns))"

definition make_sys_node :: "finsh_node_type \<Rightarrow> finsh_node \<Rightarrow> finsh_node \<Rightarrow> finsh_parser \<Rightarrow> finsh_node \<times> finsh_parser" where
  "make_sys_node type node1 node2 p =
    (case finsh_node_allocate (new_info type) p of
       (NULL, p1) \<Rightarrow> (NULL, parse_error FINSH_ERROR_NULL_NODE p1)
     | (Node i c s, p1) \<Rightarrow>
         if node1 = NULL then (Node i c s, parse_error FINSH_ERROR_NULL_NODE p1)
         else (Node i (set_sibling node1 node2) s, p1))"

section \<open>Types and identifiers\<close>

definition signed_type :: "finsh_token_type \<Rightarrow> finsh_type option" where
  "signed_type t = map_of [(finsh_token_type_void, finsh_type_void), (finsh_token_type_char, finsh_type_char),
     (finsh_token_type_short, finsh_type_short), (finsh_token_type_int, finsh_type_int), (finsh_token_type_long, finsh_type_long)] t"

definition unsigned_type :: "finsh_token_type \<Rightarrow> finsh_type option" where
  "unsigned_type t = map_of [(finsh_token_type_char, finsh_type_uchar), (finsh_token_type_short, finsh_type_ushort),
     (finsh_token_type_int, finsh_type_uint), (finsh_token_type_long, finsh_type_ulong)] t"

definition pointer_type :: "finsh_type \<Rightarrow> finsh_type" where
  "pointer_type t = (case t of
     finsh_type_char \<Rightarrow> finsh_type_charp | finsh_type_uchar \<Rightarrow> finsh_type_charp
   | finsh_type_short \<Rightarrow> finsh_type_shortp | finsh_type_ushort \<Rightarrow> finsh_type_shortp
   | finsh_type_int \<Rightarrow> finsh_type_intp | finsh_type_uint \<Rightarrow> finsh_type_intp
   | finsh_type_long \<Rightarrow> finsh_type_longp | finsh_type_ulong \<Rightarrow> finsh_type_longp
   | _ \<Rightarrow> finsh_type_voidp)"

definition proc_pointer :: "finsh_type \<Rightarrow> finsh_parser \<Rightarrow> (finsh_type \<times> finsh_parser) option" where
  "proc_pointer type p = do {
     (t, p1) \<leftarrow> next_token p;
     Some (if t = finsh_token_type_mul then (pointer_type type, p1) else (type, replay_token p1)) }"

definition no_type :: "finsh_parser \<Rightarrow> finsh_type \<times> finsh_parser" where
  "no_type p = (finsh_type_unknown, parse_error FINSH_ERROR_UNKNOWN_TYPE (replay_token p))"

definition proc_type :: "finsh_parser \<Rightarrow> (finsh_type \<times> finsh_parser) option" where
  "proc_type p = do {
     (t, p1) \<leftarrow> next_token p;
     case signed_type t of
       Some type \<Rightarrow> proc_pointer type p1
     | None \<Rightarrow>
         if t = finsh_token_type_unsigned
         then do {
           (t2, p2) \<leftarrow> next_token p1;
           case unsigned_type t2 of
             Some type \<Rightarrow> proc_pointer type p2
           | None \<Rightarrow>
               if is_base_type t2 then Some (no_type p2)
               else proc_pointer finsh_type_unknown (parse_error FINSH_ERROR_EXPECT_TYPE (replay_token p2)) }
         else Some (no_type p1) }"

text \<open>The identifier is copied also when the token is another one; the string is then that of the last name read.\<close>

definition proc_identifier :: "finsh_parser \<Rightarrow> (u8 list \<times> finsh_parser) option" where
  "proc_identifier p = do {
     p1 \<leftarrow> match_token finsh_token_type_identifier p;
     Some (take FINSH_NAME_MAX (token_text (token p1)), p1) }"

section \<open>Expressions\<close>

text \<open>
  The six levels of binary operators, from \<open>proc_multiplicative_expr\<close> (level 1) to
  \<open>proc_inclusive_or_expr\<close> (level 6), with the tokens each of them reads. Their functions differ in these
  tokens and in the function of the next level only.
\<close>

definition level_op :: "nat \<Rightarrow> finsh_token_type \<Rightarrow> binop option" where
  "level_op lv t = map_of
    [((6, finsh_token_type_or), Or), ((5, finsh_token_type_xor), Xor), ((4, finsh_token_type_and), And),
     ((3, finsh_token_type_shl), Shl), ((3, finsh_token_type_shr), Shr),
     ((2, finsh_token_type_sub), Sub), ((2, finsh_token_type_add), Add),
     ((1, finsh_token_type_mul), Mul), ((1, finsh_token_type_div), Div), ((1, finsh_token_type_mod), Mod)] (lv, t)"

definition unary_type :: "finsh_token_type \<Rightarrow> finsh_node_type option" where
  "unary_type t = map_of
    [(finsh_token_type_inc, FINSH_NODE_SYS_PREINC), (finsh_token_type_dec, FINSH_NODE_SYS_PREDEC),
     (finsh_token_type_bitwise, FINSH_NODE_SYS_BITWISE), (finsh_token_type_mul, FINSH_NODE_SYS_GETVALUE),
     (finsh_token_type_and, FINSH_NODE_SYS_GETADDR)] t"

text \<open>The number of a type in the enumeration \<open>finsh_type\<close>, which a cast writes into its node.\<close>

definition type_number :: "finsh_type \<Rightarrow> u8" where
  "type_number t = (case t of finsh_type_unknown \<Rightarrow> 0 | finsh_type_void \<Rightarrow> 1 | finsh_type_voidp \<Rightarrow> 2
   | finsh_type_char \<Rightarrow> 3 | finsh_type_uchar \<Rightarrow> 4 | finsh_type_charp \<Rightarrow> 5
   | finsh_type_short \<Rightarrow> 6 | finsh_type_ushort \<Rightarrow> 7 | finsh_type_shortp \<Rightarrow> 8
   | finsh_type_int \<Rightarrow> 9 | finsh_type_uint \<Rightarrow> 10 | finsh_type_intp \<Rightarrow> 11
   | finsh_type_long \<Rightarrow> 12 | finsh_type_ulong \<Rightarrow> 13 | finsh_type_longp \<Rightarrow> 14)"

fun set_cast :: "finsh_type \<Rightarrow> finsh_node \<Rightarrow> finsh_node" where
  "set_cast t NULL = NULL"
| "set_cast t (Node i c s) = Node (i\<lparr>data_type := type_number t\<rparr>) c s"

type_synonym parse_result = "(finsh_node \<times> finsh_parser) option"

text \<open>The primary expressions of one token.\<close>

definition primary_token :: "finsh_token_type \<Rightarrow> finsh_parser \<Rightarrow> parse_result" where
  "primary_token t p = (case t of
     finsh_token_type_identifier \<Rightarrow> do { (id, p1) \<leftarrow> proc_identifier (replay_token p); finsh_node_new_id id p1 }
   | finsh_token_type_value_int \<Rightarrow> Some (finsh_node_new_int (token_value (token p)) p)
   | finsh_token_type_value_long \<Rightarrow> Some (finsh_node_new_long (token_value (token p)) p)
   | finsh_token_type_value_char \<Rightarrow> Some (finsh_node_new_char (ucast (token_value (token p))) p)
   | finsh_token_type_value_string \<Rightarrow> if 0 \<in> set (token_string (token p)) then finsh_node_new_string (token_text (token p)) p else None
   | finsh_token_type_value_null \<Rightarrow> Some (finsh_node_new_ptr 0 p)
   | _ \<Rightarrow> Some (NULL, parse_error FINSH_ERROR_INVALID_TOKEN p))"

text \<open>
  The functions for expressions, and the loops in them, as values. The body of each function takes as its
  first argument what a call of a function does.
\<close>

datatype expr_call = Assign_expr | Binary_expr nat | Binary_loop nat finsh_node | Cast_expr | Unary_expr | Postfix_expr
  | Postfix_loop finsh_node | Primary_expr | Param_list | Param_loop "finsh_node list"

type_synonym calls = "expr_call \<Rightarrow> finsh_parser \<Rightarrow> parse_result"

definition proc_assign_expr :: "calls \<Rightarrow> finsh_parser \<Rightarrow> parse_result" where
  "proc_assign_expr call p = do {
     (or, p1) \<leftarrow> call (Binary_expr 6) p;
     (t, p2) \<leftarrow> next_token p1;
     if t = finsh_token_type_assign
     then do { (assign, p3) \<leftarrow> call Assign_expr p2; Some (make_sys_node FINSH_NODE_SYS_ASSIGN or assign p3) }
     else Some (or, replay_token p2) }"

definition lower_expr :: "nat \<Rightarrow> expr_call" where
  "lower_expr lv = (if lv = 1 then Cast_expr else Binary_expr (lv - 1))"

definition proc_binary_expr :: "nat \<Rightarrow> calls \<Rightarrow> finsh_parser \<Rightarrow> parse_result" where
  "proc_binary_expr lv call p = do {
     (e, p1) \<leftarrow> call (lower_expr lv) p;
     call (Binary_loop lv e) p1 }"

definition binary_node :: "binop \<Rightarrow> finsh_node \<Rightarrow> finsh_node \<Rightarrow> finsh_parser \<Rightarrow> finsh_node \<times> finsh_parser" where
  "binary_node f e e_new p =
    (if e_new = NULL then (e, parse_error FINSH_ERROR_EXPECT_OPERATOR p) else make_sys_node (FINSH_NODE_SYS_BIN f) e e_new p)"

definition binary_loop :: "nat \<Rightarrow> finsh_node \<Rightarrow> calls \<Rightarrow> finsh_parser \<Rightarrow> parse_result" where
  "binary_loop lv e call p = do {
     (t, p1) \<leftarrow> next_token p;
     case level_op lv t of
       None \<Rightarrow> Some (e, replay_token p1)
     | Some f \<Rightarrow> do {
         (e_new, p2) \<leftarrow> call (lower_expr lv) p1;
         let (e2, p3) = binary_node f e e_new p2;
         call (Binary_loop lv e2) p3 } }"

definition proc_cast_expr :: "calls \<Rightarrow> finsh_parser \<Rightarrow> parse_result" where
  "proc_cast_expr call p = do {
     (t, p1) \<leftarrow> next_token p;
     if t = finsh_token_type_left_paren
     then do {
       (type, p2) \<leftarrow> proc_type p1;
       p3 \<leftarrow> match_token finsh_token_type_right_paren p2;
       (cast, p4) \<leftarrow> call Cast_expr p3;
       if cast \<noteq> NULL then Some (set_cast type cast, p4) else call Unary_expr (replay_token p4) }
     else call Unary_expr (replay_token p1) }"

definition proc_unary_expr :: "calls \<Rightarrow> finsh_parser \<Rightarrow> parse_result" where
  "proc_unary_expr call p = do {
     (t, p1) \<leftarrow> next_token p;
     if t = finsh_token_type_add then call Cast_expr p1
     else if t = finsh_token_type_sub
     then do {
       (cast, p2) \<leftarrow> call Cast_expr p1;
       let (zero, p3) = finsh_node_new_long 0 p2;
       Some (make_sys_node (FINSH_NODE_SYS_BIN Sub) zero cast p3) }
     else (case unary_type t of
       Some type \<Rightarrow> do { (cast, p2) \<leftarrow> call Cast_expr p1; Some (make_sys_node type cast NULL p2) }
     | None \<Rightarrow> call Postfix_expr (replay_token p1)) }"

definition proc_postfix_expr :: "calls \<Rightarrow> finsh_parser \<Rightarrow> parse_result" where
  "proc_postfix_expr call p = do { (e, p1) \<leftarrow> call Primary_expr p; call (Postfix_loop e) p1 }"

definition call_params :: "calls \<Rightarrow> finsh_parser \<Rightarrow> parse_result" where
  "call_params call p = do {
     (t, p1) \<leftarrow> next_token p;
     if t = finsh_token_type_right_paren then Some (NULL, p1)
     else do {
       (l, p2) \<leftarrow> call Param_list (replay_token p1);
       map_option (Pair l) (match_token finsh_token_type_right_paren p2) } }"

definition postfix_loop :: "finsh_node \<Rightarrow> calls \<Rightarrow> finsh_parser \<Rightarrow> parse_result" where
  "postfix_loop e call p = do {
     (t, p1) \<leftarrow> next_token p;
     if t = finsh_token_type_inc
     then do { let (e2, p2) = make_sys_node FINSH_NODE_SYS_INC e NULL p1; call (Postfix_loop e2) p2 }
     else if t = finsh_token_type_dec
     then do { let (e2, p2) = make_sys_node FINSH_NODE_SYS_DEC e NULL p1; call (Postfix_loop e2) p2 }
     else if t = finsh_token_type_left_paren
     then do {
       (params, p2) \<leftarrow> call_params call p1;
       let (e2, p3) = make_sys_node FINSH_NODE_SYS_FUNC e params p2;
       call (Postfix_loop e2) p3 }
     else Some (e, replay_token p1) }"

definition proc_primary_expr :: "calls \<Rightarrow> finsh_parser \<Rightarrow> parse_result" where
  "proc_primary_expr call p = do {
     (t, p1) \<leftarrow> next_token p;
     if t = finsh_token_type_left_paren
     then do { (e, p2) \<leftarrow> call Assign_expr p1; map_option (Pair e) (match_token finsh_token_type_right_paren p2) }
     else primary_token t p1 }"

definition proc_param_list :: "calls \<Rightarrow> finsh_parser \<Rightarrow> parse_result" where
  "proc_param_list call p = do {
     (assign, p1) \<leftarrow> call Assign_expr p;
     if assign = NULL then Some (NULL, p1) else call (Param_loop [assign]) p1 }"

definition param_loop :: "finsh_node list \<Rightarrow> calls \<Rightarrow> finsh_parser \<Rightarrow> parse_result" where
  "param_loop ns call p = do {
     (t, p1) \<leftarrow> next_token p;
     if t = finsh_token_type_comma
     then do {
       (assign, p2) \<leftarrow> call Assign_expr p1;
       if assign \<noteq> NULL then call (Param_loop (ns @ [assign])) p2
       else call (Param_loop ns) (parse_error FINSH_ERROR_EXPECT_OPERATOR p2) }
     else Some (link_nodes ns, replay_token p1) }"

definition expr_body :: "expr_call \<Rightarrow> calls \<Rightarrow> finsh_parser \<Rightarrow> parse_result" where
  "expr_body c = (case c of
     Assign_expr \<Rightarrow> proc_assign_expr | Binary_expr lv \<Rightarrow> proc_binary_expr lv | Binary_loop lv e \<Rightarrow> binary_loop lv e
   | Cast_expr \<Rightarrow> proc_cast_expr | Unary_expr \<Rightarrow> proc_unary_expr | Postfix_expr \<Rightarrow> proc_postfix_expr
   | Postfix_loop e \<Rightarrow> postfix_loop e | Primary_expr \<Rightarrow> proc_primary_expr
   | Param_list \<Rightarrow> proc_param_list | Param_loop ns \<Rightarrow> param_loop ns)"

primrec parse :: "nat \<Rightarrow> calls" where
  "parse 0 c p = None"
| "parse (Suc n) c p = expr_body c (parse n) p"

definition proc_expr :: "nat \<Rightarrow> finsh_parser \<Rightarrow> parse_result" where
  "proc_expr n = parse n Assign_expr"

definition proc_expr_statement :: "nat \<Rightarrow> finsh_parser \<Rightarrow> parse_result" where
  "proc_expr_statement n p = do {
     (t, p1) \<leftarrow> next_token p;
     if t = finsh_token_type_semicolon then Some (NULL, p1)
     else do {
       (e, p2) \<leftarrow> proc_expr n (replay_token p1);
       map_option (Pair e) (match_token finsh_token_type_semicolon p2) } }"

section \<open>Declarations\<close>

definition declare_id :: "finsh_type \<Rightarrow> finsh_parser \<Rightarrow> (u8 list \<times> finsh_parser) option" where
  "declare_id type p = do {
     (name, p1) \<leftarrow> proc_identifier p;
     let (i, y) = finsh_var_insert name type (symbols p1);
     Some (name, if i < 0 then parse_error FINSH_ERROR_VARIABLE_EXIST p1 else p1\<lparr>symbols := y\<rparr>) }"

text \<open>
  The right side of \<open>id = expr\<close>, and the token after it. Without an expression the token stays the
  assignment. The nodes made so far are \<open>ns\<close>, and \<open>lost\<close> says that the pointer to the last one is null
  because there was no node left.
\<close>

definition decl_assign :: "nat \<Rightarrow> u8 list \<Rightarrow> finsh_node list \<Rightarrow> bool \<Rightarrow> finsh_parser
    \<Rightarrow> (finsh_token_type \<times> finsh_node list \<times> bool \<times> finsh_parser) option" where
  "decl_assign n name ns lost p = do {
     (assign, p1) \<leftarrow> parse n Assign_expr p;
     if assign = NULL then Some (finsh_token_type_assign, ns, lost, p1)
     else do {
       (idnode, p2) \<leftarrow> finsh_node_new_id name p1;
       if ns \<noteq> [] \<and> lost then None
       else do {
         let (e, p3) = make_sys_node FINSH_NODE_SYS_ASSIGN idnode assign p2;
         (t, p4) \<leftarrow> next_token p3;
         Some (t, if e = NULL then ns else ns @ [e], e = NULL, p4) } } }"

fun decl_loop :: "nat \<Rightarrow> finsh_type \<Rightarrow> finsh_token_type \<Rightarrow> finsh_node list \<Rightarrow> bool \<Rightarrow> finsh_parser
    \<Rightarrow> (finsh_token_type \<times> finsh_node list \<times> finsh_parser) option" where
  "decl_loop 0 type t ns lost p = None"
| "decl_loop (Suc n) type t ns lost p =
    (if t = finsh_token_type_comma
     then do {
       (name, p1) \<leftarrow> declare_id type p;
       (t2, p2) \<leftarrow> next_token p1;
       if t2 = finsh_token_type_assign
       then do { (t3, ns3, lost3, p3) \<leftarrow> decl_assign n name ns lost p2; decl_loop n type t3 ns3 lost3 p3 }
       else decl_loop n type t2 ns lost p2 }
     else Some (t, ns, p))"

definition decl_end :: "(finsh_token_type \<times> finsh_node list \<times> finsh_parser) \<Rightarrow> finsh_node list \<times> finsh_parser" where
  "decl_end r = (case r of (t, ns, p) \<Rightarrow> (ns, check_token t finsh_token_type_semicolon p))"

definition proc_variable_decl :: "nat \<Rightarrow> finsh_parser \<Rightarrow> (finsh_node list \<times> finsh_parser) option" where
  "proc_variable_decl n p = do {
     (type, p1) \<leftarrow> proc_type p;
     (name, p2) \<leftarrow> declare_id type p1;
     (t, p3) \<leftarrow> next_token p2;
     if t = finsh_token_type_comma then map_option decl_end (decl_loop n type t [] False p3)
     else if t = finsh_token_type_assign
     then do {
       (t4, ns, lost, p4) \<leftarrow> decl_assign n name [] False p3;
       map_option decl_end (decl_loop n type t4 ns lost p4) }
     else Some ([], if t = finsh_token_type_semicolon then p3 else parse_error FINSH_ERROR_EXPECT_TYPE p3) }"

section \<open>Lines\<close>

text \<open>
  The statements of the line: \<open>root\<close> are the nodes linked so far and \<open>k\<close> is the place of \<open>node\<close> among them,
  behind which the next statement is put in place of what follows there. An empty statement list ends the
  parser, and so does the end of the line or a bad token.
\<close>

definition statement :: "nat \<Rightarrow> finsh_token_type \<Rightarrow> finsh_parser \<Rightarrow> (finsh_node list \<times> finsh_parser) option" where
  "statement n t p =
    (if is_base_type t \<or> t = finsh_token_type_unsigned then proc_variable_decl n p
     else map_option (\<lambda>(e, p1). (if e = NULL then [] else [e], p1)) (proc_expr_statement n p))"

fun parser_loop :: "nat \<Rightarrow> finsh_token_type \<Rightarrow> finsh_node list \<Rightarrow> nat \<Rightarrow> finsh_parser \<Rightarrow> (finsh_node list \<times> finsh_parser) option" where
  "parser_loop 0 t root k p = None"
| "parser_loop (Suc n) t root k p =
    (if t = finsh_token_type_eof \<or> t = finsh_token_type_bad then Some (root, p)
     else do {
       (ns, p1) \<leftarrow> statement n t (replay_token p);
       let root1 = (if root = [] then ns else take (k + 1) root @ ns);
       let k1 = (if root = [] \<or> ns = [] then k else k + 1);
       p2 \<leftarrow> (if root \<noteq> [] \<and> ns = [] \<and> t \<noteq> finsh_token_type_identifier \<and> \<not> is_base_type t \<and> t \<noteq> finsh_token_type_unsigned
         then map_option snd (next_token p1) else Some p1);
       if root1 = [] then Some ([], p2)
       else do { (t3, p3) \<leftarrow> next_token p2; parser_loop n t3 root1 k1 p3 } })"

definition finsh_parser_run :: "nat \<Rightarrow> u8 list \<Rightarrow> finsh_parser \<Rightarrow> (finsh_node \<times> finsh_parser) option" where
  "finsh_parser_run n string p = do {
     let p1 = p\<lparr>token := finsh_token_init string (global_errno (token p))\<rparr>;
     (t, p2) \<leftarrow> next_token p1;
     (root, p3) \<leftarrow> parser_loop n t [] 0 p2;
     Some (link_nodes root, p3) }"

end
