(* ===== verification/RT_FinshExpr.thy ===== *)
theory RT_FinshExpr
  imports RT_FinshCompiler
begin

text \<open>
  What the code that the shell compiles computes. The language of expressions of one width is given a
  meaning in terms of C integers and memory; the tree the parser builds for an expression is type-checked
  and compiled to byte code that, run by the machine, leaves the value of the expression on the stack and
  the memory as the meaning says.
\<close>

section \<open>Expressions\<close>

text \<open>
  Variables and functions are given by the address of their structure in the symbol tables. \<open>Pre\<close> and
  \<open>Post\<close> are the increments (\<open>Add\<close>) and decrements (\<open>Sub\<close>), \<open>Store a b\<close> is \<open>*a = b\<close>.
\<close>

datatype expr = Num u32 | Chr u8 | Var u32 | Op binop expr expr | Not expr | Assign u32 expr
  | Pre binop u32 | Post binop u32 | Deref expr | AddrOf u32 | Store expr expr | Apply u32 "expr list"

text \<open>The conversion of an integer to the C type of a width.\<close>

definition wrap :: "width \<Rightarrow> int \<Rightarrow> int" where
  "wrap w z = (case w of BYTE \<Rightarrow> z mod 2 ^ 8 | WORD \<Rightarrow> (z + 2 ^ 15) mod 2 ^ 16 - 2 ^ 15 | DWORD \<Rightarrow> (z + 2 ^ 31) mod 2 ^ 32 - 2 ^ 31)"

definition value_at :: "width \<Rightarrow> memory \<Rightarrow> u32 \<Rightarrow> int" where
  "value_at w m a = union_get w (mem_get w m a)"

fun eval :: "syscalls \<Rightarrow> symtab \<Rightarrow> width \<Rightarrow> expr \<Rightarrow> memory \<Rightarrow> (int \<times> memory) option"
  and evals :: "syscalls \<Rightarrow> symtab \<Rightarrow> width \<Rightarrow> expr list \<Rightarrow> memory \<Rightarrow> (int list \<times> memory) option" where
  "eval sys tab w (Num u) m = Some (sint u, m)"
| "eval sys tab w (Chr c) m = Some (uint c, m)"
| "eval sys tab w (Var p) m = Some (value_at w m (var_value p), m)"
| "eval sys tab w (Op f a b) m = do {
     (x, m1) \<leftarrow> eval sys tab w a m;
     (y, m2) \<leftarrow> eval sys tab w b m1;
     z \<leftarrow> bin_op f x y;
     Some (wrap w z, m2) }"
| "eval sys tab w (Not a) m = do {
     (x, m1) \<leftarrow> eval sys tab w a m;
     Some (wrap w (NOT x), m1) }"
| "eval sys tab w (Assign p a) m = do {
     (x, m1) \<leftarrow> eval sys tab w a m;
     Some (x, mem_set w m1 (var_value p) (of_int x)) }"
| "eval sys tab w (Pre f p) m = do {
     z \<leftarrow> bin_op f (value_at w m (var_value p)) 1;
     Some (wrap w z, mem_set w m (var_value p) (of_int (wrap w z))) }"
| "eval sys tab w (Post f p) m = do {
     let x = value_at w m (var_value p);
     z \<leftarrow> bin_op f x 1;
     Some (x, mem_set w m (var_value p) (of_int (wrap w z))) }"
| "eval sys tab w (Deref a) m = do {
     (x, m1) \<leftarrow> eval sys tab w a m;
     Some (value_at w m1 (of_int x), m1) }"
| "eval sys tab w (AddrOf p) m = Some (sint (var_value p), m)"
| "eval sys tab w (Store a b) m = do {
     (x, m1) \<leftarrow> eval sys tab w a m;
     (y, m2) \<leftarrow> eval sys tab w b m1;
     Some (y, mem_set w m2 (of_int x) (of_int y)) }"
| "eval sys tab w (Apply f as) m = do {
     (xs, m1) \<leftarrow> evals sys tab w as m;
     (r, m2) \<leftarrow> sys (syscall_func tab f) (if xs = [] then [0] else map of_int xs) m1;
     Some (sint r, m2) }"
| "evals sys tab w [] m = Some ([], m)"
| "evals sys tab w (a # as) m = do {
     (x, m1) \<leftarrow> eval sys tab w a m;
     (xs, m2) \<leftarrow> evals sys tab w as m1;
     Some (x # xs, m2) }"

text \<open>
  Which expressions are of a width: literals and variables that are, a call is a double word. A call
  must not be the first operand of anything, since a node takes its type from its first child and a
  call has none.
\<close>

definition valued :: "expr \<Rightarrow> bool" where
  "valued e \<longleftrightarrow> (case e of Apply _ _ \<Rightarrow> False | _ \<Rightarrow> True)"

definition var_ok :: "symtab \<Rightarrow> width \<Rightarrow> u32 \<Rightarrow> bool" where
  "var_ok tab w p \<longleftrightarrow> p \<noteq> 0 \<and> load_width (var_type tab p) = Some w"

fun typed :: "symtab \<Rightarrow> width \<Rightarrow> expr \<Rightarrow> bool" where
  "typed tab w (Num u) = (w = DWORD)"
| "typed tab w (Chr c) = (w = BYTE)"
| "typed tab w (Var p) = var_ok tab w p"
| "typed tab w (Op f a b) = (typed tab w a \<and> valued a \<and> typed tab w b)"
| "typed tab w (Not a) = (typed tab w a \<and> valued a)"
| "typed tab w (Assign p a) = (var_ok tab w p \<and> typed tab w a)"
| "typed tab w (Pre f p) = (var_ok tab w p \<and> (f = Add \<or> f = Sub))"
| "typed tab w (Post f p) = (var_ok tab w p \<and> (f = Add \<or> f = Sub))"
| "typed tab w (Deref a) = (w = DWORD \<and> typed tab w a \<and> valued a)"
| "typed tab w (AddrOf p) = (w = DWORD \<and> var_ok tab w p)"
| "typed tab w (Store a b) = (w = DWORD \<and> typed tab w a \<and> valued a \<and> typed tab w b)"
| "typed tab w (Apply f as) = (w = DWORD \<and> length as \<le> 16 \<and> (\<forall>a \<in> set as. typed tab w a))"

section \<open>Trees\<close>

definition sys_node :: "finsh_node_type \<Rightarrow> node_info" where
  "sys_node t = \<lparr>node_type = t, data_type = 0, idtype = 0, node_value = 0, node_id = 0\<rparr>"

definition id_node :: "u8 \<Rightarrow> u32 \<Rightarrow> node_info" where
  "id_node k p = \<lparr>node_type = FINSH_NODE_ID, data_type = 0, idtype = k, node_value = 0, node_id = p\<rparr>"

abbreviation step_type :: "binop \<Rightarrow> finsh_node_type \<Rightarrow> finsh_node_type \<Rightarrow> finsh_node_type" where
  "step_type f up down \<equiv> if f = Add then up else down"

text \<open>The tree of an expression, in front of its siblings.\<close>

fun tree :: "expr \<Rightarrow> finsh_node \<Rightarrow> finsh_node" and trees :: "expr list \<Rightarrow> finsh_node" where
  "tree (Num u) s = Node ((sys_node FINSH_NODE_VALUE_INT)\<lparr>node_value := u\<rparr>) NULL s"
| "tree (Chr c) s = Node ((sys_node FINSH_NODE_VALUE_CHAR)\<lparr>node_value := ucast c\<rparr>) NULL s"
| "tree (Var p) s = Node (id_node FINSH_IDTYPE_VAR p) NULL s"
| "tree (Op f a b) s = Node (sys_node (FINSH_NODE_SYS_BIN f)) (tree a (tree b NULL)) s"
| "tree (Not a) s = Node (sys_node FINSH_NODE_SYS_BITWISE) (tree a NULL) s"
| "tree (Assign p a) s = Node (sys_node FINSH_NODE_SYS_ASSIGN) (Node (id_node FINSH_IDTYPE_VAR p) NULL (tree a NULL)) s"
| "tree (Pre f p) s = Node (sys_node (step_type f FINSH_NODE_SYS_PREINC FINSH_NODE_SYS_PREDEC))
     (Node (id_node FINSH_IDTYPE_VAR p) NULL NULL) s"
| "tree (Post f p) s = Node (sys_node (step_type f FINSH_NODE_SYS_INC FINSH_NODE_SYS_DEC))
     (Node (id_node FINSH_IDTYPE_VAR p) NULL NULL) s"
| "tree (Deref a) s = Node (sys_node FINSH_NODE_SYS_GETVALUE) (tree a NULL) s"
| "tree (AddrOf p) s = Node (sys_node FINSH_NODE_SYS_GETADDR) (Node (id_node FINSH_IDTYPE_VAR p) NULL NULL) s"
| "tree (Store a b) s = Node (sys_node FINSH_NODE_SYS_ASSIGN) (Node (sys_node FINSH_NODE_SYS_GETVALUE) (tree a NULL) (tree b NULL)) s"
| "tree (Apply f as) s = Node (sys_node FINSH_NODE_SYS_FUNC) (Node (id_node FINSH_IDTYPE_SYSCALL f) NULL (trees as)) s"
| "trees [] = NULL"
| "trees (a # as) = tree a (trees as)"

text \<open>The code of an expression.\<close>

fun code :: "symtab \<Rightarrow> width \<Rightarrow> expr \<Rightarrow> u8 list" and codes :: "symtab \<Rightarrow> width \<Rightarrow> expr list \<Rightarrow> u8 list" where
  "code tab w (Num u) = FINSH_OP (Ld DWORD) # FINSH_SET32 u"
| "code tab w (Chr c) = [FINSH_OP (Ld BYTE), c]"
| "code tab w (Var p) = FINSH_OP (Ld_value w) # FINSH_SET32 (var_value p)"
| "code tab w (Op f a b) = code tab w a @ code tab w b @ [FINSH_OP (Bin f w)]"
| "code tab w (Not a) = code tab w a @ [FINSH_OP (Bw w)]"
| "code tab w (Assign p a) = FINSH_OP (Ld DWORD) # FINSH_SET32 (var_value p) @ code tab w a @ [FINSH_OP (St w), FINSH_OP (Ld_value_stack w)]"
| "code tab w (Pre f p) = FINSH_OP (Ld DWORD) # FINSH_SET32 (var_value p) @ FINSH_OP (Ld_value w) # FINSH_SET32 (var_value p)
     @ one_code w @ [FINSH_OP (Bin f w), FINSH_OP (St w), FINSH_OP (Ld_value_stack DWORD)]"
| "code tab w (Post f p) = FINSH_OP (Ld_value w) # FINSH_SET32 (var_value p) @ FINSH_OP (Ld DWORD) # FINSH_SET32 (var_value p)
     @ FINSH_OP (Ld_value w) # FINSH_SET32 (var_value p) @ one_code w @ [FINSH_OP (Bin f w), FINSH_OP (St w), FINSH_OP Pop]"
| "code tab w (Deref a) = code tab w a @ [FINSH_OP (Ld_value_stack w)]"
| "code tab w (AddrOf p) = FINSH_OP (Ld DWORD) # FINSH_SET32 (var_value p)"
| "code tab w (Store a b) = code tab w a @ code tab w b @ [FINSH_OP (St w), FINSH_OP (Ld_value_stack w)]"
| "code tab w (Apply f as) = FINSH_OP (Ld DWORD) # FINSH_SET32 (syscall_func tab f) @ codes tab w as @ [FINSH_OP Call, of_nat (length as)]"
| "codes tab w [] = []"
| "codes tab w (a # as) = code tab w a @ codes tab w as"

section \<open>The compiler writes this code\<close>

lemma finsh_code_append: "Option.bind (finsh_code a st) (finsh_code b) = finsh_code (a @ b) st"
  by (cases st) (auto simp: finsh_code_def)

definition data_of :: "width \<Rightarrow> u8" where
  "data_of w = (case w of BYTE \<Rightarrow> FINSH_DATA_TYPE_BYTE | WORD \<Rightarrow> FINSH_DATA_TYPE_WORD | DWORD \<Rightarrow> FINSH_DATA_TYPE_DWORD)"

lemmas data_types = FINSH_DATA_TYPE_BYTE_def FINSH_DATA_TYPE_WORD_def FINSH_DATA_TYPE_DWORD_def FINSH_DATA_TYPE_VOID_def
lemmas id_types = FINSH_IDTYPE_VAR_def FINSH_IDTYPE_SYSVAR_def FINSH_IDTYPE_SYSCALL_def FINSH_IDTYPE_ADDRESS_def

lemma width_of_data [simp]: "width_of (data_of w) = Some w" "width_of (data_of w AND 0x0F) = Some w"
  by (cases w; simp add: width_of_def data_of_def data_types)+

lemma var_ok_data: "var_ok tab w p \<Longrightarrow> type_data_type (var_type tab p) = Some (data_of w)"
  by (cases "var_type tab p") (auto simp: var_ok_def load_width_def type_data_type_def data_of_def)

text \<open>The checked tree: every node has its width, the identifiers that stand for addresses are marked.\<close>

fun ctree :: "width \<Rightarrow> expr \<Rightarrow> finsh_node \<Rightarrow> finsh_node" and ctrees :: "width \<Rightarrow> expr list \<Rightarrow> finsh_node" where
  "ctree w (Num u) s = Node ((sys_node FINSH_NODE_VALUE_INT)\<lparr>node_value := u, data_type := data_of w\<rparr>) NULL s"
| "ctree w (Chr c) s = Node ((sys_node FINSH_NODE_VALUE_CHAR)\<lparr>node_value := ucast c, data_type := data_of w\<rparr>) NULL s"
| "ctree w (Var p) s = Node ((id_node FINSH_IDTYPE_VAR p)\<lparr>data_type := data_of w\<rparr>) NULL s"
| "ctree w (Op f a b) s = Node ((sys_node (FINSH_NODE_SYS_BIN f))\<lparr>data_type := data_of w\<rparr>) (ctree w a (ctree w b NULL)) s"
| "ctree w (Not a) s = Node ((sys_node FINSH_NODE_SYS_BITWISE)\<lparr>data_type := data_of w\<rparr>) (ctree w a NULL) s"
| "ctree w (Assign p a) s = Node ((sys_node FINSH_NODE_SYS_ASSIGN)\<lparr>data_type := data_of w\<rparr>)
     (Node ((id_node 9 p)\<lparr>data_type := data_of w\<rparr>) NULL (ctree w a NULL)) s"
| "ctree w (Pre f p) s = Node ((sys_node (step_type f FINSH_NODE_SYS_PREINC FINSH_NODE_SYS_PREDEC))\<lparr>data_type := data_of w\<rparr>)
     (Node ((id_node 9 p)\<lparr>data_type := data_of w\<rparr>) NULL NULL) s"
| "ctree w (Post f p) s = Node ((sys_node (step_type f FINSH_NODE_SYS_INC FINSH_NODE_SYS_DEC))\<lparr>data_type := data_of w\<rparr>)
     (Node ((id_node FINSH_IDTYPE_VAR p)\<lparr>data_type := data_of w\<rparr>) NULL NULL) s"
| "ctree w (Deref a) s = Node ((sys_node FINSH_NODE_SYS_GETVALUE)\<lparr>data_type := data_of w\<rparr>) (ctree w a NULL) s"
| "ctree w (AddrOf p) s = Node ((sys_node FINSH_NODE_SYS_GETADDR)\<lparr>data_type := data_of w\<rparr>)
     (Node ((id_node 9 p)\<lparr>data_type := data_of w\<rparr>) NULL NULL) s"
| "ctree w (Store a b) s = Node ((sys_node FINSH_NODE_SYS_ASSIGN)\<lparr>data_type := data_of w\<rparr>)
     (Node ((sys_node FINSH_NODE_SYS_GETVALUE)\<lparr>data_type := data_of w, idtype := FINSH_IDTYPE_ADDRESS\<rparr>) (ctree w a NULL) (ctree w b NULL)) s"
| "ctree w (Apply f as) s = Node (sys_node FINSH_NODE_SYS_FUNC) (Node (id_node FINSH_IDTYPE_SYSCALL f) NULL (ctrees w as)) s"
| "ctrees w [] = NULL"
| "ctrees w (a # as) = ctree w a (ctrees w as)"

lemma tree_not_null [simp]: "tree e s \<noteq> NULL" "ctree w e s \<noteq> NULL"
  by (cases e; simp)+

lemma ctree_data_type [simp]: "valued e \<Longrightarrow> node_data_type (ctree w e s) = data_of w"
  by (cases e) (simp_all add: valued_def)

lemma sys_node_fields [simp]:
  "node_type (sys_node t) = t" "data_type (sys_node t) = 0" "idtype (sys_node t) = 0" "node_value (sys_node t) = 0" "node_id (sys_node t) = 0"
  by (simp_all add: sys_node_def)

lemma id_node_fields [simp]:
  "node_type (id_node k p) = FINSH_NODE_ID" "data_type (id_node k p) = 0" "idtype (id_node k p) = k" "node_id (id_node k p) = p"
  "(id_node k p)\<lparr>idtype := j\<rparr> = id_node j p"
  by (simp_all add: id_node_def)

lemma leaf_var:
  assumes "var_ok tab w p" "k AND FINSH_IDTYPE_VAR \<noteq> 0"
  shows "leaf_check tab (id_node k p) err = ((id_node k p)\<lparr>data_type := data_of w\<rparr>, err)"
  using assms var_ok_data [OF assms(1)] by (simp add: leaf_check_def set_data_type_def var_ok_def)

lemma id_bits [simp]:
  "FINSH_IDTYPE_VAR AND FINSH_IDTYPE_VAR \<noteq> 0" "9 AND FINSH_IDTYPE_VAR \<noteq> 0" "FINSH_IDTYPE_VAR OR FINSH_IDTYPE_ADDRESS = 9"
  "FINSH_IDTYPE_VAR \<noteq> 9" "FINSH_IDTYPE_VAR \<noteq> FINSH_IDTYPE_SYSCALL" "0 \<noteq> FINSH_IDTYPE_SYSCALL" "FINSH_IDTYPE_ADDRESS \<noteq> 0"
  "FINSH_IDTYPE_VAR AND FINSH_IDTYPE_SYSCALL = 0" "9 AND FINSH_IDTYPE_SYSCALL = 0"
  "FINSH_IDTYPE_VAR AND FINSH_IDTYPE_SYSVAR = 0" "9 AND FINSH_IDTYPE_SYSVAR = 0"
  "FINSH_IDTYPE_VAR AND FINSH_IDTYPE_ADDRESS = 0" "9 AND FINSH_IDTYPE_ADDRESS \<noteq> 0"
  "FINSH_IDTYPE_SYSCALL AND FINSH_IDTYPE_VAR = 0" "FINSH_IDTYPE_SYSCALL AND FINSH_IDTYPE_SYSVAR = 0"
  "FINSH_IDTYPE_SYSCALL AND FINSH_IDTYPE_SYSCALL \<noteq> 0" "FINSH_IDTYPE_ADDRESS AND FINSH_IDTYPE_ADDRESS \<noteq> 0"
  by (simp_all add: id_types)

lemma node_same: "(sys_node t)\<lparr>data_type := 0\<rparr> = sys_node t" "(sys_node t)\<lparr>idtype := 0\<rparr> = sys_node t"
  by (simp_all add: sys_node_def)

lemma type_check_var:
  assumes "var_ok tab w p" "k = FINSH_IDTYPE_VAR OR is_addr" "is_addr = 0 \<or> is_addr = FINSH_IDTYPE_ADDRESS"
  shows "finsh_type_check tab is_addr (Node (id_node FINSH_IDTYPE_VAR p) NULL s) err =
    (let (s1, err1) = finsh_type_check tab 0 s err in (Node ((id_node k p)\<lparr>data_type := data_of w\<rparr>) NULL s1, err1))"
proof -
  have "k AND FINSH_IDTYPE_VAR \<noteq> 0" using assms(2,3) by (auto simp: id_types)
  from leaf_var [OF assms(1) this] show ?thesis using assms(2) by (simp split: prod.splits)
qed

lemma type_check_sys:
  "finsh_type_check tab is_addr (Node (sys_node t) c s) err =
    (let (c1, err1) = finsh_type_check tab (child_addr t is_addr) c err; (s1, err2) = finsh_type_check tab 0 s err1
     in if c1 \<noteq> NULL then (Node ((sys_node t)\<lparr>idtype := is_addr, data_type := node_data_type c1\<rparr>) c1 s1, err2)
        else let (i, err3) = leaf_check tab ((sys_node t)\<lparr>idtype := is_addr\<rparr>) err2 in (Node i c1 s1, err3))"
  by (simp add: Let_def)

lemma type_check_func:
  "finsh_type_check tab 0 (Node (id_node FINSH_IDTYPE_SYSCALL p) NULL s) err =
    (let (s1, err1) = finsh_type_check tab 0 s err in (Node (id_node FINSH_IDTYPE_SYSCALL p) NULL s1, err1))"
  by (simp add: leaf_check_def split: prod.splits)

lemma type_check_tree:
  "typed tab w e \<Longrightarrow> finsh_type_check tab 0 (tree e s) err =
     (let (s1, err1) = finsh_type_check tab 0 s err in (ctree w e s1, err1))"
  "\<forall>a \<in> set as. typed tab w a \<Longrightarrow> finsh_type_check tab 0 (trees as) err = (ctrees w as, err)"
proof (induction e s and as arbitrary: err and err rule: tree_trees.induct)
  case (1 u s)
  then show ?case by (simp add: leaf_check_def node_same data_of_def split: prod.splits)
next
  case (2 c s)
  then show ?case by (simp add: leaf_check_def node_same data_of_def split: prod.splits)
next
  case (3 p s)
  then show ?case by (simp add: type_check_var [where is_addr = 0, OF _ refl] del: finsh_type_check.simps)
qed (auto simp: child_addr_def type_check_sys type_check_func type_check_var [OF _ refl] Let_def node_same split: prod.splits
    simp del: finsh_type_check.simps(2))

lemma siblings_simps [simp]:
  "siblings (Node i c NULL) = 0" "s \<noteq> NULL \<Longrightarrow> siblings (Node i c s) = Suc (siblings s)"
  by (simp, cases s, simp_all)

lemma siblings_ctrees: "siblings (Node i c (ctrees w as)) = length as"
proof (induction as arbitrary: i c)
  case (Cons a as)
  obtain i1 c1 where "ctree w a (ctrees w as) = Node i1 c1 (ctrees w as)" by (cases a) simp_all
  then show ?case using Cons.IH by simp
qed simp

declare siblings.simps(2) [simp del]

lemma compile_Node:
  "node_code tab i c = Some (bytes, None) \<Longrightarrow>
   finsh_compile tab (Node i c s) st = Option.bind (finsh_compile tab c st) (\<lambda>st1. Option.bind (finsh_code bytes st1) (finsh_compile tab s))"
  by (simp add: case_prod_unfold)

lemma finsh_code_bind:
  "Option.bind (finsh_code a st) (\<lambda>st1. Option.bind (finsh_code b st1) g) = Option.bind (finsh_code (a @ b) st) g"
  by (simp flip: finsh_code_append add: bind_assoc)

lemma byte_word_byte [simp]: "ucast (ucast c :: u32) = c" for c :: u8
  by (rule bit_word_eqI) (auto simp: bit_simps)

lemma compile_var:
  assumes "var_ok tab w p" "k = FINSH_IDTYPE_VAR \<or> k = 9"
  shows "finsh_compile tab (Node ((id_node k p)\<lparr>data_type := d\<rparr>) NULL s) st =
    Option.bind (finsh_code ((if k = 9 then FINSH_OP (Ld DWORD) else FINSH_OP (Ld_value w)) # FINSH_SET32 (var_value p)) st) (finsh_compile tab s)"
proof -
  have "node_code tab ((id_node k p)\<lparr>data_type := d\<rparr>) NULL
      = Some ((if k = 9 then FINSH_OP (Ld DWORD) else FINSH_OP (Ld_value w)) # FINSH_SET32 (var_value p), None)"
    using assms by (auto simp: node_code_def id_code_def load_code_def var_ok_def id_types)
  from compile_Node [OF this] show ?thesis by simp
qed

lemma compile_ctree:
  "typed tab w e \<Longrightarrow> finsh_compile tab (ctree w e s) st = Option.bind (finsh_code (code tab w e) st) (finsh_compile tab s)"
  "\<forall>a \<in> set as. typed tab w a \<Longrightarrow>
    Option.bind (finsh_code x st) (finsh_compile tab (ctrees w as)) = finsh_code (x @ codes tab w as) st"
proof (induction tab w e and tab w as arbitrary: s st and x st rule: code_codes.induct)
  case (1 tab w u)
  then show ?case by (simp add: compile_Node [where bytes = "FINSH_OP (Ld DWORD) # FINSH_SET32 u"] node_code_def del: finsh_compile.simps(2))
next
  case (2 tab w c)
  then show ?case by (simp add: compile_Node [where bytes = "[FINSH_OP (Ld BYTE), c]"] node_code_def del: finsh_compile.simps(2))
next
  case (3 tab w p)
  then show ?case by (simp add: compile_var [of tab w p] del: finsh_compile.simps(2))
next
  case (4 tab w f a b)
  then show ?case
    by (simp add: compile_Node [where bytes = "[FINSH_OP (Bin f w)]"] node_code_def sized_code_def finsh_code_bind bind_assoc del: finsh_compile.simps(2))
next
  case (5 tab w a)
  then show ?case
    by (simp add: compile_Node [where bytes = "[FINSH_OP (Bw w)]"] node_code_def sized_code_def finsh_code_bind bind_assoc del: finsh_compile.simps(2))
next
  case (6 tab w p a)
  then show ?case
    by (simp add: compile_Node [where bytes = "[FINSH_OP (St w), FINSH_OP (Ld_value_stack w)]"] node_code_def assign_code_def compile_var [of tab w p] finsh_code_bind bind_assoc del: finsh_compile.simps(2))
next
  case (7 tab w f p)
  then show ?case
    by (auto simp add: compile_Node [where bytes = "pre_code f (data_of w) p"] node_code_def pre_code_def compile_var [of tab w p] finsh_code_bind bind_assoc simp del: finsh_compile.simps(2))
next
  case (8 tab w f p)
  then show ?case
    by (auto simp add: compile_Node [where bytes = "post_code f (data_of w) p"] node_code_def post_code_def compile_var [of tab w p] finsh_code_bind bind_assoc simp del: finsh_compile.simps(2))
next
  case (9 tab w a)
  from "9.prems" have "w = DWORD" "typed tab w a" by auto
  with "9.IH" show ?case
    by (simp add: compile_Node [where bytes = "[FINSH_OP (Ld_value_stack w)]"] node_code_def sized_code_def finsh_code_bind bind_assoc del: finsh_compile.simps(2))
next
  case (10 tab w p)
  from "10.prems" have "w = DWORD" "var_ok tab w p" by auto
  then show ?case
    by (simp add: compile_Node [where bytes = "[]"] node_code_def compile_var [of tab w p] finsh_code_bind bind_assoc del: finsh_compile.simps(2))
next
  case (11 tab w a b)
  from "11.prems" have "w = DWORD" "typed tab w a" "typed tab w b" by auto
  with "11.IH" show ?case
    by (simp add: compile_Node [where bytes = "[FINSH_OP (St w), FINSH_OP (Ld_value_stack w)]"] compile_Node [where bytes = "[]"]
        node_code_def assign_code_def finsh_code_bind bind_assoc del: finsh_compile.simps(2))
next
  case (12 tab w f as)
  have "node_code tab (id_node FINSH_IDTYPE_SYSCALL f) NULL = Some (FINSH_OP (Ld DWORD) # FINSH_SET32 (syscall_func tab f), None)"
    by (simp add: node_code_def id_code_def id_types)
  note func = compile_Node [OF this]
  have "node_code tab (sys_node FINSH_NODE_SYS_FUNC) (Node (id_node FINSH_IDTYPE_SYSCALL f) NULL (ctrees w as))
      = Some ([FINSH_OP Call, of_nat (length as)], None)"
    by (simp add: node_code_def siblings_ctrees)
  note call = compile_Node [OF this]
  have "\<forall>a \<in> set as. typed tab w a" using "12.prems" by auto
  with "12.IH" show ?case by (simp add: call func finsh_code_bind del: finsh_compile.simps(2))
next
  case (13 tab w)
  then show ?case by simp
next
  case (14 tab w a as)
  then show ?case by (simp add: finsh_code_append)
qed

section \<open>The machine computes the value\<close>

lemma op_table_code [simp]: "unat (FINSH_OP op) < length op_table" "op_table ! unat (FINSH_OP op) = op"
proof -
  have "unat (FINSH_OP op) < length op_table \<and> op_table ! unat (FINSH_OP op) = op"
  proof (cases op)
    case (Bin f w)
    then show ?thesis by (cases f; cases w; simp add: FINSH_OP_def op_table_def)
  qed (auto simp: FINSH_OP_def op_table_def split: width.splits)
  then show "unat (FINSH_OP op) < length op_table" "op_table ! unat (FINSH_OP op) = op" by simp_all
qed

lemma vm_step: "run_op sys op pc s = Some (pc1, s1) \<Longrightarrow> vm_loop sys (FINSH_OP op # pc) s = vm_loop sys pc1 s1"
  by (subst vm_loop.simps) simp

lemma get_set32: "FINSH_GET32 (FINSH_SET32 u @ r) = Some (u, r)"
proof -
  have "ucast (ucast u :: u8) OR push_bit 8 (ucast (ucast (drop_bit 8 u) :: u8)) OR push_bit 16 (ucast (ucast (drop_bit 16 u) :: u8))
     OR push_bit 24 (ucast (ucast (drop_bit 24 u) :: u8)) = u"
    using load32_store32 [of "\<lambda>_. 0" 0 u] by (simp add: load32_def store32_def)
  then show ?thesis by (simp add: FINSH_GET32_def FINSH_SET32_def)
qed

lemma get_set16: "FINSH_GET16 (FINSH_SET16 1 @ r) = Some (1, r)"
  by (simp add: FINSH_GET16_def FINSH_SET16_def)

text \<open>The members of the union.\<close>

lemma low_bits:
  "(ucast ((old AND NOT 0xff) OR (u AND 0xff)) :: u8) = ucast u" "(ucast ((old AND NOT 0xffff) OR (u AND 0xffff)) :: u16) = ucast u"
  for old u :: u32
proof -
  have m: "(0xff :: u32) = mask 8" "(0xffff :: u32) = mask 16" by (simp_all add: mask_eq_exp_minus_1)
  show "(ucast ((old AND NOT 0xff) OR (u AND 0xff)) :: u8) = ucast u" "(ucast ((old AND NOT 0xffff) OR (u AND 0xffff)) :: u16) = ucast u"
    unfolding m by (rule bit_word_eqI, simp add: bit_simps)+
qed

lemma union_get_set [simp]: "union_get w (union_set w old u) = union_get w u"
  by (cases w) (simp_all add: union_get_def union_set_def low_bits [simplified])

lemma sint_shift: "sint (of_int z :: 'a::len word) = (z + 2 ^ (LENGTH('a) - 1)) mod 2 ^ LENGTH('a) - 2 ^ (LENGTH('a) - 1)"
  by (simp add: sint_uint signed_take_bit_eq_take_bit_shift take_bit_eq_mod uint_word_of_int mod_simps)

lemma union_get_of_int: "union_get w (of_int z) = wrap w z"
proof -
  have "(ucast (of_int z :: u32) :: u8) = of_int z" "(ucast (of_int z :: u32) :: u16) = of_int z"
    by (rule bit_word_eqI, simp add: bit_simps bit_of_int_iff)+
  then show ?thesis
    using sint_shift [where 'a = 16] sint_shift [where 'a = 32] by (cases w) (simp_all add: union_get_def wrap_def take_bit_eq_mod uint_word_of_int)
qed

lemma load16_store: "load16 (m(p := ucast u, p + 1 := ucast (drop_bit 8 u))) p = u AND 0xffff"
proof -
  have m: "(0xffff :: u32) = mask 16" by (simp add: mask_eq_exp_minus_1)
  show ?thesis unfolding m by (rule bit_word_eqI) (auto simp: load16_def bit_simps)
qed

lemma low_load32: "(ucast (load32 m p) :: u8) = m p" "(ucast (load32 m p) :: u16) = ucast (load16 m p)"
  by (rule bit_word_eqI, auto simp: load32_def load16_def bit_simps)+

lemma low_and: "(ucast (u AND 0xffff) :: u16) = ucast u" for u :: u32
  using low_bits(2) [of 0 u] by simp

lemma mem_get_set:
  "union_get w (mem_get w (mem_set w m a u) a) = union_get w u"
  "union_get w (mem_get DWORD (mem_set w m a u) a) = union_get w u"
proof -
  show "union_get w (mem_get DWORD (mem_set w m a u) a) = union_get w u"
    using load16_store [of m "unat a" u] by (cases w) (simp_all add: union_get_def mem_get_def mem_set_def low_load32 low_and load32_store32)
  then show "union_get w (mem_get w (mem_set w m a u) a) = union_get w u"
    by (cases w) (simp_all add: union_get_def mem_get_def low_load32)
qed

lemma mem_set_union: "mem_set w m a (of_int (union_get w u)) = mem_set w m a u"
proof -
  have "(ucast (of_int (sint (ucast u :: u16)) :: u32) :: u8) = ucast u"
    "(ucast (drop_bit 8 (of_int (sint (ucast u :: u16)) :: u32)) :: u8) = ucast (drop_bit 8 u)"
    by (rule bit_word_eqI, auto simp: bit_simps bit_of_int_iff bit_sint_iff)+
  then show ?thesis by (cases w) (simp_all add: mem_set_def union_get_def)
qed

text \<open>One more slot on the stack holds a value, those below are as before.\<close>

definition pushed :: "width \<Rightarrow> int \<Rightarrow> memory \<Rightarrow> finsh_vm \<Rightarrow> finsh_vm \<Rightarrow> bool" where
  "pushed w v m s s' \<longleftrightarrow> sp s' = sp s + 1 \<and> sp s < length (vm_stack s) \<and> length (vm_stack s') = length (vm_stack s)
     \<and> (\<forall>i < sp s. vm_stack s' ! i = vm_stack s ! i) \<and> union_get w (vm_stack s' ! sp s) = v \<and> vm_ram s' = m"

definition runs :: "syscalls \<Rightarrow> u8 list \<Rightarrow> finsh_vm \<Rightarrow> finsh_vm \<Rightarrow> bool" where
  "runs sys bytes s s' \<longleftrightarrow> (\<forall>rest. vm_loop sys (bytes @ rest) s = vm_loop sys rest s')"

lemma runs_append: "runs sys a s s1 \<Longrightarrow> runs sys b s1 s2 \<Longrightarrow> runs sys (a @ b) s s2"
  by (simp add: runs_def)

lemma runs_op: "(\<And>rest. run_op sys op (bytes @ rest) s = Some (rest, s')) \<Longrightarrow> runs sys (FINSH_OP op # bytes) s s'"
  by (simp add: runs_def vm_step)

lemma push_pushed:
  assumes "sp s < length (vm_stack s)"
  shows "\<exists>s'. push_value w u s = Some s' \<and> pushed w (union_get w u) (vm_ram s) s s'"
  using assms by (simp add: push_value_def slot_def set_slot_def pushed_def Let_def)

lemma runs_ld_dword:
  assumes "sp s < length (vm_stack s)"
  shows "\<exists>s'. runs sys (FINSH_OP (Ld DWORD) # FINSH_SET32 u) s s' \<and> pushed DWORD (sint u) (vm_ram s) s s'"
proof -
  obtain s' where s': "push_value DWORD u s = Some s'" "pushed DWORD (union_get DWORD u) (vm_ram s) s s'" using push_pushed [OF assms] by blast
  have "runs sys (FINSH_OP (Ld DWORD) # FINSH_SET32 u) s s'"
    by (rule runs_op) (simp add: run_op_def OP_ld_def get_operand_def get_set32 s'(1))
  then show ?thesis using s'(2) by (auto simp: union_get_def)
qed

lemma runs_ld_value:
  assumes "sp s < length (vm_stack s)"
  shows "\<exists>s'. runs sys (FINSH_OP (Ld_value w) # FINSH_SET32 a) s s' \<and> pushed w (value_at w (vm_ram s) a) (vm_ram s) s s'"
proof -
  obtain s' where s': "push_value w (mem_get w (vm_ram s) a) s = Some s'" "pushed w (value_at w (vm_ram s) a) (vm_ram s) s s'"
    using push_pushed [OF assms] unfolding value_at_def by blast
  have "runs sys (FINSH_OP (Ld_value w) # FINSH_SET32 a) s s'"
    by (rule runs_op) (simp add: run_op_def OP_ld_value_def get_set32 s'(1))
  then show ?thesis using s'(2) by auto
qed

lemma runs_one:
  assumes "sp s < length (vm_stack s)"
  shows "\<exists>s'. runs sys (one_code w) s s' \<and> pushed w 1 (vm_ram s) s s'"
proof -
  obtain s' where s': "push_value w 1 s = Some s'" "pushed w (union_get w 1) (vm_ram s) s s'" using push_pushed [OF assms] by blast
  have u: "union_get w 1 = 1" by (cases w) (simp_all add: union_get_def)
  have "runs sys (one_code w) s s'"
    unfolding one_code_def
    by (rule runs_op) (cases w; use s'(1) in \<open>simp add: run_op_def OP_ld_def get_operand_def get_set32 get_set16\<close>)
  then show ?thesis using s'(2) u by auto
qed

lemma runs_chr:
  assumes "sp s < length (vm_stack s)"
  shows "\<exists>s'. runs sys [FINSH_OP (Ld BYTE), c] s s' \<and> pushed BYTE (uint c) (vm_ram s) s s'"
proof -
  obtain s' where s': "push_value BYTE (ucast c) s = Some s'" "pushed BYTE (union_get BYTE (ucast c)) (vm_ram s) s s'" using push_pushed [OF assms] by blast
  have "runs sys [FINSH_OP (Ld BYTE), c] s s'" by (rule runs_op) (simp add: run_op_def OP_ld_def get_operand_def s'(1))
  then show ?thesis using s'(2) by (auto simp: union_get_def)
qed

lemma runs_bin:
  assumes "pushed w x m1 s s1" "pushed w y m2 s1 s2" "bin_op f x y = Some z"
  shows "\<exists>s'. runs sys [FINSH_OP (Bin f w)] s2 s' \<and> pushed w (wrap w z) m2 s s'"
proof -
  let ?a = "vm_stack s2 ! sp s" and ?b = "vm_stack s2 ! sp s1"
  let ?s' = "s2\<lparr>vm_stack := (vm_stack s2)[sp s := union_set w ?a (of_int z)], sp := sp s + 1\<rparr>"
  have "OP_bin f w s2 = Some ?s'"
    using assms by (auto simp: OP_bin_def slot_def set_slot_def pushed_def Let_def numeral_2_eq_2)
  then have "runs sys [FINSH_OP (Bin f w)] s2 ?s'" by (intro runs_op) (simp add: run_op_def)
  moreover have "pushed w (wrap w z) m2 s ?s'"
    using assms by (auto simp: pushed_def union_get_of_int)
  ultimately show ?thesis by blast
qed

lemma runs_bw:
  assumes "pushed w x m1 s s1"
  shows "\<exists>s'. runs sys [FINSH_OP (Bw w)] s1 s' \<and> pushed w (wrap w (NOT x)) m1 s s'"
proof -
  let ?s' = "set_slot 1 (union_set w (vm_stack s1 ! sp s) (of_int (NOT x))) s1"
  have "OP_bw w s1 = Some ?s'" using assms by (auto simp: OP_bw_def slot_def pushed_def)
  then have "runs sys [FINSH_OP (Bw w)] s1 ?s'" by (intro runs_op) (simp add: run_op_def)
  moreover have "pushed w (wrap w (NOT x)) m1 s ?s'"
    using assms by (auto simp: pushed_def set_slot_def union_get_of_int)
  ultimately show ?thesis by blast
qed

text \<open>Storing through an address and loading back.\<close>

lemma runs_st:
  assumes "pushed DWORD a m1 s s1" "pushed w y m2 s1 s2"
  shows "\<exists>s'. runs sys [FINSH_OP (St w)] s2 s' \<and> pushed DWORD a (mem_set w m2 (of_int a) (of_int y)) s s'"
proof -
  have a: "vm_stack s2 ! sp s = of_int a" "sp s2 = sp s + 2" "sp s + 1 < length (vm_stack s2)" "vm_ram s2 = m2"
    "union_get w (vm_stack s2 ! Suc (sp s)) = y"
    using assms by (auto simp: pushed_def union_get_def)
  let ?s' = "s2\<lparr>vm_ram := mem_set w m2 (of_int a) (of_int y), sp := sp s + 1\<rparr>"
  have "OP_st w s2 = Some ?s'"
    using a mem_set_union [of w m2 "of_int a" "vm_stack s2 ! Suc (sp s)"] by (simp add: OP_st_def slot_def)
  then have "runs sys [FINSH_OP (St w)] s2 ?s'" by (intro runs_op) (simp add: run_op_def)
  moreover have "pushed DWORD a (mem_set w m2 (of_int a) (of_int y)) s ?s'" using assms by (auto simp: pushed_def)
  ultimately show ?thesis by blast
qed

lemma runs_ld_stack:
  assumes "pushed DWORD a m s s1" "union_get w (mem_get w' m (of_int a)) = v" "w' = w \<or> w' = DWORD"
  shows "\<exists>s'. runs sys [FINSH_OP (Ld_value_stack w')] s1 s' \<and> pushed w v m s s'"
proof -
  have a: "vm_stack s1 ! sp s = of_int a" "sp s1 = sp s + 1" "sp s < length (vm_stack s1)" "vm_ram s1 = m"
    using assms by (auto simp: pushed_def union_get_def)
  let ?s' = "set_slot 1 (union_set w' (of_int a) (mem_get w' m (of_int a))) s1"
  have "OP_ld_value_stack w' s1 = Some ?s'" using a by (simp add: OP_ld_value_stack_def slot_def)
  then have "runs sys [FINSH_OP (Ld_value_stack w')] s1 ?s'" by (intro runs_op) (simp add: run_op_def)
  moreover have "union_get w (union_set w' (of_int a) u) = union_get w u" for u
    using assms(3) by (elim disjE) (simp, simp add: union_set_def)
  then have "pushed w v m s ?s'" using assms(1,2) a by (auto simp: pushed_def set_slot_def)
  ultimately show ?thesis by blast
qed

lemma runs_pop: "0 < sp s \<Longrightarrow> runs sys [FINSH_OP Pop] s (s\<lparr>sp := sp s - 1\<rparr>)"
  by (rule runs_op) (simp add: run_op_def OP_pop_def)

text \<open>The number of slots an expression needs.\<close>

fun depth :: "expr \<Rightarrow> nat" and depths :: "expr list \<Rightarrow> nat" where
  "depth (Num u) = 1" | "depth (Chr c) = 1" | "depth (Var p) = 1"
| "depth (Op f a b) = max (depth a) (1 + depth b)"
| "depth (Not a) = depth a"
| "depth (Assign p a) = 1 + depth a"
| "depth (Pre f p) = 3"
| "depth (Post f p) = 4"
| "depth (Deref a) = depth a"
| "depth (AddrOf p) = 1"
| "depth (Store a b) = max (depth a) (1 + depth b)"
| "depth (Apply f as) = 1 + depths as"
| "depths [] = 0"
| "depths (a # as) = max (depth a) (1 + depths as)"

lemma depth_pos: "0 < depth e"
  by (induction e) auto

text \<open>Every instruction that pushes a slot has an operand: text that fits the segment never overflows the stack.\<close>

lemma depth_code: "2 * depth e \<le> length (code tab w e)" "2 * depths as \<le> length (codes tab w as)"
proof (induction tab w e and tab w as rule: code_codes.induct)
  case (4 tab w f a b)
  then show ?case using depth_pos [of a] by (simp add: max_def)
next
  case (11 tab w a b)
  then show ?case using depth_pos [of a] by (simp add: max_def)
next
  case (14 tab w a as)
  then show ?case using depth_pos [of a] by (simp add: max_def)
qed (auto simp: FINSH_SET32_def one_code_def split: width.splits)

lemma pushed_sp: "pushed w v m s s' \<Longrightarrow> sp s' = sp s + 1 \<and> length (vm_stack s') = length (vm_stack s) \<and> vm_ram s' = m"
  by (simp add: pushed_def)

text \<open>The arguments of a call, one above the other.\<close>

definition pushed_all :: "int list \<Rightarrow> memory \<Rightarrow> finsh_vm \<Rightarrow> finsh_vm \<Rightarrow> bool" where
  "pushed_all vs m s s' \<longleftrightarrow> sp s' = sp s + length vs \<and> sp s' \<le> length (vm_stack s) \<and> length (vm_stack s') = length (vm_stack s)
     \<and> (\<forall>i < sp s. vm_stack s' ! i = vm_stack s ! i) \<and> (\<forall>i < length vs. vm_stack s' ! (sp s + i) = of_int (vs ! i)) \<and> vm_ram s' = m"

lemma pushed_all_Cons:
  assumes "pushed DWORD v m s s1" "pushed_all vs m' s1 s2"
  shows "pushed_all (v # vs) m' s s2"
proof -
  have "vm_stack s2 ! (sp s + i) = of_int ((v # vs) ! i)" if "i < length (v # vs)" for i
    using assms that by (cases i) (auto simp: pushed_def pushed_all_def union_get_def)
  then show ?thesis using assms by (auto simp: pushed_def pushed_all_def)
qed

lemma runs_call:
  assumes f: "pushed DWORD (sint u) m s s1" and as: "pushed_all xs m1 s1 s2" and n: "length xs \<le> 16"
    and r: "sys u (if xs = [] then [0] else map of_int xs) m1 = Some (r, m2)"
  shows "\<exists>s'. runs sys [FINSH_OP Call, of_nat (length xs)] s2 s' \<and> pushed DWORD (sint r) m2 s s'"
proof -
  have un: "unat (of_nat (length xs) :: u8) = length xs" using n by (simp add: unat_of_nat)
  have "sint (vm_stack s1 ! sp s) = sint u" using f by (simp add: pushed_def union_get_def)
  then have "vm_stack s1 ! sp s = u" by (rule signed_word_eqI)
  then have a: "sp s2 = sp s + 1 + length xs" "sp s2 \<le> length (vm_stack s2)" "vm_stack s2 ! sp s = u" "vm_ram s2 = m1" "length (vm_stack s2) = length (vm_stack s)"
    "\<forall>i < length xs. vm_stack s2 ! (sp s + 1 + i) = of_int (xs ! i)" "\<forall>i < sp s. vm_stack s2 ! i = vm_stack s ! i"
    using f as by (auto simp: pushed_def pushed_all_def union_get_def)
  have p: "take (length xs) (drop (sp s + 1) (vm_stack s2)) = map of_int xs"
    using a(1,2,6) by (intro nth_equalityI) simp_all
  let ?s' = "s2\<lparr>vm_ram := m2, vm_stack := (vm_stack s2)[sp s := r], sp := sp s + 1\<rparr>"
  have "OP_call sys (of_nat (length xs) # rest) s2 = Some (rest, ?s')" for rest
    using a n r p by (cases "xs = []") (simp_all add: OP_call_def un Let_def)
  then have "runs sys [FINSH_OP Call, of_nat (length xs)] s2 ?s'" by (intro runs_op) (simp add: run_op_def)
  moreover have "pushed DWORD (sint r) m2 s ?s'" using a by (auto simp: pushed_def union_get_def)
  ultimately show ?thesis by blast
qed

lemma runs_step:
  assumes "sp s + 2 \<le> length (vm_stack s)" "pushed DWORD (sint a) m s0 s" "vm_ram s = m" "bin_op f (value_at w m a) 1 = Some z"
  shows "\<exists>s'. runs sys (FINSH_OP (Ld_value w) # FINSH_SET32 a @ one_code w @ [FINSH_OP (Bin f w), FINSH_OP (St w)]) s s'
     \<and> pushed DWORD (sint a) (mem_set w m a (of_int (wrap w z))) s0 s'"
proof -
  have "sp s < length (vm_stack s)" using assms(1) by simp
  from runs_ld_value [OF this, of sys w a] obtain s1 where
    s1: "runs sys (FINSH_OP (Ld_value w) # FINSH_SET32 a) s s1" "pushed w (value_at w m a) m s s1" using assms(3) by auto
  have "sp s1 < length (vm_stack s1)" using s1(2) assms(1) by (auto simp: pushed_def)
  from runs_one [OF this, of sys w] obtain s2 where s2: "runs sys (one_code w) s1 s2" "pushed w 1 m s1 s2"
    using s1(2) by (auto simp: pushed_def)
  from runs_bin [OF s1(2) s2(2) assms(4), of sys] obtain s3 where
    s3: "runs sys [FINSH_OP (Bin f w)] s2 s3" "pushed w (wrap w z) m s s3" by blast
  from runs_st [OF assms(2) s3(2), of sys] obtain s4 where
    s4: "runs sys [FINSH_OP (St w)] s3 s4" "pushed DWORD (sint a) (mem_set w m a (of_int (wrap w z))) s0 s4" by auto
  have "runs sys ((FINSH_OP (Ld_value w) # FINSH_SET32 a) @ one_code w @ [FINSH_OP (Bin f w)] @ [FINSH_OP (St w)]) s s4"
    by (intro runs_append [OF s1(1)] runs_append [OF s2(1)] runs_append [OF s3(1)] s4(1))
  then show ?thesis using s4(2) by auto
qed

lemma union_canonical: "union_get w (of_int (union_get w u)) = union_get w u"
proof -
  have "(ucast (of_int (sint (ucast u :: u16)) :: u32) :: u16) = ucast u" by (rule bit_word_eqI) (auto simp: bit_simps bit_of_int_iff bit_sint_iff)
  then show ?thesis by (cases w) (simp_all add: union_get_def)
qed

lemma pushed_canonical: "pushed w v m s s' \<Longrightarrow> union_get w (of_int v) = v"
  by (auto simp: pushed_def union_canonical)

lemma evals_length: "evals sys tab w as m = Some (xs, m') \<Longrightarrow> length xs = length as"
  by (induction as arbitrary: m xs) (auto simp: bind_Some_iff)

lemma code_computes:
  "typed tab w e \<Longrightarrow> eval sys tab w e (vm_ram s) = Some (v, m) \<Longrightarrow> sp s + depth e \<le> length (vm_stack s) \<Longrightarrow>
    \<exists>s'. runs sys (code tab w e) s s' \<and> pushed w v m s s'"
  "w = DWORD \<Longrightarrow> \<forall>a \<in> set as. typed tab w a \<Longrightarrow> evals sys tab w as (vm_ram s) = Some (vs, m) \<Longrightarrow> sp s + depths as \<le> length (vm_stack s) \<Longrightarrow>
    \<exists>s'. runs sys (codes tab w as) s s' \<and> pushed_all vs m s s'"
proof (induction tab w e and tab w as arbitrary: s v m and s vs m rule: code_codes.induct)
  case (1 tab w u)
  then show ?case using runs_ld_dword [of s sys u] by auto
next
  case (2 tab w c)
  then show ?case using runs_chr [of s sys c] by auto
next
  case (3 tab w p)
  then show ?case using runs_ld_value [of s sys w "var_value p"] by auto
next
  case (4 tab w f a b)
  have d: "sp s + depth a \<le> length (vm_stack s)" "sp s + 1 + depth b \<le> length (vm_stack s)" using "4.prems"(3) by simp_all
  from "4.prems"(2) obtain x m1 y z where e: "eval sys tab w a (vm_ram s) = Some (x, m1)" "eval sys tab w b m1 = Some (y, m)"
    "bin_op f x y = Some z" "v = wrap w z" by (auto simp: bind_Some_iff)
  from "4.IH"(1) [OF _ e(1)] "4.prems" d obtain s1 where s1: "runs sys (code tab w a) s s1" "pushed w x m1 s s1" by auto
  from "4.IH"(2) [of s1 y m] "4.prems" d e(2) pushed_sp [OF s1(2)] obtain s2 where s2: "runs sys (code tab w b) s1 s2" "pushed w y m s1 s2"
    by auto
  from runs_bin [OF s1(2) s2(2) e(3), of sys] runs_append [OF s1(1) runs_append [OF s2(1)]] show ?case by (auto simp: e(4))
next
  case (5 tab w a)
  from "5.prems"(2) obtain x where e: "eval sys tab w a (vm_ram s) = Some (x, m)" "v = wrap w (NOT x)" by (auto simp: bind_Some_iff)
  from "5.IH" [OF _ e(1)] "5.prems" obtain s1 where s1: "runs sys (code tab w a) s s1" "pushed w x m s s1" by auto
  from runs_bw [OF s1(2), of sys] runs_append [OF s1(1)] show ?case by (auto simp: e(2))
next
  case (6 tab w p a)
  from "6.prems"(2) obtain m1 where e: "eval sys tab w a (vm_ram s) = Some (v, m1)" "m = mem_set w m1 (var_value p) (of_int v)"
    by (auto simp: bind_Some_iff)
  obtain s1 where s1: "runs sys (FINSH_OP (Ld DWORD) # FINSH_SET32 (var_value p)) s s1" "pushed DWORD (sint (var_value p)) (vm_ram s) s s1"
    using runs_ld_dword [of s sys "var_value p"] "6.prems"(3) by auto
  from "6.IH" [of s1 v m1] e(1) "6.prems" pushed_sp [OF s1(2)] obtain s2 where s2: "runs sys (code tab w a) s1 s2" "pushed w v m1 s1 s2"
    by auto
  from runs_st [OF s1(2) s2(2), of sys] obtain s3 where s3: "runs sys [FINSH_OP (St w)] s2 s3" "pushed DWORD (sint (var_value p)) m s s3"
    by (auto simp: e(2))
  have v: "union_get w (of_int v) = v" by (rule pushed_canonical [OF s2(2)])
  have "union_get w (mem_get w m (of_int (sint (var_value p)))) = v" by (simp add: e(2) mem_get_set v)
  from runs_ld_stack [OF s3(2) this, of sys] obtain s4 where s4: "runs sys [FINSH_OP (Ld_value_stack w)] s3 s4" "pushed w v m s s4" by auto
  show ?case using runs_append [OF s1(1) runs_append [OF s2(1) runs_append [OF s3(1) s4(1)]]] s4(2) by auto
next
  case (7 tab w f p)
  let ?a = "var_value p"
  from "7.prems"(2) obtain z where e: "bin_op f (value_at w (vm_ram s) ?a) 1 = Some z" "v = wrap w z" "m = mem_set w (vm_ram s) ?a (of_int v)"
    by (auto simp: bind_Some_iff)
  obtain s1 where s1: "runs sys (FINSH_OP (Ld DWORD) # FINSH_SET32 ?a) s s1" "pushed DWORD (sint ?a) (vm_ram s) s s1"
    using runs_ld_dword [of s sys ?a] "7.prems"(3) by auto
  from runs_step [OF _ s1(2) _ e(1), of sys] "7.prems"(3) pushed_sp [OF s1(2)] obtain s2 where
    s2: "runs sys (FINSH_OP (Ld_value w) # FINSH_SET32 ?a @ one_code w @ [FINSH_OP (Bin f w), FINSH_OP (St w)]) s1 s2" "pushed DWORD (sint ?a) m s s2"
    by (auto simp: e(2,3))
  have "union_get w (mem_get DWORD m (of_int (sint ?a))) = v"
    by (simp add: e(2,3) mem_get_set) (simp add: union_get_of_int [symmetric] union_canonical)
  from runs_ld_stack [OF s2(2) this, of sys] obtain s3 where s3: "runs sys [FINSH_OP (Ld_value_stack DWORD)] s2 s3" "pushed w v m s s3" by auto
  show ?case using runs_append [OF s1(1) runs_append [OF s2(1) s3(1)]] s3(2) by auto
next
  case (8 tab w f p)
  let ?a = "var_value p"
  from "8.prems"(2) obtain z where e: "bin_op f v 1 = Some z" "v = value_at w (vm_ram s) ?a" "m = mem_set w (vm_ram s) ?a (of_int (wrap w z))"
    by (auto simp: bind_Some_iff Let_def)
  obtain s1 where s1: "runs sys (FINSH_OP (Ld_value w) # FINSH_SET32 ?a) s s1" "pushed w v (vm_ram s) s s1"
    using runs_ld_value [of s sys w ?a] "8.prems"(3) by (auto simp: e(2))
  obtain s2 where s2: "runs sys (FINSH_OP (Ld DWORD) # FINSH_SET32 ?a) s1 s2" "pushed DWORD (sint ?a) (vm_ram s) s1 s2"
    using runs_ld_dword [of s1 sys ?a] "8.prems"(3) pushed_sp [OF s1(2)] by auto
  from runs_step [OF _ s2(2) _ e(1) [unfolded e(2)], of sys] "8.prems"(3) pushed_sp [OF s1(2)] pushed_sp [OF s2(2)] obtain s3 where
    s3: "runs sys (FINSH_OP (Ld_value w) # FINSH_SET32 ?a @ one_code w @ [FINSH_OP (Bin f w), FINSH_OP (St w)]) s2 s3" "pushed DWORD (sint ?a) m s1 s3"
    by (auto simp: e(3))
  let ?s' = "s3\<lparr>sp := sp s3 - 1\<rparr>"
  have "runs sys [FINSH_OP Pop] s3 ?s'" by (rule runs_pop) (use s3(2) in \<open>simp add: pushed_def\<close>)
  note run = runs_append [OF s1(1) runs_append [OF s2(1) runs_append [OF s3(1) this]]]
  have "pushed w v m s ?s'" using s1(2) s3(2) by (auto simp: pushed_def)
  then show ?case using run by auto
next
  case (9 tab w a)
  from "9.prems"(2) obtain x where e: "eval sys tab w a (vm_ram s) = Some (x, m)" "v = value_at w m (of_int x)" by (auto simp: bind_Some_iff)
  from "9.IH" [OF _ e(1)] "9.prems" obtain s1 where s1: "runs sys (code tab w a) s s1" "pushed w x m s s1" by auto
  then have "pushed DWORD x m s s1" using "9.prems"(1) by simp
  from runs_ld_stack [OF this, of w w v sys] obtain s2 where "runs sys [FINSH_OP (Ld_value_stack w)] s1 s2" "pushed w v m s s2"
    by (auto simp: e(2) value_at_def)
  then show ?case using runs_append [OF s1(1)] by auto
next
  case (10 tab w p)
  then show ?case using runs_ld_dword [of s sys "var_value p"] by auto
next
  case (11 tab w a b)
  have d: "sp s + depth a \<le> length (vm_stack s)" "sp s + 1 + depth b \<le> length (vm_stack s)" using "11.prems"(3) by simp_all
  from "11.prems"(2) obtain x m1 m2 where e: "eval sys tab w a (vm_ram s) = Some (x, m1)" "eval sys tab w b m1 = Some (v, m2)"
    "m = mem_set w m2 (of_int x) (of_int v)" by (auto simp: bind_Some_iff)
  from "11.IH"(1) [OF _ e(1)] "11.prems" d obtain s1 where s1: "runs sys (code tab w a) s s1" "pushed w x m1 s s1" by auto
  from "11.IH"(2) [of s1 v m2] "11.prems" d e(2) pushed_sp [OF s1(2)] obtain s2 where s2: "runs sys (code tab w b) s1 s2" "pushed w v m2 s1 s2"
    by auto
  have "pushed DWORD x m1 s s1" using s1(2) "11.prems"(1) by simp
  from runs_st [OF this s2(2), of sys] obtain s3 where s3: "runs sys [FINSH_OP (St w)] s2 s3" "pushed DWORD x m s s3" by (auto simp: e(3))
  have "union_get w (mem_get w m (of_int x)) = v" by (simp add: e(3) mem_get_set pushed_canonical [OF s2(2)])
  from runs_ld_stack [OF s3(2) this, of sys] obtain s4 where s4: "runs sys [FINSH_OP (Ld_value_stack w)] s3 s4" "pushed w v m s s4" by auto
  show ?case using runs_append [OF s1(1) runs_append [OF s2(1) runs_append [OF s3(1) s4(1)]]] s4(2) by auto
next
  case (12 tab w f as)
  from "12.prems"(2) obtain xs m1 r where e: "evals sys tab w as (vm_ram s) = Some (xs, m1)"
    "sys (syscall_func tab f) (if xs = [] then [0] else map of_int xs) m1 = Some (r, m)" "v = sint r" by (auto simp: bind_Some_iff)
  obtain s1 where s1: "runs sys (FINSH_OP (Ld DWORD) # FINSH_SET32 (syscall_func tab f)) s s1"
    "pushed DWORD (sint (syscall_func tab f)) (vm_ram s) s s1"
    using runs_ld_dword [of s sys "syscall_func tab f"] "12.prems"(3) by auto
  from "12.IH" [of s1 xs m1] "12.prems" e(1) pushed_sp [OF s1(2)] obtain s2 where s2: "runs sys (codes tab w as) s1 s2" "pushed_all xs m1 s1 s2"
    by auto
  have l: "length xs = length as" by (rule evals_length [OF e(1)])
  have "length xs \<le> 16" "w = DWORD" using "12.prems"(1) l by auto
  with runs_call [OF s1(2) s2(2), of sys r m] e(2) obtain s3 where s3: "runs sys [FINSH_OP Call, of_nat (length as)] s2 s3" "pushed w v m s s3"
    by (auto simp: e(3) l)
  show ?case using runs_append [OF s1(1) runs_append [OF s2(1) s3(1)]] s3(2) by auto
next
  case (13 tab w)
  then show ?case by (auto simp: runs_def pushed_all_def intro!: exI [of _ s])
next
  case (14 tab w a as)
  have d: "sp s + depth a \<le> length (vm_stack s)" "sp s + 1 + depths as \<le> length (vm_stack s)" using "14.prems"(4) by simp_all
  from "14.prems"(3) obtain x m1 xs where e: "eval sys tab w a (vm_ram s) = Some (x, m1)" "evals sys tab w as m1 = Some (xs, m)" "vs = x # xs"
    by (auto simp: bind_Some_iff)
  from "14.IH"(1) [OF _ e(1)] "14.prems" d obtain s1 where s1: "runs sys (code tab w a) s s1" "pushed w x m1 s s1" by auto
  from "14.IH"(2) [of s1 xs m] "14.prems" d e(2) pushed_sp [OF s1(2)] obtain s2 where s2: "runs sys (codes tab w as) s1 s2" "pushed_all xs m s1 s2"
    by auto
  have "pushed_all vs m s s2" using pushed_all_Cons [OF _ s2(2)] s1(2) "14.prems"(1) by (simp add: e(3))
  then show ?case using runs_append [OF s1(1) s2(1)] by auto
qed

section \<open>Lines\<close>

text \<open>A line is a sequence of expressions; its value is that of the last one.\<close>

fun line_tree :: "(width \<times> expr) list \<Rightarrow> finsh_node" where
  "line_tree [] = NULL"
| "line_tree ((w, e) # ps) = tree e (line_tree ps)"

fun line_code :: "symtab \<Rightarrow> (width \<times> expr) list \<Rightarrow> u8 list" where
  "line_code tab [] = []"
| "line_code tab ((w, e) # ps) = code tab w e @ (if ps = [] then [] else FINSH_OP Pop # line_code tab ps)"

fun line_eval :: "syscalls \<Rightarrow> symtab \<Rightarrow> (width \<times> expr) list \<Rightarrow> memory \<Rightarrow> (int \<times> memory) option" where
  "line_eval sys tab [] m = None"
| "line_eval sys tab ((w, e) # ps) m = do {
     (v, m1) \<leftarrow> eval sys tab w e m;
     if ps = [] then Some (v, m1) else line_eval sys tab ps m1 }"

fun line_ctree :: "(width \<times> expr) list \<Rightarrow> finsh_node" where
  "line_ctree [] = NULL"
| "line_ctree ((w, e) # ps) = ctree w e (line_ctree ps)"

definition line_typed :: "symtab \<Rightarrow> (width \<times> expr) list \<Rightarrow> bool" where
  "line_typed tab ps \<longleftrightarrow> (\<forall>(w, e) \<in> set ps. typed tab w e)"

lemma line_typed_Cons [simp]: "line_typed tab ((w, e) # ps) \<longleftrightarrow> typed tab w e \<and> line_typed tab ps"
  by (simp add: line_typed_def)

lemma line_ctree_null [simp]: "line_ctree ps = NULL \<longleftrightarrow> ps = []"
  by (cases ps) auto

lemma type_check_line: "line_typed tab ps \<Longrightarrow> finsh_type_check tab 0 (line_tree ps) err = (line_ctree ps, err)"
proof (induction ps rule: line_tree.induct)
  case (2 w e ps)
  then show ?case using type_check_tree(1) [of tab w e "line_tree ps" err] by simp
qed simp

lemma compile_statement:
  assumes "typed tab w e"
  shows "compile_statements tab (ctree w e s) st = Option.bind (finsh_code (code tab w e) st)
    (\<lambda>st1. Option.bind (if s \<noteq> NULL then finsh_code [FINSH_OP Pop] st1 else Some st1) (compile_statements tab s))"
proof -
  obtain i c where n: "ctree w e s = Node i c s" "ctree w e NULL = Node i c NULL" by (cases e) simp_all
  show ?thesis using compile_ctree(1) [OF assms, of NULL st] by (simp only: n compile_statements.simps) (simp add: n)
qed

lemma compile_line:
  "line_typed tab ps \<Longrightarrow> ps \<noteq> [] \<Longrightarrow> compile_statements tab (line_ctree ps) st = finsh_code (line_code tab ps) st"
proof (induction ps arbitrary: st rule: line_tree.induct)
  case (2 w e ps)
  have t: "typed tab w e" "line_typed tab ps" using "2.prems" by simp_all
  show ?case
  proof (cases "ps = []")
    case False
    then have "compile_statements tab (line_ctree ps) = finsh_code (line_code tab ps)" using "2.IH" [OF t(2)] by blast
    then show ?thesis using False by (simp add: compile_statement [OF t(1)] finsh_code_bind finsh_code_append)
  qed (simp add: compile_statement [OF t(1)] finsh_code_append)
qed simp

lemma line_runs:
  assumes "line_typed tab ps" "ps \<noteq> []" "line_eval sys tab ps (vm_ram s) = Some (v, m)" "sp s = 0" "length (line_code tab ps) \<le> FINSH_TEXT_MAX"
    "length (vm_stack s) = FINSH_STACK_MAX"
  shows "\<exists>s'. runs sys (line_code tab ps) s s' \<and> vm_ram s' = m \<and> union_get (fst (last ps)) (finsh_stack_bottom s') = v"
  using assms
proof (induction ps arbitrary: s rule: line_tree.induct)
  case (2 w e ps)
  have d: "sp s + depth e \<le> length (vm_stack s)"
    using "2.prems"(4-6) depth_code(1) [of e tab w] by (simp add: FINSH_TEXT_MAX_def FINSH_STACK_MAX_def)
  from "2.prems"(3) obtain x m1 where e: "eval sys tab w e (vm_ram s) = Some (x, m1)" by (auto simp: bind_Some_iff)
  from code_computes(1) [OF _ e d] "2.prems"(1) obtain s1 where s1: "runs sys (code tab w e) s s1" "pushed w x m1 s s1" by auto
  show ?case
  proof (cases "ps = []")
    case True
    then show ?thesis using "2.prems" e s1 by (auto simp: pushed_def finsh_stack_bottom_def)
  next
    case False
    let ?s2 = "s1\<lparr>sp := sp s1 - 1\<rparr>"
    have s2: "runs sys [FINSH_OP Pop] s1 ?s2" by (rule runs_pop) (use s1(2) in \<open>simp add: pushed_def\<close>)
    have "line_eval sys tab ps (vm_ram ?s2) = Some (v, m)" "sp ?s2 = 0" "length (vm_stack ?s2) = FINSH_STACK_MAX"
      using "2.prems" e False s1(2) by (auto simp: pushed_def)
    with "2.IH" [of ?s2] "2.prems"(1,5) False obtain s' where
      s': "runs sys (line_code tab ps) ?s2 s'" "vm_ram s' = m" "union_get (fst (last ps)) (finsh_stack_bottom s') = v" by auto
    show ?thesis using runs_append [OF s1(1) runs_append [OF s2 s'(1)]] s'(2,3) False by auto
  qed
qed simp

lemma vm_loop_zeros: "vm_loop sys (replicate n 0) s = Some s"
proof (induction n)
  case 0
  then show ?case by (subst vm_loop.simps) simp
next
  case (Suc n)
  have "runs sys [FINSH_OP No_op] s s" by (rule runs_op) (simp add: run_op_def)
  then show ?case using Suc by (simp add: runs_def FINSH_OP_def)
qed

lemma finsh_line_spec:
  assumes "line_typed tab ps" "ps \<noteq> []" "length (line_code tab ps) \<le> FINSH_TEXT_MAX" "length (vm_stack s) = FINSH_STACK_MAX"
    "line_eval sys tab ps (vm_ram s) = Some (v, m)"
  shows "\<exists>text s1 s2. finsh_compiler_run tab (line_tree ps) err s = Some (text, err, s1) \<and> finsh_vm_run sys text s1 = Some s2
     \<and> vm_ram s2 = m \<and> union_get (fst (last ps)) (finsh_stack_bottom s2) = v"
proof -
  let ?c = "line_code tab ps" and ?s1 = "s\<lparr>vm_stack := (vm_stack s)[0 := 0]\<rparr>"
  let ?t = "?c @ replicate (FINSH_TEXT_MAX - length ?c) 0"
  have c: "finsh_compiler_run tab (line_tree ps) err s = Some (?t, err, ?s1)"
    using assms(3) by (simp add: finsh_compiler_run_def type_check_line [OF assms(1)] compile_line [OF assms(1,2)] finsh_code_def)
  from line_runs [OF assms(1,2), of sys "?s1\<lparr>sp := 0\<rparr>" v m] assms(3-5) obtain s2 where
    s2: "runs sys ?c (?s1\<lparr>sp := 0\<rparr>) s2" "vm_ram s2 = m" "union_get (fst (last ps)) (finsh_stack_bottom s2) = v" by auto
  then have "finsh_vm_run sys ?t ?s1 = Some s2" by (simp add: finsh_vm_run_def runs_def vm_loop_zeros)
  then show ?thesis using c s2(2,3) by blast
qed

text \<open>Nothing keeps the compiler from writing behind the end of the segment.\<close>

lemma long_line_overruns_text:
  assumes "line_typed tab ps" "FINSH_TEXT_MAX < length (line_code tab ps)"
  shows "finsh_compiler_run tab (line_tree ps) err s = None"
proof -
  have "ps \<noteq> []" using assms(2) by auto
  then show ?thesis
    using assms(2) by (simp add: finsh_compiler_run_def type_check_line [OF assms(1)] compile_line [OF assms(1)] finsh_code_def)
qed

text \<open>A call as the first operand: the operator is dropped, and the stack is left with the call below the other operand.\<close>

lemma operator_after_call_is_dropped:
  assumes "typed tab DWORD (Apply g as)" "typed tab DWORD b"
  shows "\<exists>n. finsh_type_check tab 0 (tree (Op f (Apply g as) b) NULL) err = (n, err)
     \<and> finsh_compile tab n st = finsh_code (code tab DWORD (Apply g as) @ code tab DWORD b) st"
proof -
  let ?c = "ctree DWORD (Apply g as) (ctree DWORD b NULL)"
  let ?n = "Node ((sys_node (FINSH_NODE_SYS_BIN f))\<lparr>data_type := 0\<rparr>) ?c NULL"
  have d: "node_data_type ?c = 0" by simp
  have null: "finsh_compile tab NULL = Some" by (rule ext) simp
  have t: "finsh_type_check tab 0 (tree (Apply g as) (tree b NULL)) err = (?c, err)"
    using type_check_tree(1) [OF assms(1), of "tree b NULL" err] type_check_tree(1) [OF assms(2), of NULL err] by simp
  have "finsh_type_check tab 0 (tree (Op f (Apply g as) b) NULL) err = (?n, err)"
    unfolding tree.simps(4) type_check_sys using t by (simp add: child_addr_def node_same del: tree.simps ctree.simps add: d)
  moreover have "node_code tab ((sys_node (FINSH_NODE_SYS_BIN f))\<lparr>data_type := 0\<rparr>) ?c = Some ([], None)"
    by (simp add: node_code_def sized_code_def width_of_def data_types)
  note compile_Node [OF this, of NULL st]
  then have "finsh_compile tab ?n st = finsh_code (code tab DWORD (Apply g as) @ code tab DWORD b) st"
    using compile_ctree(1) [OF assms(1), of "ctree DWORD b NULL" st] compile_ctree(1) [OF assms(2), of NULL]
    by (simp add: finsh_code_append finsh_code_bind bind_assoc null del: code.simps ctree.simps finsh_compile.simps(2))
  ultimately show ?thesis by blast
qed

end
