(* ===== verification/RT_FinshRead.thy ===== *)
theory RT_FinshRead
  imports RT_FinshParser RT_FinshExpr
begin

text \<open>
  What the parser of the shell reads. Expressions are written without parentheses, as the precedence of
  the operators allows it; the scanner finds the tokens of the text again and the parser builds the tree
  of the expression.
\<close>

section \<open>Lexemes\<close>

datatype lexeme = Tok finsh_token_type | Number u32 | Letter u8 | Name "u8 list"

primrec lexeme_type :: "lexeme \<Rightarrow> finsh_token_type" where
  "lexeme_type (Tok t) = t"
| "lexeme_type (Number u) = finsh_token_type_value_int"
| "lexeme_type (Letter c) = finsh_token_type_value_char"
| "lexeme_type (Name n) = finsh_token_type_identifier"

primrec lexeme_value :: "lexeme \<Rightarrow> finsh_token \<Rightarrow> bool" where
  "lexeme_value (Tok t) s = True"
| "lexeme_value (Number u) s = (token_value s = u)"
| "lexeme_value (Letter c) s = (ucast (token_value s) = c)"
| "lexeme_value (Name n) s = (token_text s = n \<and> length n < FINSH_NAME_MAX)"

text \<open>The scanner will return these lexemes next.\<close>

primrec ahead :: "lexeme list \<Rightarrow> finsh_token \<Rightarrow> bool" where
  "ahead [] s = True"
| "ahead (l # ls) s = (\<exists>s'. finsh_token_token s = Some s' \<and> current_token s' = lexeme_type l \<and> lexeme_value l s'
     \<and> \<not> replay s' \<and> global_errno s' = global_errno s \<and> ahead ls s')"

definition reached :: "finsh_parser \<Rightarrow> nat \<Rightarrow> lexeme list \<Rightarrow> finsh_parser \<Rightarrow> bool" where
  "reached p k ls q \<longleftrightarrow> ahead ls (token q) \<and> nodes_used q = nodes_used p + k \<and> symbols q = symbols p
     \<and> string_heap q = string_heap p \<and> parser_ram q = parser_ram p \<and> global_errno (token q) = global_errno (token p)"

abbreviation takes :: "finsh_parser \<Rightarrow> lexeme \<Rightarrow> lexeme list \<Rightarrow> finsh_parser \<Rightarrow> bool" where
  "takes p l ls q \<equiv> next_token p = Some (lexeme_type l, q) \<and> lexeme_value l (token q) \<and> \<not> replay (token q) \<and> reached p 0 ls q"

lemma reached_next: "reached p k (l # ls) q \<Longrightarrow> \<exists>r. takes q l ls r"
  by (auto simp: reached_def next_token_def)

lemma reached_trans: "reached p j ls q \<Longrightarrow> reached q k ms r \<Longrightarrow> reached p (j + k) ms r"
  by (simp add: reached_def)

text \<open>A token that is put back is read again.\<close>

lemma next_current: "next_token p = Some (t, q) \<Longrightarrow> current_token (token q) = t"
  by (auto simp: next_token_def)

lemma replay_again: "\<not> replay s \<Longrightarrow> finsh_token_token (finsh_token_replay s) = Some s"
  by (simp add: finsh_token_token_def finsh_token_replay_def)

lemma takes_replay: "takes p l ls q \<Longrightarrow> takes (replay_token q) l ls q"
  using next_current [of p "lexeme_type l" q]
  by (simp add: next_token_def replay_token_def replay_again reached_def) (simp add: finsh_token_replay_def)

lemma reached_replay: "takes p l ls q \<Longrightarrow> reached p 0 (l # ls) (replay_token q)"
  using next_current [of p "lexeme_type l" q]
  by (simp add: reached_def replay_token_def replay_again) (simp add: finsh_token_replay_def)

lemma reached_refl: "ahead ls (token p) \<Longrightarrow> reached p 0 ls p"
  by (simp add: reached_def)

lemma new_node_reached:
  assumes "reached p k ls q" "nodes_used p + k < FINSH_NODE_MAX"
  shows "\<exists>r. new_node i q = (Node i NULL NULL, r) \<and> reached p (Suc k) ls r"
  using assms by (auto simp: new_node_def finsh_node_allocate_def reached_def)

lemma make_sys_node_reached:
  assumes "reached p k ls q" "nodes_used p + k < FINSH_NODE_MAX" "a \<noteq> NULL"
  shows "\<exists>r. make_sys_node t a b q = (Node (new_info t) (set_sibling a b) NULL, r) \<and> reached p (Suc k) ls r"
  using assms by (auto simp: make_sys_node_def finsh_node_allocate_def reached_def)

lemma new_info_sys_node: "new_info t = sys_node t" "(new_info FINSH_NODE_ID)\<lparr>node_id := a, idtype := k\<rparr> = id_node k a"
  by (simp_all add: new_info_def sys_node_def id_node_def)

lemma set_sibling_tree [simp]: "set_sibling (tree e s) s' = tree e s'"
  by (cases e) auto

section \<open>Calls\<close>

text \<open>With enough calls left, the function gives this result.\<close>

abbreviation yields :: "expr_call \<Rightarrow> finsh_parser \<Rightarrow> finsh_node \<times> finsh_parser \<Rightarrow> bool" where
  "yields c p r \<equiv> \<forall>\<^sub>F n in sequentially. parse n c p = Some r"

lemma yieldsI: "\<forall>\<^sub>F n in sequentially. expr_body c (parse n) p = Some r \<Longrightarrow> yields c p r"
  by (subst eventually_sequentially_Suc [symmetric]) simp

lemma yields_assign:
  assumes "yields (Binary_expr 6) p (e, p1)" "next_token p1 = Some (t, p2)" "t \<noteq> finsh_token_type_assign"
  shows "yields Assign_expr p (e, replay_token p2)"
  by (rule yieldsI) (use assms(1) in eventually_elim, simp add: expr_body_def proc_assign_expr_def assms(2,3))

lemma yields_assign_eq:
  assumes "yields (Binary_expr 6) p (e, p1)" "next_token p1 = Some (finsh_token_type_assign, p2)"
    "yields Assign_expr p2 (a, p3)"
  shows "yields Assign_expr p (make_sys_node FINSH_NODE_SYS_ASSIGN e a p3)"
  by (rule yieldsI) (use assms(1,3) in eventually_elim, simp add: expr_body_def proc_assign_expr_def assms(2))

lemma yields_binary:
  assumes "yields (lower_expr lv) p (e, p1)" "yields (Binary_loop lv e) p1 r"
  shows "yields (Binary_expr lv) p r"
  by (rule yieldsI) (use assms in eventually_elim, simp add: expr_body_def proc_binary_expr_def)

lemma yields_loop_exit:
  assumes "next_token p = Some (t, p1)" "level_op lv t = None"
  shows "yields (Binary_loop lv e) p (e, replay_token p1)"
  by (rule yieldsI) (simp add: expr_body_def binary_loop_def assms)

lemma yields_loop_step:
  assumes "next_token p = Some (t, p1)" "level_op lv t = Some f" "yields (lower_expr lv) p1 (b, p2)" "b \<noteq> NULL"
    "make_sys_node (FINSH_NODE_SYS_BIN f) e b p2 = (e2, p3)" "yields (Binary_loop lv e2) p3 r"
  shows "yields (Binary_loop lv e) p r"
  by (rule yieldsI) (use assms(3,6) in eventually_elim,
      simp add: expr_body_def binary_loop_def assms(1,2,4,5) binary_node_def)

lemma yields_cast:
  assumes "next_token p = Some (t, p1)" "t \<noteq> finsh_token_type_left_paren" "yields Unary_expr (replay_token p1) r"
  shows "yields Cast_expr p r"
  by (rule yieldsI) (use assms(3) in eventually_elim, simp add: expr_body_def proc_cast_expr_def assms(1,2))

lemma yields_unary:
  assumes "next_token p = Some (t, p1)" "unary_type t = Some ty" "yields Cast_expr p1 (a, p2)"
    "t \<noteq> finsh_token_type_add" "t \<noteq> finsh_token_type_sub"
  shows "yields Unary_expr p (make_sys_node ty a NULL p2)"
  by (rule yieldsI) (use assms(3) in eventually_elim, simp add: expr_body_def proc_unary_expr_def assms(1,2,4,5))

lemma yields_unary_postfix:
  assumes "next_token p = Some (t, p1)" "unary_type t = None" "t \<noteq> finsh_token_type_add" "t \<noteq> finsh_token_type_sub"
    "yields Postfix_expr (replay_token p1) r"
  shows "yields Unary_expr p r"
  by (rule yieldsI) (use assms(5) in eventually_elim, simp add: expr_body_def proc_unary_expr_def assms(1-4))

lemma yields_postfix:
  assumes "yields Primary_expr p (e, p1)" "yields (Postfix_loop e) p1 r"
  shows "yields Postfix_expr p r"
  by (rule yieldsI) (use assms in eventually_elim, simp add: expr_body_def proc_postfix_expr_def)

definition ends_postfix :: "finsh_token_type \<Rightarrow> bool" where
  "ends_postfix t \<longleftrightarrow> t \<noteq> finsh_token_type_inc \<and> t \<noteq> finsh_token_type_dec \<and> t \<noteq> finsh_token_type_left_paren"

lemma yields_postfix_exit:
  assumes "next_token p = Some (t, p1)" "ends_postfix t"
  shows "yields (Postfix_loop e) p (e, replay_token p1)"
  by (rule yieldsI) (use assms in \<open>simp add: expr_body_def postfix_loop_def ends_postfix_def\<close>)

lemma yields_postfix_step:
  assumes "next_token p = Some (if f = Add then finsh_token_type_inc else finsh_token_type_dec, p1)"
    "make_sys_node (step_type f FINSH_NODE_SYS_INC FINSH_NODE_SYS_DEC) e NULL p1 = (e2, p2)" "yields (Postfix_loop e2) p2 r"
  shows "yields (Postfix_loop e) p r"
  by (rule yieldsI) (use assms(3) in eventually_elim, use assms(1,2) in \<open>simp add: expr_body_def postfix_loop_def split: if_splits\<close>)

lemma yields_primary:
  assumes "next_token p = Some (t, p1)" "t \<noteq> finsh_token_type_left_paren" "primary_token t p1 = Some r"
  shows "yields Primary_expr p r"
  by (rule yieldsI) (use assms in \<open>simp add: expr_body_def proc_primary_expr_def\<close>)

lemma yields_call_empty:
  assumes "next_token p = Some (finsh_token_type_left_paren, p1)" "next_token p1 = Some (finsh_token_type_right_paren, p2)"
    "make_sys_node FINSH_NODE_SYS_FUNC e NULL p2 = (e2, p3)" "yields (Postfix_loop e2) p3 r"
  shows "yields (Postfix_loop e) p r"
  by (rule yieldsI) (use assms(4) in eventually_elim, simp add: expr_body_def postfix_loop_def call_params_def assms(1-3))

lemma yields_call:
  assumes "next_token p = Some (finsh_token_type_left_paren, p1)" "next_token p1 = Some (t, p2)" "t \<noteq> finsh_token_type_right_paren"
    "yields Param_list (replay_token p2) (l, p3)" "match_token finsh_token_type_right_paren p3 = Some p4"
    "make_sys_node FINSH_NODE_SYS_FUNC e l p4 = (e2, p5)" "yields (Postfix_loop e2) p5 r"
  shows "yields (Postfix_loop e) p r"
  by (rule yieldsI) (use assms(4,7) in eventually_elim,
      simp add: expr_body_def postfix_loop_def call_params_def assms(1-3,5,6))

lemma yields_params:
  assumes "yields Assign_expr p (a, p1)" "a \<noteq> NULL" "yields (Param_loop [a]) p1 r"
  shows "yields Param_list p r"
  by (rule yieldsI) (use assms(1,3) in eventually_elim, simp add: expr_body_def proc_param_list_def assms(2))

lemma yields_params_exit:
  assumes "next_token p = Some (t, p1)" "t \<noteq> finsh_token_type_comma"
  shows "yields (Param_loop ns) p (link_nodes ns, replay_token p1)"
  by (rule yieldsI) (simp add: expr_body_def param_loop_def assms)

lemma yields_params_step:
  assumes "next_token p = Some (finsh_token_type_comma, p1)" "yields Assign_expr p1 (a, p2)" "a \<noteq> NULL"
    "yields (Param_loop (ns @ [a])) p2 r"
  shows "yields (Param_loop ns) p r"
  by (rule yieldsI) (use assms(2,4) in eventually_elim, simp add: expr_body_def param_loop_def assms(1,3))

section \<open>Expressions as lexemes\<close>

definition op_level :: "binop \<Rightarrow> nat" where
  "op_level f = (case f of Mul \<Rightarrow> 1 | Div \<Rightarrow> 1 | Mod \<Rightarrow> 1 | Add \<Rightarrow> 2 | Sub \<Rightarrow> 2 | Shl \<Rightarrow> 3 | Shr \<Rightarrow> 3 | And \<Rightarrow> 4 | Xor \<Rightarrow> 5 | Or \<Rightarrow> 6)"

definition op_token :: "binop \<Rightarrow> finsh_token_type" where
  "op_token f = (case f of Mul \<Rightarrow> finsh_token_type_mul | Div \<Rightarrow> finsh_token_type_div | Mod \<Rightarrow> finsh_token_type_mod
   | Add \<Rightarrow> finsh_token_type_add | Sub \<Rightarrow> finsh_token_type_sub | Shl \<Rightarrow> finsh_token_type_shl | Shr \<Rightarrow> finsh_token_type_shr
   | And \<Rightarrow> finsh_token_type_and | Xor \<Rightarrow> finsh_token_type_xor | Or \<Rightarrow> finsh_token_type_or)"

abbreviation step_token :: "binop \<Rightarrow> finsh_token_type" where
  "step_token f \<equiv> if f = Add then finsh_token_type_inc else finsh_token_type_dec"

fun prec :: "expr \<Rightarrow> nat" where
  "prec (Op f a b) = op_level f"
| "prec (Assign p a) = 7"
| "prec (Store a b) = 7"
| "prec e = 0"

text \<open>The lexemes of an expression; those of further arguments each follow a comma.\<close>

fun lexemes :: "(u32 \<Rightarrow> u8 list) \<Rightarrow> expr \<Rightarrow> lexeme list" and more_lexemes :: "(u32 \<Rightarrow> u8 list) \<Rightarrow> expr list \<Rightarrow> lexeme list" where
  "lexemes nm (Num u) = [Number u]"
| "lexemes nm (Chr c) = [Letter c]"
| "lexemes nm (Var p) = [Name (nm p)]"
| "lexemes nm (Op f a b) = lexemes nm a @ Tok (op_token f) # lexemes nm b"
| "lexemes nm (Not a) = Tok finsh_token_type_bitwise # lexemes nm a"
| "lexemes nm (Assign p a) = Name (nm p) # Tok finsh_token_type_assign # lexemes nm a"
| "lexemes nm (Pre f p) = [Tok (step_token f), Name (nm p)]"
| "lexemes nm (Post f p) = [Name (nm p), Tok (step_token f)]"
| "lexemes nm (Deref a) = Tok finsh_token_type_mul # lexemes nm a"
| "lexemes nm (AddrOf p) = [Tok finsh_token_type_and, Name (nm p)]"
| "lexemes nm (Store a b) = Tok finsh_token_type_mul # lexemes nm a @ Tok finsh_token_type_assign # lexemes nm b"
| "lexemes nm (Apply f as) = Name (nm f) # Tok finsh_token_type_left_paren # tl (more_lexemes nm as) @ [Tok finsh_token_type_right_paren]"
| "more_lexemes nm [] = []"
| "more_lexemes nm (a # as) = Tok finsh_token_type_comma # lexemes nm a @ more_lexemes nm as"

text \<open>
  The expressions that need no parentheses: an operand on the left may be of the level of its operator,
  one on the right must be of a lower one, and the operand of a unary operator is one itself. The
  symbols are found under their names.
\<close>

fun unbracketed :: "finsh_symbols \<Rightarrow> (u32 \<Rightarrow> u8 list) \<Rightarrow> expr \<Rightarrow> bool" where
  "unbracketed y nm (Num u) = True"
| "unbracketed y nm (Chr c) = True"
| "unbracketed y nm (Var p) = (p \<noteq> 0 \<and> find_symbol (nm p) y = Some (FINSH_IDTYPE_VAR, p))"
| "unbracketed y nm (Op f a b) = (prec a \<le> op_level f \<and> prec b < op_level f \<and> unbracketed y nm a \<and> unbracketed y nm b)"
| "unbracketed y nm (Not a) = (prec a = 0 \<and> unbracketed y nm a)"
| "unbracketed y nm (Assign p a) = (p \<noteq> 0 \<and> find_symbol (nm p) y = Some (FINSH_IDTYPE_VAR, p) \<and> unbracketed y nm a)"
| "unbracketed y nm (Pre f p) = (p \<noteq> 0 \<and> find_symbol (nm p) y = Some (FINSH_IDTYPE_VAR, p))"
| "unbracketed y nm (Post f p) = (p \<noteq> 0 \<and> find_symbol (nm p) y = Some (FINSH_IDTYPE_VAR, p))"
| "unbracketed y nm (Deref a) = (prec a = 0 \<and> unbracketed y nm a)"
| "unbracketed y nm (AddrOf p) = (p \<noteq> 0 \<and> find_symbol (nm p) y = Some (FINSH_IDTYPE_VAR, p))"
| "unbracketed y nm (Store a b) = (prec a = 0 \<and> unbracketed y nm a \<and> unbracketed y nm b)"
| "unbracketed y nm (Apply f as) = (f \<noteq> 0 \<and> find_symbol (nm f) y = Some (FINSH_IDTYPE_SYSCALL, f) \<and> (\<forall>a \<in> set as. unbracketed y nm a))"

fun node_count :: "finsh_node \<Rightarrow> nat" where
  "node_count NULL = 0"
| "node_count (Node i c s) = Suc (node_count c + node_count s)"

abbreviation nodes :: "expr \<Rightarrow> nat" where
  "nodes e \<equiv> node_count (tree e NULL)"

lemma node_count_tree: "node_count (tree e s) = nodes e + node_count s"
  by (cases e) auto

lemma level_op_token [simp]: "level_op k (op_token f) = (if k = op_level f then Some f else None)"
  by (cases f) (simp_all add: level_op_def op_token_def op_level_def)

lemma op_level_bounds: "1 \<le> op_level f" "op_level f \<le> 6"
  by (cases f; simp add: op_level_def)+

text \<open>The tokens that may follow what a function of a level has read.\<close>

definition follow :: "nat \<Rightarrow> finsh_token_type \<Rightarrow> bool" where
  "follow lv t \<longleftrightarrow> ends_postfix t \<and> (\<forall>k. 1 \<le> k \<and> k \<le> lv \<longrightarrow> level_op k t = None)"

definition stops :: "finsh_token_type \<Rightarrow> bool" where
  "stops t \<longleftrightarrow> follow 6 t \<and> t \<noteq> finsh_token_type_assign"

definition parses :: "finsh_symbols \<Rightarrow> (u32 \<Rightarrow> u8 list) \<Rightarrow> expr_call \<Rightarrow> (finsh_token_type \<Rightarrow> bool) \<Rightarrow> expr \<Rightarrow> bool" where
  "parses y nm c F e \<longleftrightarrow> (\<forall>p l rest. ahead (lexemes nm e @ l # rest) (token p) \<longrightarrow> symbols p = y
     \<longrightarrow> nodes_used p + nodes e \<le> FINSH_NODE_MAX \<longrightarrow> F (lexeme_type l)
     \<longrightarrow> (\<exists>q. yields c p (tree e NULL, q) \<and> reached p (nodes e) (l # rest) q))"

definition feeds :: "finsh_symbols \<Rightarrow> (u32 \<Rightarrow> u8 list) \<Rightarrow> nat \<Rightarrow> expr \<Rightarrow> bool" where
  "feeds y nm lv e \<longleftrightarrow> (\<forall>p l rest. ahead (lexemes nm e @ l # rest) (token p) \<longrightarrow> symbols p = y
     \<longrightarrow> nodes_used p + nodes e \<le> FINSH_NODE_MAX \<longrightarrow> follow (lv - 1) (lexeme_type l)
     \<longrightarrow> (\<exists>q. reached p (nodes e) (l # rest) q
           \<and> (\<forall>r. yields (Binary_loop lv (tree e NULL)) q r \<longrightarrow> yields (Binary_expr lv) p r)))"

lemma parsesD:
  assumes "parses y nm c F e" "reached p k (lexemes nm e @ l # rest) q" "symbols p = y" "nodes_used p + k + nodes e \<le> FINSH_NODE_MAX"
    "F (lexeme_type l)"
  obtains r where "yields c q (tree e NULL, r)" "reached p (k + nodes e) (l # rest) r"
proof -
  have "ahead (lexemes nm e @ l # rest) (token q)" "symbols q = y" "nodes_used q + nodes e \<le> FINSH_NODE_MAX"
    using assms by (auto simp: reached_def)
  with assms(1,5) obtain r where r: "yields c q (tree e NULL, r)" "reached q (nodes e) (l # rest) r"
    unfolding parses_def by blast
  then show ?thesis using that reached_trans [OF assms(2)] by blast
qed

lemma parses_feeds:
  assumes "parses y nm (lower_expr lv) (follow (lv - 1)) e"
  shows "feeds y nm lv e"
  unfolding feeds_def
proof (intro allI impI)
  fix p :: finsh_parser and l rest
  assume "ahead (lexemes nm e @ l # rest) (token p)" "symbols p = y" "nodes_used p + nodes e \<le> FINSH_NODE_MAX" "follow (lv - 1) (lexeme_type l)"
  with assms obtain q where "yields (lower_expr lv) p (tree e NULL, q)" "reached p (nodes e) (l # rest) q"
    unfolding parses_def by blast
  then show "\<exists>q. reached p (nodes e) (l # rest) q \<and> (\<forall>r. yields (Binary_loop lv (tree e NULL)) q r \<longrightarrow> yields (Binary_expr lv) p r)"
    using yields_binary by blast
qed

lemma follow_less: "follow lv t \<Longrightarrow> k \<le> lv \<Longrightarrow> follow k t"
  by (auto simp: follow_def)

lemma feeds_parses:
  assumes "feeds y nm lv e" "1 \<le> lv"
  shows "parses y nm (Binary_expr lv) (follow lv) e"
  unfolding parses_def
proof (intro allI impI)
  fix p :: finsh_parser and l rest
  assume a: "ahead (lexemes nm e @ l # rest) (token p)" "symbols p = y" "nodes_used p + nodes e \<le> FINSH_NODE_MAX" "follow lv (lexeme_type l)"
  then have "follow (lv - 1) (lexeme_type l)" by (simp add: follow_less)
  with assms(1) a obtain q where q: "reached p (nodes e) (l # rest) q"
    "\<And>r. yields (Binary_loop lv (tree e NULL)) q r \<Longrightarrow> yields (Binary_expr lv) p r"
    unfolding feeds_def by blast
  from reached_next [OF q(1)] obtain r where r: "takes q l rest r" by blast
  have "level_op lv (lexeme_type l) = None" using a(4) assms(2) by (simp add: follow_def)
  then have "yields (Binary_expr lv) p (tree e NULL, replay_token r)" using q(2) yields_loop_exit r by blast
  moreover have "reached p (nodes e) (l # rest) (replay_token r)" using reached_trans [OF q(1) reached_replay [OF r]] by simp
  ultimately show "\<exists>q. yields (Binary_expr lv) p (tree e NULL, q) \<and> reached p (nodes e) (l # rest) q" by blast
qed

lemma feeds_up: "feeds y nm lv e \<Longrightarrow> 1 \<le> lv \<Longrightarrow> lv \<le> k \<Longrightarrow> feeds y nm k e"
proof (induction k)
  case (Suc k)
  show ?case
  proof (cases "lv = Suc k")
    case False
    then have "parses y nm (Binary_expr k) (follow k) e" using Suc feeds_parses by auto
    then show ?thesis using Suc.prems False by (intro parses_feeds) (simp add: lower_expr_def)
  qed (use Suc in simp)
qed simp

lemma feeds_cast: "parses y nm Cast_expr ends_postfix e \<Longrightarrow> 1 \<le> k \<Longrightarrow> feeds y nm k e"
proof (rule feeds_up [of y nm 1])
  assume "parses y nm Cast_expr ends_postfix e"
  moreover have "follow 0 = ends_postfix" by (auto simp: follow_def fun_eq_iff)
  ultimately show "feeds y nm 1 e" by (intro parses_feeds) (simp add: lower_expr_def)
qed auto

section \<open>Reading expressions\<close>

lemma make_node_tree:
  assumes "reached p k ls q" "nodes_used p + nodes e \<le> FINSH_NODE_MAX" "nodes e = Suc k"
    "tree e NULL = Node (sys_node t) (set_sibling a b) NULL" "a \<noteq> NULL"
  obtains r where "make_sys_node t a b q = (tree e NULL, r)" "reached p (nodes e) ls r"
proof -
  have "nodes_used p + k < FINSH_NODE_MAX" using assms(2,3) by simp
  from make_sys_node_reached [OF assms(1) this assms(5), of t b] show ?thesis
    using that assms(3,4) by (auto simp: new_info_sys_node)
qed

lemma feeds_op:
  assumes "feeds y nm lv a" "parses y nm (lower_expr lv) (follow (lv - 1)) b" and lv: "lv = op_level f"
  shows "feeds y nm lv (Op f a b)"
  unfolding feeds_def
proof (intro allI impI)
  fix p :: finsh_parser and l rest
  assume a: "ahead (lexemes nm (Op f a b) @ l # rest) (token p)" "symbols p = y" "nodes_used p + nodes (Op f a b) \<le> FINSH_NODE_MAX"
    and l: "follow (lv - 1) (lexeme_type l)"
  have n: "nodes (Op f a b) = Suc (nodes a + nodes b)" using node_count_tree [of a "tree b NULL"] by simp
  have "ends_postfix (op_token f)" by (cases f) (simp_all add: op_token_def ends_postfix_def)
  then have "follow (lv - 1) (lexeme_type (Tok (op_token f)))"
    using op_level_bounds [of f] by (auto simp: follow_def lv)
  with assms(1) a n obtain q where q: "reached p (nodes a) (Tok (op_token f) # lexemes nm b @ l # rest) q"
    "\<And>r. yields (Binary_loop lv (tree a NULL)) q r \<Longrightarrow> yields (Binary_expr lv) p r"
    unfolding feeds_def by fastforce
  from reached_next [OF q(1)] obtain q1 where q1: "takes q (Tok (op_token f)) (lexemes nm b @ l # rest) q1" by blast
  then have "reached p (nodes a) (lexemes nm b @ l # rest) q1" using reached_trans [OF q(1)] by fastforce
  from parsesD [OF assms(2) this a(2) _ l] a(3) n obtain q2 where
    q2: "yields (lower_expr lv) q1 (tree b NULL, q2)" "reached p (nodes a + nodes b) (l # rest) q2" by auto
  obtain q3 where q3: "make_sys_node (FINSH_NODE_SYS_BIN f) (tree a NULL) (tree b NULL) q2 = (tree (Op f a b) NULL, q3)"
      "reached p (nodes (Op f a b)) (l # rest) q3"
    by (rule make_node_tree [OF q2(2) a(3) n, of "FINSH_NODE_SYS_BIN f" "tree a NULL" "tree b NULL"]) auto
  have "yields (Binary_expr lv) p r" if "yields (Binary_loop lv (tree (Op f a b) NULL)) q3 r" for r
    by (rule q(2), rule yields_loop_step [of q _ q1 lv f, OF _ _ q2(1) _ q3(1) that]) (use q1 lv in auto)
  then show "\<exists>q. reached p (nodes (Op f a b)) (l # rest) q
     \<and> (\<forall>r. yields (Binary_loop lv (tree (Op f a b) NULL)) q r \<longrightarrow> yields (Binary_expr lv) p r)"
    using q3(2) by blast
qed

lemma parses_assign:
  assumes "feeds y nm 6 e"
  shows "parses y nm Assign_expr stops e"
  unfolding parses_def
proof (intro allI impI)
  fix p :: finsh_parser and l rest
  assume a: "ahead (lexemes nm e @ l # rest) (token p)" "symbols p = y" "nodes_used p + nodes e \<le> FINSH_NODE_MAX" "stops (lexeme_type l)"
  with feeds_parses [OF assms] obtain q where q: "yields (Binary_expr 6) p (tree e NULL, q)" "reached p (nodes e) (l # rest) q"
    unfolding parses_def stops_def by fastforce
  from reached_next [OF q(2)] obtain r where r: "takes q l rest r" by blast
  have "reached p (nodes e) (l # rest) (replay_token r)" using reached_trans [OF q(2) reached_replay [OF r]] by simp
  moreover have "yields Assign_expr p (tree e NULL, replay_token r)"
    using yields_assign [OF q(1), of "lexeme_type l" r] r a(4) by (simp add: stops_def)
  ultimately show "\<exists>q. yields Assign_expr p (tree e NULL, q) \<and> reached p (nodes e) (l # rest) q" by blast
qed

text \<open>An assignment: its left side is read as an expression of level 6.\<close>

lemma parses_assign_eq:
  assumes "feeds y nm 6 x" "parses y nm Assign_expr stops a"
    and e: "lexemes nm e = lexemes nm x @ Tok finsh_token_type_assign # lexemes nm a"
      "tree e NULL = Node (sys_node FINSH_NODE_SYS_ASSIGN) (tree x (tree a NULL)) NULL"
  shows "parses y nm Assign_expr stops e"
  unfolding parses_def
proof (intro allI impI)
  fix p :: finsh_parser and l rest
  assume a: "ahead (lexemes nm e @ l # rest) (token p)" "symbols p = y" "nodes_used p + nodes e \<le> FINSH_NODE_MAX" "stops (lexeme_type l)"
  have n: "nodes e = Suc (nodes x + nodes a)" unfolding e(2) using node_count_tree [of x "tree a NULL"] by simp
  have "follow 6 (lexeme_type (Tok finsh_token_type_assign))" by (auto simp: follow_def level_op_def ends_postfix_def)
  with feeds_parses [OF assms(1)] a n e(1) obtain q where q: "yields (Binary_expr 6) p (tree x NULL, q)"
      "reached p (nodes x) (Tok finsh_token_type_assign # lexemes nm a @ l # rest) q"
    unfolding parses_def by fastforce
  from reached_next [OF q(2)] obtain q1 where q1: "takes q (Tok finsh_token_type_assign) (lexemes nm a @ l # rest) q1" by blast
  then have "reached p (nodes x) (lexemes nm a @ l # rest) q1" using reached_trans [OF q(2)] by fastforce
  from parsesD [OF assms(2) this a(2) _ a(4)] a(3) n obtain q2 where
    q2: "yields Assign_expr q1 (tree a NULL, q2)" "reached p (nodes x + nodes a) (l # rest) q2" by auto
  obtain q3 where q3: "make_sys_node FINSH_NODE_SYS_ASSIGN (tree x NULL) (tree a NULL) q2 = (tree e NULL, q3)"
      "reached p (nodes e) (l # rest) q3"
    by (rule make_node_tree [OF q2(2) a(3) n, of FINSH_NODE_SYS_ASSIGN "tree x NULL" "tree a NULL"]) (auto simp: e(2))
  show "\<exists>q. yields Assign_expr p (tree e NULL, q) \<and> reached p (nodes e) (l # rest) q"
    using yields_assign_eq [OF q(1) _ q2(1)] q1 q3 by auto
qed

lemma unary_token: "unary_type t = Some ty \<Longrightarrow> t \<noteq> finsh_token_type_add \<and> t \<noteq> finsh_token_type_sub \<and> t \<noteq> finsh_token_type_left_paren"
  by (auto simp: unary_type_def)

lemma parses_unary:
  assumes "parses y nm Cast_expr ends_postfix a" "unary_type t = Some ty"
    and e: "lexemes nm e = Tok t # lexemes nm a" "tree e NULL = Node (sys_node ty) (tree a NULL) NULL"
  shows "parses y nm Cast_expr ends_postfix e"
  unfolding parses_def
proof (intro allI impI)
  fix p :: finsh_parser and l rest
  assume a: "ahead (lexemes nm e @ l # rest) (token p)" "symbols p = y" "nodes_used p + nodes e \<le> FINSH_NODE_MAX" "ends_postfix (lexeme_type l)"
  have n: "nodes e = Suc (nodes a)" unfolding e(2) by simp
  from a(1) e(1) have "reached p 0 (Tok t # lexemes nm a @ l # rest) p" by (simp add: reached_refl del: ahead.simps)
  from reached_next [OF this] obtain q where q: "takes p (Tok t) (lexemes nm a @ l # rest) q" by blast
  note q' = takes_replay [OF q]
  from q have "reached p 0 (lexemes nm a @ l # rest) q" by simp
  from parsesD [OF assms(1) this a(2) _ a(4)] a(3) n obtain q2 where
    q2: "yields Cast_expr q (tree a NULL, q2)" "reached p (nodes a) (l # rest) q2" by auto
  obtain q3 where q3: "make_sys_node ty (tree a NULL) NULL q2 = (tree e NULL, q3)" "reached p (nodes e) (l # rest) q3"
    by (rule make_node_tree [OF q2(2) a(3) n, of ty "tree a NULL" NULL]) (auto simp: e(2))
  have "yields Unary_expr (replay_token q) (tree e NULL, q3)"
    using yields_unary [OF _ assms(2) q2(1)] q' unary_token [OF assms(2)] q3(1) by fastforce
  then have "yields Cast_expr p (tree e NULL, q3)" using yields_cast [of p t q] q unary_token [OF assms(2)] by fastforce
  then show "\<exists>q. yields Cast_expr p (tree e NULL, q) \<and> reached p (nodes e) (l # rest) q" using q3(2) by blast
qed

text \<open>Primary expressions, and what may follow them.\<close>

definition starts_primary :: "finsh_token_type \<Rightarrow> bool" where
  "starts_primary t \<longleftrightarrow> t \<in> {finsh_token_type_identifier, finsh_token_type_value_int, finsh_token_type_value_char}"

lemma yields_cast_primary:
  assumes q: "takes p l ls q" and l: "starts_primary (lexeme_type l)" and e: "primary_token (lexeme_type l) q = Some (e, q1)"
    and r: "yields (Postfix_loop e) q1 r"
  shows "yields Cast_expr p r"
proof -
  note q' = takes_replay [OF q]
  have t: "lexeme_type l \<noteq> finsh_token_type_left_paren" "lexeme_type l \<noteq> finsh_token_type_add" "lexeme_type l \<noteq> finsh_token_type_sub"
      "unary_type (lexeme_type l) = None"
    using l by (auto simp: starts_primary_def unary_type_def)
  have "yields Primary_expr (replay_token q) (e, q1)" using yields_primary [of "replay_token q" _ q, OF _ t(1) e] q' by blast
  from yields_postfix [OF this r] have "yields Unary_expr (replay_token q) r"
    using yields_unary_postfix [of "replay_token q" _ q, OF _ t(4,2,3)] q' by blast
  then show ?thesis using yields_cast [of p _ q, OF _ t(1)] q by blast
qed

lemma primary_number: "takes p (Number u) ls q \<Longrightarrow> primary_token finsh_token_type_value_int q = Some (new_node ((sys_node FINSH_NODE_VALUE_INT)\<lparr>node_value := u\<rparr>) q)"
  by (simp add: primary_token_def finsh_node_new_int_def new_info_sys_node)

lemma primary_letter: "takes p (Letter c) ls q \<Longrightarrow> primary_token finsh_token_type_value_char q = Some (new_node ((sys_node FINSH_NODE_VALUE_CHAR)\<lparr>node_value := ucast c\<rparr>) q)"
  by (auto simp: primary_token_def finsh_node_new_char_def new_info_sys_node)

lemma primary_name:
  assumes q: "takes p (Name n) ls q" and "find_symbol n (symbols p) = Some (k, a)" "a \<noteq> 0"
  shows "primary_token finsh_token_type_identifier q = Some (new_node (id_node k a) q)"
proof -
  have y: "symbols q = symbols p" using q by (simp add: reached_def)
  have "match_token finsh_token_type_identifier (replay_token q) = Some q"
    using takes_replay [OF q] by (simp add: match_token_def check_token_def)
  then have "proc_identifier (replay_token q) = Some (n, q)" using q by (auto simp: proc_identifier_def)
  then show ?thesis using assms(2,3) by (simp add: primary_token_def finsh_node_new_id_def y new_info_sys_node(2))
qed

text \<open>An expression of one lexeme.\<close>

lemma parses_leaf:
  assumes e: "lexemes nm e = [x]" "tree e NULL = Node i NULL NULL" and x: "starts_primary (lexeme_type x)"
    and prim: "\<And>p ls q. takes p x ls q \<Longrightarrow> symbols p = y \<Longrightarrow> primary_token (lexeme_type x) q = Some (new_node i q)"
  shows "parses y nm Cast_expr ends_postfix e"
  unfolding parses_def
proof (intro allI impI)
  fix p :: finsh_parser and l rest
  assume a: "ahead (lexemes nm e @ l # rest) (token p)" "symbols p = y" "nodes_used p + nodes e \<le> FINSH_NODE_MAX" "ends_postfix (lexeme_type l)"
  from a(1) e(1) have "reached p 0 (x # l # rest) p" by (simp add: reached_refl del: ahead.simps)
  from reached_next [OF this] obtain q where q: "takes p x (l # rest) q" by blast
  have "nodes_used p + 0 < FINSH_NODE_MAX" using a(3) e(2) by simp
  with q new_node_reached [of p 0 "l # rest" q i] obtain q1 where
    q1: "new_node i q = (tree e NULL, q1)" "reached p (nodes e) (l # rest) q1" by (auto simp: e(2))
  from reached_next [OF q1(2)] obtain r where r: "takes q1 l rest r" by blast
  have "yields (Postfix_loop (tree e NULL)) q1 (tree e NULL, replay_token r)" using yields_postfix_exit r a(4) by blast
  then have "yields Cast_expr p (tree e NULL, replay_token r)"
    using yields_cast_primary [OF q x, of "tree e NULL" q1] prim [OF q a(2)] q1(1) by simp
  moreover have "reached p (nodes e) (l # rest) (replay_token r)" using reached_trans [OF q1(2) reached_replay [OF r]] by simp
  ultimately show "\<exists>q. yields Cast_expr p (tree e NULL, q) \<and> reached p (nodes e) (l # rest) q" by blast
qed

lemma parses_var:
  assumes "v \<noteq> 0" "find_symbol (nm v) y = Some (FINSH_IDTYPE_VAR, v)"
  shows "parses y nm Cast_expr ends_postfix (Var v)"
proof (rule parses_leaf [of nm _ "Name (nm v)"])
  fix p ls q assume "takes p (Name (nm v)) ls q" "symbols p = y"
  then show "primary_token (lexeme_type (Name (nm v))) q = Some (new_node (id_node FINSH_IDTYPE_VAR v) q)"
    using primary_name [of p "nm v" q ls FINSH_IDTYPE_VAR v] assms by simp
qed (simp_all add: starts_primary_def)

lemma parses_post:
  assumes v: "v \<noteq> 0" "find_symbol (nm v) y = Some (FINSH_IDTYPE_VAR, v)"
  shows "parses y nm Cast_expr ends_postfix (Post f v)"
  unfolding parses_def
proof (intro allI impI)
  fix p :: finsh_parser and l rest
  let ?e = "Post f v"
  assume a: "ahead (lexemes nm ?e @ l # rest) (token p)" "symbols p = y" "nodes_used p + nodes ?e \<le> FINSH_NODE_MAX" "ends_postfix (lexeme_type l)"
  have "reached p 0 (Name (nm v) # Tok (step_token f) # l # rest) p"
    using a(1) by (simp add: reached_refl del: ahead.simps)
  from reached_next [OF this] obtain q where q: "takes p (Name (nm v)) (Tok (step_token f) # l # rest) q" by blast
  have "nodes_used p + 0 < FINSH_NODE_MAX" using a(3) by simp
  with q new_node_reached [of p 0 _ q "id_node FINSH_IDTYPE_VAR v"] obtain q1 where
    q1: "new_node (id_node FINSH_IDTYPE_VAR v) q = (tree (Var v) NULL, q1)" "reached p 1 (Tok (step_token f) # l # rest) q1" by auto
  from reached_next [OF q1(2)] obtain q2 where q2: "takes q1 (Tok (step_token f)) (l # rest) q2" by blast
  then have r2: "reached p 1 (l # rest) q2" using reached_trans [OF q1(2)] by fastforce
  obtain q3 where q3: "make_sys_node (step_type f FINSH_NODE_SYS_INC FINSH_NODE_SYS_DEC) (tree (Var v) NULL) NULL q2 = (tree ?e NULL, q3)"
      "reached p (nodes ?e) (l # rest) q3"
    by (rule make_node_tree [OF r2 a(3), of "step_type f FINSH_NODE_SYS_INC FINSH_NODE_SYS_DEC" "tree (Var v) NULL" NULL]) auto
  from reached_next [OF q3(2)] obtain r where r: "takes q3 l rest r" by blast
  have "yields (Postfix_loop (tree ?e NULL)) q3 (tree ?e NULL, replay_token r)" using yields_postfix_exit r a(4) by blast
  then have "yields (Postfix_loop (tree (Var v) NULL)) q1 (tree ?e NULL, replay_token r)"
    using yields_postfix_step [of q1 f q2, OF _ q3(1)] q2 by simp
  then have "yields Cast_expr p (tree ?e NULL, replay_token r)"
    using yields_cast_primary [OF q, of "tree (Var v) NULL" q1] primary_name [OF q, of FINSH_IDTYPE_VAR v] v a(2) q1(1)
    by (simp add: starts_primary_def)
  moreover have "reached p (nodes ?e) (l # rest) (replay_token r)" using reached_trans [OF q3(2) reached_replay [OF r]] by simp
  ultimately show "\<exists>q. yields Cast_expr p (tree ?e NULL, q) \<and> reached p (nodes ?e) (l # rest) q" by blast
qed

section \<open>Calls of functions\<close>

definition starts_expr :: "finsh_token_type \<Rightarrow> bool" where
  "starts_expr t \<longleftrightarrow> t \<in> {finsh_token_type_identifier, finsh_token_type_value_int, finsh_token_type_value_char, finsh_token_type_bitwise,
     finsh_token_type_mul, finsh_token_type_and, finsh_token_type_inc, finsh_token_type_dec}"

lemma lexemes_start: "\<exists>l ls. lexemes nm e = l # ls \<and> starts_expr (lexeme_type l)"
  by (induction e) (auto simp: starts_expr_def)

lemma link_trees: "link_nodes (map (\<lambda>a. tree a NULL) as) = trees as"
  by (induction as) auto

lemma stops_tokens: "stops finsh_token_type_comma" "stops finsh_token_type_right_paren" "stops finsh_token_type_semicolon"
  by (auto simp: stops_def follow_def ends_postfix_def level_op_def)

lemma more_lexemes_head:
  "\<exists>l ls. more_lexemes nm as @ Tok finsh_token_type_right_paren # rest = l # ls \<and> stops (lexeme_type l)"
  by (cases as) (simp_all add: stops_tokens)

lemma params_loop:
  assumes "\<And>a. a \<in> set as \<Longrightarrow> parses y nm Assign_expr stops a"
    and "reached p k (more_lexemes nm as @ Tok finsh_token_type_right_paren # rest) q" "symbols p = y"
    and "nodes_used p + k + node_count (trees as) \<le> FINSH_NODE_MAX"
  shows "\<exists>r. yields (Param_loop ns) q (link_nodes (ns @ map (\<lambda>a. tree a NULL) as), r)
    \<and> reached p (k + node_count (trees as)) (Tok finsh_token_type_right_paren # rest) r"
  using assms
proof (induction as arbitrary: ns k q)
  case Nil
  from Nil.prems(2) have q: "reached p k (Tok finsh_token_type_right_paren # rest) q" by simp
  from reached_next [OF q] obtain r where r: "takes q (Tok finsh_token_type_right_paren) rest r" by blast
  have "reached p k (Tok finsh_token_type_right_paren # rest) (replay_token r)" using reached_trans [OF q reached_replay [OF r]] by simp
  then show ?case using yields_params_exit [of q _ r ns] r by auto
next
  case (Cons a as)
  obtain l ls where l: "more_lexemes nm as @ Tok finsh_token_type_right_paren # rest = l # ls" "stops (lexeme_type l)"
    using more_lexemes_head by blast
  have q: "reached p k (Tok finsh_token_type_comma # lexemes nm a @ l # ls) q" using Cons.prems(2) by (simp flip: l(1))
  have n: "node_count (trees (a # as)) = nodes a + node_count (trees as)" by (simp add: node_count_tree [of a "trees as"])
  from reached_next [OF q] obtain q1 where q1: "takes q (Tok finsh_token_type_comma) (lexemes nm a @ l # ls) q1" by blast
  then have r1: "reached p k (lexemes nm a @ l # ls) q1" using reached_trans [OF q] by fastforce
  have pa: "parses y nm Assign_expr stops a" using Cons.prems(1) by simp
  have "nodes_used p + k + nodes a \<le> FINSH_NODE_MAX" using Cons.prems(4) n by simp
  from parsesD [OF pa r1 Cons.prems(3) this l(2)] obtain q2 where
    q2: "yields Assign_expr q1 (tree a NULL, q2)" "reached p (k + nodes a) (l # ls) q2" by blast
  have "\<exists>r. yields (Param_loop (ns @ [tree a NULL])) q2 (link_nodes ((ns @ [tree a NULL]) @ map (\<lambda>a. tree a NULL) as), r)
    \<and> reached p (k + nodes a + node_count (trees as)) (Tok finsh_token_type_right_paren # rest) r"
    using Cons.prems q2(2) n by (intro Cons.IH) (auto simp: l(1))
  then obtain r where r: "yields (Param_loop (ns @ [tree a NULL])) q2 (link_nodes (ns @ map (\<lambda>a. tree a NULL) (a # as)), r)"
    "reached p (k + node_count (trees (a # as))) (Tok finsh_token_type_right_paren # rest) r" by (auto simp: node_count_tree [of a "trees as"] add.assoc)
  have "yields (Param_loop ns) q (link_nodes (ns @ map (\<lambda>a. tree a NULL) (a # as)), r)"
    using yields_params_step [of q q1, OF _ q2(1) _ r(1)] q1 by simp
  then show ?case using r(2) by blast
qed

text \<open>The arguments in parentheses, and the node of the call.\<close>

lemma call_arguments:
  assumes as: "\<And>a. a \<in> set as \<Longrightarrow> parses y nm Assign_expr stops a"
    and q: "reached p k (Tok finsh_token_type_left_paren # tl (more_lexemes nm as) @ Tok finsh_token_type_right_paren # rest) q"
    and p: "symbols p = y" "nodes_used p + (k + node_count (trees as)) < FINSH_NODE_MAX" and f: "f \<noteq> NULL"
  shows "\<exists>q1. reached p (Suc (k + node_count (trees as))) rest q1
    \<and> (\<forall>r. yields (Postfix_loop (Node (sys_node FINSH_NODE_SYS_FUNC) (set_sibling f (trees as)) NULL)) q1 r \<longrightarrow> yields (Postfix_loop f) q r)"
proof -
  from reached_next [OF q] obtain q1 where
    q1: "takes q (Tok finsh_token_type_left_paren) (tl (more_lexemes nm as) @ Tok finsh_token_type_right_paren # rest) q1" by blast
  then have r1: "reached p k (tl (more_lexemes nm as) @ Tok finsh_token_type_right_paren # rest) q1" using reached_trans [OF q] by fastforce
  show ?thesis
  proof (cases as)
    case Nil
    have r1': "reached p k (Tok finsh_token_type_right_paren # rest) q1" using r1 Nil by simp
    from reached_next [OF r1'] obtain q2 where q2: "takes q1 (Tok finsh_token_type_right_paren) rest q2" by blast
    then have "reached p k rest q2" using reached_trans [OF r1'] by fastforce
    from make_sys_node_reached [OF this _ f, of FINSH_NODE_SYS_FUNC NULL] p(2) Nil obtain q3 where
      q3: "make_sys_node FINSH_NODE_SYS_FUNC f NULL q2 = (Node (sys_node FINSH_NODE_SYS_FUNC) (set_sibling f NULL) NULL, q3)"
        "reached p (Suc k) rest q3" by (auto simp: new_info_sys_node(1))
    show ?thesis using yields_call_empty [of q q1 q2, OF _ _ q3(1)] q1 q2 q3(2) Nil by fastforce
  next
    case (Cons a bs)
    obtain l ls where l: "more_lexemes nm bs @ Tok finsh_token_type_right_paren # rest = l # ls" "stops (lexeme_type l)"
      using more_lexemes_head by blast
    have r1': "reached p k (lexemes nm a @ l # ls) q1" using r1 by (simp add: Cons flip: l(1))
    obtain h hs where h: "lexemes nm a = h # hs" "starts_expr (lexeme_type h)" using lexemes_start by blast
    from reached_next [of p k h "hs @ l # ls" q1] r1' obtain q2 where q2: "takes q1 h (hs @ l # ls) q2" by (auto simp: h(1))
    have ht: "lexeme_type h \<noteq> finsh_token_type_right_paren" using h(2) by (auto simp: starts_expr_def)
    have "reached p k (lexemes nm a @ l # ls) (replay_token q2)" using reached_trans [OF r1' reached_replay [OF q2]] h(1) by simp
    from parsesD [OF as [of a] this p(1) _ l(2)] p(2) obtain q3 where
      q3: "yields Assign_expr (replay_token q2) (tree a NULL, q3)" "reached p (k + nodes a) (l # ls) q3"
      by (auto simp: Cons node_count_tree [of a "trees bs"])
    obtain q4 where q4: "yields (Param_loop [tree a NULL]) q3 (link_nodes ([tree a NULL] @ map (\<lambda>a. tree a NULL) bs), q4)"
        "reached p (k + nodes a + node_count (trees bs)) (Tok finsh_token_type_right_paren # rest) q4"
      using params_loop [of bs y nm p "k + nodes a" rest q3 "[tree a NULL]"] as q3(2) p
      by (auto simp: Cons l(1) node_count_tree [of a "trees bs"])
    have "yields Param_list (replay_token q2) (trees as, q4)"
      using yields_params [OF q3(1) _ q4(1)] link_trees [of as] by (simp add: Cons)
    moreover from reached_next [OF q4(2)] obtain q5 where q5: "takes q4 (Tok finsh_token_type_right_paren) rest q5" by blast
    moreover have "match_token finsh_token_type_right_paren q4 = Some q5" using q5 by (simp add: match_token_def check_token_def)
    moreover have "reached p (k + node_count (trees as)) rest q5"
      using reached_trans [OF q4(2), of 0 rest q5] q5 by (simp add: Cons node_count_tree [of a "trees bs"] add.assoc)
    from make_sys_node_reached [OF this p(2) f, of FINSH_NODE_SYS_FUNC "trees as"] obtain q6 where
      q6: "make_sys_node FINSH_NODE_SYS_FUNC f (trees as) q5 = (Node (sys_node FINSH_NODE_SYS_FUNC) (set_sibling f (trees as)) NULL, q6)"
        "reached p (Suc (k + node_count (trees as))) rest q6" by (auto simp: new_info_sys_node(1))
    ultimately show ?thesis using yields_call [of q q1 "lexeme_type h" q2, OF _ _ ht _ _ q6(1)] q1 q2 by auto
  qed
qed

lemma parses_apply:
  assumes as: "\<And>a. a \<in> set as \<Longrightarrow> parses y nm Assign_expr stops a"
    and f: "f \<noteq> 0" "find_symbol (nm f) y = Some (FINSH_IDTYPE_SYSCALL, f)"
  shows "parses y nm Cast_expr ends_postfix (Apply f as)"
  unfolding parses_def
proof (intro allI impI)
  fix p :: finsh_parser and l rest
  let ?e = "Apply f as" and ?f = "Node (id_node FINSH_IDTYPE_SYSCALL f) NULL NULL"
  let ?ls = "Tok finsh_token_type_left_paren # tl (more_lexemes nm as) @ Tok finsh_token_type_right_paren # l # rest"
  assume a: "ahead (lexemes nm ?e @ l # rest) (token p)" "symbols p = y" "nodes_used p + nodes ?e \<le> FINSH_NODE_MAX" "ends_postfix (lexeme_type l)"
  have "reached p 0 (Name (nm f) # ?ls) p" using a(1) by (simp add: reached_refl del: ahead.simps)
  from reached_next [OF this] obtain q where q: "takes p (Name (nm f)) ?ls q" by blast
  have "nodes_used p + 0 < FINSH_NODE_MAX" using a(3) by simp
  with q new_node_reached [of p 0 _ q "id_node FINSH_IDTYPE_SYSCALL f"] obtain q1 where
    q1: "new_node (id_node FINSH_IDTYPE_SYSCALL f) q = (?f, q1)" "reached p 1 ?ls q1" by auto
  have n: "nodes ?e = Suc (1 + node_count (trees as))" by simp
  obtain q2 where q2: "reached p (nodes ?e) (l # rest) q2"
      "\<And>r. yields (Postfix_loop (tree ?e NULL)) q2 r \<Longrightarrow> yields (Postfix_loop ?f) q1 r"
    using call_arguments [OF as q1(2) a(2), of ?f] a(3) n by auto
  from reached_next [OF q2(1)] obtain r where r: "takes q2 l rest r" by blast
  have "yields (Postfix_loop (tree ?e NULL)) q2 (tree ?e NULL, replay_token r)" using yields_postfix_exit r a(4) by blast
  then have "yields Cast_expr p (tree ?e NULL, replay_token r)"
    using yields_cast_primary [OF q, of ?f q1] primary_name [OF q, of FINSH_IDTYPE_SYSCALL f] f a(2) q1(1) q2(2)
    by (simp add: starts_primary_def)
  moreover have "reached p (nodes ?e) (l # rest) (replay_token r)" using reached_trans [OF q2(1) reached_replay [OF r]] by simp
  ultimately show "\<exists>q. yields Cast_expr p (tree ?e NULL, q) \<and> reached p (nodes ?e) (l # rest) q" by blast
qed

section \<open>All expressions\<close>

lemma unary_types:
  "unary_type finsh_token_type_bitwise = Some FINSH_NODE_SYS_BITWISE" "unary_type finsh_token_type_mul = Some FINSH_NODE_SYS_GETVALUE"
  "unary_type finsh_token_type_and = Some FINSH_NODE_SYS_GETADDR"
  "unary_type (step_token f) = Some (step_type f FINSH_NODE_SYS_PREINC FINSH_NODE_SYS_PREDEC)"
  by (simp_all add: unary_type_def)

definition reads_all :: "finsh_symbols \<Rightarrow> (u32 \<Rightarrow> u8 list) \<Rightarrow> expr \<Rightarrow> bool" where
  "reads_all y nm e \<longleftrightarrow> (prec e = 0 \<longrightarrow> parses y nm Cast_expr ends_postfix e)
     \<and> (\<forall>lv. prec e \<le> lv \<longrightarrow> 1 \<le> lv \<longrightarrow> lv \<le> 6 \<longrightarrow> feeds y nm lv e) \<and> parses y nm Assign_expr stops e"

lemma reads_all_cast: "parses y nm Cast_expr ends_postfix e \<Longrightarrow> reads_all y nm e"
  by (simp add: reads_all_def feeds_cast parses_assign)

lemma reads_all_deref: "reads_all y nm a \<Longrightarrow> prec a = 0 \<Longrightarrow> parses y nm Cast_expr ends_postfix (Deref a)"
  by (rule parses_unary [OF _ unary_types(2)]) (auto simp: reads_all_def)

lemma reads_all_op:
  assumes "reads_all y nm a" "reads_all y nm b" "prec a \<le> op_level f" "prec b < op_level f"
  shows "reads_all y nm (Op f a b)"
proof -
  let ?lv = "op_level f"
  have a: "feeds y nm ?lv a" using assms(1,3) op_level_bounds [of f] by (simp add: reads_all_def)
  have b: "parses y nm (lower_expr ?lv) (follow (?lv - 1)) b"
  proof (cases "?lv = 1")
    case True
    moreover have "follow 0 = ends_postfix" by (auto simp: follow_def fun_eq_iff)
    ultimately show ?thesis using assms(2,4) by (simp add: lower_expr_def reads_all_def)
  next
    case False
    then have "1 \<le> ?lv - 1" "?lv - 1 \<le> 6" "prec b \<le> ?lv - 1" using op_level_bounds [of f] assms(4) by auto
    then show ?thesis using assms(2) False feeds_parses [of y nm "?lv - 1" b] by (simp add: lower_expr_def reads_all_def)
  qed
  have "feeds y nm lv (Op f a b)" if "?lv \<le> lv" for lv
    using feeds_up [OF feeds_op [OF a b refl] _ that] op_level_bounds [of f] by simp
  then show ?thesis using op_level_bounds [of f] by (simp add: reads_all_def parses_assign)
qed

lemma reads_all_assign:
  assumes "parses y nm Cast_expr ends_postfix x" "reads_all y nm a" "prec e = 7"
    "lexemes nm e = lexemes nm x @ Tok finsh_token_type_assign # lexemes nm a"
    "tree e NULL = Node (sys_node FINSH_NODE_SYS_ASSIGN) (tree x (tree a NULL)) NULL"
  shows "reads_all y nm e"
  using parses_assign_eq [OF feeds_cast [OF assms(1)] _ assms(4,5)] assms(2,3) by (simp add: reads_all_def)

lemma unbracketed_reads: "unbracketed y nm e \<Longrightarrow> reads_all y nm e"
proof (induction e)
  case (Num u)
  have "parses y nm Cast_expr ends_postfix (Num u)"
  proof (rule parses_leaf [of nm _ "Number u"])
    fix p ls q assume "takes p (Number u) ls q"
    from primary_number [OF this] show "primary_token (lexeme_type (Number u)) q = Some (new_node ((sys_node FINSH_NODE_VALUE_INT)\<lparr>node_value := u\<rparr>) q)" by simp
  qed (simp_all add: starts_primary_def)
  then show ?case by (rule reads_all_cast)
next
  case (Chr c)
  have "parses y nm Cast_expr ends_postfix (Chr c)"
  proof (rule parses_leaf [of nm _ "Letter c"])
    fix p ls q assume "takes p (Letter c) ls q"
    from primary_letter [OF this] show "primary_token (lexeme_type (Letter c)) q = Some (new_node ((sys_node FINSH_NODE_VALUE_CHAR)\<lparr>node_value := ucast c\<rparr>) q)" by simp
  qed (simp_all add: starts_primary_def)
  then show ?case by (rule reads_all_cast)
next
  case (Var v)
  then show ?case by (intro reads_all_cast parses_var) auto
next
  case (Op f a b)
  then show ?case by (intro reads_all_op) auto
next
  case (Not a)
  then have "parses y nm Cast_expr ends_postfix a" by (simp add: reads_all_def)
  then show ?case by (intro reads_all_cast) (rule parses_unary [OF _ unary_types(1)], auto)
next
  case (Assign v a)
  then show ?case by (auto intro!: reads_all_assign [OF parses_var, of v nm y a])
next
  case (Pre f v)
  then have "parses y nm Cast_expr ends_postfix (Var v)" by (intro parses_var) auto
  then show ?case by (intro reads_all_cast) (rule parses_unary [OF _ unary_types(4) [of f]], auto)
next
  case (Post f v)
  then show ?case by (intro reads_all_cast parses_post) auto
next
  case (Deref a)
  then show ?case by (auto intro!: reads_all_cast [OF reads_all_deref])
next
  case (AddrOf v)
  then have "parses y nm Cast_expr ends_postfix (Var v)" by (intro parses_var) auto
  then show ?case by (intro reads_all_cast) (rule parses_unary [OF _ unary_types(3)], auto)
next
  case (Store a b)
  then show ?case by (auto intro!: reads_all_assign [OF reads_all_deref, of y nm a b])
next
  case (Apply f as)
  then have "parses y nm Assign_expr stops a" if "a \<in> set as" for a using that by (auto simp: reads_all_def)
  then show ?case using Apply.prems by (intro reads_all_cast parses_apply) auto
qed

section \<open>Lines\<close>

text \<open>A line of expressions, each ended by a semicolon.\<close>

fun line_lexemes :: "(u32 \<Rightarrow> u8 list) \<Rightarrow> (width \<times> expr) list \<Rightarrow> lexeme list" where
  "line_lexemes nm [] = [Tok finsh_token_type_eof]"
| "line_lexemes nm ((w, e) # ps) = lexemes nm e @ Tok finsh_token_type_semicolon # line_lexemes nm ps"

lemma link_line: "link_nodes (map (\<lambda>(w, e). tree e NULL) ps) = line_tree ps"
  by (induction ps) auto

lemma line_tree_count: "node_count (line_tree ((w, e) # ps)) = nodes e + node_count (line_tree ps)"
  using node_count_tree [of e "line_tree ps"] by simp

lemma statement_reads:
  assumes e: "unbracketed y nm e" and q: "takes p l ls q" "lexemes nm e @ Tok finsh_token_type_semicolon # rest = l # ls"
    and p: "symbols p = y" "nodes_used p + nodes e \<le> FINSH_NODE_MAX"
  shows "\<exists>r. (\<forall>\<^sub>F n in sequentially. statement n (lexeme_type l) (replay_token q) = Some ([tree e NULL], r)) \<and> reached p (nodes e) rest r"
proof -
  obtain h hs where h: "lexemes nm e = h # hs" "starts_expr (lexeme_type h)" using lexemes_start by blast
  have l: "starts_expr (lexeme_type l)" using h q(2) by simp
  then have t: "lexeme_type l \<noteq> finsh_token_type_semicolon" "\<not> is_base_type (lexeme_type l)" "lexeme_type l \<noteq> finsh_token_type_unsigned"
    by (auto simp: starts_expr_def is_base_type_def)
  note q' = takes_replay [OF q(1)]
  have r0: "reached p 0 (lexemes nm e @ Tok finsh_token_type_semicolon # rest) (replay_token q)" using reached_replay [OF q(1)] q(2) by simp
  have pa: "parses y nm Assign_expr stops e" using unbracketed_reads [OF e] by (simp add: reads_all_def)
  from parsesD [OF pa r0 p(1) _] p(2) stops_tokens(3) obtain q1 where
    q1: "yields Assign_expr (replay_token q) (tree e NULL, q1)" "reached p (nodes e) (Tok finsh_token_type_semicolon # rest) q1" by auto
  from reached_next [OF q1(2)] obtain r where r: "takes q1 (Tok finsh_token_type_semicolon) rest r" by blast
  have m: "match_token finsh_token_type_semicolon q1 = Some r" using r by (simp add: match_token_def check_token_def)
  have "\<forall>\<^sub>F n in sequentially. statement n (lexeme_type l) (replay_token q) = Some ([tree e NULL], r)"
    using q1(1) by eventually_elim (use q' t m in \<open>simp add: statement_def proc_expr_statement_def proc_expr_def\<close>)
  then show ?thesis using r reached_trans [OF q1(2), of 0 rest r] by auto
qed

text \<open>The list of statements grows by one, and the last of them is the one the next is put behind.\<close>

lemma parser_loop_reads:
  assumes "\<forall>(w, e) \<in> set ps. unbracketed y nm e" "reached p k (line_lexemes nm ps) q" "symbols p = y"
    "nodes_used p + k + node_count (line_tree ps) \<le> FINSH_NODE_MAX"
    and "root = [] \<and> ps \<noteq> [] \<and> c = 0 \<or> root \<noteq> [] \<and> length root = Suc c"
  shows "\<exists>t q1 r. next_token q = Some (t, q1)
     \<and> (\<forall>\<^sub>F n in sequentially. parser_loop n t root c q1 = Some (root @ map (\<lambda>(w, e). tree e NULL) ps, r))
     \<and> symbols r = y \<and> string_heap r = string_heap p \<and> parser_ram r = parser_ram p \<and> global_errno (token r) = global_errno (token p)"
  using assms
proof (induction ps arbitrary: k q root c)
  case Nil
  from Nil.prems(2) have "reached p k [Tok finsh_token_type_eof] q" by simp
  from reached_next [OF this] obtain r where r: "takes q (Tok finsh_token_type_eof) [] r" by blast
  have "\<forall>\<^sub>F n in sequentially. parser_loop n finsh_token_type_eof root c r = Some (root, r)"
    by (subst eventually_sequentially_Suc [symmetric]) simp
  then show ?case using r Nil.prems(2,3) by (auto simp: reached_def)
next
  case (Cons we ps)
  obtain w e where we: "we = (w, e)" by (cases we)
  obtain h hs where h: "lexemes nm e = h # hs" "starts_expr (lexeme_type h)" using lexemes_start by blast
  let ?ls = "hs @ Tok finsh_token_type_semicolon # line_lexemes nm ps"
  have q: "reached p k (h # ?ls) q" using Cons.prems(2) by (simp add: we h(1))
  from reached_next [OF q] obtain q1 where q1: "takes q h ?ls q1" by blast
  have y: "symbols q = y" "nodes_used q = nodes_used p + k" using q Cons.prems(3) by (auto simp: reached_def)
  have n: "node_count (line_tree (we # ps)) = nodes e + node_count (line_tree ps)" by (simp only: we line_tree_count)
  from statement_reads [OF _ q1, of y nm e "line_lexemes nm ps"] y n Cons.prems(1,4) h(1) we obtain r where
    r: "\<forall>\<^sub>F n in sequentially. statement n (lexeme_type h) (replay_token q1) = Some ([tree e NULL], r)" "reached q (nodes e) (line_lexemes nm ps) r"
    by auto
  let ?root = "root @ [tree e NULL]" and ?c = "if root = [] then 0 else Suc c"
  have r2: "reached p (k + nodes e) (line_lexemes nm ps) r" using reached_trans [OF q r(2)] .
  have "\<exists>t r1 s. next_token r = Some (t, r1)
     \<and> (\<forall>\<^sub>F n in sequentially. parser_loop n t ?root ?c r1 = Some (?root @ map (\<lambda>(w, e). tree e NULL) ps, s))
     \<and> symbols s = y \<and> string_heap s = string_heap p \<and> parser_ram s = parser_ram p \<and> global_errno (token s) = global_errno (token p)"
    using Cons.prems(1,3-5) n by (intro Cons.IH [OF _ r2]) auto
  then obtain t r1 s where s: "next_token r = Some (t, r1)"
      "\<forall>\<^sub>F n in sequentially. parser_loop n t ?root ?c r1 = Some (?root @ map (\<lambda>(w, e). tree e NULL) ps, s)"
      "symbols s = y \<and> string_heap s = string_heap p \<and> parser_ram s = parser_ram p \<and> global_errno (token s) = global_errno (token p)" by blast
  have ht: "lexeme_type h \<noteq> finsh_token_type_eof" "lexeme_type h \<noteq> finsh_token_type_bad" using h(2) by (auto simp: starts_expr_def)
  have root: "(if root = [] then [tree e NULL] else take (c + 1) root @ [tree e NULL]) = ?root" using Cons.prems(5) by auto
  have c: "(if root = [] then c else c + 1) = ?c" using Cons.prems(5) by auto
  have "\<forall>\<^sub>F n in sequentially. parser_loop (Suc n) (lexeme_type h) root c q1 = Some (?root @ map (\<lambda>(w, e). tree e NULL) ps, s)"
    using r(1) s(2)
  proof eventually_elim
    case (elim n)
    then show ?case using s(1) by (simp add: ht root c Let_def del: take_Suc_conv_app_nth)
  qed
  then have "\<forall>\<^sub>F n in sequentially. parser_loop n (lexeme_type h) root c q1 = Some (?root @ map (\<lambda>(w, e). tree e NULL) ps, s)"
    by (subst (asm) eventually_sequentially_Suc)
  then show ?case using q1 s(3) by (auto simp: we)
qed

end
