(* ===== verification/RT_FinshScan.thy ===== *)
theory RT_FinshScan
  imports RT_FinshRead
begin

text \<open>
  The scanner of the shell finds the lexemes of a text again: the text of each lexeme is followed by one
  space.
\<close>

section \<open>The text of lexemes\<close>

text \<open>The digits of a number in base 10, the highest first.\<close>

fun decimal :: "nat \<Rightarrow> u8 list" where
  "decimal n = (if n < 10 then [48 + of_nat n] else decimal (n div 10) @ [48 + of_nat (n mod 10)])"

declare decimal.simps [simp del]

definition token_chars :: "(finsh_token_type \<times> u8 list) list" where
  "token_chars =
    [(finsh_token_type_left_paren, [40]), (finsh_token_type_right_paren, [41]), (finsh_token_type_comma, [44]),
     (finsh_token_type_semicolon, [59]), (finsh_token_type_and, [38]), (finsh_token_type_mul, [42]), (finsh_token_type_or, [124]),
     (finsh_token_type_mod, [37]), (finsh_token_type_bitwise, [126]), (finsh_token_type_xor, [94]), (finsh_token_type_assign, [61]),
     (finsh_token_type_inc, [43, 43]), (finsh_token_type_add, [43]), (finsh_token_type_dec, [45, 45]), (finsh_token_type_sub, [45]),
     (finsh_token_type_div, [47]), (finsh_token_type_shl, [60, 60]), (finsh_token_type_shr, [62, 62])]"

fun lexeme_text :: "lexeme \<Rightarrow> u8 list" where
  "lexeme_text (Tok t) = (case map_of token_chars t of Some cs \<Rightarrow> cs | None \<Rightarrow> [])"
| "lexeme_text (Number u) = decimal (unat u)"
| "lexeme_text (Letter c) = [39, c, 39]"
| "lexeme_text (Name n) = n"

definition good_name :: "u8 list \<Rightarrow> bool" where
  "good_name n \<longleftrightarrow> n \<noteq> [] \<and> length n < FINSH_NAME_MAX \<and> \<not> is_digit (hd n) \<and> (\<forall>c \<in> set n. \<not> is_separator c)
     \<and> map_of finsh_name_table n = None"

fun scannable :: "lexeme \<Rightarrow> bool" where
  "scannable (Tok t) = (map_of token_chars t \<noteq> None)"
| "scannable (Number u) = True"
| "scannable (Letter c) = (c \<noteq> 0 \<and> c \<noteq> 10 \<and> c \<noteq> 39 \<and> c \<noteq> 92)"
| "scannable (Name n) = good_name n"

definition lexemes_text :: "lexeme list \<Rightarrow> u8 list" where
  "lexemes_text ls = concat (map (\<lambda>l. lexeme_text l @ [32]) ls)"

section \<open>Positions\<close>

text \<open>The scanner stands in front of \<open>rest\<close>.\<close>

definition scans :: "finsh_token \<Rightarrow> u8 list \<Rightarrow> bool" where
  "scans s rest \<longleftrightarrow> \<not> eof s \<and> \<not> replay s \<and> position s \<le> length (line s) \<and> drop (position s) (line s) = rest
     \<and> length (token_string s) = 128"

definition adv :: "nat \<Rightarrow> finsh_token \<Rightarrow> finsh_token" where
  "adv k s = s\<lparr>position := position s + k\<rparr>"

lemma adv_fields [simp]:
  "eof (adv k s) = eof s" "replay (adv k s) = replay s" "line (adv k s) = line s" "token_string (adv k s) = token_string s"
  "token_value (adv k s) = token_value s" "global_errno (adv k s) = global_errno s" "current_token (adv k s) = current_token s"
  "adv j (adv k s) = adv (k + j) s" "adv 0 s = s"
  by (simp_all add: adv_def add.assoc)

lemma eof_same [simp]: "\<not> eof s \<Longrightarrow> s\<lparr>eof := False\<rparr> = s"
  by (cases s) simp

lemma scans_adv: "scans s (cs @ rest) \<Longrightarrow> length cs = k \<Longrightarrow> scans (adv k s) rest"
proof -
  assume a: "scans s (cs @ rest)" "length cs = k"
  then have l: "length (drop (position s) (line s)) = k + length rest" by (simp add: scans_def)
  have "drop k (drop (position s) (line s)) = rest" using a by (simp add: scans_def)
  then have "drop (position s + k) (line s) = rest" by (simp add: add.commute)
  moreover have "position s \<le> length (line s)" using a(1) by (simp add: scans_def)
  then have "position s + k \<le> length (line s)" using l by simp
  ultimately show ?thesis using a(1) by (simp add: scans_def adv_def)
qed

lemma next_char: "scans s (c # cs) \<Longrightarrow> c \<noteq> 10 \<Longrightarrow> token_next_char s = Some (c, adv (Suc 0) s)"
proof -
  assume a: "scans s (c # cs)" "c \<noteq> 10"
  then have "drop (position s) (line s) \<noteq> []" by (simp add: scans_def)
  then have "position s < length (line s)" by simp
  moreover from this have "line s ! position s = c" using a(1) by (metis Cons_nth_drop_Suc list.inject scans_def)
  ultimately show ?thesis using a by (simp add: token_next_char_def scans_def adv_def)
qed

lemma scans_Cons: "scans s (c # cs) \<Longrightarrow> scans (adv (Suc 0) s) cs"
  using scans_adv [of s "[c]" cs 1] by simp

lemma prev_adv: "\<not> eof s \<Longrightarrow> token_prev_char (adv (Suc k) s) = adv k s"
  by (simp add: token_prev_char_def adv_def)

lemma read_while_stop: "\<not> P c \<Longrightarrow> read_while P buf c s = Some (buf, c, s)"
  by (subst read_while.simps) simp

lemma read_while_text:
  "scans s (cs @ d # rest) \<Longrightarrow> P c \<Longrightarrow> \<forall>x \<in> set cs. P x \<and> x \<noteq> 10 \<Longrightarrow> \<not> P d \<Longrightarrow> d \<noteq> 10
    \<Longrightarrow> read_while P buf c s = Some (buf @ c # cs, d, adv (Suc (length cs)) s)"
proof (induction cs arbitrary: buf c s)
  case Nil
  then have "token_next_char s = Some (d, adv (Suc 0) s)" "\<not> eof s" using next_char by (auto simp: scans_def)
  then show ?case using Nil by (subst read_while.simps) (simp add: read_while_stop)
next
  case (Cons x cs)
  have n: "token_next_char s = Some (x, adv (Suc 0) s)" "\<not> eof s" using next_char [of s x] Cons.prems by (auto simp: scans_def)
  have "read_while P (buf @ [c]) x (adv (Suc 0) s) = Some ((buf @ [c]) @ x # cs, d, adv (Suc (length cs)) (adv (Suc 0) s))"
    using Cons.prems scans_Cons [of s x "cs @ d # rest"] by (intro Cons.IH) auto
  then show ?case using n Cons.prems(2) by (subst read_while.simps) simp
qed

definition blank :: "u8 \<Rightarrow> bool" where
  "blank c \<longleftrightarrow> c = 32 \<or> c = 9 \<or> c = 13"

lemma trim_none: "scans s (c # cs) \<Longrightarrow> \<not> blank c \<Longrightarrow> c \<noteq> 10 \<Longrightarrow> token_trim_space s = Some s"
  using prev_adv [of s 0] by (subst token_trim_space.simps) (simp add: next_char blank_def scans_def)

lemma trim_space: "scans s (32 # c # cs) \<Longrightarrow> \<not> blank c \<Longrightarrow> c \<noteq> 10 \<Longrightarrow> token_trim_space s = Some (adv (Suc 0) s)"
  using trim_none [OF scans_Cons, of s 32 c cs] by (subst token_trim_space.simps) (simp add: next_char scans_def)

lemma trim_end:
  assumes e: "scans s []"
  shows "token_trim_space s = Some (s\<lparr>eof := True, position := 0\<rparr>)"
proof -
  have "position s = length (line s)" using e by (simp add: scans_def)
  then have n: "token_next_char s = Some (0, s\<lparr>eof := True, position := 0\<rparr>)" using e by (simp add: token_next_char_def scans_def)
  show ?thesis by (subst token_trim_space.simps) (simp add: n token_prev_char_def)
qed

section \<open>Tokens\<close>

text \<open>What reading one lexeme in front of a space leaves.\<close>

definition scanned :: "finsh_token \<Rightarrow> lexeme \<Rightarrow> u8 list \<Rightarrow> finsh_token \<Rightarrow> bool" where
  "scanned s l rest s' \<longleftrightarrow> scans s' (32 # rest) \<and> current_token s' = lexeme_type l \<and> lexeme_value l s' \<and> global_errno s' = global_errno s"

lemma get_string_other:
  assumes s: "scans s (c # cs)" and c: "c \<noteq> 10" "is_digit c \<or> is_separator c"
  shows "token_get_string s = Some (s\<lparr>token_string := (token_string s)[0 := 0]\<rparr>)"
proof -
  let ?s = "s\<lparr>token_string := (token_string s)[0 := 0]\<rparr>"
  have e: "\<not> eof s" "length (token_string s) = 128" using s by (simp_all add: scans_def)
  have n: "token_next_char s = Some (c, adv (Suc 0) s)" using next_char [OF s c(1)] .
  have u: "(adv (Suc 0) s)\<lparr>token_string := v\<rparr> = adv (Suc 0) (s\<lparr>token_string := v\<rparr>)" for v by (simp add: adv_def)
  have p: "token_prev_char (adv (Suc 0) ?s) = ?s" using prev_adv [of ?s 0] e by simp
  have z: "0 # drop (Suc 0) ((token_string s)[0 := 0]) = (token_string s)[0 := 0]" using e by (cases "token_string s") auto
  show ?thesis
  proof (cases "is_digit c")
    case True
    then show ?thesis using n e p by (simp add: token_get_string_def u)
  next
    case False
    then have "read_while (\<lambda>c. \<not> is_separator c) [] c (adv (Suc 0) ?s) = Some ([], c, adv (Suc 0) ?s)"
      using c(2) by (simp add: read_while_stop)
    moreover have "token_string s \<noteq> []" using e by auto
    ultimately show ?thesis using n e p False z by (simp add: token_get_string_def u put_string_def)
  qed
qed

lemma get_string_name:
  assumes s: "scans s (n @ 32 # rest)" and n: "good_name n"
  shows "\<exists>v. token_get_string s = Some ((adv (length n) s)\<lparr>token_string := n @ 0 # v\<rparr>) \<and> length (n @ 0 # v) = 128"
proof -
  obtain c cs where nc: "n = c # cs" using n by (cases n) (auto simp: good_name_def)
  have e: "\<not> eof s" "length (token_string s) = 128" using s by (simp_all add: scans_def)
  have no10: "\<forall>x \<in> set n. x \<noteq> 10" using n by (auto simp: good_name_def is_separator_def)
  have n1: "token_next_char s = Some (c, adv (Suc 0) s)" using next_char [of s c] s no10 nc by auto
  let ?s = "s\<lparr>token_string := (token_string s)[0 := 0]\<rparr>"
  have u: "(adv k s)\<lparr>token_string := v\<rparr> = adv k (s\<lparr>token_string := v\<rparr>)" for k v by (simp add: adv_def)
  have "scans ?s (n @ 32 # rest)" using s by (simp add: scans_def)
  then have sc: "scans (adv (Suc 0) ?s) (cs @ 32 # rest)" using scans_Cons nc by simp
  have sep: "\<not> is_separator c" "\<forall>x \<in> set cs. \<not> is_separator x \<and> x \<noteq> 10" "is_separator 32" "\<not> is_digit c"
    using n nc no10 by (auto simp: good_name_def is_separator_def)
  have "read_while (\<lambda>c. \<not> is_separator c) [] c (adv (Suc 0) ?s) = Some (n, 32, adv (Suc (length n)) ?s)"
    using read_while_text [OF sc, of "\<lambda>c. \<not> is_separator c" c "[]"] sep nc by simp
  moreover have "token_prev_char ((adv (Suc (length n)) ?s)\<lparr>eof := False\<rparr>) = adv (length n) ?s"
    using prev_adv [of ?s "length n"] e by simp
  moreover have "put_string n (adv (length n) ?s) = Some ((adv (length n) s)\<lparr>token_string := n @ 0 # drop (length n + 1) ((token_string s)[0 := 0])\<rparr>)"
    using n e by (simp add: put_string_def good_name_def FINSH_NAME_MAX_def adv_def)
  ultimately have "token_get_string s = Some ((adv (length n) s)\<lparr>token_string := n @ 0 # drop (length n + 1) ((token_string s)[0 := 0])\<rparr>)"
    using n1 e sep by (simp add: token_get_string_def u)
  then show ?thesis using n e by (auto simp: good_name_def FINSH_NAME_MAX_def)
qed

lemma run_name:
  assumes s: "scans s (n @ 32 # rest)" and n: "good_name n"
  shows "\<exists>s'. token_run s = Some s' \<and> scanned s (Name n) rest s'"
proof -
  obtain c cs where nc: "n = c # cs" using n by (cases n) (auto simp: good_name_def)
  have "\<not> is_separator c" using n nc by (simp add: good_name_def)
  then have c: "\<not> blank c" "c \<noteq> 10" by (auto simp: blank_def is_separator_def)
  have t: "token_trim_space s = Some s" using trim_none [of s c] s c nc by simp
  from get_string_name [OF assms] obtain v where v: "token_get_string s = Some ((adv (length n) s)\<lparr>token_string := n @ 0 # v\<rparr>)"
    "length (n @ 0 # v) = 128" by blast
  let ?s = "(adv (length n) s)\<lparr>token_string := n @ 0 # v\<rparr>"
  have "\<forall>x \<in> set n. x \<noteq> 0" using n by (auto simp: good_name_def is_separator_def)
  then have x: "token_text ?s = n" by (simp add: token_text_def takeWhile_append)
  have "token_run s = Some (token_match_name n ?s)" using t v(1) x s nc by (simp add: token_run_def scans_def)
  moreover have "token_match_name n ?s = ?s\<lparr>current_token := finsh_token_type_identifier\<rparr>" using n by (simp add: token_match_name_def good_name_def)
  moreover have "scans ?s (32 # rest)" using scans_adv [OF s refl] v(2) by (simp add: scans_def)
  ultimately show ?thesis using x n by (simp add: scanned_def scans_def token_text_def good_name_def)
qed

text \<open>What is neither a name nor the end is read by \<open>token_operator\<close>.\<close>

lemma run_operator:
  assumes s: "scans s (c # cs)" and c: "c \<noteq> 10" "\<not> blank c" "is_digit c \<or> is_separator c"
    and op: "\<And>s. scans s (c # cs) \<Longrightarrow> \<exists>s'. token_operator s = Some s' \<and> scanned s l rest s'"
  shows "\<exists>s'. token_run s = Some s' \<and> scanned s l rest s'"
proof -
  let ?s = "s\<lparr>token_string := (token_string s)[0 := 0]\<rparr>"
  have e: "\<not> eof s" "length (token_string s) = 128" using s by (simp_all add: scans_def)
  then have x: "token_text ?s = []" by (cases "token_string s") (auto simp: token_text_def)
  have "token_run s = token_operator ?s"
    using trim_none [OF s c(2,1)] get_string_other [OF s c(1,3)] x e by (simp add: token_run_def)
  moreover have "scans ?s (c # cs)" using s by (simp add: scans_def)
  then obtain s' where "token_operator ?s = Some s'" "scanned ?s l rest s'" using op by blast
  ultimately show ?thesis by (simp add: scanned_def)
qed

section \<open>Operators, characters and numbers\<close>

lemma single_scan:
  assumes "scans s (c # 32 # rest)" "single_token c = Some t" "c \<noteq> 10"
  shows "\<exists>s'. token_operator s = Some s' \<and> scanned s (Tok t) rest s'"
proof -
  have "token_operator s = Some ((adv (Suc 0) s)\<lparr>current_token := t\<rparr>)" using next_char [OF assms(1,3)] assms(2) by (simp add: token_operator_def)
  then show ?thesis using scans_Cons [OF assms(1)] by (simp add: scanned_def scans_def)
qed

lemma double_scan:
  assumes d: "double_token c = Some (t2, t1)" "single_token c = None" "c \<noteq> 10" "c \<noteq> 32"
  shows "scans s (c # 32 # rest) \<Longrightarrow> \<exists>s'. token_operator s = Some s' \<and> scanned s (Tok t1) rest s'"
    "scans s (c # c # 32 # rest) \<Longrightarrow> \<exists>s'. token_operator s = Some s' \<and> scanned s (Tok t2) rest s'"
proof -
  assume s: "scans s (c # 32 # rest)"
  have "token_next_char (adv (Suc 0) s) = Some (32, adv (Suc (Suc 0)) s)" using next_char [OF scans_Cons [OF s]] by simp
  moreover have "token_prev_char (adv (Suc (Suc 0)) s) = adv (Suc 0) s" using prev_adv s by (simp add: scans_def)
  ultimately have "token_operator s = Some ((adv (Suc 0) s)\<lparr>current_token := t1\<rparr>)"
    using next_char [OF s d(3)] d by (simp add: token_operator_def)
  then show "\<exists>s'. token_operator s = Some s' \<and> scanned s (Tok t1) rest s'" using scans_Cons [OF s] by (simp add: scanned_def scans_def)
next
  assume s: "scans s (c # c # 32 # rest)"
  have "token_next_char (adv (Suc 0) s) = Some (c, adv (Suc (Suc 0)) s)" using next_char [OF scans_Cons [OF s] d(3)] by simp
  then have "token_operator s = Some ((adv (Suc (Suc 0)) s)\<lparr>current_token := t2\<rparr>)"
    using next_char [OF s d(3)] d by (simp add: token_operator_def)
  then show "\<exists>s'. token_operator s = Some s' \<and> scanned s (Tok t2) rest s'"
    using scans_adv [of s "[c, c]"] s by (simp add: scanned_def scans_def)
qed

lemma run_token:
  assumes t: "map_of token_chars t = Some cs" and s: "scans s (cs @ 32 # rest)"
  shows "\<exists>s'. token_run s = Some s' \<and> scanned s (Tok t) rest s'"
proof -
  obtain c ds where c: "cs = c # ds" "c \<noteq> 10" "c \<noteq> 32" "\<not> blank c" "is_separator c"
    using t by (cases t) (auto simp: token_chars_def blank_def is_separator_def)
  have "single_token c = Some t \<and> ds = []
      \<or> single_token c = None \<and> (\<exists>t2. double_token c = Some (t2, t)) \<and> ds = []
      \<or> single_token c = None \<and> (\<exists>t1. double_token c = Some (t, t1)) \<and> ds = [c]"
    using t c(1) by (cases t) (auto simp: token_chars_def single_token_def double_token_def)
  then have "\<exists>s'. token_operator s = Some s' \<and> scanned s (Tok t) rest s'" if "scans s (c # ds @ 32 # rest)" for s
    using single_scan [of s c rest t] double_scan [of c] that c(2,3) by auto
  then show ?thesis using run_operator [of s c "ds @ 32 # rest" "Tok t" rest] s c by simp
qed

lemma low_byte: "ucast ((u AND 0xFFFFFF00) OR ucast c :: u32) = c" for c :: u8 and u :: u32
proof -
  have z: "(4294967040 :: u8) = 0" by transfer (simp add: take_bit_eq_mod)
  have "ucast ((u AND 0xFFFFFF00) OR ucast c :: u32) = (ucast u AND 4294967040) OR c"
    by (simp add: unsigned_or_eq unsigned_and_eq)
  then show ?thesis unfolding z by simp
qed

lemma run_letter:
  assumes s: "scans s (39 # c # 39 # 32 # rest)" and c: "c \<noteq> 10" "c \<noteq> 92"
  shows "\<exists>s'. token_run s = Some s' \<and> scanned s (Letter c) rest s'"
proof (rule run_operator [OF s])
  fix s :: finsh_token assume s: "scans s (39 # c # 39 # 32 # rest)"
  have 1: "token_next_char s = Some (39, adv (Suc 0) s)" using next_char [OF s] by simp
  have 2: "token_next_char (adv (Suc 0) s) = Some (c, adv (Suc (Suc 0)) s)" using next_char [OF scans_Cons [OF s] c(1)] by simp
  have 3: "token_next_char (adv (Suc (Suc 0)) s) = Some (39, adv (Suc (Suc (Suc 0))) s)"
    using next_char [OF scans_Cons [OF scans_Cons [OF s]]] by simp
  have "token_proc_char (adv (Suc 0) s) = Some (c, adv (Suc (Suc (Suc 0))) s)" using 2 3 c by (simp add: token_proc_char_def)
  then have "token_operator s = Some ((adv (Suc (Suc (Suc 0))) s)\<lparr>token_value := (token_value s AND 0xFFFFFF00) OR ucast c,
      current_token := finsh_token_type_value_char\<rparr>)"
    using 1 by (simp add: token_operator_def single_token_def double_token_def)
  moreover have "scans (adv (Suc (Suc (Suc 0))) s) (32 # rest)" using scans_adv [of s "[39, c, 39]"] s by simp
  ultimately show "\<exists>s'. token_operator s = Some s' \<and> scanned s (Letter c) rest s'"
    using low_byte [of "token_value s" c] by (simp add: scanned_def scans_def)
qed (auto simp: blank_def is_separator_def)

lemma digit_char: "k < 10 \<Longrightarrow> is_digit (48 + of_nat k)" "k < 10 \<Longrightarrow> (ucast (48 + of_nat k :: u8) :: u32) - 48 = of_nat k"
proof -
  assume k: "k < 10"
  then have u: "unat (48 + of_nat k :: u8) = 48 + k" by (simp add: unat_word_ariths unat_of_nat)
  then show "is_digit (48 + of_nat k)" using k by (simp add: is_digit_def word_le_nat_alt)
  have "(ucast (48 + of_nat k :: u8) :: u32) = of_nat (48 + k)" using u by (metis of_nat_unat ucast_id unsigned_of_nat)
  then show "(ucast (48 + of_nat k :: u8) :: u32) - 48 = of_nat k" by simp
qed

lemma decimal_text_digits: "\<forall>c \<in> set (decimal n). is_digit c"
proof (induction n rule: decimal.induct)
  case (1 n)
  then show ?case by (subst decimal.simps) (auto simp: digit_char(1))
qed

lemma decimal_text_value: "fold (\<lambda>c v. v * 10 + (ucast c - 48)) (decimal n) 0 = (of_nat n :: u32)"
proof (induction n rule: decimal.induct)
  case (1 n)
  show ?case
  proof (cases "n < 10")
    case True
    then show ?thesis by (subst decimal.simps) (simp add: digit_char(2))
  next
    case False
    have "of_nat n = (of_nat (n div 10) * 10 + of_nat (n mod 10) :: u32)"
      by (metis div_mult_mod_eq of_nat_add of_nat_mult of_nat_numeral)
    then show ?thesis using 1 False by (subst decimal.simps) (simp add: digit_char(2))
  qed
qed

lemma decimal_head: "0 < n \<Longrightarrow> hd (decimal n) \<noteq> 48 \<and> decimal n \<noteq> []"
proof (induction n rule: decimal.induct)
  case (1 n)
  show ?case
  proof (cases "n < 10")
    case True
    then have "unat (48 + of_nat n :: u8) = 48 + n" by (simp add: unat_word_ariths unat_of_nat)
    then have "(48 + of_nat n :: u8) \<noteq> 48" using 1(2) by auto
    then show ?thesis using True by (subst (1 2) decimal.simps) simp
  next
    case False
    then show ?thesis using 1(1) by (subst (1 2) decimal.simps) (auto simp: hd_append)
  qed
qed

lemma digit_bounds: "is_digit c \<Longrightarrow> c \<noteq> 10 \<and> \<not> blank c \<and> c \<noteq> 39 \<and> c \<noteq> 34 \<and> single_token c = None \<and> double_token c = None"
  by (auto simp: is_digit_def blank_def single_token_def double_token_def)

lemma number_scan:
  assumes s: "scans s (decimal (unat u) @ 32 # rest)"
  shows "\<exists>s'. token_proc_number s = Some s' \<and> scanned s (Number u) rest s'"
proof (cases "u = 0")
  case True
  then have s0: "scans s (48 # 32 # rest)" using s by (simp add: decimal.simps)
  have e: "\<not> eof s" using s by (simp add: scans_def)
  have 1: "token_next_char s = Some (48, adv (Suc 0) s)" using next_char [OF s0] by simp
  have 2: "token_next_char (adv (Suc 0) s) = Some (32, adv (Suc (Suc 0)) s)" using next_char [OF scans_Cons [OF s0]] by simp
  have r: "read_while is_digit [] 32 (adv (Suc (Suc 0)) s) = Some ([], 32, adv (Suc (Suc 0)) s)"
    by (rule read_while_stop) (simp add: is_digit_def)
  let ?upd = "\<lambda>s. s\<lparr>token_value := 0, current_token := finsh_token_type_value_int\<rparr>"
  have p: "token_prev_char (?upd (adv (Suc (Suc 0)) s)) = ?upd (adv (Suc 0) s)"
    using e by (simp add: token_prev_char_def adv_def)
  have "token_proc_number s = Some (?upd (adv (Suc 0) s))"
    using 1 2 r p by (simp add: token_proc_number_def token_spec_number_def number_suffix_def)
  then show ?thesis using scans_Cons [OF s0] True by (simp add: scanned_def scans_def)
next
  case False
  then have "0 < unat u" by (simp add: unat_gt_0)
  then have "hd (decimal (unat u)) \<noteq> 48" "decimal (unat u) \<noteq> []" using decimal_head [of "unat u"] by auto
  then obtain c cs where c: "decimal (unat u) = c # cs" "c \<noteq> 48" by (cases "decimal (unat u)") auto
  have d: "is_digit c" "\<forall>x \<in> set cs. is_digit x \<and> x \<noteq> 10" using decimal_text_digits [of "unat u"] digit_bounds by (auto simp: c(1))
  have e: "\<not> eof s" using s by (simp add: scans_def)
  have 1: "token_next_char s = Some (c, adv (Suc 0) s)" using next_char [of s c] s digit_bounds [OF d(1)] by (simp add: c(1))
  have "scans (adv (Suc 0) s) (cs @ 32 # rest)" using scans_Cons [of s c] s by (simp add: c(1))
  from read_while_text [OF this, of is_digit c "[]"] d have
    r: "read_while is_digit [] c (adv (Suc 0) s) = Some (c # cs, 32, adv (Suc (Suc (length cs))) s)" by (simp add: is_digit_def)
  let ?upd = "\<lambda>s. s\<lparr>token_value := u, current_token := finsh_token_type_value_int\<rparr>"
  have v: "fold (\<lambda>c v. v * 10 + (ucast c - 48)) (c # cs) 0 = u" using decimal_text_value [of "unat u"] by (simp add: c(1))
  have p: "token_prev_char (?upd (adv (Suc (Suc (length cs))) s)) = ?upd (adv (Suc (length cs)) s)"
    using e by (simp add: token_prev_char_def adv_def)
  have "token_proc_number s = Some (?upd (adv (Suc (length cs)) s))"
    using 1 r p v c(2) by (simp add: token_proc_number_def number_suffix_def Let_def)
  moreover have "scans (adv (Suc (length cs)) s) (32 # rest)" using scans_adv [of s "c # cs"] s by (simp add: c(1))
  ultimately show ?thesis by (simp add: scanned_def scans_def)
qed

lemma run_number:
  assumes s: "scans s (decimal (unat u) @ 32 # rest)"
  shows "\<exists>s'. token_run s = Some s' \<and> scanned s (Number u) rest s'"
proof -
  have "decimal (unat u) \<noteq> []" using decimal_head [of "unat u"] by (cases "unat u = 0") (auto simp: decimal.simps)
  then obtain c cs where c: "decimal (unat u) = c # cs" by (cases "decimal (unat u)") auto
  have d: "is_digit c" using decimal_text_digits [of "unat u"] by (simp add: c)
  note b = digit_bounds [OF d]
  have "\<exists>s'. token_operator s = Some s' \<and> scanned s (Number u) rest s'" if s: "scans s (c # cs @ 32 # rest)" for s
  proof -
    have "token_prev_char (adv (Suc 0) s) = s" using prev_adv [of s 0] s by (simp add: scans_def)
    then have "token_operator s = token_proc_number s" using next_char [OF s] b d by (simp add: token_operator_def)
    then show ?thesis using number_scan [of s u rest] s by (simp add: c)
  qed
  then show ?thesis using run_operator [of s c "cs @ 32 # rest" "Number u" rest] s b d by (simp add: c)
qed

section \<open>All lexemes\<close>

lemma run_lexeme:
  assumes "scannable l" "scans s (lexeme_text l @ 32 # rest)"
  shows "\<exists>s'. token_run s = Some s' \<and> scanned s l rest s'"
proof (cases l)
  case (Tok t)
  then obtain cs where "map_of token_chars t = Some cs" using assms(1) by auto
  then show ?thesis using run_token [of t cs s rest] assms(2) Tok by simp
next
  case (Number u)
  then show ?thesis using run_number assms(2) by simp
next
  case (Letter c)
  then show ?thesis using run_letter [of s c rest] assms by simp
next
  case (Name n)
  then show ?thesis using run_name assms by simp
qed

lemma lexeme_head: "scannable l \<Longrightarrow> \<exists>c cs. lexeme_text l = c # cs \<and> \<not> blank c \<and> c \<noteq> 10"
proof (cases l)
  case (Tok t)
  assume "scannable l"
  then show ?thesis using Tok by (cases t) (auto simp: token_chars_def blank_def)
next
  case (Number u)
  have "decimal (unat u) \<noteq> []" using decimal_head [of "unat u"] by (cases "unat u = 0") (auto simp: decimal.simps)
  then show ?thesis using Number decimal_text_digits [of "unat u"] digit_bounds by (cases "decimal (unat u)") auto
next
  case (Letter c)
  then show ?thesis by (simp add: blank_def)
next
  case (Name n)
  assume "scannable l"
  then show ?thesis using Name by (cases n) (auto simp: good_name_def is_separator_def blank_def)
qed

text \<open>A space in front of the lexeme is skipped.\<close>

lemma run_lexeme_space:
  assumes l: "scannable l" and s: "scans s (32 # lexeme_text l @ 32 # rest)"
  shows "\<exists>s'. token_run s = Some s' \<and> scanned s l rest s'"
proof -
  obtain c cs where c: "lexeme_text l = c # cs" "\<not> blank c" "c \<noteq> 10" using lexeme_head [OF l] by blast
  have s1: "scans (adv (Suc 0) s) (lexeme_text l @ 32 # rest)" using scans_Cons [OF s] .
  have "token_trim_space s = Some (adv (Suc 0) s)" using trim_space [of s c] s c by simp
  moreover have "token_trim_space (adv (Suc 0) s) = Some (adv (Suc 0) s)" using trim_none [of "adv (Suc 0) s" c] s1 c by simp
  ultimately have "token_run s = token_run (adv (Suc 0) s)" by (simp add: token_run_def)
  then show ?thesis using run_lexeme [OF l s1] by (simp add: scanned_def)
qed

lemma scanned_token: "\<not> replay s \<Longrightarrow> token_run s = Some s' \<Longrightarrow> finsh_token_token s = Some s'"
  by (simp add: finsh_token_token_def)

text \<open>The end of a line: a semicolon with nothing behind it.\<close>

lemma ahead_end:
  assumes s: "scans s []"
  shows "ahead [Tok finsh_token_type_eof] s"
proof -
  have "token_run s = Some (s\<lparr>eof := True, position := 0, current_token := finsh_token_type_eof\<rparr>)"
    by (simp add: trim_end [OF s] token_run_def token_get_string_def token_next_char_def)
  then show ?thesis using s scanned_token [of s] by (simp add: scans_def)
qed

lemma run_semicolon:
  assumes s: "scans s [59]"
  shows "\<exists>s'. token_run s = Some s' \<and> scans s' [] \<and> current_token s' = finsh_token_type_semicolon \<and> global_errno s' = global_errno s"
proof -
  let ?s = "s\<lparr>token_string := (token_string s)[0 := 0]\<rparr>"
  have e: "\<not> eof s" "length (token_string s) = 128" using s by (simp_all add: scans_def)
  then have x: "token_text ?s = []" by (cases "token_string s") (auto simp: token_text_def)
  have c: "\<not> blank 59" "is_digit 59 \<or> is_separator 59" by (simp_all add: blank_def is_separator_def)
  have s1: "scans ?s [59]" using s by (simp add: scans_def)
  have "token_run s = token_operator ?s"
    using trim_none [OF s c(1)] get_string_other [OF s _ c(2)] x e by (simp add: token_run_def)
  also have "\<dots> = Some ((adv (Suc 0) ?s)\<lparr>current_token := finsh_token_type_semicolon\<rparr>)"
    using next_char [OF s1] by (simp add: token_operator_def single_token_def)
  finally show ?thesis using scans_Cons [OF s1] by (simp add: scans_def)
qed

lemma ahead_semicolon:
  assumes r: "token_run s = token_run s1" "\<not> replay s" "global_errno s1 = global_errno s" and s: "scans s1 [59]"
  shows "ahead [Tok finsh_token_type_semicolon, Tok finsh_token_type_eof] s"
proof -
  obtain s' where s': "token_run s1 = Some s'" "scans s' []" "current_token s' = finsh_token_type_semicolon" "global_errno s' = global_errno s1"
    using run_semicolon [OF s] by blast
  then show ?thesis using ahead_end [OF s'(2)] r scanned_token [of s s'] by (auto simp: scans_def)
qed

lemma ahead_space:
  "\<forall>l \<in> set ls. scannable l \<Longrightarrow> scans s (32 # lexemes_text ls @ [59]) \<Longrightarrow> ahead (ls @ [Tok finsh_token_type_semicolon, Tok finsh_token_type_eof]) s"
proof (induction ls arbitrary: s)
  case Nil
  then have s: "scans s [32, 59]" by (simp add: lexemes_text_def)
  have b: "\<not> blank 59" by (simp add: blank_def)
  have s1: "scans (adv (Suc 0) s) [59]" using scans_Cons [OF s] .
  then have "token_run s = token_run (adv (Suc 0) s)" using trim_space [OF s b] trim_none [OF s1 b] by (simp add: token_run_def)
  from ahead_semicolon [OF this _ _ s1] show ?case using s by (simp add: scans_def)
next
  case (Cons l ls)
  then obtain s' where s': "token_run s = Some s'" "scanned s l (lexemes_text ls @ [59]) s'"
    using run_lexeme_space [of l s "lexemes_text ls @ [59]"] by (auto simp: lexemes_text_def)
  have "ahead (ls @ [Tok finsh_token_type_semicolon, Tok finsh_token_type_eof]) s'" using Cons s'(2) by (intro Cons.IH) (auto simp: scanned_def)
  then show ?case using s' Cons.prems(2) scanned_token [of s s'] by (auto simp: scanned_def scans_def)
qed

lemma ahead_text:
  assumes "\<forall>l \<in> set ls. scannable l"
  shows "ahead (ls @ [Tok finsh_token_type_semicolon, Tok finsh_token_type_eof]) (finsh_token_init (lexemes_text ls @ [59]) err)"
proof (cases ls)
  case Nil
  let ?s = "finsh_token_init [59] err"
  have "scans ?s [59]" by (simp add: scans_def finsh_token_init_def)
  from ahead_semicolon [OF refl _ _ this] show ?thesis using Nil by (simp add: lexemes_text_def finsh_token_init_def)
next
  case (Cons l ms)
  let ?s = "finsh_token_init (lexemes_text ls @ [59]) err"
  have "scans ?s (lexeme_text l @ 32 # lexemes_text ms @ [59])" by (simp add: scans_def finsh_token_init_def lexemes_text_def Cons)
  then obtain s' where s': "token_run ?s = Some s'" "scanned ?s l (lexemes_text ms @ [59]) s'" using run_lexeme [of l ?s] assms Cons by auto
  have "ahead (ms @ [Tok finsh_token_type_semicolon, Tok finsh_token_type_eof]) s'" using ahead_space [of ms s'] assms s'(2) Cons by (simp add: scanned_def)
  moreover have "finsh_token_token ?s = Some s'" by (rule scanned_token [OF _ s'(1)]) (simp add: finsh_token_init_def)
  ultimately show ?thesis using s'(2) by (auto simp: Cons scanned_def scans_def)
qed

end
