(* ===== verification/RT_FinshLine.thy ===== *)
theory RT_FinshLine
  imports RT_FinshScan
begin

text \<open>
  One line of the shell from its text to its value: \<open>finsh_run_line\<close> of \<open>components/finsh/shell.c\<close> and the
  initialisation of \<open>finsh_init.c\<close>.
\<close>

section \<open>Running a line\<close>

text \<open>
  The parser and the machine share memory: the machine runs on the memory the parser leaves, and leaves its
  own to the parser of the next line. The parser is cleared to zero; the pointer to the line is set before
  it is used again.
\<close>

definition finsh_parser_init :: "finsh_parser \<Rightarrow> finsh_parser" where
  "finsh_parser_init p = p\<lparr>token := finsh_token_init [] (global_errno (token p))\<rparr>"

definition finsh_error_init :: "finsh_parser \<Rightarrow> finsh_parser" where
  "finsh_error_init p = parse_error FINSH_ERROR_OK p"

definition init_vars :: "finsh_parser \<Rightarrow> finsh_parser" where
  "init_vars p = p\<lparr>symbols := finsh_var_init (symbols p),
     parser_ram := clear_bytes (parser_ram p) (unat (variable_base (symbols p))) (24 * FINSH_VARIABLE_MAX)\<rparr>"

definition init_heap :: "finsh_parser \<Rightarrow> finsh_parser" where
  "init_heap p = (let (h, m) = finsh_heap_init (string_heap p) (parser_ram p) in p\<lparr>string_heap := h, parser_ram := m\<rparr>)"

definition finsh_init :: "finsh_parser \<Rightarrow> finsh_parser" where
  "finsh_init p = init_heap (finsh_error_init (init_vars (finsh_node_init (finsh_parser_init p))))"

definition finsh_flush :: "finsh_parser \<Rightarrow> finsh_parser" where
  "finsh_flush p = finsh_error_init (finsh_node_init (finsh_parser_init p))"

definition finsh_reset :: "finsh_parser \<Rightarrow> finsh_parser" where
  "finsh_reset p = init_heap (finsh_error_init (init_vars (finsh_node_init p)))"

text \<open>What is printed after the line: the string of an error, or the value, with its character when it has one.\<close>

datatype line_output = Error_string u8 | Number_value u32 | Char_value u32 | Silent

definition value_output :: "u32 \<Rightarrow> line_output" where
  "value_output u = (let ch = (ucast u :: u8) in if ch > 0x20 \<and> ch < 0x7e then Char_value u else Number_value u)"

definition finsh_run_line :: "nat \<Rightarrow> syscalls \<Rightarrow> symtab \<Rightarrow> u8 list \<Rightarrow> finsh_parser \<Rightarrow> finsh_vm
    \<Rightarrow> (line_output \<times> finsh_parser \<times> finsh_vm) option" where
  "finsh_run_line n sys tab l p s = do {
     (root, p1) \<leftarrow> finsh_parser_run n l p;
     if global_errno (token p1) = FINSH_ERROR_OK
     then do {
       (text, err, s1) \<leftarrow> finsh_compiler_run (symbols_tab (symbols p1) tab) root FINSH_ERROR_OK (s\<lparr>vm_ram := parser_ram p1\<rparr>);
       if err = FINSH_ERROR_OK
       then do {
         s2 \<leftarrow> finsh_vm_run sys text s1;
         Some (value_output (finsh_stack_bottom s2), finsh_flush (p1\<lparr>parser_ram := vm_ram s2\<rparr>), s2) }
       else Some (Silent, finsh_flush p1, s1) }
     else Some (Error_string (global_errno (token p1)), finsh_flush p1, s) }"

section \<open>The text of a line\<close>

definition line_words :: "(u32 \<Rightarrow> u8 list) \<Rightarrow> (width \<times> expr) list \<Rightarrow> lexeme list" where
  "line_words nm ps = concat (map (\<lambda>(w, e). lexemes nm e @ [Tok finsh_token_type_semicolon]) ps)"

text \<open>The last semicolon, which the terminal adds, stands directly at the end.\<close>

definition typed_text :: "(u32 \<Rightarrow> u8 list) \<Rightarrow> (width \<times> expr) list \<Rightarrow> u8 list" where
  "typed_text nm ps = lexemes_text (butlast (line_words nm ps))"

definition line_text :: "(u32 \<Rightarrow> u8 list) \<Rightarrow> (width \<times> expr) list \<Rightarrow> u8 list" where
  "line_text nm ps = typed_text nm ps @ [59]"

definition shell_line :: "finsh_symbols \<Rightarrow> (u32 \<Rightarrow> u8 list) \<Rightarrow> (width \<times> expr) list \<Rightarrow> bool" where
  "shell_line y nm ps \<longleftrightarrow> ps \<noteq> [] \<and> (\<forall>(w, e) \<in> set ps. unbracketed y nm e) \<and> (\<forall>l \<in> set (line_words nm ps). scannable l)
     \<and> node_count (line_tree ps) \<le> FINSH_NODE_MAX"

lemma line_lexemes_words: "line_lexemes nm ps = line_words nm ps @ [Tok finsh_token_type_eof]"
  by (induction nm ps rule: line_lexemes.induct) (auto simp: line_words_def)

lemma line_words_end: "ps \<noteq> [] \<Longrightarrow> line_words nm ps = butlast (line_words nm ps) @ [Tok finsh_token_type_semicolon]"
  by (cases ps rule: rev_cases) (auto simp: line_words_def butlast_append split: prod.splits)

text \<open>The parser reads the text of a line as the tree of its expressions and reports no error.\<close>

lemma parser_reads_line:
  assumes l: "shell_line (symbols p) nm ps" and p: "nodes_used p = 0"
  shows "\<exists>N r. (\<forall>n \<ge> N. finsh_parser_run n (line_text nm ps) p = Some (line_tree ps, r)) \<and> symbols r = symbols p
     \<and> string_heap r = string_heap p \<and> parser_ram r = parser_ram p \<and> global_errno (token r) = global_errno (token p)"
proof -
  let ?p = "p\<lparr>token := finsh_token_init (line_text nm ps) (global_errno (token p))\<rparr>"
  have ps: "ps \<noteq> []" "\<forall>(w, e) \<in> set ps. unbracketed (symbols p) nm e" "\<forall>l \<in> set (line_words nm ps). scannable l"
      "node_count (line_tree ps) \<le> FINSH_NODE_MAX"
    using l by (auto simp: shell_line_def)
  let ?w = "butlast (line_words nm ps)"
  have "line_words nm ps = ?w @ [Tok finsh_token_type_semicolon]" using ps(1) by (rule line_words_end)
  moreover from this have "\<forall>l \<in> set ?w. scannable l" using ps(3) in_set_butlastD by metis
  ultimately have "ahead (line_lexemes nm ps) (token ?p)"
    using ahead_text [of ?w] by (simp add: line_lexemes_words line_text_def typed_text_def) (metis append.assoc append_Cons append_Nil)
  then have "reached ?p 0 (line_lexemes nm ps) ?p" by (rule reached_refl)
  from parser_loop_reads [OF ps(2) this, of "[]" 0] ps(1,4) p obtain t q r where
    r: "next_token ?p = Some (t, q)" "\<forall>\<^sub>F n in sequentially. parser_loop n t [] 0 q = Some (map (\<lambda>(w, e). tree e NULL) ps, r)"
      "symbols r = symbols p" "string_heap r = string_heap p" "parser_ram r = parser_ram p" "global_errno (token r) = global_errno (token p)"
    by (auto simp: finsh_token_init_def)
  from r(2) obtain N where "\<forall>n \<ge> N. parser_loop n t [] 0 q = Some (map (\<lambda>(w, e). tree e NULL) ps, r)"
    unfolding eventually_sequentially by blast
  then have "\<forall>n \<ge> N. finsh_parser_run n (line_text nm ps) p = Some (line_tree ps, r)"
    using r(1) by (simp add: finsh_parser_run_def link_line)
  then show ?thesis using r(3-) by blast
qed

lemma run_line_value:
  assumes l: "shell_line (symbols p) nm ps" and p: "nodes_used p = 0" "global_errno (token p) = FINSH_ERROR_OK"
    and tab: "tab' = symbols_tab (symbols p) tab" and code: "line_typed tab' ps" "length (line_code tab' ps) \<le> FINSH_TEXT_MAX"
    and s: "length (vm_stack s) = FINSH_STACK_MAX" and v: "line_eval sys tab' ps (parser_ram p) = Some (v, m)"
  shows "\<exists>N u p' s'. (\<forall>n \<ge> N. finsh_run_line n sys tab (line_text nm ps) p s = Some (value_output u, p', s'))
     \<and> union_get (fst (last ps)) u = v \<and> parser_ram p' = m \<and> symbols p' = symbols p \<and> string_heap p' = string_heap p
     \<and> nodes_used p' = 0 \<and> global_errno (token p') = FINSH_ERROR_OK"
proof -
  from parser_reads_line [OF l p(1)] obtain N r where
    r: "\<forall>n \<ge> N. finsh_parser_run n (line_text nm ps) p = Some (line_tree ps, r)" "symbols r = symbols p"
      "string_heap r = string_heap p" "parser_ram r = parser_ram p" "global_errno (token r) = FINSH_ERROR_OK" using p(2) by auto
  let ?s = "s\<lparr>vm_ram := parser_ram r\<rparr>"
  have "ps \<noteq> []" using l by (simp add: shell_line_def)
  with finsh_line_spec [OF code(1) _ code(2), of ?s sys v m FINSH_ERROR_OK] s v r(4) obtain bc s1 s2 where
    c: "finsh_compiler_run tab' (line_tree ps) FINSH_ERROR_OK ?s = Some (bc, FINSH_ERROR_OK, s1)" "finsh_vm_run sys bc s1 = Some s2"
      "vm_ram s2 = m" "union_get (fst (last ps)) (finsh_stack_bottom s2) = v" by auto
  let ?p = "finsh_flush (r\<lparr>parser_ram := m\<rparr>)"
  have "\<forall>n \<ge> N. finsh_run_line n sys tab (line_text nm ps) p s = Some (value_output (finsh_stack_bottom s2), ?p, s2)"
    using r(1,2,5) c(1-3) by (simp add: finsh_run_line_def tab)
  moreover have "symbols ?p = symbols p" "string_heap ?p = string_heap p" "parser_ram ?p = m" "nodes_used ?p = 0"
      "global_errno (token ?p) = FINSH_ERROR_OK"
    using r by (simp_all add: finsh_flush_def finsh_error_init_def finsh_node_init_def finsh_parser_init_def parse_error_def finsh_error_set_def)
  ultimately show ?thesis using c(4) by blast
qed

end
