(* ===== verification/RT_FinshEnd.thy ===== *)
theory RT_FinshEnd
  imports RT_FinshParser
begin

text \<open>
  The parser of the shell returns. A line that ends in a semicolon, as the shell passes it on, and has no
  quotes is read to its end: every token moves the scanner on, and no function of the parser is called
  again before it has read a token.
\<close>

section \<open>The scanner moves on\<close>

definition good_line :: "u8 list \<Rightarrow> bool" where
  "good_line l \<longleftrightarrow> l \<noteq> [] \<and> last l = 59 \<and> length l < 128 \<and> (\<forall>c \<in> set l. c \<noteq> 10 \<and> c \<noteq> 34 \<and> c \<noteq> 39)"

definition tok_ok :: "finsh_token \<Rightarrow> bool" where
  "tok_ok s \<longleftrightarrow> good_line (line s) \<and> position s \<le> length (line s) \<and> length (token_string s) = 128"

text \<open>From \<open>s\<close> the scanner comes to \<open>s'\<close>, with no more characters left than before.\<close>

definition moves :: "finsh_token \<Rightarrow> finsh_token \<Rightarrow> bool" where
  "moves s s' \<longleftrightarrow> tok_ok s' \<and> line s' = line s \<and> replay s' = replay s \<and> chars_left s' \<le> chars_left s"

lemma moves_refl: "tok_ok s \<Longrightarrow> moves s s"
  by (simp add: moves_def)

lemma moves_trans: "moves s s1 \<Longrightarrow> moves s1 s2 \<Longrightarrow> moves s s2"
  by (auto simp: moves_def)

lemma chars_left_bound: "tok_ok s \<Longrightarrow> chars_left s \<le> 128"
  by (auto simp: tok_ok_def good_line_def chars_left_def)

text \<open>A change of the other fields.\<close>

lemma tok_ok_update [simp]:
  "tok_ok (s\<lparr>current_token := t\<rparr>) = tok_ok s" "tok_ok (s\<lparr>token_value := v\<rparr>) = tok_ok s" "tok_ok (finsh_error_set e s) = tok_ok s"
  "tok_ok (s\<lparr>replay := r\<rparr>) = tok_ok s"
  by (simp_all add: tok_ok_def finsh_error_set_def)

lemma chars_left_update [simp]:
  "chars_left (s\<lparr>current_token := t\<rparr>) = chars_left s" "chars_left (s\<lparr>token_value := v\<rparr>) = chars_left s"
  "chars_left (finsh_error_set e s) = chars_left s" "chars_left (s\<lparr>token_string := c\<rparr>) = chars_left s"
  "chars_left (s\<lparr>replay := r\<rparr>) = chars_left s"
  by (simp_all add: chars_left_def finsh_error_set_def)

lemma moves_update [simp]:
  "moves s (s'\<lparr>current_token := t\<rparr>) = moves s s'" "moves s (s'\<lparr>token_value := v\<rparr>) = moves s s'" "moves s (finsh_error_set e s') = moves s s'"
  by (simp_all add: moves_def) (simp add: finsh_error_set_def)

lemma next_ok:
  assumes "tok_ok s"
  shows "\<exists>c s'. token_next_char s = Some (c, s') \<and> moves s s' \<and> (\<not> eof s \<longrightarrow> chars_left s' < chars_left s)
    \<and> (eof s' \<longrightarrow> c = 0) \<and> (\<not> eof s' \<longrightarrow> c \<in> set (line s)) \<and> token_string s' = token_string s"
proof (cases "eof s \<or> position s = length (line s)")
  case True
  then show ?thesis using assms by (auto simp: token_next_char_def moves_def tok_ok_def chars_left_def)
next
  case False
  then have p: "position s < length (line s)" using assms by (simp add: tok_ok_def)
  then have "line s ! position s \<in> set (line s)" "line s ! position s \<noteq> 10" using assms by (auto simp: tok_ok_def good_line_def)
  then show ?thesis using p False assms by (simp add: token_next_char_def moves_def tok_ok_def chars_left_def) linarith
qed

lemma prev_ok: "tok_ok s \<Longrightarrow> tok_ok (token_prev_char s) \<and> line (token_prev_char s) = line s \<and> replay (token_prev_char s) = replay s
    \<and> eof (token_prev_char s) = eof s \<and> token_string (token_prev_char s) = token_string s
    \<and> chars_left (token_prev_char s) \<le> (if eof s then 0 else Suc (chars_left s))"
  by (auto simp: token_prev_char_def tok_ok_def chars_left_def)

text \<open>A character that was read from \<open>s\<close> and is put back.\<close>

lemma moves_prev:
  assumes s: "moves s s1" "moves s1 s2" and n: "eof s2 \<or> chars_left s2 < chars_left s1"
  shows "moves s (token_prev_char s2)" "chars_left (token_prev_char s2) \<le> chars_left s1"
proof -
  have p: "tok_ok s2" using s(2) by (simp add: moves_def)
  show "chars_left (token_prev_char s2) \<le> chars_left s1" using prev_ok [OF p] n by (auto split: if_splits)
  then show "moves s (token_prev_char s2)" using prev_ok [OF p] s by (simp add: moves_def)
qed

lemma read_while_ok:
  "tok_ok s \<Longrightarrow> \<exists>cs d s'. read_while P buf c s = Some (cs, d, s') \<and> moves s s' \<and> length cs + chars_left s' \<le> length buf + chars_left s
    \<and> (P c \<and> \<not> eof s \<longrightarrow> chars_left s' < chars_left s) \<and> token_string s' = token_string s \<and> (\<forall>x \<in> set cs. x \<in> set buf \<or> P x)"
proof (induction P buf c s rule: read_while.induct)
  case (1 P buf c s)
  show ?case
  proof (cases "P c \<and> \<not> eof s")
    case True
    from next_ok [OF "1.prems"] obtain c1 s1 where s1: "token_next_char s = Some (c1, s1)" "moves s s1" "chars_left s1 < chars_left s"
      "token_string s1 = token_string s" using True by blast
    have "tok_ok s1" using s1(2) by (simp add: moves_def)
    from "1.IH" [OF True s1(1) refl this] obtain cs d s' where
      r: "read_while P (buf @ [c]) c1 s1 = Some (cs, d, s')" "moves s1 s'" "length cs + chars_left s' \<le> Suc (length buf) + chars_left s1"
        "token_string s' = token_string s1" "\<forall>x \<in> set cs. x \<in> set buf \<or> x = c \<or> P x" by auto
    have "read_while P buf c s = Some (cs, d, s')" using True s1(1) r(1) by (subst read_while.simps) simp
    then show ?thesis using s1 r moves_trans [OF s1(2) r(2)] True by (auto simp: moves_def)
  next
    case False
    then have "read_while P buf c s = Some (buf, c, s)" by (subst read_while.simps) auto
    then show ?thesis using False "1.prems" by (simp add: moves_refl)
  qed
qed

lemma trim_ok: "tok_ok s \<Longrightarrow> \<exists>s'. token_trim_space s = Some s' \<and> moves s s' \<and> token_string s' = token_string s"
proof (induction s rule: token_trim_space.induct)
  case (1 s)
  from next_ok [OF "1.prems"] obtain c s1 where s1: "token_next_char s = Some (c, s1)" "moves s s1"
    "\<not> eof s \<longrightarrow> chars_left s1 < chars_left s" "token_string s1 = token_string s" by blast
  show ?case
  proof (cases "\<not> eof s \<and> (c = 32 \<or> c = 9 \<or> c = 13)")
    case True
    have "tok_ok s1" using s1(2) by (simp add: moves_def)
    from "1.IH" [OF s1(1) refl True this] obtain s' where r: "token_trim_space s1 = Some s'" "moves s1 s'" "token_string s' = token_string s1" by blast
    have "token_trim_space s = Some s'" using True s1(1) r(1) by (subst token_trim_space.simps) simp
    then show ?thesis using moves_trans [OF s1(2) r(2)] s1(4) r(3) by auto
  next
    case False
    then have t: "token_trim_space s = Some (token_prev_char s1)"
      by (subst token_trim_space.simps) (simp only: s1(1) option.case prod.case False if_False)
    have "eof s \<Longrightarrow> s1 = s" using s1(1) by (simp add: token_next_char_def)
    then have "eof s1 \<or> chars_left s1 < chars_left s" using s1(3) by auto
    note m = moves_prev(1) [OF moves_refl [OF "1.prems"] s1(2) this]
    have "tok_ok s1" using s1(2) by (simp add: moves_def)
    then have "token_string (token_prev_char s1) = token_string s" using prev_ok s1(4) by simp
    then show ?thesis using t m by simp
  qed
qed

section \<open>Names do not run into the end\<close>

lemma last_nth: "l \<noteq> [] \<Longrightarrow> last l = 59 \<Longrightarrow> l ! (length l - 1) = 59"
  by (simp add: last_conv_nth)

text \<open>The character \<open>c\<close> was read last. It is not the last of the line unless it is a separator.\<close>

lemma read_name:
  assumes "tok_ok s" "\<not> eof s" "0 < position s" "c = line s ! (position s - 1)"
  shows "\<exists>cs d s'. read_while (\<lambda>c. \<not> is_separator c) buf c s = Some (cs, d, s') \<and> \<not> eof s'"
  using assms
proof (induction "\<lambda>c. \<not> is_separator c" buf c s rule: read_while.induct)
  case (1 buf c s)
  show ?case
  proof (cases "is_separator c")
    case False
    have g: "good_line (line s)" using "1.prems"(1) by (simp add: tok_ok_def)
    have "is_separator 59" by (simp add: is_separator_def)
    then have "position s - 1 \<noteq> length (line s) - 1" using False "1.prems"(4) g last_nth [of "line s"] by (auto simp: good_line_def)
    then have p: "position s < length (line s)" using "1.prems"(1,3) by (auto simp: tok_ok_def)
    then have "line s ! position s \<noteq> 10" using g by (auto simp: good_line_def)
    then have n: "token_next_char s = Some (line s ! position s, s\<lparr>position := position s + 1\<rparr>)"
      using p "1.prems"(2) by (simp add: token_next_char_def)
    have "tok_ok (s\<lparr>position := position s + 1\<rparr>)" using "1.prems"(1) p by (simp add: tok_ok_def)
    then obtain cs d s' where "read_while (\<lambda>c. \<not> is_separator c) (buf @ [c]) (line s ! position s) (s\<lparr>position := position s + 1\<rparr>) = Some (cs, d, s')" "\<not> eof s'"
      using "1.hyps" [OF _ n refl] False "1.prems"(2) by auto
    then show ?thesis using n False "1.prems"(2) by (subst read_while.simps) simp
  qed (use "1.prems" in \<open>subst read_while.simps, simp\<close>)
qed

text \<open>
  Getting a string: at the end of the line the scanner stops; otherwise it stands behind a name, which
  is not empty, or where it was.
\<close>

lemma get_string_ok:
  assumes s: "tok_ok s"
  shows "\<exists>s'. token_get_string s = Some s' \<and> moves s s' \<and> (eof s' \<or> (token_text s' \<noteq> [] \<longrightarrow> chars_left s' < chars_left s))"
proof -
  from next_ok [OF s] obtain c s1 where s1: "token_next_char s = Some (c, s1)" "moves s s1" "\<not> eof s \<longrightarrow> chars_left s1 < chars_left s"
    "token_string s1 = token_string s" by blast
  show ?thesis
  proof (cases "eof s1")
    case True
    then show ?thesis using s1 by (simp add: token_get_string_def)
  next
    case False
    then have e: "\<not> eof s" using s1(1) by (auto simp: token_next_char_def)
    let ?s2 = "s1\<lparr>token_string := (token_string s1)[0 := 0]\<rparr>"
    have s2: "tok_ok ?s2" using s1(2) by (auto simp: moves_def tok_ok_def)
    have m2: "moves s ?s2" using s1(2) s2 by (simp add: moves_def)
    have l2: "chars_left ?s2 < chars_left s" using s1(3) e by simp
    have ms: "moves s s" using s by (rule moves_refl)
    show ?thesis
    proof (cases "is_digit c")
      case True
      have "token_get_string s = Some (token_prev_char ?s2)" using s1(1) False True by (simp add: token_get_string_def)
      moreover have "moves s (token_prev_char ?s2)" using moves_prev(1) [OF ms m2] l2 by blast
      moreover have "token_text (token_prev_char ?s2) = []"
        using prev_ok [OF s2] s2 by (cases "token_string s1") (auto simp: token_text_def tok_ok_def)
      ultimately show ?thesis by simp
    next
      case nd: False
      have pos: "0 < position ?s2" "c = line ?s2 ! (position ?s2 - 1)"
        using s1(1) False e by (auto simp: token_next_char_def split: if_splits)
      from read_name [of ?s2 c "[]"] s2 False pos obtain cs d s3 where
        r: "read_while (\<lambda>c. \<not> is_separator c) [] c ?s2 = Some (cs, d, s3)" "\<not> eof s3" by auto
      from read_while_ok [OF s2, of "\<lambda>c. \<not> is_separator c" "[]" c] r have
        r2: "moves ?s2 s3" "length cs + chars_left s3 \<le> chars_left ?s2" "\<not> is_separator c \<longrightarrow> chars_left s3 < chars_left ?s2"
          "token_string s3 = token_string ?s2" "\<forall>x \<in> set cs. \<not> is_separator x" using False by auto
      have s3: "tok_ok s3" "s3\<lparr>eof := False\<rparr> = s3" using r2(1) r(2) by (simp add: moves_def, cases s3, simp)
      let ?s4 = "token_prev_char s3"
      have len: "length cs < length (token_string ?s4)"
        using prev_ok [OF s3(1)] r2(2) l2 chars_left_bound [OF s] s3(1) by (simp add: tok_ok_def)
      let ?s5 = "?s4\<lparr>token_string := cs @ [0] @ drop (length cs + 1) (token_string ?s4)\<rparr>"
      have g: "token_get_string s = Some ?s5"
        using s1(1) False nd r(1) s3(2) len by (simp add: token_get_string_def put_string_def)
      have cl: "chars_left ?s4 \<le> Suc (chars_left s3)" using prev_ok [OF s3(1)] r(2) by simp
      have m: "moves s ?s5" using prev_ok [OF s3(1)] m2 r2(1,2) l2 cl len by (auto simp: moves_def tok_ok_def)
      have "cs \<noteq> []" if "token_text ?s5 \<noteq> []" using that by (auto simp: token_text_def)
      then have "chars_left ?s5 < chars_left s" if "token_text ?s5 \<noteq> []"
        using that cl r2(2) l2 by (cases cs) auto
      then show ?thesis using g m by blast
    qed
  qed
qed

section \<open>Every token moves the scanner on\<close>

text \<open>The end of a number: the character behind it is put back unless it is the suffix of a long number.\<close>

lemma suffix_ok:
  assumes "moves s s1" "moves s1 s2" "eof s2 \<or> chars_left s2 < chars_left s1"
  shows "moves s (number_suffix c (s2\<lparr>token_value := v, current_token := finsh_token_type_value_int\<rparr>))"
    "chars_left (number_suffix c (s2\<lparr>token_value := v, current_token := finsh_token_type_value_int\<rparr>)) \<le> chars_left s1"
    "current_token (number_suffix c (s2\<lparr>token_value := v, current_token := finsh_token_type_value_int\<rparr>))
       \<in> {finsh_token_type_value_int, finsh_token_type_value_long}"
proof -
  let ?s = "s2\<lparr>token_value := v, current_token := finsh_token_type_value_int\<rparr>"
  have m: "moves s1 ?s" "eof ?s \<or> chars_left ?s < chars_left s1" using assms(2,3) by simp_all
  note p = moves_prev [OF assms(1) m]
  have c: "chars_left s2 \<le> chars_left s1" using assms(2) by (simp add: moves_def)
  have "moves s s2" using moves_trans assms(1,2) by blast
  then show "moves s (number_suffix c ?s)" using p by (simp add: number_suffix_def)
  show "chars_left (number_suffix c ?s) \<le> chars_left s1" using p c by (simp add: number_suffix_def)
  have "current_token (token_prev_char ?s) = finsh_token_type_value_int" by (simp add: token_prev_char_def)
  then show "current_token (number_suffix c ?s) \<in> {finsh_token_type_value_int, finsh_token_type_value_long}"
    by (simp add: number_suffix_def)
qed

definition plain_token :: "finsh_token_type \<Rightarrow> bool" where
  "plain_token t \<longleftrightarrow> t \<noteq> finsh_token_type_value_string \<and> t \<noteq> finsh_token_type_value_char"

lemma at_end: "eof s \<Longrightarrow> moves s s' \<Longrightarrow> eof s'"
  by (auto simp: moves_def chars_left_def split: if_splits)

lemma eof_moves: "moves s s1 \<Longrightarrow> chars_left s1 < chars_left s \<Longrightarrow> \<not> eof s"
  by (auto simp: chars_left_def)

lemma prefixed_number_ok:
  assumes s1: "tok_ok s1" and len: "chars_left s1 < 128"
  shows "\<exists>(shift :: nat) cs d s2 c s3. token_next_char s1 = Some (c, s2)
    \<and> (if c = 120 \<or> c = 88
       then do { (ch, s3) \<leftarrow> token_next_char s2; map_option (Pair 4) (read_while (\<lambda>c. is_digit c \<or> is_alpha c) [] ch s3) }
       else if c = 98 \<or> c = 66
       then do { (ch, s3) \<leftarrow> token_next_char s2; map_option (Pair 1) (read_while (\<lambda>c. c = 48 \<or> c = 49) [] ch s3) }
       else map_option (Pair 3) (read_while is_digit [] c s2)) = Some (shift, cs, d, s3)
    \<and> moves s1 s3 \<and> (eof s3 \<or> chars_left s3 < chars_left s1) \<and> length cs < 128"
proof -
  from next_ok [OF s1] obtain c s2 where s2: "token_next_char s1 = Some (c, s2)" "moves s1 s2" "\<not> eof s1 \<longrightarrow> chars_left s2 < chars_left s1" by blast
  have t2: "tok_ok s2" using s2(2) by (simp add: moves_def)
  from next_ok [OF t2] obtain c3 s3 where s3: "token_next_char s2 = Some (c3, s3)" "moves s2 s3" by blast
  have t3: "tok_ok s3" using s3(2) by (simp add: moves_def)
  have strict: "eof s4 \<or> chars_left s4 < chars_left s1" if "moves s2 s4" for s4
    using that s2(2,3) at_end [of s1 s2] at_end [of s2 s4] by (cases "eof s1") (auto simp: moves_def)
  have read: "\<exists>cs d s4. read_while P [] ch s' = Some (cs, d, s4) \<and> moves s1 s4 \<and> (eof s4 \<or> chars_left s4 < chars_left s1) \<and> length cs < 128"
    if "tok_ok s'" "moves s2 s'" for P ch s'
  proof -
    from read_while_ok [OF that(1), of P "[]" ch] obtain cs d s4 where
      r: "read_while P [] ch s' = Some (cs, d, s4)" "moves s' s4" "length cs + chars_left s4 \<le> chars_left s'" by auto
    have "chars_left s' \<le> chars_left s1" using s2(2) that(2) by (simp add: moves_def)
    then show ?thesis using r moves_trans [OF that(2) r(2)] moves_trans [OF s2(2)] strict len by fastforce
  qed
  show ?thesis
    using read [OF t3 s3(2), of "\<lambda>c. is_digit c \<or> is_alpha c" c3] read [OF t3 s3(2), of "\<lambda>c. c = 48 \<or> c = 49" c3]
      read [OF t2 moves_refl [OF t2], of is_digit c] s2(1) s3(1) by auto
qed

lemma number_ok:
  assumes s: "tok_ok s" and c: "token_next_char s = Some (c, s1)" "is_digit c"
  shows "\<exists>s'. token_proc_number s = Some s' \<and> moves s s' \<and> chars_left s' < chars_left s \<and> plain_token (current_token s')"
proof -
  have e: "\<not> eof s" using c by (auto simp: token_next_char_def is_digit_def)
  from next_ok [OF s] c(1) e have s1: "moves s s1" "chars_left s1 < chars_left s" by auto
  have t1: "tok_ok s1" using s1(1) by (simp add: moves_def)
  have len: "chars_left s1 < 128" using s1(2) chars_left_bound [OF s] by simp
  have e1: "\<not> eof s1" using c e by (auto simp: token_next_char_def is_digit_def split: if_splits)
  have fin: "\<exists>s'. Some (number_suffix d (s2\<lparr>token_value := v, current_token := finsh_token_type_value_int\<rparr>)) = Some s' \<and> moves s s'
      \<and> chars_left s' < chars_left s \<and> plain_token (current_token s')"
    if "moves s1 s2" "eof s2 \<or> chars_left s2 < chars_left s1" for d v s2
    using suffix_ok [OF s1(1) that, of d v] s1(2) by (auto simp: plain_token_def)
  show ?thesis
  proof (cases "c = 48")
    case True
    from prefixed_number_ok [OF t1 len] obtain shift :: nat and cs d s2 c2 s3 where
      p: "token_next_char s1 = Some (c2, s2)"
        "(if c2 = 120 \<or> c2 = 88
         then do { (ch, s3) \<leftarrow> token_next_char s2; map_option (Pair 4) (read_while (\<lambda>c. is_digit c \<or> is_alpha c) [] ch s3) }
         else if c2 = 98 \<or> c2 = 66
         then do { (ch, s3) \<leftarrow> token_next_char s2; map_option (Pair 1) (read_while (\<lambda>c. c = 48 \<or> c = 49) [] ch s3) }
         else map_option (Pair 3) (read_while is_digit [] c2 s2)) = Some (shift, cs, d, s3)"
        "moves s1 s3" "eof s3 \<or> chars_left s3 < chars_left s1" "length cs < 128" by blast
    have "token_proc_number s = Some (number_suffix d (s3\<lparr>token_value := token_spec_number cs shift, current_token := finsh_token_type_value_int\<rparr>))"
      unfolding token_proc_number_def by (simp only: c(1) True p(1,2,5) bind.simps prod.case if_True refl)
    then show ?thesis using fin [OF p(3,4)] by simp
  next
    case False
    from read_while_ok [OF t1, of is_digit "[]" c] c(2) e1 obtain cs d s2 where
      r: "read_while is_digit [] c s1 = Some (cs, d, s2)" "moves s1 s2" "chars_left s2 < chars_left s1" by auto
    then show ?thesis using fin [OF r(2)] c(1) False by (simp add: token_proc_number_def Let_def)
  qed
qed

lemma operator_ok:
  assumes s: "tok_ok s" and e: "\<not> eof s"
  shows "\<exists>s'. token_operator s = Some s' \<and> moves s s' \<and> chars_left s' < chars_left s \<and> plain_token (current_token s')"
proof -
  from next_ok [OF s] e obtain c s1 where s1: "token_next_char s = Some (c, s1)" "moves s s1" "chars_left s1 < chars_left s"
    "eof s1 \<longrightarrow> c = 0" "\<not> eof s1 \<longrightarrow> c \<in> set (line s)" by blast
  have t1: "tok_ok s1" using s1(2) by (simp add: moves_def)
  have q: "c \<noteq> 34" "c \<noteq> 39" using s1(4,5) s by (auto simp: tok_ok_def good_line_def)
  consider t where "single_token c = Some t" | t2 t1 where "single_token c = None" "double_token c = Some (t2, t1)"
    | "single_token c = None" "double_token c = None" by (cases "single_token c"; cases "double_token c") auto
  then show ?thesis
  proof cases
    case (1 t)
    then have "plain_token t" by (auto simp: single_token_def plain_token_def split: if_splits)
    then show ?thesis using 1 s1(1-3) by (simp add: token_operator_def)
  next
    case (2 t2 t1)
    from next_ok [OF t1] obtain c2 s2 where s2: "token_next_char s1 = Some (c2, s2)" "moves s1 s2" "\<not> eof s1 \<longrightarrow> chars_left s2 < chars_left s1" by blast
    have "plain_token t1" "plain_token t2" using 2(2) by (auto simp: double_token_def plain_token_def split: if_splits)
    moreover have "eof s2 \<or> chars_left s2 < chars_left s1" using s2(2,3) at_end by blast
    note p = moves_prev [OF s1(2) s2(2) this]
    moreover have "moves s s2" "chars_left s2 < chars_left s" using moves_trans [OF s1(2) s2(2)] s1(3) s2(2) by (auto simp: moves_def)
    ultimately show ?thesis using 2 s1(1,3) s2(1) by (simp add: token_operator_def)
  next
    case 3
    show ?thesis
    proof (cases "is_digit c")
      case True
      then have e1: "\<not> eof s1" using s1(4) by (auto simp: is_digit_def)
      then have "token_prev_char s1 = s" using s1(1) e by (auto simp: token_next_char_def token_prev_char_def split: if_splits)
      then have "token_operator s = token_proc_number s" using 3 s1(1) q True by (simp add: token_operator_def)
      then show ?thesis using number_ok [OF s s1(1) True] by simp
    next
      case False
      then have "token_operator s = Some ((finsh_error_set FINSH_ERROR_UNKNOWN_TOKEN s1)\<lparr>current_token := finsh_token_type_bad\<rparr>)"
        using 3 s1(1) q by (simp add: token_operator_def)
      then show ?thesis using s1(2,3) by (simp add: plain_token_def)
    qed
  qed
qed

lemma match_name_ok: "moves s (token_match_name n s') = moves s s'" "chars_left (token_match_name n s') = chars_left s'"
    "plain_token (current_token (token_match_name n s'))"
  by (auto simp: token_match_name_def plain_token_def finsh_name_table_def split: option.splits if_splits)

lemma token_run_ok:
  assumes s: "tok_ok s"
  shows "\<exists>s'. token_run s = Some s' \<and> moves s s' \<and> plain_token (current_token s')
     \<and> (current_token s' = finsh_token_type_eof \<or> chars_left s' < chars_left s)"
proof -
  from trim_ok [OF s] obtain s1 where s1: "token_trim_space s = Some s1" "moves s s1" by blast
  then have "tok_ok s1" by (simp add: moves_def)
  from get_string_ok [OF this] obtain s2 where
    s2: "token_get_string s1 = Some s2" "moves s1 s2" "eof s2 \<or> (token_text s2 \<noteq> [] \<longrightarrow> chars_left s2 < chars_left s1)" by blast
  have m: "moves s s2" "tok_ok s2" using moves_trans [OF s1(2) s2(2)] by (auto simp: moves_def)
  consider "eof s2" | "\<not> eof s2" "token_text s2 \<noteq> []" | "\<not> eof s2" "token_text s2 = []" by blast
  then show ?thesis
  proof cases
    case 1
    then show ?thesis using m s1(1) s2(1) by (simp add: token_run_def plain_token_def)
  next
    case 2
    then have "chars_left s2 < chars_left s" using s2(3) s1(2) by (simp add: moves_def)
    then show ?thesis using 2 m s1(1) s2(1) by (simp add: token_run_def match_name_ok)
  next
    case 3
    from operator_ok [OF m(2) 3(1)] obtain s' where
      o': "token_operator s2 = Some s'" "moves s2 s'" "chars_left s' < chars_left s2" "plain_token (current_token s')" by blast
    have "chars_left s2 \<le> chars_left s" using m(1) by (simp add: moves_def)
    then show ?thesis using o' 3 s1(1) s2(1) moves_trans [OF m(1) o'(2)] by (simp add: token_run_def)
  qed
qed

text \<open>A token that was put back counts as half a character, unless it is the end.\<close>

definition budget :: "finsh_token \<Rightarrow> nat" where
  "budget s = 2 * chars_left s + (if replay s \<and> current_token s \<noteq> finsh_token_type_eof then 1 else 0)"

definition scan_ok :: "finsh_token \<Rightarrow> bool" where
  "scan_ok s \<longleftrightarrow> tok_ok s \<and> plain_token (current_token s)"

lemma token_ok:
  assumes "scan_ok s"
  shows "\<exists>s'. finsh_token_token s = Some s' \<and> scan_ok s' \<and> \<not> replay s' \<and> budget s' \<le> budget s \<and> budget (finsh_token_replay s') \<le> budget s
     \<and> (current_token s' \<noteq> finsh_token_type_eof \<longrightarrow> budget s' < budget s)"
proof (cases "replay s")
  case True
  then show ?thesis using assms by (simp add: finsh_token_token_def scan_ok_def budget_def finsh_token_replay_def)
next
  case False
  from assms have "tok_ok s" by (simp add: scan_ok_def)
  from token_run_ok [OF this] obtain s' where s': "token_run s = Some s'" "moves s s'" "plain_token (current_token s')"
    "current_token s' = finsh_token_type_eof \<or> chars_left s' < chars_left s" by blast
  then show ?thesis using False by (auto simp: finsh_token_token_def scan_ok_def budget_def moves_def finsh_token_replay_def)
qed

end
