(* ===== verification/RT_FinshReturn.thy ===== *)
theory RT_FinshReturn
  imports RT_FinshEnd
begin

text \<open>
  The functions of the parser return. Every call is given a number of nested calls that it needs, from
  the characters that are left and its place in the grammar; a function of the grammar leaves at least
  one token behind when there is one.
\<close>

section \<open>States\<close>

definition syms_ok :: "finsh_symbols \<Rightarrow> bool" where
  "syms_ok y \<longleftrightarrow> global_sysvar_list y = [] \<and> global_syscall_list y = []
     \<and> (\<forall>(n, a) \<in> set (sysvar_table y @ syscall_table y). length n < FINSH_NAME_MAX)"

definition parser_ok :: "finsh_parser \<Rightarrow> bool" where
  "parser_ok p \<longleftrightarrow> scan_ok (token p) \<and> syms_ok (symbols p)"

abbreviation B :: "finsh_parser \<Rightarrow> nat" where
  "B p \<equiv> budget (token p)"

definition full :: "finsh_parser \<Rightarrow> bool" where
  "full p \<longleftrightarrow> FINSH_NODE_MAX \<le> nodes_used p"

definition goes :: "finsh_parser \<Rightarrow> finsh_parser \<Rightarrow> bool" where
  "goes p q \<longleftrightarrow> parser_ok q \<and> B q \<le> B p \<and> nodes_used p \<le> nodes_used q"

definition nonend :: "finsh_parser \<Rightarrow> bool" where
  "nonend p \<longleftrightarrow> (\<exists>t q. next_token p = Some (t, q) \<and> t \<noteq> finsh_token_type_eof)"

lemma goes_refl: "parser_ok p \<Longrightarrow> goes p p"
  by (simp add: goes_def)

lemma goes_trans [trans]: "goes p q \<Longrightarrow> goes q r \<Longrightarrow> goes p r"
  by (auto simp: goes_def)

lemma goes_full: "goes p q \<Longrightarrow> full p \<Longrightarrow> full q"
  by (auto simp: goes_def full_def)

lemma error_set_budget [simp]: "budget (finsh_error_set e s) = budget s" "scan_ok (finsh_error_set e s) = scan_ok s"
proof -
  show "scan_ok (finsh_error_set e s) = scan_ok s" by (simp add: scan_ok_def) (simp add: finsh_error_set_def)
  have "chars_left (finsh_error_set e s) = chars_left s" by simp
  then show "budget (finsh_error_set e s) = budget s" unfolding budget_def by (simp add: finsh_error_set_def)
qed

lemma parse_error_ok [simp]:
  "parser_ok (parse_error e p) = parser_ok p" "B (parse_error e p) = B p" "nodes_used (parse_error e p) = nodes_used p"
  "symbols (parse_error e p) = symbols p"
  by (simp_all add: parser_ok_def parse_error_def)

lemma goes_error [simp]: "goes p (parse_error e q) = goes p q"
  by (simp add: goes_def)

lemma replay_scan_ok [simp]: "scan_ok (finsh_token_replay s) = scan_ok s"
  by (simp add: scan_ok_def finsh_token_replay_def)

lemma replay_ok [simp]: "parser_ok (replay_token p) = parser_ok p" "nodes_used (replay_token p) = nodes_used p" "symbols (replay_token p) = symbols p"
  by (simp_all add: parser_ok_def replay_token_def)

text \<open>Reading a token, and putting it back.\<close>

definition reads :: "finsh_parser \<Rightarrow> finsh_token_type \<Rightarrow> finsh_parser \<Rightarrow> bool" where
  "reads p t q \<longleftrightarrow> next_token p = Some (t, q) \<and> goes p q \<and> goes p (replay_token q) \<and> (t \<noteq> finsh_token_type_eof \<longrightarrow> B q < B p)
     \<and> plain_token t \<and> next_token (replay_token q) = Some (t, q) \<and> nodes_used q = nodes_used p \<and> symbols q = symbols p"

lemma next_token_ok:
  assumes "parser_ok p"
  shows "\<exists>t q. reads p t q"
proof -
  have "scan_ok (token p)" using assms by (simp add: parser_ok_def)
  from token_ok [OF this] obtain s where s: "finsh_token_token (token p) = Some s" "scan_ok s" "\<not> replay s" "budget s \<le> B p"
    "budget (finsh_token_replay s) \<le> B p" "current_token s \<noteq> finsh_token_type_eof \<longrightarrow> budget s < B p" by blast
  have "finsh_token_token (finsh_token_replay s) = Some s" using s(3) by (simp add: finsh_token_token_def finsh_token_replay_def)
  moreover have "plain_token (current_token s)" using s(2) by (simp add: scan_ok_def)
  ultimately have "reads p (current_token s) (p\<lparr>token := s\<rparr>)"
    using s assms by (simp add: reads_def next_token_def goes_def parser_ok_def replay_token_def)
  then show ?thesis by blast
qed

lemma readsD:
  assumes "reads p t q"
  shows "next_token p = Some (t, q)" "goes p q" "goes p (replay_token q)" "t \<noteq> finsh_token_type_eof \<Longrightarrow> B q < B p" "plain_token t"
    "next_token (replay_token q) = Some (t, q)" "nodes_used q = nodes_used p" "symbols q = symbols p" "parser_ok q" "parser_ok (replay_token q)"
  using assms by (auto simp: reads_def goes_def)

lemma reads_nonend: "reads p t q \<Longrightarrow> nonend p \<longleftrightarrow> t \<noteq> finsh_token_type_eof" "reads p t q \<Longrightarrow> nonend (replay_token q) \<longleftrightarrow> t \<noteq> finsh_token_type_eof"
  by (auto simp: reads_def nonend_def)

text \<open>Putting back a token that was not just read costs what reading it again gains.\<close>

lemma replay_cost: "B (replay_token p) \<le> Suc (B p)" "\<not> nonend (replay_token p) \<Longrightarrow> B (replay_token p) \<le> B p"
  by (auto simp: budget_def replay_token_def finsh_token_replay_def chars_left_def nonend_def next_token_def finsh_token_token_def)

lemma match_ok:
  assumes "parser_ok p"
  shows "\<exists>q. match_token t p = Some q \<and> goes p q \<and> nodes_used q = nodes_used p \<and> symbols q = symbols p"
proof -
  obtain t' q where r: "reads p t' q" using next_token_ok [OF assms] by blast
  let ?e = "parse_error FINSH_ERROR_INVALID_TOKEN q"
  have "replay_token ?e = parse_error FINSH_ERROR_INVALID_TOKEN (replay_token q)"
    by (simp add: replay_token_def parse_error_def finsh_token_replay_def finsh_error_set_def)
  then show ?thesis using readsD [OF r] by (simp add: match_token_def check_token_def)
qed

section \<open>Nodes\<close>

lemma allocate_ok:
  assumes "parser_ok p" "finsh_node_allocate i p = (e, q)"
  shows "goes p q" "full p \<Longrightarrow> e = NULL" "e = NULL \<Longrightarrow> full q" "token q = token p" "symbols q = symbols p"
  using assms by (auto simp: finsh_node_allocate_def goes_def full_def parser_ok_def split: if_splits)

lemma new_node_ok:
  assumes "parser_ok p" "new_node i p = (e, q)"
  shows "goes p q" "full p \<Longrightarrow> e = NULL" "B q = B p"
proof -
  obtain e' q' where a: "finsh_node_allocate i p = (e', q')" by fastforce
  have q: "e = e'" "q = (if e' = NULL then parse_error FINSH_ERROR_MEMORY_FULL q' else q')"
    using assms(2) a by (auto simp: new_node_def)
  note al = allocate_ok [OF assms(1) a]
  show "goes p q" using al(1) q(2) by simp
  show "full p \<Longrightarrow> e = NULL" using al(2) q(1) by simp
  show "B q = B p" using al(4) q(2) by simp
qed

lemma make_sys_node_ok:
  assumes "parser_ok p" "make_sys_node t a b p = (e, q)"
  shows "goes p q" "full p \<Longrightarrow> e = NULL" "e = NULL \<Longrightarrow> full q" "B q = B p"
proof -
  obtain e' q' where n: "finsh_node_allocate (new_info t) p = (e', q')" by fastforce
  note al = allocate_ok [OF assms(1) n]
  have q: "q = q' \<or> q = parse_error FINSH_ERROR_NULL_NODE q'" "e = NULL \<longleftrightarrow> e' = NULL"
    using assms(2) n by (cases e'; auto simp: make_sys_node_def split: if_splits)+
  show "goes p q" using al(1) q(1) by auto
  show "full p \<Longrightarrow> e = NULL" using al(2) q(2) by simp
  show "e = NULL \<Longrightarrow> full q" using al(3) q by (auto simp: full_def)
  show "B q = B p" using al(4) q(1) by auto
qed

lemma table_lookup_ok:
  "\<forall>(n, a) \<in> set ts. length n < FINSH_NAME_MAX \<Longrightarrow> length name \<le> FINSH_NAME_MAX \<Longrightarrow> \<exists>a. table_lookup ts name = Some a"
  by (induction ts name rule: table_lookup.induct) auto

lemma find_symbol_ok:
  assumes "syms_ok y" "length name \<le> FINSH_NAME_MAX"
  shows "\<exists>k a. find_symbol name y = Some (k, a)"
proof -
  obtain a where a: "table_lookup (sysvar_table y) name = Some a" using table_lookup_ok [of "sysvar_table y"] assms by (auto simp: syms_ok_def)
  obtain b where b: "table_lookup (syscall_table y) name = Some b" using table_lookup_ok [of "syscall_table y"] assms by (auto simp: syms_ok_def)
  show ?thesis using assms(1) a b by (auto simp: find_symbol_def finsh_sysvar_lookup_def finsh_syscall_lookup_def syms_ok_def Let_def)
qed

lemma new_id_ok:
  assumes "parser_ok p" "length name \<le> FINSH_NAME_MAX"
  shows "\<exists>e q. finsh_node_new_id name p = Some (e, q) \<and> goes p q \<and> (full p \<longrightarrow> e = NULL) \<and> B q = B p"
proof -
  have "syms_ok (symbols p)" using assms(1) by (simp add: parser_ok_def)
  from find_symbol_ok [OF this assms(2)] obtain k a where f: "find_symbol name (symbols p) = Some (k, a)" by blast
  obtain e q where n: "new_node ((new_info FINSH_NODE_ID)\<lparr>node_id := a, idtype := k\<rparr>) p = (e, q)" by fastforce
  show ?thesis
  proof (cases "a = 0")
    case True
    then show ?thesis using f goes_refl [OF assms(1)] by (simp add: finsh_node_new_id_def)
  next
    case False
    then show ?thesis using f n new_node_ok [OF assms(1) n] by (simp add: finsh_node_new_id_def)
  qed
qed

section \<open>Types and names\<close>

lemma reads_next: "reads p t q \<Longrightarrow> next_token p = Some (t, q)"
  by (simp add: reads_def)

lemma proc_pointer_ok:
  assumes "parser_ok p"
  shows "\<exists>ty q. proc_pointer type p = Some (ty, q) \<and> goes p q"
proof -
  obtain t q where r: "reads p t q" using next_token_ok [OF assms] by blast
  show ?thesis using readsD [OF r] by (simp add: proc_pointer_def)
qed

lemma proc_type_after:
  assumes r: "reads p t q" and t: "is_base_type t \<or> t = finsh_token_type_unsigned"
  shows "\<exists>ty q'. proc_type p = Some (ty, q') \<and> goes q q'"
proof -
  obtain t2 q2 where r2: "reads q t2 q2" using next_token_ok [OF readsD(9) [OF r]] by blast
  have p1: "\<exists>ty q'. proc_pointer type q = Some (ty, q') \<and> goes q q'" for type
    using proc_pointer_ok [OF readsD(9) [OF r]] by blast
  have p2: "\<exists>ty q'. proc_pointer type q2 = Some (ty, q') \<and> goes q q'" for type
    using proc_pointer_ok [OF readsD(9) [OF r2]] goes_trans [OF readsD(2) [OF r2]] by blast
  let ?e = "parse_error FINSH_ERROR_EXPECT_TYPE (replay_token q2)"
  have e: "goes q ?e" "parser_ok ?e" using readsD(3,10) [OF r2] by simp_all
  have p3: "\<exists>ty q'. proc_pointer type ?e = Some (ty, q') \<and> goes q q'" for type
    using proc_pointer_ok [OF e(2)] goes_trans [OF e(1)] by blast
  have n2: "\<exists>ty q'. Some (no_type q2) = Some (ty, q') \<and> goes q q'" using readsD(3) [OF r2] by (simp add: no_type_def)
  have "t = finsh_token_type_unsigned" if "signed_type t = None" using t that by (auto simp: signed_type_def is_base_type_def)
  then show ?thesis
    using p1 p2 p3 n2 by (simp add: proc_type_def readsD(1) [OF r] readsD(1) [OF r2] split: option.split)
qed

lemma proc_type_ok:
  assumes "parser_ok p"
  shows "\<exists>ty q. proc_type p = Some (ty, q) \<and> goes p q"
proof -
  obtain t q where r: "reads p t q" using next_token_ok [OF assms] by blast
  show ?thesis
  proof (cases "is_base_type t \<or> t = finsh_token_type_unsigned")
    case True
    then show ?thesis using proc_type_after [OF r] goes_trans [OF readsD(2) [OF r]] by blast
  next
    case False
    then have "signed_type t = None" by (auto simp: signed_type_def is_base_type_def)
    then show ?thesis using False readsD(1,3) [OF r] by (simp add: proc_type_def no_type_def)
  qed
qed

lemma proc_identifier_ok:
  assumes "parser_ok p"
  shows "\<exists>name q. proc_identifier p = Some (name, q) \<and> goes p q \<and> length name \<le> FINSH_NAME_MAX"
  using match_ok [OF assms, of finsh_token_type_identifier] by (auto simp: proc_identifier_def)

section \<open>Calls\<close>

primrec rank :: "expr_call \<Rightarrow> nat" where
  "rank Assign_expr = 10"
| "rank (Binary_expr lv) = 3 + lv"
| "rank (Binary_loop lv e) = 0"
| "rank Cast_expr = 3"
| "rank Unary_expr = 2"
| "rank Postfix_expr = 1"
| "rank (Postfix_loop e) = 0"
| "rank Primary_expr = 0"
| "rank Param_list = 11"
| "rank (Param_loop ns) = 0"

primrec valid :: "expr_call \<Rightarrow> bool" where
  "valid Assign_expr = True"
| "valid (Binary_expr lv) = (1 \<le> lv \<and> lv \<le> 6)"
| "valid (Binary_loop lv e) = (1 \<le> lv \<and> lv \<le> 6)"
| "valid Cast_expr = True"
| "valid Unary_expr = True"
| "valid Postfix_expr = True"
| "valid (Postfix_loop e) = True"
| "valid Primary_expr = True"
| "valid Param_list = True"
| "valid (Param_loop ns) = True"

primrec loop :: "expr_call \<Rightarrow> bool" where
  "loop Assign_expr = False"
| "loop (Binary_expr lv) = False"
| "loop (Binary_loop lv e) = True"
| "loop Cast_expr = False"
| "loop Unary_expr = False"
| "loop Postfix_expr = False"
| "loop (Postfix_loop e) = True"
| "loop Primary_expr = False"
| "loop Param_list = False"
| "loop (Param_loop ns) = True"

text \<open>The calls that have no node when the table is full.\<close>

primrec null_when_full :: "expr_call \<Rightarrow> bool" where
  "null_when_full Assign_expr = True"
| "null_when_full (Binary_expr lv) = True"
| "null_when_full (Binary_loop lv e) = (e = NULL)"
| "null_when_full Cast_expr = True"
| "null_when_full Unary_expr = True"
| "null_when_full Postfix_expr = True"
| "null_when_full (Postfix_loop e) = (e = NULL)"
| "null_when_full Primary_expr = True"
| "null_when_full Param_list = False"
| "null_when_full (Param_loop ns) = False"

definition need :: "expr_call \<Rightarrow> nat \<Rightarrow> nat" where
  "need c b = 16 * b + rank c + 1"

definition served :: "expr_call \<Rightarrow> finsh_parser \<Rightarrow> parse_result \<Rightarrow> bool" where
  "served c p r \<longleftrightarrow> (\<exists>e q. r = Some (e, q) \<and> goes p q \<and> (\<not> loop c \<longrightarrow> nonend p \<longrightarrow> B q < B p) \<and> (null_when_full c \<longrightarrow> full p \<longrightarrow> e = NULL))"

definition serves :: "calls \<Rightarrow> nat \<Rightarrow> bool" where
  "serves call N \<longleftrightarrow> (\<forall>c p. parser_ok p \<longrightarrow> valid c \<longrightarrow> need c (B p) \<le> N \<longrightarrow> served c p (call c p))"

lemma rank_bound: "valid c \<Longrightarrow> rank c \<le> 11"
  by (cases c) auto

lemma need_less: "b < b' \<Longrightarrow> need c b' \<le> Suc N \<Longrightarrow> valid c' \<Longrightarrow> need c' b \<le> N"
  using rank_bound [of c'] by (simp add: need_def)

lemma need_same: "b \<le> b' \<Longrightarrow> need c b' \<le> Suc N \<Longrightarrow> rank c' < rank c \<Longrightarrow> need c' b \<le> N"
  by (simp add: need_def)

lemma servesE:
  assumes "serves call N" "parser_ok p" "valid c" "need c (B p) \<le> N"
  obtains e q where "call c p = Some (e, q)" "goes p q" "\<not> loop c \<longrightarrow> nonend p \<longrightarrow> B q < B p" "null_when_full c \<longrightarrow> full p \<longrightarrow> e = NULL"
proof -
  have "served c p (call c p)" using assms unfolding serves_def by blast
  then show ?thesis using that unfolding served_def by blast
qed

lemma goesD: "goes p q \<Longrightarrow> B q \<le> B p" "goes p q \<Longrightarrow> parser_ok q"
  by (simp_all add: goes_def)

text \<open>Handing the state to another call.\<close>

lemma served_same:
  assumes "serves call N" "parser_ok p" "valid c'" "need c (B p) \<le> Suc N" "rank c' < rank c" "goes p q"
    "loop c' \<Longrightarrow> loop c \<or> (nonend p \<longrightarrow> B q < B p)" "nonend p \<Longrightarrow> nonend q \<or> B q < B p" "null_when_full c \<Longrightarrow> full p \<Longrightarrow> null_when_full c'"
  shows "served c p (call c' q)"
proof -
  have n: "need c' (B q) \<le> N" using need_same [OF goesD(1) [OF assms(6)] assms(4,5)] .
  from servesE [OF assms(1) goesD(2) [OF assms(6)] assms(3) n]
  obtain e r where r: "call c' q = Some (e, r)" "goes q r" "\<not> loop c' \<longrightarrow> nonend q \<longrightarrow> B r < B q" "null_when_full c' \<longrightarrow> full q \<longrightarrow> e = NULL" .
  have "B r < B p" if "\<not> loop c" "nonend p"
    using assms(7,8) that r(3) goesD(1) [OF r(2)] goesD(1) [OF assms(6)] by (cases "loop c'") (auto intro: le_less_trans less_le_trans)
  moreover have "e = NULL" if "null_when_full c" "full p" using r(4) assms(9) that goes_full [OF assms(6)] by blast
  ultimately show ?thesis unfolding served_def using r(1) goes_trans [OF assms(6) r(2)] by auto
qed

text \<open>A call behind a token that is gone.\<close>

lemma served_after:
  assumes "serves call N" "goes p q" "B q < B p" "valid c'" "need c (B p) \<le> Suc N"
  shows "\<exists>e r. call c' q = Some (e, r) \<and> goes p r \<and> B r < B p \<and> (null_when_full c' \<longrightarrow> full p \<longrightarrow> e = NULL)"
proof -
  have n: "need c' (B q) \<le> N" using need_less [OF assms(3,5,4)] .
  obtain e r where r: "call c' q = Some (e, r)" "goes q r" "null_when_full c' \<longrightarrow> full q \<longrightarrow> e = NULL"
    using servesE [OF assms(1) goesD(2) [OF assms(2)] assms(4) n] by metis
  show ?thesis
    using r(1) goes_trans [OF assms(2) r(2)] goesD(1) [OF r(2)] assms(3) r(3) goes_full [OF assms(2)] by auto
qed

lemma servedI:
  "r = Some (e, q) \<Longrightarrow> goes p q \<Longrightarrow> (\<not> loop c \<Longrightarrow> nonend p \<Longrightarrow> B q < B p) \<Longrightarrow> (null_when_full c \<Longrightarrow> full p \<Longrightarrow> e = NULL) \<Longrightarrow> served c p r"
  by (auto simp: served_def)

lemma assign_ok:
  assumes call: "serves call N" and p: "parser_ok p" and need: "need Assign_expr (B p) \<le> Suc N"
  shows "served Assign_expr p (proc_assign_expr call p)"
proof -
  have "need (Binary_expr 6) (B p) \<le> N" by (rule need_same [OF order_refl need]) simp
  then obtain a p1 where a: "call (Binary_expr 6) p = Some (a, p1)" "goes p p1" "nonend p \<longrightarrow> B p1 < B p" "full p \<longrightarrow> a = NULL"
    using servesE [OF call p, of "Binary_expr 6"] by auto
  obtain t p2 where t: "reads p1 t p2" using next_token_ok goesD(2) [OF a(2)] by blast
  show ?thesis
  proof (cases "t = finsh_token_type_assign")
    case True
    have less: "B p2 < B p" using readsD(4) [OF t] True goesD(1) [OF a(2)] by simp
    obtain b p3 where b: "call Assign_expr p2 = Some (b, p3)" "goes p p3" "B p3 < B p"
      using served_after [OF call goes_trans [OF a(2) readsD(2) [OF t]] less _ need, of Assign_expr] by auto
    obtain e p4 where e: "make_sys_node FINSH_NODE_SYS_ASSIGN a b p3 = (e, p4)" by fastforce
    note m = make_sys_node_ok [OF goesD(2) [OF b(2)] e]
    show ?thesis using a(1) readsD(1) [OF t] True b e m goes_trans [OF b(2) m(1)] goes_full [OF b(2)]
      by (intro servedI [where e = e and q = p4]) (simp_all add: proc_assign_expr_def)
  next
    case False
    have "goes p (replay_token p2)" using goes_trans [OF a(2) readsD(3) [OF t]] .
    moreover have "B (replay_token p2) \<le> B p1" using goesD(1) [OF readsD(3) [OF t]] .
    ultimately show ?thesis using a readsD(1) [OF t] False
      by (intro servedI [where e = a and q = "replay_token p2"]) (auto simp: proc_assign_expr_def)
  qed
qed

lemma lower_expr_simps: "1 \<le> lv \<Longrightarrow> lv \<le> 6 \<Longrightarrow> valid (lower_expr lv)" "1 \<le> lv \<Longrightarrow> rank (lower_expr lv) = 2 + lv"
    "\<not> loop (lower_expr lv)" "null_when_full (lower_expr lv)"
  by (auto simp: lower_expr_def)

lemma binary_ok:
  assumes call: "serves call N" and p: "parser_ok p" and need: "need (Binary_expr lv) (B p) \<le> Suc N" and lv: "1 \<le> lv" "lv \<le> 6"
  shows "served (Binary_expr lv) p (proc_binary_expr lv call p)"
proof -
  have n: "need (lower_expr lv) (B p) \<le> N" by (rule need_same [OF order_refl need]) (simp add: lower_expr_simps(2) [OF lv(1)])
  obtain a p1 where a: "call (lower_expr lv) p = Some (a, p1)" "goes p p1" "nonend p \<longrightarrow> B p1 < B p" "full p \<longrightarrow> a = NULL"
    using servesE [OF call p lower_expr_simps(1) [OF lv] n] lower_expr_simps(3,4) by metis
  have "served (Binary_expr lv) p (call (Binary_loop lv a) p1)"
    by (rule served_same [OF call p _ need _ a(2)]) (use lv a in auto)
  then show ?thesis using a(1) by (simp add: proc_binary_expr_def)
qed

lemma binary_node_ok:
  assumes "parser_ok p" "binary_node f e e' p = (r, q)"
  shows "goes p q" "full p \<Longrightarrow> e = NULL \<Longrightarrow> r = NULL" "B q = B p"
  using assms make_sys_node_ok [OF assms(1)] goes_refl [OF assms(1)] by (auto simp: binary_node_def split: if_splits)

lemma level_op_eof [simp]: "level_op lv finsh_token_type_eof = None"
  by (simp add: level_op_def)

lemma binary_loop_ok:
  assumes call: "serves call N" and p: "parser_ok p" and need: "need (Binary_loop lv e) (B p) \<le> Suc N" and lv: "1 \<le> lv" "lv \<le> 6"
  shows "served (Binary_loop lv e) p (binary_loop lv e call p)"
proof -
  obtain t p1 where t: "reads p t p1" using next_token_ok [OF p] by blast
  show ?thesis
  proof (cases "level_op lv t")
    case None
    then show ?thesis using readsD(1,3) [OF t]
      by (intro servedI [where e = e and q = "replay_token p1"]) (auto simp: binary_loop_def)
  next
    case (Some f)
    then have "t \<noteq> finsh_token_type_eof" by auto
    then have less: "B p1 < B p" using readsD(4) [OF t] by blast
    obtain e' p2 where e': "call (lower_expr lv) p1 = Some (e', p2)" "goes p p2" "B p2 < B p" "full p \<longrightarrow> e' = NULL"
      using served_after [OF call readsD(2) [OF t] less lower_expr_simps(1) [OF lv] need] lower_expr_simps(4) by auto
    obtain e2 p3 where b: "binary_node f e e' p2 = (e2, p3)" by fastforce
    note m = binary_node_ok [OF goesD(2) [OF e'(2)] b]
    have p3: "goes p p3" "B p3 < B p" using goes_trans [OF e'(2) m(1)] m(3) e'(3) by simp_all
    obtain e3 p4 where "call (Binary_loop lv e2) p3 = Some (e3, p4)" "goes p p4" "B p4 < B p" "e2 = NULL \<longrightarrow> full p \<longrightarrow> e3 = NULL"
      using served_after [OF call p3 _ need, of "Binary_loop lv e2"] lv by auto
    then show ?thesis using Some readsD(1) [OF t] e' b m(2) goes_full [OF e'(2)]
      by (intro servedI [where e = e3 and q = p4]) (auto simp: binary_loop_def)
  qed
qed

lemma nonend_reads: "reads p t q \<Longrightarrow> nonend p \<Longrightarrow> nonend (replay_token q)"
  using reads_nonend by blast

lemma cast_ok:
  assumes call: "serves call N" and p: "parser_ok p" and need: "need Cast_expr (B p) \<le> Suc N"
  shows "served Cast_expr p (proc_cast_expr call p)"
proof -
  obtain t p1 where t: "reads p t p1" using next_token_ok [OF p] by blast
  show ?thesis
  proof (cases "t = finsh_token_type_left_paren")
    case True
    then have less: "B p1 < B p" using readsD(4) [OF t] by simp
    obtain ty p2 where p2: "proc_type p1 = Some (ty, p2)" "goes p1 p2" using proc_type_ok [OF readsD(9) [OF t]] by blast
    obtain p3 where p3: "match_token finsh_token_type_right_paren p2 = Some p3" "goes p2 p3" using match_ok [OF goesD(2) [OF p2(2)]] by blast
    have g3: "goes p p3" "B p3 < B p"
      using goes_trans [OF readsD(2) [OF t] goes_trans [OF p2(2) p3(2)]] goesD(1) [OF goes_trans [OF p2(2) p3(2)]] less by simp_all
    obtain e p4 where e: "call Cast_expr p3 = Some (e, p4)" "goes p p4" "B p4 < B p" "full p \<longrightarrow> e = NULL"
      using served_after [OF call g3 _ need, of Cast_expr] by auto
    have rep: "goes p (replay_token p4)" using e(2,3) replay_cost(1) [of p4] by (auto simp: goes_def)
    have "nonend (replay_token p4) \<or> B (replay_token p4) < B p" using replay_cost(2) [of p4] e(3) by (cases "nonend (replay_token p4)") auto
    then have "served Cast_expr p (call Unary_expr (replay_token p4))"
      by (intro served_same [OF call p _ need _ rep]) auto
    moreover have "served Cast_expr p (Some (set_cast ty e, p4))" using e(2-4) by (intro servedI [OF refl]) auto
    ultimately show ?thesis using True readsD(1) [OF t] p2(1) p3(1) e(1) by (auto simp: proc_cast_expr_def)
  next
    case False
    have "served Cast_expr p (call Unary_expr (replay_token p1))"
      by (rule served_same [OF call p _ need _ readsD(3) [OF t]]) (use nonend_reads [OF t] in auto)
    then show ?thesis using False readsD(1) [OF t] by (simp add: proc_cast_expr_def)
  qed
qed

lemma unary_ok:
  assumes call: "serves call N" and p: "parser_ok p" and need: "need Unary_expr (B p) \<le> Suc N"
  shows "served Unary_expr p (proc_unary_expr call p)"
proof -
  obtain t p1 where t: "reads p t p1" using next_token_ok [OF p] by blast
  have post: "served Unary_expr p (call Postfix_expr (replay_token p1))"
    by (rule served_same [OF call p _ need _ readsD(3) [OF t]]) (use nonend_reads [OF t] in auto)
  show ?thesis
  proof (cases "t = finsh_token_type_eof")
    case True
    then show ?thesis using readsD(1) [OF t] post by (simp add: proc_unary_expr_def unary_type_def)
  next
    case False
    then have less: "B p1 < B p" using readsD(4) [OF t] by simp
    obtain e p2 where e: "call Cast_expr p1 = Some (e, p2)" "goes p p2" "B p2 < B p" "full p \<longrightarrow> e = NULL"
      using served_after [OF call readsD(2) [OF t] less _ need, of Cast_expr] by auto
    have made: "served Unary_expr p (Some (make_sys_node ty a b q))" if "goes p q" "B q < B p" for ty a b q
    proof -
      obtain r q' where m: "make_sys_node ty a b q = (r, q')" by fastforce
      note m' = make_sys_node_ok [OF goesD(2) [OF that(1)] m]
      show ?thesis using that m m' goes_trans [OF that(1) m'(1)] goes_full [OF that(1)] by (intro servedI [where e = r and q = q']) simp_all
    qed
    obtain z p3 where z: "finsh_node_new_long 0 p2 = (z, p3)" by fastforce
    note n = new_node_ok [OF goesD(2) [OF e(2)] z [unfolded finsh_node_new_long_def]]
    have p3: "goes p p3" "B p3 < B p" using goes_trans [OF e(2) n(1)] n(3) e(3) by simp_all
    have "served Unary_expr p (Some (e, p2))" using e by (simp add: served_def)
    then show ?thesis using readsD(1) [OF t] e(1) z made [OF e(2,3)] made [OF p3] post
      by (auto simp: proc_unary_expr_def split: option.split)
  qed
qed

lemma postfix_ok:
  assumes call: "serves call N" and p: "parser_ok p" and need: "need Postfix_expr (B p) \<le> Suc N"
  shows "served Postfix_expr p (proc_postfix_expr call p)"
proof -
  have n: "need Primary_expr (B p) \<le> N" by (rule need_same [OF order_refl need]) simp
  obtain a p1 where a: "call Primary_expr p = Some (a, p1)" "goes p p1" "nonend p \<longrightarrow> B p1 < B p" "full p \<longrightarrow> a = NULL"
    using servesE [OF call p _ n] by auto
  have "served Postfix_expr p (call (Postfix_loop a) p1)"
    by (rule served_same [OF call p _ need _ a(2)]) (use a in auto)
  then show ?thesis using a(1) by (simp add: proc_postfix_expr_def)
qed

text \<open>The loop behind a primary expression: a node is made from it, and the loop goes on.\<close>

lemma postfix_step:
  assumes call: "serves call N" and need: "need (Postfix_loop e) (B p) \<le> Suc N" and q: "goes p q" "B q < B p"
  shows "served (Postfix_loop e) p (do { let (e2, p2) = make_sys_node ty e b q; call (Postfix_loop e2) p2 })"
proof -
  obtain r q' where m: "make_sys_node ty e b q = (r, q')" by fastforce
  note m' = make_sys_node_ok [OF goesD(2) [OF q(1)] m]
  have q': "goes p q'" "B q' < B p" using goes_trans [OF q(1) m'(1)] m'(4) q(2) by simp_all
  obtain e3 p4 where "call (Postfix_loop r) q' = Some (e3, p4)" "goes p p4" "B p4 < B p" "r = NULL \<longrightarrow> full p \<longrightarrow> e3 = NULL"
    using served_after [OF call q' _ need, of "Postfix_loop r"] by auto
  then show ?thesis using m m'(2) goes_full [OF q(1)] by (intro servedI [where e = e3 and q = p4]) auto
qed

lemma call_params_ok:
  assumes call: "serves call N" and need: "need c (B p) \<le> Suc N" and q: "goes p q" "B q < B p"
  shows "\<exists>l r. call_params call q = Some (l, r) \<and> goes p r \<and> B r < B p"
proof -
  obtain t q1 where t: "reads q t q1" using next_token_ok goesD(2) [OF q(1)] by blast
  have q1: "goes p (replay_token q1)" "B (replay_token q1) < B p" "goes p q1" "B q1 < B p"
    using goes_trans [OF q(1) readsD(3) [OF t]] goesD(1) [OF readsD(3) [OF t]]
      goes_trans [OF q(1) readsD(2) [OF t]] goesD(1) [OF readsD(2) [OF t]] q(2) by simp_all
  obtain l q2 where l: "call Param_list (replay_token q1) = Some (l, q2)" "goes p q2" "B q2 < B p"
    using served_after [OF call q1(1,2) _ need, of Param_list] by auto
  obtain q3 where m: "match_token finsh_token_type_right_paren q2 = Some q3" "goes q2 q3" using match_ok [OF goesD(2) [OF l(2)]] by blast
  have "goes p q3" "B q3 < B p" using goes_trans [OF l(2) m(2)] goesD(1) [OF m(2)] l(3) by simp_all
  then show ?thesis using q1(3,4) l(1) m(1) readsD(1) [OF t] by (simp add: call_params_def)
qed

lemma postfix_loop_ok:
  assumes call: "serves call N" and p: "parser_ok p" and need: "need (Postfix_loop e) (B p) \<le> Suc N"
  shows "served (Postfix_loop e) p (postfix_loop e call p)"
proof -
  obtain t p1 where t: "reads p t p1" using next_token_ok [OF p] by blast
  have last: "served (Postfix_loop e) p (Some (e, replay_token p1))" using readsD(3) [OF t] by (simp add: served_def)
  show ?thesis
  proof (cases "t = finsh_token_type_eof")
    case True
    then show ?thesis using last readsD(1) [OF t] by (simp add: postfix_loop_def)
  next
    case False
    then have q: "goes p p1" "B p1 < B p" using readsD(2,4) [OF t] by simp_all
    obtain l p2 where l: "call_params call p1 = Some (l, p2)" "goes p p2" "B p2 < B p" using call_params_ok [OF call need q] by blast
    show ?thesis using last readsD(1) [OF t] l(1) postfix_step [OF call need q] postfix_step [OF call need l(2,3)]
      by (simp add: postfix_loop_def)
  qed
qed

text \<open>An identifier that was put back is read again.\<close>

lemma identifier_again:
  assumes "reads p finsh_token_type_identifier q"
  shows "\<exists>name. proc_identifier (replay_token q) = Some (name, q) \<and> length name \<le> FINSH_NAME_MAX"
  using readsD(6) [OF assms] by (simp add: proc_identifier_def match_token_def check_token_def)

lemma primary_token_ok:
  assumes t: "reads p t q"
  shows "\<exists>e r. primary_token t q = Some (e, r) \<and> goes q r \<and> (full q \<longrightarrow> e = NULL)"
proof -
  have ok: "parser_ok q" using readsD(9) [OF t] .
  have new: "\<exists>e r. Some (new_node i q) = Some (e, r) \<and> goes q r \<and> (full q \<longrightarrow> e = NULL)" for i
  proof -
    obtain e r where n: "new_node i q = (e, r)" by fastforce
    show ?thesis using n new_node_ok [OF ok n] by simp
  qed
  have id: "\<exists>e r. primary_token t q = Some (e, r) \<and> goes q r \<and> (full q \<longrightarrow> e = NULL)" if i: "t = finsh_token_type_identifier"
  proof -
    obtain name where "proc_identifier (replay_token q) = Some (name, q)" "length name \<le> FINSH_NAME_MAX"
      using identifier_again t i by blast
    then show ?thesis using new_id_ok [OF ok, of name] i by (auto simp: primary_token_def)
  qed
  have "plain_token t" using readsD(5) [OF t] .
  then show ?thesis using id new goes_refl [OF ok]
    by (cases t) (simp_all add: primary_token_def plain_token_def finsh_node_new_int_def finsh_node_new_long_def finsh_node_new_ptr_def)
qed

lemma primary_ok:
  assumes call: "serves call N" and p: "parser_ok p" and need: "need Primary_expr (B p) \<le> Suc N"
  shows "served Primary_expr p (proc_primary_expr call p)"
proof -
  obtain t p1 where t: "reads p t p1" using next_token_ok [OF p] by blast
  show ?thesis
  proof (cases "t = finsh_token_type_left_paren")
    case True
    then have less: "B p1 < B p" using readsD(4) [OF t] by simp
    obtain e p2 where e: "call Assign_expr p1 = Some (e, p2)" "goes p p2" "B p2 < B p" "full p \<longrightarrow> e = NULL"
      using served_after [OF call readsD(2) [OF t] less _ need, of Assign_expr] by auto
    obtain p3 where m: "match_token finsh_token_type_right_paren p2 = Some p3" "goes p2 p3" using match_ok [OF goesD(2) [OF e(2)]] by blast
    have "B p3 < B p" using goesD(1) [OF m(2)] e(3) by simp
    then show ?thesis using True readsD(1) [OF t] e m(1) goes_trans [OF e(2) m(2)]
      by (intro servedI [where e = e and q = p3]) (simp_all add: proc_primary_expr_def)
  next
    case False
    obtain e r where e: "primary_token t p1 = Some (e, r)" "goes p1 r" "full p1 \<longrightarrow> e = NULL" using primary_token_ok [OF t] by blast
    have "B r < B p" if "nonend p"
    proof -
      have "B p1 < B p" using reads_nonend(1) [OF t] that readsD(4) [OF t] by simp
      then show ?thesis using goesD(1) [OF e(2)] by simp
    qed
    then show ?thesis using False readsD(1) [OF t] e goes_trans [OF readsD(2) [OF t] e(2)] goes_full [OF readsD(2) [OF t]]
      by (intro servedI [where e = e and q = r]) (simp_all add: proc_primary_expr_def)
  qed
qed

lemma param_list_ok:
  assumes call: "serves call N" and p: "parser_ok p" and need: "need Param_list (B p) \<le> Suc N"
  shows "served Param_list p (proc_param_list call p)"
proof -
  have n: "need Assign_expr (B p) \<le> N" by (rule need_same [OF order_refl need]) simp
  obtain a p1 where a: "call Assign_expr p = Some (a, p1)" "goes p p1" "nonend p \<longrightarrow> B p1 < B p" "full p \<longrightarrow> a = NULL"
    using servesE [OF call p _ n] by auto
  have "served Param_list p (call (Param_loop [a]) p1)"
    by (rule served_same [OF call p _ need _ a(2)]) (use a in auto)
  moreover have "served Param_list p (Some (NULL, p1))" using a(2,3) by (simp add: served_def)
  ultimately show ?thesis using a(1) by (simp add: proc_param_list_def)
qed

lemma param_loop_ok:
  assumes call: "serves call N" and p: "parser_ok p" and need: "need (Param_loop ns) (B p) \<le> Suc N"
  shows "served (Param_loop ns) p (param_loop ns call p)"
proof -
  obtain t p1 where t: "reads p t p1" using next_token_ok [OF p] by blast
  show ?thesis
  proof (cases "t = finsh_token_type_comma")
    case True
    then have less: "B p1 < B p" using readsD(4) [OF t] by simp
    obtain e p2 where e: "call Assign_expr p1 = Some (e, p2)" "goes p p2" "B p2 < B p"
      using served_after [OF call readsD(2) [OF t] less _ need, of Assign_expr] by auto
    have again: "served (Param_loop ns) p (call (Param_loop ms) q)" if "goes p q" "B q < B p" for ms q
      using served_after [OF call that _ need, of "Param_loop ms"] by (auto simp: served_def)
    show ?thesis using True readsD(1) [OF t] e again [of p2] again [of "parse_error FINSH_ERROR_EXPECT_OPERATOR p2"]
      by (simp add: param_loop_def)
  next
    case False
    then show ?thesis using readsD(1,3) [OF t] by (simp add: param_loop_def served_def)
  qed
qed

lemma expr_body_ok:
  assumes "serves call N" "parser_ok p" "valid c" "need c (B p) \<le> Suc N"
  shows "served c p (expr_body c call p)"
  using assms assign_ok [OF assms(1,2)] binary_ok [OF assms(1,2)] binary_loop_ok [OF assms(1,2)] cast_ok [OF assms(1,2)]
    unary_ok [OF assms(1,2)] postfix_ok [OF assms(1,2)] postfix_loop_ok [OF assms(1,2)] primary_ok [OF assms(1,2)]
    param_list_ok [OF assms(1,2)] param_loop_ok [OF assms(1,2)]
  by (cases c) (simp_all add: expr_body_def)

lemma parse_serves: "serves (parse n) n"
proof (induction n)
  case 0
  then show ?case by (simp add: serves_def need_def)
next
  case (Suc n)
  then show ?case using expr_body_ok [OF Suc] unfolding serves_def by simp
qed

section \<open>Declarations\<close>

lemma var_insert_ok: "syms_ok (snd (finsh_var_insert name type y)) = syms_ok y"
  by (simp add: finsh_var_insert_def syms_ok_def split: option.split)

lemma declare_id_ok:
  assumes "parser_ok p"
  shows "\<exists>name q. declare_id type p = Some (name, q) \<and> goes p q \<and> length name \<le> FINSH_NAME_MAX"
proof -
  obtain name q where n: "proc_identifier p = Some (name, q)" "goes p q" "length name \<le> FINSH_NAME_MAX"
    using proc_identifier_ok [OF assms] by blast
  obtain i y where y: "finsh_var_insert name type (symbols q) = (i, y)" by fastforce
  then have "syms_ok y = syms_ok (symbols q)" using var_insert_ok [of name type "symbols q"] by simp
  then have "goes p (q\<lparr>symbols := y\<rparr>)" using n(2) by (simp add: goes_def parser_ok_def)
  then show ?thesis using n y by (simp add: declare_id_def)
qed

lemma decl_assign_ok:
  assumes p: "parser_ok p" and n: "need Assign_expr (B p) \<le> n" and name: "length name \<le> FINSH_NAME_MAX" and lost: "lost \<longrightarrow> full p"
  shows "\<exists>t ns' lost' q. decl_assign n name ns lost p = Some (t, ns', lost', q) \<and> goes p q \<and> (lost' \<longrightarrow> full q)"
proof -
  obtain a p1 where a: "parse n Assign_expr p = Some (a, p1)" "goes p p1" "nonend p \<longrightarrow> B p1 < B p" "full p \<longrightarrow> a = NULL"
    using servesE [OF parse_serves p _ n] by auto
  show ?thesis
  proof (cases "a = NULL")
    case True
    then show ?thesis using a lost goes_full [OF a(2)] by (auto simp: decl_assign_def)
  next
    case False
    then have "\<not> lost" using a(4) lost by auto
    obtain i p2 where i: "finsh_node_new_id name p1 = Some (i, p2)" "goes p1 p2" using new_id_ok [OF goesD(2) [OF a(2)] name] by blast
    obtain e p3 where e: "make_sys_node FINSH_NODE_SYS_ASSIGN i a p2 = (e, p3)" by fastforce
    note m = make_sys_node_ok [OF goesD(2) [OF i(2)] e]
    obtain t p4 where t: "reads p3 t p4" using next_token_ok [OF goesD(2) [OF m(1)]] by blast
    have "goes p p4" using goes_trans [OF a(2) goes_trans [OF i(2) goes_trans [OF m(1) readsD(2) [OF t]]]] .
    moreover have "e = NULL \<longrightarrow> full p4" using m(3) goes_full [OF readsD(2) [OF t]] by blast
    ultimately show ?thesis using False \<open>\<not> lost\<close> a(1) i(1) e readsD(1) [OF t] by (simp add: decl_assign_def)
  qed
qed

lemma decl_loop_ok:
  "parser_ok p \<Longrightarrow> 16 * B p + 12 \<le> n \<Longrightarrow> lost \<longrightarrow> full p \<Longrightarrow> \<exists>t' ns' q. decl_loop n type t ns lost p = Some (t', ns', q) \<and> goes p q"
proof (induction n arbitrary: t ns lost p)
  case 0
  then show ?case by simp
next
  case (Suc n)
  obtain name p1 where p1: "declare_id type p = Some (name, p1)" "goes p p1" "length name \<le> FINSH_NAME_MAX"
    using declare_id_ok [OF Suc.prems(1)] by blast
  obtain t2 p2 where t2: "reads p1 t2 p2" using next_token_ok [OF goesD(2) [OF p1(2)]] by blast
  have g: "goes p p2" using goes_trans [OF p1(2) readsD(2) [OF t2]] .
  consider "t \<noteq> finsh_token_type_comma" | "t = finsh_token_type_comma" "t2 = finsh_token_type_assign"
    | "t = finsh_token_type_comma" "t2 = finsh_token_type_comma"
    | "t = finsh_token_type_comma" "t2 \<noteq> finsh_token_type_assign" "t2 \<noteq> finsh_token_type_comma" by blast
  then show ?case
  proof cases
    case 1
    then show ?thesis using goes_refl [OF Suc.prems(1)] by simp
  next
    case 2
    then have less: "B p2 < B p" using readsD(4) [OF t2] goesD(1) [OF p1(2)] by simp
    then have n2: "need Assign_expr (B p2) \<le> n" using Suc.prems(2) by (simp add: need_def)
    obtain t3 ns3 lost3 p3 where d: "decl_assign n name ns lost p2 = Some (t3, ns3, lost3, p3)" "goes p2 p3" "lost3 \<longrightarrow> full p3"
      using decl_assign_ok [OF goesD(2) [OF g] n2 p1(3)] Suc.prems(3) goes_full [OF g] by blast
    have "16 * B p3 + 12 \<le> n" using goesD(1) [OF d(2)] less Suc.prems(2) by simp
    from Suc.IH [OF goesD(2) [OF d(2)] this d(3)] obtain t' ns' q where
      "decl_loop n type t3 ns3 lost3 p3 = Some (t', ns', q)" "goes p3 q" by blast
    then show ?thesis using 2 p1(1) readsD(1) [OF t2] d(1) goes_trans [OF g goes_trans [OF d(2)]] by auto
  next
    case 3
    then have "16 * B p2 + 12 \<le> n" using readsD(4) [OF t2] goesD(1) [OF p1(2)] Suc.prems(2) by simp
    from Suc.IH [OF goesD(2) [OF g] this] obtain t' ns' q where "decl_loop n type t2 ns lost p2 = Some (t', ns', q)" "goes p2 q"
      using Suc.prems(3) goes_full [OF g] by blast
    then show ?thesis using 3 p1(1) readsD(1) [OF t2] goes_trans [OF g] by auto
  next
    case 4
    obtain n' where "n = Suc n'" using Suc.prems(2) by (cases n) auto
    then show ?thesis using 4 p1(1) readsD(1) [OF t2] g by simp
  qed
qed

lemma decl_end_ok:
  assumes "parser_ok q" "B q < b"
  shows "\<exists>ns' q'. decl_end (t, ns, q) = (ns', q') \<and> parser_ok q' \<and> nodes_used q' = nodes_used q \<and> B q' \<le> b"
proof -
  let ?e = "parse_error FINSH_ERROR_INVALID_TOKEN q"
  have "B (replay_token ?e) \<le> b" using replay_cost(1) [of ?e] assms(2) by simp
  then show ?thesis using assms by (simp add: decl_end_def check_token_def)
qed

text \<open>A declaration takes its type, and the comma or the assignment, before a token is put back at the end.\<close>

lemma variable_decl_ok:
  assumes t: "reads p t q" "is_base_type t \<or> t = finsh_token_type_unsigned" and n: "16 * B p + 12 \<le> n"
  shows "\<exists>ns r. proc_variable_decl n p = Some (ns, r) \<and> goes p r \<and> B r < B p"
proof -
  have q: "goes p q" "B q < B p" using readsD(2,4) [OF t(1)] t(2) by (auto simp: is_base_type_def)
  obtain type p1 where p1: "proc_type p = Some (type, p1)" "goes q p1" using proc_type_after [OF t] by blast
  obtain name p2 where p2: "declare_id type p1 = Some (name, p2)" "goes p1 p2" "length name \<le> FINSH_NAME_MAX"
    using declare_id_ok [OF goesD(2) [OF p1(2)]] by blast
  obtain t3 p3 where t3: "reads p2 t3 p3" using next_token_ok [OF goesD(2) [OF p2(2)]] by blast
  have g2: "goes p p2" "B p2 < B p" using goes_trans [OF q(1) goes_trans [OF p1(2) p2(2)]] goesD(1) [OF goes_trans [OF p1(2) p2(2)]] q(2) by simp_all
  have g3: "goes p p3" "B p3 < B p" using goes_trans [OF g2(1) readsD(2) [OF t3]] goesD(1) [OF readsD(2) [OF t3]] g2(2) by simp_all
  have fin: "\<exists>ns' r. map_option decl_end (decl_loop n type t' ns lost p4) = Some (ns', r) \<and> goes p r \<and> B r < B p"
    if "goes p3 p4" "lost \<longrightarrow> full p4" "t3 \<noteq> finsh_token_type_eof" for t' ns lost p4
  proof -
    note p4 = that
    have "B p4 < B p2" using readsD(4) [OF t3] p4(1,3) goesD(1) [OF p4(1)] by simp
    moreover have "16 * B p4 + 12 \<le> n" using n g3(2) goesD(1) [OF p4(1)] by simp
    moreover obtain t'' ns'' p5 where d: "decl_loop n type t' ns lost p4 = Some (t'', ns'', p5)" "goes p4 p5"
      using decl_loop_ok [OF goesD(2) [OF p4(1)] calculation(2) p4(2)] by blast
    ultimately have "B p5 < B p2" using goesD(1) [OF d(2)] by simp
    from decl_end_ok [OF goesD(2) [OF d(2)] this] obtain ns' r where
      e: "decl_end (t'', ns'', p5) = (ns', r)" "parser_ok r" "nodes_used r = nodes_used p5" "B r \<le> B p2" by blast
    have "nodes_used p \<le> nodes_used p5" using goes_trans [OF g3(1) goes_trans [OF p4(1) d(2)]] by (simp add: goes_def)
    then show ?thesis using d(1) e g2(2) by (simp add: goes_def)
  qed
  have n3: "need Assign_expr (B p3) \<le> n" using n g3(2) by (simp add: need_def)
  obtain t4 ns4 lost4 p4 where d: "decl_assign n name [] False p3 = Some (t4, ns4, lost4, p4)" "goes p3 p4" "lost4 \<longrightarrow> full p4"
    using decl_assign_ok [OF goesD(2) [OF g3(1)] n3 p2(3), of False "[]"] by blast
  show ?thesis
    using p1(1) p2(1) readsD(1) [OF t3] d fin [OF d(2,3)] fin [OF goes_refl [OF goesD(2) [OF g3(1)]], of False] g3
    by (simp add: proc_variable_decl_def)
qed

section \<open>Lines\<close>

lemma expr_statement_ok:
  assumes p: "parser_ok p" "nonend p" and n: "need Assign_expr (B p) \<le> n"
  shows "\<exists>e q. proc_expr_statement n p = Some (e, q) \<and> goes p q \<and> B q < B p"
proof -
  obtain t p1 where t: "reads p t p1" using next_token_ok [OF p(1)] by blast
  have less: "B p1 < B p" using reads_nonend(1) [OF t] p(2) readsD(4) [OF t] by simp
  have g: "B (replay_token p1) \<le> B p" using goesD(1) [OF readsD(3) [OF t]] .
  then have n': "need Assign_expr (B (replay_token p1)) \<le> n" using n by (simp add: need_def)
  obtain e p2 where e: "parse n Assign_expr (replay_token p1) = Some (e, p2)" "goes (replay_token p1) p2"
      "B p2 < B (replay_token p1)" "full (replay_token p1) \<longrightarrow> e = NULL"
    using servesE [OF parse_serves readsD(10) [OF t] _ n'] nonend_reads [OF t p(2)] by auto
  obtain p3 where m: "match_token finsh_token_type_semicolon p2 = Some p3" "goes p2 p3" using match_ok [OF goesD(2) [OF e(2)]] by blast
  have "goes p p3" "B p3 < B p"
    using goes_trans [OF readsD(3) [OF t] goes_trans [OF e(2) m(2)]] goesD(1) [OF m(2)] e(3) g by simp_all
  then show ?thesis using readsD(1,2) [OF t] less e(1) m(1) by (simp add: proc_expr_statement_def proc_expr_def)
qed

lemma statement_ok:
  assumes t: "reads p t q" "t \<noteq> finsh_token_type_eof" and n: "16 * B p + 12 \<le> n" and p: "parser_ok p"
  shows "\<exists>ns r. statement n t p = Some (ns, r) \<and> goes p r \<and> B r < B p"
proof (cases "is_base_type t \<or> t = finsh_token_type_unsigned")
  case True
  then show ?thesis using variable_decl_ok [OF t(1) _ n] by (simp add: statement_def)
next
  case False
  have "need Assign_expr (B p) \<le> n" using n by (simp add: need_def)
  moreover have "nonend p" using reads_nonend(1) [OF t(1)] t(2) by simp
  ultimately show ?thesis using expr_statement_ok [OF p] False by (fastforce simp: statement_def)
qed

lemma reads_again: "reads p t q \<Longrightarrow> reads (replay_token q) t q"
  using next_token_ok [OF readsD(10)] readsD(1,6) by fastforce

lemma parser_loop_ok:
  "reads (replay_token p) t p \<Longrightarrow> parser_ok p \<Longrightarrow> 16 * B (replay_token p) + 13 \<le> n \<Longrightarrow> \<exists>r. parser_loop n t root k p = Some r"
proof (induction n arbitrary: t root k p)
  case 0
  then show ?case by simp
next
  case (Suc n)
  show ?case
  proof (cases "t = finsh_token_type_eof \<or> t = finsh_token_type_bad")
    case False
    then obtain ns p1 where s: "statement n t (replay_token p) = Some (ns, p1)" "goes (replay_token p) p1" "B p1 < B (replay_token p)"
      using statement_ok [OF Suc.prems(1), of n] Suc.prems(2,3) by auto
    let ?skip = "if root \<noteq> [] \<and> ns = [] \<and> t \<noteq> finsh_token_type_identifier \<and> \<not> is_base_type t \<and> t \<noteq> finsh_token_type_unsigned
      then map_option snd (next_token p1) else Some p1"
    obtain t2 q2 where t2: "reads p1 t2 q2" using next_token_ok [OF goesD(2) [OF s(2)]] by blast
    have "\<exists>p2. ?skip = Some p2 \<and> goes p1 p2" using readsD(1,2) [OF t2] goes_refl [OF goesD(2) [OF s(2)]] by simp
    then obtain p2 where p2: "?skip = Some p2" "goes p1 p2" by blast
    obtain t3 p3 where t3: "reads p2 t3 p3" using next_token_ok [OF goesD(2) [OF p2(2)]] by blast
    have "16 * B (replay_token p3) + 13 \<le> n" using goesD(1) [OF readsD(3) [OF t3]] goesD(1) [OF p2(2)] s(3) Suc.prems(3) by simp
    then have "\<exists>r. parser_loop n t3 root1 k1 p3 = Some r" for root1 k1 using Suc.IH [OF reads_again [OF t3] readsD(9) [OF t3]] by blast
    then show ?thesis using False s(1) p2(1) readsD(1) [OF t3] by (simp add: Let_def)
  qed auto
qed

lemma parser_run_ok:
  assumes l: "good_line l" and y: "syms_ok (symbols p)" and n: "32 * length l + 45 \<le> n"
  shows "\<exists>e q. finsh_parser_run n l p = Some (e, q)"
proof -
  let ?p = "p\<lparr>token := finsh_token_init l (global_errno (token p))\<rparr>"
  have "B ?p = 2 * length l + 2" by (simp add: budget_def finsh_token_init_def chars_left_def)
  moreover have ok: "parser_ok ?p" using l y by (simp add: parser_ok_def scan_ok_def tok_ok_def plain_token_def finsh_token_init_def)
  moreover obtain t q where t: "reads ?p t q" using next_token_ok [OF ok] by blast
  ultimately have "16 * B (replay_token q) + 13 \<le> n" using goesD(1) [OF readsD(3) [OF t]] n by simp
  from parser_loop_ok [OF reads_again [OF t] readsD(9) [OF t] this] obtain root r where "parser_loop n t [] 0 q = Some (root, r)" by fastforce
  then show ?thesis using readsD(1) [OF t] by (simp add: finsh_parser_run_def)
qed

end
