(* ===== verification/RT_FinshFuel.thy ===== *)
theory RT_FinshFuel
  imports RT_FinshReturn
begin

text \<open>
  More nested calls change nothing: what the parser returns with some of them it returns with more of them.
\<close>

definition below :: "calls \<Rightarrow> calls \<Rightarrow> bool" where
  "below f g \<longleftrightarrow> (\<forall>c p r. f c p = Some r \<longrightarrow> g c p = Some r)"

lemma belowD: "below f g \<Longrightarrow> f c p = Some r \<Longrightarrow> g c p = Some r"
  unfolding below_def by blast

lemma bind_below:
  "Option.bind a f = Some r \<Longrightarrow> (\<And>x. a = Some x \<Longrightarrow> b = Some x) \<Longrightarrow> (\<And>x. a = Some x \<Longrightarrow> f x = Some r \<Longrightarrow> g x = Some r) \<Longrightarrow> Option.bind b g = Some r"
  by (cases a) auto

lemma map_below: "map_option h a = Some r \<Longrightarrow> (\<And>x. a = Some x \<Longrightarrow> b = Some x) \<Longrightarrow> map_option h b = Some r"
  by (cases a) auto

lemma call_params_below: "below f g \<Longrightarrow> call_params f p = Some r \<Longrightarrow> call_params g p = Some r"
  unfolding call_params_def by (auto elim!: bind_below split: prod.splits if_splits; elim belowD)

lemma expr_body_below:
  assumes b: "below f g" and r: "expr_body c f p = Some r"
  shows "expr_body c g p = Some r"
proof (cases c)
  case Assign_expr
  then show ?thesis using r unfolding expr_body_def
    by (auto simp: proc_assign_expr_def elim!: bind_below split: if_splits; elim belowD [OF b])
next
  case (Binary_expr lv)
  then show ?thesis using r unfolding expr_body_def
    by (auto simp: proc_binary_expr_def elim!: bind_below; elim belowD [OF b])
next
  case (Binary_loop lv e)
  then show ?thesis using r unfolding expr_body_def
    by (auto simp: binary_loop_def elim!: bind_below split: option.splits prod.splits; elim belowD [OF b])
next
  case Cast_expr
  then show ?thesis using r unfolding expr_body_def
    by (auto simp: proc_cast_expr_def elim!: bind_below split: if_splits; elim belowD [OF b])
next
  case Unary_expr
  then show ?thesis using r unfolding expr_body_def
    by (auto simp: proc_unary_expr_def elim!: bind_below split: option.splits if_splits; elim belowD [OF b])
next
  case Postfix_expr
  then show ?thesis using r unfolding expr_body_def
    by (auto simp: proc_postfix_expr_def elim!: bind_below; elim belowD [OF b])
next
  case (Postfix_loop e)
  then show ?thesis using r unfolding expr_body_def
    by (auto simp: postfix_loop_def elim!: bind_below split: if_splits prod.splits; elim belowD [OF b] call_params_below [OF b])
next
  case Primary_expr
  then show ?thesis using r unfolding expr_body_def
    by (auto simp: proc_primary_expr_def elim!: bind_below split: if_splits; elim belowD [OF b])
next
  case Param_list
  then show ?thesis using r unfolding expr_body_def
    by (auto simp: proc_param_list_def elim!: bind_below split: if_splits; elim belowD [OF b])
next
  case (Param_loop ns)
  then show ?thesis using r unfolding expr_body_def
    by (auto simp: param_loop_def elim!: bind_below split: if_splits; elim belowD [OF b])
qed

lemma parse_below_Suc: "below (parse n) (parse (Suc n))"
proof (induction n)
  case 0
  then show ?case by (simp add: below_def)
next
  case (Suc n)
  show ?case unfolding below_def using expr_body_below [OF Suc] by (metis parse.simps(2))
qed

lemma parse_below: "n \<le> m \<Longrightarrow> below (parse n) (parse m)"
proof (induction m)
  case (Suc m)
  then show ?case using parse_below_Suc [of m] by (cases "n = Suc m") (auto simp: below_def)
qed (simp add: below_def)

lemma decl_assign_more: "n \<le> m \<Longrightarrow> decl_assign n name ns lost p = Some r \<Longrightarrow> decl_assign m name ns lost p = Some r"
  unfolding decl_assign_def by (auto elim!: bind_below split: if_splits; elim belowD [OF parse_below])

lemma decl_loop_more: "n \<le> m \<Longrightarrow> decl_loop n type t ns lost p = Some r \<Longrightarrow> decl_loop m type t ns lost p = Some r"
proof (induction n arbitrary: m t ns lost p)
  case (Suc n)
  then obtain m' where "m = Suc m'" "n \<le> m'" by (cases m) auto
  then show ?case using Suc.prems(2) by (auto elim!: bind_below split: if_splits dest: decl_assign_more Suc.IH)
qed simp

lemma statement_more:
  assumes "n \<le> m" "statement n t p = Some r"
  shows "statement m t p = Some r"
proof -
  have e: "proc_expr_statement n p = Some x \<Longrightarrow> proc_expr_statement m p = Some x" for x
    unfolding proc_expr_statement_def proc_expr_def by (auto elim!: bind_below split: if_splits; elim belowD [OF parse_below [OF assms(1)]])
  have d: "proc_variable_decl n p = Some x \<Longrightarrow> proc_variable_decl m p = Some x" for x
    unfolding proc_variable_decl_def by (auto simp del: map_option_eq_Some elim!: bind_below map_below split: if_splits
        dest: decl_assign_more [OF assms(1)] decl_loop_more [OF assms(1)])
  show ?thesis using assms(2) e d by (auto simp: statement_def split: if_splits)
qed

lemma parser_loop_more: "n \<le> m \<Longrightarrow> parser_loop n t root k p = Some r \<Longrightarrow> parser_loop m t root k p = Some r"
proof (induction n arbitrary: m t root k p)
  case (Suc n)
  then obtain m' where m: "m = Suc m'" "n \<le> m'" by (cases m) auto
  show ?case using Suc.prems(2) unfolding m(1) parser_loop.simps Let_def
    by (auto elim!: bind_below split: if_splits dest: statement_more [OF m(2)] Suc.IH [OF m(2)])
qed simp

lemma parser_run_more: "n \<le> m \<Longrightarrow> finsh_parser_run n l p = Some r \<Longrightarrow> finsh_parser_run m l p = Some r"
  unfolding finsh_parser_run_def Let_def by (auto elim!: bind_below dest: parser_loop_more)

end
