(* ===== verification/RT_FinshShell.thy ===== *)
theory RT_FinshShell
  imports RT_FinshLine RT_FinshFuel "HOL-Library.Sublist"
begin

text \<open>
  The terminal of the shell (\<open>components/finsh/shell.c\<close> and the completion of names in \<open>cmd.c\<close>): keys
  are read from the device, edit the line, move in the history or complete a name, and the return key
  runs the line.

  The state is \<open>struct finsh_shell\<close> with what it printed so far. What is handed to \<open>rt_kprintf\<close> is a list of
  bytes, each text taken to be shorter than the console buffer of 512 bytes, at which \<open>rt_kprintf\<close> cuts it
  (only a very long description of a name is); what the interpreter prints for a line is one item of the output. The commands of \<open>msh\<close> are not
  configured. \<open>None\<close> is an access behind the 80 bytes of the line or of a line of the history, also of
  a string that has no end there.
\<close>

section \<open>State\<close>

definition FINSH_CMD_SIZE :: nat where "FINSH_CMD_SIZE = 80"
definition FINSH_HISTORY_LINES :: nat where "FINSH_HISTORY_LINES = 5"

text \<open>The prompt is \<open>finsh>>\<close>.\<close>

definition FINSH_PROMPT :: "u8 list" where "FINSH_PROMPT = [102, 105, 110, 115, 104, 62, 62]"

datatype input_stat = WAIT_NORMAL | WAIT_SPEC_KEY | WAIT_FUNC_KEY

datatype terminal_out = Byte u8 | Line_result line_output

record finsh_shell =
  stat :: input_stat
  echo_mode :: bool
  current_history :: nat
  history_count :: nat
  cmd_history :: "u8 list list"
  shell_parser :: finsh_parser
  cmd_line :: "u8 list"
  line_position :: nat
  line_curpos :: nat
  terminal :: "terminal_out list"

text \<open>What the interpreter needs besides: the depth of calls, the system calls, the types of the symbols and their descriptions.\<close>

record shell_env =
  env_calls :: nat
  env_sys :: syscalls
  env_tab :: symtab
  env_desc :: "u32 \<Rightarrow> u8 list"

definition finsh_set_echo :: "u32 \<Rightarrow> finsh_shell \<Rightarrow> finsh_shell" where
  "finsh_set_echo echo sh = sh\<lparr>echo_mode := odd (unat echo)\<rparr>"

definition finsh_get_echo :: "finsh_shell \<Rightarrow> u32" where
  "finsh_get_echo sh = (if echo_mode sh then 1 else 0)"

definition kputs :: "u8 list \<Rightarrow> finsh_shell \<Rightarrow> finsh_shell" where
  "kputs bs sh = sh\<lparr>terminal := terminal sh @ map Byte bs\<rparr>"

definition c_text :: "u8 list \<Rightarrow> u8 list option" where
  "c_text bs = (if 0 \<in> set bs then Some (cstring bs) else None)"

definition set_byte :: "nat \<Rightarrow> u8 \<Rightarrow> u8 list \<Rightarrow> u8 list option" where
  "set_byte i b bs = (if i < length bs then Some (bs[i := b]) else None)"

text \<open>\<open>rt_memmove\<close> inside the line.\<close>

definition move_bytes :: "nat \<Rightarrow> nat \<Rightarrow> nat \<Rightarrow> u8 list \<Rightarrow> u8 list option" where
  "move_bytes dst src n bs =
    (if dst + n \<le> length bs \<and> src + n \<le> length bs
     then Some (take dst bs @ take n (drop src bs) @ drop (dst + n) bs) else None)"

text \<open>The positions are bytes: 0 decremented is 255.\<close>

definition dec_u8 :: "nat \<Rightarrow> nat" where
  "dec_u8 i = (i + 255) mod 256"

section \<open>History\<close>

definition shell_handle_history :: "finsh_shell \<Rightarrow> finsh_shell option" where
  "shell_handle_history sh = do {
     t \<leftarrow> c_text (cmd_line sh);
     Some (kputs (FINSH_PROMPT @ t) (kputs [27, 91, 50, 75, 13] sh)) }"

definition history_line :: "finsh_shell \<Rightarrow> u8 list" where
  "history_line sh = take (line_position sh) (cmd_line sh) @ replicate (FINSH_CMD_SIZE - line_position sh) 0"

definition shell_push_history :: "finsh_shell \<Rightarrow> finsh_shell" where
  "shell_push_history sh =
    (let sh1 = (if line_position sh \<noteq> 0
       then if history_count sh \<ge> FINSH_HISTORY_LINES
            then sh\<lparr>cmd_history := tl (cmd_history sh) @ [history_line sh], history_count := FINSH_HISTORY_LINES\<rparr>
            else sh\<lparr>cmd_history := (cmd_history sh)[history_count sh := history_line sh], history_count := history_count sh + 1\<rparr>
       else sh)
     in sh1\<lparr>current_history := history_count sh1\<rparr>)"

text \<open>A line of the history is copied, and the cursor stands behind it.\<close>

definition recall_history :: "finsh_shell \<Rightarrow> finsh_shell option" where
  "recall_history sh =
    (if current_history sh < length (cmd_history sh)
     then do {
       let l = cmd_history sh ! current_history sh;
       t \<leftarrow> c_text l;
       shell_handle_history (sh\<lparr>cmd_line := l, line_position := length t, line_curpos := length t\<rparr>) }
     else None)"

definition up_key :: "finsh_shell \<Rightarrow> finsh_shell option" where
  "up_key sh =
    (if current_history sh > 0 then recall_history (sh\<lparr>current_history := current_history sh - 1\<rparr>)
     else Some (sh\<lparr>current_history := 0\<rparr>))"

definition down_key :: "finsh_shell \<Rightarrow> finsh_shell option" where
  "down_key sh =
    (if current_history sh + 1 < history_count sh then recall_history (sh\<lparr>current_history := current_history sh + 1\<rparr>)
     else if history_count sh \<noteq> 0 then recall_history (sh\<lparr>current_history := history_count sh - 1\<rparr>)
     else Some sh)"

section \<open>Completion of names\<close>

fun str_is_prefix :: "u8 list \<Rightarrow> u8 list \<Rightarrow> int" where
  "str_is_prefix [] str = 0"
| "str_is_prefix (p # ps) [] = -1"
| "str_is_prefix (p # ps) (c # cs) = (if p = c then str_is_prefix ps cs else -1)"

fun str_common :: "u8 list \<Rightarrow> u8 list \<Rightarrow> nat" where
  "str_common (a # as) (b # bs) = (if a = b then Suc (str_common as bs) else 0)"
| "str_common _ _ = 0"

record name_search =
  found_cnt :: u16
  name_ptr :: "u8 list option"
  min_length :: nat
  printed :: "u8 list"

text \<open>
  One of the four loops over the names: \<open>head\<close> is printed before the first one that matches and \<open>show\<close> is the
  line for a name. The pointer to the first match is set when a common part is looked for.
\<close>

definition name_found :: "u8 list \<Rightarrow> u8 list \<Rightarrow> u8 list \<Rightarrow> u8 list \<Rightarrow> name_search \<Rightarrow> name_search" where
  "name_found head entry pre name st =
    (let st1 = (if found_cnt st = 0
       then let st0 = st\<lparr>printed := printed st @ head\<rparr> in
         if pre \<noteq> [] \<and> name_ptr st0 = None then st0\<lparr>name_ptr := Some name, min_length := length name\<rparr> else st0
       else st);
     st2 = st1\<lparr>found_cnt := found_cnt st1 + 1\<rparr>;
     st3 = (if pre \<noteq> []
       then case name_ptr st2 of Some n \<Rightarrow> st2\<lparr>min_length := min (str_common n name) (min_length st2)\<rparr> | None \<Rightarrow> st2
       else st2)
     in st3\<lparr>printed := printed st3 @ entry\<rparr>)"

fun list_names :: "u8 list \<Rightarrow> (u8 list \<times> u32 \<Rightarrow> u8 list) \<Rightarrow> u8 list \<Rightarrow> (u8 list \<times> u32) list \<Rightarrow> name_search \<Rightarrow> name_search" where
  "list_names head entry pre [] st = st"
| "list_names head entry pre (x # xs) st = list_names head entry pre xs
    (if str_is_prefix pre (fst x) = 0 then name_found head (entry x) pre (fst x) st else st)"

text \<open>The lines \<open>%-16s -- %s\<close>, \<open>[l] %s\<close> and \<open>[v] %s\<close>, and the heads \<open>--function:\<close> and \<open>--variable:\<close>.\<close>

definition described :: "(u32 \<Rightarrow> u8 list) \<Rightarrow> u8 list \<times> u32 \<Rightarrow> u8 list" where
  "described desc x = fst x @ replicate (16 - length (fst x)) 32 @ [32, 45, 45, 32] @ desc (snd x) @ [10]"

definition listed :: "u8 \<Rightarrow> u8 list \<times> u32 \<Rightarrow> u8 list" where
  "listed c x = [91, c, 93, 32] @ fst x @ [10]"

definition function_head :: "u8 list" where
  "function_head = [45, 45, 102, 117, 110, 99, 116, 105, 111, 110, 58, 10]"

definition variable_head :: "u8 list" where
  "variable_head = [45, 45, 118, 97, 114, 105, 97, 98, 108, 101, 58, 10]"

text \<open>Names that begin with \<open>__\<close> are skipped in the first table.\<close>

definition search_names :: "(u32 \<Rightarrow> u8 list) \<Rightarrow> finsh_symbols \<Rightarrow> u8 list \<Rightarrow> name_search" where
  "search_names desc y pre =
    (let st0 = \<lparr>found_cnt = 0, name_ptr = None, min_length = 0, printed = []\<rparr>;
       st1 = list_names function_head (described desc) pre (filter (\<lambda>x. str_is_prefix [95, 95] (fst x) \<noteq> 0) (syscall_table y)) st0;
       st2 = list_names function_head (listed 108) pre (global_syscall_list y) st1;
       st3 = list_names variable_head (described desc) pre (sysvar_table y) (st2\<lparr>found_cnt := 0\<rparr>)
     in list_names variable_head (listed 118) pre (global_sysvar_list y) st3)"

definition list_prefix :: "(u32 \<Rightarrow> u8 list) \<Rightarrow> finsh_shell \<Rightarrow> finsh_shell option" where
  "list_prefix desc sh = do {
     pre \<leftarrow> c_text (cmd_line sh);
     let st = search_names desc (symbols (shell_parser sh)) pre;
     let sh1 = kputs (printed st) sh;
     case name_ptr st of
       None \<Rightarrow> Some sh1
     | Some name \<Rightarrow> do {
         bs \<leftarrow> rt_strncpy (name @ [0]) (min_length st);
         if min_length st \<le> length (cmd_line sh) then Some (sh1\<lparr>cmd_line := bs @ drop (min_length st) (cmd_line sh)\<rparr>) else None } }"

definition shell_auto_complete :: "(u32 \<Rightarrow> u8 list) \<Rightarrow> finsh_shell \<Rightarrow> finsh_shell option" where
  "shell_auto_complete desc sh = do {
     sh1 \<leftarrow> list_prefix desc (kputs [10] sh);
     t \<leftarrow> c_text (cmd_line sh1);
     Some (kputs (FINSH_PROMPT @ t) sh1) }"

section \<open>Keys\<close>

definition left_key :: "finsh_shell \<Rightarrow> finsh_shell" where
  "left_key sh = (if line_curpos sh \<noteq> 0 then (kputs [8] sh)\<lparr>line_curpos := line_curpos sh - 1\<rparr> else sh)"

definition right_key :: "finsh_shell \<Rightarrow> finsh_shell option" where
  "right_key sh =
    (if line_curpos sh < line_position sh
     then if line_curpos sh < length (cmd_line sh)
       then Some ((kputs [cmd_line sh ! line_curpos sh] sh)\<lparr>line_curpos := line_curpos sh + 1\<rparr>) else None
     else Some sh)"

text \<open>The escape sequences of the arrow keys. The result is also whether the key is done.\<close>

definition control_key :: "u8 \<Rightarrow> finsh_shell \<Rightarrow> (bool \<times> finsh_shell) option" where
  "control_key ch sh =
    (if ch = 0x1b then Some (True, sh\<lparr>stat := WAIT_SPEC_KEY\<rparr>)
     else case stat sh of
       WAIT_SPEC_KEY \<Rightarrow> Some (if ch = 0x5b then (True, sh\<lparr>stat := WAIT_FUNC_KEY\<rparr>) else (False, sh\<lparr>stat := WAIT_NORMAL\<rparr>))
     | WAIT_FUNC_KEY \<Rightarrow>
         (let sh1 = sh\<lparr>stat := WAIT_NORMAL\<rparr> in
          if ch = 0x41 then map_option (Pair True) (up_key sh1)
          else if ch = 0x42 then map_option (Pair True) (down_key sh1)
          else if ch = 0x44 then Some (True, left_key sh1)
          else if ch = 0x43 then map_option (Pair True) (right_key sh1)
          else Some (False, sh1))
     | WAIT_NORMAL \<Rightarrow> Some (False, sh))"

definition tab_key :: "(u32 \<Rightarrow> u8 list) \<Rightarrow> finsh_shell \<Rightarrow> finsh_shell option" where
  "tab_key desc sh = do {
     sh1 \<leftarrow> shell_auto_complete desc (kputs (replicate (line_curpos sh) 8) sh);
     t \<leftarrow> c_text (cmd_line sh1);
     Some (sh1\<lparr>line_position := length t, line_curpos := length t\<rparr>) }"

definition backspace_key :: "finsh_shell \<Rightarrow> finsh_shell option" where
  "backspace_key sh =
    (if line_curpos sh = 0 then Some sh
     else let pos = dec_u8 (line_position sh); cur = line_curpos sh - 1; sh1 = sh\<lparr>line_position := pos, line_curpos := cur\<rparr> in
       if pos > cur
       then do {
         l1 \<leftarrow> move_bytes cur (cur + 1) (pos - cur) (cmd_line sh);
         l2 \<leftarrow> set_byte pos 0 l1;
         t \<leftarrow> c_text (drop cur l2);
         Some (kputs (replicate (pos + 1 - cur) 8) (kputs ([8] @ t @ [32, 32, 8]) (sh1\<lparr>cmd_line := l2\<rparr>))) }
       else do {
         l1 \<leftarrow> set_byte pos 0 (cmd_line sh);
         Some ((kputs [8, 32, 8] sh1)\<lparr>cmd_line := l1\<rparr>) })"

definition enter_key :: "shell_env \<Rightarrow> finsh_shell \<times> finsh_vm \<Rightarrow> (finsh_shell \<times> finsh_vm) option" where
  "enter_key env st = do {
     let (sh, vm) = st;
     let sh1 = shell_push_history sh;
     l \<leftarrow> set_byte (line_position sh1) 59 (cmd_line sh1);
     (sh2, vm2) \<leftarrow>
       (if line_position sh1 \<noteq> 0
        then do {
          t \<leftarrow> c_text l;
          (out, p, vm1) \<leftarrow> finsh_run_line (env_calls env) (env_sys env) (env_tab env) t (shell_parser sh1) vm;
          let sha = kputs [10] sh1;
          Some (sha\<lparr>shell_parser := p, terminal := terminal sha @ [Line_result out]\<rparr>, vm1) }
        else Some (kputs [10] sh1, vm));
     let sh3 = kputs FINSH_PROMPT sh2;
     Some (sh3\<lparr>cmd_line := replicate FINSH_CMD_SIZE 0, line_position := 0, line_curpos := 0\<rparr>, vm2) }"

definition normal_key :: "u8 \<Rightarrow> finsh_shell \<Rightarrow> finsh_shell option" where
  "normal_key ch sh = do {
     let pos = (if line_position sh \<ge> FINSH_CMD_SIZE then 0 else line_position sh);
     let cur = line_curpos sh;
     sh1 \<leftarrow>
       (if cur < pos
        then do {
          l1 \<leftarrow> move_bytes (cur + 1) cur (pos - cur) (cmd_line sh);
          l2 \<leftarrow> set_byte cur ch l1;
          t \<leftarrow> (if echo_mode sh then c_text (drop cur l2) else Some []);
          Some (kputs (t @ replicate (pos - cur) 8) (sh\<lparr>cmd_line := l2\<rparr>)) }
        else do {
          l \<leftarrow> set_byte pos ch (cmd_line sh);
          Some (kputs [ch] (sh\<lparr>cmd_line := l\<rparr>)) });
     Some (if pos + 1 \<ge> 80 then sh1\<lparr>line_position := 0, line_curpos := 0\<rparr>
       else sh1\<lparr>line_position := pos + 1, line_curpos := (cur + 1) mod 256\<rparr>) }"

text \<open>The character is no control key; whether the line was run, which ends the loop.\<close>

definition text_key :: "shell_env \<Rightarrow> u8 \<Rightarrow> finsh_shell \<times> finsh_vm \<Rightarrow> (bool \<times> finsh_shell \<times> finsh_vm) option" where
  "text_key env ch st =
    (if ch = 13 \<or> ch = 10 then map_option (Pair True) (enter_key env st)
     else map_option (\<lambda>sh. (False, sh, snd st)) (normal_key ch (fst st)))"

text \<open>
  The inner loop of \<open>finsh_thread_entry\<close>, on the bytes the device has. A return takes the byte behind it
  from the device and handles that one instead.
\<close>

fun shell_read :: "shell_env \<Rightarrow> u8 list \<Rightarrow> finsh_shell \<times> finsh_vm \<Rightarrow> (u8 list \<times> finsh_shell \<times> finsh_vm) option" where
  "shell_read env [] st = Some ([], st)"
| "shell_read env (ch # input) (sh, vm) = do {
     (used, sh1) \<leftarrow> control_key ch sh;
     if used then shell_read env input (sh1, vm)
     else if ch = 13
     then (case input of
         [] \<Rightarrow> do { (ended, st) \<leftarrow> text_key env 13 (sh1, vm); Some ([], st) }
       | next # input1 \<Rightarrow> do {
           (ended, st) \<leftarrow> text_key env next (sh1, vm);
           if ended then Some (input1, st) else shell_read env input1 st })
     else if ch = 9 then do { sh2 \<leftarrow> tab_key (env_desc env) sh1; shell_read env input (sh2, vm) }
     else if ch = 0x7f \<or> ch = 0x08 then do { sh2 \<leftarrow> backspace_key sh1; shell_read env input (sh2, vm) }
     else do {
       (ended, st) \<leftarrow> text_key env ch (sh1, vm);
       if ended then Some (input, st) else shell_read env input st } }"

text \<open>The shell as \<open>finsh_system_init\<close> and the beginning of \<open>finsh_thread_entry\<close> leave it.\<close>

definition finsh_thread_start :: "finsh_parser \<Rightarrow> finsh_shell" where
  "finsh_thread_start p = \<lparr>stat = WAIT_NORMAL, echo_mode = True, current_history = 0, history_count = 0,
     cmd_history = replicate FINSH_HISTORY_LINES (replicate FINSH_CMD_SIZE 0), shell_parser = finsh_init p,
     cmd_line = replicate FINSH_CMD_SIZE 0, line_position = 0, line_curpos = 0, terminal = map Byte FINSH_PROMPT\<rparr>"

end
