(* ===== verification/RT_FinshEdit.thy ===== *)
theory RT_FinshEdit
  imports RT_FinshShell
begin

text \<open>
  What the terminal of the shell promises: a line of text with a cursor and a history, on which each key
  acts at once, and a screen that shows the line. The keys of \<open>RT_FinshShell\<close> refine the keys of
  the editor, and the return key runs the text.
\<close>

section \<open>The editor\<close>

record editor =
  etext :: "u8 list"
  cursor :: nat
  past :: "u8 list list"
  recalled :: nat

datatype key = Char_key u8 | Backspace_key | Left_key | Right_key | Up_key | Down_key

definition recall :: "nat \<Rightarrow> editor \<Rightarrow> editor" where
  "recall i e = e\<lparr>etext := past e ! i, cursor := length (past e ! i), recalled := i\<rparr>"

fun edit :: "key \<Rightarrow> editor \<Rightarrow> editor" where
  "edit (Char_key c) e = e\<lparr>etext := take (cursor e) (etext e) @ [c] @ drop (cursor e) (etext e), cursor := cursor e + 1\<rparr>"
| "edit Backspace_key e = (if cursor e = 0 then e
     else e\<lparr>etext := take (cursor e - 1) (etext e) @ drop (cursor e) (etext e), cursor := cursor e - 1\<rparr>)"
| "edit Left_key e = e\<lparr>cursor := cursor e - 1\<rparr>"
| "edit Right_key e = e\<lparr>cursor := min (cursor e + 1) (length (etext e))\<rparr>"
| "edit Up_key e = (if recalled e = 0 then e else recall (recalled e - 1) e)"
| "edit Down_key e = (if past e = [] then e else recall (min (recalled e + 1) (length (past e) - 1)) e)"

text \<open>The return key stores a line that is not empty as the last of five.\<close>

definition submit :: "editor \<Rightarrow> editor" where
  "submit e = (let ls = (if etext e = [] then past e else if length (past e) < FINSH_HISTORY_LINES then past e @ [etext e] else tl (past e) @ [etext e])
     in \<lparr>etext = [], cursor = 0, past = ls, recalled = length ls\<rparr>)"

fun key_bytes :: "key \<Rightarrow> u8 list" where
  "key_bytes (Char_key c) = [c]"
| "key_bytes Backspace_key = [0x7f]"
| "key_bytes Left_key = [0x1b, 0x5b, 0x44]"
| "key_bytes Right_key = [0x1b, 0x5b, 0x43]"
| "key_bytes Up_key = [0x1b, 0x5b, 0x41]"
| "key_bytes Down_key = [0x1b, 0x5b, 0x42]"

definition printable :: "u8 \<Rightarrow> bool" where
  "printable c \<longleftrightarrow> 32 \<le> c \<and> c < 127"

text \<open>A key the line has room for.\<close>

fun room :: "key \<Rightarrow> editor \<Rightarrow> bool" where
  "room (Char_key c) e = (printable c \<and> length (etext e) < 79)"
| "room _ e = True"

fun all_room :: "key list \<Rightarrow> editor \<Rightarrow> bool" where
  "all_room [] e = True"
| "all_room (k # ks) e = (room k e \<and> all_room ks (edit k e))"

section \<open>The screen\<close>

text \<open>The row of the cursor on a terminal: the bytes of an escape sequence are collected, \<open>ESC [ 2 K\<close> blanks the row.\<close>

record screen =
  row :: "u8 list"
  column :: nat
  esc :: "u8 list"

definition put_byte :: "u8 \<Rightarrow> screen \<Rightarrow> screen" where
  "put_byte b s =
    (if esc s \<noteq> [] then if esc s @ [b] = [27, 91, 50, 75] then s\<lparr>row := replicate (length (row s)) 32, esc := []\<rparr> else s\<lparr>esc := esc s @ [b]\<rparr>
     else if b = 27 then s\<lparr>esc := [27]\<rparr>
     else if b = 8 then s\<lparr>column := column s - 1\<rparr>
     else if b = 13 then s\<lparr>column := 0\<rparr>
     else if b = 10 then s\<lparr>row := [], column := 0\<rparr>
     else s\<lparr>row := take (column s) (row s) @ replicate (column s - length (row s)) 32 @ [b] @ drop (column s + 1) (row s), column := column s + 1\<rparr>)"

fun put_out :: "terminal_out \<Rightarrow> screen \<Rightarrow> screen" where
  "put_out (Byte b) s = put_byte b s"
| "put_out (Line_result r) s = s\<lparr>row := [], column := 0\<rparr>"

definition show_out :: "terminal_out list \<Rightarrow> screen" where
  "show_out os = fold put_out os \<lparr>row = [], column = 0, esc = []\<rparr>"

definition put_bytes :: "u8 list \<Rightarrow> screen \<Rightarrow> screen" where
  "put_bytes bs s = fold put_byte bs s"

text \<open>The row is the prompt, the text and blanks, with the cursor in its place.\<close>

definition displays :: "editor \<Rightarrow> screen \<Rightarrow> bool" where
  "displays e s \<longleftrightarrow> (\<exists>n. row s = FINSH_PROMPT @ etext e @ replicate n 32) \<and> column s = length FINSH_PROMPT + cursor e \<and> esc s = []"

section \<open>The representation\<close>

definition zero_filled :: "u8 list \<Rightarrow> u8 list" where
  "zero_filled t = t @ replicate (FINSH_CMD_SIZE - length t) 0"

definition good_text :: "u8 list \<Rightarrow> bool" where
  "good_text t \<longleftrightarrow> length t < FINSH_CMD_SIZE \<and> list_all printable t"

definition edits :: "editor \<Rightarrow> finsh_shell \<Rightarrow> bool" where
  "edits e sh \<longleftrightarrow> stat sh = WAIT_NORMAL \<and> echo_mode sh \<and> good_text (etext e) \<and> cursor e \<le> length (etext e)
     \<and> cmd_line sh = zero_filled (etext e) \<and> line_position sh = length (etext e) \<and> line_curpos sh = cursor e
     \<and> list_all good_text (past e) \<and> length (cmd_history sh) = FINSH_HISTORY_LINES \<and> length (past e) \<le> FINSH_HISTORY_LINES
     \<and> history_count sh = length (past e) \<and> current_history sh = recalled e \<and> recalled e \<le> length (past e)
     \<and> take (length (past e)) (cmd_history sh) = map zero_filled (past e)"

lemma length_zero_filled [simp]: "length t \<le> FINSH_CMD_SIZE \<Longrightarrow> length (zero_filled t) = FINSH_CMD_SIZE"
  by (simp add: zero_filled_def)

lemma printable_simps: "printable c \<Longrightarrow> c \<noteq> 0 \<and> c \<noteq> 27 \<and> c \<noteq> 8 \<and> c \<noteq> 9 \<and> c \<noteq> 10 \<and> c \<noteq> 13 \<and> c \<noteq> 127"
  unfolding printable_def by auto

lemma good_text_nonzero: "good_text t \<Longrightarrow> 0 \<notin> set t"
  using printable_simps by (auto simp: good_text_def list_all_iff)

lemma cstring_zero_filled:
  assumes "0 \<notin> set t" "0 < n"
  shows "c_text (t @ replicate n 0) = Some t"
proof -
  have "takeWhile (\<lambda>c. c \<noteq> 0) (t @ replicate n (0 :: u8)) = t" using assms by (subst takeWhile_append2) (auto simp: gr0_conv_Suc)
  then show ?thesis using assms(2) by (simp add: c_text_def cstring_def)
qed

lemma c_text_zero_filled: "good_text t \<Longrightarrow> c_text (zero_filled t) = Some t"
  using cstring_zero_filled [OF good_text_nonzero] by (simp add: zero_filled_def good_text_def)

text \<open>What is printed, on the screen.\<close>

lemma show_kputs: "show_out (terminal (kputs bs sh)) = put_bytes bs (show_out (terminal sh))"
proof -
  have "fold put_out (map Byte bs) s = fold put_byte bs s" for s by (induction bs arbitrary: s) simp_all
  then show ?thesis by (simp add: show_out_def kputs_def put_bytes_def)
qed

lemma put_bytes_append [simp]: "put_bytes (xs @ ys) s = put_bytes ys (put_bytes xs s)" "put_bytes [] s = s" "put_bytes (b # bs) s = put_bytes bs (put_byte b s)"
  by (simp_all add: put_bytes_def)

lemma put_backs: "esc s = [] \<Longrightarrow> put_bytes (replicate n 8) s = s\<lparr>column := column s - n\<rparr>"
  by (induction n arbitrary: s) (auto simp: put_byte_def)

lemma put_text:
  "list_all printable t \<Longrightarrow> esc s = [] \<Longrightarrow> column s \<le> length (row s) \<Longrightarrow>
    put_bytes t s = s\<lparr>row := take (column s) (row s) @ t @ drop (column s + length t) (row s), column := column s + length t\<rparr>"
proof (induction t arbitrary: s)
  case (Cons c t)
  let ?s = "put_byte c s"
  have s: "?s = s\<lparr>row := take (column s) (row s) @ [c] @ drop (column s + 1) (row s), column := column s + 1\<rparr>"
    using Cons.prems printable_simps [of c] by (simp add: put_byte_def)
  then have "put_bytes t ?s = ?s\<lparr>row := take (column ?s) (row ?s) @ t @ drop (column ?s + length t) (row ?s), column := column ?s + length t\<rparr>"
    using Cons.prems by (intro Cons.IH) auto
  then show ?case using s Cons.prems(3) by (simp add: min_def add.commute)
qed simp

section \<open>Keys of the line\<close>

text \<open>The text in front of the cursor and behind it.\<close>

lemma editor_split:
  assumes "edits e sh"
  obtains xs ys where "etext e = xs @ ys" "cursor e = length xs" "good_text (xs @ ys)" "cmd_line sh = zero_filled (xs @ ys)"
    "line_position sh = length xs + length ys" "line_curpos sh = length xs" "stat sh = WAIT_NORMAL" "echo_mode sh"
proof
  let ?xs = "take (cursor e) (etext e)" and ?ys = "drop (cursor e) (etext e)"
  show "etext e = ?xs @ ?ys" "cursor e = length ?xs" "good_text (?xs @ ?ys)" "cmd_line sh = zero_filled (?xs @ ?ys)"
    "line_position sh = length ?xs + length ?ys" "line_curpos sh = length ?xs" "stat sh = WAIT_NORMAL" "echo_mode sh"
    using assms by (auto simp: edits_def min_def)
qed

lemma edits_change:
  assumes "edits e sh" "good_text t" "k \<le> length t"
  shows "edits (e\<lparr>etext := t, cursor := k\<rparr>) (sh\<lparr>cmd_line := zero_filled t, line_position := length t, line_curpos := k, terminal := out\<rparr>)"
  using assms by (simp add: edits_def)

lemma drop_zero_filled: "length (xs @ ys) \<le> FINSH_CMD_SIZE \<Longrightarrow> drop (length xs) (zero_filled (xs @ ys)) = ys @ replicate (FINSH_CMD_SIZE - length (xs @ ys)) 0"
  by (simp add: zero_filled_def)

lemma insert_bytes:
  assumes "length (xs @ ys) < 79"
  shows "\<exists>l. move_bytes (length xs + 1) (length xs) (length ys) (zero_filled (xs @ ys)) = Some l \<and> set_byte (length xs) c l = Some (zero_filled (xs @ [c] @ ys))"
    "ys = [] \<Longrightarrow> set_byte (length xs) c (zero_filled (xs @ ys)) = Some (zero_filled (xs @ [c] @ ys))"
proof -
  have "length (ys @ replicate (FINSH_CMD_SIZE - length (xs @ ys)) (0 :: u8)) = Suc (79 - length xs)"
    using assms by (simp add: FINSH_CMD_SIZE_def)
  then obtain z r where z: "ys @ replicate (FINSH_CMD_SIZE - length (xs @ ys)) (0 :: u8) = z # r" "length r = 79 - length xs"
    unfolding length_Suc_conv by blast
  have p: "zero_filled (xs @ ys) = xs @ z # r" using z(1) by (simp add: zero_filled_def)
  have d: "drop (length ys) r = replicate (79 - length (xs @ ys)) 0"
  proof -
    have "drop (length ys) r = drop (Suc (length ys)) (ys @ replicate (FINSH_CMD_SIZE - length (xs @ ys)) 0)" unfolding z(1) by simp
    then show ?thesis by (simp add: FINSH_CMD_SIZE_def)
  qed
  have t: "take (length ys) (z # r) = ys" unfolding z(1) [symmetric] by simp
  have m: "move_bytes (length xs + 1) (length xs) (length ys) (zero_filled (xs @ ys)) = Some (xs @ [z] @ ys @ replicate (79 - length (xs @ ys)) 0)"
    unfolding p move_bytes_def using assms z(2) d t by simp
  have l: "set_byte (length xs) c (xs @ [z] @ ys @ replicate (79 - length (xs @ ys)) 0) = Some (zero_filled (xs @ [c] @ ys))"
    by (simp add: set_byte_def zero_filled_def FINSH_CMD_SIZE_def)
  show "\<exists>l. move_bytes (length xs + 1) (length xs) (length ys) (zero_filled (xs @ ys)) = Some l \<and> set_byte (length xs) c l = Some (zero_filled (xs @ [c] @ ys))"
    using m l by blast
  have "80 - length xs = Suc (79 - length xs)" using assms by simp
  then show "set_byte (length xs) c (zero_filled (xs @ ys)) = Some (zero_filled (xs @ [c] @ ys))" if "ys = []"
    using that by (simp add: set_byte_def zero_filled_def FINSH_CMD_SIZE_def)
qed

lemma displays_insert:
  assumes "displays e s" "etext e = xs @ ys" "cursor e = length xs" "list_all printable (c # ys)"
  shows "displays (e\<lparr>etext := xs @ [c] @ ys, cursor := length xs + 1\<rparr>) (put_bytes (c # ys @ replicate (length ys) 8) s)"
proof -
  obtain n where r: "row s = FINSH_PROMPT @ xs @ ys @ replicate n 32" "column s = length FINSH_PROMPT + length xs" "esc s = []"
    using assms(1-3) by (auto simp: displays_def)
  have "put_bytes (c # ys) s = s\<lparr>row := take (column s) (row s) @ (c # ys) @ drop (column s + length (c # ys)) (row s), column := column s + length (c # ys)\<rparr>"
    by (rule put_text) (use assms(4) r in auto)
  then have p: "put_bytes (c # ys) s = s\<lparr>row := FINSH_PROMPT @ xs @ [c] @ ys @ replicate (n - 1) 32, column := length FINSH_PROMPT + length xs + 1 + length ys\<rparr>"
    using r by simp
  have "put_bytes (replicate (length ys) 8) (put_bytes (c # ys) s) = (put_bytes (c # ys) s)\<lparr>column := length FINSH_PROMPT + length xs + 1\<rparr>"
    unfolding p using r(3) by (subst put_backs) simp_all
  then show ?thesis using p r(3) by (auto simp: displays_def)
qed

lemma normal_key_ok:
  assumes e: "edits e sh" and d: "displays e (show_out (terminal sh))" and c: "room (Char_key c) e"
  shows "\<exists>sh'. normal_key c sh = Some sh' \<and> edits (edit (Char_key c) e) sh' \<and> displays (edit (Char_key c) e) (show_out (terminal sh')) \<and> shell_parser sh' = shell_parser sh"
proof -
  obtain xs ys where x: "etext e = xs @ ys" "cursor e = length xs" "good_text (xs @ ys)" "cmd_line sh = zero_filled (xs @ ys)"
    "line_position sh = length xs + length ys" "line_curpos sh = length xs" "stat sh = WAIT_NORMAL" "echo_mode sh"
    using editor_split [OF e] by blast
  have len: "length (xs @ ys) < 79" and pc: "printable c" using c x(1) by simp_all
  have g: "good_text (xs @ [c] @ ys)" using x(3) len pc by (simp add: good_text_def FINSH_CMD_SIZE_def)
  let ?out = "terminal sh @ map Byte (c # ys @ replicate (length ys) 8)"
  let ?sh = "sh\<lparr>cmd_line := zero_filled (xs @ [c] @ ys), line_position := length (xs @ [c] @ ys), line_curpos := length xs + 1, terminal := ?out\<rparr>"
  have ed: "edit (Char_key c) e = e\<lparr>etext := xs @ [c] @ ys, cursor := length xs + 1\<rparr>" using x(1,2) by simp
  have "c_text (drop (length xs) (zero_filled (xs @ [c] @ ys))) = Some (c # ys)"
    using cstring_zero_filled [of "c # ys" "FINSH_CMD_SIZE - length (xs @ [c] @ ys)"] good_text_nonzero [OF g] len by (simp add: drop_zero_filled FINSH_CMD_SIZE_def)
  moreover obtain l where "move_bytes (length xs + 1) (length xs) (length ys) (zero_filled (xs @ ys)) = Some l"
    "set_byte (length xs) c l = Some (zero_filled (xs @ [c] @ ys))" using insert_bytes(1) [OF len] by blast
  ultimately have "normal_key c sh = Some ?sh"
    using insert_bytes(2) [OF len, of c] len x(4-8)
    by (cases "ys = []") (simp_all add: normal_key_def kputs_def FINSH_CMD_SIZE_def Let_def)
  moreover have "edits (edit (Char_key c) e) ?sh" unfolding ed by (rule edits_change [OF e g]) simp
  moreover have "displays (edit (Char_key c) e) (show_out ?out)"
    using displays_insert [OF d x(1,2), of c] x(3) pc show_kputs [of "c # ys @ replicate (length ys) 8" sh] unfolding ed by (simp add: kputs_def good_text_def)
  ultimately show ?thesis by simp
qed

lemma drop_last_of: "\<exists>b. drop (length ys) (c # ys @ zs) = b # zs"
  by (induction ys arbitrary: c) auto

lemma delete_bytes:
  assumes "length (xs @ [c] @ ys) < FINSH_CMD_SIZE"
  shows "\<exists>l. move_bytes (length xs) (length xs + 1) (length ys) (zero_filled (xs @ [c] @ ys)) = Some l \<and> set_byte (length (xs @ ys)) 0 l = Some (zero_filled (xs @ ys))"
    "ys = [] \<Longrightarrow> set_byte (length xs) 0 (zero_filled (xs @ [c] @ ys)) = Some (zero_filled (xs @ ys))"
proof -
  let ?z = "replicate (FINSH_CMD_SIZE - length (xs @ [c] @ ys)) (0 :: u8)"
  have p: "zero_filled (xs @ [c] @ ys) = xs @ [c] @ ys @ ?z" by (simp add: zero_filled_def)
  obtain b where b: "drop (length ys) (c # ys @ ?z) = b # ?z" using drop_last_of [of ys c ?z] by blast
  have m: "move_bytes (length xs) (length xs + 1) (length ys) (zero_filled (xs @ [c] @ ys)) = Some (xs @ ys @ b # ?z)"
    unfolding p move_bytes_def using assms b by simp
  have z: "0 # ?z = replicate (FINSH_CMD_SIZE - length (xs @ ys)) 0"
    using assms by (simp add: FINSH_CMD_SIZE_def Suc_diff_Suc flip: replicate_Suc)
  have l: "set_byte (length (xs @ ys)) 0 (xs @ ys @ b # ?z) = Some (xs @ ys @ 0 # ?z)"
    by (simp add: set_byte_def list_update_append)
  show "\<exists>l. move_bytes (length xs) (length xs + 1) (length ys) (zero_filled (xs @ [c] @ ys)) = Some l \<and> set_byte (length (xs @ ys)) 0 l = Some (zero_filled (xs @ ys))"
    using m l z by (simp add: zero_filled_def)
  show "set_byte (length xs) 0 (zero_filled (xs @ [c] @ ys)) = Some (zero_filled (xs @ ys))" if "ys = []"
    using z that unfolding p by (simp add: set_byte_def zero_filled_def)
qed

lemma displays_delete:
  assumes d: "displays e s" and x: "etext e = xs @ [c] @ ys" "cursor e = length xs + 1" and p: "list_all printable ys"
  shows "displays (e\<lparr>etext := xs @ ys, cursor := length xs\<rparr>) (put_bytes ([8] @ ys @ [32, 32, 8] @ replicate (length ys + 1) 8) s)"
    "ys = [] \<Longrightarrow> displays (e\<lparr>etext := xs @ ys, cursor := length xs\<rparr>) (put_bytes [8, 32, 8] s)"
proof -
  obtain n where r: "row s = FINSH_PROMPT @ xs @ [c] @ ys @ replicate n 32" "column s = length FINSH_PROMPT + length xs + 1" "esc s = []"
    using d x by (auto simp: displays_def)
  let ?s = "put_byte 8 s"
  have s: "?s = s\<lparr>column := length FINSH_PROMPT + length xs\<rparr>" using r by (simp add: put_byte_def)
  have sp: "list_all printable [32 :: u8, 32]" "list_all printable [32 :: u8]" by (simp_all add: printable_def)
  have t: "put_bytes (ys @ [32, 32]) ?s = ?s\<lparr>row := take (column ?s) (row ?s) @ (ys @ [32, 32]) @ drop (column ?s + length (ys @ [32, 32])) (row ?s),
      column := column ?s + length (ys @ [32, 32])\<rparr>"
    by (rule put_text) (use p sp r s in \<open>auto simp del: put_bytes_append\<close>)
  then have t': "put_bytes (ys @ [32, 32]) ?s = s\<lparr>row := FINSH_PROMPT @ xs @ ys @ replicate (2 + (n - 1)) 32, column := length FINSH_PROMPT + length xs + length ys + 2\<rparr>"
    unfolding s using r by (simp add: numeral_2_eq_2 del: put_bytes_append)
  have "put_bytes ([8] @ ys @ [32, 32, 8] @ replicate (length ys + 1) 8) s = put_bytes (replicate (length ys + 2) 8) (put_bytes (ys @ [32, 32]) ?s)"
    by simp
  also have "\<dots> = (put_bytes (ys @ [32, 32]) ?s)\<lparr>column := length FINSH_PROMPT + length xs\<rparr>" unfolding t' using r(3) by (subst put_backs) simp_all
  finally show "displays (e\<lparr>etext := xs @ ys, cursor := length xs\<rparr>) (put_bytes ([8] @ ys @ [32, 32, 8] @ replicate (length ys + 1) 8) s)"
    unfolding displays_def t' using r(3) by (auto simp del: replicate_add replicate_Suc)
  show "displays (e\<lparr>etext := xs @ ys, cursor := length xs\<rparr>) (put_bytes [8, 32, 8] s)" if y: "ys = []"
  proof -
    have "put_bytes [32] ?s = ?s\<lparr>row := take (column ?s) (row ?s) @ [32] @ drop (column ?s + length [32 :: u8]) (row ?s), column := column ?s + length [32 :: u8]\<rparr>"
      by (rule put_text) (use sp r s in auto)
    then have "put_bytes [8, 32, 8] s = s\<lparr>row := FINSH_PROMPT @ xs @ replicate (Suc n) 32, column := length FINSH_PROMPT + length xs\<rparr>"
      unfolding s using r y by (simp add: put_byte_def)
    then show ?thesis unfolding displays_def using y r(3) by (auto simp del: replicate_Suc)
  qed
qed

lemma backspace_key_ok:
  assumes e: "edits e sh" and d: "displays e (show_out (terminal sh))"
  shows "\<exists>sh'. backspace_key sh = Some sh' \<and> edits (edit Backspace_key e) sh' \<and> displays (edit Backspace_key e) (show_out (terminal sh')) \<and> shell_parser sh' = shell_parser sh"
proof -
  obtain us ys where x: "etext e = us @ ys" "cursor e = length us" "good_text (us @ ys)" "cmd_line sh = zero_filled (us @ ys)"
    "line_position sh = length us + length ys" "line_curpos sh = length us" "stat sh = WAIT_NORMAL" "echo_mode sh"
    using editor_split [OF e] by blast
  show ?thesis
  proof (cases us rule: rev_cases)
    case Nil
    then show ?thesis using e d x(2,6) by (simp add: backspace_key_def)
  next
    case (snoc xs c)
    have len: "length (xs @ [c] @ ys) < FINSH_CMD_SIZE" using x(3) snoc by (simp add: good_text_def)
    have g: "good_text (xs @ ys)" and p: "list_all printable ys" using x(3) snoc by (simp_all add: good_text_def)
    have ed: "edit Backspace_key e = e\<lparr>etext := xs @ ys, cursor := length xs\<rparr>" using x(1,2) snoc by simp
    have y: "etext e = xs @ [c] @ ys" "cursor e = length xs + 1" using x(1,2) snoc by simp_all
    let ?bs = "if ys = [] then [8, 32, 8] else [8] @ ys @ [32, 32, 8] @ replicate (length ys + 1) 8"
    let ?out = "terminal sh @ map Byte ?bs"
    let ?sh = "sh\<lparr>cmd_line := zero_filled (xs @ ys), line_position := length (xs @ ys), line_curpos := length xs, terminal := ?out\<rparr>"
    have "c_text (drop (length xs) (zero_filled (xs @ ys))) = Some ys"
      using cstring_zero_filled [of ys "FINSH_CMD_SIZE - length (xs @ ys)"] good_text_nonzero [OF g] len by (simp add: drop_zero_filled)
    moreover obtain l where "move_bytes (length xs) (length xs + 1) (length ys) (zero_filled (xs @ [c] @ ys)) = Some l"
      "set_byte (length (xs @ ys)) 0 l = Some (zero_filled (xs @ ys))" using delete_bytes(1) [OF len] by blast
    moreover have "dec_u8 (Suc (length xs + length ys)) = length xs + length ys" using len by (simp add: dec_u8_def FINSH_CMD_SIZE_def)
    ultimately have "backspace_key sh = Some ?sh"
      using delete_bytes(2) [OF len] x(4-8) snoc
      by (cases "ys = []") (simp_all add: backspace_key_def kputs_def Let_def)
    moreover have "edits (edit Backspace_key e) ?sh" unfolding ed by (rule edits_change [OF e g]) simp
    moreover have "displays (edit Backspace_key e) (show_out ?out)"
      using displays_delete [OF d y p] show_kputs [of ?bs sh] unfolding ed by (cases "ys = []") (simp_all add: kputs_def)
    ultimately show ?thesis by simp
  qed
qed

lemma left_key_ok:
  assumes e: "edits e sh" and d: "displays e (show_out (terminal sh))"
  shows "edits (edit Left_key e) (left_key sh)" "displays (edit Left_key e) (show_out (terminal (left_key sh)))" "shell_parser (left_key sh) = shell_parser sh"
proof -
  have c: "line_curpos sh = cursor e" using e by (simp add: edits_def)
  show "edits (edit Left_key e) (left_key sh)" using e by (auto simp: edits_def left_key_def kputs_def)
  show "shell_parser (left_key sh) = shell_parser sh" by (simp add: left_key_def kputs_def)
  show "displays (edit Left_key e) (show_out (terminal (left_key sh)))"
  proof (cases "cursor e = 0")
    case True
    then show ?thesis using d c by (simp add: left_key_def displays_def)
  next
    case False
    then have "terminal (left_key sh) = terminal (kputs [8] sh)" using c by (simp add: left_key_def)
    then show ?thesis using d False by (auto simp: show_kputs displays_def put_byte_def)
  qed
qed

lemma right_key_ok:
  assumes e: "edits e sh" and d: "displays e (show_out (terminal sh))"
  shows "\<exists>sh'. right_key sh = Some sh' \<and> edits (edit Right_key e) sh' \<and> displays (edit Right_key e) (show_out (terminal sh')) \<and> shell_parser sh' = shell_parser sh"
proof -
  obtain xs ys where x: "etext e = xs @ ys" "cursor e = length xs" "good_text (xs @ ys)" "cmd_line sh = zero_filled (xs @ ys)"
    "line_position sh = length xs + length ys" "line_curpos sh = length xs" "stat sh = WAIT_NORMAL" "echo_mode sh"
    using editor_split [OF e] by blast
  show ?thesis
  proof (cases ys)
    case Nil
    then have "edit Right_key e = e" using x(1,2) by simp
    then show ?thesis using e d Nil x(5,6) by (simp add: right_key_def)
  next
    case (Cons c zs)
    have ed: "edit Right_key e = e\<lparr>cursor := length xs + 1\<rparr>" using x(1,2) Cons by simp
    let ?sh = "(kputs [c] sh)\<lparr>line_curpos := length xs + 1\<rparr>"
    have "right_key sh = Some ?sh" using x(3-6) Cons by (simp add: right_key_def good_text_def zero_filled_def)
    moreover have "edits (edit Right_key e) ?sh" unfolding ed using e x(1) Cons by (simp add: edits_def kputs_def)
    moreover have "displays (edit Right_key e) (show_out (terminal ?sh))"
    proof -
      let ?s = "show_out (terminal sh)"
      obtain n where r: "row ?s = FINSH_PROMPT @ xs @ c # zs @ replicate n 32" "column ?s = length FINSH_PROMPT + length xs" "esc ?s = []"
        using d x(1,2) Cons by (auto simp: displays_def)
      have "put_bytes [c] ?s = ?s\<lparr>row := take (column ?s) (row ?s) @ [c] @ drop (column ?s + length [c]) (row ?s), column := column ?s + length [c]\<rparr>"
        by (rule put_text) (use x(3) Cons r in \<open>auto simp: good_text_def\<close>)
      then show ?thesis unfolding ed using r x(1) Cons show_kputs [of "[c]" sh] by (auto simp: displays_def)
    qed
    ultimately show ?thesis by (simp add: kputs_def)
  qed
qed

lemma prompt_printable: "list_all printable FINSH_PROMPT"
  by (simp add: FINSH_PROMPT_def printable_def)

lemma displays_recall:
  assumes "esc s = []" "list_all printable t"
  shows "displays (e\<lparr>etext := t, cursor := length t, recalled := i\<rparr>) (put_bytes (FINSH_PROMPT @ t) (put_bytes [27, 91, 50, 75, 13] s))"
proof -
  let ?s = "put_bytes [27, 91, 50, 75, 13] s"
  have s: "?s = s\<lparr>row := replicate (length (row s)) 32, column := 0\<rparr>" using assms(1) by (simp add: put_byte_def)
  have "put_bytes (FINSH_PROMPT @ t) ?s = ?s\<lparr>row := take (column ?s) (row ?s) @ (FINSH_PROMPT @ t) @ drop (column ?s + length (FINSH_PROMPT @ t)) (row ?s),
      column := column ?s + length (FINSH_PROMPT @ t)\<rparr>"
    by (rule put_text) (use assms prompt_printable s in auto)
  then show ?thesis unfolding s using assms(1) by (auto simp: displays_def)
qed

lemma recall_ok:
  assumes e: "edits e sh" and d: "displays e (show_out (terminal sh))" and i: "i < length (past e)"
  shows "\<exists>sh'. recall_history (sh\<lparr>current_history := i\<rparr>) = Some sh' \<and> edits (recall i e) sh' \<and> displays (recall i e) (show_out (terminal sh'))
    \<and> shell_parser sh' = shell_parser sh"
proof -
  let ?t = "past e ! i"
  have h: "length (cmd_history sh) = FINSH_HISTORY_LINES" "length (past e) \<le> FINSH_HISTORY_LINES" "take (length (past e)) (cmd_history sh) = map zero_filled (past e)"
      "list_all good_text (past e)"
    using e by (simp_all add: edits_def)
  have l: "cmd_history sh ! i = zero_filled ?t" using i arg_cong [OF h(3), of "\<lambda>ls. ls ! i"] by simp
  have g: "good_text ?t" using h(4) i by (simp add: list_all_length)
  let ?sh = "sh\<lparr>current_history := i, cmd_line := zero_filled ?t, line_position := length ?t, line_curpos := length ?t\<rparr>"
  let ?sh' = "kputs (FINSH_PROMPT @ ?t) (kputs [27, 91, 50, 75, 13] ?sh)"
  have "recall_history (sh\<lparr>current_history := i\<rparr>) = Some ?sh'"
    using i h(1,2) l c_text_zero_filled [OF g] by (simp add: recall_history_def shell_handle_history_def)
  moreover have "edits (recall i e) ?sh'" using e g i by (simp add: edits_def recall_def kputs_def)
  moreover have "displays (recall i e) (put_bytes (FINSH_PROMPT @ ?t) (put_bytes [27, 91, 50, 75, 13] (show_out (terminal sh))))"
    unfolding recall_def by (rule displays_recall) (use d g in \<open>simp_all add: displays_def good_text_def\<close>)
  then have "displays (recall i e) (show_out (terminal ?sh'))" unfolding show_kputs by simp
  ultimately show ?thesis by (simp add: kputs_def)
qed

lemma up_key_ok:
  assumes e: "edits e sh" and d: "displays e (show_out (terminal sh))"
  shows "\<exists>sh'. up_key sh = Some sh' \<and> edits (edit Up_key e) sh' \<and> displays (edit Up_key e) (show_out (terminal sh')) \<and> shell_parser sh' = shell_parser sh"
proof -
  have c: "current_history sh = recalled e" "recalled e \<le> length (past e)" using e by (simp_all add: edits_def)
  show ?thesis
  proof (cases "recalled e = 0")
    case True
    then show ?thesis using e d c by (simp add: up_key_def edits_def)
  next
    case False
    then show ?thesis using recall_ok [OF e d, of "recalled e - 1"] c by (simp add: up_key_def)
  qed
qed

lemma down_key_ok:
  assumes e: "edits e sh" and d: "displays e (show_out (terminal sh))"
  shows "\<exists>sh'. down_key sh = Some sh' \<and> edits (edit Down_key e) sh' \<and> displays (edit Down_key e) (show_out (terminal sh')) \<and> shell_parser sh' = shell_parser sh"
proof -
  have c: "current_history sh = recalled e" "history_count sh = length (past e)" using e by (simp_all add: edits_def)
  show ?thesis
  proof (cases "past e = []")
    case True
    then show ?thesis using e d c by (simp add: down_key_def)
  next
    case False
    let ?i = "min (recalled e + 1) (length (past e) - 1)"
    have "down_key sh = recall_history (sh\<lparr>current_history := ?i\<rparr>)" using False c by (auto simp: down_key_def min_def)
    moreover have "?i < length (past e)" using False by (simp add: less_le_trans min.strict_coboundedI2)
    ultimately show ?thesis using recall_ok [OF e d, of ?i] False by simp
  qed
qed

section \<open>Sequences of keys\<close>

lemma stat_same: "stat sh = WAIT_NORMAL \<Longrightarrow> sh\<lparr>stat := WAIT_NORMAL\<rparr> = sh"
  by (cases sh) simp

lemma read_char:
  assumes "stat sh = WAIT_NORMAL" "printable c"
  shows "shell_read env (c # rest) (sh, vm) = (case normal_key c sh of Some sh' \<Rightarrow> shell_read env rest (sh', vm) | None \<Rightarrow> None)"
  using assms printable_simps [OF assms(2)] by (simp add: control_key_def text_key_def split: option.split)

lemma read_backspace:
  assumes "stat sh = WAIT_NORMAL"
  shows "shell_read env (0x7f # rest) (sh, vm) = (case backspace_key sh of Some sh' \<Rightarrow> shell_read env rest (sh', vm) | None \<Rightarrow> None)"
  using assms by (simp add: control_key_def split: option.split)

lemma read_arrow:
  assumes "stat sh = WAIT_NORMAL"
  shows "shell_read env (0x1b # 0x5b # 0x44 # rest) (sh, vm) = shell_read env rest (left_key sh, vm)"
    "shell_read env (0x1b # 0x5b # 0x43 # rest) (sh, vm) = (case right_key sh of Some sh' \<Rightarrow> shell_read env rest (sh', vm) | None \<Rightarrow> None)"
    "shell_read env (0x1b # 0x5b # 0x41 # rest) (sh, vm) = (case up_key sh of Some sh' \<Rightarrow> shell_read env rest (sh', vm) | None \<Rightarrow> None)"
    "shell_read env (0x1b # 0x5b # 0x42 # rest) (sh, vm) = (case down_key sh of Some sh' \<Rightarrow> shell_read env rest (sh', vm) | None \<Rightarrow> None)"
  using stat_same [OF assms] by (simp_all add: control_key_def split: option.split)

lemma key_ok:
  assumes e: "edits e sh" and d: "displays e (show_out (terminal sh))" and r: "room k e"
  shows "\<exists>sh'. (\<forall>rest vm. shell_read env (key_bytes k @ rest) (sh, vm) = shell_read env rest (sh', vm))
    \<and> edits (edit k e) sh' \<and> displays (edit k e) (show_out (terminal sh')) \<and> shell_parser sh' = shell_parser sh"
proof -
  have s: "stat sh = WAIT_NORMAL" using e by (simp add: edits_def)
  show ?thesis
  proof (cases k)
    case (Char_key c)
    then show ?thesis using normal_key_ok [OF e d, of c] r by (auto simp: read_char [OF s] simp del: edit.simps shell_read.simps)
  next
    case Backspace_key
    then show ?thesis using backspace_key_ok [OF e d] by (auto simp: read_backspace [OF s] simp del: edit.simps shell_read.simps)
  next
    case Left_key
    then show ?thesis using left_key_ok [OF e d] by (auto simp: read_arrow [OF s] simp del: edit.simps shell_read.simps)
  next
    case Right_key
    then show ?thesis using right_key_ok [OF e d] by (auto simp: read_arrow [OF s] simp del: edit.simps shell_read.simps)
  next
    case Up_key
    then show ?thesis using up_key_ok [OF e d] by (auto simp: read_arrow [OF s] simp del: edit.simps shell_read.simps)
  next
    case Down_key
    then show ?thesis using down_key_ok [OF e d] by (auto simp: read_arrow [OF s] simp del: edit.simps shell_read.simps)
  qed
qed

lemma keys_ok:
  "edits e sh \<Longrightarrow> displays e (show_out (terminal sh)) \<Longrightarrow> all_room ks e \<Longrightarrow>
    \<exists>sh'. (\<forall>rest vm. shell_read env (concat (map key_bytes ks) @ rest) (sh, vm) = shell_read env rest (sh', vm))
    \<and> edits (fold edit ks e) sh' \<and> displays (fold edit ks e) (show_out (terminal sh')) \<and> shell_parser sh' = shell_parser sh"
proof (induction ks arbitrary: e sh)
  case Nil
  then show ?case by auto
next
  case (Cons k ks)
  from Cons.prems obtain sh1 where sh1: "\<forall>rest vm. shell_read env (key_bytes k @ rest) (sh, vm) = shell_read env rest (sh1, vm)"
    "edits (edit k e) sh1" "displays (edit k e) (show_out (terminal sh1))" "shell_parser sh1 = shell_parser sh"
    using key_ok [of e sh k env] by auto
  from Cons.IH [OF sh1(2,3)] Cons.prems(3) obtain sh2 where
    "\<forall>rest vm. shell_read env (concat (map key_bytes ks) @ rest) (sh1, vm) = shell_read env rest (sh2, vm)"
    "edits (fold edit ks (edit k e)) sh2" "displays (fold edit ks (edit k e)) (show_out (terminal sh2))" "shell_parser sh2 = shell_parser sh1" by auto
  then show ?case using sh1(1,4) by (simp del: shell_read.simps) blast
qed

section \<open>The return key\<close>

lemma history_line_zero_filled: "edits e sh \<Longrightarrow> history_line sh = zero_filled (etext e)"
  by (simp add: history_line_def edits_def zero_filled_def)

lemma push_history_ok:
  assumes e: "edits e sh"
  shows "length (past (submit e)) \<le> FINSH_HISTORY_LINES" "list_all good_text (past (submit e))"
    "length (cmd_history (shell_push_history sh)) = FINSH_HISTORY_LINES" "history_count (shell_push_history sh) = length (past (submit e))"
    "current_history (shell_push_history sh) = length (past (submit e))"
    "take (length (past (submit e))) (cmd_history (shell_push_history sh)) = map zero_filled (past (submit e))"
proof -
  have h: "length (cmd_history sh) = FINSH_HISTORY_LINES" "length (past e) \<le> FINSH_HISTORY_LINES" "take (length (past e)) (cmd_history sh) = map zero_filled (past e)"
      "list_all good_text (past e)" "history_count sh = length (past e)" "line_position sh = length (etext e)" "good_text (etext e)"
    using e by (simp_all add: edits_def)
  note l = history_line_zero_filled [OF e]
  have tl: "set (tl (past e)) \<subseteq> set (past e)" by (cases "past e") auto
  show "length (past (submit e)) \<le> FINSH_HISTORY_LINES" "list_all good_text (past (submit e))"
    "length (cmd_history (shell_push_history sh)) = FINSH_HISTORY_LINES" "history_count (shell_push_history sh) = length (past (submit e))"
    "current_history (shell_push_history sh) = length (past (submit e))"
    using h by (auto simp: submit_def shell_push_history_def Let_def FINSH_HISTORY_LINES_def list_all_iff dest: subsetD [OF tl])
  show "take (length (past (submit e))) (cmd_history (shell_push_history sh)) = map zero_filled (past (submit e))"
  proof (cases "length (past e) < FINSH_HISTORY_LINES")
    case True
    then have "take (Suc (length (past e))) ((cmd_history sh)[length (past e) := zero_filled (etext e)]) = map zero_filled (past e) @ [zero_filled (etext e)]"
      using h(1,3) by (simp add: take_Suc_conv_app_nth take_update_cancel)
    then show ?thesis using True h l by (simp add: submit_def shell_push_history_def Let_def)
  next
    case False
    then have "length (past e) = FINSH_HISTORY_LINES" using h(2) by simp
    then have "cmd_history sh = map zero_filled (past e)" using h(1,3) by simp
    then show ?thesis using False h l by (simp add: submit_def shell_push_history_def Let_def map_tl FINSH_HISTORY_LINES_def)
  qed
qed

lemma displays_fresh:
  assumes "esc s = []" "etext e = []" "cursor e = 0"
  shows "displays e (put_bytes FINSH_PROMPT (s\<lparr>row := [], column := 0\<rparr>))"
proof -
  let ?s = "s\<lparr>row := [], column := 0\<rparr>"
  have "put_bytes FINSH_PROMPT ?s = ?s\<lparr>row := take (column ?s) (row ?s) @ FINSH_PROMPT @ drop (column ?s + length FINSH_PROMPT) (row ?s),
      column := column ?s + length FINSH_PROMPT\<rparr>"
    by (rule put_text) (use assms(1) prompt_printable in simp_all)
  then show ?thesis using assms by (simp add: displays_def)
qed

lemma submit_fields [simp]: "etext (submit e) = []" "cursor (submit e) = 0" "recalled (submit e) = length (past (submit e))"
  by (simp_all add: submit_def Let_def)

lemma push_history_same:
  "cmd_line (shell_push_history sh) = cmd_line sh" "line_position (shell_push_history sh) = line_position sh" "stat (shell_push_history sh) = stat sh"
  "echo_mode (shell_push_history sh) = echo_mode sh" "terminal (shell_push_history sh) = terminal sh" "shell_parser (shell_push_history sh) = shell_parser sh"
  by (simp_all add: shell_push_history_def Let_def)

lemma submitted:
  assumes "edits e sh"
  shows "edits (submit e) ((shell_push_history sh)\<lparr>terminal := out, shell_parser := p, cmd_line := replicate FINSH_CMD_SIZE 0, line_position := 0, line_curpos := 0\<rparr>)"
  using push_history_ok [OF assms] assms by (simp add: edits_def push_history_same zero_filled_def good_text_def FINSH_CMD_SIZE_def)

lemma enter_key_ok:
  assumes e: "edits e sh" and d: "displays e (show_out (terminal sh))" and t: "etext e \<noteq> []" "length (etext e) < 79"
    and run: "finsh_run_line (env_calls env) (env_sys env) (env_tab env) (etext e @ [59]) (shell_parser sh) vm = Some (out, p, vm')"
  shows "\<exists>sh'. enter_key env (sh, vm) = Some (sh', vm') \<and> edits (submit e) sh' \<and> displays (submit e) (show_out (terminal sh')) \<and> shell_parser sh' = p
    \<and> terminal sh' = terminal sh @ [Byte 10, Line_result out] @ map Byte FINSH_PROMPT"
proof -
  have x: "cmd_line sh = zero_filled (etext e)" "line_position sh = length (etext e)" "good_text (etext e)" using e by (simp_all add: edits_def)
  have l: "set_byte (length (etext e)) 59 (zero_filled (etext e)) = Some (zero_filled (etext e @ [59]))"
    using insert_bytes(2) [of "etext e" "[]" 59] t(2) by simp
  have g: "good_text (etext e @ [59])" using x(3) t(2) by (simp add: good_text_def printable_def FINSH_CMD_SIZE_def)
  let ?out = "terminal sh @ [Byte 10, Line_result out] @ map Byte FINSH_PROMPT"
  let ?sh = "(shell_push_history sh)\<lparr>terminal := ?out, shell_parser := p, cmd_line := replicate FINSH_CMD_SIZE 0, line_position := 0, line_curpos := 0\<rparr>"
  have "enter_key env (sh, vm) = Some (?sh, vm')"
    using x l t(1) c_text_zero_filled [OF g] run by (simp add: enter_key_def push_history_same kputs_def Let_def)
  moreover have "show_out ?out = put_bytes FINSH_PROMPT ((show_out (terminal sh))\<lparr>row := [], column := 0\<rparr>)"
  proof -
    have "fold put_out (map Byte bs) s = put_bytes bs s" for bs s by (induction bs arbitrary: s) simp_all
    moreover have "esc (show_out (terminal sh)) = []" using d by (simp add: displays_def)
    ultimately show ?thesis by (simp add: show_out_def put_byte_def)
  qed
  moreover have "displays (submit e) (put_bytes FINSH_PROMPT ((show_out (terminal sh))\<lparr>row := [], column := 0\<rparr>))"
    by (rule displays_fresh) (use d in \<open>simp_all add: displays_def\<close>)
  ultimately show ?thesis using submitted [OF e] by simp
qed

definition return_bytes :: "u8 list \<Rightarrow> bool" where
  "return_bytes bs \<longleftrightarrow> bs = [13] \<or> bs = [10] \<or> bs = [13, 10]"

lemma read_return:
  assumes "stat sh = WAIT_NORMAL" "return_bytes bs" "enter_key env (sh, vm) = Some st"
  shows "shell_read env bs (sh, vm) = Some ([], st)"
  using assms by (auto simp: return_bytes_def control_key_def text_key_def)

lemma typed_line_ok:
  assumes e: "edits e sh" and d: "displays e (show_out (terminal sh))" and ks: "all_room ks e" and e': "e' = fold edit ks e"
    and t: "etext e' \<noteq> []" "length (etext e') < 79" and ret: "return_bytes bs"
    and run: "finsh_run_line (env_calls env) (env_sys env) (env_tab env) (etext e' @ [59]) (shell_parser sh) vm = Some (out, p, vm')"
  shows "\<exists>sh'. shell_read env (concat (map key_bytes ks) @ bs) (sh, vm) = Some ([], sh', vm') \<and> edits (submit e') sh'
    \<and> displays (submit e') (show_out (terminal sh')) \<and> shell_parser sh' = p \<and> Line_result out \<in> set (terminal sh')"
proof -
  obtain sh1 where sh1: "\<forall>rest vm. shell_read env (concat (map key_bytes ks) @ rest) (sh, vm) = shell_read env rest (sh1, vm)"
    "edits e' sh1" "displays e' (show_out (terminal sh1))" "shell_parser sh1 = shell_parser sh" using keys_ok [OF e d ks] e' by blast
  note run1 = run [folded sh1(4)]
  obtain sh' where sh': "enter_key env (sh1, vm) = Some (sh', vm')" "edits (submit e') sh'" "displays (submit e') (show_out (terminal sh'))"
    "shell_parser sh' = p" "terminal sh' = terminal sh1 @ [Byte 10, Line_result out] @ map Byte FINSH_PROMPT"
    using enter_key_ok [OF sh1(2,3) t run1] by blast
  have "stat sh1 = WAIT_NORMAL" using sh1(2) by (simp add: edits_def)
  from read_return [OF this ret sh'(1)] show ?thesis using sh1(1) sh'(2-) by auto
qed

text \<open>The shell starts with an empty line.\<close>

definition blank_editor :: editor where
  "blank_editor = \<lparr>etext = [], cursor = 0, past = [], recalled = 0\<rparr>"

lemma thread_start_edits: "edits blank_editor (finsh_thread_start p)"
  by (simp add: edits_def blank_editor_def finsh_thread_start_def zero_filled_def good_text_def FINSH_CMD_SIZE_def)

lemma thread_start_displays: "displays blank_editor (show_out (terminal (finsh_thread_start p)))"
proof -
  have "show_out (map Byte FINSH_PROMPT) = put_bytes FINSH_PROMPT (\<lparr>row = [], column = 0, esc = []\<rparr>\<lparr>row := [], column := 0\<rparr>)"
    using show_kputs [of FINSH_PROMPT "(finsh_thread_start p)\<lparr>terminal := []\<rparr>"] by (simp add: kputs_def show_out_def)
  then show ?thesis using displays_fresh [of "\<lparr>row = [], column = 0, esc = []\<rparr>" blank_editor] by (simp add: finsh_thread_start_def blank_editor_def)
qed

section \<open>Completion\<close>

lemma is_prefix_spec: "str_is_prefix p s = 0 \<longleftrightarrow> prefix p s"
  by (induction p s rule: str_is_prefix.induct) auto

lemma common_spec: "str_common a b = length (Longest_common_prefix {a, b})"
proof (induction a b rule: str_common.induct)
  case (1 a as b bs)
  show ?case
  proof (cases "a = b")
    case True
    have "Longest_common_prefix ((#) b ` {as, bs}) = b # Longest_common_prefix {as, bs}" by (rule Longest_common_prefix_image_Cons) simp
    then show ?thesis using 1 True by simp
  next
    case False
    have "Longest_common_prefix {a # as, b # bs} = []" by (rule Longest_common_prefix_eq_Nil) (use False in auto)
    then show ?thesis using False by simp
  qed
qed (auto simp: Longest_common_prefix_Nil)

text \<open>The names that a loop has found, and the common part of them.\<close>

definition names_inv :: "u8 list set \<Rightarrow> name_search \<Rightarrow> bool" where
  "names_inv M st \<longleftrightarrow> (if M = {} then name_ptr st = None \<and> found_cnt st = 0
     else \<exists>n \<in> M. name_ptr st = Some n \<and> min_length st \<le> length n \<and> take (min_length st) n = Longest_common_prefix M)"

lemma common_insert:
  assumes n: "n \<in> M" and k: "take k n = Longest_common_prefix M" "k \<le> length n"
  shows "take (min (str_common n x) k) n = Longest_common_prefix (insert x M)"
proof -
  let ?c = "Longest_common_prefix {n, x}" and ?l = "take (min (str_common n x) k) n"
  have c: "prefix ?c n" "prefix ?c x" "length ?c = str_common n x" by (simp_all add: Longest_common_prefix_prefix common_spec)
  then have "take (str_common n x) n = ?c" by (metis append_eq_conv_conj prefix_def)
  then have "?l = take k ?c" by (metis min.commute take_take)
  then have "prefix ?l ?c" using take_is_prefix by metis
  then have x: "prefix ?l x" using c(2) by (rule prefix_order.trans)
  have "?l = take (str_common n x) (take k n)" by simp
  then have "prefix ?l (take k n)" using take_is_prefix by metis
  then have m: "prefix ?l y" if "y \<in> M" for y using Longest_common_prefix_prefix [OF that] k(1) prefix_order.trans by metis
  have len: "length ?l = min (str_common n x) k" using k(2) prefix_length_le [OF c(1)] c(3) by simp
  have "length ps \<le> length ?l" if ps: "\<forall>y \<in> insert x M. prefix ps y" for ps
  proof -
    have "length ps \<le> length ?c" using ps n by (intro Longest_common_prefix_longest) auto
    moreover have "length ps \<le> length (Longest_common_prefix M)" using ps n by (intro Longest_common_prefix_longest) auto
    moreover have "length (Longest_common_prefix M) = k" using arg_cong [OF k(1), of length] k(2) by simp
    ultimately show ?thesis using len c(3) by simp
  qed
  then show ?thesis using x m by (intro Longest_common_prefix_eq [symmetric]) auto
qed

lemma name_found_inv:
  assumes i: "names_inv M st" and p: "pre \<noteq> []"
  shows "names_inv (insert name M) (name_found head entry pre name st)"
proof (cases "M = {}")
  case True
  have "str_common name name = length name" by (induction name) auto
  moreover have "Longest_common_prefix {name} = name" by (rule Longest_common_prefix_eq) (auto dest: prefix_length_le)
  ultimately show ?thesis using i p True by (simp add: names_inv_def name_found_def Let_def)
next
  case False
  then obtain n where n: "n \<in> M" "name_ptr st = Some n" "min_length st \<le> length n" "take (min_length st) n = Longest_common_prefix M"
    using i by (auto simp: names_inv_def)
  then have "take (min (str_common n name) (min_length st)) n = Longest_common_prefix (insert name M)" by (intro common_insert)
  moreover have "name_ptr (name_found head entry pre name st) = Some n" "min_length (name_found head entry pre name st) = min (str_common n name) (min_length st)"
    using n(2) p by (simp_all add: name_found_def Let_def)
  ultimately show ?thesis using n(1,3) by (auto simp: names_inv_def)
qed

definition matching :: "u8 list \<Rightarrow> (u8 list \<times> u32) list \<Rightarrow> u8 list set" where
  "matching pre xs = {n \<in> fst ` set xs. prefix pre n}"

lemma list_names_inv:
  "names_inv M st \<Longrightarrow> pre \<noteq> [] \<Longrightarrow> names_inv (M \<union> matching pre xs) (list_names head entry pre xs st)"
proof (induction xs arbitrary: M st)
  case Nil
  then show ?case by (simp add: matching_def)
next
  case (Cons x xs)
  show ?case
  proof (cases "prefix pre (fst x)")
    case True
    then have "M \<union> matching pre (x # xs) = insert (fst x) M \<union> matching pre xs" by (auto simp: matching_def)
    then show ?thesis using Cons.IH [OF name_found_inv [OF Cons.prems] Cons.prems(2)] True by (simp add: is_prefix_spec)
  next
    case False
    then have "matching pre (x # xs) = matching pre xs" by (auto simp: matching_def)
    then show ?thesis using Cons.IH [OF Cons.prems] False by (simp add: is_prefix_spec)
  qed
qed

text \<open>The names that the completion looks at.\<close>

definition candidates :: "finsh_symbols \<Rightarrow> u8 list \<Rightarrow> u8 list set" where
  "candidates y pre = {n. prefix pre n \<and> (n \<in> fst ` set (syscall_table y) \<and> \<not> prefix [95, 95] n \<or>
     n \<in> fst ` set (global_syscall_list y @ sysvar_table y @ global_sysvar_list y))}"

lemma search_names_inv:
  assumes p: "pre \<noteq> []"
  shows "names_inv (candidates y pre) (search_names desc y pre)"
proof -
  let ?f = "filter (\<lambda>x. str_is_prefix [95, 95] (fst x) \<noteq> 0) (syscall_table y)"
  have c: "candidates y pre = {} \<union> matching pre ?f \<union> matching pre (global_syscall_list y) \<union> matching pre (sysvar_table y) \<union> matching pre (global_sysvar_list y)"
    by (auto simp: candidates_def matching_def is_prefix_spec)
  have reset: "names_inv M (st\<lparr>found_cnt := 0\<rparr>)" if "names_inv M st" for M st using that by (simp add: names_inv_def)
  show ?thesis unfolding c search_names_def Let_def
    by (intro list_names_inv [OF _ p] reset) (simp add: names_inv_def)
qed

lemma strncpy_take: "0 \<notin> set n \<Longrightarrow> k \<le> length n \<Longrightarrow> rt_strncpy (n @ [0]) k = Some (take k n)"
proof (induction n arbitrary: k)
  case (Cons c n)
  then show ?case by (cases k) auto
qed simp

text \<open>What is listed ends a row.\<close>

definition whole_rows :: "u8 list \<Rightarrow> bool" where
  "whole_rows bs \<longleftrightarrow> 27 \<notin> set bs \<and> (bs = [] \<or> last bs = 10)"

lemma list_names_rows:
  "whole_rows (printed st) \<Longrightarrow> 27 \<notin> set head \<Longrightarrow> \<forall>x \<in> set xs. entry x \<noteq> [] \<and> whole_rows (entry x) \<Longrightarrow> whole_rows (printed (list_names head entry pre xs st))"
proof (induction xs arbitrary: st)
  case (Cons x xs)
  have "printed (name_found head (entry x) pre (fst x) st) \<in> {printed st @ entry x, printed st @ head @ entry x}"
    by (auto simp: name_found_def Let_def split: option.split)
  then have "whole_rows (printed (name_found head (entry x) pre (fst x) st))" using Cons.prems by (auto simp: whole_rows_def)
  then show ?case using Cons.IH Cons.prems by simp
qed simp

lemma put_whole_rows:
  assumes "whole_rows bs" "esc s = []"
  shows "\<exists>s'. put_bytes (10 # bs) s = s'\<lparr>row := [], column := 0\<rparr> \<and> esc s' = []"
proof -
  have esc: "esc (put_bytes cs s) = []" if "27 \<notin> set cs" "esc s = []" for cs s
    using that by (induction cs arbitrary: s) (auto simp: put_byte_def)
  have nl: "put_byte 10 s = s\<lparr>row := [], column := 0\<rparr>" if "esc s = []" for s using that by (simp add: put_byte_def)
  show ?thesis
  proof (cases bs rule: rev_cases)
    case Nil
    then show ?thesis using nl [OF assms(2)] assms(2) by auto
  next
    case (snoc cs c)
    let ?s = "put_bytes (10 # cs) s"
    have "c = 10" "27 \<notin> set (10 # cs)" using assms(1) snoc by (simp_all add: whole_rows_def)
    moreover have "put_bytes (10 # bs) s = put_byte c ?s" using snoc by simp
    ultimately show ?thesis using esc [of "10 # cs" s] assms(2) nl [of ?s] by auto
  qed
qed

definition good_symbols :: "(u32 \<Rightarrow> u8 list) \<Rightarrow> finsh_symbols \<Rightarrow> bool" where
  "good_symbols desc y \<longleftrightarrow> (\<forall>(n, a) \<in> set (syscall_table y @ global_syscall_list y @ sysvar_table y @ global_sysvar_list y). good_text n \<and> 27 \<notin> set (desc a))"

definition completed :: "finsh_symbols \<Rightarrow> u8 list \<Rightarrow> u8 list" where
  "completed y t = (if t = [] \<or> candidates y t = {} then t else Longest_common_prefix (candidates y t))"

lemma list_names_all: "name_ptr (list_names head entry [] xs st) = name_ptr st"
  by (induction xs arbitrary: st) (auto simp: name_found_def Let_def)

lemma search_all: "name_ptr (search_names desc y []) = None"
  by (simp add: search_names_def list_names_all Let_def)

lemma search_rows:
  assumes g: "good_symbols desc y"
  shows "whole_rows (printed (search_names desc y pre))"
proof -
  have esc: "27 \<notin> set n" if "good_text n" for n using that printable_simps by (auto simp: good_text_def list_all_iff)
  have d: "\<forall>x \<in> set xs. described desc x \<noteq> [] \<and> whole_rows (described desc x)"
    and l: "\<forall>x \<in> set xs. listed c x \<noteq> [] \<and> (c \<noteq> 27 \<longrightarrow> whole_rows (listed c x))"
    if "set xs \<subseteq> set (syscall_table y @ global_syscall_list y @ sysvar_table y @ global_sysvar_list y)" for xs c
    using that g esc by (fastforce simp: good_symbols_def whole_rows_def described_def listed_def)+
  have h: "27 \<notin> set function_head" "27 \<notin> set variable_head" by (simp_all add: function_head_def variable_head_def)
  let ?f = "filter (\<lambda>x. str_is_prefix [95, 95] (fst x) \<noteq> 0) (syscall_table y)"
  note s1 = list_names_rows [OF _ h(1) d, of "\<lparr>found_cnt = 0, name_ptr = None, min_length = 0, printed = []\<rparr>" ?f pre]
  note s2 = list_names_rows [OF s1 h(1), of "global_syscall_list y" "listed 108" pre]
  note s3 = list_names_rows [OF _ h(2) d, of "(list_names function_head (listed 108) pre (global_syscall_list y) (list_names function_head (described desc) pre ?f
    \<lparr>found_cnt = 0, name_ptr = None, min_length = 0, printed = []\<rparr>))\<lparr>found_cnt := 0\<rparr>" "sysvar_table y" pre]
  note s4 = list_names_rows [OF s3 h(2), of "global_sysvar_list y" "listed 118" pre]
  have e: "whole_rows []" by (simp add: whole_rows_def)
  show ?thesis unfolding search_names_def Let_def
    using s4 s2 e l [of "global_syscall_list y" 108] l [of "global_sysvar_list y" 118] by auto
qed

lemma complete_line:
  assumes t: "good_text t" and c: "c_text (cmd_line sh) = Some t" "cmd_line sh = zero_filled t" and g: "good_symbols desc (symbols (shell_parser sh))"
  shows "list_prefix desc sh = Some ((kputs (printed (search_names desc (symbols (shell_parser sh)) t)) sh)\<lparr>cmd_line := zero_filled (completed (symbols (shell_parser sh)) t)\<rparr>)
    \<and> good_text (completed (symbols (shell_parser sh)) t)"
proof -
  let ?y = "symbols (shell_parser sh)"
  let ?st = "search_names desc ?y t" and ?C = "candidates ?y t"
  have same: "(kputs (printed ?st) sh)\<lparr>cmd_line := cmd_line sh\<rparr> = kputs (printed ?st) sh" by (simp add: kputs_def)
  show ?thesis
  proof (cases "t = [] \<or> ?C = {}")
    case True
    then have "name_ptr ?st = None"
      using search_all [of desc ?y] search_names_inv [of t ?y desc] by (cases "t = []") (simp_all add: names_inv_def)
    then show ?thesis using True t c same by (simp add: list_prefix_def completed_def)
  next
    case False
    then obtain n where n: "n \<in> ?C" "name_ptr ?st = Some n" "min_length ?st \<le> length n" "take (min_length ?st) n = Longest_common_prefix ?C"
      using search_names_inv [of t ?y desc] by (auto simp: names_inv_def)
    let ?k = "min_length ?st" and ?l = "Longest_common_prefix ?C"
    have k: "length ?l = ?k" using arg_cong [OF n(4), of length] n(3) by simp
    have gn: "good_text n" using n(1) g by (fastforce simp: candidates_def good_symbols_def)
    moreover have "set ?l \<subseteq> set n" unfolding n(4) [symmetric] by (rule set_take_subset)
    ultimately have gl: "good_text ?l" using n(3) k by (auto simp: good_text_def list_all_iff)
    have "prefix t ?l" using False by (intro Longest_common_prefix_max_prefix) (auto simp: candidates_def)
    then have tk: "length t \<le> ?k" using k prefix_length_le by fastforce
    have "?l @ drop ?k (cmd_line sh) = zero_filled ?l"
    proof -
      have "drop ?k (zero_filled t) = replicate (FINSH_CMD_SIZE - ?k) 0" using tk by (simp add: zero_filled_def)
      then show ?thesis using c(2) k by (simp add: zero_filled_def)
    qed
    moreover have "rt_strncpy (n @ [0]) ?k = Some ?l" using strncpy_take [OF good_text_nonzero [OF gn] n(3)] n(4) by simp
    moreover have "?k \<le> length (cmd_line sh)" using gl k t c(2) by (simp add: good_text_def)
    ultimately show ?thesis using False n(2) c(1) gl by (simp add: list_prefix_def completed_def kputs_def)
  qed
qed

lemma displays_completed:
  assumes "esc s = []" "whole_rows bs" "list_all printable t" "etext e = t" "cursor e = length t"
  shows "displays e (put_bytes (FINSH_PROMPT @ t) (put_bytes (10 # bs) s))"
proof -
  obtain s' where s': "put_bytes (10 # bs) s = s'\<lparr>row := [], column := 0\<rparr>" "esc s' = []" using put_whole_rows [OF assms(2,1)] by blast
  let ?s = "s'\<lparr>row := [], column := 0\<rparr>"
  have "put_bytes (FINSH_PROMPT @ t) ?s = ?s\<lparr>row := take (column ?s) (row ?s) @ (FINSH_PROMPT @ t) @ drop (column ?s + length (FINSH_PROMPT @ t)) (row ?s),
      column := column ?s + length (FINSH_PROMPT @ t)\<rparr>"
    by (rule put_text) (use s'(2) assms(3) prompt_printable in simp_all)
  then show ?thesis unfolding s'(1) using s'(2) assms(4,5) by (simp add: displays_def)
qed

lemma tab_key_ok:
  assumes e: "edits e sh" and d: "displays e (show_out (terminal sh))" and g: "good_symbols (env_desc env) (symbols (shell_parser sh))"
    and e': "e' = e\<lparr>etext := completed (symbols (shell_parser sh)) (etext e), cursor := length (completed (symbols (shell_parser sh)) (etext e))\<rparr>"
  shows "\<exists>sh'. shell_read env (9 # rest) (sh, vm) = shell_read env rest (sh', vm) \<and> edits e' sh' \<and> displays e' (show_out (terminal sh'))
    \<and> shell_parser sh' = shell_parser sh"
proof -
  have x: "cmd_line sh = zero_filled (etext e)" "good_text (etext e)" "stat sh = WAIT_NORMAL" using e by (simp_all add: edits_def)
  let ?y = "symbols (shell_parser sh)" and ?n = "line_curpos sh"
  let ?t = "completed ?y (etext e)" and ?p = "printed (search_names (env_desc env) ?y (etext e))"
  let ?sh0 = "kputs [10] (kputs (replicate ?n 8) sh)"
  let ?sh1 = "(kputs ?p ?sh0)\<lparr>cmd_line := zero_filled ?t\<rparr>"
  let ?sh2 = "(kputs (FINSH_PROMPT @ ?t) ?sh1)\<lparr>line_position := length ?t, line_curpos := length ?t\<rparr>"
  have "c_text (cmd_line ?sh0) = Some (etext e)" "cmd_line ?sh0 = zero_filled (etext e)" "shell_parser ?sh0 = shell_parser sh"
    using x(1) c_text_zero_filled [OF x(2)] by (simp_all add: kputs_def)
  then have l: "list_prefix (env_desc env) ?sh0 = Some ?sh1" "good_text ?t" using complete_line [OF x(2), of ?sh0 "env_desc env"] g by simp_all
  have "tab_key (env_desc env) sh = Some ?sh2"
    using l c_text_zero_filled [OF l(2)] by (simp add: tab_key_def shell_auto_complete_def) (simp add: kputs_def)
  then have "shell_read env (9 # rest) (sh, vm) = shell_read env rest (?sh2, vm)" using x(3) by (simp add: control_key_def)
  moreover have "edits e' ?sh2" unfolding e' using e l(2) by (simp add: edits_def kputs_def)
  moreover have "displays e' (show_out (terminal ?sh2))"
  proof -
    let ?s = "put_bytes (replicate ?n 8) (show_out (terminal sh))"
    have "terminal ?sh2 = terminal (kputs (FINSH_PROMPT @ ?t) (kputs ?p ?sh0))" by (simp add: kputs_def)
    then have "show_out (terminal ?sh2) = put_bytes (FINSH_PROMPT @ ?t) (put_bytes (10 # ?p) ?s)" by (simp add: show_kputs)
    moreover have "esc ?s = []" using d put_backs [of "show_out (terminal sh)" ?n] by (simp add: displays_def)
    ultimately show ?thesis using displays_completed [OF _ search_rows [OF g], of ?s ?t e' "etext e"] l(2) e' by (simp add: good_text_def)
  qed
  ultimately show ?thesis by (auto simp: kputs_def)
qed

section \<open>Where the terminal fails\<close>

text \<open>A return with a character behind it in the buffer of the device is lost: the line is not run.\<close>

lemma return_before_char_is_lost:
  assumes "stat sh = WAIT_NORMAL" "printable c"
  shows "shell_read env (13 # c # rest) (sh, vm) = shell_read env (c # rest) (sh, vm)"
  using assms printable_simps [OF assms(2)] by (simp add: control_key_def text_key_def split: option.split)

text \<open>A line of 79 characters and the semicolon fill the 80 bytes, and the string that is run has no end.\<close>

lemma line_of_79_has_no_end:
  assumes e: "edits e sh" and t: "length (etext e) = 79"
  shows "enter_key env (sh, vm) = None"
proof -
  have x: "cmd_line sh = zero_filled (etext e)" "line_position sh = 79" "good_text (etext e)" using e t by (simp_all add: edits_def)
  have "zero_filled (etext e) = etext e @ [0]" using t by (simp add: zero_filled_def FINSH_CMD_SIZE_def)
  then have "set_byte 79 59 (zero_filled (etext e)) = Some (etext e @ [59])" using t by (simp add: set_byte_def list_update_append)
  moreover have "c_text (etext e @ [59]) = None" using good_text_nonzero [OF x(3)] by (simp add: c_text_def)
  ultimately show ?thesis using x(1,2) by (simp add: enter_key_def push_history_same)
qed

end
