(* ===== verification/RT_FinshProps.thy ===== *)
theory RT_FinshProps
  imports RT_FinshEdit
begin

text \<open>
  The properties of the shell. Each property with a hypothesis is followed by a witness.
\<close>

section \<open>An example\<close>

text \<open>
  A variable \<open>x\<close> and a system call \<open>f\<close> that adds its arguments; the line is
  \<open>x = 40 + 2; x++ * f(7, x);\<close>.
\<close>

definition demo_symbols :: finsh_symbols where
  "demo_symbols = \<lparr>global_variable = \<lparr>var_name = [120], var_data = finsh_type_int\<rparr> # [no_var, no_var, no_var, no_var, no_var, no_var, no_var], variable_base = 0x20000100,
     sysvar_table = [], global_sysvar_list = [], syscall_table = [([102], 0x8001000)], global_syscall_list = []\<rparr>"

definition demo_name :: "u32 \<Rightarrow> u8 list" where
  "demo_name a = (if a = 0x20000100 then [120] else [102])"

definition demo_tab :: symtab where
  "demo_tab = \<lparr>var_type = \<lambda>_. finsh_type_unknown, sysvar_type = \<lambda>_. finsh_type_unknown, sysvar_var = \<lambda>_. 0, syscall_func = id\<rparr>"

definition demo_sys :: syscalls where
  "demo_sys f args m = Some (sum_list args, m)"

definition demo_line :: "(width \<times> expr) list" where
  "demo_line = [(DWORD, Assign 0x20000100 (Op Add (Num 40) (Num 2))), (DWORD, Op Mul (Post Add 0x20000100) (Apply 0x8001000 [Num 7, Var 0x20000100]))]"

definition demo_parser :: finsh_parser where
  "demo_parser = \<lparr>token = finsh_token_init [] 0, nodes_used = 0, symbols = demo_symbols,
     string_heap = \<lparr>heap_base = 0x20001000, free_list = 0x20001000, allocate_list = 0\<rparr>, parser_ram = \<lambda>_. 0\<rparr>"

abbreviation demo_vm :: finsh_vm where
  "demo_vm \<equiv> \<lparr>vm_stack = replicate 64 7, sp = 3, vm_ram = \<lambda>_. 0\<rparr>"

lemma demo_find:
  "find_symbol [120] demo_symbols = Some (FINSH_IDTYPE_VAR, 0x20000100)" "find_symbol [102] demo_symbols = Some (FINSH_IDTYPE_SYSCALL, 0x8001000)"
  by (simp_all add: find_symbol_def finsh_var_lookup_def finsh_sysvar_lookup_def finsh_syscall_lookup_def demo_symbols_def
      same_name_def no_var_def FINSH_NAME_MAX_def variable_addr_def)

lemma demo_var_type: "var_type (symbols_tab demo_symbols demo_tab) 0x20000100 = finsh_type_int"
  by (simp add: symbols_tab_def demo_symbols_def variable_addr_def upt_rec)

lemma demo_shell_line: "shell_line demo_symbols demo_name demo_line"
  by (simp add: shell_line_def demo_line_def demo_name_def demo_find op_level_def line_words_def token_chars_def op_token_def
      good_name_def FINSH_NAME_MAX_def is_digit_def is_separator_def finsh_name_table_def FINSH_NODE_MAX_def)

lemma demo_line_code:
  "line_typed (symbols_tab demo_symbols demo_tab) demo_line" "length (line_code (symbols_tab demo_symbols demo_tab) demo_line) \<le> FINSH_TEXT_MAX"
  using demo_var_type
  by (simp_all add: line_typed_def demo_line_def var_ok_def load_width_def valued_def FINSH_TEXT_MAX_def FINSH_SET32_def one_code_def)

lemma demo_line_eval: "\<exists>m. line_eval demo_sys (symbols_tab demo_symbols demo_tab) demo_line (\<lambda>_. 0) = Some (2100, m)"
  by (simp add: demo_line_def symbols_tab_def demo_tab_def demo_sys_def bin_op_def wrap_def value_at_def union_get_def mem_get_def mem_set_def
      load32_store32 var_value_def)

section \<open>Properties\<close>



text \<open>C6 The parser ends on every line, whatever is written there: for fewer than 128 characters without quotes and line
  breaks that end in a semicolon, as the terminal makes them, it returns, with the same tree and the same
  state for every number of nested calls from 45 and 32 per character on, so that the calls never nest deeper. This
  holds for lines that are no expressions and for a table of nodes that is full; the tables of the system have
  names below 16 characters.\<close>

theorem parser_ends_on_every_line:
  assumes "good_line l" "syms_ok (symbols p)"
  shows "\<exists>e q. \<forall>n \<ge> 32 * length l + 45. finsh_parser_run n l p = Some (e, q)"
proof -
  obtain e q where "finsh_parser_run (32 * length l + 45) l p = Some (e, q)" using parser_run_ok [OF assms order_refl] by blast
  then show ?thesis using parser_run_more by blast
qed

text \<open>The line of the witness is \<open>int a = (1+) * * b , , x ( ( 3 ;\<close>.\<close>

theorem parser_ends_on_every_line_witness:
  "\<exists>e q. \<forall>n \<ge> 909. finsh_parser_run n [105, 110, 116, 32, 97, 61, 40, 49, 43, 41, 42, 42, 98, 44, 44, 32, 120, 32, 40, 40, 32, 32, 32, 32, 32, 51, 59] demo_parser = Some (e, q)"
proof -
  have "good_line [105, 110, 116, 32, 97, 61, 40, 49, 43, 41, 42, 42, 98, 44, 44, 32, 120, 32, 40, 40, 32, 32, 32, 32, 32, 51, 59]" by (simp add: good_line_def)
  moreover have "syms_ok (symbols demo_parser)" by (simp add: syms_ok_def demo_parser_def demo_symbols_def FINSH_NAME_MAX_def)
  ultimately show ?thesis using parser_ends_on_every_line by fastforce
qed

text \<open>C7 The terminal edits and runs what is typed. Keys are characters, backspace and the arrows, as the bytes
  the terminal sends, in any order as long as the line has room. The shell in a state that holds the text of
  an editor, and shows it behind the prompt on the screen, applies them as the editor does; the return key then
  hands the edited text with a semicolon to the interpreter, stores it as the last of the five lines of the
  history and leaves an empty line behind a fresh prompt.\<close>

theorem typed_line_is_run:
  assumes "edits e sh" "displays e (show_out (terminal sh))" "all_room ks e" "e' = fold edit ks e"
    and "etext e' \<noteq> []" "length (etext e') < 79" "return_bytes bs"
    and "finsh_run_line (env_calls env) (env_sys env) (env_tab env) (etext e' @ [59]) (shell_parser sh) vm = Some (out, p, vm')"
  shows "\<exists>sh1 sh'. (\<forall>rest vm. shell_read env (concat (map key_bytes ks) @ rest) (sh, vm) = shell_read env rest (sh1, vm))
     \<and> edits e' sh1 \<and> displays e' (show_out (terminal sh1))
     \<and> shell_read env (concat (map key_bytes ks) @ bs) (sh, vm) = Some ([], sh', vm')
     \<and> edits (submit e') sh' \<and> displays (submit e') (show_out (terminal sh')) \<and> shell_parser sh' = p \<and> Line_result out \<in> set (terminal sh')"
  using keys_ok [OF assms(1-3)] typed_line_ok [OF assms] assms(4) by blast

definition demo_shell :: finsh_shell where
  "demo_shell = (finsh_thread_start demo_parser)\<lparr>shell_parser := demo_parser\<rparr>"

text \<open>The keys of the example: \<open>=\<close> is typed first and \<open>x\<close> in front of it; then the rest of the line, with a wrong letter taken back.\<close>

definition demo_keys :: "key list" where
  "demo_keys = [Char_key 61, Left_key, Char_key 120, Char_key 32, Right_key, Char_key 57, Backspace_key] @ map Char_key (drop 3 (typed_text demo_name demo_line))"

lemma demo_typed: "typed_text demo_name demo_line =
    [120, 32, 61, 32, 52, 48, 32, 43, 32, 50, 32, 59, 32, 120, 32, 43, 43, 32, 42, 32, 102, 32, 40, 32, 55, 32, 44, 32, 120, 32, 41, 32]"
  by (simp add: typed_text_def lexemes_text_def line_words_def demo_line_def demo_name_def token_chars_def op_token_def decimal.simps)

lemma demo_keys_text: "all_room demo_keys blank_editor" "etext (fold edit demo_keys blank_editor) = typed_text demo_name demo_line"
  unfolding demo_keys_def demo_typed by (simp_all add: blank_editor_def printable_def)

theorem typed_line_is_run_witness:
  "\<exists>N u sh' vm'. shell_read \<lparr>env_calls = N, env_sys = demo_sys, env_tab = demo_tab, env_desc = \<lambda>_. []\<rparr>
      (concat (map key_bytes demo_keys) @ [13, 10]) (demo_shell, demo_vm) = Some ([], sh', vm')
     \<and> Line_result (value_output u) \<in> set (terminal sh') \<and> sint u = 2100"
proof -
  obtain m where "line_eval demo_sys (symbols_tab demo_symbols demo_tab) demo_line (\<lambda>_. 0) = Some (2100, m)" using demo_line_eval by blast
  moreover have "fst (last demo_line) = DWORD" by (simp add: demo_line_def)
  ultimately obtain N u p' s' where r: "finsh_run_line N demo_sys demo_tab (typed_text demo_name demo_line @ [59]) demo_parser demo_vm = Some (value_output u, p', s')"
    "sint u = 2100"
    using run_line_value [of demo_parser demo_name demo_line _ demo_tab demo_vm demo_sys 2100 m, OF _ _ _ refl] demo_shell_line demo_line_code
    by (auto simp: demo_parser_def finsh_token_init_def FINSH_ERROR_OK_def FINSH_STACK_MAX_def union_get_def line_text_def)
  let ?env = "\<lparr>env_calls = N, env_sys = demo_sys, env_tab = demo_tab, env_desc = \<lambda>_. []\<rparr>"
  have d: "edits blank_editor demo_shell" "displays blank_editor (show_out (terminal demo_shell))" "shell_parser demo_shell = demo_parser"
    using thread_start_edits [of demo_parser] thread_start_displays [of demo_parser] by (simp_all add: demo_shell_def edits_def)
  have "return_bytes [13, 10]" by (simp add: return_bytes_def)
  with typed_line_is_run [OF d(1,2) demo_keys_text(1) refl, of "[13, 10]" ?env demo_vm "value_output u" p' s'] demo_keys_text(2) r d(3) demo_typed
  show ?thesis by auto
qed

text \<open>C8 The tab key completes a name: when names that the shell knows, but for functions that begin with two
  underscores, begin with the text of the line, the line becomes the longest text that all of them begin with;
  otherwise, and for an empty line, it stays. The names are listed, and the screen shows the line again.\<close>

theorem tab_completes_common_prefix:
  assumes "edits e sh" "displays e (show_out (terminal sh))" "good_symbols (env_desc env) (symbols (shell_parser sh))"
    and "t = (if etext e = [] \<or> candidates (symbols (shell_parser sh)) (etext e) = {} then etext e
        else Longest_common_prefix (candidates (symbols (shell_parser sh)) (etext e)))"
  shows "\<exists>sh'. shell_read env (9 # rest) (sh, vm) = shell_read env rest (sh', vm) \<and> edits (e\<lparr>etext := t, cursor := length t\<rparr>) sh'
     \<and> displays (e\<lparr>etext := t, cursor := length t\<rparr>) (show_out (terminal sh')) \<and> shell_parser sh' = shell_parser sh"
  using tab_key_ok [OF assms(1-3) refl] unfolding assms(4) completed_def by blast

text \<open>The symbols of the witness are \<open>list_thread\<close>, \<open>list_timer\<close> and \<open>__l\<close>; \<open>l\<close> is completed to \<open>list_t\<close>.\<close>

definition demo_names :: finsh_symbols where
  "demo_names = demo_symbols\<lparr>syscall_table := [([108, 105, 115, 116, 95, 116, 104, 114, 101, 97, 100], 1), ([108, 105, 115, 116, 95, 116, 105, 109, 101, 114], 2), ([95, 95, 108], 3)]\<rparr>"

lemma demo_candidates: "candidates demo_names [108] = {[108, 105, 115, 116, 95, 116, 104, 114, 101, 97, 100], [108, 105, 115, 116, 95, 116, 105, 109, 101, 114]}"
  by (auto simp: candidates_def demo_names_def demo_symbols_def)

lemma demo_common: "Longest_common_prefix {[108, 105, 115, 116, 95, 116, 104, 114, 101, 97, 100], [108, 105, 115, 116, 95, 116, 105, 109, 101, 114 :: u8]} = [108, 105, 115, 116, 95, 116]"
  by (rule Longest_common_prefix_eq) (auto simp: prefix_Cons)

theorem tab_completes_common_prefix_witness:
  "\<exists>sh'. shell_read \<lparr>env_calls = 0, env_sys = demo_sys, env_tab = demo_tab, env_desc = \<lambda>_. []\<rparr> [9]
      (demo_shell\<lparr>shell_parser := demo_parser\<lparr>symbols := demo_names\<rparr>, cmd_line := zero_filled [108], line_position := 1, line_curpos := 1,
         terminal := map Byte (FINSH_PROMPT @ [108])\<rparr>, demo_vm) = Some ([], sh', demo_vm)
     \<and> cmd_line sh' = zero_filled [108, 105, 115, 116, 95, 116]"
proof -
  let ?env = "\<lparr>env_calls = 0, env_sys = demo_sys, env_tab = demo_tab, env_desc = \<lambda>_. []\<rparr>"
  let ?sh = "demo_shell\<lparr>shell_parser := demo_parser\<lparr>symbols := demo_names\<rparr>, cmd_line := zero_filled [108], line_position := 1, line_curpos := 1,
         terminal := map Byte (FINSH_PROMPT @ [108])\<rparr>"
  let ?e = "\<lparr>etext = [108], cursor = 1, past = [], recalled = 0\<rparr>"
  have "edits ?e ?sh" by (simp add: edits_def demo_shell_def finsh_thread_start_def good_text_def printable_def FINSH_CMD_SIZE_def)
  moreover have "displays ?e (show_out (terminal ?sh))" by (simp add: displays_def show_out_def FINSH_PROMPT_def put_byte_def)
  moreover have "good_symbols (env_desc ?env) (symbols (shell_parser ?sh))"
    by (simp add: good_symbols_def demo_names_def demo_symbols_def good_text_def printable_def FINSH_CMD_SIZE_def)
  ultimately obtain sh' where "shell_read ?env (9 # []) (?sh, demo_vm) = shell_read ?env [] (sh', demo_vm)"
    "edits (?e\<lparr>etext := [108, 105, 115, 116, 95, 116], cursor := length [108, 105, 115, 116, 95, 116 :: u8]\<rparr>) sh'"
    using tab_completes_common_prefix [of ?e ?sh ?env "[108, 105, 115, 116, 95, 116]" "[]" demo_vm] demo_candidates demo_common by auto
  then show ?thesis by (simp add: edits_def)
qed

end
