(* ===== verification/Spec2Isabelle.thy ===== *)
theory Spec2Isabelle
  imports RT_KernelProps RT_SystemProps RT_DataProps RT_MemHeapProps RT_IpcProps RT_PoolProps RT_DevProps RT_ServiceProps RT_FinshProps
begin

text \<open>
  Verification of RT-Thread on the STM32F401: the kernel, its synchronisation objects, its heap, the
  devices without hardware, and its command shell with editor and interpreter.

  \<^bold>\<open>The program.\<close> The kernel (\<open>src/\<close> of the repository, with \<open>include/\<close>) schedules threads of 32
  priorities, the most urgent ready one first and equals in turn. A timer interrupt advances a 32-bit
  tick, charges the time slice of the running thread and runs the timers that are due; every thread owns
  a timer that bounds its waiting. The objects of \<open>ipc.c\<close>, the memory pools and the objects of the device
  drivers keep lists of suspended threads and wake them through the scheduler. The heap of \<open>mem.c\<close>
  serves all of them. Devices are reached through a table of driver functions; the pipe is a driver
  that only needs the kernel, and the console prints formatted text to a device. The shell
  (\<open>components/finsh/\<close>) reads a line of C expressions: it scans, parses, type-checks and compiles the line
  to byte code and runs this on a stack machine that calls functions of the system.

  \<^bold>\<open>Conventions.\<close> Machine integers are words of their width, so that wrap-around is that of the code; sizes
  and addresses that are only compared and added below \<open>2 ^ 32\<close> are natural numbers. The global variables
  of the kernel are one record, \<open>kernel\<close> of \<open>RT_Kernel\<close>, and each function takes and returns it. Objects are
  named by numbers instead of addresses, but for the blocks of the heaps and of the memory pools, which are
  named by their 32-bit addresses; intrusive lists keep their nodes, links and the order of the
  updates, and memory that is read as bytes is a function from addresses to bytes. \<open>None\<close> is what has no
  further course in the code: a failed \<open>RT_ASSERT\<close>, a null pointer, an access behind a buffer, a loop
  that does not end. A theorem that says that a call returns proves that the value is not \<open>None\<close>. Loops
  whose end depends on the state are \<open>partial_function\<close>s, and their lemmas prove that they end when the
  invariant holds. A call that gives up the processor is split: it returns \<open>Block\<close> at its
  \<open>rt_schedule\<close>, and the definition with the suffix \<open>_resumed\<close> is the code behind it, which runs when the
  thread is the current one again; what other threads do in between is any sequence of calls. Sections
  with interrupts disabled are atomic, and disabling and enabling them is not part of the state. Hooks,
  which the configuration leaves out, and debug output are left out.

  \<^bold>\<open>Kernel.\<close> \<open>RT_Prelude\<close> has the vocabulary of \<open>rtdef.h\<close> and the lemmas on words, lists and options that
  the rest shares; \<open>RT_List\<close> the circular lists of \<open>rtservice.h\<close> with the representation predicate that
  all invariants use; \<open>RT_KService\<close> the bit search, string and memory routines of \<open>kservice.c\<close>, each
  equal to a plain specification. \<open>RT_Kernel\<close> is the state and its invariant \<open>kernel_inv\<close>: every
  thread is in at most one list, the ready lists are those of the ready threads and agree with the
  bitmap, the timer list is sorted across the wrap-around of the tick. \<open>RT_Scheduler\<close>, \<open>RT_Object\<close>,
  \<open>RT_Timer\<close>, \<open>RT_Thread\<close>, \<open>RT_Clock\<close> and \<open>RT_CpuPort\<close> are \<open>scheduler.c\<close>, \<open>object.c\<close>, \<open>timer.c\<close>,
  \<open>thread.c\<close> with \<open>idle.c\<close>, \<open>clock.c\<close> with \<open>irq.c\<close>, and the first stack frame of a thread; each operation has
  a lemma that it keeps the invariant and what it changes. The properties of \<open>RT_KernelProps\<close> say that the
  scheduler runs the most urgent thread, that a tick wakes exactly the threads that are due, how threads
  start, sleep, yield, change priority and exit.

  \<^bold>\<open>Heap.\<close> \<open>RT_Mem\<close> is \<open>mem.c\<close>, \<open>RT_MemInv\<close> its invariant (blocks tile the heap, no two free blocks are
  neighbours, \<open>lfree\<close> is the lowest free one) and \<open>RT_HeapClient\<close> a locale of what a client may rely on,
  interpreted by the allocator: any sequence of requests and releases keeps blocks disjoint.
  \<open>RT_HeapUtil\<close> has the aligned blocks and string copies. Properties in \<open>RT_DataProps\<close> and
  \<open>RT_ServiceProps\<close>: safety for every client, first fit (but for a last block
  that the request would fill exactly), \<open>rt_realloc\<close>, aligned blocks.
  \<open>RT_MemHeap\<close> is the alternative heap of \<open>memheap.c\<close>, several pools with a ring of blocks and a ring of free blocks;
  \<open>RT_MemHeapInv\<close> has its invariant, \<open>RT_MemHeapOps\<close> the proof that every operation keeps it, and
  \<open>RT_MemHeapClient\<close> interprets the contract of an allocator by each pool and by all pools together. Properties in
  \<open>RT_MemHeapProps\<close>: safety for every client and reallocation.

  \<^bold>\<open>Synchronisation.\<close> \<open>RT_Ipc\<close> has the waiting lists and the invariant \<open>ipc_inv\<close>, which extends that of the
  kernel by them; \<open>RT_Sem\<close>, \<open>RT_Mutex\<close>, \<open>RT_Event\<close>, \<open>RT_Mailbox\<close>, \<open>RT_Mq\<close> and \<open>RT_MemPool\<close> the objects of
  \<open>ipc.c\<close> and \<open>mempool.c\<close>; \<open>RT_DataQueue\<close> the completion and the data queue of the device drivers, and
  \<open>RT_RingBuffer\<close> their ring buffer. \<open>RT_Fifo\<close> is the contract of a bounded queue as a locale, interpreted
  by the mailbox buffer, the ring buffer and the data queue. \<open>RT_Demo\<close> is a small system that was started
  by the code of the model; the witnesses apply the properties to it. Properties in \<open>RT_IpcProps\<close> and
  \<open>RT_PoolProps\<close>: no lost wake-up and no lost flag, hand-over, priority inheritance, order of the buffers, a message queue
  under every interleaving of senders and receivers, and the error paths.

  \<^bold>\<open>Devices and console.\<close> \<open>RT_Device\<close> is \<open>device.c\<close>; what a driver promises is a locale, interpreted by the
  pipe. \<open>RT_Pipe\<close> is \<open>pipe.c\<close> and \<open>portal.c\<close>, \<open>RT_Printf\<close> the formatted printing and \<open>RT_Console\<close> the
  console. Properties in \<open>RT_DevProps\<close> and \<open>RT_ServiceProps\<close>: users counted over any sequence of whole
  calls (the framework holds no lock inside a call), a blocking read that gets the bytes of the next write,
  printing that stays in its buffer as long as the widths and strings of the format keep the output
  pointer from wrapping around, numbers that read back.

  \<^bold>\<open>System.\<close> \<open>RT_System\<close> composes the scheduler, the clock, the thread operations and the semaphores: a run
  is a list of calls, each made by the thread that runs at that moment, with clock ticks anywhere in
  between. The property of \<open>RT_SystemProps\<close> says that every call of every run returns and that the
  promises of the parts hold together after it.

  \<^bold>\<open>Shell interpreter.\<close> \<open>RT_FinshToken\<close> is the scanner, \<open>RT_FinshSyms\<close> the symbols and the heap for strings,
  \<open>RT_FinshParser\<close> the parser, \<open>RT_FinshCompiler\<close> type check and code generation, \<open>RT_FinshVm\<close> the machine.
  The functions of the parser for expressions call each other; \<open>parse\<close> counts how deep, and the count that
  is passed in is the fuel of the model. \<open>RT_FinshExpr\<close> gives expressions a meaning in C integers
  and proves that their code computes it; \<open>RT_FinshScan\<close> and \<open>RT_FinshRead\<close> prove that the text of an expression
  is scanned and parsed to that expression, and \<open>RT_FinshLine\<close> puts this together for a line. \<open>RT_FinshEnd\<close>,
  \<open>RT_FinshReturn\<close> and \<open>RT_FinshFuel\<close> are about every line, also a malformed one: the parser ends, a fuel of
  32 for each character and 45 for the line is enough, and more fuel gives the same result. The
  properties are in \<open>RT_FinshProps\<close>.

  \<^bold>\<open>Shell terminal.\<close> \<open>RT_FinshShell\<close> is the line editor of \<open>shell.c\<close> with its history, and the completion of names
  from \<open>cmd.c\<close>. \<open>RT_FinshEdit\<close> is the specification, a text with a cursor and a screen that shows it, with
  the proof that keys act on the buffers of the code as on the specification, that the
  return key hands over the text, and that completion gives the longest common prefix. Its last lemmas show
  where the code departs from this.

  \<^bold>\<open>Not modelled.\<close> Drivers of hardware, vendor libraries and start-up code: registers and interrupts of the
  chip. The context switch is assembly; the model keeps the thread that is switched to. lwIP and the
  file systems are third-party code. \<open>slab.c\<close> and \<open>module.c\<close> are not part of the
  configuration of the board. Of the shell, \<open>msh.c\<close> and the commands of \<open>cmd.c\<close> that print lists of kernel
  objects are left out: they only format the state.
\<close>

end
